(* ===== verification/Garnet_Prelude.thy ===== *)
theory Garnet_Prelude
  imports Main "HOL-Library.Multiset" "HOL-Library.Code_Target_Nat"
begin

text \<open>
  Shared vocabulary of the Garnet development: the error values that the C++ code
  reaches through \<open>assert\<close>, \<open>panic\<close>, \<open>fatal\<close>, null dereferences and out-of-range
  vector accesses, the result type every fallible handler returns, the loop combinator the
  handlers use for \<open>for\<close> loops over ports and queues, the integer helpers of
  \<open>base/intmath.hh\<close>, and the generic lemmas on them.
\<close>

named_theorems res_simps \<open>rewriting of results: bind, guards, vector accesses\<close>
named_theorems res_elims \<open>elimination of successful results, step by step\<close>
named_theorems garnet_defs \<open>unfolding of the operations of the components\<close>

section \<open>Errors and results\<close>

datatype sim_error =
    Assert_failed string
  | Panic string
  | Fatal string
  | Null_pointer string
  | Out_of_range
  | Div_by_zero

type_synonym 'a res = "sim_error + 'a"

text \<open>Sequential composition: an error stops the handler.\<close>

definition bindR :: "'a res \<Rightarrow> ('a \<Rightarrow> 'b res) \<Rightarrow> 'b res" where
  "bindR m f = (case m of Inl e \<Rightarrow> Inl e | Inr x \<Rightarrow> f x)"

text \<open>\<open>assert\<close>, \<open>panic_if\<close> and \<open>fatal_if\<close>: go on only when the condition holds.\<close>

definition guardR :: "bool \<Rightarrow> sim_error \<Rightarrow> 'a res \<Rightarrow> 'a res" where
  "guardR b e m = (if b then m else Inl e)"

text \<open>
  Evaluation unfolds both, so that what comes after a step is looked at only when the
  result of the step is known.
\<close>

declare bindR_def [code_unfold] guardR_def [code_unfold]

text \<open>
  Reading and writing a \<open>std::vector\<close> at an \<open>int\<close> index. The code indexes with
  signed values that use \<open>-1\<close> for ``none''; an access out of range is undefined
  behaviour in C++ and is the error \<open>Out_of_range\<close> here.
\<close>

definition nthR :: "'a list \<Rightarrow> int \<Rightarrow> 'a res" where
  "nthR xs i = (if 0 \<le> i \<and> i < int (length xs) then Inr (xs ! nat i) else Inl Out_of_range)"

definition setR :: "'a list \<Rightarrow> int \<Rightarrow> 'a \<Rightarrow> 'a list res" where
  "setR xs i x = (if 0 \<le> i \<and> i < int (length xs) then Inr (xs[nat i := x]) else Inl Out_of_range)"

definition modR :: "'a list \<Rightarrow> int \<Rightarrow> ('a \<Rightarrow> 'a res) \<Rightarrow> 'a list res" where
  "modR xs i f = bindR (nthR xs i) (\<lambda>x. bindR (f x) (setR xs i))"

text \<open>A \<open>for\<close> loop over a list of indices that threads a state and may fail.\<close>

fun foldR :: "('x \<Rightarrow> 's \<Rightarrow> 's res) \<Rightarrow> 'x list \<Rightarrow> 's \<Rightarrow> 's res" where
  "foldR f [] s = Inr s"
| "foldR f (x # xs) s = bindR (f x s) (foldR f xs)"

text \<open>The loop indices \<open>0, \<dots>, n - 1\<close> as C++ \<open>int\<close> values.\<close>

definition upto_int :: "nat \<Rightarrow> int list" where
  "upto_int n = map int [0..<n]"

section \<open>Machine arithmetic\<close>

text \<open>
  \<open>Tick\<close> is an unsigned 64-bit count; sums of simulated times stay far below
  \<open>2 ^ 64\<close> and are natural numbers here, but differences are taken modulo
  \<open>2 ^ 64\<close>, because they wrap when the subtrahend is larger.
\<close>

type_synonym tick = nat
type_synonym cycles = nat

definition tick_sub :: "tick \<Rightarrow> tick \<Rightarrow> tick" where
  "tick_sub a b = nat ((int a - int b) mod 2 ^ 64)"

definition tick_add :: "tick \<Rightarrow> tick \<Rightarrow> tick" where
  "tick_add a b = (a + b) mod 2 ^ 64"

text \<open>\<open>divCeil\<close> of \<open>base/intmath.hh\<close> on unsigned operands and on positive \<open>int\<close>s.\<close>

definition divCeil :: "nat \<Rightarrow> nat \<Rightarrow> nat" where
  "divCeil a b = (a + b - 1) div b"

definition divCeil_int :: "int \<Rightarrow> int \<Rightarrow> int" where
  "divCeil_int a b = (a + b - 1) div b"

text \<open>The round-robin step \<open>i++; if (i >= n) i = 0\<close> of the arbiters.\<close>

definition rr_step :: "int \<Rightarrow> int \<Rightarrow> int" where
  "rr_step n i = (if i + 1 \<ge> n then 0 else i + 1)"

section \<open>Lemmas on results\<close>

lemma bindR_Inr [simp]: "bindR (Inr x) f = f x"
  by (simp add: bindR_def)

lemma bindR_Inl [simp]: "bindR (Inl e) f = Inl e"
  by (simp add: bindR_def)

lemma bindR_eq_Inr [res_simps]: "bindR m f = Inr y \<longleftrightarrow> (\<exists>x. m = Inr x \<and> f x = Inr y)"
  by (cases m) (auto simp: bindR_def)

lemma bindR_eq_Inl: "bindR m f = Inl e \<longleftrightarrow> m = Inl e \<or> (\<exists>x. m = Inr x \<and> f x = Inl e)"
  by (cases m) (auto simp: bindR_def)

lemma bindR_InrE [res_elims]:
  assumes "bindR m f = Inr y"
  obtains x where "m = Inr x" "f x = Inr y"
  using assms by (auto simp: bindR_eq_Inr)

lemma bindR_assoc: "bindR (bindR m f) g = bindR m (\<lambda>x. bindR (f x) g)"
  by (cases m) auto

lemma guardR_True [simp]: "guardR True e m = m"
  by (simp add: guardR_def)

lemma guardR_False [simp]: "guardR False e m = Inl e"
  by (simp add: guardR_def)

lemma guardR_eq_Inr [res_simps]: "guardR b e m = Inr y \<longleftrightarrow> b \<and> m = Inr y"
  by (simp add: guardR_def)

lemma guardR_InrE [res_elims]:
  assumes "guardR b e m = Inr y"
  obtains "b" "m = Inr y"
  using assms by (auto simp: guardR_eq_Inr)

lemma if_InrE [res_elims]:
  assumes "(if b then m else n) = Inr y"
  obtains "b" "m = Inr y" | "\<not> b" "n = Inr y"
  using assms by (auto split: if_splits)

lemma case_prod_InrE [res_elims]:
  assumes "(case p of (a, b) \<Rightarrow> f a b) = Inr y"
  obtains a b where "p = (a, b)" "f a b = Inr y"
  using assms by (cases p) auto

lemma case_resE:
  assumes "case m of Inl e \<Rightarrow> False | Inr x \<Rightarrow> P x"
  obtains x where "m = Inr x" "P x"
  using assms by (cases m) auto

lemma case_resE2:
  assumes "case m of Inl e \<Rightarrow> False | Inr (x, y) \<Rightarrow> P x y"
  obtains x y where "m = Inr (x, y)" "P x y"
  using assms by (cases m) auto

lemma nthR_eq_Inr [res_simps]:
  "nthR xs i = Inr x \<longleftrightarrow> 0 \<le> i \<and> i < int (length xs) \<and> x = xs ! nat i"
  by (auto simp: nthR_def)

lemma setR_eq_Inr [res_simps]:
  "setR xs i x = Inr ys \<longleftrightarrow> 0 \<le> i \<and> i < int (length xs) \<and> ys = xs[nat i := x]"
  by (auto simp: setR_def)

lemma modR_eq_Inr [res_simps]:
  "modR xs i f = Inr ys \<longleftrightarrow>
    0 \<le> i \<and> i < int (length xs) \<and> (\<exists>x. f (xs ! nat i) = Inr x \<and> ys = xs[nat i := x])"
  by (auto simp: modR_def res_simps)

lemma nthR_in [simp]: "0 \<le> i \<Longrightarrow> i < int (length xs) \<Longrightarrow> nthR xs i = Inr (xs ! nat i)"
  by (simp add: nthR_def)

lemma setR_in [simp]: "0 \<le> i \<Longrightarrow> i < int (length xs) \<Longrightarrow> setR xs i x = Inr (xs[nat i := x])"
  by (simp add: setR_def)

lemma modR_in [simp]:
  "0 \<le> i \<Longrightarrow> i < int (length xs) \<Longrightarrow> f (xs ! nat i) = Inr x \<Longrightarrow> modR xs i f = Inr (xs[nat i := x])"
  by (simp add: modR_def)

lemma nthR_mem: "nthR xs i = Inr x \<Longrightarrow> x \<in> set xs"
  by (auto simp: res_simps)

lemma modR_length: "modR xs i f = Inr ys \<Longrightarrow> length ys = length xs"
  by (auto simp: res_simps)

lemma modR_all:
  assumes "modR xs i f = Inr ys" and "\<forall>x \<in> set xs. P x"
    and "\<And>x y. x \<in> set xs \<Longrightarrow> P x \<Longrightarrow> f x = Inr y \<Longrightarrow> P y"
  shows "\<forall>x \<in> set ys. P x"
proof -
  from assms(1) obtain y where i: "0 \<le> i" "i < int (length xs)"
    and y: "f (xs ! nat i) = Inr y" "ys = xs[nat i := y]" by (auto simp: modR_eq_Inr)
  then have "xs ! nat i \<in> set xs" by simp
  with assms(2,3) y(1) have "P y" by blast
  moreover have "set ys \<subseteq> insert y (set xs)" unfolding y(2) by (rule set_update_subset_insert)
  ultimately show ?thesis using assms(2) by blast
qed

text \<open>An invariant kept by every iteration holds after the loop.\<close>

lemma foldR_invariant:
  assumes "foldR f xs s = Inr t" and "P s"
    and "\<And>x s s'. x \<in> set xs \<Longrightarrow> P s \<Longrightarrow> f x s = Inr s' \<Longrightarrow> P s'"
  shows "P t"
  using assms
proof (induction xs arbitrary: s)
  case Nil
  then show ?case by simp
next
  case (Cons x xs)
  then obtain s' where s': "f x s = Inr s'" and t: "foldR f xs s' = Inr t"
    by (auto simp: res_simps)
  have "P s'" using Cons.prems(2,3) s' by (meson list.set_intros(1))
  with Cons.IH [OF t] Cons.prems(3) show ?case by (meson list.set_intros(2))
qed

lemma foldR_upto_int:
  assumes "foldR f (upto_int n) s = Inr t" and "P 0 s"
    and "\<And>k s s'. 0 \<le> k \<Longrightarrow> k < int n \<Longrightarrow> P k s \<Longrightarrow> f k s = Inr s' \<Longrightarrow> P (k + 1) s'"
  shows "P (int n) t"
proof -
  have "P (int m + int (length xs)) t'"
    if "foldR f xs s' = Inr t'" "P (int m) s'" "xs = map int [m..<m + length xs]" "m + length xs \<le> n" for m xs s' t'
    using that
  proof (induction xs arbitrary: m s')
    case Nil
    then show ?case by simp
  next
    case (Cons x xs)
    have x: "x = int m" "xs = map int [Suc m..<Suc m + length xs]"
      using Cons.prems(3) by (simp_all add: upt_conv_Cons del: upt_Suc)
    obtain s1 where s1: "f x s' = Inr s1" "foldR f xs s1 = Inr t'"
      using Cons.prems(1) by (auto elim: bindR_InrE)
    have "P (int m + 1) s1"
      using assms(3) [of "int m" s' s1] Cons.prems(2,4) s1(1) x(1) by simp
    then have "P (int (Suc m)) s1" by (simp add: add.commute)
    from Cons.IH [OF s1(2) this] x(2) Cons.prems(4) show ?case by (simp add: algebra_simps)
  qed
  from this [of "upto_int n" s t 0] assms(1,2) show ?thesis by (simp add: upto_int_def)
qed

lemma foldR_append: "foldR f (xs @ ys) s = bindR (foldR f xs s) (foldR f ys)"
proof (induction xs arbitrary: s)
  case Nil
  show ?case by simp
next
  case (Cons x xs)
  then have "foldR f (xs @ ys) = (\<lambda>s. bindR (foldR f xs s) (foldR f ys))" by (rule ext)
  then show ?case by (simp add: bindR_assoc)
qed

lemma foldR_total:
  assumes "P s" and "\<And>x s. x \<in> set xs \<Longrightarrow> P s \<Longrightarrow> \<exists>s'. f x s = Inr s' \<and> P s'"
  shows "\<exists>t. foldR f xs s = Inr t \<and> P t"
  using assms
proof (induction xs arbitrary: s)
  case Nil
  then show ?case by simp
next
  case (Cons x xs)
  from Cons.prems obtain s' where "f x s = Inr s'" and "P s'"
    by (meson list.set_intros(1))
  with Cons.IH [of s'] Cons.prems(2) show ?case
    by (metis bindR_Inr foldR.simps(2) list.set_intros(2))
qed

text \<open>A loop whose body never fails is an ordinary fold.\<close>

lemma foldR_pure:
  assumes "\<And>x s. x \<in> set xs \<Longrightarrow> f x s = Inr (g x s)"
  shows "foldR f xs s = Inr (fold g xs s)"
  using assms by (induction xs arbitrary: s) auto

lemma fold_collect:
  "fold (\<lambda>x acc. if P x then acc @ [h x] else acc) xs acc = acc @ map h (filter P xs)"
  by (induction xs arbitrary: acc) auto

lemma fold_min:
  fixes w :: "'x \<Rightarrow> 'o :: linorder"
  shows "fold (\<lambda>x m. if P x then (if w x \<le> m then w x else m) else m) xs m
    = Min (insert m (w ` {x \<in> set xs. P x}))"
proof (induction xs arbitrary: m)
  case Nil
  show ?case by simp
next
  case (Cons x xs)
  let ?A = "w ` {x \<in> set xs. P x}"
  have "Min (insert (if P x then (if w x \<le> m then w x else m) else m) ?A)
      = Min (insert m (w ` {y \<in> set (x # xs). P y}))"
  proof (cases "P x")
    case True
    then have A: "w ` {y \<in> set (x # xs). P y} = insert (w x) ?A" by auto
    have m: "(if w x \<le> m then w x else m) = min m (w x)" by (simp add: min_def) (meson linear)
    have "Min (insert (min m (w x)) ?A) = Min (insert m (insert (w x) ?A))"
    proof (cases "?A = {}")
      case True
      then show ?thesis unfolding True by simp
    next
      case False
      then show ?thesis by (simp add: Min_insert min.assoc del: Min_insert2)
    qed
    with True show ?thesis unfolding A m by simp
  next
    case False
    then have "{y \<in> set (x # xs). P y} = {y \<in> set xs. P y}" by auto
    with False show ?thesis by simp
  qed
  with Cons.IH show ?case by simp
qed

text \<open>A loop that replaces every element of a vector in place is a pointwise map.\<close>

lemma foldR_pointwise:
  assumes "\<And>i. i < length d \<Longrightarrow> f i (d ! i) = Inr (g i)"
  shows "foldR (\<lambda>i r. bindR (f i (r ! i)) (\<lambda>s. Inr (r[i := s]))) [0..<length d] d
    = Inr (map g [0..<length d])"
proof -
  let ?step = "\<lambda>i r. bindR (f i (r ! i)) (\<lambda>s. Inr (r[i := s]))"
  have "foldR ?step [0..<n] d = Inr (map g [0..<n] @ drop n d)" if "n \<le> length d" for n
    using that
  proof (induction n)
    case 0
    then show ?case by simp
  next
    case (Suc n)
    then have n: "n < length d" by simp
    have nth: "(map g [0..<n] @ drop n d) ! n = d ! n"
      using n by (simp add: nth_append)
    have "(map g [0..<n] @ drop n d)[n := g n] = map g [0..<Suc n] @ drop (Suc n) d"
      using n by (simp add: list_update_append Cons_nth_drop_Suc [symmetric])
    with Suc n nth assms show ?case by (simp add: foldR_append)
  qed
  from this [of "length d"] show ?thesis by simp
qed

lemma set_upto_int [simp]: "set (upto_int n) = {0..<int n}"
proof -
  have "x \<in> int ` {0..<n}" if "0 \<le> x" "x < int n" for x
    using that by (intro image_eqI [of _ _ "nat x"]) auto
  then show ?thesis by (auto simp: upto_int_def)
qed

lemma length_upto_int [simp]: "length (upto_int n) = n"
  by (simp add: upto_int_def)

lemma distinct_upto_int [simp]: "distinct (upto_int n)"
  by (simp add: upto_int_def distinct_map)

lemma upto_int_0 [simp]: "upto_int 0 = []"
  by (simp add: upto_int_def)

lemma upto_int_Suc: "upto_int (Suc n) = upto_int n @ [int n]"
  by (simp add: upto_int_def)

text \<open>Replacing one element changes a sum over the list by the difference at that place.\<close>

lemma sum_list_update_add:
  fixes g :: "'a \<Rightarrow> 'b :: comm_monoid_add"
  shows "i < length xs \<Longrightarrow> sum_list (map g (xs[i := y])) + g (xs ! i) = sum_list (map g xs) + g y"
proof (induction xs arbitrary: i)
  case Nil
  then show ?case by simp
next
  case (Cons x xs)
  then show ?case by (cases i) (auto simp: algebra_simps)
qed

lemma sum_list_update_same:
  fixes g :: "'a \<Rightarrow> 'b :: cancel_comm_monoid_add"
  assumes "i < length xs" and "g y = g (xs ! i)"
  shows "sum_list (map g (xs[i := y])) = sum_list (map g xs)"
  using sum_list_update_add [OF assms(1), of g y] assms(2) by simp

lemma upto_int_add: "upto_int (a + b) = upto_int a @ map (\<lambda>j. int a + j) (upto_int b)"
  by (induction b) (simp_all add: upto_int_Suc)

section \<open>Lemmas on arithmetic\<close>

lemma tick_sub_le: "b \<le> a \<Longrightarrow> a < 2 ^ 64 \<Longrightarrow> tick_sub a b = a - b"
  by (simp add: tick_sub_def of_nat_diff [symmetric] nat_mod_distrib del: of_nat_diff)

lemma tick_sub_wraps: "a < b \<Longrightarrow> b < 2 ^ 64 \<Longrightarrow> tick_sub a b = 2 ^ 64 - (b - a)"
proof -
  assume "a < b" and "b < 2 ^ 64"
  have "(int a - int b) mod 2 ^ 64 = (int a - int b + 2 ^ 64) mod 2 ^ 64" by simp
  also have "\<dots> = int a - int b + 2 ^ 64"
    using \<open>a < b\<close> \<open>b < 2 ^ 64\<close> by (intro mod_pos_pos_trivial) auto
  finally show ?thesis using \<open>a < b\<close> \<open>b < 2 ^ 64\<close> by (simp add: tick_sub_def)
qed

lemma divCeil_ge: "0 < b \<Longrightarrow> a \<le> divCeil a b * b"
proof -
  assume b: "0 < b"
  have "(a + b - 1) mod b < b" using b by simp
  moreover have "(a + b - 1) div b * b + (a + b - 1) mod b = a + b - 1"
    by (rule div_mult_mod_eq)
  ultimately show ?thesis using b unfolding divCeil_def by linarith
qed

lemma divCeil_less: "0 < b \<Longrightarrow> divCeil a b * b < a + b"
proof -
  assume b: "0 < b"
  have "(a + b - 1) div b * b \<le> a + b - 1" by (rule div_times_less_eq_dividend)
  then show ?thesis using b unfolding divCeil_def by linarith
qed

lemma divCeil_le_iff: "0 < b \<Longrightarrow> divCeil a b \<le> k \<longleftrightarrow> a \<le> k * b"
proof
  assume b: "0 < b" and "divCeil a b \<le> k"
  then have "divCeil a b * b \<le> k * b" by (intro mult_le_mono1)
  with divCeil_ge [OF b, of a] show "a \<le> k * b" by (rule order_trans)
next
  assume b: "0 < b" and "a \<le> k * b"
  with divCeil_less [OF b, of a] have "divCeil a b * b < (k + 1) * b" by simp
  with b show "divCeil a b \<le> k" by (simp only: mult_less_cancel2) simp
qed

lemma divCeil_mult_add: "0 < b \<Longrightarrow> divCeil (k * b + a) b = k + divCeil a b"
proof -
  assume b: "0 < b"
  have "k * b + a + b - 1 = (a + b - 1) + k * b" using b by simp
  then have "divCeil (k * b + a) b = ((a + b - 1) + k * b) div b"
    unfolding divCeil_def by (rule arg_cong)
  also have "\<dots> = k + (a + b - 1) div b" using b by (intro div_mult_self1) simp
  finally show ?thesis unfolding divCeil_def .
qed

lemma divCeil_0 [simp]: "0 < b \<Longrightarrow> divCeil 0 b = 0"
  by (simp add: divCeil_def)

lemma divCeil_mult [simp]: "0 < b \<Longrightarrow> divCeil (k * b) b = k"
  using divCeil_mult_add [of b k 0] by simp

lemma divCeil_int_of_nat: "0 < b \<Longrightarrow> divCeil_int (int a) (int b) = int (divCeil a b)"
  by (simp add: divCeil_int_def divCeil_def of_nat_diff zdiv_int)

lemma rr_step_range: "0 < n \<Longrightarrow> 0 \<le> i \<Longrightarrow> 0 \<le> rr_step n i \<and> rr_step n i < n"
  by (auto simp: rr_step_def)

lemma rr_step_mod: "0 \<le> i \<Longrightarrow> i < n \<Longrightarrow> rr_step n i = (i + 1) mod n"
proof (cases "i + 1 = n")
  case True
  then show ?thesis by (simp add: rr_step_def)
next
  case False
  assume "0 \<le> i" "i < n"
  with False show ?thesis by (simp add: rr_step_def)
qed

section \<open>Code that may not return\<close>

type_synonym 'a run = "'a res option"

definition retO :: "'a \<Rightarrow> 'a run" where
  "retO x = Some (Inr x)"

definition failO :: "sim_error \<Rightarrow> 'a run" where
  "failO e = Some (Inl e)"

definition bindO :: "'a run \<Rightarrow> ('a \<Rightarrow> 'b run) \<Rightarrow> 'b run" where
  "bindO m f = Option.bind m (\<lambda>r. case r of Inl e \<Rightarrow> Some (Inl e) | Inr x \<Rightarrow> f x)"

definition guardO :: "bool \<Rightarrow> sim_error \<Rightarrow> 'a run \<Rightarrow> 'a run" where
  "guardO b e m = (if b then m else failO e)"

declare bindO_def [code_unfold] guardO_def [code_unfold]

lemma bindO_retO [simp]: "bindO (retO x) f = f x"
  by (simp add: bindO_def retO_def)

lemma bindO_failO [simp]: "bindO (failO e) f = failO e"
  by (simp add: bindO_def failO_def)

lemma bindO_None [simp]: "bindO None f = None"
  by (simp add: bindO_def)

lemma retO_inject [simp]: "retO x = retO y \<longleftrightarrow> x = y"
  by (simp add: retO_def)

lemma failO_inject [simp]: "failO x = failO y \<longleftrightarrow> x = y"
  by (simp add: failO_def)

lemma retO_failO [simp]: "retO x \<noteq> failO e" "failO e \<noteq> retO x"
  "retO x \<noteq> None" "failO e \<noteq> None" "None \<noteq> retO x" "None \<noteq> failO e"
  by (simp_all add: retO_def failO_def)

lemma guardO_True [simp]: "guardO True e m = m"
  by (simp add: guardO_def)

lemma guardO_False [simp]: "guardO False e m = failO e"
  by (simp add: guardO_def)

lemma run_cases [case_names loops fails returns]:
  obtains "m = None" | e where "m = failO e" | x where "m = retO x"
  by (cases m) (auto simp: retO_def failO_def, metis sum.exhaust)

lemma bindO_eq_retO [res_simps]: "bindO m f = retO y \<longleftrightarrow> (\<exists>x. m = retO x \<and> f x = retO y)"
  by (cases m rule: run_cases) auto

lemma guardO_eq_retO [res_simps]: "guardO b e m = retO y \<longleftrightarrow> b \<and> m = retO y"
  by (simp add: guardO_def)

lemma bindO_retOE [res_elims]:
  assumes "bindO m f = retO y"
  obtains x where "m = retO x" "f x = retO y"
  using assms by (auto simp: bindO_eq_retO)

lemma guardO_retOE [res_elims]:
  assumes "guardO b e m = retO y"
  obtains "b" "m = retO y"
  using assms by (auto simp: guardO_eq_retO)

lemma bindO_mono [partial_function_mono]:
  assumes "mono_option m" "\<And>x. mono_option (\<lambda>g. f x g)"
  shows "mono_option (\<lambda>g. bindO (m g) (\<lambda>x. f x g))"
  unfolding bindO_def
proof (rule bind_mono [OF assms(1)])
  show "mono_option (\<lambda>g. case r of Inl e \<Rightarrow> Some (Inl e) | Inr x \<Rightarrow> f x g)" for r
    by (cases r) (simp_all add: assms(2) option.const_mono)
qed

lemma guardO_mono [partial_function_mono]:
  assumes "mono_option m"
  shows "mono_option (\<lambda>g. guardO b e (m g))"
  unfolding guardO_def by (cases b) (auto intro: assms option.const_mono)

end
