(* ===== verification/Clocked.thy ===== *)
theory Clocked
  imports Garnet_Prelude
begin

text \<open>
  Clocks and wakeups. \<open>Clocked\<close> (\<open>sim/clocked_object.hh\<close>) caches the next clock
  edge and its cycle number and brings the cache up to date on every query;
  \<open>Consumer\<close> (\<open>mem/ruby/common/Consumer.hh\<close>, \<open>Consumer.cc\<close>) keeps the set of
  ticks at which an object is to be woken and at most one scheduled event for the earliest
  of them. The queries of \<open>Clocked\<close> are shown to compute the cache-free
  \<open>clock_edge\<close>, which the other theories use; a \<open>Consumer\<close> is shown never to
  lose a requested wakeup and never to fail the assertion of \<open>processCurrentEvent\<close>
  when requests are not in the past.
\<close>

section \<open>Clocked objects\<close>

record clocked =
  clk_tick :: tick
  clk_cycle :: cycles
  clk_period :: nat

definition clocked_init :: "nat \<Rightarrow> clocked" where
  "clocked_init p = \<lparr>clk_tick = 0, clk_cycle = 0, clk_period = p\<rparr>"

definition clocked_update :: "tick \<Rightarrow> clocked \<Rightarrow> clocked" where
  "clocked_update now c =
    (if clk_tick c \<ge> now then c
     else
       let c1 = c\<lparr>clk_tick := clk_tick c + clk_period c, clk_cycle := clk_cycle c + 1\<rparr>
       in if clk_tick c1 \<ge> now then c1
          else
            let elapsed = divCeil (tick_sub now (clk_tick c1)) (clk_period c1)
            in c1\<lparr>clk_cycle := clk_cycle c1 + elapsed,
                  clk_tick := clk_tick c1 + elapsed * clk_period c1\<rparr>)"

definition clocked_resetClock :: "tick \<Rightarrow> clocked \<Rightarrow> clocked" where
  "clocked_resetClock now c =
    (let elapsed = divCeil now (clk_period c)
     in c\<lparr>clk_cycle := elapsed, clk_tick := elapsed * clk_period c\<rparr>)"

text \<open>The queries return their result with the refreshed cache.\<close>

definition clocked_clockEdge :: "tick \<Rightarrow> cycles \<Rightarrow> clocked \<Rightarrow> tick \<times> clocked" where
  "clocked_clockEdge now n c =
    (let c' = clocked_update now c in (clk_tick c' + clk_period c' * n, c'))"

definition clocked_curCycle :: "tick \<Rightarrow> clocked \<Rightarrow> cycles \<times> clocked" where
  "clocked_curCycle now c = (let c' = clocked_update now c in (clk_cycle c', c'))"

definition clocked_nextCycle :: "tick \<Rightarrow> clocked \<Rightarrow> tick \<times> clocked" where
  "clocked_nextCycle now c = clocked_clockEdge now 1 c"

definition clocked_ticksToCycles :: "tick \<Rightarrow> clocked \<Rightarrow> cycles" where
  "clocked_ticksToCycles t c = divCeil t (clk_period c)"

definition clocked_cyclesToTicks :: "cycles \<Rightarrow> clocked \<Rightarrow> tick" where
  "clocked_cyclesToTicks n c = clk_period c * n"

text \<open>The specification of the queries: the first edge at or after \<open>now\<close>.\<close>

definition clock_edge :: "nat \<Rightarrow> tick \<Rightarrow> cycles \<Rightarrow> tick" where
  "clock_edge p now n = divCeil now p * p + p * n"

definition cur_cycle :: "nat \<Rightarrow> tick \<Rightarrow> cycles" where
  "cur_cycle p now = divCeil now p"

text \<open>
  The cache is the edge number \<open>clk_cycle\<close>, and is not ahead of the next edge of the
  present tick. Ticks are below \<open>2 ^ 64\<close>.
\<close>

definition clocked_ok :: "tick \<Rightarrow> clocked \<Rightarrow> bool" where
  "clocked_ok now c \<longleftrightarrow>
    0 < clk_period c \<and> clk_tick c = clk_cycle c * clk_period c \<and>
    clk_tick c < now + clk_period c \<and> now < 2 ^ 64"

section \<open>Consumers\<close>

text \<open>
  \<open>m_wakeup_ticks\<close> is a \<open>std::set\<close>: an ascending list without repetitions.
  \<open>con_event\<close> is the time of \<open>m_wakeup_event\<close> when it is scheduled.
\<close>

record consumer =
  con_wakeup_ticks :: "tick list"
  con_event :: "tick option"
  con_period :: nat

definition consumer_init :: "nat \<Rightarrow> consumer" where
  "consumer_init p = \<lparr>con_wakeup_ticks = [], con_event = None, con_period = p\<rparr>"

definition alreadyScheduled :: "tick \<Rightarrow> consumer \<Rightarrow> bool" where
  "alreadyScheduled t c \<longleftrightarrow> t \<in> set (con_wakeup_ticks c)"

definition scheduleNextWakeup :: "tick \<Rightarrow> consumer \<Rightarrow> consumer" where
  "scheduleNextWakeup now c =
    (case find (\<lambda>t. clock_edge (con_period c) now 0 \<le> t) (con_wakeup_ticks c) of
       None \<Rightarrow> c
     | Some w \<Rightarrow>
         (case con_event c of
            Some e \<Rightarrow> if w < e then c\<lparr>con_event := Some w\<rparr> else c
          | None \<Rightarrow> c\<lparr>con_event := Some w\<rparr>))"

definition scheduleEvent :: "tick \<Rightarrow> cycles \<Rightarrow> consumer \<Rightarrow> consumer" where
  "scheduleEvent now d c =
    scheduleNextWakeup now
      (c\<lparr>con_wakeup_ticks :=
          insort_insert (clock_edge (con_period c) now d) (con_wakeup_ticks c)\<rparr>)"

definition scheduleEventAbsolute :: "tick \<Rightarrow> tick \<Rightarrow> consumer \<Rightarrow> consumer" where
  "scheduleEventAbsolute now t c =
    scheduleNextWakeup now
      (c\<lparr>con_wakeup_ticks :=
          insort_insert (divCeil t (con_period c) * con_period c) (con_wakeup_ticks c)\<rparr>)"

text \<open>
  The event fires (and is no longer scheduled), the current tick is removed, \<open>wakeup\<close>
  runs and may request further wakeups of the same consumer, and the next event is set up.
\<close>

definition processCurrentEvent ::
    "tick \<Rightarrow> ('s \<times> consumer \<Rightarrow> ('s \<times> consumer) res) \<Rightarrow> 's \<times> consumer \<Rightarrow> ('s \<times> consumer) res" where
  "processCurrentEvent now wakeup sc =
    (case con_wakeup_ticks (snd sc) of
       [] \<Rightarrow> Inl (Null_pointer ''m_wakeup_ticks.begin()'')
     | t # ts \<Rightarrow>
         guardR (clock_edge (con_period (snd sc)) now 0 = t)
           (Assert_failed ''em->clockEdge() == *curr'')
           (bindR (wakeup (fst sc, (snd sc)\<lparr>con_wakeup_ticks := ts, con_event := None\<rparr>))
             (\<lambda>sc'. Inr (fst sc', scheduleNextWakeup now (snd sc')))))"

text \<open>
  Well-formed at \<open>now\<close>: the pending ticks are clock edges, none in the past, and the
  event is scheduled for the first of them. \<open>consumer_busy\<close> is the weaker state inside
  \<open>wakeup\<close>, where the event is not yet scheduled when nothing was requested.
\<close>

definition consumer_busy :: "tick \<Rightarrow> consumer \<Rightarrow> bool" where
  "consumer_busy now c \<longleftrightarrow>
    0 < con_period c \<and> sorted (con_wakeup_ticks c) \<and> distinct (con_wakeup_ticks c) \<and>
    (\<forall>t \<in> set (con_wakeup_ticks c). con_period c dvd t \<and> now \<le> t) \<and>
    (\<forall>e. con_event c = Some e \<longrightarrow>
       con_wakeup_ticks c \<noteq> [] \<and> e = hd (con_wakeup_ticks c))"

definition consumer_ok :: "tick \<Rightarrow> consumer \<Rightarrow> bool" where
  "consumer_ok now c \<longleftrightarrow>
    consumer_busy now c \<and> (con_wakeup_ticks c \<noteq> [] \<longrightarrow> con_event c \<noteq> None)"

section \<open>Correctness of the clock cache\<close>

lemma divCeil_least: "0 < p \<Longrightarrow> now \<le> k * p \<Longrightarrow> k * p < now + p \<Longrightarrow> divCeil now p = k"
proof -
  assume p: "0 < p" and le: "now \<le> k * p" and less: "k * p < now + p"
  have "divCeil now p \<le> k" using p le by (simp add: divCeil_le_iff)
  moreover have "\<not> divCeil now p < k"
  proof
    assume "divCeil now p < k"
    then have "(divCeil now p + 1) * p \<le> k * p" by (intro mult_le_mono1) simp
    with divCeil_ge [OF p, of now] less show False by simp
  qed
  ultimately show ?thesis by simp
qed

lemma clocked_update_edge:
  assumes "clocked_ok now c"
  shows "clk_cycle (clocked_update now c) = divCeil now (clk_period c)
    \<and> clk_tick (clocked_update now c) = divCeil now (clk_period c) * clk_period c
    \<and> clk_period (clocked_update now c) = clk_period c"
proof -
  let ?p = "clk_period c" and ?k = "clk_cycle c"
  from assms have p: "0 < ?p" and t: "clk_tick c = ?k * ?p"
    and ahead: "?k * ?p < now + ?p" and now: "now < 2 ^ 64"
    by (auto simp: clocked_ok_def)
  consider "now \<le> ?k * ?p" | "?k * ?p < now" "now \<le> (?k + 1) * ?p" | "(?k + 1) * ?p < now"
    by linarith
  then show ?thesis
  proof cases
    case 1
    with p ahead have "divCeil now ?p = ?k" by (intro divCeil_least)
    with 1 t show ?thesis by (simp add: clocked_update_def)
  next
    case 2
    with p have "divCeil now ?p = ?k + 1" by (intro divCeil_least) auto
    with 2 t show ?thesis by (auto simp: clocked_update_def Let_def algebra_simps)
  next
    case 3
    let ?d = "now - (?k + 1) * ?p"
    from 3 now have sub: "tick_sub now ((?k + 1) * ?p) = ?d"
      by (intro tick_sub_le) auto
    from 3 have "now = (?k + 1) * ?p + ?d" by simp
    then have "divCeil now ?p = ?k + 1 + divCeil ?d ?p"
      using divCeil_mult_add [OF p, of "?k + 1" ?d] by simp
    with 3 t sub show ?thesis
      by (auto simp: clocked_update_def Let_def algebra_simps)
  qed
qed

lemma clocked_update_ok:
  assumes "clocked_ok now c" and "now \<le> now'" and "now' < 2 ^ 64"
  shows "clocked_ok now' (clocked_update now c)"
proof -
  have "0 < clk_period c" using assms(1) by (simp add: clocked_ok_def)
  from divCeil_less [OF this, of now] clocked_update_edge [OF assms(1)] assms(2,3) \<open>0 < clk_period c\<close>
  show ?thesis by (simp add: clocked_ok_def)
qed

lemma clocked_init_ok: "0 < p \<Longrightarrow> now < 2 ^ 64 \<Longrightarrow> clocked_ok now (clocked_init p)"
  by (simp add: clocked_ok_def clocked_init_def)

lemma clocked_resetClock_ok:
  "0 < clk_period c \<Longrightarrow> now < 2 ^ 64 \<Longrightarrow> clocked_ok now (clocked_resetClock now c)"
  using divCeil_less [of "clk_period c" now]
  by (simp add: clocked_ok_def clocked_resetClock_def Let_def)

lemma clock_edge_ge: "0 < p \<Longrightarrow> now \<le> clock_edge p now n"
  using divCeil_ge [of p now] by (simp add: clock_edge_def)

lemma clock_edge_dvd [simp]: "p dvd clock_edge p now n"
  by (simp add: clock_edge_def)

lemma clock_edge_least: "0 < p \<Longrightarrow> p dvd t \<Longrightarrow> now \<le> t \<Longrightarrow> clock_edge p now 0 \<le> t"
  by (metis (no_types, lifting) add.right_neutral clock_edge_def divCeil_le_iff dvd_def
      mult.commute mult_0_right mult_le_mono1)

lemma clock_edge_at_edge: "0 < p \<Longrightarrow> p dvd now \<Longrightarrow> clock_edge p now n = now + p * n"
  by (auto simp: clock_edge_def elim!: dvdE simp: mult.commute [of p])

lemma clock_edge_mono: "0 < p \<Longrightarrow> m \<le> n \<Longrightarrow> clock_edge p now m \<le> clock_edge p now n"
  by (simp add: clock_edge_def)

section \<open>Correctness of the wakeup schedule\<close>

lemma find_sorted_first:
  assumes "sorted ts" and "\<forall>t \<in> set ts. b \<le> t"
  shows "find (\<lambda>t. b \<le> t) ts = (case ts of [] \<Rightarrow> None | t # _ \<Rightarrow> Some t)"
  using assms by (cases ts) auto

lemma consumer_busy_edges:
  "consumer_busy now c \<Longrightarrow> \<forall>t \<in> set (con_wakeup_ticks c). clock_edge (con_period c) now 0 \<le> t"
  by (auto simp: consumer_busy_def intro: clock_edge_least)

text \<open>
  \<open>scheduleNextWakeup\<close> re-establishes the scheduled event after any change of the
  pending ticks that keeps them sorted and in the future, as long as an event that is
  scheduled is for a tick that is still pending.
\<close>

lemma scheduleNextWakeup_ok:
  assumes "0 < con_period c" and "sorted (con_wakeup_ticks c)" and "distinct (con_wakeup_ticks c)"
    and "\<forall>t \<in> set (con_wakeup_ticks c). con_period c dvd t \<and> now \<le> t"
    and "\<forall>e. con_event c = Some e \<longrightarrow> e \<in> set (con_wakeup_ticks c)"
  shows "consumer_ok now (scheduleNextWakeup now c)"
proof -
  have edges: "\<forall>t \<in> set (con_wakeup_ticks c). clock_edge (con_period c) now 0 \<le> t"
    using assms(1,4) by (auto intro: clock_edge_least)
  note find = find_sorted_first [OF assms(2) edges]
  show "consumer_ok now (scheduleNextWakeup now c)"
  proof (cases "con_wakeup_ticks c")
    case Nil
    with assms(5) have "con_event c = None" by (cases "con_event c") auto
    with Nil assms(1) show ?thesis
      by (simp add: scheduleNextWakeup_def consumer_ok_def consumer_busy_def)
  next
    case (Cons t ts)
    then have "\<forall>e \<in> set (con_wakeup_ticks c). t \<le> e" using assms(2) by auto
    with assms(5) have "\<forall>e. con_event c = Some e \<longrightarrow> t \<le> e" by blast
    with Cons find assms(1-4) show ?thesis
      by (auto simp: scheduleNextWakeup_def consumer_ok_def consumer_busy_def split: option.splits)
  qed
qed

lemma scheduleNextWakeup_frame [simp]:
  "con_wakeup_ticks (scheduleNextWakeup now c) = con_wakeup_ticks c"
  "con_period (scheduleNextWakeup now c) = con_period c"
  by (auto simp: scheduleNextWakeup_def split: option.splits)

lemma insort_insert_pending:
  assumes "consumer_busy now c" and "con_period c dvd t" and "now \<le> t"
  shows "consumer_ok now (scheduleNextWakeup now
           (c\<lparr>con_wakeup_ticks := insort_insert t (con_wakeup_ticks c)\<rparr>))"
    and "set (con_wakeup_ticks (scheduleNextWakeup now
           (c\<lparr>con_wakeup_ticks := insort_insert t (con_wakeup_ticks c)\<rparr>))) =
         insert t (set (con_wakeup_ticks c))"
  using assms
  by (auto simp: consumer_busy_def set_insort_insert
      sorted_insort_insert distinct_insort_insert intro!: scheduleNextWakeup_ok)

lemma scheduleEvent_pending:
  assumes "consumer_busy now c"
  shows "consumer_ok now (scheduleEvent now d c)"
    and "set (con_wakeup_ticks (scheduleEvent now d c)) =
         insert (clock_edge (con_period c) now d) (set (con_wakeup_ticks c))"
  using insort_insert_pending [OF assms, of "clock_edge (con_period c) now d"] assms
  by (auto simp: scheduleEvent_def consumer_busy_def clock_edge_ge)

lemma scheduleEventAbsolute_pending:
  assumes "consumer_busy now c" and "now \<le> t"
  shows "consumer_ok now (scheduleEventAbsolute now t c)"
    and "set (con_wakeup_ticks (scheduleEventAbsolute now t c)) =
         insert (divCeil t (con_period c) * con_period c) (set (con_wakeup_ticks c))"
proof -
  have "now \<le> divCeil t (con_period c) * con_period c"
    using divCeil_ge [of "con_period c" t] assms by (auto simp: consumer_busy_def)
  with insort_insert_pending [OF assms(1), of "divCeil t (con_period c) * con_period c"]
  show "consumer_ok now (scheduleEventAbsolute now t c)"
    and "set (con_wakeup_ticks (scheduleEventAbsolute now t c)) =
         insert (divCeil t (con_period c) * con_period c) (set (con_wakeup_ticks c))"
    by (auto simp: scheduleEventAbsolute_def)
qed

lemma schedule_period [simp]:
  "con_period (scheduleEvent now d c) = con_period c"
  "con_period (scheduleEventAbsolute now t c) = con_period c"
  by (simp_all add: scheduleEvent_def scheduleEventAbsolute_def)

text \<open>Time may advance to the scheduled event and no further.\<close>

lemma consumer_ok_advance:
  assumes "consumer_ok now c" and "now \<le> now'" and "\<forall>e. con_event c = Some e \<longrightarrow> now' \<le> e"
  shows "consumer_ok now' c"
proof (cases "con_wakeup_ticks c")
  case Nil
  with assms(1) show ?thesis by (auto simp: consumer_ok_def consumer_busy_def)
next
  case (Cons t ts)
  with assms(1) have "con_event c = Some t" by (auto simp: consumer_ok_def consumer_busy_def)
  with assms(3) have "now' \<le> t" by simp
  moreover have "\<forall>e \<in> set (con_wakeup_ticks c). t \<le> e"
    using Cons assms(1) by (auto simp: consumer_ok_def consumer_busy_def)
  ultimately show ?thesis using assms(1) Cons
    by (fastforce simp: consumer_ok_def consumer_busy_def)
qed

text \<open>
  What \<open>wakeup\<close> may do to its own consumer while it runs: request wakeups that are
  not in the past, so that the pending ticks only grow.
\<close>

definition wakeup_grows :: "tick \<Rightarrow> ('s \<times> consumer \<Rightarrow> ('s \<times> consumer) res) \<Rightarrow> bool" where
  "wakeup_grows now w \<longleftrightarrow>
    (\<forall>s c. consumer_busy now c \<longrightarrow>
      (\<exists>s' c'. w (s, c) = Inr (s', c') \<and> consumer_busy now c' \<and>
         set (con_wakeup_ticks c) \<subseteq> set (con_wakeup_ticks c')))"

lemma consumer_busy_hd:
  assumes "consumer_busy now c"
  shows "con_event c = Some e \<Longrightarrow> e \<in> set (con_wakeup_ticks c)"
  using assms by (auto simp: consumer_busy_def)

section \<open>Properties\<close>

text \<open>
  The cached clock of \<open>Clocked\<close> answers \<open>clockEdge(n)\<close> and \<open>curCycle()\<close> with
  the first clock edge at or after the current tick (plus \<open>n\<close> periods) and its number,
  whatever state the cache was left in by earlier queries, and leaves the cache valid for
  every later tick.
\<close>

theorem clocked_queries_refine_clock_edge:
  assumes "clocked_ok now c" and "now \<le> later" and "later < 2 ^ 64"
  shows "fst (clocked_clockEdge now n c) = clock_edge (clk_period c) now n
    \<and> fst (clocked_curCycle now c) = cur_cycle (clk_period c) now
    \<and> fst (clocked_nextCycle now c) = clock_edge (clk_period c) now 1
    \<and> clocked_ok later (snd (clocked_clockEdge now n c))
    \<and> clocked_ok later (snd (clocked_curCycle now c))"
  using clocked_update_edge [OF assms(1)] clocked_update_ok [OF assms]
  by (simp_all add: clocked_clockEdge_def clocked_curCycle_def clocked_nextCycle_def Let_def
      clock_edge_def cur_cycle_def)

theorem clocked_queries_refine_clock_edge_witness:
  "clocked_ok 17 \<lparr>clk_tick = 5, clk_cycle = 1, clk_period = 5\<rparr>
   \<and> fst (clocked_clockEdge 17 2 \<lparr>clk_tick = 5, clk_cycle = 1, clk_period = 5\<rparr>) = 30"
proof -
  have ok: "clocked_ok 17 \<lparr>clk_tick = 5, clk_cycle = 1, clk_period = 5\<rparr>"
    by (simp add: clocked_ok_def)
  have "clock_edge 5 17 2 = 30" by (simp add: clock_edge_def divCeil_def)
  with ok clocked_queries_refine_clock_edge [OF ok, of 20 2] show ?thesis by simp
qed

text \<open>
  C40: no wakeup is lost. When the scheduled event of a consumer fires at its time \<open>e\<close>,
  \<open>processCurrentEvent\<close> does not fail its assertion: it takes the tick \<open>e\<close>, the first of the
  requested ones, off the list, calls \<open>wakeup\<close> on the state and the consumer so changed, and its
  result is the state \<open>wakeup\<close> left and the consumer \<open>wakeup\<close> left with the next wakeup set
  up. All other requested ticks and those \<open>wakeup\<close> asked for are pending, and the event is
  scheduled for the earliest of them. The hypothesis on \<open>wakeup\<close> is that it returns and only
  adds ticks that are not in the past to its consumer.
\<close>

theorem processCurrentEvent_keeps_wakeups:
  assumes "consumer_ok now c" and "now \<le> e" and "con_event c = Some e"
    and "wakeup_grows e w"
  shows "\<exists>ts s1 c1. con_wakeup_ticks c = e # ts \<and>
    w (s, c\<lparr>con_wakeup_ticks := ts, con_event := None\<rparr>) = Inr (s1, c1) \<and>
    set ts \<subseteq> set (con_wakeup_ticks c1) \<and>
    processCurrentEvent e w (s, c) = Inr (s1, scheduleNextWakeup e c1) \<and>
    con_wakeup_ticks (scheduleNextWakeup e c1) = con_wakeup_ticks c1 \<and>
    consumer_ok e (scheduleNextWakeup e c1)"
proof -
  from assms(1-3) have ok: "consumer_ok e c" by (auto intro: consumer_ok_advance)
  then obtain ts where ticks: "con_wakeup_ticks c = e # ts" and p: "0 < con_period c"
    and dvd: "con_period c dvd e"
    using assms(3) by (cases "con_wakeup_ticks c") (auto simp: consumer_ok_def consumer_busy_def)
  let ?c = "c\<lparr>con_wakeup_ticks := ts, con_event := None\<rparr>"
  from ok ticks have "consumer_busy e ?c"
    by (auto simp: consumer_ok_def consumer_busy_def)
  then have "\<exists>s' c'. w (s, ?c) = Inr (s', c') \<and> consumer_busy e c' \<and>
      set (con_wakeup_ticks ?c) \<subseteq> set (con_wakeup_ticks c')"
    using assms(4) unfolding wakeup_grows_def by blast
  then obtain s' c' where w: "w (s, ?c) = Inr (s', c')" and busy: "consumer_busy e c'"
    and sub: "set ts \<subseteq> set (con_wakeup_ticks c')"
    by auto
  from busy have "consumer_ok e (scheduleNextWakeup e c')"
    by (intro scheduleNextWakeup_ok) (auto simp: consumer_busy_def)
  moreover have "con_wakeup_ticks (scheduleNextWakeup e c') = con_wakeup_ticks c'"
    by (simp add: scheduleNextWakeup_def split: option.splits)
  moreover have "processCurrentEvent e w (s, c) = Inr (s', scheduleNextWakeup e c')"
    using ticks p dvd w by (simp add: processCurrentEvent_def clock_edge_at_edge)
  ultimately show ?thesis using ticks w sub by blast
qed

theorem processCurrentEvent_keeps_wakeups_witness:
  "\<exists>c'. processCurrentEvent 10 (\<lambda>(s, c). Inr (Suc s, scheduleEvent 10 1 c))
      (0, \<lparr>con_wakeup_ticks = [10, 20], con_event = Some 10, con_period = 5\<rparr>) = Inr (1, c')
    \<and> 20 \<in> set (con_wakeup_ticks c')"
proof -
  let ?c = "\<lparr>con_wakeup_ticks = [10, 20], con_event = Some 10, con_period = 5\<rparr>"
  have ok: "consumer_ok 7 ?c" by (simp add: consumer_ok_def consumer_busy_def)
  have grows: "wakeup_grows 10 (\<lambda>(s, c). Inr (Suc s, scheduleEvent 10 1 c))"
    by (auto simp: wakeup_grows_def scheduleEvent_pending
        dest: scheduleEvent_pending(1) simp: consumer_ok_def)
  from processCurrentEvent_keeps_wakeups [OF ok _ _ grows, of 0] show ?thesis by auto
qed

end
