(* ===== verification/NetDest.thy ===== *)
theory NetDest
  imports Garnet_Prelude
begin

text \<open>
  Destination sets. \<open>Set\<close> (\<open>mem/ruby/common/Set.hh\<close>) is a fixed-width bit vector with
  a size in use; \<open>NetDest\<close> (\<open>mem/ruby/common/NetDest.cc\<close>) is one such set per machine
  type. Both are shown to implement finite sets through the interface \<open>dest_set\<close>, and
  the enumeration \<open>getAllDest\<close> is shown to list every member once, by its global node
  number, from which the network interface recovers the member.
\<close>

section \<open>Set\<close>

record rset =
  rs_nSize :: nat
  rs_bits :: "bool list"

definition set_setSize :: "nat \<Rightarrow> rset \<Rightarrow> rset res" where
  "set_setSize sz s =
    guardR (sz \<le> length (rs_bits s)) (Fatal ''Increase the number of bits and recompile.'')
      (Inr (s\<lparr>rs_nSize := sz, rs_bits := replicate (length (rs_bits s)) False\<rparr>))"

text \<open>\<open>Set(size)\<close> over \<open>NUMBER_BITS_PER_SET = nbits\<close>; \<open>Set()\<close> is \<open>set_new nbits 0\<close>.\<close>

definition set_new :: "nat \<Rightarrow> nat \<Rightarrow> rset res" where
  "set_new nbits sz =
    guardR (sz \<le> nbits) (Fatal ''Increase the number of bits and recompile.'')
      (Inr \<lparr>rs_nSize = sz, rs_bits = replicate nbits False\<rparr>)"

text \<open>\<open>std::bitset::set\<close>, \<open>reset\<close> and \<open>test\<close> throw when the position is out of range.\<close>

definition set_add :: "nat \<Rightarrow> rset \<Rightarrow> rset res" where
  "set_add i s = guardR (i < length (rs_bits s)) Out_of_range
     (Inr (s\<lparr>rs_bits := (rs_bits s)[i := True]\<rparr>))"

definition set_addSet :: "rset \<Rightarrow> rset \<Rightarrow> rset res" where
  "set_addSet obj s = guardR (rs_nSize s = rs_nSize obj) (Assert_failed ''m_nSize == obj.m_nSize'')
     (Inr (s\<lparr>rs_bits := map2 (\<or>) (rs_bits s) (rs_bits obj)\<rparr>))"

definition set_remove :: "nat \<Rightarrow> rset \<Rightarrow> rset res" where
  "set_remove i s = guardR (i < length (rs_bits s)) Out_of_range
     (Inr (s\<lparr>rs_bits := (rs_bits s)[i := False]\<rparr>))"

definition set_removeSet :: "rset \<Rightarrow> rset \<Rightarrow> rset res" where
  "set_removeSet obj s = guardR (rs_nSize s = rs_nSize obj) (Assert_failed ''m_nSize == obj.m_nSize'')
     (Inr (s\<lparr>rs_bits := map2 (\<lambda>a b. a \<and> \<not> b) (rs_bits s) (rs_bits obj)\<rparr>))"

definition set_clear :: "rset \<Rightarrow> rset" where
  "set_clear s = s\<lparr>rs_bits := replicate (length (rs_bits s)) False\<rparr>"

definition set_broadcast :: "rset \<Rightarrow> rset" where
  "set_broadcast s = s\<lparr>rs_bits := map (\<lambda>j. \<not> rs_nSize s \<le> j) [0..<length (rs_bits s)]\<rparr>"

definition set_count :: "rset \<Rightarrow> nat" where
  "set_count s = length (filter id (rs_bits s))"

definition set_isEqual :: "rset \<Rightarrow> rset \<Rightarrow> bool res" where
  "set_isEqual obj s = guardR (rs_nSize s = rs_nSize obj) (Assert_failed ''m_nSize == obj.m_nSize'')
     (Inr (rs_bits s = rs_bits obj))"

definition set_OR :: "rset \<Rightarrow> rset \<Rightarrow> rset res" where
  "set_OR obj s = guardR (rs_nSize s = rs_nSize obj) (Assert_failed ''m_nSize == obj.m_nSize'')
     (bindR (set_new (length (rs_bits s)) (rs_nSize s))
       (\<lambda>r. Inr (r\<lparr>rs_bits := map2 (\<or>) (rs_bits s) (rs_bits obj)\<rparr>)))"

definition set_AND :: "rset \<Rightarrow> rset \<Rightarrow> rset res" where
  "set_AND obj s = guardR (rs_nSize s = rs_nSize obj) (Assert_failed ''m_nSize == obj.m_nSize'')
     (bindR (set_new (length (rs_bits s)) (rs_nSize s))
       (\<lambda>r. Inr (r\<lparr>rs_bits := map2 (\<and>) (rs_bits s) (rs_bits obj)\<rparr>)))"

definition set_intersectionIsEmpty :: "rset \<Rightarrow> rset \<Rightarrow> bool" where
  "set_intersectionIsEmpty obj s = (\<not> list_ex id (map2 (\<and>) (rs_bits s) (rs_bits obj)))"

definition set_isSuperset :: "rset \<Rightarrow> rset \<Rightarrow> bool res" where
  "set_isSuperset test s = guardR (rs_nSize s = rs_nSize test) (Assert_failed ''m_nSize == test.m_nSize'')
     (Inr (map2 (\<or>) (rs_bits s) (rs_bits test) = rs_bits s))"

definition set_isElement :: "nat \<Rightarrow> rset \<Rightarrow> bool res" where
  "set_isElement i s = guardR (i < length (rs_bits s)) Out_of_range (Inr (rs_bits s ! i))"

definition set_isBroadcast :: "rset \<Rightarrow> bool" where
  "set_isBroadcast s = (set_count s = rs_nSize s)"

definition set_isEmpty :: "rset \<Rightarrow> bool" where
  "set_isEmpty s = (\<not> list_ex id (rs_bits s))"

definition set_smallestElement :: "rset \<Rightarrow> nat res" where
  "set_smallestElement s =
    (case find (\<lambda>i. rs_bits s ! i) [0..<rs_nSize s] of
       Some i \<Rightarrow> Inr i | None \<Rightarrow> Inl (Panic ''No smallest element of an empty set.''))"

section \<open>NetDest\<close>

text \<open>
  The enumeration \<open>MachineType\<close> and its tables are generated by the SLICC compiler for
  the chosen protocol; they are parameters. Machine types are numbered from 0.
\<close>

record machine_info =
  mt_NUM :: nat
  mt_base_count :: "nat \<Rightarrow> nat"
  mt_base_number :: "nat \<Rightarrow> nat"
  mt_base_level :: "nat \<Rightarrow> nat"
  mt_bits_per_set :: nat

text \<open>What the generated tables are: each type is its own level, and numbers are consecutive.\<close>

definition machine_ok :: "machine_info \<Rightarrow> bool" where
  "machine_ok mt \<longleftrightarrow>
    (\<forall>m \<le> mt_NUM mt. mt_base_level mt m = m \<and>
       mt_base_number mt m = sum_list (map (mt_base_count mt) [0..<m])) \<and>
    (\<forall>m < mt_NUM mt. mt_base_count mt m \<le> mt_bits_per_set mt)"

text \<open>A \<open>MachineID\<close> is a machine type and a number within it.\<close>

type_synonym machine_id = "nat \<times> nat"
type_synonym net_dest = "rset list"

definition nd_vecIndex :: "machine_info \<Rightarrow> machine_id \<Rightarrow> net_dest \<Rightarrow> nat res" where
  "nd_vecIndex mt m d =
    guardR (mt_base_level mt (fst m) < length d) (Assert_failed ''vec_index < m_bits.size()'')
      (Inr (mt_base_level mt (fst m)))"

definition nd_resize :: "machine_info \<Rightarrow> net_dest res" where
  "nd_resize mt =
    guardR (mt_base_level mt (mt_NUM mt) = mt_NUM mt) (Assert_failed ''m_bits.size() == MachineType_NUM'')
      (foldR (\<lambda>i d. bindR (set_new (mt_bits_per_set mt) 0)
                (\<lambda>s. bindR (set_setSize (mt_base_count mt i) s) (\<lambda>s'. Inr (d @ [s']))))
        [0..<mt_NUM mt] [])"

text \<open>The constructor \<open>NetDest()\<close> resizes.\<close>

definition nd_new :: "machine_info \<Rightarrow> net_dest res" where
  "nd_new mt = nd_resize mt"

definition nd_add :: "machine_info \<Rightarrow> machine_id \<Rightarrow> net_dest \<Rightarrow> net_dest res" where
  "nd_add mt m d = bindR (nd_vecIndex mt m d)
     (\<lambda>v. guardR (snd m < rs_nSize (d ! v)) (Assert_failed ''bitIndex(newElement.num) < getSize()'')
       (bindR (set_add (snd m) (d ! v)) (\<lambda>s. Inr (d[v := s]))))"

definition nd_addNetDest :: "net_dest \<Rightarrow> net_dest \<Rightarrow> net_dest res" where
  "nd_addNetDest other d =
    guardR (length d = length other) (Assert_failed ''m_bits.size() == netDest.getSize()'')
      (foldR (\<lambda>i r. bindR (set_addSet (other ! i) (r ! i)) (\<lambda>s. Inr (r[i := s]))) [0..<length d] d)"

definition nd_setNetDest :: "machine_info \<Rightarrow> nat \<Rightarrow> rset \<Rightarrow> net_dest \<Rightarrow> net_dest res" where
  "nd_setNetDest mt m s d =
    guardR (int (mt_base_level mt (m + 1)) - int (mt_base_level mt m) = 1)
      (Assert_failed ''MachineType_base_level(machine + 1) - MachineType_base_level(machine) == 1'')
      (setR d (int (mt_base_level mt m)) s)"

definition nd_remove :: "machine_info \<Rightarrow> machine_id \<Rightarrow> net_dest \<Rightarrow> net_dest res" where
  "nd_remove mt m d = bindR (nd_vecIndex mt m d)
     (\<lambda>v. bindR (set_remove (snd m) (d ! v)) (\<lambda>s. Inr (d[v := s])))"

definition nd_removeNetDest :: "net_dest \<Rightarrow> net_dest \<Rightarrow> net_dest res" where
  "nd_removeNetDest other d =
    guardR (length d = length other) (Assert_failed ''m_bits.size() == netDest.getSize()'')
      (foldR (\<lambda>i r. bindR (set_removeSet (other ! i) (r ! i)) (\<lambda>s. Inr (r[i := s]))) [0..<length d] d)"

definition nd_clear :: "net_dest \<Rightarrow> net_dest" where
  "nd_clear d = map set_clear d"

definition nd_broadcast_type :: "machine_info \<Rightarrow> nat \<Rightarrow> net_dest \<Rightarrow> net_dest res" where
  "nd_broadcast_type mt m d = foldR (\<lambda>i. nd_add mt (m, i)) [0..<mt_base_count mt m] d"

definition nd_broadcast :: "machine_info \<Rightarrow> net_dest \<Rightarrow> net_dest res" where
  "nd_broadcast mt d = foldR (nd_broadcast_type mt) [0..<mt_NUM mt] d"

definition nd_getAllDest :: "machine_info \<Rightarrow> net_dest \<Rightarrow> nat list" where
  "nd_getAllDest mt d =
    concat (map (\<lambda>i. map (\<lambda>j. mt_base_number mt i + j)
      (filter (\<lambda>j. rs_bits (d ! i) ! j) [0..<rs_nSize (d ! i)])) [0..<length d])"

definition nd_count :: "net_dest \<Rightarrow> nat" where
  "nd_count d = sum_list (map set_count d)"

definition nd_elementAt :: "machine_info \<Rightarrow> machine_id \<Rightarrow> net_dest \<Rightarrow> bool res" where
  "nd_elementAt mt m d = bindR (nd_vecIndex mt m d) (\<lambda>v. set_isElement (snd m) (d ! v))"

definition nd_smallestElement :: "net_dest \<Rightarrow> machine_id res" where
  "nd_smallestElement d =
    guardR (nd_count d > 0) (Assert_failed ''count() > 0'')
      (case find (\<lambda>(i, j). rs_bits (d ! i) ! j)
              (concat (map (\<lambda>i. map (Pair i) [0..<rs_nSize (d ! i)]) [0..<length d])) of
         Some m \<Rightarrow> Inr m | None \<Rightarrow> Inl (Panic ''No smallest element of an empty set.''))"

definition nd_isBroadcast :: "net_dest \<Rightarrow> bool" where
  "nd_isBroadcast d = list_all set_isBroadcast d"

definition nd_isEmpty :: "net_dest \<Rightarrow> bool" where
  "nd_isEmpty d = list_all set_isEmpty d"

definition nd_OR :: "machine_info \<Rightarrow> net_dest \<Rightarrow> net_dest \<Rightarrow> net_dest res" where
  "nd_OR mt other d =
    guardR (length d = length other) (Assert_failed ''m_bits.size() == orNetDest.getSize()'')
      (bindR (nd_new mt)
        (foldR (\<lambda>i r. bindR (set_OR (other ! i) (d ! i)) (setR r (int i))) [0..<length d]))"

definition nd_AND :: "machine_info \<Rightarrow> net_dest \<Rightarrow> net_dest \<Rightarrow> net_dest res" where
  "nd_AND mt other d =
    guardR (length d = length other) (Assert_failed ''m_bits.size() == andNetDest.getSize()'')
      (bindR (nd_new mt)
        (foldR (\<lambda>i r. bindR (set_AND (other ! i) (d ! i)) (setR r (int i))) [0..<length d]))"

definition nd_intersectionIsNotEmpty :: "net_dest \<Rightarrow> net_dest \<Rightarrow> bool res" where
  "nd_intersectionIsNotEmpty other d =
    guardR (length d = length other) (Assert_failed ''m_bits.size() == other_netDest.getSize()'')
      (Inr (list_ex (\<lambda>i. \<not> set_intersectionIsEmpty (other ! i) (d ! i)) [0..<length d]))"

definition nd_isSuperset :: "net_dest \<Rightarrow> net_dest \<Rightarrow> bool res" where
  "nd_isSuperset test d =
    guardR (length d = length test) (Assert_failed ''m_bits.size() == test.getSize()'')
      (foldR (\<lambda>i b. if b then set_isSuperset (test ! i) (d ! i) else Inr False) [0..<length d] True)"

definition nd_isElement :: "machine_info \<Rightarrow> machine_id \<Rightarrow> net_dest \<Rightarrow> bool res" where
  "nd_isElement mt m d = bindR (nd_vecIndex mt m d) (\<lambda>v. set_isElement (snd m) (d ! v))"

definition nd_isEqual :: "net_dest \<Rightarrow> net_dest \<Rightarrow> bool res" where
  "nd_isEqual n d =
    guardR (length d = length n) (Assert_failed ''m_bits.size() == n.m_bits.size()'')
      (foldR (\<lambda>i b. if b then set_isEqual (n ! i) (d ! i) else Inr False) [0..<length d] True)"

text \<open>
  The loop over machine types in \<open>NetworkInterface.cc\<close> that turns a global node number
  back into a \<open>MachineID\<close>; no type matches is \<open>None\<close>.
\<close>

definition dest_machine :: "machine_info \<Rightarrow> nat \<Rightarrow> machine_id option" where
  "dest_machine mt destID =
    map_option (\<lambda>m. (m, destID - mt_base_number mt m))
      (find (\<lambda>m. mt_base_number mt m \<le> destID \<and> destID < mt_base_number mt (m + 1)) [0..<mt_NUM mt])"

section \<open>Sets as an interface\<close>

text \<open>
  What the network relies on: insertion, removal, union, difference, the emptiness test
  and the intersection test act on the set of members, and succeed on legal members.
\<close>

locale dest_set =
  fixes add :: "'e \<Rightarrow> 's \<Rightarrow> 's res"
    and remove :: "'e \<Rightarrow> 's \<Rightarrow> 's res"
    and addSet :: "'s \<Rightarrow> 's \<Rightarrow> 's res"
    and removeSet :: "'s \<Rightarrow> 's \<Rightarrow> 's res"
    and meets :: "'s \<Rightarrow> 's \<Rightarrow> bool res"
    and empty :: "'s \<Rightarrow> bool"
    and members :: "'s \<Rightarrow> 'e set"
    and legal :: "'e set"
    and invar :: "'s \<Rightarrow> bool"
  assumes add_ok: "invar s \<Longrightarrow> e \<in> legal \<Longrightarrow>
      \<exists>s'. add e s = Inr s' \<and> invar s' \<and> members s' = insert e (members s)"
    and remove_ok: "invar s \<Longrightarrow> e \<in> legal \<Longrightarrow>
      \<exists>s'. remove e s = Inr s' \<and> invar s' \<and> members s' = members s - {e}"
    and addSet_ok: "invar s \<Longrightarrow> invar t \<Longrightarrow>
      \<exists>s'. addSet t s = Inr s' \<and> invar s' \<and> members s' = members s \<union> members t"
    and removeSet_ok: "invar s \<Longrightarrow> invar t \<Longrightarrow>
      \<exists>s'. removeSet t s = Inr s' \<and> invar s' \<and> members s' = members s - members t"
    and meets_ok: "invar s \<Longrightarrow> invar t \<Longrightarrow> meets t s = Inr (members s \<inter> members t \<noteq> {})"
    and empty_ok: "invar s \<Longrightarrow> empty s = (members s = {})"
    and members_legal: "invar s \<Longrightarrow> members s \<subseteq> legal"
begin

lemma add_all:
  assumes "invar s" and "set es \<subseteq> legal"
  shows "\<exists>s'. foldR add es s = Inr s' \<and> invar s' \<and> members s' = members s \<union> set es"
  using assms
proof (induction es arbitrary: s)
  case Nil
  then show ?case by simp
next
  case (Cons e es)
  then obtain s1 where s1: "add e s = Inr s1" "invar s1" "members s1 = insert e (members s)"
    using add_ok by (metis list.set_intros(1) subsetD)
  with Cons.IH [of s1] Cons.prems show ?case by auto
qed

text \<open>Removing the members one by one, in any order, leaves nothing to deliver.\<close>

lemma remove_all:
  assumes "invar s" and "set es = members s"
  shows "\<exists>s'. foldR remove es s = Inr s' \<and> invar s' \<and> empty s'"
proof -
  have "\<exists>s'. foldR remove xs t = Inr s' \<and> invar s' \<and> members s' = members t - set xs"
    if "invar t" "set xs \<subseteq> legal" for xs t
    using that
  proof (induction xs arbitrary: t)
    case Nil
    then show ?case by simp
  next
    case (Cons e es)
    then obtain t1 where t1: "remove e t = Inr t1" "invar t1" "members t1 = members t - {e}"
      using remove_ok by (metis list.set_intros(1) subsetD)
    with Cons.IH [of t1] Cons.prems show ?case by auto
  qed
  from this [OF assms(1)] members_legal [OF assms(1)] assms(2) show ?thesis
    using empty_ok by force
qed

end

section \<open>Set implements the interface\<close>

definition rset_abs :: "rset \<Rightarrow> nat set" where
  "rset_abs s = {i. i < length (rs_bits s) \<and> rs_bits s ! i}"

definition rset_ok :: "nat \<Rightarrow> nat \<Rightarrow> rset \<Rightarrow> bool" where
  "rset_ok nbits k s \<longleftrightarrow>
    length (rs_bits s) = nbits \<and> rs_nSize s = k \<and> k \<le> nbits \<and> rset_abs s \<subseteq> {..<k}"

lemmas set_ops = set_add_def set_addSet_def set_remove_def set_removeSet_def set_clear_def
  set_isEmpty_def set_intersectionIsEmpty_def set_isElement_def set_isEqual_def

lemma list_ex_id_nth: "list_ex id xs \<longleftrightarrow> (\<exists>i < length xs. xs ! i)"
  by (simp add: list_ex_length)

lemma set_isEmpty_abs: "set_isEmpty s \<longleftrightarrow> rset_abs s = {}"
  by (auto simp: set_isEmpty_def list_ex_id_nth rset_abs_def)

lemma set_intersectionIsEmpty_abs:
  "length (rs_bits s) = length (rs_bits t) \<Longrightarrow>
    set_intersectionIsEmpty t s \<longleftrightarrow> rset_abs s \<inter> rset_abs t = {}"
  by (auto simp: set_intersectionIsEmpty_def list_ex_id_nth rset_abs_def)

lemma rset_abs_upd:
  "i < length (rs_bits s) \<Longrightarrow> rset_abs (s\<lparr>rs_bits := (rs_bits s)[i := True]\<rparr>) = insert i (rset_abs s)"
  "i < length (rs_bits s) \<Longrightarrow> rset_abs (s\<lparr>rs_bits := (rs_bits s)[i := False]\<rparr>) = rset_abs s - {i}"
  by (auto simp: rset_abs_def nth_list_update)

lemma rset_abs_map2:
  assumes "length (rs_bits s) = length (rs_bits t)"
  shows "rset_abs (r\<lparr>rs_bits := map2 (\<or>) (rs_bits s) (rs_bits t)\<rparr>) = rset_abs s \<union> rset_abs t"
    and "rset_abs (r\<lparr>rs_bits := map2 (\<and>) (rs_bits s) (rs_bits t)\<rparr>) = rset_abs s \<inter> rset_abs t"
    and "rset_abs (r\<lparr>rs_bits := map2 (\<lambda>a b. a \<and> \<not> b) (rs_bits s) (rs_bits t)\<rparr>) = rset_abs s - rset_abs t"
  using assms by (auto simp: rset_abs_def)

interpretation rset: dest_set set_add set_remove set_addSet set_removeSet
  "\<lambda>t s. Inr (\<not> set_intersectionIsEmpty t s)" set_isEmpty rset_abs "{..<k}" "rset_ok nbits k"
  for nbits k
proof (unfold_locales, goal_cases)
  case (1 s e)
  then show ?case by (auto simp: set_add_def rset_ok_def rset_abs_upd)
next
  case (2 s e)
  then show ?case by (auto simp: set_remove_def rset_ok_def rset_abs_upd)
next
  case (3 s t)
  then show ?case by (auto simp: set_addSet_def rset_ok_def rset_abs_map2)
next
  case (4 s t)
  then show ?case by (auto simp: set_removeSet_def rset_ok_def rset_abs_map2)
next
  case (5 s t)
  then show ?case by (simp add: rset_ok_def set_intersectionIsEmpty_abs)
next
  case (6 s)
  then show ?case by (simp add: set_isEmpty_abs)
next
  case (7 s)
  then show ?case by (simp add: rset_ok_def)
qed

lemma set_new_ok: "k \<le> nbits \<Longrightarrow> \<exists>s. set_new nbits k = Inr s \<and> rset_ok nbits k s \<and> rset_abs s = {}"
  by (auto simp: set_new_def rset_ok_def rset_abs_def)

lemma set_setSize_ok:
  "k \<le> length (rs_bits s) \<Longrightarrow>
    \<exists>s'. set_setSize k s = Inr s' \<and> rset_ok (length (rs_bits s)) k s' \<and> rset_abs s' = {}"
  by (auto simp: set_setSize_def rset_ok_def rset_abs_def)

lemma set_broadcast_ok:
  "rset_ok nbits k s \<Longrightarrow> rset_ok nbits k (set_broadcast s) \<and> rset_abs (set_broadcast s) = {..<k}"
  by (auto simp: set_broadcast_def rset_ok_def rset_abs_def)

lemma set_count_card: "set_count s = card (rset_abs s)"
  by (simp add: set_count_def rset_abs_def length_filter_conv_card)

lemma set_isBroadcast_abs: "rset_ok nbits k s \<Longrightarrow> set_isBroadcast s \<longleftrightarrow> rset_abs s = {..<k}"
  using card_subset_eq [of "{..<k}" "rset_abs s"]
  by (auto simp: set_isBroadcast_def set_count_card rset_ok_def)

section \<open>NetDest implements the interface\<close>

definition nd_abs :: "net_dest \<Rightarrow> machine_id set" where
  "nd_abs d = {(m, i). m < length d \<and> i \<in> rset_abs (d ! m)}"

definition nd_ok :: "machine_info \<Rightarrow> net_dest \<Rightarrow> bool" where
  "nd_ok mt d \<longleftrightarrow> machine_ok mt \<and> length d = mt_NUM mt \<and>
    (\<forall>m < mt_NUM mt. rset_ok (mt_bits_per_set mt) (mt_base_count mt m) (d ! m))"

definition nd_legal :: "machine_info \<Rightarrow> machine_id set" where
  "nd_legal mt = {(m, i). m < mt_NUM mt \<and> i < mt_base_count mt m}"

lemma nd_vecIndex_ok: "nd_ok mt d \<Longrightarrow> m < mt_NUM mt \<Longrightarrow> nd_vecIndex mt (m, i) d = Inr m"
  by (auto simp: nd_vecIndex_def nd_ok_def machine_ok_def)

lemma nd_upd_abs:
  "m < length d \<Longrightarrow> nd_abs (d[m := s]) = {(m', i). (m', i) \<in> nd_abs d \<and> m' \<noteq> m} \<union> Pair m ` rset_abs s"
  by (auto simp: nd_abs_def nth_list_update split: if_splits)

lemma nd_upd_ok:
  "nd_ok mt d \<Longrightarrow> m < mt_NUM mt \<Longrightarrow> rset_ok (mt_bits_per_set mt) (mt_base_count mt m) s \<Longrightarrow>
    nd_ok mt (d[m := s])"
  by (auto simp: nd_ok_def nth_list_update)

lemma nd_comp: "nd_ok mt d \<Longrightarrow> m < mt_NUM mt \<Longrightarrow>
    rset_ok (mt_bits_per_set mt) (mt_base_count mt m) (d ! m)"
  by (simp add: nd_ok_def)

text \<open>The two pointwise operations, from the interface of the component sets.\<close>

lemma nd_pointwise:
  assumes ok: "nd_ok mt d" "nd_ok mt e"
    and comp: "\<And>nbits k s t. rset_ok nbits k s \<Longrightarrow> rset_ok nbits k t \<Longrightarrow>
      \<exists>r. f t s = Inr r \<and> rset_ok nbits k r \<and> rset_abs r = F (rset_abs s) (rset_abs t)"
  shows "\<exists>r. foldR (\<lambda>i r. bindR (f (e ! i) (r ! i)) (\<lambda>s. Inr (r[i := s]))) [0..<length d] d = Inr r
    \<and> nd_ok mt r \<and> (\<forall>m < mt_NUM mt. rset_abs (r ! m) = F (rset_abs (d ! m)) (rset_abs (e ! m)))"
proof -
  have "\<forall>i. \<exists>r. i < mt_NUM mt \<longrightarrow> f (e ! i) (d ! i) = Inr r \<and>
      rset_ok (mt_bits_per_set mt) (mt_base_count mt i) r \<and>
      rset_abs r = F (rset_abs (d ! i)) (rset_abs (e ! i))"
    using ok comp nd_comp by meson
  then obtain g where g: "\<And>i. i < mt_NUM mt \<Longrightarrow> f (e ! i) (d ! i) = Inr (g i) \<and>
      rset_ok (mt_bits_per_set mt) (mt_base_count mt i) (g i) \<and>
      rset_abs (g i) = F (rset_abs (d ! i)) (rset_abs (e ! i))"
    by metis
  moreover have len: "length d = mt_NUM mt" using ok by (simp add: nd_ok_def)
  ultimately have "foldR (\<lambda>i r. bindR (f (e ! i) (r ! i)) (\<lambda>s. Inr (r[i := s]))) [0..<length d] d
      = Inr (map g [0..<length d])"
    by (intro foldR_pointwise [where f = "\<lambda>i. f (e ! i)"]) simp
  with g len ok show ?thesis by (auto simp: nd_ok_def)
qed

lemma nd_abs_pointwise:
  assumes "nd_ok mt r" "nd_ok mt d" "nd_ok mt e"
    and "\<forall>m < mt_NUM mt. rset_abs (r ! m) = F (rset_abs (d ! m)) (rset_abs (e ! m))"
    and "\<And>A B i. i \<in> F A B \<longleftrightarrow> P (i \<in> A) (i \<in> B)" and "\<not> P False False"
  shows "(x \<in> nd_abs r) = P (x \<in> nd_abs d) (x \<in> nd_abs e)"
proof (cases x)
  case (Pair m i)
  have "length r = mt_NUM mt" "length d = mt_NUM mt" "length e = mt_NUM mt"
    using assms(1-3) by (auto simp: nd_ok_def)
  with Pair assms(4-6) show ?thesis by (cases "m < mt_NUM mt") (auto simp: nd_abs_def)
qed

lemma nd_intersectionIsNotEmpty_abs:
  assumes "nd_ok mt d" "nd_ok mt e"
  shows "nd_intersectionIsNotEmpty e d = Inr (nd_abs d \<inter> nd_abs e \<noteq> {})"
proof -
  have len: "length d = mt_NUM mt" "length e = mt_NUM mt" using assms by (auto simp: nd_ok_def)
  have "set_intersectionIsEmpty (e ! m) (d ! m) \<longleftrightarrow> rset_abs (d ! m) \<inter> rset_abs (e ! m) = {}"
    if "m < mt_NUM mt" for m
    using that assms by (intro set_intersectionIsEmpty_abs) (auto simp: nd_ok_def rset_ok_def)
  then have "list_ex (\<lambda>i. \<not> set_intersectionIsEmpty (e ! i) (d ! i)) [0..<length d] \<longleftrightarrow>
      (\<exists>m < mt_NUM mt. rset_abs (d ! m) \<inter> rset_abs (e ! m) \<noteq> {})"
    using len by (auto simp: list_ex_iff)
  also have "\<dots> \<longleftrightarrow> nd_abs d \<inter> nd_abs e \<noteq> {}"
    using len by (fastforce simp: nd_abs_def)
  finally show ?thesis using len by (simp add: nd_intersectionIsNotEmpty_def)
qed

lemma nd_add_ok:
  assumes ok: "nd_ok mt d" and "e \<in> nd_legal mt"
  shows "\<exists>d'. nd_add mt e d = Inr d' \<and> nd_ok mt d' \<and> nd_abs d' = insert e (nd_abs d)"
proof -
  from assms obtain m i where e: "e = (m, i)" and m: "m < mt_NUM mt" and i: "i < mt_base_count mt m"
    by (auto simp: nd_legal_def)
  have c: "rset_ok (mt_bits_per_set mt) (mt_base_count mt m) (d ! m)" using ok m by (rule nd_comp)
  from rset.add_ok [OF c, of i] i obtain s where s: "set_add i (d ! m) = Inr s"
    and abs: "rset_abs s = insert i (rset_abs (d ! m))"
    and sok: "rset_ok (mt_bits_per_set mt) (mt_base_count mt m) s" by auto
  have len: "m < length d" and i': "i < rs_nSize (d ! m)" using ok m i c by (auto simp: nd_ok_def rset_ok_def)
  have "nd_add mt e d = Inr (d[m := s])"
    using ok m e s i' by (simp add: nd_add_def nd_vecIndex_ok)
  moreover have "nd_abs (d[m := s]) = insert e (nd_abs d)"
    unfolding nd_upd_abs [OF len] using len e abs by (auto simp: nd_abs_def)
  ultimately show ?thesis using nd_upd_ok [OF ok m sok] by blast
qed

lemma nd_remove_ok:
  assumes ok: "nd_ok mt d" and "e \<in> nd_legal mt"
  shows "\<exists>d'. nd_remove mt e d = Inr d' \<and> nd_ok mt d' \<and> nd_abs d' = nd_abs d - {e}"
proof -
  from assms obtain m i where e: "e = (m, i)" and m: "m < mt_NUM mt" and i: "i < mt_base_count mt m"
    by (auto simp: nd_legal_def)
  have c: "rset_ok (mt_bits_per_set mt) (mt_base_count mt m) (d ! m)" using ok m by (rule nd_comp)
  from rset.remove_ok [OF c, of i] i obtain s where s: "set_remove i (d ! m) = Inr s"
    and abs: "rset_abs s = rset_abs (d ! m) - {i}"
    and sok: "rset_ok (mt_bits_per_set mt) (mt_base_count mt m) s" by auto
  have len: "m < length d" using ok m by (auto simp: nd_ok_def)
  have "nd_remove mt e d = Inr (d[m := s])"
    using ok m e s by (simp add: nd_remove_def nd_vecIndex_ok)
  moreover have "nd_abs (d[m := s]) = nd_abs d - {e}"
    unfolding nd_upd_abs [OF len] using len e abs by (auto simp: nd_abs_def)
  ultimately show ?thesis using nd_upd_ok [OF ok m sok] by blast
qed

lemma nd_addNetDest_ok:
  assumes "nd_ok mt d" "nd_ok mt e"
  shows "\<exists>r. nd_addNetDest e d = Inr r \<and> nd_ok mt r \<and> nd_abs r = nd_abs d \<union> nd_abs e"
proof -
  obtain r where r: "foldR (\<lambda>i r. bindR (set_addSet (e ! i) (r ! i)) (\<lambda>s. Inr (r[i := s]))) [0..<length d] d = Inr r"
    and ok: "nd_ok mt r" and abs: "\<forall>m < mt_NUM mt. rset_abs (r ! m) = rset_abs (d ! m) \<union> rset_abs (e ! m)"
    using nd_pointwise [OF assms, of set_addSet "(\<union>)"] rset.addSet_ok by blast
  have "nd_abs r = nd_abs d \<union> nd_abs e"
    using nd_abs_pointwise [OF ok assms abs, of "(\<or>)"] by auto
  moreover have "length d = length e" using assms by (simp add: nd_ok_def)
  ultimately show ?thesis using r ok by (simp add: nd_addNetDest_def)
qed

lemma nd_removeNetDest_ok:
  assumes "nd_ok mt d" "nd_ok mt e"
  shows "\<exists>r. nd_removeNetDest e d = Inr r \<and> nd_ok mt r \<and> nd_abs r = nd_abs d - nd_abs e"
proof -
  obtain r where r: "foldR (\<lambda>i r. bindR (set_removeSet (e ! i) (r ! i)) (\<lambda>s. Inr (r[i := s]))) [0..<length d] d = Inr r"
    and ok: "nd_ok mt r" and abs: "\<forall>m < mt_NUM mt. rset_abs (r ! m) = rset_abs (d ! m) - rset_abs (e ! m)"
    using nd_pointwise [OF assms, of set_removeSet "(-)"] rset.removeSet_ok by blast
  have "nd_abs r = nd_abs d - nd_abs e"
    using nd_abs_pointwise [OF ok assms abs, of "\<lambda>a b. a \<and> \<not> b"] by auto
  moreover have "length d = length e" using assms by (simp add: nd_ok_def)
  ultimately show ?thesis using r ok by (simp add: nd_removeNetDest_def)
qed

interpretation nd: dest_set "nd_add mt" "nd_remove mt" nd_addNetDest nd_removeNetDest
  nd_intersectionIsNotEmpty nd_isEmpty nd_abs "nd_legal mt" "nd_ok mt"
  for mt
proof (unfold_locales, goal_cases)
  case 1
  then show ?case by (rule nd_add_ok)
next
  case 2
  then show ?case by (rule nd_remove_ok)
next
  case 3
  then show ?case by (rule nd_addNetDest_ok)
next
  case 4
  then show ?case by (rule nd_removeNetDest_ok)
next
  case 5
  then show ?case by (rule nd_intersectionIsNotEmpty_abs)
next
  case (6 d)
  show ?case by (auto simp: nd_isEmpty_def list_all_length set_isEmpty_abs nd_abs_def)
next
  case (7 d)
  then show ?case by (auto simp: nd_abs_def nd_legal_def nd_ok_def rset_ok_def)
qed

text \<open>The constructor makes the empty set of destinations.\<close>

lemma nd_new_ok:
  assumes "machine_ok mt"
  shows "\<exists>d. nd_new mt = Inr d \<and> nd_ok mt d \<and> nd_abs d = {}"
proof -
  let ?s = "\<lambda>i. \<lparr>rs_nSize = mt_base_count mt i, rs_bits = replicate (mt_bits_per_set mt) False\<rparr>"
  have "nd_new mt = foldR (\<lambda>i d. bindR (set_new (mt_bits_per_set mt) 0)
      (\<lambda>s. bindR (set_setSize (mt_base_count mt i) s) (\<lambda>s'. Inr (d @ [s'])))) [0..<mt_NUM mt] []"
    using assms by (simp add: nd_new_def nd_resize_def machine_ok_def)
  also have "\<dots> = Inr (fold (\<lambda>i d. d @ [?s i]) [0..<mt_NUM mt] [])"
    using assms by (intro foldR_pure) (simp add: set_new_def set_setSize_def machine_ok_def)
  also have "fold (\<lambda>i d. d @ [?s i]) [0..<mt_NUM mt] [] = map ?s [0..<mt_NUM mt]"
    using fold_collect [of "\<lambda>_. True" ?s "[0..<mt_NUM mt]" "[]"] by simp
  finally have new: "nd_new mt = Inr (map ?s [0..<mt_NUM mt])" .
  have empty: "rset_abs (?s i) = {}" for i by (auto simp: rset_abs_def)
  have "nd_ok mt (map ?s [0..<mt_NUM mt])" using assms empty by (auto simp: nd_ok_def rset_ok_def machine_ok_def)
  moreover have "nd_abs (map ?s [0..<mt_NUM mt]) = {}" using empty by (auto simp: nd_abs_def)
  ultimately show ?thesis using new by blast
qed

section \<open>Node numbers\<close>

lemma base_number_Suc:
  "machine_ok mt \<Longrightarrow> m < mt_NUM mt \<Longrightarrow> mt_base_number mt (Suc m) = mt_base_number mt m + mt_base_count mt m"
  by (simp add: machine_ok_def)

lemma base_number_mono:
  assumes "machine_ok mt" and "m \<le> n" and "n \<le> mt_NUM mt"
  shows "mt_base_number mt m \<le> mt_base_number mt n"
  using assms(2,3)
proof (induction n rule: dec_induct)
  case base
  then show ?case by simp
next
  case (step n)
  with base_number_Suc [OF assms(1), of n] show ?case by simp
qed

text \<open>A node number belongs to exactly one machine type, the one the search finds.\<close>

lemma dest_machine_base:
  assumes ok: "machine_ok mt" and "(m, i) \<in> nd_legal mt"
  shows "dest_machine mt (mt_base_number mt m + i) = Some (m, i)"
proof -
  let ?P = "\<lambda>k. mt_base_number mt k \<le> mt_base_number mt m + i \<and>
    mt_base_number mt m + i < mt_base_number mt (k + 1)"
  from assms have m: "m < mt_NUM mt" and i: "i < mt_base_count mt m" by (auto simp: nd_legal_def)
  have "?P m" using base_number_Suc [OF ok m] i by simp
  moreover have "\<not> ?P k" if "k < m" for k
    using base_number_mono [OF ok, of "k + 1" m] that m by simp
  ultimately have "find ?P [0..<mt_NUM mt] = Some m"
    unfolding find_Some_iff using m by (intro exI [of _ m]) simp
  then show ?thesis by (simp add: dest_machine_def)
qed

lemma set_getAllDest:
  assumes "nd_ok mt d"
  shows "set (nd_getAllDest mt d) = (\<lambda>(m, i). mt_base_number mt m + i) ` nd_abs d"
proof -
  have "{j. j < rs_nSize (d ! m) \<and> rs_bits (d ! m) ! j} = rset_abs (d ! m)" if "m < length d" for m
    using nd_comp [OF assms, of m] assms that
    by (force simp: nd_ok_def rset_ok_def rset_abs_def)
  then show ?thesis
    unfolding nd_getAllDest_def nd_abs_def by (auto simp: image_iff)
qed

lemma getAllDest_block:
  assumes "nd_ok mt d" and "m < mt_NUM mt"
    and "x \<in> set (map (\<lambda>j. mt_base_number mt m + j)
      (filter (\<lambda>j. rs_bits (d ! m) ! j) [0..<rs_nSize (d ! m)]))"
  shows "mt_base_number mt m \<le> x \<and> x < mt_base_number mt (Suc m)"
  using assms base_number_Suc [of mt m] by (auto simp: nd_ok_def rset_ok_def)

lemma sorted_getAllDest:
  assumes "nd_ok mt d"
  shows "sorted_wrt (<) (nd_getAllDest mt d)"
proof -
  have ok: "machine_ok mt" and len: "length d = mt_NUM mt" using assms by (auto simp: nd_ok_def)
  define block where "block m = map (\<lambda>j. mt_base_number mt m + j)
      (filter (\<lambda>j. rs_bits (d ! m) ! j) [0..<rs_nSize (d ! m)])" for m
  have sorted: "sorted_wrt (<) (block m)" for m
    by (auto simp: block_def sorted_wrt_map sorted_wrt_filter)
  have "sorted_wrt (<) (concat (map block [0..<n])) \<and>
      (\<forall>x \<in> set (concat (map block [0..<n])). x < mt_base_number mt n)" if "n \<le> mt_NUM mt" for n
    using that
  proof (induction n)
    case 0
    then show ?case by simp
  next
    case (Suc n)
    then have IH: "sorted_wrt (<) (concat (map block [0..<n]))"
      "\<forall>x \<in> set (concat (map block [0..<n])). x < mt_base_number mt n" and n: "n < mt_NUM mt"
      by auto
    have b: "\<forall>x \<in> set (block n). mt_base_number mt n \<le> x \<and> x < mt_base_number mt (Suc n)"
      using getAllDest_block [OF assms n] unfolding block_def by blast
    moreover have "mt_base_number mt n \<le> mt_base_number mt (Suc n)"
      using base_number_mono [OF ok, of n "Suc n"] n by simp
    ultimately show ?case using IH sorted [of n] by (fastforce simp: sorted_wrt_append)
  qed
  from this [of "mt_NUM mt"] have "sorted_wrt (<) (concat (map block [0..<mt_NUM mt]))" by simp
  then show ?thesis unfolding nd_getAllDest_def block_def len .
qed

section \<open>Properties\<close>

text \<open>
  \<open>getAllDest\<close> lists every destination of a message exactly once, in ascending order
  of global node numbers, and the network interface's search over machine types recovers
  from each number the machine it stands for: encoding and decoding are inverse.
\<close>

theorem getAllDest_roundtrip:
  assumes "nd_ok mt d"
  shows "distinct (nd_getAllDest mt d) \<and> sorted (nd_getAllDest mt d)
    \<and> the ` dest_machine mt ` set (nd_getAllDest mt d) = nd_abs d
    \<and> length (nd_getAllDest mt d) = card (nd_abs d)"
proof -
  have ok: "machine_ok mt" using assms by (simp add: nd_ok_def)
  let ?f = "\<lambda>(m, i). mt_base_number mt m + i"
  have inv: "the (dest_machine mt (?f e)) = e" if "e \<in> nd_abs d" for e
    using that nd.members_legal [OF assms] dest_machine_base [OF ok] by (cases e) auto
  then have inj: "inj_on ?f (nd_abs d)" by (rule inj_on_inverseI)
  have "sorted_wrt (<) (nd_getAllDest mt d)" using assms by (rule sorted_getAllDest)
  then have s: "distinct (nd_getAllDest mt d) \<and> sorted (nd_getAllDest mt d)"
    by (simp add: strict_sorted_iff)
  moreover have "the ` dest_machine mt ` set (nd_getAllDest mt d) = nd_abs d"
    using inv by (force simp: set_getAllDest [OF assms] image_iff)
  moreover have "length (nd_getAllDest mt d) = card (nd_abs d)"
    using s distinct_card [of "nd_getAllDest mt d"] card_image [OF inj]
    by (simp add: set_getAllDest [OF assms])
  ultimately show ?thesis by simp
qed

definition example_machines :: machine_info where
  "example_machines = \<lparr>mt_NUM = 2, mt_base_count = (\<lambda>m. if m = 0 then 3 else 2),
     mt_base_number = (\<lambda>m. if m = 0 then 0 else if m = 1 then 3 else 5),
     mt_base_level = id, mt_bits_per_set = 4\<rparr>"

lemma example_machines_ok: "machine_ok example_machines"
proof -
  have "m \<le> 2 \<Longrightarrow> m = 0 \<or> m = 1 \<or> m = 2" for m :: nat by auto
  then show ?thesis
    by (auto simp: machine_ok_def example_machines_def upt_rec numeral_2_eq_2)
qed

definition example_dest :: net_dest where
  "example_dest = [\<lparr>rs_nSize = 3, rs_bits = [True, False, True, False]\<rparr>,
     \<lparr>rs_nSize = 2, rs_bits = [False, True, False, False]\<rparr>]"

lemma example_dest_ok: "nd_ok example_machines example_dest"
proof -
  have "rset_abs \<lparr>rs_nSize = 3, rs_bits = [True, False, True, False]\<rparr> \<subseteq> {..<3}"
    and "rset_abs \<lparr>rs_nSize = 2, rs_bits = [False, True, False, False]\<rparr> \<subseteq> {..<2}"
    by (auto simp: rset_abs_def less_Suc_eq nth_Cons')
  with example_machines_ok show ?thesis
    by (auto simp: nd_ok_def rset_ok_def example_dest_def example_machines_def nth_Cons' less_Suc_eq)
qed

theorem getAllDest_roundtrip_witness:
  "nd_getAllDest example_machines example_dest = [0, 2, 4]
   \<and> length (nd_getAllDest example_machines example_dest) = card (nd_abs example_dest)"
proof -
  have "nd_getAllDest example_machines example_dest = [0, 2, 4]" by code_simp
  with getAllDest_roundtrip [OF example_dest_ok] show ?thesis by simp
qed

text \<open>
  The intersection test that the routing table lookup performs is exact: it answers
  whether some destination is in both sets, and never fails on destination sets of the
  same network.
\<close>

theorem intersectionIsNotEmpty_correct:
  assumes "nd_ok mt d" and "nd_ok mt e"
  shows "nd_intersectionIsNotEmpty e d = Inr (\<exists>m i. (m, i) \<in> nd_abs d \<and> (m, i) \<in> nd_abs e)"
  using nd.meets_ok [OF assms] by auto

theorem intersectionIsNotEmpty_correct_witness:
  "nd_intersectionIsNotEmpty example_dest example_dest = Inr True"
proof -
  have "(1, 1) \<in> nd_abs example_dest" by (simp add: nd_abs_def rset_abs_def example_dest_def)
  with intersectionIsNotEmpty_correct [OF example_dest_ok example_dest_ok] show ?thesis by auto
qed

end
