(* ===== verification/Flit.thy ===== *)
theory Flit
  imports Clocked NetDest
begin

text \<open>
  The data that moves through the network: the enumerations and \<open>RouteInfo\<close> of
  \<open>CommonTypes.hh\<close>, \<open>flit\<close> (\<open>flit.hh\<close>, \<open>flit.cc\<close>) and its subclass
  \<open>Credit\<close> (\<open>Credit.hh\<close>, \<open>Credit.cc\<close>), with the conversion between link widths.
  Lengths and widths are small positive integers; the code divides them as \<open>float\<close>s, which
  is exact below \<open>2 ^ 24\<close>, and the model divides integers.
\<close>

section \<open>CommonTypes.hh\<close>

text \<open>The constructors drop the trailing underscore of the C++ enumerators.\<close>

datatype flit_type = HEAD | BODY | TAIL | HEAD_TAIL | CREDIT | NUM_FLIT_TYPE

datatype VC_state_type = IDLE | VC_AB | ACTIVE | NUM_VC_STATE_TYPE

datatype VNET_type = CTRL_VNET | DATA_VNET | NULL_VNET | NUM_VNET_TYPE

datatype flit_stage = I_STAGE | VA_STAGE | SA_STAGE | ST_STAGE | LT_STAGE | NUM_FLIT_STAGE

datatype link_type = EXT_IN | EXT_OUT | INT_LINK | NUM_LINK_TYPES

datatype RoutingAlgorithm = TABLE | XY | CUSTOM | NUM_ROUTING_ALGORITHM

definition INFINITE :: nat where
  "INFINITE = 10000"

record RouteInfo =
  ri_vnet :: int
  ri_net_dest :: net_dest
  ri_src_ni :: int
  ri_src_router :: int
  ri_dest_ni :: int
  ri_dest_router :: int
  ri_hops_traversed :: int
  ri_last_flit :: bool
  ri_network_idx :: int
  ri_input_idx :: int
  ri_phase_id :: int

definition RouteInfo_new :: "net_dest \<Rightarrow> RouteInfo" where
  "RouteInfo_new empty_dest =
    \<lparr>ri_vnet = 0, ri_net_dest = empty_dest, ri_src_ni = 0, ri_src_router = 0, ri_dest_ni = 0,
     ri_dest_router = 0, ri_hops_traversed = 0, ri_last_flit = False, ri_network_idx = 0,
     ri_input_idx = 0, ri_phase_id = 0\<rparr>"

section \<open>Flits and credits\<close>

text \<open>
  A queue of flits holds objects of class \<open>flit\<close> and of its subclass \<open>Credit\<close>: the
  field \<open>fl_credit\<close> is the dynamic class, \<open>Some free\<close> for a credit with its
  \<open>m_is_free_signal\<close>. \<open>fl_msg_ptr\<close> is the shared message pointer, by the message's
  identity. The constructor leaves \<open>m_outport\<close> and \<open>src_delay\<close> uninitialised; they are
  \<open>0\<close> here, and are written by \<open>set_outport\<close> and \<open>set_src_delay\<close> before they are read.
\<close>

record flit =
  fl_width :: int
  fl_msgSize :: int
  fl_packet_id :: int
  fl_id :: int
  fl_vnet :: int
  fl_vc :: int
  fl_route :: RouteInfo
  fl_size :: int
  fl_enqueue_time :: tick
  fl_dequeue_time :: tick
  fl_time :: tick
  fl_type :: flit_type
  fl_msg_ptr :: "nat option"
  fl_outport :: int
  fl_src_delay :: tick
  fl_stage :: "flit_stage \<times> tick"
  fl_credit :: "bool option"

definition flit_type_of :: "int \<Rightarrow> int \<Rightarrow> flit_type" where
  "flit_type_of fid size' =
    (if size' = 1 then HEAD_TAIL
     else if fid = 0 then HEAD
     else if fid = size' - 1 then TAIL
     else BODY)"

definition flit_new ::
    "int \<Rightarrow> int \<Rightarrow> int \<Rightarrow> int \<Rightarrow> RouteInfo \<Rightarrow> int \<Rightarrow> nat option \<Rightarrow> int \<Rightarrow> int \<Rightarrow> tick \<Rightarrow> flit" where
  "flit_new packet_id fid vc vnet route size' msg_ptr MsgSize bWidth curTime =
    \<lparr>fl_width = bWidth, fl_msgSize = MsgSize, fl_packet_id = packet_id, fl_id = fid,
     fl_vnet = vnet, fl_vc = vc, fl_route = route, fl_size = size',
     fl_enqueue_time = curTime, fl_dequeue_time = curTime, fl_time = curTime,
     fl_type = flit_type_of fid size', fl_msg_ptr = msg_ptr, fl_outport = 0, fl_src_delay = 0,
     fl_stage = (I_STAGE, curTime), fl_credit = None\<rparr>"

definition is_stage :: "flit_stage \<Rightarrow> tick \<Rightarrow> flit \<Rightarrow> bool" where
  "is_stage stage t f \<longleftrightarrow> stage = fst (fl_stage f) \<and> t \<ge> snd (fl_stage f)"

definition advance_stage :: "flit_stage \<Rightarrow> tick \<Rightarrow> flit \<Rightarrow> flit" where
  "advance_stage t_stage newTime f = f\<lparr>fl_stage := (t_stage, newTime)\<rparr>"

definition increment_hops :: "flit \<Rightarrow> flit" where
  "increment_hops f =
    f\<lparr>fl_route := (fl_route f)\<lparr>ri_hops_traversed := ri_hops_traversed (fl_route f) + 1\<rparr>\<rparr>"

definition flit_greater :: "flit \<Rightarrow> flit \<Rightarrow> bool" where
  "flit_greater n1 n2 =
    (if fl_time n1 = fl_time n2 then fl_id n1 > fl_id n2 else fl_time n1 > fl_time n2)"

definition is_head :: "flit \<Rightarrow> bool" where
  "is_head f \<longleftrightarrow> fl_type f = HEAD \<or> fl_type f = HEAD_TAIL"

definition is_tail :: "flit \<Rightarrow> bool" where
  "is_tail f \<longleftrightarrow> fl_type f = TAIL \<or> fl_type f = HEAD_TAIL"

text \<open>\<open>Credit(vc, is_free_signal, curTime)\<close> runs the base constructor with size 0 and id 0.\<close>

definition credit_new :: "net_dest \<Rightarrow> int \<Rightarrow> bool \<Rightarrow> tick \<Rightarrow> flit" where
  "credit_new empty_dest vc is_free_signal curTime =
    (flit_new 0 0 vc 0 (RouteInfo_new empty_dest) 0 None 0 0 curTime)
      \<lparr>fl_credit := Some is_free_signal, fl_type := CREDIT\<rparr>"

definition is_free_signal :: "flit \<Rightarrow> bool" where
  "is_free_signal f = (fl_credit f = Some True)"

section \<open>Changing the width\<close>

text \<open>\<open>flit::serialize\<close>: part \<open>ser_id\<close> of a flit that is sent over a narrower link.\<close>

definition flit_serialize_flit :: "int \<Rightarrow> int \<Rightarrow> int \<Rightarrow> flit \<Rightarrow> flit res" where
  "flit_serialize_flit ser_id parts bWidth f =
    guardR (fl_width f > bWidth) (Assert_failed ''m_width > bWidth'')
    (guardR (bWidth \<noteq> 0) Div_by_zero
    (let ratio = divCeil_int (fl_width f) bWidth;
         new_id = fl_id f * ratio + ser_id;
         new_size = divCeil_int (fl_msgSize f) bWidth
     in guardR (new_id < new_size) (Assert_failed ''new_id < new_size'')
          (Inr ((flit_new (fl_packet_id f) new_id (fl_vc f) (fl_vnet f) (fl_route f) new_size
                  (fl_msg_ptr f) (fl_msgSize f) bWidth (fl_time f))
                \<lparr>fl_enqueue_time := fl_enqueue_time f, fl_src_delay := fl_src_delay f\<rparr>))))"

text \<open>\<open>flit::deserialize\<close>: the wide flit that ends with this narrow one.\<close>

definition flit_deserialize_flit :: "int \<Rightarrow> int \<Rightarrow> int \<Rightarrow> flit \<Rightarrow> flit res" where
  "flit_deserialize_flit des_id num_flits bWidth f =
    guardR (fl_width f \<noteq> 0 \<and> bWidth \<noteq> 0) Div_by_zero
    (let ratio = divCeil_int bWidth (fl_width f);
         new_id = divCeil_int (fl_id f + 1) ratio - 1;
         new_size = divCeil_int (fl_msgSize f) bWidth
     in guardR (new_id < new_size) (Assert_failed ''new_id < new_size'')
          (Inr ((flit_new (fl_packet_id f) new_id (fl_vc f) (fl_vnet f) (fl_route f) new_size
                  (fl_msg_ptr f) (fl_msgSize f) bWidth (fl_time f))
                \<lparr>fl_enqueue_time := fl_enqueue_time f, fl_src_delay := fl_src_delay f\<rparr>)))"

definition credit_serialize :: "net_dest \<Rightarrow> int \<Rightarrow> int \<Rightarrow> int \<Rightarrow> bool \<Rightarrow> flit \<Rightarrow> flit" where
  "credit_serialize empty_dest ser_id parts bWidth free f =
    credit_new empty_dest (fl_vc f) (ser_id + 1 = parts \<and> free) (fl_time f)"

definition credit_deserialize :: "net_dest \<Rightarrow> int \<Rightarrow> int \<Rightarrow> int \<Rightarrow> bool \<Rightarrow> flit \<Rightarrow> flit" where
  "credit_deserialize empty_dest des_id num_flits bWidth free f =
    (if free then credit_new empty_dest (fl_vc f) True (fl_time f)
     else credit_new empty_dest (fl_vc f) False (fl_time f))"

text \<open>The virtual calls dispatch on the dynamic class.\<close>

definition flit_serialize :: "net_dest \<Rightarrow> int \<Rightarrow> int \<Rightarrow> int \<Rightarrow> flit \<Rightarrow> flit res" where
  "flit_serialize empty_dest ser_id parts bWidth f =
    (case fl_credit f of
       None \<Rightarrow> flit_serialize_flit ser_id parts bWidth f
     | Some free \<Rightarrow> Inr (credit_serialize empty_dest ser_id parts bWidth free f))"

definition flit_deserialize :: "net_dest \<Rightarrow> int \<Rightarrow> int \<Rightarrow> int \<Rightarrow> flit \<Rightarrow> flit res" where
  "flit_deserialize empty_dest des_id num_flits bWidth f =
    (case fl_credit f of
       None \<Rightarrow> flit_deserialize_flit des_id num_flits bWidth f
     | Some free \<Rightarrow> Inr (credit_deserialize empty_dest des_id num_flits bWidth free f))"

section \<open>Functional access\<close>

text \<open>
  A functional access reaches the message through the flit. \<open>Message::functionalRead\<close> and
  \<open>functionalWrite\<close> are virtual methods of generated message classes: parameters, acting
  on a state \<open>'w\<close> that holds the packet, the mask and the messages.
\<close>

type_synonym 'w msg_access = "nat \<Rightarrow> 'w \<Rightarrow> bool \<times> 'w"

definition flit_functionalRead :: "'w msg_access \<Rightarrow> flit \<Rightarrow> 'w \<Rightarrow> (bool \<times> 'w) res" where
  "flit_functionalRead acc f w =
    (case fl_msg_ptr f of None \<Rightarrow> Inl (Null_pointer ''m_msg_ptr'') | Some m \<Rightarrow> Inr (acc m w))"

definition flit_functionalWrite :: "'w msg_access \<Rightarrow> flit \<Rightarrow> 'w \<Rightarrow> (bool \<times> 'w) res" where
  "flit_functionalWrite acc f w =
    (case fl_msg_ptr f of None \<Rightarrow> Inl (Null_pointer ''m_msg_ptr'') | Some m \<Rightarrow> Inr (acc m w))"

section \<open>Lemmas\<close>

lemma flit_new_sel [simp]:
  "fl_type (flit_new p i vc vn r n m ms w t) = flit_type_of i n"
  "fl_id (flit_new p i vc vn r n m ms w t) = i"
  "fl_size (flit_new p i vc vn r n m ms w t) = n"
  "fl_vc (flit_new p i vc vn r n m ms w t) = vc"
  "fl_vnet (flit_new p i vc vn r n m ms w t) = vn"
  "fl_width (flit_new p i vc vn r n m ms w t) = w"
  "fl_msgSize (flit_new p i vc vn r n m ms w t) = ms"
  "fl_packet_id (flit_new p i vc vn r n m ms w t) = p"
  "fl_route (flit_new p i vc vn r n m ms w t) = r"
  "fl_msg_ptr (flit_new p i vc vn r n m ms w t) = m"
  "fl_credit (flit_new p i vc vn r n m ms w t) = None"
  "fl_time (flit_new p i vc vn r n m ms w t) = t"
  "fl_enqueue_time (flit_new p i vc vn r n m ms w t) = t"
  by (simp_all add: flit_new_def)

lemma credit_new_sel [simp]:
  "fl_type (credit_new e vc b t) = CREDIT"
  "fl_vc (credit_new e vc b t) = vc"
  "fl_credit (credit_new e vc b t) = Some b"
  "fl_time (credit_new e vc b t) = t"
  "is_free_signal (credit_new e vc b t) = b"
  by (simp_all add: credit_new_def flit_new_def is_free_signal_def)

lemma advance_stage_sel [simp]:
  "fl_type (advance_stage s t f) = fl_type f"
  "fl_vc (advance_stage s t f) = fl_vc f"
  "fl_time (advance_stage s t f) = fl_time f"
  "fl_stage (advance_stage s t f) = (s, t)"
  "fl_outport (advance_stage s t f) = fl_outport f"
  "fl_packet_id (advance_stage s t f) = fl_packet_id f"
  "fl_id (advance_stage s t f) = fl_id f"
  by (simp_all add: advance_stage_def)

lemma increment_hops_sel [simp]:
  "fl_type (increment_hops f) = fl_type f"
  "fl_vc (increment_hops f) = fl_vc f"
  "fl_time (increment_hops f) = fl_time f"
  "fl_packet_id (increment_hops f) = fl_packet_id f"
  "fl_id (increment_hops f) = fl_id f"
  by (simp_all add: increment_hops_def)

lemma flit_greater_irrefl: "\<not> flit_greater f f"
  by (simp add: flit_greater_def)

lemma flit_greater_trans: "flit_greater a b \<Longrightarrow> flit_greater b c \<Longrightarrow> flit_greater a c"
  by (auto simp: flit_greater_def split: if_splits)

end
