(* ===== verification/FlitBuffer.thy ===== *)
theory FlitBuffer
  imports Flit
begin

text \<open>
  \<open>flitBuffer\<close> (\<open>flitBuffer.hh\<close>, \<open>flitBuffer.cc\<close>), the queue of every stage of the
  network. The interfaces \<open>fifo_queue\<close> and \<open>timed_queue\<close> state what its clients rely
  on; the virtual channels and the links implement them again through this buffer.
\<close>

section \<open>The buffer\<close>

record flitBuffer =
  fb_buffer :: "flit list"
  fb_max_size :: int

definition flitBuffer_new :: flitBuffer where
  "flitBuffer_new = \<lparr>fb_buffer = [], fb_max_size = int INFINITE\<rparr>"

definition flitBuffer_new_size :: "int \<Rightarrow> flitBuffer" where
  "flitBuffer_new_size maximum_size = \<lparr>fb_buffer = [], fb_max_size = maximum_size\<rparr>"

definition fb_isEmpty :: "flitBuffer \<Rightarrow> bool" where
  "fb_isEmpty b \<longleftrightarrow> length (fb_buffer b) = 0"

text \<open>\<open>front\<close> and \<open>pop_front\<close> of an empty \<open>std::deque\<close> are undefined behaviour.\<close>

definition fb_peekTopFlit :: "flitBuffer \<Rightarrow> flit res" where
  "fb_peekTopFlit b = (case fb_buffer b of [] \<Rightarrow> Inl Out_of_range | f # _ \<Rightarrow> Inr f)"

definition fb_getTopFlit :: "flitBuffer \<Rightarrow> (flit \<times> flitBuffer) res" where
  "fb_getTopFlit b =
    (case fb_buffer b of [] \<Rightarrow> Inl Out_of_range | f # fs \<Rightarrow> Inr (f, b\<lparr>fb_buffer := fs\<rparr>))"

definition fb_insert :: "flit \<Rightarrow> flitBuffer \<Rightarrow> flitBuffer" where
  "fb_insert f b = b\<lparr>fb_buffer := fb_buffer b @ [f]\<rparr>"

definition fb_isReady :: "tick \<Rightarrow> flitBuffer \<Rightarrow> bool" where
  "fb_isReady curTime b =
    (if length (fb_buffer b) \<noteq> 0 then fl_time (hd (fb_buffer b)) \<le> curTime else False)"

text \<open>The comparison converts \<open>max_size\<close> to an unsigned value: a negative one is huge.\<close>

definition fb_isFull :: "flitBuffer \<Rightarrow> bool" where
  "fb_isFull b \<longleftrightarrow> 0 \<le> fb_max_size b \<and> int (length (fb_buffer b)) \<ge> fb_max_size b"

definition fb_setMaxSize :: "int \<Rightarrow> flitBuffer \<Rightarrow> flitBuffer" where
  "fb_setMaxSize maximum b = b\<lparr>fb_max_size := maximum\<rparr>"

definition fb_getSize :: "flitBuffer \<Rightarrow> int" where
  "fb_getSize b = int (length (fb_buffer b))"

definition fb_functionalRead :: "'w msg_access \<Rightarrow> flitBuffer \<Rightarrow> 'w \<Rightarrow> (bool \<times> 'w) res" where
  "fb_functionalRead acc b w =
    foldR (\<lambda>f (rd, w). bindR (flit_functionalRead acc f w) (\<lambda>(ok, w'). Inr (ok \<or> rd, w')))
      (fb_buffer b) (False, w)"

definition fb_functionalWrite :: "'w msg_access \<Rightarrow> flitBuffer \<Rightarrow> 'w \<Rightarrow> (nat \<times> 'w) res" where
  "fb_functionalWrite acc b w =
    foldR (\<lambda>f (n, w). bindR (flit_functionalWrite acc f w)
        (\<lambda>(ok, w'). Inr (if ok then n + 1 else n, w')))
      (fb_buffer b) (0, w)"

section \<open>Interfaces\<close>

locale fifo_queue =
  fixes insert :: "'a \<Rightarrow> 'q \<Rightarrow> 'q"
    and peek :: "'q \<Rightarrow> 'a res"
    and get :: "'q \<Rightarrow> ('a \<times> 'q) res"
    and contents :: "'q \<Rightarrow> 'a list"
  assumes contents_insert: "contents (insert x q) = contents q @ [x]"
    and peek_Cons: "contents q = x # xs \<Longrightarrow> peek q = Inr x"
    and get_Cons: "contents q = x # xs \<Longrightarrow> \<exists>q'. get q = Inr (x, q') \<and> contents q' = xs"
    and get_Nil: "contents q = [] \<Longrightarrow> \<exists>e. get q = Inl e"
begin

lemma get_contents: "get q = Inr (x, q') \<longleftrightarrow> contents q = x # contents q' \<and> get q = Inr (x, q')"
  using get_Cons get_Nil by (cases "contents q") fastforce+

text \<open>First in, first out: an insertion never changes what is taken out before it.\<close>

lemma get_after_insert:
  assumes "contents q \<noteq> []"
  shows "\<exists>q'. get (insert x q) = Inr (hd (contents q), q') \<and> contents q' = tl (contents q) @ [x]"
  using get_Cons [of "insert x q" "hd (contents q)"] assms
  by (auto simp: contents_insert)

lemma get_insert_empty:
  assumes "contents q = []"
  shows "\<exists>q'. get (insert x q) = Inr (x, q') \<and> contents q' = []"
  using get_Cons [of "insert x q" x "[]"] assms by (simp add: contents_insert)

lemma get_mset: "get q = Inr (x, q') \<Longrightarrow> mset (contents q) = add_mset x (mset (contents q'))"
  using get_contents by (metis mset.simps(2))

end

text \<open>Queues whose head is released at the time stamped on it.\<close>

locale timed_queue = fifo_queue +
  fixes stamp :: "'a \<Rightarrow> tick"
    and isReady :: "tick \<Rightarrow> 'b \<Rightarrow> bool"
  assumes isReady_iff: "isReady now q \<longleftrightarrow> contents q \<noteq> [] \<and> stamp (hd (contents q)) \<le> now"
begin

lemma isReady_get:
  assumes "isReady now q"
  shows "\<exists>x q'. peek q = Inr x \<and> get q = Inr (x, q') \<and> stamp x \<le> now \<and> contents q = x # contents q'"
proof (cases "contents q")
  case Nil
  with assms show ?thesis by (simp add: isReady_iff)
next
  case (Cons x xs)
  with assms have "stamp x \<le> now" by (simp add: isReady_iff)
  with Cons get_Cons [OF Cons] peek_Cons [OF Cons] show ?thesis by auto
qed

lemma isReady_mono: "isReady now q \<Longrightarrow> now \<le> later \<Longrightarrow> isReady later q"
  by (auto simp: isReady_iff)

text \<open>
  In a queue filled in time order the head is ready as soon as anything is: a ready entry is
  never hidden behind one that is not.
\<close>

lemma isReady_sorted:
  assumes "sorted (map stamp (contents q))"
  shows "isReady now q \<longleftrightarrow> (\<exists>x \<in> set (contents q). stamp x \<le> now)"
  using assms by (cases "contents q") (auto simp: isReady_iff)

lemma sorted_insert:
  assumes "sorted (map stamp (contents q))" and "\<forall>y \<in> set (contents q). stamp y \<le> stamp x"
  shows "sorted (map stamp (contents (insert x q)))"
  using assms by (auto simp: contents_insert sorted_append)

end

section \<open>The buffer implements the interfaces\<close>

interpretation fb: timed_queue fb_insert fb_peekTopFlit fb_getTopFlit fb_buffer fl_time fb_isReady
  by unfold_locales
    (auto simp: fb_insert_def fb_peekTopFlit_def fb_getTopFlit_def fb_isReady_def)

lemma fb_insert_buffer [simp]: "fb_buffer (fb_insert f b) = fb_buffer b @ [f]"
  by (simp add: fb_insert_def)

lemma fb_new_buffer [simp]: "fb_buffer flitBuffer_new = []"
  by (simp add: flitBuffer_new_def)

lemma fb_getTopFlit_eq [res_simps]:
  "fb_getTopFlit b = Inr (f, b') \<longleftrightarrow>
    (\<exists>fs. fb_buffer b = f # fs \<and> b' = b\<lparr>fb_buffer := fs\<rparr>)"
  by (auto simp: fb_getTopFlit_def split: list.splits)

lemma fb_peekTopFlit_eq [res_simps]:
  "fb_peekTopFlit b = Inr f \<longleftrightarrow> (\<exists>fs. fb_buffer b = f # fs)"
  by (auto simp: fb_peekTopFlit_def split: list.splits)

lemma fb_isReady_Cons:
  "fb_isReady now b \<longleftrightarrow> (\<exists>f fs. fb_buffer b = f # fs \<and> fl_time f \<le> now)"
  by (cases "fb_buffer b") (auto simp: fb_isReady_def)

lemma fb_isReady_getE:
  assumes "fb_isReady now b"
  obtains f fs where "fb_buffer b = f # fs" "fl_time f \<le> now"
    "fb_getTopFlit b = Inr (f, b\<lparr>fb_buffer := fs\<rparr>)" "fb_peekTopFlit b = Inr f"
  using assms by (auto simp: fb_isReady_Cons fb_getTopFlit_def fb_peekTopFlit_def)

text \<open>A functional write reaches every flit, and counts those whose message took it.\<close>

lemma fb_functionalWrite_null:
  assumes "f \<in> set (fb_buffer b)" and "fl_msg_ptr f = None"
  shows "\<exists>e. fb_functionalWrite acc b w = Inl e"
proof -
  let ?step = "\<lambda>f (n, w). bindR (flit_functionalWrite acc f w)
        (\<lambda>(ok, w'). Inr (if ok then n + 1 else (n :: nat), w'))"
  have "\<exists>e. foldR ?step fs s = Inl e" if "f \<in> set fs" for fs s
    using that
  proof (induction fs arbitrary: s)
    case Nil
    then show ?case by simp
  next
    case (Cons g fs)
    then show ?case
    proof (cases "?step g s")
      case (Inl e)
      then show ?thesis by simp
    next
      case (Inr s')
      with assms(2) have "g \<noteq> f" by (cases s) (auto simp: flit_functionalWrite_def)
      with Cons Inr show ?thesis by simp
    qed
  qed
  with assms(1) show ?thesis by (simp add: fb_functionalWrite_def)
qed

section \<open>Accounting of flits\<close>

text \<open>
  The identity of a flit, its packet and its place in it, does not change on the way. The
  flits held somewhere are a multiset of identities; credits do not count.
\<close>

definition flit_keys :: "flit list \<Rightarrow> (int \<times> int) multiset" where
  "flit_keys fs = mset (map (\<lambda>f. (fl_packet_id f, fl_id f)) (filter (\<lambda>f. fl_credit f = None) fs))"

lemma flit_keys_simps [simp]:
  "flit_keys [] = {#}"
  "flit_keys (fs @ gs) = flit_keys fs + flit_keys gs"
  by (simp_all add: flit_keys_def)

lemma flit_keys_Cons: "flit_keys (f # fs) = flit_keys [f] + flit_keys fs"
  by (simp add: flit_keys_def)

lemma flit_keys_credit: "fl_credit f = Some b \<Longrightarrow> flit_keys [f] = {#}"
  by (simp add: flit_keys_def)

lemma flit_keys_upd [simp]:
  "flit_keys [f\<lparr>fl_time := t\<rparr>] = flit_keys [f]"
  "flit_keys [f\<lparr>fl_vc := vc\<rparr>] = flit_keys [f]"
  "flit_keys [f\<lparr>fl_outport := p\<rparr>] = flit_keys [f]"
  "flit_keys [advance_stage st t f] = flit_keys [f]"
  "flit_keys [increment_hops f] = flit_keys [f]"
  by (simp_all add: flit_keys_def advance_stage_def increment_hops_def)

end
