(* ===== verification/VirtualChannel.thy ===== *)
theory VirtualChannel
  imports FlitBuffer
begin

text \<open>
  \<open>VirtualChannel\<close> (\<open>VirtualChannel.hh\<close>, \<open>VirtualChannel.cc\<close>): one input buffer of a
  router port with the state of the packet that owns it.
\<close>

record VirtualChannel =
  vc_inputBuffer :: flitBuffer
  vc_state :: "VC_state_type \<times> tick"
  vc_output_port :: int
  vc_enqueue_time :: tick
  vc_output_vc :: int

definition vc_new :: VirtualChannel where
  "vc_new = \<lparr>vc_inputBuffer = flitBuffer_new, vc_state = (IDLE, 0), vc_output_port = -1,
     vc_enqueue_time = INFINITE, vc_output_vc = -1\<rparr>"

definition vc_set_idle :: "tick \<Rightarrow> VirtualChannel \<Rightarrow> VirtualChannel" where
  "vc_set_idle curTime v = v\<lparr>vc_state := (IDLE, curTime), vc_enqueue_time := INFINITE,
     vc_output_port := -1, vc_output_vc := -1\<rparr>"

definition vc_set_active :: "tick \<Rightarrow> VirtualChannel \<Rightarrow> VirtualChannel" where
  "vc_set_active curTime v = v\<lparr>vc_state := (ACTIVE, curTime), vc_enqueue_time := curTime\<rparr>"

definition vc_set_state :: "VC_state_type \<Rightarrow> tick \<Rightarrow> VirtualChannel \<Rightarrow> VirtualChannel" where
  "vc_set_state st curTime v = v\<lparr>vc_state := (st, curTime)\<rparr>"

definition vc_isReady :: "tick \<Rightarrow> VirtualChannel \<Rightarrow> bool" where
  "vc_isReady curTime v = fb_isReady curTime (vc_inputBuffer v)"

definition vc_insertFlit :: "flit \<Rightarrow> VirtualChannel \<Rightarrow> VirtualChannel" where
  "vc_insertFlit f v = v\<lparr>vc_inputBuffer := fb_insert f (vc_inputBuffer v)\<rparr>"

definition vc_peekTopFlit :: "VirtualChannel \<Rightarrow> flit res" where
  "vc_peekTopFlit v = fb_peekTopFlit (vc_inputBuffer v)"

definition vc_getTopFlit :: "VirtualChannel \<Rightarrow> (flit \<times> VirtualChannel) res" where
  "vc_getTopFlit v =
    bindR (fb_getTopFlit (vc_inputBuffer v)) (\<lambda>(f, b). Inr (f, v\<lparr>vc_inputBuffer := b\<rparr>))"

definition vc_need_stage :: "flit_stage \<Rightarrow> tick \<Rightarrow> VirtualChannel \<Rightarrow> bool res" where
  "vc_need_stage stage t v =
    (if fb_isReady t (vc_inputBuffer v) then
       guardR (fst (vc_state v) = ACTIVE \<and> snd (vc_state v) \<le> t)
         (Assert_failed ''m_vc_state.first == ACTIVE_ && m_vc_state.second <= time'')
         (bindR (fb_peekTopFlit (vc_inputBuffer v)) (\<lambda>f. Inr (is_stage stage t f)))
     else Inr False)"

definition vc_functionalRead :: "'w msg_access \<Rightarrow> VirtualChannel \<Rightarrow> 'w \<Rightarrow> (bool \<times> 'w) res" where
  "vc_functionalRead acc v w = fb_functionalRead acc (vc_inputBuffer v) w"

definition vc_functionalWrite :: "'w msg_access \<Rightarrow> VirtualChannel \<Rightarrow> 'w \<Rightarrow> (nat \<times> 'w) res" where
  "vc_functionalWrite acc v w = fb_functionalWrite acc (vc_inputBuffer v) w"

abbreviation vc_flits :: "VirtualChannel \<Rightarrow> flit list" where
  "vc_flits v \<equiv> fb_buffer (vc_inputBuffer v)"

section \<open>Lemmas\<close>

interpretation vcq: timed_queue vc_insertFlit vc_peekTopFlit vc_getTopFlit vc_flits fl_time vc_isReady
proof (unfold_locales, goal_cases)
  case (1 x q)
  show ?case by (simp add: vc_insertFlit_def)
next
  case (2 q x xs)
  then show ?case by (simp add: vc_peekTopFlit_def fb.peek_Cons)
next
  case (3 q x xs)
  with fb.get_Cons show ?case by (force simp: vc_getTopFlit_def)
next
  case (4 q)
  with fb.get_Nil [of "vc_inputBuffer q"] show ?case by (auto simp: vc_getTopFlit_def)
next
  case (5 now q)
  show ?case by (simp add: vc_isReady_def fb.isReady_iff)
qed

text \<open>
  The states a channel may be in: idle and empty, or active and owned by one packet. A
  buffered flit is stamped no earlier than the activation of its channel is over.
\<close>

definition vc_ok :: "VirtualChannel \<Rightarrow> bool" where
  "vc_ok v \<longleftrightarrow>
    (fst (vc_state v) = IDLE \<and> vc_flits v = [] \<and> vc_output_port v = -1 \<and> vc_output_vc v = -1) \<or>
    (fst (vc_state v) = ACTIVE)"

lemma vc_new_ok: "vc_ok vc_new"
  by (simp add: vc_ok_def vc_new_def)

lemma vc_set_idle_ok: "vc_flits v = [] \<Longrightarrow> vc_ok (vc_set_idle t v)"
  by (simp add: vc_ok_def vc_set_idle_def)

lemma vc_set_active_ok: "vc_ok (vc_set_active t v)"
  by (simp add: vc_ok_def vc_set_active_def)

lemma vc_insertFlit_ok: "fst (vc_state v) = ACTIVE \<Longrightarrow> vc_ok (vc_insertFlit f v)"
  by (simp add: vc_ok_def vc_insertFlit_def)

text \<open>
  On a well-formed channel that was activated by the present tick the assertion of
  \<open>need_stage\<close> never fails: a ready flit means the channel is active.
\<close>

lemma vc_need_stage_total:
  assumes "vc_ok v" and "snd (vc_state v) \<le> t"
  shows "vc_need_stage st t v =
    Inr (\<exists>f fs. vc_flits v = f # fs \<and> fl_time f \<le> t \<and> is_stage st t f)"
  using assms
  by (cases "vc_flits v") (auto simp: vc_need_stage_def vc_ok_def fb_isReady_def fb_peekTopFlit_def)

lemma vc_need_stage_True:
  "vc_need_stage st t v = Inr True \<Longrightarrow>
    \<exists>f fs. vc_flits v = f # fs \<and> fl_time f \<le> t \<and> is_stage st t f \<and> fst (vc_state v) = ACTIVE"
  by (auto simp: vc_need_stage_def res_simps fb_isReady_Cons split: if_splits)

lemma vc_set_flits [simp]:
  "vc_flits (vc_set_idle t v) = vc_flits v"
  "vc_flits (vc_set_active t v) = vc_flits v"
  "vc_flits (vc_insertFlit f v) = vc_flits v @ [f]"
  by (simp_all add: vc_set_idle_def vc_set_active_def vc_insertFlit_def)

lemma vc_getTopFlit_eq [res_simps]:
  "vc_getTopFlit v = Inr (f, v') \<longleftrightarrow>
    (\<exists>fs. vc_flits v = f # fs \<and> v' = v\<lparr>vc_inputBuffer := (vc_inputBuffer v)\<lparr>fb_buffer := fs\<rparr>\<rparr>)"
  by (auto simp: vc_getTopFlit_def res_simps)

end
