(* ===== verification/OutVcState.thy ===== *)
theory OutVcState
  imports VirtualChannel
begin

text \<open>
  \<open>OutVcState\<close> (\<open>OutVcState.hh\<close>, \<open>OutVcState.cc\<close>): what an output port or a network
  interface knows of one virtual channel of the next input port, and the part of the
  configuration of \<open>GarnetNetwork\<close> the routers read. The interface \<open>credit_counter\<close>
  states the contract of the credits; under it no sender can overrun the buffer.
\<close>

section \<open>The configuration of the network\<close>

record garnet_config =
  gc_vnet_type :: "VNET_type list"
  gc_ordered :: "bool list"
  gc_buffers_per_data_vc :: int
  gc_buffers_per_ctrl_vc :: int
  gc_routing_algorithm :: RoutingAlgorithm
  gc_num_rows :: int
  gc_num_cols :: int
  gc_num_vnets :: nat
  gc_max_vcs_per_vnet :: int
  gc_ni_flit_size :: int
  gc_deadlock_threshold :: nat
  gc_empty_dest :: net_dest

definition get_vnet_type :: "garnet_config \<Rightarrow> int \<Rightarrow> VNET_type res" where
  "get_vnet_type cfg vnet = nthR (gc_vnet_type cfg) vnet"

definition isVNetOrdered :: "garnet_config \<Rightarrow> int \<Rightarrow> bool res" where
  "isVNetOrdered cfg vnet = nthR (gc_ordered cfg) vnet"

section \<open>Output virtual channel state\<close>

record OutVcState =
  ovc_id :: int
  ovc_time :: tick
  ovc_vc_state :: VC_state_type
  ovc_credit_count :: int
  ovc_max_credit_count :: int

definition OutVcState_new :: "int \<Rightarrow> garnet_config \<Rightarrow> nat \<Rightarrow> OutVcState res" where
  "OutVcState_new i cfg consumerVcs =
    guardR (consumerVcs \<noteq> 0) Div_by_zero
    (let vnet = i div int consumerVcs in
     bindR (get_vnet_type cfg vnet) (\<lambda>ty.
     let credits = (if ty = DATA_VNET then gc_buffers_per_data_vc cfg
                    else gc_buffers_per_ctrl_vc cfg) in
     guardR (credits \<ge> 1) (Assert_failed ''m_credit_count >= 1'')
       (Inr \<lparr>ovc_id = i, ovc_time = 0, ovc_vc_state = IDLE,
             ovc_credit_count = credits, ovc_max_credit_count = credits\<rparr>)))"

definition has_credit :: "OutVcState \<Rightarrow> bool" where
  "has_credit v \<longleftrightarrow> ovc_credit_count v > 0"

definition increment_credit :: "OutVcState \<Rightarrow> OutVcState res" where
  "increment_credit v =
    (let v' = v\<lparr>ovc_credit_count := ovc_credit_count v + 1\<rparr> in
     guardR (ovc_credit_count v' \<le> ovc_max_credit_count v')
       (Assert_failed ''m_credit_count <= m_max_credit_count'') (Inr v'))"

definition decrement_credit :: "OutVcState \<Rightarrow> OutVcState res" where
  "decrement_credit v =
    (let v' = v\<lparr>ovc_credit_count := ovc_credit_count v - 1\<rparr> in
     guardR (ovc_credit_count v' \<ge> 0) (Assert_failed ''m_credit_count >= 0'') (Inr v'))"

definition isInState :: "VC_state_type \<Rightarrow> tick \<Rightarrow> OutVcState \<Rightarrow> bool" where
  "isInState st request_time v \<longleftrightarrow> ovc_vc_state v = st \<and> request_time \<ge> ovc_time v"

definition setState :: "VC_state_type \<Rightarrow> tick \<Rightarrow> OutVcState \<Rightarrow> OutVcState" where
  "setState st t v = v\<lparr>ovc_vc_state := st, ovc_time := t\<rparr>"

definition ovc_ok :: "OutVcState \<Rightarrow> bool" where
  "ovc_ok v \<longleftrightarrow> 0 \<le> ovc_credit_count v \<and> ovc_credit_count v \<le> ovc_max_credit_count v
     \<and> 1 \<le> ovc_max_credit_count v"

section \<open>The contract of a credit counter\<close>

text \<open>
  A sender takes a credit for a flit, the receiver gives it back when the flit has left its
  buffer. \<open>credit_history\<close> runs a history of such events, \<open>True\<close> for a credit
  taken; \<open>feasible\<close> says that at every point the flits outstanding are between none
  and the capacity.
\<close>

definition credit_history :: "('c \<Rightarrow> 'c res) \<Rightarrow> ('c \<Rightarrow> 'c res) \<Rightarrow> bool list \<Rightarrow> 'c \<Rightarrow> 'c res" where
  "credit_history take_credit give_credit = foldR (\<lambda>b. if b then take_credit else give_credit)"

fun feasible :: "bool list \<Rightarrow> int \<Rightarrow> int \<Rightarrow> bool" where
  "feasible [] n m = True"
| "feasible (True # bs) n m = (0 < n \<and> feasible bs (n - 1) m)"
| "feasible (False # bs) n m = (n < m \<and> feasible bs (n + 1) m)"

locale credit_counter =
  fixes take :: "'c \<Rightarrow> 'c res"
    and give :: "'c \<Rightarrow> 'c res"
    and avail :: "'c \<Rightarrow> bool"
    and count :: "'c \<Rightarrow> int"
    and cap :: "'c \<Rightarrow> int"
  assumes take_ok: "0 < count c \<Longrightarrow> \<exists>c'. take c = Inr c' \<and> count c' = count c - 1 \<and> cap c' = cap c"
    and take_err: "count c \<le> 0 \<Longrightarrow> \<exists>e. take c = Inl e"
    and give_ok: "count c < cap c \<Longrightarrow> \<exists>c'. give c = Inr c' \<and> count c' = count c + 1 \<and> cap c' = cap c"
    and give_err: "cap c \<le> count c \<Longrightarrow> \<exists>e. give c = Inl e"
    and avail_iff: "avail c \<longleftrightarrow> 0 < count c"
begin

abbreviation run :: "bool list \<Rightarrow> 'c \<Rightarrow> 'c res" where
  "run \<equiv> credit_history take give"

text \<open>What is outstanding never exceeds the capacity, and the count is what is left.\<close>

lemma takeD: "take c = Inr c' \<Longrightarrow> 0 < count c \<and> count c' = count c - 1 \<and> cap c' = cap c"
  using take_ok [of c] take_err [of c] by (cases "0 < count c") auto

lemma giveD: "give c = Inr c' \<Longrightarrow> count c < cap c \<and> count c' = count c + 1 \<and> cap c' = cap c"
  using give_ok [of c] give_err [of c] by (cases "count c < cap c") auto

lemma run_count:
  assumes "run bs c = Inr c'"
  shows "cap c' = cap c \<and>
    count c' = count c - int (length (filter id bs)) + int (length (filter Not bs))"
  using assms
proof (induction bs arbitrary: c)
  case Nil
  then show ?case by (simp add: credit_history_def)
next
  case (Cons b bs)
  then obtain c1 where "(if b then take else give) c = Inr c1" and "run bs c1 = Inr c'"
    by (auto simp: credit_history_def res_simps)
  with Cons.IH [of c1] takeD [of c c1] giveD [of c c1] show ?case by (cases b) auto
qed

lemma run_bounds:
  assumes "run bs c = Inr c'" and "0 \<le> count c" and "count c \<le> cap c"
  shows "0 \<le> count c' \<and> count c' \<le> cap c'"
proof -
  have "0 \<le> count c' \<and> count c' \<le> cap c'"
    by (rule foldR_invariant [where P = "\<lambda>c. 0 \<le> count c \<and> count c \<le> cap c",
          OF assms(1) [unfolded credit_history_def]])
      (use assms takeD giveD in \<open>auto split: if_splits\<close>, (fastforce dest: takeD giveD)+)
  then show ?thesis .
qed

text \<open>A history succeeds exactly when it is feasible: the counter stops no other.\<close>

lemma run_succeeds: "(\<exists>c'. run bs c = Inr c') \<longleftrightarrow> feasible bs (count c) (cap c)"
proof (induction bs arbitrary: c)
  case Nil
  show ?case by (simp add: credit_history_def)
next
  case (Cons b bs)
  show ?case
  proof (cases "if b then 0 < count c else count c < cap c")
    case True
    then obtain c1 where c1: "(if b then take else give) c = Inr c1"
        "count c1 = (if b then count c - 1 else count c + 1)" "cap c1 = cap c"
      using take_ok [of c] give_ok [of c] by (cases b) auto
    then have "run (b # bs) c = run bs c1" by (simp add: credit_history_def)
    with c1 True Cons.IH [of c1] show ?thesis by (cases b) auto
  next
    case False
    then obtain e where "(if b then take else give) c = Inl e"
      using take_err [of c] give_err [of c] by (cases b) auto
    then have "run (b # bs) c = Inl e" by (simp add: credit_history_def)
    with False show ?thesis by (cases b) auto
  qed
qed

end

interpretation ovc: credit_counter decrement_credit increment_credit has_credit
  ovc_credit_count ovc_max_credit_count
  by unfold_locales (auto simp: decrement_credit_def increment_credit_def has_credit_def)

section \<open>Lemmas\<close>

lemma decrement_credit_eq [res_simps]:
  "decrement_credit v = Inr v' \<longleftrightarrow>
    0 < ovc_credit_count v \<and> v' = v\<lparr>ovc_credit_count := ovc_credit_count v - 1\<rparr>"
  by (auto simp: decrement_credit_def res_simps)

lemma increment_credit_eq [res_simps]:
  "increment_credit v = Inr v' \<longleftrightarrow>
    ovc_credit_count v < ovc_max_credit_count v \<and>
    v' = v\<lparr>ovc_credit_count := ovc_credit_count v + 1\<rparr>"
  by (auto simp: increment_credit_def res_simps)

lemma OutVcState_new_ok:
  "OutVcState_new i cfg n = Inr v \<Longrightarrow> ovc_ok v \<and> isInState IDLE t v \<and> has_credit v \<and>
    ovc_credit_count v = ovc_max_credit_count v"
  by (auto simp: OutVcState_new_def ovc_ok_def isInState_def has_credit_def Let_def res_simps)

lemma decrement_credit_ok: "ovc_ok v \<Longrightarrow> decrement_credit v = Inr v' \<Longrightarrow> ovc_ok v'"
  by (auto simp: res_simps ovc_ok_def)

lemma increment_credit_ok: "ovc_ok v \<Longrightarrow> increment_credit v = Inr v' \<Longrightarrow> ovc_ok v'"
  by (auto simp: res_simps ovc_ok_def)

lemma setState_ok [simp]: "ovc_ok (setState st t v) = ovc_ok v"
  by (simp add: ovc_ok_def setState_def)

lemma setState_sel [simp]:
  "ovc_credit_count (setState st t v) = ovc_credit_count v"
  "ovc_max_credit_count (setState st t v) = ovc_max_credit_count v"
  "ovc_vc_state (setState st t v) = st"
  by (simp_all add: setState_def)

text \<open>
  C16: A virtual channel that starts from the constructor has as its largest count the buffers the
  configuration gives its kind of virtual network: the data buffers when virtual network
  \<open>id / consumerVcs\<close> is of type DATA_VNET, the control buffers otherwise. Over any history of
  credits taken (by flits sent) and given back, the assertions let the history run exactly when
  the flits outstanding always stay between none and that number of buffers; then the count is
  the buffers less the flits outstanding, within its bounds.
\<close>

theorem credits_bounded:
  assumes "OutVcState_new i cfg n = Inr v"
  shows "0 \<le> i div int n \<and> nat (i div int n) < length (gc_vnet_type cfg) \<and>
    ovc_max_credit_count v = (if gc_vnet_type cfg ! nat (i div int n) = DATA_VNET
      then gc_buffers_per_data_vc cfg else gc_buffers_per_ctrl_vc cfg) \<and>
    (case credit_history decrement_credit increment_credit bs v of
      Inl e \<Rightarrow> \<not> feasible bs (ovc_max_credit_count v) (ovc_max_credit_count v)
    | Inr v' \<Rightarrow> feasible bs (ovc_max_credit_count v) (ovc_max_credit_count v) \<and>
        0 \<le> ovc_credit_count v' \<and> ovc_credit_count v' \<le> ovc_max_credit_count v' \<and>
        ovc_max_credit_count v' = ovc_max_credit_count v \<and>
        ovc_credit_count v' = ovc_max_credit_count v
          - int (length (filter id bs)) + int (length (filter Not bs)))"
proof -
  have kind: "0 \<le> i div int n \<and> nat (i div int n) < length (gc_vnet_type cfg) \<and>
    ovc_max_credit_count v = (if gc_vnet_type cfg ! nat (i div int n) = DATA_VNET
      then gc_buffers_per_data_vc cfg else gc_buffers_per_ctrl_vc cfg)"
    using assms by (auto simp: OutVcState_new_def get_vnet_type_def nthR_def Let_def res_simps
        split: if_splits)
  have new: "0 \<le> ovc_credit_count v" "ovc_credit_count v = ovc_max_credit_count v"
    using OutVcState_new_ok [OF assms, of 0] by (auto simp: ovc_ok_def)
  have "case credit_history decrement_credit increment_credit bs v of
      Inl e \<Rightarrow> \<not> feasible bs (ovc_max_credit_count v) (ovc_max_credit_count v)
    | Inr v' \<Rightarrow> feasible bs (ovc_max_credit_count v) (ovc_max_credit_count v) \<and>
        0 \<le> ovc_credit_count v' \<and> ovc_credit_count v' \<le> ovc_max_credit_count v' \<and>
        ovc_max_credit_count v' = ovc_max_credit_count v \<and>
        ovc_credit_count v' = ovc_max_credit_count v
          - int (length (filter id bs)) + int (length (filter Not bs))"
  proof (cases "credit_history decrement_credit increment_credit bs v")
    case (Inl e)
    with ovc.run_succeeds [of bs v] new show ?thesis by simp
  next
    case (Inr v')
    have "0 \<le> ovc_credit_count v' \<and> ovc_credit_count v' \<le> ovc_max_credit_count v'"
      using new by (intro ovc.run_bounds [OF Inr]) simp_all
    with Inr ovc.run_succeeds [of bs v] ovc.run_count [OF Inr] new show ?thesis by simp
  qed
  with kind show ?thesis by blast
qed

definition example_config :: garnet_config where
  "example_config = \<lparr>gc_vnet_type = [CTRL_VNET, DATA_VNET], gc_ordered = [False, True],
     gc_buffers_per_data_vc = 4, gc_buffers_per_ctrl_vc = 1, gc_routing_algorithm = XY,
     gc_num_rows = 2, gc_num_cols = 2, gc_num_vnets = 2, gc_max_vcs_per_vnet = 2,
     gc_ni_flit_size = 16, gc_deadlock_threshold = 50000, gc_empty_dest = []\<rparr>"

lemma credits_bounded_witness:
  "\<exists>v v'. OutVcState_new 2 example_config 2 = Inr v \<and>
    credit_history decrement_credit increment_credit [True, True, False] v = Inr v' \<and>
    ovc_credit_count v' = 3"
proof -
  obtain v where v: "OutVcState_new 2 example_config 2 = Inr v" "ovc_max_credit_count v = 4"
    "ovc_credit_count v = 4"
    by (simp add: OutVcState_new_def get_vnet_type_def example_config_def)
  with credits_bounded [OF v(1), of "[True, True, False]"] show ?thesis
    by (auto split: sum.splits)
qed

end
