(* ===== verification/NetworkLink.thy ===== *)
theory NetworkLink
  imports OutVcState
begin

text \<open>
  \<open>NetworkLink\<close> and its subclass \<open>CreditLink\<close> (\<open>NetworkLink.hh\<close>, \<open>NetworkLink.cc\<close>,
  \<open>CreditLink.hh\<close>): a link moves the head of its source queue into its own buffer once per
  cycle and stamps it with the time the transfer ends. The object graph is explicit: the
  source queue and the consumer are references, the source queue is an argument of
  \<open>link_wakeup\<close>, and the wakeups it asks of its consumer are part of the result.
\<close>

datatype consumer_ref =
    Router_consumer nat
  | Link_consumer nat
  | NI_consumer nat
  | Switch_consumer nat
  | Throttle_consumer nat nat

datatype queue_ref =
    Router_out nat nat
  | Router_credit nat nat
  | NI_out nat nat
  | NI_credit nat nat
  | Bridge_buffer nat

record NetworkLink =
  lk_id :: int
  lk_type :: link_type
  lk_latency :: cycles
  lk_link_utilized :: nat
  lk_vc_load :: "nat list"
  lk_virt_nets :: nat
  lk_linkBuffer :: flitBuffer
  lk_link_consumer :: "consumer_ref option"
  lk_srcQueue :: "queue_ref option"
  lk_mVnets :: "int list"
  lk_bitWidth :: int
  lk_consumer :: consumer

definition NetworkLink_new :: "int \<Rightarrow> cycles \<Rightarrow> nat \<Rightarrow> int list \<Rightarrow> int \<Rightarrow> nat \<Rightarrow> NetworkLink" where
  "NetworkLink_new link_id link_latency virt_nets supported_vnets width period =
    \<lparr>lk_id = link_id, lk_type = NUM_LINK_TYPES, lk_latency = link_latency, lk_link_utilized = 0,
     lk_vc_load = [], lk_virt_nets = virt_nets, lk_linkBuffer = flitBuffer_new,
     lk_link_consumer = None, lk_srcQueue = None, lk_mVnets = supported_vnets,
     lk_bitWidth = width, lk_consumer = consumer_init period\<rparr>"

definition setLinkConsumer :: "consumer_ref \<Rightarrow> NetworkLink \<Rightarrow> NetworkLink" where
  "setLinkConsumer c l = l\<lparr>lk_link_consumer := Some c\<rparr>"

text \<open>\<open>std::vector::resize\<close> keeps the common prefix and fills with zeros.\<close>

definition setVcsPerVnet :: "nat \<Rightarrow> NetworkLink \<Rightarrow> NetworkLink" where
  "setVcsPerVnet consumerVcs l =
    (let n = lk_virt_nets l * consumerVcs
     in l\<lparr>lk_vc_load := take n (lk_vc_load l) @ replicate (n - length (lk_vc_load l)) 0\<rparr>)"

definition setSourceQueue :: "queue_ref \<Rightarrow> NetworkLink \<Rightarrow> NetworkLink" where
  "setSourceQueue q l = l\<lparr>lk_srcQueue := Some q\<rparr>"

definition link_setType :: "link_type \<Rightarrow> NetworkLink \<Rightarrow> NetworkLink" where
  "link_setType ty l = l\<lparr>lk_type := ty\<rparr>"

definition link_isReady :: "tick \<Rightarrow> NetworkLink \<Rightarrow> bool" where
  "link_isReady curTime l = fb_isReady curTime (lk_linkBuffer l)"

definition peekLink :: "NetworkLink \<Rightarrow> flit res" where
  "peekLink l = fb_peekTopFlit (lk_linkBuffer l)"

definition consumeLink :: "NetworkLink \<Rightarrow> (flit \<times> NetworkLink) res" where
  "consumeLink l =
    bindR (fb_getTopFlit (lk_linkBuffer l)) (\<lambda>(f, b). Inr (f, l\<lparr>lk_linkBuffer := b\<rparr>))"

text \<open>\<open>scheduleEventAbsolute\<close> and \<open>scheduleEvent\<close> on the link as a consumer.\<close>

definition link_scheduleEventAbsolute :: "tick \<Rightarrow> tick \<Rightarrow> NetworkLink \<Rightarrow> NetworkLink" where
  "link_scheduleEventAbsolute now t l = l\<lparr>lk_consumer := scheduleEventAbsolute now t (lk_consumer l)\<rparr>"

definition link_scheduleEvent :: "tick \<Rightarrow> cycles \<Rightarrow> NetworkLink \<Rightarrow> NetworkLink" where
  "link_scheduleEvent now n l = l\<lparr>lk_consumer := scheduleEvent now n (lk_consumer l)\<rparr>"

text \<open>\<open>ClockedObject::clockEdge\<close> of the link.\<close>

definition link_clockEdge :: "tick \<Rightarrow> cycles \<Rightarrow> NetworkLink \<Rightarrow> tick" where
  "link_clockEdge now n l = clock_edge (con_period (lk_consumer l)) now n"

text \<open>The transfer of one flit, and the whole \<open>wakeup\<close>.\<close>

definition link_transfer ::
    "tick \<Rightarrow> flit \<Rightarrow> NetworkLink \<Rightarrow> (NetworkLink \<times> (consumer_ref \<times> tick) list) res" where
  "link_transfer now t_flit l =
    guardR (lk_type l = NUM_LINK_TYPES \<or> fl_width t_flit = lk_bitWidth l)
      (Assert_failed ''t_flit->m_width == bitWidth'')
    (guardR (lk_type l = NUM_LINK_TYPES \<or> fl_vnet t_flit \<in> set (lk_mVnets l) \<or> length (lk_mVnets l) = 0)
      (Assert_failed ''vnet supported by link'')
    (let due = link_clockEdge now (lk_latency l) l;
         f' = t_flit\<lparr>fl_time := due\<rparr>
     in case lk_link_consumer l of
          None \<Rightarrow> Inl (Null_pointer ''link_consumer'')
        | Some c \<Rightarrow>
            bindR (modR (lk_vc_load l) (fl_vc t_flit) (\<lambda>n. Inr (n + 1))) (\<lambda>vc_load.
              Inr (l\<lparr>lk_linkBuffer := fb_insert f' (lk_linkBuffer l),
                     lk_link_utilized := lk_link_utilized l + 1, lk_vc_load := vc_load\<rparr>,
                   [(c, due)]))))"

definition link_wakeup ::
    "tick \<Rightarrow> flitBuffer option \<Rightarrow> NetworkLink
     \<Rightarrow> (flitBuffer \<times> NetworkLink \<times> (consumer_ref \<times> tick) list) res" where
  "link_wakeup now srcQueue l =
    (case srcQueue of
       None \<Rightarrow> Inl (Assert_failed ''link_srcQueue != nullptr'')
     | Some src \<Rightarrow>
         guardR (now = link_clockEdge now 0 l) (Assert_failed ''curTick() == clockEdge()'')
         (bindR (if fb_isReady now src then
                   bindR (fb_getTopFlit src) (\<lambda>(t_flit, src').
                   bindR (link_transfer now t_flit l) (\<lambda>(l', reqs). Inr (src', l', reqs)))
                 else Inr (src, l, []))
           (\<lambda>(src', l', reqs).
              Inr (src', if \<not> fb_isEmpty src' then link_scheduleEvent now 1 l' else l', reqs))))"

definition link_resetStats :: "NetworkLink \<Rightarrow> NetworkLink" where
  "link_resetStats l =
    l\<lparr>lk_vc_load := replicate (length (lk_vc_load l)) 0, lk_link_utilized := 0\<rparr>"

definition link_functionalRead :: "'w msg_access \<Rightarrow> NetworkLink \<Rightarrow> 'w \<Rightarrow> (bool \<times> 'w) res" where
  "link_functionalRead acc l w = fb_functionalRead acc (lk_linkBuffer l) w"

definition link_functionalWrite :: "'w msg_access \<Rightarrow> NetworkLink \<Rightarrow> 'w \<Rightarrow> (nat \<times> 'w) res" where
  "link_functionalWrite acc l w = fb_functionalWrite acc (lk_linkBuffer l) w"

section \<open>Lemmas\<close>

text \<open>The consumer of a link sees its buffer through the same timed queue interface.\<close>

definition link_insert :: "flit \<Rightarrow> NetworkLink \<Rightarrow> NetworkLink" where
  "link_insert f l = l\<lparr>lk_linkBuffer := fb_insert f (lk_linkBuffer l)\<rparr>"

abbreviation link_flits :: "NetworkLink \<Rightarrow> flit list" where
  "link_flits l \<equiv> fb_buffer (lk_linkBuffer l)"

interpretation lkq: timed_queue link_insert peekLink consumeLink link_flits fl_time link_isReady
proof (unfold_locales, goal_cases)
  case (1 x q)
  show ?case by (simp add: link_insert_def)
next
  case (2 q x xs)
  then show ?case by (simp add: peekLink_def fb.peek_Cons)
next
  case (3 q x xs)
  with fb.get_Cons show ?case by (force simp: consumeLink_def)
next
  case (4 q)
  with fb.get_Nil [of "lk_linkBuffer q"] show ?case by (auto simp: consumeLink_def)
next
  case (5 now q)
  show ?case by (simp add: link_isReady_def fb.isReady_iff)
qed

lemma consumeLink_eq [res_simps]:
  "consumeLink l = Inr (f, l') \<longleftrightarrow>
    (\<exists>fs. link_flits l = f # fs \<and> l' = l\<lparr>lk_linkBuffer := (lk_linkBuffer l)\<lparr>fb_buffer := fs\<rparr>\<rparr>)"
  by (auto simp: consumeLink_def res_simps)

lemma link_schedule_sel [simp]:
  "lk_linkBuffer (link_scheduleEventAbsolute now t l) = lk_linkBuffer l"
  "lk_linkBuffer (link_scheduleEvent now n l) = lk_linkBuffer l"
  "lk_latency (link_scheduleEvent now n l) = lk_latency l"
  "lk_link_utilized (link_scheduleEvent now n l) = lk_link_utilized l"
  "lk_vc_load (link_scheduleEvent now n l) = lk_vc_load l"
  by (simp_all add: link_scheduleEventAbsolute_def link_scheduleEvent_def)

lemma link_transfer_eq:
  "link_transfer now f l = Inr (l', reqs) \<Longrightarrow>
    (\<exists>c. lk_link_consumer l = Some c \<and> reqs = [(c, link_clockEdge now (lk_latency l) l)]) \<and>
    link_flits l' = link_flits l @ [f\<lparr>fl_time := link_clockEdge now (lk_latency l) l\<rparr>] \<and>
    lk_link_utilized l' = lk_link_utilized l + 1 \<and> lk_consumer l' = lk_consumer l \<and>
    lk_latency l' = lk_latency l"
  by (auto simp: link_transfer_def Let_def res_simps split: option.splits)

text \<open>The stamps in a link are in order, and none is later than a transfer started now would end.\<close>

definition link_ok :: "tick \<Rightarrow> NetworkLink \<Rightarrow> bool" where
  "link_ok now l \<longleftrightarrow>
    sorted (map fl_time (link_flits l)) \<and> consumer_busy now (lk_consumer l) \<and>
    (\<forall>f \<in> set (link_flits l). fl_time f \<le> link_clockEdge now (lk_latency l) l)"

text \<open>A flit the link can carry: its width, virtual network and virtual channel are the link's.\<close>

definition link_accepts :: "NetworkLink \<Rightarrow> flit \<Rightarrow> bool" where
  "link_accepts l f \<longleftrightarrow>
    (lk_type l = NUM_LINK_TYPES \<or>
       fl_width f = lk_bitWidth l \<and> (fl_vnet f \<in> set (lk_mVnets l) \<or> lk_mVnets l = [])) \<and>
    0 \<le> fl_vc f \<and> fl_vc f < int (length (lk_vc_load l))"

lemma link_transfer_total:
  "link_accepts l f \<Longrightarrow> lk_link_consumer l = Some c \<Longrightarrow> \<exists>l' reqs. link_transfer now f l = Inr (l', reqs)"
  by (auto simp: link_accepts_def link_transfer_def guardR_def Let_def)

lemma link_clockEdge_schedule [simp]:
  "link_clockEdge now k (link_scheduleEvent now n l) = link_clockEdge now k l"
  by (simp add: link_clockEdge_def link_scheduleEvent_def)

lemma link_transfer_ok:
  assumes "link_ok now l" and "link_transfer now f l = Inr (l', reqs)"
  shows "link_ok now l'"
proof -
  from link_transfer_eq [OF assms(2)] have "link_clockEdge now k l' = link_clockEdge now k l" for k
    by (simp add: link_clockEdge_def)
  with link_transfer_eq [OF assms(2)] assms(1) show ?thesis
    by (auto simp: link_ok_def sorted_append)
qed

lemma link_scheduleEvent_ok:
  assumes "link_ok now l"
  shows "link_ok now (link_scheduleEvent now n l)"
    and "clock_edge (con_period (lk_consumer l)) now n
      \<in> set (con_wakeup_ticks (lk_consumer (link_scheduleEvent now n l)))"
proof -
  have "consumer_busy now (lk_consumer l)" using assms by (simp add: link_ok_def)
  note p = scheduleEvent_pending [OF this, of n]
  from p(1) assms show "link_ok now (link_scheduleEvent now n l)"
    unfolding link_ok_def link_clockEdge_schedule link_schedule_sel
    by (simp add: consumer_ok_def link_scheduleEvent_def)
  from p(2) show "clock_edge (con_period (lk_consumer l)) now n
      \<in> set (con_wakeup_ticks (lk_consumer (link_scheduleEvent now n l)))"
    by (simp add: link_scheduleEvent_def)
qed

lemma link_wakeup_idle:
  assumes "link_ok now l" and "now = link_clockEdge now 0 l" and "\<not> fb_isReady now src"
  shows "\<exists>l'. link_wakeup now (Some src) l = Inr (src, l', []) \<and> link_ok now l' \<and>
    link_flits l' = link_flits l \<and>
    (fb_buffer src \<noteq> [] \<longrightarrow>
      clock_edge (con_period (lk_consumer l)) now 1 \<in> set (con_wakeup_ticks (lk_consumer l')))"
  using assms link_scheduleEvent_ok [OF assms(1), of 1]
  by (simp add: link_wakeup_def guardR_def fb_isEmpty_def)

lemma link_wakeup_ready:
  assumes "link_ok now l" and "now = link_clockEdge now 0 l" and "lk_link_consumer l = Some c"
    and "fb_buffer src = f # fs" and "fl_time f \<le> now" and "link_accepts l f"
  shows "\<exists>l'. link_wakeup now (Some src) l = Inr (src\<lparr>fb_buffer := fs\<rparr>, l',
        [(c, link_clockEdge now (lk_latency l) l)]) \<and> link_ok now l' \<and>
    link_flits l' = link_flits l @ [f\<lparr>fl_time := link_clockEdge now (lk_latency l) l\<rparr>] \<and>
    (fs \<noteq> [] \<longrightarrow>
      clock_edge (con_period (lk_consumer l)) now 1 \<in> set (con_wakeup_ticks (lk_consumer l')))"
proof -
  obtain l1 reqs where l1: "link_transfer now f l = Inr (l1, reqs)"
    using link_transfer_total [OF assms(6,3)] by blast
  note eq = link_transfer_eq [OF l1]
  have ok: "link_ok now l1" by (rule link_transfer_ok [OF assms(1) l1])
  have "link_wakeup now (Some src) l = Inr (src\<lparr>fb_buffer := fs\<rparr>,
      if fs \<noteq> [] then link_scheduleEvent now 1 l1 else l1, [(c, link_clockEdge now (lk_latency l) l)])"
    using assms(2-5) l1 eq
    by (simp add: link_wakeup_def guardR_def fb_isEmpty_def fb_isReady_def fb_getTopFlit_def)
  with ok eq link_scheduleEvent_ok [OF ok, of 1] show ?thesis by simp
qed

text \<open>
  C34: A link that wakes up on its clock edge, connected to a consumer and with a source queue
  of flits it can carry, never fails. If the head of the queue is due it moves exactly that
  flit, unchanged but for its stamp, behind those already on the link, and asks the consumer
  to wake up at the stamp; otherwise it moves nothing. The stamps on the link stay in
  order, and while the source queue still holds flits the link wakes up again next cycle.
\<close>

theorem link_wakeup_transfers:
  assumes "link_ok now l" and "now = link_clockEdge now 0 l" and "lk_link_consumer l = Some c"
    and "\<forall>f \<in> set (fb_buffer src). link_accepts l f"
  defines "due \<equiv> link_clockEdge now (lk_latency l) l"
  shows "\<exists>src' l' reqs moved. link_wakeup now (Some src) l = Inr (src', l', reqs) \<and>
    fb_buffer src = moved @ fb_buffer src' \<and>
    link_flits l' = link_flits l @ map (\<lambda>f. f\<lparr>fl_time := due\<rparr>) moved \<and>
    length moved = (if fb_isReady now src then 1 else 0) \<and>
    reqs = map (\<lambda>f. (c, due)) moved \<and> link_ok now l' \<and>
    (fb_buffer src' \<noteq> [] \<longrightarrow>
      clock_edge (con_period (lk_consumer l)) now 1 \<in> set (con_wakeup_ticks (lk_consumer l')))"
proof (cases "fb_isReady now src")
  case True
  then obtain f fs where f: "fb_buffer src = f # fs" "fl_time f \<le> now"
    by (auto simp: fb_isReady_Cons)
  with assms(4) have "link_accepts l f" by simp
  from link_wakeup_ready [OF assms(1-3) f this] True f show ?thesis
    unfolding due_def by (intro exI [of _ "src\<lparr>fb_buffer := fs\<rparr>"]) fastforce
next
  case False
  with link_wakeup_idle [OF assms(1,2) False] show ?thesis by fastforce
qed

definition example_link :: NetworkLink where
  "example_link = setLinkConsumer (Router_consumer 0) (setVcsPerVnet 2 (NetworkLink_new 0 3 2 [] 16 5))"

definition example_flit :: flit where
  "example_flit = flit_new 7 0 1 0 (RouteInfo_new []) 1 None 16 16 10"

lemma link_wakeup_transfers_witness:
  "\<exists>src' l' reqs moved. link_wakeup 10 (Some (fb_insert example_flit flitBuffer_new)) example_link
      = Inr (src', l', reqs) \<and> [example_flit] = moved @ fb_buffer src' \<and> length moved = 1"
proof -
  let ?src = "fb_insert example_flit flitBuffer_new"
  have edge: "link_clockEdge 10 0 example_link = 10"
    by (simp add: link_clockEdge_def example_link_def setLinkConsumer_def setVcsPerVnet_def
        NetworkLink_new_def consumer_init_def clock_edge_def divCeil_def)
  have ok: "link_ok 10 example_link"
    by (simp add: link_ok_def example_link_def setLinkConsumer_def setVcsPerVnet_def
        NetworkLink_new_def consumer_init_def consumer_busy_def flitBuffer_new_def)
  have c: "lk_link_consumer example_link = Some (Router_consumer 0)"
    by (simp add: example_link_def setLinkConsumer_def)
  have acc: "\<forall>f \<in> set (fb_buffer ?src). link_accepts example_link f"
    by (simp add: link_accepts_def example_link_def setLinkConsumer_def setVcsPerVnet_def
        NetworkLink_new_def example_flit_def)
  have "fb_isReady 10 ?src" by (simp add: fb_isReady_def example_flit_def)
  with link_wakeup_transfers [OF ok edge [symmetric] c acc] show ?thesis by auto
qed

section \<open>Accounting of flits\<close>

definition links_keys :: "NetworkLink list \<Rightarrow> (int \<times> int) multiset" where
  "links_keys ls = sum_list (map (\<lambda>l. flit_keys (link_flits l)) ls)"

lemma links_keys_update:
  assumes "0 \<le> i" "i < int (length ls)"
  shows "links_keys (ls[nat i := l]) + flit_keys (link_flits (ls ! nat i))
    = links_keys ls + flit_keys (link_flits l)"
  using assms sum_list_update_add [of "nat i" ls "\<lambda>l. flit_keys (link_flits l)" l]
  by (simp add: links_keys_def)

lemma links_keys_schedule:
  "modR ls i (\<lambda>l. Inr (link_scheduleEventAbsolute now t l)) = Inr ls' \<Longrightarrow> links_keys ls' = links_keys ls"
  by (auto simp: res_simps links_keys_def intro!: sum_list_update_same)

text \<open>A link takes from its source exactly what it adds to its buffer.\<close>

lemma link_wakeup_keys:
  assumes "link_wakeup now (Some src) l = Inr (src', l', reqs)"
  shows "flit_keys (fb_buffer src') + flit_keys (link_flits l') = flit_keys (fb_buffer src) + flit_keys (link_flits l)"
proof (cases "fb_isReady now src")
  case True
  with assms obtain f l1 where *: "fb_getTopFlit src = Inr (f, src')"
      "link_transfer now f l = Inr (l1, reqs)" "link_flits l' = link_flits l1"
    unfolding link_wakeup_def by (auto elim!: res_elims)
  with link_transfer_eq [OF *(2)] flit_keys_Cons [of f "fb_buffer src'"] show ?thesis
    by (auto simp: fb_getTopFlit_eq)
next
  case False
  with assms show ?thesis unfolding link_wakeup_def by (auto elim!: res_elims)
qed

end
