(* ===== verification/RoutingUnit.thy ===== *)
theory RoutingUnit
  imports OutVcState "HOL-Library.Signed_Division"
begin

text \<open>
  \<open>RoutingUnit\<close> (\<open>RoutingUnit.hh\<close>, \<open>RoutingUnit.cc\<close>): the choice of the output port of
  a packet, from the routing table or from the directions of the ports of a mesh.
\<close>

type_synonym PortDirection = string

record RoutingUnit =
  ru_routing_table :: "net_dest list list"
  ru_weight_table :: "int list"
  ru_inports_dirn2idx :: "PortDirection \<rightharpoonup> int"
  ru_inports_idx2dirn :: "int \<rightharpoonup> PortDirection"
  ru_outports_dirn2idx :: "PortDirection \<rightharpoonup> int"
  ru_outports_idx2dirn :: "int \<rightharpoonup> PortDirection"

definition RoutingUnit_new :: RoutingUnit where
  "RoutingUnit_new = \<lparr>ru_routing_table = [], ru_weight_table = [],
     ru_inports_dirn2idx = Map.empty, ru_inports_idx2dirn = Map.empty,
     ru_outports_dirn2idx = Map.empty, ru_outports_idx2dirn = Map.empty\<rparr>"

definition addRoute :: "net_dest list \<Rightarrow> RoutingUnit \<Rightarrow> RoutingUnit" where
  "addRoute entry ru =
    (let table = ru_routing_table ru;
         table' = (if length entry > length table
                   then table @ replicate (length entry - length table) [] else table)
     in ru\<lparr>ru_routing_table :=
          map (\<lambda>v. if v < length entry then table' ! v @ [entry ! v] else table' ! v)
            [0..<length table']\<rparr>)"

definition addWeight :: "int \<Rightarrow> RoutingUnit \<Rightarrow> RoutingUnit" where
  "addWeight link_weight ru = ru\<lparr>ru_weight_table := ru_weight_table ru @ [link_weight]\<rparr>"

definition supportsVnet :: "int \<Rightarrow> int list \<Rightarrow> bool" where
  "supportsVnet vnet sVnets =
    (if length sVnets = 0 then True else if vnet \<in> set sVnets then True else False)"

text \<open>The two loops of \<open>lookupRoutingTable\<close>.\<close>

definition min_weight_loop :: "net_dest list \<Rightarrow> net_dest \<Rightarrow> int list \<Rightarrow> int res" where
  "min_weight_loop entries dest weights =
    foldR (\<lambda>link min_weight.
        bindR (nthR entries link) (\<lambda>e. bindR (nd_intersectionIsNotEmpty e dest) (\<lambda>hit.
          if hit then bindR (nthR weights link) (\<lambda>w. Inr (if w \<le> min_weight then w else min_weight))
          else Inr min_weight)))
      (upto_int (length entries)) (int INFINITE)"

definition candidates_loop ::
    "net_dest list \<Rightarrow> net_dest \<Rightarrow> int list \<Rightarrow> int \<Rightarrow> int list res" where
  "candidates_loop entries dest weights min_weight =
    foldR (\<lambda>link cands.
        bindR (nthR entries link) (\<lambda>e. bindR (nd_intersectionIsNotEmpty e dest) (\<lambda>hit.
          if hit then bindR (nthR weights link)
            (\<lambda>w. Inr (if w = min_weight then cands @ [link] else cands))
          else Inr cands)))
      (upto_int (length entries)) []"

text \<open>\<open>rnd\<close> is the value \<open>rand()\<close> returns in this call.\<close>

definition lookupRoutingTable ::
    "garnet_config \<Rightarrow> nat \<Rightarrow> int \<Rightarrow> net_dest \<Rightarrow> RoutingUnit \<Rightarrow> int res" where
  "lookupRoutingTable cfg rnd vnet msg_destination ru =
    bindR (nthR (ru_routing_table ru) vnet) (\<lambda>entries.
    bindR (min_weight_loop entries msg_destination (ru_weight_table ru)) (\<lambda>min_weight.
    bindR (candidates_loop entries msg_destination (ru_weight_table ru) min_weight) (\<lambda>cands.
    guardR (length cands \<noteq> 0) (Fatal ''No Route exists from this Router.'')
    (bindR (isVNetOrdered cfg vnet) (\<lambda>ordered.
     let candidate = (if \<not> ordered then rnd mod length cands else 0)
     in nthR cands (int candidate))))))"

definition addInDirection :: "PortDirection \<Rightarrow> int \<Rightarrow> RoutingUnit \<Rightarrow> RoutingUnit" where
  "addInDirection dirn idx ru =
    ru\<lparr>ru_inports_dirn2idx := (ru_inports_dirn2idx ru)(dirn \<mapsto> idx),
       ru_inports_idx2dirn := (ru_inports_idx2dirn ru)(idx \<mapsto> dirn)\<rparr>"

definition addOutDirection :: "PortDirection \<Rightarrow> int \<Rightarrow> RoutingUnit \<Rightarrow> RoutingUnit" where
  "addOutDirection dirn idx ru =
    ru\<lparr>ru_outports_dirn2idx := (ru_outports_dirn2idx ru)(dirn \<mapsto> idx),
       ru_outports_idx2dirn := (ru_outports_idx2dirn ru)(idx \<mapsto> dirn)\<rparr>"

text \<open>The direction XY routing takes at router \<open>my_id\<close>, with its assertions.\<close>

definition xy_direction ::
    "int \<Rightarrow> int \<Rightarrow> int \<Rightarrow> int \<Rightarrow> PortDirection \<Rightarrow> PortDirection res" where
  "xy_direction num_rows num_cols my_id dest_id inport_dirn =
    guardR (num_rows > 0 \<and> num_cols > 0) (Assert_failed ''num_rows > 0 && num_cols > 0'')
    (let my_x = my_id smod num_cols; my_y = my_id sdiv num_cols;
         dest_x = dest_id smod num_cols; dest_y = dest_id sdiv num_cols;
         x_hops = \<bar>dest_x - my_x\<bar>; y_hops = \<bar>dest_y - my_y\<bar>;
         x_dirn = (dest_x \<ge> my_x); y_dirn = (dest_y \<ge> my_y)
     in guardR (\<not> (x_hops = 0 \<and> y_hops = 0)) (Assert_failed ''!(x_hops == 0 && y_hops == 0)'')
       (if x_hops > 0 then
          if x_dirn then
            guardR (inport_dirn = ''Local'' \<or> inport_dirn = ''West'')
              (Assert_failed ''inport_dirn Local or West'') (Inr ''East'')
          else
            guardR (inport_dirn = ''Local'' \<or> inport_dirn = ''East'')
              (Assert_failed ''inport_dirn Local or East'') (Inr ''West'')
        else if y_hops > 0 then
          if y_dirn then
            guardR (inport_dirn \<noteq> ''North'') (Assert_failed ''inport_dirn != North'') (Inr ''North'')
          else
            guardR (inport_dirn \<noteq> ''South'') (Assert_failed ''inport_dirn != South'') (Inr ''South'')
        else Inl (Panic ''x_hops == y_hops == 0'')))"

text \<open>
  \<open>m_outports_dirn2idx[outport_dirn]\<close> is \<open>std::map::operator[]\<close>: a missing direction
  is inserted with the value \<open>0\<close>, which is returned.
\<close>

definition outportComputeXY ::
    "garnet_config \<Rightarrow> int \<Rightarrow> RouteInfo \<Rightarrow> int \<Rightarrow> PortDirection \<Rightarrow> RoutingUnit \<Rightarrow> (int \<times> RoutingUnit) res" where
  "outportComputeXY cfg my_id route inport inport_dirn ru =
    bindR (xy_direction (gc_num_rows cfg) (gc_num_cols cfg) my_id (ri_dest_router route) inport_dirn)
      (\<lambda>dirn. case ru_outports_dirn2idx ru dirn of
         Some i \<Rightarrow> Inr (i, ru)
       | None \<Rightarrow> Inr (0, ru\<lparr>ru_outports_dirn2idx := (ru_outports_dirn2idx ru)(dirn \<mapsto> 0)\<rparr>))"

definition outportComputeCustom ::
    "RouteInfo \<Rightarrow> int \<Rightarrow> PortDirection \<Rightarrow> RoutingUnit \<Rightarrow> (int \<times> RoutingUnit) res" where
  "outportComputeCustom route inport inport_dirn ru =
    Inl (Panic ''outportComputeCustom placeholder executed'')"

definition outportCompute ::
    "garnet_config \<Rightarrow> nat \<Rightarrow> int \<Rightarrow> RouteInfo \<Rightarrow> int \<Rightarrow> PortDirection \<Rightarrow> RoutingUnit
     \<Rightarrow> (int \<times> RoutingUnit) res" where
  "outportCompute cfg rnd my_id route inport inport_dirn ru =
    (let lookup = bindR (lookupRoutingTable cfg rnd (ri_vnet route) (ri_net_dest route) ru)
           (\<lambda>outport. Inr (outport, ru))
     in if ri_dest_router route = my_id then lookup
        else bindR (case gc_routing_algorithm cfg of
                 TABLE \<Rightarrow> lookup
               | XY \<Rightarrow> outportComputeXY cfg my_id route inport inport_dirn ru
               | CUSTOM \<Rightarrow> outportComputeCustom route inport inport_dirn ru
               | _ \<Rightarrow> lookup)
             (\<lambda>(outport, ru'). guardR (outport \<noteq> -1) (Assert_failed ''outport != -1'')
                (Inr (outport, ru'))))"

section \<open>The routing table\<close>

text \<open>
  The specification: the links that can carry the message, and those of them of least weight.
\<close>

definition carries :: "net_dest list \<Rightarrow> net_dest \<Rightarrow> int \<Rightarrow> bool" where
  "carries entries dest link \<longleftrightarrow> nd_abs dest \<inter> nd_abs (entries ! nat link) \<noteq> {}"

definition best_links :: "net_dest list \<Rightarrow> net_dest \<Rightarrow> int list \<Rightarrow> int list" where
  "best_links entries dest weights =
    filter (\<lambda>l. carries entries dest l \<and> weights ! nat l \<le> int INFINITE \<and>
        (\<forall>l' \<in> set (upto_int (length entries)).
           carries entries dest l' \<longrightarrow> weights ! nat l \<le> weights ! nat l'))
      (upto_int (length entries))"

text \<open>Every entry is a destination set of the machine, and every link has a weight.\<close>

definition table_ok :: "machine_info \<Rightarrow> net_dest list \<Rightarrow> net_dest \<Rightarrow> int list \<Rightarrow> bool" where
  "table_ok mt entries dest weights \<longleftrightarrow>
    nd_ok mt dest \<and> (\<forall>e \<in> set entries. nd_ok mt e) \<and> length entries \<le> length weights"

lemma table_ok_hit:
  assumes "table_ok mt entries dest weights" and "l \<in> set (upto_int (length entries))"
  shows "nthR entries l = Inr (entries ! nat l)"
    and "nthR weights l = Inr (weights ! nat l)"
    and "nd_intersectionIsNotEmpty (entries ! nat l) dest = Inr (carries entries dest l)"
proof -
  from assms have "0 \<le> l" "l < int (length entries)" "l < int (length weights)"
    by (auto simp: table_ok_def)
  then show "nthR entries l = Inr (entries ! nat l)" "nthR weights l = Inr (weights ! nat l)"
    by simp_all
  have "nd_ok mt (entries ! nat l)" using assms by (auto simp: table_ok_def)
  then show "nd_intersectionIsNotEmpty (entries ! nat l) dest = Inr (carries entries dest l)"
    using assms(1) nd_intersectionIsNotEmpty_abs [of mt dest "entries ! nat l"]
    by (simp add: table_ok_def carries_def)
qed

lemma min_weight_loop_eq:
  assumes "table_ok mt entries dest weights"
  shows "min_weight_loop entries dest weights =
    Inr (Min (insert (int INFINITE)
      ((\<lambda>l. weights ! nat l) ` {l \<in> set (upto_int (length entries)). carries entries dest l})))"
  unfolding min_weight_loop_def fold_min [symmetric]
  by (rule foldR_pure) (simp add: table_ok_hit [OF assms])

lemma candidates_loop_eq:
  assumes "table_ok mt entries dest weights"
  shows "candidates_loop entries dest weights m =
    Inr (filter (\<lambda>l. carries entries dest l \<and> weights ! nat l = m) (upto_int (length entries)))"
proof -
  let ?P = "\<lambda>l. carries entries dest l \<and> weights ! nat l = m"
  have "candidates_loop entries dest weights m =
      Inr (fold (\<lambda>l acc. if ?P l then acc @ [id l] else acc) (upto_int (length entries)) [])"
    unfolding candidates_loop_def
    by (rule foldR_pure) (simp add: table_ok_hit [OF assms])
  then show ?thesis unfolding fold_collect by simp
qed

lemma best_links_eq:
  "best_links entries dest weights =
    filter (\<lambda>l. carries entries dest l \<and> weights ! nat l =
        Min (insert (int INFINITE)
          ((\<lambda>l. weights ! nat l) ` {l \<in> set (upto_int (length entries)). carries entries dest l})))
      (upto_int (length entries))"
proof -
  let ?L = "{l \<in> set (upto_int (length entries)). carries entries dest l}"
  let ?W = "insert (int INFINITE) ((\<lambda>l. weights ! nat l) ` ?L)"
  have fin: "finite ?W" by (simp del: set_upto_int)
  have "weights ! nat l \<le> int INFINITE \<and> (\<forall>l' \<in> ?L. weights ! nat l \<le> weights ! nat l')
      \<longleftrightarrow> weights ! nat l = Min ?W" if "l \<in> ?L" for l
  proof -
    have "weights ! nat l = Min ?W \<longleftrightarrow> (\<forall>x \<in> ?W. weights ! nat l \<le> x)"
      using that fin by (intro eq_Min_iff [THEN trans]) auto
    then show ?thesis by auto
  qed
  then show ?thesis unfolding best_links_def
    by (intro filter_cong) (simp_all del: set_upto_int, blast)
qed

lemma best_links_Nil:
  "best_links entries dest weights = [] \<longleftrightarrow>
    (\<forall>l. 0 \<le> l \<and> l < int (length entries) \<and> carries entries dest l \<longrightarrow> int INFINITE < weights ! nat l)"
    (is "?lhs \<longleftrightarrow> ?rhs")
proof -
  let ?L = "{l \<in> set (upto_int (length entries)). carries entries dest l}"
  let ?W = "insert (int INFINITE) ((\<lambda>l. weights ! nat l) ` ?L)"
  have fin: "finite ?W" by (simp del: set_upto_int)
  then have "Min ?W \<in> ?W" by (rule Min_in) simp
  moreover have le: "Min ?W \<le> weights ! nat l" if "l \<in> ?L" for l
    using fin that by (intro Min_le) auto
  moreover have inf: "Min ?W \<le> int INFINITE" using fin by (intro Min_le) simp_all
  ultimately consider "Min ?W = int INFINITE" | l where "l \<in> ?L" "Min ?W = weights ! nat l" by auto
  then have "?lhs \<longleftrightarrow> (\<forall>l \<in> ?L. int INFINITE < weights ! nat l)"
  proof cases
    case 1
    with le show ?thesis unfolding best_links_eq filter_empty_conv by fastforce
  next
    case 2
    with inf show ?thesis unfolding best_links_eq filter_empty_conv by fastforce
  qed
  then show ?thesis by auto
qed

lemma lookup_loops:
  assumes "table_ok mt entries dest weights"
  shows "bindR (min_weight_loop entries dest weights)
      (\<lambda>m. bindR (candidates_loop entries dest weights m) k) = k (best_links entries dest weights)"
  unfolding min_weight_loop_eq [OF assms] candidates_loop_eq [OF assms] bindR_Inr
    best_links_eq [symmetric] ..

text \<open>
  C39: On a well-formed table the lookup returns a link of least weight among those whose
  routing entry meets the destination set: the first of them on an ordered virtual network,
  the one the random number picks otherwise. It is fatal exactly when no link of weight up to
  \<open>INFINITE_\<close> leads to a destination.
\<close>

theorem lookupRoutingTable_correct:
  assumes "nthR (ru_routing_table ru) vnet = Inr entries"
    and "table_ok mt entries dest (ru_weight_table ru)"
    and "isVNetOrdered cfg vnet = Inr ordered"
  shows "lookupRoutingTable cfg rnd vnet dest ru =
      (let best = best_links entries dest (ru_weight_table ru) in
       if best = [] then Inl (Fatal ''No Route exists from this Router.'')
       else Inr (if ordered then hd best else best ! (rnd mod length best))) \<and>
    (best_links entries dest (ru_weight_table ru) = [] \<longleftrightarrow>
      (\<forall>l. 0 \<le> l \<and> l < int (length entries) \<and> carries entries dest l \<longrightarrow>
        int INFINITE < ru_weight_table ru ! nat l))"
  unfolding best_links_Nil [symmetric] lookupRoutingTable_def assms(1,3) bindR_Inr
    lookup_loops [OF assms(2)]
  by (simp add: guardR_def Let_def hd_conv_nth nat_mod_as_int)

lemma lookupRoutingTable_correct_witness:
  "lookupRoutingTable example_config 3 0 example_dest
    (addWeight 2 (addWeight 1 (addRoute [example_dest, example_dest]
      (addRoute [example_dest, example_dest] RoutingUnit_new)))) = Inr 0"
proof -
  let ?ru = "addWeight 2 (addWeight 1 (addRoute [example_dest, example_dest]
      (addRoute [example_dest, example_dest] RoutingUnit_new)))"
  have t: "nthR (ru_routing_table ?ru) 0 = Inr [example_dest, example_dest]"
    by (simp add: addWeight_def addRoute_def RoutingUnit_new_def)
  have w: "ru_weight_table ?ru = [1, 2]"
    by (simp add: addWeight_def addRoute_def RoutingUnit_new_def)
  have tok: "table_ok example_machines [example_dest, example_dest] example_dest (ru_weight_table ?ru)"
    using example_dest_ok by (simp add: table_ok_def w)
  have ord: "isVNetOrdered example_config 0 = Inr False"
    by (simp add: isVNetOrdered_def example_config_def)
  have "(1, 1) \<in> nd_abs example_dest" by (simp add: nd_abs_def rset_abs_def example_dest_def)
  then have "carries [example_dest, example_dest] example_dest l" if "0 \<le> l" "l < 2" for l
    using that by (cases "l = 0") (auto simp: carries_def)
  then have "best_links [example_dest, example_dest] example_dest [1, 2] = [0]"
    by (simp add: best_links_def upto_int_def INFINITE_def)
  with lookupRoutingTable_correct [OF t tok ord, of 3] w show ?thesis by simp
qed

section \<open>XY routing in a mesh\<close>

text \<open>
  A mesh numbers its routers row by row: \<open>East\<close> of router \<open>r\<close> is \<open>r + 1\<close>, \<open>North\<close> is
  \<open>r + num_cols\<close>. A flit sent east arrives at the \<open>West\<close> port of the neighbour.
\<close>

definition mesh_neighbour :: "int \<Rightarrow> PortDirection \<Rightarrow> int \<Rightarrow> int" where
  "mesh_neighbour cols d r =
    (if d = ''East'' then r + 1 else if d = ''West'' then r - 1
     else if d = ''North'' then r + cols else r - cols)"

definition arrival_port :: "PortDirection \<Rightarrow> PortDirection" where
  "arrival_port d =
    (if d = ''East'' then ''West'' else if d = ''West'' then ''East''
     else if d = ''North'' then ''South'' else ''North'')"

definition mesh_dist :: "int \<Rightarrow> int \<Rightarrow> int \<Rightarrow> nat" where
  "mesh_dist cols r d = nat \<bar>d mod cols - r mod cols\<bar> + nat \<bar>d div cols - r div cols\<bar>"

text \<open>Every router has a registered output port towards each neighbour it has in the mesh.\<close>

definition mesh_ports :: "int \<Rightarrow> int \<Rightarrow> (int \<Rightarrow> RoutingUnit) \<Rightarrow> bool" where
  "mesh_ports rows cols rus \<longleftrightarrow>
    (\<forall>r d. 0 \<le> r \<and> r < rows * cols \<and>
       (d = ''East'' \<and> r mod cols + 1 < cols \<or> d = ''West'' \<and> 0 < r mod cols \<or>
        d = ''North'' \<and> r div cols + 1 < rows \<or> d = ''South'' \<and> 0 < r div cols) \<longrightarrow>
       (\<exists>i. 0 \<le> i \<and> ru_outports_dirn2idx (rus r) d = Some i \<and> ru_outports_idx2dirn (rus r) i = Some d))"

text \<open>The routers a packet visits when every router on the way forwards it once.\<close>

fun xy_walk ::
    "garnet_config \<Rightarrow> (int \<Rightarrow> RoutingUnit) \<Rightarrow> RouteInfo \<Rightarrow> nat \<Rightarrow> int \<Rightarrow> PortDirection \<Rightarrow> int list res" where
  "xy_walk cfg rus route 0 r inport_dirn = Inr [r]"
| "xy_walk cfg rus route (Suc n) r inport_dirn =
    (if r = ri_dest_router route then Inr [r]
     else bindR (outportCompute cfg 0 r route 0 inport_dirn (rus r)) (\<lambda>(outport, ru).
       case ru_outports_idx2dirn ru outport of
         None \<Rightarrow> Inl Out_of_range
       | Some d \<Rightarrow> bindR (xy_walk cfg rus route n (mesh_neighbour (gc_num_cols cfg) d r) (arrival_port d))
           (\<lambda>path. Inr (r # path))))"

lemma sdiv_smod_nonneg: "0 \<le> (a :: int) \<Longrightarrow> 0 < b \<Longrightarrow> a sdiv b = a div b \<and> a smod b = a mod b"
  by (cases "a = 0") (simp_all add: signed_divide_int_def signed_modulo_int_def minus_div_mult_eq_mod)

lemma mesh_coords: "0 \<le> x \<Longrightarrow> x < c \<Longrightarrow> (c * y + x) mod c = x \<and> (c * y + x) div c = (y :: int)"
  by (simp add: div_pos_pos_trivial)

text \<open>
  What a packet may have come through: after an eastward hop the destination is not west, and
  after a hop in a column it is in that column, in the direction of travel.
\<close>

definition xy_came :: "int \<Rightarrow> int \<Rightarrow> int \<Rightarrow> PortDirection \<Rightarrow> bool" where
  "xy_came cols dest r d \<longleftrightarrow>
    d = ''Local'' \<or>
    d = ''West'' \<and> r mod cols \<le> dest mod cols \<or>
    d = ''East'' \<and> dest mod cols \<le> r mod cols \<or>
    d = ''South'' \<and> dest mod cols = r mod cols \<and> r div cols \<le> dest div cols \<or>
    d = ''North'' \<and> dest mod cols = r mod cols \<and> dest div cols \<le> r div cols"

definition xy_spec :: "int \<Rightarrow> int \<Rightarrow> int \<Rightarrow> PortDirection" where
  "xy_spec cols r dest =
    (if r mod cols < dest mod cols then ''East'' else if dest mod cols < r mod cols then ''West''
     else if r div cols < dest div cols then ''North'' else ''South'')"

lemma xy_direction_spec:
  assumes "0 < rows" "0 < cols" "0 \<le> r" "0 \<le> dest" "r \<noteq> dest" "xy_came cols dest r d"
  shows "xy_direction rows cols r dest d = Inr (xy_spec cols r dest)"
proof -
  have "\<not> (r mod cols = dest mod cols \<and> r div cols = dest div cols)"
    using assms(5) by (metis mult_div_mod_eq)
  then consider "r mod cols < dest mod cols" | "dest mod cols < r mod cols"
    | "r mod cols = dest mod cols" "r div cols < dest div cols"
    | "r mod cols = dest mod cols" "dest div cols < r div cols" by linarith
  moreover note coords = sdiv_smod_nonneg [OF assms(3,2)] sdiv_smod_nonneg [OF assms(4,2)]
  ultimately show ?thesis
  proof cases
    case 1
    with assms(1,2,6) coords show ?thesis
      by (simp add: xy_direction_def xy_spec_def xy_came_def guardR_def)
  next
    case 2
    with assms(1,2,6) coords show ?thesis
      by (simp add: xy_direction_def xy_spec_def xy_came_def guardR_def)
  next
    case 3
    with assms(1,2,6) coords show ?thesis
      by (simp add: xy_direction_def xy_spec_def xy_came_def guardR_def) fastforce
  next
    case 4
    with assms(1,2,6) coords show ?thesis
      by (simp add: xy_direction_def xy_spec_def xy_came_def guardR_def) fastforce
  qed
qed

lemma mesh_step:
  assumes "0 < cols" "r \<noteq> dest"
  defines "r' \<equiv> mesh_neighbour cols (xy_spec cols r dest) r"
  shows "r' mod cols = r mod cols + sgn (dest mod cols - r mod cols)"
    and "r' div cols = r div cols +
      (if r mod cols = dest mod cols then sgn (dest div cols - r div cols) else 0)"
proof -
  let ?x = "r mod cols" and ?y = "r div cols"
  have r: "r = cols * ?y + ?x" by simp
  have b: "0 \<le> ?x" "?x < cols" "0 \<le> dest mod cols" "dest mod cols < cols" using assms(1) by simp_all
  have ne: "\<not> (?x = dest mod cols \<and> ?y = dest div cols)" using assms(2) by (metis mult_div_mod_eq)
  consider "?x < dest mod cols" | "dest mod cols < ?x"
    | "?x = dest mod cols" "?y < dest div cols" | "?x = dest mod cols" "dest div cols < ?y"
    using ne by linarith
  then have "r' mod cols = ?x + sgn (dest mod cols - ?x) \<and>
    r' div cols = ?y + (if ?x = dest mod cols then sgn (dest div cols - ?y) else 0)"
  proof cases
    case 1
    then have "r' = cols * ?y + (?x + 1)" by (simp add: r'_def mesh_neighbour_def xy_spec_def)
    with mesh_coords [of "?x + 1" cols ?y] b 1 show ?thesis by simp
  next
    case 2
    then have "r' = cols * ?y + (?x - 1)" by (simp add: r'_def mesh_neighbour_def xy_spec_def)
    moreover have "(cols * ?y + (?x - 1)) mod cols = ?x - 1 \<and> (cols * ?y + (?x - 1)) div cols = ?y"
      using b 2 by (intro mesh_coords) linarith+
    ultimately have "r' mod cols = ?x - 1 \<and> r' div cols = ?y" by (simp only:)
    with 2 show ?thesis by simp
  next
    case 3
    then have "r' = r + cols" by (simp add: r'_def mesh_neighbour_def xy_spec_def)
    also have "\<dots> = cols * (?y + 1) + ?x" by (simp add: distrib_left)
    finally have "r' = cols * (?y + 1) + ?x" .
    with mesh_coords [of ?x cols "?y + 1"] b 3 show ?thesis by simp
  next
    case 4
    then have "r' = r - cols" by (simp add: r'_def mesh_neighbour_def xy_spec_def)
    also have "\<dots> = cols * (?y - 1) + ?x" by (simp add: right_diff_distrib)
    finally have "r' = cols * (?y - 1) + ?x" .
    with mesh_coords [of ?x cols "?y - 1"] b 4 show ?thesis by simp
  qed
  then show "r' mod cols = ?x + sgn (dest mod cols - ?x)"
    "r' div cols = ?y + (if ?x = dest mod cols then sgn (dest div cols - ?y) else 0)" by simp_all
qed

lemma mesh_neighbour_came:
  assumes "0 < cols" "r \<noteq> dest"
  shows "xy_came cols dest (mesh_neighbour cols (xy_spec cols r dest) r)
      (arrival_port (xy_spec cols r dest))"
proof -
  have "\<not> (r mod cols = dest mod cols \<and> r div cols = dest div cols)"
    using assms(2) by (metis mult_div_mod_eq)
  then consider "r mod cols < dest mod cols" | "dest mod cols < r mod cols"
    | "r mod cols = dest mod cols" "r div cols < dest div cols"
    | "r mod cols = dest mod cols" "dest div cols < r div cols" by linarith
  then show ?thesis
    unfolding xy_came_def mesh_step [OF assms]
    by cases (simp_all add: xy_spec_def arrival_port_def)
qed

lemma mesh_dist_step:
  assumes "0 < cols" "r \<noteq> dest"
  shows "mesh_dist cols r dest = Suc (mesh_dist cols (mesh_neighbour cols (xy_spec cols r dest) r) dest)"
proof -
  have "\<not> (r mod cols = dest mod cols \<and> r div cols = dest div cols)"
    using assms(2) by (metis mult_div_mod_eq)
  then show ?thesis
    unfolding mesh_dist_def mesh_step [OF assms] by (auto simp: sgn_if)
qed

lemma in_mesh_iff: "0 < cols \<Longrightarrow> 0 \<le> r \<and> r < rows * cols \<longleftrightarrow> 0 \<le> r div cols \<and> r div cols < (rows :: int)"
proof -
  assume c: "0 < cols"
  have "r < rows * cols \<longleftrightarrow> r div cols < rows"
  proof
    assume "r < rows * cols"
    moreover have "r div cols * cols \<le> r" using div_mult_mod_eq [of r cols] pos_mod_sign [OF c, of r] by linarith
    ultimately have "r div cols * cols < rows * cols" by linarith
    with c show "r div cols < rows" by simp
  next
    assume "r div cols < rows"
    then have "(r div cols + 1) * cols \<le> rows * cols" using c by (intro mult_right_mono) auto
    moreover have "r < (r div cols + 1) * cols"
      using div_mult_mod_eq [of r cols] pos_mod_bound [OF c, of r] unfolding distrib_right by linarith
    ultimately show "r < rows * cols" by linarith
  qed
  with c show ?thesis by (simp add: pos_imp_zdiv_nonneg_iff)
qed

lemma mesh_neighbour_in_mesh:
  assumes "0 < cols" "r \<noteq> dest" "0 \<le> r" "r < rows * cols" "0 \<le> dest" "dest < rows * cols"
  defines "r' \<equiv> mesh_neighbour cols (xy_spec cols r dest) r"
  shows "0 \<le> r' \<and> r' < rows * cols"
proof -
  have "0 \<le> r div cols \<and> r div cols < rows" "0 \<le> dest div cols \<and> dest div cols < rows"
    using in_mesh_iff [OF assms(1), of r rows] in_mesh_iff [OF assms(1), of dest rows] assms by blast+
  then have "0 \<le> r' div cols \<and> r' div cols < rows"
    using mesh_step(2) [OF assms(1,2)] by (auto simp: r'_def sgn_if)
  with in_mesh_iff [OF assms(1), of r' rows] show ?thesis by blast
qed

lemma mesh_ports_xy:
  assumes "mesh_ports rows cols rus" "0 < cols" "r \<noteq> dest"
    "0 \<le> r" "r < rows * cols" "0 \<le> dest" "dest < rows * cols"
  shows "\<exists>i. 0 \<le> i \<and> ru_outports_dirn2idx (rus r) (xy_spec cols r dest) = Some i \<and>
    ru_outports_idx2dirn (rus r) i = Some (xy_spec cols r dest)"
proof -
  have ne: "\<not> (r mod cols = dest mod cols \<and> r div cols = dest div cols)"
    using assms(3) by (metis mult_div_mod_eq)
  have b: "0 \<le> r mod cols" "r mod cols < cols" "0 \<le> dest mod cols" "dest mod cols < cols"
    "0 \<le> r div cols" "r div cols < rows" "0 \<le> dest div cols" "dest div cols < rows"
    using in_mesh_iff [OF assms(2), of r rows] in_mesh_iff [OF assms(2), of dest rows] assms by auto
  have "xy_spec cols r dest = ''East'' \<and> r mod cols + 1 < cols \<or>
      xy_spec cols r dest = ''West'' \<and> 0 < r mod cols \<or>
      xy_spec cols r dest = ''North'' \<and> r div cols + 1 < rows \<or>
      xy_spec cols r dest = ''South'' \<and> 0 < r div cols"
    using ne b by (simp add: xy_spec_def) linarith
  with assms(1,4,5) show ?thesis unfolding mesh_ports_def by blast
qed

lemma outportCompute_xy:
  assumes "gc_routing_algorithm cfg = XY" "mesh_ports (gc_num_rows cfg) (gc_num_cols cfg) rus"
    and "0 < gc_num_cols cfg" "r \<noteq> ri_dest_router route" "0 \<le> r" "r < gc_num_rows cfg * gc_num_cols cfg"
    and "0 \<le> ri_dest_router route" "ri_dest_router route < gc_num_rows cfg * gc_num_cols cfg"
    and "xy_came (gc_num_cols cfg) (ri_dest_router route) r d"
  shows "\<exists>i. outportCompute cfg rnd r route inport d (rus r) = Inr (i, rus r) \<and>
    ru_outports_idx2dirn (rus r) i = Some (xy_spec (gc_num_cols cfg) r (ri_dest_router route))"
proof -
  have rows: "0 < gc_num_rows cfg" using assms(3,5,6) by (metis linorder_not_less mult_nonpos_nonneg order.strict_trans1 order.strict_iff_not)
  obtain i where i: "0 \<le> i"
      "ru_outports_dirn2idx (rus r) (xy_spec (gc_num_cols cfg) r (ri_dest_router route)) = Some i"
      "ru_outports_idx2dirn (rus r) i = Some (xy_spec (gc_num_cols cfg) r (ri_dest_router route))"
    using mesh_ports_xy [OF assms(2,3,4,5,6,7,8)] by auto
  have "outportComputeXY cfg r route inport d (rus r) = Inr (i, rus r)"
    using xy_direction_spec [OF rows assms(3,5,7,4,9)] i(2) by (simp add: outportComputeXY_def)
  with assms(1,4) i(1) have "outportCompute cfg rnd r route inport d (rus r) = Inr (i, rus r)"
    by (simp add: outportCompute_def)
  with i(3) show ?thesis by blast
qed

lemma xy_walk_from:
  assumes "gc_routing_algorithm cfg = XY" "mesh_ports (gc_num_rows cfg) (gc_num_cols cfg) rus"
    and "0 < gc_num_cols cfg"
    and "0 \<le> ri_dest_router route" "ri_dest_router route < gc_num_rows cfg * gc_num_cols cfg"
    and "0 \<le> r" "r < gc_num_rows cfg * gc_num_cols cfg"
    and "xy_came (gc_num_cols cfg) (ri_dest_router route) r d"
    and "mesh_dist (gc_num_cols cfg) r (ri_dest_router route) \<le> n"
  shows "\<exists>path. xy_walk cfg rus route n r d = Inr (r # path) \<and>
    last (r # path) = ri_dest_router route \<and>
    length path = mesh_dist (gc_num_cols cfg) r (ri_dest_router route) \<and>
    set path \<subseteq> {0..<gc_num_rows cfg * gc_num_cols cfg}"
  using assms(6-9)
proof (induction n arbitrary: r d)
  case 0
  then have "r = ri_dest_router route"
    using mesh_dist_step [OF assms(3), of r "ri_dest_router route"] by force
  with 0 show ?case by simp
next
  case (Suc n)
  let ?c = "gc_num_cols cfg" and ?dest = "ri_dest_router route"
  show ?case
  proof (cases "r = ?dest")
    case True
    then show ?thesis by (simp add: mesh_dist_def)
  next
    case False
    let ?r = "mesh_neighbour ?c (xy_spec ?c r ?dest) r"
    obtain i where i: "outportCompute cfg 0 r route 0 d (rus r) = Inr (i, rus r)"
        "ru_outports_idx2dirn (rus r) i = Some (xy_spec ?c r ?dest)"
      using outportCompute_xy [OF assms(1-3) False Suc.prems(1,2) assms(4,5) Suc.prems(3)] by blast
    have "mesh_dist ?c ?r ?dest \<le> n"
      using mesh_dist_step [OF assms(3) False] Suc.prems(4) by simp
    with Suc.IH mesh_neighbour_in_mesh [OF assms(3) False Suc.prems(1,2) assms(4,5)]
      mesh_neighbour_came [OF assms(3) False]
    obtain path where p: "xy_walk cfg rus route n ?r (arrival_port (xy_spec ?c r ?dest)) = Inr (?r # path)"
        "last (?r # path) = ?dest" "length path = mesh_dist ?c ?r ?dest"
        "set path \<subseteq> {0..<gc_num_rows cfg * ?c}" by blast
    then have "xy_walk cfg rus route (Suc n) r d = Inr (r # ?r # path)" using False i by simp
    with p mesh_dist_step [OF assms(3) False]
      mesh_neighbour_in_mesh [OF assms(3) False Suc.prems(1,2) assms(4,5)]
    show ?thesis by (intro exI [of _ "?r # path"]) auto
  qed
qed

text \<open>
  C15: In a mesh whose routers have registered their ports, XY routing takes a packet injected
  at any router to its destination router in exactly the Manhattan distance of the two: every
  hop is computed without failing an assertion (in particular no packet turns from a column
  back into a row), stays in the mesh and comes one hop closer.
\<close>

theorem xy_walk_reaches:
  assumes "gc_routing_algorithm cfg = XY" and "mesh_ports (gc_num_rows cfg) (gc_num_cols cfg) rus"
    and "0 < gc_num_cols cfg"
    and "0 \<le> ri_dest_router route" and "ri_dest_router route < gc_num_rows cfg * gc_num_cols cfg"
    and "0 \<le> src" and "src < gc_num_rows cfg * gc_num_cols cfg"
    and "mesh_dist (gc_num_cols cfg) src (ri_dest_router route) \<le> n"
  shows "\<exists>path. xy_walk cfg rus route n src ''Local'' = Inr (src # path) \<and>
    last (src # path) = ri_dest_router route \<and>
    length path = mesh_dist (gc_num_cols cfg) src (ri_dest_router route) \<and>
    set path \<subseteq> {0..<gc_num_rows cfg * gc_num_cols cfg}"
  by (rule xy_walk_from [OF assms(1-7) _ assms(8)]) (simp add: xy_came_def)

definition example_mesh :: "int \<Rightarrow> RoutingUnit" where
  "example_mesh r = addOutDirection ''East'' 1 (addOutDirection ''West'' 2
     (addOutDirection ''North'' 3 (addOutDirection ''South'' 4 RoutingUnit_new)))"

lemma xy_walk_reaches_witness:
  "\<exists>path. xy_walk example_config example_mesh (RouteInfo_new []\<lparr>ri_dest_router := 2\<rparr>) 2 1 ''Local''
      = Inr (1 # path) \<and> last (1 # path) = 2 \<and> length path = 2"
proof -
  have m: "mesh_ports (gc_num_rows example_config) (gc_num_cols example_config) example_mesh"
    by (auto simp: mesh_ports_def example_mesh_def addOutDirection_def)
  have "\<exists>path. xy_walk example_config example_mesh (RouteInfo_new []\<lparr>ri_dest_router := 2\<rparr>) 2 1 ''Local''
      = Inr (1 # path) \<and> last (1 # path) = ri_dest_router (RouteInfo_new []\<lparr>ri_dest_router := 2\<rparr>)
      \<and> length path = mesh_dist (gc_num_cols example_config) 1 (ri_dest_router (RouteInfo_new []\<lparr>ri_dest_router := 2\<rparr>))
      \<and> set path \<subseteq> {0..<gc_num_rows example_config * gc_num_cols example_config}"
    by (rule xy_walk_reaches [OF _ m]) (simp_all add: example_config_def mesh_dist_def)
  moreover have "ri_dest_router (RouteInfo_new []\<lparr>ri_dest_router := 2\<rparr>) = 2"
    "mesh_dist (gc_num_cols example_config) 1 2 = 2"
    by (simp_all add: example_config_def mesh_dist_def)
  ultimately show ?thesis by metis
qed

end
