(* ===== verification/InputUnit.thy ===== *)
theory InputUnit
  imports NetworkLink RoutingUnit
begin

text \<open>
  \<open>InputUnit\<close> (\<open>InputUnit.hh\<close>, \<open>InputUnit.cc\<close>): an input port of a router with its
  virtual channels. The links a port points to are entries of the store of links; the routing
  unit and the consumer of the router it belongs to are arguments of its \<open>wakeup\<close>.
\<close>

section \<open>State\<close>

text \<open>The constants of the router a port reads through \<open>m_router\<close>.\<close>

record RouterParams =
  rp_id :: int
  rp_latency :: cycles
  rp_virtual_networks :: nat
  rp_vc_per_vnet :: nat
  rp_num_vcs :: nat
  rp_bit_width :: int

record InputUnit =
  iu_id :: int
  iu_direction :: PortDirection
  iu_vc_per_vnet :: int
  iu_in_link :: int
  iu_credit_link :: int
  iu_creditQueue :: flitBuffer
  iu_virtualChannels :: "VirtualChannel list"
  iu_num_buffer_writes :: "nat list"
  iu_num_buffer_reads :: "nat list"

text \<open>The constructor leaves the link pointers unset; \<open>-1\<close> is no entry of the store.\<close>

definition InputUnit_new :: "int \<Rightarrow> PortDirection \<Rightarrow> RouterParams \<Rightarrow> InputUnit res" where
  "InputUnit_new i direction rp =
    guardR (rp_vc_per_vnet rp \<noteq> 0) Div_by_zero
    (Inr \<lparr>iu_id = i, iu_direction = direction, iu_vc_per_vnet = int (rp_vc_per_vnet rp),
       iu_in_link = -1, iu_credit_link = -1, iu_creditQueue = flitBuffer_new,
       iu_virtualChannels = replicate (rp_num_vcs rp) vc_new,
       iu_num_buffer_writes = replicate (rp_num_vcs rp div rp_vc_per_vnet rp) 0,
       iu_num_buffer_reads = replicate (rp_num_vcs rp div rp_vc_per_vnet rp) 0\<rparr>)"

section \<open>Access to the virtual channels\<close>

definition iu_mod_vc :: "int \<Rightarrow> (VirtualChannel \<Rightarrow> VirtualChannel) \<Rightarrow> InputUnit \<Rightarrow> InputUnit res" where
  "iu_mod_vc vc f iu =
    bindR (modR (iu_virtualChannels iu) vc (\<lambda>v. Inr (f v)))
      (\<lambda>vcs. Inr (iu\<lparr>iu_virtualChannels := vcs\<rparr>))"

definition set_vc_idle :: "int \<Rightarrow> tick \<Rightarrow> InputUnit \<Rightarrow> InputUnit res" where
  "set_vc_idle vc curTime = iu_mod_vc vc (vc_set_idle curTime)"

definition set_vc_active :: "int \<Rightarrow> tick \<Rightarrow> InputUnit \<Rightarrow> InputUnit res" where
  "set_vc_active vc curTime = iu_mod_vc vc (vc_set_active curTime)"

definition grant_outport :: "int \<Rightarrow> int \<Rightarrow> InputUnit \<Rightarrow> InputUnit res" where
  "grant_outport vc outport = iu_mod_vc vc (\<lambda>v. v\<lparr>vc_output_port := outport\<rparr>)"

definition grant_outvc :: "int \<Rightarrow> int \<Rightarrow> InputUnit \<Rightarrow> InputUnit res" where
  "grant_outvc vc outvc = iu_mod_vc vc (\<lambda>v. v\<lparr>vc_output_vc := outvc\<rparr>)"

definition iu_get_outport :: "int \<Rightarrow> InputUnit \<Rightarrow> int res" where
  "iu_get_outport invc iu = bindR (nthR (iu_virtualChannels iu) invc) (\<lambda>v. Inr (vc_output_port v))"

definition iu_get_outvc :: "int \<Rightarrow> InputUnit \<Rightarrow> int res" where
  "iu_get_outvc invc iu = bindR (nthR (iu_virtualChannels iu) invc) (\<lambda>v. Inr (vc_output_vc v))"

definition iu_get_enqueue_time :: "int \<Rightarrow> InputUnit \<Rightarrow> tick res" where
  "iu_get_enqueue_time invc iu =
    bindR (nthR (iu_virtualChannels iu) invc) (\<lambda>v. Inr (vc_enqueue_time v))"

definition iu_getTopFlit :: "int \<Rightarrow> InputUnit \<Rightarrow> (flit \<times> InputUnit) res" where
  "iu_getTopFlit vc iu =
    bindR (nthR (iu_virtualChannels iu) vc) (\<lambda>v.
    bindR (vc_getTopFlit v) (\<lambda>(f, v').
    bindR (setR (iu_virtualChannels iu) vc v') (\<lambda>vcs. Inr (f, iu\<lparr>iu_virtualChannels := vcs\<rparr>))))"

definition iu_need_stage :: "int \<Rightarrow> flit_stage \<Rightarrow> tick \<Rightarrow> InputUnit \<Rightarrow> bool res" where
  "iu_need_stage vc stage t iu = bindR (nthR (iu_virtualChannels iu) vc) (vc_need_stage stage t)"

definition iu_isReady :: "int \<Rightarrow> tick \<Rightarrow> InputUnit \<Rightarrow> bool res" where
  "iu_isReady invc curTime iu =
    bindR (nthR (iu_virtualChannels iu) invc) (\<lambda>v. Inr (vc_isReady curTime v))"

section \<open>Operations\<close>

text \<open>\<open>Router::schedule_wakeup\<close> and \<open>clockEdge\<close> of the router, on its consumer.\<close>

definition schedule_wakeup :: "tick \<Rightarrow> cycles \<Rightarrow> consumer \<Rightarrow> consumer" where
  "schedule_wakeup now n con = scheduleEvent now n con"

definition router_clockEdge :: "tick \<Rightarrow> cycles \<Rightarrow> consumer \<Rightarrow> tick" where
  "router_clockEdge now n con = clock_edge (con_period con) now n"

text \<open>
  The head of a packet claims its virtual channel and computes the route; other flits
  must find the channel claimed.
\<close>

definition accept_flit ::
    "garnet_config \<Rightarrow> RouterParams \<Rightarrow> tick \<Rightarrow> nat \<Rightarrow> flit \<Rightarrow> InputUnit \<Rightarrow> RoutingUnit
     \<Rightarrow> (InputUnit \<times> RoutingUnit) res" where
  "accept_flit cfg rp now rnd t_flit iu ru =
    bindR (nthR (iu_virtualChannels iu) (fl_vc t_flit)) (\<lambda>v.
      if is_head t_flit then
        guardR (fst (vc_state v) = IDLE) (Assert_failed ''virtualChannels[vc].get_state() == IDLE_'')
        (bindR (set_vc_active (fl_vc t_flit) now iu) (\<lambda>iu1.
         bindR (outportCompute cfg rnd (rp_id rp) (fl_route t_flit) (iu_id iu) (iu_direction iu) ru)
           (\<lambda>(outport, ru'). bindR (grant_outport (fl_vc t_flit) outport iu1)
             (\<lambda>iu2. Inr (iu2, ru')))))
      else
        guardR (fst (vc_state v) = ACTIVE) (Assert_failed ''virtualChannels[vc].get_state() == ACTIVE_'')
        (Inr (iu, ru)))"

text \<open>
  Buffering. The flit is inserted by reference before its stage is advanced; the model
  inserts the advanced flit. A longer pipeline delays the flit and wakes the router up then.
\<close>

definition buffer_flit ::
    "RouterParams \<Rightarrow> tick \<Rightarrow> flit \<Rightarrow> InputUnit \<Rightarrow> consumer \<Rightarrow> (InputUnit \<times> consumer) res" where
  "buffer_flit rp now t_flit iu con =
    (let pipe_stages = rp_latency rp; wait_time = pipe_stages - 1;
         t_flit' = (if pipe_stages = 1 then advance_stage SA_STAGE now t_flit
                    else advance_stage SA_STAGE (router_clockEdge now wait_time con) t_flit);
         con' = (if pipe_stages = 1 then con else schedule_wakeup now wait_time con);
         vnet = fl_vc t_flit sdiv iu_vc_per_vnet iu
     in bindR (iu_mod_vc (fl_vc t_flit) (vc_insertFlit t_flit') iu) (\<lambda>iu1.
        bindR (modR (iu_num_buffer_writes iu1) vnet (\<lambda>n. Inr (n + 1))) (\<lambda>writes.
        bindR (modR (iu_num_buffer_reads iu1) vnet (\<lambda>n. Inr (n + 1))) (\<lambda>reads.
        guardR (pipe_stages \<ge> 1) (Assert_failed ''pipe_stages > 1'')
          (Inr (iu1\<lparr>iu_num_buffer_writes := writes, iu_num_buffer_reads := reads\<rparr>, con'))))))"

definition InputUnit_wakeup ::
    "garnet_config \<Rightarrow> RouterParams \<Rightarrow> tick \<Rightarrow> nat
     \<Rightarrow> InputUnit \<times> RoutingUnit \<times> consumer \<times> NetworkLink list
     \<Rightarrow> (InputUnit \<times> RoutingUnit \<times> consumer \<times> NetworkLink list) res" where
  "InputUnit_wakeup cfg rp now rnd = (\<lambda>(iu, ru, con, links).
    bindR (nthR links (iu_in_link iu)) (\<lambda>in_link.
    if link_isReady now in_link then
      bindR (consumeLink in_link) (\<lambda>(t_flit, in_link').
      guardR (fl_width t_flit = rp_bit_width rp)
        (Assert_failed ''t_flit->m_width == m_router->getBitWidth()'')
      (bindR (accept_flit cfg rp now rnd (increment_hops t_flit) iu ru) (\<lambda>(iu1, ru1).
       bindR (buffer_flit rp now (increment_hops t_flit) iu1 con) (\<lambda>(iu2, con2).
       Inr (iu2, ru1, if link_isReady now in_link' then schedule_wakeup now 1 con2 else con2,
            links[nat (iu_in_link iu) := in_link'])))))
    else Inr (iu, ru, con, links)))"

definition iu_increment_credit ::
    "garnet_config \<Rightarrow> tick \<Rightarrow> int \<Rightarrow> bool \<Rightarrow> tick \<Rightarrow> consumer \<Rightarrow> InputUnit \<times> NetworkLink list
     \<Rightarrow> (InputUnit \<times> NetworkLink list) res" where
  "iu_increment_credit cfg now in_vc free_signal curTime con = (\<lambda>(iu, links).
    let t_credit = credit_new (gc_empty_dest cfg) in_vc free_signal curTime in
    bindR (modR links (iu_credit_link iu)
        (\<lambda>l. Inr (link_scheduleEventAbsolute now (router_clockEdge now 1 con) l)))
      (\<lambda>links'. Inr (iu\<lparr>iu_creditQueue := fb_insert t_credit (iu_creditQueue iu)\<rparr>, links')))"

definition iu_functionalRead :: "'w msg_access \<Rightarrow> InputUnit \<Rightarrow> 'w \<Rightarrow> (bool \<times> 'w) res" where
  "iu_functionalRead acc iu w =
    foldR (\<lambda>v (rd, w). bindR (vc_functionalRead acc v w) (\<lambda>(ok, w'). Inr (ok \<or> rd, w')))
      (iu_virtualChannels iu) (False, w)"

definition iu_functionalWrite :: "'w msg_access \<Rightarrow> InputUnit \<Rightarrow> 'w \<Rightarrow> (nat \<times> 'w) res" where
  "iu_functionalWrite acc iu w =
    foldR (\<lambda>v (n, w). bindR (vc_functionalWrite acc v w) (\<lambda>(k, w'). Inr (n + k, w')))
      (iu_virtualChannels iu) (0, w)"

definition iu_resetStats :: "InputUnit \<Rightarrow> InputUnit" where
  "iu_resetStats iu =
    iu\<lparr>iu_num_buffer_reads := replicate (length (iu_num_buffer_reads iu)) 0,
       iu_num_buffer_writes := replicate (length (iu_num_buffer_reads iu)) 0\<rparr>"

section \<open>Lemmas\<close>

definition iu_keys :: "InputUnit \<Rightarrow> (int \<times> int) multiset" where
  "iu_keys iu = sum_list (map (\<lambda>v. flit_keys (vc_flits v)) (iu_virtualChannels iu))
    + flit_keys (fb_buffer (iu_creditQueue iu))"

lemma iu_mod_vc_eq [res_simps]:
  "iu_mod_vc vc f iu = Inr iu' \<longleftrightarrow>
    0 \<le> vc \<and> vc < int (length (iu_virtualChannels iu)) \<and>
    iu' = iu\<lparr>iu_virtualChannels := (iu_virtualChannels iu)[nat vc := f (iu_virtualChannels iu ! nat vc)]\<rparr>"
  by (auto simp: iu_mod_vc_def res_simps)

lemma iu_mod_vc_keys:
  assumes "iu_mod_vc vc f iu = Inr iu'"
  shows "iu_keys iu' + flit_keys (vc_flits (iu_virtualChannels iu ! nat vc)) =
    iu_keys iu + flit_keys (vc_flits (f (iu_virtualChannels iu ! nat vc)))"
  using assms sum_list_update_add [of "nat vc" "iu_virtualChannels iu" "\<lambda>v. flit_keys (vc_flits v)"]
  by (auto simp: res_simps iu_keys_def)

lemma set_vc_active_keys: "set_vc_active vc t iu = Inr iu' \<Longrightarrow> iu_keys iu' = iu_keys iu"
  using iu_mod_vc_keys [of vc "vc_set_active t" iu iu'] by (simp add: set_vc_active_def)

lemma set_vc_idle_keys: "set_vc_idle vc t iu = Inr iu' \<Longrightarrow> iu_keys iu' = iu_keys iu"
  using iu_mod_vc_keys [of vc "vc_set_idle t" iu iu'] by (simp add: set_vc_idle_def)

lemma grant_outport_keys: "grant_outport vc p iu = Inr iu' \<Longrightarrow> iu_keys iu' = iu_keys iu"
  using iu_mod_vc_keys [of vc _ iu iu'] by (fastforce simp: grant_outport_def)

lemma grant_outvc_keys: "grant_outvc vc p iu = Inr iu' \<Longrightarrow> iu_keys iu' = iu_keys iu"
  using iu_mod_vc_keys [of vc _ iu iu'] by (fastforce simp: grant_outvc_def)

lemma accept_flit_keys:
  "accept_flit cfg rp now rnd f iu ru = Inr (iu', ru') \<Longrightarrow> iu_keys iu' = iu_keys iu"
  unfolding accept_flit_def
  by (auto elim!: res_elims dest!: set_vc_active_keys grant_outport_keys)

lemma buffer_flit_keys:
  assumes "buffer_flit rp now f iu con = Inr (iu', con')"
  shows "iu_keys iu' = iu_keys iu + flit_keys [f]"
proof -
  obtain st t iu1 where "iu_mod_vc (fl_vc f) (vc_insertFlit (advance_stage st t f)) iu = Inr iu1"
      "iu_virtualChannels iu' = iu_virtualChannels iu1" "iu_creditQueue iu' = iu_creditQueue iu1"
    using assms unfolding buffer_flit_def Let_def
    by (cases "rp_latency rp = 1") (auto elim!: res_elims)
  with iu_mod_vc_keys [of "fl_vc f" "vc_insertFlit (advance_stage st t f)" iu iu1] show ?thesis
    by (simp add: iu_keys_def)
qed

text \<open>The two ways a wakeup of an input port succeeds.\<close>

lemma InputUnit_wakeupE:
  assumes "InputUnit_wakeup cfg rp now rnd (iu, ru, con, links) = Inr (iu', ru', con', links')"
  obtains (idle) "iu' = iu" "ru' = ru" "con' = con" "links' = links"
  | (taken) f l con2 iu1 where "0 \<le> iu_in_link iu" "iu_in_link iu < int (length links)"
      "link_isReady now (links ! nat (iu_in_link iu))"
      "consumeLink (links ! nat (iu_in_link iu)) = Inr (f, l)"
      "fl_width f = rp_bit_width rp"
      "accept_flit cfg rp now rnd (increment_hops f) iu ru = Inr (iu1, ru')"
      "buffer_flit rp now (increment_hops f) iu1 con = Inr (iu', con2)"
      "con' = (if link_isReady now l then schedule_wakeup now 1 con2 else con2)"
      "links' = links[nat (iu_in_link iu) := l]"
  using assms unfolding InputUnit_wakeup_def
  by (auto elim!: res_elims simp: nthR_eq_Inr)

text \<open>An input port takes flits from its link into its channels, and loses none.\<close>

lemma InputUnit_wakeup_keys:
  assumes "InputUnit_wakeup cfg rp now rnd (iu, ru, con, links) = Inr (iu', ru', con', links')"
  shows "iu_keys iu' + links_keys links' = iu_keys iu + links_keys links"
  using assms
proof (cases rule: InputUnit_wakeupE)
  case idle
  then show ?thesis by simp
next
  case (taken f l con2 iu1)
  have "flit_keys (link_flits (links ! nat (iu_in_link iu))) = flit_keys [f] + flit_keys (link_flits l)"
    using taken(4) flit_keys_Cons [of f "link_flits l"] by (auto simp: consumeLink_eq)
  with links_keys_update [OF taken(1,2), of l] taken(9)
  have "links_keys links' + flit_keys [f] = links_keys links"
    by (metis (no_types, lifting) add.assoc add_right_cancel)
  with accept_flit_keys [OF taken(6)] buffer_flit_keys [OF taken(7)] show ?thesis
    by (simp add: ac_simps)
qed

end
