(* ===== verification/OutputUnit.thy ===== *)
theory OutputUnit
  imports InputUnit
begin

text \<open>
  \<open>OutputUnit\<close> (\<open>OutputUnit.hh\<close>, \<open>OutputUnit.cc\<close>): an output port of a router, the
  state of the virtual channels behind it and the queue the output link reads.
\<close>

record OutputUnit =
  ou_id :: int
  ou_direction :: PortDirection
  ou_vc_per_vnet :: int
  ou_out_link :: int
  ou_credit_link :: int
  ou_outBuffer :: flitBuffer
  ou_outVcState :: "OutVcState list"
  ou_consumer :: consumer

definition OutputUnit_new ::
    "garnet_config \<Rightarrow> int \<Rightarrow> PortDirection \<Rightarrow> RouterParams \<Rightarrow> nat \<Rightarrow> nat \<Rightarrow> OutputUnit res" where
  "OutputUnit_new cfg i direction rp period consumerVcs =
    bindR (foldR (\<lambda>j vs. bindR (OutVcState_new j cfg consumerVcs) (\<lambda>v. Inr (vs @ [v])))
        (upto_int (consumerVcs * rp_virtual_networks rp)) [])
      (\<lambda>vs. Inr \<lparr>ou_id = i, ou_direction = direction, ou_vc_per_vnet = int consumerVcs,
         ou_out_link = -1, ou_credit_link = -1, ou_outBuffer = flitBuffer_new,
         ou_outVcState = vs, ou_consumer = consumer_init period\<rparr>)"

definition ou_decrement_credit :: "int \<Rightarrow> OutputUnit \<Rightarrow> OutputUnit res" where
  "ou_decrement_credit out_vc ou =
    bindR (modR (ou_outVcState ou) out_vc decrement_credit)
      (\<lambda>vs. Inr (ou\<lparr>ou_outVcState := vs\<rparr>))"

definition ou_increment_credit :: "int \<Rightarrow> OutputUnit \<Rightarrow> OutputUnit res" where
  "ou_increment_credit out_vc ou =
    bindR (modR (ou_outVcState ou) out_vc increment_credit)
      (\<lambda>vs. Inr (ou\<lparr>ou_outVcState := vs\<rparr>))"

definition ou_has_credit :: "tick \<Rightarrow> int \<Rightarrow> OutputUnit \<Rightarrow> bool res" where
  "ou_has_credit now out_vc ou =
    bindR (nthR (ou_outVcState ou) out_vc) (\<lambda>v.
      guardR (isInState ACTIVE now v)
        (Assert_failed ''outVcState[out_vc].isInState(ACTIVE_, curTick())'') (Inr (has_credit v)))"

definition is_vc_idle :: "int \<Rightarrow> tick \<Rightarrow> OutputUnit \<Rightarrow> bool res" where
  "is_vc_idle vc curTime ou = bindR (nthR (ou_outVcState ou) vc) (\<lambda>v. Inr (isInState IDLE curTime v))"

definition set_vc_state :: "VC_state_type \<Rightarrow> int \<Rightarrow> tick \<Rightarrow> OutputUnit \<Rightarrow> OutputUnit res" where
  "set_vc_state st vc curTime ou =
    bindR (modR (ou_outVcState ou) vc (\<lambda>v. Inr (setState st curTime v)))
      (\<lambda>vs. Inr (ou\<lparr>ou_outVcState := vs\<rparr>))"

text \<open>The loop variable \<open>vc\<close> from \<open>vc_base\<close> to \<open>vc_base + m_vc_per_vnet - 1\<close>.\<close>

definition vnet_vcs :: "int \<Rightarrow> int \<Rightarrow> int list" where
  "vnet_vcs vc_per_vnet vnet = map (\<lambda>k. vnet * vc_per_vnet + k) (upto_int (nat vc_per_vnet))"

fun has_free_vc_loop :: "tick \<Rightarrow> int list \<Rightarrow> OutputUnit \<Rightarrow> bool res" where
  "has_free_vc_loop now [] ou = Inr False"
| "has_free_vc_loop now (vc # vcs) ou =
    bindR (is_vc_idle vc now ou) (\<lambda>idle. if idle then Inr True else has_free_vc_loop now vcs ou)"

definition has_free_vc :: "tick \<Rightarrow> int \<Rightarrow> OutputUnit \<Rightarrow> bool res" where
  "has_free_vc now vnet ou = has_free_vc_loop now (vnet_vcs (ou_vc_per_vnet ou) vnet) ou"

fun select_free_vc_loop :: "tick \<Rightarrow> int list \<Rightarrow> OutputUnit \<Rightarrow> (int \<times> OutputUnit) res" where
  "select_free_vc_loop now [] ou = Inr (-1, ou)"
| "select_free_vc_loop now (vc # vcs) ou =
    bindR (is_vc_idle vc now ou) (\<lambda>idle.
      if idle then bindR (set_vc_state ACTIVE vc now ou) (\<lambda>ou'. Inr (vc, ou'))
      else select_free_vc_loop now vcs ou)"

definition select_free_vc :: "tick \<Rightarrow> int \<Rightarrow> OutputUnit \<Rightarrow> (int \<times> OutputUnit) res" where
  "select_free_vc now vnet ou = select_free_vc_loop now (vnet_vcs (ou_vc_per_vnet ou) vnet) ou"

text \<open>
  The object on a credit link is cast to \<open>Credit\<close>; reading the free signal of an object
  that is not one is undefined behaviour.
\<close>

definition receive_credit :: "tick \<Rightarrow> flit \<Rightarrow> OutputUnit \<Rightarrow> OutputUnit res" where
  "receive_credit now t_credit ou =
    guardR (fl_credit t_credit \<noteq> None) (Null_pointer ''not a Credit'')
    (bindR (ou_increment_credit (fl_vc t_credit) ou) (\<lambda>ou1.
      if is_free_signal t_credit then set_vc_state IDLE (fl_vc t_credit) now ou1 else Inr ou1))"

definition OutputUnit_wakeup ::
    "tick \<Rightarrow> OutputUnit \<times> NetworkLink list \<Rightarrow> (OutputUnit \<times> NetworkLink list) res" where
  "OutputUnit_wakeup now = (\<lambda>(ou, links).
    bindR (nthR links (ou_credit_link ou)) (\<lambda>credit_link.
    if link_isReady now credit_link then
      bindR (consumeLink credit_link) (\<lambda>(t_credit, credit_link').
      bindR (receive_credit now t_credit ou) (\<lambda>ou2.
        Inr (if link_isReady now credit_link'
             then ou2\<lparr>ou_consumer := scheduleEvent now 1 (ou_consumer ou2)\<rparr> else ou2,
             links[nat (ou_credit_link ou) := credit_link'])))
    else Inr (ou, links)))"

text \<open>\<open>con\<close> is the consumer of the router, for its clock.\<close>

definition insert_flit ::
    "tick \<Rightarrow> consumer \<Rightarrow> flit \<Rightarrow> OutputUnit \<times> NetworkLink list \<Rightarrow> (OutputUnit \<times> NetworkLink list) res" where
  "insert_flit now con t_flit = (\<lambda>(ou, links).
    bindR (modR links (ou_out_link ou)
        (\<lambda>l. Inr (link_scheduleEventAbsolute now (router_clockEdge now 1 con) l)))
      (\<lambda>links'. Inr (ou\<lparr>ou_outBuffer := fb_insert t_flit (ou_outBuffer ou)\<rparr>, links')))"

definition ou_functionalRead :: "'w msg_access \<Rightarrow> OutputUnit \<Rightarrow> 'w \<Rightarrow> (bool \<times> 'w) res" where
  "ou_functionalRead acc ou w = fb_functionalRead acc (ou_outBuffer ou) w"

definition ou_functionalWrite :: "'w msg_access \<Rightarrow> OutputUnit \<Rightarrow> 'w \<Rightarrow> (nat \<times> 'w) res" where
  "ou_functionalWrite acc ou w = fb_functionalWrite acc (ou_outBuffer ou) w"

section \<open>Lemmas\<close>

abbreviation ou_keys :: "OutputUnit \<Rightarrow> (int \<times> int) multiset" where
  "ou_keys ou \<equiv> flit_keys (fb_buffer (ou_outBuffer ou))"

text \<open>The ports an allocator may use: every index in range, every channel with its credits in bounds.\<close>

definition ou_ok :: "OutputUnit \<Rightarrow> bool" where
  "ou_ok ou \<longleftrightarrow> (\<forall>v \<in> set (ou_outVcState ou). ovc_ok v)"

lemma ou_decrement_credit_ok:
  assumes "ou_decrement_credit vc ou = Inr ou'" and "ou_ok ou"
  shows "ou_ok ou'"
proof -
  obtain vs where vs: "modR (ou_outVcState ou) vc decrement_credit = Inr vs"
      "ou' = ou\<lparr>ou_outVcState := vs\<rparr>"
    using assms(1) unfolding ou_decrement_credit_def by (auto elim!: res_elims)
  have "\<forall>v \<in> set vs. ovc_ok v"
    by (rule modR_all [OF vs(1)]) (use assms(2) decrement_credit_ok in \<open>auto simp: ou_ok_def\<close>)
  with vs(2) show ?thesis by (simp add: ou_ok_def)
qed

lemma ou_increment_credit_ok:
  assumes "ou_increment_credit vc ou = Inr ou'" and "ou_ok ou"
  shows "ou_ok ou'"
proof -
  obtain vs where vs: "modR (ou_outVcState ou) vc increment_credit = Inr vs"
      "ou' = ou\<lparr>ou_outVcState := vs\<rparr>"
    using assms(1) unfolding ou_increment_credit_def by (auto elim!: res_elims)
  have "\<forall>v \<in> set vs. ovc_ok v"
    by (rule modR_all [OF vs(1)]) (use assms(2) increment_credit_ok in \<open>auto simp: ou_ok_def\<close>)
  with vs(2) show ?thesis by (simp add: ou_ok_def)
qed

lemma set_vc_state_ok:
  assumes "set_vc_state st vc t ou = Inr ou'" and "ou_ok ou"
  shows "ou_ok ou'"
proof -
  obtain vs where vs: "modR (ou_outVcState ou) vc (\<lambda>v. Inr (setState st t v)) = Inr vs"
      "ou' = ou\<lparr>ou_outVcState := vs\<rparr>"
    using assms(1) unfolding set_vc_state_def by (auto elim!: res_elims)
  have "\<forall>v \<in> set vs. ovc_ok v"
    by (rule modR_all [OF vs(1)]) (use assms(2) in \<open>auto simp: ou_ok_def\<close>)
  with vs(2) show ?thesis by (simp add: ou_ok_def)
qed

lemma select_free_vc_loop_ok:
  "select_free_vc_loop now vcs ou = Inr (vc, ou') \<Longrightarrow> ou_ok ou \<Longrightarrow> ou_ok ou'"
proof (induction vcs)
  case Nil
  then show ?case by simp
next
  case (Cons v vcs)
  then obtain idle where idle: "is_vc_idle v now ou = Inr idle" by (auto elim: bindR_InrE)
  show ?case
  proof (cases idle)
    case True
    with Cons.prems(1) idle have "set_vc_state ACTIVE v now ou = Inr ou'" by (auto elim: bindR_InrE)
    with Cons.prems(2) show ?thesis by (rule set_vc_state_ok [rotated])
  next
    case False
    with Cons idle show ?thesis by simp
  qed
qed

lemma receive_credit_ok: "receive_credit now c ou = Inr ou' \<Longrightarrow> ou_ok ou \<Longrightarrow> ou_ok ou'"
  unfolding receive_credit_def
  by (elim bindR_InrE guardR_InrE if_InrE) (auto dest: ou_increment_credit_ok set_vc_state_ok)

lemma receive_credit_frame:
  "receive_credit now c ou = Inr ou' \<Longrightarrow>
    fl_credit c \<noteq> None \<and> ou_outBuffer ou' = ou_outBuffer ou \<and> ou_out_link ou' = ou_out_link ou \<and>
    ou_credit_link ou' = ou_credit_link ou \<and> length (ou_outVcState ou') = length (ou_outVcState ou)"
  unfolding receive_credit_def ou_increment_credit_def set_vc_state_def
  by (elim bindR_InrE guardR_InrE if_InrE) (auto dest!: modR_length)

lemma OutputUnit_wakeupE:
  assumes "OutputUnit_wakeup now (ou, links) = Inr (ou', links')"
  obtains (idle) "ou' = ou" "links' = links"
  | (credit) c l ou2 where "0 \<le> ou_credit_link ou" "ou_credit_link ou < int (length links)"
      "consumeLink (links ! nat (ou_credit_link ou)) = Inr (c, l)" "receive_credit now c ou = Inr ou2"
      "ou' = (if link_isReady now l then ou2\<lparr>ou_consumer := scheduleEvent now 1 (ou_consumer ou2)\<rparr> else ou2)"
      "links' = links[nat (ou_credit_link ou) := l]"
proof -
  from assms obtain cl where cl: "nthR links (ou_credit_link ou) = Inr cl"
    unfolding OutputUnit_wakeup_def by (auto elim: bindR_InrE)
  show thesis
  proof (cases "link_isReady now cl")
    case True
    with assms cl show thesis unfolding OutputUnit_wakeup_def
      by (auto elim!: bindR_InrE simp: nthR_eq_Inr intro: credit)
  next
    case False
    with assms cl show thesis unfolding OutputUnit_wakeup_def by (auto intro: idle)
  qed
qed

lemma OutputUnit_wakeup_ok:
  "OutputUnit_wakeup now (ou, links) = Inr (ou', links') \<Longrightarrow> ou_ok ou \<Longrightarrow> ou_ok ou'"
  by (erule OutputUnit_wakeupE) (auto dest: receive_credit_ok simp: ou_ok_def)

text \<open>The credits an output port reads are no flits.\<close>

lemma OutputUnit_wakeup_keys:
  assumes "OutputUnit_wakeup now (ou, links) = Inr (ou', links')"
  shows "ou_keys ou' = ou_keys ou \<and> links_keys links' = links_keys links"
  using assms
proof (cases rule: OutputUnit_wakeupE)
  case idle
  then show ?thesis by simp
next
  case (credit c l ou2)
  have fr: "fl_credit c \<noteq> None" "ou_outBuffer ou2 = ou_outBuffer ou"
    using receive_credit_frame [OF credit(4)] by simp_all
  then have "ou_keys ou' = ou_keys ou" using credit(5) by simp
  moreover obtain b where "fl_credit c = Some b" using fr(1) by auto
  then have "flit_keys (link_flits (links ! nat (ou_credit_link ou))) = flit_keys (link_flits l)"
    using credit(3) flit_keys_Cons [of c "link_flits l"] flit_keys_credit [of c]
    by (auto simp: consumeLink_eq)
  with links_keys_update [OF credit(1,2), of l] credit(6)
  have "links_keys links' = links_keys links" by simp
  ultimately show ?thesis by simp
qed

lemma insert_flit_keys:
  assumes "insert_flit now con f (ou, links) = Inr (ou', links')"
  shows "ou_keys ou' = ou_keys ou + flit_keys [f]" and "links_keys links' = links_keys links"
  using assms links_keys_schedule unfolding insert_flit_def by (auto elim!: bindR_InrE)

text \<open>\<open>has_free_vc\<close> predicts \<open>select_free_vc\<close>.\<close>

lemma free_vc_loops:
  assumes "\<forall>vc \<in> set vcs. 0 \<le> vc \<and> vc < int (length (ou_outVcState ou))"
  shows "case find (\<lambda>vc. isInState IDLE now (ou_outVcState ou ! nat vc)) vcs of
      None \<Rightarrow> has_free_vc_loop now vcs ou = Inr False \<and> select_free_vc_loop now vcs ou = Inr (-1, ou)
    | Some vc \<Rightarrow> has_free_vc_loop now vcs ou = Inr True \<and>
        select_free_vc_loop now vcs ou = Inr (vc, ou\<lparr>ou_outVcState :=
          (ou_outVcState ou)[nat vc := setState ACTIVE now (ou_outVcState ou ! nat vc)]\<rparr>)"
  using assms by (induction vcs) (auto simp: is_vc_idle_def set_vc_state_def split: option.splits)

definition vnet_in_range :: "int \<Rightarrow> OutputUnit \<Rightarrow> bool" where
  "vnet_in_range vnet ou \<longleftrightarrow> 0 \<le> vnet \<and> (vnet + 1) * ou_vc_per_vnet ou \<le> int (length (ou_outVcState ou))"

lemma vnet_vcs_in_range:
  assumes "vnet_in_range vnet ou" and "vc \<in> set (vnet_vcs (ou_vc_per_vnet ou) vnet)"
  shows "0 \<le> vc \<and> vc < int (length (ou_outVcState ou)) \<and>
    vnet * ou_vc_per_vnet ou \<le> vc \<and> vc < (vnet + 1) * ou_vc_per_vnet ou"
proof -
  obtain k where "k \<in> set (upto_int (nat (ou_vc_per_vnet ou)))" "vc = vnet * ou_vc_per_vnet ou + k"
    using assms(2) unfolding vnet_vcs_def set_map by blast
  then have k: "0 \<le> k" "k < ou_vc_per_vnet ou" "vc = vnet * ou_vc_per_vnet ou + k"
    by (auto split: if_splits)
  then have "0 \<le> vnet * ou_vc_per_vnet ou" using assms(1) by (simp add: vnet_in_range_def)
  with k assms(1) show ?thesis by (simp add: vnet_in_range_def distrib_right)
qed

text \<open>
  On a port that has the virtual network, \<open>has_free_vc\<close> is true exactly when
  \<open>select_free_vc\<close> returns a channel and not \<open>-1\<close>; the channel is one of the virtual
  network, the first idle one, and afterwards it is active and nothing else has changed.
\<close>

theorem select_free_vc_correct:
  assumes "vnet_in_range vnet ou"
  shows "\<exists>b vc ou'. has_free_vc now vnet ou = Inr b \<and> select_free_vc now vnet ou = Inr (vc, ou') \<and>
    (b \<longleftrightarrow> vc \<noteq> -1) \<and>
    (if b then vnet * ou_vc_per_vnet ou \<le> vc \<and> vc < (vnet + 1) * ou_vc_per_vnet ou \<and>
         isInState IDLE now (ou_outVcState ou ! nat vc) \<and>
         (\<forall>k. vnet * ou_vc_per_vnet ou \<le> k \<and> k < vc \<longrightarrow> \<not> isInState IDLE now (ou_outVcState ou ! nat k)) \<and>
         ou' = ou\<lparr>ou_outVcState :=
           (ou_outVcState ou)[nat vc := setState ACTIVE now (ou_outVcState ou ! nat vc)]\<rparr>
     else ou' = ou \<and> (\<forall>k. vnet * ou_vc_per_vnet ou \<le> k \<and> k < (vnet + 1) * ou_vc_per_vnet ou \<longrightarrow>
         \<not> isInState IDLE now (ou_outVcState ou ! nat k)))"
proof -
  let ?vcs = "vnet_vcs (ou_vc_per_vnet ou) vnet" and ?P = "\<lambda>vc. isInState IDLE now (ou_outVcState ou ! nat vc)"
  let ?base = "vnet * ou_vc_per_vnet ou"
  have range: "\<forall>vc \<in> set ?vcs. 0 \<le> vc \<and> vc < int (length (ou_outVcState ou))"
    using vnet_vcs_in_range [OF assms] by blast
  note loops = free_vc_loops [OF range, of now]
  have len: "length ?vcs = nat (ou_vc_per_vnet ou)" by (simp add: vnet_vcs_def)
  have nth: "?vcs ! k = ?base + int k" if "k < length ?vcs" for k
    using that by (simp add: vnet_vcs_def upto_int_def)
  show ?thesis
  proof (cases "find ?P ?vcs")
    case None
    have "\<not> ?P k" if "?base \<le> k \<and> k < (vnet + 1) * ou_vc_per_vnet ou" for k
    proof -
      from that have "?vcs ! nat (k - ?base) = k" "nat (k - ?base) < length ?vcs"
        using nth [of "nat (k - ?base)"] by (simp_all add: len distrib_right)
      with None show ?thesis by (metis find_None_iff nth_mem)
    qed
    with None loops show ?thesis unfolding has_free_vc_def select_free_vc_def by auto
  next
    case (Some vc)
    then obtain i where i: "i < length ?vcs" "?P (?vcs ! i)" "vc = ?vcs ! i"
        "\<And>j. j < i \<Longrightarrow> \<not> ?P (?vcs ! j)" by (auto simp: find_Some_iff)
    have vc: "?base \<le> vc" "vc < (vnet + 1) * ou_vc_per_vnet ou" "0 \<le> vc"
      using vnet_vcs_in_range [OF assms, of vc] i(1,3) nth_mem by blast+
    have "\<not> ?P k" if "?base \<le> k \<and> k < vc" for k
    proof -
      have "nat (k - ?base) < i" using that i(1,3) nth [OF i(1)] by linarith
      with i(4) nth [of "nat (k - ?base)"] i(1) that show ?thesis by fastforce
    qed
    with Some loops i vc show ?thesis unfolding has_free_vc_def select_free_vc_def by auto
  qed
qed

definition example_output_unit :: OutputUnit where
  "example_output_unit = \<lparr>ou_id = 0, ou_direction = ''East'', ou_vc_per_vnet = 2, ou_out_link = 0,
     ou_credit_link = 1, ou_outBuffer = flitBuffer_new,
     ou_outVcState =
       [\<lparr>ovc_id = 0, ovc_time = 5, ovc_vc_state = ACTIVE, ovc_credit_count = 3, ovc_max_credit_count = 4\<rparr>,
        \<lparr>ovc_id = 1, ovc_time = 0, ovc_vc_state = IDLE, ovc_credit_count = 4, ovc_max_credit_count = 4\<rparr>],
     ou_consumer = consumer_init 5\<rparr>"

lemma select_free_vc_correct_witness:
  "\<exists>ou'. has_free_vc 10 0 example_output_unit = Inr True \<and>
    select_free_vc 10 0 example_output_unit = Inr (1, ou')"
proof -
  have r: "vnet_in_range 0 example_output_unit"
    by (simp add: vnet_in_range_def example_output_unit_def)
  have f: "has_free_vc 10 0 example_output_unit = Inr True"
    by code_simp
  have n: "ou_vc_per_vnet example_output_unit = 2" by (simp add: example_output_unit_def)
  from select_free_vc_correct [OF r, of 10] obtain vc ou' where
    s: "select_free_vc 10 0 example_output_unit = Inr (vc, ou')" "0 \<le> vc" "vc < 2"
      "isInState IDLE 10 (ou_outVcState example_output_unit ! nat vc)"
    by (auto simp: f n)
  then have "vc = 1"
    by (cases "vc = 0") (auto simp: example_output_unit_def isInState_def)
  with s(1) f show ?thesis by blast
qed

end
