(* ===== verification/CrossbarSwitch.thy ===== *)
theory CrossbarSwitch
  imports OutputUnit
begin

text \<open>
  \<open>CrossbarSwitch\<close> (\<open>CrossbarSwitch.hh\<close>, \<open>CrossbarSwitch.cc\<close>): the flits that won the
  switch, one buffer per input port, on their way to the output ports.
\<close>

record CrossbarSwitch =
  xb_num_vcs :: nat
  xb_crossbar_activity :: nat
  xb_switchBuffers :: "flitBuffer list"

definition CrossbarSwitch_new :: "RouterParams \<Rightarrow> CrossbarSwitch" where
  "CrossbarSwitch_new rp =
    \<lparr>xb_num_vcs = rp_num_vcs rp, xb_crossbar_activity = 0, xb_switchBuffers = []\<rparr>"

definition CrossbarSwitch_init :: "nat \<Rightarrow> CrossbarSwitch \<Rightarrow> CrossbarSwitch" where
  "CrossbarSwitch_init num_inports xb =
    xb\<lparr>xb_switchBuffers := take num_inports (xb_switchBuffers xb)
        @ replicate (num_inports - length (xb_switchBuffers xb)) flitBuffer_new\<rparr>"

definition update_sw_winner :: "int \<Rightarrow> flit \<Rightarrow> CrossbarSwitch \<Rightarrow> CrossbarSwitch res" where
  "update_sw_winner inport t_flit xb =
    bindR (modR (xb_switchBuffers xb) inport (\<lambda>b. Inr (fb_insert t_flit b)))
      (\<lambda>bs. Inr (xb\<lparr>xb_switchBuffers := bs\<rparr>))"

text \<open>
  One iteration of the loop: the flit at the head of switch buffer \<open>i\<close> traverses the
  switch. \<open>getOutputUnit\<close> asserts that the port exists.
\<close>

definition switch_traversal ::
    "tick \<Rightarrow> consumer \<Rightarrow> int \<Rightarrow> CrossbarSwitch \<times> OutputUnit list \<times> NetworkLink list
     \<Rightarrow> (CrossbarSwitch \<times> OutputUnit list \<times> NetworkLink list) res" where
  "switch_traversal now con i = (\<lambda>(xb, ous, links).
    bindR (nthR (xb_switchBuffers xb) i) (\<lambda>buf.
    if \<not> fb_isReady now buf then Inr (xb, ous, links)
    else bindR (fb_getTopFlit buf) (\<lambda>(t_flit, buf').
      if is_stage ST_STAGE now t_flit then
        let t_flit' = (advance_stage LT_STAGE (router_clockEdge now 1 con) t_flit)
                        \<lparr>fl_time := router_clockEdge now 1 con\<rparr>
        in bindR (nthR ous (fl_outport t_flit)) (\<lambda>ou.
           bindR (insert_flit now con t_flit' (ou, links)) (\<lambda>(ou', links').
             Inr (xb\<lparr>xb_switchBuffers := (xb_switchBuffers xb)[nat i := buf'],
                     xb_crossbar_activity := xb_crossbar_activity xb + 1\<rparr>,
                  ous[nat (fl_outport t_flit) := ou'], links')))
      else Inr (xb, ous, links))))"

definition CrossbarSwitch_wakeup ::
    "tick \<Rightarrow> consumer \<Rightarrow> CrossbarSwitch \<times> OutputUnit list \<times> NetworkLink list
     \<Rightarrow> (CrossbarSwitch \<times> OutputUnit list \<times> NetworkLink list) res" where
  "CrossbarSwitch_wakeup now con st =
    foldR (switch_traversal now con) (upto_int (length (xb_switchBuffers (fst st)))) st"

definition xb_functionalRead :: "'w msg_access \<Rightarrow> CrossbarSwitch \<Rightarrow> 'w \<Rightarrow> (bool \<times> 'w) res" where
  "xb_functionalRead acc xb w =
    foldR (\<lambda>b (rd, w). bindR (fb_functionalRead acc b w) (\<lambda>(ok, w'). Inr (ok \<or> rd, w')))
      (xb_switchBuffers xb) (False, w)"

definition xb_functionalWrite :: "'w msg_access \<Rightarrow> CrossbarSwitch \<Rightarrow> 'w \<Rightarrow> (nat \<times> 'w) res" where
  "xb_functionalWrite acc xb w =
    foldR (\<lambda>b (n, w). bindR (fb_functionalWrite acc b w) (\<lambda>(k, w'). Inr (n + k, w')))
      (xb_switchBuffers xb) (0, w)"

definition xb_resetStats :: "CrossbarSwitch \<Rightarrow> CrossbarSwitch" where
  "xb_resetStats xb = xb\<lparr>xb_crossbar_activity := 0\<rparr>"

section \<open>Lemmas\<close>

definition xb_keys :: "CrossbarSwitch \<Rightarrow> (int \<times> int) multiset" where
  "xb_keys xb = sum_list (map (\<lambda>b. flit_keys (fb_buffer b)) (xb_switchBuffers xb))"

definition ous_keys :: "OutputUnit list \<Rightarrow> (int \<times> int) multiset" where
  "ous_keys ous = sum_list (map ou_keys ous)"

lemma update_sw_winner_keys:
  assumes "update_sw_winner inport f xb = Inr xb'"
  shows "xb_keys xb' = xb_keys xb + flit_keys [f]"
proof -
  let ?b = "xb_switchBuffers xb ! nat inport"
  from assms have i: "0 \<le> inport" "inport < int (length (xb_switchBuffers xb))"
    and xb': "xb' = xb\<lparr>xb_switchBuffers := (xb_switchBuffers xb)[nat inport := fb_insert f ?b]\<rparr>"
    unfolding update_sw_winner_def by (auto elim!: bindR_InrE simp: modR_eq_Inr)
  have "xb_keys xb' + flit_keys (fb_buffer ?b) = xb_keys xb + (flit_keys (fb_buffer ?b) + flit_keys [f])"
    using sum_list_update_add [of "nat inport" "xb_switchBuffers xb" "\<lambda>b. flit_keys (fb_buffer b)"] i
    by (simp add: xb_keys_def xb')
  then show ?thesis by simp
qed

lemma switch_traversalE:
  assumes "switch_traversal now con i (xb, ous, links) = Inr (xb', ous', links')"
  obtains (stay) "xb' = xb" "ous' = ous" "links' = links"
  | (move) f fs t ou ou' b where "0 \<le> i" "i < int (length (xb_switchBuffers xb))"
      "b = xb_switchBuffers xb ! nat i" "fb_buffer b = f # fs" "fl_time f \<le> now"
      "is_stage ST_STAGE now f" "t = router_clockEdge now 1 con"
      "0 \<le> fl_outport f" "fl_outport f < int (length ous)" "ou = ous ! nat (fl_outport f)"
      "insert_flit now con ((advance_stage LT_STAGE t f)\<lparr>fl_time := t\<rparr>) (ou, links) = Inr (ou', links')"
      "xb' = xb\<lparr>xb_switchBuffers := (xb_switchBuffers xb)[nat i := b\<lparr>fb_buffer := fs\<rparr>],
         xb_crossbar_activity := xb_crossbar_activity xb + 1\<rparr>"
      "ous' = ous[nat (fl_outport f) := ou']"
proof -
  from assms obtain b where b: "nthR (xb_switchBuffers xb) i = Inr b"
    unfolding switch_traversal_def by (auto elim: bindR_InrE)
  show thesis
  proof (cases "fb_isReady now b")
    case False
    with assms b show thesis unfolding switch_traversal_def by (auto intro: stay)
  next
    case True
    then obtain f fs where f: "fb_buffer b = f # fs" "fl_time f \<le> now"
        "fb_getTopFlit b = Inr (f, b\<lparr>fb_buffer := fs\<rparr>)" by (rule fb_isReady_getE)
    show thesis
    proof (cases "is_stage ST_STAGE now f")
      case False
      with assms b True f(3) show thesis unfolding switch_traversal_def by (auto intro: stay)
    next
      case st: True
      let ?t = "router_clockEdge now 1 con"
      from assms b True f(3) st obtain ou ou' where
        "nthR ous (fl_outport f) = Inr ou"
        "insert_flit now con ((advance_stage LT_STAGE ?t f)\<lparr>fl_time := ?t\<rparr>) (ou, links) = Inr (ou', links')"
        "xb' = xb\<lparr>xb_switchBuffers := (xb_switchBuffers xb)[nat i := b\<lparr>fb_buffer := fs\<rparr>],
          xb_crossbar_activity := xb_crossbar_activity xb + 1\<rparr>"
        "ous' = ous[nat (fl_outport f) := ou']"
        unfolding switch_traversal_def Let_def by (auto elim!: bindR_InrE)
      with b f st show thesis by (intro move [of b f fs ?t ou ou']) (auto simp: nthR_eq_Inr)
    qed
  qed
qed

text \<open>Switch traversal moves flits from the switch buffers to the output ports.\<close>

lemma switch_traversal_keys:
  assumes "switch_traversal now con i (xb, ous, links) = Inr (xb', ous', links')"
  shows "xb_keys xb' + ous_keys ous' + links_keys links' = xb_keys xb + ous_keys ous + links_keys links"
  using assms
proof (cases rule: switch_traversalE)
  case stay
  then show ?thesis by simp
next
  case (move f fs t ou ou' b)
  have "xb_keys xb' + flit_keys (fb_buffer b) = xb_keys xb + flit_keys fs"
    using sum_list_update_add [of "nat i" "xb_switchBuffers xb" "\<lambda>b. flit_keys (fb_buffer b)"
        "b\<lparr>fb_buffer := fs\<rparr>"] move(1,2,3,12) by (simp add: xb_keys_def)
  then have xb: "xb_keys xb' + flit_keys [f] = xb_keys xb"
    using flit_keys_Cons [of f fs] move(4) by (metis add.assoc add_right_cancel)
  note ins = insert_flit_keys [OF move(11)]
  have "ous_keys ous' + ou_keys ou = ous_keys ous + ou_keys ou'"
    using sum_list_update_add [of "nat (fl_outport f)" ous ou_keys ou'] move(8-10,13)
    by (simp add: ous_keys_def)
  with ins(1) have "ous_keys ous' = ous_keys ous + flit_keys [f]" by (simp add: ac_simps)
  with xb ins(2) show ?thesis by (metis add.assoc add.commute)
qed

lemma CrossbarSwitch_wakeup_keys:
  assumes "CrossbarSwitch_wakeup now con (xb, ous, links) = Inr (xb', ous', links')"
  shows "xb_keys xb' + ous_keys ous' + links_keys links' = xb_keys xb + ous_keys ous + links_keys links"
proof -
  let ?P = "\<lambda>(xb', ous', links'). xb_keys xb' + ous_keys ous' + links_keys links'
    = xb_keys xb + ous_keys ous + links_keys links"
  have "?P (xb', ous', links')"
    by (rule foldR_invariant [OF assms [unfolded CrossbarSwitch_wakeup_def]])
      (auto dest!: switch_traversal_keys)
  then show ?thesis by simp
qed

end
