(* ===== verification/SwitchAllocator.thy ===== *)
theory SwitchAllocator
  imports CrossbarSwitch
begin

text \<open>
  \<open>SwitchAllocator\<close> (\<open>SwitchAllocator.hh\<close>, \<open>SwitchAllocator.cc\<close>): the two stages of
  separable round-robin allocation. It works on the ports, the crossbar and the consumer of
  its router, so the record of \<open>Router\<close> (\<open>Router.hh\<close>) is here; the field \<open>r_links\<close> is
  the store of links its ports point into.
\<close>

section \<open>State\<close>

record SwitchAllocator =
  sa_num_inports :: int
  sa_num_outports :: int
  sa_num_vcs :: int
  sa_vc_per_vnet :: int
  sa_input_arbiter_activity :: nat
  sa_output_arbiter_activity :: nat
  sa_round_robin_invc :: "int list"
  sa_round_robin_inport :: "int list"
  sa_port_requests :: "int list"
  sa_vc_winners :: "int list"

record RouterStats =
  rst_buffer_reads :: nat
  rst_buffer_writes :: nat
  rst_sw_input_arbiter_activity :: nat
  rst_sw_output_arbiter_activity :: nat
  rst_crossbar_activity :: nat

record Router =
  r_params :: RouterParams
  r_consumer :: consumer
  r_routingUnit :: RoutingUnit
  r_switchAllocator :: SwitchAllocator
  r_crossbarSwitch :: CrossbarSwitch
  r_input_unit :: "InputUnit list"
  r_output_unit :: "OutputUnit list"
  r_stats :: RouterStats
  r_links :: "NetworkLink list"

definition SwitchAllocator_new :: "RouterParams \<Rightarrow> SwitchAllocator" where
  "SwitchAllocator_new rp =
    \<lparr>sa_num_inports = 0, sa_num_outports = 0, sa_num_vcs = int (rp_num_vcs rp),
     sa_vc_per_vnet = int (rp_vc_per_vnet rp), sa_input_arbiter_activity = 0,
     sa_output_arbiter_activity = 0, sa_round_robin_invc = [], sa_round_robin_inport = [],
     sa_port_requests = [], sa_vc_winners = []\<rparr>"

definition SwitchAllocator_init :: "nat \<Rightarrow> nat \<Rightarrow> SwitchAllocator \<Rightarrow> SwitchAllocator" where
  "SwitchAllocator_init num_inports num_outports sa =
    sa\<lparr>sa_num_inports := int num_inports, sa_num_outports := int num_outports,
       sa_round_robin_inport := replicate num_outports 0,
       sa_round_robin_invc := replicate num_inports 0,
       sa_port_requests := replicate num_inports (-1),
       sa_vc_winners := replicate num_inports (-1)\<rparr>"

text \<open>\<open>getInputUnit\<close> and \<open>getOutputUnit\<close> of the router, and writing a unit back.\<close>

definition getInputUnit :: "int \<Rightarrow> Router \<Rightarrow> InputUnit res" where
  "getInputUnit port r = guardR (0 \<le> port \<and> port < int (length (r_input_unit r)))
    (Assert_failed ''port < m_input_unit.size()'') (Inr (r_input_unit r ! nat port))"

definition getOutputUnit :: "int \<Rightarrow> Router \<Rightarrow> OutputUnit res" where
  "getOutputUnit port r = guardR (0 \<le> port \<and> port < int (length (r_output_unit r)))
    (Assert_failed ''port < m_output_unit.size()'') (Inr (r_output_unit r ! nat port))"

definition put_iu :: "int \<Rightarrow> InputUnit \<Rightarrow> Router \<Rightarrow> Router" where
  "put_iu port iu r = r\<lparr>r_input_unit := (r_input_unit r)[nat port := iu]\<rparr>"

definition put_ou :: "int \<Rightarrow> OutputUnit \<Rightarrow> Router \<Rightarrow> Router" where
  "put_ou port ou r = r\<lparr>r_output_unit := (r_output_unit r)[nat port := ou]\<rparr>"

definition grant_switch :: "int \<Rightarrow> flit \<Rightarrow> Router \<Rightarrow> Router res" where
  "grant_switch inport t_flit r =
    bindR (update_sw_winner inport t_flit (r_crossbarSwitch r)) (\<lambda>xb. Inr (r\<lparr>r_crossbarSwitch := xb\<rparr>))"

section \<open>The first stage\<close>

definition sa_get_vnet :: "int \<Rightarrow> Router \<Rightarrow> int res" where
  "sa_get_vnet invc r =
    guardR (sa_vc_per_vnet (r_switchAllocator r) \<noteq> 0) Div_by_zero
    (let vnet = invc sdiv sa_vc_per_vnet (r_switchAllocator r) in
     guardR (vnet < int (rp_virtual_networks (r_params r)))
       (Assert_failed ''vnet < m_router->get_num_vnets()'') (Inr vnet))"

text \<open>
  The ordering check: no channel of the same virtual network holds an earlier packet for the
  same output port that is ready for allocation.
\<close>

fun order_loop :: "tick \<Rightarrow> int \<Rightarrow> tick \<Rightarrow> int list \<Rightarrow> InputUnit \<Rightarrow> bool res" where
  "order_loop now outport t_enqueue_time [] iu = Inr True"
| "order_loop now outport t_enqueue_time (temp_vc # vcs) iu =
    bindR (iu_need_stage temp_vc SA_STAGE now iu) (\<lambda>need.
    bindR (if need then
             bindR (iu_get_outport temp_vc iu) (\<lambda>p.
             bindR (iu_get_enqueue_time temp_vc iu) (\<lambda>t. Inr (p = outport \<and> t < t_enqueue_time)))
           else Inr False)
      (\<lambda>earlier. if earlier then Inr False else order_loop now outport t_enqueue_time vcs iu))"

definition send_allowed ::
    "garnet_config \<Rightarrow> tick \<Rightarrow> int \<Rightarrow> int \<Rightarrow> int \<Rightarrow> int \<Rightarrow> Router \<Rightarrow> bool res" where
  "send_allowed cfg now inport invc outport outvc r =
    bindR (sa_get_vnet invc r) (\<lambda>vnet.
    bindR (getOutputUnit outport r) (\<lambda>output_unit.
    bindR (if outvc = -1 then has_free_vc now vnet output_unit
           else ou_has_credit now outvc output_unit) (\<lambda>can_send.
    if \<not> can_send then Inr False
    else
      bindR (isVNetOrdered cfg vnet) (\<lambda>ordered.
      if ordered then
        bindR (getInputUnit inport r) (\<lambda>input_unit.
        bindR (iu_get_enqueue_time invc input_unit) (\<lambda>t_enqueue_time.
        order_loop now outport t_enqueue_time
          (vnet_vcs (sa_vc_per_vnet (r_switchAllocator r)) vnet) input_unit))
      else Inr True))))"

text \<open>Does the channel \<open>invc\<close> place a request now, and for which output port?\<close>

definition sa_request :: "garnet_config \<Rightarrow> tick \<Rightarrow> int \<Rightarrow> int \<Rightarrow> Router \<Rightarrow> int option res" where
  "sa_request cfg now inport invc r =
    bindR (getInputUnit inport r) (\<lambda>input_unit.
    bindR (iu_need_stage invc SA_STAGE now input_unit) (\<lambda>need.
    if need then
      bindR (iu_get_outport invc input_unit) (\<lambda>outport.
      bindR (iu_get_outvc invc input_unit) (\<lambda>outvc.
      bindR (send_allowed cfg now inport invc outport outvc r) (\<lambda>make_request.
        Inr (if make_request then Some outport else None))))
    else Inr None))"

text \<open>The channels of one input port in round-robin order, until one may send.\<close>

fun inport_loop :: "garnet_config \<Rightarrow> tick \<Rightarrow> int \<Rightarrow> nat \<Rightarrow> int \<Rightarrow> Router \<Rightarrow> Router res" where
  "inport_loop cfg now inport 0 invc r = Inr r"
| "inport_loop cfg now inport (Suc k) invc r =
    bindR (sa_request cfg now inport invc r) (\<lambda>req.
      case req of
        Some outport \<Rightarrow>
          (let sa = r_switchAllocator r in
           bindR (setR (sa_port_requests sa) inport outport) (\<lambda>reqs.
           bindR (setR (sa_vc_winners sa) inport invc) (\<lambda>winners.
             Inr (r\<lparr>r_switchAllocator := sa\<lparr>
               sa_input_arbiter_activity := sa_input_arbiter_activity sa + 1,
               sa_port_requests := reqs, sa_vc_winners := winners\<rparr>\<rparr>))))
      | None \<Rightarrow> inport_loop cfg now inport k (rr_step (sa_num_vcs (r_switchAllocator r)) invc) r)"

definition arbitrate_inports :: "garnet_config \<Rightarrow> tick \<Rightarrow> Router \<Rightarrow> Router res" where
  "arbitrate_inports cfg now r =
    foldR (\<lambda>inport r.
        bindR (nthR (sa_round_robin_invc (r_switchAllocator r)) inport) (\<lambda>invc.
          inport_loop cfg now inport (nat (sa_num_vcs (r_switchAllocator r))) invc r))
      (upto_int (nat (sa_num_inports (r_switchAllocator r)))) r"

section \<open>The second stage\<close>

definition vc_allocate :: "tick \<Rightarrow> int \<Rightarrow> int \<Rightarrow> int \<Rightarrow> Router \<Rightarrow> (int \<times> Router) res" where
  "vc_allocate now outport inport invc r =
    bindR (getOutputUnit outport r) (\<lambda>ou.
    bindR (sa_get_vnet invc r) (\<lambda>vnet.
    bindR (select_free_vc now vnet ou) (\<lambda>(outvc, ou').
    guardR (outvc \<noteq> -1) (Assert_failed ''outvc != -1'')
    (bindR (getInputUnit inport r) (\<lambda>iu.
     bindR (grant_outvc invc outvc iu) (\<lambda>iu'.
       Inr (outvc, put_iu inport iu' (put_ou outport ou' r))))))))"

text \<open>After the flit left: free the channel behind a tail, and send the credit back.\<close>

definition release_vc ::
    "garnet_config \<Rightarrow> tick \<Rightarrow> flit \<Rightarrow> int \<Rightarrow> consumer \<Rightarrow> InputUnit \<times> NetworkLink list
     \<Rightarrow> (InputUnit \<times> NetworkLink list) res" where
  "release_vc cfg now t_flit invc con = (\<lambda>(iu, links).
    if is_tail t_flit then
      bindR (iu_isReady invc now iu) (\<lambda>ready.
      guardR (\<not> ready) (Assert_failed ''!(input_unit->isReady(invc, curTick()))'')
      (bindR (set_vc_idle invc now iu) (\<lambda>iu'.
       iu_increment_credit cfg now invc True now con (iu', links))))
    else iu_increment_credit cfg now invc False now con (iu, links))"

text \<open>The flit of the winner leaves its channel for the crossbar.\<close>

definition send_winner ::
    "garnet_config \<Rightarrow> tick \<Rightarrow> int \<Rightarrow> int \<Rightarrow> int \<Rightarrow> int \<Rightarrow> Router \<Rightarrow> Router res" where
  "send_winner cfg now outport inport invc outvc r =
    bindR (getInputUnit inport r) (\<lambda>iu.
    bindR (iu_getTopFlit invc iu) (\<lambda>(t_flit, iu1).
    bindR (getOutputUnit outport r) (\<lambda>ou.
    bindR (ou_decrement_credit outvc ou) (\<lambda>ou1.
    bindR (grant_switch inport
        (advance_stage ST_STAGE now (t_flit\<lparr>fl_outport := outport, fl_vc := outvc\<rparr>)) r) (\<lambda>r1.
    bindR (release_vc cfg now t_flit invc (r_consumer r) (iu1, r_links r)) (\<lambda>(iu2, links).
      Inr (put_iu inport iu2 (put_ou outport ou1 (r1\<lparr>r_links := links\<rparr>)))))))))"

text \<open>Remove the request and advance the round-robin pointers of both ports.\<close>

definition retire_request :: "int \<Rightarrow> int \<Rightarrow> int \<Rightarrow> SwitchAllocator \<Rightarrow> SwitchAllocator res" where
  "retire_request outport inport invc sa =
    bindR (setR (sa_port_requests sa) inport (-1)) (\<lambda>reqs.
    bindR (setR (sa_round_robin_inport sa) outport (rr_step (sa_num_inports sa) inport)) (\<lambda>rr_inport.
    bindR (setR (sa_round_robin_invc sa) inport (rr_step (sa_num_vcs sa) invc)) (\<lambda>rr_invc.
      Inr (sa\<lparr>sa_output_arbiter_activity := sa_output_arbiter_activity sa + 1,
              sa_port_requests := reqs, sa_round_robin_inport := rr_inport,
              sa_round_robin_invc := rr_invc\<rparr>))))"

definition sa_grant :: "garnet_config \<Rightarrow> tick \<Rightarrow> int \<Rightarrow> int \<Rightarrow> Router \<Rightarrow> Router res" where
  "sa_grant cfg now outport inport r =
    bindR (nthR (sa_vc_winners (r_switchAllocator r)) inport) (\<lambda>invc.
    bindR (getInputUnit inport r) (\<lambda>iu.
    bindR (iu_get_outvc invc iu) (\<lambda>outvc0.
    bindR (if outvc0 = -1 then vc_allocate now outport inport invc r else Inr (outvc0, r))
      (\<lambda>(outvc, r1).
    bindR (send_winner cfg now outport inport invc outvc r1) (\<lambda>r2.
    bindR (retire_request outport inport invc (r_switchAllocator r2)) (\<lambda>sa.
      Inr (r2\<lparr>r_switchAllocator := sa\<rparr>)))))))"

fun outport_loop :: "garnet_config \<Rightarrow> tick \<Rightarrow> int \<Rightarrow> nat \<Rightarrow> int \<Rightarrow> Router \<Rightarrow> Router res" where
  "outport_loop cfg now outport 0 inport r = Inr r"
| "outport_loop cfg now outport (Suc k) inport r =
    bindR (nthR (sa_port_requests (r_switchAllocator r)) inport) (\<lambda>req.
      if req = outport then sa_grant cfg now outport inport r
      else outport_loop cfg now outport k (rr_step (sa_num_inports (r_switchAllocator r)) inport) r)"

definition arbitrate_outports :: "garnet_config \<Rightarrow> tick \<Rightarrow> Router \<Rightarrow> Router res" where
  "arbitrate_outports cfg now r =
    foldR (\<lambda>outport r.
        bindR (nthR (sa_round_robin_inport (r_switchAllocator r)) outport) (\<lambda>inport.
          outport_loop cfg now outport (nat (sa_num_inports (r_switchAllocator r))) inport r))
      (upto_int (nat (sa_num_outports (r_switchAllocator r)))) r"

section \<open>The whole allocator\<close>

definition clear_request_vector :: "Router \<Rightarrow> Router" where
  "clear_request_vector r = (let sa = r_switchAllocator r in
    r\<lparr>r_switchAllocator := sa\<lparr>sa_port_requests := replicate (length (sa_port_requests sa)) (-1)\<rparr>\<rparr>)"

fun wakeup_loop :: "tick \<Rightarrow> tick \<Rightarrow> (int \<times> int) list \<Rightarrow> Router \<Rightarrow> Router res" where
  "wakeup_loop now nextCycle [] r = Inr r"
| "wakeup_loop now nextCycle ((i, j) # ijs) r =
    bindR (getInputUnit i r) (\<lambda>iu. bindR (iu_need_stage j SA_STAGE nextCycle iu) (\<lambda>need.
      if need then Inr (r\<lparr>r_consumer := schedule_wakeup now 1 (r_consumer r)\<rparr>)
      else wakeup_loop now nextCycle ijs r))"

definition check_for_wakeup :: "tick \<Rightarrow> Router \<Rightarrow> Router res" where
  "check_for_wakeup now r =
    (let nextCycle = router_clockEdge now 1 (r_consumer r) in
     if alreadyScheduled nextCycle (r_consumer r) then Inr r
     else wakeup_loop now nextCycle
       (List.product (upto_int (nat (sa_num_inports (r_switchAllocator r))))
          (upto_int (nat (sa_num_vcs (r_switchAllocator r))))) r)"

definition SwitchAllocator_wakeup :: "garnet_config \<Rightarrow> tick \<Rightarrow> Router \<Rightarrow> Router res" where
  "SwitchAllocator_wakeup cfg now r =
    bindR (arbitrate_inports cfg now r) (\<lambda>r1.
    bindR (arbitrate_outports cfg now r1) (\<lambda>r2.
    check_for_wakeup now (clear_request_vector r2)))"

definition sa_resetStats :: "SwitchAllocator \<Rightarrow> SwitchAllocator" where
  "sa_resetStats sa = sa\<lparr>sa_input_arbiter_activity := 0, sa_output_arbiter_activity := 0\<rparr>"

section \<open>Accounting of flits\<close>

definition ius_keys :: "InputUnit list \<Rightarrow> (int \<times> int) multiset" where
  "ius_keys ius = sum_list (map iu_keys ius)"

definition router_keys :: "Router \<Rightarrow> (int \<times> int) multiset" where
  "router_keys r = ius_keys (r_input_unit r) + xb_keys (r_crossbarSwitch r)
     + ous_keys (r_output_unit r) + links_keys (r_links r)"

lemma getInputUnit_eq [res_simps]:
  "getInputUnit i r = Inr iu \<longleftrightarrow> 0 \<le> i \<and> i < int (length (r_input_unit r)) \<and> iu = r_input_unit r ! nat i"
  by (auto simp: getInputUnit_def guardR_eq_Inr)

lemma getOutputUnit_eq [res_simps]:
  "getOutputUnit i r = Inr ou \<longleftrightarrow> 0 \<le> i \<and> i < int (length (r_output_unit r)) \<and> ou = r_output_unit r ! nat i"
  by (auto simp: getOutputUnit_def guardR_eq_Inr)

lemma ius_keys_update:
  "0 \<le> i \<Longrightarrow> i < int (length ius) \<Longrightarrow>
    ius_keys (ius[nat i := iu]) + iu_keys (ius ! nat i) = ius_keys ius + iu_keys iu"
  using sum_list_update_add [of "nat i" ius iu_keys iu] by (simp add: ius_keys_def)

lemma ous_keys_same:
  "0 \<le> i \<Longrightarrow> i < int (length ous) \<Longrightarrow> ou_keys ou = ou_keys (ous ! nat i) \<Longrightarrow>
    ous_keys (ous[nat i := ou]) = ous_keys ous"
  unfolding ous_keys_def by (rule sum_list_update_same) auto

text \<open>The first stage only writes the state of the allocator.\<close>

lemma inport_loop_frame:
  "inport_loop cfg now inport k invc r = Inr r' \<Longrightarrow> \<exists>sa. r' = r\<lparr>r_switchAllocator := sa\<rparr>"
proof (induction k arbitrary: invc)
  case 0
  then have "r' = r\<lparr>r_switchAllocator := r_switchAllocator r\<rparr>" by simp
  then show ?case by blast
next
  case (Suc k)
  then obtain req where req: "sa_request cfg now inport invc r = Inr req" by (auto elim: bindR_InrE)
  show ?case
  proof (cases req)
    case None
    with Suc req show ?thesis by simp
  next
    case (Some p)
    with Suc.prems req show ?thesis by (auto simp: Let_def elim!: bindR_InrE)
  qed
qed

lemma arbitrate_inports_frame:
  assumes "arbitrate_inports cfg now r = Inr r'"
  shows "\<exists>sa. r' = r\<lparr>r_switchAllocator := sa\<rparr>"
proof (rule foldR_invariant [where P = "\<lambda>r'. \<exists>sa. r' = r\<lparr>r_switchAllocator := sa\<rparr>",
      OF assms [unfolded arbitrate_inports_def]])
  have "r = r\<lparr>r_switchAllocator := r_switchAllocator r\<rparr>" by simp
  then show "\<exists>sa. r = r\<lparr>r_switchAllocator := sa\<rparr>" by blast
next
  fix x s s'
  assume "\<exists>sa. s = r\<lparr>r_switchAllocator := sa\<rparr>"
    and "bindR (nthR (sa_round_robin_invc (r_switchAllocator s)) x)
      (\<lambda>invc. inport_loop cfg now x (nat (sa_num_vcs (r_switchAllocator s))) invc s) = Inr s'"
  then show "\<exists>sa. s' = r\<lparr>r_switchAllocator := sa\<rparr>"
    by (auto elim!: bindR_InrE dest!: inport_loop_frame)
qed

lemma select_free_vc_loop_frame:
  "select_free_vc_loop now vcs ou = Inr (vc, ou') \<Longrightarrow> \<exists>vs. ou' = ou\<lparr>ou_outVcState := vs\<rparr>"
proof (induction vcs)
  case Nil
  then have "ou' = ou\<lparr>ou_outVcState := ou_outVcState ou\<rparr>" by simp
  then show ?case by blast
next
  case (Cons v vcs)
  then obtain idle where idle: "is_vc_idle v now ou = Inr idle" by (auto elim: bindR_InrE)
  with Cons show ?case by (cases idle) (auto simp: set_vc_state_def elim!: bindR_InrE)
qed

lemma vc_allocateE:
  assumes "vc_allocate now outport inport invc r = Inr (outvc, r')"
  obtains iu' vs where "0 \<le> inport" "inport < int (length (r_input_unit r))"
    "0 \<le> outport" "outport < int (length (r_output_unit r))"
    "grant_outvc invc outvc (r_input_unit r ! nat inport) = Inr iu'"
    "r' = put_iu inport iu' (put_ou outport ((r_output_unit r ! nat outport)\<lparr>ou_outVcState := vs\<rparr>) r)"
    "select_free_vc now (invc sdiv sa_vc_per_vnet (r_switchAllocator r)) (r_output_unit r ! nat outport)
      = Inr (outvc, (r_output_unit r ! nat outport)\<lparr>ou_outVcState := vs\<rparr>)"
proof -
  from assms obtain ou vnet ou' iu iu' where *: "getOutputUnit outport r = Inr ou"
      "sa_get_vnet invc r = Inr vnet" "select_free_vc now vnet ou = Inr (outvc, ou')"
      "getInputUnit inport r = Inr iu" "grant_outvc invc outvc iu = Inr iu'"
      "r' = put_iu inport iu' (put_ou outport ou' r)"
    unfolding vc_allocate_def by (auto elim!: bindR_InrE guardR_InrE)
  obtain vs where "ou' = ou\<lparr>ou_outVcState := vs\<rparr>"
    using select_free_vc_loop_frame *(3) unfolding select_free_vc_def by blast
  moreover have "vnet = invc sdiv sa_vc_per_vnet (r_switchAllocator r)"
    using *(2) unfolding sa_get_vnet_def Let_def by (auto elim!: guardR_InrE)
  ultimately show thesis using * that [of iu' vs] by (auto simp: getInputUnit_eq getOutputUnit_eq)
qed

lemma vc_allocate_keys:
  assumes "vc_allocate now outport inport invc r = Inr (outvc, r')"
  shows "router_keys r' = router_keys r"
  using assms
proof (cases rule: vc_allocateE)
  case (1 iu' vs)
  have "ius_keys (r_input_unit r') = ius_keys (r_input_unit r)"
    using ius_keys_update [OF 1(1,2), of iu'] grant_outvc_keys [OF 1(5)] 1(6)
    by (simp add: put_iu_def put_ou_def)
  moreover have "ous_keys (r_output_unit r') = ous_keys (r_output_unit r)"
    using ous_keys_same [OF 1(3,4)] 1(6) by (simp add: put_iu_def put_ou_def)
  ultimately show ?thesis using 1(6) by (simp add: router_keys_def put_iu_def put_ou_def)
qed

text \<open>A credit is not a flit: the account of an input port does not count it.\<close>

lemma iu_increment_credit_keys:
  assumes "iu_increment_credit cfg now vc free t con (iu, links) = Inr (iu', links')"
  shows "iu_keys iu' = iu_keys iu \<and> links_keys links' = links_keys links"
proof -
  have "flit_keys [credit_new (gc_empty_dest cfg) vc free t] = {#}" by (simp add: flit_keys_def credit_new_def)
  with assms links_keys_schedule show ?thesis
    unfolding iu_increment_credit_def by (auto simp: iu_keys_def Let_def elim!: bindR_InrE)
qed

lemma release_vc_keys:
  assumes "release_vc cfg now f invc con (iu, links) = Inr (iu', links')"
  shows "iu_keys iu' = iu_keys iu \<and> links_keys links' = links_keys links"
proof (cases "is_tail f")
  case True
  with assms obtain iu1 where i: "set_vc_idle invc now iu = Inr iu1"
      "iu_increment_credit cfg now invc True now con (iu1, links) = Inr (iu', links')"
    unfolding release_vc_def by (auto elim!: bindR_InrE guardR_InrE)
  from set_vc_idle_keys [OF i(1)] iu_increment_credit_keys [OF i(2)] show ?thesis by simp
next
  case False
  with assms have "iu_increment_credit cfg now invc False now con (iu, links) = Inr (iu', links')"
    unfolding release_vc_def by simp
  then show ?thesis by (rule iu_increment_credit_keys)
qed

lemma iu_getTopFlitE:
  assumes "iu_getTopFlit invc iu = Inr (f, iu')"
  obtains v where "0 \<le> invc" "invc < int (length (iu_virtualChannels iu))"
    "vc_flits (iu_virtualChannels iu ! nat invc) = f # vc_flits v"
    "vc_getTopFlit (iu_virtualChannels iu ! nat invc) = Inr (f, v)"
    "iu' = iu\<lparr>iu_virtualChannels := (iu_virtualChannels iu)[nat invc := v]\<rparr>"
proof -
  from assms obtain v v' vcs where "nthR (iu_virtualChannels iu) invc = Inr v"
      "vc_getTopFlit v = Inr (f, v')" "setR (iu_virtualChannels iu) invc v' = Inr vcs"
      "iu' = iu\<lparr>iu_virtualChannels := vcs\<rparr>"
    unfolding iu_getTopFlit_def by (elim bindR_InrE case_prod_InrE) auto
  then show thesis by (intro that [of v']) (auto simp: nthR_eq_Inr setR_eq_Inr vc_getTopFlit_eq)
qed

lemma iu_getTopFlit_keys:
  assumes "iu_getTopFlit invc iu = Inr (f, iu')"
  shows "iu_keys iu = iu_keys iu' + flit_keys [f]"
  using assms
proof (cases rule: iu_getTopFlitE)
  case (1 v)
  have "iu_keys iu' + flit_keys (f # vc_flits v) = iu_keys iu + flit_keys (vc_flits v)"
    using sum_list_update_add [of "nat invc" "iu_virtualChannels iu" "\<lambda>v. flit_keys (vc_flits v)" v] 1
    by (simp add: iu_keys_def)
  then show ?thesis using flit_keys_Cons [of f "vc_flits v"] by (metis add.assoc add_right_cancel)
qed

lemma send_winnerE:
  assumes "send_winner cfg now outport inport invc outvc r = Inr r'"
  obtains f iu1 ou1 xb iu2 links where
    "0 \<le> inport" "inport < int (length (r_input_unit r))"
    "0 \<le> outport" "outport < int (length (r_output_unit r))"
    "iu_getTopFlit invc (r_input_unit r ! nat inport) = Inr (f, iu1)"
    "ou_decrement_credit outvc (r_output_unit r ! nat outport) = Inr ou1"
    "update_sw_winner inport
      (advance_stage ST_STAGE now (f\<lparr>fl_outport := outport, fl_vc := outvc\<rparr>)) (r_crossbarSwitch r) = Inr xb"
    "release_vc cfg now f invc (r_consumer r) (iu1, r_links r) = Inr (iu2, links)"
    "r' = put_iu inport iu2 (put_ou outport ou1 (r\<lparr>r_crossbarSwitch := xb, r_links := links\<rparr>))"
  using assms unfolding send_winner_def grant_switch_def
  by (elim bindR_InrE case_prod_InrE) (auto simp: getInputUnit_eq getOutputUnit_eq)

lemma send_winner_keys:
  assumes "send_winner cfg now outport inport invc outvc r = Inr r'"
  shows "router_keys r' = router_keys r"
  using assms
proof (cases rule: send_winnerE)
  case (1 f iu1 ou1 xb iu2 links)
  note rel = release_vc_keys [OF 1(8)]
  have "ius_keys (r_input_unit r') + iu_keys (r_input_unit r ! nat inport)
      = ius_keys (r_input_unit r) + iu_keys iu2"
    using ius_keys_update [OF 1(1,2), of iu2] 1(9) by (simp add: put_iu_def put_ou_def)
  then have iu: "ius_keys (r_input_unit r') + flit_keys [f] = ius_keys (r_input_unit r)"
    using iu_getTopFlit_keys [OF 1(5)] rel by (simp add: ac_simps)
  have "ou_keys ou1 = ou_keys (r_output_unit r ! nat outport)"
    using 1(6) unfolding ou_decrement_credit_def by (auto elim!: bindR_InrE)
  then have "ous_keys (r_output_unit r') = ous_keys (r_output_unit r)"
    using ous_keys_same [OF 1(3,4)] 1(9) by (simp add: put_iu_def put_ou_def)
  moreover have "xb_keys (r_crossbarSwitch r') = xb_keys (r_crossbarSwitch r) + flit_keys [f]"
    using update_sw_winner_keys [OF 1(7)] 1(9) by (simp add: put_iu_def put_ou_def)
  moreover have "links_keys (r_links r') = links_keys (r_links r)"
    using rel 1(9) by (simp add: put_iu_def put_ou_def)
  ultimately show ?thesis unfolding router_keys_def iu [symmetric] by (simp add: ac_simps)
qed

lemma sa_grantE:
  assumes "sa_grant cfg now outport inport r = Inr r'"
  obtains invc outvc r1 r2 sa where
    "0 \<le> inport" "inport < int (length (sa_vc_winners (r_switchAllocator r)))"
    "invc = sa_vc_winners (r_switchAllocator r) ! nat inport"
    "r1 = r \<or> vc_allocate now outport inport invc r = Inr (outvc, r1)"
    "send_winner cfg now outport inport invc outvc r1 = Inr r2"
    "retire_request outport inport invc (r_switchAllocator r2) = Inr sa"
    "r' = r2\<lparr>r_switchAllocator := sa\<rparr>"
proof -
  from assms obtain invc iu outvc0 outvc r1 r2 sa where
    "nthR (sa_vc_winners (r_switchAllocator r)) inport = Inr invc"
    "(if outvc0 = -1 then vc_allocate now outport inport invc r else Inr (outvc0, r)) = Inr (outvc, r1)"
    "send_winner cfg now outport inport invc outvc r1 = Inr r2"
    "retire_request outport inport invc (r_switchAllocator r2) = Inr sa"
    "r' = r2\<lparr>r_switchAllocator := sa\<rparr>"
    unfolding sa_grant_def by (elim bindR_InrE case_prod_InrE) blast
  then show thesis by (intro that) (auto simp: nthR_eq_Inr split: if_splits)
qed

lemma sa_grant_keys:
  assumes "sa_grant cfg now outport inport r = Inr r'"
  shows "router_keys r' = router_keys r"
  using assms
proof (cases rule: sa_grantE)
  case (1 invc outvc r1 r2 sa)
  have "router_keys r1 = router_keys r" using 1(4) vc_allocate_keys by blast
  with send_winner_keys [OF 1(5)] 1(7) show ?thesis by (simp add: router_keys_def)
qed

lemma outport_loopE:
  assumes "outport_loop cfg now outport k inport r = Inr r'"
  obtains (none) "r' = r"
  | (grant) i where "0 \<le> i" "i < int (length (sa_port_requests (r_switchAllocator r)))"
      "sa_port_requests (r_switchAllocator r) ! nat i = outport"
      "sa_grant cfg now outport i r = Inr r'"
proof -
  have "r' = r \<or> (\<exists>i. 0 \<le> i \<and> i < int (length (sa_port_requests (r_switchAllocator r))) \<and>
      sa_port_requests (r_switchAllocator r) ! nat i = outport \<and> sa_grant cfg now outport i r = Inr r')"
    using assms
  proof (induction k arbitrary: inport)
    case 0
    then show ?case by simp
  next
    case (Suc k)
    then obtain req where req: "nthR (sa_port_requests (r_switchAllocator r)) inport = Inr req"
      by (auto elim: bindR_InrE)
    show ?case
    proof (cases "req = outport")
      case True
      with Suc.prems req show ?thesis by (auto simp: nthR_eq_Inr)
    next
      case False
      with Suc.prems req have "outport_loop cfg now outport k
          (rr_step (sa_num_inports (r_switchAllocator r)) inport) r = Inr r'" by simp
      with Suc.IH show ?thesis by blast
    qed
  qed
  with none grant show thesis by blast
qed

lemma arbitrate_outports_invariant:
  assumes "arbitrate_outports cfg now r = Inr r'" and "P 0 r"
    and "\<And>p s s' i. \<lbrakk>0 \<le> p; P p s; 0 \<le> i; i < int (length (sa_port_requests (r_switchAllocator s)));
        sa_port_requests (r_switchAllocator s) ! nat i = p; sa_grant cfg now p i s = Inr s'\<rbrakk> \<Longrightarrow> P (p + 1) s'"
    and "\<And>p s. P p s \<Longrightarrow> P (p + 1) s"
  shows "P (int (nat (sa_num_outports (r_switchAllocator r)))) r'"
proof (rule foldR_upto_int [where P = P, OF assms(1) [unfolded arbitrate_outports_def] assms(2)])
  fix p s s'
  assume "0 \<le> p" "P p s" and "bindR (nthR (sa_round_robin_inport (r_switchAllocator s)) p)
      (\<lambda>inport. outport_loop cfg now p (nat (sa_num_inports (r_switchAllocator s))) inport s) = Inr s'"
  then obtain inport where "outport_loop cfg now p (nat (sa_num_inports (r_switchAllocator s))) inport s = Inr s'"
    by (auto elim: bindR_InrE)
  then show "P (p + 1) s'"
    by (rule outport_loopE) (use assms(3,4) \<open>0 \<le> p\<close> \<open>P p s\<close> in blast)+
qed

lemma wakeup_loop_frame:
  "wakeup_loop now t ijs r = Inr r' \<Longrightarrow> \<exists>con. r' = r\<lparr>r_consumer := con\<rparr>"
proof (induction ijs)
  case Nil
  then have "r' = r\<lparr>r_consumer := r_consumer r\<rparr>" by simp
  then show ?case by blast
next
  case (Cons ij ijs)
  obtain i j where ij: "ij = (i, j)" by (cases ij)
  with Cons.prems obtain iu need where "getInputUnit i r = Inr iu"
      "iu_need_stage j SA_STAGE t iu = Inr need" by (auto elim!: bindR_InrE)
  with Cons ij show ?case by (cases need) auto
qed

lemma check_for_wakeup_frame:
  assumes "check_for_wakeup now r = Inr r'"
  shows "\<exists>con. r' = r\<lparr>r_consumer := con\<rparr>"
proof (cases "alreadyScheduled (router_clockEdge now 1 (r_consumer r)) (r_consumer r)")
  case True
  with assms have "r' = r\<lparr>r_consumer := r_consumer r\<rparr>" by (simp add: check_for_wakeup_def)
  then show ?thesis by blast
next
  case False
  with assms wakeup_loop_frame show ?thesis by (auto simp: check_for_wakeup_def Let_def)
qed

lemma SwitchAllocator_wakeupE:
  assumes "SwitchAllocator_wakeup cfg now r = Inr r'"
  obtains sa r2 con where "arbitrate_inports cfg now r = Inr (r\<lparr>r_switchAllocator := sa\<rparr>)"
    "arbitrate_outports cfg now (r\<lparr>r_switchAllocator := sa\<rparr>) = Inr r2"
    "check_for_wakeup now (clear_request_vector r2) = Inr r'"
    "r' = (clear_request_vector r2)\<lparr>r_consumer := con\<rparr>"
  using assms unfolding SwitchAllocator_wakeup_def
  by (elim bindR_InrE) (use arbitrate_inports_frame check_for_wakeup_frame in blast)

lemma SwitchAllocator_wakeup_keys:
  assumes "SwitchAllocator_wakeup cfg now r = Inr r'"
  shows "router_keys r' = router_keys r"
  using assms
proof (cases rule: SwitchAllocator_wakeupE)
  case (1 sa r2 con)
  have "router_keys r2 = router_keys r"
    by (rule arbitrate_outports_invariant [OF 1(2), where P = "\<lambda>p s. router_keys s = router_keys r"])
      (auto dest: sa_grant_keys simp: router_keys_def)
  with 1(4) show ?thesis by (simp add: router_keys_def clear_request_vector_def Let_def)
qed

section \<open>Conflict freedom\<close>

abbreviation r_switch_buffers :: "Router \<Rightarrow> flitBuffer list" where
  "r_switch_buffers r \<equiv> xb_switchBuffers (r_crossbarSwitch r)"

text \<open>The flits a switch buffer received since it was \<open>old\<close>.\<close>

definition received :: "flitBuffer \<Rightarrow> flitBuffer \<Rightarrow> flit list" where
  "received old new = drop (length (fb_buffer old)) (fb_buffer new)"

lemma sa_grant_effect:
  assumes "sa_grant cfg now outport i r = Inr r'"
  shows "\<exists>f. i < int (length (r_switch_buffers r)) \<and> fl_outport f = outport \<and>
    is_stage ST_STAGE now f \<and>
    r_switch_buffers r' = (r_switch_buffers r)[nat i := fb_insert f (r_switch_buffers r ! nat i)] \<and>
    sa_port_requests (r_switchAllocator r') = (sa_port_requests (r_switchAllocator r))[nat i := -1]"
  using assms
proof (cases rule: sa_grantE)
  case (1 invc outvc r1 r2 sa)
  have r1: "r_crossbarSwitch r1 = r_crossbarSwitch r" "r_switchAllocator r1 = r_switchAllocator r"
    using 1(4) by (auto elim!: vc_allocateE simp: put_iu_def put_ou_def)
  from 1(5) obtain f xb where xb: "update_sw_winner i
        (advance_stage ST_STAGE now (f\<lparr>fl_outport := outport, fl_vc := outvc\<rparr>)) (r_crossbarSwitch r1) = Inr xb"
      "r_crossbarSwitch r2 = xb" "r_switchAllocator r2 = r_switchAllocator r1"
    by (auto elim!: send_winnerE simp: put_iu_def put_ou_def)
  have "sa_port_requests sa = (sa_port_requests (r_switchAllocator r2))[nat i := -1]"
    using 1(6) unfolding retire_request_def by (auto elim!: bindR_InrE simp: setR_eq_Inr)
  moreover have "i < int (length (r_switch_buffers r))"
      "xb_switchBuffers xb = (r_switch_buffers r)[nat i :=
        fb_insert (advance_stage ST_STAGE now (f\<lparr>fl_outport := outport, fl_vc := outvc\<rparr>)) (r_switch_buffers r ! nat i)]"
    using xb(1) r1(1) unfolding update_sw_winner_def by (auto elim!: bindR_InrE simp: modR_eq_Inr)
  ultimately show ?thesis
    using xb r1 1(7) by (intro exI [of _ "advance_stage ST_STAGE now (f\<lparr>fl_outport := outport, fl_vc := outvc\<rparr>)"])
      (simp add: is_stage_def)
qed

text \<open>
  After the output ports below \<open>p\<close> have been served: every switch buffer got at most one
  flit, for a port below \<open>p\<close> and with the request of its input port withdrawn, and no two
  buffers got one for the same port.
\<close>

definition grants_upto :: "tick \<Rightarrow> flitBuffer list \<Rightarrow> int \<Rightarrow> Router \<Rightarrow> bool" where
  "grants_upto now old p r \<longleftrightarrow> length (r_switch_buffers r) = length old \<and>
    (\<forall>i < length old.
       fb_buffer (r_switch_buffers r ! i) = fb_buffer (old ! i) @ received (old ! i) (r_switch_buffers r ! i) \<and>
       length (received (old ! i) (r_switch_buffers r ! i)) \<le> 1 \<and>
       (\<forall>f \<in> set (received (old ! i) (r_switch_buffers r ! i)).
          fl_outport f < p \<and> is_stage ST_STAGE now f \<and>
          (i < length (sa_port_requests (r_switchAllocator r)) \<longrightarrow>
             sa_port_requests (r_switchAllocator r) ! i = -1))) \<and>
    (\<forall>i j f g. i < length old \<and> j < length old \<and> i \<noteq> j \<and>
       f \<in> set (received (old ! i) (r_switch_buffers r ! i)) \<and>
       g \<in> set (received (old ! j) (r_switch_buffers r ! j)) \<longrightarrow> fl_outport f \<noteq> fl_outport g)"

lemma grants_upto_mono: "grants_upto now old p r \<Longrightarrow> grants_upto now old (p + 1) r"
  unfolding grants_upto_def by fastforce

lemma grants_upto_0: "grants_upto now (r_switch_buffers r) 0 (r\<lparr>r_switchAllocator := sa\<rparr>)"
  by (simp add: grants_upto_def received_def)

lemma grants_upto_step:
  assumes "0 \<le> p" "grants_upto now old p r" "0 \<le> i"
    and "i < int (length (sa_port_requests (r_switchAllocator r)))"
    and "sa_port_requests (r_switchAllocator r) ! nat i = p" "sa_grant cfg now p i r = Inr r'"
  shows "grants_upto now old (p + 1) r'"
proof -
  let ?rec = "\<lambda>r i. received (old ! i) (r_switch_buffers r ! i)"
  obtain f where f: "i < int (length (r_switch_buffers r))" "fl_outport f = p" "is_stage ST_STAGE now f"
      "r_switch_buffers r' = (r_switch_buffers r)[nat i := fb_insert f (r_switch_buffers r ! nat i)]"
      "sa_port_requests (r_switchAllocator r') = (sa_port_requests (r_switchAllocator r))[nat i := -1]"
    using sa_grant_effect [OF assms(6)] by blast
  note g = assms(2) [unfolded grants_upto_def]
  have i: "nat i < length old" using g f(1) assms(3) by auto
  have empty: "?rec r (nat i) = []"
  proof (rule ccontr)
    assume "?rec r (nat i) \<noteq> []"
    then have "hd (?rec r (nat i)) \<in> set (?rec r (nat i))" by simp
    moreover have "nat i < length (sa_port_requests (r_switchAllocator r))" using assms(3,4) by simp
    ultimately have "sa_port_requests (r_switchAllocator r) ! nat i = -1" using g i by blast
    with assms(1,5) show False by simp
  qed
  have "fb_buffer (r_switch_buffers r ! nat i) = fb_buffer (old ! nat i) @ ?rec r (nat i)"
    using g i by blast
  then have "fb_buffer (r_switch_buffers r ! nat i) = fb_buffer (old ! nat i)"
    unfolding empty by simp
  moreover have "nat i < length (r_switch_buffers r)" using f(1) assms(3) by simp
  ultimately have rec_i: "?rec r' (nat i) = [f]"
    using f(4) by (simp add: received_def)
  have rec_j: "?rec r' j = ?rec r j" if "j \<noteq> nat i" for j
    using f(4) that by (simp add: received_def)
  have buf: "fb_buffer (r_switch_buffers r' ! j) = fb_buffer (old ! j) @ ?rec r' j" if "j < length old" for j
    using g that f(4) i empty rec_i rec_j [of j] by (cases "j = nat i") auto
  have all: "length (?rec r' j) \<le> 1 \<and> (\<forall>h \<in> set (?rec r' j). fl_outport h < p + 1 \<and> is_stage ST_STAGE now h \<and>
      (j < length (sa_port_requests (r_switchAllocator r')) \<longrightarrow> sa_port_requests (r_switchAllocator r') ! j = -1))"
    if "j < length old" for j
  proof (cases "j = nat i")
    case True
    then show ?thesis using rec_i f(2,3,5) assms(3,4) by simp
  next
    case False
    then show ?thesis using rec_j [OF False] g that f(5) by fastforce
  qed
  have sep: "fl_outport h \<noteq> fl_outport k" if "a < length old" "b < length old" "a \<noteq> b"
      "h \<in> set (?rec r' a)" "k \<in> set (?rec r' b)" for a b h k
  proof -
    note ab = that
    have less: "fl_outport h' < p" if "j < length old" "h' \<in> set (?rec r j)" for j h'
      using g that by blast
    consider "a = nat i" "b \<noteq> nat i" | "a \<noteq> nat i" "b = nat i" | "a \<noteq> nat i" "b \<noteq> nat i"
      using ab(3) by blast
    then show ?thesis
    proof cases
      case 1
      with ab rec_i rec_j less [of b k] f(2) show ?thesis by simp
    next
      case 2
      with ab rec_i rec_j less [of a h] f(2) show ?thesis by simp
    next
      case 3
      with ab rec_j g show ?thesis by metis
    qed
  qed
  have "length (r_switch_buffers r') = length old" using g f(4) by simp
  with buf all sep show ?thesis unfolding grants_upto_def by blast
qed

text \<open>
  C7: The switch allocator grants no conflicting crossbar connections. When its wakeup
  succeeds, every input port has passed at most one flit to its switch buffer, behind what was
  there and ready for switch traversal; flits of different input ports go to different output
  ports; no flit was lost or duplicated; and no request survives the cycle.
\<close>

theorem switch_allocation_conflict_free:
  assumes "SwitchAllocator_wakeup cfg now r = Inr r'"
  defines "got \<equiv> \<lambda>i. received (r_switch_buffers r ! i) (r_switch_buffers r' ! i)"
  shows "length (r_switch_buffers r') = length (r_switch_buffers r) \<and>
    (\<forall>i < length (r_switch_buffers r).
       fb_buffer (r_switch_buffers r' ! i) = fb_buffer (r_switch_buffers r ! i) @ got i \<and>
       length (got i) \<le> 1 \<and> (\<forall>f \<in> set (got i). is_stage ST_STAGE now f)) \<and>
    (\<forall>i j f g. i < length (r_switch_buffers r) \<and> j < length (r_switch_buffers r) \<and> i \<noteq> j \<and>
       f \<in> set (got i) \<and> g \<in> set (got j) \<longrightarrow> fl_outport f \<noteq> fl_outport g) \<and>
    router_keys r' = router_keys r \<and>
    (\<forall>q \<in> set (sa_port_requests (r_switchAllocator r')). q = -1)"
  using assms(1)
proof (cases rule: SwitchAllocator_wakeupE)
  case (1 sa r2 con)
  let ?p = "int (nat (sa_num_outports (r_switchAllocator (r\<lparr>r_switchAllocator := sa\<rparr>))))"
  have "grants_upto now (r_switch_buffers r) ?p r2"
    by (rule arbitrate_outports_invariant [OF 1(2), where P = "grants_upto now (r_switch_buffers r)"])
      (rule grants_upto_0 grants_upto_step grants_upto_mono; assumption?)+
  moreover have "r_switch_buffers r' = r_switch_buffers r2"
    using 1(4) by (simp add: clear_request_vector_def Let_def)
  moreover have "\<forall>q \<in> set (sa_port_requests (r_switchAllocator r')). q = -1"
    using 1(4) by (simp add: clear_request_vector_def Let_def)
  ultimately show ?thesis
    using SwitchAllocator_wakeup_keys [OF assms(1)] unfolding grants_upto_def got_def by simp
qed

end
