(* ===== verification/Router.thy ===== *)
theory Router
  imports SwitchAllocator
begin

text \<open>
  \<open>Router\<close> (\<open>Router.hh\<close>, \<open>Router.cc\<close>): construction of the ports and the composition of
  the pipeline. The record is in the theory of the switch allocator.
\<close>

section \<open>Construction\<close>

definition Router_new :: "int \<Rightarrow> cycles \<Rightarrow> nat \<Rightarrow> nat \<Rightarrow> int \<Rightarrow> nat \<Rightarrow> NetworkLink list \<Rightarrow> Router" where
  "Router_new router_id latency virt_nets vcs_per_vnet width period links =
    (let rp = \<lparr>rp_id = router_id, rp_latency = latency, rp_virtual_networks = virt_nets,
       rp_vc_per_vnet = vcs_per_vnet, rp_num_vcs = virt_nets * vcs_per_vnet, rp_bit_width = width\<rparr>
     in \<lparr>r_params = rp, r_consumer = consumer_init period, r_routingUnit = RoutingUnit_new,
         r_switchAllocator = SwitchAllocator_new rp, r_crossbarSwitch = CrossbarSwitch_new rp,
         r_input_unit = [], r_output_unit = [],
         r_stats = \<lparr>rst_buffer_reads = 0, rst_buffer_writes = 0, rst_sw_input_arbiter_activity = 0,
           rst_sw_output_arbiter_activity = 0, rst_crossbar_activity = 0\<rparr>,
         r_links = links\<rparr>)"

definition Router_init :: "Router \<Rightarrow> Router" where
  "Router_init r =
    r\<lparr>r_switchAllocator := SwitchAllocator_init (length (r_input_unit r)) (length (r_output_unit r))
         (r_switchAllocator r),
       r_crossbarSwitch := CrossbarSwitch_init (length (r_input_unit r)) (r_crossbarSwitch r)\<rparr>"

text \<open>\<open>in_link\<close>, \<open>out_link\<close> and \<open>credit_link\<close> are entries of the store of links.\<close>

definition addInPort :: "PortDirection \<Rightarrow> int \<Rightarrow> int \<Rightarrow> Router \<Rightarrow> Router res" where
  "addInPort inport_dirn in_link credit_link r =
    bindR (nthR (r_links r) in_link) (\<lambda>il.
    guardR (lk_bitWidth il = rp_bit_width (r_params r)) (Fatal ''Widths of link and Router do not match'')
    (let port_num = length (r_input_unit r); me = nat (rp_id (r_params r));
         vcs = rp_vc_per_vnet (r_params r) in
     bindR (InputUnit_new (int port_num) inport_dirn (r_params r)) (\<lambda>iu.
     bindR (modR (r_links r) in_link
        (\<lambda>l. Inr (setVcsPerVnet vcs (setLinkConsumer (Router_consumer me) l)))) (\<lambda>links1.
     bindR (modR links1 credit_link
        (\<lambda>l. Inr (setVcsPerVnet vcs (setSourceQueue (Router_credit me port_num) l)))) (\<lambda>links2.
       Inr (r\<lparr>r_input_unit := r_input_unit r
                @ [iu\<lparr>iu_in_link := in_link, iu_credit_link := credit_link\<rparr>],
              r_routingUnit := addInDirection inport_dirn (int port_num) (r_routingUnit r),
              r_links := links2\<rparr>))))))"

definition addOutPort ::
    "garnet_config \<Rightarrow> PortDirection \<Rightarrow> int \<Rightarrow> net_dest list \<Rightarrow> int \<Rightarrow> int \<Rightarrow> nat \<Rightarrow> Router \<Rightarrow> Router res" where
  "addOutPort cfg outport_dirn out_link routing_table_entry link_weight credit_link consumerVcs r =
    bindR (nthR (r_links r) out_link) (\<lambda>ol.
    guardR (lk_bitWidth ol = rp_bit_width (r_params r)) (Fatal ''Widths of units do not match.'')
    (let port_num = length (r_output_unit r); me = nat (rp_id (r_params r)) in
     bindR (OutputUnit_new cfg (int port_num) outport_dirn (r_params r) (con_period (r_consumer r)) consumerVcs)
      (\<lambda>ou.
     bindR (modR (r_links r) credit_link
        (\<lambda>l. Inr (setVcsPerVnet consumerVcs (setLinkConsumer (Router_consumer me) l)))) (\<lambda>links1.
     bindR (modR links1 out_link
        (\<lambda>l. Inr (setVcsPerVnet consumerVcs (setSourceQueue (Router_out me port_num) l)))) (\<lambda>links2.
       Inr (r\<lparr>r_output_unit := r_output_unit r
                @ [ou\<lparr>ou_out_link := out_link, ou_credit_link := credit_link\<rparr>],
              r_routingUnit := addOutDirection outport_dirn (int port_num)
                (addWeight link_weight (addRoute routing_table_entry (r_routingUnit r))),
              r_links := links2\<rparr>))))))"

definition getOutportDirection :: "int \<Rightarrow> Router \<Rightarrow> PortDirection res" where
  "getOutportDirection outport r = bindR (nthR (r_output_unit r) outport) (\<lambda>ou. Inr (ou_direction ou))"

definition getInportDirection :: "int \<Rightarrow> Router \<Rightarrow> PortDirection res" where
  "getInportDirection inport r = bindR (nthR (r_input_unit r) inport) (\<lambda>iu. Inr (iu_direction iu))"

definition route_compute ::
    "garnet_config \<Rightarrow> nat \<Rightarrow> RouteInfo \<Rightarrow> int \<Rightarrow> PortDirection \<Rightarrow> Router \<Rightarrow> (int \<times> RoutingUnit) res" where
  "route_compute cfg rnd route inport inport_dirn r =
    outportCompute cfg rnd (rp_id (r_params r)) route inport inport_dirn (r_routingUnit r)"

section \<open>The pipeline\<close>

text \<open>\<open>rnd i\<close> is what \<open>rand()\<close> returns while input port \<open>i\<close> computes a route.\<close>

definition inport_step :: "garnet_config \<Rightarrow> tick \<Rightarrow> (int \<Rightarrow> nat) \<Rightarrow> int \<Rightarrow> Router \<Rightarrow> Router res" where
  "inport_step cfg now rnd inport r =
    bindR (nthR (r_input_unit r) inport) (\<lambda>iu.
    bindR (InputUnit_wakeup cfg (r_params r) now (rnd inport) (iu, r_routingUnit r, r_consumer r, r_links r))
      (\<lambda>(iu', ru, con, links).
        Inr ((put_iu inport iu' r)\<lparr>r_routingUnit := ru, r_consumer := con, r_links := links\<rparr>)))"

definition outport_step :: "tick \<Rightarrow> int \<Rightarrow> Router \<Rightarrow> Router res" where
  "outport_step now outport r =
    bindR (nthR (r_output_unit r) outport) (\<lambda>ou.
    bindR (OutputUnit_wakeup now (ou, r_links r)) (\<lambda>(ou', links).
      Inr ((put_ou outport ou' r)\<lparr>r_links := links\<rparr>)))"

definition crossbar_step :: "tick \<Rightarrow> Router \<Rightarrow> Router res" where
  "crossbar_step now r =
    bindR (CrossbarSwitch_wakeup now (r_consumer r) (r_crossbarSwitch r, r_output_unit r, r_links r))
      (\<lambda>(xb, ous, links). Inr (r\<lparr>r_crossbarSwitch := xb, r_output_unit := ous, r_links := links\<rparr>))"

definition Router_wakeup :: "garnet_config \<Rightarrow> tick \<Rightarrow> (int \<Rightarrow> nat) \<Rightarrow> Router \<Rightarrow> Router res" where
  "Router_wakeup cfg now rnd r =
    guardR (router_clockEdge now 0 (r_consumer r) = now) (Assert_failed ''clockEdge() == curTick()'')
    (bindR (foldR (inport_step cfg now rnd) (upto_int (length (r_input_unit r))) r) (\<lambda>r1.
     bindR (foldR (outport_step now) (upto_int (length (r_output_unit r1))) r1) (\<lambda>r2.
     bindR (SwitchAllocator_wakeup cfg now r2) (\<lambda>r3.
     crossbar_step now r3))))"

section \<open>Statistics and functional access\<close>

definition Router_collateStats :: "Router \<Rightarrow> Router res" where
  "Router_collateStats r =
    bindR (foldR (\<lambda>(j, iu) (rd, wr).
             bindR (nthR (iu_num_buffer_reads iu) j) (\<lambda>a.
             bindR (nthR (iu_num_buffer_writes iu) j) (\<lambda>b. Inr (rd + a, wr + b))))
        (List.product (upto_int (rp_virtual_networks (r_params r))) (r_input_unit r))
        (rst_buffer_reads (r_stats r), rst_buffer_writes (r_stats r)))
      (\<lambda>(rd, wr). Inr (r\<lparr>r_stats := \<lparr>rst_buffer_reads = rd, rst_buffer_writes = wr,
         rst_sw_input_arbiter_activity = sa_input_arbiter_activity (r_switchAllocator r),
         rst_sw_output_arbiter_activity = sa_output_arbiter_activity (r_switchAllocator r),
         rst_crossbar_activity = xb_crossbar_activity (r_crossbarSwitch r)\<rparr>\<rparr>))"

definition Router_resetStats :: "Router \<Rightarrow> Router" where
  "Router_resetStats r =
    r\<lparr>r_input_unit := map iu_resetStats (r_input_unit r),
       r_crossbarSwitch := xb_resetStats (r_crossbarSwitch r),
       r_switchAllocator := sa_resetStats (r_switchAllocator r)\<rparr>"

definition Router_functionalRead :: "'w msg_access \<Rightarrow> Router \<Rightarrow> 'w \<Rightarrow> (bool \<times> 'w) res" where
  "Router_functionalRead acc r w =
    bindR (xb_functionalRead acc (r_crossbarSwitch r) w) (\<lambda>s0.
    bindR (foldR (\<lambda>iu (rd, w). bindR (iu_functionalRead acc iu w) (\<lambda>(ok, w'). Inr (ok \<or> rd, w')))
      (r_input_unit r) s0) (\<lambda>s1.
    foldR (\<lambda>ou (rd, w). bindR (ou_functionalRead acc ou w) (\<lambda>(ok, w'). Inr (ok \<or> rd, w')))
      (r_output_unit r) s1))"

definition Router_functionalWrite :: "'w msg_access \<Rightarrow> Router \<Rightarrow> 'w \<Rightarrow> (nat \<times> 'w) res" where
  "Router_functionalWrite acc r w =
    bindR (xb_functionalWrite acc (r_crossbarSwitch r) w) (\<lambda>s0.
    bindR (foldR (\<lambda>iu (n, w). bindR (iu_functionalWrite acc iu w) (\<lambda>(k, w'). Inr (n + k, w')))
      (r_input_unit r) s0) (\<lambda>s1.
    foldR (\<lambda>ou (n, w). bindR (ou_functionalWrite acc ou w) (\<lambda>(k, w'). Inr (n + k, w')))
      (r_output_unit r) s1))"

section \<open>No flit is lost\<close>

lemma inport_step_keys:
  assumes "inport_step cfg now rnd i r = Inr r'"
  shows "router_keys r' = router_keys r"
proof -
  from assms obtain iu ru con links where i: "0 \<le> i" "i < int (length (r_input_unit r))"
    and w: "InputUnit_wakeup cfg (r_params r) now (rnd i)
      (r_input_unit r ! nat i, r_routingUnit r, r_consumer r, r_links r) = Inr (iu, ru, con, links)"
    and r': "r' = (put_iu i iu r)\<lparr>r_routingUnit := ru, r_consumer := con, r_links := links\<rparr>"
    unfolding inport_step_def by (auto elim!: bindR_InrE simp: nthR_eq_Inr)
  let ?old = "iu_keys (r_input_unit r ! nat i)"
  have "ius_keys (r_input_unit r') + ?old + links_keys links
      = ius_keys (r_input_unit r) + (iu_keys iu + links_keys links)"
    using ius_keys_update [OF i, of iu] r' by (simp add: put_iu_def add.assoc)
  also have "\<dots> = ius_keys (r_input_unit r) + (?old + links_keys (r_links r))"
    using InputUnit_wakeup_keys [OF w] by simp
  finally have "ius_keys (r_input_unit r') + links_keys links
      = ius_keys (r_input_unit r) + links_keys (r_links r)" by (simp add: ac_simps)
  with r' show ?thesis by (simp add: router_keys_def put_iu_def ac_simps)
qed

lemma outport_step_keys:
  assumes "outport_step now i r = Inr r'"
  shows "router_keys r' = router_keys r"
proof -
  from assms obtain ou links where i: "0 \<le> i" "i < int (length (r_output_unit r))"
    and w: "OutputUnit_wakeup now (r_output_unit r ! nat i, r_links r) = Inr (ou, links)"
    and r': "r' = (put_ou i ou r)\<lparr>r_links := links\<rparr>"
    unfolding outport_step_def by (auto elim!: bindR_InrE simp: nthR_eq_Inr)
  with OutputUnit_wakeup_keys [OF w] ous_keys_same [OF i, of ou] show ?thesis
    by (simp add: router_keys_def put_ou_def)
qed

lemma crossbar_step_keys:
  assumes "crossbar_step now r = Inr r'"
  shows "router_keys r' = router_keys r"
proof -
  from assms obtain xb ous links where
    "CrossbarSwitch_wakeup now (r_consumer r) (r_crossbarSwitch r, r_output_unit r, r_links r) = Inr (xb, ous, links)"
    "r' = r\<lparr>r_crossbarSwitch := xb, r_output_unit := ous, r_links := links\<rparr>"
    unfolding crossbar_step_def by (auto elim!: bindR_InrE)
  with CrossbarSwitch_wakeup_keys show ?thesis by (fastforce simp: router_keys_def ac_simps)
qed

lemma Router_wakeupE:
  assumes "Router_wakeup cfg now rnd r = Inr r'"
  obtains r1 r2 r3 where "router_clockEdge now 0 (r_consumer r) = now"
    "foldR (inport_step cfg now rnd) (upto_int (length (r_input_unit r))) r = Inr r1"
    "foldR (outport_step now) (upto_int (length (r_output_unit r1))) r1 = Inr r2"
    "SwitchAllocator_wakeup cfg now r2 = Inr r3" "crossbar_step now r3 = Inr r'"
  using assms unfolding Router_wakeup_def by (elim guardR_InrE bindR_InrE)

lemma Router_wakeup_keys:
  assumes "Router_wakeup cfg now rnd r = Inr r'"
  shows "router_keys r' = router_keys r"
  using assms
proof (cases rule: Router_wakeupE)
  case (1 r1 r2 r3)
  have "router_keys r1 = router_keys r"
    by (rule foldR_invariant [OF 1(2)]) (auto dest: inport_step_keys)
  moreover have "router_keys r2 = router_keys r1"
    by (rule foldR_invariant [OF 1(3)]) (auto dest: outport_step_keys)
  ultimately show ?thesis
    using SwitchAllocator_wakeup_keys [OF 1(4)] crossbar_step_keys [OF 1(5)] by simp
qed

text \<open>
  C6: A wakeup of a router that succeeds neither loses nor duplicates a flit: the flits on the
  links, in the virtual channels of the input ports, in the switch and in the queues of the
  output ports are the same before and after, by packet and place in the packet.
\<close>

theorem router_conserves_flits:
  assumes "Router_wakeup cfg now rnd r = Inr r'"
  shows "router_keys r' = router_keys r"
  using assms by (rule Router_wakeup_keys)

section \<open>An example\<close>

text \<open>
  Router 0 of a mesh of two by two, with a local input port and an output port to the east,
  and a packet of one flit for router 1 on its input link.
\<close>

definition example_packet :: flit where
  "example_packet = flit_new 7 0 1 0 ((RouteInfo_new [])\<lparr>ri_dest_router := 1\<rparr>) 1 None 16 16 10"

definition example_router :: "Router res" where
  "example_router =
    (let l = NetworkLink_new 0 1 2 [] 16 5;
         links = [link_insert example_packet l, l, l, l];
         r0 = Router_new 0 1 2 2 16 5 links
     in bindR (addInPort ''Local'' 0 1 r0) (\<lambda>r1.
        bindR (addOutPort example_config ''East'' 2 [[], []] 1 3 2 r1) (\<lambda>r2. Inr (Router_init r2))))"

definition router_summary :: "Router \<Rightarrow> int list list" where
  "router_summary r = map (map fl_packet_id) (map link_flits (r_links r) @
     map fb_buffer (r_switch_buffers r) @ map (\<lambda>ou. fb_buffer (ou_outBuffer ou)) (r_output_unit r)) @
     [sa_port_requests (r_switchAllocator r)]"

lemma example_router_run:
  "\<exists>r r'. example_router = Inr r \<and> Router_wakeup example_config 10 (\<lambda>_. 0) r = Inr r' \<and>
    router_summary r = [[7], [], [], [], [], [], [-1]] \<and>
    router_summary r' = [[], [], [], [], [], [7], [-1]]"
proof -
  have "case example_router of Inl e \<Rightarrow> False | Inr r \<Rightarrow>
      (case Router_wakeup example_config 10 (\<lambda>_. 0) r of Inl e \<Rightarrow> False
       | Inr r' \<Rightarrow> router_summary r = [[7], [], [], [], [], [], [-1]] \<and>
           router_summary r' = [[], [], [], [], [], [7], [-1]])"
    by code_simp
  then show ?thesis by (auto split: sum.splits)
qed

lemma router_conserves_flits_witness:
  "\<exists>r r'. example_router = Inr r \<and> Router_wakeup example_config 10 (\<lambda>_. 0) r = Inr r' \<and>
    router_summary r' \<noteq> router_summary r \<and> router_keys r' = router_keys r"
proof -
  obtain r r' where "example_router = Inr r" "Router_wakeup example_config 10 (\<lambda>_. 0) r = Inr r'"
      "router_summary r' \<noteq> router_summary r"
    using example_router_run by force
  with router_conserves_flits show ?thesis by blast
qed

definition example_router_full :: "Router res" where
  "example_router_full = bindR example_router (inport_step example_config 10 (\<lambda>_. 0) 0)"

definition switch_lengths :: "Router \<Rightarrow> nat list" where
  "switch_lengths r = map (\<lambda>b. length (fb_buffer b)) (r_switch_buffers r)"

lemma switch_allocation_conflict_free_witness:
  "\<exists>r r'. example_router_full = Inr r \<and> SwitchAllocator_wakeup example_config 10 r = Inr r' \<and>
    switch_lengths r = [0] \<and> switch_lengths r' = [1] \<and> router_keys r' = router_keys r"
proof -
  have "case example_router_full of Inl e \<Rightarrow> False | Inr r \<Rightarrow>
      (case SwitchAllocator_wakeup example_config 10 r of Inl e \<Rightarrow> False
       | Inr r' \<Rightarrow> switch_lengths r = [0] \<and> switch_lengths r' = [1])"
    by code_simp
  then obtain r r' where r: "example_router_full = Inr r" "SwitchAllocator_wakeup example_config 10 r = Inr r'"
      "switch_lengths r = [0]" "switch_lengths r' = [1]"
    by (auto split: sum.splits)
  with switch_allocation_conflict_free [OF r(2)] show ?thesis by blast
qed

end
