(* ===== verification/MessageBuffer.thy ===== *)
theory MessageBuffer
  imports NetworkLink "HOL-Library.Product_Lexorder"
begin

text \<open>
  \<open>MessageBuffer\<close> (\<open>MessageBuffer.hh\<close>, \<open>MessageBuffer.cc\<close>) and the part of \<open>Message\<close>
  (\<open>Message.hh\<close>) it uses: the queues between the protocol controllers and the network.
  The vector \<open>m_prio_heap\<close> is kept as a heap by \<open>std::push_heap\<close> and \<open>std::pop_heap\<close>,
  which promise that the front is a least element and nothing about the order of the rest; the
  model keeps the elements sorted. A message is shared by reference in the code; a buffer here
  holds its own copy, as a message is in one buffer at a time.
\<close>

section \<open>Messages\<close>

text \<open>The enumeration of \<open>RubySlicc_Exports.sm\<close>.\<close>

datatype MessageSizeType =
    MessageSizeType_Control
  | MessageSizeType_Data
  | MessageSizeType_Request_Control
  | MessageSizeType_Reissue_Control
  | MessageSizeType_Response_Data
  | MessageSizeType_ResponseL2hit_Data
  | MessageSizeType_ResponseLocal_Data
  | MessageSizeType_Response_Control
  | MessageSizeType_Writeback_Data
  | MessageSizeType_Writeback_Control
  | MessageSizeType_Broadcast_Control
  | MessageSizeType_Multicast_Control
  | MessageSizeType_Forwarded_Control
  | MessageSizeType_Invalidate_Control
  | MessageSizeType_Unblock_Control
  | MessageSizeType_Persistent_Control
  | MessageSizeType_Completion_Control

record Message =
  msg_id :: nat
  msg_time :: tick
  msg_LastEnqueueTime :: tick
  msg_DelayedTicks :: tick
  msg_msg_counter :: nat
  msg_destination :: net_dest
  msg_size_type :: MessageSizeType
  msg_incoming_link :: int
  msg_vnet :: int

definition updateDelayedTicks :: "tick \<Rightarrow> Message \<Rightarrow> Message res" where
  "updateDelayedTicks curTime m =
    guardR (msg_LastEnqueueTime m \<le> curTime) (Assert_failed ''m_LastEnqueueTime <= curTime'')
    (Inr (m\<lparr>msg_DelayedTicks := msg_DelayedTicks m + (curTime - msg_LastEnqueueTime m)\<rparr>))"

text \<open>\<open>operator>\<close> compares the time and then the counter.\<close>

definition msg_key :: "Message \<Rightarrow> tick \<times> nat" where
  "msg_key m = (msg_LastEnqueueTime m, msg_msg_counter m)"

definition msg_greater :: "Message \<Rightarrow> Message \<Rightarrow> bool" where
  "msg_greater l r =
    (if msg_LastEnqueueTime l = msg_LastEnqueueTime r then msg_msg_counter l > msg_msg_counter r
     else msg_LastEnqueueTime l > msg_LastEnqueueTime r)"

section \<open>The buffer\<close>

datatype MessageRandomization = Rand_disabled | Rand_enabled | Rand_ruby_system

text \<open>The flags of \<open>RubySystem\<close> that are read here.\<close>

record ruby_flags =
  rs_randomization :: bool
  rs_warmup_enabled :: bool

datatype wake_request = Wake_at consumer_ref tick | Wake_in consumer_ref cycles

record MessageBuffer =
  mb_consumer :: "consumer_ref option"
  mb_prio_heap :: "Message list"
  mb_stall_msg_map :: "(nat \<times> Message list) list"
  mb_deferred_msg_map :: "(nat \<times> Message list) list"
  mb_stall_map_size :: int
  mb_max_size :: nat
  mb_max_dequeue_rate :: nat
  mb_dequeues_this_cy :: nat
  mb_time_last_time_size_checked :: tick
  mb_size_last_time_size_checked :: nat
  mb_time_last_time_enqueue :: tick
  mb_time_last_time_pop :: tick
  mb_last_arrival_time :: tick
  mb_size_at_cycle_start :: nat
  mb_stalled_at_cycle_start :: nat
  mb_msgs_this_cycle :: nat
  mb_msg_counter :: nat
  mb_last_message_strict_fifo_bypassed :: bool
  mb_strict_fifo :: bool
  mb_randomization :: MessageRandomization
  mb_allow_zero_latency :: bool
  mb_vnet_id :: int
  mb_input_link_id :: int
  mb_not_avail_count :: nat
  mb_msg_count :: nat
  mb_buf_msgs :: int
  mb_stall_time :: tick
  mb_stall_count :: nat
  mb_dequeue_callback :: "consumer_ref option"

definition MessageBuffer_new ::
    "nat \<Rightarrow> nat \<Rightarrow> bool \<Rightarrow> MessageRandomization \<Rightarrow> bool \<Rightarrow> MessageBuffer" where
  "MessageBuffer_new buffer_size max_dequeue_rate ordered randomization allow_zero_latency =
    \<lparr>mb_consumer = None, mb_prio_heap = [], mb_stall_msg_map = [], mb_deferred_msg_map = [],
     mb_stall_map_size = 0, mb_max_size = buffer_size, mb_max_dequeue_rate = max_dequeue_rate,
     mb_dequeues_this_cy = 0, mb_time_last_time_size_checked = 0, mb_size_last_time_size_checked = 0,
     mb_time_last_time_enqueue = 0, mb_time_last_time_pop = 0, mb_last_arrival_time = 0,
     mb_size_at_cycle_start = 0, mb_stalled_at_cycle_start = 0, mb_msgs_this_cycle = 0,
     mb_msg_counter = 0, mb_last_message_strict_fifo_bypassed = False, mb_strict_fifo = ordered,
     mb_randomization = randomization, mb_allow_zero_latency = allow_zero_latency,
     mb_vnet_id = 0, mb_input_link_id = 0, mb_not_avail_count = 0, mb_msg_count = 0,
     mb_buf_msgs = 0, mb_stall_time = 0, mb_stall_count = 0,
     mb_dequeue_callback = None\<rparr>"

definition mb_setConsumer :: "consumer_ref \<Rightarrow> MessageBuffer \<Rightarrow> MessageBuffer res" where
  "mb_setConsumer c mb =
    guardR (mb_consumer mb = None) (Fatal ''Trying to connect MessageBuffer twice'')
    (Inr (mb\<lparr>mb_consumer := Some c\<rparr>))"

text \<open>\<open>push_back\<close> and \<open>push_heap\<close>; \<open>front\<close>; \<open>pop_heap\<close> and \<open>pop_back\<close>.\<close>

definition heap_push :: "Message \<Rightarrow> Message list \<Rightarrow> Message list" where
  "heap_push m h = insort_key msg_key m h"

definition heap_front :: "Message list \<Rightarrow> Message res" where
  "heap_front h = (case h of [] \<Rightarrow> Inl Out_of_range | m # _ \<Rightarrow> Inr m)"

definition heap_pop :: "Message list \<Rightarrow> (Message \<times> Message list) res" where
  "heap_pop h = (case h of [] \<Rightarrow> Inl Out_of_range | m # ms \<Rightarrow> Inr (m, ms))"

definition mb_getSize :: "tick \<Rightarrow> MessageBuffer \<Rightarrow> nat \<times> MessageBuffer" where
  "mb_getSize curTime mb =
    (let mb' = (if mb_time_last_time_size_checked mb \<noteq> curTime
                then mb\<lparr>mb_time_last_time_size_checked := curTime,
                        mb_size_last_time_size_checked := length (mb_prio_heap mb)\<rparr>
                else mb)
     in (mb_size_last_time_size_checked mb', mb'))"

definition mb_visible_size :: "tick \<Rightarrow> MessageBuffer \<Rightarrow> int" where
  "mb_visible_size current_time mb =
    (if mb_time_last_time_pop mb < current_time
     then int (length (mb_prio_heap mb)) + mb_stall_map_size mb
     else (if mb_time_last_time_enqueue mb < current_time then int (mb_size_at_cycle_start mb)
           else int (mb_size_at_cycle_start mb + mb_msgs_this_cycle mb))
          + int (mb_stalled_at_cycle_start mb))"

definition areNSlotsAvailable :: "nat \<Rightarrow> tick \<Rightarrow> MessageBuffer \<Rightarrow> bool \<times> MessageBuffer" where
  "areNSlotsAvailable n current_time mb =
    (if mb_max_size mb = 0 then (True, mb)
     else if mb_visible_size current_time mb + int n \<le> int (mb_max_size mb) then (True, mb)
     else (False, mb\<lparr>mb_not_avail_count := mb_not_avail_count mb + 1\<rparr>))"

definition mb_peek :: "MessageBuffer \<Rightarrow> Message res" where
  "mb_peek mb = heap_front (mb_prio_heap mb)"

text \<open>\<open>r1\<close>, \<open>r2\<close> and \<open>r3\<close> are the draws from \<open>[0,3]\<close>, \<open>[0,7]\<close> and \<open>[1,15]\<close>.\<close>

definition random_time :: "nat \<Rightarrow> nat \<Rightarrow> nat \<Rightarrow> tick" where
  "random_time r1 r2 r3 = 1 + r1 + (if r2 = 0 then 100 + r3 else 0)"

text \<open>
  The first cycle the message can be dequeued; randomization of a strict FIFO moves the last
  arrival time up to the present. \<open>rt\<close> is the value of \<open>random_time()\<close>.
\<close>

definition enqueue_arrival ::
    "ruby_flags \<Rightarrow> tick \<Rightarrow> tick \<Rightarrow> tick \<Rightarrow> MessageBuffer \<Rightarrow> tick \<times> MessageBuffer" where
  "enqueue_arrival rs current_time delta rt mb =
    (if mb_randomization mb = Rand_disabled \<or> (mb_randomization mb = Rand_ruby_system \<and> \<not> rs_randomization rs)
     then (current_time + delta, mb)
     else if mb_strict_fifo mb then
       let last = max (mb_last_arrival_time mb) current_time
       in (last + rt, mb\<lparr>mb_last_arrival_time := last\<rparr>)
     else (current_time + rt, mb))"

text \<open>The counters of the present cycle.\<close>

definition enqueue_count :: "tick \<Rightarrow> MessageBuffer \<Rightarrow> MessageBuffer" where
  "enqueue_count current_time mb =
    (let mb0 = (if mb_time_last_time_enqueue mb < current_time
                then mb\<lparr>mb_msgs_this_cycle := 0, mb_time_last_time_enqueue := current_time\<rparr> else mb)
     in mb0\<lparr>mb_msg_counter := mb_msg_counter mb0 + 1, mb_msgs_this_cycle := mb_msgs_this_cycle mb0 + 1\<rparr>)"

text \<open>The message gets its times and its number and enters the heap; the consumer is woken.\<close>

definition enqueue_insert ::
    "tick \<Rightarrow> tick \<Rightarrow> Message option \<Rightarrow> MessageBuffer \<Rightarrow> (MessageBuffer \<times> wake_request list) res" where
  "enqueue_insert current_time arrival_time message mb =
    (case message of
       None \<Rightarrow> Inl (Assert_failed ''msg_ptr != NULL'')
     | Some m \<Rightarrow>
         guardR (current_time \<ge> msg_LastEnqueueTime m) (Assert_failed ''ensure we aren't dequeued early'')
         (bindR (updateDelayedTicks current_time m) (\<lambda>m1.
          let m2 = m1\<lparr>msg_LastEnqueueTime := arrival_time, msg_msg_counter := mb_msg_counter mb\<rparr>;
              mb' = mb\<lparr>mb_prio_heap := heap_push m2 (mb_prio_heap mb), mb_buf_msgs := mb_buf_msgs mb + 1\<rparr>
          in guardR (mb_max_size mb' = 0 \<or>
                 int (length (mb_prio_heap mb')) + mb_stall_map_size mb' \<le> int (mb_max_size mb'))
               (Assert_failed ''heap and stall map within max size'')
             (case mb_consumer mb' of
                None \<Rightarrow> Inl (Assert_failed ''m_consumer != NULL'')
              | Some c \<Rightarrow> Inr (mb', [Wake_at c arrival_time])))))"

definition mb_enqueue ::
    "ruby_flags \<Rightarrow> tick \<Rightarrow> tick \<Rightarrow> tick \<Rightarrow> bool \<Rightarrow> Message option \<Rightarrow> MessageBuffer
     \<Rightarrow> (MessageBuffer \<times> wake_request list) res" where
  "mb_enqueue rs current_time delta rt bypassStrictFIFO message mb =
    guardR (\<not> (delta = 0 \<and> \<not> mb_allow_zero_latency mb)) (Panic ''Delta equals zero'')
    (case enqueue_arrival rs current_time delta rt (enqueue_count current_time mb) of
       (arrival_time, mb2) \<Rightarrow>
         guardR (arrival_time \<ge> current_time) (Assert_failed ''arrival_time >= current_time'')
         (guardR (\<not> (mb_strict_fifo mb \<and> \<not> (bypassStrictFIFO \<or> mb_last_message_strict_fifo_bypassed mb)
                    \<and> arrival_time < mb_last_arrival_time mb2)) (Panic ''FIFO ordering violated'')
         (enqueue_insert current_time arrival_time message
           (mb2\<lparr>mb_last_arrival_time :=
                   (if \<not> rs_warmup_enabled rs then arrival_time else mb_last_arrival_time mb2),
                 mb_last_message_strict_fifo_bypassed := bypassStrictFIFO\<rparr>))))"

text \<open>\<open>isReady\<close> asks for a wakeup when only the dequeue rate keeps the head from leaving.\<close>

definition mb_isReady :: "tick \<Rightarrow> MessageBuffer \<Rightarrow> (bool \<times> wake_request list) res" where
  "mb_isReady current_time mb =
    guardR (mb_time_last_time_pop mb \<le> current_time) (Assert_failed ''m_time_last_time_pop <= current_time'')
    (let can_dequeue = (mb_max_dequeue_rate mb = 0 \<or> mb_time_last_time_pop mb < current_time \<or>
                        mb_dequeues_this_cy mb < mb_max_dequeue_rate mb);
         is_ready = (case mb_prio_heap mb of [] \<Rightarrow> False | m # _ \<Rightarrow> msg_LastEnqueueTime m \<le> current_time)
     in if \<not> can_dequeue \<and> is_ready then
          (case mb_consumer mb of
             None \<Rightarrow> Inl (Null_pointer ''m_consumer'')
           | Some c \<Rightarrow> Inr (False, [Wake_in c 1]))
        else Inr (can_dequeue \<and> is_ready, []))"

text \<open>The result holds the delay and the callback that is called, the message and the buffer.\<close>

definition mb_dequeue ::
    "tick \<Rightarrow> tick \<Rightarrow> bool \<Rightarrow> MessageBuffer \<Rightarrow> ((tick \<times> consumer_ref option) \<times> Message \<times> MessageBuffer) res" where
  "mb_dequeue now current_time decrement_messages mb =
    bindR (mb_isReady current_time mb) (\<lambda>(ready, reqs).
    guardR ready (Assert_failed ''isReady(current_time)'')
    (bindR (heap_pop (mb_prio_heap mb)) (\<lambda>(message, rest).
     bindR (updateDelayedTicks current_time message) (\<lambda>message'.
     let mb1 = (if mb_time_last_time_pop mb < current_time
                then mb\<lparr>mb_size_at_cycle_start := length (mb_prio_heap mb),
                        mb_stalled_at_cycle_start := nat (mb_stall_map_size mb),
                        mb_time_last_time_pop := current_time, mb_dequeues_this_cy := 0\<rparr>
                else mb);
         mb2 = mb1\<lparr>mb_dequeues_this_cy := mb_dequeues_this_cy mb1 + 1, mb_prio_heap := rest\<rparr>;
         mb3 = (if decrement_messages
                then mb2\<lparr>mb_stall_time := mb_stall_time mb2 + tick_sub now (msg_LastEnqueueTime message'),
                         mb_msg_count := mb_msg_count mb2 + 1, mb_buf_msgs := mb_buf_msgs mb2 - 1\<rparr>
                else mb2)
     in Inr ((msg_DelayedTicks message', mb_dequeue_callback mb3), message', mb3)))))"

text \<open>The only callbacks registered are those of the network interfaces, named by consumer.\<close>

definition registerDequeueCallback :: "consumer_ref \<Rightarrow> MessageBuffer \<Rightarrow> MessageBuffer" where
  "registerDequeueCallback callback mb = mb\<lparr>mb_dequeue_callback := Some callback\<rparr>"

definition unregisterDequeueCallback :: "MessageBuffer \<Rightarrow> MessageBuffer" where
  "unregisterDequeueCallback mb = mb\<lparr>mb_dequeue_callback := None\<rparr>"

definition mb_clear :: "MessageBuffer \<Rightarrow> MessageBuffer" where
  "mb_clear mb = mb\<lparr>mb_prio_heap := [], mb_msg_counter := 0, mb_time_last_time_enqueue := 0,
     mb_time_last_time_pop := 0, mb_size_at_cycle_start := 0, mb_stalled_at_cycle_start := 0,
     mb_msgs_this_cycle := 0\<rparr>"

definition mb_recycle ::
    "tick \<Rightarrow> tick \<Rightarrow> MessageBuffer \<Rightarrow> (MessageBuffer \<times> wake_request list) res" where
  "mb_recycle current_time recycle_latency mb =
    bindR (mb_isReady current_time mb) (\<lambda>(ready, reqs).
    guardR ready (Assert_failed ''isReady(current_time)'')
    (bindR (heap_pop (mb_prio_heap mb)) (\<lambda>(node, rest).
     let future_time = current_time + recycle_latency
     in case mb_consumer mb of
          None \<Rightarrow> Inl (Null_pointer ''m_consumer'')
        | Some c \<Rightarrow> Inr (mb\<lparr>mb_prio_heap := heap_push (node\<lparr>msg_LastEnqueueTime := future_time\<rparr>) rest\<rparr>,
            [Wake_at c future_time]))))"

definition mb_delayHead ::
    "ruby_flags \<Rightarrow> tick \<Rightarrow> tick \<Rightarrow> tick \<Rightarrow> MessageBuffer \<Rightarrow> (MessageBuffer \<times> wake_request list) res" where
  "mb_delayHead rs current_time delta rt mb =
    bindR (heap_pop (mb_prio_heap mb)) (\<lambda>(m, rest).
      mb_enqueue rs current_time delta rt False (Some m) (mb\<lparr>mb_prio_heap := rest\<rparr>))"

section \<open>Stalled and deferred messages\<close>

text \<open>\<open>m[addr].push_back(x)\<close> on a \<open>std::map\<close>, whose iteration order is ascending.\<close>

fun amap_push :: "'k :: linorder \<Rightarrow> 'a \<Rightarrow> ('k \<times> 'a list) list \<Rightarrow> ('k \<times> 'a list) list" where
  "amap_push k x [] = [(k, [x])]"
| "amap_push k x ((k', xs) # r) =
    (if k = k' then (k', xs @ [x]) # r
     else if k < k' then (k, [x]) # (k', xs) # r
     else (k', xs) # amap_push k x r)"

definition amap_erase :: "'k \<Rightarrow> ('k \<times> 'a list) list \<Rightarrow> ('k \<times> 'a list) list" where
  "amap_erase k m = filter (\<lambda>e. fst e \<noteq> k) m"

definition reanalyzeList ::
    "Message list \<Rightarrow> tick \<Rightarrow> MessageBuffer \<Rightarrow> (MessageBuffer \<times> wake_request list) res" where
  "reanalyzeList lt schdTick mb =
    foldR (\<lambda>m (mb, reqs).
        guardR (msg_LastEnqueueTime m \<le> schdTick) (Assert_failed ''m->getLastEnqueueTime() <= schdTick'')
        (case mb_consumer mb of
           None \<Rightarrow> Inl (Null_pointer ''m_consumer'')
         | Some c \<Rightarrow> Inr (mb\<lparr>mb_prio_heap := heap_push m (mb_prio_heap mb)\<rparr>, reqs @ [Wake_at c schdTick])))
      lt (mb, [])"

definition reanalyzeMessages ::
    "nat \<Rightarrow> tick \<Rightarrow> MessageBuffer \<Rightarrow> (MessageBuffer \<times> wake_request list) res" where
  "reanalyzeMessages addr current_time mb =
    (case map_of (mb_stall_msg_map mb) addr of
       None \<Rightarrow> Inl (Assert_failed ''m_stall_msg_map.count(addr) > 0'')
     | Some lt \<Rightarrow>
         let mb1 = mb\<lparr>mb_stall_map_size := mb_stall_map_size mb - int (length lt)\<rparr> in
         guardR (mb_stall_map_size mb1 \<ge> 0) (Assert_failed ''m_stall_map_size >= 0'')
         (bindR (reanalyzeList lt current_time mb1) (\<lambda>(mb2, reqs).
            Inr (mb2\<lparr>mb_stall_msg_map := amap_erase addr (mb_stall_msg_map mb2)\<rparr>, reqs))))"

definition reanalyzeAllMessages ::
    "tick \<Rightarrow> MessageBuffer \<Rightarrow> (MessageBuffer \<times> wake_request list) res" where
  "reanalyzeAllMessages current_time mb =
    bindR (foldR (\<lambda>(addr, lt) (mb, reqs).
             let mb1 = mb\<lparr>mb_stall_map_size := mb_stall_map_size mb - int (length lt)\<rparr> in
             guardR (mb_stall_map_size mb1 \<ge> 0) (Assert_failed ''m_stall_map_size >= 0'')
             (bindR (reanalyzeList lt current_time mb1) (\<lambda>(mb2, rs). Inr (mb2, reqs @ rs))))
        (mb_stall_msg_map mb) (mb, []))
      (\<lambda>(mb', reqs). Inr (mb'\<lparr>mb_stall_msg_map := []\<rparr>, reqs))"

text \<open>\<open>offset\<close> is \<open>getOffset(addr)\<close>, the place of the address in its cache line.\<close>

definition stallMessage ::
    "tick \<Rightarrow> nat \<Rightarrow> nat \<Rightarrow> tick \<Rightarrow> MessageBuffer \<Rightarrow> (consumer_ref option \<times> MessageBuffer) res" where
  "stallMessage now offset addr current_time mb =
    bindR (mb_isReady current_time mb) (\<lambda>(ready, reqs).
    guardR ready (Assert_failed ''isReady(current_time)'')
    (guardR (offset = 0) (Assert_failed ''getOffset(addr) == 0'')
    (bindR (mb_dequeue now current_time False mb) (\<lambda>((delay, callback), message, mb1).
      Inr (callback, mb1\<lparr>mb_stall_msg_map := amap_push addr message (mb_stall_msg_map mb1),
               mb_stall_map_size := mb_stall_map_size mb1 + 1,
               mb_stall_count := mb_stall_count mb1 + 1\<rparr>)))))"

definition hasStalledMsg :: "nat \<Rightarrow> MessageBuffer \<Rightarrow> bool" where
  "hasStalledMsg addr mb \<longleftrightarrow> map_of (mb_stall_msg_map mb) addr \<noteq> None"

definition deferEnqueueingMessage :: "nat \<Rightarrow> Message \<Rightarrow> MessageBuffer \<Rightarrow> MessageBuffer" where
  "deferEnqueueingMessage addr message mb =
    mb\<lparr>mb_deferred_msg_map := amap_push addr message (mb_deferred_msg_map mb)\<rparr>"

definition isDeferredMsgMapEmpty :: "nat \<Rightarrow> MessageBuffer \<Rightarrow> bool" where
  "isDeferredMsgMapEmpty addr mb \<longleftrightarrow> map_of (mb_deferred_msg_map mb) addr = None"

text \<open>\<open>rts\<close> are the values of \<open>random_time()\<close>, one per message.\<close>

definition enqueueDeferredMessages ::
    "ruby_flags \<Rightarrow> nat \<Rightarrow> tick \<Rightarrow> tick \<Rightarrow> (Message \<Rightarrow> tick) \<Rightarrow> MessageBuffer
     \<Rightarrow> (MessageBuffer \<times> wake_request list) res" where
  "enqueueDeferredMessages rs addr curTime delay rts mb =
    (case map_of (mb_deferred_msg_map mb) addr of
       None \<Rightarrow> Inl (Assert_failed ''!isDeferredMsgMapEmpty(addr)'')
     | Some msg_vec \<Rightarrow>
         guardR (length msg_vec > 0) (Assert_failed ''msg_vec.size() > 0'')
         (bindR (foldR (\<lambda>m (mb, reqs). bindR (mb_enqueue rs curTime delay (rts m) False (Some m) mb)
                    (\<lambda>(mb', r). Inr (mb', reqs @ r))) msg_vec (mb, []))
            (\<lambda>(mb', reqs). Inr (mb'\<lparr>mb_deferred_msg_map := amap_erase addr (mb_deferred_msg_map mb')\<rparr>, reqs))))"

definition MaxTick :: tick where
  "MaxTick = 2 ^ 64 - 1"

definition mb_readyTime :: "MessageBuffer \<Rightarrow> tick" where
  "mb_readyTime mb = (case mb_prio_heap mb of [] \<Rightarrow> MaxTick | m # _ \<Rightarrow> msg_LastEnqueueTime m)"

section \<open>Functional access\<close>

datatype access_mode = Read_plain | Read_masked | Write_access

text \<open>\<open>acc\<close> is the virtual method of the message for the mode.\<close>

fun access_loop :: "(Message \<Rightarrow> 'w \<Rightarrow> bool \<times> 'w) \<Rightarrow> access_mode \<Rightarrow> Message list \<Rightarrow> nat \<Rightarrow> 'w \<Rightarrow> nat \<times> 'w" where
  "access_loop acc mode [] n w = (n, w)"
| "access_loop acc mode (m # ms) n w =
    (case acc m w of (hit, w') \<Rightarrow>
       if mode = Read_plain \<and> hit then (1, w')
       else access_loop acc mode ms (if hit then n + 1 else n) w')"

definition mb_functionalAccess ::
    "(Message \<Rightarrow> 'w \<Rightarrow> bool \<times> 'w) \<Rightarrow> access_mode \<Rightarrow> MessageBuffer \<Rightarrow> 'w \<Rightarrow> nat \<times> 'w" where
  "mb_functionalAccess acc mode mb w =
    access_loop acc mode (mb_prio_heap mb @ concat (map snd (mb_stall_msg_map mb))) 0 w"

section \<open>The heap is a priority queue\<close>

locale prio_queue =
  fixes push :: "'a \<Rightarrow> 'q \<Rightarrow> 'q"
    and pop :: "'q \<Rightarrow> ('a \<times> 'q) res"
    and elems :: "'q \<Rightarrow> 'a multiset"
    and key :: "'a \<Rightarrow> 'k :: linorder"
    and invar :: "'q \<Rightarrow> bool"
  assumes push_invar: "invar q \<Longrightarrow> invar (push x q)"
    and push_elems: "invar q \<Longrightarrow> elems (push x q) = add_mset x (elems q)"
    and pop_invar: "invar q \<Longrightarrow> pop q = Inr (x, q') \<Longrightarrow> invar q'"
    and pop_elems: "invar q \<Longrightarrow> pop q = Inr (x, q') \<Longrightarrow> elems q = add_mset x (elems q')"
    and pop_least: "invar q \<Longrightarrow> pop q = Inr (x, q') \<Longrightarrow> y \<in># elems q' \<Longrightarrow> key x \<le> key y"
    and pop_some: "invar q \<Longrightarrow> elems q \<noteq> {#} \<Longrightarrow> \<exists>x q'. pop q = Inr (x, q')"
begin

text \<open>Replacing the least element keeps the number of elements.\<close>

lemma repush:
  assumes "invar q" and "pop q = Inr (x, q')"
  shows "invar (push y q')" and "size (elems (push y q')) = size (elems q)"
  using pop_invar [OF assms] pop_elems [OF assms] push_invar push_elems by auto

lemma push_all:
  assumes "invar q"
  shows "invar (fold push xs q)" and "elems (fold push xs q) = mset xs + elems q"
proof -
  have "invar (fold push xs q) \<and> elems (fold push xs q) = mset xs + elems q"
    using assms by (induction xs arbitrary: q) (auto simp: push_invar push_elems)
  then show "invar (fold push xs q)" "elems (fold push xs q) = mset xs + elems q" by simp_all
qed

text \<open>An element that is below everything else leaves next.\<close>

lemma pop_pushed:
  assumes "invar q" and "\<forall>y \<in># elems q. key x < key y" and "pop (push x q) = Inr (z, q')"
  shows "z = x"
proof (rule ccontr)
  assume ne: "z \<noteq> x"
  have e: "add_mset x (elems q) = add_mset z (elems q')"
    using pop_elems [OF push_invar [OF assms(1)] assms(3)] push_elems [OF assms(1)] by simp
  then have "x \<in># elems q'" "z \<in># elems q"
    using ne by (metis insert_noteq_member union_single_eq_member)+
  with pop_least [OF push_invar [OF assms(1)] assms(3)] assms(2) show False by fastforce
qed

end

interpretation heap: prio_queue heap_push heap_pop mset msg_key "\<lambda>h. sorted (map msg_key h)"
proof (unfold_locales, goal_cases)
  case (1 q x)
  then show ?case by (simp add: heap_push_def sorted_insort_key)
next
  case (2 q x)
  then show ?case by (simp add: heap_push_def)
next
  case (3 q x q')
  then show ?case by (auto simp: heap_pop_def split: list.splits)
next
  case (4 q x q')
  then show ?case by (auto simp: heap_pop_def split: list.splits)
next
  case (5 q x q' y)
  then show ?case by (auto simp: heap_pop_def split: list.splits)
next
  case (6 q)
  then show ?case by (auto simp: heap_pop_def split: list.splits)
qed

lemma msg_greater_key: "msg_greater l r \<longleftrightarrow> msg_key r < msg_key l"
  by (auto simp: msg_greater_def msg_key_def less_prod_def)

lemma length_heap_push [simp]: "length (heap_push m h) = Suc (length h)"
  by (simp add: heap_push_def)

lemma heap_pop_eq: "heap_pop h = Inr (m, h') \<longleftrightarrow> h = m # h'"
  by (auto simp: heap_pop_def split: list.splits)

section \<open>Invariant\<close>

definition stalled_msgs :: "MessageBuffer \<Rightarrow> Message list" where
  "stalled_msgs mb = concat (map snd (mb_stall_msg_map mb))"

definition mb_total :: "MessageBuffer \<Rightarrow> int" where
  "mb_total mb = int (length (mb_prio_heap mb)) + mb_stall_map_size mb"

text \<open>
  The heap is in order, the count of stalled messages is right, the buffer is within its
  size, and what it shows while messages leave in a cycle is no less than what it holds.
\<close>

definition mb_ok :: "tick \<Rightarrow> MessageBuffer \<Rightarrow> bool" where
  "mb_ok now mb \<longleftrightarrow>
    sorted (map msg_key (mb_prio_heap mb)) \<and>
    sorted_wrt (<) (map fst (mb_stall_msg_map mb)) \<and>
    mb_stall_map_size mb = int (length (stalled_msgs mb)) \<and>
    (mb_max_size mb = 0 \<or> mb_total mb \<le> int (mb_max_size mb)) \<and>
    mb_time_last_time_pop mb \<le> now \<and>
    (mb_time_last_time_pop mb = now \<longrightarrow> mb_total mb \<le> mb_visible_size now mb)"

lemma mb_new_ok: "mb_ok now (MessageBuffer_new n r ord rnd z)"
  by (simp add: mb_ok_def MessageBuffer_new_def stalled_msgs_def mb_total_def mb_visible_size_def)

lemma mb_ok_advance: "mb_ok now mb \<Longrightarrow> now \<le> later \<Longrightarrow> mb_ok later mb"
  by (cases "now = later") (auto simp: mb_ok_def)

lemma mb_ok_visible: "mb_ok now mb \<Longrightarrow> mb_total mb \<le> mb_visible_size now mb"
  by (cases "mb_time_last_time_pop mb = now") (auto simp: mb_ok_def mb_visible_size_def mb_total_def)

text \<open>What a successful enqueue does.\<close>

lemma enqueue_insertE:
  assumes "enqueue_insert now arrival message mb = Inr (mb', reqs)"
  obtains m m' c where "message = Some m" "mb_consumer mb = Some c" "reqs = [Wake_at c arrival]"
    "msg_id m' = msg_id m" "msg_LastEnqueueTime m' = arrival" "msg_msg_counter m' = mb_msg_counter mb"
    "mb' = mb\<lparr>mb_prio_heap := heap_push m' (mb_prio_heap mb), mb_buf_msgs := mb_buf_msgs mb + 1\<rparr>"
    "mb_max_size mb = 0 \<or> mb_total mb + 1 \<le> int (mb_max_size mb)"
proof -
  obtain m where m: "message = Some m" using assms by (cases message) (auto simp: enqueue_insert_def)
  obtain m1 where m1: "updateDelayedTicks now m = Inr m1"
    using assms unfolding enqueue_insert_def m by (auto elim!: guardR_InrE bindR_InrE)
  have id: "msg_id m1 = msg_id m" using m1 unfolding updateDelayedTicks_def by (auto elim!: guardR_InrE)
  obtain c where c: "mb_consumer mb = Some c"
    using assms m1 unfolding enqueue_insert_def m Let_def
    by (cases "mb_consumer mb") (auto elim!: guardR_InrE)
  let ?m = "m1\<lparr>msg_LastEnqueueTime := arrival, msg_msg_counter := mb_msg_counter mb\<rparr>"
  have "mb' = mb\<lparr>mb_prio_heap := heap_push ?m (mb_prio_heap mb), mb_buf_msgs := mb_buf_msgs mb + 1\<rparr>"
      "reqs = [Wake_at c arrival]" "mb_max_size mb = 0 \<or> mb_total mb + 1 \<le> int (mb_max_size mb)"
    using assms m1 c unfolding enqueue_insert_def m Let_def mb_total_def
    by (auto elim!: guardR_InrE)
  with m c id show thesis by (intro that [of m c ?m]) simp_all
qed

lemma enqueue_count_eq:
  "enqueue_count now mb = mb\<lparr>mb_time_last_time_enqueue := max (mb_time_last_time_enqueue mb) now,
     mb_msg_counter := mb_msg_counter mb + 1,
     mb_msgs_this_cycle := (if mb_time_last_time_enqueue mb < now then 1 else mb_msgs_this_cycle mb + 1)\<rparr>"
  by (simp add: enqueue_count_def Let_def max_def)

lemma enqueue_arrival_frame:
  "enqueue_arrival rs now delta rt mb = (arrival, mb') \<Longrightarrow>
    \<exists>l. mb' = mb\<lparr>mb_last_arrival_time := l\<rparr> \<and> mb_last_arrival_time mb \<le> l"
  by (auto simp: enqueue_arrival_def Let_def split: if_splits intro: exI [of _ "mb_last_arrival_time mb"])

lemma mb_enqueueE:
  assumes "mb_enqueue rs now delta rt byp message mb = Inr (mb', reqs)"
  obtains m m' c arrival last where "message = Some m" "mb_consumer mb = Some c"
    "reqs = [Wake_at c arrival]" "now \<le> arrival"
    "msg_id m' = msg_id m" "msg_LastEnqueueTime m' = arrival" "msg_msg_counter m' = mb_msg_counter mb + 1"
    "mb' = (enqueue_count now mb)\<lparr>mb_last_arrival_time := last, mb_last_message_strict_fifo_bypassed := byp,
       mb_prio_heap := heap_push m' (mb_prio_heap mb), mb_buf_msgs := mb_buf_msgs mb + 1\<rparr>"
    "mb_max_size mb = 0 \<or> mb_total mb + 1 \<le> int (mb_max_size mb)"
    "\<not> rs_warmup_enabled rs \<Longrightarrow> last = arrival"
    "mb_randomization mb = Rand_disabled \<Longrightarrow> arrival = now + delta"
    "mb_strict_fifo mb \<Longrightarrow> \<not> byp \<Longrightarrow>
       \<not> mb_last_message_strict_fifo_bypassed mb \<Longrightarrow> mb_last_arrival_time mb \<le> arrival"
proof -
  obtain arrival mb2 where a: "enqueue_arrival rs now delta rt (enqueue_count now mb) = (arrival, mb2)"
    by (cases "enqueue_arrival rs now delta rt (enqueue_count now mb)")
  obtain l where l: "mb2 = (enqueue_count now mb)\<lparr>mb_last_arrival_time := l\<rparr>"
    and le: "mb_last_arrival_time (enqueue_count now mb) \<le> l"
    using enqueue_arrival_frame [OF a] by blast
  have le: "mb_last_arrival_time mb \<le> l" using le by (simp add: enqueue_count_eq)
  let ?last = "if \<not> rs_warmup_enabled rs then arrival else l"
  let ?mb = "(enqueue_count now mb)\<lparr>mb_last_arrival_time := ?last, mb_last_message_strict_fifo_bypassed := byp\<rparr>"
  from assms have *: "now \<le> arrival" "mb_strict_fifo mb \<and> \<not> byp \<and> \<not> mb_last_message_strict_fifo_bypassed mb
      \<longrightarrow> l \<le> arrival" and ins: "enqueue_insert now arrival message ?mb = Inr (mb', reqs)"
    unfolding mb_enqueue_def a l by (auto elim!: guardR_InrE)
  have dis: "arrival = now + delta \<and> l = mb_last_arrival_time mb" if "mb_randomization mb = Rand_disabled"
  proof -
    have "mb_randomization (enqueue_count now mb) = Rand_disabled" using that by (simp add: enqueue_count_eq)
    then have "arrival = now + delta" "mb2 = enqueue_count now mb" using a by (auto simp: enqueue_arrival_def)
    then have "mb_last_arrival_time mb2 = mb_last_arrival_time mb" by (simp add: enqueue_count_eq)
    with \<open>arrival = now + delta\<close> l show ?thesis by simp
  qed
  from ins show thesis
  proof (cases rule: enqueue_insertE)
    case (1 m m' c)
    have c: "mb_consumer mb = Some c" using 1(2) by (simp add: enqueue_count_eq)
    have n: "msg_msg_counter m' = mb_msg_counter mb + 1" using 1(6) by (simp add: enqueue_count_eq)
    have eq: "mb' = (enqueue_count now mb)\<lparr>mb_last_arrival_time := ?last, mb_last_message_strict_fifo_bypassed := byp,
       mb_prio_heap := heap_push m' (mb_prio_heap mb), mb_buf_msgs := mb_buf_msgs mb + 1\<rparr>"
      using 1(7) by (simp add: enqueue_count_eq)
    have t: "mb_max_size mb = 0 \<or> mb_total mb + 1 \<le> int (mb_max_size mb)"
      using 1(8) by (simp add: enqueue_count_eq mb_total_def)
    show thesis
      by (rule that [OF 1(1) c 1(3) *(1) 1(4,5) n eq t]) (use dis le *(2) in auto)
  qed
qed

lemma mb_enqueue_ok:
  assumes "mb_ok now mb" and "mb_enqueue rs now delta rt byp message mb = Inr (mb', reqs)"
  shows "mb_ok now mb'"
  using assms(2)
proof (cases rule: mb_enqueueE)
  case (1 m m' c arrival last)
  have "sorted (map msg_key (heap_push m' (mb_prio_heap mb)))"
    using assms(1) heap.push_invar by (simp add: mb_ok_def)
  then show ?thesis
    using assms(1) 1(9) unfolding 1(8)
    by (auto simp: mb_ok_def enqueue_count_eq stalled_msgs_def mb_total_def mb_visible_size_def)
qed

lemma mb_isReady_True:
  assumes "mb_isReady t mb = Inr (True, reqs)"
  obtains m ms where "mb_prio_heap mb = m # ms" "msg_LastEnqueueTime m \<le> t" "mb_time_last_time_pop mb \<le> t"
  using assms unfolding mb_isReady_def Let_def
  by (auto elim!: guardR_InrE split: if_splits option.splits list.splits)

lemma mb_dequeueE:
  assumes "mb_dequeue now t dec mb = Inr (d, m', mb')"
  obtains m ms st n b where "mb_prio_heap mb = m # ms" "msg_id m' = msg_id m" "msg_LastEnqueueTime m \<le> t"
    "mb_time_last_time_pop mb \<le> t" "d = (msg_DelayedTicks m + (t - msg_LastEnqueueTime m), mb_dequeue_callback mb)"
    "mb' = (if mb_time_last_time_pop mb < t
              then mb\<lparr>mb_size_at_cycle_start := length (mb_prio_heap mb),
                      mb_stalled_at_cycle_start := nat (mb_stall_map_size mb),
                      mb_time_last_time_pop := t\<rparr> else mb)
            \<lparr>mb_dequeues_this_cy := (if mb_time_last_time_pop mb < t then 1 else mb_dequeues_this_cy mb + 1),
             mb_prio_heap := ms, mb_stall_time := st, mb_msg_count := n, mb_buf_msgs := b\<rparr>"
proof -
  from assms obtain reqs where r: "mb_isReady t mb = Inr (True, reqs)"
    unfolding mb_dequeue_def by (elim bindR_InrE case_prod_InrE guardR_InrE) auto
  then obtain m ms where m: "mb_prio_heap mb = m # ms" "msg_LastEnqueueTime m \<le> t" "mb_time_last_time_pop mb \<le> t"
    by (rule mb_isReady_True)
  let ?m = "m\<lparr>msg_DelayedTicks := msg_DelayedTicks m + (t - msg_LastEnqueueTime m)\<rparr>"
  have u: "updateDelayedTicks t m = Inr ?m" using m(2) by (simp add: updateDelayedTicks_def)
  have p: "heap_pop (mb_prio_heap mb) = Inr (m, ms)" using m(1) by (simp add: heap_pop_def)
  show thesis
  proof (cases dec)
    case True
    with assms r u p m show thesis unfolding mb_dequeue_def Let_def
      by (intro that [where m = m and ms = ms and st = "mb_stall_time mb + tick_sub now (msg_LastEnqueueTime m)"
            and n = "mb_msg_count mb + 1" and b = "mb_buf_msgs mb - 1"]) (auto split: if_splits)
  next
    case False
    with assms r u p m show thesis unfolding mb_dequeue_def Let_def
      by (intro that [where m = m and ms = ms and st = "mb_stall_time mb"
            and n = "mb_msg_count mb" and b = "mb_buf_msgs mb"]) (auto split: if_splits)
  qed
qed

lemma mb_dequeue_ok:
  assumes "mb_ok now mb" and "mb_dequeue tk now dec mb = Inr (d, m', mb')"
  shows "mb_ok now mb'"
  using assms(2)
proof (cases rule: mb_dequeueE)
  case (1 m ms st n b)
  then show ?thesis
    using assms(1) unfolding 1(6)
    by (auto simp: mb_ok_def stalled_msgs_def mb_total_def mb_visible_size_def)
qed

lemma mb_recycle_ok:
  assumes "mb_ok now mb" and "mb_recycle now lat mb = Inr (mb', reqs)"
  shows "mb_ok now mb'"
proof -
  from assms(2) obtain m ms where h: "mb_prio_heap mb = m # ms"
    and mb': "mb' = mb\<lparr>mb_prio_heap := heap_push (m\<lparr>msg_LastEnqueueTime := now + lat\<rparr>) ms\<rparr>"
    unfolding mb_recycle_def Let_def
    by (elim bindR_InrE case_prod_InrE guardR_InrE) (auto simp: heap_pop_eq split: option.splits)
  have "sorted (map msg_key (heap_push (m\<lparr>msg_LastEnqueueTime := now + lat\<rparr>) ms))"
    using assms(1) h heap.push_invar by (simp add: mb_ok_def)
  then show ?thesis
    using assms(1) h unfolding mb'
    by (auto simp: mb_ok_def stalled_msgs_def mb_total_def mb_visible_size_def)
qed

lemma mb_delayHead_ok:
  assumes "mb_ok now mb" and "mb_delayHead rs now delta rt mb = Inr (mb', reqs)"
  shows "mb_ok now mb'"
proof -
  from assms(2) obtain m ms where h: "mb_prio_heap mb = m # ms"
    and e: "mb_enqueue rs now delta rt False (Some m) (mb\<lparr>mb_prio_heap := ms\<rparr>) = Inr (mb', reqs)"
    unfolding mb_delayHead_def by (elim bindR_InrE case_prod_InrE) (auto simp: heap_pop_eq)
  have "mb_ok now (mb\<lparr>mb_prio_heap := ms\<rparr>)"
    using assms(1) h by (auto simp: mb_ok_def stalled_msgs_def mb_total_def mb_visible_size_def)
  with e show ?thesis by (rule mb_enqueue_ok [rotated])
qed

lemma amap_push_ok:
  assumes "sorted_wrt (<) (map fst a)"
  shows "sorted_wrt (<) (map fst (amap_push k x a))"
    and "mset (concat (map snd (amap_push k x a))) = add_mset x (mset (concat (map snd a)))"
proof -
  have f: "fst ` set (amap_push k x a) = insert k (fst ` set a)" for a :: "('a \<times> 'b list) list"
  proof (induction a)
    case (Cons e a)
    then show ?case by (cases e) (simp add: insert_commute)
  qed simp
  show "mset (concat (map snd (amap_push k x a))) = add_mset x (mset (concat (map snd a)))"
    by (induction a) auto
  show "sorted_wrt (<) (map fst (amap_push k x a))"
    using assms
  proof (induction a)
    case Nil
    then show ?case by simp
  next
    case (Cons e a)
    obtain k' xs where e: "e = (k', xs)" by (cases e)
    have "\<forall>y \<in> fst ` set (amap_push k x a). k' < y" if "k' < k"
      using that Cons.prems unfolding f e by auto
    with Cons e show ?case by (auto simp: not_less)
  qed
qed

lemma amap_erase_ok:
  fixes a :: "('k :: linorder \<times> 'v list) list"
  assumes "sorted_wrt (<) (map fst a)" and "map_of a k = Some xs"
  shows "mset (concat (map snd a)) = mset xs + mset (concat (map snd (amap_erase k a)))"
    and "sorted_wrt (<) (map fst (amap_erase k a))"
proof -
  have gone: "amap_erase k a = a" if "k \<notin> set (map fst a)" for a :: "('k \<times> 'v list) list"
    using that unfolding amap_erase_def by (intro filter_True) force
  show "mset (concat (map snd a)) = mset xs + mset (concat (map snd (amap_erase k a)))"
    using assms
  proof (induction a)
    case Nil
    then show ?case by simp
  next
    case (Cons e a)
    show ?case
    proof (cases "fst e = k")
      case True
      with Cons.prems have "amap_erase k (e # a) = a" "snd e = xs"
        using gone [of a] by (cases e, auto simp: amap_erase_def)+
      then show ?thesis by simp
    next
      case False
      with Cons show ?thesis by (cases e) (auto simp: amap_erase_def)
    qed
  qed
  show "sorted_wrt (<) (map fst (amap_erase k a))"
    using assms(1) unfolding amap_erase_def by (induction a) auto
qed

lemma stallMessageE:
  assumes "stallMessage tk off addr now mb = Inr (cb, mb')"
  obtains d m mb1 where "mb_dequeue tk now False mb = Inr (d, m, mb1)"
    "mb' = mb1\<lparr>mb_stall_msg_map := amap_push addr m (mb_stall_msg_map mb1),
       mb_stall_map_size := mb_stall_map_size mb1 + 1, mb_stall_count := mb_stall_count mb1 + 1\<rparr>"
  using assms unfolding stallMessage_def by (elim bindR_InrE case_prod_InrE guardR_InrE) auto

lemma stallMessage_ok:
  assumes "mb_ok now mb" and "stallMessage tk off addr now mb = Inr (cb, mb')"
  shows "mb_ok now mb'"
  using assms(2)
proof (cases rule: stallMessageE)
  case (1 d m mb1)
  from 1(1) show ?thesis
  proof (cases rule: mb_dequeueE)
    case (1 m0 ms st n b)
    have len: "length (concat (map snd (amap_push addr m (mb_stall_msg_map mb))))
        = Suc (length (concat (map snd (mb_stall_msg_map mb))))"
      and dist: "sorted_wrt (<) (map fst (amap_push addr m (mb_stall_msg_map mb)))"
      using amap_push_ok [of "mb_stall_msg_map mb" addr m] assms(1)
      by (auto simp: mb_ok_def dest: arg_cong [where f = size] simp flip: size_mset)
    show ?thesis
      using assms(1) 1(1,4) len dist unfolding \<open>mb' = _\<close> 1(6)
      by (auto simp: mb_ok_def stalled_msgs_def mb_total_def mb_visible_size_def)
  qed
qed

lemma reanalyzeListE:
  assumes "reanalyzeList lt t mb = Inr (mb', reqs)"
  shows "mb' = mb\<lparr>mb_prio_heap := fold heap_push lt (mb_prio_heap mb)\<rparr>"
proof -
  let ?f = "\<lambda>m (mb, reqs).
        guardR (msg_LastEnqueueTime m \<le> t) (Assert_failed ''m->getLastEnqueueTime() <= schdTick'')
        (case mb_consumer mb of
           None \<Rightarrow> Inl (Null_pointer ''m_consumer'')
         | Some c \<Rightarrow> Inr (mb\<lparr>mb_prio_heap := heap_push m (mb_prio_heap mb)\<rparr>, reqs @ [Wake_at c t]))"
  have "mb' = mb\<lparr>mb_prio_heap := fold heap_push lt (mb_prio_heap mb)\<rparr>"
    if "foldR ?f lt (mb, rs) = Inr (mb', reqs)" for mb rs
    using that
  proof (induction lt arbitrary: mb rs)
    case Nil
    then show ?case by simp
  next
    case (Cons m lt)
    then obtain s where s: "?f m (mb, rs) = Inr s" "foldR ?f lt s = Inr (mb', reqs)"
      unfolding foldR.simps by (elim bindR_InrE)
    then obtain rs' where s': "s = (mb\<lparr>mb_prio_heap := heap_push m (mb_prio_heap mb)\<rparr>, rs')"
      by (auto elim!: guardR_InrE split: option.splits)
    from Cons.IH [OF s(2) [unfolded s']] show ?case by simp
  qed
  with assms show ?thesis unfolding reanalyzeList_def by blast
qed

lemma length_fold_push: "length (fold heap_push lt h) = length h + length lt"
  by (induction lt arbitrary: h) auto

lemma reanalyzeMessagesE:
  assumes "reanalyzeMessages addr t mb = Inr (mb', reqs)"
  obtains lt where "map_of (mb_stall_msg_map mb) addr = Some lt"
    "mb' = mb\<lparr>mb_stall_map_size := mb_stall_map_size mb - int (length lt),
       mb_prio_heap := fold heap_push lt (mb_prio_heap mb),
       mb_stall_msg_map := amap_erase addr (mb_stall_msg_map mb)\<rparr>"
proof -
  obtain lt where lt: "map_of (mb_stall_msg_map mb) addr = Some lt"
    using assms unfolding reanalyzeMessages_def by (cases "map_of (mb_stall_msg_map mb) addr") auto
  with assms obtain mb2 where
    "reanalyzeList lt t (mb\<lparr>mb_stall_map_size := mb_stall_map_size mb - int (length lt)\<rparr>) = Inr (mb2, reqs)"
    "mb' = mb2\<lparr>mb_stall_msg_map := amap_erase addr (mb_stall_msg_map mb2)\<rparr>"
    unfolding reanalyzeMessages_def Let_def by (auto elim!: bindR_InrE guardR_InrE)
  with reanalyzeListE [OF this(1)] lt show thesis by (intro that [of lt]) simp_all
qed

lemma reanalyzeMessages_ok:
  assumes "mb_ok now mb" and "reanalyzeMessages addr t mb = Inr (mb', reqs)"
  shows "mb_ok now mb'"
  using assms(2)
proof (cases rule: reanalyzeMessagesE)
  case (1 lt)
  have "sorted_wrt (<) (map fst (mb_stall_msg_map mb))" using assms(1) by (simp add: mb_ok_def)
  note e = amap_erase_ok [OF this 1(1)]
  have "length (concat (map snd (mb_stall_msg_map mb)))
      = length lt + length (concat (map snd (amap_erase addr (mb_stall_msg_map mb))))"
    using arg_cong [OF e(1), of size] by (simp only: size_union size_mset)
  moreover have "sorted (map msg_key (fold heap_push lt (mb_prio_heap mb)))"
    using assms(1) heap.push_all(1) by (simp add: mb_ok_def)
  ultimately show ?thesis
    using assms(1) e(2) unfolding 1(2)
    by (auto simp: mb_ok_def stalled_msgs_def mb_total_def mb_visible_size_def length_fold_push)
qed

lemma reanalyzeAllE:
  assumes "reanalyzeAllMessages t mb = Inr (mb', reqs)"
  shows "mb' = mb\<lparr>mb_stall_map_size := mb_stall_map_size mb - int (length (stalled_msgs mb)),
     mb_prio_heap := fold heap_push (stalled_msgs mb) (mb_prio_heap mb), mb_stall_msg_map := []\<rparr>"
proof -
  let ?f = "\<lambda>(addr :: nat, lt) (mb, reqs).
             let mb1 = mb\<lparr>mb_stall_map_size := mb_stall_map_size mb - int (length lt)\<rparr> in
             guardR (mb_stall_map_size mb1 \<ge> 0) (Assert_failed ''m_stall_map_size >= 0'')
             (bindR (reanalyzeList lt t mb1) (\<lambda>(mb2, rs). Inr (mb2, reqs @ rs)))"
  have *: "mb'' = mb\<lparr>mb_stall_map_size := mb_stall_map_size mb - int (length (concat (map snd es))),
      mb_prio_heap := fold heap_push (concat (map snd es)) (mb_prio_heap mb)\<rparr>"
    if "foldR ?f es (mb, rs) = Inr (mb'', reqs')" for es mb mb'' rs reqs'
    using that
  proof (induction es arbitrary: mb rs)
    case Nil
    then show ?case by simp
  next
    case (Cons e es)
    then obtain s where s: "?f e (mb, rs) = Inr s" "foldR ?f es s = Inr (mb'', reqs')"
      unfolding foldR.simps by (elim bindR_InrE)
    then obtain mb2 rs' where mb2: "s = (mb2, rs')" "\<exists>r. reanalyzeList (snd e) t
        (mb\<lparr>mb_stall_map_size := mb_stall_map_size mb - int (length (snd e))\<rparr>) = Inr (mb2, r)"
      by (cases e) (auto elim!: bindR_InrE guardR_InrE simp: Let_def)
    then have "mb2 = mb\<lparr>mb_stall_map_size := mb_stall_map_size mb - int (length (snd e)),
        mb_prio_heap := fold heap_push (snd e) (mb_prio_heap mb)\<rparr>"
      by (auto dest!: reanalyzeListE)
    with Cons.IH [OF s(2) [unfolded mb2(1)]] show ?case by (simp add: diff_diff_eq)
  qed
  from assms obtain mb1 rs where "foldR ?f (mb_stall_msg_map mb) (mb, []) = Inr (mb1, rs)"
      "mb' = mb1\<lparr>mb_stall_msg_map := []\<rparr>"
    unfolding reanalyzeAllMessages_def by (elim bindR_InrE case_prod_InrE) auto
  with * show ?thesis by (fastforce simp: stalled_msgs_def)
qed

lemma reanalyzeAll_ok:
  assumes "mb_ok now mb" and "reanalyzeAllMessages t mb = Inr (mb', reqs)"
  shows "mb_ok now mb'"
proof -
  have "sorted (map msg_key (fold heap_push (stalled_msgs mb) (mb_prio_heap mb)))"
    using assms(1) heap.push_all(1) by (simp add: mb_ok_def)
  then show ?thesis
    using assms(1) unfolding reanalyzeAllE [OF assms(2)]
    by (auto simp: mb_ok_def stalled_msgs_def mb_total_def mb_visible_size_def length_fold_push)
qed

section \<open>The life of a buffer\<close>

text \<open>
  A step relation over the operations of the buffer and the passing of time. The only operation
  it restricts is \<open>clear\<close>, which empties the heap, keeps the stalled messages and takes the
  time of the last dequeue back to 0: at tick 0 that makes the buffer forget that it was
  dequeued in this cycle, so there the stall map must be empty.
\<close>

inductive mb_step :: "ruby_flags \<Rightarrow> tick \<times> MessageBuffer \<Rightarrow> tick \<times> MessageBuffer \<Rightarrow> bool" for rs where
  advance: "now \<le> later \<Longrightarrow> mb_step rs (now, mb) (later, mb)"
| enqueue: "mb_enqueue rs now delta rt byp m mb = Inr (mb', reqs) \<Longrightarrow> mb_step rs (now, mb) (now, mb')"
| dequeue: "mb_dequeue tk now dec mb = Inr (d, m, mb') \<Longrightarrow> mb_step rs (now, mb) (now, mb')"
| recycle: "mb_recycle now lat mb = Inr (mb', reqs) \<Longrightarrow> mb_step rs (now, mb) (now, mb')"
| delayHead: "mb_delayHead rs now delta rt mb = Inr (mb', reqs) \<Longrightarrow> mb_step rs (now, mb) (now, mb')"
| stall: "stallMessage tk off addr now mb = Inr (cb, mb') \<Longrightarrow> mb_step rs (now, mb) (now, mb')"
| reanalyze: "reanalyzeMessages addr now mb = Inr (mb', reqs) \<Longrightarrow> mb_step rs (now, mb) (now, mb')"
| reanalyzeAll: "reanalyzeAllMessages now mb = Inr (mb', reqs) \<Longrightarrow> mb_step rs (now, mb) (now, mb')"
| check: "areNSlotsAvailable n now mb = (b, mb') \<Longrightarrow> mb_step rs (now, mb) (now, mb')"
| connect: "mb_setConsumer c mb = Inr mb' \<Longrightarrow> mb_step rs (now, mb) (now, mb')"
| getSize: "mb_getSize now mb = (k, mb') \<Longrightarrow> mb_step rs (now, mb) (now, mb')"
| hold_back: "mb_step rs (now, mb) (now, deferEnqueueingMessage addr m mb)"
| release: "enqueueDeferredMessages rs addr now delta rts mb = Inr (mb', reqs) \<Longrightarrow>
    mb_step rs (now, mb) (now, mb')"
| callback: "mb_step rs (now, mb) (now, registerDequeueCallback c mb)"
| no_callback: "mb_step rs (now, mb) (now, unregisterDequeueCallback mb)"
| clear: "0 < now \<or> mb_stall_msg_map mb = [] \<Longrightarrow> mb_step rs (now, mb) (now, mb_clear mb)"

inductive_cases mb_stepE: "mb_step rs (now, mb) (now', mb')"

lemma areNSlots_frame: "areNSlotsAvailable n now mb = (b, mb') \<Longrightarrow> \<exists>k. mb' = mb\<lparr>mb_not_avail_count := k\<rparr>"
  by (auto simp: areNSlotsAvailable_def split: if_splits intro: exI [of _ "mb_not_avail_count mb"])

lemma mb_ok_frame [simp]:
  "mb_ok now (mb\<lparr>mb_not_avail_count := k\<rparr>) = mb_ok now mb"
  "mb_ok now (mb\<lparr>mb_consumer := c\<rparr>) = mb_ok now mb"
  "mb_ok now (mb\<lparr>mb_deferred_msg_map := d\<rparr>) = mb_ok now mb"
  "mb_ok now (mb\<lparr>mb_dequeue_callback := cb\<rparr>) = mb_ok now mb"
  "mb_ok now (mb\<lparr>mb_time_last_time_size_checked := t, mb_size_last_time_size_checked := l\<rparr>) = mb_ok now mb"
  unfolding mb_ok_def stalled_msgs_def mb_total_def mb_visible_size_def by simp_all

lemma mb_getSize_ok: "mb_ok now mb \<Longrightarrow> mb_getSize t mb = (k, mb') \<Longrightarrow> mb_ok now mb'"
  by (auto simp: mb_getSize_def Let_def split: if_splits)

lemma mb_clear_ok:
  assumes "mb_ok now mb" and "0 < now \<or> mb_stall_msg_map mb = []"
  shows "mb_ok now (mb_clear mb)"
  using assms by (auto simp: mb_ok_def mb_clear_def stalled_msgs_def mb_total_def mb_visible_size_def)

lemma enqueueDeferred_ok:
  assumes "mb_ok now mb" and "enqueueDeferredMessages rs addr now delta rts mb = Inr (mb', reqs)"
  shows "mb_ok now mb'"
proof -
  let ?f = "\<lambda>m (mb, reqs). bindR (mb_enqueue rs now delta (rts m) False (Some m) mb)
    (\<lambda>(mb', r). Inr (mb', reqs @ r))"
  have loop: "mb_ok now mb2" if "foldR ?f ms (mb1, r1) = Inr (mb2, r2)" "mb_ok now mb1"
    for ms mb1 r1 mb2 r2
    using that
  proof (induction ms arbitrary: mb1 r1)
    case Nil
    then show ?case by simp
  next
    case (Cons m ms)
    from Cons.prems(1) obtain mb3 r3 where
      "mb_enqueue rs now delta (rts m) False (Some m) mb1 = Inr (mb3, r3)"
      "foldR ?f ms (mb3, r1 @ r3) = Inr (mb2, r2)"
      unfolding foldR.simps by (auto elim!: bindR_InrE)
    with Cons.IH Cons.prems(2) mb_enqueue_ok show ?case by blast
  qed
  obtain ms where "map_of (mb_deferred_msg_map mb) addr = Some ms"
    using assms(2) unfolding enqueueDeferredMessages_def by (auto split: option.splits)
  with assms(2) obtain mb2 r2 where "foldR ?f ms (mb, []) = Inr (mb2, r2)"
    "mb' = mb2\<lparr>mb_deferred_msg_map := amap_erase addr (mb_deferred_msg_map mb2)\<rparr>"
    unfolding enqueueDeferredMessages_def by (auto elim!: bindR_InrE guardR_InrE)
  with loop [OF _ assms(1)] show ?thesis by simp
qed

lemma mb_step_ok: "mb_step rs (now, mb) (now', mb') \<Longrightarrow> mb_ok now mb \<Longrightarrow> mb_ok now' mb'"
proof (induction "(now, mb)" "(now', mb')" rule: mb_step.induct)
  case (check n b)
  then obtain k where "mb' = mb\<lparr>mb_not_avail_count := k\<rparr>" using areNSlots_frame by blast
  with check show ?case by simp
next
  case (connect c)
  then obtain c' where "mb' = mb\<lparr>mb_consumer := c'\<rparr>" unfolding mb_setConsumer_def by (auto elim!: guardR_InrE)
  with connect show ?case by simp
qed (auto dest: mb_ok_advance mb_enqueue_ok mb_dequeue_ok mb_recycle_ok mb_delayHead_ok stallMessage_ok
      reanalyzeMessages_ok reanalyzeAll_ok mb_getSize_ok enqueueDeferred_ok mb_clear_ok
    simp: deferEnqueueingMessage_def registerDequeueCallback_def unregisterDequeueCallback_def)

lemma mb_reachable_ok:
  assumes "(mb_step rs)\<^sup>*\<^sup>* (t0, MessageBuffer_new n r ord rnd z) (now, mb)"
  shows "mb_ok now mb"
proof -
  have "case s of (now, mb) \<Rightarrow> mb_ok now mb" if "(mb_step rs)\<^sup>*\<^sup>* (t0, MessageBuffer_new n r ord rnd z) s" for s
    using that
  proof (induction rule: rtranclp_induct)
    case base
    show ?case by (simp add: mb_new_ok)
  next
    case (step y s)
    then show ?case by (cases y; cases s) (auto dest: mb_step_ok)
  qed
  with assms show ?thesis by fastforce
qed

text \<open>
  C22: Take a message buffer of bounded size, from its constructor on, through any sequence of
  the operations that change its state (\<open>setConsumer\<close>, \<open>enqueue\<close>, \<open>dequeue\<close> with or without
  decrementing the count, \<open>recycle\<close>, \<open>delayHead\<close>, \<open>stallMessage\<close>, \<open>reanalyzeMessages\<close>,
  \<open>reanalyzeAllMessages\<close>, \<open>deferEnqueueingMessage\<close>, \<open>enqueueDeferredMessages\<close>, \<open>getSize\<close>,
  \<open>areNSlotsAvailable\<close>, the dequeue callbacks, and \<open>clear\<close> except at tick 0 with messages
  stalled), at times that never decrease. It never holds more messages than its size, heap and
  stall map together; and when \<open>areNSlotsAvailable\<close> grants \<open>n\<close> slots there really is room for
  \<open>n\<close> more messages, although within a cycle it judges by what the buffer held when the cycle
  began.
\<close>

theorem slots_available_sound:
  assumes "(mb_step rs)\<^sup>*\<^sup>* (t0, MessageBuffer_new size_limit r ord rnd z) (now, mb)"
    and "mb_max_size mb \<noteq> 0"
  shows "int (length (mb_prio_heap mb)) + int (length (stalled_msgs mb)) \<le> int (mb_max_size mb) \<and>
    (fst (areNSlotsAvailable n now mb) \<longrightarrow>
      int (length (mb_prio_heap mb)) + int (length (stalled_msgs mb)) + int n \<le> int (mb_max_size mb))"
proof -
  have ok: "mb_ok now mb" by (rule mb_reachable_ok [OF assms(1)])
  then have "mb_total mb = int (length (mb_prio_heap mb)) + int (length (stalled_msgs mb))"
    "mb_total mb \<le> int (mb_max_size mb)"
    using assms(2) by (auto simp: mb_ok_def mb_total_def)
  moreover have "mb_total mb + int n \<le> int (mb_max_size mb)" if "fst (areNSlotsAvailable n now mb)"
    using that mb_ok_visible [OF ok] assms(2) by (auto simp: areNSlotsAvailable_def split: if_splits)
  ultimately show ?thesis by simp
qed

definition example_buffer :: MessageBuffer where
  "example_buffer = (MessageBuffer_new 2 0 True Rand_disabled False)\<lparr>mb_consumer := Some (NI_consumer 0)\<rparr>"

definition example_message :: "nat \<Rightarrow> Message" where
  "example_message i = \<lparr>msg_id = i, msg_time = 0, msg_LastEnqueueTime = 0, msg_DelayedTicks = 0,
     msg_msg_counter = 0, msg_destination = [], msg_size_type = MessageSizeType_Control, msg_incoming_link = 0, msg_vnet = 0\<rparr>"

definition no_flags :: ruby_flags where
  "no_flags = \<lparr>rs_randomization = False, rs_warmup_enabled = False\<rparr>"

lemma slots_available_sound_witness:
  "\<exists>mb reqs. mb_enqueue no_flags 10 5 0 False (Some (example_message 1)) example_buffer = Inr (mb, reqs) \<and>
    fst (areNSlotsAvailable 1 10 mb) \<and>
    int (length (mb_prio_heap mb)) + int (length (stalled_msgs mb)) + 1 \<le> int (mb_max_size mb)"
proof -
  have "case mb_enqueue no_flags 10 5 0 False (Some (example_message 1)) example_buffer of
      Inl e \<Rightarrow> False | Inr (mb, reqs) \<Rightarrow> fst (areNSlotsAvailable 1 10 mb) \<and> mb_max_size mb \<noteq> 0"
    by code_simp
  then obtain mb reqs where mb: "mb_enqueue no_flags 10 5 0 False (Some (example_message 1)) example_buffer
      = Inr (mb, reqs)" "fst (areNSlotsAvailable 1 10 mb)" "mb_max_size mb \<noteq> 0"
    by (auto split: sum.splits)
  let ?new = "MessageBuffer_new 2 0 True Rand_disabled False"
  have "mb_step no_flags (0, ?new) (0, example_buffer)"
    by (rule mb_step.connect [of "NI_consumer 0"])
      (simp add: mb_setConsumer_def example_buffer_def MessageBuffer_new_def)
  moreover have "mb_step no_flags (0, example_buffer) (10, example_buffer)"
    by (rule mb_step.advance) simp
  moreover have "mb_step no_flags (10, example_buffer) (10, mb)"
    by (rule mb_step.enqueue [OF mb(1)])
  ultimately have r: "(mb_step no_flags)\<^sup>*\<^sup>* (0, ?new) (10, mb)"
    by (meson converse_rtranclp_into_rtranclp rtranclp.rtrancl_refl)
  from slots_available_sound [OF r mb(3), of 1] mb show ?thesis by auto
qed

section \<open>No message is lost\<close>

definition mb_ids :: "MessageBuffer \<Rightarrow> nat multiset" where
  "mb_ids mb = image_mset msg_id (mset (mb_prio_heap mb) + mset (stalled_msgs mb))"

lemma mb_dequeue_ids:
  assumes "mb_ok now mb" and "mb_dequeue tk now dec mb = Inr (d, m, mb')"
  shows "mb_ids mb = add_mset (msg_id m) (mb_ids mb')"
    and "\<forall>x \<in> set (mb_prio_heap mb'). msg_key (hd (mb_prio_heap mb)) \<le> msg_key x"
    and "mb_stall_msg_map mb' = mb_stall_msg_map mb"
proof -
  from assms(2) have "mb_ids mb = add_mset (msg_id m) (mb_ids mb') \<and>
    (\<forall>x \<in> set (mb_prio_heap mb'). msg_key (hd (mb_prio_heap mb)) \<le> msg_key x) \<and>
    mb_stall_msg_map mb' = mb_stall_msg_map mb"
  proof (cases rule: mb_dequeueE)
    case (1 m0 ms st n b)
    have "mb_prio_heap mb' = ms" "mb_stall_msg_map mb' = mb_stall_msg_map mb" unfolding 1(6) by auto
    with assms(1) 1(1,2) show ?thesis by (auto simp: mb_ids_def stalled_msgs_def mb_ok_def)
  qed
  then show "mb_ids mb = add_mset (msg_id m) (mb_ids mb')"
    "\<forall>x \<in> set (mb_prio_heap mb'). msg_key (hd (mb_prio_heap mb)) \<le> msg_key x"
    "mb_stall_msg_map mb' = mb_stall_msg_map mb" by blast+
qed

lemma mb_enqueue_ids:
  assumes "mb_ok now mb" and "mb_enqueue rs now delta rt byp (Some m) mb = Inr (mb', reqs)"
  shows "mb_ids mb' = add_mset (msg_id m) (mb_ids mb)"
  using assms(2)
proof (cases rule: mb_enqueueE)
  case (1 m0 m' c arrival last)
  have "mset (heap_push m' (mb_prio_heap mb)) = add_mset m' (mset (mb_prio_heap mb))"
    using assms(1) heap.push_elems by (simp add: mb_ok_def)
  with 1 show ?thesis by (simp add: mb_ids_def stalled_msgs_def enqueue_count_eq)
qed

lemma stallMessage_ids:
  assumes "mb_ok now mb" and "stallMessage tk off addr now mb = Inr (cb, mb')"
  shows "mb_ids mb' = mb_ids mb"
  using assms(2)
proof (cases rule: stallMessageE)
  case (1 d m mb1)
  have "sorted_wrt (<) (map fst (mb_stall_msg_map mb1))"
    using mb_dequeue_ids(3) [OF assms(1) 1(1)] assms(1) by (simp add: mb_ok_def)
  from amap_push_ok(2) [OF this, of addr m] mb_dequeue_ids(1) [OF assms(1) 1(1)]
  show ?thesis unfolding 1(2) by (simp add: mb_ids_def stalled_msgs_def)
qed

lemma reanalyzeMessages_ids:
  assumes "mb_ok now mb" and "reanalyzeMessages addr t mb = Inr (mb', reqs)"
  shows "mb_ids mb' = mb_ids mb"
  using assms(2)
proof (cases rule: reanalyzeMessagesE)
  case (1 lt)
  have "sorted_wrt (<) (map fst (mb_stall_msg_map mb))" using assms(1) by (simp add: mb_ok_def)
  with amap_erase_ok(1) [OF _ 1(1)] have "mset (stalled_msgs mb) = mset lt + mset (stalled_msgs mb')"
    unfolding stalled_msgs_def 1(2) by simp
  moreover have "mset (mb_prio_heap mb') = mset lt + mset (mb_prio_heap mb)"
    using heap.push_all(2) assms(1) unfolding 1(2) by (simp add: mb_ok_def)
  ultimately show ?thesis by (simp add: mb_ids_def)
qed

lemma reanalyzeAll_ids:
  assumes "mb_ok now mb" and "reanalyzeAllMessages t mb = Inr (mb', reqs)"
  shows "mb_ids mb' = mb_ids mb"
proof -
  have "mset (fold heap_push (stalled_msgs mb) (mb_prio_heap mb)) = mset (stalled_msgs mb) + mset (mb_prio_heap mb)"
    using heap.push_all(2) assms(1) by (simp add: mb_ok_def)
  then show ?thesis unfolding reanalyzeAllE [OF assms(2)] by (simp add: mb_ids_def stalled_msgs_def)
qed

text \<open>
  C24: A message buffer in a good state neither loses nor invents messages: an enqueue adds
  its message, a dequeue takes out exactly the message it returns, one that is least in
  arrival time, and stalling a message or re-analyzing those of an address or of all addresses
  moves messages between the heap and the stall map only.
\<close>

theorem buffer_conserves_messages:
  assumes "mb_ok now mb"
  shows "(\<forall>rs delta rt byp m mb' reqs. mb_enqueue rs now delta rt byp (Some m) mb = Inr (mb', reqs) \<longrightarrow>
      mb_ids mb' = add_mset (msg_id m) (mb_ids mb)) \<and>
    (\<forall>tk dec d m mb'. mb_dequeue tk now dec mb = Inr (d, m, mb') \<longrightarrow>
      mb_ids mb = add_mset (msg_id m) (mb_ids mb') \<and> msg_id m = msg_id (hd (mb_prio_heap mb)) \<and>
      (\<forall>x \<in> set (mb_prio_heap mb'). msg_key (hd (mb_prio_heap mb)) \<le> msg_key x)) \<and>
    (\<forall>tk off addr cb mb'. stallMessage tk off addr now mb = Inr (cb, mb') \<longrightarrow> mb_ids mb' = mb_ids mb) \<and>
    (\<forall>addr t mb' reqs. reanalyzeMessages addr t mb = Inr (mb', reqs) \<longrightarrow> mb_ids mb' = mb_ids mb) \<and>
    (\<forall>t mb' reqs. reanalyzeAllMessages t mb = Inr (mb', reqs) \<longrightarrow> mb_ids mb' = mb_ids mb)"
proof -
  have hd: "msg_id m = msg_id (hd (mb_prio_heap mb))" if "mb_dequeue tk now dec mb = Inr (d, m, mb')" for tk dec d m mb'
    using that by (rule mb_dequeueE) simp
  show ?thesis
    by (intro conjI allI impI)
      (erule hd mb_enqueue_ids [OF assms] mb_dequeue_ids(1,2) [OF assms] stallMessage_ids [OF assms]
        reanalyzeMessages_ids [OF assms] reanalyzeAll_ids [OF assms])+
qed

lemma buffer_conserves_messages_witness:
  "\<exists>mb reqs. mb_enqueue no_flags 10 5 0 False (Some (example_message 1)) example_buffer = Inr (mb, reqs) \<and>
    mb_ids mb = {#1#}"
proof -
  have ok: "mb_ok 10 example_buffer"
    using mb_new_ok [of 10 2 0 True Rand_disabled False] by (simp add: example_buffer_def)
  have "case mb_enqueue no_flags 10 5 0 False (Some (example_message 1)) example_buffer of
      Inl e \<Rightarrow> False | Inr (mb, reqs) \<Rightarrow> True"
    by code_simp
  then obtain mb reqs where mb: "mb_enqueue no_flags 10 5 0 False (Some (example_message 1)) example_buffer
      = Inr (mb, reqs)" by (auto split: sum.splits)
  have "mb_ids example_buffer = {#}"
    by (simp add: mb_ids_def stalled_msgs_def example_buffer_def MessageBuffer_new_def)
  moreover have "mb_ids mb = add_mset (msg_id (example_message 1)) (mb_ids example_buffer)"
    by (rule conjunct1 [OF buffer_conserves_messages [OF ok], rule_format, OF mb])
  ultimately show ?thesis using mb by (simp add: example_message_def)
qed

section \<open>Strict FIFO\<close>

text \<open>
  The operations of a history: an enqueue at a tick with a latency, the draw of \<open>random_time\<close>
  and a message, and a dequeue at a tick.
\<close>

datatype mb_op = Enq tick tick tick Message | Deq tick

definition mb_exec :: "ruby_flags \<Rightarrow> mb_op \<Rightarrow> MessageBuffer \<times> nat list \<Rightarrow> (MessageBuffer \<times> nat list) res" where
  "mb_exec rs op s =
    (case op of
       Enq t delta rt m \<Rightarrow> bindR (mb_enqueue rs t delta rt False (Some m) (fst s)) (\<lambda>(mb', reqs). Inr (mb', snd s))
     | Deq t \<Rightarrow> bindR (mb_dequeue t t True (fst s)) (\<lambda>(d, m, mb'). Inr (mb', snd s @ [msg_id m])))"

fun enqueued :: "mb_op list \<Rightarrow> nat list" where
  "enqueued [] = []"
| "enqueued (Enq t delta rt m # ops) = msg_id m # enqueued ops"
| "enqueued (Deq t # ops) = enqueued ops"

definition fifo_ok :: "MessageBuffer \<Rightarrow> bool" where
  "fifo_ok mb \<longleftrightarrow> mb_strict_fifo mb \<and>
    \<not> mb_last_message_strict_fifo_bypassed mb \<and> sorted (map msg_key (mb_prio_heap mb)) \<and>
    (\<forall>m \<in> set (mb_prio_heap mb). msg_key m \<le> (mb_last_arrival_time mb, mb_msg_counter mb))"

lemma insort_key_last:
  assumes "\<forall>y \<in> set ys. f y < f x"
  shows "insort_key f x ys = ys @ [x]"
  using assms by (induction ys) (auto simp: not_le)

lemma fifo_enqueue:
  assumes "fifo_ok mb" and "\<not> rs_warmup_enabled rs"
    and "mb_enqueue rs now delta rt False (Some m) mb = Inr (mb', reqs)"
  shows "fifo_ok mb' \<and> (\<exists>m'. msg_id m' = msg_id m \<and> mb_prio_heap mb' = mb_prio_heap mb @ [m'])"
  using assms(3)
proof (cases rule: mb_enqueueE)
  case (1 m0 m' c arrival last)
  have arr: "mb_last_arrival_time mb \<le> arrival" using 1(12) assms(1) by (simp add: fifo_ok_def)
  then have "(mb_last_arrival_time mb, mb_msg_counter mb) < msg_key m'"
    using 1(6,7) by (auto simp: msg_key_def less_prod_def le_less)
  then have below: "\<forall>y \<in> set (mb_prio_heap mb). msg_key y < msg_key m'"
    using assms(1) unfolding fifo_ok_def by (meson order.strict_trans1)
  then have h: "heap_push m' (mb_prio_heap mb) = mb_prio_heap mb @ [m']"
    unfolding heap_push_def by (rule insort_key_last)
  have key: "msg_key m' = (arrival, mb_msg_counter mb + 1)" using 1(6,7) by (simp add: msg_key_def)
  have "fifo_ok mb'"
    using assms(1,2) below 1(10) h key less_imp_le
    unfolding fifo_ok_def 1(8) by (auto simp: enqueue_count_eq sorted_append)
  moreover have "mb_prio_heap mb' = mb_prio_heap mb @ [m']" unfolding 1(8) by (simp add: h)
  ultimately show ?thesis using 1(1,5) by auto
qed

lemma fifo_dequeue:
  assumes "fifo_ok mb" and "mb_dequeue tk now dec mb = Inr (d, m, mb')"
  shows "fifo_ok mb' \<and> map msg_id (mb_prio_heap mb) = msg_id m # map msg_id (mb_prio_heap mb')"
  using assms(2)
proof (cases rule: mb_dequeueE)
  case (1 m0 ms st n b)
  have "fifo_ok mb'" using assms(1) 1(1) unfolding fifo_ok_def 1(6) by auto
  moreover have "mb_prio_heap mb' = ms" unfolding 1(6) by simp
  ultimately show ?thesis using 1(1,2) by simp
qed

lemma fifo_run:
  assumes "fifo_ok mb" and "\<not> rs_warmup_enabled rs" and "foldR (mb_exec rs) ops (mb, out) = Inr (mb', out')"
  shows "out' @ map msg_id (mb_prio_heap mb') = out @ map msg_id (mb_prio_heap mb) @ enqueued ops"
  using assms(1,3)
proof (induction ops arbitrary: mb out)
  case Nil
  then show ?case by simp
next
  case (Cons op ops)
  then obtain s where s: "mb_exec rs op (mb, out) = Inr s" "foldR (mb_exec rs) ops s = Inr (mb', out')"
    unfolding foldR.simps by (elim bindR_InrE)
  show ?case
  proof (cases op)
    case (Enq t delta rt m)
    then obtain mb1 reqs where e: "mb_enqueue rs t delta rt False (Some m) mb = Inr (mb1, reqs)" "s = (mb1, out)"
      using s(1) unfolding mb_exec_def by (auto elim!: bindR_InrE)
    from fifo_enqueue [OF Cons.prems(1) assms(2) e(1)] Cons.IH [of mb1 out] s(2) e(2) Enq
    show ?thesis by auto
  next
    case (Deq t)
    then obtain d m mb1 where e: "mb_dequeue t t True mb = Inr (d, m, mb1)" "s = (mb1, out @ [msg_id m])"
      using s(1) unfolding mb_exec_def by (auto elim!: bindR_InrE)
    from fifo_dequeue [OF Cons.prems(1) e(1)] Cons.IH [of mb1 "out @ [msg_id m]"] s(2) e(2) Deq
    show ?thesis by auto
  qed
qed

text \<open>
  C23: An ordered message buffer is a queue, outside warmup (in warmup the last arrival time is
  not kept) and as long as no enqueue sets \<open>bypassStrictFIFO\<close>: from its constructor, in any
  history of such enqueues and of dequeues that does not panic, what came out, followed by what
  is still inside in the order of the heap, is what went in, in the same order, whatever
  latencies the enqueues had and whether or not the delays are randomized.
\<close>

theorem strict_fifo_order:
  assumes "\<not> rs_warmup_enabled rs"
    and "foldR (mb_exec rs) ops
      ((MessageBuffer_new n r True rnd z)\<lparr>mb_consumer := c\<rparr>, []) = Inr (mb, out)"
  shows "out @ map msg_id (mb_prio_heap mb) = enqueued ops"
proof -
  have "fifo_ok ((MessageBuffer_new n r True rnd z)\<lparr>mb_consumer := c\<rparr>)"
    by (simp add: fifo_ok_def MessageBuffer_new_def)
  from fifo_run [OF this assms] show ?thesis by (simp add: MessageBuffer_new_def)
qed

lemma strict_fifo_order_witness:
  "\<exists>mb. foldR (mb_exec no_flags) [Enq 10 8 0 (example_message 1), Enq 15 5 0 (example_message 2), Deq 20]
      (example_buffer, []) = Inr (mb, [1]) \<and> [1] @ map msg_id (mb_prio_heap mb) = [1, 2]"
proof -
  let ?ops = "[Enq 10 8 0 (example_message 1), Enq 15 5 0 (example_message 2), Deq 20]"
  have "case foldR (mb_exec no_flags) ?ops (example_buffer, []) of
      Inl e \<Rightarrow> False | Inr (mb, out) \<Rightarrow> out = [1]" by code_simp
  then obtain mb where mb: "foldR (mb_exec no_flags) ?ops (example_buffer, []) = Inr (mb, [1])"
    by (auto split: sum.splits)
  have "[1] @ map msg_id (mb_prio_heap mb) = enqueued ?ops"
    by (rule strict_fifo_order [OF _ mb [unfolded example_buffer_def]]) (simp add: no_flags_def)
  with mb show ?thesis by (simp add: example_message_def)
qed

end
