(* ===== verification/Topology.thy ===== *)
theory Topology
  imports RoutingUnit
begin

text \<open>
  \<open>Topology\<close> (\<open>Topology.hh\<close>, \<open>Topology.cc\<close>): the links of the network, the all-pairs
  shortest paths over them and the routing table entries made from these. The first
  \<open>m_nodes\<close> switch numbers are the links into the network, the next \<open>m_nodes\<close> the links
  out of it, and the routers follow. A \<open>Matrix\<close> is a function of its three indices, which all
  stay within the dimensions the code allocates; the first index of the weights and
  distances is the virtual network, which is the last index of the other two matrices.
\<close>

section \<open>Links\<close>

definition INFINITE_LATENCY :: int where
  "INFINITE_LATENCY = 10000"

record BasicLink =
  bl_id :: int
  bl_latency :: int
  bl_weight :: int
  bl_bandwidth_factor :: int
  bl_mVnets :: "int list"

record BasicExtLink =
  el_link :: BasicLink
  el_machine :: machine_id
  el_router :: nat

record BasicIntLink =
  il_link :: BasicLink
  il_src :: nat
  il_dst :: nat
  il_src_outport :: PortDirection
  il_dst_inport :: PortDirection

record LinkEntry =
  le_link :: BasicLink
  le_src_outport_dirn :: PortDirection
  le_dst_inport_dirn :: PortDirection

text \<open>\<open>m_link_map\<close> is a \<open>std::map\<close>: an association list in ascending order of the keys.\<close>

type_synonym link_map = "((nat \<times> nat) \<times> LinkEntry list) list"

record Topology =
  tp_nodes :: nat
  tp_number_of_switches :: nat
  tp_vnets :: nat
  tp_link_map :: link_map

fun link_map_add :: "nat \<times> nat \<Rightarrow> LinkEntry \<Rightarrow> link_map \<Rightarrow> link_map" where
  "link_map_add k e [] = [(k, [e])]"
| "link_map_add k e ((k', es) # r) =
    (if k = k' then (k', es @ [e]) # r
     else if fst k < fst k' \<or> fst k = fst k' \<and> snd k < snd k' then (k, [e]) # (k', es) # r
     else (k', es) # link_map_add k e r)"

definition addLink ::
    "nat \<Rightarrow> nat \<Rightarrow> BasicLink \<Rightarrow> PortDirection \<Rightarrow> PortDirection \<Rightarrow> Topology \<Rightarrow> Topology res" where
  "addLink src dest link src_outport_dirn dst_inport_dirn tp =
    guardR (src \<le> tp_number_of_switches tp + tp_nodes tp + tp_nodes tp)
      (Assert_failed ''src <= m_number_of_switches+m_nodes+m_nodes'')
    (guardR (dest \<le> tp_number_of_switches tp + tp_nodes tp + tp_nodes tp)
      (Assert_failed ''dest <= m_number_of_switches+m_nodes+m_nodes'')
    (Inr (tp\<lparr>tp_link_map := link_map_add (src, dest)
       \<lparr>le_link = link, le_src_outport_dirn = src_outport_dirn, le_dst_inport_dirn = dst_inport_dirn\<rparr>
       (tp_link_map tp)\<rparr>)))"

definition Topology_new ::
    "machine_info \<Rightarrow> nat \<Rightarrow> nat \<Rightarrow> BasicExtLink list \<Rightarrow> BasicIntLink list \<Rightarrow> Topology res" where
  "Topology_new mt num_routers num_vnets ext_links int_links =
    (let nodes = mt_base_number mt (mt_NUM mt);
         tp0 = \<lparr>tp_nodes = nodes, tp_number_of_switches = num_routers, tp_vnets = num_vnets, tp_link_map = []\<rparr>
     in guardR (nodes > 1) (Assert_failed ''m_nodes > 1'')
        (bindR (foldR (\<lambda>el tp.
             let ext_idx1 = mt_base_number mt (fst (el_machine el)) + snd (el_machine el);
                 ext_idx2 = ext_idx1 + nodes;
                 int_idx = el_router el + 2 * nodes
             in bindR (addLink ext_idx1 int_idx (el_link el) '''' '''' tp)
                  (addLink int_idx ext_idx2 (el_link el) '''' ''''))
           ext_links tp0)
         (foldR (\<lambda>il. addLink (il_src il + 2 * nodes) (il_dst il + 2 * nodes) (il_link il)
             (il_src_outport il) (il_dst_inport il)) int_links)))"

section \<open>Shortest paths\<close>

type_synonym matrix = "nat \<Rightarrow> nat \<Rightarrow> nat \<Rightarrow> int"

text \<open>The slices of the three matrices for one virtual network.\<close>

record sp_state =
  sp_dist :: "nat \<Rightarrow> nat \<Rightarrow> int"
  sp_latencies :: "nat \<Rightarrow> nat \<Rightarrow> int"
  sp_inter_switches :: "nat \<Rightarrow> nat \<Rightarrow> int"

definition upd2 :: "(nat \<Rightarrow> nat \<Rightarrow> int) \<Rightarrow> nat \<Rightarrow> nat \<Rightarrow> int \<Rightarrow> nat \<Rightarrow> nat \<Rightarrow> int" where
  "upd2 f i j x = f(i := (f i)(j := x))"

text \<open>
  The loop over the intermediate switches \<open>k\<close> for the pair \<open>i\<close>, \<open>j\<close>: the state is
  \<open>minimum\<close> (equal to \<open>previous_minimum\<close> between iterations), \<open>intermediate_switch\<close> and the
  matrix of intermediate switches.
\<close>

definition k_step ::
    "(nat \<Rightarrow> nat \<Rightarrow> int) \<Rightarrow> nat \<Rightarrow> nat \<Rightarrow> nat \<Rightarrow> int \<times> int \<times> (nat \<Rightarrow> nat \<Rightarrow> int) \<Rightarrow> int \<times> int \<times> (nat \<Rightarrow> nat \<Rightarrow> int)" where
  "k_step dist i j k = (\<lambda>(minimum, intermediate_switch, isw).
    let minimum' = min minimum (dist i k + dist k j)
    in if minimum \<noteq> minimum'
       then (minimum', int k, upd2 isw i j (isw i k + isw k j + 1))
       else (minimum', intermediate_switch, isw))"

definition relax_pair :: "nat \<Rightarrow> nat \<times> nat \<Rightarrow> bool \<times> sp_state \<Rightarrow> (bool \<times> sp_state) res" where
  "relax_pair n = (\<lambda>(i, j) (change, s).
    case fold (k_step (sp_dist s) i j) [0..<n] (sp_dist s i j, -1, sp_inter_switches s) of
      (minimum, intermediate_switch, isw) \<Rightarrow>
        if sp_dist s i j \<noteq> minimum then
          guardR (intermediate_switch \<ge> 0) (Assert_failed ''intermediate_switch >= 0'')
          (guardR (intermediate_switch < int n) (Assert_failed ''intermediate_switch < latencies[i].size()'')
          (let k = nat intermediate_switch in
           Inr (True, s\<lparr>sp_dist := upd2 (sp_dist s) i j minimum,
             sp_latencies := upd2 (sp_latencies s) i j (sp_latencies s i k + sp_latencies s k j),
             sp_inter_switches := isw\<rparr>)))
        else Inr (change, s\<lparr>sp_inter_switches := isw\<rparr>))"

definition sweep :: "nat \<Rightarrow> sp_state \<Rightarrow> (bool \<times> sp_state) res" where
  "sweep n s = foldR (relax_pair n) (List.product [0..<n] [0..<n]) (False, s)"

text \<open>\<open>while (change)\<close>: not returning is the value \<open>None\<close>.\<close>

partial_function (option) sweep_loop :: "nat \<Rightarrow> sp_state \<Rightarrow> sp_state res option" where
  "sweep_loop n s =
    (case sweep n s of
       Inl e \<Rightarrow> Some (Inl e)
     | Inr (change, s') \<Rightarrow> if change then sweep_loop n s' else Some (Inr s'))"

declare sweep_loop.simps [code]

text \<open>One iteration of the loop over the virtual networks, on the whole matrices.\<close>

definition extend_vnet ::
    "nat \<Rightarrow> nat \<Rightarrow> matrix \<times> matrix \<times> matrix \<Rightarrow> (matrix \<times> matrix \<times> matrix) res option" where
  "extend_vnet n v = (\<lambda>(dist, lat, isw).
    case sweep_loop n \<lparr>sp_dist = dist v, sp_latencies = (\<lambda>i j. lat i j v),
        sp_inter_switches = (\<lambda>i j. isw i j v)\<rparr> of
      None \<Rightarrow> None
    | Some (Inl e) \<Rightarrow> Some (Inl e)
    | Some (Inr s) \<Rightarrow> Some (Inr (dist(v := sp_dist s),
        \<lambda>i j. (lat i j)(v := sp_latencies s i j), \<lambda>i j. (isw i j)(v := sp_inter_switches s i j))))"

fun extend_shortest_path ::
    "nat \<Rightarrow> nat list \<Rightarrow> matrix \<times> matrix \<times> matrix \<Rightarrow> (matrix \<times> matrix \<times> matrix) res option" where
  "extend_shortest_path n [] m = Some (Inr m)"
| "extend_shortest_path n (v # vs) m =
    (case extend_vnet n v m of
       None \<Rightarrow> None
     | Some (Inl e) \<Rightarrow> Some (Inl e)
     | Some (Inr m') \<Rightarrow> extend_shortest_path n vs m')"

definition link_is_shortest_path_to_node ::
    "nat \<Rightarrow> nat \<Rightarrow> nat \<Rightarrow> matrix \<Rightarrow> matrix \<Rightarrow> nat \<Rightarrow> bool" where
  "link_is_shortest_path_to_node src next final weights dist vnet \<longleftrightarrow>
    weights vnet src next + dist vnet next final = dist vnet src final"

definition shortest_path_to_node ::
    "machine_info \<Rightarrow> nat \<Rightarrow> nat \<Rightarrow> matrix \<Rightarrow> matrix \<Rightarrow> nat \<Rightarrow> net_dest res" where
  "shortest_path_to_node mt src next weights dist vnet =
    (let max_machines = mt_base_number mt (mt_NUM mt) in
     bindR (nd_new mt) (\<lambda>result.
     bindR (foldR (\<lambda>mach (result, d).
          bindR (if link_is_shortest_path_to_node src next (d + max_machines) weights dist vnet
                 then nd_add mt mach result else Inr result) (\<lambda>result'. Inr (result', d + 1)))
        (concat (map (\<lambda>m. map (Pair m) [0..<mt_base_count mt m]) [0..<mt_NUM mt])) (result, 0 :: nat))
       (\<lambda>(result', d). Inr result')))"

section \<open>Creating the links\<close>

text \<open>The calls \<open>createLinks\<close> makes on the network.\<close>

datatype net_call =
    MakeExtInLink nat nat BasicLink "net_dest list"
  | MakeExtOutLink nat nat BasicLink "net_dest list"
  | MakeInternalLink nat nat BasicLink "net_dest list" PortDirection PortDirection

text \<open>The virtual networks a link carries, all of them when none is named.\<close>

definition set_link_vnet ::
    "nat \<Rightarrow> BasicLink \<Rightarrow> nat \<Rightarrow> nat \<Rightarrow> int \<Rightarrow> matrix \<times> matrix \<times> bool list \<Rightarrow> (matrix \<times> matrix \<times> bool list) res" where
  "set_link_vnet vnets link src dst v = (\<lambda>(weights, lat, vnet_done).
    guardR (v < int vnets) (Fatal ''Not enough virtual networks'')
    (bindR (nthR vnet_done v) (\<lambda>done.
     guardR (\<not> done) (Fatal ''Two links connecting same src and destination cannot support same vnets'')
     (let u = nat v in
      Inr (weights(u := upd2 (weights u) src dst (bl_weight link)),
           lat(src := (lat src)(dst := (lat src dst)(u := bl_latency link))), vnet_done[u := True])))))"

definition fill_group ::
    "nat \<Rightarrow> (nat \<times> nat) \<times> LinkEntry list \<Rightarrow> matrix \<times> matrix \<Rightarrow> (matrix \<times> matrix) res" where
  "fill_group vnets = (\<lambda>((src, dst), entries) (weights, lat).
    bindR (foldR (\<lambda>e. foldR (set_link_vnet vnets (le_link e) src dst)
               (if bl_mVnets (le_link e) = [] then upto_int vnets else bl_mVnets (le_link e)))
            entries (weights, lat, replicate vnets False))
      (\<lambda>(weights', lat', vnet_done). Inr (weights', lat')))"

definition max_switch_id :: "link_map \<Rightarrow> nat" where
  "max_switch_id lm = fold (\<lambda>(k, es) m. max (max m (fst k)) (snd k)) lm 0"

definition initial_weights :: "nat \<Rightarrow> matrix" where
  "initial_weights n = (\<lambda>v i j. if i = j \<and> i < n then 0 else INFINITE_LATENCY)"

definition topology_weights :: "Topology \<Rightarrow> (matrix \<times> matrix) res" where
  "topology_weights tp =
    foldR (fill_group (tp_vnets tp)) (tp_link_map tp)
      (initial_weights (max_switch_id (tp_link_map tp) + 1), \<lambda>i j v. -1)"

text \<open>\<open>linkRoute\<close>: the entries of the virtual networks the link carries.\<close>

definition link_route :: "machine_info \<Rightarrow> nat \<Rightarrow> BasicLink \<Rightarrow> net_dest list \<Rightarrow> net_dest list res" where
  "link_route mt vnets link routing_table_entry =
    (if bl_mVnets link = [] then Inr routing_table_entry
     else bindR (nd_new mt) (\<lambda>empty.
       foldR (\<lambda>v route. bindR (nthR routing_table_entry v) (setR route v))
         (bl_mVnets link) (replicate vnets empty)))"

definition make_entry ::
    "machine_info \<Rightarrow> Topology \<Rightarrow> nat \<Rightarrow> nat \<Rightarrow> net_dest list \<Rightarrow> LinkEntry \<Rightarrow> net_call res" where
  "make_entry mt tp src dest entry e =
    bindR (link_route mt (tp_vnets tp) (le_link e) entry) (\<lambda>route.
      if src < tp_nodes tp then Inr (MakeExtInLink src (dest - 2 * tp_nodes tp) (le_link e) route)
      else if dest < 2 * tp_nodes tp then
        guardR (dest \<ge> tp_nodes tp) (Assert_failed ''dest >= m_nodes'')
        (Inr (MakeExtOutLink (src - 2 * tp_nodes tp) (dest - tp_nodes tp) (le_link e) route))
      else
        guardR (src \<ge> 2 * tp_nodes tp \<and> dest \<ge> 2 * tp_nodes tp)
          (Assert_failed ''(src >= 2 * m_nodes) && (dest >= 2 * m_nodes)'')
        (Inr (MakeInternalLink (src - 2 * tp_nodes tp) (dest - 2 * tp_nodes tp) (le_link e) route
          (le_src_outport_dirn e) (le_dst_inport_dirn e))))"

definition makeLink ::
    "machine_info \<Rightarrow> Topology \<Rightarrow> nat \<Rightarrow> nat \<Rightarrow> net_dest list \<Rightarrow> net_call list res" where
  "makeLink mt tp src dest routing_table_entry =
    guardR (src \<ge> 2 * tp_nodes tp \<or> dest \<ge> 2 * tp_nodes tp)
      (Assert_failed ''src >= 2 * m_nodes || dest >= 2 * m_nodes'')
    (foldR (\<lambda>e calls. bindR (make_entry mt tp src dest routing_table_entry e) (\<lambda>c. Inr (calls @ [c])))
      (case map_of (tp_link_map tp) (src, dest) of None \<Rightarrow> [] | Some es \<Rightarrow> es) [])"

definition real_weight :: "int \<Rightarrow> bool" where
  "real_weight w \<longleftrightarrow> w > 0 \<and> w \<noteq> INFINITE_LATENCY"

definition link_step ::
    "machine_info \<Rightarrow> Topology \<Rightarrow> matrix \<Rightarrow> matrix \<Rightarrow> nat \<times> nat \<Rightarrow> net_call list \<Rightarrow> net_call list res" where
  "link_step mt tp weights dist = (\<lambda>(i, j) calls.
    bindR (nd_new mt) (\<lambda>empty.
    bindR (foldR (\<lambda>v route.
             if real_weight (weights v i j)
             then bindR (shortest_path_to_node mt i j weights dist v) (\<lambda>r. Inr (route[v := r]))
             else Inr route) [0..<tp_vnets tp] (replicate (tp_vnets tp) empty)) (\<lambda>routingMap.
    if list_ex (\<lambda>v. real_weight (weights v i j)) [0..<tp_vnets tp]
    then bindR (makeLink mt tp i j routingMap) (\<lambda>cs. Inr (calls @ cs))
    else Inr calls)))"

definition createLinks :: "machine_info \<Rightarrow> Topology \<Rightarrow> net_call list res option" where
  "createLinks mt tp =
    (case topology_weights tp of
       Inl e \<Rightarrow> Some (Inl e)
     | Inr (weights, lat) \<Rightarrow>
         let n = max_switch_id (tp_link_map tp) + 1 in
         (case extend_shortest_path n [0..<tp_vnets tp] (weights, lat, \<lambda>i j v. 0) of
            None \<Rightarrow> None
          | Some (Inl e) \<Rightarrow> Some (Inl e)
          | Some (Inr (dist, lat', isw)) \<Rightarrow>
              Some (foldR (link_step mt tp weights dist) (List.product [0..<n] [0..<n]) [])))"

section \<open>The loop finds the shortest paths\<close>

text \<open>The specification: walks over the switches and their weight.\<close>

fun path_weight :: "(nat \<Rightarrow> nat \<Rightarrow> int) \<Rightarrow> nat list \<Rightarrow> int" where
  "path_weight w (x # y # r) = w x y + path_weight w (y # r)"
| "path_weight w _ = 0"

definition is_walk :: "nat \<Rightarrow> nat \<Rightarrow> nat \<Rightarrow> nat list \<Rightarrow> bool" where
  "is_walk n i j p \<longleftrightarrow> p \<noteq> [] \<and> set p \<subseteq> {..<n} \<and> hd p = i \<and> last p = j"

definition is_distance :: "nat \<Rightarrow> (nat \<Rightarrow> nat \<Rightarrow> int) \<Rightarrow> (nat \<Rightarrow> nat \<Rightarrow> int) \<Rightarrow> bool" where
  "is_distance n w d \<longleftrightarrow> (\<forall>i < n. \<forall>j < n.
    (\<exists>p. is_walk n i j p \<and> path_weight w p = d i j) \<and>
    (\<forall>p. is_walk n i j p \<longrightarrow> d i j \<le> path_weight w p))"

lemma path_weight_join:
  assumes "p \<noteq> []" "q \<noteq> []" "last p = hd q"
  shows "path_weight w (p @ tl q) = path_weight w p + path_weight w q"
  using assms
proof (induction p)
  case Nil
  then show ?case by simp
next
  case (Cons x p)
  show ?case
  proof (cases p)
    case Nil
    with Cons.prems have "x # tl q = q" by (cases q) auto
    with Nil show ?thesis by simp
  next
    case (Cons y r)
    with Cons.prems Cons.IH show ?thesis by simp
  qed
qed

lemma is_walk_join:
  assumes "is_walk n i k p" "is_walk n k j q"
  shows "is_walk n i j (p @ tl q)" "path_weight w (p @ tl q) = path_weight w p + path_weight w q"
proof -
  have "last (p @ tl q) = j"
    using assms by (cases q; cases "tl q") (auto simp: is_walk_def)
  moreover have "set (tl q) \<subseteq> set q" by (cases q) auto
  ultimately show "is_walk n i j (p @ tl q)" using assms by (auto simp: is_walk_def)
  show "path_weight w (p @ tl q) = path_weight w p + path_weight w q"
    using assms by (intro path_weight_join) (auto simp: is_walk_def)
qed

lemma k_loop:
  "\<exists>m is isw'. fold (k_step d i j) [0..<n] (d i j, -1, isw) = (m, is, isw') \<and>
    m \<le> d i j \<and> (\<forall>k < n. m \<le> d i k + d k j) \<and>
    (m \<noteq> d i j \<longrightarrow> 0 \<le> is \<and> is < int n \<and> m = d i (nat is) + d (nat is) j)"
proof (induction n)
  case 0
  show ?case by simp
next
  case (Suc n)
  then obtain m "is" isw' where IH: "fold (k_step d i j) [0..<n] (d i j, -1, isw) = (m, is, isw')"
      "m \<le> d i j" "\<forall>k < n. m \<le> d i k + d k j"
      "m \<noteq> d i j \<longrightarrow> 0 \<le> is \<and> is < int n \<and> m = d i (nat is) + d (nat is) j" by blast
  have step: "fold (k_step d i j) [0..<Suc n] (d i j, -1, isw) = k_step d i j n (m, is, isw')"
    using IH(1) by simp
  show ?case
  proof (cases "d i n + d n j < m")
    case True
    then have "k_step d i j n (m, is, isw') = (d i n + d n j, int n, upd2 isw' i j (isw' i n + isw' n j + 1))"
      by (simp add: k_step_def min_def)
    moreover have "\<forall>k < Suc n. d i n + d n j \<le> d i k + d k j"
      using True IH(3) by (auto simp: less_Suc_eq)
    ultimately show ?thesis unfolding step using True IH(2) by auto
  next
    case False
    then have "k_step d i j n (m, is, isw') = (m, is, isw')" by (simp add: k_step_def min_def)
    with False IH show ?thesis unfolding step by (auto simp: less_Suc_eq)
  qed
qed

lemma relax_pair_eq:
  "\<exists>m s'. relax_pair n (i, j) (change, s) = Inr (change \<or> m \<noteq> sp_dist s i j, s') \<and>
    sp_dist s' = upd2 (sp_dist s) i j m \<and>
    m \<le> sp_dist s i j \<and> (\<forall>k < n. m \<le> sp_dist s i k + sp_dist s k j) \<and>
    (m \<noteq> sp_dist s i j \<longrightarrow> (\<exists>k < n. m = sp_dist s i k + sp_dist s k j))"
proof -
  let ?d = "sp_dist s"
  obtain m "is" isw' where k: "fold (k_step ?d i j) [0..<n] (?d i j, -1, sp_inter_switches s) = (m, is, isw')"
      "m \<le> ?d i j" "\<forall>k < n. m \<le> ?d i k + ?d k j"
      "m \<noteq> ?d i j \<longrightarrow> 0 \<le> is \<and> is < int n \<and> m = ?d i (nat is) + ?d (nat is) j"
    using k_loop [of ?d i j n "sp_inter_switches s"] by blast
  show ?thesis
  proof (cases "m = ?d i j")
    case True
    with k show ?thesis by (intro exI [of _ m]) (simp add: relax_pair_def upd2_def)
  next
    case False
    then have "nat is < n" using k(4) by linarith
    with False k show ?thesis by (intro exI [of _ m]) (auto simp: relax_pair_def Let_def)
  qed
qed

text \<open>What every state of the loop satisfies: distances of walks, not above the weights.\<close>

definition sp_inv :: "nat \<Rightarrow> (nat \<Rightarrow> nat \<Rightarrow> int) \<Rightarrow> (nat \<Rightarrow> nat \<Rightarrow> int) \<Rightarrow> bool" where
  "sp_inv n w d \<longleftrightarrow> (\<forall>i < n. \<forall>j < n. 0 \<le> d i j \<and> d i j \<le> w i j \<and>
    (\<exists>p. is_walk n i j p \<and> path_weight w p = d i j))"

definition sp_measure :: "nat \<Rightarrow> (nat \<Rightarrow> nat \<Rightarrow> int) \<Rightarrow> nat" where
  "sp_measure n d = (\<Sum>i<n. \<Sum>j<n. nat (d i j))"

lemma sp_measure_upd:
  assumes "i < n" "j < n" "0 \<le> m" "m \<le> d i j"
  shows "sp_measure n (upd2 d i j m) + nat (d i j) = sp_measure n d + nat m"
proof -
  let ?row = "\<lambda>d i. \<Sum>j<n. nat (d i j)"
  have row: "?row (upd2 d i j m) i + nat (d i j) = ?row d i + nat m"
    using assms(2) by (simp add: upd2_def sum.remove [of "{..<n}" j])
  have "(\<Sum>x \<in> {..<n} - {i}. ?row (upd2 d i j m) x) = (\<Sum>x \<in> {..<n} - {i}. ?row d x)"
    by (intro sum.cong) (auto simp: upd2_def)
  with row assms(1) show ?thesis
    unfolding sp_measure_def by (simp add: sum.remove [of "{..<n}" i])
qed

lemma sp_inv_upd:
  assumes "sp_inv n w d" "i < n" "j < n" "m = d i j \<or> (\<exists>k < n. m = d i k + d k j)" "m \<le> d i j"
  shows "sp_inv n w (upd2 d i j m)" and "0 \<le> m"
proof -
  have "0 \<le> m \<and> (\<exists>p. is_walk n i j p \<and> path_weight w p = m)"
    using assms(4)
  proof
    assume "m = d i j"
    with assms(1-3) show ?thesis by (simp add: sp_inv_def)
  next
    assume "\<exists>k < n. m = d i k + d k j"
    then obtain k where k: "k < n" "m = d i k + d k j" by blast
    with assms(1-3) obtain p q where "is_walk n i k p" "path_weight w p = d i k"
        "is_walk n k j q" "path_weight w q = d k j" "0 \<le> d i k" "0 \<le> d k j"
      unfolding sp_inv_def by meson
    with is_walk_join(1) [of n i k p j q] is_walk_join(2) [of n i k p j q w] k show ?thesis by auto
  qed
  then show "sp_inv n w (upd2 d i j m)" "0 \<le> m"
    using assms(1,2,3,5) unfolding sp_inv_def upd2_def by (auto intro: order_trans)
qed

lemma sweep_pairs:
  assumes "sp_inv n w (sp_dist s)" and "set ps \<subseteq> {..<n} \<times> {..<n}"
  shows "\<exists>c s'. foldR (relax_pair n) ps (change, s) = Inr (c, s') \<and> sp_inv n w (sp_dist s') \<and>
    sp_measure n (sp_dist s') \<le> sp_measure n (sp_dist s) \<and>
    (c \<longrightarrow> change \<or> sp_measure n (sp_dist s') < sp_measure n (sp_dist s)) \<and>
    (\<not> c \<longrightarrow> \<not> change \<and> sp_dist s' = sp_dist s \<and>
      (\<forall>(i, j) \<in> set ps. \<forall>k < n. sp_dist s i j \<le> sp_dist s i k + sp_dist s k j))"
  using assms
proof (induction ps arbitrary: change s)
  case Nil
  then show ?case by simp
next
  case (Cons ij ps)
  obtain i j where ij: "ij = (i, j)" "i < n" "j < n" using Cons.prems(2) by (cases ij) auto
  obtain m s1 where r: "relax_pair n (i, j) (change, s) = Inr (change \<or> m \<noteq> sp_dist s i j, s1)"
      "sp_dist s1 = upd2 (sp_dist s) i j m" "m \<le> sp_dist s i j"
      "\<forall>k < n. m \<le> sp_dist s i k + sp_dist s k j"
      "m \<noteq> sp_dist s i j \<longrightarrow> (\<exists>k < n. m = sp_dist s i k + sp_dist s k j)"
    using relax_pair_eq [of n i j change s] by blast
  have inv: "sp_inv n w (sp_dist s1)" and m: "0 \<le> m"
    using sp_inv_upd [OF Cons.prems(1) ij(2,3), of m] r(2,3,5) by auto
  have mu: "sp_measure n (sp_dist s1) + nat (sp_dist s i j) = sp_measure n (sp_dist s) + nat m"
    using sp_measure_upd [of i n j m "sp_dist s"] ij(2,3) m r(2,3) by simp
  obtain c s' where IH: "foldR (relax_pair n) ps (change \<or> m \<noteq> sp_dist s i j, s1) = Inr (c, s')"
      "sp_inv n w (sp_dist s')" "sp_measure n (sp_dist s') \<le> sp_measure n (sp_dist s1)"
      "c \<longrightarrow> (change \<or> m \<noteq> sp_dist s i j) \<or> sp_measure n (sp_dist s') < sp_measure n (sp_dist s1)"
      "\<not> c \<longrightarrow> \<not> (change \<or> m \<noteq> sp_dist s i j) \<and> sp_dist s' = sp_dist s1 \<and>
        (\<forall>(i, j) \<in> set ps. \<forall>k < n. sp_dist s1 i j \<le> sp_dist s1 i k + sp_dist s1 k j)"
    using Cons.IH [OF inv, of "change \<or> m \<noteq> sp_dist s i j"] Cons.prems(2) by auto
  have fold: "foldR (relax_pair n) (ij # ps) (change, s) = Inr (c, s')" using IH(1) r(1) ij(1) by simp
  have le: "sp_measure n (sp_dist s1) \<le> sp_measure n (sp_dist s)" using mu r(3) by linarith
  have less: "sp_measure n (sp_dist s1) < sp_measure n (sp_dist s)" if "m \<noteq> sp_dist s i j"
    using mu r(3) m that by linarith
  show ?case
  proof (cases c)
    case True
    with fold IH(2,3,4) le less show ?thesis by fastforce
  next
    case False
    with IH(5) have eq: "m = sp_dist s i j" "\<not> change" "sp_dist s' = sp_dist s1" by auto
    then have "sp_dist s1 = sp_dist s" using r(2) by (simp add: upd2_def)
    with False fold IH eq r(4) ij(1) show ?thesis by auto
  qed
qed

lemma sweep_total:
  assumes "sp_inv n w (sp_dist s)"
  shows "\<exists>c s'. sweep n s = Inr (c, s') \<and> sp_inv n w (sp_dist s') \<and>
    (c \<longrightarrow> sp_measure n (sp_dist s') < sp_measure n (sp_dist s)) \<and>
    (\<not> c \<longrightarrow> (\<forall>i < n. \<forall>j < n. \<forall>k < n. sp_dist s' i j \<le> sp_dist s' i k + sp_dist s' k j))"
proof -
  have "set (List.product [0..<n] [0..<n]) = {..<n} \<times> {..<n}" by auto
  with sweep_pairs [OF assms, of "List.product [0..<n] [0..<n]" False] show ?thesis
    unfolding sweep_def by fastforce
qed

lemma sweep_loop_total:
  assumes "sp_inv n w (sp_dist s)"
  shows "\<exists>s'. sweep_loop n s = Some (Inr s') \<and> sp_inv n w (sp_dist s') \<and>
    (\<forall>i < n. \<forall>j < n. \<forall>k < n. sp_dist s' i j \<le> sp_dist s' i k + sp_dist s' k j)"
  using assms
proof (induction "sp_measure n (sp_dist s)" arbitrary: s rule: less_induct)
  case less
  obtain c s1 where s1: "sweep n s = Inr (c, s1)" "sp_inv n w (sp_dist s1)"
      "c \<longrightarrow> sp_measure n (sp_dist s1) < sp_measure n (sp_dist s)"
      "\<not> c \<longrightarrow> (\<forall>i < n. \<forall>j < n. \<forall>k < n. sp_dist s1 i j \<le> sp_dist s1 i k + sp_dist s1 k j)"
    using sweep_total [OF less.prems] by blast
  show ?case
  proof (cases c)
    case True
    with less.hyps [of s1] s1 show ?thesis by (subst sweep_loop.simps) simp
  next
    case False
    with s1 show ?thesis by (subst sweep_loop.simps) simp
  qed
qed

lemma sp_inv_init:
  assumes "\<forall>i < n. \<forall>j < n. 0 \<le> w i j"
  shows "sp_inv n w w"
proof -
  have "is_walk n i j [i, j] \<and> path_weight w [i, j] = w i j" if "i < n" "j < n" for i j
    using that by (simp add: is_walk_def)
  with assms show ?thesis unfolding sp_inv_def by blast
qed

lemma sp_closed_distance:
  assumes "sp_inv n w d" "\<forall>i < n. w i i = 0"
    and "\<forall>i < n. \<forall>j < n. \<forall>k < n. d i j \<le> d i k + d k j"
  shows "is_distance n w d"
proof -
  have lower: "d (hd p) (last p) \<le> path_weight w p" if "p \<noteq> []" "set p \<subseteq> {..<n}" for p
    using that
  proof (induction p rule: induct_list012)
    case (3 x y r)
    then have "d y (last (y # r)) \<le> path_weight w (y # r)" by simp
    moreover have "last (y # r) < n" using 3(4) by (metis last_in_set list.distinct(1) lessThan_iff set_subset_Cons subsetD)
    then have "d x (last (y # r)) \<le> d x y + d y (last (y # r))" "d x y \<le> w x y"
      using 3(4) assms(1,3) by (auto simp: sp_inv_def)
    ultimately show ?case by simp
  next
    case (2 x)
    with assms(1,2) show ?case by (force simp: sp_inv_def)
  qed simp
  show ?thesis unfolding is_distance_def
  proof (intro allI impI conjI)
    fix i j assume "i < n" "j < n"
    then show "\<exists>p. is_walk n i j p \<and> path_weight w p = d i j" using assms(1) by (simp add: sp_inv_def)
  next
    fix i j p assume "is_walk n i j p"
    then show "d i j \<le> path_weight w p" using lower [of p] by (auto simp: is_walk_def)
  qed
qed

lemma extend_vnet_correct:
  assumes "\<forall>i < n. \<forall>j < n. 0 \<le> dist v i j" "\<forall>i < n. dist v i i = 0"
  shows "\<exists>d lat' isw'. extend_vnet n v (dist, lat, isw) = Some (Inr (dist(v := d), lat', isw')) \<and>
    is_distance n (dist v) d"
proof -
  let ?s = "\<lparr>sp_dist = dist v, sp_latencies = (\<lambda>i j. lat i j v), sp_inter_switches = (\<lambda>i j. isw i j v)\<rparr>"
  have "sp_inv n (dist v) (sp_dist ?s)" using sp_inv_init [OF assms(1)] by simp
  from sweep_loop_total [OF this] obtain s' where
    "sweep_loop n ?s = Some (Inr s')" "sp_inv n (dist v) (sp_dist s')"
    "\<forall>i < n. \<forall>j < n. \<forall>k < n. sp_dist s' i j \<le> sp_dist s' i k + sp_dist s' k j" by blast
  with sp_closed_distance [OF this(2) assms(2) this(3)] show ?thesis by (auto simp: extend_vnet_def)
qed

lemma paths_correct:
  assumes "\<forall>v \<in> set vs. \<forall>i < n. (\<forall>j < n. 0 \<le> weights v i j) \<and> weights v i i = 0"
    and "distinct vs"
  shows "\<exists>dist lat' isw'. extend_shortest_path n vs (weights, lat, isw) = Some (Inr (dist, lat', isw')) \<and>
    (\<forall>v \<in> set vs. is_distance n (weights v) (dist v)) \<and> (\<forall>v. v \<notin> set vs \<longrightarrow> dist v = weights v)"
  using assms
proof (induction vs arbitrary: weights lat isw)
  case Nil
  then show ?case by simp
next
  case (Cons v vs)
  from extend_vnet_correct [of n weights v lat isw] Cons.prems(1) obtain d lat1 isw1 where
    e: "extend_vnet n v (weights, lat, isw) = Some (Inr (weights(v := d), lat1, isw1))"
      "is_distance n (weights v) d" by auto
  have "\<forall>u \<in> set vs. (weights(v := d)) u = weights u" using Cons.prems(2) by auto
  with Cons.IH [of "weights(v := d)" lat1 isw1] Cons.prems obtain dist lat' isw' where
    "extend_shortest_path n vs (weights(v := d), lat1, isw1) = Some (Inr (dist, lat', isw'))"
    "\<forall>u \<in> set vs. is_distance n (weights u) (dist u)"
    "\<forall>u. u \<notin> set vs \<longrightarrow> dist u = (weights(v := d)) u"
    by (force simp del: fun_upd_apply)
  with e Cons.prems(2) show ?case by auto
qed

text \<open>
  C9: With weights that are not negative and zero from a switch to itself, the computation of
  the shortest paths ends, without failing an assertion, for every virtual network and any
  number of switches, and its result is exactly the distance: the least weight of any walk
  over the switches, reached by one.
\<close>

theorem shortest_paths_correct:
  assumes "\<forall>v \<in> set vs. \<forall>i < n. (\<forall>j < n. 0 \<le> weights v i j) \<and> weights v i i = 0"
    and "distinct vs"
  shows "\<exists>dist lat' isw'. extend_shortest_path n vs (weights, lat, isw) = Some (Inr (dist, lat', isw')) \<and>
    (\<forall>v \<in> set vs. is_distance n (weights v) (dist v)) \<and> (\<forall>v. v \<notin> set vs \<longrightarrow> dist v = weights v)"
  using paths_correct [OF assms] .

definition example_weights :: matrix where
  "example_weights v i j = (if i = j then 0 else if j = i + 1 then 1 else if i = j + 1 then 2 else 10000)"

lemma shortest_paths_correct_witness:
  "\<exists>dist lat' isw'. extend_shortest_path 3 [0] (example_weights, \<lambda>i j v. -1, \<lambda>i j v. 0)
      = Some (Inr (dist, lat', isw')) \<and> is_distance 3 (example_weights 0) (dist 0)"
  using shortest_paths_correct [of "[0]" 3 example_weights "\<lambda>i j v. -1" "\<lambda>i j v. 0"]
  by (force simp: example_weights_def [of 0] simp del: extend_shortest_path.simps)

section \<open>The routing tables lead to the destination\<close>

text \<open>Weights as a topology has them: positive, \<open>INFINITE_LATENCY\<close> where there is no link.\<close>

definition link_weights :: "nat \<Rightarrow> (nat \<Rightarrow> nat \<Rightarrow> int) \<Rightarrow> bool" where
  "link_weights n w \<longleftrightarrow> (\<forall>i < n. w i i = 0 \<and> (\<forall>j < n. i \<noteq> j \<longrightarrow> 0 < w i j))"

text \<open>The switches the tables of \<open>src\<close> offer for a packet to \<open>final\<close>.\<close>

definition table_hop :: "nat \<Rightarrow> matrix \<Rightarrow> matrix \<Rightarrow> nat \<Rightarrow> nat \<Rightarrow> nat \<Rightarrow> nat \<Rightarrow> bool" where
  "table_hop n weights dist v final src next \<longleftrightarrow> next < n \<and> real_weight (weights v src next) \<and>
    link_is_shortest_path_to_node src next final weights dist v"

lemma table_hop_closer:
  "table_hop n weights dist v final src next \<Longrightarrow> dist v next final < dist v src final"
  by (auto simp: table_hop_def real_weight_def link_is_shortest_path_to_node_def)

lemma distance_nonneg:
  assumes "is_distance n w d" "link_weights n w" "i < n" "j < n"
  shows "0 \<le> d i j"
proof -
  have "0 \<le> path_weight w p" if "set p \<subseteq> {..<n}" for p
    using that
  proof (induction p rule: induct_list012)
    case (3 x y r)
    have "0 \<le> w x y" using assms(2) 3(3) by (cases "x = y") (force simp: link_weights_def)+
    with 3 show ?case by simp
  qed simp_all
  with assms show ?thesis unfolding is_distance_def is_walk_def by metis
qed

lemma first_hop:
  assumes "link_weights n w" "is_distance n w d" "is_walk n src final p" "src \<noteq> final"
    and "path_weight w p = d src final" "d src final < INFINITE_LATENCY"
  shows "\<exists>next < n. real_weight (w src next) \<and> w src next + d next final = d src final"
  using assms(3-6)
proof (induction p rule: induct_list012)
  case (3 x y r)
  have x: "x = src" "src < n" "y < n" and walk: "is_walk n y final (y # r)" and fn: "final < n"
    using 3(3) by (auto simp: is_walk_def) (metis last_in_set lessThan_iff subsetD list.distinct(1))
  have le: "d y final \<le> path_weight w (y # r)" using assms(2) walk x fn by (auto simp: is_distance_def)
  show ?case
  proof (cases "y = src")
    case True
    have "path_weight w (y # r) = d src final" using 3(5) x True assms(1) by (simp add: link_weights_def)
    with 3(2) walk 3(4,6) True show ?thesis by simp
  next
    case False
    have pos: "0 < w src y" using assms(1) x False by (auto simp: link_weights_def)
    obtain q where "is_walk n y final q" "path_weight w q = d y final"
      using assms(2) x fn unfolding is_distance_def by blast
    then have "is_walk n src final (src # q)" "path_weight w (src # q) = w src y + d y final"
      using x by (cases q; auto simp: is_walk_def)+
    then have "d src final \<le> w src y + d y final" using assms(2) x fn unfolding is_distance_def by metis
    with 3(5) le x have eq: "w src y + d y final = d src final" by simp
    moreover have "0 \<le> d y final" by (rule distance_nonneg [OF assms(2,1) x(3) fn])
    ultimately have "real_weight (w src y)" using pos 3(6) by (simp add: real_weight_def)
    with eq x show ?thesis by blast
  qed
qed (auto simp: is_walk_def)

text \<open>
  From every switch that can reach the destination the shortest paths offer a next switch; and
  whichever of the offered switches each switch on the way takes, the packet arrives, after no
  more hops than the distance is long, every hop coming closer: there is no routing loop.
\<close>

lemma hops_deliver:
  assumes "link_weights n (weights v)" and "is_distance n (weights v) (dist v)"
    and "final < n" and "src < n" and "dist v src final < INFINITE_LATENCY"
  shows "(src \<noteq> final \<longrightarrow> (\<exists>next. table_hop n weights dist v final src next)) \<and>
    ((\<forall>s < n. s \<noteq> final \<and> dist v s final < INFINITE_LATENCY \<longrightarrow>
        table_hop n weights dist v final s (pick s)) \<longrightarrow>
      (\<exists>m. int m \<le> dist v src final \<and> (pick ^^ m) src = final))"
proof -
  have offer: "\<exists>next. table_hop n weights dist v final s next"
    if "s < n" "s \<noteq> final" "dist v s final < INFINITE_LATENCY" for s
  proof -
    obtain p where "is_walk n s final p" "path_weight (weights v) p = dist v s final"
      using assms(2,3) \<open>s < n\<close> unfolding is_distance_def by blast
    from first_hop [OF assms(1,2) this(1) that(2) this(2) that(3)] show ?thesis
      by (auto simp: table_hop_def link_is_shortest_path_to_node_def)
  qed
  moreover have "\<exists>m. int m \<le> dist v s final \<and> (pick ^^ m) s = final"
    if ch: "\<forall>s < n. s \<noteq> final \<and> dist v s final < INFINITE_LATENCY \<longrightarrow>
        table_hop n weights dist v final s (pick s)"
      and s: "s < n" "dist v s final < INFINITE_LATENCY" for s
    using s
  proof (induction "nat (dist v s final)" arbitrary: s rule: less_induct)
    case less
    have nonneg: "0 \<le> dist v s final" by (rule distance_nonneg [OF assms(2,1) less.prems(1) assms(3)])
    show ?case
    proof (cases "s = final")
      case True
      with nonneg show ?thesis by (intro exI [of _ 0]) simp
    next
      case False
      then have hop: "table_hop n weights dist v final s (pick s)" using ch less.prems by blast
      have closer: "dist v (pick s) final < dist v s final" by (rule table_hop_closer [OF hop])
      have c: "pick s < n" using hop by (simp add: table_hop_def)
      have "0 \<le> dist v (pick s) final" by (rule distance_nonneg [OF assms(2,1) c assms(3)])
      with closer less.hyps [of "pick s"] c less.prems(2) obtain m where
        "int m \<le> dist v (pick s) final" "(pick ^^ m) (pick s) = final" by force
      with closer show ?thesis
        by (intro exI [of _ "Suc m"]) (simp add: funpow_swap1)
    qed
  qed
  ultimately show ?thesis using assms(4,5) by blast
qed

definition example_dist :: matrix where
  "example_dist v i j = (if i \<le> j then int (j - i) else 2 * int (i - j))"

lemma example_dist_correct: "is_distance 3 (example_weights 0) (example_dist 0)"
proof (rule sp_closed_distance)
  let ?p = "\<lambda>i j. if i \<le> j then [i..<Suc j] else rev [j..<Suc i]"
  have "is_walk 3 i j (?p i j) \<and> path_weight (example_weights 0) (?p i j) = example_dist 0 i j
      \<and> 0 \<le> example_dist 0 i j \<and> example_dist 0 i j \<le> example_weights 0 i j"
    if "i < 3" "j < 3" for i j :: nat
  proof -
    have "i \<in> {0, 1, 2}" "j \<in> {0, 1, 2}" using that by auto
    then show ?thesis by (elim insertE emptyE) (simp_all add: example_dist_def example_weights_def is_walk_def upt_rec)
  qed
  then show "sp_inv 3 (example_weights 0) (example_dist 0)" unfolding sp_inv_def by blast
qed (auto simp: example_weights_def example_dist_def)

section \<open>The destinations behind a link\<close>

text \<open>The inner loop of \<open>shortest_path_to_node\<close>, over the machines of one type.\<close>

lemma collect_machines:
  assumes "nd_ok mt r" "m < mt_NUM mt" "k \<le> mt_base_count mt m"
  shows "\<exists>r'. foldR (\<lambda>mach (result, d). bindR (if Q d then nd_add mt mach result else Inr result)
      (\<lambda>result'. Inr (result', d + 1))) (map (Pair m) [0..<k]) (r, b :: nat) = Inr (r', b + k) \<and>
    nd_ok mt r' \<and> nd_abs r' = nd_abs r \<union> {(m, i) |i. i < k \<and> Q (b + i)}"
  using assms(3)
proof (induction k)
  case 0
  with assms(1) show ?case by simp
next
  case (Suc k)
  let ?f = "\<lambda>mach (result, d). bindR (if Q d then nd_add mt mach result else Inr result)
      (\<lambda>result'. Inr (result', d + 1))"
  from Suc obtain r1 where r1: "foldR ?f (map (Pair m) [0..<k]) (r, b) = Inr (r1, b + k)" "nd_ok mt r1"
      "nd_abs r1 = nd_abs r \<union> {(m, i) |i. i < k \<and> Q (b + i)}" by auto
  have legal: "(m, k) \<in> nd_legal mt" using assms(2) Suc.prems by (simp add: nd_legal_def)
  obtain r2 where r2: "(if Q (b + k) then nd_add mt (m, k) r1 else Inr r1) = Inr r2" "nd_ok mt r2"
      "nd_abs r2 = (if Q (b + k) then insert (m, k) (nd_abs r1) else nd_abs r1)"
    using nd.add_ok [OF r1(2) legal] r1(2) by (cases "Q (b + k)") auto
  have "foldR ?f (map (Pair m) [0..<Suc k]) (r, b) = Inr (r2, b + Suc k)"
    using r1(1) r2(1) by (simp add: foldR_append)
  moreover have "nd_abs r2 = nd_abs r \<union> {(m, i) |i. i < Suc k \<and> Q (b + i)}"
    using r1(3) r2(3) by (auto simp: less_Suc_eq)
  ultimately show ?case using r2(2) by blast
qed

text \<open>The outer loop, over the machine types.\<close>

lemma collect_types:
  assumes "machine_ok mt" "nd_ok mt r" "n \<le> mt_NUM mt"
  shows "\<exists>r'. foldR (\<lambda>mach (result, d). bindR (if Q d then nd_add mt mach result else Inr result)
      (\<lambda>result'. Inr (result', d + 1)))
      (concat (map (\<lambda>m. map (Pair m) [0..<mt_base_count mt m]) [0..<n])) (r, 0) = Inr (r', mt_base_number mt n) \<and>
    nd_ok mt r' \<and> nd_abs r' = nd_abs r \<union>
      {(m, i) |m i. m < n \<and> i < mt_base_count mt m \<and> Q (mt_base_number mt m + i)}"
  using assms(3)
proof (induction n)
  case 0
  with assms(1,2) show ?case by (simp add: machine_ok_def)
next
  case (Suc n)
  let ?f = "\<lambda>mach (result, d). bindR (if Q d then nd_add mt mach result else Inr result)
      (\<lambda>result'. Inr (result', d + 1))"
  let ?block = "\<lambda>m. map (Pair m) [0..<mt_base_count mt m]"
  from Suc obtain r1 where r1: "foldR ?f (concat (map ?block [0..<n])) (r, 0) = Inr (r1, mt_base_number mt n)"
      "nd_ok mt r1" "nd_abs r1 = nd_abs r \<union>
        {(m, i) |m i. m < n \<and> i < mt_base_count mt m \<and> Q (mt_base_number mt m + i)}" by auto
  obtain r2 where r2: "foldR ?f (?block n) (r1, mt_base_number mt n) = Inr (r2, mt_base_number mt (Suc n))"
      "nd_ok mt r2" "nd_abs r2 = nd_abs r1 \<union> {(n, i) |i. i < mt_base_count mt n \<and> Q (mt_base_number mt n + i)}"
    using collect_machines [OF r1(2), of n "mt_base_count mt n" Q "mt_base_number mt n"] Suc.prems
      base_number_Suc [OF assms(1), of n] by auto
  have "foldR ?f (concat (map ?block [0..<Suc n])) (r, 0) = Inr (r2, mt_base_number mt (Suc n))"
    using r1(1) r2(1) by (simp add: foldR_append)
  moreover have "nd_abs r2 = nd_abs r \<union>
      {(m, i) |m i. m < Suc n \<and> i < mt_base_count mt m \<and> Q (mt_base_number mt m + i)}"
    using r1(3) r2(3) by (auto simp: less_Suc_eq)
  ultimately show ?case using r2(2) by blast
qed

text \<open>
  The routing table entry of a link holds exactly the machines the link leads to: a
  machine is in the set computed for the link from \<open>src\<close> to \<open>next\<close> if and only if
  that link lies on a shortest path to the destination switch of the machine.
\<close>

theorem shortest_path_to_node_correct:
  assumes "machine_ok mt"
  shows "\<exists>result. shortest_path_to_node mt src next weights dist vnet = Inr result \<and> nd_ok mt result \<and>
    (\<forall>m i. (m, i) \<in> nd_abs result \<longleftrightarrow> m < mt_NUM mt \<and> i < mt_base_count mt m \<and>
      weights vnet src next + dist vnet next (mt_base_number mt (mt_NUM mt) + (mt_base_number mt m + i))
        = dist vnet src (mt_base_number mt (mt_NUM mt) + (mt_base_number mt m + i)))"
proof -
  let ?Q = "\<lambda>d. link_is_shortest_path_to_node src next (d + mt_base_number mt (mt_NUM mt)) weights dist vnet"
  obtain d where d: "nd_new mt = Inr d" "nd_ok mt d" "nd_abs d = {}" using nd_new_ok [OF assms] by blast
  from collect_types [OF assms d(2) order_refl, of ?Q] obtain r where
    "foldR (\<lambda>mach (result, d). bindR (if ?Q d then nd_add mt mach result else Inr result)
      (\<lambda>result'. Inr (result', d + 1)))
      (concat (map (\<lambda>m. map (Pair m) [0..<mt_base_count mt m]) [0..<mt_NUM mt])) (d, 0)
        = Inr (r, mt_base_number mt (mt_NUM mt))" "nd_ok mt r"
    "nd_abs r = {(m, i) |m i. m < mt_NUM mt \<and> i < mt_base_count mt m \<and> ?Q (mt_base_number mt m + i)}"
    using d(3) by auto
  with d(1) show ?thesis
    by (auto simp: shortest_path_to_node_def link_is_shortest_path_to_node_def Let_def add.commute)
qed

lemma shortest_path_to_node_correct_witness:
  "\<exists>result. shortest_path_to_node example_machines 10 11 example_weights example_dist 0 = Inr result \<and>
    (0, 2) \<notin> nd_abs result"
proof -
  obtain result where "shortest_path_to_node example_machines 10 11 example_weights example_dist 0 = Inr result"
    "(0, 2) \<in> nd_abs result \<longleftrightarrow> example_weights 0 10 11 + example_dist 0 11 7 = example_dist 0 10 7"
    using shortest_path_to_node_correct [OF example_machines_ok, of 10 11 example_weights example_dist 0]
    by (auto simp: example_machines_def)
  then show ?thesis by (auto simp: example_weights_def example_dist_def)
qed

end
