(* ===== verification/Network.thy ===== *)
theory Network
  imports MessageBuffer Topology
begin

text \<open>
  \<open>Network\<close> (\<open>Network.hh\<close>, \<open>Network.cc\<close>), the base class of \<open>GarnetNetwork\<close>: the
  numbering of the nodes of this network, the queues between the controllers and the
  network, and the sizes of messages.
\<close>

section \<open>State and construction\<close>

text \<open>\<open>'r\<close> is the type of address ranges, which are not part of the network code.\<close>

record 'r Network =
  nw_nodes :: nat
  nw_virtual_networks :: nat
  nw_vnet_type_names :: "string list"
  nw_control_msg_size :: int
  nw_data_msg_size :: int
  nw_toNetQueues :: "MessageBuffer option list list"
  nw_fromNetQueues :: "MessageBuffer option list list"
  nw_ordered :: "bool list"
  nw_addrMap :: "(nat \<times> nat \<times> 'r list) list"
  nw_globalToLocalMap :: "(nat \<times> nat) list"
  nw_topology :: Topology

text \<open>\<open>localNodeVersions\<close>: the versions of a machine type, in the order of the external links.\<close>

definition localNodeVersions :: "BasicExtLink list \<Rightarrow> nat \<Rightarrow> nat list" where
  "localNodeVersions ext_links ty = map (snd \<circ> el_machine) (filter (\<lambda>l. fst (el_machine l) = ty) ext_links)"

text \<open>
  The loop that numbers the nodes; \<open>emplace\<close> keeps the first entry of a key, the count goes
  on in any case.
\<close>

definition number_node :: "nat \<Rightarrow> (nat \<times> nat) list \<times> nat \<Rightarrow> (nat \<times> nat) list \<times> nat" where
  "number_node global_id = (\<lambda>(m, local_id).
    (case map_of m global_id of None \<Rightarrow> m @ [(global_id, local_id)] | Some _ \<Rightarrow> m, local_id + 1))"

definition number_nodes :: "machine_info \<Rightarrow> BasicExtLink list \<Rightarrow> (nat \<times> nat) list \<times> nat" where
  "number_nodes mt ext_links =
    fold (\<lambda>i. fold (\<lambda>ver. number_node (mt_base_number mt i + ver)) (localNodeVersions ext_links i))
      [0..<mt_base_level mt (mt_NUM mt)] ([], 0)"

text \<open>\<open>ranges\<close> are the address ranges of the controller at each external link.\<close>

definition Network_new ::
    "machine_info \<Rightarrow> nat \<Rightarrow> nat \<Rightarrow> nat \<Rightarrow> nat \<Rightarrow> nat \<Rightarrow> (BasicExtLink \<Rightarrow> 'r list)
     \<Rightarrow> BasicExtLink list \<Rightarrow> BasicIntLink list \<Rightarrow> 'r Network res" where
  "Network_new mt virtual_networks control_msg_size data_msg_size block_size num_routers ranges ext_links int_links =
    guardR (data_msg_size \<le> block_size) (Fatal ''data message size > cache line size'')
    (case number_nodes mt ext_links of (local_map, nodes) \<Rightarrow>
      guardR (nodes \<noteq> 0) (Assert_failed ''m_nodes != 0'')
      (guardR (virtual_networks \<noteq> 0) (Assert_failed ''m_virtual_networks != 0'')
      (bindR (Topology_new mt num_routers virtual_networks ext_links int_links) (\<lambda>topo.
        Inr \<lparr>nw_nodes = nodes, nw_virtual_networks = virtual_networks,
          nw_vnet_type_names = replicate virtual_networks '''',
          nw_control_msg_size = int control_msg_size,
          nw_data_msg_size = int (data_msg_size + control_msg_size),
          nw_toNetQueues = replicate nodes [], nw_fromNetQueues = replicate nodes [],
          nw_ordered = replicate virtual_networks False,
          nw_addrMap = map (\<lambda>l. (fst (el_machine l), snd (el_machine l), ranges l))
            (filter (\<lambda>l. ranges l \<noteq> []) ext_links),
          nw_globalToLocalMap = local_map, nw_topology = topo\<rparr>))))"

section \<open>Operations\<close>

definition MessageSizeType_to_int :: "MessageSizeType \<Rightarrow> 'r Network \<Rightarrow> int" where
  "MessageSizeType_to_int size_type nw =
    (case size_type of
       MessageSizeType_Control \<Rightarrow> nw_control_msg_size nw
     | MessageSizeType_Request_Control \<Rightarrow> nw_control_msg_size nw
     | MessageSizeType_Reissue_Control \<Rightarrow> nw_control_msg_size nw
     | MessageSizeType_Response_Control \<Rightarrow> nw_control_msg_size nw
     | MessageSizeType_Writeback_Control \<Rightarrow> nw_control_msg_size nw
     | MessageSizeType_Broadcast_Control \<Rightarrow> nw_control_msg_size nw
     | MessageSizeType_Multicast_Control \<Rightarrow> nw_control_msg_size nw
     | MessageSizeType_Forwarded_Control \<Rightarrow> nw_control_msg_size nw
     | MessageSizeType_Invalidate_Control \<Rightarrow> nw_control_msg_size nw
     | MessageSizeType_Unblock_Control \<Rightarrow> nw_control_msg_size nw
     | MessageSizeType_Persistent_Control \<Rightarrow> nw_control_msg_size nw
     | MessageSizeType_Completion_Control \<Rightarrow> nw_control_msg_size nw
     | MessageSizeType_Data \<Rightarrow> nw_data_msg_size nw
     | MessageSizeType_Response_Data \<Rightarrow> nw_data_msg_size nw
     | MessageSizeType_ResponseLocal_Data \<Rightarrow> nw_data_msg_size nw
     | MessageSizeType_ResponseL2hit_Data \<Rightarrow> nw_data_msg_size nw
     | MessageSizeType_Writeback_Data \<Rightarrow> nw_data_msg_size nw)"

definition getLocalNodeID :: "nat \<Rightarrow> 'r Network \<Rightarrow> nat res" where
  "getLocalNodeID global_id nw =
    (case map_of (nw_globalToLocalMap nw) global_id of
       None \<Rightarrow> Inl (Assert_failed ''globalToLocalMap.count(global_id)'')
     | Some local_id \<Rightarrow> Inr local_id)"

definition checkNetworkAllocation ::
    "nat \<Rightarrow> bool \<Rightarrow> nat \<Rightarrow> string \<Rightarrow> 'r Network \<Rightarrow> 'r Network res" where
  "checkNetworkAllocation local_id ordered network_num vnet_type nw =
    guardR (local_id < nw_nodes nw) (Fatal ''Node ID is out of range'')
    (guardR (network_num < nw_virtual_networks nw) (Fatal ''Network id is out of range'')
    (Inr (nw\<lparr>nw_ordered := (if ordered then (nw_ordered nw)[network_num := True] else nw_ordered nw),
             nw_vnet_type_names := (nw_vnet_type_names nw)[network_num := vnet_type]\<rparr>)))"

text \<open>The queue vector of a node grows with null pointers up to the index.\<close>

definition put_queue :: "nat \<Rightarrow> MessageBuffer option \<Rightarrow> MessageBuffer option list \<Rightarrow> MessageBuffer option list" where
  "put_queue network_num b qs = (qs @ replicate (network_num + 1 - length qs) None)[network_num := b]"

definition setToNetQueue ::
    "nat \<Rightarrow> bool \<Rightarrow> nat \<Rightarrow> string \<Rightarrow> MessageBuffer option \<Rightarrow> 'r Network \<Rightarrow> 'r Network res" where
  "setToNetQueue global_id ordered network_num vnet_type b nw =
    bindR (getLocalNodeID global_id nw) (\<lambda>local_id.
    bindR (checkNetworkAllocation local_id ordered network_num vnet_type nw) (\<lambda>nw1.
    bindR (modR (nw_toNetQueues nw1) (int local_id) (\<lambda>qs. Inr (put_queue network_num b qs)))
      (\<lambda>queues. Inr (nw1\<lparr>nw_toNetQueues := queues\<rparr>))))"

definition setFromNetQueue ::
    "nat \<Rightarrow> bool \<Rightarrow> nat \<Rightarrow> string \<Rightarrow> MessageBuffer option \<Rightarrow> 'r Network \<Rightarrow> 'r Network res" where
  "setFromNetQueue global_id ordered network_num vnet_type b nw =
    bindR (getLocalNodeID global_id nw) (\<lambda>local_id.
    bindR (checkNetworkAllocation local_id ordered network_num vnet_type nw) (\<lambda>nw1.
    bindR (modR (nw_fromNetQueues nw1) (int local_id) (\<lambda>qs. Inr (put_queue network_num b qs)))
      (\<lambda>queues. Inr (nw1\<lparr>nw_fromNetQueues := queues\<rparr>))))"

text \<open>\<open>contains\<close> is \<open>AddrRange::contains\<close>.\<close>

definition addressToNodeID ::
    "('r \<Rightarrow> nat \<Rightarrow> bool) \<Rightarrow> machine_info \<Rightarrow> nat \<Rightarrow> nat \<Rightarrow> 'r Network \<Rightarrow> nat" where
  "addressToNodeID contains mt addr mtype nw =
    (case find (\<lambda>(ty, node, rs). ty = mtype \<and> list_ex (\<lambda>r. contains r addr) rs) (nw_addrMap nw) of
       Some (ty, node, rs) \<Rightarrow> node
     | None \<Rightarrow> mt_base_count mt mtype)"

section \<open>Local node numbers\<close>

text \<open>The global numbers of the nodes, in the order they are numbered.\<close>

definition node_order :: "machine_info \<Rightarrow> BasicExtLink list \<Rightarrow> nat list" where
  "node_order mt ext_links =
    concat (map (\<lambda>i. map (\<lambda>ver. mt_base_number mt i + ver) (localNodeVersions ext_links i))
      [0..<mt_base_level mt (mt_NUM mt)])"

lemma number_nodes_order: "number_nodes mt ext_links = fold number_node (node_order mt ext_links) ([], 0)"
proof -
  have "fold (\<lambda>i. fold (\<lambda>ver. number_node (g i ver)) (vs i)) is s
      = fold number_node (concat (map (\<lambda>i. map (g i) (vs i)) is)) s"
    for g :: "nat \<Rightarrow> nat \<Rightarrow> nat" and vs "is" s
    by (induction "is" arbitrary: s) (simp_all add: fold_map comp_def)
  then show ?thesis unfolding number_nodes_def node_order_def .
qed

lemma number_fold:
  assumes "distinct gs" "fst ` set m \<inter> set gs = {}"
  shows "fold number_node gs (m, k) = (m @ zip gs [k..<k + length gs], k + length gs)"
  using assms
proof (induction gs arbitrary: m k)
  case Nil
  then show ?case by simp
next
  case (Cons g gs)
  have "map_of m g = None" using Cons.prems(2) by (auto simp: map_of_eq_None_iff)
  then have "number_node g (m, k) = (m @ [(g, k)], k + 1)" by (simp add: number_node_def)
  moreover have "[k..<k + length (g # gs)] = k # [k + 1..<k + 1 + length gs]" by (simp add: upt_rec)
  ultimately show ?case using Cons.IH [of "m @ [(g, k)]" "k + 1"] Cons.prems by auto
qed

text \<open>
  Controllers with different machine identities get different local numbers, and
  the local numbers are exactly those below \<open>m_nodes\<close>: every node has its own queues and
  its own network interface.
\<close>

theorem local_node_ids_bijective:
  assumes "Network_new mt vn cs ds bs nr ranges ext_links int_links = Inr nw"
    and "distinct (node_order mt ext_links)"
  shows "bij_betw (\<lambda>g. projr (getLocalNodeID g nw)) (set (node_order mt ext_links)) {..<nw_nodes nw} \<and>
    (\<forall>g. isl (getLocalNodeID g nw) \<longleftrightarrow> g \<notin> set (node_order mt ext_links))"
proof -
  let ?gs = "node_order mt ext_links"
  have nn: "number_nodes mt ext_links = (zip ?gs [0..<length ?gs], length ?gs)"
    using number_fold [OF assms(2), of "[]" 0] by (simp add: number_nodes_order)
  from assms(1) have m: "nw_globalToLocalMap nw = zip ?gs [0..<length ?gs]" "nw_nodes nw = length ?gs"
    unfolding Network_new_def nn by (auto elim!: guardR_InrE bindR_InrE)
  have at: "getLocalNodeID (?gs ! i) nw = Inr i" if "i < length ?gs" for i
    using map_of_zip_nth [of ?gs "[0..<length ?gs]" i] assms(2) that by (simp add: getLocalNodeID_def m)
  have "bij_betw (\<lambda>g. projr (getLocalNodeID g nw)) (set ?gs) {..<length ?gs}"
    unfolding bij_betw_def
  proof
    show "inj_on (\<lambda>g. projr (getLocalNodeID g nw)) (set ?gs)"
      by (rule inj_onI) (auto simp: in_set_conv_nth at)
    show "(\<lambda>g. projr (getLocalNodeID g nw)) ` set ?gs = {..<length ?gs}"
      by (force simp: in_set_conv_nth at image_iff)
  qed
  moreover have "isl (getLocalNodeID g nw) \<longleftrightarrow> g \<notin> set ?gs" for g
    by (auto simp: getLocalNodeID_def m map_of_zip_is_None split: option.splits)
      (metis map_of_zip_is_None option.distinct(1) length_upt diff_zero)
  ultimately show ?thesis using m(2) by simp
qed

definition example_ext_link :: "machine_id \<Rightarrow> BasicExtLink" where
  "example_ext_link m = \<lparr>el_link = \<lparr>bl_id = 0, bl_latency = 1, bl_weight = 1, bl_bandwidth_factor = 16, bl_mVnets = []\<rparr>,
     el_machine = m, el_router = snd m\<rparr>"

definition example_ext_links :: "BasicExtLink list" where
  "example_ext_links = map example_ext_link [(1, 1), (0, 2), (0, 0), (1, 0), (0, 1)]"

definition example_network :: "nat Network res" where
  "example_network = Network_new example_machines 1 8 64 64 3 (\<lambda>_. []) example_ext_links []"

lemma local_node_ids_bijective_witness:
  "\<exists>nw. example_network = Inr nw \<and>
    bij_betw (\<lambda>g. projr (getLocalNodeID g nw)) {2, 0, 1, 4, 3} {..<nw_nodes nw}"
proof -
  have order: "node_order example_machines example_ext_links = [2, 0, 1, 4, 3]" by code_simp
  have "case example_network of Inl e \<Rightarrow> False | Inr nw \<Rightarrow> True" by code_simp
  then obtain nw where nw: "example_network = Inr nw" by (auto split: sum.splits)
  have "distinct (node_order example_machines example_ext_links)" by (simp add: order)
  from local_node_ids_bijective [OF nw [unfolded example_network_def] this] nw show ?thesis
    by (auto simp: order)
qed

end
