(* ===== verification/GarnetStats.thy ===== *)
theory GarnetStats
  imports MessageBuffer
begin

text \<open>
  The part of \<open>GarnetNetwork\<close> (\<open>GarnetNetwork.hh\<close>, \<open>GarnetNetwork.cc\<close>) the network
  interfaces call: the counters and latencies, the packet numbers, and the progress of the
  trace. The statistics are \<open>double\<close>s that only count and add whole numbers; they are
  natural numbers here.
\<close>

section \<open>State\<close>

record NetworkTraceRecord =
  tr_valid :: bool
  tr_time :: cycles
  tr_src_id :: int
  tr_src_router_id :: int
  tr_dest_id :: int
  tr_dest_router_id :: int
  tr_vnet :: int
  tr_num_flits :: int
  tr_network_idx :: int
  tr_input_idx :: int
  tr_phase_id :: int

type_synonym phase_key = "int \<times> int \<times> int"

text \<open>
  \<open>gs_exit_requested\<close> records the call of \<open>exitSimLoop\<close>; \<open>gs_phase_latency_stats\<close> holds
  the values of the registered statistics, which are 0 until they are set.
\<close>

record GarnetStats =
  gs_packets_received :: "nat list"
  gs_packets_injected :: "nat list"
  gs_packet_network_latency :: "nat list"
  gs_packet_queueing_latency :: "nat list"
  gs_flits_received :: "nat list"
  gs_flits_injected :: "nat list"
  gs_flit_network_latency :: "nat list"
  gs_flit_queueing_latency :: "nat list"
  gs_total_hops :: int
  gs_packet_main_layer_latency :: "tick list"
  gs_packet_max_latency :: tick
  gs_total_main_layer_pkts :: nat
  gs_packet_phase_latencies :: "(phase_key \<times> tick list) list"
  gs_phase_latency_stats :: "phase_key \<Rightarrow> tick"
  gs_data_traffic_distribution :: "nat list list"
  gs_ctrl_traffic_distribution :: "nat list list"
  gs_next_packet_id :: int
  gs_trace_enable :: bool
  gs_trace_max_packets :: int
  gs_trace_num_packets_injected :: int
  gs_trace_num_flits_injected :: int
  gs_trace_num_flits_received :: int
  gs_trace_start_time :: int
  gs_trace_next_packet :: NetworkTraceRecord
  gs_end_simulation :: bool
  gs_exit_requested :: bool

text \<open>
  What the constructor and \<open>regStats\<close> leave. The constructor does not set
  \<open>end_simulation\<close>: its first value is the argument \<open>garbage\<close>.
\<close>

definition no_trace_packet :: NetworkTraceRecord where
  "no_trace_packet = \<lparr>tr_valid = False, tr_time = 0, tr_src_id = -1, tr_src_router_id = 0, tr_dest_id = -1,
     tr_dest_router_id = 0, tr_vnet = 0, tr_num_flits = 0, tr_network_idx = 0, tr_input_idx = 0, tr_phase_id = 0\<rparr>"

definition GarnetStats_new :: "nat \<Rightarrow> nat \<Rightarrow> bool \<Rightarrow> int \<Rightarrow> bool \<Rightarrow> GarnetStats" where
  "GarnetStats_new virtual_networks routers trace_enable trace_max_packets garbage =
    (let z = replicate virtual_networks 0; m = replicate routers (replicate routers 0) in
     \<lparr>gs_packets_received = z, gs_packets_injected = z, gs_packet_network_latency = z,
      gs_packet_queueing_latency = z, gs_flits_received = z, gs_flits_injected = z,
      gs_flit_network_latency = z, gs_flit_queueing_latency = z, gs_total_hops = 0,
      gs_packet_main_layer_latency = [], gs_packet_max_latency = 0, gs_total_main_layer_pkts = 0,
      gs_packet_phase_latencies = [], gs_phase_latency_stats = (\<lambda>_. 0),
      gs_data_traffic_distribution = m, gs_ctrl_traffic_distribution = m, gs_next_packet_id = 0,
      gs_trace_enable = trace_enable, gs_trace_max_packets = trace_max_packets,
      gs_trace_num_packets_injected = 0, gs_trace_num_flits_injected = 0, gs_trace_num_flits_received = 0,
      gs_trace_start_time = 0, gs_trace_next_packet = no_trace_packet,
      gs_end_simulation = garbage, gs_exit_requested = False\<rparr>)"

section \<open>Counters\<close>

text \<open>\<open>v[vnet] += n\<close> on a statistics vector.\<close>

definition stat_add :: "nat \<Rightarrow> int \<Rightarrow> nat list \<Rightarrow> nat list res" where
  "stat_add n vnet v = modR v vnet (\<lambda>x. Inr (x + n))"

definition increment_injected_packets :: "int \<Rightarrow> GarnetStats \<Rightarrow> GarnetStats res" where
  "increment_injected_packets vnet gs =
    bindR (stat_add 1 vnet (gs_packets_injected gs)) (\<lambda>v. Inr (gs\<lparr>gs_packets_injected := v\<rparr>))"

definition increment_received_packets :: "int \<Rightarrow> GarnetStats \<Rightarrow> GarnetStats res" where
  "increment_received_packets vnet gs =
    bindR (stat_add 1 vnet (gs_packets_received gs)) (\<lambda>v. Inr (gs\<lparr>gs_packets_received := v\<rparr>))"

definition increment_packet_network_latency :: "tick \<Rightarrow> int \<Rightarrow> GarnetStats \<Rightarrow> GarnetStats res" where
  "increment_packet_network_latency latency vnet gs =
    bindR (stat_add latency vnet (gs_packet_network_latency gs)) (\<lambda>v. Inr (gs\<lparr>gs_packet_network_latency := v\<rparr>))"

definition increment_packet_queueing_latency :: "tick \<Rightarrow> int \<Rightarrow> GarnetStats \<Rightarrow> GarnetStats res" where
  "increment_packet_queueing_latency latency vnet gs =
    bindR (stat_add latency vnet (gs_packet_queueing_latency gs)) (\<lambda>v. Inr (gs\<lparr>gs_packet_queueing_latency := v\<rparr>))"

definition increment_injected_flits :: "int \<Rightarrow> GarnetStats \<Rightarrow> GarnetStats res" where
  "increment_injected_flits vnet gs =
    bindR (stat_add 1 vnet (gs_flits_injected gs)) (\<lambda>v. Inr (gs\<lparr>gs_flits_injected := v\<rparr>))"

definition increment_received_flits :: "int \<Rightarrow> GarnetStats \<Rightarrow> GarnetStats res" where
  "increment_received_flits vnet gs =
    bindR (stat_add 1 vnet (gs_flits_received gs)) (\<lambda>v. Inr (gs\<lparr>gs_flits_received := v\<rparr>))"

definition increment_flit_network_latency :: "tick \<Rightarrow> int \<Rightarrow> GarnetStats \<Rightarrow> GarnetStats res" where
  "increment_flit_network_latency latency vnet gs =
    bindR (stat_add latency vnet (gs_flit_network_latency gs)) (\<lambda>v. Inr (gs\<lparr>gs_flit_network_latency := v\<rparr>))"

definition increment_flit_queueing_latency :: "tick \<Rightarrow> int \<Rightarrow> GarnetStats \<Rightarrow> GarnetStats res" where
  "increment_flit_queueing_latency latency vnet gs =
    bindR (stat_add latency vnet (gs_flit_queueing_latency gs)) (\<lambda>v. Inr (gs\<lparr>gs_flit_queueing_latency := v\<rparr>))"

definition increment_total_hops :: "int \<Rightarrow> GarnetStats \<Rightarrow> GarnetStats" where
  "increment_total_hops hops gs = gs\<lparr>gs_total_hops := gs_total_hops gs + hops\<rparr>"

definition increment_main_layer_pkts :: "GarnetStats \<Rightarrow> GarnetStats" where
  "increment_main_layer_pkts gs = gs\<lparr>gs_total_main_layer_pkts := gs_total_main_layer_pkts gs + 1\<rparr>"

definition add_main_layer_latency :: "tick \<Rightarrow> GarnetStats \<Rightarrow> GarnetStats" where
  "add_main_layer_latency latency gs =
    (let ls = gs_packet_main_layer_latency gs @ [latency]
     in gs\<lparr>gs_packet_main_layer_latency := ls, gs_packet_max_latency := fold max (tl ls) (hd ls)\<rparr>)"

text \<open>Beyond the limits of \<open>regStats\<close> the code only warns, once.\<close>

definition add_phase_latency :: "int \<Rightarrow> int \<Rightarrow> int \<Rightarrow> tick \<Rightarrow> GarnetStats \<Rightarrow> GarnetStats" where
  "add_phase_latency network_idx input_idx phase_id latency gs =
    gs\<lparr>gs_packet_phase_latencies :=
         amap_push (network_idx, input_idx, phase_id) latency (gs_packet_phase_latencies gs)\<rparr>"

definition getNextPacketID :: "GarnetStats \<Rightarrow> int \<times> GarnetStats" where
  "getNextPacketID gs = (gs_next_packet_id gs, gs\<lparr>gs_next_packet_id := gs_next_packet_id gs + 1\<rparr>)"

definition update_traffic_distribution :: "garnet_config \<Rightarrow> RouteInfo \<Rightarrow> GarnetStats \<Rightarrow> GarnetStats res" where
  "update_traffic_distribution cfg route gs =
    (let bump = (\<lambda>m. modR m (ri_src_router route) (\<lambda>row. modR row (ri_dest_router route) (\<lambda>x. Inr (x + 1)))) in
     bindR (get_vnet_type cfg (ri_vnet route)) (\<lambda>ty.
       if ty = DATA_VNET
       then bindR (bump (gs_data_traffic_distribution gs)) (\<lambda>m. Inr (gs\<lparr>gs_data_traffic_distribution := m\<rparr>))
       else bindR (bump (gs_ctrl_traffic_distribution gs)) (\<lambda>m. Inr (gs\<lparr>gs_ctrl_traffic_distribution := m\<rparr>))))"

definition increment_trace_flits_received :: "GarnetStats \<Rightarrow> GarnetStats" where
  "increment_trace_flits_received gs =
    (let r = gs_trace_num_flits_received gs + 1; gs' = gs\<lparr>gs_trace_num_flits_received := r\<rparr> in
     if (gs_end_simulation gs \<and> r = gs_trace_num_flits_injected gs) \<or>
        (gs_trace_max_packets gs \<ge> 0 \<and> gs_trace_num_packets_injected gs > gs_trace_max_packets gs \<and>
         r = gs_trace_num_flits_injected gs)
     then gs'\<lparr>gs_exit_requested := True\<rparr> else gs')"

text \<open>
  \<open>NetworkInterface::incrementStats\<close>, on the clock period of the interface. The delays are
  differences of ticks.
\<close>

definition incrementStats :: "nat \<Rightarrow> tick \<Rightarrow> flit \<Rightarrow> GarnetStats \<Rightarrow> GarnetStats res" where
  "incrementStats period now t_flit gs =
    (let vnet = fl_vnet t_flit; route = fl_route t_flit;
         network_delay = tick_sub (tick_sub (fl_dequeue_time t_flit) (fl_enqueue_time t_flit)) period;
         queueing_delay = tick_add (fl_src_delay t_flit) (tick_sub now (fl_dequeue_time t_flit)) in
     bindR (increment_received_flits vnet gs) (\<lambda>g1.
     bindR (increment_flit_network_latency network_delay vnet g1) (\<lambda>g2.
     bindR (increment_flit_queueing_latency queueing_delay vnet g2) (\<lambda>g3.
     bindR (if is_tail t_flit then
              let g4 = (if fl_type t_flit = HEAD_TAIL \<or> ri_last_flit route
                        then add_phase_latency (ri_network_idx route) (ri_input_idx route) (ri_phase_id route)
                               (tick_add network_delay queueing_delay) g3
                        else g3) in
              bindR (increment_received_packets vnet g4) (\<lambda>g5.
              bindR (increment_packet_network_latency network_delay vnet g5)
                (increment_packet_queueing_latency queueing_delay vnet))
            else Inr g3) (\<lambda>g7.
     Inr (increment_total_hops (ri_hops_traversed route) g7))))))"

text \<open>Collating the latencies of the phases; the statistic exists within the limits.\<close>

definition phase_registered :: "phase_key \<Rightarrow> bool" where
  "phase_registered = (\<lambda>(net, inp, phase).
    0 \<le> net \<and> net < 20 \<and> 0 \<le> inp \<and> inp < 20 \<and> 0 \<le> phase \<and> phase < 500)"

definition collate_phases :: "GarnetStats \<Rightarrow> GarnetStats" where
  "collate_phases gs =
    fold (\<lambda>(key, latencies) gs.
        if latencies \<noteq> [] then
          let max_latency = fold max (tl latencies) (hd latencies) in
          if phase_registered key
          then gs\<lparr>gs_phase_latency_stats := (gs_phase_latency_stats gs)(key := max_latency)\<rparr>
          else gs
        else gs)
      (gs_packet_phase_latencies gs) gs"

section \<open>The latency of a phase\<close>

lemma map_of_amap_push:
  assumes "sorted_wrt (<) (map fst a)"
  shows "map_of (amap_push k x a) k' =
    (if k' = k then Some ((case map_of a k of None \<Rightarrow> [] | Some xs \<Rightarrow> xs) @ [x]) else map_of a k')"
  using assms
proof (induction a)
  case Nil
  then show ?case by simp
next
  case (Cons e a)
  obtain k0 xs where e: "e = (k0, xs)" by (cases e)
  have "map_of a k = None" if "k < k0"
    using that Cons.prems e by (force simp: map_of_eq_None_iff)
  with Cons e show ?case by auto
qed

text \<open>The latencies recorded for one phase in a history of records.\<close>

definition record_phases :: "(phase_key \<times> tick) list \<Rightarrow> GarnetStats \<Rightarrow> GarnetStats" where
  "record_phases = fold (\<lambda>((n, i, p), l). add_phase_latency n i p l)"

definition phase_history :: "phase_key \<Rightarrow> (phase_key \<times> tick) list \<Rightarrow> tick list" where
  "phase_history key evs = map snd (filter (\<lambda>e. fst e = key) evs)"

lemma record_phases_map:
  assumes "gs_packet_phase_latencies gs = []"
  shows "sorted_wrt (<) (map fst (gs_packet_phase_latencies (record_phases evs gs))) \<and>
    map_of (gs_packet_phase_latencies (record_phases evs gs)) key =
      (if phase_history key evs = [] then None else Some (phase_history key evs)) \<and>
    gs_phase_latency_stats (record_phases evs gs) = gs_phase_latency_stats gs"
proof (induction evs rule: rev_induct)
  case Nil
  then show ?case using assms by (simp add: record_phases_def phase_history_def)
next
  case (snoc e evs)
  obtain n i p l where e: "e = ((n, i, p), l)" by (metis prod_cases3 surj_pair)
  let ?gs = "record_phases evs gs"
  have step: "record_phases (evs @ [e]) gs = add_phase_latency n i p l ?gs" by (simp add: record_phases_def e)
  have hist: "phase_history key (evs @ [e]) = phase_history key evs @ (if key = (n, i, p) then [l] else [])"
    by (auto simp: phase_history_def e)
  show ?case
    using snoc amap_push_ok(1) [of "gs_packet_phase_latencies ?gs" "(n, i, p)" l]
      map_of_amap_push [of "gs_packet_phase_latencies ?gs" "(n, i, p)" l key]
    unfolding step hist by (auto simp: add_phase_latency_def)
qed

lemma fold_max_Max: "xs \<noteq> [] \<Longrightarrow> fold max (tl xs) (hd xs) = Max (set xs)" for xs :: "tick list"
  by (cases xs) (simp_all add: Max.set_eq_fold [symmetric])

lemma collate_fold:
  assumes "distinct (map fst a)" "\<forall>e \<in> set a. snd e \<noteq> []"
  shows "gs_phase_latency_stats (fold (\<lambda>(key, latencies) gs.
        if latencies \<noteq> [] then
          let max_latency = fold max (tl latencies) (hd latencies) in
          if phase_registered key
          then gs\<lparr>gs_phase_latency_stats := (gs_phase_latency_stats gs)(key := max_latency)\<rparr>
          else gs
        else gs) a gs) key =
    (case map_of a key of
       None \<Rightarrow> gs_phase_latency_stats gs key
     | Some ls \<Rightarrow> if phase_registered key then Max (set ls) else gs_phase_latency_stats gs key)"
  using assms
proof (induction a arbitrary: gs)
  case Nil
  then show ?case by simp
next
  case (Cons e a)
  obtain k ls where e: "e = (k, ls)" by (cases e)
  have "map_of a k = None" using Cons.prems e by (auto simp: map_of_eq_None_iff)
  with Cons e show ?case by (auto simp: Let_def fold_max_Max split: option.splits)
qed

text \<open>
  The latency reported for a phase of a network and input is the largest of all the
  latencies recorded for it, in whatever order the packets of the phases arrive interleaved;
  a phase without packets keeps its value, and so does one beyond the limits.
\<close>

theorem phase_latency_is_max:
  assumes "gs_packet_phase_latencies gs = []"
  shows "gs_phase_latency_stats (collate_phases (record_phases evs gs)) key =
    (if phase_registered key \<and> phase_history key evs \<noteq> [] then Max (set (phase_history key evs))
     else gs_phase_latency_stats gs key)"
proof -
  let ?a = "gs_packet_phase_latencies (record_phases evs gs)"
  have sorted: "sorted_wrt (<) (map fst ?a)" using record_phases_map [OF assms] by blast
  then have dist: "distinct (map fst ?a)" by (simp add: strict_sorted_iff)
  have "snd e \<noteq> []" if "e \<in> set ?a" for e
  proof -
    have "map_of ?a (fst e) = Some (snd e)" using that dist by simp
    then show ?thesis using record_phases_map [OF assms, of evs "fst e"] by (auto split: if_splits)
  qed
  with collate_fold [OF dist, of "record_phases evs gs" key] record_phases_map [OF assms, of evs key]
  show ?thesis by (auto simp: collate_phases_def)
qed

lemma phase_latency_is_max_witness:
  "gs_phase_latency_stats (collate_phases (record_phases [((0, 1, 2), 7), ((0, 0, 0), 9), ((0, 1, 2), 5)]
     (GarnetStats_new 1 1 True 0 False))) (0, 1, 2) = 7"
  using phase_latency_is_max [of "GarnetStats_new 1 1 True 0 False"
      "[((0, 1, 2), 7), ((0, 0, 0), 9), ((0, 1, 2), 5)]" "(0, 1, 2)"]
  by (simp add: GarnetStats_new_def Let_def phase_registered_def phase_history_def)

end
