(* ===== verification/NetworkInterface.thy ===== *)
theory NetworkInterface
  imports GarnetStats
begin

text \<open>
  \<open>NetworkInterface\<close> (\<open>NetworkInterface.hh\<close>, \<open>NetworkInterface.cc\<close>): where packets enter
  and leave the network, from the queues of the protocol or, in a trace-driven run, from the
  trace. The links it points to are entries of the store of links, as for the routers; the
  statistics of the network are threaded through; wakeups asked of the consumers of message
  buffers are part of the results. What an interface does to another one, through the
  network, is in the theory \<open>GarnetNetwork\<close>.
\<close>

section \<open>Ports\<close>

record OutputPort =
  op_vnets :: "int list"
  op_outFlitQueue :: flitBuffer
  op_outNetLink :: int
  op_inCreditLink :: int
  op_vcRoundRobin :: int
  op_routerID :: int
  op_bitWidth :: int

definition OutputPort_new :: "NetworkLink \<Rightarrow> int \<Rightarrow> int \<Rightarrow> int \<Rightarrow> OutputPort" where
  "OutputPort_new l outLink creditLink routerID =
    \<lparr>op_vnets = lk_mVnets l, op_outFlitQueue = flitBuffer_new, op_outNetLink = outLink,
     op_inCreditLink = creditLink, op_vcRoundRobin = 0, op_routerID = routerID, op_bitWidth = lk_bitWidth l\<rparr>"

definition op_isVnetSupported :: "int \<Rightarrow> OutputPort \<Rightarrow> bool" where
  "op_isVnetSupported pVnet p = (if length (op_vnets p) = 0 then True else list_ex (\<lambda>v. v = pVnet) (op_vnets p))"

text \<open>The constructor leaves \<open>messageEnqueuedThisCycle\<close> unset; it is written before it is read.\<close>

record InputPort =
  ip_vnets :: "int list"
  ip_outCreditQueue :: flitBuffer
  ip_inNetLink :: int
  ip_outCreditLink :: int
  ip_bitWidth :: int
  ip_stall_queue :: "flit list"
  ip_messageEnqueuedThisCycle :: bool

definition InputPort_new :: "NetworkLink \<Rightarrow> int \<Rightarrow> int \<Rightarrow> InputPort" where
  "InputPort_new l inLink creditLink =
    \<lparr>ip_vnets = lk_mVnets l, ip_outCreditQueue = flitBuffer_new, ip_inNetLink = inLink,
     ip_outCreditLink = creditLink, ip_bitWidth = lk_bitWidth l, ip_stall_queue = [],
     ip_messageEnqueuedThisCycle = False\<rparr>"

definition ip_isVnetSupported :: "int \<Rightarrow> InputPort \<Rightarrow> bool" where
  "ip_isVnetSupported pVnet p = (if length (ip_vnets p) = 0 then True else list_ex (\<lambda>v. v = pVnet) (ip_vnets p))"

definition sendCredit :: "flit \<Rightarrow> InputPort \<Rightarrow> InputPort" where
  "sendCredit cFlit p = p\<lparr>ip_outCreditQueue := fb_insert cFlit (ip_outCreditQueue p)\<rparr>"

section \<open>State and construction\<close>

record NetworkInterface =
  ni_id :: nat
  ni_virtual_networks :: nat
  ni_vc_per_vnet :: nat
  ni_vc_allocator :: "int list"
  ni_outPorts :: "OutputPort list"
  ni_inPorts :: "InputPort list"
  ni_deadlock_threshold :: int
  ni_outVcState :: "OutVcState list"
  ni_stall_count :: "int list"
  ni_niOutVcs :: "flitBuffer list"
  ni_out_vcs_enqueue_time :: "tick list"
  ni_trace_injection_queue :: "flit list"
  ni_trace_record_queue :: "NetworkTraceRecord list"
  ni_inNode :: "MessageBuffer option list"
  ni_outNode :: "MessageBuffer option list"
  ni_vc_busy_counter :: "int list"
  ni_consumer :: consumer

definition NetworkInterface_new :: "nat \<Rightarrow> nat \<Rightarrow> int \<Rightarrow> nat \<Rightarrow> NetworkInterface" where
  "NetworkInterface_new i virt_nets deadlock_threshold period =
    \<lparr>ni_id = i, ni_virtual_networks = virt_nets, ni_vc_per_vnet = 0,
     ni_vc_allocator = replicate virt_nets 0, ni_outPorts = [], ni_inPorts = [],
     ni_deadlock_threshold = deadlock_threshold, ni_outVcState = [],
     ni_stall_count = replicate virt_nets 0, ni_niOutVcs = [], ni_out_vcs_enqueue_time = [],
     ni_trace_injection_queue = [], ni_trace_record_queue = [], ni_inNode = [], ni_outNode = [],
     ni_vc_busy_counter = replicate virt_nets 0, ni_consumer = consumer_init period\<rparr>"

definition ni_clockEdge :: "tick \<Rightarrow> cycles \<Rightarrow> NetworkInterface \<Rightarrow> tick" where
  "ni_clockEdge now n ni = clock_edge (con_period (ni_consumer ni)) now n"

definition ni_scheduleEvent :: "tick \<Rightarrow> cycles \<Rightarrow> NetworkInterface \<Rightarrow> NetworkInterface" where
  "ni_scheduleEvent now n ni = ni\<lparr>ni_consumer := scheduleEvent now n (ni_consumer ni)\<rparr>"

definition ni_addInPort ::
    "int \<Rightarrow> int \<Rightarrow> NetworkInterface \<times> NetworkLink list \<Rightarrow> (NetworkInterface \<times> NetworkLink list) res" where
  "ni_addInPort in_link credit_link = (\<lambda>(ni, links).
    (let port_num = length (ni_inPorts ni); vcs = ni_vc_per_vnet ni;
         set_vcs = (\<lambda>l. if vcs \<noteq> 0 then setVcsPerVnet vcs l else l) in
     bindR (nthR links in_link) (\<lambda>il.
     bindR (modR links in_link (\<lambda>l. Inr (set_vcs (setLinkConsumer (NI_consumer (ni_id ni)) l)))) (\<lambda>links1.
     bindR (modR links1 credit_link (\<lambda>l. Inr (set_vcs (setSourceQueue (NI_credit (ni_id ni) port_num) l))))
       (\<lambda>links2. Inr (ni\<lparr>ni_inPorts := ni_inPorts ni @ [InputPort_new il in_link credit_link]\<rparr>, links2))))))"

text \<open>
  The first output port fixes the number of virtual channels and makes their state. The loop
  over the input ports sets up the links into them and, each time, the credit link of the new
  output port.
\<close>

definition make_out_vcs :: "garnet_config \<Rightarrow> nat \<Rightarrow> NetworkInterface \<Rightarrow> NetworkInterface res" where
  "make_out_vcs cfg consumerVcs ni =
    (let n = consumerVcs * ni_virtual_networks ni in
     bindR (foldR (\<lambda>i vs. bindR (OutVcState_new i cfg consumerVcs) (\<lambda>v. Inr (vs @ [v])))
         (upto_int n) (ni_outVcState ni)) (\<lambda>states.
       Inr (ni\<lparr>ni_vc_per_vnet := consumerVcs, ni_niOutVcs := replicate n flitBuffer_new,
               ni_outVcState := states, ni_out_vcs_enqueue_time := replicate n INFINITE\<rparr>)))"

definition ni_addOutPort ::
    "garnet_config \<Rightarrow> int \<Rightarrow> int \<Rightarrow> int \<Rightarrow> nat \<Rightarrow> NetworkInterface \<times> NetworkLink list
     \<Rightarrow> (NetworkInterface \<times> NetworkLink list) res" where
  "ni_addOutPort cfg out_link credit_link router_id consumerVcs = (\<lambda>(ni, links).
    (let port_num = length (ni_outPorts ni) in
     bindR (nthR links out_link) (\<lambda>ol.
     guardR (consumerVcs > 0) (Assert_failed ''consumerVcs > 0'')
     (bindR (if length (ni_niOutVcs ni) = 0 then
               bindR (make_out_vcs cfg consumerVcs ni) (\<lambda>ni1.
               bindR (foldR (\<lambda>p ls.
                   bindR (modR ls (ip_inNetLink p) (\<lambda>l. Inr (setVcsPerVnet consumerVcs l)))
                     (\<lambda>ls1. modR ls1 credit_link (\<lambda>l. Inr (setVcsPerVnet consumerVcs l))))
                 (ni_inPorts ni1) links) (\<lambda>links1. Inr (ni1, links1)))
             else guardR (consumerVcs = ni_vc_per_vnet ni)
               (Fatal ''Connected Physical links have different vc requests'') (Inr (ni, links)))
       (\<lambda>(ni1, links1).
      bindR (modR links1 out_link (\<lambda>l. Inr (setVcsPerVnet (ni_vc_per_vnet ni1)
          (setSourceQueue (NI_out (ni_id ni) port_num) l)))) (\<lambda>links2.
      bindR (modR links2 credit_link (\<lambda>l. Inr (setVcsPerVnet (ni_vc_per_vnet ni1)
          (setLinkConsumer (NI_consumer (ni_id ni)) l)))) (\<lambda>links3.
        Inr (ni1\<lparr>ni_outPorts := ni_outPorts ni1 @ [OutputPort_new ol out_link credit_link router_id]\<rparr>,
             links3))))))))"

definition addNode ::
    "MessageBuffer option list \<Rightarrow> MessageBuffer option list \<Rightarrow> NetworkInterface \<Rightarrow> NetworkInterface res" where
  "addNode ins outs ni =
    bindR (foldR (\<lambda>b bs. case b of
             None \<Rightarrow> Inr (bs @ [None])
           | Some mb \<Rightarrow> bindR (mb_setConsumer (NI_consumer (ni_id ni)) mb) (\<lambda>mb'. Inr (bs @ [Some mb'])))
        ins []) (\<lambda>ins'. Inr (ni\<lparr>ni_inNode := ins', ni_outNode := outs\<rparr>))"

definition dequeueCallback :: "tick \<Rightarrow> NetworkInterface \<Rightarrow> NetworkInterface" where
  "dequeueCallback now ni =
    ni\<lparr>ni_consumer := scheduleEventAbsolute now (ni_clockEdge now 1 ni) (ni_consumer ni)\<rparr>"

section \<open>Choosing ports and channels\<close>

text \<open>The first port that supports the virtual network, by its index.\<close>

definition getOutportForVnet :: "int \<Rightarrow> NetworkInterface \<Rightarrow> nat option" where
  "getOutportForVnet vnet ni =
    find (\<lambda>i. op_isVnetSupported vnet (ni_outPorts ni ! i)) [0..<length (ni_outPorts ni)]"

definition getInportForVnet :: "int \<Rightarrow> NetworkInterface \<Rightarrow> nat option" where
  "getInportForVnet vnet ni =
    find (\<lambda>i. ip_isVnetSupported vnet (ni_inPorts ni ! i)) [0..<length (ni_inPorts ni)]"

definition ni_get_router_id :: "int \<Rightarrow> NetworkInterface \<Rightarrow> int res" where
  "ni_get_router_id vnet ni =
    (case getOutportForVnet vnet ni of
       None \<Rightarrow> Inl (Assert_failed ''oPort'')
     | Some i \<Rightarrow> Inr (op_routerID (ni_outPorts ni ! i)))"

definition ni_get_vnet :: "int \<Rightarrow> NetworkInterface \<Rightarrow> int res" where
  "ni_get_vnet vc ni =
    (case find (\<lambda>i. vc \<ge> i * int (ni_vc_per_vnet ni) \<and> vc < (i + 1) * int (ni_vc_per_vnet ni))
        (upto_int (ni_virtual_networks ni)) of
       None \<Rightarrow> Inl (Fatal ''Could not determine vc'')
     | Some i \<Rightarrow> Inr i)"

text \<open>
  The search for a free virtual channel, at most \<open>k\<close> more steps from the place the
  allocator has reached.
\<close>

fun calculate_loop :: "nat \<Rightarrow> tick \<Rightarrow> int \<Rightarrow> NetworkInterface \<Rightarrow> (int option \<times> NetworkInterface) res" where
  "calculate_loop 0 now vnet ni = Inr (None, ni)"
| "calculate_loop (Suc k) now vnet ni =
    bindR (nthR (ni_vc_allocator ni) vnet) (\<lambda>delta.
    (let vc = vnet * int (ni_vc_per_vnet ni) + delta;
         next = (if delta + 1 = int (ni_vc_per_vnet ni) then 0 else delta + 1) in
     bindR (setR (ni_vc_allocator ni) vnet next) (\<lambda>alloc.
     bindR (nthR (ni_outVcState ni) vc) (\<lambda>v.
       if isInState IDLE now v then
         bindR (setR (ni_vc_busy_counter ni) vnet 0) (\<lambda>busy.
           Inr (Some vc, ni\<lparr>ni_vc_allocator := alloc, ni_vc_busy_counter := busy\<rparr>))
       else calculate_loop k now vnet (ni\<lparr>ni_vc_allocator := alloc\<rparr>)))))"

definition calculateVC :: "tick \<Rightarrow> int \<Rightarrow> NetworkInterface \<Rightarrow> (int \<times> NetworkInterface) res" where
  "calculateVC now vnet ni =
    bindR (calculate_loop (ni_vc_per_vnet ni) now vnet ni) (\<lambda>(found, ni1). case found of
      Some vc \<Rightarrow> Inr (vc, ni1)
    | None \<Rightarrow>
        bindR (nthR (ni_vc_busy_counter ni1) vnet) (\<lambda>n.
        bindR (setR (ni_vc_busy_counter ni1) vnet (n + 1)) (\<lambda>busy.
        guardR (n + 1 \<le> ni_deadlock_threshold ni1) (Panic ''Possible network deadlock'')
          (Inr (-1, ni1\<lparr>ni_vc_busy_counter := busy\<rparr>)))))"

section \<open>Sending\<close>

definition ni_scheduleFlit ::
    "tick \<Rightarrow> flit \<Rightarrow> NetworkInterface \<times> NetworkLink list \<Rightarrow> (NetworkInterface \<times> NetworkLink list) res" where
  "ni_scheduleFlit now t_flit = (\<lambda>(ni, links).
    (case getOutportForVnet (fl_vnet t_flit) ni of
       None \<Rightarrow> Inl (Panic ''No output port found for vnet'')
     | Some i \<Rightarrow>
         let p = ni_outPorts ni ! i in
         bindR (modR links (op_outNetLink p)
             (\<lambda>l. Inr (link_scheduleEventAbsolute now (ni_clockEdge now 1 ni) l))) (\<lambda>links1.
           Inr (ni\<lparr>ni_outPorts := (ni_outPorts ni)
                    [i := p\<lparr>op_outFlitQueue := fb_insert t_flit (op_outFlitQueue p)\<rparr>]\<rparr>, links1))))"

text \<open>
  Whether the output port may send from a virtual channel now: a flit is ready, the next
  buffer has room, and on an ordered virtual network no other channel was entered earlier.
\<close>

fun older_ready :: "tick \<Rightarrow> tick \<Rightarrow> int list \<Rightarrow> NetworkInterface \<Rightarrow> bool res" where
  "older_ready now my_time [] ni = Inr False"
| "older_ready now my_time (t_vc # vcs) ni =
    bindR (nthR (ni_niOutVcs ni) t_vc) (\<lambda>b.
      if fb_isReady now b then
        bindR (nthR (ni_out_vcs_enqueue_time ni) t_vc) (\<lambda>t.
          if t < my_time then Inr True else older_ready now my_time vcs ni)
      else older_ready now my_time vcs ni)"

definition candidate_vc ::
    "garnet_config \<Rightarrow> tick \<Rightarrow> OutputPort \<Rightarrow> int \<Rightarrow> NetworkInterface \<Rightarrow> bool res" where
  "candidate_vc cfg now p vc ni =
    bindR (ni_get_vnet vc ni) (\<lambda>t_vnet.
    if op_isVnetSupported t_vnet p then
      bindR (nthR (ni_niOutVcs ni) vc) (\<lambda>b.
      bindR (if fb_isReady now b then bindR (nthR (ni_outVcState ni) vc) (\<lambda>v. Inr (has_credit v)) else Inr False)
        (\<lambda>ready.
      if ready then
        bindR (isVNetOrdered cfg t_vnet) (\<lambda>ordered.
        if ordered then
          bindR (nthR (ni_out_vcs_enqueue_time ni) vc) (\<lambda>my_time.
          bindR (older_ready now my_time
              (map (\<lambda>off. t_vnet * int (ni_vc_per_vnet ni) + off) (upto_int (ni_vc_per_vnet ni))) ni)
            (\<lambda>older. Inr (\<not> older)))
        else Inr True)
      else Inr False))
    else Inr False)"

definition send_vc ::
    "tick \<Rightarrow> nat \<Rightarrow> int \<Rightarrow> NetworkInterface \<times> NetworkLink list \<Rightarrow> (NetworkInterface \<times> NetworkLink list) res" where
  "send_vc now port vc = (\<lambda>(ni, links).
    bindR (modR (ni_outVcState ni) vc decrement_credit) (\<lambda>states.
    bindR (nthR (ni_niOutVcs ni) vc) (\<lambda>b.
    bindR (fb_getTopFlit b) (\<lambda>(t_flit, b').
    bindR (setR (ni_niOutVcs ni) vc b') (\<lambda>bs.
    bindR (ni_scheduleFlit now (t_flit\<lparr>fl_time := ni_clockEdge now 1 ni\<rparr>)
        (ni\<lparr>ni_outPorts := (ni_outPorts ni)[port := (ni_outPorts ni ! port)\<lparr>op_vcRoundRobin := vc\<rparr>],
            ni_outVcState := states, ni_niOutVcs := bs\<rparr>, links)) (\<lambda>(ni1, links1).
      if is_tail t_flit then
        bindR (setR (ni_out_vcs_enqueue_time ni1) vc INFINITE) (\<lambda>ts.
          Inr (ni1\<lparr>ni_out_vcs_enqueue_time := ts\<rparr>, links1))
      else Inr (ni1, links1)))))))"

text \<open>The round robin over all virtual channels, at most \<open>k\<close> more.\<close>

fun output_port_loop ::
    "nat \<Rightarrow> garnet_config \<Rightarrow> tick \<Rightarrow> nat \<Rightarrow> int \<Rightarrow> NetworkInterface \<times> NetworkLink list
     \<Rightarrow> (NetworkInterface \<times> NetworkLink list) res" where
  "output_port_loop 0 cfg now port vc st = Inr st"
| "output_port_loop (Suc k) cfg now port vc st =
    (let vc' = (if vc + 1 = int (length (ni_niOutVcs (fst st))) then 0 else vc + 1) in
     bindR (candidate_vc cfg now (ni_outPorts (fst st) ! port) vc' (fst st)) (\<lambda>ok.
       if ok then send_vc now port vc' st else output_port_loop k cfg now port vc' st))"

definition scheduleOutputPort ::
    "garnet_config \<Rightarrow> tick \<Rightarrow> nat \<Rightarrow> NetworkInterface \<times> NetworkLink list
     \<Rightarrow> (NetworkInterface \<times> NetworkLink list) res" where
  "scheduleOutputPort cfg now port st =
    output_port_loop (length (ni_niOutVcs (fst st))) cfg now port
      (op_vcRoundRobin (ni_outPorts (fst st) ! port)) st"

definition scheduleOutputLink ::
    "garnet_config \<Rightarrow> tick \<Rightarrow> NetworkInterface \<times> NetworkLink list \<Rightarrow> (NetworkInterface \<times> NetworkLink list) res" where
  "scheduleOutputLink cfg now st =
    foldR (scheduleOutputPort cfg now) [0..<length (ni_outPorts (fst st))] st"

section \<open>Replaying a trace\<close>

definition enqueueTracePacket :: "tick \<Rightarrow> NetworkTraceRecord \<Rightarrow> NetworkInterface \<Rightarrow> NetworkInterface" where
  "enqueueTracePacket now trace_record ni =
    ni_scheduleEvent now 1 (ni\<lparr>ni_trace_record_queue := ni_trace_record_queue ni @ [trace_record]\<rparr>)"

text \<open>A \<open>NodeID\<close> is an unsigned 32-bit number.\<close>

definition node_id :: "int \<Rightarrow> nat" where
  "node_id i = nat (i mod 2 ^ 32)"

text \<open>
  The route of a record. \<open>router_of\<close> is \<open>m_net_ptr->get_router_id\<close>; a destination beyond
  all machines leaves the destination set empty.
\<close>

definition trace_net_dest :: "machine_info \<Rightarrow> nat \<Rightarrow> net_dest res" where
  "trace_net_dest mt destID =
    bindR (nd_new mt) (\<lambda>d. case dest_machine mt destID of
      None \<Rightarrow> Inr d
    | Some m \<Rightarrow> nd_add mt m (nd_clear d))"

definition trace_route ::
    "machine_info \<Rightarrow> (nat \<Rightarrow> int \<Rightarrow> int res) \<Rightarrow> OutputPort \<Rightarrow> NetworkInterface \<Rightarrow> NetworkTraceRecord \<Rightarrow> RouteInfo res" where
  "trace_route mt router_of oPort ni rec =
    (let destID = node_id (tr_dest_id rec) in
     bindR (trace_net_dest mt destID) (\<lambda>d.
     bindR (router_of destID (tr_vnet rec)) (\<lambda>dest_router.
       Inr \<lparr>ri_vnet = tr_vnet rec, ri_net_dest = d, ri_src_ni = int (ni_id ni),
            ri_src_router = op_routerID oPort, ri_dest_ni = int destID, ri_dest_router = dest_router,
            ri_hops_traversed = -1, ri_last_flit = False, ri_network_idx = tr_network_idx rec,
            ri_input_idx = tr_input_idx rec, ri_phase_id = tr_phase_id rec\<rparr>)))"

text \<open>One round: a flit of every record that has more than \<open>i\<close>, each a packet of its own.\<close>

definition trace_flit ::
    "tick \<Rightarrow> int \<Rightarrow> int \<Rightarrow> NetworkTraceRecord \<times> RouteInfo \<Rightarrow> flit list \<times> GarnetStats \<Rightarrow> flit list \<times> GarnetStats" where
  "trace_flit now width i = (\<lambda>(rec, route) (fls, gs).
    if i < tr_num_flits rec then
      (case getNextPacketID gs of (packet_id, gs') \<Rightarrow>
        (fls @ [(flit_new packet_id 0 (-1) (tr_vnet rec)
                  (route\<lparr>ri_last_flit := (i = tr_num_flits rec - 1)\<rparr>) 1 None width width now)
                \<lparr>fl_enqueue_time := now\<rparr>], gs'))
    else (fls, gs))"

definition trace_flits ::
    "tick \<Rightarrow> int \<Rightarrow> (NetworkTraceRecord \<times> RouteInfo) list \<Rightarrow> flit list \<times> GarnetStats \<Rightarrow> flit list \<times> GarnetStats" where
  "trace_flits now width rrs =
    (let max_num_flits = fold (\<lambda>(rec, _) m. if tr_num_flits rec > m then tr_num_flits rec else m) rrs 0 in
     fold (\<lambda>i. fold (trace_flit now width i) rrs) (upto_int (nat max_num_flits)))"

text \<open>
  The records of the first time stamp leave the queue. The code then reads the virtual
  network of the \<open>front\<close> of what is left to choose the output port; when nothing is left
  this reads storage past the last record, and \<open>stray\<close> is what it finds there.
\<close>

definition front_vnet :: "int \<Rightarrow> NetworkTraceRecord list \<Rightarrow> int" where
  "front_vnet stray q = (case q of [] \<Rightarrow> stray | rec # _ \<Rightarrow> tr_vnet rec)"

definition transferTraceRecordsToInjectionQueue ::
    "machine_info \<Rightarrow> (nat \<Rightarrow> int \<Rightarrow> int res) \<Rightarrow> int \<Rightarrow> tick \<Rightarrow> NetworkInterface \<times> GarnetStats
     \<Rightarrow> (NetworkInterface \<times> GarnetStats) res" where
  "transferTraceRecordsToInjectionQueue mt router_of stray now = (\<lambda>(ni, gs).
    (case ni_trace_record_queue ni of
       [] \<Rightarrow> Inr (ni, gs)
     | first # _ \<Rightarrow>
         let same_time = takeWhile (\<lambda>r. tr_time r = tr_time first) (ni_trace_record_queue ni);
             rest = dropWhile (\<lambda>r. tr_time r = tr_time first) (ni_trace_record_queue ni) in
         (case getOutportForVnet (front_vnet stray rest) ni of
            None \<Rightarrow> Inl (Assert_failed ''oPort'')
          | Some p \<Rightarrow>
              let oPort = ni_outPorts ni ! p in
              bindR (foldR (\<lambda>rec rrs. bindR (trace_route mt router_of oPort ni rec)
                       (\<lambda>route. Inr (rrs @ [(rec, route)]))) same_time []) (\<lambda>rrs.
              case trace_flits now (op_bitWidth oPort) rrs (ni_trace_injection_queue ni, gs) of (queue, gs') \<Rightarrow>
                Inr (ni\<lparr>ni_trace_record_queue := rest, ni_trace_injection_queue := queue\<rparr>, gs')))))"

definition injectTraceFlit ::
    "tick \<Rightarrow> int \<Rightarrow> int \<Rightarrow> NetworkInterface \<times> GarnetStats \<Rightarrow> (NetworkInterface \<times> GarnetStats) res" where
  "injectTraceFlit now vnet vc = (\<lambda>(ni, gs).
    (case ni_trace_injection_queue ni of
       [] \<Rightarrow> Inl Out_of_range
     | t_flit # queue \<Rightarrow>
         let f = t_flit\<lparr>fl_vc := vc, fl_time := now, fl_src_delay := tick_sub now (fl_enqueue_time t_flit),
                   fl_enqueue_time := now\<rparr> in
         bindR (modR (ni_niOutVcs ni) vc (\<lambda>b. Inr (fb_insert f b))) (\<lambda>bs.
         bindR (setR (ni_out_vcs_enqueue_time ni) vc now) (\<lambda>ts.
         bindR (modR (ni_outVcState ni) vc (\<lambda>v. Inr (setState ACTIVE now v))) (\<lambda>states.
         bindR (if is_tail f then increment_injected_packets vnet gs else Inr gs) (\<lambda>gs1.
         bindR (increment_injected_flits vnet gs1) (\<lambda>gs2.
           Inr (ni\<lparr>ni_trace_injection_queue := queue, ni_niOutVcs := bs,
                   ni_out_vcs_enqueue_time := ts, ni_outVcState := states\<rparr>, gs2))))))))"

text \<open>The branch of \<open>wakeup\<close> that replays the trace.\<close>

definition ni_inject_trace ::
    "machine_info \<Rightarrow> (nat \<Rightarrow> int \<Rightarrow> int res) \<Rightarrow> int \<Rightarrow> tick \<Rightarrow> NetworkInterface \<times> GarnetStats
     \<Rightarrow> (NetworkInterface \<times> GarnetStats) res" where
  "ni_inject_trace mt router_of stray now = (\<lambda>(ni, gs).
    bindR (if ni_trace_injection_queue ni = [] \<and> ni_trace_record_queue ni \<noteq> []
           then transferTraceRecordsToInjectionQueue mt router_of stray now (ni, gs) else Inr (ni, gs))
      (\<lambda>(ni1, gs1). case ni_trace_injection_queue ni1 of
         [] \<Rightarrow> Inr (ni1, gs1)
       | t_flit # _ \<Rightarrow>
           bindR (calculateVC now (fl_vnet t_flit) ni1) (\<lambda>(vc, ni2).
             if vc \<noteq> -1 then injectTraceFlit now (fl_vnet t_flit) vc (ni2, gs1) else Inr (ni2, gs1))))"

section \<open>Receiving\<close>

text \<open>
  The message buffer of a virtual network towards the protocol; a null pointer is
  dereferenced in the code without a check. \<open>msgs\<close> is the store of the messages the flits
  point to, \<open>rt\<close> the value of \<open>random_time()\<close> in the buffer.
\<close>

definition out_buffer :: "int \<Rightarrow> NetworkInterface \<Rightarrow> MessageBuffer res" where
  "out_buffer vnet ni =
    bindR (nthR (ni_outNode ni) vnet) (\<lambda>b. case b of None \<Rightarrow> Inl (Null_pointer ''outNode_ptr[vnet]'') | Some mb \<Rightarrow> Inr mb)"

definition put_out_buffer :: "int \<Rightarrow> MessageBuffer \<Rightarrow> NetworkInterface \<Rightarrow> NetworkInterface" where
  "put_out_buffer vnet mb ni = ni\<lparr>ni_outNode := (ni_outNode ni)[nat vnet := Some mb]\<rparr>"

definition flit_message :: "(nat \<Rightarrow> Message option) \<Rightarrow> flit \<Rightarrow> Message option" where
  "flit_message msgs t_flit = (case fl_msg_ptr t_flit of None \<Rightarrow> None | Some p \<Rightarrow> msgs p)"

definition ni_enqueue ::
    "ruby_flags \<Rightarrow> tick \<Rightarrow> tick \<Rightarrow> int \<Rightarrow> Message option \<Rightarrow> NetworkInterface
     \<Rightarrow> (NetworkInterface \<times> wake_request list) res" where
  "ni_enqueue rs rt now vnet m ni =
    bindR (out_buffer vnet ni) (\<lambda>mb.
    bindR (mb_enqueue rs (ni_clockEdge now 0 ni) (con_period (ni_consumer ni)) rt False m mb) (\<lambda>(mb', reqs).
      Inr (put_out_buffer vnet mb' ni, reqs)))"

definition magicReceive ::
    "ruby_flags \<Rightarrow> tick \<Rightarrow> tick \<Rightarrow> int \<Rightarrow> Message \<Rightarrow> NetworkInterface
     \<Rightarrow> (NetworkInterface \<times> wake_request list) res" where
  "magicReceive rs rt now vnet m ni = ni_enqueue rs rt now vnet (Some m) ni"

definition mod_inPort :: "nat \<Rightarrow> (InputPort \<Rightarrow> InputPort) \<Rightarrow> NetworkInterface \<Rightarrow> NetworkInterface" where
  "mod_inPort p f ni = ni\<lparr>ni_inPorts := (ni_inPorts ni)[p := f (ni_inPorts ni ! p)]\<rparr>"

text \<open>\<open>areNSlotsAvailable(1, curTime)\<close>; a failure is counted in the buffer.\<close>

definition slot_available :: "tick \<Rightarrow> int \<Rightarrow> NetworkInterface \<Rightarrow> (bool \<times> NetworkInterface) res" where
  "slot_available now vnet ni =
    bindR (out_buffer vnet ni) (\<lambda>mb.
      case areNSlotsAvailable 1 (ni_clockEdge now 0 ni) mb of (ok, mb') \<Rightarrow> Inr (ok, put_out_buffer vnet mb' ni))"

text \<open>A credit for the flit goes back, the statistics take it, and the flit is gone.\<close>

definition retire_flit ::
    "garnet_config \<Rightarrow> tick \<Rightarrow> nat \<Rightarrow> bool \<Rightarrow> flit \<Rightarrow> NetworkInterface \<times> GarnetStats
     \<Rightarrow> (NetworkInterface \<times> GarnetStats) res" where
  "retire_flit cfg now p free t_flit = (\<lambda>(ni, gs).
    bindR (incrementStats (con_period (ni_consumer ni)) now t_flit gs) (\<lambda>gs'.
      Inr (mod_inPort p (sendCredit (credit_new (gc_empty_dest cfg) (fl_vc t_flit) free now)) ni, gs')))"

text \<open>The stall queue of a port: the first flit whose buffer has room leaves it.\<close>

definition unstall ::
    "garnet_config \<Rightarrow> ruby_flags \<Rightarrow> (nat \<Rightarrow> Message option) \<Rightarrow> tick \<Rightarrow> tick \<Rightarrow> nat \<Rightarrow> flit \<Rightarrow> flit list
     \<Rightarrow> NetworkInterface \<times> GarnetStats \<Rightarrow> (NetworkInterface \<times> GarnetStats \<times> wake_request list) res" where
  "unstall cfg rs msgs rt now p stallFlit rest = (\<lambda>(ni, gs).
    (let vnet = fl_vnet stallFlit in
     bindR (ni_enqueue rs rt now vnet (flit_message msgs stallFlit) ni) (\<lambda>(ni1, reqs).
     bindR (retire_flit cfg now p True stallFlit (ni1, gs)) (\<lambda>(ni2, gs1).
     bindR (nthR (ni_stall_count ni2) vnet) (\<lambda>n.
     bindR (setR (ni_stall_count ni2) vnet (n - 1)) (\<lambda>counts.
     bindR (if n - 1 = 0 then bindR (out_buffer vnet ni2) (\<lambda>mb.
               Inr (put_out_buffer vnet (unregisterDequeueCallback mb) ni2)) else Inr ni2) (\<lambda>ni3.
       Inr (mod_inPort p (\<lambda>ip. ip\<lparr>ip_stall_queue := rest, ip_messageEnqueuedThisCycle := True\<rparr>)
              (ni3\<lparr>ni_stall_count := counts\<rparr>), gs1, reqs))))))))"

fun stall_loop ::
    "garnet_config \<Rightarrow> ruby_flags \<Rightarrow> (nat \<Rightarrow> Message option) \<Rightarrow> tick \<Rightarrow> tick \<Rightarrow> nat \<Rightarrow> flit list \<Rightarrow> flit list
     \<Rightarrow> NetworkInterface \<times> GarnetStats \<Rightarrow> (NetworkInterface \<times> GarnetStats \<times> wake_request list) res" where
  "stall_loop cfg rs msgs rt now p seen [] st = Inr (fst st, snd st, [])"
| "stall_loop cfg rs msgs rt now p seen (stallFlit # todo) st =
    bindR (slot_available now (fl_vnet stallFlit) (fst st)) (\<lambda>(ok, ni).
      if ok then unstall cfg rs msgs rt now p stallFlit (seen @ todo) (ni, snd st)
      else stall_loop cfg rs msgs rt now p (seen @ [stallFlit]) todo (ni, snd st))"

definition checkStallQueue ::
    "garnet_config \<Rightarrow> ruby_flags \<Rightarrow> (nat \<Rightarrow> Message option) \<Rightarrow> tick \<Rightarrow> tick
     \<Rightarrow> NetworkInterface \<times> GarnetStats \<Rightarrow> (NetworkInterface \<times> GarnetStats \<times> wake_request list) res" where
  "checkStallQueue cfg rs msgs rt now st =
    foldR (\<lambda>p (ni, gs, reqs).
        let ni0 = mod_inPort p (\<lambda>ip. ip\<lparr>ip_messageEnqueuedThisCycle := False\<rparr>) ni in
        bindR (stall_loop cfg rs msgs rt now p [] (ip_stall_queue (ni_inPorts ni0 ! p)) (ni0, gs)) (\<lambda>(ni1, gs1, rq).
          Inr (ni1, gs1, reqs @ rq)))
      [0..<length (ni_inPorts (fst st))] (fst st, snd st, [])"

text \<open>A tail flit is delivered when its buffer has room, and stalls otherwise.\<close>

definition stall_flit ::
    "nat \<Rightarrow> flit \<Rightarrow> NetworkInterface \<Rightarrow> NetworkInterface res" where
  "stall_flit p t_flit ni =
    bindR (nthR (ni_stall_count ni) (fl_vnet t_flit)) (\<lambda>n.
    bindR (setR (ni_stall_count ni) (fl_vnet t_flit) (n + 1)) (\<lambda>counts.
    bindR (out_buffer (fl_vnet t_flit) ni) (\<lambda>mb.
      Inr (put_out_buffer (fl_vnet t_flit) (registerDequeueCallback (NI_consumer (ni_id ni)) mb)
             (mod_inPort p (\<lambda>ip. ip\<lparr>ip_stall_queue := ip_stall_queue ip @ [t_flit]\<rparr>)
               (ni\<lparr>ni_stall_count := counts\<rparr>))))))"

definition receive_tail ::
    "garnet_config \<Rightarrow> ruby_flags \<Rightarrow> (nat \<Rightarrow> Message option) \<Rightarrow> tick \<Rightarrow> tick \<Rightarrow> nat \<Rightarrow> flit
     \<Rightarrow> NetworkInterface \<times> GarnetStats \<Rightarrow> (NetworkInterface \<times> GarnetStats \<times> wake_request list) res" where
  "receive_tail cfg rs msgs rt now p t_flit = (\<lambda>(ni, gs).
    bindR (if \<not> ip_messageEnqueuedThisCycle (ni_inPorts ni ! p)
           then slot_available now (fl_vnet t_flit) ni else Inr (False, ni)) (\<lambda>(ok, ni1).
    if ok then
      bindR (if \<not> gs_trace_enable gs
             then bindR (ni_enqueue rs rt now (fl_vnet t_flit) (flit_message msgs t_flit) ni1)
                    (\<lambda>(ni2, reqs). Inr (ni2, gs, reqs))
             else Inr (ni1, increment_trace_flits_received gs, [])) (\<lambda>(ni2, gs2, reqs).
      bindR (retire_flit cfg now p True t_flit (ni2, gs2)) (\<lambda>(ni3, gs3). Inr (ni3, gs3, reqs)))
    else bindR (stall_flit p t_flit ni1) (\<lambda>ni2. Inr (ni2, gs, []))))"

type_synonym ni_state = "NetworkInterface \<times> GarnetStats \<times> NetworkLink list \<times> wake_request list"

definition receive_port ::
    "garnet_config \<Rightarrow> ruby_flags \<Rightarrow> (nat \<Rightarrow> Message option) \<Rightarrow> tick \<Rightarrow> tick \<Rightarrow> nat \<Rightarrow> ni_state \<Rightarrow> ni_state res" where
  "receive_port cfg rs msgs rt now p = (\<lambda>(ni, gs, links, reqs).
    (let iPort = ni_inPorts ni ! p in
     bindR (nthR links (ip_inNetLink iPort)) (\<lambda>inNetLink.
     if link_isReady now inNetLink then
       bindR (consumeLink inNetLink) (\<lambda>(t_flit, inNetLink').
       guardR (fl_width t_flit = ip_bitWidth iPort) (Assert_failed ''t_flit->m_width == iPort->bitWidth()'')
       (let f = t_flit\<lparr>fl_dequeue_time := now\<rparr>; links1 = links[nat (ip_inNetLink iPort) := inNetLink'] in
        if is_tail f then
          bindR (receive_tail cfg rs msgs rt now p f (ni, gs)) (\<lambda>(ni1, gs1, rq). Inr (ni1, gs1, links1, reqs @ rq))
        else
          bindR (retire_flit cfg now p False f (ni, gs)) (\<lambda>(ni1, gs1). Inr (ni1, gs1, links1, reqs))))
     else Inr (ni, gs, links, reqs))))"

text \<open>The cast to a credit of what the credit link holds is unchecked; on anything else it is undefined.\<close>

definition ni_receive_credit ::
    "tick \<Rightarrow> nat \<Rightarrow> NetworkInterface \<times> NetworkLink list \<Rightarrow> (NetworkInterface \<times> NetworkLink list) res" where
  "ni_receive_credit now p = (\<lambda>(ni, links).
    (let oPort = ni_outPorts ni ! p in
     bindR (nthR links (op_inCreditLink oPort)) (\<lambda>inCreditLink.
     if link_isReady now inCreditLink then
       bindR (consumeLink inCreditLink) (\<lambda>(t_credit, inCreditLink').
       guardR (fl_credit t_credit \<noteq> None) (Null_pointer ''not a Credit'')
       (bindR (modR (ni_outVcState ni) (fl_vc t_credit) increment_credit) (\<lambda>states.
        bindR (if is_free_signal t_credit
               then modR states (fl_vc t_credit) (\<lambda>v. Inr (setState IDLE now v)) else Inr states) (\<lambda>states'.
          Inr (ni\<lparr>ni_outVcState := states'\<rparr>, links[nat (op_inCreditLink oPort) := inCreditLink'])))))
     else Inr (ni, links))))"

definition schedule_credit_link :: "tick \<Rightarrow> nat \<Rightarrow> NetworkInterface \<Rightarrow> NetworkLink list \<Rightarrow> NetworkLink list res" where
  "schedule_credit_link now p ni links =
    (let iPort = ni_inPorts ni ! p in
     if fb_getSize (ip_outCreditQueue iPort) > 0
     then modR links (ip_outCreditLink iPort)
            (\<lambda>l. Inr (link_scheduleEventAbsolute now (ni_clockEdge now 1 ni) l))
     else Inr links)"

section \<open>Wakeup\<close>

text \<open>
  \<open>checkReschedule\<close>: the first reason found schedules the interface for the next cycle.
  Asking a message buffer may ask its consumer for a wakeup.
\<close>

fun waiting_message :: "tick \<Rightarrow> MessageBuffer option list \<Rightarrow> (bool \<times> wake_request list) res" where
  "waiting_message t [] = Inr (False, [])"
| "waiting_message t (None # bs) = waiting_message t bs"
| "waiting_message t (Some mb # bs) =
    bindR (mb_isReady t mb) (\<lambda>(ready, rq).
      if ready then Inr (True, rq)
      else bindR (waiting_message t bs) (\<lambda>(r, rq'). Inr (r, rq @ rq')))"

fun some_link_ready :: "tick \<Rightarrow> int list \<Rightarrow> NetworkLink list \<Rightarrow> bool res" where
  "some_link_ready now [] links = Inr False"
| "some_link_ready now (i # ids) links =
    bindR (nthR links i) (\<lambda>l. if link_isReady now l then Inr True else some_link_ready now ids links)"

definition checkReschedule ::
    "tick \<Rightarrow> NetworkInterface \<times> NetworkLink list \<Rightarrow> (NetworkInterface \<times> wake_request list) res" where
  "checkReschedule now = (\<lambda>(ni, links).
    bindR (waiting_message (ni_clockEdge now 0 ni) (ni_inNode ni)) (\<lambda>(waiting, reqs).
    bindR (if waiting \<or> ni_trace_injection_queue ni \<noteq> [] \<or>
              list_ex (fb_isReady (ni_clockEdge now 1 ni)) (ni_niOutVcs ni) then Inr True
           else some_link_ready now (map ip_inNetLink (ni_inPorts ni) @ map op_inCreditLink (ni_outPorts ni)) links)
      (\<lambda>again. Inr (if again then ni_scheduleEvent now 1 ni else ni, reqs))))"

text \<open>The part of \<open>wakeup\<close> after the injection.\<close>

definition ni_wakeup_rest ::
    "garnet_config \<Rightarrow> ruby_flags \<Rightarrow> (nat \<Rightarrow> Message option) \<Rightarrow> tick \<Rightarrow> tick
     \<Rightarrow> NetworkInterface \<times> GarnetStats \<times> NetworkLink list \<Rightarrow> ni_state res" where
  "ni_wakeup_rest cfg rs msgs rt now = (\<lambda>(ni, gs, links).
    bindR (scheduleOutputLink cfg now (ni, links)) (\<lambda>(ni1, links1).
    bindR (checkStallQueue cfg rs msgs rt now (ni1, gs)) (\<lambda>(ni2, gs2, reqs2).
    bindR (foldR (receive_port cfg rs msgs rt now) [0..<length (ni_inPorts ni2)] (ni2, gs2, links1, reqs2))
      (\<lambda>(ni3, gs3, links3, reqs3).
    bindR (foldR (ni_receive_credit now) [0..<length (ni_outPorts ni3)] (ni3, links3)) (\<lambda>(ni4, links4).
    bindR (foldR (\<lambda>p. schedule_credit_link now p ni4) [0..<length (ni_inPorts ni4)] links4) (\<lambda>links5.
    bindR (checkReschedule now (ni4, links5)) (\<lambda>(ni5, reqs5).
      Inr (ni5, gs3, links5, reqs3 @ reqs5))))))))"

section \<open>Functional access\<close>

definition ni_functionalRead :: "'w msg_access \<Rightarrow> NetworkInterface \<Rightarrow> 'w \<Rightarrow> (bool \<times> 'w) res" where
  "ni_functionalRead acc ni w =
    foldR (\<lambda>b (rd, w). bindR (fb_functionalRead acc b w) (\<lambda>(ok, w'). Inr (ok \<or> rd, w')))
      (ni_niOutVcs ni @ map op_outFlitQueue (ni_outPorts ni)) (False, w)"

definition ni_functionalWrite :: "'w msg_access \<Rightarrow> NetworkInterface \<Rightarrow> 'w \<Rightarrow> (nat \<times> 'w) res" where
  "ni_functionalWrite acc ni w =
    foldR (\<lambda>b (n, w). bindR (fb_functionalWrite acc b w) (\<lambda>(k, w'). Inr (n + k, w')))
      (ni_niOutVcs ni @ map op_outFlitQueue (ni_outPorts ni)) (0, w)"

end
