(* ===== verification/NetworkBridge.thy ===== *)
theory NetworkBridge
  imports NetworkLink
begin

text \<open>
  \<open>NetworkBridge\<close> (\<open>NetworkBridge.hh\<close>, \<open>NetworkBridge.cc\<close>): a link that crosses clock
  domains and changes the flit width. The object it is a subclass of is the field
  \<open>br_link\<close>. What a call does to other objects is part of its result: the numbers passed to
  \<open>coBridge->neutralize\<close> and the wakeups asked of the consumer.
\<close>

datatype bridge_type = LINK_OBJECT | OBJECT_LINK | NUM_BRIDGE_TYPES

record NetworkBridge =
  br_link :: NetworkLink
  br_coBridge :: int
  br_nLink :: int
  br_enCdc :: bool
  br_enSerDes :: bool
  br_mType :: bridge_type
  br_cdcLatency :: cycles
  br_serDesLatency :: cycles
  br_lastScheduledAt :: tick
  br_lenBuffer :: "int list"
  br_sizeSent :: "int list"
  br_flitsSent :: "int list"
  br_extraCredit :: "int list list"

text \<open>
  The constructor wires the bridge and the link \<open>nLink\<close> together; \<open>me\<close> is the index of
  the bridge and \<open>nLink\<close> the index of the link.
\<close>

definition NetworkBridge_new ::
    "NetworkLink \<Rightarrow> bridge_type \<Rightarrow> cycles \<Rightarrow> cycles \<Rightarrow> nat \<Rightarrow> nat \<Rightarrow> NetworkLink \<Rightarrow> (NetworkBridge \<times> NetworkLink) res" where
  "NetworkBridge_new base vtype cdc_latency serdes_latency me nLink nl =
    (let br = \<lparr>br_link = base, br_coBridge = -1, br_nLink = int nLink, br_enCdc = True, br_enSerDes = True,
       br_mType = vtype, br_cdcLatency = cdc_latency, br_serDesLatency = serdes_latency,
       br_lastScheduledAt = 0, br_lenBuffer = [], br_sizeSent = [], br_flitsSent = [], br_extraCredit = []\<rparr>
     in case vtype of
          LINK_OBJECT \<Rightarrow> Inr (br\<lparr>br_link := setSourceQueue (Bridge_buffer nLink) base\<rparr>,
            setLinkConsumer (Link_consumer me) nl)
        | OBJECT_LINK \<Rightarrow> Inr (br\<lparr>br_link := setLinkConsumer (Link_consumer nLink) base\<rparr>,
            setSourceQueue (Bridge_buffer me) nl)
        | _ \<Rightarrow> Inl (Panic ''CDC type must be set''))"

definition resize_vec :: "nat \<Rightarrow> 'a \<Rightarrow> 'a list \<Rightarrow> 'a list" where
  "resize_vec n x xs = take n xs @ replicate (n - length xs) x"

definition bridge_setVcsPerVnet :: "nat \<Rightarrow> NetworkBridge \<Rightarrow> NetworkLink \<Rightarrow> NetworkBridge \<times> NetworkLink" where
  "bridge_setVcsPerVnet consumerVcs br nl =
    (let n = consumerVcs * lk_virt_nets (br_link br)
     in (br\<lparr>br_link := setVcsPerVnet consumerVcs (br_link br),
            br_lenBuffer := resize_vec n 0 (br_lenBuffer br),
            br_sizeSent := resize_vec n 0 (br_sizeSent br),
            br_flitsSent := resize_vec n 0 (br_flitsSent br),
            br_extraCredit := resize_vec n [] (br_extraCredit br)\<rparr>,
         setVcsPerVnet consumerVcs nl))"

definition initBridge :: "int \<Rightarrow> bool \<Rightarrow> bool \<Rightarrow> NetworkBridge \<Rightarrow> NetworkBridge" where
  "initBridge coBrid cdc_en serdes_en br =
    br\<lparr>br_coBridge := coBrid, br_enCdc := cdc_en, br_enSerDes := serdes_en\<rparr>"

text \<open>\<open>cp\<close> is the clock period of the consumer.\<close>

definition scheduleFlit ::
    "nat \<Rightarrow> tick \<Rightarrow> flit \<Rightarrow> cycles \<Rightarrow> NetworkBridge \<Rightarrow> (NetworkBridge \<times> (consumer_ref \<times> tick) list) res" where
  "scheduleFlit cp now t_flit latency br =
    (let totLatency = (if br_enCdc br then latency + br_cdcLatency br else latency);
         nextAvailTick = br_lastScheduledAt br + cp * 1;
         sendTime = max nextAvailTick (clock_edge cp now totLatency)
     in case lk_link_consumer (br_link br) of
          None \<Rightarrow> Inl (Null_pointer ''link_consumer'')
        | Some c \<Rightarrow> Inr (br\<lparr>br_lastScheduledAt := sendTime,
            br_link := link_insert (t_flit\<lparr>fl_time := sendTime\<rparr>) (br_link br)\<rparr>, [(c, sendTime)]))"

definition neutralize :: "int \<Rightarrow> int \<Rightarrow> NetworkBridge \<Rightarrow> NetworkBridge res" where
  "neutralize vc eCredit br =
    bindR (modR (br_extraCredit br) vc (\<lambda>q. Inr (q @ [eCredit])))
      (\<lambda>qs. Inr (br\<lparr>br_extraCredit := qs\<rparr>))"

text \<open>\<open>extraCredit[vc].front()\<close> (undefined on an empty queue) must be nonzero.\<close>

definition front_credit :: "int \<Rightarrow> NetworkBridge \<Rightarrow> int res" where
  "front_credit vc br =
    bindR (nthR (br_extraCredit br) vc) (\<lambda>q. case q of
      [] \<Rightarrow> Inl Out_of_range
    | n # _ \<Rightarrow> guardR (n \<noteq> 0) (Assert_failed ''extraCredit[vc].front()'') (Inr n))"

definition pop_credit :: "int \<Rightarrow> NetworkBridge \<Rightarrow> NetworkBridge res" where
  "pop_credit vc br =
    bindR (modR (br_extraCredit br) vc (\<lambda>q. Inr (tl q))) (\<lambda>qs. Inr (br\<lparr>br_extraCredit := qs\<rparr>))"

definition track :: "int \<Rightarrow> int \<Rightarrow> int \<Rightarrow> NetworkBridge \<Rightarrow> NetworkBridge res" where
  "track vc size_sent flits_sent br =
    bindR (setR (br_sizeSent br) vc size_sent) (\<lambda>ss.
    bindR (setR (br_flitsSent br) vc flits_sent) (\<lambda>fs. Inr (br\<lparr>br_sizeSent := ss, br_flitsSent := fs\<rparr>)))"

definition set_len :: "int \<Rightarrow> int \<Rightarrow> NetworkBridge \<Rightarrow> NetworkBridge res" where
  "set_len vc n br = bindR (setR (br_lenBuffer br) vc n) (\<lambda>ls. Inr (br\<lparr>br_lenBuffer := ls\<rparr>))"

section \<open>Deserializing\<close>

text \<open>\<open>flitPossible\<close> and \<open>num_flits\<close>, with the tracking of the packet.\<close>

definition deserialize_plan ::
    "int \<Rightarrow> int \<Rightarrow> flit \<Rightarrow> NetworkBridge \<Rightarrow> (int \<times> int \<times> NetworkBridge) res" where
  "deserialize_plan cur_width target_width t_flit br =
    (let vc = fl_vc t_flit in
     if fl_type t_flit = CREDIT then
       bindR (nthR (br_lenBuffer br) vc) (\<lambda>len.
       bindR (set_len vc (len + 1) br) (\<lambda>br1.
       bindR (front_credit vc br1) (\<lambda>n.
         if len + 1 = n then
           bindR (pop_credit vc br1) (\<lambda>br2. bindR (set_len vc 0 br2) (\<lambda>br3. Inr (1, 0, br3)))
         else Inr (0, 0, br1))))
     else
       bindR (nthR (br_sizeSent br) vc) (\<lambda>size_sent.
       bindR (nthR (br_flitsSent br) vc) (\<lambda>flits_sent.
       let num_flits = (fl_id t_flit + 1) - flits_sent in
       if is_tail t_flit then
         let flitPossible = divCeil_int (fl_msgSize t_flit - size_sent) target_width
         in guardR (flitPossible < 2) (Assert_failed ''flitPossible < 2'')
            (bindR (track vc 0 0 br) (\<lambda>br1. Inr (flitPossible, num_flits, br1)))
       else
         let flitPossible = ((fl_id t_flit + 1) * cur_width - size_sent) div target_width
         in guardR (flitPossible < 2) (Assert_failed ''flitPossible < 2'')
            (if flitPossible \<noteq> 0
             then bindR (track vc (size_sent + target_width) (fl_id t_flit + 1) br)
                    (\<lambda>br1. Inr (flitPossible, num_flits, br1))
             else Inr (flitPossible, num_flits, br)))))"

definition deserializeAndSend ::
    "net_dest \<Rightarrow> nat \<Rightarrow> tick \<Rightarrow> int \<Rightarrow> int \<Rightarrow> flit \<Rightarrow> NetworkBridge
     \<Rightarrow> (NetworkBridge \<times> (int \<times> int) list \<times> (consumer_ref \<times> tick) list) res" where
  "deserializeAndSend empty_dest cp now cur_width target_width t_flit br =
    (let vc = fl_vc t_flit in
     bindR (deserialize_plan cur_width target_width t_flit br) (\<lambda>(flitPossible, num_flits, br1).
     if flitPossible \<noteq> 0 then
       bindR (nthR (br_lenBuffer br1) vc) (\<lambda>len.
       bindR (flit_deserialize empty_dest len num_flits target_width t_flit) (\<lambda>fl.
       bindR (set_len vc 0 br1) (\<lambda>br2.
       bindR (scheduleFlit cp now fl (br_serDesLatency br) br2) (\<lambda>(br3, reqs).
         Inr (br3, if fl_type t_flit \<noteq> CREDIT then [(vc, num_flits)] else [], reqs)))))
     else Inr (br1, [], [])))"

section \<open>Serializing\<close>

definition serialize_plan :: "int \<Rightarrow> int \<Rightarrow> flit \<Rightarrow> NetworkBridge \<Rightarrow> (int \<times> NetworkBridge) res" where
  "serialize_plan cur_width target_width t_flit br =
    (let vc = fl_vc t_flit in
     if fl_type t_flit = CREDIT then
       bindR (front_credit vc br) (\<lambda>n. bindR (pop_credit vc br) (\<lambda>br1. Inr (n, br1)))
     else
       bindR (nthR (br_sizeSent br) vc) (\<lambda>size_sent.
       bindR (nthR (br_flitsSent br) vc) (\<lambda>flits_sent.
       if fl_type t_flit = HEAD \<or> fl_type t_flit = BODY then
         let flitPossible = ((fl_id t_flit + 1) * cur_width - size_sent) div target_width
         in if flitPossible \<noteq> 0
            then bindR (track vc (size_sent + flitPossible * target_width) (flits_sent + flitPossible) br)
                   (\<lambda>br1. Inr (flitPossible, br1))
            else Inr (flitPossible, br)
       else
         let flitPossible = divCeil_int (fl_msgSize t_flit - size_sent) target_width
         in bindR (track vc 0 0 br) (\<lambda>br1. Inr (flitPossible, br1)))))"

text \<open>The loop that schedules the parts.\<close>

definition send_parts ::
    "net_dest \<Rightarrow> nat \<Rightarrow> tick \<Rightarrow> int \<Rightarrow> int \<Rightarrow> flit \<Rightarrow> NetworkBridge
     \<Rightarrow> (NetworkBridge \<times> (consumer_ref \<times> tick) list) res" where
  "send_parts empty_dest cp now parts target_width t_flit br =
    foldR (\<lambda>i (br, reqs).
        bindR (flit_serialize empty_dest i parts target_width t_flit) (\<lambda>fl.
        bindR (scheduleFlit cp now fl (br_serDesLatency br) br) (\<lambda>(br', rs). Inr (br', reqs @ rs))))
      (upto_int (nat parts)) (br, [])"

definition serializeAndSend ::
    "net_dest \<Rightarrow> nat \<Rightarrow> tick \<Rightarrow> int \<Rightarrow> int \<Rightarrow> flit \<Rightarrow> NetworkBridge
     \<Rightarrow> (NetworkBridge \<times> (int \<times> int) list \<times> (consumer_ref \<times> tick) list) res" where
  "serializeAndSend empty_dest cp now cur_width target_width t_flit br =
    bindR (serialize_plan cur_width target_width t_flit br) (\<lambda>(flitPossible, br1).
    guardR (flitPossible > 0) (Assert_failed ''flitPossible > 0'')
    (bindR (send_parts empty_dest cp now flitPossible target_width t_flit br1) (\<lambda>(br2, reqs).
      Inr (br2, if fl_type t_flit \<noteq> CREDIT then [(fl_vc t_flit, flitPossible)] else [], reqs))))"

section \<open>The handler\<close>

text \<open>\<open>nl_width\<close> is \<open>nLink->bitWidth\<close>.\<close>

definition flitisizeAndSend ::
    "net_dest \<Rightarrow> nat \<Rightarrow> tick \<Rightarrow> int \<Rightarrow> flit \<Rightarrow> NetworkBridge
     \<Rightarrow> (NetworkBridge \<times> (int \<times> int) list \<times> (consumer_ref \<times> tick) list) res" where
  "flitisizeAndSend empty_dest cp now nl_width t_flit br =
    (if br_enSerDes br then
       let own = lk_bitWidth (br_link br);
           target_width = (if br_mType br = OBJECT_LINK then nl_width else own);
           cur_width = (if br_mType br = OBJECT_LINK then own else nl_width)
       in guardR (target_width \<noteq> cur_width) (Assert_failed ''target_width != cur_width'')
          (guardR (target_width \<noteq> 0) Div_by_zero
          (if target_width > cur_width
           then deserializeAndSend empty_dest cp now cur_width target_width t_flit br
           else serializeAndSend empty_dest cp now cur_width target_width t_flit br))
     else bindR (scheduleFlit cp now t_flit 0 br) (\<lambda>(br', reqs). Inr (br', [], reqs)))"

definition bridge_wakeup ::
    "net_dest \<Rightarrow> nat \<Rightarrow> tick \<Rightarrow> int \<Rightarrow> flitBuffer option \<Rightarrow> NetworkBridge
     \<Rightarrow> (flitBuffer \<times> NetworkBridge \<times> (int \<times> int) list \<times> (consumer_ref \<times> tick) list) res" where
  "bridge_wakeup empty_dest cp now nl_width srcQueue br =
    (case srcQueue of
       None \<Rightarrow> Inl (Null_pointer ''link_srcQueue'')
     | Some src \<Rightarrow>
         bindR (if fb_isReady now src then
                  bindR (fb_getTopFlit src) (\<lambda>(t_flit, src').
                  bindR (flitisizeAndSend empty_dest cp now nl_width t_flit br)
                    (\<lambda>(br', ns, reqs). Inr (src', br', ns, reqs)))
                else Inr (src, br, [], []))
           (\<lambda>(src', br', ns, reqs).
              Inr (src', if \<not> fb_isEmpty src' then br'\<lparr>br_link := link_scheduleEvent now 1 (br_link br')\<rparr>
                         else br', ns, reqs)))"

section \<open>Send times\<close>

abbreviation br_flits :: "NetworkBridge \<Rightarrow> flit list" where
  "br_flits br \<equiv> link_flits (br_link br)"

text \<open>
  The consumer gets at most one flit per cycle of its clock: the stamps are a period apart,
  and none is later than \<open>lastScheduledAt\<close>.
\<close>

definition bridge_ok :: "nat \<Rightarrow> NetworkBridge \<Rightarrow> bool" where
  "bridge_ok cp br \<longleftrightarrow>
    sorted_wrt (\<lambda>f g. fl_time f + cp \<le> fl_time g) (br_flits br) \<and>
    (\<forall>f \<in> set (br_flits br). fl_time f \<le> br_lastScheduledAt br)"

text \<open>What a send adds: flits behind those already there, each announced to the consumer.\<close>

definition sends :: "tick \<Rightarrow> NetworkBridge \<Rightarrow> NetworkBridge \<Rightarrow> (consumer_ref \<times> tick) list \<Rightarrow> bool" where
  "sends now br br' reqs \<longleftrightarrow>
    (\<exists>new. br_flits br' = br_flits br @ new \<and> map snd reqs = map fl_time new \<and>
       (\<forall>f \<in> set new. now \<le> fl_time f)) \<and>
    lk_link_consumer (br_link br') = lk_link_consumer (br_link br)"

lemma sends_refl: "br_link br' = br_link br \<Longrightarrow> sends now br br' []"
  by (simp add: sends_def)

lemma sends_trans: "sends now a b rs \<Longrightarrow> sends now b c rs' \<Longrightarrow> sends now a c (rs @ rs')"
  unfolding sends_def by fastforce

lemma sends_append: "sends now a b rs \<Longrightarrow> sends now b c rs' \<Longrightarrow> sends now a c (rs @ rs')"
  by (rule sends_trans)

lemma sends_same_link: "sends now a b rs \<Longrightarrow> br_link a = br_link a' \<Longrightarrow> sends now a' b rs"
  by (simp add: sends_def)

lemma bridge_ok_cong:
  "br_link a = br_link b \<Longrightarrow> br_lastScheduledAt a = br_lastScheduledAt b \<Longrightarrow> bridge_ok cp a = bridge_ok cp b"
  by (simp add: bridge_ok_def)

definition send_time :: "nat \<Rightarrow> tick \<Rightarrow> cycles \<Rightarrow> NetworkBridge \<Rightarrow> tick" where
  "send_time cp now lat br = max (br_lastScheduledAt br + cp)
    (clock_edge cp now (if br_enCdc br then lat + br_cdcLatency br else lat))"

lemma scheduleFlit_eq:
  "scheduleFlit cp now f lat br = Inr (br', reqs) \<longleftrightarrow>
    (\<exists>c. lk_link_consumer (br_link br) = Some c \<and> reqs = [(c, send_time cp now lat br)] \<and>
      br' = br\<lparr>br_lastScheduledAt := send_time cp now lat br,
        br_link := link_insert (f\<lparr>fl_time := send_time cp now lat br\<rparr>) (br_link br)\<rparr>)"
  by (auto simp: scheduleFlit_def send_time_def Let_def split: option.splits)

lemma send_time_ge:
  "0 < cp \<Longrightarrow> now \<le> send_time cp now lat br" "br_lastScheduledAt br + cp \<le> send_time cp now lat br"
  unfolding send_time_def by (auto intro: max.coboundedI2 clock_edge_ge)

lemma scheduleFlit_sends:
  assumes "0 < cp" "bridge_ok cp br" "scheduleFlit cp now f lat br = Inr (br', reqs)"
  shows "bridge_ok cp br' \<and> sends now br br' reqs"
proof -
  let ?t = "send_time cp now lat br"
  obtain c where t: "reqs = [(c, ?t)]"
      "br_lastScheduledAt br' = ?t" "br_flits br' = br_flits br @ [f\<lparr>fl_time := ?t\<rparr>]"
      "lk_link_consumer (br_link br') = lk_link_consumer (br_link br)"
    using assms(3) by (auto simp: scheduleFlit_eq link_insert_def)
  have le: "fl_time g + cp \<le> ?t" if "g \<in> set (br_flits br)" for g
    using assms(2) that send_time_ge(2) [of br cp now lat] by (fastforce simp: bridge_ok_def)
  then have "bridge_ok cp br'"
    using assms(2) t(2,3) by (auto simp: bridge_ok_def sorted_wrt_append dest: add_leD1)
  with t send_time_ge(1) [OF assms(1)] show ?thesis by (simp add: sends_def)
qed

lemma send_parts_sends:
  assumes "0 < cp" "bridge_ok cp br" "send_parts e cp now n w f br = Inr (br', reqs)"
  shows "bridge_ok cp br' \<and> sends now br br' reqs"
proof -
  let ?P = "\<lambda>(br', reqs). bridge_ok cp br' \<and> sends now br br' reqs"
  have "?P (br', reqs)"
  proof (rule foldR_invariant [OF assms(3) [unfolded send_parts_def], where P = ?P], goal_cases)
    case 1
    show ?case using assms(2) by (simp add: sends_refl)
  next
    case (2 i s s')
    then obtain b rs fl b' rs' where "s = (b, rs)" "bridge_ok cp b" "sends now br b rs"
        "scheduleFlit cp now fl (br_serDesLatency b) b = Inr (b', rs')" "s' = (b', rs @ rs')"
      by (cases s) (auto elim!: bindR_InrE)
    with scheduleFlit_sends [OF assms(1)] sends_trans show ?case by fastforce
  qed
  then show ?thesis by simp
qed

lemma track_frame:
  "track vc a b br = Inr br' \<Longrightarrow> br_link br' = br_link br \<and> br_lastScheduledAt br' = br_lastScheduledAt br"
  unfolding track_def by (auto elim!: bindR_InrE)

lemma set_len_frame:
  "set_len vc a br = Inr br' \<Longrightarrow> br_link br' = br_link br \<and> br_lastScheduledAt br' = br_lastScheduledAt br"
  unfolding set_len_def by (auto elim!: bindR_InrE)

lemma pop_credit_frame:
  "pop_credit vc br = Inr br' \<Longrightarrow> br_link br' = br_link br \<and> br_lastScheduledAt br' = br_lastScheduledAt br"
  unfolding pop_credit_def by (auto elim!: bindR_InrE)

lemma serialize_plan_frame:
  "serialize_plan cw tw f br = Inr (n, br') \<Longrightarrow>
    br_link br' = br_link br \<and> br_lastScheduledAt br' = br_lastScheduledAt br"
  unfolding serialize_plan_def Let_def
  by (auto elim!: bindR_InrE dest: track_frame pop_credit_frame split: if_splits)

lemma deserialize_plan_frame:
  assumes "deserialize_plan cw tw f br = Inr (n, k, br')"
  shows "br_link br' = br_link br \<and> br_lastScheduledAt br' = br_lastScheduledAt br"
proof (cases "fl_type f = CREDIT")
  case True
  with assms show ?thesis unfolding deserialize_plan_def Let_def
    by (elim bindR_InrE if_InrE) (auto dest!: set_len_frame pop_credit_frame elim!: bindR_InrE if_InrE)
next
  case False
  with assms show ?thesis unfolding deserialize_plan_def Let_def
    by (elim bindR_InrE if_InrE guardR_InrE) (auto dest!: track_frame elim!: bindR_InrE guardR_InrE if_InrE)
qed

lemma flitisizeAndSend_sends:
  assumes "0 < cp" "bridge_ok cp br" "flitisizeAndSend e cp now w f br = Inr (br', ns, reqs)"
  shows "bridge_ok cp br' \<and> sends now br br' reqs"
proof -
  consider (cdc) "scheduleFlit cp now f 0 br = Inr (br', reqs)"
    | (des) cw tw where "deserializeAndSend e cp now cw tw f br = Inr (br', ns, reqs)"
    | (ser) cw tw where "serializeAndSend e cp now cw tw f br = Inr (br', ns, reqs)"
    using assms(3) unfolding flitisizeAndSend_def Let_def
    by (elim if_InrE guardR_InrE bindR_InrE case_prod_InrE) auto
  then show ?thesis
  proof cases
    case cdc
    then show ?thesis using scheduleFlit_sends [OF assms(1,2)] by blast
  next
    case ser
    then obtain n br1 where "serialize_plan cw tw f br = Inr (n, br1)"
        "send_parts e cp now n tw f br1 = Inr (br', reqs)"
      unfolding serializeAndSend_def by (elim bindR_InrE case_prod_InrE guardR_InrE) auto
    with serialize_plan_frame [of cw tw f br n br1] send_parts_sends [OF assms(1), of br1]
      bridge_ok_cong [of br1 br] assms(2) sends_same_link [of now br1 br' reqs br]
    show ?thesis by simp
  next
    case des
    then obtain n k br1 where plan: "deserialize_plan cw tw f br = Inr (n, k, br1)"
      and or: "br' = br1 \<and> reqs = [] \<or> (\<exists>br2 fl. set_len (fl_vc f) 0 br1 = Inr br2 \<and>
        scheduleFlit cp now fl (br_serDesLatency br) br2 = Inr (br', reqs))"
      unfolding deserializeAndSend_def Let_def
      by (elim bindR_InrE case_prod_InrE if_InrE) (auto elim!: bindR_InrE)
    have fr: "br_link br1 = br_link br" "br_lastScheduledAt br1 = br_lastScheduledAt br"
      using deserialize_plan_frame [OF plan] by simp_all
    from or show ?thesis
    proof (elim disjE exE conjE)
      assume "br' = br1" "reqs = []"
      then show ?thesis using fr assms(2) bridge_ok_cong [of br1 br] sends_refl [of br1 br now] by simp
    next
      fix br2 fl
      assume l: "set_len (fl_vc f) 0 br1 = Inr br2"
        and s: "scheduleFlit cp now fl (br_serDesLatency br) br2 = Inr (br', reqs)"
      have "br_link br2 = br_link br" "br_lastScheduledAt br2 = br_lastScheduledAt br"
        using set_len_frame [OF l] fr by simp_all
      with scheduleFlit_sends [OF assms(1) _ s] bridge_ok_cong [of br2 br] assms(2)
        sends_same_link [of now br2 br' reqs br] show ?thesis by simp
    qed
  qed
qed

text \<open>
  Whatever a bridge does with the flits of its source queue, what it puts on its link
  leaves at least one clock period of the consumer apart and never before the present tick, and
  every flit put there has its wakeup of the consumer.
\<close>

theorem bridge_send_times:
  assumes "0 < cp" and "bridge_ok cp br"
    and "bridge_wakeup e cp now w (Some src) br = Inr (src', br', ns, reqs)"
  shows "bridge_ok cp br' \<and>
    (\<exists>new. br_flits br' = br_flits br @ new \<and> map snd reqs = map fl_time new \<and>
      (\<forall>f \<in> set new. now \<le> fl_time f))"
proof -
  from assms(3) obtain br1 where
      m: "(if fb_isReady now src then
             bindR (fb_getTopFlit src) (\<lambda>(t_flit, src').
             bindR (flitisizeAndSend e cp now w t_flit br) (\<lambda>(br', ns, reqs). Inr (src', br', ns, reqs)))
           else Inr (src, br, [], [])) = Inr (src', br1, ns, reqs)"
    and k: "br' = (if \<not> fb_isEmpty src' then br1\<lparr>br_link := link_scheduleEvent now 1 (br_link br1)\<rparr> else br1)"
    unfolding bridge_wakeup_def option.case by (elim bindR_InrE case_prod_InrE) auto
  from m consider "br1 = br" "reqs = []" | f where "flitisizeAndSend e cp now w f br = Inr (br1, ns, reqs)"
    by (elim bindR_InrE case_prod_InrE if_InrE) auto
  then have "bridge_ok cp br1 \<and> sends now br br1 reqs"
    using assms(2) flitisizeAndSend_sends [OF assms(1,2)] sends_refl [of br br now] by cases blast+
  moreover have "br_flits br' = br_flits br1" "br_lastScheduledAt br' = br_lastScheduledAt br1"
    using k by simp_all
  ultimately show ?thesis by (simp add: bridge_ok_def sends_def)
qed

section \<open>Serialization of a packet\<close>

text \<open>The bridge takes the flits of a packet, one after the other, at the given times.\<close>

definition bridge_feed ::
    "net_dest \<Rightarrow> nat \<Rightarrow> int \<Rightarrow> (tick \<times> flit) list \<Rightarrow> NetworkBridge \<Rightarrow> NetworkBridge res" where
  "bridge_feed e cp nl_width tfs br =
    foldR (\<lambda>(now, f) br. bindR (flitisizeAndSend e cp now nl_width f br) (\<lambda>(br', ns, reqs). Inr br'))
      tfs br"

text \<open>The flits of one message of \<open>m\<close> bytes at width \<open>cw\<close>.\<close>

definition is_packet :: "nat \<Rightarrow> nat \<Rightarrow> int \<Rightarrow> flit list \<Rightarrow> bool" where
  "is_packet m cw vc fs \<longleftrightarrow> length fs = divCeil m cw \<and>
    (\<forall>i < length fs. fl_id (fs ! i) = int i \<and> fl_size (fs ! i) = int (length fs) \<and>
       fl_type (fs ! i) = flit_type_of (int i) (int (length fs)) \<and> fl_msgSize (fs ! i) = int m \<and>
       fl_width (fs ! i) = int cw \<and> fl_vc (fs ! i) = vc \<and> fl_credit (fs ! i) = None)"

text \<open>A bridge that serializes from \<open>cw\<close> to \<open>tw\<close>, having sent \<open>sent\<close> bytes of the packet.\<close>

definition serializer :: "nat \<Rightarrow> nat \<Rightarrow> int \<Rightarrow> int \<Rightarrow> nat \<Rightarrow> NetworkBridge \<Rightarrow> bool" where
  "serializer cw tw nl_width vc sent br \<longleftrightarrow> br_enSerDes br \<and>
    (if br_mType br = OBJECT_LINK then nl_width = int tw \<and> lk_bitWidth (br_link br) = int cw
     else nl_width = int cw \<and> lk_bitWidth (br_link br) = int tw) \<and>
    lk_link_consumer (br_link br) \<noteq> None \<and>
    0 \<le> vc \<and> vc < int (length (br_sizeSent br)) \<and> vc < int (length (br_flitsSent br)) \<and>
    br_sizeSent br ! nat vc = int sent"

text \<open>What the parts of a flit look like.\<close>

definition is_part :: "flit \<Rightarrow> nat \<Rightarrow> nat \<Rightarrow> flit \<Rightarrow> bool" where
  "is_part f tw size' g \<longleftrightarrow> fl_size g = int size' \<and> fl_type g = flit_type_of (fl_id g) (int size') \<and>
    fl_width g = int tw \<and> fl_vc g = fl_vc f \<and> fl_packet_id g = fl_packet_id f \<and>
    fl_msgSize g = fl_msgSize f \<and> fl_credit g = None"

lemma flit_serialize_part:
  assumes "0 < tw" "1 < k" "fl_width f = int (k * tw)" "fl_msgSize f = int m" "fl_credit f = None"
    and "fl_id f * int k + i < int (divCeil m tw)"
  shows "\<exists>g. flit_serialize e i parts (int tw) f = Inr g \<and> fl_id g = fl_id f * int k + i \<and>
    is_part f tw (divCeil m tw) g"
proof -
  have ratio: "divCeil_int (fl_width f) (int tw) = int k"
    using divCeil_int_of_nat [OF assms(1), of "k * tw"] assms(1,3) by simp
  have size: "divCeil_int (fl_msgSize f) (int tw) = int (divCeil m tw)"
    using divCeil_int_of_nat [OF assms(1)] assms(4) by simp
  have "int tw < fl_width f" using assms(1,2,3) by simp
  with assms(1,5,6) ratio size show ?thesis
    by (simp add: flit_serialize_def flit_serialize_flit_def Let_def is_part_def)
qed

lemma send_parts_total:
  assumes "0 < tw" "1 < k" "fl_width f = int (k * tw)" "fl_msgSize f = int m" "fl_credit f = None"
    and "lk_link_consumer (br_link br) = Some c"
    and "fl_id f * int k + int n \<le> int (divCeil m tw)"
  shows "\<exists>l t reqs new. send_parts e cp now (int n) (int tw) f br
        = Inr (br\<lparr>br_link := l, br_lastScheduledAt := t\<rparr>, reqs) \<and>
    link_flits l = br_flits br @ new \<and> lk_link_consumer l = Some c \<and> lk_bitWidth l = lk_bitWidth (br_link br) \<and>
    map fl_id new = map (\<lambda>j. fl_id f * int k + j) (upto_int n) \<and> (\<forall>g \<in> set new. is_part f tw (divCeil m tw) g)"
  using assms(7)
proof (induction n)
  case 0
  have "br = br\<lparr>br_link := br_link br, br_lastScheduledAt := br_lastScheduledAt br\<rparr>" by simp
  with assms(6) show ?case
    by (intro exI [of _ "br_link br"] exI [of _ "br_lastScheduledAt br"]) (simp add: send_parts_def)
next
  case (Suc n)
  let ?step = "\<lambda>i (br, reqs).
        bindR (flit_serialize e i (int (Suc n)) (int tw) f) (\<lambda>fl.
        bindR (scheduleFlit cp now fl (br_serDesLatency br) br) (\<lambda>(br', rs). Inr (br', reqs @ rs)))"
  have same: "flit_serialize e i (int (Suc n)) (int tw) f = flit_serialize e i (int n) (int tw) f" for i
    using assms(5) by (simp add: flit_serialize_def flit_serialize_flit_def)
  from Suc obtain l t reqs new where IH: "send_parts e cp now (int n) (int tw) f br
        = Inr (br\<lparr>br_link := l, br_lastScheduledAt := t\<rparr>, reqs)"
      "link_flits l = br_flits br @ new" "lk_link_consumer l = Some c" "lk_bitWidth l = lk_bitWidth (br_link br)"
      "map fl_id new = map (\<lambda>j. fl_id f * int k + j) (upto_int n)" "\<forall>g \<in> set new. is_part f tw (divCeil m tw) g"
    by auto
  have "fl_id f * int k + int n < int (divCeil m tw)" using Suc.prems by simp
  from flit_serialize_part [OF assms(1-5) this, of e "int (Suc n)"] obtain g where
    g: "flit_serialize e (int n) (int (Suc n)) (int tw) f = Inr g" "fl_id g = fl_id f * int k + int n"
      "is_part f tw (divCeil m tw) g" by auto
  let ?br = "br\<lparr>br_link := l, br_lastScheduledAt := t\<rparr>"
  let ?t = "send_time cp now (br_serDesLatency br) ?br"
  have "scheduleFlit cp now g (br_serDesLatency ?br) ?br
      = Inr (?br\<lparr>br_lastScheduledAt := ?t, br_link := link_insert (g\<lparr>fl_time := ?t\<rparr>) l\<rparr>, [(c, ?t)])"
    using IH(3) by (simp add: scheduleFlit_eq)
  then have "send_parts e cp now (int (Suc n)) (int tw) f br
      = Inr (br\<lparr>br_link := link_insert (g\<lparr>fl_time := ?t\<rparr>) l, br_lastScheduledAt := ?t\<rparr>, reqs @ [(c, ?t)])"
    using IH(1) g(1) unfolding send_parts_def nat_int upto_int_Suc foldR_append same by simp
  moreover have "is_part f tw (divCeil m tw) (g\<lparr>fl_time := ?t\<rparr>)"
    using g(3) by (simp add: is_part_def)
  ultimately show ?case
    using IH g(2) by (intro exI [of _ "link_insert (g\<lparr>fl_time := ?t\<rparr>) l"] exI [of _ ?t]
        exI [of _ "reqs @ [(c, ?t)]"] exI [of _ "new @ [g\<lparr>fl_time := ?t\<rparr>]"])
      (simp add: link_insert_def upto_int_Suc)
qed

lemma serialize_plan_parts:
  assumes "0 \<le> vc" "vc < int (length (br_sizeSent br))" "vc < int (length (br_flitsSent br))"
    and "fl_vc f = vc" "br_sizeSent br ! nat vc = sz"
  shows "fl_type f = HEAD \<or> fl_type f = BODY \<Longrightarrow> ((fl_id f + 1) * cw - sz) div tw = n \<Longrightarrow> n \<noteq> 0 \<Longrightarrow>
      serialize_plan cw tw f br = Inr (n, br\<lparr>br_sizeSent := (br_sizeSent br)[nat vc := sz + n * tw],
        br_flitsSent := (br_flitsSent br)[nat vc := br_flitsSent br ! nat vc + n]\<rparr>)"
    and "fl_type f = TAIL \<or> fl_type f = HEAD_TAIL \<Longrightarrow> divCeil_int (fl_msgSize f - sz) tw = n \<Longrightarrow>
      serialize_plan cw tw f br = Inr (n, br\<lparr>br_sizeSent := (br_sizeSent br)[nat vc := 0],
        br_flitsSent := (br_flitsSent br)[nat vc := 0]\<rparr>)"
proof -
  assume "fl_type f = HEAD \<or> fl_type f = BODY" "((fl_id f + 1) * cw - sz) div tw = n" "n \<noteq> 0"
  then show "serialize_plan cw tw f br = Inr (n, br\<lparr>br_sizeSent := (br_sizeSent br)[nat vc := sz + n * tw],
        br_flitsSent := (br_flitsSent br)[nat vc := br_flitsSent br ! nat vc + n]\<rparr>)"
    using assms by (elim disjE) (simp_all add: serialize_plan_def track_def Let_def)
next
  assume "fl_type f = TAIL \<or> fl_type f = HEAD_TAIL" "divCeil_int (fl_msgSize f - sz) tw = n"
  then show "serialize_plan cw tw f br = Inr (n, br\<lparr>br_sizeSent := (br_sizeSent br)[nat vc := 0],
        br_flitsSent := (br_flitsSent br)[nat vc := 0]\<rparr>)"
    using assms by (elim disjE) (simp_all add: serialize_plan_def track_def Let_def)
qed

lemma serialize_plan_body:
  assumes "serializer (k * tw) tw w vc (i * (k * tw)) br" "0 < tw" "0 < k"
    and "fl_type f = HEAD \<or> fl_type f = BODY" "fl_id f = int i" "fl_vc f = vc"
  shows "\<exists>fl. serialize_plan (int (k * tw)) (int tw) f br = Inr (int k,
    br\<lparr>br_sizeSent := (br_sizeSent br)[nat vc := int ((i + 1) * (k * tw))], br_flitsSent := fl\<rparr>) \<and>
    length fl = length (br_flitsSent br)"
proof -
  have vc: "0 \<le> vc" "vc < int (length (br_sizeSent br))" "vc < int (length (br_flitsSent br))"
      "br_sizeSent br ! nat vc = int (i * (k * tw))"
    using assms(1) unfolding serializer_def by blast+
  have n: "((fl_id f + 1) * int (k * tw) - int (i * (k * tw))) div int tw = int k"
    using assms(2,5) by (simp add: distrib_right)
  have "int (i * (k * tw)) + int k * int tw = int ((i + 1) * (k * tw))"
    by (simp add: distrib_right)
  with serialize_plan_parts(1) [OF vc(1-3) assms(6) vc(4) assms(4) n] assms(3) show ?thesis
    by (metis length_list_update of_nat_0_less_iff order_less_irrefl)
qed

lemma serialize_plan_tail:
  assumes "serializer (k * tw) tw w vc (i * (k * tw)) br" "0 < tw" "i * (k * tw) \<le> m"
    and "fl_type f = TAIL \<or> fl_type f = HEAD_TAIL" "fl_vc f = vc" "fl_msgSize f = int m"
  shows "\<exists>fl. serialize_plan (int (k * tw)) (int tw) f br = Inr (int (divCeil (m - i * (k * tw)) tw),
    br\<lparr>br_sizeSent := (br_sizeSent br)[nat vc := int 0], br_flitsSent := fl\<rparr>) \<and>
    length fl = length (br_flitsSent br)"
proof -
  have vc: "0 \<le> vc" "vc < int (length (br_sizeSent br))" "vc < int (length (br_flitsSent br))"
      "br_sizeSent br ! nat vc = int (i * (k * tw))"
    using assms(1) unfolding serializer_def by blast+
  have "int m - int (i * (k * tw)) = int (m - i * (k * tw))" using assms(3) by (rule of_nat_diff [symmetric])
  then have n: "divCeil_int (fl_msgSize f - int (i * (k * tw))) (int tw) = int (divCeil (m - i * (k * tw)) tw)"
    using divCeil_int_of_nat [OF assms(2), of "m - i * (k * tw)"] assms(6) by (simp only:)
  from serialize_plan_parts(2) [OF vc(1-3) assms(5) vc(4) assms(4) n] show ?thesis
    by (metis length_list_update of_nat_0)
qed

lemma serializer_widths:
  assumes "serializer cw tw w vc sent br" "tw < cw" "0 < tw"
  shows "flitisizeAndSend e cp now w f br = serializeAndSend e cp now (int cw) (int tw) f br"
  using assms by (auto simp: flitisizeAndSend_def serializer_def Let_def guardR_def)

lemma serializer_step:
  assumes "serializer cw tw w vc sent br" "br1 = br\<lparr>br_sizeSent := (br_sizeSent br)[nat vc := int s], br_flitsSent := fl\<rparr>"
    and "length fl = length (br_flitsSent br)" "lk_link_consumer l = Some c"
    and "lk_bitWidth l = lk_bitWidth (br_link br)"
  shows "serializer cw tw w vc s (br1\<lparr>br_link := l, br_lastScheduledAt := t\<rparr>)"
proof -
  have "nat vc < length (br_sizeSent br)" using assms(1) unfolding serializer_def by linarith
  with assms show ?thesis unfolding serializer_def by simp
qed

lemma packet_part_bounds:
  assumes "i < divCeil m (k * tw)" "0 < tw" "0 < k"
  shows "i * (k * tw) < m"
    and "i + 1 < divCeil m (k * tw) \<Longrightarrow> i * k + k \<le> divCeil m tw"
    and "divCeil m tw = i * k + divCeil (m - i * (k * tw)) tw"
proof -
  have p: "0 < k * tw" using assms(2,3) by simp
  show less: "i * (k * tw) < m"
    using assms(1) divCeil_le_iff [OF p, of m i] by (simp add: not_le [symmetric])
  show "i * k + k \<le> divCeil m tw" if "i + 1 < divCeil m (k * tw)"
  proof -
    have "(i + 1) * (k * tw) < m"
      using that divCeil_le_iff [OF p, of m "i + 1"] by (simp add: not_le [symmetric])
    then have "\<not> m \<le> (i * k + k) * tw" by (simp add: algebra_simps)
    with divCeil_le_iff [OF assms(2), of m "i * k + k"] show ?thesis by simp
  qed
  have "m = i * k * tw + (m - i * (k * tw))" using less by (simp add: mult.assoc)
  with divCeil_mult_add [OF assms(2), of "i * k" "m - i * (k * tw)"]
  show "divCeil m tw = i * k + divCeil (m - i * (k * tw)) tw" by simp
qed

lemma packet_plan:
  assumes "is_packet m (k * tw) vc fs" "i < length fs" "0 < tw" "1 < k"
    and "serializer (k * tw) tw w vc (i * (k * tw)) br"
  shows "\<exists>fl. serialize_plan (int (k * tw)) (int tw) (fs ! i) br =
      Inr (int (if i + 1 < length fs then k else divCeil m tw - i * k),
      br\<lparr>br_sizeSent := (br_sizeSent br)[nat vc := int (if i + 1 < length fs then (i + 1) * (k * tw) else 0)],
         br_flitsSent := fl\<rparr>) \<and> length fl = length (br_flitsSent br)"
proof -
  have f: "fl_id (fs ! i) = int i" "fl_type (fs ! i) = flit_type_of (int i) (int (length fs))"
      "fl_msgSize (fs ! i) = int m" "fl_vc (fs ! i) = vc" and len: "length fs = divCeil m (k * tw)"
    using assms(1,2) unfolding is_packet_def by blast+
  have k: "0 < k" using assms(4) by simp
  note b = packet_part_bounds [OF assms(2) [unfolded len] assms(3) k]
  show ?thesis
  proof (cases "i + 1 < length fs")
    case True
    then have "fl_type (fs ! i) = HEAD \<or> fl_type (fs ! i) = BODY" using f(2) by (auto simp: flit_type_of_def)
    from serialize_plan_body [OF assms(5,3) k this f(1,4)] True show ?thesis by (simp only: if_True)
  next
    case False
    then have ty: "fl_type (fs ! i) = TAIL \<or> fl_type (fs ! i) = HEAD_TAIL"
      using f(2) assms(2) by (auto simp: flit_type_of_def)
    have n: "divCeil m tw - i * k = divCeil (m - i * (k * tw)) tw" using b(3) by linarith
    show ?thesis unfolding if_not_P [OF False] n
      by (rule serialize_plan_tail [OF assms(5,3) less_imp_le [OF b(1)] ty f(4,3)])
  qed
qed

lemma packet_parts_pos:
  assumes "is_packet m (k * tw) vc fs" "i < length fs" "0 < tw" "1 < k"
  defines "n \<equiv> if i + 1 < length fs then k else divCeil m tw - i * k"
  shows "0 < n" "i * k + n \<le> divCeil m tw" "i + 1 = length fs \<Longrightarrow> i * k + n = divCeil m tw"
proof -
  have len: "length fs = divCeil m (k * tw)" using assms(1) by (simp add: is_packet_def)
  have k: "0 < k" using assms(4) by simp
  note b = packet_part_bounds [OF assms(2) [unfolded len] assms(3) k]
  have "0 < divCeil (m - i * (k * tw)) tw"
    using divCeil_le_iff [OF assms(3), of "m - i * (k * tw)" 0] b(1) by linarith
  then have "0 < divCeil m tw - i * k" "i * k + (divCeil m tw - i * k) = divCeil m tw"
    using b(3) by linarith+
  with b(2) k len show "0 < n" "i * k + n \<le> divCeil m tw" "i + 1 = length fs \<Longrightarrow> i * k + n = divCeil m tw"
    unfolding n_def by (auto simp del: divCeil_mult)
qed

text \<open>One flit of the packet: its parts continue the numbering.\<close>

lemma serialize_one:
  assumes "is_packet m (k * tw) vc fs" "i < length fs" "0 < tw" "1 < k"
    and "serializer (k * tw) tw w vc (i * (k * tw)) br"
  defines "n \<equiv> if i + 1 < length fs then k else divCeil m tw - i * k"
  shows "\<exists>br' ns reqs new. flitisizeAndSend e cp now w (fs ! i) br = Inr (br', ns, reqs) \<and>
    br_flits br' = br_flits br @ new \<and> map fl_id new = map (\<lambda>j. int (i * k) + j) (upto_int n) \<and>
    (\<forall>g \<in> set new. is_part (fs ! i) tw (divCeil m tw) g) \<and>
    serializer (k * tw) tw w vc (if i + 1 < length fs then (i + 1) * (k * tw) else 0) br'"
proof -
  let ?f = "fs ! i" and ?sent = "if i + 1 < length fs then (i + 1) * (k * tw) else 0"
  have f: "fl_id ?f = int i" "fl_msgSize ?f = int m" "fl_width ?f = int (k * tw)" "fl_credit ?f = None"
    using assms(1,2) unfolding is_packet_def by blast+
  note n = packet_parts_pos [OF assms(1-4), folded n_def]
  obtain fl where fl: "serialize_plan (int (k * tw)) (int tw) ?f br = Inr (int n,
      br\<lparr>br_sizeSent := (br_sizeSent br)[nat vc := int ?sent], br_flitsSent := fl\<rparr>)"
      "length fl = length (br_flitsSent br)"
    using packet_plan [OF assms(1-5)] unfolding n_def by blast
  define br1 where "br1 = br\<lparr>br_sizeSent := (br_sizeSent br)[nat vc := int ?sent], br_flitsSent := fl\<rparr>"
  have link: "br_link br1 = br_link br" by (simp add: br1_def)
  obtain c where c: "lk_link_consumer (br_link br1) = Some c"
    using assms(5) unfolding link serializer_def by blast
  have "int (i * k + n) \<le> int (divCeil m tw)" using n(2) by (simp only: of_nat_le_iff)
  then have le: "fl_id ?f * int k + int n \<le> int (divCeil m tw)" using f(1) by simp
  from send_parts_total [OF assms(3,4) f(3,2,4) c le, of e cp now] obtain l t reqs new where
    sp: "send_parts e cp now (int n) (int tw) ?f br1 = Inr (br1\<lparr>br_link := l, br_lastScheduledAt := t\<rparr>, reqs)"
      "link_flits l = br_flits br1 @ new" "lk_link_consumer l = Some c" "lk_bitWidth l = lk_bitWidth (br_link br1)"
      "map fl_id new = map (\<lambda>j. fl_id ?f * int k + j) (upto_int n)" "\<forall>g \<in> set new. is_part ?f tw (divCeil m tw) g"
    by blast
  have "serializeAndSend e cp now (int (k * tw)) (int tw) ?f br =
      Inr (br1\<lparr>br_link := l, br_lastScheduledAt := t\<rparr>, if fl_type ?f \<noteq> CREDIT then [(fl_vc ?f, int n)] else [], reqs)"
    using fl(1) [folded br1_def] sp(1) n(1) by (simp add: serializeAndSend_def)
  moreover have "serializer (k * tw) tw w vc ?sent (br1\<lparr>br_link := l, br_lastScheduledAt := t\<rparr>)"
    by (rule serializer_step [OF assms(5) br1_def fl(2) sp(3) sp(4) [unfolded link]])
  moreover have "tw < k * tw" using assms(3,4) by simp
  moreover have "map fl_id new = map (\<lambda>j. int (i * k) + j) (upto_int n)" using sp(5) f(1) by simp
  moreover have "br_flits (br1\<lparr>br_link := l, br_lastScheduledAt := t\<rparr>) = br_flits br @ new"
    using sp(2) link by simp
  ultimately show ?thesis
    using serializer_widths [OF assms(5) _ assms(3)] sp(6) by metis
qed

lemma serialize_prefix:
  assumes "is_packet m (k * tw) vc (map snd tfs)" "0 < tw" "1 < k" "serializer (k * tw) tw w vc 0 br"
    and "j \<le> length tfs"
  shows "\<exists>br' new. bridge_feed e cp w (take j tfs) br = Inr br' \<and> br_flits br' = br_flits br @ new \<and>
    map fl_id new = upto_int (if j < length tfs \<or> tfs = [] then j * k else divCeil m tw) \<and>
    (\<forall>g \<in> set new. \<exists>f \<in> set (map snd tfs). is_part f tw (divCeil m tw) g) \<and>
    serializer (k * tw) tw w vc (if j < length tfs then j * (k * tw) else 0) br'"
  using assms(5)
proof (induction j)
  case 0
  with assms(4) show ?case by (simp add: bridge_feed_def)
next
  case (Suc j)
  then have j: "j < length tfs" by simp
  from Suc.IH [OF less_imp_le [OF j]] obtain br1 new where IH: "bridge_feed e cp w (take j tfs) br = Inr br1"
      "br_flits br1 = br_flits br @ new" "map fl_id new = upto_int (j * k)"
      "\<forall>g \<in> set new. \<exists>f \<in> set (map snd tfs). is_part f tw (divCeil m tw) g"
      "serializer (k * tw) tw w vc (j * (k * tw)) br1"
    unfolding if_P [OF j] if_P [OF disjI1 [OF j]] by blast
  let ?n = "if j + 1 < length (map snd tfs) then k else divCeil m tw - j * k"
  have j': "j < length (map snd tfs)" using j by simp
  obtain now where tf: "tfs ! j = (now, map snd tfs ! j)" using j by (cases "tfs ! j") simp
  from serialize_one [OF assms(1) j' assms(2,3) IH(5), of e cp now] obtain br2 ns reqs new2 where
    s: "flitisizeAndSend e cp now w (map snd tfs ! j) br1 = Inr (br2, ns, reqs)"
      "br_flits br2 = br_flits br1 @ new2" "map fl_id new2 = map (\<lambda>i. int (j * k) + i) (upto_int ?n)"
      "\<forall>g \<in> set new2. is_part (map snd tfs ! j) tw (divCeil m tw) g"
      "serializer (k * tw) tw w vc (if j + 1 < length (map snd tfs) then (j + 1) * (k * tw) else 0) br2"
    by blast
  have "bridge_feed e cp w (take (Suc j) tfs) br = Inr br2"
    using IH(1) s(1) tf unfolding bridge_feed_def take_Suc_conv_app_nth [OF j] foldR_append by simp
  moreover have "map fl_id (new @ new2) = upto_int (j * k + ?n)"
    unfolding map_append IH(3) s(3) upto_int_add ..
  moreover have "j * k + ?n = (if Suc j < length tfs \<or> tfs = [] then Suc j * k else divCeil m tw)"
  proof (cases "Suc j < length tfs")
    case True
    then show ?thesis by simp
  next
    case False
    with j have "j + 1 = length (map snd tfs)" "tfs \<noteq> []" by auto
    with packet_parts_pos(3) [OF assms(1) j' assms(2,3)] False show ?thesis by simp
  qed
  moreover have "\<forall>g \<in> set (new @ new2). \<exists>f \<in> set (map snd tfs). is_part f tw (divCeil m tw) g"
    using IH(4) s(4) nth_mem [OF j'] unfolding set_append by blast
  moreover have "serializer (k * tw) tw w vc (if Suc j < length tfs then Suc j * (k * tw) else 0) br2"
    using s(5) by (simp only: length_map Suc_eq_plus1)
  moreover have "br_flits br2 = br_flits br @ (new @ new2)" using IH(2) s(2) by simp
  ultimately show ?case by (intro exI [of _ br2] exI [of _ "new @ new2"]) simp
qed

text \<open>
  C35: A bridge from a wide link to one whose width divides it turns the flits of a message
  into exactly the flits the message has at the narrow width: numbered consecutively from
  zero, as many as the message needs, each typed by its place, with the width and virtual
  channel set, without failing an assertion at any of the times the flits come; and it is then
  ready for the next packet.
\<close>

theorem bridge_serializes_packet:
  assumes "is_packet m (k * tw) vc (map snd tfs)" and "0 < m" and "0 < tw" and "1 < k"
    and "serializer (k * tw) tw w vc 0 br"
  shows "\<exists>br' new. bridge_feed e cp w tfs br = Inr br' \<and> br_flits br' = br_flits br @ new \<and>
    map fl_id new = upto_int (divCeil m tw) \<and>
    (\<forall>g \<in> set new. fl_size g = int (divCeil m tw) \<and>
       fl_type g = flit_type_of (fl_id g) (int (divCeil m tw)) \<and> fl_width g = int tw \<and>
       fl_vc g = vc \<and> fl_msgSize g = int m \<and> fl_credit g = None) \<and>
    serializer (k * tw) tw w vc 0 br'"
proof -
  have "0 < k * tw" using assms(3,4) by simp
  then have "divCeil m (k * tw) \<noteq> 0"
    using divCeil_le_iff [of "k * tw" m 0] assms(2) by simp
  then have ne: "tfs \<noteq> []" using assms(1) by (auto simp: is_packet_def)
  have f: "fl_vc f = vc \<and> fl_msgSize f = int m" if "f \<in> set (map snd tfs)" for f
    using assms(1) that unfolding is_packet_def in_set_conv_nth by auto
  from serialize_prefix [OF assms(1,3,4,5) order_refl, of e cp] ne obtain br' new where
    "bridge_feed e cp w tfs br = Inr br'" "br_flits br' = br_flits br @ new"
    "map fl_id new = upto_int (divCeil m tw)"
    "\<forall>g \<in> set new. \<exists>f \<in> set (map snd tfs). is_part f tw (divCeil m tw) g"
    "serializer (k * tw) tw w vc 0 br'" by auto
  moreover from this(4) f have "\<forall>g \<in> set new. fl_size g = int (divCeil m tw) \<and>
       fl_type g = flit_type_of (fl_id g) (int (divCeil m tw)) \<and> fl_width g = int tw \<and>
       fl_vc g = vc \<and> fl_msgSize g = int m \<and> fl_credit g = None"
    unfolding is_part_def by metis
  ultimately show ?thesis by blast
qed

section \<open>Examples\<close>

text \<open>A bridge from width \<open>cw\<close> to width \<open>tw\<close>, and a packet of a message of \<open>m\<close> bytes.\<close>

definition example_bridge :: "int \<Rightarrow> NetworkBridge" where
  "example_bridge tw = \<lparr>br_link = setLinkConsumer (NI_consumer 0) (NetworkLink_new 0 1 1 [] tw 5),
     br_coBridge = 1, br_nLink = 2, br_enCdc = True, br_enSerDes = True, br_mType = LINK_OBJECT,
     br_cdcLatency = 1, br_serDesLatency = 1, br_lastScheduledAt = 0, br_lenBuffer = [0, 0],
     br_sizeSent = [0, 0], br_flitsSent = [0, 0], br_extraCredit = [[], []]\<rparr>"

definition example_packet_flits :: "int \<Rightarrow> int \<Rightarrow> nat \<Rightarrow> flit list" where
  "example_packet_flits cw m n =
    map (\<lambda>i. flit_new 7 i 1 0 (RouteInfo_new []) (int n) None m cw 10) (upto_int n)"

lemma example_packet_ok:
  "n = divCeil m cw \<Longrightarrow> is_packet m cw 1 (example_packet_flits (int cw) (int m) n)"
  by (simp add: is_packet_def example_packet_flits_def upto_int_def)

lemma bridge_serializes_packet_witness:
  "\<exists>br' new. bridge_feed [] 5 8 (zip [10, 15, 20] (example_packet_flits 8 20 3)) (example_bridge 4) = Inr br' \<and>
    br_flits br' = br_flits (example_bridge 4) @ new \<and> map fl_id new = [0, 1, 2, 3, 4]"
proof -
  let ?tfs = "zip [10 :: tick, 15, 20] (example_packet_flits 8 20 3)"
  have "map snd ?tfs = example_packet_flits (int (2 * 4)) (int 20) 3"
    by (simp add: example_packet_flits_def upto_int_def)
  then have p: "is_packet 20 (2 * 4) 1 (map snd ?tfs)"
    using example_packet_ok [of 3 20 "2 * 4"] by (simp add: divCeil_def)
  have s: "serializer (2 * 4) 4 8 1 0 (example_bridge 4)"
    by (simp add: serializer_def example_bridge_def setLinkConsumer_def NetworkLink_new_def)
  have "map fl_id new = [0, 1, 2, 3, 4]" if "map fl_id new = upto_int (divCeil 20 4)" for new
    using that by (simp add: divCeil_def upto_int_def upt_rec)
  with bridge_serializes_packet [OF p _ _ _ s, of "[]" 5] show ?thesis by auto
qed

lemma bridge_send_times_witness:
  "\<exists>src' br' ns reqs. bridge_wakeup [] 5 10 8
      (Some (fb_insert (hd (example_packet_flits 8 20 3)) flitBuffer_new)) (example_bridge 4)
      = Inr (src', br', ns, reqs) \<and> map snd reqs = [20, 25] \<and> bridge_ok 5 br'"
proof -
  let ?src = "fb_insert (hd (example_packet_flits 8 20 3)) flitBuffer_new"
  have ok: "bridge_ok 5 (example_bridge 4)"
    by (simp add: bridge_ok_def example_bridge_def setLinkConsumer_def NetworkLink_new_def)
  have "case bridge_wakeup [] 5 10 8 (Some ?src) (example_bridge 4) of
      Inl e \<Rightarrow> False | Inr (src', br', ns, reqs) \<Rightarrow> map snd reqs = [20, 25]"
    by code_simp
  then obtain src' br' ns reqs where r: "bridge_wakeup [] 5 10 8 (Some ?src) (example_bridge 4)
      = Inr (src', br', ns, reqs)" "map snd reqs = [20, 25]"
    by (auto split: sum.splits)
  with bridge_send_times [OF _ ok r(1)] show ?thesis by auto
qed

text \<open>
  The widths have to divide: from width 5 to width 2 the second flit of a message of 10
  bytes fails the assertion on the number of its last part.
\<close>

lemma bridge_uneven_widths_fail:
  "bridge_feed [] 5 5 (zip [10, 15] (example_packet_flits 5 10 2)) (example_bridge 2)
    = Inl (Assert_failed ''new_id < new_size'')"
proof -
  have "(case bridge_feed [] 5 5 (zip [10, 15] (example_packet_flits 5 10 2)) (example_bridge 2) of
      Inl e \<Rightarrow> e = Assert_failed ''new_id < new_size'' | Inr x \<Rightarrow> False)"
    by code_simp
  then show ?thesis by (auto split: sum.splits)
qed

end
