(* ===== verification/GarnetLink.thy ===== *)
theory GarnetLink
  imports NetworkBridge
begin

text \<open>
  \<open>GarnetIntLink\<close> and \<open>GarnetExtLink\<close> (\<open>GarnetLink.hh\<close>, \<open>GarnetLink.cc\<close>): a link of
  the topology with its flit link, its credit link, and the bridges at its ends. Links and
  bridges are named by their place in the stores of the network. A pointer the constructor
  leaves unset is \<open>None\<close>.
\<close>

section \<open>Internal links\<close>

record GarnetIntLink =
  gil_network_link :: int
  gil_credit_link :: int
  gil_srcBridgeEn :: bool
  gil_dstBridgeEn :: bool
  gil_srcSerdesEn :: bool
  gil_dstSerdesEn :: bool
  gil_srcCdcEn :: bool
  gil_dstCdcEn :: bool
  gil_srcNetBridge :: "int option"
  gil_dstNetBridge :: "int option"
  gil_srcCredBridge :: "int option"
  gil_dstCredBridge :: "int option"

text \<open>The parameters \<open>src\<close> and \<open>dst\<close> are the net bridge and the credit bridge of that end.\<close>

definition GarnetIntLink_new ::
    "int \<Rightarrow> int \<Rightarrow> bool \<times> bool \<Rightarrow> int option \<times> int option \<Rightarrow> bool \<times> bool \<Rightarrow> int option \<times> int option \<Rightarrow> GarnetIntLink" where
  "GarnetIntLink_new network_link credit_link = (\<lambda>(src_cdc, src_serdes) src (dst_cdc, dst_serdes) dst.
    (let srcEn = (src_cdc \<or> src_serdes); dstEn = (dst_cdc \<or> dst_serdes) in
     \<lparr>gil_network_link = network_link, gil_credit_link = credit_link,
      gil_srcBridgeEn = srcEn, gil_dstBridgeEn = dstEn, gil_srcSerdesEn = src_serdes, gil_dstSerdesEn = dst_serdes,
      gil_srcCdcEn = src_cdc, gil_dstCdcEn = dst_cdc,
      gil_srcNetBridge = (if srcEn then fst src else None), gil_dstNetBridge = (if dstEn then fst dst else None),
      gil_srcCredBridge = (if srcEn then snd src else None), gil_dstCredBridge = (if dstEn then snd dst else None)\<rparr>))"

text \<open>
  \<open>init\<close> makes the two bridges of an end each other's co-bridge. A store entry that is not a
  bridge cannot occur in the typed code.
\<close>

type_synonym bridge_store = "NetworkBridge option list"

definition init_bridge :: "int \<Rightarrow> int \<Rightarrow> bool \<Rightarrow> bool \<Rightarrow> bridge_store \<Rightarrow> bridge_store res" where
  "init_bridge i coBrid cdc_en serdes_en bridges =
    modR bridges i (\<lambda>b. case b of
      None \<Rightarrow> Inl (Null_pointer ''bridge'') | Some br \<Rightarrow> Inr (Some (initBridge coBrid cdc_en serdes_en br)))"

definition init_pair :: "int option \<Rightarrow> int option \<Rightarrow> bool \<Rightarrow> bool \<Rightarrow> bridge_store \<Rightarrow> bridge_store res" where
  "init_pair net cred cdc_en serdes_en bridges =
    (case (net, cred) of
       (Some n, Some c) \<Rightarrow> bindR (init_bridge n c cdc_en serdes_en bridges) (init_bridge c n cdc_en serdes_en)
     | _ \<Rightarrow> Inl (Assert_failed ''net bridge && credit bridge''))"

definition GarnetIntLink_init :: "GarnetIntLink \<Rightarrow> bridge_store \<Rightarrow> bridge_store res" where
  "GarnetIntLink_init l bridges =
    bindR (if gil_srcBridgeEn l
           then init_pair (gil_srcNetBridge l) (gil_srcCredBridge l) (gil_srcCdcEn l) (gil_srcSerdesEn l) bridges
           else Inr bridges) (\<lambda>bridges1.
     if gil_dstBridgeEn l
     then init_pair (gil_dstNetBridge l) (gil_dstCredBridge l) (gil_dstCdcEn l) (gil_dstSerdesEn l) bridges1
     else Inr bridges1)"

section \<open>External links\<close>

text \<open>An external link has two directions; the arrays of two are pairs: into and out of the network.\<close>

record GarnetExtLink =
  gel_network_links :: "int \<times> int"
  gel_credit_links :: "int \<times> int"
  gel_extBridgeEn :: bool
  gel_intBridgeEn :: bool
  gel_extSerdesEn :: bool
  gel_intSerdesEn :: bool
  gel_extCdcEn :: bool
  gel_intCdcEn :: bool
  gel_extNetBridge :: "int option \<times> int option"
  gel_intNetBridge :: "int option \<times> int option"
  gel_extCredBridge :: "int option \<times> int option"
  gel_intCredBridge :: "int option \<times> int option"

definition GarnetExtLink_new ::
    "int \<times> int \<Rightarrow> int \<times> int \<Rightarrow> bool \<times> bool \<Rightarrow> (int option \<times> int option) \<times> (int option \<times> int option)
     \<Rightarrow> bool \<times> bool \<Rightarrow> (int option \<times> int option) \<times> (int option \<times> int option) \<Rightarrow> GarnetExtLink" where
  "GarnetExtLink_new network_links credit_links = (\<lambda>(ext_cdc, ext_serdes) ext (int_cdc, int_serdes) ints.
    (let extEn = (ext_cdc \<or> ext_serdes); intEn = (int_cdc \<or> int_serdes) in
     \<lparr>gel_network_links = network_links, gel_credit_links = credit_links,
      gel_extBridgeEn = extEn, gel_intBridgeEn = intEn, gel_extSerdesEn = ext_serdes, gel_intSerdesEn = int_serdes,
      gel_extCdcEn = ext_cdc, gel_intCdcEn = int_cdc,
      gel_extNetBridge = (if extEn then fst ext else (None, None)),
      gel_intNetBridge = (if intEn then fst ints else (None, None)),
      gel_extCredBridge = (if extEn then snd ext else (None, None)),
      gel_intCredBridge = (if intEn then snd ints else (None, None))\<rparr>))"

definition GarnetExtLink_init :: "GarnetExtLink \<Rightarrow> bridge_store \<Rightarrow> bridge_store res" where
  "GarnetExtLink_init l bridges =
    (let both = (\<lambda>net cred cdc serdes bs.
           guardR (fst net \<noteq> None \<and> fst cred \<noteq> None \<and> snd net \<noteq> None \<and> snd cred \<noteq> None)
             (Assert_failed ''net bridge && credit bridge'')
             (bindR (init_pair (fst net) (fst cred) cdc serdes bs) (init_pair (snd net) (snd cred) cdc serdes))) in
     bindR (if gel_extBridgeEn l
            then both (gel_extNetBridge l) (gel_extCredBridge l) (gel_extCdcEn l) (gel_extSerdesEn l) bridges
            else Inr bridges) (\<lambda>bridges1.
      if gel_intBridgeEn l
      then both (gel_intNetBridge l) (gel_intCredBridge l) (gel_intCdcEn l) (gel_intSerdesEn l) bridges1
      else Inr bridges1))"

section \<open>Bridges come in pairs\<close>

text \<open>Two bridges refer to each other and agree on what they do.\<close>

definition paired :: "bridge_store \<Rightarrow> int \<Rightarrow> int \<Rightarrow> bool" where
  "paired bridges n c \<longleftrightarrow> (\<exists>a b. nthR bridges n = Inr (Some a) \<and> nthR bridges c = Inr (Some b) \<and>
    br_coBridge a = c \<and> br_coBridge b = n \<and> br_enCdc a = br_enCdc b \<and> br_enSerDes a = br_enSerDes b)"

lemma init_bridge_nth:
  assumes "init_bridge i co cdc serdes bs = Inr bs'"
  shows "\<exists>br. nthR bs' i = Inr (Some (initBridge co cdc serdes br)) \<and> (\<forall>j. j \<noteq> i \<longrightarrow> nthR bs' j = nthR bs j)"
  using assms by (auto simp: init_bridge_def modR_eq_Inr nthR_def nat_eq_iff2 nth_list_update split: option.splits)

lemma init_pair_paired:
  assumes "init_pair (Some n) (Some c) cdc serdes bs = Inr bs'" "n \<noteq> c"
  shows "paired bs' n c \<and> (\<forall>j. j \<noteq> n \<and> j \<noteq> c \<longrightarrow> nthR bs' j = nthR bs j)"
proof -
  from assms(1) obtain bs1 where a: "init_bridge n c cdc serdes bs = Inr bs1" and b: "init_bridge c n cdc serdes bs1 = Inr bs'"
    by (auto simp: init_pair_def elim!: bindR_InrE)
  from init_bridge_nth [OF a] init_bridge_nth [OF b] assms(2) show ?thesis
    by (fastforce simp: paired_def initBridge_def)
qed

text \<open>
  After \<open>init\<close> the bridges at each end of an internal link that has bridges form a pair: the
  flit bridge and the credit bridge refer to each other and agree on crossing clocks and on
  changing the width. Initialising the second end does not disturb the first.
\<close>

theorem int_link_bridges_paired:
  assumes "GarnetIntLink_init (GarnetIntLink_new nl cl (src_cdc, src_serdes) (Some sn, Some sc) (dst_cdc, dst_serdes) (Some dn, Some dc)) bs = Inr bs'"
    and "distinct [sn, sc, dn, dc]"
  shows "(src_cdc \<or> src_serdes \<longrightarrow> paired bs' sn sc) \<and> (dst_cdc \<or> dst_serdes \<longrightarrow> paired bs' dn dc)"
proof -
  let ?l = "GarnetIntLink_new nl cl (src_cdc, src_serdes) (Some sn, Some sc) (dst_cdc, dst_serdes) (Some dn, Some dc)"
  from assms(1) obtain bs1 where
    a: "(if src_cdc \<or> src_serdes then init_pair (Some sn) (Some sc) src_cdc src_serdes bs else Inr bs) = Inr bs1"
    and b: "(if dst_cdc \<or> dst_serdes then init_pair (Some dn) (Some dc) dst_cdc dst_serdes bs1 else Inr bs1) = Inr bs'"
    unfolding GarnetIntLink_init_def GarnetIntLink_new_def Let_def by (auto elim!: bindR_InrE split: if_splits)
  have src: "src_cdc \<or> src_serdes \<longrightarrow> paired bs1 sn sc" using a init_pair_paired [of sn sc] assms(2) by auto
  show ?thesis
  proof (cases "dst_cdc \<or> dst_serdes")
    case True
    with b init_pair_paired [of dn dc dst_cdc dst_serdes bs1 bs'] assms(2)
    have "paired bs' dn dc" "\<forall>j. j \<noteq> dn \<and> j \<noteq> dc \<longrightarrow> nthR bs' j = nthR bs1 j" by auto
    with src assms(2) show ?thesis by (simp add: paired_def)
  next
    case False
    with b src show ?thesis by simp
  qed
qed

definition sample_bridge :: NetworkBridge where
  "sample_bridge = \<lparr>br_link = NetworkLink_new 0 1 2 [] 16 5, br_coBridge = -1, br_nLink = 0, br_enCdc = True, br_enSerDes = True,
     br_mType = LINK_OBJECT, br_cdcLatency = 1, br_serDesLatency = 1, br_lastScheduledAt = 0, br_lenBuffer = [],
     br_sizeSent = [], br_flitsSent = [], br_extraCredit = []\<rparr>"

lemma int_link_bridges_paired_witness:
  "\<exists>bs'. GarnetIntLink_init (GarnetIntLink_new 0 1 (True, False) (Some 2, Some 3) (False, True) (Some 4, Some 5))
      (replicate 6 (Some sample_bridge)) = Inr bs' \<and> paired bs' 2 3 \<and> paired bs' 4 5"
proof -
  let ?bs = "replicate 6 (Some sample_bridge)"
  have "\<exists>bs'. GarnetIntLink_init (GarnetIntLink_new 0 1 (True, False) (Some 2, Some 3) (False, True) (Some 4, Some 5)) ?bs = Inr bs'"
    by (simp add: GarnetIntLink_init_def GarnetIntLink_new_def init_pair_def init_bridge_def)
  then obtain bs' where ok: "GarnetIntLink_init (GarnetIntLink_new 0 1 (True, False) (Some 2, Some 3) (False, True) (Some 4, Some 5)) ?bs = Inr bs'"
    by blast
  from int_link_bridges_paired [OF ok] ok show ?thesis by auto
qed

end
