(* ===== verification/TraceFile.thy ===== *)
theory TraceFile
  imports GarnetStats
begin

text \<open>
  Reading the trace (\<open>GarnetNetwork::wakeup\<close>): \<open>fgets\<close> on the pipe, \<open>strtok\<close> on the line,
  \<open>atoi\<close> on the tokens. The pipe is the text that is still to come; the characters of the
  text are not null.
\<close>

section \<open>The C library on strings\<close>

definition newline :: char where
  "newline = CHR 0x0A"

text \<open>At most \<open>n\<close> characters, up to and including a newline.\<close>

fun read_line :: "nat \<Rightarrow> string \<Rightarrow> string \<times> string" where
  "read_line 0 s = ([], s)"
| "read_line (Suc n) [] = ([], [])"
| "read_line (Suc n) (c # s) =
    (if c = newline then ([c], s) else (case read_line n s of (line, rest) \<Rightarrow> (c # line, rest)))"

lemma read_line_code [code]:
  "read_line n s =
    (if n = 0 then ([], s)
     else (case s of [] \<Rightarrow> ([], [])
       | c # s' \<Rightarrow> if c = newline then ([c], s') else (case read_line (n - 1) s' of (line, rest) \<Rightarrow> (c # line, rest))))"
  by (cases n; cases s) simp_all

definition fgets :: "nat \<Rightarrow> string \<Rightarrow> (string \<times> string) option" where
  "fgets len file = (if file = [] then None else Some (read_line (len - 1) file))"

text \<open>One call of \<open>strtok\<close>: the token, and where the next call goes on.\<close>

definition DELIMITER :: string where
  "DELIMITER = '' :''"

definition strtok :: "string \<Rightarrow> string \<Rightarrow> (string \<times> string) option" where
  "strtok delims s =
    (case dropWhile (\<lambda>c. c \<in> set delims) s of
       [] \<Rightarrow> None
     | c # s' \<Rightarrow> Some (takeWhile (\<lambda>c. c \<notin> set delims) (c # s'), tl (dropWhile (\<lambda>c. c \<notin> set delims) (c # s'))))"

text \<open>
  \<open>atoi\<close>: white space, a sign, digits; whatever follows is ignored, and no digits are 0. A
  value beyond \<open>int\<close> is undefined.
\<close>

definition is_space :: "char \<Rightarrow> bool" where
  "is_space c \<longleftrightarrow> c \<in> {CHR 0x20, CHR 0x09, CHR 0x0A, CHR 0x0B, CHR 0x0C, CHR 0x0D}"

definition is_digit :: "char \<Rightarrow> bool" where
  "is_digit c \<longleftrightarrow> 48 \<le> (of_char c :: nat) \<and> (of_char c :: nat) \<le> 57"

definition digits_value :: "string \<Rightarrow> int" where
  "digits_value ds = fold (\<lambda>c v. 10 * v + (of_char c - 48)) ds 0"

definition int_range :: "int \<Rightarrow> bool" where
  "int_range n \<longleftrightarrow> - (2 ^ 31) \<le> n \<and> n < 2 ^ 31"

definition atoi :: "string \<Rightarrow> int res" where
  "atoi str =
    (let s = dropWhile is_space str;
         v = (if s \<noteq> [] \<and> hd s = CHR ''-'' then - digits_value (takeWhile is_digit (tl s))
              else if s \<noteq> [] \<and> hd s = CHR ''+'' then digits_value (takeWhile is_digit (tl s))
              else digits_value (takeWhile is_digit s))
     in guardR (int_range v) Out_of_range (Inr v))"

section \<open>A line of the trace\<close>

definition MAX_TOKENS_PER_LINE :: nat where
  "MAX_TOKENS_PER_LINE = 100"

text \<open>The tokens of a line; the loop stops at the first null pointer, or when the array is full.\<close>

fun line_tokens :: "nat \<Rightarrow> string \<Rightarrow> string list" where
  "line_tokens 0 s = []"
| "line_tokens (Suc k) s = (case strtok DELIMITER s of None \<Rightarrow> [] | Some (t, rest) \<Rightarrow> t # line_tokens k rest)"

text \<open>\<open>atoi\<close> of a token that is not there reads a null pointer.\<close>

definition token_int :: "string list \<Rightarrow> nat \<Rightarrow> int res" where
  "token_int token i = (if i < length token then atoi (token ! i) else Inl (Null_pointer ''token''))"

definition optional_token_int :: "string list \<Rightarrow> nat \<Rightarrow> int res" where
  "optional_token_int token i = (if i < length token then atoi (token ! i) else Inr 0)"

text \<open>An \<open>int\<close> as an unsigned 64-bit number, as in \<open>Cycles(n)\<close> and \<open>n >= v.size()\<close>.\<close>

definition to_unsigned :: "int \<Rightarrow> nat" where
  "to_unsigned n = nat (n mod 2 ^ 64)"

text \<open>
  The packet of a line. A source beyond all interfaces becomes interface 0, and otherwise a
  destination beyond all interfaces does.
\<close>

definition parse_record :: "nat \<Rightarrow> string list \<Rightarrow> NetworkTraceRecord res" where
  "parse_record num_nis token =
    bindR (token_int token 0) (\<lambda>time.
    bindR (token_int token 1) (\<lambda>src_id.
    bindR (token_int token 2) (\<lambda>src_router_id.
    bindR (token_int token 3) (\<lambda>dest_id.
    bindR (token_int token 4) (\<lambda>dest_router_id.
    bindR (token_int token 5) (\<lambda>vnet.
    bindR (token_int token 6) (\<lambda>num_flits.
    bindR (optional_token_int token 7) (\<lambda>network_idx.
    bindR (optional_token_int token 8) (\<lambda>input_idx.
    bindR (optional_token_int token 9) (\<lambda>phase_id.
    let rec = \<lparr>tr_valid = True, tr_time = to_unsigned time, tr_src_id = src_id, tr_src_router_id = src_router_id,
          tr_dest_id = dest_id, tr_dest_router_id = dest_router_id, tr_vnet = vnet, tr_num_flits = num_flits,
          tr_network_idx = network_idx, tr_input_idx = input_idx, tr_phase_id = phase_id\<rparr> in
    Inr (if to_unsigned src_id \<ge> num_nis then rec\<lparr>tr_src_id := 0, tr_src_router_id := 0\<rparr>
         else if to_unsigned dest_id \<ge> num_nis then rec\<lparr>tr_dest_id := 0, tr_dest_router_id := 0\<rparr>
         else rec)))))))))))"

text \<open>\<open>endsWith\<close>, for the name of the trace file.\<close>

definition endsWith :: "string \<Rightarrow> string \<Rightarrow> bool" where
  "endsWith str suffix =
    (let len1 = length str; len2 = length suffix in len1 \<ge> len2 \<and> drop (len1 - len2) str = suffix)"

section \<open>Printing and reading numbers\<close>

fun show_nat :: "nat \<Rightarrow> string" where
  "show_nat n = (if n < 10 then [char_of (48 + n)] else show_nat (n div 10) @ [char_of (48 + n mod 10)])"

declare show_nat.simps [simp del]

definition show_int :: "int \<Rightarrow> string" where
  "show_int n = (if n < 0 then CHR ''-'' # show_nat (nat (- n)) else show_nat (nat n))"

lemma of_char_digit: "d < 10 \<Longrightarrow> (of_char (char_of (48 + d :: nat)) :: nat) = 48 + d"
  by (simp add: of_char_of)

lemma digits_value_snoc: "digits_value (ds @ [c]) = 10 * digits_value ds + (of_char c - 48)"
  by (simp add: digits_value_def)

lemma show_nat_digits:
  "(\<forall>c \<in> set (show_nat n). is_digit c) \<and> digits_value (show_nat n) = int n \<and> show_nat n \<noteq> []"
proof (induction n rule: show_nat.induct)
  case (1 n)
  have c: "is_digit (char_of (48 + d :: nat))" "(of_char (char_of (48 + d :: nat)) :: int) = 48 + int d" if "d < 10" for d
  proof -
    show "is_digit (char_of (48 + d :: nat))" using of_char_digit [OF that] that by (simp add: is_digit_def)
    have "(of_char (char_of (48 + d :: nat)) :: int) = int (of_char (char_of (48 + d :: nat)) :: nat)"
      by (rule of_nat_of_char [symmetric])
    also have "\<dots> = int (48 + d)" unfolding of_char_digit [OF that] ..
    finally show "(of_char (char_of (48 + d :: nat)) :: int) = 48 + int d" by simp
  qed
  show ?case
  proof (cases "n < 10")
    case True
    with c show ?thesis by (simp add: show_nat.simps [of n] digits_value_def)
  next
    case False
    have "int n = 10 * int (n div 10) + int (n mod 10)" by presburger
    with 1 [OF False] c [of "n mod 10"] False show ?thesis
      by (simp add: show_nat.simps [of n] digits_value_snoc)
  qed
qed

lemma digits_value_0 [simp]: "digits_value [] = 0"
  by (simp add: digits_value_def)

lemma digit_class:
  assumes "is_digit c"
  shows "\<not> is_space c" "c \<noteq> CHR ''-''" "c \<noteq> CHR ''+''" "c \<notin> set DELIMITER" "c \<noteq> newline"
  using assms by (auto simp: is_digit_def is_space_def DELIMITER_def newline_def)

text \<open>What may follow a number in a token.\<close>

definition no_digit_first :: "string \<Rightarrow> bool" where
  "no_digit_first s \<longleftrightarrow> (s = [] \<or> \<not> is_digit (hd s))"

lemma takeWhile_digits:
  assumes "\<forall>c \<in> set ds. is_digit c" "no_digit_first s"
  shows "takeWhile is_digit (ds @ s) = ds"
  using assms by (cases s) (auto simp: no_digit_first_def takeWhile_append2)

lemma atoi_show_int:
  assumes "int_range n" "no_digit_first s"
  shows "atoi (show_int n @ s) = Inr n"
proof (cases "n < 0")
  case True
  have "digits_value (takeWhile is_digit (show_nat (nat (- n)) @ s)) = - n"
    using takeWhile_digits [OF conjunct1 [OF show_nat_digits] assms(2)] show_nat_digits [of "nat (- n)"] True by simp
  moreover have "\<not> is_space CHR ''-''" by (simp add: is_space_def)
  ultimately show ?thesis using True assms(1) by (simp add: atoi_def show_int_def Let_def)
next
  case False
  have v: "digits_value (takeWhile is_digit (show_nat (nat n) @ s)) = n"
    using takeWhile_digits [OF conjunct1 [OF show_nat_digits] assms(2)] show_nat_digits [of "nat n"] False by simp
  obtain d ds where ds: "show_nat (nat n) = d # ds" using show_nat_digits [of "nat n"] by (cases "show_nat (nat n)") auto
  then have "is_digit d" using show_nat_digits [of "nat n"] by simp
  from digit_class [OF this] ds v False assms(1) show ?thesis by (simp add: atoi_def show_int_def Let_def)
qed

lemma show_int_chars:
  "show_int n \<noteq> []" "\<forall>c \<in> set (show_int n). c \<notin> set DELIMITER \<and> c \<noteq> newline"
proof -
  have "CHR ''-'' \<notin> set DELIMITER" "CHR ''-'' \<noteq> newline" by (simp_all add: DELIMITER_def newline_def)
  with show_nat_digits [of "nat n"] show_nat_digits [of "nat (- n)"]
  show "show_int n \<noteq> []" "\<forall>c \<in> set (show_int n). c \<notin> set DELIMITER \<and> c \<noteq> newline"
    by (auto simp: show_int_def dest: digit_class)
qed

section \<open>Printing and reading lines\<close>

text \<open>A line: the numbers separated by blanks, closed by a newline.\<close>

fun blanks :: "string list \<Rightarrow> string" where
  "blanks [] = []"
| "blanks [w] = w"
| "blanks (w # v # ws) = w @ '' '' @ blanks (v # ws)"

definition print_line :: "string list \<Rightarrow> string" where
  "print_line ws = blanks ws @ [newline]"

definition word_ok :: "string \<Rightarrow> bool" where
  "word_ok w \<longleftrightarrow> w \<noteq> [] \<and> (\<forall>c \<in> set w. c \<notin> set DELIMITER \<and> c \<noteq> newline)"

lemma strtok_word:
  assumes "word_ok w" "c \<in> set DELIMITER"
  shows "strtok DELIMITER (w @ c # s) = Some (w, s)"
proof -
  obtain x xs where w: "w = x # xs" using assms(1) by (cases w) (auto simp: word_ok_def)
  have "takeWhile (\<lambda>c. c \<notin> set DELIMITER) (w @ c # s) = w" "dropWhile (\<lambda>c. c \<notin> set DELIMITER) (w @ c # s) = c # s"
    using assms by (auto simp: word_ok_def takeWhile_append2 dropWhile_append2)
  moreover have "dropWhile (\<lambda>c. c \<in> set DELIMITER) (w @ c # s) = x # xs @ c # s"
    using assms(1) w by (auto simp: word_ok_def)
  ultimately show ?thesis using w by (simp add: strtok_def)
qed

lemma strtok_last:
  assumes "word_ok w"
  shows "strtok DELIMITER (w @ [newline]) = Some (w @ [newline], [])"
proof -
  obtain x xs where w: "w = x # xs" using assms by (cases w) (auto simp: word_ok_def)
  have n: "newline \<notin> set DELIMITER" by (simp add: newline_def DELIMITER_def)
  have "takeWhile (\<lambda>c. c \<notin> set DELIMITER) (w @ [newline]) = w @ [newline]"
       "dropWhile (\<lambda>c. c \<notin> set DELIMITER) (w @ [newline]) = []"
    using assms n by (auto simp: word_ok_def takeWhile_eq_all_conv dropWhile_eq_Nil_conv)
  moreover have "dropWhile (\<lambda>c. c \<in> set DELIMITER) (w @ [newline]) = x # xs @ [newline]"
    using assms w by (auto simp: word_ok_def)
  ultimately show ?thesis using w by (simp add: strtok_def)
qed

lemma strtok_Nil: "strtok DELIMITER [] = None"
  by (simp add: strtok_def)

text \<open>The tokens of a printed line are its words; the last one keeps the newline.\<close>

lemma line_tokens_print:
  assumes "ws \<noteq> []" "\<forall>w \<in> set ws. word_ok w" "length ws < k"
  shows "line_tokens k (print_line ws) = butlast ws @ [last ws @ [newline]]"
  using assms
proof (induction ws arbitrary: k rule: induct_list012)
  case (2 w)
  then obtain k' where "k = Suc (Suc k')" by (metis length_Cons less_numeral_extra(3) list.size(3) less_imp_Suc_add add_Suc)
  with 2 show ?case by (simp add: print_line_def strtok_last strtok_Nil)
next
  case (3 w v ws)
  then obtain k' where k: "k = Suc k'" by (cases k) auto
  have "strtok DELIMITER (print_line (w # v # ws)) = Some (w, print_line (v # ws))"
    using 3(4) strtok_word [of w "CHR '' ''"] by (simp add: print_line_def DELIMITER_def)
  with 3 k show ?case by simp
qed simp

lemma read_line_print:
  assumes "\<forall>w \<in> set ws. word_ok w" "length (print_line ws) \<le> n"
  shows "read_line n (print_line ws @ file) = (print_line ws, file)"
proof -
  have "read_line n (s @ newline # file) = (s @ [newline], file)" if "newline \<notin> set s" "length s < n" for s n
    using that by (induction s arbitrary: n) (auto simp: less_Suc_eq_0_disj gr0_conv_Suc Suc_less_eq2)
  moreover have "newline \<notin> set (blanks ws)"
    using assms(1) by (induction ws rule: blanks.induct) (auto simp: word_ok_def newline_def)
  ultimately show ?thesis using assms(2) by (simp add: print_line_def)
qed

section \<open>The records of a trace\<close>

text \<open>The reference format of a record, and the records it can carry.\<close>

definition record_words :: "NetworkTraceRecord \<Rightarrow> string list" where
  "record_words rec = map show_int [int (tr_time rec), tr_src_id rec, tr_src_router_id rec, tr_dest_id rec,
     tr_dest_router_id rec, tr_vnet rec, tr_num_flits rec, tr_network_idx rec, tr_input_idx rec, tr_phase_id rec]"

definition trace_line :: "NetworkTraceRecord \<Rightarrow> string" where
  "trace_line rec = print_line (record_words rec)"

definition node_in :: "nat \<Rightarrow> int \<Rightarrow> bool" where
  "node_in num_nis i \<longleftrightarrow> 0 \<le> i \<and> i < int num_nis \<and> i < 2 ^ 31"

definition record_ok :: "nat \<Rightarrow> NetworkTraceRecord \<Rightarrow> bool" where
  "record_ok num_nis rec \<longleftrightarrow> tr_valid rec \<and> tr_time rec < 2 ^ 31 \<and>
    node_in num_nis (tr_src_id rec) \<and> node_in num_nis (tr_dest_id rec) \<and>
    int_range (tr_src_router_id rec) \<and> int_range (tr_dest_router_id rec) \<and> int_range (tr_vnet rec) \<and>
    int_range (tr_num_flits rec) \<and> int_range (tr_network_idx rec) \<and> int_range (tr_input_idx rec) \<and>
    int_range (tr_phase_id rec) \<and> length (trace_line rec) < MAX_TOKENS_PER_LINE"

lemma record_words_ok: "\<forall>w \<in> set (record_words rec). word_ok w"
  using show_int_chars by (auto simp: record_words_def word_ok_def)

lemma token_show_int:
  assumes "int_range n" "i < length token" "token ! i = show_int n @ s" "no_digit_first s"
  shows "token_int token i = Inr n" and "optional_token_int token i = Inr n"
  using assms atoi_show_int by (simp_all add: token_int_def optional_token_int_def)

lemma to_unsigned_small: "0 \<le> n \<Longrightarrow> n < 2 ^ 64 \<Longrightarrow> to_unsigned n = nat n"
  by (simp add: to_unsigned_def)

lemma node_in_unsigned: "node_in num_nis i \<Longrightarrow> to_unsigned i < num_nis"
  using to_unsigned_small [of i] by (auto simp: node_in_def)

lemma node_in_int_range: "node_in num_nis i \<Longrightarrow> int_range i"
  by (auto simp: node_in_def int_range_def)

lemma read_trace_line:
  assumes "record_ok num_nis rec"
  shows "fgets MAX_TOKENS_PER_LINE (trace_line rec @ file) = Some (trace_line rec, file)"
    and "strtok DELIMITER (trace_line rec) \<noteq> None"
    and "parse_record num_nis (line_tokens MAX_TOKENS_PER_LINE (trace_line rec)) = Inr rec"
proof -
  have len: "length (print_line (record_words rec)) \<le> MAX_TOKENS_PER_LINE - 1"
    using assms unfolding record_ok_def trace_line_def by linarith
  show "fgets MAX_TOKENS_PER_LINE (trace_line rec @ file) = Some (trace_line rec, file)"
    using read_line_print [OF record_words_ok len] by (simp add: fgets_def trace_line_def print_line_def)
  have tok: "line_tokens MAX_TOKENS_PER_LINE (trace_line rec)
      = butlast (record_words rec) @ [last (record_words rec) @ [newline]]"
    unfolding trace_line_def
    by (rule line_tokens_print [OF _ record_words_ok]) (simp_all add: record_words_def MAX_TOKENS_PER_LINE_def)
  show "strtok DELIMITER (trace_line rec) \<noteq> None"
  proof
    assume "strtok DELIMITER (trace_line rec) = None"
    then have "line_tokens (Suc n) (trace_line rec) = []" for n by simp
    moreover have "MAX_TOKENS_PER_LINE = Suc 99" by (simp add: MAX_TOKENS_PER_LINE_def)
    ultimately have "line_tokens MAX_TOKENS_PER_LINE (trace_line rec) = []" by metis
    with tok show False by simp
  qed
  let ?t = "line_tokens MAX_TOKENS_PER_LINE (trace_line rec)"
  have n: "no_digit_first []" "no_digit_first [newline]"
    by (simp_all add: no_digit_first_def is_digit_def newline_def)
  have r: "int_range (int (tr_time rec))" "int_range (tr_src_id rec)" "int_range (tr_dest_id rec)"
    using assms by (auto simp: record_ok_def int_range_def node_in_def)
  note at = token_show_int [where s = "[]"] and at_nl = token_show_int [where s = "[newline]"]
  have "token_int ?t 0 = Inr (int (tr_time rec))" "token_int ?t 1 = Inr (tr_src_id rec)"
    "token_int ?t 2 = Inr (tr_src_router_id rec)" "token_int ?t 3 = Inr (tr_dest_id rec)"
    "token_int ?t 4 = Inr (tr_dest_router_id rec)" "token_int ?t 5 = Inr (tr_vnet rec)"
    "token_int ?t 6 = Inr (tr_num_flits rec)"
    by (rule at(1), use assms n r in \<open>simp_all add: tok record_words_def record_ok_def\<close>)+
  moreover have "optional_token_int ?t 7 = Inr (tr_network_idx rec)" "optional_token_int ?t 8 = Inr (tr_input_idx rec)"
    by (rule at(2), use assms n in \<open>simp_all add: tok record_words_def record_ok_def\<close>)+
  moreover have "optional_token_int ?t 9 = Inr (tr_phase_id rec)"
    by (rule at_nl(2), use assms n in \<open>simp_all add: tok record_words_def record_ok_def\<close>)
  moreover have "to_unsigned (int (tr_time rec)) = tr_time rec"
    using assms to_unsigned_small [of "int (tr_time rec)"] by (simp add: record_ok_def)
  moreover have "to_unsigned (tr_src_id rec) < num_nis" "to_unsigned (tr_dest_id rec) < num_nis" "tr_valid rec"
    using assms by (auto simp: record_ok_def intro: node_in_unsigned)
  ultimately show "parse_record num_nis ?t = Inr rec"
    by (cases rec) (simp add: parse_record_def)
qed

text \<open>
  C18: Reading what the reference format prints gives the record back, for every record whose
  numbers fit an \<open>int\<close> and whose nodes exist, as long as the line fits the buffer; the next
  read starts at the next line.
\<close>

theorem trace_line_roundtrip:
  assumes "record_ok num_nis rec"
  shows "\<exists>line. fgets MAX_TOKENS_PER_LINE (trace_line rec @ file) = Some (line, file) \<and>
    parse_record num_nis (line_tokens MAX_TOKENS_PER_LINE line) = Inr rec"
  using read_trace_line [OF assms] by blast

definition sample_record :: NetworkTraceRecord where
  "sample_record = \<lparr>tr_valid = True, tr_time = 1200, tr_src_id = 3, tr_src_router_id = 3, tr_dest_id = 0,
     tr_dest_router_id = 0, tr_vnet = 2, tr_num_flits = 5, tr_network_idx = 0, tr_input_idx = 1, tr_phase_id = 17\<rparr>"

lemma trace_line_roundtrip_witness:
  "trace_line sample_record = ''1200 3 3 0 0 2 5 0 1 17'' @ [newline] \<and>
    (\<exists>line. fgets MAX_TOKENS_PER_LINE (trace_line sample_record @ ''1201 0'') = Some (line, ''1201 0'') \<and>
      parse_record 4 (line_tokens MAX_TOKENS_PER_LINE line) = Inr sample_record)"
proof
  show line: "trace_line sample_record = ''1200 3 3 0 0 2 5 0 1 17'' @ [newline]" by code_simp
  have "record_ok 4 sample_record" unfolding record_ok_def line
    by (simp add: sample_record_def node_in_def int_range_def MAX_TOKENS_PER_LINE_def)
  then show "\<exists>line. fgets MAX_TOKENS_PER_LINE (trace_line sample_record @ ''1201 0'') = Some (line, ''1201 0'') \<and>
      parse_record 4 (line_tokens MAX_TOKENS_PER_LINE line) = Inr sample_record"
    by (rule trace_line_roundtrip)
qed

section \<open>Lines that are not records\<close>

text \<open>
  A line with fewer than seven tokens reads a null pointer; so does a blank line, because
  its newline is a token.
\<close>

theorem short_line_fails:
  assumes "length token < 7" and "\<forall>t \<in> set token. \<exists>n. atoi t = Inr n"
  shows "parse_record num_nis token = Inl (Null_pointer ''token'')"
proof -
  have cases: "(\<exists>n. token_int token i = Inr n) \<or> token_int token i = Inl (Null_pointer ''token'')" for i
    using assms(2) by (auto simp: token_int_def)
  have "token_int token 6 = Inl (Null_pointer ''token'')" using assms(1) by (simp add: token_int_def)
  moreover have "\<exists>x. bindR (token_int token i) f = f x \<or> bindR (token_int token i) f = Inl (Null_pointer ''token'')" for i and f :: "int \<Rightarrow> NetworkTraceRecord res"
    using cases [of i] by auto
  ultimately show ?thesis
    using cases [of 0] cases [of 1] cases [of 2] cases [of 3] cases [of 4] cases [of 5]
    by (auto simp: parse_record_def)
qed

lemma short_line_fails_witness:
  "line_tokens MAX_TOKENS_PER_LINE [newline] = [[newline]] \<and>
    parse_record 4 (line_tokens MAX_TOKENS_PER_LINE [newline]) = Inl (Null_pointer ''token'')"
proof -
  have t: "line_tokens MAX_TOKENS_PER_LINE [newline] = [[newline]]" "atoi [newline] = Inr 0" by code_simp+
  have "parse_record 4 [[newline]] = Inl (Null_pointer ''token'')"
    by (rule short_line_fails) (use t in auto)
  with t show ?thesis by simp
qed

text \<open>
  Whatever the line says, the source of the packet is an existing interface. The
  destination is one too, unless the source had to be replaced: then it is not checked.
\<close>

theorem parse_record_nodes:
  assumes "parse_record num_nis token = Inr rec" "0 < num_nis"
  shows "to_unsigned (tr_src_id rec) < num_nis \<and>
    (to_unsigned (tr_dest_id rec) < num_nis \<or>
      (\<exists>src dest. token_int token 1 = Inr src \<and> num_nis \<le> to_unsigned src \<and>
         token_int token 3 = Inr dest \<and> tr_dest_id rec = dest))"
  using assms unfolding parse_record_def Let_def
  by (auto elim!: bindR_InrE split: if_splits simp: to_unsigned_small)

lemma parse_record_nodes_witness:
  "\<exists>rec. parse_record 4 [''7'', ''9'', ''9'', ''11'', ''11'', ''0'', ''1''] = Inr rec \<and>
    to_unsigned (tr_src_id rec) < 4 \<and> tr_dest_id rec = 11"
proof -
  have "case parse_record 4 [''7'', ''9'', ''9'', ''11'', ''11'', ''0'', ''1''] of Inl e \<Rightarrow> False
      | Inr rec \<Rightarrow> tr_dest_id rec = 11" by code_simp
  then obtain rec where "parse_record 4 [''7'', ''9'', ''9'', ''11'', ''11'', ''0'', ''1''] = Inr rec" "tr_dest_id rec = 11"
    by (rule case_resE)
  with parse_record_nodes [OF this(1)] show ?thesis by auto
qed

end
