(* ===== verification/GarnetNetwork.thy ===== *)
theory GarnetNetwork
  imports Complex_Main Router Network NetworkInterface GarnetLink TraceFile
begin

text \<open>
  \<open>GarnetNetwork\<close> (\<open>GarnetNetwork.hh\<close>, \<open>GarnetNetwork.cc\<close>): the network that holds the
  routers, the interfaces, the links and the bridges, wires them together, drives the
  interfaces from the trace, and delivers messages directly when it is not driven by a trace.
  It is also where \<open>NetworkInterface::wakeup\<close> is composed, as the interface then acts on
  other interfaces.
\<close>

section \<open>State\<close>

text \<open>
  Links and bridges are entries of one store: entry \<open>i\<close> of \<open>gn_links\<close> is a link or the link
  part of a bridge, and in the latter case entry \<open>i\<close> of \<open>gn_bridges\<close> holds the rest of it
  (its own \<open>br_link\<close> is not read). The vectors of links, credit links and bridges hold
  indices. The garnet links of the topology are found by the number of the basic link.
  Averages are rational, and \<open>None\<close> when they are not finite.
\<close>

record 'r GarnetNetwork =
  gn_network :: "'r Network"
  gn_cfg :: garnet_config
  gn_max_vcs_per_vnet :: nat
  gn_routers :: "Router list"
  gn_nis :: "NetworkInterface list"
  gn_links :: "NetworkLink list"
  gn_bridges :: bridge_store
  gn_int_links :: "(int \<times> GarnetIntLink) list"
  gn_ext_links :: "(int \<times> GarnetExtLink) list"
  gn_networklinks :: "int list"
  gn_creditlinks :: "int list"
  gn_networkbridges :: "int list"
  gn_stats :: GarnetStats
  gn_total_ext_in_link_utilization :: nat
  gn_total_ext_out_link_utilization :: nat
  gn_total_int_link_utilization :: nat
  gn_average_link_utilization :: "rat option"
  gn_average_vc_load :: "rat option list"
  gn_consumer :: consumer
  gn_tracefile :: string

definition gn_curCycle :: "tick \<Rightarrow> 'r GarnetNetwork \<Rightarrow> cycles" where
  "gn_curCycle now net = cur_cycle (con_period (gn_consumer net)) now"

text \<open>\<open>scheduleWakeupAbsolute\<close>; \<open>cyclesToTicks\<close> multiplies by the clock period.\<close>

definition scheduleWakeupAbsolute :: "tick \<Rightarrow> cycles \<Rightarrow> 'r GarnetNetwork \<Rightarrow> 'r GarnetNetwork" where
  "scheduleWakeupAbsolute now time net =
    net\<lparr>gn_consumer := scheduleEventAbsolute now (con_period (gn_consumer net) * time) (gn_consumer net)\<rparr>"

text \<open>
  The constructor, after the one of the base class. \<open>file\<close> is what the command that reads the
  trace prints; its first line is skipped.
\<close>

definition vnet_types :: "string list \<Rightarrow> VNET_type list" where
  "vnet_types names = map (\<lambda>name. if name = ''response'' then DATA_VNET else CTRL_VNET) names"

definition skip_lines :: "nat \<Rightarrow> string \<Rightarrow> string" where
  "skip_lines k file = ((\<lambda>f. case fgets 1000 f of None \<Rightarrow> f | Some (line, rest) \<Rightarrow> rest) ^^ k) file"

definition GarnetNetwork_new ::
    "'r Network \<Rightarrow> garnet_config \<Rightarrow> bool \<Rightarrow> int \<Rightarrow> bool \<Rightarrow> string \<Rightarrow> tick \<Rightarrow> nat \<Rightarrow> Router list \<Rightarrow> NetworkInterface list
     \<Rightarrow> NetworkLink list \<Rightarrow> bridge_store \<Rightarrow> (int \<times> GarnetIntLink) list \<Rightarrow> (int \<times> GarnetExtLink) list \<Rightarrow> 'r GarnetNetwork" where
  "GarnetNetwork_new nw cfg trace_enable trace_max_packets garbage file now period routers nis links bridges ints exts =
    scheduleWakeupAbsolute now (cur_cycle period now + 1)
      \<lparr>gn_network = nw,
       gn_cfg = cfg\<lparr>gc_vnet_type := vnet_types (nw_vnet_type_names nw), gc_ordered := nw_ordered nw\<rparr>,
       gn_max_vcs_per_vnet = 0, gn_routers = routers, gn_nis = nis, gn_links = links, gn_bridges = bridges,
       gn_int_links = ints, gn_ext_links = exts, gn_networklinks = [], gn_creditlinks = [], gn_networkbridges = [],
       gn_stats = GarnetStats_new (nw_virtual_networks nw) (length routers) trace_enable trace_max_packets garbage,
       gn_total_ext_in_link_utilization = 0, gn_total_ext_out_link_utilization = 0,
       gn_total_int_link_utilization = 0, gn_average_link_utilization = Some 0, gn_average_vc_load = [],
       gn_consumer = consumer_init period, gn_tracefile = skip_lines 1 file\<rparr>"

section \<open>Acting on one object\<close>

text \<open>A router or an interface acts with the store of links; what a router keeps of it is stale.\<close>

definition on_router :: "int \<Rightarrow> (Router \<Rightarrow> Router res) \<Rightarrow> 'r GarnetNetwork \<Rightarrow> 'r GarnetNetwork res" where
  "on_router i f net =
    bindR (nthR (gn_routers net) i) (\<lambda>r.
    bindR (f (r\<lparr>r_links := gn_links net\<rparr>)) (\<lambda>r'.
      Inr (net\<lparr>gn_routers := (gn_routers net)[nat i := r'], gn_links := r_links r'\<rparr>)))"

definition on_ni ::
    "int \<Rightarrow> (NetworkInterface \<times> NetworkLink list \<Rightarrow> (NetworkInterface \<times> NetworkLink list) res)
     \<Rightarrow> 'r GarnetNetwork \<Rightarrow> 'r GarnetNetwork res" where
  "on_ni i f net =
    bindR (nthR (gn_nis net) i) (\<lambda>ni.
    bindR (f (ni, gn_links net)) (\<lambda>(ni', links).
      Inr (net\<lparr>gn_nis := (gn_nis net)[nat i := ni'], gn_links := links\<rparr>)))"

text \<open>
  \<open>setVcsPerVnet\<close> is virtual: on a bridge it also sizes the vectors of the bridge and passes
  the number on to the link of the bridge. The link part has its number already.
\<close>

definition bridge_vcs :: "nat \<Rightarrow> int \<Rightarrow> 'r GarnetNetwork \<Rightarrow> 'r GarnetNetwork res" where
  "bridge_vcs n i net =
    bindR (nthR (gn_links net) i) (\<lambda>base.
    bindR (nthR (gn_bridges net) i) (\<lambda>b. case b of
      None \<Rightarrow> Inr net
    | Some br \<Rightarrow>
        bindR (nthR (gn_links net) (br_nLink br)) (\<lambda>nl.
        case bridge_setVcsPerVnet n (br\<lparr>br_link := base\<rparr>) nl of (br', nl') \<Rightarrow>
          Inr (net\<lparr>gn_bridges := (gn_bridges net)[nat i := Some br'],
                   gn_links := ((gn_links net)[nat i := br_link br'])[nat (br_nLink br) := nl']\<rparr>))))"

section \<open>Wiring\<close>

definition router_vcs :: "int \<Rightarrow> 'r GarnetNetwork \<Rightarrow> nat res" where
  "router_vcs i net = bindR (nthR (gn_routers net) i) (\<lambda>r. Inr (rp_vc_per_vnet (r_params r)))"

definition net_router_addInPort ::
    "int \<Rightarrow> PortDirection \<Rightarrow> int \<Rightarrow> int \<Rightarrow> 'r GarnetNetwork \<Rightarrow> 'r GarnetNetwork res" where
  "net_router_addInPort i dirn in_link credit_link net =
    bindR (router_vcs i net) (\<lambda>vcs.
    bindR (on_router i (addInPort dirn in_link credit_link) net) (\<lambda>net1.
    bindR (bridge_vcs vcs in_link net1) (bridge_vcs vcs credit_link)))"

definition net_router_addOutPort ::
    "int \<Rightarrow> PortDirection \<Rightarrow> int \<Rightarrow> net_dest list \<Rightarrow> int \<Rightarrow> int \<Rightarrow> nat \<Rightarrow> 'r GarnetNetwork \<Rightarrow> 'r GarnetNetwork res" where
  "net_router_addOutPort i dirn out_link entry weight credit_link vcs net =
    bindR (on_router i (addOutPort (gn_cfg net) dirn out_link entry weight credit_link vcs) net) (\<lambda>net1.
    bindR (bridge_vcs vcs credit_link net1) (bridge_vcs vcs out_link))"

definition net_ni_addInPort :: "int \<Rightarrow> int \<Rightarrow> int \<Rightarrow> 'r GarnetNetwork \<Rightarrow> 'r GarnetNetwork res" where
  "net_ni_addInPort i in_link credit_link net =
    bindR (nthR (gn_nis net) i) (\<lambda>ni.
    bindR (on_ni i (ni_addInPort in_link credit_link) net) (\<lambda>net1.
      if ni_vc_per_vnet ni \<noteq> 0
      then bindR (bridge_vcs (ni_vc_per_vnet ni) in_link net1) (bridge_vcs (ni_vc_per_vnet ni) credit_link)
      else Inr net1))"

definition net_ni_addOutPort :: "int \<Rightarrow> int \<Rightarrow> int \<Rightarrow> int \<Rightarrow> nat \<Rightarrow> 'r GarnetNetwork \<Rightarrow> 'r GarnetNetwork res" where
  "net_ni_addOutPort i out_link credit_link router_id vcs net =
    bindR (nthR (gn_nis net) i) (\<lambda>ni.
    bindR (on_ni i (ni_addOutPort (gn_cfg net) out_link credit_link router_id vcs) net) (\<lambda>net1.
      foldR (bridge_vcs vcs)
        ((if length (ni_niOutVcs ni) = 0 then map ip_inNetLink (ni_inPorts ni) else []) @ [out_link, credit_link]) net1))"

text \<open>An end of a link is its bridge, when it has one, or the link itself.\<close>

definition record_bridge :: "bool \<Rightarrow> int \<Rightarrow> 'r GarnetNetwork \<Rightarrow> 'r GarnetNetwork" where
  "record_bridge en b net = (if en then net\<lparr>gn_networkbridges := gn_networkbridges net @ [b]\<rparr> else net)"

definition end_links :: "bool \<Rightarrow> int option \<Rightarrow> int option \<Rightarrow> int \<Rightarrow> int \<Rightarrow> (int \<times> int) res" where
  "end_links en net_bridge cred_bridge net_link credit_link =
    (if en then
       (case (net_bridge, cred_bridge) of
          (Some n, Some c) \<Rightarrow> Inr (n, c) | _ \<Rightarrow> Inl (Null_pointer ''bridge''))
     else Inr (net_link, credit_link))"

definition begin_link :: "link_type \<Rightarrow> int \<Rightarrow> int \<Rightarrow> nat \<Rightarrow> 'r GarnetNetwork \<Rightarrow> 'r GarnetNetwork res" where
  "begin_link ty net_link credit_link vcs net =
    bindR (modR (gn_links net) net_link (\<lambda>l. Inr (link_setType ty l))) (\<lambda>links.
      Inr (net\<lparr>gn_links := links, gn_networklinks := gn_networklinks net @ [net_link],
               gn_creditlinks := gn_creditlinks net @ [credit_link],
               gn_max_vcs_per_vnet := max (gn_max_vcs_per_vnet net) vcs\<rparr>))"

definition find_link :: "(int \<times> 'l) list \<Rightarrow> BasicLink \<Rightarrow> 'l res" where
  "find_link ls link = (case map_of ls (bl_id link) of None \<Rightarrow> Inl (Assert_failed ''safe_cast'') | Some l \<Rightarrow> Inr l)"

definition makeExtInLink :: "nat \<Rightarrow> nat \<Rightarrow> BasicLink \<Rightarrow> net_dest list \<Rightarrow> 'r GarnetNetwork \<Rightarrow> 'r GarnetNetwork res" where
  "makeExtInLink global_src dest link routing_table_entry net =
    bindR (getLocalNodeID global_src (gn_network net)) (\<lambda>local_src.
    guardR (local_src < nw_nodes (gn_network net)) (Assert_failed ''local_src < m_nodes'')
    (bindR (find_link (gn_ext_links net) link) (\<lambda>garnet_link.
     let net_link = fst (gel_network_links garnet_link); credit_link = fst (gel_credit_links garnet_link) in
     bindR (router_vcs (int dest) net) (\<lambda>vcs.
     bindR (begin_link EXT_IN net_link credit_link vcs net) (\<lambda>net1.
     bindR (end_links (gel_extBridgeEn garnet_link) (fst (gel_extNetBridge garnet_link))
         (fst (gel_extCredBridge garnet_link)) net_link credit_link) (\<lambda>(n, c).
     bindR (net_ni_addOutPort (int local_src) n c (int dest) vcs net1) (\<lambda>net2.
     let net3 = record_bridge (gel_extBridgeEn garnet_link) n net2 in
     bindR (end_links (gel_intBridgeEn garnet_link) (fst (gel_intNetBridge garnet_link))
         (fst (gel_intCredBridge garnet_link)) net_link credit_link) (\<lambda>(n', c').
     bindR (net_router_addInPort (int dest) ''Local'' n' c' net3) (\<lambda>net4.
       Inr (record_bridge (gel_intBridgeEn garnet_link) n' net4))))))))))"

definition makeExtOutLink :: "nat \<Rightarrow> nat \<Rightarrow> BasicLink \<Rightarrow> net_dest list \<Rightarrow> 'r GarnetNetwork \<Rightarrow> 'r GarnetNetwork res" where
  "makeExtOutLink src global_dest link routing_table_entry net =
    bindR (getLocalNodeID global_dest (gn_network net)) (\<lambda>local_dest.
    guardR (local_dest < nw_nodes (gn_network net)) (Assert_failed ''local_dest < m_nodes'')
    (guardR (src < length (gn_routers net)) (Assert_failed ''src < m_routers.size()'')
    (bindR (find_link (gn_ext_links net) link) (\<lambda>garnet_link.
     let net_link = snd (gel_network_links garnet_link); credit_link = snd (gel_credit_links garnet_link) in
     bindR (router_vcs (int src) net) (\<lambda>vcs.
     bindR (begin_link EXT_OUT net_link credit_link vcs net) (\<lambda>net1.
     bindR (end_links (gel_extBridgeEn garnet_link) (snd (gel_extNetBridge garnet_link))
         (snd (gel_extCredBridge garnet_link)) net_link credit_link) (\<lambda>(n, c).
     bindR (net_ni_addInPort (int local_dest) n c net1) (\<lambda>net2.
     let net3 = record_bridge (gel_extBridgeEn garnet_link) n net2 in
     bindR (end_links (gel_intBridgeEn garnet_link) (snd (gel_intNetBridge garnet_link))
         (snd (gel_intCredBridge garnet_link)) net_link credit_link) (\<lambda>(n', c').
     bindR (net_router_addOutPort (int src) ''Local'' n' routing_table_entry (bl_weight link) c' vcs net3) (\<lambda>net4.
       Inr (record_bridge (gel_intBridgeEn garnet_link) n' net4)))))))))))"

definition makeInternalLink ::
    "nat \<Rightarrow> nat \<Rightarrow> BasicLink \<Rightarrow> net_dest list \<Rightarrow> PortDirection \<Rightarrow> PortDirection \<Rightarrow> 'r GarnetNetwork \<Rightarrow> 'r GarnetNetwork res" where
  "makeInternalLink src dest link routing_table_entry src_outport_dirn dst_inport_dirn net =
    bindR (find_link (gn_int_links net) link) (\<lambda>garnet_link.
    let net_link = gil_network_link garnet_link; credit_link = gil_credit_link garnet_link in
    bindR (router_vcs (int dest) net) (\<lambda>dest_vcs.
    bindR (router_vcs (int src) net) (\<lambda>src_vcs.
    bindR (begin_link INT_LINK net_link credit_link (max dest_vcs src_vcs) net) (\<lambda>net1.
    bindR (end_links (gil_dstBridgeEn garnet_link) (gil_dstNetBridge garnet_link)
        (gil_dstCredBridge garnet_link) net_link credit_link) (\<lambda>(n, c).
    bindR (net_router_addInPort (int dest) dst_inport_dirn n c net1) (\<lambda>net2.
    let net3 = record_bridge (gil_dstBridgeEn garnet_link) n net2 in
    bindR (end_links (gil_srcBridgeEn garnet_link) (gil_srcNetBridge garnet_link)
        (gil_srcCredBridge garnet_link) net_link credit_link) (\<lambda>(n', c').
    bindR (net_router_addOutPort (int src) src_outport_dirn n' routing_table_entry (bl_weight link) c' dest_vcs net3)
      (\<lambda>net4. Inr (record_bridge (gil_srcBridgeEn garnet_link) n' net4)))))))))"

definition make_link :: "net_call \<Rightarrow> 'r GarnetNetwork \<Rightarrow> 'r GarnetNetwork res" where
  "make_link c net =
    (case c of
       MakeExtInLink src dest link entry \<Rightarrow> makeExtInLink src dest link entry net
     | MakeExtOutLink src dest link entry \<Rightarrow> makeExtOutLink src dest link entry net
     | MakeInternalLink src dest link entry out_dirn in_dirn \<Rightarrow> makeInternalLink src dest link entry out_dirn in_dirn net)"

text \<open>\<open>init\<close>, without the fault model; \<open>None\<close> if the shortest paths never settle.\<close>

definition add_nodes :: "'r GarnetNetwork \<Rightarrow> 'r GarnetNetwork res" where
  "add_nodes net =
    foldR (\<lambda>i net.
        bindR (nthR (nw_toNetQueues (gn_network net)) i) (\<lambda>ins.
        bindR (nthR (nw_fromNetQueues (gn_network net)) i) (\<lambda>outs.
        bindR (modR (gn_nis net) i (addNode ins outs)) (\<lambda>nis. Inr (net\<lparr>gn_nis := nis\<rparr>)))))
      (upto_int (nw_nodes (gn_network net))) net"

definition set_grid :: "'r GarnetNetwork \<Rightarrow> 'r GarnetNetwork res" where
  "set_grid net =
    (let rows = gc_num_rows (gn_cfg net); n = int (length (gn_routers net)) in
     if rows > 0 then
       let cols = n div rows in
       guardR (rows * cols = n) (Assert_failed ''m_num_rows * m_num_cols == m_routers.size()'')
         (Inr (net\<lparr>gn_cfg := (gn_cfg net)\<lparr>gc_num_cols := cols\<rparr>\<rparr>))
     else Inr (net\<lparr>gn_cfg := (gn_cfg net)\<lparr>gc_num_rows := -1, gc_num_cols := -1\<rparr>\<rparr>))"

definition GarnetNetwork_init :: "machine_info \<Rightarrow> 'r GarnetNetwork \<Rightarrow> 'r GarnetNetwork res option" where
  "GarnetNetwork_init mt net =
    (case add_nodes net of
       Inl e \<Rightarrow> Some (Inl e)
     | Inr net1 \<Rightarrow>
         (case createLinks mt (nw_topology (gn_network net1)) of
            None \<Rightarrow> None
          | Some calls \<Rightarrow> Some (bindR calls (\<lambda>cs. bindR (foldR make_link cs net1) set_grid))))"

section \<open>Messages\<close>

definition get_router_id :: "'r GarnetNetwork \<Rightarrow> nat \<Rightarrow> int \<Rightarrow> int res" where
  "get_router_id net global_ni vnet =
    bindR (getLocalNodeID global_ni (gn_network net)) (\<lambda>local_ni.
    bindR (nthR (gn_nis net) (int local_ni)) (ni_get_router_id vnet))"

text \<open>The interface is indexed with the number of the node as it is given, a global one.\<close>

definition magicSend ::
    "ruby_flags \<Rightarrow> tick \<Rightarrow> tick \<Rightarrow> int \<Rightarrow> int \<Rightarrow> Message \<Rightarrow> 'r GarnetNetwork
     \<Rightarrow> ('r GarnetNetwork \<times> wake_request list) res" where
  "magicSend rs rt now ni vnet msg net =
    bindR (nthR (gn_nis net) ni) (\<lambda>n.
    bindR (magicReceive rs rt now vnet msg n) (\<lambda>(n', reqs).
      Inr (net\<lparr>gn_nis := (gn_nis net)[nat ni := n']\<rparr>, reqs)))"

text \<open>
  \<open>flitisizeMessage\<close>. One destination: the copy of the message for it, and what is left of
  the original. \<open>network_trace\<close> is constantly true in the code, so that every message is
  delivered at once and the branch that makes flits of it cannot be reached.
\<close>

definition personal_copy :: "machine_info \<Rightarrow> bool \<Rightarrow> nat \<Rightarrow> Message \<Rightarrow> (Message \<times> Message) res" where
  "personal_copy mt multicast destID msg =
    (if multicast then
       bindR (trace_net_dest mt destID) (\<lambda>personal_dest.
       bindR (nd_removeNetDest personal_dest (msg_destination msg)) (\<lambda>left.
         Inr (case dest_machine mt destID of None \<Rightarrow> msg | Some _ \<Rightarrow> msg\<lparr>msg_destination := personal_dest\<rparr>,
              msg\<lparr>msg_destination := left\<rparr>)))
     else Inr (msg, msg))"

text \<open>The statistics of one injected packet, which takes a packet number.\<close>

definition count_packet :: "garnet_config \<Rightarrow> RouteInfo \<Rightarrow> int \<Rightarrow> GarnetStats \<Rightarrow> GarnetStats res" where
  "count_packet cfg route num_flits gs =
    bindR (increment_injected_packets (ri_vnet route) gs) (\<lambda>g1.
    bindR (update_traffic_distribution cfg route g1) (\<lambda>g2.
      case getNextPacketID g2 of (packet_id, g3) \<Rightarrow>
        foldR (\<lambda>_. increment_injected_flits (ri_vnet route)) (upto_int (nat num_flits)) g3))"

definition message_route :: "Message \<Rightarrow> int \<Rightarrow> NetworkInterface \<Rightarrow> OutputPort \<Rightarrow> nat \<Rightarrow> int \<Rightarrow> RouteInfo" where
  "message_route msg vnet ni oPort destID dest_router =
    \<lparr>ri_vnet = vnet, ri_net_dest = msg_destination msg, ri_src_ni = int (ni_id ni),
     ri_src_router = op_routerID oPort, ri_dest_ni = int destID, ri_dest_router = dest_router,
     ri_hops_traversed = -1, ri_last_flit = False, ri_network_idx = 0, ri_input_idx = 0, ri_phase_id = 0\<rparr>"

text \<open>
  The loop over the destinations stops when no channel is free. The state is the network, the
  original message and the wakeups; the flag of the result is the value the function returns.
  \<open>rt\<close> gives the values of \<open>random_time()\<close> by destination.
\<close>

type_synonym 'r send_state = "'r GarnetNetwork \<times> Message \<times> wake_request list"

fun flitisize_loop ::
    "machine_info \<Rightarrow> ruby_flags \<Rightarrow> (nat \<Rightarrow> tick) \<Rightarrow> tick \<Rightarrow> int \<Rightarrow> int \<Rightarrow> OutputPort \<Rightarrow> int \<Rightarrow> bool \<Rightarrow> nat list
     \<Rightarrow> 'r send_state \<Rightarrow> (bool \<times> 'r send_state) res" where
  "flitisize_loop mt rs rt now i vnet oPort num_flits multicast [] st = Inr (True, st)"
| "flitisize_loop mt rs rt now i vnet oPort num_flits multicast (destID # dests) (net, msg, reqs) =
    bindR (nthR (gn_nis net) i) (\<lambda>ni.
    bindR (calculateVC now vnet ni) (\<lambda>(vc, ni').
    let net1 = net\<lparr>gn_nis := (gn_nis net)[nat i := ni']\<rparr> in
    if vc = -1 then Inr (False, net1, msg, reqs)
    else
      bindR (personal_copy mt multicast destID msg) (\<lambda>(new_msg, msg').
      bindR (get_router_id net1 destID vnet) (\<lambda>dest_router.
      bindR (count_packet (gn_cfg net1) (message_route new_msg vnet ni' oPort destID dest_router) num_flits
          (gn_stats net1)) (\<lambda>gs.
      bindR (magicSend rs (rt destID) now (int destID) vnet new_msg (net1\<lparr>gn_stats := gs\<rparr>)) (\<lambda>(net2, rq).
        flitisize_loop mt rs rt now i vnet oPort num_flits multicast dests (net2, msg', reqs @ rq)))))))"

text \<open>
  The number of flits is computed in single precision and truncated, which is the integer
  quotient for the sizes that occur.
\<close>

definition flitisizeMessage ::
    "machine_info \<Rightarrow> ruby_flags \<Rightarrow> (nat \<Rightarrow> tick) \<Rightarrow> tick \<Rightarrow> int \<Rightarrow> int \<Rightarrow> 'r send_state \<Rightarrow> (bool \<times> 'r send_state) res" where
  "flitisizeMessage mt rs rt now i vnet = (\<lambda>(net, msg, reqs).
    bindR (nthR (gn_nis net) i) (\<lambda>ni.
    let dest_nodes = nd_getAllDest mt (msg_destination msg) in
    (case getOutportForVnet vnet ni of
       None \<Rightarrow> Inl (Assert_failed ''oPort'')
     | Some p \<Rightarrow>
         let oPort = ni_outPorts ni ! p in
         guardR (op_bitWidth oPort \<noteq> 0) Div_by_zero
         (let num_flits = divCeil_int (MessageSizeType_to_int (msg_size_type msg) (gn_network net)) (op_bitWidth oPort) in
          flitisize_loop mt rs rt now i vnet oPort num_flits (length dest_nodes > 1) dest_nodes (net, msg, reqs)))))"

section \<open>The wakeup of an interface\<close>

definition on_callback :: "tick \<Rightarrow> consumer_ref option \<Rightarrow> 'r GarnetNetwork \<Rightarrow> 'r GarnetNetwork" where
  "on_callback now callback net =
    (case callback of
       Some (NI_consumer j) \<Rightarrow> net\<lparr>gn_nis := (gn_nis net)[j := dequeueCallback now (gn_nis net ! j)]\<rparr>
     | _ \<Rightarrow> net)"

definition put_in_buffer :: "int \<Rightarrow> nat \<Rightarrow> MessageBuffer \<Rightarrow> 'r GarnetNetwork \<Rightarrow> 'r GarnetNetwork" where
  "put_in_buffer i vnet mb net =
    (let ni = gn_nis net ! nat i in
     net\<lparr>gn_nis := (gn_nis net)[nat i := ni\<lparr>ni_inNode := (ni_inNode ni)[vnet := Some mb]\<rparr>]\<rparr>)"

text \<open>
  The loop over the queues from the protocol: one message of each virtual network, until a
  message does not find its channels. The head of the queue is the message itself, so that
  the destinations served are gone from it even when it stays.
\<close>

fun protocol_loop ::
    "machine_info \<Rightarrow> ruby_flags \<Rightarrow> (nat \<Rightarrow> nat \<Rightarrow> tick) \<Rightarrow> tick \<Rightarrow> int \<Rightarrow> nat list
     \<Rightarrow> 'r GarnetNetwork \<times> wake_request list \<Rightarrow> ('r GarnetNetwork \<times> wake_request list) res" where
  "protocol_loop mt rs rt now i [] st = Inr st"
| "protocol_loop mt rs rt now i (vnet # vnets) (net, reqs) =
    bindR (nthR (gn_nis net) i) (\<lambda>ni.
    let curTime = ni_clockEdge now 0 ni in
    bindR (nthR (ni_inNode ni) (int vnet)) (\<lambda>b. case b of
      None \<Rightarrow> protocol_loop mt rs rt now i vnets (net, reqs)
    | Some mb \<Rightarrow>
        bindR (mb_isReady curTime mb) (\<lambda>(ready, rq1).
        if ready then
          bindR (mb_peek mb) (\<lambda>msg.
          bindR (flitisizeMessage mt rs (rt vnet) now i (int vnet) (net, msg, reqs @ rq1)) (\<lambda>(sent, net1, msg', reqs1).
          let mb1 = mb\<lparr>mb_prio_heap := msg' # tl (mb_prio_heap mb)\<rparr> in
          if sent then
            bindR (mb_dequeue now curTime True mb1) (\<lambda>((delay, callback), msg'', mb2).
              protocol_loop mt rs rt now i vnets (on_callback now callback (put_in_buffer i vnet mb2 net1), reqs1))
          else Inr (put_in_buffer i vnet mb1 net1, reqs1)))
        else protocol_loop mt rs rt now i vnets (net, reqs @ rq1))))"

text \<open>
  \<open>stray\<close> is what the transfer of the last records reads behind the queue, \<open>msgs\<close> the store
  of the messages that flits point to, \<open>rt'\<close> the random time of the buffers that flits
  arrive at.
\<close>

definition NetworkInterface_wakeup ::
    "machine_info \<Rightarrow> ruby_flags \<Rightarrow> (nat \<Rightarrow> Message option) \<Rightarrow> (nat \<Rightarrow> nat \<Rightarrow> tick) \<Rightarrow> tick \<Rightarrow> int \<Rightarrow> tick \<Rightarrow> int
     \<Rightarrow> 'r GarnetNetwork \<Rightarrow> ('r GarnetNetwork \<times> wake_request list) res" where
  "NetworkInterface_wakeup mt rs msgs rt rt' stray now i net =
    bindR (nthR (gn_nis net) i) (\<lambda>ni.
    guardR (now = ni_clockEdge now 0 ni) (Assert_failed ''curTick() == clockEdge()'')
    (bindR (if \<not> gs_trace_enable (gn_stats net)
            then protocol_loop mt rs rt now i [0..<length (ni_inNode ni)] (net, [])
            else bindR (ni_inject_trace mt (get_router_id net) stray now (ni, gn_stats net)) (\<lambda>(ni', gs).
              Inr (net\<lparr>gn_nis := (gn_nis net)[nat i := ni'], gn_stats := gs\<rparr>, [])))
      (\<lambda>(net1, reqs1).
     bindR (nthR (gn_nis net1) i) (\<lambda>ni1.
     bindR (ni_wakeup_rest (gn_cfg net1) rs msgs rt' now (ni1, gn_stats net1, gn_links net1))
       (\<lambda>(ni2, gs2, links2, reqs2).
         Inr (net1\<lparr>gn_nis := (gn_nis net1)[nat i := ni2], gn_stats := gs2, gn_links := links2\<rparr>, reqs1 @ reqs2))))))"

section \<open>The trace driver\<close>

text \<open>
  \<open>wakeup\<close>: the packet that is due goes to its interface, and the next line is read; if it is
  due in the same cycle the function calls itself. \<open>at_eof\<close> tells the end of the file from a
  read error.
\<close>

definition inject_due :: "tick \<Rightarrow> 'r GarnetNetwork \<Rightarrow> 'r GarnetNetwork res" where
  "inject_due now net =
    (let gs = gn_stats net; rec = gs_trace_next_packet gs in
     if tr_valid rec then
       guardR (tr_time rec = gn_curCycle now net) (Assert_failed ''trace_next_packet.time == curCycle()'')
       (bindR (modR (gn_nis net) (tr_src_id rec) (\<lambda>ni. Inr (enqueueTracePacket now rec ni))) (\<lambda>nis.
         Inr (net\<lparr>gn_nis := nis,
           gn_stats := gs\<lparr>gs_trace_num_packets_injected := gs_trace_num_packets_injected gs + 1,
             gs_trace_num_flits_injected := gs_trace_num_flits_injected gs + tr_num_flits rec\<rparr>\<rparr>)))
     else Inr net)"

text \<open>\<open>None\<close>: the line has no token and the function returns at once.\<close>

definition next_packet :: "string \<Rightarrow> 'r GarnetNetwork \<Rightarrow> 'r GarnetNetwork option res" where
  "next_packet line net =
    (case line_tokens MAX_TOKENS_PER_LINE line of
       [] \<Rightarrow> Inr None
     | token0 # tokens \<Rightarrow>
         let gs = gn_stats net in
         bindR (atoi token0) (\<lambda>t.
         bindR (parse_record (length (gn_nis net)) (token0 # tokens)) (\<lambda>rec.
           Inr (Some (net\<lparr>gn_stats := gs\<lparr>gs_trace_start_time :=
               (if gs_trace_num_packets_injected gs = 0 then t else gs_trace_start_time gs),
             gs_trace_next_packet := rec\<rparr>\<rparr>)))))"

lemma read_line_length: "read_line n s = (line, rest) \<Longrightarrow> length line + length rest = length s"
  by (induction n s arbitrary: line rule: read_line.induct) (auto split: prod.splits if_splits)

lemma read_line_nonempty: "read_line (Suc n) (c # s) = (line, rest) \<Longrightarrow> line \<noteq> []"
  by (auto split: if_splits prod.splits)

lemma fgets_shorter: "fgets MAX_TOKENS_PER_LINE s = Some (line, rest) \<Longrightarrow> length rest < length s"
proof -
  assume a: "fgets MAX_TOKENS_PER_LINE s = Some (line, rest)"
  then obtain c s' where s: "s = c # s'" by (cases s) (auto simp: fgets_def)
  have "MAX_TOKENS_PER_LINE - 1 = Suc 98" by (simp add: MAX_TOKENS_PER_LINE_def)
  with a s have r: "read_line (Suc 98) (c # s') = (line, rest)" by (simp add: fgets_def)
  from read_line_nonempty [OF r] have "line \<noteq> []" .
  with read_line_length [OF r] s show ?thesis by (cases line) auto
qed

function GarnetNetwork_wakeup :: "bool \<Rightarrow> tick \<Rightarrow> 'r GarnetNetwork \<Rightarrow> 'r GarnetNetwork res" where
  "GarnetNetwork_wakeup at_eof now net =
    (case inject_due now net of
       Inl e \<Rightarrow> Inl e
     | Inr net1 \<Rightarrow>
         (case fgets MAX_TOKENS_PER_LINE (gn_tracefile net) of
            None \<Rightarrow> Inr (if at_eof then net1\<lparr>gn_stats := (gn_stats net1)\<lparr>gs_end_simulation := True\<rparr>\<rparr> else net1)
          | Some (line, rest) \<Rightarrow>
              (case next_packet line (net1\<lparr>gn_tracefile := rest\<rparr>) of
                 Inl e \<Rightarrow> Inl e
               | Inr None \<Rightarrow> Inr (net1\<lparr>gn_tracefile := rest\<rparr>)
               | Inr (Some net2) \<Rightarrow>
                   (let gs = gn_stats net2; t = tr_time (gs_trace_next_packet gs) in
                    if gs_trace_max_packets gs < 0 \<or> gs_trace_num_packets_injected gs \<le> gs_trace_max_packets gs then
                      if t = gn_curCycle now net2
                      then GarnetNetwork_wakeup at_eof now (net2\<lparr>gn_tracefile := rest\<rparr>)
                      else Inr (scheduleWakeupAbsolute now t net2)
                    else Inr net2))))"
  by pat_completeness auto

termination
  by (relation "measure (\<lambda>(at_eof, now, net). length (gn_tracefile net))") (auto dest: fgets_shorter)

declare GarnetNetwork_wakeup.simps [simp del]

section \<open>Statistics and functional access\<close>

text \<open>\<open>time_delta\<close> cycles have passed since the statistics began.\<close>

definition add_average :: "nat \<Rightarrow> int \<Rightarrow> rat option \<Rightarrow> rat option" where
  "add_average n time_delta avg =
    (if time_delta = 0 then None else map_option (\<lambda>a. a + of_nat n / of_int time_delta) avg)"

definition collate_link :: "int \<Rightarrow> int \<Rightarrow> 'r GarnetNetwork \<Rightarrow> 'r GarnetNetwork res" where
  "collate_link time_delta i net =
    bindR (nthR (gn_links net) i) (\<lambda>l.
    let activity = lk_link_utilized l;
        net1 = (case lk_type l of
            EXT_IN \<Rightarrow> net\<lparr>gn_total_ext_in_link_utilization := gn_total_ext_in_link_utilization net + activity\<rparr>
          | EXT_OUT \<Rightarrow> net\<lparr>gn_total_ext_out_link_utilization := gn_total_ext_out_link_utilization net + activity\<rparr>
          | INT_LINK \<Rightarrow> net\<lparr>gn_total_int_link_utilization := gn_total_int_link_utilization net + activity\<rparr>
          | NUM_LINK_TYPES \<Rightarrow> net);
        net2 = net1\<lparr>gn_average_link_utilization := add_average activity time_delta (gn_average_link_utilization net1)\<rparr> in
    bindR (foldR (\<lambda>j loads. modR loads (int j) (\<lambda>a. Inr (add_average (lk_vc_load l ! j) time_delta a)))
        [0..<length (lk_vc_load l)] (gn_average_vc_load net2)) (\<lambda>loads.
      Inr (net2\<lparr>gn_average_vc_load := loads\<rparr>)))"

definition GarnetNetwork_collateStats :: "int \<Rightarrow> 'r GarnetNetwork \<Rightarrow> 'r GarnetNetwork res" where
  "GarnetNetwork_collateStats time_delta net =
    bindR (foldR (collate_link time_delta) (gn_networklinks net) net) (\<lambda>net1.
    bindR (foldR (\<lambda>i net. on_router i Router_collateStats net) (upto_int (length (gn_routers net1))) net1) (\<lambda>net2.
      Inr (net2\<lparr>gn_stats := collate_phases (gn_stats net2)\<rparr>)))"

definition reset_links :: "int list \<Rightarrow> NetworkLink list \<Rightarrow> NetworkLink list res" where
  "reset_links is links = foldR (\<lambda>i ls. modR ls i (\<lambda>l. Inr (link_resetStats l))) is links"

definition GarnetNetwork_resetStats :: "'r GarnetNetwork \<Rightarrow> 'r GarnetNetwork res" where
  "GarnetNetwork_resetStats net =
    bindR (reset_links (gn_networklinks net) (gn_links net)) (\<lambda>links1.
    bindR (reset_links (gn_creditlinks net) links1) (\<lambda>links2.
      Inr (net\<lparr>gn_routers := map Router_resetStats (gn_routers net), gn_links := links2\<rparr>)))"

definition read_all :: "('a \<Rightarrow> 'w \<Rightarrow> (bool \<times> 'w) res) \<Rightarrow> 'a list \<Rightarrow> bool \<times> 'w \<Rightarrow> (bool \<times> 'w) res" where
  "read_all f = foldR (\<lambda>x (rd, w). bindR (f x w) (\<lambda>(ok, w'). Inr (ok \<or> rd, w')))"

definition write_all :: "('a \<Rightarrow> 'w \<Rightarrow> (nat \<times> 'w) res) \<Rightarrow> 'a list \<Rightarrow> nat \<times> 'w \<Rightarrow> (nat \<times> 'w) res" where
  "write_all f = foldR (\<lambda>x (n, w). bindR (f x w) (\<lambda>(k, w'). Inr (n + k, w')))"

definition read_link :: "'w msg_access \<Rightarrow> NetworkLink list \<Rightarrow> int \<Rightarrow> 'w \<Rightarrow> (bool \<times> 'w) res" where
  "read_link acc links i w = bindR (nthR links i) (\<lambda>l. link_functionalRead acc l w)"

definition write_link :: "'w msg_access \<Rightarrow> NetworkLink list \<Rightarrow> int \<Rightarrow> 'w \<Rightarrow> (nat \<times> 'w) res" where
  "write_link acc links i w = bindR (nthR links i) (\<lambda>l. link_functionalWrite acc l w)"

definition GarnetNetwork_functionalRead :: "'w msg_access \<Rightarrow> 'r GarnetNetwork \<Rightarrow> 'w \<Rightarrow> (bool \<times> 'w) res" where
  "GarnetNetwork_functionalRead acc net w =
    bindR (read_all (Router_functionalRead acc) (gn_routers net) (False, w)) (\<lambda>s1.
    bindR (read_all (ni_functionalRead acc) (gn_nis net) s1) (\<lambda>s2.
    bindR (read_all (read_link acc (gn_links net)) (gn_networklinks net) s2)
      (read_all (read_link acc (gn_links net)) (gn_networkbridges net))))"

definition GarnetNetwork_functionalWrite :: "'w msg_access \<Rightarrow> 'r GarnetNetwork \<Rightarrow> 'w \<Rightarrow> (nat \<times> 'w) res" where
  "GarnetNetwork_functionalWrite acc net w =
    bindR (write_all (Router_functionalWrite acc) (gn_routers net) (0, w)) (\<lambda>s1.
    bindR (write_all (ni_functionalWrite acc) (gn_nis net) s1)
      (write_all (write_link acc (gn_links net)) (gn_networklinks net)))"

end
