(* ===== verification/InterfaceChannels.thy ===== *)
theory InterfaceChannels
  imports NetworkInterface
begin

text \<open>
  The virtual channels of a network interface: the search for a free one, and what an output
  port sends from them.
\<close>

section \<open>The search for a virtual channel\<close>

definition vc_idle :: "tick \<Rightarrow> int \<Rightarrow> NetworkInterface \<Rightarrow> bool" where
  "vc_idle now vc ni = isInState IDLE now (ni_outVcState ni ! nat vc)"

text \<open>What the interface keeps of its channels: the allocator points into each virtual network.\<close>

definition ni_vcs_ok :: "NetworkInterface \<Rightarrow> bool" where
  "ni_vcs_ok ni \<longleftrightarrow> 0 < ni_vc_per_vnet ni \<and>
    length (ni_vc_allocator ni) = ni_virtual_networks ni \<and>
    length (ni_vc_busy_counter ni) = ni_virtual_networks ni \<and>
    length (ni_outVcState ni) = ni_vc_per_vnet ni * ni_virtual_networks ni \<and>
    (\<forall>d \<in> set (ni_vc_allocator ni). 0 \<le> d \<and> d < int (ni_vc_per_vnet ni))"

lemma vc_in_range:
  assumes "ni_vcs_ok ni" "0 \<le> vnet" "vnet < int (ni_virtual_networks ni)" "0 \<le> d" "d < int (ni_vc_per_vnet ni)"
  shows "0 \<le> vnet * int (ni_vc_per_vnet ni) + d"
    and "vnet * int (ni_vc_per_vnet ni) + d < int (length (ni_outVcState ni))"
proof -
  have "(vnet + 1) * int (ni_vc_per_vnet ni) \<le> int (ni_virtual_networks ni) * int (ni_vc_per_vnet ni)"
    using assms(3) by (intro mult_right_mono) auto
  then show "vnet * int (ni_vc_per_vnet ni) + d < int (length (ni_outVcState ni))"
    using assms(1,5) by (simp add: ni_vcs_ok_def algebra_simps)
  show "0 \<le> vnet * int (ni_vc_per_vnet ni) + d" using assms by simp
qed

text \<open>
  After \<open>k\<close> steps without success the channels at the offsets \<open>d, d + 1, \<dots>\<close> around the ring
  are all busy.
\<close>

definition calculate_post :: "nat \<Rightarrow> tick \<Rightarrow> int \<Rightarrow> NetworkInterface \<Rightarrow> int option \<Rightarrow> int list \<Rightarrow> bool" where
  "calculate_post k now vnet ni found busy =
    (let v = int (ni_vc_per_vnet ni) in
     case found of
       Some vc \<Rightarrow> vnet * v \<le> vc \<and> vc < (vnet + 1) * v \<and> vc_idle now vc ni \<and>
         busy = (ni_vc_busy_counter ni)[nat vnet := 0]
     | None \<Rightarrow> busy = ni_vc_busy_counter ni \<and>
         (\<forall>j < int k. 0 \<le> j \<longrightarrow> \<not> vc_idle now (vnet * v + (ni_vc_allocator ni ! nat vnet + j) mod v) ni))"

lemma calculate_loop_step:
  assumes "ni_vcs_ok ni" "0 \<le> vnet" "vnet < int (ni_virtual_networks ni)"
  defines "d \<equiv> ni_vc_allocator ni ! nat vnet"
  defines "vc \<equiv> vnet * int (ni_vc_per_vnet ni) + d"
    and "ni1 \<equiv> ni\<lparr>ni_vc_allocator := (ni_vc_allocator ni)
          [nat vnet := if d + 1 = int (ni_vc_per_vnet ni) then 0 else d + 1]\<rparr>"
  shows "calculate_loop (Suc k) now vnet ni =
      (if vc_idle now vc ni
       then Inr (Some vc, ni1\<lparr>ni_vc_busy_counter := (ni_vc_busy_counter ni)[nat vnet := 0]\<rparr>)
       else calculate_loop k now vnet ni1)"
    and "ni_vcs_ok ni1" and "0 \<le> d" and "d < int (ni_vc_per_vnet ni)"
proof -
  have len: "nat vnet < length (ni_vc_allocator ni)" "nat vnet < length (ni_vc_busy_counter ni)"
    using assms(1-3) by (auto simp: ni_vcs_ok_def)
  then have "d \<in> set (ni_vc_allocator ni)" by (simp add: d_def)
  with assms(1) show d: "0 \<le> d" "d < int (ni_vc_per_vnet ni)" by (auto simp: ni_vcs_ok_def)
  have "\<forall>x \<in> set (ni_vc_allocator ni1). 0 \<le> x \<and> x < int (ni_vc_per_vnet ni)"
    using assms(1) d by (auto simp: ni1_def ni_vcs_ok_def dest!: set_update_subset_insert [THEN subsetD])
  with assms(1) show "ni_vcs_ok ni1" by (simp add: ni_vcs_ok_def ni1_def)
  have range: "0 \<le> vc" "vc < int (length (ni_outVcState ni))"
    using vc_in_range [OF assms(1-3) d] by (simp_all add: vc_def)
  have "nthR (ni_vc_allocator ni) vnet = Inr d" using assms(2) len by (simp add: nthR_def d_def)
  moreover have "nthR (ni_outVcState ni) vc = Inr (ni_outVcState ni ! nat vc)" using range by (simp add: nthR_def)
  moreover have "setR (ni_vc_allocator ni) vnet x = Inr ((ni_vc_allocator ni)[nat vnet := x])" for x
    using assms(2) len by (simp add: setR_def)
  moreover have "setR (ni_vc_busy_counter ni) vnet 0 = Inr ((ni_vc_busy_counter ni)[nat vnet := 0])"
    using assms(2) len by (simp add: setR_def)
  ultimately show "calculate_loop (Suc k) now vnet ni =
      (if vc_idle now vc ni
       then Inr (Some vc, ni1\<lparr>ni_vc_busy_counter := (ni_vc_busy_counter ni)[nat vnet := 0]\<rparr>)
       else calculate_loop k now vnet ni1)"
    by (simp add: vc_idle_def Let_def ni1_def flip: vc_def)
qed

lemma ring_next: "((if d + 1 = v then 0 else d + 1) + j) mod v = (d + (j + 1)) mod v" for d j v :: int
proof (cases "d + 1 = v")
  case True
  then have "d + (j + 1) = j + v" by simp
  then have "(d + (j + 1)) mod v = j mod v" by (metis mod_add_self2)
  with True show ?thesis by simp
qed (simp add: algebra_simps)

lemma calculate_loop_cases:
  assumes "ni_vcs_ok ni" "0 \<le> vnet" "vnet < int (ni_virtual_networks ni)"
  shows "\<exists>found alloc busy.
    calculate_loop k now vnet ni = Inr (found, ni\<lparr>ni_vc_allocator := alloc, ni_vc_busy_counter := busy\<rparr>) \<and>
    ni_vcs_ok (ni\<lparr>ni_vc_allocator := alloc, ni_vc_busy_counter := busy\<rparr>) \<and>
    calculate_post k now vnet ni found busy"
  using assms
proof (induction k arbitrary: ni)
  case 0
  then show ?case
    by (intro exI [of _ None] exI [of _ "ni_vc_allocator ni"] exI [of _ "ni_vc_busy_counter ni"])
      (simp add: calculate_post_def)
next
  case (Suc k)
  let ?v = "int (ni_vc_per_vnet ni)" and ?d = "ni_vc_allocator ni ! nat vnet"
  let ?next = "if ?d + 1 = ?v then 0 else ?d + 1"
  let ?ni = "ni\<lparr>ni_vc_allocator := (ni_vc_allocator ni)[nat vnet := ?next]\<rparr>"
  note step = calculate_loop_step [OF Suc.prems]
  have at: "ni_vc_allocator ?ni ! nat vnet = ?next"
    using Suc.prems by (auto simp: ni_vcs_ok_def)
  show ?case
  proof (cases "vc_idle now (vnet * ?v + ?d) ni")
    case True
    have "ni_vcs_ok (?ni\<lparr>ni_vc_busy_counter := (ni_vc_busy_counter ni)[nat vnet := 0]\<rparr>)"
      using step(2) by (simp add: ni_vcs_ok_def)
    with True step(1,3,4) show ?thesis
      by (intro exI [of _ "Some (vnet * ?v + ?d)"] exI [of _ "(ni_vc_allocator ni)[nat vnet := ?next]"]
          exI [of _ "(ni_vc_busy_counter ni)[nat vnet := 0]"]) (simp add: calculate_post_def algebra_simps)
  next
    case False
    obtain found alloc busy where IH:
      "calculate_loop k now vnet ?ni = Inr (found, ni\<lparr>ni_vc_allocator := alloc, ni_vc_busy_counter := busy\<rparr>)"
      "ni_vcs_ok (ni\<lparr>ni_vc_allocator := alloc, ni_vc_busy_counter := busy\<rparr>)"
      "calculate_post k now vnet ?ni found busy"
      using Suc.IH [OF step(2)] Suc.prems by auto
    have same: "vc_idle now x ?ni = vc_idle now x ni" for x by (simp add: vc_idle_def)
    have "calculate_post (Suc k) now vnet ni found busy"
    proof (cases found)
      case (Some vc)
      with IH(3) show ?thesis by (simp add: calculate_post_def same Let_def)
    next
      case None
      have "\<not> vc_idle now (vnet * ?v + (?d + j) mod ?v) ni" if "j < int (Suc k)" "0 \<le> j" for j
      proof (cases "j = 0")
        case True
        with False step(3,4) show ?thesis by simp
      next
        case nz: False
        have "\<forall>j < int k. 0 \<le> j \<longrightarrow> \<not> vc_idle now (vnet * ?v + (?next + j) mod ?v) ni"
          using IH(3) None unfolding calculate_post_def at Let_def same by simp
        then have "\<not> vc_idle now (vnet * ?v + (?next + (j - 1)) mod ?v) ni" using nz that by auto
        then show ?thesis unfolding ring_next by simp
      qed
      with None IH(3) show ?thesis by (simp add: calculate_post_def Let_def)
    qed
    with False step(1) IH show ?thesis by auto
  qed
qed

text \<open>
  The interface takes a packet only onto a virtual channel of its virtual network that is
  free, and finds one whenever there is one, wherever the round robin stands. If there is none
  it counts one more busy cycle, and it panics with a deadlock exactly when the busy cycles in
  a row pass the threshold.
\<close>

theorem calculateVC_correct:
  assumes "ni_vcs_ok ni" "0 \<le> vnet" "vnet < int (ni_virtual_networks ni)"
  defines "channels \<equiv> {vnet * int (ni_vc_per_vnet ni)..<(vnet + 1) * int (ni_vc_per_vnet ni)}"
    and "busy \<equiv> ni_vc_busy_counter ni ! nat vnet + 1"
  shows "if \<exists>vc \<in> channels. vc_idle now vc ni
    then \<exists>vc \<in> channels. \<exists>ni'. calculateVC now vnet ni = Inr (vc, ni') \<and> vc_idle now vc ni \<and>
      ni_vcs_ok ni' \<and> ni_vc_busy_counter ni' ! nat vnet = 0
    else if busy \<le> ni_deadlock_threshold ni
    then \<exists>ni'. calculateVC now vnet ni = Inr (-1, ni') \<and> ni_vcs_ok ni' \<and> ni_vc_busy_counter ni' ! nat vnet = busy
    else calculateVC now vnet ni = Inl (Panic ''Possible network deadlock'')"
proof -
  let ?v = "int (ni_vc_per_vnet ni)" and ?d = "ni_vc_allocator ni ! nat vnet"
  obtain found alloc b where loop:
    "calculate_loop (ni_vc_per_vnet ni) now vnet ni = Inr (found, ni\<lparr>ni_vc_allocator := alloc, ni_vc_busy_counter := b\<rparr>)"
    "ni_vcs_ok (ni\<lparr>ni_vc_allocator := alloc, ni_vc_busy_counter := b\<rparr>)"
    "calculate_post (ni_vc_per_vnet ni) now vnet ni found b"
    using calculate_loop_cases [OF assms(1-3)] by blast
  have len: "nat vnet < length (ni_vc_busy_counter ni)" and v: "0 < ?v"
    and iv: "0 \<le> vnet" "vnet < int (length (ni_vc_busy_counter ni))"
    using assms(1-3) by (auto simp: ni_vcs_ok_def)
  show ?thesis
  proof (cases found)
    case (Some vc)
    with loop(3) have vc: "vc \<in> channels" "vc_idle now vc ni" and b: "b = (ni_vc_busy_counter ni)[nat vnet := 0]"
      by (auto simp: calculate_post_def channels_def Let_def)
    moreover have "calculateVC now vnet ni = Inr (vc, ni\<lparr>ni_vc_allocator := alloc, ni_vc_busy_counter := b\<rparr>)"
      using loop(1) Some by (simp add: calculateVC_def)
    ultimately show ?thesis using loop(2) len by auto
  next
    case None
    have none: "\<not> vc_idle now vc ni" if "vc \<in> channels" for vc
    proof -
      define j where "j = (vc - vnet * ?v - ?d) mod ?v"
      have "(?d + j) mod ?v = (vc - vnet * ?v) mod ?v" unfolding j_def by (simp add: mod_add_right_eq)
      also have "\<dots> = vc - vnet * ?v" using that by (intro mod_pos_pos_trivial) (auto simp: channels_def algebra_simps)
      finally have "vnet * ?v + (?d + j) mod ?v = vc" by simp
      moreover have "0 \<le> j" "j < ?v" using v by (simp_all add: j_def)
      ultimately show ?thesis using loop(3) None by (auto simp: calculate_post_def Let_def)
    qed
    have b: "b = ni_vc_busy_counter ni" using loop(3) None by (simp add: calculate_post_def Let_def)
    have "calculateVC now vnet ni = guardR (busy \<le> ni_deadlock_threshold ni) (Panic ''Possible network deadlock'')
        (Inr (-1, ni\<lparr>ni_vc_allocator := alloc, ni_vc_busy_counter := (ni_vc_busy_counter ni)[nat vnet := busy]\<rparr>))"
      using loop(1) None b iv by (simp add: calculateVC_def nthR_def setR_def busy_def)
    moreover have "ni_vcs_ok (ni\<lparr>ni_vc_allocator := alloc,
        ni_vc_busy_counter := (ni_vc_busy_counter ni)[nat vnet := busy]\<rparr>)"
      using loop(2) b by (simp add: ni_vcs_ok_def)
    ultimately show ?thesis using none len by (auto simp: guardR_def)
  qed
qed

section \<open>What an output port sends\<close>

text \<open>The flits an interface holds, by packet and place in the packet.\<close>

definition ni_keys :: "NetworkInterface \<Rightarrow> (int \<times> int) multiset" where
  "ni_keys ni = flit_keys (ni_trace_injection_queue ni)
    + sum_list (map (\<lambda>b. flit_keys (fb_buffer b)) (ni_niOutVcs ni))
    + sum_list (map (\<lambda>p. flit_keys (fb_buffer (op_outFlitQueue p))) (ni_outPorts ni))
    + sum_list (map (\<lambda>p. flit_keys (ip_stall_queue p @ fb_buffer (ip_outCreditQueue p))) (ni_inPorts ni))"

lemma getOutportForVnet_Some:
  "getOutportForVnet vnet ni = Some i \<Longrightarrow> i < length (ni_outPorts ni) \<and> op_isVnetSupported vnet (ni_outPorts ni ! i)"
  by (auto simp: getOutportForVnet_def find_Some_iff)

lemma ni_scheduleFlitE:
  assumes "ni_scheduleFlit now f (ni, links) = Inr (ni', links')"
  obtains i where "i < length (ni_outPorts ni)"
    "ni' = ni\<lparr>ni_outPorts := (ni_outPorts ni)[i := (ni_outPorts ni ! i)
        \<lparr>op_outFlitQueue := fb_insert f (op_outFlitQueue (ni_outPorts ni ! i))\<rparr>]\<rparr>"
    "links_keys links' = links_keys links"
proof (cases "getOutportForVnet (fl_vnet f) ni")
  case None
  with assms show thesis by (simp add: ni_scheduleFlit_def)
next
  case (Some i)
  with assms obtain ls where
    "modR links (op_outNetLink (ni_outPorts ni ! i))
       (\<lambda>l. Inr (link_scheduleEventAbsolute now (ni_clockEdge now 1 ni) l)) = Inr ls"
    "ni' = ni\<lparr>ni_outPorts := (ni_outPorts ni)[i := (ni_outPorts ni ! i)
        \<lparr>op_outFlitQueue := fb_insert f (op_outFlitQueue (ni_outPorts ni ! i))\<rparr>]\<rparr>" "links' = ls"
    unfolding ni_scheduleFlit_def by (auto simp: Let_def elim: bindR_InrE)
  with links_keys_schedule getOutportForVnet_Some [OF Some] that show thesis by blast
qed

lemma ni_keys_outPort:
  assumes "i < length (ni_outPorts ni)"
  shows "ni_keys (ni\<lparr>ni_outPorts := (ni_outPorts ni)[i := p]\<rparr>) + flit_keys (fb_buffer (op_outFlitQueue (ni_outPorts ni ! i)))
    = ni_keys ni + flit_keys (fb_buffer (op_outFlitQueue p))"
  using sum_list_update_add [OF assms, of "\<lambda>p. flit_keys (fb_buffer (op_outFlitQueue p))" p]
  by (simp add: ni_keys_def ac_simps)

lemma ni_scheduleFlit_keys:
  assumes "ni_scheduleFlit now f (ni, links) = Inr (ni', links')"
  shows "ni_keys ni' = ni_keys ni + flit_keys [f]" and "links_keys links' = links_keys links"
    and "ni_outVcState ni' = ni_outVcState ni" and "ni_niOutVcs ni' = ni_niOutVcs ni"
    and "length (ni_outPorts ni') = length (ni_outPorts ni)" and "ni_vc_per_vnet ni' = ni_vc_per_vnet ni"
proof -
  from assms obtain i where i: "i < length (ni_outPorts ni)"
    "ni' = ni\<lparr>ni_outPorts := (ni_outPorts ni)[i := (ni_outPorts ni ! i)
        \<lparr>op_outFlitQueue := fb_insert f (op_outFlitQueue (ni_outPorts ni ! i))\<rparr>]\<rparr>"
    "links_keys links' = links_keys links" by (rule ni_scheduleFlitE)
  show "ni_keys ni' = ni_keys ni + flit_keys [f]"
    using ni_keys_outPort [OF i(1), of "(ni_outPorts ni ! i)
        \<lparr>op_outFlitQueue := fb_insert f (op_outFlitQueue (ni_outPorts ni ! i))\<rparr>"]
    unfolding i(2) by (simp add: fb_insert_def ac_simps)
  show "links_keys links' = links_keys links" by (rule i(3))
qed (use assms in \<open>auto elim!: ni_scheduleFlitE\<close>)

abbreviation buffered :: "NetworkInterface \<Rightarrow> nat \<Rightarrow> nat" where
  "buffered ni vc \<equiv> length (fb_buffer (ni_niOutVcs ni ! vc))"

abbreviation credits :: "NetworkInterface \<Rightarrow> nat \<Rightarrow> int" where
  "credits ni vc \<equiv> ovc_credit_count (ni_outVcState ni ! vc)"

text \<open>The number of flits in all virtual channels of the interface.\<close>

definition waiting :: "NetworkInterface \<Rightarrow> nat" where
  "waiting ni = sum_list (map (\<lambda>b. length (fb_buffer b)) (ni_niOutVcs ni))"

text \<open>Every flit that leaves a channel has cost exactly one credit of that channel.\<close>

definition spends :: "NetworkInterface \<Rightarrow> NetworkInterface \<Rightarrow> bool" where
  "spends ni ni' \<longleftrightarrow> length (ni_outVcState ni') = length (ni_outVcState ni) \<and>
    length (ni_niOutVcs ni') = length (ni_niOutVcs ni) \<and> length (ni_outPorts ni') = length (ni_outPorts ni) \<and>
    (\<forall>vc < length (ni_niOutVcs ni). vc < length (ni_outVcState ni) \<longrightarrow>
      buffered ni' vc \<le> buffered ni vc \<and>
      credits ni vc - credits ni' vc = int (buffered ni vc) - int (buffered ni' vc) \<and>
      (0 \<le> credits ni vc \<longrightarrow> 0 \<le> credits ni' vc))"

lemma spends_refl: "spends ni ni"
  by (simp add: spends_def)

lemma spends_trans: "spends a b \<Longrightarrow> spends b c \<Longrightarrow> spends a c"
  unfolding spends_def by (auto 4 3 intro: order_trans)

lemma decrement_credit_Inr:
  "decrement_credit v = Inr v' \<Longrightarrow> ovc_credit_count v' = ovc_credit_count v - 1 \<and> 0 \<le> ovc_credit_count v'"
  by (auto simp: decrement_credit_def Let_def elim: guardR_InrE)

lemma send_vcE:
  assumes "send_vc now port vc (ni, links) = Inr (ni', links')"
  obtains v f b ni1 ts where "0 \<le> vc" "vc < int (length (ni_outVcState ni))" "vc < int (length (ni_niOutVcs ni))"
    "decrement_credit (ni_outVcState ni ! nat vc) = Inr v"
    "fb_getTopFlit (ni_niOutVcs ni ! nat vc) = Inr (f, b)"
    "ni_scheduleFlit now (f\<lparr>fl_time := ni_clockEdge now 1 ni\<rparr>)
        (ni\<lparr>ni_outPorts := (ni_outPorts ni)[port := (ni_outPorts ni ! port)\<lparr>op_vcRoundRobin := vc\<rparr>],
            ni_outVcState := (ni_outVcState ni)[nat vc := v], ni_niOutVcs := (ni_niOutVcs ni)[nat vc := b]\<rparr>, links)
      = Inr (ni1, links')"
    "ni' = ni1\<lparr>ni_out_vcs_enqueue_time := ts\<rparr>"
proof -
  from assms obtain states b0 f b bs ni1 ls where
    "modR (ni_outVcState ni) vc decrement_credit = Inr states" "nthR (ni_niOutVcs ni) vc = Inr b0"
    "fb_getTopFlit b0 = Inr (f, b)" "setR (ni_niOutVcs ni) vc b = Inr bs"
    and s: "ni_scheduleFlit now (f\<lparr>fl_time := ni_clockEdge now 1 ni\<rparr>)
        (ni\<lparr>ni_outPorts := (ni_outPorts ni)[port := (ni_outPorts ni ! port)\<lparr>op_vcRoundRobin := vc\<rparr>],
            ni_outVcState := states, ni_niOutVcs := bs\<rparr>, links) = Inr (ni1, ls)"
    and e: "(if is_tail f then bindR (setR (ni_out_vcs_enqueue_time ni1) vc INFINITE)
            (\<lambda>ts. Inr (ni1\<lparr>ni_out_vcs_enqueue_time := ts\<rparr>, ls)) else Inr (ni1, ls)) = Inr (ni', links')"
    unfolding send_vc_def by (elim bindR_InrE case_prod_InrE) auto
  moreover from e obtain ts where "ni' = ni1\<lparr>ni_out_vcs_enqueue_time := ts\<rparr>" "ls = links'"
  proof (elim if_InrE)
    assume "Inr (ni1, ls) = Inr (ni', links')"
    then show thesis using that [of "ni_out_vcs_enqueue_time ni1"] by simp
  qed (auto elim: bindR_InrE intro: that)
  ultimately show thesis using that by (auto simp: res_simps)
qed

lemma send_vc_spends:
  assumes "send_vc now port vc (ni, links) = Inr (ni', links')" "port < length (ni_outPorts ni)"
  shows "spends ni ni'" and "ni_keys ni' = ni_keys ni" and "links_keys links' = links_keys links"
    and "ni_vc_per_vnet ni' = ni_vc_per_vnet ni"
    and "waiting ni = waiting ni' + 1"
proof -
  from assms(1) obtain v f b ni1 ts where
    vc: "0 \<le> vc" "vc < int (length (ni_outVcState ni))" "vc < int (length (ni_niOutVcs ni))"
    and v: "decrement_credit (ni_outVcState ni ! nat vc) = Inr v"
    and top: "fb_getTopFlit (ni_niOutVcs ni ! nat vc) = Inr (f, b)"
    and s: "ni_scheduleFlit now (f\<lparr>fl_time := ni_clockEdge now 1 ni\<rparr>)
        (ni\<lparr>ni_outPorts := (ni_outPorts ni)[port := (ni_outPorts ni ! port)\<lparr>op_vcRoundRobin := vc\<rparr>],
            ni_outVcState := (ni_outVcState ni)[nat vc := v], ni_niOutVcs := (ni_niOutVcs ni)[nat vc := b]\<rparr>, links)
      = Inr (ni1, links')"
    and ni': "ni' = ni1\<lparr>ni_out_vcs_enqueue_time := ts\<rparr>" by (rule send_vcE)
  have b: "fb_buffer (ni_niOutVcs ni ! nat vc) = f # fb_buffer b"
    using top by (auto simp: fb_getTopFlit_def split: list.splits)
  have n: "nat vc < length (ni_niOutVcs ni)" using vc by simp
  note sk = ni_scheduleFlit_keys [OF s]
  show "links_keys links' = links_keys links" by (rule sk(2))
  show "ni_vc_per_vnet ni' = ni_vc_per_vnet ni" using sk(6) ni' by simp
  show "spends ni ni'"
    using sk(3,4,5) ni' decrement_credit_Inr [OF v] b vc
    by (auto simp: spends_def nth_list_update)
  show "waiting ni = waiting ni' + 1"
    using sum_list_update_add [OF n, of "\<lambda>b. length (fb_buffer b)" b] b sk(4) ni' by (simp add: waiting_def)
  have "sum_list (map (\<lambda>b. flit_keys (fb_buffer b)) ((ni_niOutVcs ni)[nat vc := b])) + flit_keys [f]
      = sum_list (map (\<lambda>b. flit_keys (fb_buffer b)) (ni_niOutVcs ni))"
    using sum_list_update_add [OF n, of "\<lambda>b. flit_keys (fb_buffer b)" b] flit_keys_Cons [of f "fb_buffer b"] b
    by (simp add: ac_simps)
  moreover have "sum_list (map (\<lambda>p. flit_keys (fb_buffer (op_outFlitQueue p)))
        ((ni_outPorts ni)[port := (ni_outPorts ni ! port)\<lparr>op_vcRoundRobin := vc\<rparr>]))
      = sum_list (map (\<lambda>p. flit_keys (fb_buffer (op_outFlitQueue p))) (ni_outPorts ni))"
    using assms(2) by (intro sum_list_update_same) simp_all
  ultimately show "ni_keys ni' = ni_keys ni"
    using sk(1) unfolding ni' ni_keys_def by (simp add: ac_simps)
qed

lemma output_port_loop_spends:
  assumes "output_port_loop k cfg now port vc (ni, links) = Inr (ni', links')" "port < length (ni_outPorts ni)"
  shows "spends ni ni' \<and> ni_keys ni' = ni_keys ni \<and> links_keys links' = links_keys links \<and>
    waiting ni \<le> waiting ni' + 1"
  using assms
proof (induction k arbitrary: vc)
  case 0
  then show ?case by (simp add: spends_refl)
next
  case (Suc k)
  let ?vc = "if vc + 1 = int (length (ni_niOutVcs ni)) then 0 else vc + 1"
  from Suc.prems(1) obtain ok where
    "(if ok then send_vc now port ?vc (ni, links) else output_port_loop k cfg now port ?vc (ni, links)) = Inr (ni', links')"
    by (auto simp: Let_def elim: bindR_InrE)
  then consider "send_vc now port ?vc (ni, links) = Inr (ni', links')"
    | "output_port_loop k cfg now port ?vc (ni, links) = Inr (ni', links')" by (elim if_InrE)
  then show ?case
  proof cases
    case 1
    from send_vc_spends [OF this Suc.prems(2)] show ?thesis by simp
  next
    case 2
    then show ?thesis by (rule Suc.IH [OF _ Suc.prems(2)])
  qed
qed


lemma output_ports_spend:
  assumes "foldR (scheduleOutputPort cfg now) ps (ni, links) = Inr (ni', links')"
    and "\<forall>p \<in> set ps. p < length (ni_outPorts ni)"
  shows "spends ni ni' \<and> ni_keys ni' = ni_keys ni \<and> links_keys links' = links_keys links \<and>
    waiting ni
      \<le> waiting ni' + length ps"
  using assms
proof (induction ps arbitrary: ni links)
  case Nil
  then show ?case by (simp add: spends_refl)
next
  case (Cons p ps)
  then obtain ni1 links1 where one: "scheduleOutputPort cfg now p (ni, links) = Inr (ni1, links1)"
    and rest: "foldR (scheduleOutputPort cfg now) ps (ni1, links1) = Inr (ni', links')"
    by (auto elim: bindR_InrE)
  from one have o: "spends ni ni1 \<and> ni_keys ni1 = ni_keys ni \<and> links_keys links1 = links_keys links \<and>
    waiting ni \<le> waiting ni1 + 1"
    unfolding scheduleOutputPort_def using Cons.prems(2) by (intro output_port_loop_spends) auto
  then have "\<forall>p \<in> set ps. p < length (ni_outPorts ni1)" using Cons.prems(2) by (simp add: spends_def)
  from Cons.IH [OF rest this] o show ?case by (auto intro: spends_trans)
qed

text \<open>
  C17: In a cycle the interface sends no more flits than it has output ports, in all, and no flit
  without a credit: what leaves a virtual channel is matched exactly by credits of that channel,
  which never go below zero; and no flit is lost or duplicated on the way from the channels to
  the queues of the output links.
\<close>

theorem output_links_spend_credits:
  assumes "scheduleOutputLink cfg now (ni, links) = Inr (ni', links')"
  shows "spends ni ni' \<and> ni_keys ni' = ni_keys ni \<and> links_keys links' = links_keys links \<and>
    waiting ni
      \<le> waiting ni' + length (ni_outPorts ni)"
  using output_ports_spend [of cfg now "[0..<length (ni_outPorts ni)]" ni links ni' links'] assms
  by (simp add: scheduleOutputLink_def)

text \<open>
  An interface with one output port (link 0, credit link 1) and one input port (link 2,
  credit link 3), two virtual networks of two channels, and message buffers of unlimited size.
\<close>

definition example_interface :: "(NetworkInterface \<times> NetworkLink list) res" where
  "example_interface =
    (let l = NetworkLink_new 0 1 2 [] 16 5; links = [l, l, l, l];
         ni0 = NetworkInterface_new 0 2 50000 5;
         mb = Some ((MessageBuffer_new 0 0 True Rand_disabled False)\<lparr>mb_consumer := Some (NI_consumer 0)\<rparr>)
     in bindR (ni_addInPort 2 3 (ni0, links)) (\<lambda>s1.
        bindR (ni_addOutPort example_config 0 1 0 2 s1) (\<lambda>(ni2, links2).
        bindR (addNode [None, None] [mb, mb] ni2) (\<lambda>ni3. Inr (ni3, links2)))))"

definition example_trace_flit :: "int \<Rightarrow> int \<Rightarrow> flit" where
  "example_trace_flit n vnet = flit_new n 0 (-1) vnet (RouteInfo_new []) 1 None 16 16 5"

definition example_loaded :: "(NetworkInterface \<times> NetworkLink list) res" where
  "example_loaded = bindR example_interface (\<lambda>(ni, links).
     bindR (injectTraceFlit 10 0 0 (ni\<lparr>ni_trace_injection_queue := [example_trace_flit 7 0]\<rparr>,
       GarnetStats_new 2 1 True (-1) False)) (\<lambda>(ni', gs). Inr (ni', links)))"

definition interface_summary :: "NetworkInterface \<Rightarrow> int list list" where
  "interface_summary ni = map (map fl_packet_id)
     (ni_trace_injection_queue ni # map fb_buffer (ni_niOutVcs ni)
      @ map (\<lambda>p. fb_buffer (op_outFlitQueue p)) (ni_outPorts ni) @ map ip_stall_queue (ni_inPorts ni))"

lemma output_links_spend_credits_witness:
  "\<exists>ni links ni' links'. example_loaded = Inr (ni, links) \<and>
    scheduleOutputLink example_config 10 (ni, links) = Inr (ni', links') \<and>
    interface_summary ni = [[], [7], [], [], [], [], []] \<and> interface_summary ni' = [[], [], [], [], [], [7], []] \<and>
    spends ni ni' \<and> ni_keys ni' = ni_keys ni"
proof -
  have "case example_loaded of Inl e \<Rightarrow> False | Inr (ni, links) \<Rightarrow>
      (case scheduleOutputLink example_config 10 (ni, links) of Inl e \<Rightarrow> False
       | Inr (ni', links') \<Rightarrow> interface_summary ni = [[], [7], [], [], [], [], []] \<and>
           interface_summary ni' = [[], [], [], [], [], [7], []])"
    by code_simp
  then obtain ni links ni' links' where "example_loaded = Inr (ni, links)"
      "scheduleOutputLink example_config 10 (ni, links) = Inr (ni', links')"
      "interface_summary ni = [[], [7], [], [], [], [], []]" "interface_summary ni' = [[], [], [], [], [], [7], []]"
    by (elim case_resE2) auto
  with output_links_spend_credits [OF this(2)] show ?thesis by blast
qed

lemma calculateVC_correct_witness:
  "\<exists>ni links vc ni'. example_loaded = Inr (ni, links) \<and> calculateVC 10 0 ni = Inr (vc, ni') \<and> vc_idle 10 vc ni"
proof -
  have "case example_loaded of Inl e \<Rightarrow> False | Inr (ni, links) \<Rightarrow>
      ni_vc_per_vnet ni = 2 \<and> ni_virtual_networks ni = 2 \<and> ni_vc_allocator ni = [0, 0] \<and>
      ni_vc_busy_counter ni = [0, 0] \<and> length (ni_outVcState ni) = 4 \<and> isInState IDLE 10 (ni_outVcState ni ! 1)"
    by code_simp
  then obtain ni links where ni: "example_loaded = Inr (ni, links)" "ni_vc_per_vnet ni = 2"
      "ni_virtual_networks ni = 2" "ni_vc_allocator ni = [0, 0]" "ni_vc_busy_counter ni = [0, 0]"
      "length (ni_outVcState ni) = 4" "isInState IDLE 10 (ni_outVcState ni ! 1)"
    by (auto split: sum.splits)
  then have ok: "ni_vcs_ok ni" by (simp add: ni_vcs_ok_def)
  have "\<exists>vc \<in> {0 * int (ni_vc_per_vnet ni)..<(0 + 1) * int (ni_vc_per_vnet ni)}. vc_idle 10 vc ni"
    using ni by (intro bexI [of _ 1]) (auto simp: vc_idle_def)
  then obtain vc ni' where "calculateVC 10 0 ni = Inr (vc, ni')" "vc_idle 10 vc ni"
    using calculateVC_correct [OF ok, of 0 10] ni(3) by auto
  with ni(1) show ?thesis by blast
qed

section \<open>Order on ordered virtual networks\<close>

lemma older_ready_False:
  assumes "older_ready now t vcs ni = Inr False" "vc \<in> set vcs" "fb_isReady now (ni_niOutVcs ni ! nat vc)"
  shows "t \<le> ni_out_vcs_enqueue_time ni ! nat vc"
  using assms
proof (induction vcs)
  case Nil
  then show ?case by simp
next
  case (Cons x vcs)
  from Cons.prems(1) have "older_ready now t vcs ni = Inr False"
    "fb_isReady now (ni_niOutVcs ni ! nat x) \<longrightarrow> t \<le> ni_out_vcs_enqueue_time ni ! nat x"
    by (auto simp: nthR_eq_Inr elim!: bindR_InrE split: if_splits)
  with Cons show ?case by auto
qed

text \<open>
  A virtual channel is chosen only with a flit that is due and a credit; on an ordered
  virtual network it is then the channel entered first of all those of the virtual network
  with a flit that is due, so packets of the network leave in the order they came.
\<close>

theorem candidate_vc_sends_oldest:
  assumes "candidate_vc cfg now p vc ni = Inr True"
  shows "fb_isReady now (ni_niOutVcs ni ! nat vc) \<and> 0 < credits ni (nat vc) \<and>
    (\<exists>vnet. ni_get_vnet vc ni = Inr vnet \<and> op_isVnetSupported vnet p \<and>
      (isVNetOrdered cfg vnet = Inr True \<longrightarrow>
        (\<forall>off \<ge> 0. off < int (ni_vc_per_vnet ni) \<longrightarrow>
          fb_isReady now (ni_niOutVcs ni ! nat (vnet * int (ni_vc_per_vnet ni) + off)) \<longrightarrow>
          ni_out_vcs_enqueue_time ni ! nat vc
            \<le> ni_out_vcs_enqueue_time ni ! nat (vnet * int (ni_vc_per_vnet ni) + off))))"
proof -
  from assms obtain vnet where vnet: "ni_get_vnet vc ni = Inr vnet" "op_isVnetSupported vnet p"
    and r: "fb_isReady now (ni_niOutVcs ni ! nat vc)" "has_credit (ni_outVcState ni ! nat vc)"
    and o: "bindR (isVNetOrdered cfg vnet) (\<lambda>ordered. if ordered then
          bindR (nthR (ni_out_vcs_enqueue_time ni) vc) (\<lambda>my_time.
          bindR (older_ready now my_time
              (map (\<lambda>off. vnet * int (ni_vc_per_vnet ni) + off) (upto_int (ni_vc_per_vnet ni))) ni)
            (\<lambda>older. Inr (\<not> older))) else Inr True) = Inr True"
    unfolding candidate_vc_def by (auto simp: nthR_eq_Inr elim!: bindR_InrE split: if_splits)
  have "ni_out_vcs_enqueue_time ni ! nat vc \<le> ni_out_vcs_enqueue_time ni ! nat (vnet * int (ni_vc_per_vnet ni) + off)"
    if "isVNetOrdered cfg vnet = Inr True" "0 \<le> off" "off < int (ni_vc_per_vnet ni)"
      "fb_isReady now (ni_niOutVcs ni ! nat (vnet * int (ni_vc_per_vnet ni) + off))" for off
  proof -
    from o that(1) have "older_ready now (ni_out_vcs_enqueue_time ni ! nat vc)
        (map (\<lambda>off. vnet * int (ni_vc_per_vnet ni) + off) (upto_int (ni_vc_per_vnet ni))) ni = Inr False"
      by (auto simp: nthR_eq_Inr elim!: bindR_InrE)
    from older_ready_False [OF this _ that(4)] that(2,3) show ?thesis by auto
  qed
  with r vnet show ?thesis by (auto simp: has_credit_def)
qed

lemma candidate_vc_sends_oldest_witness:
  "\<exists>ni links. example_loaded = Inr (ni, links) \<and> candidate_vc example_config 10 (ni_outPorts ni ! 0) 0 ni = Inr True \<and>
    0 < credits ni 0"
proof -
  have "case example_loaded of Inl e \<Rightarrow> False | Inr (ni, links) \<Rightarrow>
      (case candidate_vc example_config 10 (ni_outPorts ni ! 0) 0 ni of Inl e \<Rightarrow> False | Inr b \<Rightarrow> b)"
    by code_simp
  then obtain ni links where "example_loaded = Inr (ni, links)"
      "candidate_vc example_config 10 (ni_outPorts ni ! 0) 0 ni = Inr True"
    by (auto split: sum.splits)
  with candidate_vc_sends_oldest [OF this(2)] show ?thesis by auto
qed

end
