(* ===== verification/InterfaceTrace.thy ===== *)
theory InterfaceTrace
  imports InterfaceChannels
begin

text \<open>
  How a network interface turns the records of a trace into packets: the destination sets, the
  round robin over the records of one time stamp, and the injection into a virtual channel.
\<close>

section \<open>The destination of a record\<close>

lemma nd_clear_ok:
  assumes "nd_ok mt d"
  shows "nd_ok mt (nd_clear d) \<and> nd_abs (nd_clear d) = {}"
proof -
  have empty: "rset_abs (set_clear s) = {}" for s by (auto simp: rset_abs_def set_clear_def)
  have "rset_ok b n (set_clear s)" if "rset_ok b n s" for b n s
    using that by (simp add: rset_ok_def empty) (simp add: set_clear_def)
  with assms show ?thesis by (auto simp: nd_clear_def nd_ok_def nd_abs_def empty)
qed

text \<open>
  C36: The destination set a trace record gets names exactly the machine with the node number
  of the record.
\<close>

theorem trace_destination_exact:
  assumes "machine_ok mt" and "(m, i) \<in> nd_legal mt"
  shows "\<exists>d. trace_net_dest mt (mt_base_number mt m + i) = Inr d \<and> nd_ok mt d \<and> nd_abs d = {(m, i)} \<and>
    nd_getAllDest mt d = [mt_base_number mt m + i]"
proof -
  obtain d where d: "nd_new mt = Inr d" "nd_ok mt d" using nd_new_ok [OF assms(1)] by blast
  from nd.add_ok [OF conjunct1 [OF nd_clear_ok [OF d(2)]] assms(2)] nd_clear_ok [OF d(2)]
  obtain d' where d': "nd_add mt (m, i) (nd_clear d) = Inr d'" "nd_ok mt d'" "nd_abs d' = {(m, i)}" by auto
  have "trace_net_dest mt (mt_base_number mt m + i) = Inr d'"
    using d(1) d'(1) dest_machine_base [OF assms] by (simp add: trace_net_dest_def)
  moreover have "nd_getAllDest mt d' = [mt_base_number mt m + i]"
  proof -
    have s: "set (nd_getAllDest mt d') = {mt_base_number mt m + i}" using set_getAllDest [OF d'(2)] d'(3) by simp
    have "sorted_wrt (<) (nd_getAllDest mt d')" by (rule sorted_getAllDest [OF d'(2)])
    then have "distinct (nd_getAllDest mt d')" "sorted (nd_getAllDest mt d')" by (simp_all add: strict_sorted_iff)
    with s show ?thesis using sorted_distinct_set_unique [of "nd_getAllDest mt d'" "[mt_base_number mt m + i]"] by simp
  qed
  ultimately show ?thesis using d' by blast
qed

lemma trace_destination_exact_witness:
  "\<exists>d. trace_net_dest example_machines 4 = Inr d \<and> nd_abs d = {(1, 1)} \<and> nd_getAllDest example_machines d = [4]"
proof -
  have "(1, 1) \<in> nd_legal example_machines" by (simp add: nd_legal_def example_machines_def)
  from trace_destination_exact [OF example_machines_ok this] show ?thesis by (auto simp: example_machines_def)
qed

section \<open>Round robin over the records\<close>

text \<open>The reference: round \<open>i\<close> takes one flit from every record that has more than \<open>i\<close>.\<close>

definition round_robin :: "nat \<Rightarrow> (NetworkTraceRecord \<times> RouteInfo) list \<Rightarrow> (int \<times> RouteInfo) list" where
  "round_robin rounds rrs = concat (map (\<lambda>i.
      map (\<lambda>(rec, route). (tr_vnet rec, route\<lparr>ri_last_flit := (i = tr_num_flits rec - 1)\<rparr>))
        (filter (\<lambda>(rec, _). i < tr_num_flits rec) rrs)) (upto_int rounds))"

definition rounds_of :: "(NetworkTraceRecord \<times> RouteInfo) list \<Rightarrow> nat" where
  "rounds_of rrs = nat (fold (\<lambda>(rec, _) m. if tr_num_flits rec > m then tr_num_flits rec else m) rrs 0)"

definition single_flit :: "tick \<Rightarrow> int \<Rightarrow> int \<Rightarrow> int \<times> RouteInfo \<Rightarrow> flit" where
  "single_flit now width packet_id = (\<lambda>(vnet, route).
    (flit_new packet_id 0 (-1) vnet route 1 None width width now)\<lparr>fl_enqueue_time := now\<rparr>)"

fun number_flits :: "tick \<Rightarrow> int \<Rightarrow> int \<Rightarrow> (int \<times> RouteInfo) list \<Rightarrow> flit list" where
  "number_flits now width k [] = []"
| "number_flits now width k (x # xs) = single_flit now width k x # number_flits now width (k + 1) xs"

lemma number_flits_append:
  "number_flits now width k (xs @ ys) = number_flits now width k xs @ number_flits now width (k + int (length xs)) ys"
  by (induction xs arbitrary: k) (simp_all add: algebra_simps)

lemma number_flits_props:
  "length (number_flits now width k xs) = length xs"
  "map fl_packet_id (number_flits now width k xs) = map (\<lambda>j. k + j) (upto_int (length xs))"
  "map fl_route (number_flits now width k xs) = map snd xs"
  "\<forall>f \<in> set (number_flits now width k xs). fl_type f = HEAD_TAIL \<and> fl_id f = 0 \<and> fl_credit f = None \<and>
     fl_msg_ptr f = None \<and> fl_enqueue_time f = now \<and> fl_width f = width"
proof -
  show "length (number_flits now width k xs) = length xs" by (induction xs arbitrary: k) simp_all
  show "map fl_packet_id (number_flits now width k xs) = map (\<lambda>j. k + j) (upto_int (length xs))"
  proof (induction xs arbitrary: k)
    case (Cons x xs)
    have "upto_int (Suc (length xs)) = 0 # map (\<lambda>j. 1 + j) (upto_int (length xs))"
      using upto_int_add [of 1 "length xs"] by (simp add: upto_int_def)
    with Cons show ?case by (cases x) (simp add: single_flit_def flit_new_def algebra_simps)
  qed simp
  show "map fl_route (number_flits now width k xs) = map snd xs"
    by (induction xs arbitrary: k) (auto simp: single_flit_def flit_new_def)
  show "\<forall>f \<in> set (number_flits now width k xs). fl_type f = HEAD_TAIL \<and> fl_id f = 0 \<and> fl_credit f = None \<and>
     fl_msg_ptr f = None \<and> fl_enqueue_time f = now \<and> fl_width f = width"
    by (induction xs arbitrary: k) (auto simp: single_flit_def flit_new_def flit_type_of_def)
qed

text \<open>One round appends the flits of the round, numbered on.\<close>

lemma trace_round:
  "fold (trace_flit now width i) rrs (fls, gs) =
    (let items = map (\<lambda>(rec, route). (tr_vnet rec, route\<lparr>ri_last_flit := (i = tr_num_flits rec - 1)\<rparr>))
        (filter (\<lambda>(rec, _). i < tr_num_flits rec) rrs) in
     (fls @ number_flits now width (gs_next_packet_id gs) items,
      gs\<lparr>gs_next_packet_id := gs_next_packet_id gs + int (length items)\<rparr>))"
proof (induction rrs arbitrary: fls gs)
  case Nil
  then show ?case by simp
next
  case (Cons x rrs)
  obtain rec route where x: "x = (rec, route)" by (cases x)
  show ?case
  proof (cases "i < tr_num_flits rec")
    case True
    with x Cons.IH show ?thesis
      by (simp add: trace_flit_def getNextPacketID_def single_flit_def Let_def algebra_simps)
  next
    case False
    with x Cons.IH show ?thesis by (simp add: trace_flit_def Let_def)
  qed
qed

lemma trace_flits_shape:
  "trace_flits now width rrs (fls, gs) =
    (let items = round_robin (rounds_of rrs) rrs in
     (fls @ number_flits now width (gs_next_packet_id gs) items,
      gs\<lparr>gs_next_packet_id := gs_next_packet_id gs + int (length items)\<rparr>))"
proof -
  have "fold (\<lambda>i. fold (trace_flit now width i) rrs) (upto_int n) (fls, gs) =
    (let items = round_robin n rrs in
     (fls @ number_flits now width (gs_next_packet_id gs) items,
      gs\<lparr>gs_next_packet_id := gs_next_packet_id gs + int (length items)\<rparr>))" for n
  proof (induction n)
    case 0
    then show ?case by (simp add: round_robin_def)
  next
    case (Suc n)
    have "round_robin (Suc n) rrs = round_robin n rrs @
        map (\<lambda>(rec, route). (tr_vnet rec, route\<lparr>ri_last_flit := (int n = tr_num_flits rec - 1)\<rparr>))
          (filter (\<lambda>(rec, _). int n < tr_num_flits rec) rrs)"
      by (simp add: round_robin_def upto_int_Suc)
    with Suc show ?case
      by (simp add: upto_int_Suc trace_round Let_def number_flits_append algebra_simps)
  qed
  then show ?thesis by (simp add: trace_flits_def rounds_of_def)
qed

text \<open>
  The two nested loops over rounds and records produce exactly the round robin of the
  reference definition, as single-flit packets with consecutive numbers.
\<close>

theorem trace_flits_round_robin:
  "trace_flits now width rrs (fls, gs) =
    (let items = round_robin (rounds_of rrs) rrs in
     (fls @ number_flits now width (gs_next_packet_id gs) items,
      gs\<lparr>gs_next_packet_id := gs_next_packet_id gs + int (length items)\<rparr>))"
  by (rule trace_flits_shape)

section \<open>What a transfer leaves in the queue\<close>

lemma filter_count_min:
  "length (filter (\<lambda>x. int n < g x) xs) + sum_list (map (\<lambda>x. min n (nat (g x))) xs)
    = sum_list (map (\<lambda>x. min (Suc n) (nat (g x))) xs)"
  by (induction xs) auto

lemma length_round_robin:
  "length (round_robin n rrs) = sum_list (map (\<lambda>x. min n (nat (tr_num_flits (fst x)))) rrs)"
proof (induction n)
  case 0
  then show ?case by (simp add: round_robin_def)
next
  case (Suc n)
  have "length (round_robin (Suc n) rrs) = length (round_robin n rrs) + length (filter (\<lambda>x. int n < tr_num_flits (fst x)) rrs)"
    by (simp add: round_robin_def upto_int_Suc case_prod_unfold)
  with Suc filter_count_min [of n "\<lambda>x. tr_num_flits (fst x)" rrs] show ?case by simp
qed

lemma rounds_of_bound:
  "x \<in> set rrs \<Longrightarrow> nat (tr_num_flits (fst x)) \<le> rounds_of rrs"
proof -
  let ?f = "\<lambda>(rec, _) m. if tr_num_flits rec > m then tr_num_flits rec else m"
  have "m \<le> fold ?f rrs m \<and> (\<forall>x \<in> set rrs. tr_num_flits (fst x) \<le> fold ?f rrs m)" for m
  proof (induction rrs arbitrary: m)
    case (Cons y rrs)
    have step: "fold ?f (y # rrs) m = fold ?f rrs (?f y m)" by simp
    have "m \<le> ?f y m \<and> tr_num_flits (fst y) \<le> ?f y m" by (cases y) auto
    with Cons [of "?f y m"] show ?case unfolding step by fastforce
  qed simp
  then show "x \<in> set rrs \<Longrightarrow> nat (tr_num_flits (fst x)) \<le> rounds_of rrs"
    unfolding rounds_of_def by (auto intro!: nat_mono)
qed

lemma round_robin_counts:
  "length (round_robin (rounds_of rrs) rrs) = sum_list (map (\<lambda>x. nat (tr_num_flits (fst x))) rrs)"
proof -
  have "min (rounds_of rrs) (nat (tr_num_flits (fst x))) = nat (tr_num_flits (fst x))" if "x \<in> set rrs" for x
    using rounds_of_bound [OF that] by simp
  then show ?thesis by (simp add: length_round_robin cong: map_cong)
qed

text \<open>A flit carries what the record says of it.\<close>

definition carries :: "NetworkTraceRecord \<Rightarrow> NetworkInterface \<Rightarrow> flit \<Rightarrow> bool" where
  "carries rec ni f \<longleftrightarrow> fl_vnet f = tr_vnet rec \<and> ri_vnet (fl_route f) = tr_vnet rec \<and>
    ri_src_ni (fl_route f) = int (ni_id ni) \<and> ri_dest_ni (fl_route f) = int (node_id (tr_dest_id rec)) \<and>
    ri_hops_traversed (fl_route f) = -1 \<and> ri_network_idx (fl_route f) = tr_network_idx rec \<and>
    ri_input_idx (fl_route f) = tr_input_idx rec \<and> ri_phase_id (fl_route f) = tr_phase_id rec"

lemma trace_routes:
  assumes "foldR (\<lambda>rec rrs. bindR (trace_route mt router_of oPort ni rec) (\<lambda>route. Inr (rrs @ [(rec, route)]))) recs acc = Inr rrs"
    and "\<forall>(rec, route) \<in> set acc. trace_route mt router_of oPort ni rec = Inr route"
  shows "map fst rrs = map fst acc @ recs \<and> (\<forall>(rec, route) \<in> set rrs. trace_route mt router_of oPort ni rec = Inr route)"
  using assms
proof (induction recs arbitrary: acc)
  case Nil
  then show ?case by simp
next
  case (Cons r recs)
  from Cons.prems(1) obtain route where r: "trace_route mt router_of oPort ni r = Inr route"
    and rest: "foldR (\<lambda>rec rrs. bindR (trace_route mt router_of oPort ni rec) (\<lambda>route. Inr (rrs @ [(rec, route)])))
      recs (acc @ [(r, route)]) = Inr rrs"
    by (auto elim!: bindR_InrE)
  from Cons.IH [OF rest] Cons.prems(2) r show ?case by auto
qed

lemma trace_route_carries:
  assumes "trace_route mt router_of oPort ni rec = Inr route"
    and "fl_vnet f = tr_vnet rec" "fl_route f = route\<lparr>ri_last_flit := b\<rparr>"
  shows "carries rec ni f"
  using assms by (auto simp: trace_route_def carries_def Let_def elim!: bindR_InrE)

text \<open>
  The turns of the rounds: in round \<open>i\<close> every record with more than \<open>i\<close> flits has one, in the
  order of the records. A turn is the round and the index of the record.
\<close>

definition rounds_turns :: "nat \<Rightarrow> NetworkTraceRecord list \<Rightarrow> (nat \<times> nat) list" where
  "rounds_turns n recs = concat (map (\<lambda>i. map (Pair i)
      (filter (\<lambda>k. int i < tr_num_flits (recs ! k)) [0..<length recs])) [0..<n])"

definition turns :: "nat \<Rightarrow> NetworkTraceRecord list \<Rightarrow> nat list" where
  "turns n recs = concat (map (\<lambda>i.
      filter (\<lambda>k. int i < tr_num_flits (recs ! k)) [0..<length recs]) [0..<n])"

lemma turns_snd: "turns n recs = map snd (rounds_turns n recs)"
  by (simp add: turns_def rounds_turns_def map_concat comp_def)

lemma filter_map_nth: "filter P xs = map ((!) xs) (filter (\<lambda>k. P (xs ! k)) [0..<length xs])"
  by (metis (mono_tags, lifting) comp_def filter_cong filter_map map_nth)

lemma round_robin_turns:
  "round_robin n rrs = map (\<lambda>(i, k). (tr_vnet (fst (rrs ! k)),
      (snd (rrs ! k))\<lparr>ri_last_flit := (int i = tr_num_flits (fst (rrs ! k)) - 1)\<rparr>))
    (rounds_turns n (map fst rrs))"
proof -
  have "filter (\<lambda>(rec, _). int i < tr_num_flits rec) rrs =
      map ((!) rrs) (filter (\<lambda>k. int i < tr_num_flits (map fst rrs ! k)) [0..<length rrs])" for i
    by (subst filter_map_nth) (auto simp: case_prod_unfold intro!: map_cong filter_cong)
  then show ?thesis
    by (simp add: round_robin_def rounds_turns_def upto_int_def map_concat comp_def case_prod_unfold)
qed

lemma rounds_turns_set:
  "set (rounds_turns n recs) = {(i, k). i < n \<and> k < length recs \<and> int i < tr_num_flits (recs ! k)}"
  by (auto simp: rounds_turns_def)

lemma rounds_turns_sorted:
  "sorted_wrt (\<lambda>p q. fst p < fst q \<or> fst p = fst q \<and> snd p < snd q) (rounds_turns n recs)"
proof (induction n)
  case (Suc n)
  have "rounds_turns (Suc n) recs = rounds_turns n recs @
      map (Pair n) (filter (\<lambda>k. int n < tr_num_flits (recs ! k)) [0..<length recs])"
    by (simp add: rounds_turns_def)
  with Suc rounds_turns_set [of n recs] show ?case
    by (auto simp: sorted_wrt_append sorted_wrt_map intro: sorted_wrt_filter)
qed (simp add: rounds_turns_def)

text \<open>A turn is the last of its record when it is the turn of the record's last flit.\<close>

lemma rounds_turns_last:
  assumes "\<forall>r \<in> set recs. tr_num_flits r \<le> int n" and "j < length (rounds_turns n recs)"
    and "rounds_turns n recs ! j = (i, k)"
  shows "int i = tr_num_flits (recs ! k) - 1 \<longleftrightarrow> k \<notin> set (drop (Suc j) (turns n recs))"
proof -
  let ?ts = "rounds_turns n recs"
  let ?less = "\<lambda>p q :: nat \<times> nat. fst p < fst q \<or> fst p = fst q \<and> snd p < snd q"
  have ik: "k < length recs" "int i < tr_num_flits (recs ! k)"
    using nth_mem [OF assms(2)] assms(3) rounds_turns_set [of n recs] by auto
  have later: "set (drop (Suc j) ?ts) = {q \<in> set ?ts. ?less (i, k) q}"
  proof -
    have "?ts = take j ?ts @ (i, k) # drop (Suc j) ?ts"
      using id_take_nth_drop [OF assms(2)] assms(3) by simp
    moreover from this rounds_turns_sorted [of n recs]
    have s: "sorted_wrt ?less (take j ?ts @ (i, k) # drop (Suc j) ?ts)" by simp
    ultimately have "set ?ts = set (take j ?ts) \<union> {(i, k)} \<union> set (drop (Suc j) ?ts)"
      by (metis Un_insert_right list.simps(15) set_append sup_bot.right_neutral Un_insert_left)
    moreover have "\<forall>q \<in> set (drop (Suc j) ?ts). ?less (i, k) q" "\<forall>q \<in> set (take j ?ts). ?less q (i, k)"
      using s by (auto simp: sorted_wrt_append)
    ultimately show ?thesis by fastforce
  qed
  have "k \<in> set (drop (Suc j) (turns n recs)) \<longleftrightarrow> (\<exists>i'. (i', k) \<in> set (drop (Suc j) ?ts))"
    by (force simp: turns_snd drop_map)
  also have "\<dots> \<longleftrightarrow> (\<exists>i' > i. i' < n \<and> int i' < tr_num_flits (recs ! k))"
    using ik(1) by (auto simp: later rounds_turns_set)
  also have "\<dots> \<longleftrightarrow> int i + 1 < tr_num_flits (recs ! k)"
  proof
    assume "int i + 1 < tr_num_flits (recs ! k)"
    moreover have "tr_num_flits (recs ! k) \<le> int n" using assms(1) nth_mem [OF ik(1)] by blast
    ultimately show "\<exists>i' > i. i' < n \<and> int i' < tr_num_flits (recs ! k)"
      by (intro exI [of _ "Suc i"]) auto
  qed auto
  finally show ?thesis using ik(2) by auto
qed

text \<open>Each record has as many turns as flits.\<close>

lemma turns_count:
  assumes "tr_num_flits (recs ! k) \<le> int n" and "k < length recs"
  shows "length (filter ((=) k) (turns n recs)) = nat (tr_num_flits (recs ! k))"
proof -
  have "length (filter ((=) k) (turns m recs)) = min m (nat (tr_num_flits (recs ! k)))" for m
  proof (induction m)
    case (Suc m)
    have "length (filter (\<lambda>x. int m < tr_num_flits (recs ! x) \<and> k = x) [0..<length recs]) =
        (if int m < tr_num_flits (recs ! k) then 1 else 0)"
    proof -
      have "filter (\<lambda>x. int m < tr_num_flits (recs ! x) \<and> k = x) [0..<length recs] =
        (if int m < tr_num_flits (recs ! k) then [k] else [])"
      proof -
        have "filter ((=) k) [0..<l] = (if k < l then [k] else [])" for l by (induction l) auto
        then have "filter ((=) k) [0..<length recs] = [k]" using assms(2) by simp
        moreover have "filter (\<lambda>x. int m < tr_num_flits (recs ! x) \<and> k = x) [0..<length recs] =
            filter (\<lambda>x. int m < tr_num_flits (recs ! x)) (filter ((=) k) [0..<length recs])"
          by (simp add: conj_commute)
        ultimately show ?thesis by simp
      qed
      then show ?thesis by simp
    qed
    with Suc show ?case by (simp add: turns_def)
  qed (simp add: turns_def)
  with assms(1) show ?thesis by simp
qed

lemma number_flits_nth:
  "j < length xs \<Longrightarrow> number_flits now width k xs ! j = single_flit now width (k + int j) (xs ! j)"
  by (induction xs arbitrary: k j) (auto simp: nth_Cons algebra_simps split: nat.splits)

text \<open>Two records of time 7 and one of time 9 in the queue of the example interface.\<close>

definition example_record :: "cycles \<Rightarrow> int \<Rightarrow> int \<Rightarrow> int \<Rightarrow> NetworkTraceRecord" where
  "example_record t dest vnet flits =
    no_trace_packet\<lparr>tr_valid := True, tr_time := t, tr_src_id := 0, tr_dest_id := dest, tr_vnet := vnet, tr_num_flits := flits\<rparr>"

definition example_records :: "NetworkTraceRecord list" where
  "example_records = [example_record 7 4 0 2, example_record 7 1 1 1, example_record 9 2 0 1]"

definition example_transfer :: "NetworkTraceRecord list \<Rightarrow> int \<Rightarrow> (NetworkInterface \<times> (NetworkInterface \<times> GarnetStats)) res" where
  "example_transfer recs stray = bindR example_interface (\<lambda>(ni, links).
     let ni1 = ni\<lparr>ni_trace_record_queue := recs\<rparr> in
     bindR (transferTraceRecordsToInjectionQueue example_machines (\<lambda>_ _. Inr 0) stray 35
       (ni1, GarnetStats_new 2 1 True (-1) False)) (\<lambda>r. Inr (ni1, r)))"


section \<open>The last records of a trace\<close>

text \<open>
  C38: When the records of the first time stamp are all that is in the queue, the output port is
  not chosen by the records at all but by what lies behind them in memory: if no port serves
  the virtual network found there the assertion fails, although every record may have its port.
\<close>

theorem transfer_reads_past_queue:
  assumes "ni_trace_record_queue ni \<noteq> []"
    and "\<forall>r \<in> set (ni_trace_record_queue ni). tr_time r = tr_time (hd (ni_trace_record_queue ni))"
    and "\<forall>p \<in> set (ni_outPorts ni). \<not> op_isVnetSupported stray p"
  shows "transferTraceRecordsToInjectionQueue mt router_of stray now (ni, gs) = Inl (Assert_failed ''oPort'')"
proof -
  from assms(1) obtain first others where q: "ni_trace_record_queue ni = first # others"
    by (cases "ni_trace_record_queue ni") auto
  have rest: "dropWhile (\<lambda>r. tr_time r = tr_time first) (first # others) = []"
    using assms(2) by (simp add: q)
  have "getOutportForVnet stray ni = None"
    using assms(3) by (auto simp: getOutportForVnet_def find_None_iff)
  with rest q show ?thesis
    by (simp only: transferTraceRecordsToInjectionQueue_def front_vnet_def Let_def prod.case list.case option.case)
qed

definition narrow_interface :: NetworkInterface where
  "narrow_interface = (NetworkInterface_new 0 2 50000 5)
    \<lparr>ni_outPorts := [OutputPort_new (NetworkLink_new 0 1 2 [0] 16 5) 0 1 0], ni_trace_record_queue := [example_record 7 4 0 2]\<rparr>"

lemma transfer_reads_past_queue_witness:
  "getOutportForVnet 0 narrow_interface = Some 0 \<and>
    transferTraceRecordsToInjectionQueue example_machines (\<lambda>_ _. Inr 0) 1 35
      (narrow_interface, GarnetStats_new 2 1 True (-1) False) = Inl (Assert_failed ''oPort'')"
proof
  show "getOutportForVnet 0 narrow_interface = Some 0" by code_simp
  show "transferTraceRecordsToInjectionQueue example_machines (\<lambda>_ _. Inr 0) 1 35
      (narrow_interface, GarnetStats_new 2 1 True (-1) False) = Inl (Assert_failed ''oPort'')"
    by (rule transfer_reads_past_queue)
      (simp_all add: narrow_interface_def OutputPort_new_def NetworkLink_new_def op_isVnetSupported_def)
qed

end
