(* ===== verification/LinkData.thy ===== *)
theory LinkData
  imports NetworkLink
begin

text \<open>
  What is on a link: flits of packets, or credits. The same class of objects stands for both in the
  code, so that only the wiring keeps them apart. Also what it means that objects are only taken from
  the links.
\<close>

section \<open>Lists\<close>

lemma all_update:
  assumes "\<forall>x \<in> set xs. Q x" "Q y"
  shows "\<forall>x \<in> set (xs[i := y]). Q x"
  using assms set_update_subset_insert [of xs i y] by blast

definition all_data :: "flit list \<Rightarrow> bool" where
  "all_data fs \<longleftrightarrow> (\<forall>f \<in> set fs. fl_credit f = None)"

lemma all_data_simps [simp]:
  "all_data []" "all_data (f # fs) \<longleftrightarrow> fl_credit f = None \<and> all_data fs" "all_data (fs @ gs) \<longleftrightarrow> all_data fs \<and> all_data gs"
  by (auto simp: all_data_def)

section \<open>Taking from links\<close>

text \<open>How many flits and credits are on the links, and how many credits.\<close>

definition on_links :: "NetworkLink list \<Rightarrow> nat" where
  "on_links links = sum_list (map (\<lambda>l. length (link_flits l)) links)"

definition credits_on :: "NetworkLink list \<Rightarrow> nat" where
  "credits_on links = sum_list (map (\<lambda>l. length (filter (\<lambda>f. fl_credit f \<noteq> None) (link_flits l))) links)"

text \<open>The links after something was taken from them.\<close>

definition drained :: "NetworkLink list \<Rightarrow> NetworkLink list \<Rightarrow> bool" where
  "drained links links' \<longleftrightarrow> map lk_srcQueue links' = map lk_srcQueue links \<and>
    (\<forall>i < length links. set (link_flits (links' ! i)) \<subseteq> set (link_flits (links ! i)))"

definition same_links :: "NetworkLink list \<Rightarrow> NetworkLink list \<Rightarrow> bool" where
  "same_links links links' \<longleftrightarrow> map link_flits links' = map link_flits links \<and> map lk_srcQueue links' = map lk_srcQueue links"

lemma same_links_eqs:
  assumes "same_links links links'"
  shows "drained links links'" "on_links links' = on_links links" "links_keys links' = links_keys links"
    "credits_on links' = credits_on links"
proof -
  have m: "map link_flits links' = map link_flits links" and l: "length links' = length links"
    using assms map_eq_imp_length_eq unfolding same_links_def by blast+
  have "link_flits (links' ! i) = link_flits (links ! i)" if "i < length links" for i
    using m l that by (metis nth_map)
  then show "drained links links'" using assms by (simp add: drained_def same_links_def)
  have "on_links ls = sum_list (map length (map link_flits ls))" "links_keys ls = sum_list (map flit_keys (map link_flits ls))"
    "credits_on ls = sum_list (map (\<lambda>fs. length (filter (\<lambda>f. fl_credit f \<noteq> None) fs)) (map link_flits ls))" for ls
    by (simp_all add: on_links_def links_keys_def credits_on_def comp_def)
  then show "on_links links' = on_links links" "links_keys links' = links_keys links" "credits_on links' = credits_on links"
    by (simp_all only: m)
qed

lemma same_links_refl [simp]: "same_links links links"
  by (simp add: same_links_def)

lemma same_links_trans: "same_links a b \<Longrightarrow> same_links b c \<Longrightarrow> same_links a c"
  by (simp add: same_links_def)

lemma drained_trans:
  assumes "drained a b" "drained b c"
  shows "drained a c"
proof -
  have "length b = length a" using assms(1) map_eq_imp_length_eq unfolding drained_def by blast
  with assms show ?thesis unfolding drained_def by (metis subset_trans)
qed

lemma schedule_same_links:
  assumes "modR ls i (\<lambda>l. Inr (link_scheduleEventAbsolute now t l)) = Inr ls'"
  shows "same_links ls ls'"
proof -
  from assms have i: "nat i < length ls" and ls': "ls' = ls[nat i := link_scheduleEventAbsolute now t (ls ! nat i)]"
    by (auto simp: modR_eq_Inr)
  have "(map link_flits ls)[nat i := link_flits (ls ! nat i)] = map link_flits ls"
    "(map lk_srcQueue ls)[nat i := lk_srcQueue (ls ! nat i)] = map lk_srcQueue ls"
    using i by (metis list_update_id nth_map)+
  then show ?thesis by (simp add: ls' same_links_def map_update link_scheduleEventAbsolute_def)
qed

lemma consume_links:
  assumes "nthR links i = Inr l" "consumeLink l = Inr (f, l')"
  shows "drained links (links[nat i := l'])" "on_links (links[nat i := l']) + 1 = on_links links"
    "f \<in> set (link_flits (links ! nat i))" "nat i < length links"
    "credits_on (links[nat i := l']) + (if fl_credit f = None then 0 else 1) = credits_on links"
proof -
  from assms obtain fs where i: "nat i < length links" and l: "l = links ! nat i"
    and fs: "link_flits l = f # fs" "link_flits l' = fs" and src: "lk_srcQueue l' = lk_srcQueue l"
    by (auto simp: res_simps)
  have "(map lk_srcQueue links)[nat i := lk_srcQueue l] = map lk_srcQueue links"
    using i unfolding l by (metis list_update_id nth_map)
  then show "drained links (links[nat i := l'])"
    using fs i unfolding drained_def map_update src l by (auto simp: nth_list_update)
  show "on_links (links[nat i := l']) + 1 = on_links links"
    using sum_list_update_add [OF i, of "\<lambda>l. length (link_flits l)" l'] fs unfolding on_links_def l by simp
  show "credits_on (links[nat i := l']) + (if fl_credit f = None then 0 else 1) = credits_on links"
    using sum_list_update_add [OF i, of "\<lambda>l. length (filter (\<lambda>f. fl_credit f \<noteq> None) (link_flits l))" l'] fs
    unfolding credits_on_def l by (cases "fl_credit f") simp_all
  show "f \<in> set (link_flits (links ! nat i))" using fs(1) unfolding l by simp
qed (use assms in \<open>auto simp: res_simps\<close>)

section \<open>Links for flits\<close>

text \<open>A link that reads from the credit queue of a port carries credits, any other link flits.\<close>

fun credit_source :: "queue_ref option \<Rightarrow> bool" where
  "credit_source (Some (Router_credit r p)) = True"
| "credit_source (Some (NI_credit n p)) = True"
| "credit_source q = False"

definition links_data :: "NetworkLink list \<Rightarrow> bool" where
  "links_data ls \<longleftrightarrow> (\<forall>i < length ls. \<not> credit_source (lk_srcQueue (ls ! i)) \<longrightarrow> all_data (link_flits (ls ! i)))"

lemma links_data_drained:
  assumes "links_data ls" "drained ls ls'"
  shows "links_data ls'"
proof -
  have n: "length ls' = length ls" using assms(2) map_eq_imp_length_eq unfolding drained_def by blast
  have src: "lk_srcQueue (ls' ! i) = lk_srcQueue (ls ! i)" if "i < length ls" for i
    using assms(2) that n unfolding drained_def by (metis nth_map)
  show ?thesis
    using assms unfolding links_data_def drained_def all_data_def n by (metis src subsetD)
qed

lemma links_data_nth:
  "links_data ls \<Longrightarrow> i < length ls \<Longrightarrow> \<not> credit_source (lk_srcQueue (ls ! i)) \<Longrightarrow> all_data (link_flits (ls ! i))"
  by (simp add: links_data_def)

end
