(* ===== verification/InterfaceReceive.thy ===== *)
theory InterfaceReceive
  imports InterfaceTrace LinkData
begin

text \<open>
  What a network interface does with arriving flits and credits, as an account: the flits it
  takes from the links are delivered or stalled, every delivered flit is counted and exchanged
  for one credit to the sender, and every credit that arrives is added to its channel.
\<close>

section \<open>The account\<close>

definition received_total :: "GarnetStats \<Rightarrow> nat" where
  "received_total gs = sum_list (gs_flits_received gs)"

text \<open>Receiving neither numbers packets nor changes the mode.\<close>

definition same_ids :: "GarnetStats \<Rightarrow> GarnetStats \<Rightarrow> bool" where
  "same_ids gs gs' \<longleftrightarrow> gs_next_packet_id gs' = gs_next_packet_id gs \<and> gs_trace_enable gs' = gs_trace_enable gs"

text \<open>The credits an interface is about to send: the channel, and whether it becomes free.\<close>

definition credit_msgs :: "NetworkInterface \<Rightarrow> (int \<times> bool) multiset" where
  "credit_msgs ni = sum_list (map (\<lambda>p. mset (map (\<lambda>c. (fl_vc c, is_free_signal c)) (fb_buffer (ip_outCreditQueue p))))
    (ni_inPorts ni))"

definition credit_total :: "NetworkInterface \<Rightarrow> int" where
  "credit_total ni = sum_list (map ovc_credit_count (ni_outVcState ni))"

definition ni_ok :: "NetworkInterface \<Rightarrow> bool" where
  "ni_ok ni \<longleftrightarrow> length (ni_outVcState ni) = length (ni_niOutVcs ni) \<and>
    (\<forall>p \<in> set (ni_inPorts ni). \<forall>f \<in> set (ip_stall_queue p). is_tail f)"

definition credit_for :: "flit \<Rightarrow> int \<times> bool" where
  "credit_for f = (fl_vc f, is_tail f)"

text \<open>
  Every queue for flits of the interface, and every link it receives flits from, holds flits and
  no credits.
\<close>

definition ni_data :: "NetworkInterface \<Rightarrow> bool" where
  "ni_data ni \<longleftrightarrow> all_data (ni_trace_injection_queue ni) \<and> (\<forall>b \<in> set (ni_niOutVcs ni). all_data (fb_buffer b)) \<and>
    (\<forall>p \<in> set (ni_outPorts ni). all_data (fb_buffer (op_outFlitQueue p))) \<and>
    (\<forall>p \<in> set (ni_inPorts ni). all_data (ip_stall_queue p))"

definition fed_data :: "NetworkInterface \<Rightarrow> NetworkLink list \<Rightarrow> bool" where
  "fed_data ni links \<longleftrightarrow> (\<forall>i \<in> set (map ip_inNetLink (ni_inPorts ni)). nat i < length links \<longrightarrow>
    all_data (link_flits (links ! nat i)))"

text \<open>How many flits are stalled.\<close>

definition stalled :: "NetworkInterface \<Rightarrow> nat" where
  "stalled ni = sum_list (map (\<lambda>p. length (ip_stall_queue p)) (ni_inPorts ni))"

lemma fed_data_drained:
  assumes "fed_data ni links" "drained links links'" "map ip_inNetLink (ni_inPorts ni') = map ip_inNetLink (ni_inPorts ni)"
  shows "fed_data ni' links'"
proof -
  have "length links' = length links" using assms(2) map_eq_imp_length_eq unfolding drained_def by blast
  with assms(1,2) show ?thesis unfolding fed_data_def assms(3) drained_def all_data_def by (metis subsetD)
qed

text \<open>
  Nothing but \<open>ds\<close> and \<open>n\<close> credits leaves the links and the stall queues; \<open>ds\<close> are flits, and
  the \<open>n\<close> credits are credits from the links.
\<close>

definition traffic :: "flit list \<Rightarrow> nat \<Rightarrow> NetworkInterface \<times> NetworkLink list \<Rightarrow> NetworkInterface \<times> NetworkLink list \<Rightarrow> bool" where
  "traffic ds n = (\<lambda>(ni, links) (ni', links').
    drained links links' \<and> map ip_inNetLink (ni_inPorts ni') = map ip_inNetLink (ni_inPorts ni) \<and>
    on_links links' + stalled ni' + length ds + n = on_links links + stalled ni \<and>
    (ni_data ni \<and> fed_data ni links \<longrightarrow> ni_data ni' \<and> all_data ds \<and> credits_on links' + n = credits_on links))"

lemma traffic_trans:
  assumes "traffic ds n (ni, links) (ni1, links1)" "traffic ds' n' (ni1, links1) (ni2, links2)"
  shows "traffic (ds @ ds') (n + n') (ni, links) (ni2, links2)"
proof -
  from assms have d: "drained links links1" "drained links1 links2" and m: "map ip_inNetLink (ni_inPorts ni1) = map ip_inNetLink (ni_inPorts ni)"
    by (simp_all add: traffic_def)
  from assms fed_data_drained [OF _ d(1) m] drained_trans [OF d] show ?thesis unfolding traffic_def by auto
qed

text \<open>
  \<open>ds\<close> are the flits delivered and \<open>n\<close> the number of credits taken between two states; what leaves
  the channels of the interface is paid from its credits.
\<close>

definition exchange :: "flit list \<Rightarrow> nat \<Rightarrow> NetworkInterface \<times> GarnetStats \<times> NetworkLink list
    \<Rightarrow> NetworkInterface \<times> GarnetStats \<times> NetworkLink list \<Rightarrow> bool" where
  "exchange ds n = (\<lambda>(ni, gs, links) (ni', gs', links').
    ni_keys ni' + links_keys links' + flit_keys ds = ni_keys ni + links_keys links \<and>
    received_total gs' = received_total gs + length ds \<and>
    credit_msgs ni' = credit_msgs ni + mset (map credit_for ds) \<and>
    credit_total ni' + int (waiting ni) = credit_total ni + int (waiting ni') + int n \<and>
    length (ni_inPorts ni') = length (ni_inPorts ni) \<and> length (ni_outPorts ni') = length (ni_outPorts ni) \<and>
    same_ids gs gs' \<and> (ni_ok ni \<longrightarrow> ni_ok ni') \<and> traffic ds n (ni, links) (ni', links'))"

lemma exchange_refl: "exchange [] 0 s s"
  by (cases s) (simp add: exchange_def same_ids_def traffic_def same_links_eqs(1))

lemma exchange_trans:
  assumes "exchange ds n s t" "exchange ds' n' t u"
  shows "exchange (ds @ ds') (n + n') s u"
proof -
  obtain ni gs l where s: "s = (ni, gs, l)" by (cases s)
  obtain ni1 gs1 l1 where t: "t = (ni1, gs1, l1)" by (cases t)
  obtain ni2 gs2 l2 where u: "u = (ni2, gs2, l2)" by (cases u)
  have k: "ni_keys ni2 + links_keys l2 + flit_keys ds' = ni_keys ni1 + links_keys l1"
    "ni_keys ni1 + links_keys l1 + flit_keys ds = ni_keys ni + links_keys l"
    using assms unfolding s t u exchange_def by simp_all
  have "ni_keys ni2 + links_keys l2 + flit_keys (ds @ ds') = (ni_keys ni2 + links_keys l2 + flit_keys ds') + flit_keys ds"
    by (simp add: ac_simps)
  then have "ni_keys ni2 + links_keys l2 + flit_keys (ds @ ds') = ni_keys ni + links_keys l"
    by (simp only: k)
  moreover have "traffic (ds @ ds') (n + n') (ni, l) (ni2, l2)"
    using assms traffic_trans unfolding s t u exchange_def by blast
  ultimately show ?thesis using assms unfolding s t u exchange_def same_ids_def by simp
qed

section \<open>Statistics\<close>

lemma stat_add_sum: "stat_add n v xs = Inr ys \<Longrightarrow> sum_list ys = sum_list xs + n"
  using sum_list_update_add [of "nat v" xs "\<lambda>x. x" "xs ! nat v + n"]
  by (auto simp: stat_add_def res_simps)

lemma increments_frame:
  "increment_flit_network_latency d v gs = Inr gs' \<Longrightarrow> received_total gs' = received_total gs \<and> same_ids gs gs'"
  "increment_flit_queueing_latency d v gs = Inr gs' \<Longrightarrow> received_total gs' = received_total gs \<and> same_ids gs gs'"
  "increment_received_packets v gs = Inr gs' \<Longrightarrow> received_total gs' = received_total gs \<and> same_ids gs gs'"
  "increment_packet_network_latency d v gs = Inr gs' \<Longrightarrow> received_total gs' = received_total gs \<and> same_ids gs gs'"
  "increment_packet_queueing_latency d v gs = Inr gs' \<Longrightarrow> received_total gs' = received_total gs \<and> same_ids gs gs'"
  by (auto simp: increment_flit_network_latency_def increment_flit_queueing_latency_def increment_received_packets_def
      increment_packet_network_latency_def increment_packet_queueing_latency_def received_total_def same_ids_def
      elim!: bindR_InrE)

lemma increment_received_flits_total:
  "increment_received_flits v gs = Inr gs' \<Longrightarrow> received_total gs' = received_total gs + 1 \<and> same_ids gs gs'"
  by (auto simp: increment_received_flits_def received_total_def same_ids_def dest!: stat_add_sum elim!: bindR_InrE)

lemma incrementStats_received:
  assumes "incrementStats period now f gs = Inr gs'"
  shows "received_total gs' = received_total gs + 1 \<and> same_ids gs gs'"
proof -
  let ?nd = "tick_sub (tick_sub (fl_dequeue_time f) (fl_enqueue_time f)) period"
  let ?qd = "tick_add (fl_src_delay f) (tick_sub now (fl_dequeue_time f))"
  let ?g4 = "\<lambda>g3. if fl_type f = HEAD_TAIL \<or> ri_last_flit (fl_route f)
      then add_phase_latency (ri_network_idx (fl_route f)) (ri_input_idx (fl_route f)) (ri_phase_id (fl_route f)) (tick_add ?nd ?qd) g3
      else g3"
  from assms obtain g1 g2 g3 g7 where g: "increment_received_flits (fl_vnet f) gs = Inr g1"
      "increment_flit_network_latency ?nd (fl_vnet f) g1 = Inr g2" "increment_flit_queueing_latency ?qd (fl_vnet f) g2 = Inr g3"
    and t: "(if is_tail f then bindR (increment_received_packets (fl_vnet f) (?g4 g3)) (\<lambda>g5.
              bindR (increment_packet_network_latency ?nd (fl_vnet f) g5) (increment_packet_queueing_latency ?qd (fl_vnet f)))
            else Inr g3) = Inr g7"
    and gs': "gs' = increment_total_hops (ri_hops_traversed (fl_route f)) g7"
    unfolding incrementStats_def Let_def by (elim bindR_InrE) blast
  have "received_total (?g4 g3) = received_total g3 \<and> same_ids g3 (?g4 g3)"
    by (simp add: add_phase_latency_def received_total_def same_ids_def)
  then have "received_total g7 = received_total g3 \<and> same_ids g3 g7"
    using t by (elim if_InrE bindR_InrE) (auto dest!: increments_frame simp: same_ids_def)
  moreover have "received_total gs' = received_total g7 \<and> same_ids g7 gs'"
    by (simp add: gs' increment_total_hops_def received_total_def same_ids_def)
  ultimately show ?thesis
    using increment_received_flits_total [OF g(1)] increments_frame(1) [OF g(2)] increments_frame(2) [OF g(3)]
    by (simp add: same_ids_def)
qed

section \<open>Ports\<close>

lemma sum_mod_inPort:
  fixes g :: "InputPort \<Rightarrow> 'b :: comm_monoid_add"
  assumes "p < length (ni_inPorts ni)"
  shows "sum_list (map g (ni_inPorts (mod_inPort p f ni))) + g (ni_inPorts ni ! p)
    = sum_list (map g (ni_inPorts ni)) + g (f (ni_inPorts ni ! p))"
  using sum_list_update_add [OF assms, of g] by (simp add: mod_inPort_def)

lemma mod_inPort_sel [simp]:
  "ni_outPorts (mod_inPort p f ni) = ni_outPorts ni" "ni_niOutVcs (mod_inPort p f ni) = ni_niOutVcs ni"
  "ni_outVcState (mod_inPort p f ni) = ni_outVcState ni" "ni_outNode (mod_inPort p f ni) = ni_outNode ni"
  "ni_trace_injection_queue (mod_inPort p f ni) = ni_trace_injection_queue ni"
  "ni_stall_count (mod_inPort p f ni) = ni_stall_count ni"
  "length (ni_inPorts (mod_inPort p f ni)) = length (ni_inPorts ni)"
  "p < length (ni_inPorts ni) \<Longrightarrow> ni_inPorts (mod_inPort p f ni) ! p = f (ni_inPorts ni ! p)"
  by (simp_all add: mod_inPort_def)

lemma put_out_buffer_sel [simp]:
  "ni_inPorts (put_out_buffer v b ni) = ni_inPorts ni"
  "ni_outPorts (put_out_buffer v b ni) = ni_outPorts ni" "ni_niOutVcs (put_out_buffer v b ni) = ni_niOutVcs ni"
  "ni_outVcState (put_out_buffer v b ni) = ni_outVcState ni"
  "ni_trace_injection_queue (put_out_buffer v b ni) = ni_trace_injection_queue ni"
  by (simp_all add: put_out_buffer_def)

text \<open>What the account reads of an interface.\<close>

definition same_account :: "NetworkInterface \<Rightarrow> NetworkInterface \<Rightarrow> bool" where
  "same_account ni ni' \<longleftrightarrow> ni_inPorts ni' = ni_inPorts ni \<and> ni_outPorts ni' = ni_outPorts ni \<and>
    ni_niOutVcs ni' = ni_niOutVcs ni \<and> ni_outVcState ni' = ni_outVcState ni \<and>
    ni_trace_injection_queue ni' = ni_trace_injection_queue ni"

lemma same_account_refl: "same_account ni ni"
  by (simp add: same_account_def)

lemma same_account_trans: "same_account a b \<Longrightarrow> same_account b c \<Longrightarrow> same_account a c"
  by (simp add: same_account_def)

lemma same_account_eqs:
  assumes "same_account ni ni'"
  shows "ni_keys ni' = ni_keys ni" "credit_msgs ni' = credit_msgs ni" "credit_total ni' = credit_total ni"
    "waiting ni' = waiting ni" "ni_ok ni' = ni_ok ni" "ni_data ni' = ni_data ni" "stalled ni' = stalled ni" "ni_inPorts ni' = ni_inPorts ni" "ni_outPorts ni' = ni_outPorts ni"
  using assms
  by (simp_all add: same_account_def ni_keys_def credit_msgs_def credit_total_def waiting_def ni_ok_def ni_data_def stalled_def)

lemma same_account_exchange:
  assumes "same_account ni ni'" "received_total gs' = received_total gs" "same_ids gs gs'" "same_links links links'"
  shows "exchange [] 0 (ni, gs, links) (ni', gs', links')"
  using assms same_account_eqs [OF assms(1)] same_links_eqs [OF assms(4)] by (simp add: exchange_def traffic_def)

lemma ni_enqueue_account: "ni_enqueue rs rt now v m ni = Inr (ni', reqs) \<Longrightarrow> same_account ni ni'"
  by (auto simp: ni_enqueue_def same_account_def elim!: res_elims)

lemma slot_available_account: "slot_available now v ni = Inr (ok, ni') \<Longrightarrow> same_account ni ni'"
  by (auto simp: slot_available_def same_account_def elim!: res_elims)

section \<open>One input port\<close>

text \<open>A step that changes one input port and nothing else of the account.\<close>

lemma port_exchange:
  assumes p: "p < length (ni_inPorts ni)" and ni': "ni_inPorts ni' = (ni_inPorts ni)[p := P']"
    "ni_outPorts ni' = ni_outPorts ni" "ni_niOutVcs ni' = ni_niOutVcs ni" "ni_outVcState ni' = ni_outVcState ni"
    "ni_trace_injection_queue ni' = ni_trace_injection_queue ni"
    and cr: "fb_buffer (ip_outCreditQueue P') = fb_buffer (ip_outCreditQueue (ni_inPorts ni ! p)) @ cr"
      "map (\<lambda>c. (fl_vc c, is_free_signal c)) cr = map credit_for ds" "flit_keys cr = {#}"
    and keys: "flit_keys (ip_stall_queue P') + links_keys links' + flit_keys ds
      = flit_keys (ip_stall_queue (ni_inPorts ni ! p)) + links_keys links"
    and gs: "received_total gs' = received_total gs + length ds" "same_ids gs gs'"
    and tails: "(\<forall>f \<in> set (ip_stall_queue (ni_inPorts ni ! p)). is_tail f) \<Longrightarrow> \<forall>f \<in> set (ip_stall_queue P'). is_tail f"
    and links: "drained links links'" "ip_inNetLink P' = ip_inNetLink (ni_inPorts ni ! p)"
      "on_links links' + length (ip_stall_queue P') + length ds = on_links links + length (ip_stall_queue (ni_inPorts ni ! p))"
      "fed_data ni links \<Longrightarrow> all_data (ip_stall_queue (ni_inPorts ni ! p)) \<Longrightarrow> all_data (ip_stall_queue P') \<and> all_data ds"
      "fed_data ni links \<Longrightarrow> credits_on links' = credits_on links"
  shows "exchange ds 0 (ni, gs, links) (ni', gs', links')"
proof -
  let ?S = "\<lambda>p. flit_keys (ip_stall_queue p @ fb_buffer (ip_outCreditQueue p))" and ?P = "ni_inPorts ni ! p"
  have "sum_list (map ?S (ni_inPorts ni')) + ?S ?P + (links_keys links' + flit_keys ds)
      = sum_list (map ?S (ni_inPorts ni)) + (?S P' + links_keys links' + flit_keys ds)"
    using sum_list_update_add [OF p, of ?S P'] unfolding ni' by (simp add: ac_simps)
  moreover have "?S P' + links_keys links' + flit_keys ds = ?S ?P + links_keys links"
    using cr(1,3) keys by (simp add: ac_simps)
  ultimately have "sum_list (map ?S (ni_inPorts ni')) + ?S ?P + (links_keys links' + flit_keys ds)
      = sum_list (map ?S (ni_inPorts ni)) + (?S ?P + links_keys links)" by (simp only:)
  then have "sum_list (map ?S (ni_inPorts ni')) + links_keys links' + flit_keys ds = sum_list (map ?S (ni_inPorts ni)) + links_keys links"
    by (simp add: ac_simps del: flit_keys_simps)
  then have k: "ni_keys ni' + links_keys links' + flit_keys ds = ni_keys ni + links_keys links"
    by (simp add: ni_keys_def ni'(2-5) ac_simps)
  have "credit_msgs ni' = credit_msgs ni + mset (map credit_for ds)"
    using sum_list_update_add [OF p, of "\<lambda>p. mset (map (\<lambda>c. (fl_vc c, is_free_signal c)) (fb_buffer (ip_outCreditQueue p)))" P']
      cr(2) arg_cong [OF cr(2), of mset] unfolding credit_msgs_def ni'(1) cr(1) by (simp add: ac_simps)
  moreover have "ni_ok ni'" if "ni_ok ni"
  proof -
    have "\<forall>f \<in> set (ip_stall_queue P'). is_tail f" using that p by (intro tails) (auto simp: ni_ok_def)
    with that show ?thesis
      by (auto simp: ni_ok_def ni' dest!: set_update_subset_insert [THEN subsetD])
  qed
  moreover have "traffic ds 0 (ni, links) (ni', links')"
  proof -
    have "stalled ni' + length (ip_stall_queue (ni_inPorts ni ! p)) = stalled ni + length (ip_stall_queue P')"
      using sum_list_update_add [OF p, of "\<lambda>p. length (ip_stall_queue p)" P'] by (simp add: stalled_def ni'(1))
    moreover have "map ip_inNetLink (ni_inPorts ni') = map ip_inNetLink (ni_inPorts ni)"
      using p unfolding ni'(1) map_update links(2) by (metis list_update_id nth_map)
    moreover have "ni_data ni' \<and> all_data ds \<and> credits_on links' = credits_on links" if "ni_data ni" "fed_data ni links"
    proof -
      have "all_data (ip_stall_queue (ni_inPorts ni ! p))" using that(1) p by (simp add: ni_data_def)
      from links(4) [OF that(2) this] links(5) [OF that(2)] that(1) show ?thesis
        by (auto simp: ni_data_def ni' dest!: set_update_subset_insert [THEN subsetD])
    qed
    ultimately show ?thesis using links(1,3) unfolding traffic_def by auto
  qed
  ultimately show ?thesis using k gs by (simp add: exchange_def ni' credit_total_def waiting_def)
qed

lemma retire_flitE:
  assumes "retire_flit cfg now p free f (ni, gs) = Inr (ni', gs')"
  obtains c where "ni' = mod_inPort p (sendCredit c) ni" "fl_vc c = fl_vc f" "is_free_signal c = free"
    "received_total gs' = received_total gs + 1" "flit_keys [c] = {#}" "same_ids gs gs'"
  using assms unfolding retire_flit_def
  by (auto elim!: bindR_InrE dest: incrementStats_received intro!: that simp: credit_new_def is_free_signal_def flit_keys_def)

text \<open>The flit \<open>f\<close> has been taken from a link that the interface receives from.\<close>

definition taken :: "NetworkInterface \<Rightarrow> flit \<Rightarrow> NetworkLink list \<Rightarrow> NetworkLink list \<Rightarrow> bool" where
  "taken ni f links links' \<longleftrightarrow> links_keys links' + flit_keys [f] = links_keys links \<and> drained links links' \<and>
    on_links links' + 1 = on_links links \<and> (fed_data ni links \<longrightarrow> fl_credit f = None \<and> credits_on links' = credits_on links)"

text \<open>A flit from the link is delivered.\<close>

lemma retire_exchange:
  assumes "retire_flit cfg now p (is_tail f) f (ni1, gs1) = Inr (ni', gs')" "same_account ni ni1"
    "received_total gs1 = received_total gs" "same_ids gs gs1" "p < length (ni_inPorts ni)"
    "taken ni f links links'"
  shows "exchange [f] 0 (ni, gs, links) (ni', gs', links')"
proof -
  from assms(1) obtain c where c: "ni' = mod_inPort p (sendCredit c) ni1" "fl_vc c = fl_vc f"
    "is_free_signal c = is_tail f" "received_total gs' = received_total gs1 + 1" "flit_keys [c] = {#}" "same_ids gs1 gs'" by (rule retire_flitE)
  show ?thesis
    by (rule port_exchange [OF assms(5), where cr = "[c]" and P' = "sendCredit c (ni_inPorts ni ! p)"])
      (use assms(2-) c in \<open>simp_all add: mod_inPort_def sendCredit_def same_account_def same_ids_def credit_for_def taken_def ac_simps\<close>)
qed

lemma stall_exchange:
  assumes "stall_flit p f ni1 = Inr ni'" "same_account ni ni1" "p < length (ni_inPorts ni)" "is_tail f"
    "taken ni f links links'"
  shows "exchange [] 0 (ni, gs, links) (ni', gs, links')"
proof -
  let ?P = "(ni_inPorts ni ! p)\<lparr>ip_stall_queue := ip_stall_queue (ni_inPorts ni ! p) @ [f]\<rparr>"
  from assms(1) obtain v b counts where
    "ni' = put_out_buffer v b (mod_inPort p (\<lambda>ip. ip\<lparr>ip_stall_queue := ip_stall_queue ip @ [f]\<rparr>) (ni1\<lparr>ni_stall_count := counts\<rparr>))"
    unfolding stall_flit_def by (auto elim!: bindR_InrE)
  then show ?thesis
    by (intro port_exchange [OF assms(3), where cr = "[]" and P' = ?P])
      (use assms(2-) in \<open>auto simp: mod_inPort_def same_account_def same_ids_def taken_def ac_simps\<close>)
qed

text \<open>A stalled flit is delivered.\<close>

lemma unregister_account:
  "(if b then bindR (out_buffer v ni) (\<lambda>mb. Inr (put_out_buffer v (unregisterDequeueCallback mb) ni)) else Inr ni) = Inr ni'
    \<Longrightarrow> same_account ni ni'"
  by (auto simp: same_account_def elim!: if_InrE bindR_InrE)

lemma unstall_exchange:
  assumes "unstall cfg rs msgs rt now p f (seen @ todo) (ni1, gs) = Inr (ni', gs', reqs)"
    "same_account ni ni1" "p < length (ni_inPorts ni)" "ip_stall_queue (ni_inPorts ni ! p) = seen @ f # todo" "is_tail f"
  shows "exchange [f] 0 (ni, gs, links) (ni', gs', links)"
proof -
  have "\<exists>ni2 ni3 ni4 counts. same_account ni1 ni2 \<and> retire_flit cfg now p True f (ni2, gs) = Inr (ni3, gs') \<and>
    same_account ni3 ni4 \<and>
    ni' = mod_inPort p (\<lambda>ip. ip\<lparr>ip_stall_queue := seen @ todo, ip_messageEnqueuedThisCycle := True\<rparr>) (ni4\<lparr>ni_stall_count := counts\<rparr>)"
    using assms(1) unfolding unstall_def Let_def prod.case
    by (elim bindR_InrE case_prod_InrE) (fastforce split del: if_split dest!: ni_enqueue_account unregister_account)
  then obtain ni2 ni3 ni4 counts where a: "same_account ni1 ni2"
    and b: "retire_flit cfg now p True f (ni2, gs) = Inr (ni3, gs')" and d: "same_account ni3 ni4"
    and e: "ni' = mod_inPort p (\<lambda>ip. ip\<lparr>ip_stall_queue := seen @ todo, ip_messageEnqueuedThisCycle := True\<rparr>) (ni4\<lparr>ni_stall_count := counts\<rparr>)"
    by blast
  from b obtain c where c: "ni3 = mod_inPort p (sendCredit c) ni2" "fl_vc c = fl_vc f"
    "is_free_signal c" "received_total gs' = received_total gs + 1" "flit_keys [c] = {#}" "same_ids gs gs'" by (auto elim!: retire_flitE)
  have ab: "same_account ni ni2" using assms(2) a by (rule same_account_trans)
  let ?P = "(sendCredit c (ni_inPorts ni ! p))\<lparr>ip_stall_queue := seen @ todo, ip_messageEnqueuedThisCycle := True\<rparr>"
  have k: "flit_keys (seen @ f # todo) = flit_keys seen + (flit_keys [f] + flit_keys todo)"
    by (simp add: flit_keys_Cons [of f todo])
  show ?thesis
    by (rule port_exchange [OF assms(3), where cr = "[c]" and P' = ?P])
      (use ab d e c assms(3-) k in \<open>auto simp: mod_inPort_def sendCredit_def same_account_def credit_for_def same_links_eqs(1) ac_simps\<close>)
qed

lemma stall_loop_exchange:
  assumes "stall_loop cfg rs msgs rt now p seen todo (ni1, gs) = Inr (ni', gs', reqs)"
    "same_account ni ni1" "p < length (ni_inPorts ni)" "ip_stall_queue (ni_inPorts ni ! p) = seen @ todo"
    "\<forall>f \<in> set todo. is_tail f"
  shows "\<exists>ds. exchange ds 0 (ni, gs, links) (ni', gs', links)"
  using assms
proof (induction todo arbitrary: seen ni1)
  case Nil
  then have "exchange [] 0 (ni, gs, links) (ni', gs', links)"
    by (intro same_account_exchange) (auto simp: same_ids_def)
  then show ?case by blast
next
  case (Cons f todo)
  from Cons.prems(1) obtain ok ni2 where s: "slot_available now (fl_vnet f) ni1 = Inr (ok, ni2)"
    and r: "(if ok then unstall cfg rs msgs rt now p f (seen @ todo) (ni2, gs)
      else stall_loop cfg rs msgs rt now p (seen @ [f]) todo (ni2, gs)) = Inr (ni', gs', reqs)"
    unfolding stall_loop.simps fst_conv snd_conv by (elim bindR_InrE case_prod_InrE) blast
  have a: "same_account ni ni2" using Cons.prems(2) slot_available_account [OF s] by (rule same_account_trans)
  from r show ?case
  proof (elim if_InrE)
    assume "unstall cfg rs msgs rt now p f (seen @ todo) (ni2, gs) = Inr (ni', gs', reqs)"
    from unstall_exchange [OF this a] Cons.prems(3-) show ?thesis by auto
  next
    assume "stall_loop cfg rs msgs rt now p (seen @ [f]) todo (ni2, gs) = Inr (ni', gs', reqs)"
    from Cons.IH [OF this a] Cons.prems(3-) show ?thesis by simp
  qed
qed

text \<open>One more step of a loop whose steps are exchanges.\<close>

definition exchanges :: "NetworkInterface \<times> GarnetStats \<times> NetworkLink list
    \<Rightarrow> NetworkInterface \<times> GarnetStats \<times> NetworkLink list \<Rightarrow> bool" where
  "exchanges s t \<longleftrightarrow> (\<exists>ds n. exchange ds n s t)"

lemma exchanges_refl: "exchanges s s"
  unfolding exchanges_def using exchange_refl [of s] by blast

lemma exchanges_one: "exchange ds n s t \<Longrightarrow> exchanges s t"
  unfolding exchanges_def by blast

lemma exchanges_trans: "exchanges s t \<Longrightarrow> exchanges t u \<Longrightarrow> exchanges s u"
  using exchange_trans unfolding exchanges_def by blast

lemma exchanges_ok:
  assumes "exchanges (ni, gs, links) (ni', gs', links')"
  shows "ni_ok ni \<Longrightarrow> ni_ok ni'" "length (ni_inPorts ni') = length (ni_inPorts ni)"
    "length (ni_outPorts ni') = length (ni_outPorts ni)"
  using assms by (auto simp: exchanges_def exchange_def)

lemma checkStallQueue_exchanges:
  assumes "checkStallQueue cfg rs msgs rt now (ni, gs) = Inr (ni', gs', reqs)" "ni_ok ni"
  shows "exchanges (ni, gs, links) (ni', gs', links)"
proof -
  let ?I = "\<lambda>(ni1, gs1, reqs). exchanges (ni, gs, links) (ni1, gs1, links)"
  let ?step = "\<lambda>p (ni, gs, reqs).
        let ni0 = mod_inPort p (\<lambda>ip. ip\<lparr>ip_messageEnqueuedThisCycle := False\<rparr>) ni in
        bindR (stall_loop cfg rs msgs rt now p [] (ip_stall_queue (ni_inPorts ni0 ! p)) (ni0, gs)) (\<lambda>(ni1, gs1, rq).
          Inr (ni1, gs1, reqs @ rq))"
  have "?I (ni', gs', reqs)"
  proof (rule foldR_invariant [where f = ?step and xs = "[0..<length (ni_inPorts ni)]" and s = "(ni, gs, [])"])
    show "foldR ?step [0..<length (ni_inPorts ni)] (ni, gs, []) = Inr (ni', gs', reqs)"
      using assms(1) by (simp add: checkStallQueue_def)
    show "?I (ni, gs, [])" by (simp add: exchanges_refl)
  next
    fix p s s'
    assume p: "p \<in> set [0..<length (ni_inPorts ni)]" and I: "?I s" and step: "?step p s = Inr s'"
    obtain ni1 gs1 rq1 where s: "s = (ni1, gs1, rq1)" by (cases s)
    obtain ni2 gs2 rq2 where s': "s' = (ni2, gs2, rq2)" by (cases s')
    let ?ni0 = "mod_inPort p (\<lambda>ip. ip\<lparr>ip_messageEnqueuedThisCycle := False\<rparr>) ni1"
    have I1: "exchanges (ni, gs, links) (ni1, gs1, links)" using I s by simp
    have p1: "p < length (ni_inPorts ni1)" using p exchanges_ok(2) [OF I1] by simp
    have "exchange [] 0 (ni1, gs1, links) (?ni0, gs1, links)"
      by (rule port_exchange [OF p1, where cr = "[]" and P' = "(ni_inPorts ni1 ! p)\<lparr>ip_messageEnqueuedThisCycle := False\<rparr>"])
        (simp_all add: mod_inPort_def same_ids_def same_links_eqs(1))
    then have I0: "exchanges (ni, gs, links) (?ni0, gs1, links)" using I1 exchanges_trans exchanges_one by blast
    then have ok: "ni_ok ?ni0" using assms(2) exchanges_ok(1) by blast
    from step obtain rq where l: "stall_loop cfg rs msgs rt now p [] (ip_stall_queue (ni_inPorts ?ni0 ! p)) (?ni0, gs1) = Inr (ni2, gs2, rq)"
      unfolding s s' by (auto simp: Let_def elim!: bindR_InrE)
    have "\<forall>f \<in> set (ip_stall_queue (ni_inPorts ?ni0 ! p)). is_tail f"
      using ok p1 unfolding ni_ok_def by (metis mod_inPort_sel(7) nth_mem)
    then obtain ds where "exchange ds 0 (?ni0, gs1, links) (ni2, gs2, links)"
      using stall_loop_exchange [OF l, of ?ni0 links] p1 by (auto simp: same_account_def)
    then have "exchanges (ni, gs, links) (ni2, gs2, links)" using I0 exchanges_trans exchanges_one by blast
    then show "?I s'" by (simp add: s')
  qed
  then show ?thesis by simp
qed

section \<open>Arriving flits and credits\<close>

lemma consume_keys:
  assumes "nthR links i = Inr l" "consumeLink l = Inr (f, l')"
  shows "links_keys (links[nat i := l']) + flit_keys [f] = links_keys links"
proof -
  from assms obtain fs where i: "0 \<le> i" "i < int (length links)" and l: "l = links ! nat i"
    and fs: "link_flits l = f # fs" "link_flits l' = fs" by (auto simp: res_simps)
  have "links_keys (links[nat i := l']) + (flit_keys [f] + flit_keys fs) = links_keys links + flit_keys fs"
    using links_keys_update [OF i, of l'] fs flit_keys_Cons [of f fs] unfolding l by simp
  then show ?thesis by (simp add: add.assoc [symmetric])
qed

lemma receive_tail_exchange:
  assumes "receive_tail cfg rs msgs rt now p f (ni, gs) = Inr (ni', gs', reqs)" "p < length (ni_inPorts ni)" "is_tail f"
    "taken ni f links links'"
  shows "exchanges (ni, gs, links) (ni', gs', links')"
proof -
  from assms(1) obtain ok ni1 where s: "(if \<not> ip_messageEnqueuedThisCycle (ni_inPorts ni ! p)
        then slot_available now (fl_vnet f) ni else Inr (False, ni)) = Inr (ok, ni1)"
    and r: "(if ok then
      bindR (if \<not> gs_trace_enable gs
             then bindR (ni_enqueue rs rt now (fl_vnet f) (flit_message msgs f) ni1)
                    (\<lambda>(ni2, reqs). Inr (ni2, gs, reqs))
             else Inr (ni1, increment_trace_flits_received gs, [])) (\<lambda>(ni2, gs2, reqs).
      bindR (retire_flit cfg now p True f (ni2, gs2)) (\<lambda>(ni3, gs3). Inr (ni3, gs3, reqs)))
    else bindR (stall_flit p f ni1) (\<lambda>ni2. Inr (ni2, gs, []))) = Inr (ni', gs', reqs)"
    unfolding receive_tail_def prod.case by (elim bindR_InrE case_prod_InrE) blast
  have a: "same_account ni ni1"
    using s by (elim if_InrE) (auto dest!: slot_available_account intro: same_account_refl)
  show ?thesis
  proof (cases ok)
    case True
    with r obtain ni2 gs2 where
      e: "(if \<not> gs_trace_enable gs
             then bindR (ni_enqueue rs rt now (fl_vnet f) (flit_message msgs f) ni1)
                    (\<lambda>(ni2, reqs). Inr (ni2, gs, reqs))
             else Inr (ni1, increment_trace_flits_received gs, [])) = Inr (ni2, gs2, reqs)"
      and t: "retire_flit cfg now p (is_tail f) f (ni2, gs2) = Inr (ni', gs')"
      using assms(3) by (auto elim!: bindR_InrE split del: if_split)
    have "same_account ni1 ni2 \<and> received_total gs2 = received_total gs \<and> same_ids gs gs2"
      using e by (elim if_InrE) (auto elim!: bindR_InrE dest: ni_enqueue_account
          simp: same_account_def same_ids_def increment_trace_flits_received_def received_total_def Let_def)
    with a have "same_account ni ni2" "received_total gs2 = received_total gs" "same_ids gs gs2" by (auto intro: same_account_trans)
    from retire_exchange [OF t this assms(2,4)] show ?thesis by (rule exchanges_one)
  next
    case False
    with r have st: "stall_flit p f ni1 = Inr ni'" and g: "gs' = gs" by (auto elim!: bindR_InrE)
    from stall_exchange [OF st a assms(2-4)] show ?thesis unfolding g by (rule exchanges_one)
  qed
qed

lemma receive_port_exchanges:
  assumes "receive_port cfg rs msgs rt now p (ni, gs, links, reqs) = Inr (ni', gs', links', reqs')"
    "p < length (ni_inPorts ni)"
  shows "exchanges (ni, gs, links) (ni', gs', links')"
proof -
  let ?i = "ip_inNetLink (ni_inPorts ni ! p)"
  from assms(1) obtain l where l: "nthR links ?i = Inr l"
    and r: "(if link_isReady now l then
       bindR (consumeLink l) (\<lambda>(t_flit, inNetLink').
       guardR (fl_width t_flit = ip_bitWidth (ni_inPorts ni ! p)) (Assert_failed ''t_flit->m_width == iPort->bitWidth()'')
       (let f = t_flit\<lparr>fl_dequeue_time := now\<rparr>; links1 = links[nat ?i := inNetLink'] in
        if is_tail f then
          bindR (receive_tail cfg rs msgs rt now p f (ni, gs)) (\<lambda>(ni1, gs1, rq). Inr (ni1, gs1, links1, reqs @ rq))
        else
          bindR (retire_flit cfg now p False f (ni, gs)) (\<lambda>(ni1, gs1). Inr (ni1, gs1, links1, reqs))))
     else Inr (ni, gs, links, reqs)) = Inr (ni', gs', links', reqs')"
    unfolding receive_port_def Let_def prod.case by (elim bindR_InrE) blast
  show ?thesis
  proof (cases "link_isReady now l")
    case False
    with r show ?thesis by (simp add: exchanges_refl)
  next
    case True
    with r obtain f0 l' where c: "consumeLink l = Inr (f0, l')"
      and k: "(if is_tail (f0\<lparr>fl_dequeue_time := now\<rparr>) then
          bindR (receive_tail cfg rs msgs rt now p (f0\<lparr>fl_dequeue_time := now\<rparr>) (ni, gs))
            (\<lambda>(ni1, gs1, rq). Inr (ni1, gs1, links[nat ?i := l'], reqs @ rq))
        else
          bindR (retire_flit cfg now p False (f0\<lparr>fl_dequeue_time := now\<rparr>) (ni, gs))
            (\<lambda>(ni1, gs1). Inr (ni1, gs1, links[nat ?i := l'], reqs))) = Inr (ni', gs', links', reqs')"
      unfolding Let_def by (auto elim!: bindR_InrE guardR_InrE split del: if_split)
    have keys: "taken ni (f0\<lparr>fl_dequeue_time := now\<rparr>) links (links[nat ?i := l'])"
    proof -
      have "flit_keys [f0\<lparr>fl_dequeue_time := now\<rparr>] = flit_keys [f0]" by (simp add: flit_keys_def)
      moreover have "fl_credit f0 = None" if fed: "fed_data ni links"
      proof -
        have "?i \<in> set (map ip_inNetLink (ni_inPorts ni))" using assms(2) by simp
        with fed consume_links(4) [OF l c] have "all_data (link_flits (links ! nat ?i))" unfolding fed_data_def by blast
        with consume_links(3) [OF l c] show ?thesis by (simp add: all_data_def)
      qed
      ultimately show ?thesis
        using consume_keys [OF l c] consume_links(1,2,5) [OF l c] by (auto simp: taken_def)
    qed
    from k show ?thesis
    proof (elim if_InrE)
      assume t: "is_tail (f0\<lparr>fl_dequeue_time := now\<rparr>)"
        and "bindR (receive_tail cfg rs msgs rt now p (f0\<lparr>fl_dequeue_time := now\<rparr>) (ni, gs))
            (\<lambda>(ni1, gs1, rq). Inr (ni1, gs1, links[nat ?i := l'], reqs @ rq)) = Inr (ni', gs', links', reqs')"
      then obtain rq where "receive_tail cfg rs msgs rt now p (f0\<lparr>fl_dequeue_time := now\<rparr>) (ni, gs) = Inr (ni', gs', rq)"
        and "links' = links[nat ?i := l']" by (auto elim!: bindR_InrE)
      with receive_tail_exchange [OF this(1) assms(2) t keys] show ?thesis by simp
    next
      assume t: "\<not> is_tail (f0\<lparr>fl_dequeue_time := now\<rparr>)"
        and "bindR (retire_flit cfg now p False (f0\<lparr>fl_dequeue_time := now\<rparr>) (ni, gs))
            (\<lambda>(ni1, gs1). Inr (ni1, gs1, links[nat ?i := l'], reqs)) = Inr (ni', gs', links', reqs')"
      then have "retire_flit cfg now p (is_tail (f0\<lparr>fl_dequeue_time := now\<rparr>)) (f0\<lparr>fl_dequeue_time := now\<rparr>) (ni, gs) = Inr (ni', gs')"
        and "links' = links[nat ?i := l']" by (auto elim!: bindR_InrE)
      with retire_exchange [OF this(1) _ _ _ assms(2) keys] show ?thesis
        by (auto intro: exchanges_one simp: same_account_def same_ids_def)
    qed
  qed
qed

lemma receive_credit_exchanges:
  assumes "ni_receive_credit now p (ni, links) = Inr (ni', links')"
  shows "exchanges (ni, gs, links) (ni', gs, links')"
proof -
  let ?i = "op_inCreditLink (ni_outPorts ni ! p)"
  from assms obtain l where l: "nthR links ?i = Inr l"
    and r: "(if link_isReady now l then
       bindR (consumeLink l) (\<lambda>(t_credit, l').
       guardR (fl_credit t_credit \<noteq> None) (Null_pointer ''not a Credit'')
       (bindR (modR (ni_outVcState ni) (fl_vc t_credit) increment_credit) (\<lambda>states.
        bindR (if is_free_signal t_credit
               then modR states (fl_vc t_credit) (\<lambda>v. Inr (setState IDLE now v)) else Inr states) (\<lambda>states'.
          Inr (ni\<lparr>ni_outVcState := states'\<rparr>, links[nat ?i := l'])))))
     else Inr (ni, links)) = Inr (ni', links')"
    unfolding ni_receive_credit_def Let_def prod.case by (elim bindR_InrE) blast
  show ?thesis
  proof (cases "link_isReady now l")
    case False
    with r show ?thesis by (simp add: exchanges_refl)
  next
    case True
    with r obtain c l' states states' where c: "consumeLink l = Inr (c, l')" and data: "fl_credit c \<noteq> None"
      and s: "modR (ni_outVcState ni) (fl_vc c) increment_credit = Inr states"
      and s': "(if is_free_signal c then modR states (fl_vc c) (\<lambda>v. Inr (setState IDLE now v)) else Inr states) = Inr states'"
      and ni': "ni' = ni\<lparr>ni_outVcState := states'\<rparr>" "links' = links[nat ?i := l']"
      by (auto elim!: bindR_InrE guardR_InrE split del: if_split)
    have keys: "links_keys (links[nat ?i := l']) = links_keys links"
      using consume_keys [OF l c] data by (auto simp: flit_keys_credit)
    have cr: "credits_on (links[nat ?i := l']) + 1 = credits_on links"
      using consume_links(5) [OF l c] data by auto
    have "sum_list (map ovc_credit_count states) = sum_list (map ovc_credit_count (ni_outVcState ni)) + 1"
    proof -
      from s obtain v where v: "increment_credit (ni_outVcState ni ! nat (fl_vc c)) = Inr v"
        "states = (ni_outVcState ni)[nat (fl_vc c) := v]" "nat (fl_vc c) < length (ni_outVcState ni)"
        by (auto simp: modR_eq_Inr)
      have "ovc_credit_count v = ovc_credit_count (ni_outVcState ni ! nat (fl_vc c)) + 1"
        using v(1) by (auto simp: increment_credit_def Let_def elim!: guardR_InrE)
      with sum_list_update_add [OF v(3), of ovc_credit_count v] v(2) show ?thesis by simp
    qed
    moreover have "sum_list (map ovc_credit_count states') = sum_list (map ovc_credit_count states) \<and> length states' = length states"
      using s' by (elim if_InrE) (auto simp: modR_eq_Inr setState_def intro!: sum_list_update_same)
    moreover have "length states = length (ni_outVcState ni)" by (rule modR_length [OF s])
    ultimately have "exchange [] 1 (ni, gs, links) (ni', gs, links')"
      using keys cr consume_links(1,2) [OF l c] unfolding ni'
      by (simp add: exchange_def traffic_def ni_keys_def credit_msgs_def credit_total_def waiting_def ni_ok_def same_ids_def
          ni_data_def stalled_def ac_simps)
    then show ?thesis by (rule exchanges_one)
  qed
qed

section \<open>Departing flits\<close>

lemma ni_scheduleFlit_frame:
  assumes "ni_scheduleFlit now f (ni, links) = Inr (ni', links')"
  shows "ni_inPorts ni' = ni_inPorts ni" "ni_trace_injection_queue ni' = ni_trace_injection_queue ni"
  using assms by (auto elim!: ni_scheduleFlitE)

lemma ni_scheduleFlit_traffic:
  assumes "ni_scheduleFlit now f (ni, links) = Inr (ni', links')"
  shows "same_links links links'" "ni_data ni \<Longrightarrow> fl_credit f = None \<Longrightarrow> ni_data ni'"
proof -
  from assms obtain i where i: "getOutportForVnet (fl_vnet f) ni = Some i" by (auto simp: ni_scheduleFlit_def split: option.splits)
  then have n: "i < length (ni_outPorts ni)" using getOutportForVnet_Some by blast
  from assms i have m: "modR links (op_outNetLink (ni_outPorts ni ! i))
       (\<lambda>l. Inr (link_scheduleEventAbsolute now (ni_clockEdge now 1 ni) l)) = Inr links'"
    and ni': "ni' = ni\<lparr>ni_outPorts := (ni_outPorts ni)[i := (ni_outPorts ni ! i)
        \<lparr>op_outFlitQueue := fb_insert f (op_outFlitQueue (ni_outPorts ni ! i))\<rparr>]\<rparr>"
    unfolding ni_scheduleFlit_def by (auto simp: Let_def elim: bindR_InrE)
  show "same_links links links'" by (rule schedule_same_links [OF m])
  show "ni_data ni'" if "ni_data ni" "fl_credit f = None"
  proof -
    let ?P = "ni_outPorts ni ! i"
    have "all_data (fb_buffer (op_outFlitQueue ?P))" using that(1) nth_mem [OF n] by (simp add: ni_data_def)
    then have "\<forall>p \<in> set ((ni_outPorts ni)[i := ?P\<lparr>op_outFlitQueue := fb_insert f (op_outFlitQueue ?P)\<rparr>]). all_data (fb_buffer (op_outFlitQueue p))"
      using that by (intro all_update) (simp_all add: ni_data_def)
    with that(1) show ?thesis by (simp add: ni_data_def ni')
  qed
qed

lemma send_vc_exchange:
  assumes "send_vc now port vc (ni, links) = Inr (ni', links')" "port < length (ni_outPorts ni)"
  shows "exchange [] 0 (ni, gs, links) (ni', gs, links')"
proof -
  from assms(1) obtain v f b ni1 ts where
    vc: "0 \<le> vc" "vc < int (length (ni_outVcState ni))" "vc < int (length (ni_niOutVcs ni))"
    and v: "decrement_credit (ni_outVcState ni ! nat vc) = Inr v"
    and top: "fb_getTopFlit (ni_niOutVcs ni ! nat vc) = Inr (f, b)"
    and s: "ni_scheduleFlit now (f\<lparr>fl_time := ni_clockEdge now 1 ni\<rparr>)
        (ni\<lparr>ni_outPorts := (ni_outPorts ni)[port := (ni_outPorts ni ! port)\<lparr>op_vcRoundRobin := vc\<rparr>],
            ni_outVcState := (ni_outVcState ni)[nat vc := v], ni_niOutVcs := (ni_niOutVcs ni)[nat vc := b]\<rparr>, links)
      = Inr (ni1, links')"
    and ni': "ni' = ni1\<lparr>ni_out_vcs_enqueue_time := ts\<rparr>" by (rule send_vcE)
  note keys = ni_scheduleFlit_keys [OF s] and frame = ni_scheduleFlit_frame [OF s]
  have n: "nat vc < length (ni_outVcState ni)" using vc by simp
  have "credit_total ni' + 1 = credit_total ni"
    using sum_list_update_add [OF n, of ovc_credit_count v] decrement_credit_Inr [OF v] keys(3) ni'
    by (simp add: credit_total_def)
  moreover have "credit_msgs ni' = credit_msgs ni" using frame ni' by (simp add: credit_msgs_def)
  moreover have "ni_ok ni \<longrightarrow> ni_ok ni'" using frame keys(3,4) ni' by (simp add: ni_ok_def)
  moreover have "traffic [] 0 (ni, links) (ni', links')"
  proof -
    let ?ni = "ni\<lparr>ni_outPorts := (ni_outPorts ni)[port := (ni_outPorts ni ! port)\<lparr>op_vcRoundRobin := vc\<rparr>],
            ni_outVcState := (ni_outVcState ni)[nat vc := v], ni_niOutVcs := (ni_niOutVcs ni)[nat vc := b]\<rparr>"
    have m: "nat vc < length (ni_niOutVcs ni)" using vc by simp
    have t: "fb_buffer (ni_niOutVcs ni ! nat vc) = f # fb_buffer b" using top by (auto simp: fb_getTopFlit_eq)
    have "ni_data ni'" if d: "ni_data ni"
    proof -
      have "all_data (fb_buffer (ni_niOutVcs ni ! nat vc))" using d m by (simp add: ni_data_def)
      then have f: "fl_credit (f\<lparr>fl_time := ni_clockEdge now 1 ni\<rparr>) = None" and b: "all_data (fb_buffer b)" unfolding t by simp_all
      from d have ops: "\<forall>p \<in> set (ni_outPorts ni). all_data (fb_buffer (op_outFlitQueue p))"
        and vcs: "\<forall>b \<in> set (ni_niOutVcs ni). all_data (fb_buffer b)" by (simp_all add: ni_data_def)
      have "all_data (fb_buffer (op_outFlitQueue ((ni_outPorts ni ! port)\<lparr>op_vcRoundRobin := vc\<rparr>)))"
        using ops nth_mem [OF assms(2)] by simp
      note all_update [OF ops this, of port] all_update [OF vcs b, of "nat vc"]
      with d have "ni_data ?ni" by (simp add: ni_data_def)
      then have "ni_data ni1" by (rule ni_scheduleFlit_traffic(2) [OF s _ f])
      then show ?thesis by (simp add: ni' ni_data_def)
    qed
    then show ?thesis
      using same_links_eqs [OF ni_scheduleFlit_traffic(1) [OF s]] frame ni' by (simp add: traffic_def stalled_def)
  qed
  ultimately show ?thesis
    using send_vc_spends [OF assms] frame keys(5) ni' by (simp add: exchange_def same_ids_def)
qed

lemma output_port_loop_exchanges:
  assumes "output_port_loop k cfg now port vc (ni, links) = Inr (ni', links')" "port < length (ni_outPorts ni)"
  shows "exchanges (ni, gs, links) (ni', gs, links')"
  using assms(1)
proof (induction k arbitrary: vc)
  case 0
  then show ?case by (simp add: exchanges_refl)
next
  case (Suc k)
  from Suc.prems obtain vc' ok where
    "(if ok then send_vc now port vc' (ni, links) else output_port_loop k cfg now port vc' (ni, links)) = Inr (ni', links')"
    unfolding output_port_loop.simps Let_def by (elim bindR_InrE) blast
  then show ?case
    by (elim if_InrE) (blast intro: exchanges_one send_vc_exchange assms(2), blast intro: Suc.IH)
qed

lemma scheduleOutputLink_exchanges:
  assumes "scheduleOutputLink cfg now (ni, links) = Inr (ni', links')"
  shows "exchanges (ni, gs, links) (ni', gs, links')"
proof -
  let ?I = "\<lambda>(ni1, links1). exchanges (ni, gs, links) (ni1, gs, links1)"
  have "?I (ni', links')"
  proof (rule foldR_invariant [where f = "scheduleOutputPort cfg now" and xs = "[0..<length (ni_outPorts ni)]"])
    show "foldR (scheduleOutputPort cfg now) [0..<length (ni_outPorts ni)] (ni, links) = Inr (ni', links')"
      using assms by (simp add: scheduleOutputLink_def)
    show "?I (ni, links)" by (simp add: exchanges_refl)
  next
    fix p s s'
    assume p: "p \<in> set [0..<length (ni_outPorts ni)]" and I: "?I s" and step: "scheduleOutputPort cfg now p s = Inr s'"
    obtain ni1 l1 ni2 l2 where s: "s = (ni1, l1)" "s' = (ni2, l2)" by (cases s, cases s')
    have I1: "exchanges (ni, gs, links) (ni1, gs, l1)" using I s by simp
    have "p < length (ni_outPorts ni1)" using p exchanges_ok(3) [OF I1] by simp
    with step I1 show "?I s'"
      unfolding s scheduleOutputPort_def by (auto intro: exchanges_trans output_port_loop_exchanges)
  qed
  then show ?thesis by simp
qed

section \<open>A whole wakeup\<close>

lemma receive_ports_exchanges:
  assumes "foldR (receive_port cfg rs msgs rt now) [0..<length (ni_inPorts ni)] (ni, gs, links, reqs) = Inr (ni', gs', links', reqs')"
  shows "exchanges (ni, gs, links) (ni', gs', links')"
proof -
  let ?I = "\<lambda>(ni1, gs1, links1, reqs1). exchanges (ni, gs, links) (ni1, gs1, links1)"
  have "?I (ni', gs', links', reqs')"
  proof (rule foldR_invariant [OF assms])
    show "?I (ni, gs, links, reqs)" by (simp add: exchanges_refl)
  next
    fix p s s'
    assume p: "p \<in> set [0..<length (ni_inPorts ni)]" and I: "?I s" and step: "receive_port cfg rs msgs rt now p s = Inr s'"
    obtain ni1 g1 l1 r1 where s: "s = (ni1, g1, l1, r1)" by (cases s)
    obtain ni2 g2 l2 r2 where s': "s' = (ni2, g2, l2, r2)" by (cases s')
    have I1: "exchanges (ni, gs, links) (ni1, g1, l1)" using I s by simp
    have "p < length (ni_inPorts ni1)" using p exchanges_ok(2) [OF I1] by simp
    from receive_port_exchanges [OF step [unfolded s s'] this] I1 exchanges_trans show "?I s'" unfolding s' by auto
  qed
  then show ?thesis by simp
qed

lemma receive_credits_exchanges:
  assumes "foldR (ni_receive_credit now) ps (ni, links) = Inr (ni', links')"
  shows "exchanges (ni, gs, links) (ni', gs, links')"
proof -
  let ?I = "\<lambda>(ni1, links1). exchanges (ni, gs, links) (ni1, gs, links1)"
  have "?I (ni', links')"
    by (rule foldR_invariant [OF assms])
      (auto simp: exchanges_refl intro: exchanges_trans receive_credit_exchanges)
  then show ?thesis by simp
qed

lemma schedule_credit_links_same:
  "foldR (\<lambda>p. schedule_credit_link now p ni) ps links = Inr links' \<Longrightarrow> same_links links links'"
  by (rule foldR_invariant [where P = "\<lambda>l. same_links links l"])
    (auto simp: schedule_credit_link_def Let_def dest!: schedule_same_links elim: same_links_trans elim!: if_InrE)

lemma checkReschedule_account:
  "checkReschedule now (ni, links) = Inr (ni', reqs) \<Longrightarrow> same_account ni ni'"
  unfolding checkReschedule_def
  by (auto simp: same_account_def ni_scheduleEvent_def elim!: bindR_InrE)

lemma wakeup_exchanges:
  assumes "ni_wakeup_rest cfg rs msgs rt now (ni, gs, links) = Inr (ni', gs', links', reqs)" and "ni_ok ni"
  shows "exchanges (ni, gs, links) (ni', gs', links')"
proof -
  from assms(1) obtain ni1 l1 ni2 gs2 reqs2 ni3 l3 reqs3 ni4 l4 reqs5 where
    a: "scheduleOutputLink cfg now (ni, links) = Inr (ni1, l1)"
    and b: "checkStallQueue cfg rs msgs rt now (ni1, gs) = Inr (ni2, gs2, reqs2)"
    and c: "foldR (receive_port cfg rs msgs rt now) [0..<length (ni_inPorts ni2)] (ni2, gs2, l1, reqs2) = Inr (ni3, gs', l3, reqs3)"
    and d: "foldR (ni_receive_credit now) [0..<length (ni_outPorts ni3)] (ni3, l3) = Inr (ni4, l4)"
    and e: "foldR (\<lambda>p. schedule_credit_link now p ni4) [0..<length (ni_inPorts ni4)] l4 = Inr links'"
    and f: "checkReschedule now (ni4, links') = Inr (ni', reqs5)"
    unfolding ni_wakeup_rest_def by (auto elim!: bindR_InrE)
  have ab: "exchanges (ni, gs, links) (ni1, gs, l1)" by (rule scheduleOutputLink_exchanges [OF a])
  have "exchanges (ni1, gs, l1) (ni2, gs2, l1)"
    using checkStallQueue_exchanges [OF b] exchanges_ok(1) [OF ab assms(2)] by blast
  with ab have "exchanges (ni, gs, links) (ni2, gs2, l1)" by (rule exchanges_trans)
  then have "exchanges (ni, gs, links) (ni3, gs', l3)" using receive_ports_exchanges [OF c] by (rule exchanges_trans)
  then have "exchanges (ni, gs, links) (ni4, gs', l4)" using receive_credits_exchanges [OF d] by (rule exchanges_trans)
  moreover have "exchanges (ni4, gs', l4) (ni', gs', links')"
    by (intro exchanges_one [OF same_account_exchange] checkReschedule_account [OF f] schedule_credit_links_same [OF e])
      (simp_all add: same_ids_def)
  ultimately show ?thesis by (rule exchanges_trans)
qed


text \<open>A flit waits on the input link of the loaded example interface.\<close>

definition example_flags :: ruby_flags where
  "example_flags = \<lparr>rs_randomization = False, rs_warmup_enabled = False\<rparr>"

definition example_wakeup :: "((NetworkInterface \<times> NetworkLink list) \<times> ni_state) res" where
  "example_wakeup = bindR example_loaded (\<lambda>(ni, links).
     let l = links ! 2;
         links1 = links[2 := l\<lparr>lk_linkBuffer := fb_insert ((example_trace_flit 9 1)\<lparr>fl_vc := 3\<rparr>) (lk_linkBuffer l)\<rparr>] in
     bindR (ni_wakeup_rest example_config example_flags (\<lambda>_. None) 0 10 (ni, GarnetStats_new 2 1 True (-1) False, links1))
       (\<lambda>r. Inr ((ni, links1), r)))"


end
