(* ===== verification/NetworkRun.thy ===== *)
theory NetworkRun
  imports GarnetNetwork InterfaceReceive
begin

text \<open>
  Runs of a whole network that replays a trace: any number of wakeups of the trace driver, the
  interfaces, the routers and their output ports, and the links, at any times and in any order. Whatever the order,
  every flit that was ever made from the trace is in exactly one place, or was delivered once.
\<close>

section \<open>Injection\<close>

text \<open>The flits of the trace: \<open>n\<close> packets of one flit, numbered from \<open>k\<close>.\<close>

definition created :: "int \<Rightarrow> nat \<Rightarrow> (int \<times> int) multiset" where
  "created k n = mset (map (\<lambda>j. (k + j, 0)) (upto_int n))"

lemma created_add: "created k (m + n) = created k m + created (k + int m) n"
  by (simp add: created_def upto_int_add comp_def add.assoc)

lemma created_0 [simp]: "created k 0 = {#}"
  by (simp add: created_def)

lemma created_once: "count (created k n) x \<le> 1"
proof -
  have "distinct (map (\<lambda>j. (k + j, 0 :: int)) (upto_int n))" by (simp add: distinct_map inj_on_def)
  then show ?thesis unfolding created_def
    by (metis distinct_count_atmost_1 le_numeral_extra(4) zero_le)
qed

lemma number_flits_keys:
  "flit_keys (number_flits now width k items) = created k (length items)"
proof -
  let ?fs = "number_flits now width k items"
  have credit: "filter (\<lambda>f. fl_credit f = None) ?fs = ?fs" by (simp add: filter_id_conv number_flits_props)
  have "map (\<lambda>f. (fl_packet_id f, fl_id f)) ?fs = map (\<lambda>f. (fl_packet_id f, 0)) ?fs"
    by (rule map_cong) (simp_all add: number_flits_props)
  also have "\<dots> = map (\<lambda>p. (p, 0)) (map fl_packet_id ?fs)" by simp
  also have "\<dots> = map (\<lambda>j. (k + j, 0)) (upto_int (length items))" unfolding number_flits_props by simp
  finally show ?thesis unfolding flit_keys_def credit created_def by (rule arg_cong)
qed

lemma transfer_shape:
  assumes "transferTraceRecordsToInjectionQueue mt router_of stray now (ni, gs) = Inr (ni', gs')"
  obtains recs w items where
    "ni' = ni\<lparr>ni_trace_record_queue := recs,
      ni_trace_injection_queue := ni_trace_injection_queue ni @ number_flits now w (gs_next_packet_id gs) items\<rparr>"
    "gs' = gs\<lparr>gs_next_packet_id := gs_next_packet_id gs + int (length items)\<rparr>"
proof (cases "ni_trace_record_queue ni")
  case Nil
  with assms have "ni' = ni" "gs' = gs" by (simp_all add: transferTraceRecordsToInjectionQueue_def)
  with that [where recs = "ni_trace_record_queue ni" and items = "[]"] show thesis by simp
next
  case (Cons r rs)
  with assms obtain w rrs queue where fls: "trace_flits now w rrs (ni_trace_injection_queue ni, gs) = (queue, gs')"
    and ni': "ni' = ni\<lparr>ni_trace_record_queue := dropWhile (\<lambda>x. tr_time x = tr_time r) (ni_trace_record_queue ni),
      ni_trace_injection_queue := queue\<rparr>"
    by (auto simp: transferTraceRecordsToInjectionQueue_def Let_def split: option.splits prod.splits elim!: bindR_InrE)
  with that show thesis unfolding trace_flits_shape Let_def by auto
qed

text \<open>What an injection leaves alone.\<close>

definition quiet :: "NetworkInterface \<times> GarnetStats \<Rightarrow> NetworkInterface \<times> GarnetStats \<Rightarrow> bool" where
  "quiet = (\<lambda>(ni, gs) (ni', gs').
    received_total gs' = received_total gs \<and> gs_trace_enable gs' = gs_trace_enable gs \<and> (ni_ok ni \<longrightarrow> ni_ok ni') \<and>
    ni_inPorts ni' = ni_inPorts ni \<and> (ni_data ni \<longrightarrow> ni_data ni'))"

lemma quiet_trans: "quiet a b \<Longrightarrow> quiet b c \<Longrightarrow> quiet a c"
  by (auto simp: quiet_def)

lemma calculate_loop_frame:
  "calculate_loop k now vnet ni = Inr (found, ni') \<Longrightarrow>
    \<exists>a b. ni' = ni\<lparr>ni_vc_allocator := a, ni_vc_busy_counter := b\<rparr>"
proof (induction k arbitrary: ni)
  case 0
  then have "ni' = ni\<lparr>ni_vc_allocator := ni_vc_allocator ni, ni_vc_busy_counter := ni_vc_busy_counter ni\<rparr>" by simp
  then show ?case by blast
next
  case (Suc k)
  from Suc.prems show ?case
    unfolding calculate_loop.simps Let_def
    by (elim bindR_InrE if_InrE) (fastforce dest: Suc.IH)+
qed

lemma calculateVC_frame:
  assumes "calculateVC now vnet ni = Inr (vc, ni')"
  obtains a b where "ni' = ni\<lparr>ni_vc_allocator := a, ni_vc_busy_counter := b\<rparr>"
proof -
  from assms obtain found ni1 where l: "calculate_loop (ni_vc_per_vnet ni) now vnet ni = Inr (found, ni1)"
    and r: "(case found of Some vc \<Rightarrow> Inr (vc, ni1)
    | None \<Rightarrow>
        bindR (nthR (ni_vc_busy_counter ni1) vnet) (\<lambda>n.
        bindR (setR (ni_vc_busy_counter ni1) vnet (n + 1)) (\<lambda>busy.
        guardR (n + 1 \<le> ni_deadlock_threshold ni1) (Panic ''Possible network deadlock'')
          (Inr (-1, ni1\<lparr>ni_vc_busy_counter := busy\<rparr>))))) = Inr (vc, ni')"
    unfolding calculateVC_def by (elim bindR_InrE case_prod_InrE) blast
  from calculate_loop_frame [OF l] r that show thesis
    by (cases found) (auto elim!: bindR_InrE guardR_InrE)
qed

lemma injectTraceFlit_account:
  assumes "injectTraceFlit now vnet vc (ni, gs) = Inr (ni', gs')"
  shows "ni_keys ni' = ni_keys ni \<and> gs_next_packet_id gs' = gs_next_packet_id gs \<and> quiet (ni, gs) (ni', gs')"
proof (cases "ni_trace_injection_queue ni")
  case Nil
  with assms show ?thesis by (simp add: injectTraceFlit_def)
next
  case (Cons t_flit queue)
  let ?f = "t_flit\<lparr>fl_vc := vc, fl_time := now, fl_src_delay := tick_sub now (fl_enqueue_time t_flit), fl_enqueue_time := now\<rparr>"
  from assms Cons obtain bs ts states gs1 where bs: "modR (ni_niOutVcs ni) vc (\<lambda>b. Inr (fb_insert ?f b)) = Inr bs"
    and states: "modR (ni_outVcState ni) vc (\<lambda>v. Inr (setState ACTIVE now v)) = Inr states"
    and g1: "(if is_tail ?f then increment_injected_packets vnet gs else Inr gs) = Inr gs1"
    and g2: "increment_injected_flits vnet gs1 = Inr gs'"
    and ni': "ni' = ni\<lparr>ni_trace_injection_queue := queue, ni_niOutVcs := bs, ni_out_vcs_enqueue_time := ts, ni_outVcState := states\<rparr>"
    by (auto simp: injectTraceFlit_def Let_def elim!: bindR_InrE split del: if_split)
  have f: "flit_keys [?f] = flit_keys [t_flit]" by (simp add: flit_keys_def)
  from bs have i: "nat vc < length (ni_niOutVcs ni)" and bs': "bs = (ni_niOutVcs ni)[nat vc := fb_insert ?f (ni_niOutVcs ni ! nat vc)]"
    by (auto simp: modR_eq_Inr)
  have "sum_list (map (\<lambda>b. flit_keys (fb_buffer b)) bs)
      = sum_list (map (\<lambda>b. flit_keys (fb_buffer b)) (ni_niOutVcs ni)) + flit_keys [t_flit]"
    using sum_list_update_add [OF i, of "\<lambda>b. flit_keys (fb_buffer b)" "fb_insert ?f (ni_niOutVcs ni ! nat vc)"] f
    unfolding bs' by (simp add: ac_simps)
  then have keys: "ni_keys ni' = ni_keys ni"
    using Cons flit_keys_Cons [of t_flit queue] unfolding ni' by (simp add: ni_keys_def ac_simps)
  have "length states = length (ni_outVcState ni)" "length bs = length (ni_niOutVcs ni)"
    using modR_length [OF states] modR_length [OF bs] by simp_all
  then have ok: "ni_ok ni \<longrightarrow> ni_ok ni'" unfolding ni' by (simp add: ni_ok_def)
  have data: "ni_data ni'" if d: "ni_data ni"
  proof -
    from d have vcs: "\<forall>b \<in> set (ni_niOutVcs ni). all_data (fb_buffer b)" and t: "all_data (t_flit # queue)"
      using Cons by (simp_all add: ni_data_def)
    have "all_data (fb_buffer (fb_insert ?f (ni_niOutVcs ni ! nat vc)))" using vcs i t by simp
    from all_update [OF vcs this] d t show ?thesis by (simp add: ni_data_def ni' bs')
  qed
  have "received_total gs' = received_total gs \<and> gs_trace_enable gs' = gs_trace_enable gs \<and>
      gs_next_packet_id gs' = gs_next_packet_id gs"
    using g1 g2 by (elim if_InrE)
      (auto simp: increment_injected_packets_def increment_injected_flits_def received_total_def elim!: bindR_InrE)
  with keys ok data show ?thesis by (simp add: quiet_def ni')
qed

lemma inject_account:
  assumes "ni_inject_trace mt router_of stray now (ni, gs) = Inr (ni', gs')"
  shows "\<exists>n. ni_keys ni' = ni_keys ni + created (gs_next_packet_id gs) n \<and>
    gs_next_packet_id gs' = gs_next_packet_id gs + int n \<and> quiet (ni, gs) (ni', gs')"
proof -
  from assms obtain ni1 gs1 where
    a: "(if ni_trace_injection_queue ni = [] \<and> ni_trace_record_queue ni \<noteq> []
           then transferTraceRecordsToInjectionQueue mt router_of stray now (ni, gs) else Inr (ni, gs)) = Inr (ni1, gs1)"
    and b: "(case ni_trace_injection_queue ni1 of
         [] \<Rightarrow> Inr (ni1, gs1)
       | t_flit # _ \<Rightarrow>
           bindR (calculateVC now (fl_vnet t_flit) ni1) (\<lambda>(vc, ni2).
             if vc \<noteq> -1 then injectTraceFlit now (fl_vnet t_flit) vc (ni2, gs1) else Inr (ni2, gs1))) = Inr (ni', gs')"
    unfolding ni_inject_trace_def prod.case by (elim bindR_InrE case_prod_InrE) blast
  have "\<exists>n. ni_keys ni1 = ni_keys ni + created (gs_next_packet_id gs) n \<and>
      gs_next_packet_id gs1 = gs_next_packet_id gs + int n \<and> quiet (ni, gs) (ni1, gs1)"
    using a
  proof (elim if_InrE)
    assume "transferTraceRecordsToInjectionQueue mt router_of stray now (ni, gs) = Inr (ni1, gs1)"
    then obtain recs w items where ni1: "ni1 = ni\<lparr>ni_trace_record_queue := recs,
        ni_trace_injection_queue := ni_trace_injection_queue ni @ number_flits now w (gs_next_packet_id gs) items\<rparr>"
      and gs1: "gs1 = gs\<lparr>gs_next_packet_id := gs_next_packet_id gs + int (length items)\<rparr>" by (rule transfer_shape)
    have "ni_keys ni1 = ni_keys ni + created (gs_next_packet_id gs) (length items)"
      unfolding ni1 by (simp add: ni_keys_def number_flits_keys ac_simps)
    moreover have "all_data (number_flits now w (gs_next_packet_id gs) items)"
      using number_flits_props(4) [of now w "gs_next_packet_id gs" items] by (auto simp: all_data_def)
    ultimately show ?thesis unfolding gs1 ni1
      by (intro exI [of _ "length items"]) (simp add: quiet_def received_total_def ni_ok_def ni_data_def)
  next
    assume "Inr (ni, gs) = (Inr (ni1, gs1) :: (NetworkInterface \<times> GarnetStats) res)"
    then show ?thesis by (intro exI [of _ 0]) (simp add: quiet_def)
  qed
  moreover have "ni_keys ni' = ni_keys ni1 \<and> gs_next_packet_id gs' = gs_next_packet_id gs1 \<and> quiet (ni1, gs1) (ni', gs')"
  proof (cases "ni_trace_injection_queue ni1")
    case Nil
    with b show ?thesis by (simp add: quiet_def)
  next
    case (Cons f fs)
    with b obtain vc ni2 where v: "calculateVC now (fl_vnet f) ni1 = Inr (vc, ni2)"
      and i: "(if vc \<noteq> -1 then injectTraceFlit now (fl_vnet f) vc (ni2, gs1) else Inr (ni2, gs1)) = Inr (ni', gs')"
      by (auto elim!: bindR_InrE split del: if_split)
    from v obtain al bu where ni2: "ni2 = ni1\<lparr>ni_vc_allocator := al, ni_vc_busy_counter := bu\<rparr>" by (rule calculateVC_frame)
    have same: "ni_keys ni2 = ni_keys ni1" "quiet (ni1, gs1) (ni2, gs1)"
      unfolding ni2 by (simp_all add: ni_keys_def quiet_def ni_ok_def ni_data_def)
    from i show ?thesis
      by (elim if_InrE) (use same quiet_trans in \<open>auto dest!: injectTraceFlit_account\<close>)
  qed
  ultimately show ?thesis by (metis quiet_trans)
qed

section \<open>The flits of a network\<close>

definition own_keys :: "Router \<Rightarrow> (int \<times> int) multiset" where
  "own_keys r = ius_keys (r_input_unit r) + xb_keys (r_crossbarSwitch r) + ous_keys (r_output_unit r)"

definition net_keys :: "'r GarnetNetwork \<Rightarrow> (int \<times> int) multiset" where
  "net_keys net = sum_list (map ni_keys (gn_nis net)) + sum_list (map own_keys (gn_routers net)) + links_keys (gn_links net)"

text \<open>What an event other than a wakeup of an interface keeps.\<close>

definition calm :: "'r GarnetNetwork \<Rightarrow> 'r GarnetNetwork \<Rightarrow> bool" where
  "calm net net' \<longleftrightarrow> net_keys net' = net_keys net \<and> same_ids (gn_stats net) (gn_stats net') \<and>
    received_total (gn_stats net') = received_total (gn_stats net) \<and>
    ((\<forall>ni \<in> set (gn_nis net). ni_ok ni) \<longrightarrow> (\<forall>ni \<in> set (gn_nis net'). ni_ok ni))"

lemma calm_refl: "calm net net"
  by (simp add: calm_def same_ids_def)

lemma same_ids_trans: "same_ids a b \<Longrightarrow> same_ids b c \<Longrightarrow> same_ids a c"
  by (simp add: same_ids_def)

lemma calm_trans: "calm a b \<Longrightarrow> calm b c \<Longrightarrow> calm a c"
  unfolding calm_def by (elim conjE, intro conjI) (iprover intro: trans same_ids_trans)+

section \<open>The wakeup of a router\<close>

lemma on_router_calm:
  assumes "on_router i f net = Inr net'" and keys: "\<And>r r'. f r = Inr r' \<Longrightarrow> router_keys r' = router_keys r"
  shows "calm net net'"
proof -
  from assms(1) obtain r' where i: "0 \<le> i" "nat i < length (gn_routers net)"
    and r': "f ((gn_routers net ! nat i)\<lparr>r_links := gn_links net\<rparr>) = Inr r'"
    and net': "net' = net\<lparr>gn_routers := (gn_routers net)[nat i := r'], gn_links := r_links r'\<rparr>"
    by (auto simp: on_router_def nthR_eq_Inr elim!: bindR_InrE)
  have k: "own_keys r' + links_keys (r_links r') = own_keys (gn_routers net ! nat i) + links_keys (gn_links net)"
    using keys [OF r'] by (simp add: router_keys_def own_keys_def)
  have "sum_list (map own_keys (gn_routers net')) + own_keys (gn_routers net ! nat i) + links_keys (r_links r')
      = sum_list (map own_keys (gn_routers net)) + (own_keys r' + links_keys (r_links r'))"
    using sum_list_update_add [OF i(2), of own_keys r'] unfolding net' by (simp add: ac_simps)
  then have "sum_list (map own_keys (gn_routers net')) + links_keys (r_links r')
      = sum_list (map own_keys (gn_routers net)) + links_keys (gn_links net)"
    unfolding k by (simp add: ac_simps)
  then have "net_keys net' = net_keys net" by (simp add: net_keys_def net' ac_simps)
  then show ?thesis by (simp add: calm_def same_ids_def net')
qed

lemma router_event_calm:
  "on_router i (Router_wakeup cfg now rnd) net = Inr net' \<Longrightarrow> calm net net'"
  by (erule on_router_calm) (rule Router_wakeup_keys)

lemma output_unit_event_calm:
  "on_router i (outport_step now p) net = Inr net' \<Longrightarrow> calm net net'"
  by (erule on_router_calm) (rule outport_step_keys)

section \<open>The wakeup of a link\<close>

text \<open>The queue a link reads from, in the network.\<close>

definition source_queue :: "queue_ref \<Rightarrow> 'r GarnetNetwork \<Rightarrow> flitBuffer res" where
  "source_queue q net =
    (case q of
       Router_out r p \<Rightarrow> bindR (nthR (gn_routers net) (int r)) (\<lambda>x. bindR (nthR (r_output_unit x) (int p)) (\<lambda>ou. Inr (ou_outBuffer ou)))
     | Router_credit r p \<Rightarrow> bindR (nthR (gn_routers net) (int r)) (\<lambda>x. bindR (nthR (r_input_unit x) (int p)) (\<lambda>iu. Inr (iu_creditQueue iu)))
     | NI_out n p \<Rightarrow> bindR (nthR (gn_nis net) (int n)) (\<lambda>x. bindR (nthR (ni_outPorts x) (int p)) (\<lambda>op. Inr (op_outFlitQueue op)))
     | NI_credit n p \<Rightarrow> bindR (nthR (gn_nis net) (int n)) (\<lambda>x. bindR (nthR (ni_inPorts x) (int p)) (\<lambda>ip. Inr (ip_outCreditQueue ip)))
     | Bridge_buffer b \<Rightarrow> bindR (nthR (gn_links net) (int b)) (\<lambda>l. Inr (lk_linkBuffer l)))"

definition put_source :: "queue_ref \<Rightarrow> flitBuffer \<Rightarrow> 'r GarnetNetwork \<Rightarrow> 'r GarnetNetwork" where
  "put_source q b net =
    (case q of
       Router_out r p \<Rightarrow> let x = gn_routers net ! r in
         net\<lparr>gn_routers := (gn_routers net)[r := x\<lparr>r_output_unit := (r_output_unit x)[p := (r_output_unit x ! p)\<lparr>ou_outBuffer := b\<rparr>]\<rparr>]\<rparr>
     | Router_credit r p \<Rightarrow> let x = gn_routers net ! r in
         net\<lparr>gn_routers := (gn_routers net)[r := x\<lparr>r_input_unit := (r_input_unit x)[p := (r_input_unit x ! p)\<lparr>iu_creditQueue := b\<rparr>]\<rparr>]\<rparr>
     | NI_out n p \<Rightarrow> let x = gn_nis net ! n in
         net\<lparr>gn_nis := (gn_nis net)[n := x\<lparr>ni_outPorts := (ni_outPorts x)[p := (ni_outPorts x ! p)\<lparr>op_outFlitQueue := b\<rparr>]\<rparr>]\<rparr>
     | NI_credit n p \<Rightarrow> let x = gn_nis net ! n in
         net\<lparr>gn_nis := (gn_nis net)[n := x\<lparr>ni_inPorts := (ni_inPorts x)[p := (ni_inPorts x ! p)\<lparr>ip_outCreditQueue := b\<rparr>]\<rparr>]\<rparr>
     | Bridge_buffer i \<Rightarrow> net\<lparr>gn_links := (gn_links net)[i := (gn_links net ! i)\<lparr>lk_linkBuffer := b\<rparr>]\<rparr>)"

text \<open>The wakeup of link \<open>i\<close>, with the wakeups it asks for.\<close>

definition link_event :: "tick \<Rightarrow> nat \<Rightarrow> 'r GarnetNetwork \<Rightarrow> ('r GarnetNetwork \<times> (consumer_ref \<times> tick) list) res" where
  "link_event now i net =
    bindR (nthR (gn_links net) (int i)) (\<lambda>l.
    (case lk_srcQueue l of
       None \<Rightarrow> bindR (link_wakeup now None l) (\<lambda>(src, l', reqs). Inr (net, reqs))
     | Some q \<Rightarrow>
         bindR (source_queue q net) (\<lambda>src.
         bindR (link_wakeup now (Some src) l) (\<lambda>(src', l', reqs).
           Inr (put_source q src' (net\<lparr>gn_links := (gn_links net)[i := l']\<rparr>), reqs)))))"

definition is_bridge :: "queue_ref \<Rightarrow> bool" where
  "is_bridge q = (case q of Bridge_buffer b \<Rightarrow> True | _ \<Rightarrow> False)"

text \<open>Replacing the contents of a source queue changes the account by the difference.\<close>

lemma update_account:
  fixes g :: "'a \<Rightarrow> (int \<times> int) multiset"
  assumes "i < length xs" "g y + new = g (xs ! i) + old"
  shows "sum_list (map g (xs[i := y])) + new = sum_list (map g xs) + old"
proof -
  have "sum_list (map g (xs[i := y])) + g (xs ! i) + new = sum_list (map g xs) + (g y + new)"
    using sum_list_update_add [OF assms(1), of g y] by (simp add: ac_simps)
  then show ?thesis unfolding assms(2) by (simp add: ac_simps)
qed

lemma put_source_account:
  assumes "source_queue q net = Inr old" "\<not> is_bridge q"
  shows "net_keys (put_source q b net) + flit_keys (fb_buffer old) = net_keys net + flit_keys (fb_buffer b) \<and>
    gn_links (put_source q b net) = gn_links net \<and> gn_stats (put_source q b net) = gn_stats net \<and>
    ((\<forall>ni \<in> set (gn_nis net). ni_ok ni) \<longrightarrow> (\<forall>ni \<in> set (gn_nis (put_source q b net)). ni_ok ni))"
proof (cases q)
  case (Router_out r p)
  let ?x = "gn_routers net ! r"
  let ?y = "?x\<lparr>r_output_unit := (r_output_unit ?x)[p := (r_output_unit ?x ! p)\<lparr>ou_outBuffer := b\<rparr>]\<rparr>"
  from assms(1) Router_out have r: "r < length (gn_routers net)" and p: "p < length (r_output_unit ?x)"
    and old: "old = ou_outBuffer (r_output_unit ?x ! p)" by (auto simp: source_queue_def nthR_eq_Inr elim!: bindR_InrE)
  have "sum_list (map ou_keys ((r_output_unit ?x)[p := (r_output_unit ?x ! p)\<lparr>ou_outBuffer := b\<rparr>])) + flit_keys (fb_buffer old)
      = sum_list (map ou_keys (r_output_unit ?x)) + flit_keys (fb_buffer b)"
    by (rule update_account [OF p]) (simp add: old ac_simps)
  then have "own_keys ?y + flit_keys (fb_buffer old) = own_keys ?x + flit_keys (fb_buffer b)"
    by (simp add: own_keys_def ous_keys_def ac_simps)
  from update_account [where g = own_keys, OF r this] show ?thesis
    using Router_out by (simp add: put_source_def net_keys_def Let_def ac_simps)
next
  case (Router_credit r p)
  let ?x = "gn_routers net ! r"
  let ?y = "?x\<lparr>r_input_unit := (r_input_unit ?x)[p := (r_input_unit ?x ! p)\<lparr>iu_creditQueue := b\<rparr>]\<rparr>"
  from assms(1) Router_credit have r: "r < length (gn_routers net)" and p: "p < length (r_input_unit ?x)"
    and old: "old = iu_creditQueue (r_input_unit ?x ! p)" by (auto simp: source_queue_def nthR_eq_Inr elim!: bindR_InrE)
  have "sum_list (map iu_keys ((r_input_unit ?x)[p := (r_input_unit ?x ! p)\<lparr>iu_creditQueue := b\<rparr>])) + flit_keys (fb_buffer old)
      = sum_list (map iu_keys (r_input_unit ?x)) + flit_keys (fb_buffer b)"
    by (rule update_account [OF p]) (simp add: old iu_keys_def ac_simps)
  then have "own_keys ?y + flit_keys (fb_buffer old) = own_keys ?x + flit_keys (fb_buffer b)"
    by (simp add: own_keys_def ius_keys_def ac_simps)
  from update_account [where g = own_keys, OF r this] show ?thesis
    using Router_credit by (simp add: put_source_def net_keys_def Let_def ac_simps)
next
  case (NI_out n p)
  let ?x = "gn_nis net ! n"
  let ?y = "?x\<lparr>ni_outPorts := (ni_outPorts ?x)[p := (ni_outPorts ?x ! p)\<lparr>op_outFlitQueue := b\<rparr>]\<rparr>"
  from assms(1) NI_out have n: "n < length (gn_nis net)" and p: "p < length (ni_outPorts ?x)"
    and old: "old = op_outFlitQueue (ni_outPorts ?x ! p)" by (auto simp: source_queue_def nthR_eq_Inr elim!: bindR_InrE)
  have "ni_keys ?y + flit_keys (fb_buffer old) = ni_keys ?x + flit_keys (fb_buffer b)"
    using ni_keys_outPort [OF p, of "(ni_outPorts ?x ! p)\<lparr>op_outFlitQueue := b\<rparr>"] by (simp add: old)
  moreover have "ni_ok ?y = ni_ok ?x" by (simp add: ni_ok_def)
  ultimately show ?thesis
    using NI_out n update_account [where g = ni_keys and y = ?y, OF n]
    by (auto simp: put_source_def net_keys_def Let_def ac_simps dest!: set_update_subset_insert [THEN subsetD])
next
  case (NI_credit n p)
  let ?x = "gn_nis net ! n"
  let ?Y = "(ni_inPorts ?x ! p)\<lparr>ip_outCreditQueue := b\<rparr>"
  let ?y = "?x\<lparr>ni_inPorts := (ni_inPorts ?x)[p := ?Y]\<rparr>"
  from assms(1) NI_credit have n: "n < length (gn_nis net)" and p: "p < length (ni_inPorts ?x)"
    and old: "old = ip_outCreditQueue (ni_inPorts ?x ! p)" by (auto simp: source_queue_def nthR_eq_Inr elim!: bindR_InrE)
  have "sum_list (map (\<lambda>p. flit_keys (ip_stall_queue p @ fb_buffer (ip_outCreditQueue p))) ((ni_inPorts ?x)[p := ?Y])) + flit_keys (fb_buffer old)
      = sum_list (map (\<lambda>p. flit_keys (ip_stall_queue p @ fb_buffer (ip_outCreditQueue p))) (ni_inPorts ?x)) + flit_keys (fb_buffer b)"
    by (rule update_account [OF p]) (simp add: old ac_simps)
  then have "ni_keys ?y + flit_keys (fb_buffer old) = ni_keys ?x + flit_keys (fb_buffer b)"
    by (simp add: ni_keys_def ac_simps del: flit_keys_simps)
  moreover have "ni_ok ?x \<longrightarrow> ni_ok ?y"
    using nth_mem [OF p] by (auto simp: ni_ok_def dest!: set_update_subset_insert [THEN subsetD])
  ultimately show ?thesis
    using NI_credit n update_account [where g = ni_keys and y = ?y, OF n]
    by (auto simp: put_source_def net_keys_def Let_def ac_simps dest!: set_update_subset_insert [THEN subsetD])
next
  case (Bridge_buffer i)
  with assms(2) show ?thesis by (simp add: is_bridge_def)
qed

lemma link_eventE:
  assumes "link_event now i net = Inr (net', reqs)"
  obtains (idle) "net' = net"
  | (wakes) q src src' l' where "i < length (gn_links net)" "lk_srcQueue (gn_links net ! i) = Some q"
      "source_queue q net = Inr src" "link_wakeup now (Some src) (gn_links net ! i) = Inr (src', l', reqs)"
      "net' = put_source q src' (net\<lparr>gn_links := (gn_links net)[i := l']\<rparr>)"
proof -
  from assms obtain l where i: "i < length (gn_links net)" and l: "l = gn_links net ! i"
    and r: "(case lk_srcQueue l of
       None \<Rightarrow> bindR (link_wakeup now None l) (\<lambda>(src, l', reqs). Inr (net, reqs))
     | Some q \<Rightarrow>
         bindR (source_queue q net) (\<lambda>src.
         bindR (link_wakeup now (Some src) l) (\<lambda>(src', l', reqs).
           Inr (put_source q src' (net\<lparr>gn_links := (gn_links net)[i := l']\<rparr>), reqs)))) = Inr (net', reqs)"
    by (auto simp: link_event_def nthR_eq_Inr elim!: bindR_InrE)
  show thesis
  proof (cases "lk_srcQueue l")
    case None
    with r show thesis by (auto elim!: bindR_InrE intro: idle)
  next
    case (Some q)
    with r i l show thesis by (auto elim!: bindR_InrE intro: wakes)
  qed
qed

lemma link_event_calm:
  assumes "link_event now i net = Inr (net', reqs)"
    and "\<And>q. lk_srcQueue (gn_links net ! i) = Some q \<Longrightarrow> \<not> is_bridge q"
  shows "calm net net'"
  using assms(1)
proof (cases rule: link_eventE)
  case idle
  then show ?thesis by (simp add: calm_refl)
next
  case (wakes q src src' l')
  let ?net = "net\<lparr>gn_links := (gn_links net)[i := l']\<rparr>" and ?l = "gn_links net ! i"
  have q: "\<not> is_bridge q" using assms(2) wakes(2) by simp
  have s': "source_queue q ?net = Inr src" using wakes(3) q by (cases q) (simp_all add: source_queue_def is_bridge_def)
  note p = put_source_account [OF s' q, of src']
  have "links_keys ((gn_links net)[i := l']) + flit_keys (link_flits ?l) = links_keys (gn_links net) + flit_keys (link_flits l')"
    using links_keys_update [of "int i" "gn_links net" l'] wakes(1) by simp
  then have n: "net_keys ?net + flit_keys (link_flits ?l) = net_keys net + flit_keys (link_flits l')"
    by (simp add: net_keys_def ac_simps)
  have "net_keys net' + (flit_keys (fb_buffer src) + flit_keys (link_flits ?l))
      = net_keys ?net + flit_keys (link_flits ?l) + flit_keys (fb_buffer src')"
    using p by (simp add: wakes(5) ac_simps)
  also have "\<dots> = net_keys net + (flit_keys (fb_buffer src') + flit_keys (link_flits l'))"
    unfolding n by (simp add: ac_simps)
  also have "\<dots> = net_keys net + (flit_keys (fb_buffer src) + flit_keys (link_flits ?l))"
    unfolding link_wakeup_keys [OF wakes(4)] ..
  finally have "net_keys net' = net_keys net" by simp
  with p show ?thesis by (simp add: calm_def same_ids_def wakes(5))
qed

section \<open>The trace driver\<close>

lemma inject_due_calm:
  assumes "inject_due now net = Inr net'"
  shows "calm net net' \<and> gn_tracefile net' = gn_tracefile net"
proof (cases "tr_valid (gs_trace_next_packet (gn_stats net))")
  case False
  with assms show ?thesis by (simp add: inject_due_def calm_refl)
next
  case True
  let ?rec = "gs_trace_next_packet (gn_stats net)"
  from assms True obtain nis where m: "modR (gn_nis net) (tr_src_id ?rec) (\<lambda>ni. Inr (enqueueTracePacket now ?rec ni)) = Inr nis"
    and net': "net' = net\<lparr>gn_nis := nis, gn_stats := (gn_stats net)
        \<lparr>gs_trace_num_packets_injected := gs_trace_num_packets_injected (gn_stats net) + 1,
         gs_trace_num_flits_injected := gs_trace_num_flits_injected (gn_stats net) + tr_num_flits ?rec\<rparr>\<rparr>"
    by (auto simp: inject_due_def Let_def elim!: guardR_InrE bindR_InrE)
  have e: "ni_keys (enqueueTracePacket now ?rec ni) = ni_keys ni" "ni_ok (enqueueTracePacket now ?rec ni) = ni_ok ni" for ni
    by (simp_all add: enqueueTracePacket_def ni_scheduleEvent_def ni_keys_def ni_ok_def)
  from m have i: "nat (tr_src_id ?rec) < length (gn_nis net)"
    and nis: "nis = (gn_nis net)[nat (tr_src_id ?rec) := enqueueTracePacket now ?rec (gn_nis net ! nat (tr_src_id ?rec))]"
    by (auto simp: modR_eq_Inr)
  have "sum_list (map ni_keys nis) = sum_list (map ni_keys (gn_nis net))"
    unfolding nis by (rule sum_list_update_same [OF i]) (simp add: e)
  moreover have "(\<forall>ni \<in> set (gn_nis net). ni_ok ni) \<longrightarrow> (\<forall>ni \<in> set nis. ni_ok ni)"
    using nth_mem [OF i] unfolding nis by (auto simp: e dest!: set_update_subset_insert [THEN subsetD])
  ultimately show ?thesis by (simp add: net' calm_def net_keys_def same_ids_def received_total_def)
qed

lemma next_packet_calm:
  "next_packet line net = Inr (Some net') \<Longrightarrow> calm net net'"
  by (auto simp: next_packet_def Let_def calm_def net_keys_def same_ids_def received_total_def
      split: list.splits elim!: bindR_InrE)

lemma calm_other:
  "calm net (net\<lparr>gn_tracefile := file\<rparr>)" "calm net (net\<lparr>gn_consumer := c\<rparr>)"
  "calm net (net\<lparr>gn_stats := (gn_stats net)\<lparr>gs_end_simulation := b\<rparr>\<rparr>)"
  by (simp_all add: calm_def net_keys_def same_ids_def received_total_def)

text \<open>A relation that every part of a wakeup of the driver keeps is kept by the whole.\<close>

lemma driver_event_rule:
  assumes trans: "\<And>a b c. R a b \<Longrightarrow> R b c \<Longrightarrow> R a c"
    and due: "\<And>net net'. inject_due now net = Inr net' \<Longrightarrow> R net net'"
    and next_rec: "\<And>line net net'. next_packet line net = Inr (Some net') \<Longrightarrow> R net net'"
    and other: "\<And>net rest. R net (net\<lparr>gn_tracefile := rest\<rparr>)" "\<And>net c. R net (net\<lparr>gn_consumer := c\<rparr>)"
      "\<And>net b. R net (net\<lparr>gn_stats := (gn_stats net)\<lparr>gs_end_simulation := b\<rparr>\<rparr>)"
  shows "GarnetNetwork_wakeup at_eof now net = Inr net' \<Longrightarrow> R net net'"
  using due
proof (induction at_eof now net rule: GarnetNetwork_wakeup.induct)
  case (1 at_eof now net)
  note due = "1.prems"(2)
  from "1.prems"(1) obtain net1 where d: "inject_due now net = Inr net1"
    by (subst (asm) GarnetNetwork_wakeup.simps) (auto split: sum.splits)
  note c = due [OF d]
  show ?case
  proof (cases "fgets MAX_TOKENS_PER_LINE (gn_tracefile net)")
    case None
    with "1.prems"(1) d c other(3) show ?thesis
      by (subst (asm) GarnetNetwork_wakeup.simps) (auto split: if_splits intro: trans)
  next
    case (Some lr)
    obtain line rest where lr: "lr = (line, rest)" by (cases lr)
    note f = Some [unfolded lr]
    from "1.prems"(1) d f obtain found where p: "next_packet line (net1\<lparr>gn_tracefile := rest\<rparr>) = Inr found"
      by (subst (asm) GarnetNetwork_wakeup.simps) (auto split: sum.splits)
    have c1: "R net (net1\<lparr>gn_tracefile := rest\<rparr>)" using c other(1) by (rule trans)
    show ?thesis
    proof (cases found)
      case None
      with "1.prems"(1) d f p c1 show ?thesis by (subst (asm) GarnetNetwork_wakeup.simps) simp
    next
      case (Some net2)
      with next_rec p c1 have c2: "R net net2" using trans by blast
      let ?gs = "gn_stats net2"
      let ?go = "gs_trace_max_packets ?gs < 0 \<or> gs_trace_num_packets_injected ?gs \<le> gs_trace_max_packets ?gs"
      let ?t = "tr_time (gs_trace_next_packet ?gs)"
      from "1.prems"(1) d f p Some have r: "(if ?go then
                      if ?t = gn_curCycle now net2 then GarnetNetwork_wakeup at_eof now (net2\<lparr>gn_tracefile := rest\<rparr>)
                      else Inr (scheduleWakeupAbsolute now ?t net2)
                    else Inr net2) = Inr net'"
        by (subst (asm) GarnetNetwork_wakeup.simps) (simp add: Let_def)
      consider "?go" "?t = gn_curCycle now net2" "GarnetNetwork_wakeup at_eof now (net2\<lparr>gn_tracefile := rest\<rparr>) = Inr net'"
        | "net' = scheduleWakeupAbsolute now ?t net2" | "net' = net2"
        using r by (auto split: if_splits)
      then show ?thesis
      proof cases
        case 1
        from "1.IH" [OF d f refl p [unfolded Some] refl refl refl \<open>?go\<close> \<open>?t = gn_curCycle now net2\<close> 1(3) due] c2
        show ?thesis using other(1) trans by blast
      next
        case 2
        with c2 other(2) show ?thesis unfolding scheduleWakeupAbsolute_def using trans by blast
      next
        case 3
        with c2 show ?thesis by simp
      qed
    qed
  qed
qed

lemma driver_event_calm:
  "GarnetNetwork_wakeup at_eof now net = Inr net' \<Longrightarrow> calm net net'"
  by (rule driver_event_rule [where R = calm]) (auto intro: calm_trans calm_other dest: inject_due_calm next_packet_calm)

section \<open>The wakeup of an interface\<close>

lemma interface_eventE:
  assumes "NetworkInterface_wakeup mt rs msgs rt rt' stray now i net = Inr (net', reqs)" "gs_trace_enable (gn_stats net)"
  obtains ni1 gs1 ni2 gs2 links2 reqs2 where "nat i < length (gn_nis net)"
    "ni_inject_trace mt (get_router_id net) stray now (gn_nis net ! nat i, gn_stats net) = Inr (ni1, gs1)"
    "ni_wakeup_rest (gn_cfg net) rs msgs rt' now (ni1, gs1, gn_links net) = Inr (ni2, gs2, links2, reqs2)"
    "net' = net\<lparr>gn_nis := (gn_nis net)[nat i := ni2], gn_stats := gs2, gn_links := links2\<rparr>"
  using assms by (auto simp: NetworkInterface_wakeup_def nthR_eq_Inr elim!: bindR_InrE guardR_InrE)

text \<open>
  An interface in trace mode makes the next \<open>n\<close> packets of the trace and delivers the flits
  \<open>ds\<close>, none of which is a credit.
\<close>

lemma interface_event_account:
  assumes w: "NetworkInterface_wakeup mt rs msgs rt rt' stray now i net = Inr (net', reqs)"
    and mode: "gs_trace_enable (gn_stats net)" and ok: "\<forall>ni \<in> set (gn_nis net). ni_ok ni"
  shows "\<exists>n ds. net_keys net' + flit_keys ds = net_keys net + created (gs_next_packet_id (gn_stats net)) n \<and>
    gs_next_packet_id (gn_stats net') = gs_next_packet_id (gn_stats net) + int n \<and>
    received_total (gn_stats net') = received_total (gn_stats net) + length ds \<and>
    gs_trace_enable (gn_stats net') \<and> (\<forall>ni \<in> set (gn_nis net'). ni_ok ni) \<and> gn_routers net' = gn_routers net \<and>
    drained (gn_links net) (gn_links net') \<and>
    ((\<forall>ni \<in> set (gn_nis net). ni_data ni \<and> fed_data ni (gn_links net)) \<longrightarrow>
      all_data ds \<and> (\<forall>ni \<in> set (gn_nis net'). ni_data ni))"
proof -
  let ?ni = "gn_nis net ! nat i" and ?gs = "gn_stats net"
  from w mode obtain ni1 gs1 ni2 gs2 links2 reqs2 where i: "nat i < length (gn_nis net)"
    and a: "ni_inject_trace mt (get_router_id net) stray now (?ni, ?gs) = Inr (ni1, gs1)"
    and b: "ni_wakeup_rest (gn_cfg net) rs msgs rt' now (ni1, gs1, gn_links net) = Inr (ni2, gs2, links2, reqs2)"
    and net': "net' = net\<lparr>gn_nis := (gn_nis net)[nat i := ni2], gn_stats := gs2, gn_links := links2\<rparr>"
    by (rule interface_eventE)
  obtain n where n: "ni_keys ni1 = ni_keys ?ni + created (gs_next_packet_id ?gs) n"
    "gs_next_packet_id gs1 = gs_next_packet_id ?gs + int n" "quiet (?ni, ?gs) (ni1, gs1)"
    using inject_account [OF a] by blast
  have q: "received_total gs1 = received_total ?gs" "gs_trace_enable gs1" "ni_ok ni1"
    using n(3) mode ok nth_mem [OF i] by (simp_all add: quiet_def)
  have fed: "fed_data ni1 = fed_data ?ni" "ni_data ?ni \<longrightarrow> ni_data ni1" using n(3) by (auto simp: quiet_def fed_data_def fun_eq_iff)
  from wakeup_exchanges [OF b q(3)] obtain ds m where "exchange ds m (ni1, gs1, gn_links net) (ni2, gs2, links2)"
    unfolding exchanges_def by blast
  then have x: "ni_keys ni2 + links_keys links2 + flit_keys ds = ni_keys ni1 + links_keys (gn_links net)"
    "received_total gs2 = received_total gs1 + length ds" "same_ids gs1 gs2" "ni_ok ni2"
    and t: "drained (gn_links net) links2" "ni_data ni1 \<and> fed_data ni1 (gn_links net) \<longrightarrow> ni_data ni2 \<and> all_data ds"
    using q(3) by (auto simp: exchange_def traffic_def)
  have "all_data ds \<and> (\<forall>ni \<in> set (gn_nis net'). ni_data ni)"
    if d: "\<forall>ni \<in> set (gn_nis net). ni_data ni \<and> fed_data ni (gn_links net)"
  proof -
    have "ni_data ?ni" "fed_data ?ni (gn_links net)" using d nth_mem [OF i] by blast+
    with t(2) fed have "ni_data ni2" "all_data ds" by simp_all
    with d all_update [where Q = ni_data and xs = "gn_nis net" and i = "nat i" and y = ni2] show ?thesis by (simp add: net')
  qed
  note data = this
  have "sum_list (map ni_keys ((gn_nis net)[nat i := ni2])) + (links_keys links2 + flit_keys ds)
      = sum_list (map ni_keys (gn_nis net)) + (links_keys (gn_links net) + created (gs_next_packet_id ?gs) n)"
    by (rule update_account [OF i]) (use x(1) n(1) in \<open>simp add: ac_simps\<close>)
  then have "net_keys net' + flit_keys ds = net_keys net + created (gs_next_packet_id ?gs) n"
    by (simp add: net_keys_def net' ac_simps)
  moreover have "\<forall>ni \<in> set (gn_nis net'). ni_ok ni"
    using ok x(4) by (auto simp: net' dest!: set_update_subset_insert [THEN subsetD])
  ultimately show ?thesis
    using n(2) q x t(1) data by (intro exI [of _ n] exI [of _ ds]) (simp add: net' same_ids_def)
qed

section \<open>Runs\<close>

text \<open>
  One event: a wakeup of the trace driver, of a router, of an output port of a router (which asks
  for wakeups of its own when a second credit is there), of an interface, or of a link that does
  not read from a bridge. The environment chooses the object, the time and the random values.
\<close>

inductive net_step :: "machine_info \<Rightarrow> ruby_flags \<Rightarrow> (nat \<Rightarrow> Message option) \<Rightarrow> 'r GarnetNetwork \<Rightarrow> 'r GarnetNetwork \<Rightarrow> bool"
  for mt rs msgs where
  driver: "GarnetNetwork_wakeup at_eof now net = Inr net' \<Longrightarrow> net_step mt rs msgs net net'"
| router: "on_router i (Router_wakeup (gn_cfg net) now rnd) net = Inr net' \<Longrightarrow> net_step mt rs msgs net net'"
| output_unit: "on_router i (outport_step now p) net = Inr net' \<Longrightarrow> net_step mt rs msgs net net'"
| interface: "NetworkInterface_wakeup mt rs msgs rt rt' stray now i net = Inr (net', reqs) \<Longrightarrow> net_step mt rs msgs net net'"
| link: "link_event now i net = Inr (net', reqs) \<Longrightarrow>
    (\<And>q. lk_srcQueue (gn_links net ! i) = Some q \<Longrightarrow> \<not> is_bridge q) \<Longrightarrow> net_step mt rs msgs net net'"

inductive_cases net_stepE: "net_step mt rs msgs net net'"

text \<open>The account of the flits made so far: they are in the network, or were delivered.\<close>

definition accounted :: "'r GarnetNetwork \<Rightarrow> bool" where
  "accounted net \<longleftrightarrow>
    (let gs = gn_stats net in
     gs_trace_enable gs \<and> 0 \<le> gs_next_packet_id gs \<and> (\<forall>ni \<in> set (gn_nis net). ni_ok ni) \<and>
     (\<exists>ds. net_keys net + flit_keys ds = created 0 (nat (gs_next_packet_id gs)) \<and> received_total gs = length ds))"

lemma calm_accounted: "calm net net' \<Longrightarrow> accounted net \<Longrightarrow> accounted net'"
  by (simp add: calm_def accounted_def same_ids_def Let_def)

lemma interface_accounted:
  assumes "NetworkInterface_wakeup mt rs msgs rt rt' stray now i net = Inr (net', reqs)" "accounted net"
  shows "accounted net'"
proof -
  let ?k = "gs_next_packet_id (gn_stats net)"
  from assms(2) obtain ds where a: "gs_trace_enable (gn_stats net)" "0 \<le> ?k" "\<forall>ni \<in> set (gn_nis net). ni_ok ni"
    "net_keys net + flit_keys ds = created 0 (nat ?k)" "received_total (gn_stats net) = length ds"
    by (auto simp: accounted_def Let_def)
  from interface_event_account [OF assms(1) a(1,3)] obtain n ds' where
    b: "net_keys net' + flit_keys ds' = net_keys net + created ?k n" "gs_next_packet_id (gn_stats net') = ?k + int n"
    "received_total (gn_stats net') = received_total (gn_stats net) + length ds'"
    "gs_trace_enable (gn_stats net')" "\<forall>ni \<in> set (gn_nis net'). ni_ok ni" by blast
  have "net_keys net' + flit_keys (ds' @ ds) = net_keys net + flit_keys ds + created ?k n"
    using b(1) by (simp add: ac_simps)
  also have "\<dots> = created 0 (nat ?k + n)" using a(2,4) by (simp add: created_add)
  finally show ?thesis
    using a b by (auto simp: accounted_def Let_def nat_add_distrib intro!: exI [of _ "ds' @ ds"])
qed

lemma step_accounted:
  assumes "net_step mt rs msgs net net'" "accounted net"
  shows "accounted net'"
  using assms(1)
proof (cases rule: net_step.cases)
  case driver
  from driver_event_calm [OF this] assms(2) show ?thesis by (rule calm_accounted)
next
  case router
  from router_event_calm [OF this] assms(2) show ?thesis by (rule calm_accounted)
next
  case output_unit
  from output_unit_event_calm [OF this] assms(2) show ?thesis by (rule calm_accounted)
next
  case interface
  from this assms(2) show ?thesis by (rule interface_accounted)
next
  case link
  from link_event_calm [OF this] assms(2) show ?thesis by (rule calm_accounted)
qed

lemma run_accounted: "(net_step mt rs msgs)\<^sup>*\<^sup>* net0 net \<Longrightarrow> accounted net0 \<Longrightarrow> accounted net"
  by (induction rule: rtranclp_induct) (blast intro: step_accounted)+

text \<open>A network that has not started: nothing made, nothing on the way, nothing stalled.\<close>

definition fresh :: "'r GarnetNetwork \<Rightarrow> bool" where
  "fresh net \<longleftrightarrow> gs_trace_enable (gn_stats net) \<and> gs_next_packet_id (gn_stats net) = 0 \<and>
    received_total (gn_stats net) = 0 \<and> net_keys net = {#} \<and> (\<forall>ni \<in> set (gn_nis net). ni_ok ni)"

lemma fresh_accounted: "fresh net \<Longrightarrow> accounted net"
  by (simp add: fresh_def accounted_def Let_def)

end
