(* ===== verification/ChannelCredits.thy ===== *)
theory ChannelCredits
  imports NetworkRun
begin

text \<open>
  Credit-based flow control, end to end. A \<^emph>\<open>credit loop\<close> is a set of links that carry the flits
  of one hop one way and its credits the other. Every place of a virtual channel of the hop is, at
  any time, one of: a credit at the sender, a flit on its way, a flit in the buffer of the
  receiver, or a credit on its way back. The \<^emph>\<open>tokens\<close> of a loop and a virtual channel count all
  of these, in the whole network; this theory shows that the steps of the routers keep them, and
  the theory \<open>CreditRun\<close> that every run of the network does.
\<close>

section \<open>Counting\<close>

text \<open>Flits and credits of a virtual channel in a queue.\<close>

definition flits_on :: "int \<Rightarrow> flit list \<Rightarrow> int" where
  "flits_on w fs = int (length (filter (\<lambda>f. fl_vc f = w) fs))"

lemma flits_on_simps [simp]:
  "flits_on w [] = 0"
  "flits_on w (f # fs) = (if fl_vc f = w then 1 else 0) + flits_on w fs"
  "flits_on w (fs @ gs) = flits_on w fs + flits_on w gs"
  by (simp_all add: flits_on_def)

lemma flits_on_nonneg [simp]: "0 \<le> flits_on w fs"
  by (simp add: flits_on_def)

text \<open>The entry of a vector for a virtual channel, when there is one.\<close>

definition entry :: "int \<Rightarrow> ('a \<Rightarrow> int) \<Rightarrow> 'a list \<Rightarrow> int" where
  "entry w g xs = (if 0 \<le> w \<and> w < int (length xs) then g (xs ! nat w) else 0)"

lemma entry_update:
  assumes "0 \<le> i" "i < int (length xs)"
  shows "entry w g (xs[nat i := x]) = entry w g xs + (if w = i then g x - g (xs ! nat i) else 0)"
  using assms by (auto simp: entry_def nth_list_update)

lemma entry_update_same:
  "g x = g (xs ! nat i) \<Longrightarrow> entry w g (xs[nat i := x]) = entry w g xs"
  by (cases "nat i < length xs") (auto simp: entry_def nth_list_update)

lemma entry_nonneg: "(\<And>x. x \<in> set xs \<Longrightarrow> 0 \<le> g x) \<Longrightarrow> 0 \<le> entry w g xs"
  unfolding entry_def by (simp add: nat_less_iff)

lemma sum_update_diff:
  fixes g :: "'a \<Rightarrow> int"
  assumes "i < length xs"
  shows "sum_list (map g (xs[i := y])) = sum_list (map g xs) + (g y - g (xs ! i))"
  using sum_list_update_add [OF assms, of g y] by simp

lemma map_update_same: "g y = g (xs ! i) \<Longrightarrow> map g (xs[i := y]) = map g xs"
  by (metis list_update_id map_update)

section \<open>Links\<close>

definition link_tokens :: "int set \<Rightarrow> int \<Rightarrow> int \<Rightarrow> NetworkLink \<Rightarrow> int" where
  "link_tokens P w i l = (if i \<in> P then flits_on w (link_flits l) else 0)"

definition links_tokens :: "int set \<Rightarrow> int \<Rightarrow> NetworkLink list \<Rightarrow> int" where
  "links_tokens P w ls = sum_list (map (\<lambda>i. link_tokens P w (int i) (ls ! i)) [0..<length ls])"

text \<open>Where each link reads from.\<close>

abbreviation sources :: "NetworkLink list \<Rightarrow> queue_ref option list" where
  "sources ls \<equiv> map lk_srcQueue ls"

lemma links_tokens_update:
  assumes "i < length ls"
  shows "links_tokens P w (ls[i := l]) = links_tokens P w ls + (link_tokens P w (int i) l - link_tokens P w (int i) (ls ! i))"
proof -
  have e: "map (\<lambda>j. link_tokens P w (int j) (ls[i := l] ! j)) [0..<length ls]
      = (map (\<lambda>j. link_tokens P w (int j) (ls ! j)) [0..<length ls])[i := link_tokens P w (int i) l]"
    using assms by (intro nth_equalityI) (auto simp: nth_list_update)
  show ?thesis
    using sum_update_diff [of i "map (\<lambda>j. link_tokens P w (int j) (ls ! j)) [0..<length ls]" "\<lambda>x. x" "link_tokens P w (int i) l"] assms
    unfolding links_tokens_def length_list_update e by simp
qed

lemma links_schedule_tokens:
  assumes "modR ls i (\<lambda>l. Inr (link_scheduleEventAbsolute now t l)) = Inr ls'"
  shows "links_tokens P w ls' = links_tokens P w ls \<and> sources ls' = sources ls"
  using assms
  by (auto simp: modR_eq_Inr links_tokens_update link_tokens_def map_update_same link_scheduleEventAbsolute_def)

lemma consume_tokens:
  assumes "consumeLink (ls ! i) = Inr (f, l)" "i < length ls"
  shows "links_tokens P w (ls[i := l]) = links_tokens P w ls - (if int i \<in> P \<and> fl_vc f = w then 1 else 0) \<and>
    sources (ls[i := l]) = sources ls"
  using assms by (auto simp: consumeLink_eq links_tokens_update link_tokens_def intro!: map_update_same)

section \<open>Ports\<close>

definition iu_tokens :: "int set \<Rightarrow> int \<Rightarrow> InputUnit \<Rightarrow> int" where
  "iu_tokens P w iu =
    (if iu_in_link iu \<in> P then entry w (\<lambda>v. int (length (vc_flits v))) (iu_virtualChannels iu) else 0) +
    (if iu_credit_link iu \<in> P then flits_on w (fb_buffer (iu_creditQueue iu)) else 0)"

definition ou_tokens :: "int set \<Rightarrow> int \<Rightarrow> OutputUnit \<Rightarrow> int" where
  "ou_tokens P w ou =
    (if ou_credit_link ou \<in> P then entry w ovc_credit_count (ou_outVcState ou) else 0) +
    (if ou_out_link ou \<in> P then flits_on w (fb_buffer (ou_outBuffer ou)) else 0)"

text \<open>The links of a port: the flits' and the credits'. Both are of the loop, or none.\<close>

definition iu_wires :: "InputUnit \<Rightarrow> int \<times> int" where
  "iu_wires iu = (iu_in_link iu, iu_credit_link iu)"

definition ou_wires :: "OutputUnit \<Rightarrow> int \<times> int" where
  "ou_wires ou = (ou_out_link ou, ou_credit_link ou)"

definition both :: "int set \<Rightarrow> int \<times> int \<Rightarrow> bool" where
  "both P = (\<lambda>(a, b). a \<in> P \<longleftrightarrow> b \<in> P)"

lemma iu_mod_vc_tokens:
  assumes "iu_mod_vc vc g iu = Inr iu'"
  shows "iu_wires iu' = iu_wires iu \<and> iu_tokens P w iu' = iu_tokens P w iu +
    (if iu_in_link iu \<in> P \<and> w = vc then int (length (vc_flits (g (iu_virtualChannels iu ! nat vc))))
       - int (length (vc_flits (iu_virtualChannels iu ! nat vc))) else 0)"
  using assms by (auto simp: iu_mod_vc_eq iu_wires_def iu_tokens_def entry_update)

lemma accept_flit_tokens:
  assumes "accept_flit cfg rp now rnd f iu ru = Inr (iu', ru')"
  shows "iu_wires iu' = iu_wires iu \<and> iu_tokens P w iu' = iu_tokens P w iu"
proof -
  from assms have "iu' = iu \<or> (\<exists>iu1 p. set_vc_active (fl_vc f) now iu = Inr iu1 \<and> grant_outport (fl_vc f) p iu1 = Inr iu')"
    unfolding accept_flit_def by (auto elim!: res_elims)
  then show ?thesis
    unfolding set_vc_active_def grant_outport_def
    by (auto dest!: iu_mod_vc_tokens [of _ _ _ _ P w])
qed

lemma buffer_flit_tokens:
  assumes "buffer_flit rp now f iu con = Inr (iu', con')"
  shows "iu_wires iu' = iu_wires iu \<and>
    iu_tokens P w iu' = iu_tokens P w iu + (if iu_in_link iu \<in> P \<and> fl_vc f = w then 1 else 0)"
proof -
  obtain st t iu1 where m: "iu_mod_vc (fl_vc f) (vc_insertFlit (advance_stage st t f)) iu = Inr iu1"
    and e: "iu_virtualChannels iu' = iu_virtualChannels iu1" "iu_creditQueue iu' = iu_creditQueue iu1"
      "iu_in_link iu' = iu_in_link iu1" "iu_credit_link iu' = iu_credit_link iu1"
    using assms unfolding buffer_flit_def Let_def
    by (cases "rp_latency rp = 1") (auto elim!: res_elims)
  then have "iu_wires iu' = iu_wires iu1" "iu_tokens P w iu' = iu_tokens P w iu1"
    by (simp_all add: iu_wires_def iu_tokens_def)
  with iu_mod_vc_tokens [OF m, of P w] show ?thesis by auto
qed

text \<open>A flit that an input port takes from its link stays in the loop.\<close>

lemma InputUnit_wakeup_tokens:
  assumes "InputUnit_wakeup cfg rp now rnd (iu, ru, con, links) = Inr (iu', ru', con', links')"
  shows "iu_wires iu' = iu_wires iu \<and> sources links' = sources links \<and>
    iu_tokens P w iu' + links_tokens P w links' = iu_tokens P w iu + links_tokens P w links"
  using assms
proof (cases rule: InputUnit_wakeupE)
  case idle
  then show ?thesis by simp
next
  case (taken f l con2 iu1)
  have i: "nat (iu_in_link iu) < length links" "int (nat (iu_in_link iu)) = iu_in_link iu" using taken(1,2) by auto
  note a = accept_flit_tokens [OF taken(6), of P w] and b = buffer_flit_tokens [OF taken(7), of P w]
  from a have "iu_in_link iu1 = iu_in_link iu" by (simp add: iu_wires_def)
  with a b consume_tokens [OF taken(4) i(1), of P w] i(2) taken(9) show ?thesis by simp
qed

lemma receive_credit_tokens:
  assumes "receive_credit now c ou = Inr ou'"
  shows "ou_wires ou' = ou_wires ou \<and>
    ou_tokens P w ou' = ou_tokens P w ou + (if ou_credit_link ou \<in> P \<and> fl_vc c = w then 1 else 0)"
proof -
  from assms obtain ou1 where i: "ou_increment_credit (fl_vc c) ou = Inr ou1"
    and s: "(if is_free_signal c then set_vc_state IDLE (fl_vc c) now ou1 else Inr ou1) = Inr ou'"
    unfolding receive_credit_def by (auto elim!: bindR_InrE guardR_InrE)
  from i have "ou_wires ou1 = ou_wires ou \<and>
    ou_tokens P w ou1 = ou_tokens P w ou + (if ou_credit_link ou \<in> P \<and> fl_vc c = w then 1 else 0)"
    by (auto simp: ou_increment_credit_def increment_credit_def Let_def modR_eq_Inr ou_wires_def ou_tokens_def
        entry_update elim!: bindR_InrE guardR_InrE)
  moreover from s have "ou_wires ou' = ou_wires ou1 \<and> ou_tokens P w ou' = ou_tokens P w ou1"
    by (elim if_InrE) (auto simp: set_vc_state_def setState_def modR_eq_Inr ou_wires_def ou_tokens_def
        entry_update_same elim!: bindR_InrE)
  ultimately show ?thesis by auto
qed

text \<open>A credit that an output port takes from its link stays in the loop.\<close>

lemma OutputUnit_wakeup_tokens:
  assumes "OutputUnit_wakeup now (ou, links) = Inr (ou', links')"
  shows "ou_wires ou' = ou_wires ou \<and> sources links' = sources links \<and>
    ou_tokens P w ou' + links_tokens P w links' = ou_tokens P w ou + links_tokens P w links"
  using assms
proof (cases rule: OutputUnit_wakeupE)
  case idle
  then show ?thesis by simp
next
  case (credit c l ou2)
  have i: "nat (ou_credit_link ou) < length links" "int (nat (ou_credit_link ou)) = ou_credit_link ou" using credit(1,2) by auto
  have "ou_wires ou' = ou_wires ou2" "ou_tokens P w ou' = ou_tokens P w ou2"
    using credit(5) by (simp_all add: ou_wires_def ou_tokens_def)
  with receive_credit_tokens [OF credit(4), of P w] consume_tokens [OF credit(3) i(1), of P w] i(2) credit(6)
  show ?thesis by simp
qed

text \<open>A flit that leaves the switch for an output port enters the loop of that port.\<close>

lemma insert_flit_tokens:
  assumes "insert_flit now con f (ou, links) = Inr (ou', links')"
  shows "ou_wires ou' = ou_wires ou \<and> sources links' = sources links \<and> links_tokens P w links' = links_tokens P w links \<and>
    ou_outVcState ou' = ou_outVcState ou \<and>
    ou_tokens P w ou' = ou_tokens P w ou + (if ou_out_link ou \<in> P \<and> fl_vc f = w then 1 else 0)"
  using assms links_schedule_tokens unfolding insert_flit_def
  by (auto simp: ou_wires_def ou_tokens_def elim!: bindR_InrE)

section \<open>The switch\<close>

text \<open>A flit in the switch is in the loop of the output port it goes to; \<open>outs\<close> are the ports' wires.\<close>

definition switch_on :: "int set \<Rightarrow> int \<Rightarrow> (int \<times> int) list \<Rightarrow> flit list \<Rightarrow> int" where
  "switch_on P w outs fs = int (length (filter (\<lambda>f. fl_vc f = w \<and> fst (outs ! nat (fl_outport f)) \<in> P) fs))"

lemma switch_on_simps [simp]:
  "switch_on P w outs [] = 0"
  "switch_on P w outs (f # fs) = (if fl_vc f = w \<and> fst (outs ! nat (fl_outport f)) \<in> P then 1 else 0) + switch_on P w outs fs"
  "switch_on P w outs (fs @ gs) = switch_on P w outs fs + switch_on P w outs gs"
  by (simp_all add: switch_on_def)

lemma switch_on_nonneg [simp]: "0 \<le> switch_on P w outs fs"
  by (simp add: switch_on_def)

definition xb_tokens :: "int set \<Rightarrow> int \<Rightarrow> (int \<times> int) list \<Rightarrow> CrossbarSwitch \<Rightarrow> int" where
  "xb_tokens P w outs xb = sum_list (map (\<lambda>b. switch_on P w outs (fb_buffer b)) (xb_switchBuffers xb))"

definition ous_tokens :: "int set \<Rightarrow> int \<Rightarrow> OutputUnit list \<Rightarrow> int" where
  "ous_tokens P w ous = sum_list (map (ou_tokens P w) ous)"

lemma update_sw_winner_tokens:
  assumes "update_sw_winner inport f xb = Inr xb'"
  shows "xb_tokens P w outs xb' = xb_tokens P w outs xb + (if fl_vc f = w \<and> fst (outs ! nat (fl_outport f)) \<in> P then 1 else 0)"
proof -
  from assms have "nat inport < length (xb_switchBuffers xb)"
    and "xb' = xb\<lparr>xb_switchBuffers := (xb_switchBuffers xb)[nat inport := fb_insert f (xb_switchBuffers xb ! nat inport)]\<rparr>"
    unfolding update_sw_winner_def by (auto elim!: bindR_InrE simp: modR_eq_Inr)
  then show ?thesis by (simp add: xb_tokens_def sum_update_diff)
qed

lemma switch_traversal_tokens:
  assumes "switch_traversal now con i (xb, ous, links) = Inr (xb', ous', links')"
  shows "map ou_wires ous' = map ou_wires ous \<and> sources links' = sources links \<and>
    links_tokens P w links' = links_tokens P w links \<and> map ou_outVcState ous' = map ou_outVcState ous \<and>
    xb_tokens P w (map ou_wires ous) xb' + ous_tokens P w ous' = xb_tokens P w (map ou_wires ous) xb + ous_tokens P w ous"
  using assms
proof (cases rule: switch_traversalE)
  case stay
  then show ?thesis by simp
next
  case (move f fs t ou ou' b)
  have i: "nat i < length (xb_switchBuffers xb)" and p: "nat (fl_outport f) < length ous" using move(1,2,8,9) by auto
  note ins = insert_flit_tokens [OF move(11), of P w]
  have "xb_tokens P w (map ou_wires ous) xb' = xb_tokens P w (map ou_wires ous) xb
      - (if fl_vc f = w \<and> ou_out_link ou \<in> P then 1 else 0)"
    unfolding move(12) xb_tokens_def using sum_update_diff [OF i] move(3,4,10) p by (simp add: ou_wires_def)
  moreover have "ous_tokens P w ous' = ous_tokens P w ous + (ou_tokens P w ou' - ou_tokens P w ou)"
    using sum_update_diff [OF p, of "ou_tokens P w" ou'] move(10,13) by (simp add: ous_tokens_def)
  ultimately show ?thesis using ins move(10,13) by (auto intro!: map_update_same)
qed

lemma CrossbarSwitch_wakeup_tokens:
  assumes "CrossbarSwitch_wakeup now con (xb, ous, links) = Inr (xb', ous', links')"
  shows "map ou_wires ous' = map ou_wires ous \<and> sources links' = sources links \<and>
    links_tokens P w links' = links_tokens P w links \<and> map ou_outVcState ous' = map ou_outVcState ous \<and>
    xb_tokens P w (map ou_wires ous) xb' + ous_tokens P w ous' = xb_tokens P w (map ou_wires ous) xb + ous_tokens P w ous"
proof -
  let ?P = "\<lambda>(xb', ous', links'). map ou_wires ous' = map ou_wires ous \<and> sources links' = sources links \<and>
    links_tokens P w links' = links_tokens P w links \<and> map ou_outVcState ous' = map ou_outVcState ous \<and>
    xb_tokens P w (map ou_wires ous) xb' + ous_tokens P w ous' = xb_tokens P w (map ou_wires ous) xb + ous_tokens P w ous"
  have "?P (xb', ous', links')"
  proof (rule foldR_invariant [OF assms [unfolded CrossbarSwitch_wakeup_def]])
    fix j s s'
    assume I: "?P s" and step: "switch_traversal now con j s = Inr s'"
    obtain xb1 ous1 l1 where s: "s = (xb1, ous1, l1)" by (cases s)
    obtain xb2 ous2 l2 where s': "s' = (xb2, ous2, l2)" by (cases s')
    from I have I1: "map ou_wires ous1 = map ou_wires ous" by (simp add: s)
    from switch_traversal_tokens [OF step [unfolded s s'], of P w, unfolded I1] I show "?P s'" unfolding s s' by auto
  qed simp
  then show ?thesis by simp
qed

section \<open>The router\<close>

definition ius_tokens :: "int set \<Rightarrow> int \<Rightarrow> InputUnit list \<Rightarrow> int" where
  "ius_tokens P w ius = sum_list (map (iu_tokens P w) ius)"

text \<open>The tokens inside a router, its wires, and the claim that its credits are in bounds.\<close>

definition own_tokens :: "int set \<Rightarrow> int \<Rightarrow> Router \<Rightarrow> int" where
  "own_tokens P w r = ius_tokens P w (r_input_unit r) + ous_tokens P w (r_output_unit r) +
    xb_tokens P w (map ou_wires (r_output_unit r)) (r_crossbarSwitch r)"

type_synonym wires = "(int \<times> int) list \<times> (int \<times> int) list"

definition r_wires :: "Router \<Rightarrow> wires" where
  "r_wires r = (map iu_wires (r_input_unit r), map ou_wires (r_output_unit r))"

text \<open>Both links of every port are in the loop, or neither is.\<close>

definition paired :: "int set \<Rightarrow> wires \<Rightarrow> bool" where
  "paired P = (\<lambda>(ins, outs). list_all (both P) ins \<and> list_all (both P) outs)"

definition r_ok :: "Router \<Rightarrow> bool" where
  "r_ok r \<longleftrightarrow> (\<forall>ou \<in> set (r_output_unit r). ou_ok ou)"

text \<open>A step of a router that keeps the tokens.\<close>

definition keeps :: "int set \<Rightarrow> int \<Rightarrow> Router \<Rightarrow> Router \<Rightarrow> bool" where
  "keeps P w r r' \<longleftrightarrow> r_wires r' = r_wires r \<and> sources (r_links r') = sources (r_links r) \<and>
    own_tokens P w r' + links_tokens P w (r_links r') = own_tokens P w r + links_tokens P w (r_links r) \<and>
    (r_ok r \<longrightarrow> r_ok r')"

lemma keeps_refl: "keeps P w r r"
  by (simp add: keeps_def)

lemma keeps_trans: "keeps P w a b \<Longrightarrow> keeps P w b c \<Longrightarrow> keeps P w a c"
  by (simp add: keeps_def)

text \<open>Replacing one port.\<close>

lemma put_iu_tokens:
  assumes "0 \<le> i" "i < int (length (r_input_unit r))" "iu_wires iu = iu_wires (r_input_unit r ! nat i)"
  shows "r_wires (put_iu i iu r) = r_wires r" "r_links (put_iu i iu r) = r_links r" "r_ok (put_iu i iu r) = r_ok r"
    "own_tokens P w (put_iu i iu r) = own_tokens P w r + (iu_tokens P w iu - iu_tokens P w (r_input_unit r ! nat i))"
  using assms sum_update_diff [of "nat i" "r_input_unit r" "iu_tokens P w" iu]
  by (simp_all add: put_iu_def r_wires_def own_tokens_def ius_tokens_def map_update_same r_ok_def)

lemma put_ou_tokens:
  assumes "0 \<le> i" "i < int (length (r_output_unit r))" "ou_wires ou = ou_wires (r_output_unit r ! nat i)"
  shows "r_wires (put_ou i ou r) = r_wires r" "r_links (put_ou i ou r) = r_links r"
    "own_tokens P w (put_ou i ou r) = own_tokens P w r + (ou_tokens P w ou - ou_tokens P w (r_output_unit r ! nat i))"
    "r_ok r \<Longrightarrow> ou_ok ou \<Longrightarrow> r_ok (put_ou i ou r)"
proof -
  have m: "map ou_wires ((r_output_unit r)[nat i := ou]) = map ou_wires (r_output_unit r)" using assms(3) by (rule map_update_same)
  show "r_wires (put_ou i ou r) = r_wires r" "r_links (put_ou i ou r) = r_links r"
    "own_tokens P w (put_ou i ou r) = own_tokens P w r + (ou_tokens P w ou - ou_tokens P w (r_output_unit r ! nat i))"
    using assms sum_update_diff [of "nat i" "r_output_unit r" "ou_tokens P w" ou]
    by (simp_all add: put_ou_def r_wires_def own_tokens_def ous_tokens_def m)
  show "r_ok r \<Longrightarrow> ou_ok ou \<Longrightarrow> r_ok (put_ou i ou r)"
    by (auto simp: put_ou_def r_ok_def dest!: set_update_subset_insert [THEN subsetD])
qed

lemma r_paired:
  assumes "paired P (r_wires r)"
  shows "i < length (r_input_unit r) \<Longrightarrow> iu_in_link (r_input_unit r ! i) \<in> P \<longleftrightarrow> iu_credit_link (r_input_unit r ! i) \<in> P"
    and "i < length (r_output_unit r) \<Longrightarrow> ou_out_link (r_output_unit r ! i) \<in> P \<longleftrightarrow> ou_credit_link (r_output_unit r ! i) \<in> P"
  using assms by (auto simp: paired_def r_wires_def both_def iu_wires_def ou_wires_def list_all_length)

text \<open>The allocation of an output channel moves nothing.\<close>

lemma select_free_vc_loop_tokens:
  "select_free_vc_loop now vcs ou = Inr (vc, ou') \<Longrightarrow> ou_wires ou' = ou_wires ou \<and> ou_tokens P w ou' = ou_tokens P w ou"
proof (induction vcs)
  case Nil
  then show ?case by simp
next
  case (Cons v vcs)
  then obtain idle where idle: "is_vc_idle v now ou = Inr idle" by (auto elim: bindR_InrE)
  with Cons show ?case
    by (cases idle) (auto simp: set_vc_state_def setState_def modR_eq_Inr ou_wires_def ou_tokens_def
        entry_update_same elim!: bindR_InrE)
qed

lemma grant_outvc_tokens:
  "grant_outvc vc p iu = Inr iu' \<Longrightarrow> iu_wires iu' = iu_wires iu \<and> iu_tokens P w iu' = iu_tokens P w iu"
  unfolding grant_outvc_def by (auto dest!: iu_mod_vc_tokens [of _ _ _ _ P w])

lemma vc_allocate_keeps:
  assumes "vc_allocate now outport inport invc r = Inr (outvc, r')"
  shows "keeps P w r r'"
  using assms
proof (cases rule: vc_allocateE)
  case (1 iu' vs)
  let ?ou = "(r_output_unit r ! nat outport)\<lparr>ou_outVcState := vs\<rparr>"
  let ?r = "put_ou outport ?ou r"
  have o: "ou_wires ?ou = ou_wires (r_output_unit r ! nat outport)" "ou_tokens P w ?ou = ou_tokens P w (r_output_unit r ! nat outport)"
    using select_free_vc_loop_tokens [OF 1(7) [unfolded select_free_vc_def]] by simp_all
  have ok: "ou_ok (r_output_unit r ! nat outport) \<Longrightarrow> ou_ok ?ou"
    using select_free_vc_loop_ok [OF 1(7) [unfolded select_free_vc_def]] by simp
  note g = grant_outvc_tokens [OF 1(5), of P w]
  have same: "r_input_unit ?r = r_input_unit r" by (simp add: put_ou_def)
  note pi = put_iu_tokens [of inport ?r iu', unfolded same, OF 1(1,2) conjunct1 [OF g]]
  note po = put_ou_tokens [OF 1(3,4) o(1)]
  have "r_ok r \<longrightarrow> r_ok r'"
    using po(4) ok 1(3,4) unfolding 1(6) pi(3) by (auto simp: r_ok_def)
  then show ?thesis
    unfolding keeps_def 1(6) using pi(1,2,4) po(1-3) o(2) g by simp
qed

lemma release_vc_tokens:
  assumes "release_vc cfg now f invc con (iu, links) = Inr (iu', links')"
  shows "iu_wires iu' = iu_wires iu \<and> sources links' = sources links \<and> links_tokens P w links' = links_tokens P w links \<and>
    iu_tokens P w iu' = iu_tokens P w iu + (if iu_credit_link iu \<in> P \<and> w = invc then 1 else 0)"
proof -
  have inc: "iu_wires iu' = iu_wires iu \<and> sources links' = sources links \<and> links_tokens P w links' = links_tokens P w links \<and>
    iu_tokens P w iu' = iu_tokens P w iu + (if iu_credit_link iu \<in> P \<and> w = invc then 1 else 0)"
    if "iu_increment_credit cfg now invc b now con (iu, links) = Inr (iu', links')" for iu b
    using that links_schedule_tokens unfolding iu_increment_credit_def
    by (auto simp: Let_def iu_wires_def iu_tokens_def elim!: bindR_InrE)
  show ?thesis
  proof (cases "is_tail f")
    case True
    with assms obtain iu1 where i: "set_vc_idle invc now iu = Inr iu1"
        "iu_increment_credit cfg now invc True now con (iu1, links) = Inr (iu', links')"
      unfolding release_vc_def by (auto elim!: bindR_InrE guardR_InrE)
    have "iu_wires iu1 = iu_wires iu \<and> iu_tokens P w iu1 = iu_tokens P w iu"
      using iu_mod_vc_tokens [OF i(1) [unfolded set_vc_idle_def], of P w] by simp
    with inc [OF i(2)] show ?thesis by (auto simp: iu_wires_def)
  next
    case False
    with assms inc show ?thesis unfolding release_vc_def by simp
  qed
qed

text \<open>The winner of the switch moves from one loop to the next.\<close>

lemma send_winner_keeps:
  assumes "send_winner cfg now outport inport invc outvc r = Inr r'" "paired P (r_wires r)"
  shows "keeps P w r r'"
  using assms(1)
proof (cases rule: send_winnerE)
  case (1 f iu1 ou1 xb iu2 links)
  let ?iu = "r_input_unit r ! nat inport" and ?ou = "r_output_unit r ! nat outport"
  have p: "iu_in_link ?iu \<in> P \<longleftrightarrow> iu_credit_link ?iu \<in> P" "ou_out_link ?ou \<in> P \<longleftrightarrow> ou_credit_link ?ou \<in> P"
    using r_paired [OF assms(2)] 1(1-4) by simp_all
  obtain v where v: "0 \<le> invc" "invc < int (length (iu_virtualChannels ?iu))"
      "vc_flits (iu_virtualChannels ?iu ! nat invc) = f # vc_flits v"
      "iu1 = ?iu\<lparr>iu_virtualChannels := (iu_virtualChannels ?iu)[nat invc := v]\<rparr>"
    using 1(5) by (rule iu_getTopFlitE)
  have i1: "iu_wires iu1 = iu_wires ?iu" "iu_credit_link iu1 = iu_credit_link ?iu"
    "iu_tokens P w iu1 = iu_tokens P w ?iu - (if iu_in_link ?iu \<in> P \<and> w = invc then 1 else 0)"
    using v by (auto simp: iu_wires_def iu_tokens_def entry_update)
  note i2 = release_vc_tokens [OF 1(8), of P w]
  have iw: "iu_wires iu2 = iu_wires ?iu" and it: "iu_tokens P w iu2 = iu_tokens P w ?iu" using i1 i2 p(1) by auto
  have ow: "ou_wires ou1 = ou_wires ?ou"
    and ot: "ou_tokens P w ou1 = ou_tokens P w ?ou - (if ou_out_link ?ou \<in> P \<and> w = outvc then 1 else 0)"
    using 1(6) p(2) by (auto simp: ou_decrement_credit_def decrement_credit_def Let_def modR_eq_Inr ou_wires_def ou_tokens_def
        entry_update elim!: bindR_InrE guardR_InrE)
  let ?r0 = "r\<lparr>r_crossbarSwitch := xb, r_links := links\<rparr>"
  let ?r1 = "put_ou outport ou1 ?r0"
  have n: "nat outport < length (r_output_unit r)" using 1(3,4) by simp
  have x: "own_tokens P w ?r0 = own_tokens P w r + (if ou_out_link ?ou \<in> P \<and> w = outvc then 1 else 0)"
    using update_sw_winner_tokens [OF 1(7), of P w "map ou_wires (r_output_unit r)"] n
    by (auto simp: own_tokens_def ou_wires_def)
  have same: "r_output_unit ?r0 = r_output_unit r" "r_input_unit ?r1 = r_input_unit r"
    "r_wires ?r0 = r_wires r" "r_links ?r0 = links" "r_ok ?r0 = r_ok r"
    by (simp_all add: put_ou_def r_wires_def r_ok_def)
  note po = put_ou_tokens [of outport ?r0 ou1, unfolded same(1), OF 1(3,4) ow]
  note pi = put_iu_tokens [of inport ?r1 iu2, unfolded same(2), OF 1(1,2) iw]
  have "r_ok r \<longrightarrow> r_ok r'"
    using po(4) ou_decrement_credit_ok [OF 1(6)] n unfolding 1(9) pi(3) same(5) by (auto simp: r_ok_def)
  then show ?thesis
    unfolding keeps_def 1(9) using pi(1,2,4) po(1-3) x it ot i2 same by simp
qed

text \<open>What the tokens do not read.\<close>

lemma keeps_other:
  "keeps P w r (r\<lparr>r_switchAllocator := sa\<rparr>)" "keeps P w r (r\<lparr>r_consumer := con\<rparr>)"
  by (simp_all add: keeps_def own_tokens_def r_wires_def r_ok_def)

lemma sa_grant_keeps:
  assumes "sa_grant cfg now outport inport r = Inr r'" "paired P (r_wires r)"
  shows "keeps P w r r'"
  using assms(1)
proof (cases rule: sa_grantE)
  case (1 invc outvc r1 r2 sa)
  have a: "keeps P w r r1" using 1(4) vc_allocate_keeps keeps_refl by blast
  then have "paired P (r_wires r1)" using assms(2) by (simp add: keeps_def)
  from send_winner_keeps [OF 1(5) this] a have "keeps P w r r2" by (blast intro: keeps_trans)
  then show ?thesis unfolding 1(7) by (rule keeps_trans) (rule keeps_other)
qed

text \<open>A chain of steps from a state whose wires are paired.\<close>

lemma keeps_step:
  assumes "paired P (r_wires r) \<longrightarrow> keeps P w r s" "paired P (r_wires s) \<Longrightarrow> keeps P w s t"
  shows "paired P (r_wires r) \<longrightarrow> keeps P w r t"
  using assms keeps_trans by (metis keeps_def)

lemma SwitchAllocator_wakeup_keeps:
  assumes "SwitchAllocator_wakeup cfg now r = Inr r'" "paired P (r_wires r)"
  shows "keeps P w r r'"
proof -
  from assms(1) obtain r1 r2 where r1: "arbitrate_inports cfg now r = Inr r1"
    and r2: "arbitrate_outports cfg now r1 = Inr r2" and c: "check_for_wakeup now (clear_request_vector r2) = Inr r'"
    unfolding SwitchAllocator_wakeup_def by (auto elim!: bindR_InrE)
  have a: "keeps P w r r1" using arbitrate_inports_frame [OF r1] keeps_other(1) by blast
  have "paired P (r_wires r) \<longrightarrow> keeps P w r r2"
    using arbitrate_outports_invariant [OF r2, of "\<lambda>_ s. paired P (r_wires r) \<longrightarrow> keeps P w r s"] a
      keeps_step sa_grant_keeps by blast
  with assms(2) have b: "keeps P w r r2" by blast
  have "keeps P w r2 (clear_request_vector r2)" unfolding clear_request_vector_def Let_def by (rule keeps_other)
  moreover have "keeps P w (clear_request_vector r2) r'" using check_for_wakeup_frame [OF c] keeps_other(2) by blast
  ultimately show ?thesis using b keeps_trans by blast
qed

lemma inport_step_keeps:
  assumes "inport_step cfg now rnd i r = Inr r'"
  shows "keeps P w r r'"
proof -
  from assms obtain iu ru con links where i: "0 \<le> i" "i < int (length (r_input_unit r))"
    and u: "InputUnit_wakeup cfg (r_params r) now (rnd i)
      (r_input_unit r ! nat i, r_routingUnit r, r_consumer r, r_links r) = Inr (iu, ru, con, links)"
    and r': "r' = (put_iu i iu r)\<lparr>r_routingUnit := ru, r_consumer := con, r_links := links\<rparr>"
    unfolding inport_step_def by (auto elim!: bindR_InrE simp: nthR_eq_Inr)
  note t = InputUnit_wakeup_tokens [OF u, of P w]
  note p = put_iu_tokens [OF i conjunct1 [OF t]]
  have "own_tokens P w r' = own_tokens P w (put_iu i iu r)" "r_wires r' = r_wires (put_iu i iu r)" "r_ok r' = r_ok (put_iu i iu r)"
    unfolding r' by (simp_all add: own_tokens_def r_wires_def r_ok_def)
  with p t show ?thesis unfolding keeps_def by (simp add: r')
qed

lemma outport_step_keeps:
  assumes "outport_step now i r = Inr r'"
  shows "keeps P w r r'"
proof -
  from assms obtain ou links where i: "0 \<le> i" "i < int (length (r_output_unit r))"
    and u: "OutputUnit_wakeup now (r_output_unit r ! nat i, r_links r) = Inr (ou, links)"
    and r': "r' = (put_ou i ou r)\<lparr>r_links := links\<rparr>"
    unfolding outport_step_def by (auto elim!: bindR_InrE simp: nthR_eq_Inr)
  note t = OutputUnit_wakeup_tokens [OF u, of P w]
  note p = put_ou_tokens [OF i conjunct1 [OF t]]
  have "r_ok r \<longrightarrow> r_ok (put_ou i ou r)" using p(4) OutputUnit_wakeup_ok [OF u] i by (auto simp: r_ok_def)
  moreover have "own_tokens P w r' = own_tokens P w (put_ou i ou r)" "r_wires r' = r_wires (put_ou i ou r)"
    "r_ok r' = r_ok (put_ou i ou r)"
    unfolding r' by (simp_all add: own_tokens_def r_wires_def r_ok_def)
  ultimately show ?thesis using p t unfolding keeps_def by (simp add: r')
qed

lemma crossbar_step_keeps:
  assumes "crossbar_step now r = Inr r'"
  shows "keeps P w r r'"
proof -
  from assms obtain xb ous links where
    c: "CrossbarSwitch_wakeup now (r_consumer r) (r_crossbarSwitch r, r_output_unit r, r_links r) = Inr (xb, ous, links)"
    and r': "r' = r\<lparr>r_crossbarSwitch := xb, r_output_unit := ous, r_links := links\<rparr>"
    unfolding crossbar_step_def by (auto elim!: bindR_InrE)
  note t = CrossbarSwitch_wakeup_tokens [OF c, of P w]
  have "list_all (\<lambda>vs. \<forall>v \<in> set vs. ovc_ok v) (map ou_outVcState ous) = list_all (\<lambda>vs. \<forall>v \<in> set vs. ovc_ok v) (map ou_outVcState (r_output_unit r))"
    using t by simp
  then have "r_ok r' = r_ok r" by (simp add: r_ok_def ou_ok_def r' list_all_iff)
  with t show ?thesis by (simp add: keeps_def r' own_tokens_def r_wires_def)
qed

lemma Router_wakeup_keeps:
  assumes "Router_wakeup cfg now rnd r = Inr r'" "paired P (r_wires r)"
  shows "keeps P w r r'"
  using assms(1)
proof (cases rule: Router_wakeupE)
  case (1 r1 r2 r3)
  have a: "keeps P w r r1"
    by (rule foldR_invariant [OF 1(2)]) (blast intro: keeps_refl keeps_trans inport_step_keeps)+
  have "keeps P w r1 r2"
    by (rule foldR_invariant [OF 1(3)]) (blast intro: keeps_refl keeps_trans outport_step_keeps)+
  with a have b: "keeps P w r r2" by (rule keeps_trans)
  then have "paired P (r_wires r2)" using assms(2) by (simp add: keeps_def)
  from SwitchAllocator_wakeup_keeps [OF 1(4) this] crossbar_step_keeps [OF 1(5)] b show ?thesis
    by (blast intro: keeps_trans)
qed

end
