(* ===== verification/InterfaceCredits.thy ===== *)
theory InterfaceCredits
  imports ChannelCredits
begin

text \<open>
  The interfaces keep the tokens of a credit loop: what a wakeup of an interface takes from the
  links, stalls, delivers, answers with credits and sends leaves the count of every loop and every
  virtual channel as it was.
\<close>

section \<open>Tokens of an interface\<close>

definition op_tokens :: "int set \<Rightarrow> int \<Rightarrow> OutputPort \<Rightarrow> int" where
  "op_tokens P w p = (if op_outNetLink p \<in> P then flits_on w (fb_buffer (op_outFlitQueue p)) else 0)"

definition ip_tokens :: "int set \<Rightarrow> int \<Rightarrow> InputPort \<Rightarrow> int" where
  "ip_tokens P w p = (if ip_inNetLink p \<in> P then flits_on w (ip_stall_queue p) else 0) +
    (if ip_outCreditLink p \<in> P then flits_on w (fb_buffer (ip_outCreditQueue p)) else 0)"

definition op_wires :: "OutputPort \<Rightarrow> int \<times> int" where
  "op_wires p = (op_outNetLink p, op_inCreditLink p)"

definition ip_wires :: "InputPort \<Rightarrow> int \<times> int" where
  "ip_wires p = (ip_inNetLink p, ip_outCreditLink p)"

definition ni_wires :: "NetworkInterface \<Rightarrow> wires" where
  "ni_wires ni = (map ip_wires (ni_inPorts ni), map op_wires (ni_outPorts ni))"

text \<open>The output ports of an interface share its virtual channels: they are in a loop together.\<close>

definition ni_paired :: "int set \<Rightarrow> wires \<Rightarrow> bool" where
  "ni_paired P ws \<longleftrightarrow> paired P ws \<and>
    (list_all (\<lambda>(a, b). a \<in> P) (snd ws) \<or> list_all (\<lambda>(a, b). a \<notin> P) (snd ws))"

definition ni_sends :: "int set \<Rightarrow> wires \<Rightarrow> bool" where
  "ni_sends P ws \<longleftrightarrow> list_ex (\<lambda>(a, b). a \<in> P) (snd ws)"

definition ni_tokens :: "int set \<Rightarrow> int \<Rightarrow> NetworkInterface \<Rightarrow> int" where
  "ni_tokens P w ni =
    (if ni_sends P (ni_wires ni) then entry w ovc_credit_count (ni_outVcState ni) else 0) +
    sum_list (map (op_tokens P w) (ni_outPorts ni)) + sum_list (map (ip_tokens P w) (ni_inPorts ni))"

text \<open>The flits of a virtual channel carry its number, and the credits are in bounds.\<close>

definition stamped :: "flitBuffer list \<Rightarrow> bool" where
  "stamped bs \<longleftrightarrow> (\<forall>i < length bs. \<forall>f \<in> set (fb_buffer (bs ! i)). fl_vc f = int i)"

lemma stamped_nth: "stamped bs \<Longrightarrow> 0 \<le> vc \<Longrightarrow> vc < int (length bs) \<Longrightarrow> f \<in> set (fb_buffer (bs ! nat vc)) \<Longrightarrow> fl_vc f = vc"
  unfolding stamped_def by (metis int_nat_eq nat_less_iff of_nat_less_iff)

lemma stamped_update:
  assumes "stamped bs" "0 \<le> vc" "\<forall>f \<in> set (fb_buffer b). fl_vc f = vc"
  shows "stamped (bs[nat vc := b])"
  unfolding stamped_def
proof (intro allI impI ballI)
  fix i f
  assume "i < length (bs[nat vc := b])" "f \<in> set (fb_buffer (bs[nat vc := b] ! i))"
  then show "fl_vc f = int i"
    using assms by (cases "i = nat vc") (auto simp: stamped_def)
qed

definition ni_good :: "NetworkInterface \<Rightarrow> bool" where
  "ni_good ni \<longleftrightarrow> stamped (ni_niOutVcs ni) \<and> (\<forall>v \<in> set (ni_outVcState ni). ovc_ok v)"

definition moved :: "int set \<Rightarrow> int \<Rightarrow> NetworkInterface \<times> NetworkLink list \<Rightarrow> NetworkInterface \<times> NetworkLink list \<Rightarrow> bool" where
  "moved P w = (\<lambda>(ni, links) (ni', links').
    ni_wires ni' = ni_wires ni \<and> sources links' = sources links \<and> ni_good ni' \<and>
    ni_tokens P w ni' + links_tokens P w links' = ni_tokens P w ni + links_tokens P w links)"

lemma moved_refl: "ni_good ni \<Longrightarrow> moved P w (ni, links) (ni, links)"
  by (simp add: moved_def)

lemma moved_trans: "moved P w a b \<Longrightarrow> moved P w b c \<Longrightarrow> moved P w a c"
  by (auto simp: moved_def)

lemma moved_keeps:
  assumes "moved P w (ni, links) (ni', links')"
  shows "ni_good ni'" "ni_wires ni' = ni_wires ni" "length (ni_inPorts ni') = length (ni_inPorts ni)"
    "length (ni_outPorts ni') = length (ni_outPorts ni)"
proof -
  from assms show "ni_good ni'" "ni_wires ni' = ni_wires ni" by (simp_all add: moved_def)
  then show "length (ni_inPorts ni') = length (ni_inPorts ni)" "length (ni_outPorts ni') = length (ni_outPorts ni)"
    by (metis ni_wires_def length_map prod.inject)+
qed

lemma ni_sends_iff: "ni_sends P (ni_wires ni) \<longleftrightarrow> (\<exists>i < length (ni_outPorts ni). op_outNetLink (ni_outPorts ni ! i) \<in> P)"
  by (auto simp: ni_sends_def ni_wires_def list_ex_length op_wires_def)

lemma ni_paired_ports:
  assumes "ni_paired P (ni_wires ni)"
  shows "i < length (ni_inPorts ni) \<Longrightarrow> ip_inNetLink (ni_inPorts ni ! i) \<in> P \<longleftrightarrow> ip_outCreditLink (ni_inPorts ni ! i) \<in> P"
    and "i < length (ni_outPorts ni) \<Longrightarrow> op_outNetLink (ni_outPorts ni ! i) \<in> P \<longleftrightarrow> op_inCreditLink (ni_outPorts ni ! i) \<in> P"
    and "i < length (ni_outPorts ni) \<Longrightarrow> op_outNetLink (ni_outPorts ni ! i) \<in> P \<longleftrightarrow> ni_sends P (ni_wires ni)"
proof -
  have all: "(\<forall>i < length (ni_outPorts ni). op_outNetLink (ni_outPorts ni ! i) \<in> P) \<or>
      (\<forall>i < length (ni_outPorts ni). op_outNetLink (ni_outPorts ni ! i) \<notin> P)"
    using assms by (auto simp: ni_paired_def ni_wires_def op_wires_def list_all_length)
  then show "i < length (ni_outPorts ni) \<Longrightarrow> op_outNetLink (ni_outPorts ni ! i) \<in> P \<longleftrightarrow> ni_sends P (ni_wires ni)"
    unfolding ni_sends_iff by blast
qed (use assms in \<open>auto simp: ni_paired_def paired_def ni_wires_def both_def ip_wires_def op_wires_def list_all_length\<close>)

lemma ni_tokens_frame:
  assumes "ni_wires ni' = ni_wires ni" "ni_inPorts ni' = ni_inPorts ni"
    "entry w ovc_credit_count (ni_outVcState ni') = entry w ovc_credit_count (ni_outVcState ni) + d"
    "sum_list (map (op_tokens P w) (ni_outPorts ni')) = sum_list (map (op_tokens P w) (ni_outPorts ni))"
  shows "ni_tokens P w ni' = ni_tokens P w ni + (if ni_sends P (ni_wires ni) then d else 0)"
  using assms by (simp add: ni_tokens_def)

text \<open>Nothing the tokens read has changed.\<close>

lemma same_account_moved:
  assumes "same_account ni ni'" "ni_good ni" "links_tokens P w links' = links_tokens P w links" "sources links' = sources links"
  shows "moved P w (ni, links) (ni', links')"
  using assms by (simp add: moved_def same_account_def ni_wires_def ni_tokens_def ni_good_def)

section \<open>Arriving flits\<close>

text \<open>A step that changes one input port, and the links.\<close>

lemma in_port_moved:
  assumes "p < length (ni_inPorts ni)" "ni_inPorts ni' = (ni_inPorts ni)[p := P']"
    "ni_outPorts ni' = ni_outPorts ni" "ni_niOutVcs ni' = ni_niOutVcs ni" "ni_outVcState ni' = ni_outVcState ni"
    and "ip_wires P' = ip_wires (ni_inPorts ni ! p)" "ni_good ni" "sources links' = sources links"
    and "ip_tokens P w P' + links_tokens P w links' = ip_tokens P w (ni_inPorts ni ! p) + links_tokens P w links"
  shows "moved P w (ni, links) (ni', links')"
proof -
  have ws: "ni_wires ni' = ni_wires ni" using assms(2,3,6) by (simp add: ni_wires_def map_update_same)
  have "ni_tokens P w ni' = ni_tokens P w ni + (ip_tokens P w P' - ip_tokens P w (ni_inPorts ni ! p))"
    using sum_update_diff [OF assms(1), of "ip_tokens P w" P'] assms(2-5) ws by (simp add: ni_tokens_def)
  with assms ws show ?thesis by (simp add: moved_def ni_good_def)
qed

text \<open>A flit from the link is delivered, or stalls.\<close>

lemma retire_moved:
  assumes "retire_flit cfg now p free f (ni1, gs) = Inr (ni', gs')" "same_account ni ni1" "p < length (ni_inPorts ni)"
    "ni_good ni" "ni_paired P (ni_wires ni)" "sources links' = sources links"
    "links_tokens P w links' = links_tokens P w links - (if ip_inNetLink (ni_inPorts ni ! p) \<in> P \<and> fl_vc f = w then 1 else 0)"
  shows "moved P w (ni, links) (ni', links')"
proof -
  from assms(1) obtain c where c: "ni' = mod_inPort p (sendCredit c) ni1" "fl_vc c = fl_vc f" by (rule retire_flitE)
  show ?thesis
    by (rule in_port_moved [OF assms(3), where P' = "sendCredit c (ni_inPorts ni ! p)"])
      (use assms(2-) c ni_paired_ports(1) [OF assms(5,3)] in
        \<open>simp_all add: mod_inPort_def sendCredit_def same_account_def ip_wires_def ip_tokens_def\<close>)
qed

lemma stall_moved:
  assumes "stall_flit p f ni1 = Inr ni'" "same_account ni ni1" "p < length (ni_inPorts ni)" "ni_good ni" "sources links' = sources links"
    "links_tokens P w links' = links_tokens P w links - (if ip_inNetLink (ni_inPorts ni ! p) \<in> P \<and> fl_vc f = w then 1 else 0)"
  shows "moved P w (ni, links) (ni', links')"
proof -
  let ?P = "(ni_inPorts ni ! p)\<lparr>ip_stall_queue := ip_stall_queue (ni_inPorts ni ! p) @ [f]\<rparr>"
  from assms(1) obtain v b counts where
    "ni' = put_out_buffer v b (mod_inPort p (\<lambda>ip. ip\<lparr>ip_stall_queue := ip_stall_queue ip @ [f]\<rparr>) (ni1\<lparr>ni_stall_count := counts\<rparr>))"
    unfolding stall_flit_def by (auto elim!: bindR_InrE)
  then show ?thesis
    by (intro in_port_moved [OF assms(3), where P' = ?P])
      (use assms(2-) in \<open>simp_all add: mod_inPort_def same_account_def ip_wires_def ip_tokens_def\<close>)
qed

lemma unstall_moved:
  assumes "unstall cfg rs msgs rt now p f (seen @ todo) (ni1, gs) = Inr (ni', gs', reqs)"
    "same_account ni ni1" "p < length (ni_inPorts ni)" "ip_stall_queue (ni_inPorts ni ! p) = seen @ f # todo"
    "ni_good ni" "ni_paired P (ni_wires ni)"
  shows "moved P w (ni, links) (ni', links)"
proof -
  have "\<exists>ni2 ni3 ni4 counts. same_account ni1 ni2 \<and> retire_flit cfg now p True f (ni2, gs) = Inr (ni3, gs') \<and>
    same_account ni3 ni4 \<and>
    ni' = mod_inPort p (\<lambda>ip. ip\<lparr>ip_stall_queue := seen @ todo, ip_messageEnqueuedThisCycle := True\<rparr>) (ni4\<lparr>ni_stall_count := counts\<rparr>)"
    using assms(1) unfolding unstall_def Let_def prod.case
    by (elim bindR_InrE case_prod_InrE) (fastforce split del: if_split dest!: ni_enqueue_account unregister_account)
  then obtain ni2 ni3 ni4 counts where a: "same_account ni1 ni2" and d: "same_account ni3 ni4"
    and b: "retire_flit cfg now p True f (ni2, gs) = Inr (ni3, gs')"
    and e: "ni' = mod_inPort p (\<lambda>ip. ip\<lparr>ip_stall_queue := seen @ todo, ip_messageEnqueuedThisCycle := True\<rparr>) (ni4\<lparr>ni_stall_count := counts\<rparr>)"
    by blast
  from b obtain c where c: "ni3 = mod_inPort p (sendCredit c) ni2" "fl_vc c = fl_vc f" by (rule retire_flitE)
  have ab: "same_account ni ni2" using assms(2) a by (rule same_account_trans)
  let ?P = "(sendCredit c (ni_inPorts ni ! p))\<lparr>ip_stall_queue := seen @ todo, ip_messageEnqueuedThisCycle := True\<rparr>"
  show ?thesis
    by (rule in_port_moved [OF assms(3), where P' = ?P])
      (use ab d e c assms(3-) ni_paired_ports(1) [OF assms(6,3)] in
        \<open>simp_all add: mod_inPort_def sendCredit_def same_account_def ip_wires_def ip_tokens_def\<close>)
qed

lemma stall_loop_moved:
  assumes "stall_loop cfg rs msgs rt now p seen todo (ni1, gs) = Inr (ni', gs', reqs)"
    "same_account ni ni1" "p < length (ni_inPorts ni)" "ip_stall_queue (ni_inPorts ni ! p) = seen @ todo"
    "ni_good ni" "ni_paired P (ni_wires ni)"
  shows "moved P w (ni, links) (ni', links)"
  using assms
proof (induction todo arbitrary: seen ni1)
  case Nil
  then show ?case by (intro same_account_moved) auto
next
  case (Cons f todo)
  from Cons.prems(1) obtain ok ni2 where s: "slot_available now (fl_vnet f) ni1 = Inr (ok, ni2)"
    and r: "(if ok then unstall cfg rs msgs rt now p f (seen @ todo) (ni2, gs)
      else stall_loop cfg rs msgs rt now p (seen @ [f]) todo (ni2, gs)) = Inr (ni', gs', reqs)"
    unfolding stall_loop.simps fst_conv snd_conv by (elim bindR_InrE case_prod_InrE) blast
  have a: "same_account ni ni2" using Cons.prems(2) slot_available_account [OF s] by (rule same_account_trans)
  from r show ?case
  proof (elim if_InrE)
    assume "unstall cfg rs msgs rt now p f (seen @ todo) (ni2, gs) = Inr (ni', gs', reqs)"
    from unstall_moved [OF this a] Cons.prems(3-) show ?thesis by auto
  next
    assume "stall_loop cfg rs msgs rt now p (seen @ [f]) todo (ni2, gs) = Inr (ni', gs', reqs)"
    from Cons.IH [OF this a] Cons.prems(3-) show ?thesis by simp
  qed
qed

lemma checkStallQueue_moved:
  assumes "checkStallQueue cfg rs msgs rt now (ni, gs) = Inr (ni', gs', reqs)" "ni_good ni" "ni_paired P (ni_wires ni)"
  shows "moved P w (ni, links) (ni', links)"
proof -
  let ?I = "\<lambda>(ni1, gs1, reqs). moved P w (ni, links) (ni1, links)"
  let ?step = "\<lambda>p (ni, gs, reqs).
        let ni0 = mod_inPort p (\<lambda>ip. ip\<lparr>ip_messageEnqueuedThisCycle := False\<rparr>) ni in
        bindR (stall_loop cfg rs msgs rt now p [] (ip_stall_queue (ni_inPorts ni0 ! p)) (ni0, gs)) (\<lambda>(ni1, gs1, rq).
          Inr (ni1, gs1, reqs @ rq))"
  have "?I (ni', gs', reqs)"
  proof (rule foldR_invariant [where f = ?step and xs = "[0..<length (ni_inPorts ni)]" and s = "(ni, gs, [])"])
    show "foldR ?step [0..<length (ni_inPorts ni)] (ni, gs, []) = Inr (ni', gs', reqs)"
      using assms(1) by (simp add: checkStallQueue_def)
    show "?I (ni, gs, [])" using assms(2) by (simp add: moved_refl)
  next
    fix p s s'
    assume p: "p \<in> set [0..<length (ni_inPorts ni)]" and I: "?I s" and step: "?step p s = Inr s'"
    obtain ni1 gs1 rq1 where s: "s = (ni1, gs1, rq1)" by (cases s)
    obtain ni2 gs2 rq2 where s': "s' = (ni2, gs2, rq2)" by (cases s')
    let ?ni0 = "mod_inPort p (\<lambda>ip. ip\<lparr>ip_messageEnqueuedThisCycle := False\<rparr>) ni1"
    have I1: "moved P w (ni, links) (ni1, links)" using I s by simp
    note k1 = moved_keeps [OF I1]
    have p1: "p < length (ni_inPorts ni1)" using p k1(3) by simp
    have I0: "moved P w (ni1, links) (?ni0, links)"
      by (rule in_port_moved [OF p1, where P' = "(ni_inPorts ni1 ! p)\<lparr>ip_messageEnqueuedThisCycle := False\<rparr>"])
        (simp_all add: mod_inPort_def ip_wires_def ip_tokens_def k1)
    note k0 = moved_keeps [OF I0]
    from step obtain rq where l: "stall_loop cfg rs msgs rt now p [] (ip_stall_queue (ni_inPorts ?ni0 ! p)) (?ni0, gs1) = Inr (ni2, gs2, rq)"
      unfolding s s' by (auto simp: Let_def elim!: bindR_InrE)
    have "moved P w (?ni0, links) (ni2, links)"
      by (rule stall_loop_moved [OF l]) (use p1 k0 k1 assms(3) in \<open>simp_all add: same_account_def\<close>)
    then show "?I s'" unfolding s' using I1 I0 moved_trans by fastforce
  qed
  then show ?thesis by simp
qed


section \<open>A whole wakeup\<close>

lemma receive_tail_moved:
  assumes "receive_tail cfg rs msgs rt now p f (ni, gs) = Inr (ni', gs', reqs)" "p < length (ni_inPorts ni)"
    "ni_good ni" "ni_paired P (ni_wires ni)" "sources links' = sources links"
    "links_tokens P w links' = links_tokens P w links - (if ip_inNetLink (ni_inPorts ni ! p) \<in> P \<and> fl_vc f = w then 1 else 0)"
  shows "moved P w (ni, links) (ni', links')"
proof -
  from assms(1) obtain ok ni1 where s: "(if \<not> ip_messageEnqueuedThisCycle (ni_inPorts ni ! p)
        then slot_available now (fl_vnet f) ni else Inr (False, ni)) = Inr (ok, ni1)"
    and r: "(if ok then
      bindR (if \<not> gs_trace_enable gs
             then bindR (ni_enqueue rs rt now (fl_vnet f) (flit_message msgs f) ni1)
                    (\<lambda>(ni2, reqs). Inr (ni2, gs, reqs))
             else Inr (ni1, increment_trace_flits_received gs, [])) (\<lambda>(ni2, gs2, reqs).
      bindR (retire_flit cfg now p True f (ni2, gs2)) (\<lambda>(ni3, gs3). Inr (ni3, gs3, reqs)))
    else bindR (stall_flit p f ni1) (\<lambda>ni2. Inr (ni2, gs, []))) = Inr (ni', gs', reqs)"
    unfolding receive_tail_def prod.case by (elim bindR_InrE case_prod_InrE) blast
  have a: "same_account ni ni1"
    using s by (elim if_InrE) (auto dest!: slot_available_account intro: same_account_refl)
  show ?thesis
  proof (cases ok)
    case True
    with r obtain ni2 gs2 where
      e: "(if \<not> gs_trace_enable gs
             then bindR (ni_enqueue rs rt now (fl_vnet f) (flit_message msgs f) ni1)
                    (\<lambda>(ni2, reqs). Inr (ni2, gs, reqs))
             else Inr (ni1, increment_trace_flits_received gs, [])) = Inr (ni2, gs2, reqs)"
      and t: "retire_flit cfg now p True f (ni2, gs2) = Inr (ni', gs')"
      by (auto elim!: bindR_InrE split del: if_split)
    have "same_account ni1 ni2"
      using e by (elim if_InrE) (auto elim!: bindR_InrE dest: ni_enqueue_account simp: same_account_def)
    with a have "same_account ni ni2" by (rule same_account_trans)
    from retire_moved [OF t this assms(2-)] show ?thesis .
  next
    case False
    with r have st: "stall_flit p f ni1 = Inr ni'" by (auto elim!: bindR_InrE)
    from stall_moved [OF st a assms(2,3,5,6)] show ?thesis .
  qed
qed

lemma receive_port_moved:
  assumes "receive_port cfg rs msgs rt now p (ni, gs, links, reqs) = Inr (ni', gs', links', reqs')"
    "p < length (ni_inPorts ni)" "ni_good ni" "ni_paired P (ni_wires ni)"
  shows "moved P w (ni, links) (ni', links')"
proof -
  let ?i = "ip_inNetLink (ni_inPorts ni ! p)"
  from assms(1) obtain l where l: "nthR links ?i = Inr l"
    and r: "(if link_isReady now l then
       bindR (consumeLink l) (\<lambda>(t_flit, inNetLink').
       guardR (fl_width t_flit = ip_bitWidth (ni_inPorts ni ! p)) (Assert_failed ''t_flit->m_width == iPort->bitWidth()'')
       (let f = t_flit\<lparr>fl_dequeue_time := now\<rparr>; links1 = links[nat ?i := inNetLink'] in
        if is_tail f then
          bindR (receive_tail cfg rs msgs rt now p f (ni, gs)) (\<lambda>(ni1, gs1, rq). Inr (ni1, gs1, links1, reqs @ rq))
        else
          bindR (retire_flit cfg now p False f (ni, gs)) (\<lambda>(ni1, gs1). Inr (ni1, gs1, links1, reqs))))
     else Inr (ni, gs, links, reqs)) = Inr (ni', gs', links', reqs')"
    unfolding receive_port_def Let_def prod.case by (elim bindR_InrE) blast
  show ?thesis
  proof (cases "link_isReady now l")
    case False
    with r assms(3) show ?thesis by (simp add: moved_refl)
  next
    case True
    with r obtain f0 l' rq where c: "consumeLink l = Inr (f0, l')" and links': "links' = links[nat ?i := l']"
      and k: "receive_tail cfg rs msgs rt now p (f0\<lparr>fl_dequeue_time := now\<rparr>) (ni, gs) = Inr (ni', gs', rq) \<or>
        retire_flit cfg now p False (f0\<lparr>fl_dequeue_time := now\<rparr>) (ni, gs) = Inr (ni', gs')"
      unfolding Let_def by (auto elim!: bindR_InrE guardR_InrE if_InrE)
    from l have i: "nat ?i < length links" "l = links ! nat ?i" "int (nat ?i) = ?i" by (auto simp: nthR_eq_Inr)
    have t: "sources links' = sources links"
      "links_tokens P w links' = links_tokens P w links - (if ?i \<in> P \<and> fl_vc (f0\<lparr>fl_dequeue_time := now\<rparr>) = w then 1 else 0)"
      using consume_tokens [of links "nat ?i" f0 l' P w] c i links' by simp_all
    from k show ?thesis
      using receive_tail_moved [OF _ assms(2-4) t] retire_moved [OF _ same_account_refl assms(2-4) t] by blast
  qed
qed

lemma receive_ports_moved:
  assumes "foldR (receive_port cfg rs msgs rt now) [0..<length (ni_inPorts ni)] (ni, gs, links, reqs) = Inr (ni', gs', links', reqs')"
    "ni_good ni" "ni_paired P (ni_wires ni)"
  shows "moved P w (ni, links) (ni', links')"
proof -
  let ?I = "\<lambda>(ni1, gs1, links1, reqs1). moved P w (ni, links) (ni1, links1)"
  have "?I (ni', gs', links', reqs')"
  proof (rule foldR_invariant [OF assms(1)])
    show "?I (ni, gs, links, reqs)" using assms(2) by (simp add: moved_refl)
  next
    fix p s s'
    assume p: "p \<in> set [0..<length (ni_inPorts ni)]" and I: "?I s" and step: "receive_port cfg rs msgs rt now p s = Inr s'"
    obtain ni1 g1 l1 r1 where s: "s = (ni1, g1, l1, r1)" by (cases s)
    obtain ni2 g2 l2 r2 where s': "s' = (ni2, g2, l2, r2)" by (cases s')
    have I1: "moved P w (ni, links) (ni1, l1)" using I s by simp
    note k = moved_keeps [OF I1]
    have "moved P w (ni1, l1) (ni2, l2)"
      by (rule receive_port_moved [OF step [unfolded s s']]) (use p k assms(3) in auto)
    with I1 show "?I s'" unfolding s' using moved_trans by fastforce
  qed
  then show ?thesis by simp
qed

text \<open>A credit that arrives is one more credit of its channel.\<close>

lemma idle_all_ok:
  assumes "modR vs i (\<lambda>v. Inr (setState st now v)) = Inr vs'" "\<forall>v \<in> set vs. ovc_ok v"
  shows "\<forall>v \<in> set vs'. ovc_ok v"
  by (rule modR_all [OF assms]) auto

lemma receive_credit_moved:
  assumes "ni_receive_credit now p (ni, links) = Inr (ni', links')"
    "p < length (ni_outPorts ni)" "ni_good ni" "ni_paired P (ni_wires ni)"
  shows "moved P w (ni, links) (ni', links')"
proof -
  let ?i = "op_inCreditLink (ni_outPorts ni ! p)"
  from assms(1) obtain l where l: "nthR links ?i = Inr l"
    and r: "(if link_isReady now l then
       bindR (consumeLink l) (\<lambda>(t_credit, l').
       guardR (fl_credit t_credit \<noteq> None) (Null_pointer ''not a Credit'')
       (bindR (modR (ni_outVcState ni) (fl_vc t_credit) increment_credit) (\<lambda>states.
        bindR (if is_free_signal t_credit
               then modR states (fl_vc t_credit) (\<lambda>v. Inr (setState IDLE now v)) else Inr states) (\<lambda>states'.
          Inr (ni\<lparr>ni_outVcState := states'\<rparr>, links[nat ?i := l'])))))
     else Inr (ni, links)) = Inr (ni', links')"
    unfolding ni_receive_credit_def Let_def prod.case by (elim bindR_InrE) blast
  show ?thesis
  proof (cases "link_isReady now l")
    case False
    with r assms(3) show ?thesis by (simp add: moved_refl)
  next
    case True
    with r obtain c l' states states' where c: "consumeLink l = Inr (c, l')"
      and s: "modR (ni_outVcState ni) (fl_vc c) increment_credit = Inr states"
      and s': "(if is_free_signal c then modR states (fl_vc c) (\<lambda>v. Inr (setState IDLE now v)) else Inr states) = Inr states'"
      and ni': "ni' = ni\<lparr>ni_outVcState := states'\<rparr>" and links': "links' = links[nat ?i := l']"
      by (auto elim!: bindR_InrE guardR_InrE split del: if_split)
    have g: "\<forall>v \<in> set states. ovc_ok v"
      by (rule modR_all [OF s]) (use assms(3) increment_credit_ok in \<open>auto simp: ni_good_def\<close>)
    have g': "\<forall>v \<in> set states'. ovc_ok v"
      using s' g by (elim if_InrE) (simp_all add: idle_all_ok)
    have "entry w ovc_credit_count states = entry w ovc_credit_count (ni_outVcState ni) + (if fl_vc c = w then 1 else 0)"
      using s by (auto simp: modR_eq_Inr increment_credit_def Let_def entry_update elim!: guardR_InrE)
    moreover have "entry w ovc_credit_count states' = entry w ovc_credit_count states"
      using s' by (elim if_InrE) (auto simp: modR_eq_Inr setState_def entry_update_same)
    ultimately have "ni_tokens P w ni' = ni_tokens P w ni + (if ?i \<in> P \<and> fl_vc c = w then 1 else 0)"
      using ni_paired_ports(2,3) [OF assms(4,2)] by (simp add: ni_tokens_def ni' ni_wires_def)
    moreover from l have "nat ?i < length links" "l = links ! nat ?i" "int (nat ?i) = ?i" by (auto simp: nthR_eq_Inr)
    ultimately show ?thesis
      using consume_tokens [of links "nat ?i" c l' P w] c g' assms(3)
      by (simp add: moved_def links' ni_good_def ni' ni_wires_def)
  qed
qed

lemma receive_credits_moved:
  assumes "foldR (ni_receive_credit now) [0..<length (ni_outPorts ni)] (ni, links) = Inr (ni', links')"
    "ni_good ni" "ni_paired P (ni_wires ni)"
  shows "moved P w (ni, links) (ni', links')"
proof (rule foldR_invariant [OF assms(1)])
  show "moved P w (ni, links) (ni, links)" using assms(2) by (rule moved_refl)
next
  fix p s s'
  assume p: "p \<in> set [0..<length (ni_outPorts ni)]" and I: "moved P w (ni, links) s" and step: "ni_receive_credit now p s = Inr s'"
  obtain ni1 l1 ni2 l2 where s: "s = (ni1, l1)" and s': "s' = (ni2, l2)" by (cases s, cases s')
  note k = moved_keeps [OF I [unfolded s]]
  have "moved P w s s'"
    unfolding s s' by (rule receive_credit_moved [OF step [unfolded s s']]) (use p k assms(3) in auto)
  with I show "moved P w (ni, links) s'" by (rule moved_trans)
qed

text \<open>A flit that is sent costs a credit of its channel.\<close>

lemma out_ports_tokens:
  assumes "i < length ops" "op_wires p = op_wires (ops ! i)"
  shows "map op_wires (ops[i := p]) = map op_wires ops \<and>
    sum_list (map (op_tokens P w) (ops[i := p])) = sum_list (map (op_tokens P w) ops) + (op_tokens P w p - op_tokens P w (ops ! i))"
  using assms sum_update_diff [OF assms(1), of "op_tokens P w" p] by (simp_all add: map_update_same)

lemma ni_scheduleFlit_tokens:
  assumes "ni_scheduleFlit now f (ni, links) = Inr (ni', links')" "ni_paired P (ni_wires ni)"
  shows "ni_wires ni' = ni_wires ni \<and> sources links' = sources links \<and> links_tokens P w links' = links_tokens P w links \<and>
    ni_outVcState ni' = ni_outVcState ni \<and> ni_niOutVcs ni' = ni_niOutVcs ni \<and>
    ni_tokens P w ni' = ni_tokens P w ni + (if ni_sends P (ni_wires ni) \<and> fl_vc f = w then 1 else 0)"
proof (cases "getOutportForVnet (fl_vnet f) ni")
  case None
  with assms show ?thesis by (simp add: ni_scheduleFlit_def)
next
  case (Some i)
  let ?p = "ni_outPorts ni ! i"
  let ?q = "?p\<lparr>op_outFlitQueue := fb_insert f (op_outFlitQueue ?p)\<rparr>"
  from assms(1) Some have m: "modR links (op_outNetLink ?p)
       (\<lambda>l. Inr (link_scheduleEventAbsolute now (ni_clockEdge now 1 ni) l)) = Inr links'"
    and ni': "ni' = ni\<lparr>ni_outPorts := (ni_outPorts ni)[i := ?q]\<rparr>"
    unfolding ni_scheduleFlit_def by (auto simp: Let_def elim: bindR_InrE)
  have i: "i < length (ni_outPorts ni)" using getOutportForVnet_Some [OF Some] by blast
  note o = out_ports_tokens [OF i, of ?q P w]
  have q: "op_wires ?q = op_wires ?p" by (simp add: op_wires_def)
  then have "ni_wires ni' = ni_wires ni" using o by (simp add: ni_wires_def ni')
  with o [OF q] links_schedule_tokens [OF m, of P w] ni_paired_ports(3) [OF assms(2) i] show ?thesis
    by (simp add: ni_tokens_def ni' op_tokens_def)
qed

lemma send_vc_moved:
  assumes "send_vc now port vc (ni, links) = Inr (ni', links')" "port < length (ni_outPorts ni)"
    "ni_good ni" "ni_paired P (ni_wires ni)"
  shows "moved P w (ni, links) (ni', links')"
proof -
  let ?q = "(ni_outPorts ni ! port)\<lparr>op_vcRoundRobin := vc\<rparr>"
  from assms(1) obtain v f b ni1 ts where
    vc: "0 \<le> vc" "vc < int (length (ni_outVcState ni))" "vc < int (length (ni_niOutVcs ni))"
    and v: "decrement_credit (ni_outVcState ni ! nat vc) = Inr v" and top: "fb_getTopFlit (ni_niOutVcs ni ! nat vc) = Inr (f, b)"
    and s: "ni_scheduleFlit now (f\<lparr>fl_time := ni_clockEdge now 1 ni\<rparr>)
        (ni\<lparr>ni_outPorts := (ni_outPorts ni)[port := ?q],
            ni_outVcState := (ni_outVcState ni)[nat vc := v], ni_niOutVcs := (ni_niOutVcs ni)[nat vc := b]\<rparr>, links)
      = Inr (ni1, links')" (is "ni_scheduleFlit now _ (?ni0, links) = _")
    and ni': "ni' = ni1\<lparr>ni_out_vcs_enqueue_time := ts\<rparr>" by (rule send_vcE)
  have fs: "fb_buffer (ni_niOutVcs ni ! nat vc) = f # fb_buffer b" using top by (auto simp: fb_getTopFlit_eq)
  have sn: "stamped (ni_niOutVcs ni)" using assms(3) by (simp add: ni_good_def)
  have fv: "fl_vc f = vc" by (rule stamped_nth [OF sn vc(1,3)]) (simp add: fs)
  have st: "stamped ((ni_niOutVcs ni)[nat vc := b])"
    by (rule stamped_update [OF sn vc(1)]) (use stamped_nth [OF sn vc(1,3)] fs in auto)
  have "ni_outVcState ni ! nat vc \<in> set (ni_outVcState ni)" using vc(1,2) by simp
  then have vok: "ovc_ok v" using assms(3) decrement_credit_ok [OF _ v] unfolding ni_good_def by blast
  have "op_wires ?q = op_wires (ni_outPorts ni ! port)" by (simp add: op_wires_def)
  note o = out_ports_tokens [OF assms(2) this, of P w]
  have ws: "ni_wires ?ni0 = ni_wires ni" using o by (simp add: ni_wires_def)
  have "entry w ovc_credit_count ((ni_outVcState ni)[nat vc := v]) = entry w ovc_credit_count (ni_outVcState ni) - (if vc = w then 1 else 0)"
    using decrement_credit_Inr [OF v] vc by (simp add: entry_update)
  then have t0: "ni_tokens P w ?ni0 = ni_tokens P w ni - (if ni_sends P (ni_wires ni) \<and> vc = w then 1 else 0)"
    using ni_tokens_frame [OF ws, of w "- (if vc = w then 1 else 0)" P] o by (simp add: op_tokens_def [of P w ?q] op_tokens_def [of P w "ni_outPorts ni ! port"])
  have p0: "ni_paired P (ni_wires ?ni0)" using assms(4) ws by simp
  note t1 = ni_scheduleFlit_tokens [OF s p0, of w]
  have "ni_good ni'"
    using t1 st vok assms(3) by (auto simp: ni_good_def ni' dest!: set_update_subset_insert [THEN subsetD])
  moreover have "ni_wires ni' = ni_wires ni1" "ni_tokens P w ni' = ni_tokens P w ni1"
    by (simp_all add: ni' ni_wires_def ni_tokens_def)
  ultimately show ?thesis using t0 t1 ws fv by (auto simp: moved_def)
qed

lemma output_port_loop_moved:
  assumes "output_port_loop k cfg now port vc (ni, links) = Inr (ni', links')" "port < length (ni_outPorts ni)"
    "ni_good ni" "ni_paired P (ni_wires ni)"
  shows "moved P w (ni, links) (ni', links')"
  using assms(1)
proof (induction k arbitrary: vc)
  case 0
  with assms(3) show ?case by (simp add: moved_refl)
next
  case (Suc k)
  from Suc.prems obtain vc' ok where
    "(if ok then send_vc now port vc' (ni, links) else output_port_loop k cfg now port vc' (ni, links)) = Inr (ni', links')"
    unfolding output_port_loop.simps Let_def by (elim bindR_InrE) blast
  then show ?case by (elim if_InrE) (blast intro: send_vc_moved assms(2-4) Suc.IH)+
qed

lemma scheduleOutputLink_moved:
  assumes "scheduleOutputLink cfg now (ni, links) = Inr (ni', links')" "ni_good ni" "ni_paired P (ni_wires ni)"
  shows "moved P w (ni, links) (ni', links')"
proof (rule foldR_invariant [where f = "scheduleOutputPort cfg now" and xs = "[0..<length (ni_outPorts ni)]"])
  show "foldR (scheduleOutputPort cfg now) [0..<length (ni_outPorts ni)] (ni, links) = Inr (ni', links')"
    using assms(1) by (simp add: scheduleOutputLink_def)
  show "moved P w (ni, links) (ni, links)" using assms(2) by (rule moved_refl)
next
  fix p s s'
  assume p: "p \<in> set [0..<length (ni_outPorts ni)]" and I: "moved P w (ni, links) s" and step: "scheduleOutputPort cfg now p s = Inr s'"
  obtain ni1 l1 ni2 l2 where s: "s = (ni1, l1)" and s': "s' = (ni2, l2)" by (cases s, cases s')
  note k = moved_keeps [OF I [unfolded s]]
  have "moved P w s s'"
    unfolding s s' by (rule output_port_loop_moved [OF step [unfolded s s' scheduleOutputPort_def]]) (use p k assms(3) in auto)
  with I show "moved P w (ni, links) s'" by (rule moved_trans)
qed

lemma schedule_credit_links_tokens:
  "foldR (\<lambda>p. schedule_credit_link now p ni) ps links = Inr links' \<Longrightarrow>
    links_tokens P w links' = links_tokens P w links \<and> sources links' = sources links"
  by (rule foldR_invariant [where P = "\<lambda>l. links_tokens P w l = links_tokens P w links \<and> sources l = sources links"])
    (auto simp: schedule_credit_link_def Let_def dest!: links_schedule_tokens [where P = P and w = w] elim!: if_InrE)

lemma ni_wakeup_moved:
  assumes "ni_wakeup_rest cfg rs msgs rt now (ni, gs, links) = Inr (ni', gs', links', reqs)"
    "ni_good ni" "ni_paired P (ni_wires ni)"
  shows "moved P w (ni, links) (ni', links')"
proof -
  from assms(1) obtain ni1 l1 ni2 gs2 reqs2 ni3 l3 reqs3 ni4 l4 reqs5 where
    a: "scheduleOutputLink cfg now (ni, links) = Inr (ni1, l1)"
    and b: "checkStallQueue cfg rs msgs rt now (ni1, gs) = Inr (ni2, gs2, reqs2)"
    and c: "foldR (receive_port cfg rs msgs rt now) [0..<length (ni_inPorts ni2)] (ni2, gs2, l1, reqs2) = Inr (ni3, gs', l3, reqs3)"
    and d: "foldR (ni_receive_credit now) [0..<length (ni_outPorts ni3)] (ni3, l3) = Inr (ni4, l4)"
    and e: "foldR (\<lambda>p. schedule_credit_link now p ni4) [0..<length (ni_inPorts ni4)] l4 = Inr links'"
    and f: "checkReschedule now (ni4, links') = Inr (ni', reqs5)"
    unfolding ni_wakeup_rest_def by (auto elim!: bindR_InrE)
  note A = scheduleOutputLink_moved [OF a assms(2,3), of w]
  note ka = moved_keeps [OF A]
  note B = checkStallQueue_moved [OF b ka(1), of P w l1, unfolded ka(2), OF assms(3)]
  note kb = moved_keeps [OF B, unfolded ka(2)]
  note C = receive_ports_moved [OF c kb(1), of P w, unfolded kb(2), OF assms(3)]
  note kc = moved_keeps [OF C, unfolded kb(2)]
  note D = receive_credits_moved [OF d kc(1), of P w, unfolded kc(2), OF assms(3)]
  note kd = moved_keeps [OF D]
  have "moved P w (ni4, l4) (ni', links')"
    using schedule_credit_links_tokens [OF e, of P w]
    by (intro same_account_moved checkReschedule_account [OF f] kd(1)) simp_all
  then show ?thesis using A B C D moved_trans by blast
qed

lemma inject_shape:
  assumes "injectTraceFlit now vnet vc (ni, gs) = Inr (ni', gs')"
  obtains queue g bs ts states where "fl_vc g = vc" "modR (ni_niOutVcs ni) vc (\<lambda>b. Inr (fb_insert g b)) = Inr bs"
    "modR (ni_outVcState ni) vc (\<lambda>v. Inr (setState ACTIVE now v)) = Inr states"
    "ni' = ni\<lparr>ni_trace_injection_queue := queue, ni_niOutVcs := bs, ni_out_vcs_enqueue_time := ts, ni_outVcState := states\<rparr>"
proof (cases "ni_trace_injection_queue ni")
  case Nil
  with assms show thesis by (simp add: injectTraceFlit_def)
next
  case (Cons t_flit queue)
  let ?f = "t_flit\<lparr>fl_vc := vc, fl_time := now, fl_src_delay := tick_sub now (fl_enqueue_time t_flit), fl_enqueue_time := now\<rparr>"
  have "fl_vc ?f = vc" by simp
  from assms Cons obtain bs ts states where "modR (ni_niOutVcs ni) vc (\<lambda>b. Inr (fb_insert ?f b)) = Inr bs"
    "modR (ni_outVcState ni) vc (\<lambda>v. Inr (setState ACTIVE now v)) = Inr states"
    "ni' = ni\<lparr>ni_trace_injection_queue := queue, ni_niOutVcs := bs, ni_out_vcs_enqueue_time := ts, ni_outVcState := states\<rparr>"
    by (auto simp: injectTraceFlit_def Let_def elim!: bindR_InrE split del: if_split)
  with that \<open>fl_vc ?f = vc\<close> show thesis by blast
qed

text \<open>The injection of a trace flit stamps it with its channel, and touches no token.\<close>

lemma inject_moved:
  assumes "ni_inject_trace mt router_of stray now (ni, gs) = Inr (ni', gs')" "ni_good ni"
  shows "moved P w (ni, links) (ni', links)"
proof -
  from assms(1) obtain ni1 gs1 where
    a: "(if ni_trace_injection_queue ni = [] \<and> ni_trace_record_queue ni \<noteq> []
           then transferTraceRecordsToInjectionQueue mt router_of stray now (ni, gs) else Inr (ni, gs)) = Inr (ni1, gs1)"
    and b: "(case ni_trace_injection_queue ni1 of
         [] \<Rightarrow> Inr (ni1, gs1)
       | t_flit # _ \<Rightarrow>
           bindR (calculateVC now (fl_vnet t_flit) ni1) (\<lambda>(vc, ni2).
             if vc \<noteq> -1 then injectTraceFlit now (fl_vnet t_flit) vc (ni2, gs1) else Inr (ni2, gs1))) = Inr (ni', gs')"
    unfolding ni_inject_trace_def prod.case by (elim bindR_InrE case_prod_InrE) blast
  let ?same = "\<lambda>ni1. ni_wires ni1 = ni_wires ni \<and> ni_tokens P w ni1 = ni_tokens P w ni \<and> ni_good ni1"
  have s1: "?same ni1"
    using a assms(2)
    by (elim if_InrE) (auto elim!: transfer_shape simp: ni_wires_def ni_tokens_def ni_good_def)
  have "?same ni'"
  proof (cases "ni_trace_injection_queue ni1")
    case Nil
    with b s1 show ?thesis by simp
  next
    case (Cons f fs)
    with b obtain vc ni2 where v: "calculateVC now (fl_vnet f) ni1 = Inr (vc, ni2)"
      and i: "(if vc \<noteq> -1 then injectTraceFlit now (fl_vnet f) vc (ni2, gs1) else Inr (ni2, gs1)) = Inr (ni', gs')"
      by (auto elim!: bindR_InrE split del: if_split)
    from v obtain al bu where ni2: "ni2 = ni1\<lparr>ni_vc_allocator := al, ni_vc_busy_counter := bu\<rparr>" by (rule calculateVC_frame)
    have e: "ni_wires ni2 = ni_wires ni1" "ni_tokens P w ni2 = ni_tokens P w ni1" "ni_good ni2 = ni_good ni1"
      unfolding ni2 by (simp_all add: ni_wires_def ni_tokens_def ni_good_def)
    have s2: "?same ni2" using s1 e by simp
    show ?thesis
    proof (cases "vc = -1")
      case True
      with i s2 show ?thesis by simp
    next
      case False
      with i have "injectTraceFlit now (fl_vnet f) vc (ni2, gs1) = Inr (ni', gs')" by simp
      then obtain queue g bs ts states where g: "fl_vc g = vc"
        and bs: "modR (ni_niOutVcs ni2) vc (\<lambda>b. Inr (fb_insert g b)) = Inr bs"
        and states: "modR (ni_outVcState ni2) vc (\<lambda>v. Inr (setState ACTIVE now v)) = Inr states"
        and ni': "ni' = ni2\<lparr>ni_trace_injection_queue := queue, ni_niOutVcs := bs, ni_out_vcs_enqueue_time := ts, ni_outVcState := states\<rparr>"
        by (rule inject_shape)
      have sn: "stamped (ni_niOutVcs ni2)" using s2 by (simp add: ni_good_def)
      from bs have b: "0 \<le> vc" "vc < int (length (ni_niOutVcs ni2))"
        "bs = (ni_niOutVcs ni2)[nat vc := fb_insert g (ni_niOutVcs ni2 ! nat vc)]" by (auto simp: modR_eq_Inr)
      have "stamped bs" unfolding b(3)
        by (rule stamped_update [OF sn b(1)]) (use stamped_nth [OF sn b(1,2)] g in auto)
      moreover have "\<forall>v \<in> set states. ovc_ok v"
        by (rule idle_all_ok [OF states]) (use s2 in \<open>simp add: ni_good_def\<close>)
      moreover have "entry w ovc_credit_count states = entry w ovc_credit_count (ni_outVcState ni2)"
        using states by (auto simp: modR_eq_Inr setState_def entry_update_same)
      moreover have "ni_wires ni' = ni_wires ni2" by (simp add: ni' ni_wires_def)
      ultimately show ?thesis using s2 ni_tokens_frame [of ni' ni2 w 0 P] by (simp add: ni_good_def ni')
    qed
  qed
  then show ?thesis by (simp add: moved_def)
qed

end
