(* ===== verification/CreditRun.thy ===== *)
theory CreditRun
  imports InterfaceCredits
begin

text \<open>
  The tokens of a credit loop along a run of the whole network, and what follows from their
  number being constant: no sender can overrun a virtual channel.
\<close>

section \<open>Tokens and wires of a network\<close>

definition net_tokens :: "int set \<Rightarrow> int \<Rightarrow> 'r GarnetNetwork \<Rightarrow> int" where
  "net_tokens P w net = sum_list (map (own_tokens P w) (gn_routers net)) + sum_list (map (ni_tokens P w) (gn_nis net)) +
    links_tokens P w (gn_links net)"

text \<open>The wires of the routers, of the interfaces, and the source of every link. No event changes them.\<close>

type_synonym net_wires = "wires list \<times> wires list \<times> queue_ref option list"

definition net_wires :: "'r GarnetNetwork \<Rightarrow> net_wires" where
  "net_wires net = (map r_wires (gn_routers net), map ni_wires (gn_nis net), sources (gn_links net))"

text \<open>The link that the port behind a source queue feeds.\<close>

definition fed_link :: "net_wires \<Rightarrow> queue_ref \<Rightarrow> int" where
  "fed_link = (\<lambda>(rs, ns, qs) q. case q of
     Router_out r p \<Rightarrow> fst (snd (rs ! r) ! p)
   | Router_credit r p \<Rightarrow> snd (fst (rs ! r) ! p)
   | NI_out n p \<Rightarrow> fst (snd (ns ! n) ! p)
   | NI_credit n p \<Rightarrow> snd (fst (ns ! n) ! p)
   | Bridge_buffer b \<Rightarrow> int b)"

text \<open>
  A loop: with one link of a port it has the other, with one output port of an interface all,
  and a link reads from a port of the loop exactly when it is in the loop.
\<close>

definition credit_loop :: "int set \<Rightarrow> net_wires \<Rightarrow> bool" where
  "credit_loop P ws = (case ws of (rs, ns, qs) \<Rightarrow>
    list_all (paired P) rs \<and> list_all (ni_paired P) ns \<and>
    list_all (\<lambda>i. case qs ! i of None \<Rightarrow> True | Some q \<Rightarrow> (fed_link ws q \<in> P \<longleftrightarrow> int i \<in> P)) [0..<length qs])"

text \<open>The invariant of the ports: credits in bounds, flits stamped with their channel.\<close>

definition net_good :: "'r GarnetNetwork \<Rightarrow> bool" where
  "net_good net \<longleftrightarrow> (\<forall>r \<in> set (gn_routers net). r_ok r) \<and> (\<forall>ni \<in> set (gn_nis net). ni_good ni)"

definition conserves :: "int set \<Rightarrow> int \<Rightarrow> 'r GarnetNetwork \<Rightarrow> 'r GarnetNetwork \<Rightarrow> bool" where
  "conserves P w net net' \<longleftrightarrow> net_wires net' = net_wires net \<and> net_tokens P w net' = net_tokens P w net \<and>
    (net_good net \<longrightarrow> net_good net')"

lemma conserves_refl: "conserves P w net net"
  by (simp add: conserves_def)

lemma conserves_trans: "conserves P w a b \<Longrightarrow> conserves P w b c \<Longrightarrow> conserves P w a c"
  by (simp add: conserves_def)

lemma credit_loopD:
  assumes "credit_loop P (net_wires net)"
  shows "\<And>i. i < length (gn_routers net) \<Longrightarrow> paired P (r_wires (gn_routers net ! i))"
    and "\<And>i. i < length (gn_nis net) \<Longrightarrow> ni_paired P (ni_wires (gn_nis net ! i))"
    and "\<And>i q. i < length (gn_links net) \<Longrightarrow> lk_srcQueue (gn_links net ! i) = Some q \<Longrightarrow>
      (fed_link (net_wires net) q \<in> P \<longleftrightarrow> int i \<in> P)"
  using assms by (auto simp: credit_loop_def net_wires_def list_all_length split: option.splits)

text \<open>Replacing a router, or an interface, and the links.\<close>

definition shifts :: "int set \<Rightarrow> int \<Rightarrow> int \<Rightarrow> 'r GarnetNetwork \<Rightarrow> 'r GarnetNetwork \<Rightarrow> bool" where
  "shifts P w d net net' \<longleftrightarrow> net_wires net' = net_wires net \<and> net_tokens P w net' = net_tokens P w net + d \<and>
    (net_good net \<longrightarrow> net_good net')"

lemma shifts_0: "shifts P w 0 = conserves P w"
  by (intro ext) (simp add: shifts_def conserves_def)

lemma put_router_shifts:
  assumes "i < length (gn_routers net)" "gn_routers net' = (gn_routers net)[i := y]" "gn_nis net' = gn_nis net"
    "r_wires y = r_wires (gn_routers net ! i)" "r_ok (gn_routers net ! i) \<longrightarrow> r_ok y" "sources (gn_links net') = sources (gn_links net)"
    "own_tokens P w y + links_tokens P w (gn_links net') = own_tokens P w (gn_routers net ! i) + links_tokens P w (gn_links net) + d"
  shows "shifts P w d net net'"
proof -
  have "net_tokens P w net' = net_tokens P w net + d"
    using sum_update_diff [OF assms(1), of "own_tokens P w" y] assms(7) by (simp add: net_tokens_def assms(2,3))
  moreover have "net_wires net' = net_wires net" using assms(4,6) by (simp add: net_wires_def assms(2,3) map_update_same)
  moreover have "net_good net'" if "net_good net"
    using that assms(5) nth_mem [OF assms(1)] unfolding net_good_def assms(2,3) by (intro conjI all_update) auto
  ultimately show ?thesis by (simp add: shifts_def)
qed

lemma put_ni_shifts:
  assumes "i < length (gn_nis net)" "gn_nis net' = (gn_nis net)[i := y]" "gn_routers net' = gn_routers net"
    "ni_wires y = ni_wires (gn_nis net ! i)" "ni_good (gn_nis net ! i) \<longrightarrow> ni_good y" "sources (gn_links net') = sources (gn_links net)"
    "ni_tokens P w y + links_tokens P w (gn_links net') = ni_tokens P w (gn_nis net ! i) + links_tokens P w (gn_links net) + d"
  shows "shifts P w d net net'"
proof -
  have "net_tokens P w net' = net_tokens P w net + d"
    using sum_update_diff [OF assms(1), of "ni_tokens P w" y] assms(7) by (simp add: net_tokens_def assms(2,3))
  moreover have "net_wires net' = net_wires net" using assms(4,6) by (simp add: net_wires_def assms(2,3) map_update_same)
  moreover have "net_good net'" if "net_good net"
    using that assms(5) nth_mem [OF assms(1)] unfolding net_good_def assms(2,3) by (intro conjI all_update) auto
  ultimately show ?thesis by (simp add: shifts_def)
qed

section \<open>Events\<close>

lemma on_router_conserves:
  assumes "on_router i f net = Inr net'" "credit_loop P (net_wires net)"
    and step: "\<And>r r'. f r = Inr r' \<Longrightarrow> paired P (r_wires r) \<Longrightarrow> keeps P w r r'"
  shows "conserves P w net net'"
proof -
  let ?r = "gn_routers net ! nat i"
  from assms(1) obtain r' where i: "nat i < length (gn_routers net)"
    and r': "f (?r\<lparr>r_links := gn_links net\<rparr>) = Inr r'"
    and net': "net' = net\<lparr>gn_routers := (gn_routers net)[nat i := r'], gn_links := r_links r'\<rparr>"
    by (auto simp: on_router_def nthR_eq_Inr elim!: bindR_InrE)
  have own: "own_tokens P w (?r\<lparr>r_links := ls\<rparr>) = own_tokens P w ?r" "r_wires (?r\<lparr>r_links := ls\<rparr>) = r_wires ?r"
    "r_ok (?r\<lparr>r_links := ls\<rparr>) = r_ok ?r" for ls
    by (simp_all add: own_tokens_def r_wires_def r_ok_def)
  have k: "keeps P w (?r\<lparr>r_links := gn_links net\<rparr>) r'"
    by (rule step [OF r']) (simp add: own credit_loopD(1) [OF assms(2) i])
  then have "shifts P w 0 net net'"
    by (intro put_router_shifts [OF i, of _ r']) (simp_all add: net' keeps_def own)
  then show ?thesis by (simp add: shifts_0)
qed

lemma interface_event_conserves:
  assumes "NetworkInterface_wakeup mt rs msgs rt rt' stray now i net = Inr (net', reqs)"
    and "gs_trace_enable (gn_stats net)" "net_good net" "credit_loop P (net_wires net)"
  shows "conserves P w net net'"
proof -
  let ?ni = "gn_nis net ! nat i"
  from assms(1,2) obtain ni1 gs1 ni2 gs2 links2 reqs2 where i: "nat i < length (gn_nis net)"
    and a: "ni_inject_trace mt (get_router_id net) stray now (?ni, gn_stats net) = Inr (ni1, gs1)"
    and b: "ni_wakeup_rest (gn_cfg net) rs msgs rt' now (ni1, gs1, gn_links net) = Inr (ni2, gs2, links2, reqs2)"
    and net': "net' = net\<lparr>gn_nis := (gn_nis net)[nat i := ni2], gn_stats := gs2, gn_links := links2\<rparr>"
    by (rule interface_eventE)
  have g: "ni_good ?ni" using assms(3) i by (simp add: net_good_def)
  note m1 = inject_moved [OF a g, of P w "gn_links net"]
  note k1 = moved_keeps [OF m1]
  have "moved P w (ni1, gn_links net) (ni2, links2)"
    by (rule ni_wakeup_moved [OF b k1(1)]) (simp add: k1(2) credit_loopD(2) [OF assms(4) i])
  with m1 have "moved P w (?ni, gn_links net) (ni2, links2)" by (rule moved_trans)
  then have "shifts P w 0 net net'"
    by (intro put_ni_shifts [OF i, of _ ni2]) (simp_all add: net' moved_def)
  then show ?thesis by (simp add: shifts_0)
qed

text \<open>A link moves a flit from the queue of a port to its own buffer.\<close>

lemma put_source_shifts:
  assumes "source_queue q net = Inr old" "\<not> is_bridge q"
  shows "shifts P w (if fed_link (net_wires net) q \<in> P then flits_on w (fb_buffer b) - flits_on w (fb_buffer old) else 0)
    net (put_source q b net)"
proof (cases q)
  case (Router_out r p)
  let ?x = "gn_routers net ! r"
  let ?Y = "(r_output_unit ?x ! p)\<lparr>ou_outBuffer := b\<rparr>"
  let ?y = "put_ou (int p) ?Y ?x"
  from assms(1) Router_out have r: "r < length (gn_routers net)" and p: "0 \<le> int p" "int p < int (length (r_output_unit ?x))"
    and old: "old = ou_outBuffer (r_output_unit ?x ! p)" by (auto simp: source_queue_def nthR_eq_Inr elim!: bindR_InrE)
  have w: "ou_wires ?Y = ou_wires (r_output_unit ?x ! nat (int p))" by (simp add: ou_wires_def)
  note t = put_ou_tokens [OF p w]
  have link: "fed_link (net_wires net) q = ou_out_link (r_output_unit ?x ! p)"
    using r p by (simp add: fed_link_def net_wires_def Router_out r_wires_def ou_wires_def)
  have "ou_ok ?Y" if "r_ok ?x"
  proof -
    have "r_output_unit ?x ! p \<in> set (r_output_unit ?x)" using p by simp
    with that have "ou_ok (r_output_unit ?x ! p)" unfolding r_ok_def by blast
    then show ?thesis by (simp add: ou_ok_def)
  qed
  then have ok: "r_ok ?x \<longrightarrow> r_ok ?y" using t(4) by blast
  have e: "gn_routers (put_source q b net) = (gn_routers net)[r := ?y]" "gn_nis (put_source q b net) = gn_nis net"
    "gn_links (put_source q b net) = gn_links net"
    by (simp_all add: Router_out put_source_def Let_def put_ou_def)
  have d: "ou_tokens P w ?Y = ou_tokens P w (r_output_unit ?x ! nat (int p)) +
      (if ou_out_link (r_output_unit ?x ! p) \<in> P then flits_on w (fb_buffer b) - flits_on w (fb_buffer old) else 0)"
    by (simp add: ou_tokens_def old)
  show ?thesis unfolding link
  proof (rule put_router_shifts [OF r e(1,2) t(1) ok])
    show "sources (gn_links (put_source q b net)) = sources (gn_links net)" unfolding e ..
  qed (use t(3) [of P w] d in \<open>simp add: e(3)\<close>)
next
  case (Router_credit r p)
  let ?x = "gn_routers net ! r"
  let ?Y = "(r_input_unit ?x ! p)\<lparr>iu_creditQueue := b\<rparr>"
  let ?y = "put_iu (int p) ?Y ?x"
  from assms(1) Router_credit have r: "r < length (gn_routers net)" and p: "0 \<le> int p" "int p < int (length (r_input_unit ?x))"
    and old: "old = iu_creditQueue (r_input_unit ?x ! p)" by (auto simp: source_queue_def nthR_eq_Inr elim!: bindR_InrE)
  have w: "iu_wires ?Y = iu_wires (r_input_unit ?x ! nat (int p))" by (simp add: iu_wires_def)
  note t = put_iu_tokens [OF p w]
  have link: "fed_link (net_wires net) q = iu_credit_link (r_input_unit ?x ! p)"
    using r p by (simp add: fed_link_def net_wires_def Router_credit r_wires_def iu_wires_def)
  have e: "gn_routers (put_source q b net) = (gn_routers net)[r := ?y]" "gn_nis (put_source q b net) = gn_nis net"
    "gn_links (put_source q b net) = gn_links net"
    by (simp_all add: Router_credit put_source_def Let_def put_iu_def)
  have d: "iu_tokens P w ?Y = iu_tokens P w (r_input_unit ?x ! nat (int p)) +
      (if iu_credit_link (r_input_unit ?x ! p) \<in> P then flits_on w (fb_buffer b) - flits_on w (fb_buffer old) else 0)"
    by (simp add: iu_tokens_def old)
  show ?thesis unfolding link
  proof (rule put_router_shifts [OF r e(1,2) t(1)])
    show "r_ok ?x \<longrightarrow> r_ok ?y" using t(3) by simp
    show "sources (gn_links (put_source q b net)) = sources (gn_links net)" unfolding e ..
  qed (use t(4) [of P w] d in \<open>simp add: e(3)\<close>)
next
  case (NI_out n p)
  let ?x = "gn_nis net ! n"
  let ?Y = "(ni_outPorts ?x ! p)\<lparr>op_outFlitQueue := b\<rparr>"
  let ?y = "?x\<lparr>ni_outPorts := (ni_outPorts ?x)[p := ?Y]\<rparr>"
  from assms(1) NI_out have n: "n < length (gn_nis net)" and p: "p < length (ni_outPorts ?x)"
    and old: "old = op_outFlitQueue (ni_outPorts ?x ! p)" by (auto simp: source_queue_def nthR_eq_Inr elim!: bindR_InrE)
  have w: "op_wires ?Y = op_wires (ni_outPorts ?x ! p)" by (simp add: op_wires_def)
  note t = out_ports_tokens [OF p w, of P w]
  have ws: "ni_wires ?y = ni_wires ?x" using t by (simp add: ni_wires_def)
  have g: "ni_good ?y = ni_good ?x" by (simp add: ni_good_def)
  have link: "fed_link (net_wires net) q = op_outNetLink (ni_outPorts ?x ! p)"
    using n p by (simp add: fed_link_def net_wires_def NI_out ni_wires_def op_wires_def)
  have "ni_tokens P w ?y = ni_tokens P w ?x + (op_tokens P w ?Y - op_tokens P w (ni_outPorts ?x ! p))"
    using t ws by (simp add: ni_tokens_def)
  moreover have "op_tokens P w ?Y = op_tokens P w (ni_outPorts ?x ! p) +
      (if op_outNetLink (ni_outPorts ?x ! p) \<in> P then flits_on w (fb_buffer b) - flits_on w (fb_buffer old) else 0)"
    by (simp add: op_tokens_def old)
  ultimately have d: "ni_tokens P w ?y = ni_tokens P w ?x +
      (if op_outNetLink (ni_outPorts ?x ! p) \<in> P then flits_on w (fb_buffer b) - flits_on w (fb_buffer old) else 0)" by simp
  have e: "gn_nis (put_source q b net) = (gn_nis net)[n := ?y]" "gn_routers (put_source q b net) = gn_routers net"
    "gn_links (put_source q b net) = gn_links net"
    by (simp_all add: NI_out put_source_def Let_def)
  show ?thesis unfolding link
    by (rule put_ni_shifts [OF n e(1,2) ws]) (use g d in \<open>simp_all add: e(3)\<close>)
next
  case (NI_credit n p)
  let ?x = "gn_nis net ! n"
  let ?Y = "(ni_inPorts ?x ! p)\<lparr>ip_outCreditQueue := b\<rparr>"
  let ?y = "?x\<lparr>ni_inPorts := (ni_inPorts ?x)[p := ?Y]\<rparr>"
  from assms(1) NI_credit have n: "n < length (gn_nis net)" and p: "p < length (ni_inPorts ?x)"
    and old: "old = ip_outCreditQueue (ni_inPorts ?x ! p)" by (auto simp: source_queue_def nthR_eq_Inr elim!: bindR_InrE)
  have "map ip_wires (ni_inPorts ?y) = map ip_wires (ni_inPorts ?x)" by (simp add: map_update_same ip_wires_def)
  then have ws: "ni_wires ?y = ni_wires ?x" by (simp add: ni_wires_def)
  have g: "ni_good ?y = ni_good ?x" by (simp add: ni_good_def)
  have link: "fed_link (net_wires net) q = ip_outCreditLink (ni_inPorts ?x ! p)"
    using n p by (simp add: fed_link_def net_wires_def NI_credit ni_wires_def ip_wires_def)
  have "ni_tokens P w ?y = ni_tokens P w ?x + (ip_tokens P w ?Y - ip_tokens P w (ni_inPorts ?x ! p))"
    using sum_update_diff [OF p, of "ip_tokens P w" ?Y] ws by (simp add: ni_tokens_def)
  moreover have "ip_tokens P w ?Y = ip_tokens P w (ni_inPorts ?x ! p) +
      (if ip_outCreditLink (ni_inPorts ?x ! p) \<in> P then flits_on w (fb_buffer b) - flits_on w (fb_buffer old) else 0)"
    by (simp add: ip_tokens_def old)
  ultimately have d: "ni_tokens P w ?y = ni_tokens P w ?x +
      (if ip_outCreditLink (ni_inPorts ?x ! p) \<in> P then flits_on w (fb_buffer b) - flits_on w (fb_buffer old) else 0)" by simp
  have e: "gn_nis (put_source q b net) = (gn_nis net)[n := ?y]" "gn_routers (put_source q b net) = gn_routers net"
    "gn_links (put_source q b net) = gn_links net"
    by (simp_all add: NI_credit put_source_def Let_def)
  show ?thesis unfolding link
    by (rule put_ni_shifts [OF n e(1,2) ws]) (use g d in \<open>simp_all add: e(3)\<close>)
next
  case (Bridge_buffer i)
  with assms(2) show ?thesis by (simp add: is_bridge_def)
qed

lemma link_wakeup_tokens:
  assumes "link_wakeup now (Some src) l = Inr (src', l', reqs)"
  shows "lk_srcQueue l' = lk_srcQueue l \<and>
    flits_on w (fb_buffer src') + flits_on w (link_flits l') = flits_on w (fb_buffer src) + flits_on w (link_flits l)"
proof (cases "fb_isReady now src")
  case True
  with assms obtain f l1 where *: "fb_getTopFlit src = Inr (f, src')" "link_transfer now f l = Inr (l1, reqs)"
      "link_flits l' = link_flits l1" "lk_srcQueue l' = lk_srcQueue l1"
    unfolding link_wakeup_def by (auto elim!: res_elims simp: link_scheduleEvent_def)
  have "lk_srcQueue l1 = lk_srcQueue l"
    using *(2) unfolding link_transfer_def Let_def
    by (elim guardR_InrE) (auto split: option.splits elim!: bindR_InrE)
  with * link_transfer_eq [OF *(2)] show ?thesis by (auto simp: fb_getTopFlit_eq)
next
  case False
  with assms show ?thesis unfolding link_wakeup_def by (auto elim!: res_elims simp: link_scheduleEvent_def)
qed

lemma link_event_conserves:
  assumes "link_event now i net = Inr (net', reqs)" "credit_loop P (net_wires net)"
    and "\<And>q. lk_srcQueue (gn_links net ! i) = Some q \<Longrightarrow> \<not> is_bridge q"
  shows "conserves P w net net'"
  using assms(1)
proof (cases rule: link_eventE)
  case idle
  then show ?thesis by (simp add: conserves_refl)
next
  case (wakes q src src' l')
  let ?net = "net\<lparr>gn_links := (gn_links net)[i := l']\<rparr>" and ?l = "gn_links net ! i"
  have q: "\<not> is_bridge q" using assms(3) wakes(2) by simp
  have s': "source_queue q ?net = Inr src" using wakes(3) q by (cases q) (simp_all add: source_queue_def is_bridge_def)
  note t = link_wakeup_tokens [OF wakes(4), of w]
  have ws: "net_wires ?net = net_wires net" using t by (simp add: net_wires_def map_update_same)
  have g: "net_good ?net = net_good net" by (simp add: net_good_def)
  note p = put_source_shifts [OF s' q, of P w src', unfolded shifts_def ws g]
  have "net_tokens P w ?net = net_tokens P w net +
      (if int i \<in> P then flits_on w (link_flits l') - flits_on w (link_flits ?l) else 0)"
    using links_tokens_update [OF wakes(1), of P w l'] by (simp add: net_tokens_def link_tokens_def)
  with p t credit_loopD(3) [OF assms(2) wakes(1,2)] show ?thesis
    unfolding conserves_def wakes(5) by (simp split: if_splits)
qed

text \<open>The driver only appends a record to the queue of an interface.\<close>

lemma conserves_other:
  "conserves P w net (net\<lparr>gn_tracefile := file\<rparr>)" "conserves P w net (net\<lparr>gn_consumer := c\<rparr>)"
  "conserves P w net (net\<lparr>gn_stats := gs\<rparr>)"
  by (simp_all add: conserves_def net_wires_def net_tokens_def net_good_def)

lemma inject_due_conserves:
  assumes "inject_due now net = Inr net'"
  shows "conserves P w net net'"
proof (cases "tr_valid (gs_trace_next_packet (gn_stats net))")
  case False
  with assms show ?thesis by (simp add: inject_due_def conserves_refl)
next
  case True
  let ?rec = "gs_trace_next_packet (gn_stats net)"
  from assms True obtain nis gs where m: "modR (gn_nis net) (tr_src_id ?rec) (\<lambda>ni. Inr (enqueueTracePacket now ?rec ni)) = Inr nis"
    and net': "net' = net\<lparr>gn_nis := nis, gn_stats := gs\<rparr>"
    by (auto simp: inject_due_def Let_def elim!: guardR_InrE bindR_InrE)
  let ?y = "enqueueTracePacket now ?rec (gn_nis net ! nat (tr_src_id ?rec))"
  have e: "ni_tokens P w (enqueueTracePacket now ?rec ni) = ni_tokens P w ni"
    "ni_wires (enqueueTracePacket now ?rec ni) = ni_wires ni" "ni_good (enqueueTracePacket now ?rec ni) = ni_good ni" for ni
    by (simp_all add: enqueueTracePacket_def ni_scheduleEvent_def ni_tokens_def ni_wires_def ni_good_def)
  from m have i: "nat (tr_src_id ?rec) < length (gn_nis net)"
    and nis: "nis = (gn_nis net)[nat (tr_src_id ?rec) := enqueueTracePacket now ?rec (gn_nis net ! nat (tr_src_id ?rec))]"
    by (auto simp: modR_eq_Inr)
  have "shifts P w 0 net net'"
    by (rule put_ni_shifts [OF i, of _ ?y]) (simp_all add: net' nis e)
  then show ?thesis by (simp add: shifts_0)
qed

lemma next_packet_conserves:
  assumes "next_packet line net = Inr (Some net')"
  shows "conserves P w net net'"
proof -
  from assms have "gn_routers net' = gn_routers net" "gn_nis net' = gn_nis net" "gn_links net' = gn_links net"
    by (auto simp: next_packet_def Let_def split: list.splits elim!: bindR_InrE)
  then show ?thesis by (simp add: conserves_def net_wires_def net_tokens_def net_good_def)
qed

lemma driver_event_conserves:
  "GarnetNetwork_wakeup at_eof now net = Inr net' \<Longrightarrow> conserves P w net net'"
  by (rule driver_event_rule [where R = "conserves P w"])
    (blast intro: conserves_trans conserves_other inject_due_conserves next_packet_conserves)+

section \<open>Runs\<close>

lemma step_conserves:
  assumes "net_step mt rs msgs net net'" "gs_trace_enable (gn_stats net)" "net_good net" "credit_loop P (net_wires net)"
  shows "conserves P w net net'"
  using assms(1)
proof (cases rule: net_step.cases)
  case driver
  then show ?thesis by (rule driver_event_conserves)
next
  case router
  from this assms(4) show ?thesis by (rule on_router_conserves) (rule Router_wakeup_keeps)
next
  case output_unit
  from this assms(4) show ?thesis by (rule on_router_conserves) (rule outport_step_keeps)
next
  case interface
  from this assms(2-4) show ?thesis by (rule interface_event_conserves)
next
  case (link now i reqs)
  from link(1) assms(4) link(2) show ?thesis by (rule link_event_conserves)
qed

lemma run_conserves:
  assumes "(net_step mt rs msgs)\<^sup>*\<^sup>* net0 net" "fresh net0" "net_good net0" "credit_loop P (net_wires net0)"
  shows "conserves P w net0 net"
  using assms(1)
proof (induction rule: rtranclp_induct)
  case base
  show ?case by (rule conserves_refl)
next
  case (step net1 net2)
  have "accounted net1" using run_accounted [OF step(1) fresh_accounted [OF assms(2)]] .
  then have "gs_trace_enable (gn_stats net1)" by (simp add: accounted_def Let_def)
  with step.IH assms(3,4) step(2) have "conserves P w net1 net2"
    by (intro step_conserves) (simp_all add: conserves_def)
  with step.IH show ?case by (rule conserves_trans)
qed

section \<open>No overflow\<close>

lemma sum_nonneg:
  fixes g :: "'a \<Rightarrow> int"
  shows "\<forall>y \<in> set xs. 0 \<le> g y \<Longrightarrow> 0 \<le> sum_list (map g xs)"
  by (rule sum_list_nonneg) auto

lemma member_le_sum:
  fixes g :: "'a \<Rightarrow> int"
  assumes "\<forall>y \<in> set xs. 0 \<le> g y" "x \<in> set xs"
  shows "g x \<le> sum_list (map g xs)"
  using assms
proof (induction xs)
  case (Cons y ys)
  then have "0 \<le> sum_list (map g ys)" by (intro sum_nonneg) simp
  with Cons show ?case by auto
qed simp

lemma tokens_nonneg:
  "0 \<le> iu_tokens P w iu" "ou_ok ou \<Longrightarrow> 0 \<le> ou_tokens P w ou" "0 \<le> xb_tokens P w outs xb" "0 \<le> links_tokens P w ls"
  "0 \<le> op_tokens P w op" "0 \<le> ip_tokens P w ip"
  by (auto simp: iu_tokens_def ou_tokens_def xb_tokens_def links_tokens_def link_tokens_def op_tokens_def ip_tokens_def
      ou_ok_def ovc_ok_def intro!: add_nonneg_nonneg entry_nonneg sum_nonneg)

lemma own_tokens_bound:
  assumes "r_ok r"
  shows "0 \<le> own_tokens P w r" "iu \<in> set (r_input_unit r) \<Longrightarrow> iu_tokens P w iu \<le> own_tokens P w r"
proof -
  have "0 \<le> ous_tokens P w (r_output_unit r)"
    using assms unfolding ous_tokens_def by (intro sum_nonneg) (auto simp: r_ok_def tokens_nonneg)
  moreover have "0 \<le> ius_tokens P w (r_input_unit r)"
    unfolding ius_tokens_def by (intro sum_nonneg) (simp add: tokens_nonneg)
  moreover have "iu_tokens P w iu \<le> ius_tokens P w (r_input_unit r)" if "iu \<in> set (r_input_unit r)"
    unfolding ius_tokens_def by (rule member_le_sum [OF _ that]) (simp add: tokens_nonneg)
  ultimately show "0 \<le> own_tokens P w r" "iu \<in> set (r_input_unit r) \<Longrightarrow> iu_tokens P w iu \<le> own_tokens P w r"
    using tokens_nonneg(3) [of P w "map ou_wires (r_output_unit r)" "r_crossbarSwitch r"] by (auto simp: own_tokens_def)
qed

lemma ni_tokens_bound:
  assumes "ni_good ni"
  shows "0 \<le> ni_tokens P w ni" "p \<in> set (ni_inPorts ni) \<Longrightarrow> ip_tokens P w p \<le> ni_tokens P w ni"
proof -
  have "0 \<le> entry w ovc_credit_count (ni_outVcState ni)"
    using assms by (intro entry_nonneg) (auto simp: ni_good_def ovc_ok_def)
  moreover have "0 \<le> sum_list (map (op_tokens P w) (ni_outPorts ni))" by (intro sum_nonneg) (simp add: tokens_nonneg)
  moreover have "0 \<le> sum_list (map (ip_tokens P w) (ni_inPorts ni))" by (intro sum_nonneg) (simp add: tokens_nonneg)
  moreover have "ip_tokens P w p \<le> sum_list (map (ip_tokens P w) (ni_inPorts ni))" if "p \<in> set (ni_inPorts ni)"
    by (rule member_le_sum [OF _ that]) (simp add: tokens_nonneg)
  ultimately show "0 \<le> ni_tokens P w ni" "p \<in> set (ni_inPorts ni) \<Longrightarrow> ip_tokens P w p \<le> ni_tokens P w ni"
    by (auto simp: ni_tokens_def)
qed

lemma net_tokens_bound:
  assumes "net_good net"
  shows "r \<in> set (gn_routers net) \<Longrightarrow> own_tokens P w r \<le> net_tokens P w net"
    and "ni \<in> set (gn_nis net) \<Longrightarrow> ni_tokens P w ni \<le> net_tokens P w net"
proof -
  have rs: "\<forall>r \<in> set (gn_routers net). 0 \<le> own_tokens P w r" and ns: "\<forall>ni \<in> set (gn_nis net). 0 \<le> ni_tokens P w ni"
    using assms own_tokens_bound(1) ni_tokens_bound(1) by (auto simp: net_good_def)
  show "r \<in> set (gn_routers net) \<Longrightarrow> own_tokens P w r \<le> net_tokens P w net"
    using member_le_sum [OF rs] sum_nonneg [OF ns] tokens_nonneg(4) [of P w "gn_links net"] by (force simp: net_tokens_def)
  show "ni \<in> set (gn_nis net) \<Longrightarrow> ni_tokens P w ni \<le> net_tokens P w net"
    using member_le_sum [OF ns] sum_nonneg [OF rs] tokens_nonneg(4) [of P w "gn_links net"] by (force simp: net_tokens_def)
qed

lemma buffers_bounded:
  assumes "net_good net" "0 \<le> w"
  shows "r \<in> set (gn_routers net) \<Longrightarrow> iu \<in> set (r_input_unit r) \<Longrightarrow> iu_in_link iu \<in> P \<Longrightarrow>
      w < int (length (iu_virtualChannels iu)) \<Longrightarrow>
      int (length (vc_flits (iu_virtualChannels iu ! nat w))) \<le> net_tokens P w net"
    and "ni \<in> set (gn_nis net) \<Longrightarrow> p \<in> set (ni_inPorts ni) \<Longrightarrow> ip_inNetLink p \<in> P \<Longrightarrow>
      flits_on w (ip_stall_queue p) \<le> net_tokens P w net"
proof -
  assume r: "r \<in> set (gn_routers net)" and iu: "iu \<in> set (r_input_unit r)" "iu_in_link iu \<in> P"
    "w < int (length (iu_virtualChannels iu))"
  have "int (length (vc_flits (iu_virtualChannels iu ! nat w))) \<le> iu_tokens P w iu"
    using iu assms(2) by (simp add: iu_tokens_def entry_def)
  also have "\<dots> \<le> own_tokens P w r" using own_tokens_bound(2) iu(1) r assms(1) by (simp add: net_good_def)
  also have "\<dots> \<le> net_tokens P w net" by (rule net_tokens_bound(1) [OF assms(1) r])
  finally show "int (length (vc_flits (iu_virtualChannels iu ! nat w))) \<le> net_tokens P w net" .
next
  assume ni: "ni \<in> set (gn_nis net)" and p: "p \<in> set (ni_inPorts ni)" "ip_inNetLink p \<in> P"
  have "flits_on w (ip_stall_queue p) \<le> ip_tokens P w p" using p by (simp add: ip_tokens_def)
  also have "\<dots> \<le> ni_tokens P w ni" using ni_tokens_bound(2) p(1) ni assms(1) by (simp add: net_good_def)
  also have "\<dots> \<le> net_tokens P w net" by (rule net_tokens_bound(2) [OF assms(1) ni])
  finally show "flits_on w (ip_stall_queue p) \<le> net_tokens P w net" .
qed

end
