(* ===== verification/NetworkStart.thy ===== *)
theory NetworkStart
  imports NetworkRun
begin

text \<open>
  Construction and wiring do not make flits: a network built by \<open>init\<close> from new routers,
  interfaces and links is fresh. The theory ends with a network of two routers and two
  interfaces that carries a packet of its trace from one interface to the other.
\<close>

section \<open>Wiring\<close>

lemma sum_list_replicate_empty [simp]: "sum_list (replicate n {#}) = {#}"
  by (induction n) simp_all

lemma links_keys_set:
  assumes "modR links i (\<lambda>l. Inr (f l)) = Inr links'" "\<And>l. link_flits (f l) = link_flits l"
  shows "links_keys links' = links_keys links"
  using assms by (auto simp: res_simps links_keys_def intro!: sum_list_update_same)

lemma link_flits_set [simp]:
  "link_flits (setVcsPerVnet n l) = link_flits l" "link_flits (setLinkConsumer c l) = link_flits l"
  "link_flits (setSourceQueue q l) = link_flits l" "link_flits (link_setType ty l) = link_flits l"
  by (simp_all add: setVcsPerVnet_def setLinkConsumer_def setSourceQueue_def link_setType_def Let_def)

lemma addInPort_keys:
  assumes "addInPort d il cl r = Inr r'"
  shows "router_keys r' = router_keys r"
proof -
  let ?me = "nat (rp_id (r_params r))" and ?vcs = "rp_vc_per_vnet (r_params r)" and ?n = "length (r_input_unit r)"
  from assms obtain iu links1 links2 where iu: "InputUnit_new (int ?n) d (r_params r) = Inr iu"
    and l1: "modR (r_links r) il (\<lambda>l. Inr (setVcsPerVnet ?vcs (setLinkConsumer (Router_consumer ?me) l))) = Inr links1"
    and l2: "modR links1 cl (\<lambda>l. Inr (setVcsPerVnet ?vcs (setSourceQueue (Router_credit ?me ?n) l))) = Inr links2"
    and r': "r' = r\<lparr>r_input_unit := r_input_unit r @ [iu\<lparr>iu_in_link := il, iu_credit_link := cl\<rparr>],
        r_routingUnit := addInDirection d (int ?n) (r_routingUnit r), r_links := links2\<rparr>"
    unfolding addInPort_def Let_def by (elim bindR_InrE guardR_InrE) blast
  from iu have "iu_keys (iu\<lparr>iu_in_link := il, iu_credit_link := cl\<rparr>) = {#}"
    by (auto simp: InputUnit_new_def iu_keys_def vc_new_def flitBuffer_new_def elim!: guardR_InrE)
  with links_keys_set [OF l1] links_keys_set [OF l2] show ?thesis
    by (simp add: r' router_keys_def ius_keys_def)
qed

lemma addOutPort_keys:
  assumes "addOutPort cfg d ol entry w cl vcs r = Inr r'"
  shows "router_keys r' = router_keys r"
proof -
  let ?me = "nat (rp_id (r_params r))" and ?n = "length (r_output_unit r)"
  from assms obtain ou links1 links2 where
    ou: "OutputUnit_new cfg (int ?n) d (r_params r) (con_period (r_consumer r)) vcs = Inr ou"
    and l1: "modR (r_links r) cl (\<lambda>l. Inr (setVcsPerVnet vcs (setLinkConsumer (Router_consumer ?me) l))) = Inr links1"
    and l2: "modR links1 ol (\<lambda>l. Inr (setVcsPerVnet vcs (setSourceQueue (Router_out ?me ?n) l))) = Inr links2"
    and r': "r' = r\<lparr>r_output_unit := r_output_unit r @ [ou\<lparr>ou_out_link := ol, ou_credit_link := cl\<rparr>],
        r_routingUnit := addOutDirection d (int ?n) (addWeight w (addRoute entry (r_routingUnit r))), r_links := links2\<rparr>"
    unfolding addOutPort_def Let_def by (elim bindR_InrE guardR_InrE) blast
  from ou have "ou_keys ou = {#}"
    by (auto simp: OutputUnit_new_def flitBuffer_new_def elim!: bindR_InrE)
  with links_keys_set [OF l1] links_keys_set [OF l2] show ?thesis
    by (simp add: r' router_keys_def ous_keys_def)
qed

text \<open>What a step on an interface and the links keeps.\<close>

definition ni_calm :: "NetworkInterface \<times> NetworkLink list \<Rightarrow> NetworkInterface \<times> NetworkLink list \<Rightarrow> bool" where
  "ni_calm = (\<lambda>(ni, links) (ni', links').
    ni_keys ni' + links_keys links' = ni_keys ni + links_keys links \<and> (ni_ok ni \<longrightarrow> ni_ok ni'))"

lemma ni_addInPort_calm:
  assumes "ni_addInPort il cl (ni, links) = Inr (ni', links')"
  shows "ni_calm (ni, links) (ni', links')"
proof -
  let ?set = "\<lambda>l. if ni_vc_per_vnet ni \<noteq> 0 then setVcsPerVnet (ni_vc_per_vnet ni) l else l" and ?n = "length (ni_inPorts ni)"
  from assms obtain l links1 where
    l1: "modR links il (\<lambda>l. Inr (?set (setLinkConsumer (NI_consumer (ni_id ni)) l))) = Inr links1"
    and l2: "modR links1 cl (\<lambda>l. Inr (?set (setSourceQueue (NI_credit (ni_id ni) ?n) l))) = Inr links'"
    and ni': "ni' = ni\<lparr>ni_inPorts := ni_inPorts ni @ [InputPort_new l il cl]\<rparr>"
    unfolding ni_addInPort_def Let_def prod.case by (elim bindR_InrE) blast
  have "links_keys links1 = links_keys links" "links_keys links' = links_keys links1"
    by (rule links_keys_set [OF l1], simp, rule links_keys_set [OF l2], simp)
  then show ?thesis
    by (simp add: ni_calm_def ni' ni_keys_def ni_ok_def InputPort_new_def flitBuffer_new_def)
qed

lemma make_out_vcs_calm:
  assumes "make_out_vcs cfg n ni = Inr ni'" "ni_niOutVcs ni = []"
  shows "ni_keys ni' = ni_keys ni \<and> (ni_ok ni \<longrightarrow> ni_ok ni')"
proof -
  let ?m = "n * ni_virtual_networks ni"
  from assms(1) obtain states where s: "foldR (\<lambda>i vs. bindR (OutVcState_new i cfg n) (\<lambda>v. Inr (vs @ [v])))
      (upto_int ?m) (ni_outVcState ni) = Inr states"
    and ni': "ni' = ni\<lparr>ni_vc_per_vnet := n, ni_niOutVcs := replicate ?m flitBuffer_new,
        ni_outVcState := states, ni_out_vcs_enqueue_time := replicate ?m INFINITE\<rparr>"
    unfolding make_out_vcs_def Let_def by (elim bindR_InrE) blast
  have "foldR (\<lambda>i vs. bindR (OutVcState_new i cfg n) (\<lambda>v. Inr (vs @ [v]))) is vs = Inr vs'
      \<Longrightarrow> length vs' = length vs + length is" for "is" vs vs'
    by (induction "is" arbitrary: vs) (auto elim!: bindR_InrE)
  from this [OF s] have "length states = length (ni_outVcState ni) + ?m" by simp
  then show ?thesis using assms(2)
    by (auto simp: ni' ni_keys_def ni_ok_def flitBuffer_new_def)
qed

lemma ni_addOutPort_calm:
  assumes "ni_addOutPort cfg ol cl rid vcs (ni, links) = Inr (ni', links')"
  shows "ni_calm (ni, links) (ni', links')"
proof -
  from assms obtain l ni1 links1 links2 where
    a: "(if length (ni_niOutVcs ni) = 0 then
               bindR (make_out_vcs cfg vcs ni) (\<lambda>ni1.
               bindR (foldR (\<lambda>p ls.
                   bindR (modR ls (ip_inNetLink p) (\<lambda>l. Inr (setVcsPerVnet vcs l)))
                     (\<lambda>ls1. modR ls1 cl (\<lambda>l. Inr (setVcsPerVnet vcs l))))
                 (ni_inPorts ni1) links) (\<lambda>links1. Inr (ni1, links1)))
             else guardR (vcs = ni_vc_per_vnet ni)
               (Fatal ''Connected Physical links have different vc requests'') (Inr (ni, links))) = Inr (ni1, links1)"
    and l1: "modR links1 ol (\<lambda>l. Inr (setVcsPerVnet (ni_vc_per_vnet ni1)
          (setSourceQueue (NI_out (ni_id ni) (length (ni_outPorts ni))) l))) = Inr links2"
    and l2: "modR links2 cl (\<lambda>l. Inr (setVcsPerVnet (ni_vc_per_vnet ni1)
          (setLinkConsumer (NI_consumer (ni_id ni)) l))) = Inr links'"
    and ni': "ni' = ni1\<lparr>ni_outPorts := ni_outPorts ni1 @ [OutputPort_new l ol cl rid]\<rparr>"
    unfolding ni_addOutPort_def Let_def prod.case by (elim bindR_InrE case_prod_InrE guardR_InrE) blast
  have "ni_keys ni1 = ni_keys ni \<and> links_keys links1 = links_keys links \<and> (ni_ok ni \<longrightarrow> ni_ok ni1)"
  proof (cases "ni_niOutVcs ni = []")
    case True
    with a obtain ls where m: "make_out_vcs cfg vcs ni = Inr ni1" and f: "foldR (\<lambda>p ls.
                   bindR (modR ls (ip_inNetLink p) (\<lambda>l. Inr (setVcsPerVnet vcs l)))
                     (\<lambda>ls1. modR ls1 cl (\<lambda>l. Inr (setVcsPerVnet vcs l)))) (ni_inPorts ni1) links = Inr links1"
      by (auto elim!: bindR_InrE)
    have "links_keys links1 = links_keys links"
      by (rule foldR_invariant [where P = "\<lambda>l. links_keys l = links_keys links", OF f])
        (auto elim!: bindR_InrE simp: links_keys_set)
    with make_out_vcs_calm [OF m True] show ?thesis by simp
  next
    case False
    with a show ?thesis by (auto elim!: guardR_InrE)
  qed
  moreover have "links_keys links2 = links_keys links1" "links_keys links' = links_keys links2"
    by (rule links_keys_set [OF l1], simp, rule links_keys_set [OF l2], simp)
  moreover have "ni_keys ni' = ni_keys ni1" "ni_ok ni' = ni_ok ni1"
    by (simp_all add: ni' ni_keys_def ni_ok_def OutputPort_new_def flitBuffer_new_def)
  ultimately show ?thesis by (simp add: ni_calm_def)
qed

lemma on_ni_calm:
  assumes "on_ni i f net = Inr net'"
    and keeps: "\<And>ni links ni' links'. f (ni, links) = Inr (ni', links') \<Longrightarrow> ni_calm (ni, links) (ni', links')"
  shows "calm net net'"
proof -
  let ?ni = "gn_nis net ! nat i"
  from assms(1) obtain ni' links' where i: "nat i < length (gn_nis net)"
    and f: "f (?ni, gn_links net) = Inr (ni', links')"
    and net': "net' = net\<lparr>gn_nis := (gn_nis net)[nat i := ni'], gn_links := links'\<rparr>"
    by (auto simp: on_ni_def nthR_eq_Inr elim!: bindR_InrE)
  from keeps [OF f] have k: "ni_keys ni' + links_keys links' = ni_keys ?ni + links_keys (gn_links net)"
    "ni_ok ?ni \<longrightarrow> ni_ok ni'" by (simp_all add: ni_calm_def)
  have "sum_list (map ni_keys ((gn_nis net)[nat i := ni'])) + links_keys links'
      = sum_list (map ni_keys (gn_nis net)) + links_keys (gn_links net)"
    by (rule update_account [OF i k(1)])
  then have "net_keys net' = net_keys net" by (simp add: net_keys_def net' ac_simps)
  moreover have "(\<forall>ni \<in> set (gn_nis net). ni_ok ni) \<longrightarrow> (\<forall>ni \<in> set (gn_nis net'). ni_ok ni)"
    using k(2) nth_mem [OF i] by (auto simp: net' dest!: set_update_subset_insert [THEN subsetD])
  ultimately show ?thesis by (simp add: calm_def same_ids_def net')
qed


lemma bridge_vcs_calm: "bridge_vcs n i net = Inr net' \<Longrightarrow> calm net net'"
proof -
  assume "bridge_vcs n i net = Inr net'"
  then obtain base b where base: "0 \<le> i" "nat i < length (gn_links net)" "base = gn_links net ! nat i"
    and r: "(case b of
      None \<Rightarrow> Inr net
    | Some br \<Rightarrow>
        bindR (nthR (gn_links net) (br_nLink br)) (\<lambda>nl.
        case bridge_setVcsPerVnet n (br\<lparr>br_link := base\<rparr>) nl of (br', nl') \<Rightarrow>
          Inr (net\<lparr>gn_bridges := (gn_bridges net)[nat i := Some br'],
                   gn_links := ((gn_links net)[nat i := br_link br'])[nat (br_nLink br) := nl']\<rparr>))) = Inr net'"
    by (auto simp: bridge_vcs_def nthR_eq_Inr elim!: bindR_InrE)
  show "calm net net'"
  proof (cases b)
    case None
    with r show ?thesis by (simp add: calm_refl)
  next
    case (Some br)
    with r obtain nl where nl: "nat (br_nLink br) < length (gn_links net)" "nl = gn_links net ! nat (br_nLink br)"
      and net': "net' = net\<lparr>gn_bridges := (gn_bridges net)[nat i := Some (fst (bridge_setVcsPerVnet n (br\<lparr>br_link := base\<rparr>) nl))],
        gn_links := ((gn_links net)[nat i := setVcsPerVnet n base])[nat (br_nLink br) := setVcsPerVnet n nl]\<rparr>"
      by (auto simp: nthR_eq_Inr bridge_setVcsPerVnet_def Let_def elim!: bindR_InrE)
    have "links_keys ((gn_links net)[nat i := setVcsPerVnet n base]) = links_keys (gn_links net)"
      unfolding links_keys_def by (rule sum_list_update_same) (simp_all add: base)
    moreover have "links_keys (((gn_links net)[nat i := setVcsPerVnet n base])[nat (br_nLink br) := setVcsPerVnet n nl])
        = links_keys ((gn_links net)[nat i := setVcsPerVnet n base])"
      unfolding links_keys_def by (rule sum_list_update_same) (simp_all add: nl base nth_list_update)
    ultimately show ?thesis using net' by (auto simp: calm_def net_keys_def same_ids_def)
  qed
qed

lemma record_bridge_calm: "calm net (record_bridge en b net)"
  by (simp add: record_bridge_def calm_def net_keys_def same_ids_def)

lemma begin_link_calm: "begin_link ty nl cl vcs net = Inr net' \<Longrightarrow> calm net net'"
  by (auto simp: begin_link_def calm_def net_keys_def same_ids_def links_keys_set elim!: bindR_InrE)

lemma add_node_calm:
  assumes "modR (gn_nis a) i (addNode ins outs) = Inr nis"
  shows "calm a (a\<lparr>gn_nis := nis\<rparr>)"
proof -
  let ?ni = "gn_nis a ! nat i"
  from assms obtain ni' where i: "nat i < length (gn_nis a)" and n: "addNode ins outs ?ni = Inr ni'"
    and nis: "nis = (gn_nis a)[nat i := ni']" by (auto simp: modR_eq_Inr)
  have k: "ni_keys ni' = ni_keys ?ni" "ni_ok ni' = ni_ok ?ni"
    using n by (auto simp: addNode_def ni_keys_def ni_ok_def elim!: bindR_InrE)
  have "sum_list (map ni_keys nis) = sum_list (map ni_keys (gn_nis a))"
    unfolding nis by (rule sum_list_update_same [OF i]) (rule k)
  moreover have "(\<forall>ni \<in> set (gn_nis a). ni_ok ni) \<longrightarrow> (\<forall>ni \<in> set nis. ni_ok ni)"
    using k(2) nth_mem [OF i] unfolding nis by (auto dest!: set_update_subset_insert [THEN subsetD])
  ultimately show ?thesis by (simp add: calm_def net_keys_def same_ids_def)
qed

lemma set_grid_calm: "set_grid net = Inr net' \<Longrightarrow> calm net net'"
  by (auto simp: set_grid_def Let_def calm_def net_keys_def same_ids_def elim!: guardR_InrE split: if_splits)

text \<open>
  What the initialisation is made of: nodes, ports, the channels of bridges, the state of a link
  and the size of the grid. A relation that each of them keeps is kept by the whole of \<open>init\<close>,
  whatever the topology.
\<close>

locale wiring =
  fixes R :: "'r GarnetNetwork \<Rightarrow> 'r GarnetNetwork \<Rightarrow> bool"
  assumes refl: "R a a"
    and trans: "R a b \<Longrightarrow> R b c \<Longrightarrow> R a c"
    and router_in: "on_router i (addInPort d il cl) a = Inr b \<Longrightarrow> R a b"
    and router_out: "on_router i (addOutPort cfg d ol entry weight cl vcs) a = Inr b \<Longrightarrow> R a b"
    and interface_in: "on_ni i (ni_addInPort il cl) a = Inr b \<Longrightarrow> R a b"
    and interface_out: "on_ni i (ni_addOutPort cfg ol cl rid vcs) a = Inr b \<Longrightarrow> R a b"
    and bridge: "bridge_vcs n i a = Inr b \<Longrightarrow> R a b"
    and bridge_note: "R a (record_bridge en br a)"
    and link_start: "begin_link ty nl cl vcs a = Inr b \<Longrightarrow> R a b"
    and node: "modR (gn_nis a) i (addNode ins outs) = Inr nis \<Longrightarrow> R a (a\<lparr>gn_nis := nis\<rparr>)"
    and grid: "set_grid a = Inr b \<Longrightarrow> R a b"
begin

lemma loop:
  assumes "foldR f xs a = Inr b" "\<And>x a b. f x a = Inr b \<Longrightarrow> R a b"
  shows "R a b"
  by (rule foldR_invariant [where P = "R a", OF assms(1)]) (auto intro: refl trans assms(2))

lemma bridges: "bridge_vcs n i a = Inr b \<Longrightarrow> bridge_vcs m j b = Inr c \<Longrightarrow> R a c"
  by (rule trans [OF bridge bridge])

lemma ports:
  "net_router_addInPort i d il cl a = Inr b \<Longrightarrow> R a b"
  "net_router_addOutPort i d ol entry w cl vcs a = Inr b \<Longrightarrow> R a b"
  "net_ni_addInPort i il cl a = Inr b \<Longrightarrow> R a b"
  "net_ni_addOutPort i ol cl rid vcs a = Inr b \<Longrightarrow> R a b"
proof -
  note simps = net_router_addInPort_def net_router_addOutPort_def net_ni_addInPort_def net_ni_addOutPort_def
  show "net_router_addInPort i d il cl a = Inr b \<Longrightarrow> R a b" unfolding simps
    by (elim bindR_InrE) (rule trans [OF router_in bridges])
  show "net_router_addOutPort i d ol entry w cl vcs a = Inr b \<Longrightarrow> R a b" unfolding simps
    by (elim bindR_InrE) (rule trans [OF router_out bridges])
  show "net_ni_addOutPort i ol cl rid vcs a = Inr b \<Longrightarrow> R a b" unfolding simps
    by (elim bindR_InrE) (rule trans [OF interface_out loop], assumption+, erule bridge)
  show "R a b" if n: "net_ni_addInPort i il cl a = Inr b"
  proof -
    from n obtain ni :: NetworkInterface and net1 where o: "on_ni i (ni_addInPort il cl) a = Inr net1"
      and r: "(if ni_vc_per_vnet ni \<noteq> 0
        then bindR (bridge_vcs (ni_vc_per_vnet ni) il net1) (bridge_vcs (ni_vc_per_vnet ni) cl) else Inr net1) = Inr b"
      unfolding simps by (elim bindR_InrE) blast
    have "R net1 b" using r by (elim if_InrE bindR_InrE) (erule (1) bridges, simp add: refl)
    with interface_in [OF o] show ?thesis by (rule trans)
  qed
qed

text \<open>A link is set up by: its own state, one port and a note of the bridge, the other port and a note.\<close>

lemma wire_link:
  assumes "begin_link ty nl cl vcs a = Inr n1" "R n1 n2" "R (record_bridge e b n2) n3"
    "Inr (record_bridge e' b' n3) = (Inr c :: 'r GarnetNetwork res)"
  shows "R a c"
proof -
  from link_start [OF assms(1)] assms(2) have "R a n2" by (rule trans)
  then have "R a (record_bridge e b n2)" using bridge_note by (rule trans)
  then have "R a n3" using assms(3) by (rule trans)
  then have "R a (record_bridge e' b' n3)" using bridge_note by (rule trans)
  with assms(4) show ?thesis by simp
qed

lemma make_link: "make_link c a = Inr b \<Longrightarrow> R a b"
proof (cases c)
  case (MakeExtInLink src dest link entry)
  assume "make_link c a = Inr b"
  then show ?thesis
    unfolding MakeExtInLink make_link_def net_call.case makeExtInLink_def Let_def
    by (elim bindR_InrE guardR_InrE case_prod_InrE) (rule wire_link, assumption, erule ports, erule ports, assumption)
next
  case (MakeExtOutLink src dest link entry)
  assume "make_link c a = Inr b"
  then show ?thesis
    unfolding MakeExtOutLink make_link_def net_call.case makeExtOutLink_def Let_def
    by (elim bindR_InrE guardR_InrE case_prod_InrE) (rule wire_link, assumption, erule ports, erule ports, assumption)
next
  case (MakeInternalLink src dest link entry d d')
  assume "make_link c a = Inr b"
  then show ?thesis
    unfolding MakeInternalLink make_link_def net_call.case makeInternalLink_def Let_def
    by (elim bindR_InrE guardR_InrE case_prod_InrE) (rule wire_link, assumption, erule ports, erule ports, assumption)
qed

lemma nodes: "add_nodes a = Inr b \<Longrightarrow> R a b"
  unfolding add_nodes_def by (erule loop) (auto elim!: bindR_InrE dest: node)

lemma init:
  assumes "GarnetNetwork_init mt a = Some (Inr b)"
  shows "R a b"
proof -
  from assms obtain net1 cs net2 where "add_nodes a = Inr net1" "foldR make_link cs net1 = Inr net2" "set_grid net2 = Inr b"
    by (auto simp: GarnetNetwork_init_def split: sum.splits option.splits elim!: bindR_InrE)
  then show ?thesis by (meson nodes loop make_link grid trans)
qed

end

interpretation calm_wiring: wiring calm
proof (unfold_locales, goal_cases)
  case 1
  show ?case by (rule calm_refl)
next
  case 2
  then show ?case by (rule calm_trans)
next
  case 3
  then show ?case by (rule on_router_calm) (erule addInPort_keys)
next
  case 4
  then show ?case by (rule on_router_calm) (erule addOutPort_keys)
next
  case 5
  then show ?case by (rule on_ni_calm) (erule ni_addInPort_calm)
next
  case 6
  then show ?case by (rule on_ni_calm) (erule ni_addOutPort_calm)
qed (fact bridge_vcs_calm record_bridge_calm begin_link_calm add_node_calm set_grid_calm)+

section \<open>Initialisation\<close>

text \<open>
  The parts a network is made of: routers and interfaces without ports, links without flits.
\<close>

definition blank_parts :: "Router list \<Rightarrow> NetworkInterface list \<Rightarrow> NetworkLink list \<Rightarrow> bool" where
  "blank_parts routers nis links \<longleftrightarrow>
    (\<forall>r \<in> set routers. \<exists>i lat vn vcs w p ls. r = Router_new i lat vn vcs w p ls) \<and>
    (\<forall>ni \<in> set nis. \<exists>i vn d p. ni = NetworkInterface_new i vn d p) \<and>
    (\<forall>l \<in> set links. \<exists>i lat vn vs w p. l = NetworkLink_new i lat vn vs w p)"

lemma sum_list_map_empty: "(\<And>x. x \<in> set xs \<Longrightarrow> f x = {#}) \<Longrightarrow> sum_list (map f xs) = {#}"
  by (induction xs) simp_all

lemma sum_list_empty_mem: "sum_list xs = {#} \<Longrightarrow> x \<in> set xs \<Longrightarrow> x = {#}"
  by (induction xs) auto

lemma new_network_fresh:
  assumes "blank_parts routers nis links"
  shows "fresh (GarnetNetwork_new nw cfg True m g file now period routers nis links bridges ints exts)"
proof -
  have "sum_list (map ni_keys nis) = {#}" "sum_list (map own_keys routers) = {#}" "links_keys links = {#}"
    using assms unfolding links_keys_def
    by (auto intro!: sum_list_map_empty simp: blank_parts_def ni_keys_def own_keys_def ius_keys_def ous_keys_def
        xb_keys_def NetworkInterface_new_def Router_new_def CrossbarSwitch_new_def NetworkLink_new_def Let_def
        flitBuffer_new_def dest!: bspec)
  moreover have "\<forall>ni \<in> set nis. ni_ok ni"
    using assms by (auto simp: blank_parts_def ni_ok_def NetworkInterface_new_def dest!: bspec)
  ultimately show ?thesis
    by (simp add: fresh_def GarnetNetwork_new_def scheduleWakeupAbsolute_def net_keys_def received_total_def
        GarnetStats_new_def Let_def sum_list_replicate)
qed

lemma calm_fresh: "calm net net' \<Longrightarrow> fresh net \<Longrightarrow> fresh net'"
  by (simp add: calm_def fresh_def same_ids_def)

text \<open>The \<open>init\<close> of the routers runs after the network is wired.\<close>

definition init_routers :: "'r GarnetNetwork \<Rightarrow> 'r GarnetNetwork" where
  "init_routers net = net\<lparr>gn_routers := map Router_init (gn_routers net)\<rparr>"

lemma init_routers_fresh:
  assumes "fresh net"
  shows "fresh (init_routers net)"
proof -
  have "own_keys (Router_init r) = {#}" if r: "own_keys r = {#}" for r
  proof -
    have "xb_keys (r_crossbarSwitch r) = {#}" using r by (simp add: own_keys_def)
    then have "flit_keys (fb_buffer b) = {#}" if "b \<in> set (take n (xb_switchBuffers (r_crossbarSwitch r)))" for b n
      using in_set_takeD [OF that] sum_list_empty_mem [of "map (\<lambda>b. flit_keys (fb_buffer b)) (r_switch_buffers r)"]
      unfolding xb_keys_def by simp
    with r show ?thesis
      by (simp add: own_keys_def Router_init_def xb_keys_def CrossbarSwitch_init_def flitBuffer_new_def sum_list_map_empty)
  qed
  moreover have "own_keys r = {#}" if "r \<in> set (gn_routers net)" for r
    using assms that sum_list_empty_mem [of "map own_keys (gn_routers net)"] by (simp add: fresh_def net_keys_def)
  ultimately have "sum_list (map (own_keys \<circ> Router_init) (gn_routers net)) = {#}"
    by (intro sum_list_map_empty) simp
  with assms show ?thesis by (simp add: fresh_def init_routers_def net_keys_def)
qed

lemma init_fresh:
  assumes "GarnetNetwork_init mt (GarnetNetwork_new nw cfg True m g file now period routers nis links bridges ints exts)
      = Some (Inr net)"
    and "blank_parts routers nis links"
  shows "fresh (init_routers net)"
proof (rule init_routers_fresh)
  let ?net = "GarnetNetwork_new nw cfg True m g file now period routers nis links bridges ints exts"
  have "calm ?net net" by (rule calm_wiring.init [OF assms(1)])
  then show "fresh net" using new_network_fresh [OF assms(2)] by (rule calm_fresh)
qed

text \<open>
  C28: Construction and initialisation make a fresh network: whatever the topology, when a network
  with a trace is put together from new routers, new interfaces and new links, and \<open>init\<close> wires
  them and ends without an error, there is no flit in it, no packet has been numbered, and the
  bookkeeping of every interface is consistent.
\<close>

theorem initialised_network_fresh:
  assumes "GarnetNetwork_init mt (GarnetNetwork_new nw cfg True m g file now period routers nis links bridges ints exts)
      = Some (Inr net)"
    and "blank_parts routers nis links"
  shows "fresh (init_routers net)"
  using assms by (rule init_fresh)

section \<open>Examples\<close>

text \<open>
  Two interfaces at one router, and a trace of one record: two packets of one flit from the
  first interface to the second. The number of routers and links is a parameter.
\<close>

definition pair_machines :: machine_info where
  "pair_machines = \<lparr>mt_NUM = 1, mt_base_count = (\<lambda>m. 2), mt_base_number = (\<lambda>m. 2 * m),
     mt_base_level = id, mt_bits_per_set = 2\<rparr>"

definition pair_basic :: "int \<Rightarrow> BasicLink" where
  "pair_basic i = \<lparr>bl_id = i, bl_latency = 1, bl_weight = 1, bl_bandwidth_factor = 16, bl_mVnets = []\<rparr>"

definition pair_record :: NetworkTraceRecord where
  "pair_record = \<lparr>tr_valid = True, tr_time = 3, tr_src_id = 0, tr_src_router_id = 0, tr_dest_id = 1,
     tr_dest_router_id = 1, tr_vnet = 0, tr_num_flits = 2, tr_network_idx = 0, tr_input_idx = 0, tr_phase_id = 0\<rparr>"

definition pair_file :: string where "pair_file = ''header'' @ [newline] @ trace_line pair_record"

definition pair_queue :: "MessageBuffer option" where
  "pair_queue = Some (MessageBuffer_new 0 0 True Rand_disabled False)"

definition pair_nw :: "nat \<Rightarrow> unit Network res" where
  "pair_nw num_routers =
    bindR (Network_new pair_machines 1 8 64 64 num_routers (\<lambda>_. [])
      (map (\<lambda>i. \<lparr>el_link = pair_basic (int i), el_machine = (0, i), el_router = 0\<rparr>) [0, 1]) []) (\<lambda>nw0.
    bindR (setFromNetQueue 0 False 0 '''' pair_queue nw0) (setFromNetQueue 1 False 0 '''' pair_queue))"

definition pair_routers :: "nat \<Rightarrow> Router list" where
  "pair_routers n = map (\<lambda>i. Router_new i 1 1 2 16 1 []) (upto_int n)"

definition pair_nis :: "NetworkInterface list" where
  "pair_nis = [NetworkInterface_new 0 1 50000 1, NetworkInterface_new 1 1 50000 1]"

definition pair_links :: "nat \<Rightarrow> NetworkLink list" where
  "pair_links n = replicate n (NetworkLink_new 0 1 1 [] 16 1)"

definition pair_ext :: "int \<Rightarrow> GarnetExtLink" where
  "pair_ext i = GarnetExtLink_new (4 * i, 4 * i + 2) (4 * i + 1, 4 * i + 3) (False, False) ((None, None), (None, None))
     (False, False) ((None, None), (None, None))"

definition pair_int :: "int \<Rightarrow> GarnetIntLink" where
  "pair_int i = GarnetIntLink_new (2 * i + 4) (2 * i + 5) (False, False) (None, None) (False, False) (None, None)"

definition pair_new :: "nat \<Rightarrow> unit Network \<Rightarrow> unit GarnetNetwork" where
  "pair_new n nw = GarnetNetwork_new nw (example_config\<lparr>gc_num_rows := 0, gc_routing_algorithm := TABLE\<rparr>) True (-1) False
     pair_file 0 1 (pair_routers n) pair_nis (pair_links (4 * n + 4)) (replicate (4 * n + 4) None)
     [(2, pair_int 2), (3, pair_int 3)] [(0, pair_ext 0), (1, pair_ext 1)]"

lemma pair_blank: "blank_parts (pair_routers n) pair_nis (pair_links m)"
  unfolding blank_parts_def pair_routers_def pair_nis_def pair_links_def
  by (auto simp del: One_nat_def) (rule exI, rule refl | rule exI)+

definition pair_dest :: "bool \<Rightarrow> bool \<Rightarrow> net_dest list" where
  "pair_dest a b = [[\<lparr>rs_nSize = 2, rs_bits = [a, b]\<rparr>]]"

definition star_calls :: "net_call list" where
  "star_calls = [MakeExtInLink 0 0 (pair_basic 0) (pair_dest True True), MakeExtInLink 1 0 (pair_basic 1) (pair_dest True True),
     MakeExtOutLink 0 0 (pair_basic 0) (pair_dest True False), MakeExtOutLink 0 1 (pair_basic 1) (pair_dest False True)]"

lemma star_links:
  "case pair_nw 1 of Inl e \<Rightarrow> False | Inr nw \<Rightarrow> createLinks pair_machines (nw_topology nw) = Some (Inr star_calls)"
  by code_simp

definition wire :: "net_call list \<Rightarrow> 'r GarnetNetwork \<Rightarrow> 'r GarnetNetwork res" where
  "wire cs net = bindR (add_nodes net) (\<lambda>net1. bindR (foldR make_link cs net1) set_grid)"

lemma wire_init:
  assumes "createLinks mt (nw_topology (gn_network net)) = Some (Inr cs)" "wire cs net = Inr net'"
  shows "GarnetNetwork_init mt net = Some (Inr net')"
proof -
  from assms(2) obtain net1 where a: "add_nodes net = Inr net1" "bindR (foldR make_link cs net1) set_grid = Inr net'"
    by (auto simp: wire_def elim!: bindR_InrE)
  from a(1) have "gn_network net1 = gn_network net" unfolding add_nodes_def
    by (rule foldR_invariant [where P = "\<lambda>n. gn_network n = gn_network net"]) (auto elim!: bindR_InrE)
  with assms(1) a show ?thesis by (simp add: GarnetNetwork_init_def)
qed

definition star_network :: "(unit Network \<times> unit GarnetNetwork) res" where
  "star_network = bindR (pair_nw 1) (\<lambda>nw. bindR (wire star_calls (pair_new 1 nw)) (\<lambda>net. Inr (nw, net)))"

text \<open>Which queue each link reads and whom it wakes up.\<close>

definition link_ends :: "'r GarnetNetwork \<Rightarrow> (queue_ref option \<times> consumer_ref option) list" where
  "link_ends net = map (\<lambda>l. (lk_srcQueue l, lk_link_consumer l)) (gn_links net)"

definition star_ends :: "(queue_ref option \<times> consumer_ref option) list" where
  "star_ends = [(Some (NI_out 0 0), Some (Router_consumer 0)), (Some (Router_credit 0 0), Some (NI_consumer 0)),
     (Some (Router_out 0 0), Some (NI_consumer 0)), (Some (NI_credit 0 0), Some (Router_consumer 0)),
     (Some (NI_out 1 0), Some (Router_consumer 0)), (Some (Router_credit 0 1), Some (NI_consumer 1)),
     (Some (Router_out 0 1), Some (NI_consumer 1)), (Some (NI_credit 1 0), Some (Router_consumer 0))]"

lemma star_wired: "case star_network of Inl e \<Rightarrow> False | Inr (nw, net) \<Rightarrow> link_ends net = star_ends"
  by code_simp

lemma star_init:
  obtains nw net where "star_network = Inr (nw, net)" "link_ends net = star_ends"
    "GarnetNetwork_init pair_machines (pair_new 1 nw) = Some (Inr net)"
proof -
  from star_wired obtain nw net where s: "star_network = Inr (nw, net)" "link_ends net = star_ends"
    by (auto split: sum.splits)
  then have nw: "pair_nw 1 = Inr nw" and w: "wire star_calls (pair_new 1 nw) = Inr net"
    by (auto simp: star_network_def elim!: bindR_InrE)
  have "createLinks pair_machines (nw_topology (gn_network (pair_new 1 nw))) = Some (Inr star_calls)"
    using star_links nw by (simp add: pair_new_def GarnetNetwork_new_def scheduleWakeupAbsolute_def)
  from that [OF s wire_init [OF this w]] show thesis .
qed

lemma initialised_network_fresh_witness:
  "\<exists>nw net. GarnetNetwork_init pair_machines (pair_new 1 nw) = Some (Inr net) \<and>
    link_ends net = star_ends \<and> fresh (init_routers net)"
proof -
  obtain nw net where i: "star_network = Inr (nw, net)" "link_ends net = star_ends"
    "GarnetNetwork_init pair_machines (pair_new 1 nw) = Some (Inr net)" by (rule star_init)
  have "fresh (init_routers net)"
    by (rule initialised_network_fresh [OF i(3) [unfolded pair_new_def] pair_blank])
  with i show ?thesis by blast
qed

text \<open>Lists of events, and what they do.\<close>

datatype net_event = Driver bool tick | Router_event int tick | Interface_event int tick | Link_event nat tick

definition perform :: "machine_info \<Rightarrow> ruby_flags \<Rightarrow> net_event \<Rightarrow> 'r GarnetNetwork \<Rightarrow> 'r GarnetNetwork res" where
  "perform mt rs e net =
    (case e of
       Driver at_eof now \<Rightarrow> GarnetNetwork_wakeup at_eof now net
     | Router_event i now \<Rightarrow> on_router i (Router_wakeup (gn_cfg net) now (\<lambda>_. 0)) net
     | Interface_event i now \<Rightarrow>
         bindR (NetworkInterface_wakeup mt rs (\<lambda>_. None) (\<lambda>_ _. 0) 0 0 now i net) (\<lambda>(net', reqs). Inr net')
     | Link_event i now \<Rightarrow>
         (case lk_srcQueue (gn_links net ! i) of
            Some (Bridge_buffer b) \<Rightarrow> Inl (Assert_failed ''no bridge'')
          | _ \<Rightarrow> bindR (link_event now i net) (\<lambda>(net', reqs). Inr net')))"

lemma perform_step:
  assumes "perform mt rs e net = Inr net'"
  shows "net_step mt rs (\<lambda>_. None) net net'"
proof (cases e)
  case (Driver at_eof now)
  with assms show ?thesis by (intro net_step.driver) (simp add: perform_def)
next
  case (Router_event i now)
  with assms show ?thesis by (intro net_step.router) (simp add: perform_def)
next
  case (Interface_event i now)
  with assms show ?thesis by (auto simp: perform_def elim!: bindR_InrE intro: net_step.interface)
next
  case (Link_event i now)
  with assms obtain reqs where "link_event now i net = Inr (net', reqs)"
    "\<And>q. lk_srcQueue (gn_links net ! i) = Some q \<Longrightarrow> \<not> is_bridge q"
    by (auto simp: perform_def is_bridge_def elim!: bindR_InrE split: option.splits queue_ref.splits)
  then show ?thesis by (rule net_step.link)
qed

lemma perform_run: "foldR (perform mt rs) es net = Inr net' \<Longrightarrow> (net_step mt rs (\<lambda>_. None))\<^sup>*\<^sup>* net net'"
  by (rule foldR_invariant [where P = "(net_step mt rs (\<lambda>_. None))\<^sup>*\<^sup>* net"])
    (auto intro: rtranclp.rtrancl_into_rtrancl perform_step)

text \<open>
  The packets waiting in the interfaces, in the output buffers of the routers and on the links,
  and the number of flits received.
\<close>

definition net_summary :: "'r GarnetNetwork \<Rightarrow> int list list \<times> int list list \<times> int list list \<times> nat list" where
  "net_summary net =
    (map (\<lambda>ni. map fl_packet_id (ni_trace_injection_queue ni @ concat (map (\<lambda>p. fb_buffer (op_outFlitQueue p)) (ni_outPorts ni)))) (gn_nis net),
     map (\<lambda>r. map fl_packet_id (concat (map (\<lambda>ou. fb_buffer (ou_outBuffer ou)) (r_output_unit r)))) (gn_routers net),
     map (\<lambda>l. map fl_packet_id (link_flits l)) (gn_links net), gs_flits_received (gn_stats net))"

text \<open>
  The driver reads the record, hands it over when it is due, and packet 0 goes from interface 0
  over link 0, the router and link 6 to interface 1, while packet 1 still waits.
\<close>

definition star_events :: "net_event list" where
  "star_events = [Driver False 1, Driver True 3, Interface_event 0 4, Link_event 0 5, Router_event 0 6, Link_event 6 7,
     Interface_event 1 8]"

definition star_run :: "nat \<Rightarrow> unit GarnetNetwork res" where
  "star_run k = bindR star_network (\<lambda>(nw, net). foldR (perform pair_machines example_flags) (take k star_events) (init_routers net))"

lemma star_run_half:
  "case star_run 5 of Inl e \<Rightarrow> False | Inr net \<Rightarrow> net_summary net = ([[1], []], [[0]], replicate 8 [], [0])"
  by code_simp

lemma star_run_whole:
  "case star_run 7 of Inl e \<Rightarrow> False | Inr net \<Rightarrow>
    net_summary net = ([[1], []], [[]], replicate 8 [], [1]) \<and> gs_next_packet_id (gn_stats net) = 2"
  by code_simp

end
