(* ===== verification/CreditStart.thy ===== *)
theory CreditStart
  imports CreditRun NetworkStart
begin

text \<open>
  Credit-based flow control from the start: a network built by \<open>init\<close> begins with empty queues
  and full credits, so that along every run the tokens of a credit loop are the credits its
  senders were made with, and no buffer of the loop ever holds more flits than that.
\<close>

section \<open>A clean network\<close>

definition iu_clean :: "InputUnit \<Rightarrow> bool" where
  "iu_clean iu \<longleftrightarrow> (\<forall>v \<in> set (iu_virtualChannels iu). vc_flits v = []) \<and> fb_buffer (iu_creditQueue iu) = []"

definition ou_clean :: "OutputUnit \<Rightarrow> bool" where
  "ou_clean ou \<longleftrightarrow> ou_ok ou \<and> fb_buffer (ou_outBuffer ou) = []"

definition r_clean :: "Router \<Rightarrow> bool" where
  "r_clean r \<longleftrightarrow> (\<forall>iu \<in> set (r_input_unit r). iu_clean iu) \<and> (\<forall>ou \<in> set (r_output_unit r). ou_clean ou) \<and>
    (\<forall>b \<in> set (r_switch_buffers r). fb_buffer b = [])"

definition ni_clean :: "NetworkInterface \<Rightarrow> bool" where
  "ni_clean ni \<longleftrightarrow> (\<forall>b \<in> set (ni_niOutVcs ni). fb_buffer b = []) \<and> (\<forall>v \<in> set (ni_outVcState ni). ovc_ok v) \<and>
    (\<forall>p \<in> set (ni_outPorts ni). fb_buffer (op_outFlitQueue p) = []) \<and>
    (\<forall>p \<in> set (ni_inPorts ni). ip_stall_queue p = [] \<and> fb_buffer (ip_outCreditQueue p) = []) \<and>
    ni_trace_injection_queue ni = []"

definition links_clean :: "NetworkLink list \<Rightarrow> bool" where
  "links_clean ls \<longleftrightarrow> (\<forall>l \<in> set ls. link_flits l = [])"

definition clean :: "'r GarnetNetwork \<Rightarrow> bool" where
  "clean net \<longleftrightarrow> (\<forall>r \<in> set (gn_routers net). r_clean r) \<and> (\<forall>ni \<in> set (gn_nis net). ni_clean ni) \<and> links_clean (gn_links net)"

text \<open>The credits the senders of a loop hold.\<close>

definition loop_credits :: "int set \<Rightarrow> int \<Rightarrow> 'r GarnetNetwork \<Rightarrow> int" where
  "loop_credits P w net =
    sum_list (map (\<lambda>r. sum_list (map (\<lambda>ou. if ou_credit_link ou \<in> P then entry w ovc_credit_count (ou_outVcState ou) else 0)
      (r_output_unit r))) (gn_routers net)) +
    sum_list (map (\<lambda>ni. if ni_sends P (ni_wires ni) then entry w ovc_credit_count (ni_outVcState ni) else 0) (gn_nis net))"

lemma sum_list_map_0: "(\<And>x. x \<in> set xs \<Longrightarrow> g x = (0 :: int)) \<Longrightarrow> sum_list (map g xs) = 0"
  by (induction xs) simp_all

lemma entry_0: "(\<And>x. x \<in> set xs \<Longrightarrow> g x = 0) \<Longrightarrow> entry w g xs = 0"
  unfolding entry_def by (simp add: nat_less_iff)

lemma clean_links_tokens: "links_clean ls \<Longrightarrow> links_tokens P w ls = 0"
  unfolding links_tokens_def by (intro sum_list_map_0) (simp add: links_clean_def link_tokens_def)

lemma clean_own_tokens:
  assumes "r_clean r"
  shows "own_tokens P w r = sum_list (map (\<lambda>ou. if ou_credit_link ou \<in> P then entry w ovc_credit_count (ou_outVcState ou) else 0)
      (r_output_unit r))"
proof -
  have "ius_tokens P w (r_input_unit r) = 0"
    unfolding ius_tokens_def using assms
    by (intro sum_list_map_0) (auto simp: r_clean_def iu_clean_def iu_tokens_def intro: entry_0)
  moreover have "xb_tokens P w (map ou_wires (r_output_unit r)) (r_crossbarSwitch r) = 0"
    unfolding xb_tokens_def using assms by (intro sum_list_map_0) (auto simp: r_clean_def)
  moreover have "ous_tokens P w (r_output_unit r) = sum_list (map (\<lambda>ou. if ou_credit_link ou \<in> P then entry w ovc_credit_count (ou_outVcState ou) else 0)
      (r_output_unit r))"
    unfolding ous_tokens_def using assms by (intro arg_cong [where f = sum_list] map_cong refl) (auto simp: r_clean_def ou_clean_def ou_tokens_def)
  ultimately show ?thesis by (simp add: own_tokens_def)
qed

lemma clean_ni_tokens:
  assumes "ni_clean ni"
  shows "ni_tokens P w ni = (if ni_sends P (ni_wires ni) then entry w ovc_credit_count (ni_outVcState ni) else 0)"
proof -
  have "sum_list (map (op_tokens P w) (ni_outPorts ni)) = 0" "sum_list (map (ip_tokens P w) (ni_inPorts ni)) = 0"
    using assms by (auto simp: ni_clean_def op_tokens_def ip_tokens_def intro!: sum_list_map_0)
  then show ?thesis by (simp add: ni_tokens_def)
qed

lemma clean_tokens:
  assumes "clean net"
  shows "net_tokens P w net = loop_credits P w net"
proof -
  have "map (own_tokens P w) (gn_routers net) = map (\<lambda>r. sum_list (map (\<lambda>ou. if ou_credit_link ou \<in> P
      then entry w ovc_credit_count (ou_outVcState ou) else 0) (r_output_unit r))) (gn_routers net)"
    by (rule map_cong [OF refl]) (use assms in \<open>auto simp: clean_def clean_own_tokens\<close>)
  moreover have "map (ni_tokens P w) (gn_nis net) = map (\<lambda>ni. if ni_sends P (ni_wires ni)
      then entry w ovc_credit_count (ni_outVcState ni) else 0) (gn_nis net)"
    by (rule map_cong [OF refl]) (use assms in \<open>auto simp: clean_def clean_ni_tokens\<close>)
  moreover have "links_tokens P w (gn_links net) = 0" using assms by (simp add: clean_def clean_links_tokens)
  ultimately show ?thesis unfolding net_tokens_def loop_credits_def by (simp only: add_0_right)
qed

lemma clean_good: "clean net \<Longrightarrow> net_good net"
  by (auto simp: clean_def net_good_def r_clean_def r_ok_def ou_clean_def ni_clean_def ni_good_def stamped_def)

section \<open>Initialisation keeps a network clean\<close>

lemma links_clean_set:
  assumes "modR links i (\<lambda>l. Inr (f l)) = Inr links'" "\<And>l. link_flits (f l) = link_flits l" "links_clean links"
  shows "links_clean links'"
  unfolding links_clean_def by (rule modR_all [OF assms(1)]) (use assms(2,3) in \<open>auto simp: links_clean_def\<close>)

lemma OutVcStates_ok:
  assumes "foldR (\<lambda>i vs. bindR (OutVcState_new i cfg n) (\<lambda>v. Inr (vs @ [v]))) is vs = Inr vs'" "\<forall>v \<in> set vs. ovc_ok v"
  shows "\<forall>v \<in> set vs'. ovc_ok v"
  by (rule foldR_invariant [where P = "\<lambda>vs. \<forall>v \<in> set vs. ovc_ok v", OF assms])
    (auto elim!: bindR_InrE dest!: OutVcState_new_ok)

lemma addInPort_clean:
  assumes "addInPort d il cl r = Inr r'" "r_clean r" "links_clean (r_links r)"
  shows "r_clean r' \<and> links_clean (r_links r')"
proof -
  let ?me = "nat (rp_id (r_params r))" and ?vcs = "rp_vc_per_vnet (r_params r)" and ?n = "length (r_input_unit r)"
  from assms(1) obtain iu links1 links2 where iu: "InputUnit_new (int ?n) d (r_params r) = Inr iu"
    and l1: "modR (r_links r) il (\<lambda>l. Inr (setVcsPerVnet ?vcs (setLinkConsumer (Router_consumer ?me) l))) = Inr links1"
    and l2: "modR links1 cl (\<lambda>l. Inr (setVcsPerVnet ?vcs (setSourceQueue (Router_credit ?me ?n) l))) = Inr links2"
    and r': "r' = r\<lparr>r_input_unit := r_input_unit r @ [iu\<lparr>iu_in_link := il, iu_credit_link := cl\<rparr>],
        r_routingUnit := addInDirection d (int ?n) (r_routingUnit r), r_links := links2\<rparr>"
    unfolding addInPort_def Let_def by (elim bindR_InrE guardR_InrE) blast
  from iu have "iu_clean (iu\<lparr>iu_in_link := il, iu_credit_link := cl\<rparr>)"
    by (auto simp: InputUnit_new_def iu_clean_def vc_new_def flitBuffer_new_def elim!: guardR_InrE)
  moreover have "links_clean links2"
    by (rule links_clean_set [OF l2 _ links_clean_set [OF l1 _ assms(3)]]) simp_all
  ultimately show ?thesis using assms(2) by (auto simp: r' r_clean_def)
qed

lemma addOutPort_clean:
  assumes "addOutPort cfg d ol rt weight cl vcs r = Inr r'" "r_clean r" "links_clean (r_links r)"
  shows "r_clean r' \<and> links_clean (r_links r')"
proof -
  let ?me = "nat (rp_id (r_params r))" and ?n = "length (r_output_unit r)"
  from assms(1) obtain ou links1 links2 where
    ou: "OutputUnit_new cfg (int ?n) d (r_params r) (con_period (r_consumer r)) vcs = Inr ou"
    and l1: "modR (r_links r) cl (\<lambda>l. Inr (setVcsPerVnet vcs (setLinkConsumer (Router_consumer ?me) l))) = Inr links1"
    and l2: "modR links1 ol (\<lambda>l. Inr (setVcsPerVnet vcs (setSourceQueue (Router_out ?me ?n) l))) = Inr links2"
    and r': "r' = r\<lparr>r_output_unit := r_output_unit r @ [ou\<lparr>ou_out_link := ol, ou_credit_link := cl\<rparr>],
        r_routingUnit := addOutDirection d (int ?n) (addWeight weight (addRoute rt (r_routingUnit r))), r_links := links2\<rparr>"
    unfolding addOutPort_def Let_def by (elim bindR_InrE guardR_InrE) blast
  from ou have "ou_clean (ou\<lparr>ou_out_link := ol, ou_credit_link := cl\<rparr>)"
    using OutVcStates_ok by (fastforce simp: OutputUnit_new_def flitBuffer_new_def ou_clean_def ou_ok_def elim!: bindR_InrE)
  moreover have "links_clean links2"
    by (rule links_clean_set [OF l2 _ links_clean_set [OF l1 _ assms(3)]]) simp_all
  ultimately show ?thesis using assms(2) by (auto simp: r' r_clean_def)
qed

lemma ni_addInPort_clean:
  assumes "ni_addInPort il cl (ni, links) = Inr (ni', links')" "ni_clean ni" "links_clean links"
  shows "ni_clean ni' \<and> links_clean links'"
proof -
  let ?set = "\<lambda>l. if ni_vc_per_vnet ni \<noteq> 0 then setVcsPerVnet (ni_vc_per_vnet ni) l else l" and ?n = "length (ni_inPorts ni)"
  from assms(1) obtain l links1 where
    l1: "modR links il (\<lambda>l. Inr (?set (setLinkConsumer (NI_consumer (ni_id ni)) l))) = Inr links1"
    and l2: "modR links1 cl (\<lambda>l. Inr (?set (setSourceQueue (NI_credit (ni_id ni) ?n) l))) = Inr links'"
    and ni': "ni' = ni\<lparr>ni_inPorts := ni_inPorts ni @ [InputPort_new l il cl]\<rparr>"
    unfolding ni_addInPort_def Let_def prod.case by (elim bindR_InrE) blast
  have "links_clean links'"
    by (rule links_clean_set [OF l2 _ links_clean_set [OF l1 _ assms(3)]]) simp_all
  with assms(2) show ?thesis by (auto simp: ni' ni_clean_def InputPort_new_def flitBuffer_new_def)
qed

lemma make_out_vcs_clean:
  assumes "make_out_vcs cfg n ni = Inr ni'" "ni_clean ni"
  shows "ni_clean ni'"
proof -
  let ?m = "n * ni_virtual_networks ni"
  from assms(1) obtain states where s: "foldR (\<lambda>i vs. bindR (OutVcState_new i cfg n) (\<lambda>v. Inr (vs @ [v])))
      (upto_int ?m) (ni_outVcState ni) = Inr states"
    and ni': "ni' = ni\<lparr>ni_vc_per_vnet := n, ni_niOutVcs := replicate ?m flitBuffer_new,
        ni_outVcState := states, ni_out_vcs_enqueue_time := replicate ?m INFINITE\<rparr>"
    unfolding make_out_vcs_def Let_def by (elim bindR_InrE) blast
  have "\<forall>v \<in> set states. ovc_ok v" by (rule OutVcStates_ok [OF s]) (use assms(2) in \<open>simp add: ni_clean_def\<close>)
  with assms(2) show ?thesis by (auto simp: ni' ni_clean_def flitBuffer_new_def)
qed

lemma ni_addOutPort_clean:
  assumes "ni_addOutPort cfg ol cl rid vcs (ni, links) = Inr (ni', links')" "ni_clean ni" "links_clean links"
  shows "ni_clean ni' \<and> links_clean links'"
proof -
  from assms(1) obtain l ni1 links1 links2 where
    a: "(if length (ni_niOutVcs ni) = 0 then
               bindR (make_out_vcs cfg vcs ni) (\<lambda>ni1.
               bindR (foldR (\<lambda>p ls.
                   bindR (modR ls (ip_inNetLink p) (\<lambda>l. Inr (setVcsPerVnet vcs l)))
                     (\<lambda>ls1. modR ls1 cl (\<lambda>l. Inr (setVcsPerVnet vcs l))))
                 (ni_inPorts ni1) links) (\<lambda>links1. Inr (ni1, links1)))
             else guardR (vcs = ni_vc_per_vnet ni)
               (Fatal ''Connected Physical links have different vc requests'') (Inr (ni, links))) = Inr (ni1, links1)"
    and l1: "modR links1 ol (\<lambda>l. Inr (setVcsPerVnet (ni_vc_per_vnet ni1)
          (setSourceQueue (NI_out (ni_id ni) (length (ni_outPorts ni))) l))) = Inr links2"
    and l2: "modR links2 cl (\<lambda>l. Inr (setVcsPerVnet (ni_vc_per_vnet ni1)
          (setLinkConsumer (NI_consumer (ni_id ni)) l))) = Inr links'"
    and ni': "ni' = ni1\<lparr>ni_outPorts := ni_outPorts ni1 @ [OutputPort_new l ol cl rid]\<rparr>"
    unfolding ni_addOutPort_def Let_def prod.case by (elim bindR_InrE case_prod_InrE guardR_InrE) blast
  have c: "ni_clean ni1 \<and> links_clean links1"
  proof (cases "ni_niOutVcs ni = []")
    case True
    with a obtain ls where m: "make_out_vcs cfg vcs ni = Inr ni1" and f: "foldR (\<lambda>p ls.
                   bindR (modR ls (ip_inNetLink p) (\<lambda>l. Inr (setVcsPerVnet vcs l)))
                     (\<lambda>ls1. modR ls1 cl (\<lambda>l. Inr (setVcsPerVnet vcs l)))) (ni_inPorts ni1) links = Inr links1"
      by (auto elim!: bindR_InrE)
    have "links_clean links1"
      by (rule foldR_invariant [where P = links_clean, OF f assms(3)])
        (auto elim!: bindR_InrE dest!: links_clean_set)
    with make_out_vcs_clean [OF m assms(2)] show ?thesis by simp
  next
    case False
    with a assms(2,3) show ?thesis by (auto elim!: guardR_InrE)
  qed
  have "links_clean links'"
    by (rule links_clean_set [OF l2 _ links_clean_set [OF l1 _ conjunct2 [OF c]]]) simp_all
  with c show ?thesis by (auto simp: ni' ni_clean_def OutputPort_new_def flitBuffer_new_def)
qed

definition keeps_clean :: "'r GarnetNetwork \<Rightarrow> 'r GarnetNetwork \<Rightarrow> bool" where
  "keeps_clean net net' \<longleftrightarrow> (clean net \<longrightarrow> clean net')"

lemma on_router_clean:
  assumes "on_router i f net = Inr net'"
    and keeps: "\<And>r r'. f r = Inr r' \<Longrightarrow> r_clean r \<Longrightarrow> links_clean (r_links r) \<Longrightarrow> r_clean r' \<and> links_clean (r_links r')"
  shows "keeps_clean net net'"
proof -
  let ?r = "(gn_routers net ! nat i)\<lparr>r_links := gn_links net\<rparr>"
  from assms(1) obtain r' where i: "nat i < length (gn_routers net)" and r': "f ?r = Inr r'"
    and net': "net' = net\<lparr>gn_routers := (gn_routers net)[nat i := r'], gn_links := r_links r'\<rparr>"
    by (auto simp: on_router_def nthR_eq_Inr elim!: bindR_InrE)
  have same: "r_clean (r\<lparr>r_links := ls\<rparr>) = r_clean r" for r ls by (simp add: r_clean_def)
  have "clean net'" if c: "clean net"
  proof -
    from c have rs: "\<forall>r \<in> set (gn_routers net). r_clean r" and ns: "\<forall>ni \<in> set (gn_nis net). ni_clean ni"
      and ls: "links_clean (gn_links net)" by (simp_all add: clean_def)
    have "r_clean ?r" unfolding same using rs nth_mem [OF i] by blast
    with keeps [OF r'] ls have k: "r_clean r'" "links_clean (r_links r')" by simp_all
    have "\<forall>r \<in> set ((gn_routers net)[nat i := r']). r_clean r" by (rule all_update [OF rs k(1)])
    with ns k(2) show ?thesis by (simp add: clean_def net')
  qed
  then show ?thesis by (simp add: keeps_clean_def)
qed

lemma on_ni_clean:
  assumes "on_ni i f net = Inr net'"
    and keeps: "\<And>ni ls ni' ls'. f (ni, ls) = Inr (ni', ls') \<Longrightarrow> ni_clean ni \<Longrightarrow> links_clean ls \<Longrightarrow> ni_clean ni' \<and> links_clean ls'"
  shows "keeps_clean net net'"
proof -
  let ?ni = "gn_nis net ! nat i"
  from assms(1) obtain ni' links' where i: "nat i < length (gn_nis net)"
    and f: "f (?ni, gn_links net) = Inr (ni', links')"
    and net': "net' = net\<lparr>gn_nis := (gn_nis net)[nat i := ni'], gn_links := links'\<rparr>"
    by (auto simp: on_ni_def nthR_eq_Inr elim!: bindR_InrE)
  have "clean net'" if c: "clean net"
  proof -
    from c have rs: "\<forall>r \<in> set (gn_routers net). r_clean r" and ns: "\<forall>ni \<in> set (gn_nis net). ni_clean ni"
      and ls: "links_clean (gn_links net)" by (simp_all add: clean_def)
    have "ni_clean ?ni" using ns nth_mem [OF i] by blast
    from keeps [OF f this ls] have k: "ni_clean ni'" "links_clean links'" by simp_all
    have "\<forall>ni \<in> set ((gn_nis net)[nat i := ni']). ni_clean ni" by (rule all_update [OF ns k(1)])
    with rs k(2) show ?thesis by (simp add: clean_def net')
  qed
  then show ?thesis by (simp add: keeps_clean_def)
qed

lemma keeps_clean_parts:
  assumes "gn_routers b = gn_routers a" "gn_nis b = gn_nis a" "links_clean (gn_links a) \<Longrightarrow> links_clean (gn_links b)"
  shows "keeps_clean a b"
  using assms by (simp add: keeps_clean_def clean_def)

lemma links_clean_update: "links_clean ls \<Longrightarrow> link_flits l = [] \<Longrightarrow> links_clean (ls[i := l])"
  unfolding links_clean_def by (rule all_update)

lemma bridge_vcs_clean:
  assumes "bridge_vcs n i net = Inr net'"
  shows "keeps_clean net net'"
proof -
  from assms obtain base b where base: "0 \<le> i" "nat i < length (gn_links net)" "base = gn_links net ! nat i"
    and r: "(case b of
      None \<Rightarrow> Inr net
    | Some br \<Rightarrow>
        bindR (nthR (gn_links net) (br_nLink br)) (\<lambda>nl.
        case bridge_setVcsPerVnet n (br\<lparr>br_link := base\<rparr>) nl of (br', nl') \<Rightarrow>
          Inr (net\<lparr>gn_bridges := (gn_bridges net)[nat i := Some br'],
                   gn_links := ((gn_links net)[nat i := br_link br'])[nat (br_nLink br) := nl']\<rparr>))) = Inr net'"
    by (auto simp: bridge_vcs_def nthR_eq_Inr elim!: bindR_InrE)
  show ?thesis
  proof (cases b)
    case None
    with r show ?thesis by (simp add: keeps_clean_def)
  next
    case (Some br)
    with r obtain nl where nl: "nat (br_nLink br) < length (gn_links net)" "nl = gn_links net ! nat (br_nLink br)"
      and net': "net' = net\<lparr>gn_bridges := (gn_bridges net)[nat i := Some (fst (bridge_setVcsPerVnet n (br\<lparr>br_link := base\<rparr>) nl))],
        gn_links := ((gn_links net)[nat i := setVcsPerVnet n base])[nat (br_nLink br) := setVcsPerVnet n nl]\<rparr>"
      by (auto simp: nthR_eq_Inr bridge_setVcsPerVnet_def Let_def elim!: bindR_InrE)
    show ?thesis
    proof (rule keeps_clean_parts)
      assume "links_clean (gn_links net)"
      moreover from this have "link_flits base = []" "link_flits nl = []"
        using nth_mem [OF base(2)] nth_mem [OF nl(1)] base(3) nl(2) by (auto simp: links_clean_def)
      ultimately show "links_clean (gn_links net')" by (simp add: net' links_clean_update)
    qed (simp_all add: net')
  qed
qed

lemma add_node_clean:
  assumes "modR (gn_nis a) i (addNode ins outs) = Inr nis"
  shows "keeps_clean a (a\<lparr>gn_nis := nis\<rparr>)"
proof -
  have "ni_clean ni' = ni_clean ni" if "addNode ins outs ni = Inr ni'" for ni ni'
    using that by (auto simp: addNode_def ni_clean_def elim!: bindR_InrE)
  then have "\<forall>ni \<in> set nis. ni_clean ni" if "\<forall>ni \<in> set (gn_nis a). ni_clean ni"
    using modR_all [OF assms that] by blast
  then show ?thesis by (simp add: keeps_clean_def clean_def)
qed

lemma begin_link_clean: "begin_link ty nl cl vcs net = Inr net' \<Longrightarrow> keeps_clean net net'"
  by (rule keeps_clean_parts) (auto simp: begin_link_def elim!: bindR_InrE dest!: links_clean_set)

interpretation clean_wiring: wiring keeps_clean
proof (unfold_locales, goal_cases)
  case (1 a)
  show ?case by (simp add: keeps_clean_def)
next
  case (2 a b c)
  then show ?case by (simp add: keeps_clean_def)
next
  case 3
  then show ?case by (rule on_router_clean) (rule addInPort_clean)
next
  case 4
  then show ?case by (rule on_router_clean) (rule addOutPort_clean)
next
  case 5
  then show ?case by (rule on_ni_clean) (rule ni_addInPort_clean)
next
  case 6
  then show ?case by (rule on_ni_clean) (rule ni_addOutPort_clean)
next
  case (8 a en br)
  show ?case by (rule keeps_clean_parts) (simp_all add: record_bridge_def)
next
  case (11 a b)
  then show ?case by (intro keeps_clean_parts) (auto simp: set_grid_def Let_def elim!: guardR_InrE split: if_splits)
qed (fact bridge_vcs_clean begin_link_clean add_node_clean)+

lemma new_network_clean:
  assumes "blank_parts routers nis links"
  shows "clean (GarnetNetwork_new nw cfg en m g file now period routers nis links bridges ints exts)"
proof -
  have "r_clean r" if "r \<in> set routers" for r
    using assms that by (fastforce simp: blank_parts_def Router_new_def CrossbarSwitch_new_def Let_def r_clean_def)
  moreover have "ni_clean ni" if "ni \<in> set nis" for ni
    using assms that by (fastforce simp: blank_parts_def NetworkInterface_new_def ni_clean_def)
  moreover have "links_clean links"
    using assms by (fastforce simp: blank_parts_def NetworkLink_new_def links_clean_def flitBuffer_new_def)
  ultimately show ?thesis by (simp add: clean_def GarnetNetwork_new_def scheduleWakeupAbsolute_def)
qed

lemma init_routers_clean:
  assumes "clean net"
  shows "clean (init_routers net)"
proof -
  have "r_clean (Router_init r)" if "r_clean r" for r
  proof -
    have "fb_buffer b = []" if "b \<in> set (r_switch_buffers (Router_init r))" for b
      using that \<open>r_clean r\<close>
      by (auto simp: Router_init_def CrossbarSwitch_init_def r_clean_def flitBuffer_new_def dest!: in_set_takeD)
    with that show ?thesis by (simp add: r_clean_def Router_init_def)
  qed
  with assms show ?thesis by (simp add: clean_def init_routers_def)
qed

lemma init_clean:
  assumes "GarnetNetwork_init mt (GarnetNetwork_new nw cfg en m g file now period routers nis links bridges ints exts)
      = Some (Inr net)"
    and "blank_parts routers nis links"
  shows "clean (init_routers net)"
  using clean_wiring.init [OF assms(1)] new_network_clean [OF assms(2)] init_routers_clean unfolding keeps_clean_def by blast

section \<open>No sender overruns a buffer\<close>

text \<open>
  C1: In a network built by \<open>init\<close>, whatever its topology, and on every run of the driver, the
  routers and their output ports, the interfaces and the links, the places of a virtual channel of a credit loop are
  conserved: credits at the senders, flits on the way, flits in buffers and credits on the way back
  together are always the credits the senders started with. So no virtual channel of an input
  port, and no stall queue of an interface, ever holds more flits than that.
\<close>

theorem no_buffer_overrun:
  assumes "GarnetNetwork_init mt (GarnetNetwork_new nw cfg True m g file now period routers nis links bridges ints exts)
      = Some (Inr net0)"
    and "blank_parts routers nis links" "credit_loop P (net_wires (init_routers net0))"
    and "(net_step mt' rs msgs)\<^sup>*\<^sup>* (init_routers net0) net" "0 \<le> w"
  shows "net_tokens P w net = loop_credits P w (init_routers net0) \<and>
    (\<forall>r \<in> set (gn_routers net). \<forall>iu \<in> set (r_input_unit r). iu_in_link iu \<in> P \<and> w < int (length (iu_virtualChannels iu)) \<longrightarrow>
      int (length (vc_flits (iu_virtualChannels iu ! nat w))) \<le> loop_credits P w (init_routers net0)) \<and>
    (\<forall>ni \<in> set (gn_nis net). \<forall>p \<in> set (ni_inPorts ni). ip_inNetLink p \<in> P \<longrightarrow>
      flits_on w (ip_stall_queue p) \<le> loop_credits P w (init_routers net0))"
proof -
  let ?net0 = "init_routers net0"
  have clean: "clean ?net0" by (rule init_clean [OF assms(1,2)])
  have "conserves P w ?net0 net"
    by (rule run_conserves [OF assms(4) init_fresh [OF assms(1,2)] clean_good [OF clean] assms(3)])
  then have t: "net_tokens P w net = loop_credits P w ?net0" and g: "net_good net"
    using clean_good [OF clean] clean_tokens [OF clean] by (simp_all add: conserves_def)
  show ?thesis unfolding t [symmetric]
    by (intro conjI ballI impI) (use buffers_bounded [OF g assms(5)] in blast)+
qed

text \<open>
  The star network of two interfaces, with one place per virtual channel: links 0 and 1 are the
  loop from interface 0 to the router. When packet 0 has passed the router its credit waits there,
  and the interface has none.
\<close>

lemma star_loop:
  "case star_network of Inl e \<Rightarrow> False | Inr (nw, net) \<Rightarrow>
    credit_loop {0, 1} (net_wires (init_routers net)) \<and> loop_credits {0, 1} 0 (init_routers net) = 1"
  by code_simp

lemma star_run_credits:
  "case star_run 5 of Inl e \<Rightarrow> False | Inr net \<Rightarrow>
    map (\<lambda>ni. map ovc_credit_count (ni_outVcState ni)) (gn_nis net) = [[0, 1], [1, 1]] \<and>
    map (\<lambda>r. map (\<lambda>iu. map fl_vc (fb_buffer (iu_creditQueue iu))) (r_input_unit r)) (gn_routers net) = [[[0], []]]"
  by code_simp

lemma no_buffer_overrun_witness:
  "\<exists>nw net0 net. GarnetNetwork_init pair_machines (pair_new 1 nw) = Some (Inr net0) \<and> star_run 5 = Inr net \<and>
    map (\<lambda>ni. map ovc_credit_count (ni_outVcState ni)) (gn_nis net) = [[0, 1], [1, 1]] \<and>
    net_tokens {0, 1} 0 net = 1"
proof -
  from star_run_credits obtain net where net: "star_run 5 = Inr net"
    "map (\<lambda>ni. map ovc_credit_count (ni_outVcState ni)) (gn_nis net) = [[0, 1], [1, 1]]" by (auto split: sum.splits)
  obtain nw net0 where i: "star_network = Inr (nw, net0)" "link_ends net0 = star_ends"
    "GarnetNetwork_init pair_machines (pair_new 1 nw) = Some (Inr net0)" by (rule star_init)
  have "foldR (perform pair_machines example_flags) (take 5 star_events) (init_routers net0) = Inr net"
    using net(1) unfolding star_run_def i(1) bindR_def sum.case prod.case .
  then have run: "(net_step pair_machines example_flags (\<lambda>_. None))\<^sup>*\<^sup>* (init_routers net0) net" by (rule perform_run)
  have loop: "credit_loop {0, 1} (net_wires (init_routers net0))" "loop_credits {0, 1} 0 (init_routers net0) = 1"
    using star_loop unfolding i(1) sum.case prod.case by blast+
  from no_buffer_overrun [OF i(3) [unfolded pair_new_def] pair_blank loop(1) run, of 0] loop(2)
  have "net_tokens {0, 1} 0 net = 1" by simp
  with i(3) net show ?thesis by (intro exI conjI)
qed

end
