(* ===== verification/RouterData.thy ===== *)
theory RouterData
  imports ChannelCredits LinkData
begin

text \<open>
  A router never mixes flits and credits: if its channels, its switch and its output queues hold
  flits only, and the links of its input ports carry flits, then this stays so.
\<close>

section \<open>Where a router holds flits\<close>

definition iu_data :: "InputUnit \<Rightarrow> bool" where
  "iu_data iu \<longleftrightarrow> (\<forall>v \<in> set (iu_virtualChannels iu). all_data (vc_flits v))"

definition r_data :: "Router \<Rightarrow> bool" where
  "r_data r \<longleftrightarrow> (\<forall>iu \<in> set (r_input_unit r). iu_data iu) \<and> (\<forall>b \<in> set (r_switch_buffers r). all_data (fb_buffer b)) \<and>
    (\<forall>ou \<in> set (r_output_unit r). all_data (fb_buffer (ou_outBuffer ou)))"

text \<open>The wires of input ports, the first of each for flits, and the sources of the links.\<close>

definition flit_ports :: "queue_ref option list \<Rightarrow> (int \<times> int) list \<Rightarrow> bool" where
  "flit_ports qs ports \<longleftrightarrow> (\<forall>(a, b) \<in> set ports. nat a < length qs \<longrightarrow> \<not> credit_source (qs ! nat a))"

lemma flit_ports_data:
  assumes "flit_ports (sources links) ports" "(a, b) \<in> set ports" "links_data links" "nat a < length links"
  shows "all_data (link_flits (links ! nat a))"
  using assms by (intro links_data_nth) (auto simp: flit_ports_def)

definition pure :: "Router \<Rightarrow> bool" where
  "pure r \<longleftrightarrow> r_data r \<and> links_data (r_links r) \<and> flit_ports (sources (r_links r)) (fst (r_wires r))"

lemma pure_step:
  assumes "keeps {} 0 r r'" "pure r" "r_data r'" "drained (r_links r) (r_links r')"
  shows "pure r'"
  using assms links_data_drained unfolding pure_def keeps_def by metis

section \<open>Input ports\<close>

lemma iu_mod_vc_data:
  assumes "iu_mod_vc vc g iu = Inr iu'" "iu_data iu" "\<And>v. all_data (vc_flits v) \<Longrightarrow> all_data (vc_flits (g v))"
  shows "iu_data iu'"
proof -
  from assms(1) have vc: "nat vc < length (iu_virtualChannels iu)"
    and iu': "iu' = iu\<lparr>iu_virtualChannels := (iu_virtualChannels iu)[nat vc := g (iu_virtualChannels iu ! nat vc)]\<rparr>"
    by (auto simp: iu_mod_vc_eq)
  from assms(2) have vs: "\<forall>v \<in> set (iu_virtualChannels iu). all_data (vc_flits v)" by (simp add: iu_data_def)
  then have "all_data (vc_flits (g (iu_virtualChannels iu ! nat vc)))" using vc by (intro assms(3)) simp
  from all_update [OF vs this] show ?thesis by (simp add: iu' iu_data_def)
qed

lemma accept_flit_data:
  assumes "accept_flit cfg rp now rnd f iu ru = Inr (iu', ru')" "iu_data iu"
  shows "iu_data iu'"
proof -
  from assms(1) have "iu' = iu \<or> (\<exists>iu1 p. set_vc_active (fl_vc f) now iu = Inr iu1 \<and> grant_outport (fl_vc f) p iu1 = Inr iu')"
    unfolding accept_flit_def by (auto elim!: res_elims)
  with assms(2) show ?thesis
    unfolding set_vc_active_def grant_outport_def by (auto elim!: iu_mod_vc_data)
qed

lemma buffer_flit_data:
  assumes "buffer_flit rp now f iu con = Inr (iu', con')" "iu_data iu" "fl_credit f = None"
  shows "iu_data iu'"
proof -
  obtain st t iu1 where m: "iu_mod_vc (fl_vc f) (vc_insertFlit (advance_stage st t f)) iu = Inr iu1"
    and e: "iu_virtualChannels iu' = iu_virtualChannels iu1"
    using assms(1) unfolding buffer_flit_def Let_def
    by (cases "rp_latency rp = 1") (auto elim!: res_elims)
  have "iu_data iu1"
    by (rule iu_mod_vc_data [OF m assms(2)]) (simp add: assms(3) vc_insertFlit_def advance_stage_def)
  with e show ?thesis by (simp add: iu_data_def)
qed

lemma InputUnit_wakeup_data:
  assumes "InputUnit_wakeup cfg rp now rnd (iu, ru, con, links) = Inr (iu', ru', con', links')" "iu_data iu"
    "nat (iu_in_link iu) < length links \<Longrightarrow> all_data (link_flits (links ! nat (iu_in_link iu)))"
  shows "iu_data iu' \<and> drained links links'"
  using assms(1)
proof (cases rule: InputUnit_wakeupE)
  case idle
  with assms(2) show ?thesis by (simp add: same_links_eqs(1))
next
  case (taken f l con2 iu1)
  have n: "nthR links (iu_in_link iu) = Inr (links ! nat (iu_in_link iu))" using taken(1,2) by (simp add: nthR_eq_Inr)
  note t = consume_links [OF n taken(4)]
  have "fl_credit f = None" using assms(3) t(3,4) by (auto simp: all_data_def)
  then have "fl_credit (increment_hops f) = None" by (simp add: increment_hops_def)
  with buffer_flit_data [OF taken(7) accept_flit_data [OF taken(6) assms(2)]] t(1) show ?thesis by (simp add: taken(9))
qed

lemma put_iu_data:
  assumes "r_data r" "iu_data iu"
  shows "r_data (put_iu i iu r)"
  using assms all_update [of "r_input_unit r" iu_data iu "nat i"] by (simp add: r_data_def put_iu_def)

lemma put_ou_data:
  assumes "r_data r" "all_data (fb_buffer (ou_outBuffer ou))"
  shows "r_data (put_ou i ou r)"
  using assms all_update [of "r_output_unit r" "\<lambda>ou. all_data (fb_buffer (ou_outBuffer ou))" ou "nat i"]
  by (simp add: r_data_def put_ou_def)

lemma inport_step_pure:
  assumes "inport_step cfg now rnd i r = Inr r'" "pure r"
  shows "pure r'"
proof -
  from assms(1) obtain iu ru con links where i: "0 \<le> i" "i < int (length (r_input_unit r))"
    and u: "InputUnit_wakeup cfg (r_params r) now (rnd i)
      (r_input_unit r ! nat i, r_routingUnit r, r_consumer r, r_links r) = Inr (iu, ru, con, links)"
    and r': "r' = (put_iu i iu r)\<lparr>r_routingUnit := ru, r_consumer := con, r_links := links\<rparr>"
    unfolding inport_step_def by (auto elim!: bindR_InrE simp: nthR_eq_Inr)
  let ?iu = "r_input_unit r ! nat i"
  from i have m: "?iu \<in> set (r_input_unit r)" by simp
  from assms(2) have d: "r_data r" and ld: "links_data (r_links r)" and fp: "flit_ports (sources (r_links r)) (fst (r_wires r))"
    by (simp_all add: pure_def)
  have "iu_wires ?iu \<in> set (fst (r_wires r))" using m by (simp add: r_wires_def)
  then have w: "(iu_in_link ?iu, iu_credit_link ?iu) \<in> set (fst (r_wires r))" by (simp add: iu_wires_def)
  have "iu_data ?iu" using d m by (simp add: r_data_def)
  from InputUnit_wakeup_data [OF u this flit_ports_data [OF fp w ld]]
  have a: "iu_data iu" "drained (r_links r) links" by simp_all
  show ?thesis
  proof (rule pure_step [OF inport_step_keeps [OF assms(1)] assms(2)])
    show "r_data r'" using put_iu_data [OF d a(1), of i] by (simp add: r' r_data_def)
    show "drained (r_links r) (r_links r')" using a(2) by (simp add: r')
  qed
qed

section \<open>Output ports\<close>

lemma receive_credit_buffer: "receive_credit now c ou = Inr ou' \<Longrightarrow> ou_outBuffer ou' = ou_outBuffer ou"
  by (auto simp: receive_credit_def ou_increment_credit_def set_vc_state_def elim!: bindR_InrE guardR_InrE if_InrE)

lemma OutputUnit_wakeup_data:
  assumes "OutputUnit_wakeup now (ou, links) = Inr (ou', links')"
  shows "ou_outBuffer ou' = ou_outBuffer ou \<and> drained links links'"
  using assms
proof (cases rule: OutputUnit_wakeupE)
  case idle
  then show ?thesis by (simp add: same_links_eqs(1))
next
  case (credit c l ou2)
  have n: "nthR links (ou_credit_link ou) = Inr (links ! nat (ou_credit_link ou))" using credit(1,2) by (simp add: nthR_eq_Inr)
  from consume_links(1) [OF n credit(3)] receive_credit_buffer [OF credit(4)] show ?thesis by (simp add: credit(5,6))
qed

lemma outport_step_pure:
  assumes "outport_step now i r = Inr r'" "pure r"
  shows "pure r'"
proof -
  from assms(1) obtain ou links where i: "0 \<le> i" "i < int (length (r_output_unit r))"
    and u: "OutputUnit_wakeup now (r_output_unit r ! nat i, r_links r) = Inr (ou, links)"
    and r': "r' = (put_ou i ou r)\<lparr>r_links := links\<rparr>"
    unfolding outport_step_def by (auto elim!: bindR_InrE simp: nthR_eq_Inr)
  note t = OutputUnit_wakeup_data [OF u]
  from assms(2) have d: "r_data r" by (simp add: pure_def)
  then have "all_data (fb_buffer (ou_outBuffer ou))" using t i by (simp add: r_data_def)
  from put_ou_data [OF d this, of i] have "r_data r'" by (simp add: r' r_data_def)
  with t show ?thesis by (intro pure_step [OF outport_step_keeps [OF assms(1)] assms(2)]) (simp_all add: r')
qed

section \<open>The switch\<close>

lemma grant_outvc_data: "grant_outvc vc p iu = Inr iu' \<Longrightarrow> iu_data iu \<Longrightarrow> iu_data iu'"
  unfolding grant_outvc_def by (erule iu_mod_vc_data) simp_all

lemma vc_allocate_pure:
  assumes "vc_allocate now outport inport invc r = Inr (outvc, r')" "pure r"
  shows "pure r'"
  using assms(1)
proof (cases rule: vc_allocateE)
  case (1 iu' vs)
  let ?ou = "(r_output_unit r ! nat outport)\<lparr>ou_outVcState := vs\<rparr>"
  from assms(2) have d: "r_data r" by (simp add: pure_def)
  have "iu_data (r_input_unit r ! nat inport)" "all_data (fb_buffer (ou_outBuffer ?ou))"
    using d 1(1-4) by (simp_all add: r_data_def)
  with d have "r_data r'" unfolding 1(6) by (intro put_iu_data put_ou_data grant_outvc_data [OF 1(5)])
  moreover have "r_links r' = r_links r" by (simp add: 1(6) put_iu_def put_ou_def)
  ultimately show ?thesis
    by (intro pure_step [OF vc_allocate_keeps [OF assms(1)] assms(2)]) (simp_all add: same_links_eqs(1))
qed

lemma release_vc_data:
  assumes "release_vc cfg now f invc con (iu, links) = Inr (iu', links')" "iu_data iu"
  shows "iu_data iu' \<and> drained links links'"
proof -
  have inc: "iu_data iu' \<and> drained links links'"
    if "iu_increment_credit cfg now invc b now con (iu, links) = Inr (iu', links')" "iu_data iu" for iu b
    using that schedule_same_links same_links_eqs(1) unfolding iu_increment_credit_def
    by (fastforce simp: Let_def iu_data_def elim!: bindR_InrE)
  show ?thesis
  proof (cases "is_tail f")
    case True
    with assms(1) obtain iu1 where i: "set_vc_idle invc now iu = Inr iu1"
        "iu_increment_credit cfg now invc True now con (iu1, links) = Inr (iu', links')"
      unfolding release_vc_def by (auto elim!: bindR_InrE guardR_InrE)
    have "iu_data iu1"
      using i(1) assms(2) unfolding set_vc_idle_def by (rule iu_mod_vc_data) simp
    with inc [OF i(2)] show ?thesis by blast
  next
    case False
    with assms inc show ?thesis unfolding release_vc_def by simp
  qed
qed

lemma paired_none: "paired {} ws"
  by (cases ws) (auto simp: paired_def both_def list_all_iff)

lemma send_winner_pure:
  assumes "send_winner cfg now outport inport invc outvc r = Inr r'" "pure r"
  shows "pure r'"
  using assms(1)
proof (cases rule: send_winnerE)
  case (1 f iu1 ou1 xb iu2 links)
  let ?iu = "r_input_unit r ! nat inport" and ?ou = "r_output_unit r ! nat outport"
  from assms(2) have d: "r_data r" by (simp add: pure_def)
  then have iu: "iu_data ?iu" and ou: "all_data (fb_buffer (ou_outBuffer ?ou))" and sb: "\<forall>b \<in> set (r_switch_buffers r). all_data (fb_buffer b)"
    using 1(1-4) by (simp_all add: r_data_def)
  obtain v where v: "0 \<le> invc" "invc < int (length (iu_virtualChannels ?iu))"
      "vc_flits (iu_virtualChannels ?iu ! nat invc) = f # vc_flits v"
      "iu1 = ?iu\<lparr>iu_virtualChannels := (iu_virtualChannels ?iu)[nat invc := v]\<rparr>"
    using 1(5) by (rule iu_getTopFlitE)
  from iu have vs: "\<forall>v \<in> set (iu_virtualChannels ?iu). all_data (vc_flits v)" by (simp add: iu_data_def)
  then have "all_data (vc_flits (iu_virtualChannels ?iu ! nat invc))" using v(1,2) by simp
  then have f: "fl_credit f = None" and "all_data (vc_flits v)" by (simp_all add: v(3))
  from all_update [OF vs this(2)] have "iu_data iu1" by (simp add: v(4) iu_data_def)
  note i2 = release_vc_data [OF 1(8) this]
  have ou1: "ou_outBuffer ou1 = ou_outBuffer ?ou"
    using 1(6) unfolding ou_decrement_credit_def by (auto elim!: bindR_InrE)
  let ?f = "advance_stage ST_STAGE now (f\<lparr>fl_outport := outport, fl_vc := outvc\<rparr>)"
  from 1(7) have n: "nat inport < length (r_switch_buffers r)"
    and xb: "xb_switchBuffers xb = (r_switch_buffers r)[nat inport := fb_insert ?f (r_switch_buffers r ! nat inport)]"
    unfolding update_sw_winner_def by (auto elim!: bindR_InrE simp: modR_eq_Inr)
  have "all_data (fb_buffer (fb_insert ?f (r_switch_buffers r ! nat inport)))"
    using sb n f by (simp add: advance_stage_def)
  from all_update [OF sb this] have "r_data (r\<lparr>r_crossbarSwitch := xb, r_links := links\<rparr>)"
    using d by (simp add: r_data_def xb)
  then have "r_data r'" unfolding 1(9) using i2 ou ou1 by (intro put_iu_data put_ou_data) simp_all
  moreover have "r_links r' = links" by (simp add: 1(9) put_iu_def put_ou_def)
  ultimately show ?thesis
    using i2 by (intro pure_step [OF send_winner_keeps [OF assms(1) paired_none] assms(2)]) simp_all
qed

lemma pure_other [simp]:
  "pure (r\<lparr>r_switchAllocator := sa\<rparr>) = pure r" "pure (r\<lparr>r_consumer := con\<rparr>) = pure r"
  by (simp_all add: pure_def r_data_def r_wires_def)

lemma sa_grant_pure:
  assumes "sa_grant cfg now outport inport r = Inr r'" "pure r"
  shows "pure r'"
  using assms(1)
proof (cases rule: sa_grantE)
  case (1 invc outvc r1 r2 sa)
  have "pure r1" using 1(4) assms(2) vc_allocate_pure by blast
  from send_winner_pure [OF 1(5) this] show ?thesis by (simp add: 1(7))
qed

lemma SwitchAllocator_wakeup_pure:
  assumes "SwitchAllocator_wakeup cfg now r = Inr r'" "pure r"
  shows "pure r'"
  using assms(1)
proof (cases rule: SwitchAllocator_wakeupE)
  case (1 sa r2 con)
  have "pure r2"
    by (rule arbitrate_outports_invariant [OF 1(2), where P = "\<lambda>p s. pure s"]) (use assms(2) sa_grant_pure in auto)
  with 1(4) show ?thesis by (simp add: clear_request_vector_def Let_def)
qed

lemma switch_traversal_data:
  assumes "switch_traversal now con i (xb, ous, links) = Inr (xb', ous', links')"
    and "\<forall>b \<in> set (xb_switchBuffers xb). all_data (fb_buffer b)" "\<forall>ou \<in> set ous. all_data (fb_buffer (ou_outBuffer ou))"
  shows "(\<forall>b \<in> set (xb_switchBuffers xb'). all_data (fb_buffer b)) \<and> (\<forall>ou \<in> set ous'. all_data (fb_buffer (ou_outBuffer ou))) \<and>
    drained links links'"
  using assms(1)
proof (cases rule: switch_traversalE)
  case stay
  with assms(2,3) show ?thesis by (simp add: same_links_eqs(1))
next
  case (move f fs t ou ou' b)
  have b: "all_data (fb_buffer b)" using assms(2) move(1-3) by simp
  have ou: "all_data (fb_buffer (ou_outBuffer ou))" using assms(3) move(8-10) by simp
  from move(11) have l: "drained links links'" and e: "ou_outBuffer ou' = fb_insert ((advance_stage LT_STAGE t f)\<lparr>fl_time := t\<rparr>) (ou_outBuffer ou)"
    unfolding insert_flit_def by (auto elim!: bindR_InrE dest!: schedule_same_links same_links_eqs(1))
  have "all_data (fb_buffer (b\<lparr>fb_buffer := fs\<rparr>))" "all_data (fb_buffer (ou_outBuffer ou'))"
    using b ou by (simp_all add: move(4) e advance_stage_def)
  from all_update [OF assms(2) this(1)] all_update [where Q = "\<lambda>ou. all_data (fb_buffer (ou_outBuffer ou))", OF assms(3) this(2)] l
  show ?thesis by (simp add: move(12,13))
qed

lemma crossbar_step_pure:
  assumes "crossbar_step now r = Inr r'" "pure r"
  shows "pure r'"
proof -
  from assms(1) obtain xb ous links where
    c: "CrossbarSwitch_wakeup now (r_consumer r) (r_crossbarSwitch r, r_output_unit r, r_links r) = Inr (xb, ous, links)"
    and r': "r' = r\<lparr>r_crossbarSwitch := xb, r_output_unit := ous, r_links := links\<rparr>"
    unfolding crossbar_step_def by (auto elim!: bindR_InrE)
  let ?P = "\<lambda>(xb', ous', links'). (\<forall>b \<in> set (xb_switchBuffers xb'). all_data (fb_buffer b)) \<and>
    (\<forall>ou \<in> set ous'. all_data (fb_buffer (ou_outBuffer ou))) \<and> drained (r_links r) links'"
  from assms(2) have d: "r_data r" by (simp add: pure_def)
  have "?P (xb, ous, links)"
  proof (rule foldR_invariant [OF c [unfolded CrossbarSwitch_wakeup_def]])
    show "?P (r_crossbarSwitch r, r_output_unit r, r_links r)" using d by (simp add: r_data_def same_links_eqs(1))
  next
    fix j s s'
    assume I: "?P s" and step: "switch_traversal now (r_consumer r) j s = Inr s'"
    obtain xb1 ous1 l1 where s: "s = (xb1, ous1, l1)" by (cases s)
    obtain xb2 ous2 l2 where s': "s' = (xb2, ous2, l2)" by (cases s')
    from I have I1: "\<forall>b \<in> set (xb_switchBuffers xb1). all_data (fb_buffer b)" "\<forall>ou \<in> set ous1. all_data (fb_buffer (ou_outBuffer ou))"
      "drained (r_links r) l1" by (simp_all add: s)
    from switch_traversal_data [OF step [unfolded s s'] I1(1,2)] drained_trans [OF I1(3)] show "?P s'" by (simp add: s')
  qed
  with d have "r_data r'" "drained (r_links r) (r_links r')" by (simp_all add: r' r_data_def)
  then show ?thesis by (rule pure_step [OF crossbar_step_keeps [OF assms(1)] assms(2)])
qed

lemma Router_wakeup_pure:
  assumes "Router_wakeup cfg now rnd r = Inr r'" "pure r"
  shows "pure r'"
  using assms(1)
proof (cases rule: Router_wakeupE)
  case (1 r1 r2 r3)
  have "pure r1" by (rule foldR_invariant [OF 1(2), where P = pure]) (use assms(2) inport_step_pure in blast)+
  then have "pure r2" by (intro foldR_invariant [OF 1(3), where P = pure]) (use outport_step_pure in blast)+
  with SwitchAllocator_wakeup_pure [OF 1(4)] crossbar_step_pure [OF 1(5)] show ?thesis by blast
qed

end
