(* ===== verification/NetworkFlits.thy ===== *)
theory NetworkFlits
  imports CreditStart RouterData
begin

text \<open>
  The account of the flits of a run, from the start: flits and credits are objects of the same
  class, and a network whose wiring keeps them apart at first keeps them apart for ever. Therefore
  the flits that interfaces deliver are flits of the trace, and the counters of the statistics count
  exactly these.
\<close>

section \<open>Flits and credits stay apart\<close>

text \<open>The links that input ports of routers and interfaces take flits from do not carry credits.\<close>

definition flit_wiring :: "net_wires \<Rightarrow> bool" where
  "flit_wiring = (\<lambda>(rs, ns, qs). (\<forall>ws \<in> set rs. flit_ports qs (fst ws)) \<and> (\<forall>ws \<in> set ns. flit_ports qs (fst ws)))"

text \<open>Every place for flits holds flits only.\<close>

definition apart :: "'r GarnetNetwork \<Rightarrow> bool" where
  "apart net \<longleftrightarrow> (\<forall>r \<in> set (gn_routers net). r_data r) \<and> (\<forall>ni \<in> set (gn_nis net). ni_data ni) \<and> links_data (gn_links net)"

lemma router_ports:
  "flit_wiring (net_wires net) \<Longrightarrow> r \<in> set (gn_routers net) \<Longrightarrow> flit_ports (sources (gn_links net)) (fst (r_wires r))"
  by (auto simp: flit_wiring_def net_wires_def)

lemma interface_fed:
  assumes "flit_wiring (net_wires net)" "links_data (gn_links net)" "ni \<in> set (gn_nis net)"
  shows "fed_data ni (gn_links net)"
proof -
  have fp: "flit_ports (sources (gn_links net)) (fst (ni_wires ni))"
    using assms(1,3) by (auto simp: flit_wiring_def net_wires_def)
  have "(ip_inNetLink p, ip_outCreditLink p) \<in> set (fst (ni_wires ni))" if "p \<in> set (ni_inPorts ni)" for p
  proof -
    have "ip_wires p \<in> set (fst (ni_wires ni))" using that by (simp add: ni_wires_def)
    then show ?thesis by (simp add: ip_wires_def)
  qed
  with flit_ports_data [OF fp _ assms(2)] show ?thesis unfolding fed_data_def by auto
qed

lemma on_router_apart:
  assumes "on_router i f net = Inr net'" "apart net" "flit_wiring (net_wires net)"
    and step: "\<And>r r'. f r = Inr r' \<Longrightarrow> pure r \<Longrightarrow> pure r'"
  shows "apart net'"
proof -
  let ?r = "gn_routers net ! nat i"
  from assms(1) obtain r' where i: "nat i < length (gn_routers net)"
    and r': "f (?r\<lparr>r_links := gn_links net\<rparr>) = Inr r'"
    and net': "net' = net\<lparr>gn_routers := (gn_routers net)[nat i := r'], gn_links := r_links r'\<rparr>"
    by (auto simp: on_router_def nthR_eq_Inr elim!: bindR_InrE)
  from assms(2) have d: "\<forall>r \<in> set (gn_routers net). r_data r" "links_data (gn_links net)" by (simp_all add: apart_def)
  have "flit_ports (sources (gn_links net)) (fst (r_wires ?r))" by (rule router_ports [OF assms(3)]) (simp add: i)
  moreover have "r_data ?r" using d(1) i by simp
  ultimately have "pure (?r\<lparr>r_links := gn_links net\<rparr>)" using d(2) by (simp add: pure_def r_data_def r_wires_def)
  from step [OF r' this] have "r_data r'" "links_data (r_links r')" by (simp_all add: pure_def)
  with all_update [OF d(1)] assms(2) show ?thesis by (simp add: apart_def net')
qed

text \<open>The queue that a link for flits reads from holds flits.\<close>

lemma source_queue_data:
  assumes "source_queue q net = Inr b" "\<not> is_bridge q" "\<not> credit_source (Some q)" "apart net"
  shows "all_data (fb_buffer b)"
proof (cases q)
  case (Router_out r p)
  with assms(1) have r: "r < length (gn_routers net)" and p: "p < length (r_output_unit (gn_routers net ! r))"
    and b: "b = ou_outBuffer (r_output_unit (gn_routers net ! r) ! p)" by (auto simp: source_queue_def nthR_eq_Inr elim!: bindR_InrE)
  have "r_data (gn_routers net ! r)" using assms(4) r by (simp add: apart_def)
  with p show ?thesis by (simp add: r_data_def b)
next
  case (NI_out n p)
  with assms(1) have n: "n < length (gn_nis net)" and p: "p < length (ni_outPorts (gn_nis net ! n))"
    and b: "b = op_outFlitQueue (ni_outPorts (gn_nis net ! n) ! p)" by (auto simp: source_queue_def nthR_eq_Inr elim!: bindR_InrE)
  have "ni_data (gn_nis net ! n)" using assms(4) n by (simp add: apart_def)
  with p show ?thesis by (simp add: ni_data_def b)
qed (use assms(2,3) in \<open>simp_all add: is_bridge_def\<close>)

lemma put_source_apart:
  assumes "source_queue q net = Inr old" "\<not> is_bridge q" "\<not> credit_source (Some q) \<Longrightarrow> all_data (fb_buffer b)" "apart net"
  shows "apart (put_source q b net)"
proof -
  from assms(4) have rs: "\<forall>r \<in> set (gn_routers net). r_data r" and ns: "\<forall>ni \<in> set (gn_nis net). ni_data ni"
    and ls: "links_data (gn_links net)" by (simp_all add: apart_def)
  show ?thesis
  proof (cases q)
    case (Router_out r p)
    let ?x = "gn_routers net ! r"
    let ?Y = "(r_output_unit ?x ! p)\<lparr>ou_outBuffer := b\<rparr>"
    from assms(1) Router_out have r: "r < length (gn_routers net)" by (auto simp: source_queue_def nthR_eq_Inr elim!: bindR_InrE)
    have "r_data (put_ou (int p) ?Y ?x)" using rs r assms(3) Router_out by (intro put_ou_data) simp_all
    from all_update [OF rs this, of r] ns ls show ?thesis by (simp add: apart_def Router_out put_source_def Let_def put_ou_def)
  next
    case (Router_credit r p)
    let ?x = "gn_routers net ! r"
    let ?Y = "(r_input_unit ?x ! p)\<lparr>iu_creditQueue := b\<rparr>"
    from assms(1) Router_credit have r: "r < length (gn_routers net)" and p: "p < length (r_input_unit ?x)"
      by (auto simp: source_queue_def nthR_eq_Inr elim!: bindR_InrE)
    have x: "r_data ?x" using rs r by simp
    then have "iu_data (r_input_unit ?x ! p)" using p by (simp add: r_data_def)
    then have "r_data (put_iu (int p) ?Y ?x)" using x by (intro put_iu_data) (simp_all add: iu_data_def)
    from all_update [OF rs this, of r] ns ls show ?thesis by (simp add: apart_def Router_credit put_source_def Let_def put_iu_def)
  next
    case (NI_out n p)
    let ?x = "gn_nis net ! n"
    let ?Y = "(ni_outPorts ?x ! p)\<lparr>op_outFlitQueue := b\<rparr>"
    from assms(1) NI_out have n: "n < length (gn_nis net)" by (auto simp: source_queue_def nthR_eq_Inr elim!: bindR_InrE)
    have x: "ni_data ?x" using ns n by simp
    then have "\<forall>p \<in> set (ni_outPorts ?x). all_data (fb_buffer (op_outFlitQueue p))" by (simp add: ni_data_def)
    from all_update [OF this, of ?Y p] have "ni_data (?x\<lparr>ni_outPorts := (ni_outPorts ?x)[p := ?Y]\<rparr>)"
      using x assms(3) NI_out by (simp add: ni_data_def)
    from all_update [OF ns this, of n] rs ls show ?thesis by (simp add: apart_def NI_out put_source_def Let_def)
  next
    case (NI_credit n p)
    let ?x = "gn_nis net ! n"
    let ?Y = "(ni_inPorts ?x ! p)\<lparr>ip_outCreditQueue := b\<rparr>"
    from assms(1) NI_credit have n: "n < length (gn_nis net)" and p: "p < length (ni_inPorts ?x)"
      by (auto simp: source_queue_def nthR_eq_Inr elim!: bindR_InrE)
    have x: "ni_data ?x" using ns n by simp
    then have ps: "\<forall>p \<in> set (ni_inPorts ?x). all_data (ip_stall_queue p)" by (simp add: ni_data_def)
    have "all_data (ip_stall_queue ?Y)" using ps p by simp
    from all_update [OF ps this, of p] have "ni_data (?x\<lparr>ni_inPorts := (ni_inPorts ?x)[p := ?Y]\<rparr>)"
      using x by (simp add: ni_data_def)
    from all_update [OF ns this, of n] rs ls show ?thesis by (simp add: apart_def NI_credit put_source_def Let_def)
  qed (use assms(2) in \<open>simp add: is_bridge_def\<close>)
qed

lemma link_wakeup_data:
  assumes "link_wakeup now (Some src) l = Inr (src', l', reqs)" "all_data (fb_buffer src)" "all_data (link_flits l)"
  shows "all_data (fb_buffer src') \<and> all_data (link_flits l')"
proof (cases "fb_isReady now src")
  case True
  with assms(1) obtain f l1 where *: "fb_getTopFlit src = Inr (f, src')" "link_transfer now f l = Inr (l1, reqs)"
      "link_flits l' = link_flits l1"
    unfolding link_wakeup_def by (auto elim!: res_elims simp: link_scheduleEvent_def)
  with link_transfer_eq [OF *(2)] assms(2,3) show ?thesis by (auto simp: fb_getTopFlit_eq)
next
  case False
  with assms show ?thesis unfolding link_wakeup_def by (auto elim!: res_elims simp: link_scheduleEvent_def)
qed

lemma link_event_apart:
  assumes "link_event now i net = Inr (net', reqs)" "apart net"
    and "\<And>q. lk_srcQueue (gn_links net ! i) = Some q \<Longrightarrow> \<not> is_bridge q"
  shows "apart net'"
  using assms(1)
proof (cases rule: link_eventE)
  case idle
  with assms(2) show ?thesis by simp
next
  case (wakes q src src' l')
  let ?net = "net\<lparr>gn_links := (gn_links net)[i := l']\<rparr>"
  have q: "\<not> is_bridge q" using assms(3) wakes(2) by simp
  have s': "source_queue q ?net = Inr src" using wakes(3) q by (cases q) (simp_all add: source_queue_def is_bridge_def)
  from assms(2) have ls: "links_data (gn_links net)" by (simp add: apart_def)
  have src: "lk_srcQueue l' = Some q" using link_wakeup_tokens [OF wakes(4)] wakes(2) by simp
  have d: "all_data (fb_buffer src') \<and> all_data (link_flits l')" if "\<not> credit_source (Some q)"
  proof -
    have "all_data (fb_buffer src)" by (rule source_queue_data [OF wakes(3) q that assms(2)])
    moreover have "all_data (link_flits (gn_links net ! i))" using links_data_nth [OF ls wakes(1)] wakes(2) that by simp
    ultimately show ?thesis by (rule link_wakeup_data [OF wakes(4)])
  qed
  have "links_data ((gn_links net)[i := l'])"
    unfolding links_data_def length_list_update
  proof (intro allI impI)
    fix j
    assume "j < length (gn_links net)" "\<not> credit_source (lk_srcQueue ((gn_links net)[i := l'] ! j))"
    with d src links_data_nth [OF ls] show "all_data (link_flits ((gn_links net)[i := l'] ! j))"
      by (cases "i = j") auto
  qed
  then have "apart ?net" using assms(2) by (simp add: apart_def)
  then show ?thesis unfolding wakes(5) using d by (intro put_source_apart [OF s' q]) blast+
qed

lemma inject_due_apart:
  assumes "inject_due now net = Inr net'" "apart net"
  shows "apart net'"
proof (cases "tr_valid (gs_trace_next_packet (gn_stats net))")
  case False
  with assms show ?thesis by (simp add: inject_due_def)
next
  case True
  let ?rec = "gs_trace_next_packet (gn_stats net)"
  from assms(1) True obtain nis gs where m: "modR (gn_nis net) (tr_src_id ?rec) (\<lambda>ni. Inr (enqueueTracePacket now ?rec ni)) = Inr nis"
    and net': "net' = net\<lparr>gn_nis := nis, gn_stats := gs\<rparr>"
    by (auto simp: inject_due_def Let_def elim!: guardR_InrE bindR_InrE)
  have e: "ni_data (enqueueTracePacket now ?rec ni) = ni_data ni" for ni
    by (simp add: enqueueTracePacket_def ni_scheduleEvent_def ni_data_def)
  have "\<forall>ni \<in> set (gn_nis net). ni_data ni" using assms(2) by (simp add: apart_def)
  then have "\<forall>ni \<in> set nis. ni_data ni" using modR_all [OF m] e by auto
  with assms(2) show ?thesis by (simp add: apart_def net')
qed

lemma apart_other [simp]:
  "apart (net\<lparr>gn_tracefile := rest\<rparr>) = apart net" "apart (net\<lparr>gn_consumer := c\<rparr>) = apart net"
  "apart (net\<lparr>gn_stats := gs\<rparr>) = apart net"
  by (simp_all add: apart_def)

lemma next_packet_apart:
  assumes "next_packet line net = Inr (Some net')" "apart net"
  shows "apart net'"
proof -
  from assms(1) have "gn_routers net' = gn_routers net" "gn_nis net' = gn_nis net" "gn_links net' = gn_links net"
    by (auto simp: next_packet_def Let_def split: list.splits elim!: bindR_InrE)
  with assms(2) show ?thesis by (simp add: apart_def)
qed

lemma driver_event_apart:
  assumes "GarnetNetwork_wakeup at_eof now net = Inr net'" "apart net"
  shows "apart net'"
proof -
  let ?R = "\<lambda>a b. apart a \<longrightarrow> apart b"
  have due: "?R a b" if "inject_due now a = Inr b" for now and a b :: "'a GarnetNetwork"
    using inject_due_apart [OF that] by blast
  have rec: "?R a b" if "next_packet line a = Inr (Some b)" for line and a b :: "'a GarnetNetwork"
    using next_packet_apart [OF that] by blast
  have trans: "?R a c" if "?R a b" "?R b c" for a b c :: "'a GarnetNetwork"
    using that by blast
  have "?R net net'"
    by (rule driver_event_rule [where R = ?R, OF trans due rec _ _ _ assms(1)]) simp_all
  with assms(2) show ?thesis by blast
qed

section \<open>The account\<close>

text \<open>What was made and is not in the network has been delivered and counted.\<close>

definition delivered :: "'r GarnetNetwork \<Rightarrow> (int \<times> int) multiset" where
  "delivered net = created 0 (nat (gs_next_packet_id (gn_stats net))) - net_keys net"

definition balanced :: "'r GarnetNetwork \<Rightarrow> bool" where
  "balanced net \<longleftrightarrow> net_keys net \<subseteq># created 0 (nat (gs_next_packet_id (gn_stats net))) \<and>
    received_total (gn_stats net) = size (delivered net)"

lemma balanced_iff:
  "balanced net \<longleftrightarrow> (\<exists>D. net_keys net + D = created 0 (nat (gs_next_packet_id (gn_stats net))) \<and> received_total (gn_stats net) = size D)"
  unfolding balanced_def delivered_def by (metis add_diff_cancel_left' mset_subset_eq_add_left subset_mset.add_diff_inverse)

lemma calm_balanced: "calm net net' \<Longrightarrow> balanced net \<Longrightarrow> balanced net'"
  by (simp add: calm_def balanced_def delivered_def same_ids_def)

lemma all_data_keys: "all_data ds \<Longrightarrow> size (flit_keys ds) = length ds"
  by (simp add: flit_keys_def all_data_def filter_id_conv)

lemma interface_event_balanced:
  assumes "NetworkInterface_wakeup mt rs msgs rt rt' stray now i net = Inr (net', reqs)"
    and "accounted net" "apart net" "flit_wiring (net_wires net)" "balanced net"
  shows "apart net' \<and> balanced net'"
proof -
  let ?k = "gs_next_packet_id (gn_stats net)"
  from assms(2) have a: "gs_trace_enable (gn_stats net)" "0 \<le> ?k" "\<forall>ni \<in> set (gn_nis net). ni_ok ni"
    by (auto simp: accounted_def Let_def)
  from assms(3) have p: "\<forall>ni \<in> set (gn_nis net). ni_data ni" "\<forall>r \<in> set (gn_routers net). r_data r" "links_data (gn_links net)"
    by (simp_all add: apart_def)
  with interface_fed [OF assms(4)] have fed: "\<forall>ni \<in> set (gn_nis net). ni_data ni \<and> fed_data ni (gn_links net)" by blast
  from interface_event_account [OF assms(1) a(1,3)] obtain n ds where
    b: "net_keys net' + flit_keys ds = net_keys net + created ?k n" "gs_next_packet_id (gn_stats net') = ?k + int n"
    "received_total (gn_stats net') = received_total (gn_stats net) + length ds"
    and c: "gn_routers net' = gn_routers net" "drained (gn_links net) (gn_links net')"
      "all_data ds \<and> (\<forall>ni \<in> set (gn_nis net'). ni_data ni)" using fed by blast
  from assms(5) obtain D where D: "net_keys net + D = created 0 (nat ?k)" "received_total (gn_stats net) = size D"
    by (auto simp: balanced_iff)
  have "net_keys net' + (D + flit_keys ds) = net_keys net + D + created ?k n"
    using b(1) by (simp add: ac_simps)
  also have "\<dots> = created 0 (nat (?k + int n))" using a(2) by (simp add: D(1) nat_add_distrib created_add)
  finally have "net_keys net' + (D + flit_keys ds) = created 0 (nat (gs_next_packet_id (gn_stats net')))" by (simp add: b(2))
  moreover have "received_total (gn_stats net') = size (D + flit_keys ds)" using c(3) by (simp add: b(3) D(2) all_data_keys)
  ultimately have "balanced net'" unfolding balanced_iff by blast
  moreover have "apart net'" using c p links_data_drained by (simp add: apart_def)
  ultimately show ?thesis by blast
qed

lemma step_balanced:
  assumes "net_step mt rs msgs net net'" "accounted net" "apart net" "flit_wiring (net_wires net)" "balanced net"
  shows "apart net' \<and> balanced net'"
  using assms(1)
proof (cases rule: net_step.cases)
  case (driver at_eof now)
  from driver_event_apart [OF this] calm_balanced [OF driver_event_calm [OF this]] assms(3,5) show ?thesis by blast
next
  case (router i now rnd)
  from this assms(3,4) have "apart net'" by (rule on_router_apart) (rule Router_wakeup_pure)
  with calm_balanced [OF router_event_calm [OF router] assms(5)] show ?thesis by blast
next
  case (output_unit i now p)
  from this assms(3,4) have "apart net'" by (rule on_router_apart) (rule outport_step_pure)
  with calm_balanced [OF output_unit_event_calm [OF output_unit] assms(5)] show ?thesis by blast
next
  case interface
  from this assms(2-5) show ?thesis by (rule interface_event_balanced)
next
  case (link now i reqs)
  from link_event_apart [OF link(1) assms(3) link(2)] calm_balanced [OF link_event_calm [OF link] assms(5)] show ?thesis by blast
qed

lemma credit_loop_none: "credit_loop {} ws"
  by (cases ws) (auto simp: credit_loop_def list_all_iff paired_none ni_paired_def both_def split: option.splits)

lemma run_balanced:
  assumes "(net_step mt rs msgs)\<^sup>*\<^sup>* net0 net" "fresh net0" "net_good net0" "apart net0" "flit_wiring (net_wires net0)" "balanced net0"
  shows "apart net \<and> balanced net"
  using assms(1)
proof (induction rule: rtranclp_induct)
  case base
  from assms(4,6) show ?case ..
next
  case (step net1 net2)
  have "accounted net1" by (rule run_accounted [OF step(1) fresh_accounted [OF assms(2)]])
  moreover have "net_wires net1 = net_wires net0"
    using run_conserves [OF step(1) assms(2,3) credit_loop_none, of 0] by (simp add: conserves_def)
  ultimately show ?case using step_balanced [OF step(2)] step.IH assms(5) by simp
qed

section \<open>From the start\<close>

lemma clean_apart:
  assumes "clean net"
  shows "apart net"
proof -
  have "r_data r" if "r_clean r" for r
    using that by (auto simp: r_clean_def r_data_def iu_clean_def iu_data_def ou_clean_def)
  moreover have "ni_data ni" if "ni_clean ni" for ni
    using that by (auto simp: ni_clean_def ni_data_def)
  ultimately show ?thesis using assms by (auto simp: clean_def apart_def links_clean_def links_data_def)
qed

lemma fresh_balanced: "fresh net \<Longrightarrow> balanced net"
  by (simp add: fresh_def balanced_def delivered_def)

text \<open>
  C2: In a network built by \<open>init\<close> to replay a trace, whose input ports take flits from links that
  carry no credits, and on every run, whatever the order and the times of the wakeups of the trace
  driver, the interfaces, the routers, their output ports and the links (no link reads from a
  bridge), and however often any of them wakes up: no
  credit ever gets into a place for flits; the flits in the network are flits that were made of the
  trace, none of them twice; and the statistics count as received exactly the flits made so far
  that are no longer in the network. So none is lost, none is made up, none is in two places, and
  none is delivered twice.
\<close>

theorem run_conserves_flits:
  assumes "GarnetNetwork_init mt (GarnetNetwork_new nw cfg True m g file now period routers nis links bridges ints exts)
      = Some (Inr net0)"
    and "blank_parts routers nis links" "flit_wiring (net_wires (init_routers net0))"
    and "(net_step mt' rs msgs)\<^sup>*\<^sup>* (init_routers net0) net"
  shows "apart net \<and> net_keys net \<subseteq># created 0 (nat (gs_next_packet_id (gn_stats net))) \<and>
    (\<forall>x. count (net_keys net) x \<le> 1) \<and>
    received_total (gn_stats net) = size (created 0 (nat (gs_next_packet_id (gn_stats net))) - net_keys net)"
proof -
  have clean: "clean (init_routers net0)" by (rule init_clean [OF assms(1,2)])
  have fresh: "fresh (init_routers net0)" by (rule init_fresh [OF assms(1,2)])
  have b: "apart net \<and> balanced net"
    by (rule run_balanced [OF assms(4) fresh clean_good [OF clean] clean_apart [OF clean] assms(3) fresh_balanced [OF fresh]])
  then have sub: "net_keys net \<subseteq># created 0 (nat (gs_next_packet_id (gn_stats net)))" by (simp add: balanced_def)
  have "count (net_keys net) x \<le> 1" for x
    using mset_subset_eq_count [OF sub, of x] created_once order_trans by blast
  with b sub show ?thesis by (simp add: balanced_def delivered_def)
qed

text \<open>The star network: after seven events packet 0 has been delivered and packet 1 waits.\<close>

lemma star_wiring:
  "case star_network of Inl e \<Rightarrow> False | Inr (nw, net) \<Rightarrow> flit_wiring (net_wires (init_routers net))"
  by code_simp

lemma run_conserves_flits_witness:
  "\<exists>nw net0 net. GarnetNetwork_init pair_machines (pair_new 1 nw) = Some (Inr net0) \<and> star_run 7 = Inr net \<and>
    net_summary net = ([[1], []], [[]], replicate 8 [], [1]) \<and>
    net_keys net \<subseteq># created 0 2 \<and> size (created 0 2 - net_keys net) = 1"
proof -
  from star_run_whole obtain net where net: "star_run 7 = Inr net" "net_summary net = ([[1], []], [[]], replicate 8 [], [1])"
    "gs_next_packet_id (gn_stats net) = 2" by (auto split: sum.splits)
  obtain nw net0 where i: "star_network = Inr (nw, net0)" "link_ends net0 = star_ends"
    "GarnetNetwork_init pair_machines (pair_new 1 nw) = Some (Inr net0)" by (rule star_init)
  have "foldR (perform pair_machines example_flags) (take 7 star_events) (init_routers net0) = Inr net"
    using net(1) unfolding star_run_def i(1) bindR_def sum.case prod.case .
  then have run: "(net_step pair_machines example_flags (\<lambda>_. None))\<^sup>*\<^sup>* (init_routers net0) net" by (rule perform_run)
  have w: "flit_wiring (net_wires (init_routers net0))"
    using star_wiring unfolding i(1) sum.case prod.case .
  from net(2) have "received_total (gn_stats net) = 1" by (simp add: net_summary_def received_total_def)
  with run_conserves_flits [OF i(3) [unfolded pair_new_def] pair_blank w run] net(3)
  have "net_keys net \<subseteq># created 0 2" "size (created 0 2 - net_keys net) = 1" by simp_all
  with i(3) net(1,2) show ?thesis by (intro exI conjI)
qed

end
