(* ===== verification/TraceDriver.thy ===== *)
theory TraceDriver
  imports GarnetNetwork
begin

text \<open>
  The trace driver, \<open>GarnetNetwork::wakeup\<close>, against the list of the records of the trace: which
  records a wakeup hands to which interface, when the driver wakes up next, that a whole trace in
  the order of time is replayed, and when the driver stops early.
\<close>

section \<open>One wakeup\<close>

text \<open>
  The rest of the trace is the records \<open>rs\<close>: their lines are shorter than the buffer of
  \<open>fgets\<close>, their times fit in an \<open>int\<close>, and their source and destination are interfaces of the
  network.
\<close>

definition reads :: "NetworkTraceRecord list \<Rightarrow> 'r GarnetNetwork \<Rightarrow> bool" where
  "reads rs net \<longleftrightarrow> gn_tracefile net = concat (map trace_line rs) \<and>
    (\<forall>r \<in> set rs. record_ok (length (gn_nis net)) r)"

definition hand_over :: "tick \<Rightarrow> NetworkTraceRecord \<Rightarrow> NetworkInterface list \<Rightarrow> NetworkInterface list" where
  "hand_over now r nis = nis[nat (tr_src_id r) := enqueueTracePacket now r (nis ! nat (tr_src_id r))]"

text \<open>
  What a wakeup has done that hands over \<open>due\<close> and leaves \<open>later\<close>, its first record read; it asks
  for a wakeup for that record when the limit on packets lets it (\<open>goes_on\<close>).
\<close>

definition handed :: "tick \<Rightarrow> bool \<Rightarrow> bool \<Rightarrow> NetworkTraceRecord list \<Rightarrow> NetworkTraceRecord list
    \<Rightarrow> 'r GarnetNetwork \<Rightarrow> 'r GarnetNetwork \<Rightarrow> bool" where
  "handed now at_eof goes_on due later net net' \<longleftrightarrow>
    gn_nis net' = fold (hand_over now) due (gn_nis net) \<and>
    gs_trace_num_packets_injected (gn_stats net') = gs_trace_num_packets_injected (gn_stats net) + int (length due) \<and>
    gs_trace_num_flits_injected (gn_stats net') = gs_trace_num_flits_injected (gn_stats net) + sum_list (map tr_num_flits due) \<and>
    gs_trace_max_packets (gn_stats net') = gs_trace_max_packets (gn_stats net) \<and>
    gs_end_simulation (gn_stats net') = (gs_end_simulation (gn_stats net) \<or> later = [] \<and> at_eof) \<and>
    gn_tracefile net' = concat (map trace_line (tl later)) \<and>
    (case later of
       [] \<Rightarrow> gn_consumer net' = gn_consumer net
     | r # _ \<Rightarrow> gs_trace_next_packet (gn_stats net') = r \<and>
         gn_consumer net' = (if goes_on
           then scheduleEventAbsolute now (con_period (gn_consumer net) * tr_time r) (gn_consumer net)
           else gn_consumer net))"

lemma length_hand_over [simp]: "length (hand_over now r nis) = length nis"
  by (simp add: hand_over_def)

lemma length_fold_hand_over [simp]: "length (fold (hand_over now) rs nis) = length nis"
  by (induction rs arbitrary: nis) simp_all

definition pending :: "NetworkTraceRecord \<Rightarrow> NetworkTraceRecord list" where
  "pending p = (if tr_valid p then [p] else [])"

definition pending_due :: "tick \<Rightarrow> 'r GarnetNetwork \<Rightarrow> bool" where
  "pending_due now net \<longleftrightarrow> (let p = gs_trace_next_packet (gn_stats net) in
    tr_valid p \<longrightarrow> tr_time p = gn_curCycle now net \<and> node_in (length (gn_nis net)) (tr_src_id p))"

text \<open>
  How many of the records \<open>rs\<close> the limit on packets still lets through, after the one the driver
  holds: all without a limit, and otherwise so many that the limit is passed by one.
\<close>

definition budget :: "'r GarnetNetwork \<Rightarrow> NetworkTraceRecord list \<Rightarrow> nat" where
  "budget net rs = (let gs = gn_stats net in
    if gs_trace_max_packets gs < 0 then length rs
    else nat (gs_trace_max_packets gs + 1 -
      (gs_trace_num_packets_injected gs + int (length (pending (gs_trace_next_packet gs))))))"

text \<open>The records of the present cycle among those.\<close>

definition due_now :: "tick \<Rightarrow> 'r GarnetNetwork \<Rightarrow> NetworkTraceRecord list \<Rightarrow> NetworkTraceRecord list" where
  "due_now now net rs = takeWhile (\<lambda>r. tr_time r = gn_curCycle now net) (take (budget net rs) rs)"

lemma inject_due_pending:
  assumes "pending_due now net"
  obtains net1 where "inject_due now net = Inr net1"
    "gn_nis net1 = fold (hand_over now) (pending (gs_trace_next_packet (gn_stats net))) (gn_nis net)"
    "gs_trace_num_packets_injected (gn_stats net1) = gs_trace_num_packets_injected (gn_stats net)
      + int (length (pending (gs_trace_next_packet (gn_stats net))))"
    "gs_trace_num_flits_injected (gn_stats net1) = gs_trace_num_flits_injected (gn_stats net)
      + sum_list (map tr_num_flits (pending (gs_trace_next_packet (gn_stats net))))"
    "gs_trace_max_packets (gn_stats net1) = gs_trace_max_packets (gn_stats net)"
    "gn_tracefile net1 = gn_tracefile net" "gn_consumer net1 = gn_consumer net"
    "gs_end_simulation (gn_stats net1) = gs_end_simulation (gn_stats net)"
proof (cases "tr_valid (gs_trace_next_packet (gn_stats net))")
  case False
  with that [of net] show thesis by (simp add: inject_due_def pending_def)
next
  case True
  with assms have "tr_time (gs_trace_next_packet (gn_stats net)) = gn_curCycle now net"
    and "node_in (length (gn_nis net)) (tr_src_id (gs_trace_next_packet (gn_stats net)))"
    by (auto simp: pending_due_def Let_def)
  with True that show thesis
    by (auto simp: inject_due_def pending_def Let_def node_in_def modR_def nthR_def setR_def hand_over_def)
qed

text \<open>The record read becomes the next packet.\<close>

lemma next_packet_line:
  assumes "record_ok (length (gn_nis net)) r"
  obtains start where "next_packet (trace_line r) net = Inr (Some (net\<lparr>gn_stats := (gn_stats net)
    \<lparr>gs_trace_start_time := start, gs_trace_next_packet := r\<rparr>\<rparr>))"
proof -
  note l = read_trace_line [OF assms]
  show thesis
  proof (cases "line_tokens MAX_TOKENS_PER_LINE (trace_line r)")
    case Nil
    with l(3) show thesis by (simp add: parse_record_def token_int_def)
  next
    case (Cons token0 tokens)
    from l(3) Cons obtain t where "atoi token0 = Inr t"
      by (auto simp: parse_record_def token_int_def elim!: bindR_InrE)
    with l(3) Cons that show thesis by (simp add: next_packet_def Let_def)
  qed
qed

lemma driver_hands_over:
  assumes "reads rs net" "pending_due now net"
  shows "\<exists>net'. GarnetNetwork_wakeup at_eof now net = Inr net' \<and>
    handed now at_eof (length (due_now now net rs) < budget net rs)
      (pending (gs_trace_next_packet (gn_stats net)) @ due_now now net rs)
      (drop (length (due_now now net rs)) rs) net net'"
  using assms
proof (induction rs arbitrary: net)
  case Nil
  from inject_due_pending [OF Nil(2)] obtain net1 where i: "inject_due now net = Inr net1"
    "gn_nis net1 = fold (hand_over now) (pending (gs_trace_next_packet (gn_stats net))) (gn_nis net)"
    "gs_trace_num_packets_injected (gn_stats net1) = gs_trace_num_packets_injected (gn_stats net)
      + int (length (pending (gs_trace_next_packet (gn_stats net))))"
    "gs_trace_num_flits_injected (gn_stats net1) = gs_trace_num_flits_injected (gn_stats net)
      + sum_list (map tr_num_flits (pending (gs_trace_next_packet (gn_stats net))))"
    "gs_trace_max_packets (gn_stats net1) = gs_trace_max_packets (gn_stats net)"
    "gn_tracefile net1 = gn_tracefile net" "gn_consumer net1 = gn_consumer net"
    "gs_end_simulation (gn_stats net1) = gs_end_simulation (gn_stats net)" by metis
  have f: "gn_tracefile net = []" "fgets MAX_TOKENS_PER_LINE (gn_tracefile net) = None"
    using Nil(1) by (simp_all add: reads_def fgets_def)
  show ?case
    using i f by (subst GarnetNetwork_wakeup.simps) (auto simp: handed_def due_now_def)
next
  case (Cons r rs)
  let ?p = "gs_trace_next_packet (gn_stats net)" and ?cyc = "gn_curCycle now net"
  from inject_due_pending [OF Cons(3)] obtain net1 where i: "inject_due now net = Inr net1"
    "gn_nis net1 = fold (hand_over now) (pending ?p) (gn_nis net)"
    "gs_trace_num_packets_injected (gn_stats net1) = gs_trace_num_packets_injected (gn_stats net) + int (length (pending ?p))"
    "gs_trace_num_flits_injected (gn_stats net1) = gs_trace_num_flits_injected (gn_stats net) + sum_list (map tr_num_flits (pending ?p))"
    "gs_trace_max_packets (gn_stats net1) = gs_trace_max_packets (gn_stats net)"
    "gn_tracefile net1 = gn_tracefile net" "gn_consumer net1 = gn_consumer net"
    "gs_end_simulation (gn_stats net1) = gs_end_simulation (gn_stats net)" by metis
  let ?rest = "concat (map trace_line rs)" and ?B = "budget net (r # rs)"
  have ok: "record_ok (length (gn_nis net)) r" "\<forall>r \<in> set rs. record_ok (length (gn_nis net)) r"
    and f: "fgets MAX_TOKENS_PER_LINE (gn_tracefile net) = Some (trace_line r, ?rest)"
    using Cons(2) read_trace_line(1) [of "length (gn_nis net)" r ?rest] by (simp_all add: reads_def i(5))
  have go: "gs_trace_max_packets (gn_stats net1) < 0 \<or>
      gs_trace_num_packets_injected (gn_stats net1) \<le> gs_trace_max_packets (gn_stats net1) \<longleftrightarrow> 0 < ?B"
    by (auto simp: budget_def Let_def i)
  let ?n1 = "net1\<lparr>gn_tracefile := ?rest\<rparr>"
  have "record_ok (length (gn_nis ?n1)) r" using ok(1) by (simp add: i(2))
  then obtain start where p: "next_packet (trace_line r) ?n1 = Inr (Some (?n1\<lparr>gn_stats := (gn_stats ?n1)
    \<lparr>gs_trace_start_time := start, gs_trace_next_packet := r\<rparr>\<rparr>))" by (rule next_packet_line)
  define net2 where "net2 = ?n1\<lparr>gn_stats := (gn_stats ?n1)\<lparr>gs_trace_start_time := start, gs_trace_next_packet := r\<rparr>\<rparr>"
  have n2: "gn_tracefile net2 = ?rest" "gn_nis net2 = gn_nis net1" "gs_trace_next_packet (gn_stats net2) = r"
    "gs_trace_max_packets (gn_stats net2) = gs_trace_max_packets (gn_stats net1)" "gn_consumer net2 = gn_consumer net"
    "gs_trace_num_packets_injected (gn_stats net2) = gs_trace_num_packets_injected (gn_stats net1)"
    "gs_trace_num_flits_injected (gn_stats net2) = gs_trace_num_flits_injected (gn_stats net1)"
    "gs_end_simulation (gn_stats net2) = gs_end_simulation (gn_stats net1)"
    "net2\<lparr>gn_tracefile := ?rest\<rparr> = net2" "gn_curCycle now net2 = ?cyc"
    by (simp_all add: net2_def i(7) gn_curCycle_def)
  have w: "GarnetNetwork_wakeup at_eof now net =
      (if 0 < ?B then
         if tr_time r = ?cyc then GarnetNetwork_wakeup at_eof now net2 else Inr (scheduleWakeupAbsolute now (tr_time r) net2)
       else Inr net2)"
    using go p [folded net2_def] by (subst GarnetNetwork_wakeup.simps) (simp add: i(1) f Let_def n2)
  consider (stop) "?B = 0" | (now) "0 < ?B" "tr_time r = ?cyc" | (wait) "0 < ?B" "tr_time r \<noteq> ?cyc" by auto
  then show ?case
  proof cases
    case stop
    with w show ?thesis by (simp add: handed_def n2 i due_now_def)
  next
    case now
    have "tr_valid r" "node_in (length (gn_nis net)) (tr_src_id r)" using ok(1) by (simp_all add: record_ok_def)
    then have "reads rs net2" "pending_due now net2"
      using ok(2) now by (simp_all add: reads_def pending_due_def n2 i(2))
    from Cons.IH [OF this] obtain net' where w': "GarnetNetwork_wakeup at_eof now net2 = Inr net'"
      and h: "handed now at_eof (length (due_now now net2 rs) < budget net2 rs) (r # due_now now net2 rs)
        (drop (length (due_now now net2 rs)) rs) net2 net'"
      using \<open>tr_valid r\<close> by (auto simp: n2 pending_def)
    have B: "?B = Suc (budget net2 rs)"
      using now(1) \<open>tr_valid r\<close> by (auto simp: budget_def Let_def n2 i pending_def nat_add_distrib)
    then have due: "due_now now net (r # rs) = r # due_now now net2 rs" using now(2) by (simp add: due_now_def n2)
    from h have "handed now at_eof (length (due_now now net (r # rs)) < ?B) (pending ?p @ due_now now net (r # rs))
        (drop (length (due_now now net (r # rs))) (r # rs)) net net'"
      unfolding handed_def n2 i due B by (cases "drop (length (due_now now net2 rs)) rs") simp_all
    with w w' now show ?thesis by simp
  next
    case wait
    then have "due_now now net (r # rs) = []" by (cases ?B) (simp_all add: due_now_def)
    with wait w show ?thesis by (simp add: handed_def n2 i scheduleWakeupAbsolute_def)
  qed
qed

lemma hand_over_queue:
  assumes "i < length nis" "\<forall>r \<in> set rs. node_in (length nis) (tr_src_id r)"
  shows "ni_trace_record_queue (fold (hand_over now) rs nis ! i)
    = ni_trace_record_queue (nis ! i) @ filter (\<lambda>r. tr_src_id r = int i) rs"
  using assms
proof (induction rs arbitrary: nis)
  case Nil
  then show ?case by simp
next
  case (Cons r rs)
  then have "nat (tr_src_id r) = i \<longleftrightarrow> tr_src_id r = int i" by (auto simp: node_in_def)
  then have "ni_trace_record_queue (hand_over now r nis ! i)
      = ni_trace_record_queue (nis ! i) @ filter (\<lambda>r. tr_src_id r = int i) [r]"
    using Cons.prems(1) by (simp add: hand_over_def nth_list_update enqueueTracePacket_def ni_scheduleEvent_def)
  with Cons.IH [of "hand_over now r nis"] Cons.prems show ?case by simp
qed

lemma handed_queues:
  assumes "handed now at_eof goes_on due later net net'" "\<forall>r \<in> set due. node_in (length (gn_nis net)) (tr_src_id r)"
    "i < length (gn_nis net)"
  shows "ni_trace_record_queue (gn_nis net' ! i) = ni_trace_record_queue (gn_nis net ! i) @ filter (\<lambda>r. tr_src_id r = int i) due"
  using hand_over_queue [OF assms(3,2)] assms(1) by (simp add: handed_def)

lemma due_nodes:
  assumes "reads rs net" "pending_due now net"
  shows "\<forall>r \<in> set (pending (gs_trace_next_packet (gn_stats net)) @ due_now now' net' rs). node_in (length (gn_nis net)) (tr_src_id r)"
  using assms by (auto simp: reads_def pending_due_def pending_def record_ok_def Let_def due_now_def
      dest!: set_takeWhileD in_set_takeD)

text \<open>
  C29: Let the rest of the trace be well-formed records (lines shorter than 100 characters, source and
  destination interfaces of the network, times in the range of \<open>int\<close>). A wakeup of the trace driver
  hands over exactly the packet it holds and those that follow it in the trace with the same time
  stamp as the present cycle, as far as the limit on packets goes: all of them without a limit, and
  with one until the number injected is one more than the limit. Each goes to the end of the queue of
  the interface of its source, in the order of the trace, and is counted with its flits. The first
  record that is not handed over is read and kept; a wakeup is asked for at its time, unless the
  limit is used up. At the end of the file the simulation is marked as ending.
\<close>

theorem driver_injects_due:
  assumes "reads rs net" "pending_due now net"
  shows "\<exists>net'. GarnetNetwork_wakeup at_eof now net = Inr net' \<and>
    (let gs = gn_stats net; held = pending (gs_trace_next_packet gs);
         limit = (if gs_trace_max_packets gs < 0 then length rs
           else nat (gs_trace_max_packets gs + 1 - (gs_trace_num_packets_injected gs + int (length held))));
         same = takeWhile (\<lambda>r. tr_time r = gn_curCycle now net) (take limit rs);
         due = held @ same in
     (\<forall>i < length (gn_nis net). ni_trace_record_queue (gn_nis net' ! i)
        = ni_trace_record_queue (gn_nis net ! i) @ filter (\<lambda>r. tr_src_id r = int i) due) \<and>
     gs_trace_num_packets_injected (gn_stats net') = gs_trace_num_packets_injected gs + int (length due) \<and>
     gs_trace_num_flits_injected (gn_stats net') = gs_trace_num_flits_injected gs + sum_list (map tr_num_flits due) \<and>
     (case drop (length same) rs of
        [] \<Rightarrow> gn_consumer net' = gn_consumer net \<and> (at_eof \<longrightarrow> gs_end_simulation (gn_stats net'))
      | r # _ \<Rightarrow> gs_trace_next_packet (gn_stats net') = r \<and>
          gn_consumer net' = (if length same < limit
            then scheduleEventAbsolute now (con_period (gn_consumer net) * tr_time r) (gn_consumer net)
            else gn_consumer net)))"
proof -
  let ?due = "pending (gs_trace_next_packet (gn_stats net)) @ due_now now net rs"
  from driver_hands_over [OF assms] obtain net' where w: "GarnetNetwork_wakeup at_eof now net = Inr net'"
    and h: "handed now at_eof (length (due_now now net rs) < budget net rs) ?due (drop (length (due_now now net rs)) rs) net net'"
    by blast
  have "(\<forall>i < length (gn_nis net). ni_trace_record_queue (gn_nis net' ! i)
      = ni_trace_record_queue (gn_nis net ! i) @ filter (\<lambda>r. tr_src_id r = int i) ?due)"
    using handed_queues [OF h due_nodes [OF assms]] by blast
  with h have "(\<forall>i < length (gn_nis net). ni_trace_record_queue (gn_nis net' ! i)
        = ni_trace_record_queue (gn_nis net ! i) @ filter (\<lambda>r. tr_src_id r = int i) ?due) \<and>
     gs_trace_num_packets_injected (gn_stats net') = gs_trace_num_packets_injected (gn_stats net) + int (length ?due) \<and>
     gs_trace_num_flits_injected (gn_stats net') = gs_trace_num_flits_injected (gn_stats net) + sum_list (map tr_num_flits ?due) \<and>
     (case drop (length (due_now now net rs)) rs of
        [] \<Rightarrow> gn_consumer net' = gn_consumer net \<and> (at_eof \<longrightarrow> gs_end_simulation (gn_stats net'))
      | r # _ \<Rightarrow> gs_trace_next_packet (gn_stats net') = r \<and>
          gn_consumer net' = (if length (due_now now net rs) < budget net rs
            then scheduleEventAbsolute now (con_period (gn_consumer net) * tr_time r) (gn_consumer net)
            else gn_consumer net))"
    unfolding handed_def by (auto split: list.splits)
  with w show ?thesis unfolding due_now_def budget_def Let_def by blast
qed

section \<open>A whole trace\<close>

text \<open>The event of the driver as a consumer, and the events it asks for, one after the other.\<close>

definition driver_event :: "tick \<Rightarrow> 'r GarnetNetwork \<Rightarrow> 'r GarnetNetwork res" where
  "driver_event now net =
    bindR (processCurrentEvent now
      (\<lambda>(n, c). bindR (GarnetNetwork_wakeup True now (n\<lparr>gn_consumer := c\<rparr>)) (\<lambda>n'. Inr (n', gn_consumer n')))
      (net, gn_consumer net)) (\<lambda>(n, c). Inr (n\<lparr>gn_consumer := c\<rparr>))"

fun replay :: "nat \<Rightarrow> 'r GarnetNetwork \<Rightarrow> 'r GarnetNetwork res" where
  "replay 0 net = Inr net"
| "replay (Suc k) net =
    (case con_event (gn_consumer net) of None \<Rightarrow> Inr net | Some t \<Rightarrow> bindR (driver_event t net) (replay k))"

text \<open>The driver waits for one wakeup, in cycle \<open>k\<close>.\<close>

definition waits :: "nat \<Rightarrow> cycles \<Rightarrow> consumer \<Rightarrow> bool" where
  "waits p k c \<longleftrightarrow> 0 < p \<and> c = \<lparr>con_wakeup_ticks = [p * k], con_event = Some (p * k), con_period = p\<rparr>"

lemma divCeil_times [simp]: "0 < p \<Longrightarrow> divCeil (p * k) p = k"
  using divCeil_mult [of p k] by (simp add: mult.commute)

lemma schedule_waits:
  assumes "0 < p" "k \<le> m"
  shows "waits p m (scheduleEventAbsolute (p * k) (p * m) \<lparr>con_wakeup_ticks = [], con_event = None, con_period = p\<rparr>)"
  using assms by (simp add: waits_def scheduleEventAbsolute_def scheduleNextWakeup_def clock_edge_def
      insort_insert_key_def mult.commute)

lemma waits_stays: "waits p m c \<Longrightarrow> scheduleNextWakeup now c = c"
  by (auto simp: waits_def scheduleNextWakeup_def split: if_splits)

lemma driver_event_waits:
  assumes "waits p k (gn_consumer net)" "reads rs net" "pending_due (p * k) net"
  obtains net' where "driver_event (p * k) net = Inr (net'\<lparr>gn_consumer := scheduleNextWakeup (p * k) (gn_consumer net')\<rparr>)"
    "handed (p * k) True (length (due_now (p * k) net rs) < budget net rs)
      (pending (gs_trace_next_packet (gn_stats net)) @ due_now (p * k) net rs) (drop (length (due_now (p * k) net rs)) rs)
      (net\<lparr>gn_consumer := \<lparr>con_wakeup_ticks = [], con_event = None, con_period = p\<rparr>\<rparr>) net'"
proof -
  let ?c = "\<lparr>con_wakeup_ticks = [], con_event = None, con_period = p\<rparr>"
  let ?net = "net\<lparr>gn_consumer := ?c\<rparr>"
  from assms(1) have p: "0 < p" and c: "gn_consumer net = \<lparr>con_wakeup_ticks = [p * k], con_event = Some (p * k), con_period = p\<rparr>"
    by (simp_all add: waits_def)
  have "reads rs ?net" "pending_due (p * k) ?net"
    using assms(2,3) p by (simp_all add: reads_def pending_due_def gn_curCycle_def c)
  moreover have "budget ?net rs = budget net rs" "due_now (p * k) ?net rs = due_now (p * k) net rs"
    by (simp_all add: budget_def due_now_def gn_curCycle_def c)
  ultimately obtain net' where
    w: "GarnetNetwork_wakeup True (p * k) ?net = Inr net'"
    and h: "handed (p * k) True (length (due_now (p * k) net rs) < budget net rs)
      (pending (gs_trace_next_packet (gn_stats net)) @ due_now (p * k) net rs) (drop (length (due_now (p * k) net rs)) rs) ?net net'"
    using driver_hands_over [of rs ?net "p * k" True] by auto
  have "clock_edge p (p * k) 0 = p * k" using p by (simp add: clock_edge_def mult.commute)
  with w have "driver_event (p * k) net = Inr (net'\<lparr>gn_consumer := scheduleNextWakeup (p * k) (gn_consumer net')\<rparr>)"
    by (simp add: driver_event_def processCurrentEvent_def c)
  from that [OF this h] show thesis .
qed

text \<open>
  What has happened when the driver has handed over the records \<open>done\<close> and come to rest, of which
  it had to read all but \<open>unread\<close>; it has come to the end of the file or to the limit.
\<close>

definition replayed :: "NetworkTraceRecord list \<Rightarrow> NetworkTraceRecord list \<Rightarrow> bool
    \<Rightarrow> 'r GarnetNetwork \<Rightarrow> 'r GarnetNetwork \<Rightarrow> bool" where
  "replayed don unread at_end net net' \<longleftrightarrow>
    (\<forall>i < length (gn_nis net). ni_trace_record_queue (gn_nis net' ! i)
        = ni_trace_record_queue (gn_nis net ! i) @ filter (\<lambda>r. tr_src_id r = int i) don) \<and>
    gs_trace_num_packets_injected (gn_stats net') = gs_trace_num_packets_injected (gn_stats net) + int (length don) \<and>
    gs_trace_num_flits_injected (gn_stats net') = gs_trace_num_flits_injected (gn_stats net) + sum_list (map tr_num_flits don) \<and>
    gn_tracefile net' = concat (map trace_line unread) \<and>
    gs_end_simulation (gn_stats net') = (gs_end_simulation (gn_stats net) \<or> at_end) \<and>
    con_event (gn_consumer net') = None"

lemma gn_curCycle_waits: "waits p m (gn_consumer net) \<Longrightarrow> gn_curCycle (p * k) net = k"
  by (simp add: gn_curCycle_def cur_cycle_def waits_def)

lemma due_now_prefix:
  "length (due_now now net rs) \<le> budget net rs"
  "rs = due_now now net rs @ drop (length (due_now now net rs)) rs"
  "length (due_now now net rs) = budget net rs \<Longrightarrow> due_now now net rs = take (budget net rs) rs"
proof -
  let ?P = "\<lambda>r. tr_time r = gn_curCycle now net" and ?B = "budget net rs"
  have pre: "due_now now net rs = take (length (due_now now net rs)) (take ?B rs)"
    unfolding due_now_def by (rule takeWhile_eq_take)
  have le: "length (due_now now net rs) \<le> length (take ?B rs)" unfolding due_now_def by (rule length_takeWhile_le)
  then show b: "length (due_now now net rs) \<le> ?B" by simp
  then have pre': "due_now now net rs = take (length (due_now now net rs)) rs" using pre by (simp add: min_def)
  then show "rs = due_now now net rs @ drop (length (due_now now net rs)) rs" by (metis append_take_drop_id)
  show "due_now now net rs = take ?B rs" if "length (due_now now net rs) = ?B" using pre' that by simp
qed

text \<open>The driver stops before a record of another time, or at the limit.\<close>

lemma due_now_stops:
  assumes "drop (length (due_now now net rs)) rs = r # later" "length (due_now now net rs) < budget net rs"
  shows "tr_time r \<noteq> gn_curCycle now net"
proof -
  let ?P = "\<lambda>r. tr_time r = gn_curCycle now net" and ?d = "due_now now net rs"
  have len: "length ?d < length rs" using assms(1) by (metis drop_eq_Nil linorder_not_le list.discI)
  have "rs ! length ?d = r" using assms(1) len by (metis hd_drop_conv_nth list.sel(1))
  then have "take (budget net rs) rs ! length ?d = r" using assms(2) by simp
  moreover have "length ?d < length (take (budget net rs) rs)" using assms(2) len by simp
  ultimately show ?thesis using nth_length_takeWhile [of ?P "take (budget net rs) rs"] by (simp add: due_now_def)
qed

lemma budget_step:
  assumes "handed now at_eof True due (r # later) net net'" "tr_valid r"
    and "due = pending (gs_trace_next_packet (gn_stats net)) @ d"
    and "rs = d @ r # later" "length d < budget net rs"
  shows "budget net rs = Suc (length d + budget net' later)"
  using assms by (auto simp: budget_def Let_def handed_def pending_def nat_add_distrib split: if_splits)

lemma replay_rest:
  assumes "waits p k (gn_consumer net)" "reads rs net" "pending_due (p * k) net"
    "sorted (map tr_time rs)" "\<forall>r \<in> set rs. k \<le> tr_time r" "length rs < n"
  shows "\<exists>net'. replay n net = Inr net' \<and>
    replayed (pending (gs_trace_next_packet (gn_stats net)) @ take (budget net rs) rs)
      (drop (Suc (budget net rs)) rs) (length rs \<le> budget net rs) net net'"
  using assms
proof (induction "length rs" arbitrary: rs net k n rule: less_induct)
  case less
  let ?p = "gs_trace_next_packet (gn_stats net)" and ?B = "budget net rs" and ?d = "due_now (p * k) net rs"
  let ?net0 = "net\<lparr>gn_consumer := \<lparr>con_wakeup_ticks = [], con_event = None, con_period = p\<rparr>\<rparr>"
  from driver_event_waits [OF less.prems(1-3)] obtain net1 where
    e: "driver_event (p * k) net = Inr (net1\<lparr>gn_consumer := scheduleNextWakeup (p * k) (gn_consumer net1)\<rparr>)"
    and h: "handed (p * k) True (length ?d < ?B) (pending ?p @ ?d) (drop (length ?d) rs) ?net0 net1" by blast
  have len: "length (gn_nis net1) = length (gn_nis net)" using h by (simp add: handed_def)
  have q: "ni_trace_record_queue (gn_nis net1 ! i) = ni_trace_record_queue (gn_nis net ! i) @ filter (\<lambda>r. tr_src_id r = int i) (pending ?p @ ?d)"
    if "i < length (gn_nis net)" for i
    using handed_queues [OF h, of i] due_nodes [OF less.prems(2,3), where now' = "p * k" and net' = net] that by simp
  from less.prems(6) obtain m where n: "n = Suc m" by (cases n) auto
  have ev: "con_event (gn_consumer net) = Some (p * k)" and pos: "0 < p" using less.prems(1) by (simp_all add: waits_def)
  note d = due_now_prefix [where now = "p * k" and net = net and rs = rs]
  consider (eof) "drop (length ?d) rs = []"
    | (limit) r later where "drop (length ?d) rs = r # later" "length ?d = ?B"
    | (wait) r later where "drop (length ?d) rs = r # later" "length ?d < ?B"
    using d(1) by (metis le_neq_implies_less list.exhaust)
  then show ?case
  proof cases
    case eof
    let ?net' = "net1\<lparr>gn_consumer := scheduleNextWakeup (p * k) (gn_consumer net1)\<rparr>"
    have c: "con_event (gn_consumer ?net') = None" using h eof by (simp add: handed_def scheduleNextWakeup_def)
    then have "replay n net = Inr ?net'" using e ev n by (cases m) simp_all
    moreover have all: "?d = rs" using d(2) eof by simp
    then have "length rs \<le> ?B" using d(1) by simp
    with h [unfolded eof] q c all have "replayed (pending ?p @ take ?B rs) (drop (Suc ?B) rs) (length rs \<le> ?B) net ?net'"
      by (simp add: replayed_def handed_def)
    ultimately show ?thesis by blast
  next
    case limit
    let ?net' = "net1\<lparr>gn_consumer := scheduleNextWakeup (p * k) (gn_consumer net1)\<rparr>"
    have c: "con_event (gn_consumer ?net') = None" using h limit by (simp add: handed_def scheduleNextWakeup_def)
    then have "replay n net = Inr ?net'" using e ev n by (cases m) simp_all
    moreover have all: "?d = take ?B rs" by (rule d(3) [OF limit(2)])
    have "drop (Suc ?B) rs = later" using limit by (metis drop_Suc list.sel(3) tl_drop)
    moreover have "\<not> length rs \<le> ?B" using limit by (metis drop_eq_Nil list.discI)
    ultimately have "replayed (pending ?p @ take ?B rs) (drop (Suc ?B) rs) (length rs \<le> ?B) net ?net'"
      using h [unfolded limit(1)] q c by (simp add: replayed_def handed_def all)
    with \<open>replay n net = Inr ?net'\<close> show ?thesis by blast
  next
    case wait
    have rs: "rs = ?d @ r # later" using d(2) wait(1) by simp
    note parts = arg_cong [OF rs, of set] arg_cong [OF rs, of length]
    have mem: "r \<in> set rs" "set later \<subseteq> set rs" unfolding parts(1) by auto
    have shorter: "length later < length rs" unfolding parts(2) by simp
    have "tr_time r \<noteq> k" using due_now_stops [OF wait] gn_curCycle_waits [OF less.prems(1)] by simp
    with less.prems(5) mem(1) have later: "k < tr_time r" by (simp add: le_neq_implies_less)
    have "sorted (map tr_time (?d @ r # later))" using less.prems(4) rs by simp
    then have sorted: "sorted (map tr_time later)" "\<forall>x \<in> set later. tr_time r \<le> tr_time x"
      by (simp_all add: sorted_append)
    have w: "waits p (tr_time r) (gn_consumer net1)"
      using h wait schedule_waits [OF pos, of k "tr_time r"] later by (simp add: handed_def)
    then have same: "net1\<lparr>gn_consumer := scheduleNextWakeup (p * k) (gn_consumer net1)\<rparr> = net1" by (simp add: waits_stays)
    have next_r: "gs_trace_next_packet (gn_stats net1) = r" and rest: "gn_tracefile net1 = concat (map trace_line later)"
      using h wait by (simp_all add: handed_def)
    have ok: "record_ok (length (gn_nis net)) r" "\<forall>x \<in> set later. record_ok (length (gn_nis net)) x"
      using less.prems(2) mem by (auto simp: reads_def)
    then have valid: "tr_valid r" by (simp add: record_ok_def)
    have "handed (p * k) True True (pending ?p @ ?d) (r # later) ?net0 net1" using h wait by simp
    from budget_step [OF this valid _ rs] wait(2) have B: "?B = Suc (length ?d + budget net1 later)"
      by (simp add: budget_def)
    have "reads later net1" using ok rest len by (simp add: reads_def)
    moreover have "pending_due (p * tr_time r) net1"
      using ok(1) w pos by (simp add: pending_due_def next_r record_ok_def len gn_curCycle_def cur_cycle_def waits_def)
    moreover have "length later < m" using shorter less.prems(6) n by simp
    ultimately obtain net' where r': "replay m net1 = Inr net'"
      "replayed (pending r @ take (budget net1 later) later) (drop (Suc (budget net1 later)) later)
        (length later \<le> budget net1 later) net1 net'"
      using less.hyps [OF shorter w _ _ sorted, of m] next_r by metis
    have pr: "pending r = [r]" using valid by (simp add: pending_def)
    have cut: "take ?B rs = ?d @ r # take (budget net1 later) later" "drop (Suc ?B) rs = drop (Suc (budget net1 later)) later"
      "length rs \<le> ?B \<longleftrightarrow> length later \<le> budget net1 later"
      unfolding B by (subst rs, simp)+
    have "replayed (pending ?p @ take ?B rs) (drop (Suc ?B) rs) (length rs \<le> ?B) net net'"
      unfolding cut using r'(2) [unfolded pr] h [unfolded wait(1)] q len by (simp add: replayed_def handed_def)
    moreover have "replay n net = Inr net'" using e ev n r'(1) same by simp
    ultimately show ?thesis by blast
  qed
qed

text \<open>
  C3: Let the trace be well-formed records (lines shorter than 100 characters, source and
  destination interfaces of the network, times in the range of \<open>int\<close>) in the order of their times,
  none earlier than the first wakeup. The driver, woken up when it asks for it, comes to rest after
  at most one wakeup more than there are records. Without a limit on packets it has handed over all
  records, and with a limit \<open>M\<close> exactly the first ones, as many as bring the number injected to
  \<open>M + 1\<close> (none if the number is already above \<open>M\<close>): every interface was given its own of these records in
  the order of the trace, and packets and flits are counted exactly. The end of the simulation is
  marked if and only if all records were handed over; otherwise one more record has been read and
  the rest of the file has not. No further wakeup is asked for.
\<close>

theorem driver_replays_trace:
  assumes "waits p k (gn_consumer net)" "reads rs net" "\<not> tr_valid (gs_trace_next_packet (gn_stats net))"
    "sorted (map tr_time rs)" "\<forall>r \<in> set rs. k \<le> tr_time r" "length rs < n"
    and "limit = (if gs_trace_max_packets (gn_stats net) < 0 then length rs
      else nat (gs_trace_max_packets (gn_stats net) + 1 - gs_trace_num_packets_injected (gn_stats net)))"
  shows "\<exists>net'. replay n net = Inr net' \<and>
    (\<forall>i < length (gn_nis net). ni_trace_record_queue (gn_nis net' ! i)
        = ni_trace_record_queue (gn_nis net ! i) @ filter (\<lambda>r. tr_src_id r = int i) (take limit rs)) \<and>
    gs_trace_num_packets_injected (gn_stats net') = gs_trace_num_packets_injected (gn_stats net) + int (min limit (length rs)) \<and>
    gs_trace_num_flits_injected (gn_stats net') = gs_trace_num_flits_injected (gn_stats net) + sum_list (map tr_num_flits (take limit rs)) \<and>
    gn_tracefile net' = concat (map trace_line (drop (Suc limit) rs)) \<and>
    gs_end_simulation (gn_stats net') = (gs_end_simulation (gn_stats net) \<or> length rs \<le> limit) \<and>
    con_event (gn_consumer net') = None"
proof -
  have "pending_due (p * k) net" "pending (gs_trace_next_packet (gn_stats net)) = []"
    using assms(3) by (simp_all add: pending_due_def pending_def)
  moreover from this(2) have "budget net rs = limit" by (simp add: budget_def assms(7) Let_def)
  ultimately obtain net' where "replay n net = Inr net'"
    "replayed (take limit rs) (drop (Suc limit) rs) (length rs \<le> limit) net net'"
    using replay_rest [OF assms(1,2) _ assms(4-6)] by auto
  then show ?thesis unfolding replayed_def by (intro exI [of _ net']) (simp add: min.commute)
qed

section \<open>Stopping early\<close>

text \<open>
  C30: A record whose time is already over stops the driver for good. It is read but never handed
  over, no wakeup is asked for, and the records behind it are not read, however long the
  simulation goes on.
\<close>

theorem late_record_stops_driver:
  assumes "reads (r # rs) net" "pending_due now net" "tr_time r < gn_curCycle now net"
    "gn_consumer net = \<lparr>con_wakeup_ticks = [], con_event = None, con_period = p\<rparr>" "0 < p"
  shows "\<exists>net'. GarnetNetwork_wakeup at_eof now net = Inr net' \<and> con_event (gn_consumer net') = None \<and>
    gn_tracefile net' = concat (map trace_line rs) \<and> replay n net' = Inr net' \<and>
    (\<forall>i < length (gn_nis net). ni_trace_record_queue (gn_nis net' ! i) = ni_trace_record_queue (gn_nis net ! i)
        @ filter (\<lambda>r. tr_src_id r = int i) (pending (gs_trace_next_packet (gn_stats net))))"
proof -
  let ?due = "pending (gs_trace_next_packet (gn_stats net))"
  have none: "due_now now net (r # rs) = []" using assms(3) by (cases "budget net (r # rs)") (simp_all add: due_now_def)
  from driver_hands_over [OF assms(1,2), of at_eof] obtain net' goes_on where
    w: "GarnetNetwork_wakeup at_eof now net = Inr net'" and h: "handed now at_eof goes_on ?due (r # rs) net net'"
    unfolding none by auto
  have late: "p * tr_time r < clock_edge p now 0"
    using assms(3-5) by (simp add: gn_curCycle_def cur_cycle_def clock_edge_def mult.commute)
  have "gn_consumer net' = scheduleEventAbsolute now (p * tr_time r) (gn_consumer net) \<or> gn_consumer net' = gn_consumer net"
    using h assms(4) by (cases goes_on) (simp_all add: handed_def)
  then have c: "con_event (gn_consumer net') = None"
    using late assms(5) by (auto simp add: scheduleEventAbsolute_def scheduleNextWakeup_def assms(4) insort_insert_key_def mult.commute)
  then have "replay n net' = Inr net'" by (cases n) simp_all
  with w c h handed_queues [OF h] due_nodes [OF assms(1,2)] show ?thesis
    by (auto simp: handed_def)
qed

lemma inject_due_count:
  assumes "inject_due now net = Inr net1"
  shows "gs_trace_num_packets_injected (gn_stats net1) \<le> gs_trace_num_packets_injected (gn_stats net) + 1 \<and>
    gs_trace_num_packets_injected (gn_stats net) \<le> gs_trace_num_packets_injected (gn_stats net1) \<and>
    gs_trace_max_packets (gn_stats net1) = gs_trace_max_packets (gn_stats net) \<and> gn_consumer net1 = gn_consumer net"
  using assms by (auto simp: inject_due_def Let_def elim!: guardR_InrE bindR_InrE split: if_splits)

lemma next_packet_count:
  assumes "next_packet line net = Inr (Some net1)"
  shows "gs_trace_num_packets_injected (gn_stats net1) = gs_trace_num_packets_injected (gn_stats net) \<and>
    gs_trace_max_packets (gn_stats net1) = gs_trace_max_packets (gn_stats net) \<and> gn_consumer net1 = gn_consumer net"
  using assms by (auto simp: next_packet_def Let_def split: list.splits elim!: bindR_InrE)

lemma limit_loop:
  assumes "GarnetNetwork_wakeup at_eof now net = Inr net'"
    "0 \<le> gs_trace_max_packets (gn_stats net)"
    "gs_trace_num_packets_injected (gn_stats net) \<le> gs_trace_max_packets (gn_stats net)"
  shows "gs_trace_max_packets (gn_stats net') = gs_trace_max_packets (gn_stats net) \<and>
    gs_trace_num_packets_injected (gn_stats net') \<le> gs_trace_max_packets (gn_stats net) + 1 \<and>
    (gs_trace_num_packets_injected (gn_stats net') > gs_trace_max_packets (gn_stats net) \<longrightarrow> gn_consumer net' = gn_consumer net)"
  using assms
proof (induction at_eof now net rule: GarnetNetwork_wakeup.induct)
  case (1 at_eof now net)
  from "1.prems" obtain net1 where d: "inject_due now net = Inr net1"
    by (subst (asm) GarnetNetwork_wakeup.simps) (auto split: sum.splits)
  note c = inject_due_count [OF d]
  show ?case
  proof (cases "fgets MAX_TOKENS_PER_LINE (gn_tracefile net)")
    case None
    with "1.prems" d c show ?thesis by (subst (asm) GarnetNetwork_wakeup.simps) (auto split: if_splits)
  next
    case (Some lr)
    obtain line rest where lr: "lr = (line, rest)" by (cases lr)
    note f = Some [unfolded lr]
    from "1.prems"(1) d f obtain found where p: "next_packet line (net1\<lparr>gn_tracefile := rest\<rparr>) = Inr found"
      by (subst (asm) GarnetNetwork_wakeup.simps) (auto split: sum.splits)
    show ?thesis
    proof (cases found)
      case None
      with "1.prems" d f p c show ?thesis by (subst (asm) GarnetNetwork_wakeup.simps) auto
    next
      case (Some net2)
      note c2 = next_packet_count [OF p [unfolded Some]]
      let ?gs = "gn_stats net2"
      let ?go = "gs_trace_max_packets ?gs < 0 \<or> gs_trace_num_packets_injected ?gs \<le> gs_trace_max_packets ?gs"
      let ?t = "tr_time (gs_trace_next_packet ?gs)"
      from "1.prems"(1) d f p Some have r: "(if ?go then
                      if ?t = gn_curCycle now net2 then GarnetNetwork_wakeup at_eof now (net2\<lparr>gn_tracefile := rest\<rparr>)
                      else Inr (scheduleWakeupAbsolute now ?t net2)
                    else Inr net2) = Inr net'"
        by (subst (asm) GarnetNetwork_wakeup.simps) (simp add: Let_def)
      consider "?go" "?t = gn_curCycle now net2" "GarnetNetwork_wakeup at_eof now (net2\<lparr>gn_tracefile := rest\<rparr>) = Inr net'"
        | "?go" "net' = scheduleWakeupAbsolute now ?t net2" | "net' = net2"
        using r by (auto split: if_splits)
      then show ?thesis
      proof cases
        case 1
        from "1.IH" [OF d f refl p [unfolded Some] refl refl refl \<open>?go\<close> \<open>?t = gn_curCycle now net2\<close> 1(3)] 1(1) c c2 "1.prems"(2)
        show ?thesis by auto
      next
        case 2
        with c c2 "1.prems" show ?thesis by (auto simp: scheduleWakeupAbsolute_def)
      next
        case 3
        with c c2 "1.prems" show ?thesis by auto
      qed
    qed
  qed
qed

text \<open>
  C31: With a limit on packets, a wakeup of the driver that begins within the limit injects at most
  one packet more than the limit allows, and a driver that has passed the limit asks for no
  further wakeup.
\<close>

theorem driver_packet_limit:
  assumes "GarnetNetwork_wakeup at_eof now net = Inr net'"
    "0 \<le> gs_trace_max_packets (gn_stats net)"
    "gs_trace_num_packets_injected (gn_stats net) \<le> gs_trace_max_packets (gn_stats net)"
  shows "gs_trace_num_packets_injected (gn_stats net') \<le> gs_trace_max_packets (gn_stats net) + 1 \<and>
    (gs_trace_num_packets_injected (gn_stats net') > gs_trace_max_packets (gn_stats net) \<longrightarrow> gn_consumer net' = gn_consumer net)"
  using limit_loop [OF assms] by blast

section \<open>An example\<close>

text \<open>Two interfaces, and a trace whose first two records are due in cycle 1 and whose third in cycle 3.\<close>

definition demo_record :: "nat \<Rightarrow> int \<Rightarrow> int \<Rightarrow> NetworkTraceRecord" where
  "demo_record time src dest = \<lparr>tr_valid = True, tr_time = time, tr_src_id = src, tr_src_router_id = src, tr_dest_id = dest,
     tr_dest_router_id = dest, tr_vnet = 0, tr_num_flits = 2, tr_network_idx = 0, tr_input_idx = 0, tr_phase_id = 0\<rparr>"

definition demo_trace :: "NetworkTraceRecord list" where
  "demo_trace = [demo_record 1 0 1, demo_record 1 1 0, demo_record 3 0 1]"

definition demo_net :: "int \<Rightarrow> NetworkTraceRecord list \<Rightarrow> nat GarnetNetwork" where
  "demo_net max_packets rs = GarnetNetwork_new (projr example_network) example_config True max_packets False
     (''#'' @ [newline] @ concat (map trace_line rs)) 0 5 []
     [NetworkInterface_new 0 2 50000 5, NetworkInterface_new 1 2 50000 5] [] [] [] []"

lemma demo_records_ok: "list_all (record_ok 2) (map (\<lambda>(t, s). demo_record t s (1 - s)) [(0, 0), (1, 0), (1, 1), (3, 0)])"
  by code_simp

lemma demo_header: "fgets 1000 (CHR ''#'' # newline # s) = Some ([CHR ''#'', newline], s)"
proof -
  have "read_line (Suc (Suc 997)) (CHR ''#'' # newline # s) = ([CHR ''#'', newline], s)"
    unfolding read_line.simps by (simp add: newline_def)
  moreover have "1000 - 1 = Suc (Suc 997)" by simp
  ultimately show ?thesis unfolding fgets_def by simp
qed

lemma demo_net_sel:
  "gn_tracefile (demo_net m rs) = concat (map trace_line rs)" "length (gn_nis (demo_net m rs)) = 2"
  "gs_trace_max_packets (gn_stats (demo_net m rs)) = m" "waits 5 1 (gn_consumer (demo_net m rs))"
  "\<not> tr_valid (gs_trace_next_packet (gn_stats (demo_net m rs)))"
  "gs_trace_num_packets_injected (gn_stats (demo_net m rs)) = 0"
  "i < 2 \<Longrightarrow> ni_trace_record_queue (gn_nis (demo_net m rs) ! i) = []"
  by (auto simp: demo_net_def GarnetNetwork_new_def scheduleWakeupAbsolute_def skip_lines_def demo_header
      GarnetStats_new_def Let_def no_trace_packet_def waits_def consumer_init_def scheduleEventAbsolute_def
      scheduleNextWakeup_def cur_cycle_def clock_edge_def divCeil_def NetworkInterface_new_def less_2_cases_iff insort_insert_key_def)

lemma demo_reads: "list_all (record_ok 2) rs \<Longrightarrow> reads rs (demo_net m rs)"
  by (simp add: reads_def demo_net_sel list_all_iff)

lemma demo_cycle: "gn_curCycle 5 (demo_net m rs) = 1"
  using demo_net_sel(4) [of m rs] by (simp add: gn_curCycle_def cur_cycle_def waits_def divCeil_def)

lemma driver_injects_due_witness:
  "\<exists>net'. GarnetNetwork_wakeup False 5 (demo_net (-1) demo_trace) = Inr net' \<and>
    map tr_dest_id (ni_trace_record_queue (gn_nis net' ! 0)) = [1] \<and>
    map tr_dest_id (ni_trace_record_queue (gn_nis net' ! 1)) = [0] \<and>
    gs_trace_num_flits_injected (gn_stats net') = gs_trace_num_flits_injected (gn_stats (demo_net (-1) demo_trace)) + 4 \<and>
    gs_trace_next_packet (gn_stats net') = demo_record 3 0 1"
proof -
  let ?net = "demo_net (-1) demo_trace"
  have r: "reads demo_trace ?net" using demo_records_ok by (intro demo_reads) (simp_all add: demo_trace_def)
  have p: "pending_due 5 ?net" by (simp add: pending_due_def demo_net_sel Let_def)
  have t: "pending (gs_trace_next_packet (gn_stats ?net)) = []" "gs_trace_max_packets (gn_stats ?net) < 0"
    "takeWhile (\<lambda>r. tr_time r = gn_curCycle 5 ?net) (take (length demo_trace) demo_trace) = [demo_record 1 0 1, demo_record 1 1 0]"
    "drop (length [demo_record 1 0 1, demo_record 1 1 0]) demo_trace = [demo_record 3 0 1]"
    by (simp_all add: pending_def demo_net_sel demo_cycle demo_trace_def demo_record_def)
  from driver_injects_due [OF r p, of False] show ?thesis
    unfolding Let_def t(1) if_P [OF t(2)] t(3,4) by (auto simp: demo_net_sel demo_record_def)
qed

text \<open>Without a limit, and with the limit 1, which lets two packets through.\<close>

lemma driver_replays_trace_witness:
  "(\<exists>net'. replay 4 (demo_net (-1) demo_trace) = Inr net' \<and> gs_end_simulation (gn_stats net') \<and>
    map tr_time (ni_trace_record_queue (gn_nis net' ! 0)) = [1, 3] \<and>
    map tr_time (ni_trace_record_queue (gn_nis net' ! 1)) = [1]) \<and>
  (\<exists>net'. replay 4 (demo_net 1 demo_trace) = Inr net' \<and>
    map tr_time (ni_trace_record_queue (gn_nis net' ! 0)) = [1] \<and>
    map tr_time (ni_trace_record_queue (gn_nis net' ! 1)) = [1])"
proof -
  have r: "reads demo_trace (demo_net m demo_trace)" for m
    using demo_records_ok by (intro demo_reads) (simp add: demo_trace_def)
  have t: "sorted (map tr_time demo_trace)" "\<forall>r \<in> set demo_trace. 1 \<le> tr_time r" "length demo_trace < 4"
    by (simp_all add: demo_trace_def demo_record_def)
  note run = driver_replays_trace [OF demo_net_sel(4) r demo_net_sel(5) t refl]
  from run [of "-1"] run [of 1] show ?thesis
    by (auto simp: demo_net_sel demo_trace_def demo_record_def numeral_2_eq_2)
qed

lemma late_record_stops_driver_witness:
  "\<exists>net'. GarnetNetwork_wakeup True 5
      ((demo_net (-1) [demo_record 0 0 1, demo_record 3 0 1])\<lparr>gn_consumer := consumer_init 5\<rparr>) = Inr net' \<and>
    con_event (gn_consumer net') = None \<and> gn_tracefile net' = trace_line (demo_record 3 0 1) \<and>
    ni_trace_record_queue (gn_nis net' ! 0) = []"
proof -
  let ?rs = "[demo_record 0 0 1, demo_record 3 0 1]"
  let ?net = "(demo_net (-1) ?rs)\<lparr>gn_consumer := consumer_init 5\<rparr>"
  have "reads ?rs ?net" using demo_reads [of ?rs "-1"] demo_records_ok by (simp add: reads_def)
  moreover have "pending_due 5 ?net" by (simp add: pending_due_def demo_net_sel Let_def)
  moreover have "tr_time (demo_record 0 0 1) < gn_curCycle 5 ?net"
    by (simp add: demo_record_def gn_curCycle_def cur_cycle_def consumer_init_def divCeil_def)
  ultimately show ?thesis
    using late_record_stops_driver [of "demo_record 0 0 1" "[demo_record 3 0 1]" ?net 5 5 True 0]
    by (auto simp: demo_net_sel pending_def consumer_init_def)
qed

text \<open>With a limit of no packets at all, one packet is injected.\<close>

lemma driver_packet_limit_witness:
  "\<exists>net'. GarnetNetwork_wakeup True 5 (demo_net 0 demo_trace) = Inr net' \<and>
    gs_trace_num_packets_injected (gn_stats net') = 1 \<and> gn_consumer net' = gn_consumer (demo_net 0 demo_trace)"
proof -
  have "case GarnetNetwork_wakeup True 5 (demo_net 0 demo_trace) of Inl e \<Rightarrow> False
    | Inr net' \<Rightarrow> gs_trace_num_packets_injected (gn_stats net') = 1" by code_simp
  then obtain net' where w: "GarnetNetwork_wakeup True 5 (demo_net 0 demo_trace) = Inr net'"
    "gs_trace_num_packets_injected (gn_stats net') = 1" by (auto split: sum.splits)
  with driver_packet_limit [OF w(1)] show ?thesis by (simp add: demo_net_sel)
qed

end
