(* ===== verification/EventQueue.thy ===== *)
theory EventQueue
  imports Garnet_Prelude "HOL-Library.Word"
begin

text \<open>
  The event queue of the simulator kernel (\<open>sim/eventq.hh\<close>, \<open>sim/eventq.cc\<close>), which runs
  every \<open>wakeup\<close> of the network. A queue is a linked list of linked lists: \<open>nextBin\<close> chains
  the bins, one for each pair of time and priority, and \<open>nextInBin\<close> chains the stack of the
  events of a bin. The pointers live in the events themselves and go stale, so the events
  are an explicit store from addresses to \<open>Event\<close> objects. The loops over the pointers end
  only on well-formed lists: they are partial functions, and not returning is the value
  \<open>None\<close>.
\<close>

unbundle bit_operations_syntax

section \<open>Flags\<close>

text \<open>\<open>Flags<unsigned short>\<close> of \<open>base/flags.hh\<close>.\<close>

type_synonym flag_bits = "16 word"

definition flags_isSet :: "flag_bits \<Rightarrow> flag_bits \<Rightarrow> bool" where
  "flags_isSet fl m \<longleftrightarrow> fl AND m \<noteq> 0"

definition flags_allSet :: "flag_bits \<Rightarrow> flag_bits \<Rightarrow> bool" where
  "flags_allSet fl m \<longleftrightarrow> fl AND m = m"

definition flags_noneSet :: "flag_bits \<Rightarrow> flag_bits \<Rightarrow> bool" where
  "flags_noneSet fl m \<longleftrightarrow> fl AND m = 0"

definition flags_clear :: "flag_bits \<Rightarrow> flag_bits \<Rightarrow> flag_bits" where
  "flags_clear fl m = fl AND NOT m"

definition flags_set :: "flag_bits \<Rightarrow> flag_bits \<Rightarrow> flag_bits" where
  "flags_set fl m = fl OR m"

definition PublicRead :: flag_bits where "PublicRead = 0x003f"

definition PublicWrite :: flag_bits where "PublicWrite = 0x001d"

definition Squashed :: flag_bits where "Squashed = 0x0001"

definition Scheduled :: flag_bits where "Scheduled = 0x0002"

definition Managed :: flag_bits where "Managed = 0x0004"

definition IsExitEvent :: flag_bits where "IsExitEvent = 0x0010"

definition IsMainQueue :: flag_bits where "IsMainQueue = 0x0020"

definition Initialized :: flag_bits where "Initialized = 0x7a40"

definition InitMask :: flag_bits where "InitMask = 0xffc0"

lemmas flag_defs =
  Squashed_def Scheduled_def Managed_def IsExitEvent_def IsMainQueue_def
  flags_isSet_def flags_clear_def flags_set_def

text \<open>Each of the one-bit flags is a bit of the container.\<close>

lemma flag_bit:
  "flags_isSet fl Squashed \<longleftrightarrow> bit fl 0"
  "flags_isSet fl Scheduled \<longleftrightarrow> bit fl 1"
  "flags_isSet fl Managed \<longleftrightarrow> bit fl 2"
  "flags_isSet fl IsExitEvent \<longleftrightarrow> bit fl 4"
  "flags_isSet fl IsMainQueue \<longleftrightarrow> bit fl 5"
  using and_exp_eq_0_iff_not_bit [of fl 0] and_exp_eq_0_iff_not_bit [of fl 1]
    and_exp_eq_0_iff_not_bit [of fl 2] and_exp_eq_0_iff_not_bit [of fl 4]
    and_exp_eq_0_iff_not_bit [of fl 5]
  by (simp_all add: flag_defs)

section \<open>Events\<close>

type_synonym event_ptr = "nat option"

record Event =
  ev_nextBin :: event_ptr
  ev_nextInBin :: event_ptr
  ev_when :: tick
  ev_priority :: int
  ev_flags :: flag_bits
  ev_queue :: "nat option"

type_synonym heap = "nat \<Rightarrow> Event option"

text \<open>The constructor: a fresh object, on no queue.\<close>

definition Event_new :: "int \<Rightarrow> flag_bits \<Rightarrow> Event res" where
  "Event_new p f =
    guardR (flags_noneSet f (NOT PublicWrite)) (Assert_failed ''Event::Event'')
      (Inr \<lparr>ev_nextBin = None, ev_nextInBin = None, ev_when = 0, ev_priority = p,
            ev_flags = Initialized OR f, ev_queue = None\<rparr>)"

definition ev_initialized :: "Event \<Rightarrow> bool" where
  "ev_initialized e \<longleftrightarrow> ev_flags e AND InitMask = Initialized"

definition ev_scheduled :: "Event \<Rightarrow> bool" where
  "ev_scheduled e \<longleftrightarrow> flags_isSet (ev_flags e) Scheduled"

definition ev_squashed :: "Event \<Rightarrow> bool" where
  "ev_squashed e \<longleftrightarrow> flags_isSet (ev_flags e) Squashed"

definition ev_isExitEvent :: "Event \<Rightarrow> bool" where
  "ev_isExitEvent e \<longleftrightarrow> flags_isSet (ev_flags e) IsExitEvent"

definition ev_isManaged :: "Event \<Rightarrow> bool" where
  "ev_isManaged e \<longleftrightarrow> flags_isSet (ev_flags e) Managed"

definition ev_set :: "flag_bits \<Rightarrow> Event \<Rightarrow> Event" where
  "ev_set m e = e\<lparr>ev_flags := flags_set (ev_flags e) m\<rparr>"

definition ev_clear :: "flag_bits \<Rightarrow> Event \<Rightarrow> Event" where
  "ev_clear m e = e\<lparr>ev_flags := flags_clear (ev_flags e) m\<rparr>"

definition ev_squash :: "Event \<Rightarrow> Event" where
  "ev_squash e = ev_set Squashed e"

definition ev_setWhen :: "tick \<Rightarrow> nat \<Rightarrow> Event \<Rightarrow> Event" where
  "ev_setWhen t q e = e\<lparr>ev_when := t, ev_queue := Some q\<rparr>"

text \<open>\<open>operator<\<close>, \<open>operator<=\<close>, \<open>operator==\<close> and \<open>operator!=\<close>.\<close>

definition event_less :: "Event \<Rightarrow> Event \<Rightarrow> bool" where
  "event_less l r \<longleftrightarrow>
    ev_when l < ev_when r \<or> (ev_when l = ev_when r \<and> ev_priority l < ev_priority r)"

definition event_leq :: "Event \<Rightarrow> Event \<Rightarrow> bool" where
  "event_leq l r \<longleftrightarrow>
    ev_when l < ev_when r \<or> (ev_when l = ev_when r \<and> ev_priority l \<le> ev_priority r)"

definition event_eq :: "Event \<Rightarrow> Event \<Rightarrow> bool" where
  "event_eq l r \<longleftrightarrow> ev_when l = ev_when r \<and> ev_priority l = ev_priority r"

definition event_neq :: "Event \<Rightarrow> Event \<Rightarrow> bool" where
  "event_neq l r \<longleftrightarrow> ev_when l \<noteq> ev_when r \<or> ev_priority l \<noteq> ev_priority r"

text \<open>Reading an object through a pointer, and the member access of a null pointer.\<close>

definition deref :: "heap \<Rightarrow> nat \<Rightarrow> Event run" where
  "deref h a = (case h a of None \<Rightarrow> failO (Null_pointer ''Event'') | Some e \<Rightarrow> retO e)"

definition deref_ptr :: "heap \<Rightarrow> event_ptr \<Rightarrow> Event run" where
  "deref_ptr h p = (case p of None \<Rightarrow> failO (Null_pointer ''Event'') | Some a \<Rightarrow> deref h a)"

section \<open>The lists of a queue\<close>

record EventQueue =
  eq_name :: string
  eq_head :: event_ptr
  eq_curTick :: tick
  eq_async_queue :: "nat list"

definition EventQueue_new :: "string \<Rightarrow> EventQueue" where
  "EventQueue_new n = \<lparr>eq_name = n, eq_head = None, eq_curTick = 0, eq_async_queue = []\<rparr>"

text \<open>
  \<open>Event::insertBefore\<close> returns its first argument, which the callers store; only the store
  changes here.
\<close>

definition insertBefore :: "nat \<Rightarrow> event_ptr \<Rightarrow> heap \<Rightarrow> heap run" where
  "insertBefore event cur h =
    bindO (deref h event) (\<lambda>e.
      case cur of
        None \<Rightarrow> retO (h(event \<mapsto> e\<lparr>ev_nextBin := None, ev_nextInBin := None\<rparr>))
      | Some c \<Rightarrow> bindO (deref h c) (\<lambda>ec.
          if event_less e ec
          then retO (h(event \<mapsto> e\<lparr>ev_nextBin := Some c, ev_nextInBin := None\<rparr>))
          else retO (h(event \<mapsto> e\<lparr>ev_nextBin := ev_nextBin ec, ev_nextInBin := Some c\<rparr>))))"

text \<open>The loop of \<open>insert\<close> and \<open>remove\<close> over the bins: it ends with \<open>prev\<close> and \<open>curr\<close>.\<close>

partial_function (option) find_bin :: "heap \<Rightarrow> Event \<Rightarrow> nat \<Rightarrow> event_ptr \<Rightarrow> (nat \<times> event_ptr) run"
where
  [code]: "find_bin h e prev cur =
    (case cur of
       None \<Rightarrow> retO (prev, cur)
     | Some c \<Rightarrow> bindO (deref h c) (\<lambda>ec.
         if event_less ec e then find_bin h e c (ev_nextBin ec) else retO (prev, cur)))"

definition set_nextBin :: "nat \<Rightarrow> event_ptr \<Rightarrow> heap \<Rightarrow> heap run" where
  "set_nextBin a p h = bindO (deref h a) (\<lambda>e. retO (h(a \<mapsto> e\<lparr>ev_nextBin := p\<rparr>)))"

definition set_nextInBin :: "nat \<Rightarrow> event_ptr \<Rightarrow> heap \<Rightarrow> heap run" where
  "set_nextInBin a p h = bindO (deref h a) (\<lambda>e. retO (h(a \<mapsto> e\<lparr>ev_nextInBin := p\<rparr>)))"

definition eq_insert :: "nat \<Rightarrow> EventQueue \<times> heap \<Rightarrow> (EventQueue \<times> heap) run" where
  "eq_insert event = (\<lambda>(Q, h). bindO (deref h event) (\<lambda>e.
    case eq_head Q of
      None \<Rightarrow> bindO (insertBefore event None h) (\<lambda>h. retO (Q\<lparr>eq_head := Some event\<rparr>, h))
    | Some tp \<Rightarrow> bindO (deref h tp) (\<lambda>eh.
        if event_leq e eh
        then bindO (insertBefore event (Some tp) h) (\<lambda>h. retO (Q\<lparr>eq_head := Some event\<rparr>, h))
        else bindO (find_bin h e tp (ev_nextBin eh)) (\<lambda>(prev, cur).
             bindO (insertBefore event cur h) (\<lambda>h.
             bindO (set_nextBin prev (Some event) h) (\<lambda>h.
             retO (Q, h)))))))"

text \<open>The loop of \<open>removeItem\<close>: it ends with the item before the event.\<close>

partial_function (option) find_item :: "heap \<Rightarrow> nat \<Rightarrow> nat \<Rightarrow> event_ptr \<Rightarrow> nat run" where
  [code]: "find_item h event cur next =
    (case next of
       None \<Rightarrow> failO (Panic ''event not found!'')
     | Some n \<Rightarrow>
         if n = event then retO cur
         else bindO (deref_ptr h next) (\<lambda>en. find_item h event n (ev_nextInBin en)))"

definition removeItem :: "nat \<Rightarrow> nat \<Rightarrow> heap \<Rightarrow> (event_ptr \<times> heap) run" where
  "removeItem event tp h =
    bindO (deref h tp) (\<lambda>et.
      if event = tp
      then (case ev_nextInBin et of
              None \<Rightarrow> retO (ev_nextBin et, h)
            | Some next \<Rightarrow> bindO (set_nextBin next (ev_nextBin et) h) (\<lambda>h. retO (Some next, h)))
      else bindO (find_item h event tp (ev_nextInBin et)) (\<lambda>cur.
           bindO (deref h event) (\<lambda>e.
           bindO (set_nextInBin cur (ev_nextInBin e) h) (\<lambda>h.
           retO (Some tp, h)))))"

definition eq_remove :: "nat \<Rightarrow> nat \<Rightarrow> EventQueue \<times> heap \<Rightarrow> (EventQueue \<times> heap) run" where
  "eq_remove this event = (\<lambda>(Q, h).
    case eq_head Q of
      None \<Rightarrow> failO (Panic ''event not found!'')
    | Some tp \<Rightarrow>
        bindO (deref h event) (\<lambda>e.
        guardO (ev_queue e = Some this) (Assert_failed ''event->queue == this'') (
        bindO (deref h tp) (\<lambda>eh.
          if event_eq eh e
          then bindO (removeItem event tp h) (\<lambda>(p, h). retO (Q\<lparr>eq_head := p\<rparr>, h))
          else bindO (find_bin h e tp (ev_nextBin eh)) (\<lambda>(prev, cur).
               case cur of
                 None \<Rightarrow> failO (Panic ''event not found!'')
               | Some c \<Rightarrow> bindO (deref h c) (\<lambda>ec.
                   guardO (\<not> event_neq ec e) (Panic ''event not found!'') (
                   bindO (removeItem event c h) (\<lambda>(p, h).
                   bindO (set_nextBin prev p h) (\<lambda>h.
                   retO (Q, h)))))))))) "

text \<open>\<open>serviceOne\<close> up to the action: the head is popped.\<close>

definition pop_head :: "EventQueue \<times> heap \<Rightarrow> (nat \<times> EventQueue \<times> heap) run" where
  "pop_head = (\<lambda>(Q, h).
    case eq_head Q of
      None \<Rightarrow> failO (Null_pointer ''head'')
    | Some event \<Rightarrow> bindO (deref h event) (\<lambda>e.
        (let h1 = h(event \<mapsto> ev_clear Scheduled e)
         in case ev_nextInBin e of
              Some next \<Rightarrow> bindO (set_nextBin next (ev_nextBin e) h1) (\<lambda>h2.
                retO (event, Q\<lparr>eq_head := Some next\<rparr>, h2))
            | None \<Rightarrow> retO (event, Q\<lparr>eq_head := ev_nextBin e\<rparr>, h1))))"

text \<open>\<open>handleAsyncInsertions\<close> without its check of the current queue.\<close>

primrec insert_all :: "nat list \<Rightarrow> EventQueue \<times> heap \<Rightarrow> (EventQueue \<times> heap) run" where
  "insert_all [] s = retO s"
| "insert_all (a # as) s = bindO (eq_insert a s) (\<lambda>(Q, h).
     insert_all as (Q\<lparr>eq_async_queue := as\<rparr>, h))"

text \<open>\<open>dump\<close> visits the events in the order of this list; \<open>debugVerify\<close> is below.\<close>

partial_function (option) verify_bin ::
  "heap \<Rightarrow> event_ptr \<Rightarrow> tick \<Rightarrow> int \<Rightarrow> nat list \<Rightarrow> (bool \<times> tick \<times> int \<times> nat list) run"
where
  [code]: "verify_bin h p time prio seen =
    (case p of
       None \<Rightarrow> retO (True, time, prio, seen)
     | Some a \<Rightarrow> bindO (deref_ptr h p) (\<lambda>e.
         if ev_when e < time then retO (False, time, prio, seen)
         else if ev_when e = time \<and> ev_priority e < prio then retO (False, time, prio, seen)
         else if a \<in> set seen then retO (False, time, prio, seen)
         else verify_bin h (ev_nextInBin e) (ev_when e) (ev_priority e) (a # seen)))"

partial_function (option) verify_bins ::
  "heap \<Rightarrow> event_ptr \<Rightarrow> tick \<Rightarrow> int \<Rightarrow> nat list \<Rightarrow> bool run"
where
  [code]: "verify_bins h p time prio seen =
    (case p of
       None \<Rightarrow> retO True
     | Some a \<Rightarrow> bindO (verify_bin h p time prio seen) (\<lambda>r.
         if fst r
         then bindO (deref h a) (\<lambda>e.
                verify_bins h (ev_nextBin e) (fst (snd r)) (fst (snd (snd r))) (snd (snd (snd r))))
         else retO False))"

definition debugVerify :: "EventQueue \<times> heap \<Rightarrow> bool run" where
  "debugVerify = (\<lambda>(Q, h). verify_bins h (eq_head Q) 0 0 [])"


text \<open>\<open>dump\<close>, as the list of the events it prints.\<close>

partial_function (option) dump_bin :: "heap \<Rightarrow> event_ptr \<Rightarrow> nat list \<Rightarrow> nat list run" where
  [code]: "dump_bin h p out =
    (case p of
       None \<Rightarrow> retO out
     | Some a \<Rightarrow> bindO (deref_ptr h p) (\<lambda>e. dump_bin h (ev_nextInBin e) (out @ [a])))"

partial_function (option) dump_bins :: "heap \<Rightarrow> event_ptr \<Rightarrow> nat list \<Rightarrow> nat list run" where
  [code]: "dump_bins h p out =
    (case p of
       None \<Rightarrow> retO out
     | Some a \<Rightarrow> bindO (dump_bin h p out) (\<lambda>out.
         bindO (deref h a) (\<lambda>e. dump_bins h (ev_nextBin e) out)))"

definition eq_dump :: "EventQueue \<times> heap \<Rightarrow> nat list run" where
  "eq_dump = (\<lambda>(Q, h). dump_bins h (eq_head Q) [])"

section \<open>The kernel\<close>

text \<open>
  The globals of \<open>sim/eventq.cc\<close>: every event and every queue, the array
  \<open>mainEventQueue\<close> of the main queues, the queue of the running thread and the mode. Queues
  are allocated and never freed while the simulator runs: their addresses are the indices of
  \<open>k_queues\<close>. The last fields are the flags of \<open>sim/async.cc\<close> that the signal handlers set.
\<close>

record kernel =
  k_events :: heap
  k_queues :: "EventQueue list"
  k_mainEventQueue :: "nat list"
  k_numMainEventQueues :: nat
  k_curEventQueue :: "nat option"
  k_inParallelMode :: bool
  k_async_event :: bool
  k_async_statdump :: bool
  k_async_statreset :: bool
  k_async_io :: bool
  k_async_exit :: bool
  k_async_exception :: bool

definition queue_at :: "kernel \<Rightarrow> nat \<Rightarrow> EventQueue run" where
  "queue_at k q =
    (if q < length (k_queues k) then retO (k_queues k ! q) else failO (Null_pointer ''EventQueue''))"

definition on_queue ::
  "nat \<Rightarrow> (EventQueue \<times> heap \<Rightarrow> (EventQueue \<times> heap) run) \<Rightarrow> kernel \<Rightarrow> kernel run"
where
  "on_queue q f k =
    bindO (queue_at k q) (\<lambda>Q.
    bindO (f (Q, k_events k)) (\<lambda>(Q, h).
    retO (k\<lparr>k_queues := (k_queues k)[q := Q], k_events := h\<rparr>)))"

definition on_event :: "nat \<Rightarrow> (Event \<Rightarrow> Event) \<Rightarrow> kernel \<Rightarrow> kernel run" where
  "on_event a f k =
    bindO (deref (k_events k) a) (\<lambda>e. retO (k\<lparr>k_events := (k_events k)(a \<mapsto> f e)\<rparr>))"

text \<open>\<open>squash\<close>, and the access of derived classes to the flags.\<close>

definition Event_squash :: "nat \<Rightarrow> kernel \<Rightarrow> kernel run" where
  "Event_squash a = on_event a ev_squash"

definition Event_setFlags :: "flag_bits \<Rightarrow> nat \<Rightarrow> kernel \<Rightarrow> kernel run" where
  "Event_setFlags m a k =
    guardO (flags_noneSet m (NOT PublicWrite)) (Assert_failed ''setFlags'') (on_event a (ev_set m) k)"

definition Event_clearFlags :: "flag_bits \<Rightarrow> nat \<Rightarrow> kernel \<Rightarrow> kernel run" where
  "Event_clearFlags m a k =
    guardO (flags_noneSet m (NOT PublicWrite)) (Assert_failed ''clearFlags'')
      (on_event a (ev_clear m) k)"

text \<open>\<open>~Event\<close>, and the default memory management of managed events.\<close>

definition Event_delete :: "nat \<Rightarrow> kernel \<Rightarrow> kernel run" where
  "Event_delete a k =
    bindO (deref (k_events k) a) (\<lambda>e.
    guardO (\<not> ev_scheduled e) (Assert_failed ''!scheduled()'') (
    retO (k\<lparr>k_events := (k_events k)(a := None)\<rparr>)))"

definition Event_acquire :: "nat \<Rightarrow> kernel \<Rightarrow> kernel run" where
  "Event_acquire a k = bindO (deref (k_events k) a) (\<lambda>e. retO k)"

definition Event_release :: "nat \<Rightarrow> kernel \<Rightarrow> kernel run" where
  "Event_release a k =
    bindO (deref (k_events k) a) (\<lambda>e.
      if ev_isManaged e \<and> \<not> ev_scheduled e then Event_delete a k else retO k)"

definition asyncInsert :: "nat \<Rightarrow> nat \<Rightarrow> kernel \<Rightarrow> kernel run" where
  "asyncInsert q a =
    on_queue q (\<lambda>(Q, h). retO (Q\<lparr>eq_async_queue := eq_async_queue Q @ [a]\<rparr>, h))"

definition eq_schedule :: "nat \<Rightarrow> nat \<Rightarrow> tick \<Rightarrow> bool \<Rightarrow> kernel \<Rightarrow> kernel run" where
  "eq_schedule q a t global k =
    bindO (queue_at k q) (\<lambda>Q.
    guardO (t \<ge> eq_curTick Q) (Assert_failed ''when >= getCurTick()'') (
    bindO (deref (k_events k) a) (\<lambda>e.
    guardO (\<not> ev_scheduled e) (Assert_failed ''!event->scheduled()'') (
    guardO (ev_initialized e) (Assert_failed ''event->initialized()'') (
    bindO (on_event a (ev_setWhen t q) k) (\<lambda>k.
    bindO (if k_inParallelMode k \<and> (k_curEventQueue k \<noteq> Some q \<or> global)
           then asyncInsert q a k else on_queue q (eq_insert a) k) (\<lambda>k.
    bindO (on_event a (ev_set Scheduled) k) (\<lambda>k.
    Event_acquire a k))))))))"

definition eq_deschedule :: "nat \<Rightarrow> nat \<Rightarrow> kernel \<Rightarrow> kernel run" where
  "eq_deschedule q a k =
    bindO (deref (k_events k) a) (\<lambda>e.
    guardO (ev_scheduled e) (Assert_failed ''event->scheduled()'') (
    guardO (ev_initialized e) (Assert_failed ''event->initialized()'') (
    guardO (\<not> k_inParallelMode k \<or> k_curEventQueue k = Some q)
      (Assert_failed ''!inParallelMode || this == curEventQueue()'') (
    bindO (on_queue q (eq_remove q a) k) (\<lambda>k.
    bindO (on_event a (ev_clear Squashed) k) (\<lambda>k.
    bindO (on_event a (ev_clear Scheduled) k) (\<lambda>k.
    Event_release a k)))))))"

definition eq_reschedule :: "nat \<Rightarrow> nat \<Rightarrow> tick \<Rightarrow> bool \<Rightarrow> kernel \<Rightarrow> kernel run" where
  "eq_reschedule q a t always k =
    bindO (queue_at k q) (\<lambda>Q.
    guardO (t \<ge> eq_curTick Q) (Assert_failed ''when >= getCurTick()'') (
    bindO (deref (k_events k) a) (\<lambda>e.
    guardO (always \<or> ev_scheduled e) (Assert_failed ''always || event->scheduled()'') (
    guardO (ev_initialized e) (Assert_failed ''event->initialized()'') (
    guardO (\<not> k_inParallelMode k \<or> k_curEventQueue k = Some q)
      (Assert_failed ''!inParallelMode || this == curEventQueue()'') (
    bindO (if ev_scheduled e then on_queue q (eq_remove q a) k else Event_acquire a k) (\<lambda>k.
    bindO (on_event a (ev_setWhen t q) k) (\<lambda>k.
    bindO (on_queue q (eq_insert a) k) (\<lambda>k.
    bindO (on_event a (ev_clear Squashed) k) (\<lambda>k.
    on_event a (ev_set Scheduled) k))))))))))"

definition eq_setCurTick :: "nat \<Rightarrow> tick \<Rightarrow> kernel \<Rightarrow> kernel run" where
  "eq_setCurTick q t = on_queue q (\<lambda>(Q, h). retO (Q\<lparr>eq_curTick := t\<rparr>, h))"

definition eq_nextTick :: "nat \<Rightarrow> kernel \<Rightarrow> tick run" where
  "eq_nextTick q k =
    bindO (queue_at k q) (\<lambda>Q. bindO (deref_ptr (k_events k) (eq_head Q)) (\<lambda>e. retO (ev_when e)))"

definition eq_empty :: "nat \<Rightarrow> kernel \<Rightarrow> bool run" where
  "eq_empty q k = bindO (queue_at k q) (\<lambda>Q. retO (eq_head Q = None))"

definition curTick :: "kernel \<Rightarrow> tick run" where
  "curTick k =
    (case k_curEventQueue k of
       None \<Rightarrow> failO (Null_pointer ''_curTickPtr'')
     | Some q \<Rightarrow> bindO (queue_at k q) (\<lambda>Q. retO (eq_curTick Q)))"

text \<open>
  \<open>serviceOne\<close>; the virtual \<open>process\<close> of the event is the parameter \<open>process\<close>. The result is
  the exit event, if the event is one.
\<close>

definition serviceOne ::
  "(nat \<Rightarrow> kernel \<Rightarrow> kernel run) \<Rightarrow> nat \<Rightarrow> kernel \<Rightarrow> (event_ptr \<times> kernel) run"
where
  "serviceOne process q k =
    bindO (queue_at k q) (\<lambda>Q.
    bindO (pop_head (Q, k_events k)) (\<lambda>(a, Q, h).
    let k = k\<lparr>k_queues := (k_queues k)[q := Q], k_events := h\<rparr> in
    bindO (deref (k_events k) a) (\<lambda>e.
      if \<not> ev_squashed e
      then bindO (eq_setCurTick q (ev_when e) k) (\<lambda>k.
           bindO (process a k) (\<lambda>k.
           bindO (deref (k_events k) a) (\<lambda>e.
             if ev_isExitEvent e
             then guardO (\<not> ev_isManaged e \<or> \<not> flags_isSet (ev_flags e) IsMainQueue)
                    (Assert_failed ''would be silly'') (retO (Some a, k))
             else bindO (Event_release a k) (\<lambda>k. retO (None, k)))))
      else bindO (on_event a (ev_clear Squashed) k) (\<lambda>k.
           bindO (Event_release a k) (\<lambda>k. retO (None, k))))))"

partial_function (option) serviceEvents ::
  "(nat \<Rightarrow> kernel \<Rightarrow> kernel run) \<Rightarrow> nat \<Rightarrow> tick \<Rightarrow> kernel \<Rightarrow> kernel run"
where
  [code]: "serviceEvents process q t k =
    bindO (eq_empty q k) (\<lambda>none.
      if none then eq_setCurTick q t k
      else bindO (eq_nextTick q k) (\<lambda>t'.
        if t' > t then eq_setCurTick q t k
        else bindO (serviceOne process q k) (\<lambda>r. serviceEvents process q t (snd r))))"

text \<open>\<open>~EventQueue\<close>.\<close>

partial_function (option) EventQueue_delete :: "nat \<Rightarrow> kernel \<Rightarrow> kernel run" where
  [code]: "EventQueue_delete q k =
    bindO (queue_at k q) (\<lambda>Q.
      if eq_head Q = None then retO k
      else bindO (eq_deschedule q (the (eq_head Q)) k) (EventQueue_delete q))"

definition handleAsyncInsertions :: "nat \<Rightarrow> kernel \<Rightarrow> kernel run" where
  "handleAsyncInsertions q k =
    guardO (k_curEventQueue k = Some q) (Assert_failed ''this == curEventQueue()'') (
    on_queue q (\<lambda>(Q, h). insert_all (eq_async_queue Q) (Q, h)) k)"

definition replaceHead :: "nat \<Rightarrow> event_ptr \<Rightarrow> kernel \<Rightarrow> (event_ptr \<times> kernel) run" where
  "replaceHead q s k =
    bindO (queue_at k q) (\<lambda>Q.
    retO (eq_head Q, k\<lparr>k_queues := (k_queues k)[q := Q\<lparr>eq_head := s\<rparr>]\<rparr>))"

text \<open>\<open>getEventQueue\<close>; \<open>%d\<close> prints the decimal digits.\<close>

fun decimal :: "nat \<Rightarrow> string" where
  "decimal n =
    (if n < 10 then [char_of (48 + n)] else decimal (n div 10) @ [char_of (48 + n mod 10)])"

declare decimal.simps [simp del]

function grow_queues :: "nat \<Rightarrow> kernel \<Rightarrow> kernel" where
  "grow_queues index k =
    (if k_numMainEventQueues k \<le> index
     then grow_queues index
       (k\<lparr>k_numMainEventQueues := k_numMainEventQueues k + 1,
          k_mainEventQueue := k_mainEventQueue k @ [length (k_queues k)],
          k_queues := k_queues k @ [EventQueue_new (''MainEventQueue-'' @ decimal index)]\<rparr>)
     else k)"
  by auto
termination by (relation "measure (\<lambda>(i, k). Suc i - k_numMainEventQueues k)") auto

declare grow_queues.simps [simp del]

definition getEventQueue :: "nat \<Rightarrow> kernel \<Rightarrow> (nat \<times> kernel) run" where
  "getEventQueue index k =
    (let k = grow_queues index k
     in if index < length (k_mainEventQueue k) then retO (k_mainEventQueue k ! index, k)
        else failO Out_of_range)"

section \<open>Checkpoints\<close>

text \<open>
  The scalars that \<open>serialize\<close> writes; the flags go through a \<open>short\<close>. \<open>unserialize\<close> reads
  them into an event that the constructor made.
\<close>

record event_checkpoint =
  cp_when :: tick
  cp_priority :: int
  cp_flags :: int

definition ev_serialize :: "Event \<Rightarrow> event_checkpoint" where
  "ev_serialize e =
    \<lparr>cp_when = ev_when e, cp_priority = ev_priority e, cp_flags = sint (ev_flags e)\<rparr>"

definition ev_unserialize :: "event_checkpoint \<Rightarrow> Event \<Rightarrow> Event res" where
  "ev_unserialize cp e =
    guardR (\<not> ev_scheduled e) (Assert_failed ''!scheduled()'') (
    guardR (0 \<le> cp_flags cp \<and> cp_flags cp < 2 ^ 16) (Fatal ''Can't unserialize _flags'') (
    guardR (ev_initialized e) (Assert_failed ''initialized()'') (
    let fl = flags_set (word_of_int (cp_flags cp)) Initialized;
        fl = (if flags_isSet fl Scheduled \<and> \<not> flags_isSet fl Squashed
              then flags_clear fl (Squashed OR Scheduled) else fl)
    in Inr (e\<lparr>ev_when := cp_when cp, ev_priority := cp_priority cp, ev_flags := fl\<rparr>))))"

definition checkpointReschedule :: "nat \<Rightarrow> nat \<Rightarrow> kernel \<Rightarrow> kernel run" where
  "checkpointReschedule q a k =
    bindO (deref (k_events k) a) (\<lambda>e.
      if flags_isSet (ev_flags e) Scheduled then on_queue q (eq_insert a) k else retO k)"

text \<open>The macro \<open>UNSERIALIZE_EVENT\<close> for an event whose manager has the queue \<open>q\<close>.\<close>

definition unserialize_event :: "nat \<Rightarrow> nat \<Rightarrow> event_checkpoint \<Rightarrow> kernel \<Rightarrow> kernel run" where
  "unserialize_event q a cp k =
    bindO (deref (k_events k) a) (\<lambda>e.
    bindO (Some (ev_unserialize cp e)) (\<lambda>e.
    checkpointReschedule q a (k\<lparr>k_events := (k_events k)(a \<mapsto> e)\<rparr>)))"

end
