(* ===== verification/EventQueueSpec.thy ===== *)
theory EventQueueSpec
  imports EventQueue "HOL-Library.Product_Lexorder"
begin

text \<open>
  What the lists of \<open>sim/eventq.cc\<close> stand for: bins in increasing order of time and priority,
  each a stack of events. \<open>bins_at\<close> relates the pointers in the store to the bins; only the
  \<open>nextBin\<close> of the top of a bin counts, the others are stale. \<open>insert\<close> and \<open>remove\<close> return on
  every well-formed list and refine the operations on bins.
\<close>

section \<open>Bins\<close>

type_synonym key = "tick \<times> int"
type_synonym bins = "(key \<times> nat list) list"

definition ev_key :: "Event \<Rightarrow> key" where
  "ev_key e = (ev_when e, ev_priority e)"

definition elems :: "bins \<Rightarrow> nat list" where
  "elems bs = concat (map snd bs)"

definition wf_bins :: "bins \<Rightarrow> bool" where
  "wf_bins bs \<longleftrightarrow> sorted_wrt (<) (map fst bs) \<and> distinct (elems bs)"

fun bins_insert :: "key \<Rightarrow> nat \<Rightarrow> bins \<Rightarrow> bins" where
  "bins_insert k a [] = [(k, [a])]"
| "bins_insert k a ((k', b) # bs) =
    (if k < k' then (k, [a]) # (k', b) # bs
     else if k = k' then (k', a # b) # bs
     else (k', b) # bins_insert k a bs)"

definition bin_cons :: "key \<Rightarrow> nat list \<Rightarrow> bins \<Rightarrow> bins" where
  "bin_cons k b bs = (if b = [] then bs else (k, b) # bs)"

fun bins_remove :: "key \<Rightarrow> nat \<Rightarrow> bins \<Rightarrow> bins" where
  "bins_remove k a [] = []"
| "bins_remove k a ((k', b) # bs) =
    (if k = k' then bin_cons k' (remove1 a b) bs else (k', b) # bins_remove k a bs)"

fun bins_pop :: "bins \<Rightarrow> bins" where
  "bins_pop [] = []"
| "bins_pop ((k, b) # bs) = bin_cons k (tl b) bs"

lemma elems_simps [simp]:
  "elems [] = []"
  "elems ((k, b) # bs) = b @ elems bs"
  by (simp_all add: elems_def)

lemma elems_bin_cons [simp]: "elems (bin_cons k b bs) = b @ elems bs"
  by (simp add: bin_cons_def)

lemma set_elems_insert [simp]: "set (elems (bins_insert k a bs)) = insert a (set (elems bs))"
  by (induction k a bs rule: bins_insert.induct) auto

lemma distinct_elems_insert:
  "distinct (elems bs) \<Longrightarrow> a \<notin> set (elems bs) \<Longrightarrow> distinct (elems (bins_insert k a bs))"
  by (induction k a bs rule: bins_insert.induct) auto

lemma fst_bins_insert: "fst ` set (bins_insert k a bs) = insert k (fst ` set bs)"
  by (induction k a bs rule: bins_insert.induct) auto

lemma sorted_bins_insert:
  "sorted_wrt (<) (map fst bs) \<Longrightarrow> sorted_wrt (<) (map fst (bins_insert k a bs))"
proof (induction k a bs rule: bins_insert.induct)
  case (2 k a k' b bs)
  consider "k < k'" | "k = k'" | "k' < k" by fastforce
  then show ?case
  proof cases
    case 1
    then show ?thesis using 2(2) by (auto dest: less_trans)
  next
    case 2
    then show ?thesis using \<open>sorted_wrt (<) (map fst ((k', b) # bs))\<close> by simp
  next
    case 3
    have "\<forall>x \<in> set (map fst (bins_insert k a bs)). k' < x"
      using 2(2) 3 fst_bins_insert [of k a bs] by auto
    then show ?thesis using 2 3 by auto
  qed
qed simp

lemma wf_bins_insert: "wf_bins bs \<Longrightarrow> a \<notin> set (elems bs) \<Longrightarrow> wf_bins (bins_insert k a bs)"
  by (simp add: wf_bins_def sorted_bins_insert distinct_elems_insert)

lemma wf_bins_tl: "wf_bins (b # bs) \<Longrightarrow> wf_bins bs"
  by (cases b) (simp add: wf_bins_def)

lemma fst_bins_remove: "fst ` set (bins_remove k a bs) \<subseteq> fst ` set bs"
  by (induction k a bs rule: bins_remove.induct) (auto simp: bin_cons_def split: if_splits)

lemma set_elems_remove: "set (elems (bins_remove k a bs)) \<subseteq> set (elems bs)"
  by (induction k a bs rule: bins_remove.induct) (auto dest: set_remove1_subset [THEN subsetD])

lemma distinct_elems_remove: "distinct (elems bs) \<Longrightarrow> distinct (elems (bins_remove k a bs))"
proof (induction k a bs rule: bins_remove.induct)
  case (2 k a k' b bs)
  then show ?case using set_elems_remove [of k a bs] set_remove1_subset [of a b] by auto
qed simp

lemma wf_bins_remove: "wf_bins bs \<Longrightarrow> wf_bins (bins_remove k a bs)"
proof -
  have "sorted_wrt (<) (map fst bs) \<Longrightarrow> sorted_wrt (<) (map fst (bins_remove k a bs))"
  proof (induction k a bs rule: bins_remove.induct)
    case (2 k a k' b bs)
    have "\<forall>x \<in> fst ` set bs. k' < x" using 2 by simp
    then have "\<forall>x \<in> fst ` set (bins_remove k a bs). k' < x"
      using fst_bins_remove [of k a bs] by blast
    then show ?case using 2 by (auto simp: bin_cons_def)
  qed simp
  then show "wf_bins bs \<Longrightarrow> wf_bins (bins_remove k a bs)"
    by (simp add: wf_bins_def distinct_elems_remove)
qed

lemma wf_bins_pop: "wf_bins bs \<Longrightarrow> wf_bins (bins_pop bs)"
proof (cases bs)
  case (Cons kb bs')
  obtain k b where "kb = (k, b)" by fastforce
  moreover have "set (tl b) \<subseteq> set b" by (cases b) auto
  moreover assume "wf_bins bs"
  ultimately show ?thesis using Cons by (auto simp: wf_bins_def bin_cons_def distinct_tl)
qed simp

lemma elems_pop: "[] \<notin> snd ` set bs \<Longrightarrow> elems (bins_pop bs) = tl (elems bs)"
  by (cases bs) auto

text \<open>Removing what was inserted gives the bins back.\<close>

lemma bins_remove_insert:
  "[] \<notin> snd ` set bs \<Longrightarrow> bins_remove k a (bins_insert k a bs) = bs"
  by (induction k a bs rule: bins_insert.induct) (auto simp: bin_cons_def)

section \<open>The lists in the store\<close>

fun in_bin :: "heap \<Rightarrow> key \<Rightarrow> event_ptr \<Rightarrow> nat list \<Rightarrow> bool" where
  "in_bin h k p [] \<longleftrightarrow> p = None"
| "in_bin h k p (a # as) \<longleftrightarrow>
    p = Some a \<and> (\<exists>e. h a = Some e \<and> ev_key e = k \<and> in_bin h k (ev_nextInBin e) as)"

fun bins_at :: "heap \<Rightarrow> event_ptr \<Rightarrow> bins \<Rightarrow> bool" where
  "bins_at h p [] \<longleftrightarrow> p = None"
| "bins_at h p ((k, []) # bs) \<longleftrightarrow> False"
| "bins_at h p ((k, a # as) # bs) \<longleftrightarrow>
    p = Some a \<and>
    (\<exists>e. h a = Some e \<and> ev_key e = k \<and> in_bin h k (ev_nextInBin e) as \<and>
         bins_at h (ev_nextBin e) bs)"

text \<open>What a bin and the list of the bins read of an event; and what they never write.\<close>

definition item :: "heap \<Rightarrow> nat \<Rightarrow> (key \<times> event_ptr) option" where
  "item h a = map_option (\<lambda>e. (ev_key e, ev_nextInBin e)) (h a)"

definition link :: "heap \<Rightarrow> nat \<Rightarrow> (key \<times> event_ptr \<times> event_ptr) option" where
  "link h a = map_option (\<lambda>e. (ev_key e, ev_nextInBin e, ev_nextBin e)) (h a)"

definition data :: "heap \<Rightarrow> nat \<Rightarrow> Event option" where
  "data h a = map_option (\<lambda>e. e\<lparr>ev_nextBin := None, ev_nextInBin := None\<rparr>) (h a)"

lemma in_bin_frame:
  "(\<And>x. x \<in> set as \<Longrightarrow> item h' x = item h x) \<Longrightarrow> in_bin h' k p as = in_bin h k p as"
proof (induction as arbitrary: p)
  case (Cons a as)
  have "item h' a = item h a" by (simp add: Cons.prems)
  moreover have "in_bin h' k q as = in_bin h k q as" for q by (simp add: Cons)
  ultimately show ?case by (cases "h a"; cases "h' a") (auto simp: item_def)
qed simp

lemma item_link: "link h' a = link h a \<Longrightarrow> item h' a = item h a"
  by (cases "h a"; cases "h' a") (auto simp: item_def link_def)

lemma bins_at_frame:
  "(\<And>x. x \<in> set (elems bs) \<Longrightarrow> link h' x = link h x) \<Longrightarrow> bins_at h' p bs = bins_at h p bs"
proof (induction h p bs rule: bins_at.induct)
  case (3 h p k a as bs)
  have l: "link h' a = link h a" by (rule "3.prems") simp
  have i: "in_bin h' k q as = in_bin h k q as" for q
    by (rule in_bin_frame, rule item_link, rule "3.prems") simp
  show ?case
  proof (cases "h a")
    case None
    then show ?thesis using l by (auto simp: link_def)
  next
    case (Some e)
    then obtain e' where e': "h' a = Some e'" "ev_key e' = ev_key e"
      "ev_nextInBin e' = ev_nextInBin e" "ev_nextBin e' = ev_nextBin e"
      using l by (auto simp: link_def)
    have "bins_at h' (ev_nextBin e) bs = bins_at h (ev_nextBin e) bs"
      by (rule "3.IH", rule "3.prems") simp
    then show ?thesis using e' Some i by simp
  qed
qed simp_all

lemma bins_at_same: "(\<And>x. x \<in> set (elems bs) \<Longrightarrow> h' x = h x) \<Longrightarrow> bins_at h' p bs = bins_at h p bs"
  by (rule bins_at_frame) (simp add: link_def)

lemma bins_at_upd [simp]: "a \<notin> set (elems bs) \<Longrightarrow> bins_at (h(a := v)) p bs = bins_at h p bs"
  by (rule bins_at_same) auto

lemma in_bin_same: "(\<And>x. x \<in> set as \<Longrightarrow> h' x = h x) \<Longrightarrow> in_bin h' k p as = in_bin h k p as"
  by (rule in_bin_frame) (simp add: item_def)

lemma in_bin_key: "in_bin h k p as \<Longrightarrow> x \<in> set as \<Longrightarrow> \<exists>e. h x = Some e \<and> ev_key e = k"
  by (induction as arbitrary: p) auto

lemma bins_at_nonempty: "bins_at h p bs \<Longrightarrow> [] \<notin> snd ` set bs"
  by (induction h p bs rule: bins_at.induct) auto

lemma bins_at_key:
  "bins_at h p bs \<Longrightarrow> (k, b) \<in> set bs \<Longrightarrow> x \<in> set b \<Longrightarrow> \<exists>e. h x = Some e \<and> ev_key e = k"
  by (induction h p bs rule: bins_at.induct) (auto dest: in_bin_key)

lemma bins_at_alive: "bins_at h p bs \<Longrightarrow> x \<in> set (elems bs) \<Longrightarrow> \<exists>e. h x = Some e"
  by (auto simp: elems_def dest: bins_at_key)

lemma event_less_key: "event_less l r \<longleftrightarrow> ev_key l < ev_key r"
  by (auto simp: event_less_def ev_key_def)

lemma event_leq_key: "event_leq l r \<longleftrightarrow> ev_key l \<le> ev_key r"
  by (auto simp: event_leq_def ev_key_def)

lemma event_eq_key: "event_eq l r \<longleftrightarrow> ev_key l = ev_key r"
  by (auto simp: event_eq_def ev_key_def)

lemma event_neq_key: "event_neq l r \<longleftrightarrow> ev_key l \<noteq> ev_key r"
  by (auto simp: event_neq_def ev_key_def)

lemmas event_order = event_less_key event_leq_key event_eq_key event_neq_key

lemma ev_key_update [simp]:
  "ev_key (e\<lparr>ev_nextBin := p\<rparr>) = ev_key e"
  "ev_key (e\<lparr>ev_nextInBin := p\<rparr>) = ev_key e"
  "ev_key (e\<lparr>ev_flags := f\<rparr>) = ev_key e"
  "ev_key (e\<lparr>ev_queue := q\<rparr>) = ev_key e"
  by (simp_all add: ev_key_def)

lemma data_update:
  "h a = Some e \<Longrightarrow> data (h(a \<mapsto> e\<lparr>ev_nextBin := p\<rparr>)) = data h"
  "h a = Some e \<Longrightarrow> data (h(a \<mapsto> e\<lparr>ev_nextInBin := p\<rparr>)) = data h"
  by (simp_all add: data_def fun_eq_iff)

lemma deref_Some [simp]: "h a = Some e \<Longrightarrow> deref h a = retO e"
  by (simp add: deref_def)

lemma deref_ptr_Some [simp]: "deref_ptr h (Some a) = deref h a"
  by (simp add: deref_ptr_def)


section \<open>Insertion refines the insertion into bins\<close>

lemma find_bin_None [simp]: "find_bin h e prev None = retO (prev, None)"
  by (subst find_bin.simps) simp

lemma find_bin_Some:
  "h c = Some ec \<Longrightarrow> find_bin h e prev (Some c) =
    (if ev_key ec < ev_key e then find_bin h e c (ev_nextBin ec) else retO (prev, Some c))"
  by (subst find_bin.simps) (simp add: event_less_key)

lemma insertBefore_None:
  "h a = Some e \<Longrightarrow>
    insertBefore a None h = retO (h(a \<mapsto> e\<lparr>ev_nextBin := None, ev_nextInBin := None\<rparr>))"
  by (simp add: insertBefore_def)

lemma insertBefore_Some:
  "h a = Some e \<Longrightarrow> h c = Some ec \<Longrightarrow>
    insertBefore a (Some c) h =
      retO (h(a \<mapsto> (if ev_key e < ev_key ec
                     then e\<lparr>ev_nextBin := Some c, ev_nextInBin := None\<rparr>
                     else e\<lparr>ev_nextBin := ev_nextBin ec, ev_nextInBin := Some c\<rparr>)))"
  by (simp add: insertBefore_def event_less_key)

lemma set_nextBin_Some:
  "h a = Some e \<Longrightarrow> set_nextBin a p h = retO (h(a \<mapsto> e\<lparr>ev_nextBin := p\<rparr>))"
  by (simp add: set_nextBin_def)

lemma set_nextInBin_Some:
  "h a = Some e \<Longrightarrow> set_nextInBin a p h = retO (h(a \<mapsto> e\<lparr>ev_nextInBin := p\<rparr>))"
  by (simp add: set_nextInBin_def)

text \<open>
  Linking the event before \<open>cur\<close>: when \<open>cur\<close> is where the event belongs, what the event heads
  afterwards is the list with the event in it.
\<close>

lemma insertBefore_front:
  assumes rep: "bins_at h p bs" and a: "h a = Some e" "a \<notin> set (elems bs)"
    and fits: "\<And>k b bs'. bs = (k, b) # bs' \<Longrightarrow> ev_key e \<le> k"
  obtains e' where "insertBefore a p h = retO (h(a \<mapsto> e'))"
    "bins_at (h(a \<mapsto> e')) (Some a) (bins_insert (ev_key e) a bs)"
    "e'\<lparr>ev_nextBin := None, ev_nextInBin := None\<rparr> = e\<lparr>ev_nextBin := None, ev_nextInBin := None\<rparr>"
proof (cases bs)
  case Nil
  then show ?thesis
    using rep a by (intro that [of "e\<lparr>ev_nextBin := None, ev_nextInBin := None\<rparr>"])
      (simp_all add: insertBefore_None)
next
  case (Cons kb bs')
  then obtain k x xs ex where bs: "bs = (k, x # xs) # bs'" and p: "p = Some x"
    and x: "h x = Some ex" "ev_key ex = k" "in_bin h k (ev_nextInBin ex) xs"
      "bins_at h (ev_nextBin ex) bs'"
    using rep by (cases "(h, p, bs)" rule: bins_at.cases) auto
  have frame: "in_bin (h(a \<mapsto> e')) k q xs = in_bin h k q xs"
    "bins_at (h(a \<mapsto> e')) q bs' = bins_at h q bs'" for e' q
    using a bs by (auto intro!: in_bin_same bins_at_same)
  have neq: "x \<noteq> a" using a bs by auto
  have k: "ev_key e \<le> k" by (rule fits) (rule bs)
  show ?thesis
  proof (cases "ev_key e < k")
    case True
    show ?thesis
      by (rule that [of "e\<lparr>ev_nextBin := Some x, ev_nextInBin := None\<rparr>"])
        (use True x p a neq in \<open>simp_all add: insertBefore_Some bs frame\<close>)
  next
    case False
    with k have "ev_key e = k" by simp
    then show ?thesis
      by (intro that [of "e\<lparr>ev_nextBin := ev_nextBin ex, ev_nextInBin := Some x\<rparr>"])
        (use x p a neq in \<open>simp_all add: insertBefore_Some bs frame\<close>)
  qed
qed

lemma insert_found:
  assumes "find_bin h e pr p = retO (pr, p)" "h a = Some e" "pr \<noteq> a" "h pr = Some epr"
    and "insertBefore a p h = retO (h(a \<mapsto> e'))"
    and "e'\<lparr>ev_nextBin := None, ev_nextInBin := None\<rparr> = e\<lparr>ev_nextBin := None, ev_nextInBin := None\<rparr>"
    and "bins_at (h(a \<mapsto> e', pr \<mapsto> epr\<lparr>ev_nextBin := Some a\<rparr>)) (Some a) bs'"
  shows "\<exists>pr' cur h1 h2 p2. find_bin h e pr p = retO (pr', cur) \<and>
    insertBefore a cur h = retO h1 \<and> set_nextBin pr' (Some a) h1 = retO h2 \<and>
    data h2 = data h \<and> (\<forall>x. x \<notin> insert a (insert pr X) \<longrightarrow> h2 x = h x) \<and>
    h2 pr = Some (epr\<lparr>ev_nextBin := p2\<rparr>) \<and> bins_at h2 p2 bs'"
proof -
  let ?h = "h(a \<mapsto> e', pr \<mapsto> epr\<lparr>ev_nextBin := Some a\<rparr>)"
  have "set_nextBin pr (Some a) (h(a \<mapsto> e')) = retO ?h"
    using assms(3,4) by (simp add: set_nextBin_Some)
  moreover have "data ?h = data h"
    using assms by (simp add: data_def fun_eq_iff)
  moreover have "\<forall>x. x \<notin> insert a (insert pr X) \<longrightarrow> ?h x = h x"
    "?h pr = Some (epr\<lparr>ev_nextBin := Some a\<rparr>)" by simp_all
  ultimately show ?thesis using assms(1,5,7) by blast
qed

lemma find_bin_insert:
  assumes "bins_at h p bs" "distinct (elems bs)" "h a = Some e" "a \<notin> set (elems bs)"
    and "h pr = Some epr" "ev_nextBin epr = p" "pr \<notin> set (elems bs)" "pr \<noteq> a"
  shows "\<exists>pr' cur h1 h2 p2. find_bin h e pr p = retO (pr', cur) \<and>
    insertBefore a cur h = retO h1 \<and> set_nextBin pr' (Some a) h1 = retO h2 \<and>
    data h2 = data h \<and> (\<forall>x. x \<notin> insert a (insert pr (set (elems bs))) \<longrightarrow> h2 x = h x) \<and>
    h2 pr = Some (epr\<lparr>ev_nextBin := p2\<rparr>) \<and> bins_at h2 p2 (bins_insert (ev_key e) a bs)"
  using assms
proof (induction bs arbitrary: pr epr p)
  case Nil
  obtain e' where e': "insertBefore a p h = retO (h(a \<mapsto> e'))"
    "bins_at (h(a \<mapsto> e')) (Some a) (bins_insert (ev_key e) a [])"
    "e'\<lparr>ev_nextBin := None, ev_nextInBin := None\<rparr> = e\<lparr>ev_nextBin := None, ev_nextInBin := None\<rparr>"
    using insertBefore_front [of h p "[]" a e] Nil by auto
  let ?h = "h(a \<mapsto> e', pr \<mapsto> epr\<lparr>ev_nextBin := Some a\<rparr>)"
  have "bins_at ?h (Some a) (bins_insert (ev_key e) a [])"
    using e'(2) Nil by (subst bins_at_same [of _ _ "h(a \<mapsto> e')"]) auto
  then show ?case using Nil e' by (intro insert_found [of _ _ pr p]) simp_all
next
  case (Cons kb bs)
  then obtain k x xs ex where kb: "kb = (k, x # xs)" and p: "p = Some x"
    and x: "h x = Some ex" "ev_key ex = k" "in_bin h k (ev_nextInBin ex) xs"
      "bins_at h (ev_nextBin ex) bs"
    by (cases "(h, p, kb # bs)" rule: bins_at.cases) auto
  show ?case
  proof (cases "k < ev_key e")
    case True
    have "\<exists>pr' cur h1 h2 p2. find_bin h e x (ev_nextBin ex) = retO (pr', cur) \<and>
        insertBefore a cur h = retO h1 \<and> set_nextBin pr' (Some a) h1 = retO h2 \<and>
        data h2 = data h \<and> (\<forall>y. y \<notin> insert a (insert x (set (elems bs))) \<longrightarrow> h2 y = h y) \<and>
        h2 x = Some (ex\<lparr>ev_nextBin := p2\<rparr>) \<and> bins_at h2 p2 (bins_insert (ev_key e) a bs)"
      by (rule Cons.IH) (use Cons.prems kb x in auto)
    then obtain pr' cur h1 h2 p2 where r: "find_bin h e x (ev_nextBin ex) = retO (pr', cur)"
      "insertBefore a cur h = retO h1" "set_nextBin pr' (Some a) h1 = retO h2"
      "data h2 = data h" "\<And>y. y \<notin> insert a (insert x (set (elems bs))) \<Longrightarrow> h2 y = h y"
      "h2 x = Some (ex\<lparr>ev_nextBin := p2\<rparr>)" "bins_at h2 p2 (bins_insert (ev_key e) a bs)"
      by blast
    have "in_bin h2 k (ev_nextInBin ex) xs"
      using x(3) Cons.prems(2,4) kb by (subst in_bin_same [of _ _ h]) (auto intro!: r(5))
    then have "bins_at h2 p (bins_insert (ev_key e) a (kb # bs))"
      using True less_not_sym [OF True] r(6,7) x(2) by (auto simp: kb p)
    moreover have "h2 pr = Some (epr\<lparr>ev_nextBin := p\<rparr>)"
      using r(5) [of pr] Cons.prems kb by auto
    moreover have "find_bin h e pr p = retO (pr', cur)"
      using r(1) True x by (simp add: p find_bin_Some)
    ultimately show ?thesis using r(2-5) kb by auto
  next
    case False
    obtain e' where e': "insertBefore a p h = retO (h(a \<mapsto> e'))"
      "bins_at (h(a \<mapsto> e')) (Some a) (bins_insert (ev_key e) a (kb # bs))"
      "e'\<lparr>ev_nextBin := None, ev_nextInBin := None\<rparr> = e\<lparr>ev_nextBin := None, ev_nextInBin := None\<rparr>"
    proof (rule insertBefore_front [of h p "kb # bs" a e])
      show "ev_key e \<le> k'" if "kb # bs = (k', b) # bs'" for k' b bs'
        using that kb False by simp
    qed (use Cons.prems in auto)
    let ?h = "h(a \<mapsto> e', pr \<mapsto> epr\<lparr>ev_nextBin := Some a\<rparr>)"
    have "bins_at ?h (Some a) (bins_insert (ev_key e) a (kb # bs))"
      using e'(2) Cons.prems by (subst bins_at_same [of _ _ "h(a \<mapsto> e')"]) auto
    moreover have "find_bin h e pr p = retO (pr, p)"
      using False x by (simp add: p find_bin_Some)
    ultimately show ?thesis
      using Cons.prems e' by (intro insert_found [of _ _ pr p]) simp_all
  qed
qed

lemma eq_insert_refines:
  assumes rep: "bins_at h (eq_head Q) bs" "distinct (elems bs)"
    and a: "h a = Some e" "a \<notin> set (elems bs)"
  shows "\<exists>p h'. eq_insert a (Q, h) = retO (Q\<lparr>eq_head := p\<rparr>, h') \<and>
    bins_at h' p (bins_insert (ev_key e) a bs) \<and> data h' = data h \<and>
    (\<forall>x. x \<notin> insert a (set (elems bs)) \<longrightarrow> h' x = h x)"
proof (cases "\<forall>k b bs'. bs = (k, b) # bs' \<longrightarrow> ev_key e \<le> k")
  case True
  obtain e' where e': "insertBefore a (eq_head Q) h = retO (h(a \<mapsto> e'))"
    "bins_at (h(a \<mapsto> e')) (Some a) (bins_insert (ev_key e) a bs)"
    "e'\<lparr>ev_nextBin := None, ev_nextInBin := None\<rparr> = e\<lparr>ev_nextBin := None, ev_nextInBin := None\<rparr>"
    using insertBefore_front [OF rep(1) a] True by metis
  have "eq_insert a (Q, h) = retO (Q\<lparr>eq_head := Some a\<rparr>, h(a \<mapsto> e'))"
  proof (cases bs)
    case Nil
    then show ?thesis using rep a e' by (simp add: eq_insert_def)
  next
    case (Cons kb bs')
    then obtain k x xs ex where "bs = (k, x # xs) # bs'" "eq_head Q = Some x" "h x = Some ex"
        "ev_key ex = k"
      using rep by (cases "(h, eq_head Q, bs)" rule: bins_at.cases) auto
    then show ?thesis using True a e' by (simp add: eq_insert_def event_leq_key)
  qed
  then show ?thesis
    using e' a by (intro exI [of _ "Some a"] exI [of _ "h(a \<mapsto> e')"]) (auto simp: data_def fun_eq_iff)
next
  case False
  then obtain k x xs bs' ex where bs: "bs = (k, x # xs) # bs'" and hd: "eq_head Q = Some x"
    and x: "h x = Some ex" "ev_key ex = k" "in_bin h k (ev_nextInBin ex) xs"
      "bins_at h (ev_nextBin ex) bs'" and less: "k < ev_key e"
    using rep by (cases "(h, eq_head Q, bs)" rule: bins_at.cases) auto
  obtain pr cur h1 h2 p2 where r: "find_bin h e x (ev_nextBin ex) = retO (pr, cur)"
    "insertBefore a cur h = retO h1" "set_nextBin pr (Some a) h1 = retO h2" "data h2 = data h"
    "\<And>y. y \<notin> insert a (insert x (set (elems bs'))) \<Longrightarrow> h2 y = h y"
    "h2 x = Some (ex\<lparr>ev_nextBin := p2\<rparr>)" "bins_at h2 p2 (bins_insert (ev_key e) a bs')"
    using find_bin_insert [of h "ev_nextBin ex" bs' a e x ex] rep(2) a x bs by auto
  have "in_bin h2 k (ev_nextInBin ex) xs"
    using x(3) rep(2) a bs by (subst in_bin_same [of _ _ h]) (auto intro!: r(5))
  then have "bins_at h2 (Some x) (bins_insert (ev_key e) a bs)"
    using less less_not_sym [OF less] r(6,7) x(2) by (auto simp: bs)
  moreover have "eq_insert a (Q, h) = retO (Q\<lparr>eq_head := Some x\<rparr>, h2)"
    using leD [of "ev_key e" k] less r(1-3) x a hd by (auto simp: eq_insert_def event_leq_key)
  ultimately show ?thesis using r(4,5) bs by auto
qed

section \<open>Removal refines the removal from bins\<close>

lemma find_item_here: "find_item h a c (Some a) = retO c"
  by (subst find_item.simps) simp

lemma find_item_next:
  "h n = Some en \<Longrightarrow> n \<noteq> a \<Longrightarrow> find_item h a c (Some n) = find_item h a n (ev_nextInBin en)"
  by (subst find_item.simps) simp

text \<open>The loop finds the item before the event, and unlinking there leaves the rest.\<close>

lemma find_item_remove:
  assumes "in_bin h k p as" "a \<in> set as" "distinct as" "c \<notin> set as"
    and "h c = Some ec" "ev_nextInBin ec = p"
  shows "\<exists>c' e h' q. find_item h a c p = retO c' \<and> h a = Some e \<and>
    set_nextInBin c' (ev_nextInBin e) h = retO h' \<and> data h' = data h \<and>
    (\<forall>x. x \<notin> insert c (set as) \<longrightarrow> h' x = h x) \<and>
    h' c = Some (ec\<lparr>ev_nextInBin := q\<rparr>) \<and> in_bin h' k q (remove1 a as)"
  using assms
proof (induction as arbitrary: p c ec)
  case (Cons n as)
  then obtain en where n: "p = Some n" "h n = Some en" "ev_key en = k"
    "in_bin h k (ev_nextInBin en) as"
    by auto
  show ?case
  proof (cases "n = a")
    case True
    let ?h = "h(c \<mapsto> ec\<lparr>ev_nextInBin := ev_nextInBin en\<rparr>)"
    have "in_bin ?h k (ev_nextInBin en) as"
      using n(4) Cons.prems(4) by (subst in_bin_same [of _ _ h]) auto
    moreover have "set_nextInBin c (ev_nextInBin en) h = retO ?h"
      using Cons.prems(5) by (rule set_nextInBin_Some)
    moreover have "data ?h = data h" using Cons.prems(5) by (simp add: data_def fun_eq_iff)
    moreover have "find_item h a c p = retO c" by (simp add: n True find_item_here)
    moreover have "\<forall>x. x \<notin> insert c (set (n # as)) \<longrightarrow> ?h x = h x"
      "?h c = Some (ec\<lparr>ev_nextInBin := ev_nextInBin en\<rparr>)" by simp_all
    moreover have "remove1 a (n # as) = as" "h a = Some en" using True n by simp_all
    ultimately show ?thesis by metis
  next
    case False
    then have "\<exists>c' e h' q. find_item h a n (ev_nextInBin en) = retO c' \<and> h a = Some e \<and>
        set_nextInBin c' (ev_nextInBin e) h = retO h' \<and> data h' = data h \<and>
        (\<forall>x. x \<notin> insert n (set as) \<longrightarrow> h' x = h x) \<and>
        h' n = Some (en\<lparr>ev_nextInBin := q\<rparr>) \<and> in_bin h' k q (remove1 a as)"
      using Cons.prems n by (intro Cons.IH) auto
    then obtain c' e h' q where r: "find_item h a n (ev_nextInBin en) = retO c'" "h a = Some e"
        "set_nextInBin c' (ev_nextInBin e) h = retO h'" "data h' = data h"
        "\<And>x. x \<notin> insert n (set as) \<Longrightarrow> h' x = h x"
        "h' n = Some (en\<lparr>ev_nextInBin := q\<rparr>)" "in_bin h' k q (remove1 a as)"
      by blast
    have "in_bin h' k p (remove1 a (n # as))" using False r(6,7) n by simp
    moreover have "find_item h a c p = retO c'" using r(1) n False by (simp add: find_item_next)
    moreover have "h' c = Some (ec\<lparr>ev_nextInBin := p\<rparr>)"
      using r(5) [of c] Cons.prems by auto
    ultimately show ?thesis using r(2-5) by auto
  qed
qed simp

lemma removeItem_refines:
  assumes "bins_at h (Some t) ((k, b) # bs)" "distinct (b @ elems bs)" "a \<in> set b"
  shows "\<exists>q h'. removeItem a t h = retO (q, h') \<and> data h' = data h \<and>
    (\<forall>x. x \<notin> set b \<longrightarrow> h' x = h x) \<and> bins_at h' q (bin_cons k (remove1 a b) bs)"
proof -
  obtain ts et where b: "b = t # ts" and t: "h t = Some et" "ev_key et = k"
    "in_bin h k (ev_nextInBin et) ts" "bins_at h (ev_nextBin et) bs"
    using assms(1) by (cases b) auto
  show ?thesis
  proof (cases "a = t")
    case True
    show ?thesis
    proof (cases ts)
      case Nil
      then have "removeItem a t h = retO (ev_nextBin et, h)"
        using t True by (simp add: removeItem_def)
      then show ?thesis using t(4) Nil True by (auto simp: b bin_cons_def)
    next
      case (Cons n ns)
      then obtain en where n: "ev_nextInBin et = Some n" "h n = Some en" "ev_key en = k"
        "in_bin h k (ev_nextInBin en) ns" using t by auto
      let ?h = "h(n \<mapsto> en\<lparr>ev_nextBin := ev_nextBin et\<rparr>)"
      have "removeItem a t h = retO (Some n, ?h)"
        using t n True by (simp add: removeItem_def set_nextBin_Some)
      moreover have "in_bin ?h k (ev_nextInBin en) ns"
        using assms(2) b Cons by (intro in_bin_same [THEN iffD2, OF _ n(4)]) auto
      moreover have "bins_at ?h (ev_nextBin et) bs"
        using assms(2) b Cons by (intro bins_at_same [THEN iffD2, OF _ t(4)]) auto
      moreover have "data ?h = data h" using n(2) by (rule data_update)
      ultimately show ?thesis
        using n Cons True b by (intro exI [of _ "Some n"] exI [of _ ?h]) (auto simp: bin_cons_def)
    qed
  next
    case False
    have "\<exists>c' e h' q. find_item h a t (ev_nextInBin et) = retO c' \<and> h a = Some e \<and>
        set_nextInBin c' (ev_nextInBin e) h = retO h' \<and> data h' = data h \<and>
        (\<forall>x. x \<notin> insert t (set ts) \<longrightarrow> h' x = h x) \<and>
        h' t = Some (et\<lparr>ev_nextInBin := q\<rparr>) \<and> in_bin h' k q (remove1 a ts)"
      using assms(2,3) t False b by (intro find_item_remove) auto
    then obtain c' e h' q where r: "find_item h a t (ev_nextInBin et) = retO c'" "h a = Some e"
        "set_nextInBin c' (ev_nextInBin e) h = retO h'" "data h' = data h"
        "\<And>x. x \<notin> insert t (set ts) \<Longrightarrow> h' x = h x"
        "h' t = Some (et\<lparr>ev_nextInBin := q\<rparr>)" "in_bin h' k q (remove1 a ts)"
      by blast
    have "bins_at h' (ev_nextBin et) bs"
      using t(4) assms(2) b by (subst bins_at_same [of _ _ h]) (auto intro!: r(5))
    then have "bins_at h' (Some t) (bin_cons k (remove1 a b) bs)"
      using False r(6,7) t b by (simp add: bin_cons_def)
    moreover have "removeItem a t h = retO (Some t, h')"
      using r(1-3) t False by (simp add: removeItem_def)
    ultimately show ?thesis using r(4,5) b by auto
  qed
qed

text \<open>The loop of \<open>remove\<close> finds the bin of the event.\<close>

lemma find_bin_remove:
  assumes "bins_at h p bs" "wf_bins bs" "a \<in> set (elems bs)" "h a = Some e"
    and "h pr = Some epr" "ev_nextBin epr = p" "pr \<notin> set (elems bs)"
  shows "\<exists>pr' c ec q h1 h2 p2. find_bin h e pr p = retO (pr', Some c) \<and>
    h c = Some ec \<and> ev_key ec = ev_key e \<and> removeItem a c h = retO (q, h1) \<and>
    set_nextBin pr' q h1 = retO h2 \<and> data h2 = data h \<and>
    (\<forall>x. x \<notin> insert pr (set (elems bs)) \<longrightarrow> h2 x = h x) \<and>
    h2 pr = Some (epr\<lparr>ev_nextBin := p2\<rparr>) \<and> bins_at h2 p2 (bins_remove (ev_key e) a bs)"
  using assms
proof (induction bs arbitrary: pr epr p)
  case (Cons kb bs)
  then obtain k x xs ex where kb: "kb = (k, x # xs)" and p: "p = Some x"
    and x: "h x = Some ex" "ev_key ex = k" "in_bin h k (ev_nextInBin ex) xs"
      "bins_at h (ev_nextBin ex) bs"
    by (cases "(h, p, kb # bs)" rule: bins_at.cases) auto
  have dist: "distinct ((x # xs) @ elems bs)" and less: "\<And>k' b. (k', b) \<in> set bs \<Longrightarrow> k < k'"
    using Cons.prems(2) kb by (force simp: wf_bins_def)+
  show ?case
  proof (cases "a \<in> set (x # xs)")
    case True
    then have k: "ev_key e = k"
      using bins_at_key [OF Cons.prems(1), of k "x # xs" a] Cons.prems(4) kb by auto
    obtain q h1 where r: "removeItem a x h = retO (q, h1)" "data h1 = data h"
      "\<And>y. y \<notin> set (x # xs) \<Longrightarrow> h1 y = h y" "bins_at h1 q (bin_cons k (remove1 a (x # xs)) bs)"
      using removeItem_refines [OF _ dist True, of h x k] Cons.prems(1) kb p by blast
    have pr: "h1 pr = Some epr" using r(3) [of pr] Cons.prems kb by auto
    let ?h = "h1(pr \<mapsto> epr\<lparr>ev_nextBin := q\<rparr>)"
    have "set (elems (bin_cons k (remove1 a (x # xs)) bs)) \<subseteq> set (elems (kb # bs))"
      using set_remove1_subset [of a "x # xs"] kb by auto
    then have "bins_at ?h q (bin_cons k (remove1 a (x # xs)) bs)"
      using Cons.prems(7) by (intro bins_at_same [THEN iffD2, OF _ r(4)]) auto
    then have "bins_at ?h q (bins_remove (ev_key e) a (kb # bs))" by (simp add: kb k)
    moreover have "set_nextBin pr q h1 = retO ?h" using pr by (rule set_nextBin_Some)
    moreover have "data ?h = data h"
      using r(2) pr by (simp add: data_update)
    moreover have "find_bin h e pr p = retO (pr, Some x)"
      using k x by (simp add: p find_bin_Some)
    moreover have "\<forall>y. y \<notin> insert pr (set (elems (kb # bs))) \<longrightarrow> ?h y = h y"
      using r(3) kb by auto
    moreover have "?h pr = Some (epr\<lparr>ev_nextBin := q\<rparr>)" by simp
    moreover have "ev_key ex = ev_key e" using x(2) k by simp
    ultimately show ?thesis using r(1) x(1) by blast
  next
    case False
    then have a: "a \<in> set (elems bs)" using Cons.prems(3) kb by auto
    then obtain k' b where "(k', b) \<in> set bs" "a \<in> set b" by (auto simp: elems_def)
    then have k: "k < ev_key e"
      using bins_at_key [OF x(4)] less Cons.prems(4) by fastforce
    have "\<exists>pr' c ec q h1 h2 p2. find_bin h e x (ev_nextBin ex) = retO (pr', Some c) \<and>
      h c = Some ec \<and> ev_key ec = ev_key e \<and> removeItem a c h = retO (q, h1) \<and>
      set_nextBin pr' q h1 = retO h2 \<and> data h2 = data h \<and>
      (\<forall>y. y \<notin> insert x (set (elems bs)) \<longrightarrow> h2 y = h y) \<and>
      h2 x = Some (ex\<lparr>ev_nextBin := p2\<rparr>) \<and> bins_at h2 p2 (bins_remove (ev_key e) a bs)"
      by (rule Cons.IH [OF x(4) wf_bins_tl [OF Cons.prems(2)] a Cons.prems(4) x(1)])
        (use dist in auto)
    then obtain pr' c ec q h1 h2 p2 where r:
      "find_bin h e x (ev_nextBin ex) = retO (pr', Some c)"
      "h c = Some ec" "ev_key ec = ev_key e" "removeItem a c h = retO (q, h1)"
      "set_nextBin pr' q h1 = retO h2" "data h2 = data h"
      "\<And>y. y \<notin> insert x (set (elems bs)) \<Longrightarrow> h2 y = h y"
      "h2 x = Some (ex\<lparr>ev_nextBin := p2\<rparr>)" "bins_at h2 p2 (bins_remove (ev_key e) a bs)"
      by blast
    have "in_bin h2 k (ev_nextInBin ex) xs"
      using x(3) dist by (subst in_bin_same [of _ _ h]) (auto intro!: r(7))
    then have "bins_at h2 p (bins_remove (ev_key e) a (kb # bs))"
      using k r(8,9) x(2) by (auto simp: kb p)
    moreover have "h2 pr = Some (epr\<lparr>ev_nextBin := p\<rparr>)"
      using r(7) [of pr] Cons.prems kb by auto
    moreover have "find_bin h e pr p = retO (pr', Some c)"
      using r(1) k x by (simp add: p find_bin_Some)
    moreover have "\<forall>y. y \<notin> insert pr (set (elems (kb # bs))) \<longrightarrow> h2 y = h y"
      using r(7) kb by auto
    ultimately show ?thesis using r(2-6) by blast
  qed
qed simp

lemma eq_remove_refines:
  assumes rep: "bins_at h (eq_head Q) bs" and wf: "wf_bins bs" and a: "a \<in> set (elems bs)"
    "h a = Some e" and own: "ev_queue e = Some this"
  shows "\<exists>p h'. eq_remove this a (Q, h) = retO (Q\<lparr>eq_head := p\<rparr>, h') \<and>
    bins_at h' p (bins_remove (ev_key e) a bs) \<and> data h' = data h \<and>
    (\<forall>x. x \<notin> set (elems bs) \<longrightarrow> h' x = h x)"
proof -
  obtain k x xs bs' ex where bs: "bs = (k, x # xs) # bs'" and hd: "eq_head Q = Some x"
    and x: "h x = Some ex" "ev_key ex = k" "in_bin h k (ev_nextInBin ex) xs"
      "bins_at h (ev_nextBin ex) bs'"
    using rep a by (cases "(h, eq_head Q, bs)" rule: bins_at.cases) auto
  have dist: "distinct ((x # xs) @ elems bs')" and less: "\<And>k' b. (k', b) \<in> set bs' \<Longrightarrow> k < k'"
    using wf bs by (force simp: wf_bins_def)+
  show ?thesis
  proof (cases "a \<in> set (x # xs)")
    case True
    then have k: "ev_key e = k" using bins_at_key [OF rep, of k "x # xs" a] a bs by auto
    obtain q h1 where r: "removeItem a x h = retO (q, h1)" "data h1 = data h"
      "\<And>y. y \<notin> set (x # xs) \<Longrightarrow> h1 y = h y" "bins_at h1 q (bin_cons k (remove1 a (x # xs)) bs')"
      using removeItem_refines [OF _ dist True, of h x k] rep bs hd by auto
    have "eq_remove this a (Q, h) = retO (Q\<lparr>eq_head := q\<rparr>, h1)"
      using r(1) hd a x k own by (simp add: eq_remove_def event_eq_key)
    then show ?thesis using r k bs by auto
  next
    case False
    then have a': "a \<in> set (elems bs')" using a bs by auto
    then obtain k' b where "(k', b) \<in> set bs'" "a \<in> set b" by (auto simp: elems_def)
    then have k: "k < ev_key e" using bins_at_key [OF x(4)] less a(2) by fastforce
    obtain pr c ec q h1 h2 p2 where r:
      "find_bin h e x (ev_nextBin ex) = retO (pr, Some c)"
      "h c = Some ec" "ev_key ec = ev_key e" "removeItem a c h = retO (q, h1)"
      "set_nextBin pr q h1 = retO h2" "data h2 = data h"
      "\<And>y. y \<notin> insert x (set (elems bs')) \<Longrightarrow> h2 y = h y"
      "h2 x = Some (ex\<lparr>ev_nextBin := p2\<rparr>)" "bins_at h2 p2 (bins_remove (ev_key e) a bs')"
      using find_bin_remove [OF x(4) wf_bins_tl [OF wf [unfolded bs]] a' a(2) x(1)] dist by auto
    have "in_bin h2 k (ev_nextInBin ex) xs"
      using x(3) dist by (subst in_bin_same [of _ _ h]) (auto intro!: r(7))
    then have "bins_at h2 (Some x) (bins_remove (ev_key e) a bs)"
      using k r(8,9) x(2) by (auto simp: bs)
    moreover have "eq_remove this a (Q, h) = retO (Q\<lparr>eq_head := Some x\<rparr>, h2)"
      using less_imp_neq [OF k] r(1-5) x a hd own
      by (simp add: eq_remove_def event_eq_key event_neq_key)
    ultimately show ?thesis using r(6,7) bs by auto
  qed
qed

end
