(* ===== verification/KernelInvariant.thy ===== *)
theory KernelInvariant
  imports EventQueueSpec
begin

text \<open>
  The state of the simulator kernel between two events in serial mode: every queue stands for
  bins whose events are scheduled on that queue and not in the past, and every scheduled event
  is on a queue. The public operations of the event queue keep it, and what they do to the
  bins is the operation on bins.
\<close>

section \<open>Flags\<close>

lemma bit_flags_set: "bit (flags_set fl m) n \<longleftrightarrow> bit fl n \<or> bit m n"
  by (simp add: flags_set_def bit_or_iff)

lemma bit_flags_clear: "bit (flags_clear fl m) n \<longleftrightarrow> bit fl n \<and> \<not> bit m n"
  using bit_imp_le_length [of fl n] by (auto simp: flags_clear_def bit_and_iff bit_not_iff)

lemma bit_flag_consts:
  "bit Squashed n \<longleftrightarrow> n = 0"
  "bit Scheduled n \<longleftrightarrow> n = 1"
proof -
  show "bit Squashed n \<longleftrightarrow> n = 0" by (simp add: Squashed_def bit_1_iff)
  show "bit Scheduled n \<longleftrightarrow> n = 1"
    using bit_exp_iff [where 'a = "16 word", of 1 n] by (auto simp: Scheduled_def)
qed

lemmas ev_flag_defs =
  ev_scheduled_def ev_squashed_def ev_set_def ev_clear_def flag_bit bit_flags_set
  bit_flags_clear bit_flag_consts

lemma ev_flag_simps [simp]:
  "ev_scheduled (ev_set Scheduled e)"
  "\<not> ev_scheduled (ev_clear Scheduled e)"
  "ev_scheduled (ev_set Squashed e) = ev_scheduled e"
  "ev_scheduled (ev_clear Squashed e) = ev_scheduled e"
  "ev_squashed (ev_set Scheduled e) = ev_squashed e"
  "ev_squashed (ev_clear Scheduled e) = ev_squashed e"
  "ev_squashed (ev_set Squashed e)"
  "\<not> ev_squashed (ev_clear Squashed e)"
  by (simp_all add: ev_flag_defs)

text \<open>The flags below the mask do not touch the initialisation bits.\<close>

lemma ev_initialized_bits:
  "ev_initialized e \<longleftrightarrow> (\<forall>n. bit InitMask n \<longrightarrow> bit (ev_flags e) n = bit Initialized n)"
proof
  assume "ev_initialized e"
  then have "bit (ev_flags e AND InitMask) n = bit Initialized n" for n
    by (simp add: ev_initialized_def)
  then show "\<forall>n. bit InitMask n \<longrightarrow> bit (ev_flags e) n = bit Initialized n"
    by (auto simp: bit_and_iff)
next
  assume *: "\<forall>n. bit InitMask n \<longrightarrow> bit (ev_flags e) n = bit Initialized n"
  have "Initialized AND InitMask = Initialized" by (simp add: Initialized_def InitMask_def)
  then have "bit Initialized n \<Longrightarrow> bit InitMask n" for n by (metis bit_and_iff)
  with * have "bit (ev_flags e AND InitMask) n = bit Initialized n" for n
    by (auto simp: bit_and_iff)
  then show "ev_initialized e" unfolding ev_initialized_def by (simp add: bit_eq_iff)
qed

lemma InitMask_low: "n < 6 \<Longrightarrow> \<not> bit InitMask n"
proof -
  assume "n < 6"
  moreover have "take_bit 6 InitMask = 0" by (simp add: InitMask_def take_bit_eq_mod)
  ultimately show ?thesis by (metis bit_0_eq bit_take_bit_iff bot_apply bot_bool_def)
qed

lemma ev_initialized_cong:
  assumes "\<And>n. 6 \<le> n \<Longrightarrow> bit (ev_flags e') n = bit (ev_flags e) n"
  shows "ev_initialized e' = ev_initialized e"
  unfolding ev_initialized_bits using assms InitMask_low by (metis leI)

lemma ev_initialized_simps [simp]:
  "ev_initialized (ev_set Scheduled e) = ev_initialized e"
  "ev_initialized (ev_clear Scheduled e) = ev_initialized e"
  "ev_initialized (ev_set Squashed e) = ev_initialized e"
  "ev_initialized (ev_clear Squashed e) = ev_initialized e"
  by (rule ev_initialized_cong; simp add: ev_flag_defs)+

lemma ev_set_clear_simps [simp]:
  "ev_when (ev_set m e) = ev_when e" "ev_when (ev_clear m e) = ev_when e"
  "ev_queue (ev_set m e) = ev_queue e" "ev_queue (ev_clear m e) = ev_queue e"
  "ev_priority (ev_set m e) = ev_priority e" "ev_priority (ev_clear m e) = ev_priority e"
  "ev_nextBin (ev_set m e) = ev_nextBin e" "ev_nextBin (ev_clear m e) = ev_nextBin e"
  "ev_nextInBin (ev_set m e) = ev_nextInBin e" "ev_nextInBin (ev_clear m e) = ev_nextInBin e"
  "ev_key (ev_set m e) = ev_key e" "ev_key (ev_clear m e) = ev_key e"
  by (simp_all add: ev_set_def ev_clear_def)

lemma ev_setWhen_simps [simp]:
  "ev_when (ev_setWhen t q e) = t" "ev_queue (ev_setWhen t q e) = Some q"
  "ev_flags (ev_setWhen t q e) = ev_flags e" "ev_priority (ev_setWhen t q e) = ev_priority e"
  "ev_key (ev_setWhen t q e) = (t, ev_priority e)"
  "ev_scheduled (ev_setWhen t q e) = ev_scheduled e"
  "ev_squashed (ev_setWhen t q e) = ev_squashed e"
  "ev_initialized (ev_setWhen t q e) = ev_initialized e"
  by (simp_all add: ev_setWhen_def ev_key_def ev_scheduled_def ev_squashed_def ev_initialized_def)

section \<open>The invariant\<close>

text \<open>An event as it is on queue \<open>q\<close> at the time \<open>t\<close>.\<close>

definition pending :: "nat \<Rightarrow> tick \<Rightarrow> Event \<Rightarrow> bool" where
  "pending q t e \<longleftrightarrow>
    ev_scheduled e \<and> ev_initialized e \<and> ev_queue e = Some q \<and> t \<le> ev_when e"

definition pending_at :: "nat \<Rightarrow> tick \<Rightarrow> heap \<Rightarrow> nat \<Rightarrow> bool" where
  "pending_at q t h a \<longleftrightarrow> (\<exists>e. h a = Some e \<and> pending q t e)"

definition queue_ok :: "nat \<Rightarrow> EventQueue \<Rightarrow> heap \<Rightarrow> bins \<Rightarrow> bool" where
  "queue_ok q Q h bs \<longleftrightarrow>
    bins_at h (eq_head Q) bs \<and> wf_bins bs \<and> eq_async_queue Q = [] \<and>
    (\<forall>a \<in> set (elems bs). pending_at q (eq_curTick Q) h a)"

definition scheduled_at :: "heap \<Rightarrow> nat \<Rightarrow> bool" where
  "scheduled_at h a \<longleftrightarrow> (\<exists>e. h a = Some e \<and> ev_scheduled e)"

definition kernel_rep :: "kernel \<Rightarrow> (nat \<Rightarrow> bins) \<Rightarrow> bool" where
  "kernel_rep k B \<longleftrightarrow>
    \<not> k_inParallelMode k \<and>
    (\<forall>q < length (k_queues k). queue_ok q (k_queues k ! q) (k_events k) (B q)) \<and>
    (\<forall>a. scheduled_at (k_events k) a \<longrightarrow> (\<exists>q < length (k_queues k). a \<in> set (elems (B q))))"

definition kernel_ok :: "kernel \<Rightarrow> bool" where
  "kernel_ok k \<longleftrightarrow> (\<exists>B. kernel_rep k B)"

lemma pending_at_scheduled: "pending_at q t h a \<Longrightarrow> scheduled_at h a"
  by (auto simp: pending_at_def pending_def scheduled_at_def)

lemma data_fields:
  assumes "e\<lparr>ev_nextBin := p, ev_nextInBin := p'\<rparr> = e'\<lparr>ev_nextBin := p, ev_nextInBin := p'\<rparr>"
  shows "ev_when e = ev_when e'" "ev_priority e = ev_priority e'" "ev_flags e = ev_flags e'"
    "ev_queue e = ev_queue e'"
  using assms by (cases e; cases e'; simp)+

lemma pending_at_data: "data h' a = data h a \<Longrightarrow> pending_at q t h' a = pending_at q t h a"
  by (cases "h a"; cases "h' a")
    (auto simp: data_def pending_at_def pending_def ev_scheduled_def ev_initialized_def
      dest: data_fields)

lemma queue_ok_same:
  assumes "queue_ok q Q h bs" "\<And>x. x \<in> set (elems bs) \<Longrightarrow> h' x = h x"
  shows "queue_ok q Q h' bs"
  using assms bins_at_same [of bs h' h] by (simp add: queue_ok_def pending_at_def)

lemma kernel_rep_owner:
  assumes "kernel_rep k B" "q < length (k_queues k)" "a \<in> set (elems (B q))"
  shows "\<exists>e. k_events k a = Some e \<and> ev_scheduled e \<and> ev_initialized e \<and> ev_queue e = Some q"
  using assms unfolding kernel_rep_def queue_ok_def pending_at_def pending_def by blast

lemma kernel_rep_disjoint:
  assumes "kernel_rep k B" "q < length (k_queues k)" "q' < length (k_queues k)"
    and "a \<in> set (elems (B q))" "a \<in> set (elems (B q'))"
  shows "q = q'"
  using kernel_rep_owner [OF assms(1,2,4)] kernel_rep_owner [OF assms(1,3,5)] by auto

text \<open>An operation on one queue that touches only its events and one event off every queue.\<close>

lemma kernel_rep_update:
  assumes rep: "kernel_rep k B" and q: "q < length (k_queues k)"
    and ok: "queue_ok q Q' h' bs'"
    and same: "\<And>x. x \<notin> insert a (set (elems (B q))) \<Longrightarrow> h' x = k_events k x"
    and off: "\<not> scheduled_at (k_events k) a \<or> a \<in> set (elems (B q))"
    and on: "\<And>x. x \<in> insert a (set (elems (B q))) \<Longrightarrow> scheduled_at h' x \<Longrightarrow> x \<in> set (elems bs')"
    and k': "k_queues k' = (k_queues k)[q := Q']" "k_events k' = h'"
      "k_inParallelMode k' = k_inParallelMode k"
  shows "kernel_rep k' (B(q := bs'))"
  unfolding kernel_rep_def
proof (intro conjI allI impI)
  show "\<not> k_inParallelMode k'" using rep k' by (simp add: kernel_rep_def)
  fix q' assume "q' < length (k_queues k')"
  then have q': "q' < length (k_queues k)" by (simp add: k')
  show "queue_ok q' (k_queues k' ! q') (k_events k') ((B(q := bs')) q')"
  proof (cases "q' = q")
    case True
    then show ?thesis using ok q by (simp add: k')
  next
    case False
    have "queue_ok q' (k_queues k ! q') h' (B q')"
    proof (rule queue_ok_same)
      show "queue_ok q' (k_queues k ! q') (k_events k) (B q')"
        using rep q' by (simp add: kernel_rep_def)
      fix x assume x: "x \<in> set (elems (B q'))"
      then have "x \<notin> set (elems (B q))"
        using False kernel_rep_disjoint [OF rep q' q] by blast
      moreover have "scheduled_at (k_events k) x"
        using kernel_rep_owner [OF rep q' x] by (auto simp: scheduled_at_def)
      ultimately show "h' x = k_events k x" using off by (intro same) auto
    qed
    then show ?thesis using False by (simp add: k')
  qed
next
  fix x assume "scheduled_at (k_events k') x"
  then have sch: "scheduled_at h' x" by (simp add: k')
  show "\<exists>q' < length (k_queues k'). x \<in> set (elems ((B(q := bs')) q'))"
  proof (cases "x \<in> insert a (set (elems (B q)))")
    case True
    then show ?thesis using on [OF True sch] q by (intro exI [of _ q]) (simp add: k')
  next
    case False
    then have "scheduled_at (k_events k) x" using sch same [of x] by (simp add: scheduled_at_def)
    then obtain q' where "q' < length (k_queues k)" "x \<in> set (elems (B q'))"
      using rep by (auto simp: kernel_rep_def)
    then show ?thesis using False by (intro exI [of _ q']) (auto simp: k')
  qed
qed


section \<open>The operations on one queue\<close>

lemma link_update:
  assumes "h a = Some e" "ev_key e' = ev_key e" "ev_nextBin e' = ev_nextBin e"
    "ev_nextInBin e' = ev_nextInBin e"
  shows "link (h(a \<mapsto> e')) = link h"
  using assms by (simp add: link_def fun_eq_iff)

lemma bins_at_update:
  assumes "bins_at h p bs" "h a = Some e" "ev_key e' = ev_key e" "ev_nextBin e' = ev_nextBin e"
    "ev_nextInBin e' = ev_nextInBin e"
  shows "bins_at (h(a \<mapsto> e')) p bs"
proof -
  have "link (h(a \<mapsto> e')) = link h" using assms(2-5) by (intro link_update)
  then show ?thesis using assms(1) bins_at_frame [of bs "h(a \<mapsto> e')" h p] by simp
qed

text \<open>Inserting an event that was given its time, and then its flags.\<close>

lemma queue_ok_insert:
  assumes ok: "queue_ok q Q h bs" and a: "h a = Some e" "a \<notin> set (elems bs)"
  obtains p h2 e2 where "eq_insert a (Q, h(a \<mapsto> ev_setWhen t q e)) = retO (Q\<lparr>eq_head := p\<rparr>, h2)"
    "h2 a = Some e2" "ev_when e2 = t" "ev_priority e2 = ev_priority e" "ev_flags e2 = ev_flags e"
    "ev_queue e2 = Some q" "data h2 = data (h(a \<mapsto> ev_setWhen t q e))"
    "\<And>x. x \<notin> insert a (set (elems bs)) \<Longrightarrow> h2 x = h x"
    "\<And>e3. ev_key e3 = ev_key e2 \<Longrightarrow> ev_nextBin e3 = ev_nextBin e2 \<Longrightarrow>
      ev_nextInBin e3 = ev_nextInBin e2 \<Longrightarrow> pending q (eq_curTick Q) e3 \<Longrightarrow>
      queue_ok q (Q\<lparr>eq_head := p\<rparr>) (h2(a \<mapsto> e3)) (bins_insert (t, ev_priority e) a bs)"
proof -
  let ?e = "ev_setWhen t q e"
  let ?h = "h(a \<mapsto> ?e)"
  have at: "bins_at ?h (eq_head Q) bs" and dist: "distinct (elems bs)"
    using ok a(2) by (simp_all add: queue_ok_def wf_bins_def)
  obtain p h2 where r: "eq_insert a (Q, ?h) = retO (Q\<lparr>eq_head := p\<rparr>, h2)"
    "bins_at h2 p (bins_insert (t, ev_priority e) a bs)" "data h2 = data ?h"
    "\<And>x. x \<notin> insert a (set (elems bs)) \<Longrightarrow> h2 x = ?h x"
    using eq_insert_refines [OF at dist, of a ?e] a(2) by auto
  have "data h2 a = data ?h a" by (simp add: r)
  then obtain e2 where e2: "h2 a = Some e2"
    "e2\<lparr>ev_nextBin := None, ev_nextInBin := None\<rparr> = ?e\<lparr>ev_nextBin := None, ev_nextInBin := None\<rparr>"
    by (auto simp: data_def)
  note fields = data_fields [OF e2(2)]
  show ?thesis
  proof (rule that [OF r(1) e2(1)])
    fix e3 assume e3: "ev_key e3 = ev_key e2" "ev_nextBin e3 = ev_nextBin e2"
      "ev_nextInBin e3 = ev_nextInBin e2" "pending q (eq_curTick Q) e3"
    have "bins_at (h2(a \<mapsto> e3)) p (bins_insert (t, ev_priority e) a bs)"
      by (rule bins_at_update [OF r(2) e2(1) e3(1-3)])
    moreover have "wf_bins (bins_insert (t, ev_priority e) a bs)"
      using ok a(2) by (simp add: queue_ok_def wf_bins_insert)
    moreover have "pending_at q (eq_curTick Q) (h2(a \<mapsto> e3)) x"
      if "x \<in> set (elems (bins_insert (t, ev_priority e) a bs))" for x
    proof (cases "x = a")
      case True
      then show ?thesis using e3(4) by (simp add: pending_at_def)
    next
      case False
      then have "pending_at q (eq_curTick Q) h x" using ok that by (simp add: queue_ok_def)
      moreover have "data (h2(a \<mapsto> e3)) x = data h x"
        using False fun_cong [OF r(3), of x] by (simp add: data_def)
      ultimately show ?thesis by (blast intro: pending_at_data [THEN iffD2])
    qed
    ultimately show "queue_ok q (Q\<lparr>eq_head := p\<rparr>) (h2(a \<mapsto> e3)) (bins_insert (t, ev_priority e) a bs)"
      using ok by (simp add: queue_ok_def)
  qed (use fields r in auto)
qed

text \<open>Removing an event, which leaves its object as it was.\<close>

lemma elems_remove:
  "wf_bins bs \<Longrightarrow> (k, b) \<in> set bs \<Longrightarrow> a \<in> set b \<Longrightarrow>
    elems (bins_remove k a bs) = remove1 a (elems bs)"
proof (induction k a bs rule: bins_remove.induct)
  case (2 k a k' b' bs)
  show ?case
  proof (cases "k = k'")
    case True
    then have "b = b'" using 2(2,3) by (force simp: wf_bins_def)
    then show ?thesis using True 2(4) by (simp add: remove1_append)
  next
    case False
    then have kb: "(k, b) \<in> set bs" using 2 by auto
    then have "a \<in> set (elems bs)" using 2(4) by (force simp: elems_def)
    then have "a \<notin> set b'" using 2(2) by (auto simp: wf_bins_def)
    then show ?thesis using False 2(1) [OF False wf_bins_tl [OF 2(2)] kb 2(4)]
      by (simp add: remove1_append)
  qed
qed simp

lemma set_elems_remove1:
  assumes "bins_at h p bs" "wf_bins bs" "a \<in> set (elems bs)" "h a = Some e"
  shows "elems (bins_remove (ev_key e) a bs) = remove1 a (elems bs)"
    and "set (elems (bins_remove (ev_key e) a bs)) = set (elems bs) - {a}"
proof -
  obtain k b where kb: "(k, b) \<in> set bs" "a \<in> set b" using assms(3) by (auto simp: elems_def)
  then have "ev_key e = k" using bins_at_key [OF assms(1)] assms(4) by fastforce
  then show *: "elems (bins_remove (ev_key e) a bs) = remove1 a (elems bs)"
    using elems_remove [OF assms(2)] kb by simp
  show "set (elems (bins_remove (ev_key e) a bs)) = set (elems bs) - {a}"
    unfolding * using assms(2) by (simp add: wf_bins_def set_remove1_eq)
qed

lemma queue_ok_remove:
  assumes ok: "queue_ok q Q h bs" and a: "h a = Some e" "a \<in> set (elems bs)"
  obtains p h2 e2 where "eq_remove q a (Q, h) = retO (Q\<lparr>eq_head := p\<rparr>, h2)"
    "h2 a = Some e2" "ev_when e2 = ev_when e" "ev_priority e2 = ev_priority e"
    "ev_flags e2 = ev_flags e" "ev_queue e2 = ev_queue e" "data h2 = data h"
    "\<And>x. x \<notin> set (elems bs) \<Longrightarrow> h2 x = h x"
    "queue_ok q (Q\<lparr>eq_head := p\<rparr>) h2 (bins_remove (ev_key e) a bs)"
proof -
  have rep: "bins_at h (eq_head Q) bs" and wf: "wf_bins bs" and own: "ev_queue e = Some q"
    using ok a by (auto simp: queue_ok_def pending_at_def pending_def)
  obtain p h2 where r: "eq_remove q a (Q, h) = retO (Q\<lparr>eq_head := p\<rparr>, h2)"
    "bins_at h2 p (bins_remove (ev_key e) a bs)" "data h2 = data h"
    "\<And>x. x \<notin> set (elems bs) \<Longrightarrow> h2 x = h x"
    using eq_remove_refines [OF rep wf a(2,1) own] by auto
  have "data h2 a = data h a" by (simp add: r)
  then obtain e2 where e2: "h2 a = Some e2"
    "e2\<lparr>ev_nextBin := None, ev_nextInBin := None\<rparr> = e\<lparr>ev_nextBin := None, ev_nextInBin := None\<rparr>"
    using a(1) by (auto simp: data_def)
  have "pending_at q t h2 x = pending_at q t h x" for x t
    by (rule pending_at_data) (simp add: r(3))
  then have "queue_ok q (Q\<lparr>eq_head := p\<rparr>) h2 (bins_remove (ev_key e) a bs)"
    using ok r(2) wf_bins_remove [OF wf] set_elems_remove1(2) [OF rep wf a(2,1)]
    by (simp add: queue_ok_def)
  then show ?thesis using that [OF r(1) e2(1)] data_fields [OF e2(2)] r(3,4) by blast
qed

text \<open>Popping the head, whose time is the least.\<close>

lemma queue_ok_head:
  assumes "queue_ok q Q h bs" "eq_head Q = Some a"
  obtains k as bs' e where "bs = (k, a # as) # bs'" "h a = Some e" "ev_key e = k"
    "pending q (eq_curTick Q) e"
    "\<And>x ex. x \<in> set (elems bs) \<Longrightarrow> h x = Some ex \<Longrightarrow> ev_key e \<le> ev_key ex"
proof -
  have rep: "bins_at h (Some a) bs" and wf: "wf_bins bs"
    using assms by (auto simp: queue_ok_def)
  obtain k as bs' e where bs: "bs = (k, a # as) # bs'" and e: "h a = Some e" "ev_key e = k"
    using rep by (cases "(h, Some a, bs)" rule: bins_at.cases) auto
  have "pending q (eq_curTick Q) e" using assms e bs by (auto simp: queue_ok_def pending_at_def)
  moreover have "ev_key e \<le> ev_key ex" if x: "x \<in> set (elems bs)" "h x = Some ex" for x ex
  proof -
    obtain k' b where kb: "(k', b) \<in> set bs" "x \<in> set b" using x(1) by (auto simp: elems_def)
    then have "ev_key ex = k'" using bins_at_key [OF rep] x(2) by fastforce
    moreover have "k \<le> k'" using kb(1) wf bs by (force simp: wf_bins_def)
    ultimately show ?thesis using e by simp
  qed
  ultimately show ?thesis using that bs e by blast
qed

lemma pop_head_ok:
  assumes ok: "queue_ok q Q h bs" and hd: "eq_head Q = Some a" and a: "h a = Some e"
  obtains p h2 e2 where "pop_head (Q, h) = retO (a, Q\<lparr>eq_head := p\<rparr>, h2)"
    "h2 a = Some e2" "ev_when e2 = ev_when e" "ev_priority e2 = ev_priority e"
    "ev_flags e2 = ev_flags (ev_clear Scheduled e)"
    "data h2 = data (h(a \<mapsto> ev_clear Scheduled e))"
    "\<And>x. x \<notin> set (elems bs) \<Longrightarrow> h2 x = h x"
    "queue_ok q (Q\<lparr>eq_head := p, eq_curTick := ev_when e\<rparr>) h2 (bins_pop bs)"
    "queue_ok q (Q\<lparr>eq_head := p\<rparr>) h2 (bins_pop bs)" "a \<in> set (elems bs)"
    "set (elems (bins_pop bs)) = set (elems bs) - {a}"
proof -
  have rep: "bins_at h (Some a) bs" and wf: "wf_bins bs"
    using ok hd by (auto simp: queue_ok_def)
  obtain k as bs' where bs: "bs = (k, a # as) # bs'" and e: "ev_key e = k"
    "in_bin h k (ev_nextInBin e) as" "bins_at h (ev_nextBin e) bs'"
    using rep a by (cases "(h, Some a, bs)" rule: bins_at.cases) auto
  have dist: "distinct (a # as @ elems bs')" using wf bs by (simp add: wf_bins_def)
  have elems: "set (elems (bins_pop bs)) = set (elems bs) - {a}" using dist bs by auto
  let ?h = "h(a \<mapsto> ev_clear Scheduled e)"
  have frame: "in_bin ?h k r as = in_bin h k r as" "bins_at ?h r bs' = bins_at h r bs'" for r
    using dist by (auto intro!: in_bin_same bins_at_same)
  obtain p h2 where r: "pop_head (Q, h) = retO (a, Q\<lparr>eq_head := p\<rparr>, h2)"
    "bins_at h2 p (bins_pop bs)" "data h2 = data ?h" "h2 a = ?h a"
    "\<And>x. x \<notin> set (elems bs) \<Longrightarrow> h2 x = h x"
  proof (cases as)
    case Nil
    then show ?thesis
      using that [of "ev_nextBin e" ?h] e a hd frame
      by (simp add: bs pop_head_def bin_cons_def)
  next
    case (Cons n ns)
    then obtain en where n: "ev_nextInBin e = Some n" "?h n = Some en" "ev_key en = k"
      "in_bin ?h k (ev_nextInBin en) ns" using e(2) unfolding frame [symmetric] by auto
    let ?h2 = "?h(n \<mapsto> en\<lparr>ev_nextBin := ev_nextBin e\<rparr>)"
    have "in_bin ?h2 k (ev_nextInBin en) ns" "bins_at ?h2 (ev_nextBin e) bs'"
      using dist Cons by (auto intro!: in_bin_same [THEN iffD2, OF _ n(4)]
          bins_at_same [THEN iffD2, OF _ e(3)])
    then have "bins_at ?h2 (Some n) (bins_pop bs)" using n Cons by (simp add: bs bin_cons_def)
    moreover have "pop_head (Q, h) = retO (a, Q\<lparr>eq_head := Some n\<rparr>, ?h2)"
      using a hd n by (simp add: pop_head_def set_nextBin_Some)
    moreover have "data ?h2 = data ?h" using n(2) by (rule data_update)
    ultimately show ?thesis using that [of "Some n" ?h2] dist Cons bs by auto
  qed
  have le: "ev_key e \<le> ev_key ex" if "x \<in> set (elems bs)" "h x = Some ex" for x ex
    using queue_ok_head [OF ok hd] that a by (metis option.inject)
  have pend: "pending_at q t h2 x" if x: "x \<in> set (elems (bins_pop bs))" and t: "t \<le> ev_when e" for x t
  proof -
    have x': "x \<in> set (elems bs)" "x \<noteq> a" using x elems by auto
    then obtain ex where ex: "h x = Some ex" "pending q (eq_curTick Q) ex"
      using ok by (auto simp: queue_ok_def pending_at_def)
    have "ev_when e \<le> ev_when ex" using le [OF x'(1) ex(1)] by (auto simp: ev_key_def)
    then have "pending_at q t h x" using ex t by (auto simp: pending_at_def pending_def)
    moreover have "data h2 x = data h x" using fun_cong [OF r(3), of x] x'(2) by (simp add: data_def)
    ultimately show ?thesis by (blast intro: pending_at_data [THEN iffD2])
  qed
  have "eq_curTick Q \<le> ev_when e"
    using ok a bs by (auto simp: queue_ok_def pending_at_def pending_def)
  then have "queue_ok q (Q\<lparr>eq_head := p, eq_curTick := ev_when e\<rparr>) h2 (bins_pop bs)"
    "queue_ok q (Q\<lparr>eq_head := p\<rparr>) h2 (bins_pop bs)"
    using ok r(2) pend wf_bins_pop [OF wf] by (auto simp: queue_ok_def)
  then show ?thesis
    using that [of p h2 "ev_clear Scheduled e"] r elems bs by (simp add: ev_clear_def)
qed

end
