(* ===== verification/KernelSteps.thy ===== *)
theory KernelSteps
  imports KernelInvariant
begin

text \<open>
  The public operations of the event queue on the state of the kernel: \<open>schedule\<close>,
  \<open>deschedule\<close>, \<open>reschedule\<close> and the first half of \<open>serviceOne\<close>, each with the bins it leaves,
  and the step relation of the operations an event handler may use.
\<close>

section \<open>What the operations do to the bins\<close>

definition set_queue :: "nat \<Rightarrow> EventQueue \<Rightarrow> heap \<Rightarrow> kernel \<Rightarrow> kernel" where
  "set_queue q Q h k = k\<lparr>k_queues := (k_queues k)[q := Q], k_events := h\<rparr>"

lemma set_queue_simps [simp]:
  "k_queues (set_queue q Q h k) = (k_queues k)[q := Q]"
  "k_events (set_queue q Q h k) = h"
  "k_inParallelMode (set_queue q Q h k) = k_inParallelMode k"
  "k_curEventQueue (set_queue q Q h k) = k_curEventQueue k"
  "k_mainEventQueue (set_queue q Q h k) = k_mainEventQueue k"
  "k_numMainEventQueues (set_queue q Q h k) = k_numMainEventQueues k"
  by (simp_all add: set_queue_def)

lemma kernel_rep_queue:
  "kernel_rep k B \<Longrightarrow> q < length (k_queues k) \<Longrightarrow> queue_ok q (k_queues k ! q) (k_events k) (B q)"
  by (simp add: kernel_rep_def)

lemma kernel_rep_serial: "kernel_rep k B \<Longrightarrow> \<not> k_inParallelMode k"
  by (simp add: kernel_rep_def)

lemma not_scheduled_off:
  "kernel_rep k B \<Longrightarrow> k_events k a = Some e \<Longrightarrow> \<not> ev_scheduled e \<Longrightarrow> q < length (k_queues k) \<Longrightarrow>
    a \<notin> set (elems (B q))"
  using kernel_rep_owner by fastforce

lemma ev_key_pair: "ev_key e = (ev_when e, ev_priority e)"
  by (simp add: ev_key_def)

lemma data_upd_cong: "data h = data h' \<Longrightarrow> data (h(a := v)) = data (h'(a := v))"
  by (simp add: data_def fun_eq_iff)

lemma data_upd_eq:
  "e\<lparr>ev_nextBin := None, ev_nextInBin := None\<rparr> = e'\<lparr>ev_nextBin := None, ev_nextInBin := None\<rparr> \<Longrightarrow>
    data (h(a \<mapsto> e)) = data (h(a \<mapsto> e'))"
  by (simp add: data_def fun_eq_iff)

text \<open>Two events with the same scalars differ at most in their pointers.\<close>

lemma same_scalars:
  "ev_when (e :: Event) = ev_when e' \<Longrightarrow> ev_priority e = ev_priority e' \<Longrightarrow>
    ev_flags e = ev_flags e' \<Longrightarrow> ev_queue e = ev_queue e' \<Longrightarrow>
    e\<lparr>ev_nextBin := None, ev_nextInBin := None\<rparr> = e'\<lparr>ev_nextBin := None, ev_nextInBin := None\<rparr>"
  by (cases e; cases e') simp

lemma eq_schedule_rep:
  assumes rep: "kernel_rep k B" and q: "q < length (k_queues k)"
    and a: "k_events k a = Some e" "\<not> ev_scheduled e" "ev_initialized e"
    and t: "eq_curTick (k_queues k ! q) \<le> t"
  obtains p h where
    "eq_schedule q a t g k = retO (set_queue q ((k_queues k ! q)\<lparr>eq_head := p\<rparr>) h k)"
    "data h = data ((k_events k)(a \<mapsto> ev_set Scheduled (ev_setWhen t q e)))"
    "kernel_rep (set_queue q ((k_queues k ! q)\<lparr>eq_head := p\<rparr>) h k)
       (B(q := bins_insert (t, ev_priority e) a (B q)))"
proof -
  let ?Q = "k_queues k ! q" and ?h = "k_events k"
  have ok: "queue_ok q ?Q ?h (B q)" by (rule kernel_rep_queue [OF rep q])
  have off: "a \<notin> set (elems (B q))" by (rule not_scheduled_off [OF rep a(1,2) q])
  obtain p h2 e2 where r: "eq_insert a (?Q, ?h(a \<mapsto> ev_setWhen t q e)) = retO (?Q\<lparr>eq_head := p\<rparr>, h2)"
    and e2: "h2 a = Some e2" "ev_when e2 = t" "ev_priority e2 = ev_priority e"
    "ev_flags e2 = ev_flags e" "ev_queue e2 = Some q"
    and d: "data h2 = data (?h(a \<mapsto> ev_setWhen t q e))"
    and same: "\<And>x. x \<notin> insert a (set (elems (B q))) \<Longrightarrow> h2 x = ?h x"
    and fin: "\<And>e3. ev_key e3 = ev_key e2 \<Longrightarrow> ev_nextBin e3 = ev_nextBin e2 \<Longrightarrow>
      ev_nextInBin e3 = ev_nextInBin e2 \<Longrightarrow> pending q (eq_curTick ?Q) e3 \<Longrightarrow>
      queue_ok q (?Q\<lparr>eq_head := p\<rparr>) (h2(a \<mapsto> e3)) (bins_insert (t, ev_priority e) a (B q))"
    using queue_ok_insert [OF ok a(1) off, of t] by blast
  let ?e3 = "ev_set Scheduled e2" and ?Q' = "?Q\<lparr>eq_head := p\<rparr>"
  have init: "ev_initialized e2" using a(3) e2 by (simp add: ev_initialized_def)
  have "eq_schedule q a t g k = retO (set_queue q ?Q' (h2(a \<mapsto> ?e3)) k)"
    using q a t r e2(1) kernel_rep_serial [OF rep]
    by (simp add: eq_schedule_def queue_at_def on_event_def on_queue_def Event_acquire_def
        set_queue_def)
  moreover have "data (h2(a \<mapsto> ?e3)) = data (?h(a \<mapsto> ev_set Scheduled (ev_setWhen t q e)))"
    using data_upd_cong [OF d, of a "Some ?e3"] e2(2-5)
      data_upd_eq [OF same_scalars, of ?e3 "ev_set Scheduled (ev_setWhen t q e)" ?h a]
    by (simp add: ev_set_def)
  moreover have "kernel_rep (set_queue q ?Q' (h2(a \<mapsto> ?e3)) k)
      (B(q := bins_insert (t, ev_priority e) a (B q)))"
  proof (rule kernel_rep_update [OF rep q, where a = a and Q' = ?Q' and h' = "h2(a \<mapsto> ?e3)"])
    show "queue_ok q ?Q' (h2(a \<mapsto> ?e3)) (bins_insert (t, ev_priority e) a (B q))"
      by (rule fin) (use init t e2 in \<open>simp_all add: pending_def\<close>)
    show "\<not> scheduled_at ?h a \<or> a \<in> set (elems (B q))" using a by (simp add: scheduled_at_def)
  qed (use same in auto)
  ultimately show ?thesis by (rule that)
qed

lemma Event_release_cases:
  assumes "k_events k a = Some e" "\<not> ev_scheduled e"
  shows "Event_release a k =
    retO (if ev_isManaged e then k\<lparr>k_events := (k_events k)(a := None)\<rparr> else k)"
  using assms by (simp add: Event_release_def Event_delete_def)

lemma kernel_rep_drop:
  assumes rep: "kernel_rep k B" and e: "k_events k a = Some e" "\<not> ev_scheduled e"
    and v: "\<And>e'. v = Some e' \<Longrightarrow> \<not> ev_scheduled e'"
  shows "kernel_rep (k\<lparr>k_events := (k_events k)(a := v)\<rparr>) B"
  unfolding kernel_rep_def
proof (intro conjI allI impI)
  let ?k = "k\<lparr>k_events := (k_events k)(a := v)\<rparr>"
  show "\<not> k_inParallelMode ?k" using rep by (simp add: kernel_rep_def)
  show "queue_ok q (k_queues ?k ! q) (k_events ?k) (B q)" if "q < length (k_queues ?k)" for q
    using that queue_ok_same [OF kernel_rep_queue [OF rep], of q "k_events ?k"]
      not_scheduled_off [OF rep e, of q] by fastforce
  fix x assume "scheduled_at (k_events ?k) x"
  then have "scheduled_at (k_events k) x"
    using v by (cases "x = a") (auto simp: scheduled_at_def)
  then show "\<exists>q < length (k_queues ?k). x \<in> set (elems (B q))"
    using rep by (simp add: kernel_rep_def)
qed

lemma eq_deschedule_rep:
  assumes rep: "kernel_rep k B" and q: "q < length (k_queues k)"
    and a: "k_events k a = Some e" "a \<in> set (elems (B q))"
  obtains p h where
    "eq_deschedule q a k = retO (set_queue q ((k_queues k ! q)\<lparr>eq_head := p\<rparr>) h k)"
    "data h = data ((k_events k)(a :=
       if ev_isManaged e then None else Some (ev_clear Scheduled (ev_clear Squashed e))))"
    "kernel_rep (set_queue q ((k_queues k ! q)\<lparr>eq_head := p\<rparr>) h k)
       (B(q := bins_remove (ev_key e) a (B q)))"
proof -
  let ?Q = "k_queues k ! q" and ?h = "k_events k"
  have ok: "queue_ok q ?Q ?h (B q)" by (rule kernel_rep_queue [OF rep q])
  have sch: "ev_scheduled e" "ev_initialized e" using kernel_rep_owner [OF rep q a(2)] a(1) by auto
  obtain p h2 e2 where r: "eq_remove q a (?Q, ?h) = retO (?Q\<lparr>eq_head := p\<rparr>, h2)"
    and e2: "h2 a = Some e2" "ev_when e2 = ev_when e" "ev_priority e2 = ev_priority e"
    "ev_flags e2 = ev_flags e" "ev_queue e2 = ev_queue e"
    and d: "data h2 = data ?h" and same: "\<And>x. x \<notin> set (elems (B q)) \<Longrightarrow> h2 x = ?h x"
    and fin: "queue_ok q (?Q\<lparr>eq_head := p\<rparr>) h2 (bins_remove (ev_key e) a (B q))"
    using queue_ok_remove [OF ok a] by blast
  let ?Q' = "?Q\<lparr>eq_head := p\<rparr>" and ?bs = "bins_remove (ev_key e) a (B q)"
  have rest: "set (elems ?bs) = set (elems (B q)) - {a}"
    using ok a by (intro set_elems_remove1(2) [of ?h "eq_head ?Q"]) (auto simp: queue_ok_def)
  define v where "v = (if ev_isManaged e then None
    else Some (ev_clear Scheduled (ev_clear Squashed e2)))"
  have man: "ev_isManaged (ev_clear Scheduled (ev_clear Squashed e2)) = ev_isManaged e"
    using e2(4) by (simp add: ev_isManaged_def ev_clear_def flag_bit bit_flags_clear bit_flag_consts)
  have "eq_deschedule q a k = retO (set_queue q ?Q' (h2(a := v)) k)"
    using q a(1) sch r e2(1) kernel_rep_serial [OF rep] man
    by (simp add: eq_deschedule_def queue_at_def on_event_def on_queue_def Event_release_cases
        set_queue_def v_def)
  moreover have "data (h2(a := v)) = data (?h(a :=
      if ev_isManaged e then None else Some (ev_clear Scheduled (ev_clear Squashed e))))"
    using data_upd_cong [OF d, of a v] e2(2-5)
      data_upd_eq [OF same_scalars, of "ev_clear Scheduled (ev_clear Squashed e2)"
        "ev_clear Scheduled (ev_clear Squashed e)" ?h a]
    by (simp add: v_def ev_clear_def)
  moreover have "kernel_rep (set_queue q ?Q' (h2(a := v)) k) (B(q := ?bs))"
  proof (rule kernel_rep_update [OF rep q, where a = a and Q' = ?Q' and h' = "h2(a := v)"])
    show "queue_ok q ?Q' (h2(a := v)) ?bs"
      using fin rest by (intro queue_ok_same [OF fin]) auto
    show "\<not> scheduled_at ?h a \<or> a \<in> set (elems (B q))" using a by simp
    show "x \<in> set (elems ?bs)" if "x \<in> insert a (set (elems (B q)))" "scheduled_at (h2(a := v)) x" for x
      using that rest a(2) by (cases "x = a") (auto simp: scheduled_at_def v_def split: if_splits)
  qed (use same a in auto)
  ultimately show ?thesis by (rule that)
qed


lemma eq_reschedule_rep:
  assumes rep: "kernel_rep k B" and q: "q < length (k_queues k)"
    and a: "k_events k a = Some e" "ev_initialized e" "always \<or> ev_scheduled e"
    and own: "ev_scheduled e \<Longrightarrow> a \<in> set (elems (B q))"
    and t: "eq_curTick (k_queues k ! q) \<le> t"
  obtains p h where
    "eq_reschedule q a t always k = retO (set_queue q ((k_queues k ! q)\<lparr>eq_head := p\<rparr>) h k)"
    "data h = data ((k_events k)(a \<mapsto>
       ev_set Scheduled (ev_clear Squashed (ev_setWhen t q e))))"
    "kernel_rep (set_queue q ((k_queues k ! q)\<lparr>eq_head := p\<rparr>) h k)
       (B(q := bins_insert (t, ev_priority e) a
                 (if ev_scheduled e then bins_remove (ev_key e) a (B q) else B q)))"
proof -
  let ?Q = "k_queues k ! q" and ?h = "k_events k"
  define bs where "bs = (if ev_scheduled e then bins_remove (ev_key e) a (B q) else B q)"
  have ok: "queue_ok q ?Q ?h (B q)" by (rule kernel_rep_queue [OF rep q])
  obtain p1 h1 e1 where s1:
    "(if ev_scheduled e then on_queue q (eq_remove q a) k else Event_acquire a k)
       = retO (set_queue q (?Q\<lparr>eq_head := p1\<rparr>) h1 k)"
    and e1: "h1 a = Some e1" "ev_priority e1 = ev_priority e" "ev_flags e1 = ev_flags e"
    and d1: "data h1 = data ?h" and same1: "\<And>x. x \<notin> set (elems (B q)) \<Longrightarrow> h1 x = ?h x"
    and ok1: "queue_ok q (?Q\<lparr>eq_head := p1\<rparr>) h1 bs"
    and off: "a \<notin> set (elems bs)" and sub: "set (elems bs) \<subseteq> set (elems (B q))"
      "set (elems (B q)) \<subseteq> insert a (set (elems bs))"
  proof (cases "ev_scheduled e")
    case True
    obtain p h2 e2 where r: "eq_remove q a (?Q, ?h) = retO (?Q\<lparr>eq_head := p\<rparr>, h2)"
      "h2 a = Some e2" "ev_when e2 = ev_when e" "ev_priority e2 = ev_priority e"
      "ev_flags e2 = ev_flags e" "ev_queue e2 = ev_queue e"
      "data h2 = data ?h" "\<And>x. x \<notin> set (elems (B q)) \<Longrightarrow> h2 x = ?h x"
      "queue_ok q (?Q\<lparr>eq_head := p\<rparr>) h2 (bins_remove (ev_key e) a (B q))"
      using queue_ok_remove [OF ok a(1) own [OF True]] by metis
    have "set (elems bs) = set (elems (B q)) - {a}"
      using ok a True own unfolding bs_def
      by (simp, intro set_elems_remove1(2) [of ?h "eq_head ?Q"]) (auto simp: queue_ok_def)
    then show ?thesis
    proof (intro that [of p h2 e2])
      show "(if ev_scheduled e then on_queue q (eq_remove q a) k else Event_acquire a k)
          = retO (set_queue q (?Q\<lparr>eq_head := p\<rparr>) h2 k)"
        using r(1) True q by (simp add: on_queue_def queue_at_def set_queue_def)
    qed (use r True in \<open>auto simp: bs_def\<close>)
  next
    case False
    have Q: "?Q\<lparr>eq_head := eq_head ?Q\<rparr> = ?Q" by simp
    have k: "set_queue q ?Q ?h k = k" using q by (simp add: set_queue_def)
    show ?thesis
    proof (rule that [of "eq_head ?Q" ?h e], unfold Q k)
      show "queue_ok q ?Q ?h bs" using ok False by (simp add: bs_def)
      show "a \<notin> set (elems bs)" using not_scheduled_off [OF rep a(1) False q] False
        by (simp add: bs_def)
    qed (use False a(1) in \<open>auto simp: Event_acquire_def bs_def\<close>)
  qed
  let ?Q1 = "?Q\<lparr>eq_head := p1\<rparr>"
  obtain p h2 e2 where r: "eq_insert a (?Q1, h1(a \<mapsto> ev_setWhen t q e1)) = retO (?Q1\<lparr>eq_head := p\<rparr>, h2)"
    and e2: "h2 a = Some e2" "ev_when e2 = t" "ev_priority e2 = ev_priority e1"
    "ev_flags e2 = ev_flags e1" "ev_queue e2 = Some q"
    and d: "data h2 = data (h1(a \<mapsto> ev_setWhen t q e1))"
    and same: "\<And>x. x \<notin> insert a (set (elems bs)) \<Longrightarrow> h2 x = h1 x"
    and fin: "\<And>e3. ev_key e3 = ev_key e2 \<Longrightarrow> ev_nextBin e3 = ev_nextBin e2 \<Longrightarrow>
      ev_nextInBin e3 = ev_nextInBin e2 \<Longrightarrow> pending q (eq_curTick ?Q1) e3 \<Longrightarrow>
      queue_ok q (?Q1\<lparr>eq_head := p\<rparr>) (h2(a \<mapsto> e3)) (bins_insert (t, ev_priority e1) a bs)"
    using queue_ok_insert [OF ok1 e1(1) off, of t] by blast
  let ?e3 = "ev_set Scheduled (ev_clear Squashed e2)" and ?Q' = "?Q\<lparr>eq_head := p\<rparr>"
  have init: "ev_initialized e2" using a(2) e2(4) e1(3) by (simp add: ev_initialized_def)
  have "eq_reschedule q a t always k = retO (set_queue q ?Q' (h2(a \<mapsto> ?e3)) k)"
    using q a t s1 r e2(1) e1(1) kernel_rep_serial [OF rep]
    by (simp add: eq_reschedule_def queue_at_def on_event_def on_queue_def set_queue_def)
  moreover have "data (h2(a \<mapsto> ?e3)) = data (?h(a \<mapsto>
      ev_set Scheduled (ev_clear Squashed (ev_setWhen t q e))))"
  proof -
    have "data (h2(a \<mapsto> ?e3)) = data (h1(a \<mapsto> ?e3))"
      using data_upd_cong [OF d, of a "Some ?e3"] by simp
    also have "\<dots> = data (?h(a \<mapsto> ?e3))" by (rule data_upd_cong [OF d1])
    also have "\<dots> = data (?h(a \<mapsto> ev_set Scheduled (ev_clear Squashed (ev_setWhen t q e))))"
      by (rule data_upd_eq, rule same_scalars)
        (use e1 e2 in \<open>simp_all add: ev_set_def ev_clear_def\<close>)
    finally show ?thesis .
  qed
  moreover have "kernel_rep (set_queue q ?Q' (h2(a \<mapsto> ?e3)) k)
      (B(q := bins_insert (t, ev_priority e) a bs))"
  proof (rule kernel_rep_update [OF rep q, where a = a and Q' = ?Q' and h' = "h2(a \<mapsto> ?e3)"])
    have "queue_ok q (?Q1\<lparr>eq_head := p\<rparr>) (h2(a \<mapsto> ?e3)) (bins_insert (t, ev_priority e1) a bs)"
      by (rule fin) (use init t e2 in \<open>simp_all add: pending_def\<close>)
    then show "queue_ok q ?Q' (h2(a \<mapsto> ?e3)) (bins_insert (t, ev_priority e) a bs)"
      by (simp add: e1)
    show "\<not> scheduled_at ?h a \<or> a \<in> set (elems (B q))" using a own by (auto simp: scheduled_at_def)
    show "(h2(a \<mapsto> ?e3)) x = ?h x" if "x \<notin> insert a (set (elems (B q)))" for x
      using that same [of x] same1 [of x] sub by auto
    show "x \<in> set (elems (bins_insert (t, ev_priority e) a bs))"
      if "x \<in> insert a (set (elems (B q)))" for x
      using that sub by auto
  qed simp_all
  ultimately show ?thesis unfolding bs_def by (rule that)
qed

section \<open>Handlers\<close>

text \<open>
  What the handler of an event may do to the kernel: \<open>schedule\<close>, \<open>deschedule\<close> and \<open>reschedule\<close>
  on any queue, setting and clearing the public flags of an event, the constructor and the
  destructor of events, and the flags that the signal handlers set. The pointers and the flag
  \<open>Scheduled\<close> are private. The other public operations of \<open>EventQueue\<close> (\<open>setCurTick\<close>,
  \<open>serviceOne\<close>, \<open>serviceEvents\<close>, \<open>replaceHead\<close>, \<open>handleAsyncInsertions\<close>,
  \<open>checkpointReschedule\<close>) are for the main loop and for checkpoints, not for handlers; the first
  and the third could set the clock back.
\<close>

inductive api_step :: "kernel \<Rightarrow> kernel \<Rightarrow> bool" where
  api_schedule: "eq_schedule q a t g k = retO k' \<Longrightarrow> api_step k k'"
| api_deschedule: "eq_deschedule q a k = retO k' \<Longrightarrow> api_step k k'"
| api_reschedule: "eq_reschedule q a t al k = retO k' \<Longrightarrow> api_step k k'"
| api_setFlags: "Event_setFlags m a k = retO k' \<Longrightarrow> api_step k k'"
| api_clearFlags: "Event_clearFlags m a k = retO k' \<Longrightarrow> api_step k k'"
| api_new: "k_events k a = None \<Longrightarrow> Event_new p f = Inr e \<Longrightarrow>
    api_step k (k\<lparr>k_events := (k_events k)(a \<mapsto> e)\<rparr>)"
| api_delete: "Event_delete a k = retO k' \<Longrightarrow> api_step k k'"
| api_signal: "api_step k (k\<lparr>k_async_event := b, k_async_statdump := b1, k_async_statreset := b2,
    k_async_io := b3, k_async_exit := b4, k_async_exception := b5\<rparr>)"

definition api_steps :: "kernel \<Rightarrow> kernel \<Rightarrow> bool" where
  "api_steps = api_step\<^sup>*\<^sup>*"

text \<open>What the steps leave alone.\<close>

definition clocks :: "kernel \<Rightarrow> tick list" where
  "clocks k = map eq_curTick (k_queues k)"

definition same_frame :: "kernel \<Rightarrow> kernel \<Rightarrow> bool" where
  "same_frame k k' \<longleftrightarrow> clocks k' = clocks k \<and> k_curEventQueue k' = k_curEventQueue k \<and>
    k_mainEventQueue k' = k_mainEventQueue k \<and>
    k_numMainEventQueues k' = k_numMainEventQueues k"

lemma same_frame_refl [simp]: "same_frame k k"
  by (simp add: same_frame_def)

lemma same_frame_trans [trans]: "same_frame k k1 \<Longrightarrow> same_frame k1 k2 \<Longrightarrow> same_frame k k2"
  by (simp add: same_frame_def)

lemma same_frame_set_queue:
  "q < length (k_queues k) \<Longrightarrow> eq_curTick Q = eq_curTick (k_queues k ! q) \<Longrightarrow>
    same_frame k (set_queue q Q h k)"
  by (auto simp: same_frame_def clocks_def map_update intro: list_update_same_conv [THEN iffD2])

text \<open>Flags of the derived classes.\<close>

lemma public_bits:
  assumes "flags_noneSet m (NOT PublicWrite)" "bit m n"
  shows "n \<noteq> 1" "n < 6"
proof -
  have "m AND NOT PublicWrite = 0" using assms(1) by (simp add: flags_noneSet_def)
  then have "bit m n \<longrightarrow> bit PublicWrite n"
    using bit_imp_le_length [of m n]
    by (metis bit_0_eq bit_and_iff bit_not_iff bot_apply bot_bool_def possible_bit_word)
  then have b: "bit PublicWrite n" using assms(2) by simp
  have "PublicWrite AND 2 = 0" by (simp add: PublicWrite_def)
  then show "n \<noteq> 1" using b and_exp_eq_0_iff_not_bit [of PublicWrite 1] by auto
  have "take_bit 6 PublicWrite = PublicWrite" by (simp add: PublicWrite_def take_bit_eq_mod)
  then show "n < 6" using b by (metis bit_take_bit_iff)
qed

lemma public_flags [simp]:
  assumes "flags_noneSet m (NOT PublicWrite)"
  shows "ev_scheduled (ev_set m e) = ev_scheduled e" "ev_scheduled (ev_clear m e) = ev_scheduled e"
    "ev_initialized (ev_set m e) = ev_initialized e"
    "ev_initialized (ev_clear m e) = ev_initialized e"
proof -
  show "ev_scheduled (ev_set m e) = ev_scheduled e" "ev_scheduled (ev_clear m e) = ev_scheduled e"
    using public_bits [OF assms] by (auto simp: ev_flag_defs)
  have high: "\<not> bit m n" if "6 \<le> n" for n using public_bits(2) [OF assms, of n] that by auto
  show "ev_initialized (ev_set m e) = ev_initialized e"
    "ev_initialized (ev_clear m e) = ev_initialized e"
    using high
    by (auto intro!: ev_initialized_cong simp: ev_set_def ev_clear_def bit_flags_set
        bit_flags_clear)
qed

lemma kernel_rep_flags:
  assumes rep: "kernel_rep k B" and e: "k_events k a = Some e"
    and e': "ev_key e' = ev_key e" "ev_nextBin e' = ev_nextBin e" "ev_nextInBin e' = ev_nextInBin e"
      "ev_queue e' = ev_queue e" "ev_scheduled e' = ev_scheduled e"
      "ev_initialized e' = ev_initialized e"
  shows "kernel_rep (k\<lparr>k_events := (k_events k)(a \<mapsto> e')\<rparr>) B"
proof -
  let ?h = "(k_events k)(a \<mapsto> e')"
  have w: "ev_when e' = ev_when e" using e'(1) by (simp add: ev_key_def)
  have "bins_at ?h p bs" if "bins_at (k_events k) p bs" for p bs
    by (rule bins_at_update [OF that e e'(1-3)])
  moreover have "pending_at q t ?h x = pending_at q t (k_events k) x" for q t x
    using e e' w by (auto simp: pending_at_def pending_def)
  moreover have "scheduled_at ?h x = scheduled_at (k_events k) x" for x
    using e e' by (auto simp: scheduled_at_def)
  ultimately show ?thesis using rep by (auto simp: kernel_rep_def queue_ok_def)
qed


lemma queue_at_retO [res_simps]: "queue_at k q = retO Q \<longleftrightarrow> q < length (k_queues k) \<and> Q = k_queues k ! q"
  by (auto simp: queue_at_def)

lemma deref_retO [res_simps]: "deref h a = retO e \<longleftrightarrow> h a = Some e"
  by (auto simp: deref_def split: option.splits)

lemma eq_remove_owner:
  "eq_remove q a (Q, h) = retO r \<Longrightarrow> \<exists>e. h a = Some e \<and> ev_queue e = Some q"
  by (auto simp: eq_remove_def res_simps split: option.splits)

lemma scheduled_on:
  assumes "kernel_rep k B" "k_events k a = Some e" "ev_scheduled e"
  obtains q where "q < length (k_queues k)" "a \<in> set (elems (B q))" "ev_queue e = Some q"
    "ev_initialized e"
proof -
  have "scheduled_at (k_events k) a" using assms by (auto simp: scheduled_at_def)
  then obtain q where "q < length (k_queues k)" "a \<in> set (elems (B q))"
    using assms(1) by (auto simp: kernel_rep_def)
  then show ?thesis using that kernel_rep_owner [OF assms(1)] assms(2) by fastforce
qed

lemma on_queue_remove_owner:
  assumes rep: "kernel_rep k B" and e: "k_events k a = Some e" "ev_scheduled e"
    and r: "on_queue q (eq_remove q a) k = retO k1"
  shows "q < length (k_queues k)" "a \<in> set (elems (B q))"
proof -
  obtain Q r' where "queue_at k q = retO Q" "eq_remove q a (Q, k_events k) = retO r'"
    using r by (auto simp: on_queue_def res_simps)
  then have q: "q < length (k_queues k)" "ev_queue e = Some q"
    using eq_remove_owner e(1) by (fastforce simp: res_simps)+
  obtain q' where "a \<in> set (elems (B q'))" "ev_queue e = Some q'"
    by (rule scheduled_on [OF rep e])
  then show "q < length (k_queues k)" "a \<in> set (elems (B q))" using q by auto
qed

lemma eq_deschedule_step:
  assumes rep: "kernel_rep k B" and s: "eq_deschedule q a k = retO k'"
  shows "kernel_ok k' \<and> same_frame k k'"
proof -
  obtain e k1 where e: "k_events k a = Some e" "ev_scheduled e"
    and r: "on_queue q (eq_remove q a) k = retO k1"
    using s by (auto simp: eq_deschedule_def res_simps)
  note q = on_queue_remove_owner [OF rep e r]
  obtain p h B' where "eq_deschedule q a k = retO (set_queue q ((k_queues k ! q)\<lparr>eq_head := p\<rparr>) h k)"
    "kernel_rep (set_queue q ((k_queues k ! q)\<lparr>eq_head := p\<rparr>) h k) B'"
    by (rule eq_deschedule_rep [OF rep q(1) e(1) q(2)])
  then show ?thesis using s q(1) by (auto simp: kernel_ok_def same_frame_set_queue)
qed

lemma eq_schedule_step:
  assumes rep: "kernel_rep k B" and s: "eq_schedule q a t g k = retO k'"
  shows "kernel_ok k' \<and> same_frame k k'"
proof -
  obtain e where q: "q < length (k_queues k)" "eq_curTick (k_queues k ! q) \<le> t"
    and e: "k_events k a = Some e" "\<not> ev_scheduled e" "ev_initialized e"
    using s by (auto simp: eq_schedule_def res_simps)
  obtain p h B' where "eq_schedule q a t g k = retO (set_queue q ((k_queues k ! q)\<lparr>eq_head := p\<rparr>) h k)"
    "kernel_rep (set_queue q ((k_queues k ! q)\<lparr>eq_head := p\<rparr>) h k) B'"
    by (rule eq_schedule_rep [OF rep q(1) e q(2)])
  then show ?thesis using s q(1) by (auto simp: kernel_ok_def same_frame_set_queue)
qed

lemma eq_reschedule_step:
  assumes rep: "kernel_rep k B" and s: "eq_reschedule q a t al k = retO k'"
  shows "kernel_ok k' \<and> same_frame k k'"
proof -
  obtain e k1 where q: "q < length (k_queues k)" "eq_curTick (k_queues k ! q) \<le> t"
    and e: "k_events k a = Some e" "ev_initialized e" "al \<or> ev_scheduled e"
    and r: "(if ev_scheduled e then on_queue q (eq_remove q a) k else Event_acquire a k) = retO k1"
    using s by (auto simp: eq_reschedule_def res_simps)
  have own: "a \<in> set (elems (B q))" if "ev_scheduled e"
    using on_queue_remove_owner(2) [OF rep e(1) that] r that by simp
  obtain p h B' where
    "eq_reschedule q a t al k = retO (set_queue q ((k_queues k ! q)\<lparr>eq_head := p\<rparr>) h k)"
    "kernel_rep (set_queue q ((k_queues k ! q)\<lparr>eq_head := p\<rparr>) h k) B'"
    by (rule eq_reschedule_rep [OF rep q(1) e own q(2)])
  then show ?thesis using s q(1) by (auto simp: kernel_ok_def same_frame_set_queue)
qed

lemma same_frame_events [simp]: "same_frame k (k\<lparr>k_events := h\<rparr>)"
  by (simp add: same_frame_def clocks_def)

lemma Event_new_idle: "Event_new p f = Inr e \<Longrightarrow> \<not> ev_scheduled e"
proof -
  assume new: "Event_new p f = Inr e"
  then have f: "flags_noneSet f (NOT PublicWrite)" and e: "ev_flags e = Initialized OR f"
    by (auto simp: Event_new_def res_simps)
  have "Initialized AND 2 = 0" by (simp add: Initialized_def)
  then have "\<not> bit Initialized 1" using and_exp_eq_0_iff_not_bit [of Initialized 1] by simp
  then show ?thesis using public_bits(1) [OF f, of 1] e
    by (auto simp: ev_scheduled_def flag_bit bit_or_iff)
qed

lemma api_step_ok:
  assumes "kernel_ok k" "api_step k k'"
  shows "kernel_ok k' \<and> same_frame k k'"
proof -
  obtain B where rep: "kernel_rep k B" using assms(1) by (auto simp: kernel_ok_def)
  show ?thesis using assms(2)
  proof cases
    case (api_setFlags m a)
    then obtain e where f: "flags_noneSet m (NOT PublicWrite)" and e: "k_events k a = Some e"
      and k': "k' = k\<lparr>k_events := (k_events k)(a \<mapsto> ev_set m e)\<rparr>"
      by (auto simp: Event_setFlags_def on_event_def res_simps)
    have "kernel_rep k' B" unfolding k' by (rule kernel_rep_flags [OF rep e]) (simp_all add: f)
    then show ?thesis by (auto simp: kernel_ok_def k')
  next
    case (api_clearFlags m a)
    then obtain e where f: "flags_noneSet m (NOT PublicWrite)" and e: "k_events k a = Some e"
      and k': "k' = k\<lparr>k_events := (k_events k)(a \<mapsto> ev_clear m e)\<rparr>"
      by (auto simp: Event_clearFlags_def on_event_def res_simps)
    have "kernel_rep k' B" unfolding k' by (rule kernel_rep_flags [OF rep e]) (simp_all add: f)
    then show ?thesis by (auto simp: kernel_ok_def k')
  next
    case (api_new a p f e)
    have off: "a \<notin> set (elems (B q))" if "q < length (k_queues k)" for q
      using kernel_rep_owner [OF rep that] api_new by fastforce
    have "kernel_rep k' B"
      unfolding kernel_rep_def
    proof (intro conjI allI impI)
      show "\<not> k_inParallelMode k'" using rep api_new by (simp add: kernel_rep_def)
      show "queue_ok q (k_queues k' ! q) (k_events k') (B q)" if "q < length (k_queues k')" for q
        using that off [of q] api_new queue_ok_same [OF kernel_rep_queue [OF rep], of q "k_events k'"]
        by fastforce
      show "\<exists>q < length (k_queues k'). x \<in> set (elems (B q))" if "scheduled_at (k_events k') x" for x
        using that api_new Event_new_idle rep
        by (cases "x = a") (auto simp: scheduled_at_def kernel_rep_def)
    qed
    then show ?thesis using api_new by (auto simp: kernel_ok_def)
  next
    case (api_delete a)
    then obtain e where e: "k_events k a = Some e" "\<not> ev_scheduled e"
      and k': "k' = k\<lparr>k_events := (k_events k)(a := None)\<rparr>"
      by (auto simp: Event_delete_def res_simps)
    have "kernel_rep k' B" unfolding k' by (rule kernel_rep_drop [OF rep e]) simp
    then show ?thesis by (auto simp: kernel_ok_def k')
  next
    case api_signal
    then show ?thesis using rep
      by (auto simp: kernel_ok_def kernel_rep_def same_frame_def clocks_def)
  qed (use rep eq_schedule_step eq_deschedule_step eq_reschedule_step in blast)+
qed

lemma api_steps_ok: "api_steps k k' \<Longrightarrow> kernel_ok k \<Longrightarrow> kernel_ok k' \<and> same_frame k k'"
  unfolding api_steps_def
  by (induction rule: rtranclp_induct) (auto dest: api_step_ok intro: same_frame_trans)

section \<open>One event\<close>

text \<open>\<open>serviceOne\<close> up to the call of \<open>process\<close>, and all of it for a squashed event.\<close>

lemma clocks_set_queue:
  "clocks (set_queue q Q h k) = (clocks k)[q := eq_curTick Q]"
  by (simp add: clocks_def map_update)

lemma serviceOne_head:
  assumes rep: "kernel_rep k B" and q: "q < length (k_queues k)"
    and hd: "eq_head (k_queues k ! q) = Some a" and a: "k_events k a = Some e"
    and live: "\<not> ev_squashed e"
  obtains Q h where
    "serviceOne process q k =
      bindO (process a (set_queue q Q h k)) (\<lambda>k.
      bindO (deref (k_events k) a) (\<lambda>e.
        if ev_isExitEvent e
        then guardO (\<not> ev_isManaged e \<or> \<not> flags_isSet (ev_flags e) IsMainQueue)
               (Assert_failed ''would be silly'') (retO (Some a, k))
        else bindO (Event_release a k) (\<lambda>k. retO (None, k))))"
    "kernel_rep (set_queue q Q h k) (B(q := bins_pop (B q)))" "eq_curTick Q = ev_when e"
    "eq_curTick (k_queues k ! q) \<le> ev_when e"
    "data h = data ((k_events k)(a \<mapsto> ev_clear Scheduled e))"
proof -
  let ?Q = "k_queues k ! q" and ?h = "k_events k"
  have ok: "queue_ok q ?Q ?h (B q)" by (rule kernel_rep_queue [OF rep q])
  obtain p h2 e2 where r: "pop_head (?Q, ?h) = retO (a, ?Q\<lparr>eq_head := p\<rparr>, h2)"
    "h2 a = Some e2" "ev_when e2 = ev_when e" "ev_flags e2 = ev_flags (ev_clear Scheduled e)"
    "data h2 = data (?h(a \<mapsto> ev_clear Scheduled e))"
    "\<And>x. x \<notin> set (elems (B q)) \<Longrightarrow> h2 x = ?h x"
    "queue_ok q (?Q\<lparr>eq_head := p, eq_curTick := ev_when e\<rparr>) h2 (bins_pop (B q))"
    "a \<in> set (elems (B q))" "set (elems (bins_pop (B q))) = set (elems (B q)) - {a}"
    using pop_head_ok [OF ok hd a] by metis
  have idle: "\<not> ev_scheduled e2" "\<not> ev_squashed e2"
    using r(4) live by (simp_all add: ev_scheduled_def ev_squashed_def ev_clear_def flag_bit
        bit_flags_clear bit_flag_consts)
  let ?Q' = "?Q\<lparr>eq_head := p, eq_curTick := ev_when e\<rparr>"
  have upd: "?Q\<lparr>eq_head := p\<rparr>\<lparr>eq_curTick := ev_when e\<rparr> = ?Q'" by simp
  have "serviceOne process q k = bindO (process a (set_queue q ?Q' h2 k)) (\<lambda>k.
      bindO (deref (k_events k) a) (\<lambda>e.
        if ev_isExitEvent e
        then guardO (\<not> ev_isManaged e \<or> \<not> flags_isSet (ev_flags e) IsMainQueue)
               (Assert_failed ''would be silly'') (retO (Some a, k))
        else bindO (Event_release a k) (\<lambda>k. retO (None, k))))"
    using r(1-3) q idle
    by (simp add: serviceOne_def queue_at_def eq_setCurTick_def on_queue_def set_queue_def Let_def)
  moreover have "kernel_rep (set_queue q ?Q' h2 k) (B(q := bins_pop (B q)))"
  proof (rule kernel_rep_update [OF rep q r(7), where a = a])
    show "x \<in> set (elems (bins_pop (B q)))"
      if "x \<in> insert a (set (elems (B q)))" "scheduled_at h2 x" for x
      using that r(2,8,9) idle by (cases "x = a") (auto simp: scheduled_at_def)
  qed (use r in auto)
  moreover have "eq_curTick ?Q \<le> ev_when e"
    using ok r(8) a by (auto simp: queue_ok_def pending_at_def pending_def)
  ultimately show ?thesis using that [of ?Q' h2] r(5) by simp
qed

lemma serviceOne_squashed:
  assumes rep: "kernel_rep k B" and q: "q < length (k_queues k)"
    and hd: "eq_head (k_queues k ! q) = Some a" and a: "k_events k a = Some e"
    and dead: "ev_squashed e"
  obtains k' where "serviceOne process q k = retO (None, k')"
    "kernel_rep k' (B(q := bins_pop (B q)))" "same_frame k k'"
proof -
  let ?Q = "k_queues k ! q" and ?h = "k_events k"
  have ok: "queue_ok q ?Q ?h (B q)" by (rule kernel_rep_queue [OF rep q])
  obtain p h2 e2 where r: "pop_head (?Q, ?h) = retO (a, ?Q\<lparr>eq_head := p\<rparr>, h2)"
    "h2 a = Some e2" "ev_flags e2 = ev_flags (ev_clear Scheduled e)"
    "\<And>x. x \<notin> set (elems (B q)) \<Longrightarrow> h2 x = ?h x"
    "queue_ok q (?Q\<lparr>eq_head := p\<rparr>) h2 (bins_pop (B q))"
    "a \<in> set (elems (B q))" "set (elems (bins_pop (B q))) = set (elems (B q)) - {a}"
    using pop_head_ok [OF ok hd a] by metis
  have idle: "\<not> ev_scheduled e2" "ev_squashed e2"
    using r(3) dead by (simp_all add: ev_scheduled_def ev_squashed_def ev_clear_def flag_bit
        bit_flags_clear bit_flag_consts)
  let ?k1 = "set_queue q (?Q\<lparr>eq_head := p\<rparr>) h2 k"
  define v where "v = (if ev_isManaged (ev_clear Squashed e2) then None else Some (ev_clear Squashed e2))"
  let ?k2 = "?k1\<lparr>k_events := h2(a := v)\<rparr>"
  have "kernel_rep ?k1 (B(q := bins_pop (B q)))"
  proof (rule kernel_rep_update [OF rep q r(5), where a = a])
    show "x \<in> set (elems (bins_pop (B q)))"
      if "x \<in> insert a (set (elems (B q)))" "scheduled_at h2 x" for x
      using that r(2,6,7) idle by (cases "x = a") (auto simp: scheduled_at_def)
  qed (use r in auto)
  then have "kernel_rep ?k2 (B(q := bins_pop (B q)))"
    using kernel_rep_drop [of ?k1 _ a e2 v] r(2) idle by (auto simp: v_def split: if_splits)
  moreover have "serviceOne process q k = retO (None, ?k2)"
    using r(1,2) q idle
    by (simp add: serviceOne_def queue_at_def on_event_def set_queue_def Event_release_cases v_def)
  moreover have "same_frame k ?k2"
    using same_frame_trans [OF same_frame_set_queue same_frame_events] q by simp
  ultimately show ?thesis using that by blast
qed

end
