(* ===== verification/SimLoop.thy ===== *)
theory SimLoop
  imports KernelSteps
begin

text \<open>
  The main loop of the simulator, \<open>doSimLoop\<close> of \<open>sim/simulate.cc\<close>: it services one event
  after the other until one is an exit event. The virtual \<open>process\<close> of the events and the
  routines that serve the asynchronous requests are parameters. What is proved is what the
  loop relies on: as long as the handlers use the public operations, simulated time never
  goes back and the loop never finds an event in the past.
\<close>

section \<open>The loop\<close>

record services =
  svc_process :: "nat \<Rightarrow> kernel \<Rightarrow> kernel run"
  svc_schedStatEvent :: "bool \<Rightarrow> bool \<Rightarrow> kernel \<Rightarrow> kernel run"
  svc_pollQueue_service :: "kernel \<Rightarrow> kernel run"
  svc_exitSimLoop :: "kernel \<Rightarrow> kernel run"

text \<open>The requests of the signal handlers; the result is whether the loop returns \<open>NULL\<close>.\<close>

definition async_requests :: "services \<Rightarrow> kernel \<Rightarrow> (bool \<times> kernel) run" where
  "async_requests svc k =
    (let k = k\<lparr>k_async_event := False\<rparr> in
     bindO (if k_async_statdump k \<or> k_async_statreset k
            then bindO (svc_schedStatEvent svc (k_async_statdump k) (k_async_statreset k) k)
                   (\<lambda>k. retO (k\<lparr>k_async_statdump := False, k_async_statreset := False\<rparr>))
            else retO k) (\<lambda>k.
     bindO (if k_async_io k then svc_pollQueue_service svc (k\<lparr>k_async_io := False\<rparr>)
            else retO k) (\<lambda>k.
     bindO (if k_async_exit k then svc_exitSimLoop svc (k\<lparr>k_async_exit := False\<rparr>)
            else retO k) (\<lambda>k.
     if k_async_exception k then retO (True, k\<lparr>k_async_exception := False\<rparr>)
     else retO (False, k)))))"

definition past :: sim_error where
  "past = Assert_failed ''event scheduled in the past''"

definition loop_asserts :: "nat \<Rightarrow> kernel \<Rightarrow> kernel run" where
  "loop_asserts q k =
    bindO (eq_empty q k) (\<lambda>none.
    guardO (\<not> none) (Assert_failed ''!eventq->empty()'') (
    bindO (curTick k) (\<lambda>t.
    bindO (eq_nextTick q k) (\<lambda>t'.
    guardO (t \<le> t') past (retO k)))))"

partial_function (option) sim_loop ::
  "services \<Rightarrow> nat \<Rightarrow> bool \<Rightarrow> kernel \<Rightarrow> (event_ptr \<times> kernel) run"
where
  [code]: "sim_loop svc q mainQueue k =
    bindO (loop_asserts q k) (\<lambda>k.
    bindO (if mainQueue \<and> k_async_event k then async_requests svc k else retO (False, k)) (\<lambda>r.
      if fst r then retO (None, snd r)
      else bindO (serviceOne (svc_process svc) q (snd r)) (\<lambda>r.
        if fst r \<noteq> None then retO r else sim_loop svc q mainQueue (snd r))))"

definition doSimLoop :: "services \<Rightarrow> nat \<Rightarrow> kernel \<Rightarrow> (event_ptr \<times> kernel) run" where
  "doSimLoop svc q k =
    bindO (handleAsyncInsertions q (k\<lparr>k_curEventQueue := Some q\<rparr>)) (\<lambda>k.
    bindO (getEventQueue 0 k) (\<lambda>(q0, k). sim_loop svc q (q = q0) k))"

section \<open>Handlers that use the public operations\<close>

definition uses_api :: "(kernel \<Rightarrow> kernel run) \<Rightarrow> bool" where
  "uses_api f \<longleftrightarrow>
    (\<forall>k. kernel_ok k \<longrightarrow> f k \<noteq> failO past \<and> (\<forall>k'. f k = retO k' \<longrightarrow> api_steps k k'))"

definition services_ok :: "services \<Rightarrow> bool" where
  "services_ok svc \<longleftrightarrow>
    (\<forall>a. uses_api (svc_process svc a)) \<and> (\<forall>b b'. uses_api (svc_schedStatEvent svc b b')) \<and>
    uses_api (svc_pollQueue_service svc) \<and> uses_api (svc_exitSimLoop svc)"

text \<open>The clock of queue \<open>q\<close> moves forward and nothing else of the frame moves.\<close>

definition advances :: "nat \<Rightarrow> kernel \<Rightarrow> kernel \<Rightarrow> bool" where
  "advances q k k' \<longleftrightarrow>
    (\<exists>t. clocks k' = (clocks k)[q := t] \<and> (q < length (clocks k) \<longrightarrow> clocks k ! q \<le> t)) \<and>
    k_curEventQueue k' = k_curEventQueue k \<and> k_mainEventQueue k' = k_mainEventQueue k \<and>
    k_numMainEventQueues k' = k_numMainEventQueues k"

lemma same_frame_advances: "same_frame k k' \<Longrightarrow> advances q k k'"
  unfolding same_frame_def advances_def
  by (intro conjI exI [of _ "clocks k ! q"]) simp_all

lemma advances_trans [trans]: "advances q k k1 \<Longrightarrow> advances q k1 k2 \<Longrightarrow> advances q k k2"
  unfolding advances_def by (elim conjE exE, intro conjI, rule_tac x = ta in exI) auto

lemma advances_queues: "advances q k k' \<Longrightarrow> length (k_queues k') = length (k_queues k)"
  unfolding advances_def clocks_def by (metis length_list_update length_map)

lemma uses_apiD:
  "uses_api f \<Longrightarrow> f k = retO k' \<Longrightarrow> kernel_ok k \<Longrightarrow> kernel_ok k' \<and> same_frame k k'"
  unfolding uses_api_def using api_steps_ok by blast

lemma uses_api_past: "uses_api f \<Longrightarrow> kernel_ok k \<Longrightarrow> f k \<noteq> failO past"
  by (simp add: uses_api_def)

text \<open>A partial result is safe: it is not the assertion on past events, and the state is fine.\<close>

definition safe_from :: "nat \<Rightarrow> kernel \<Rightarrow> ('a \<Rightarrow> kernel) \<Rightarrow> 'a run \<Rightarrow> bool" where
  "safe_from q k st r \<longleftrightarrow> r \<noteq> failO past \<and>
    (\<forall>x. r = retO x \<longrightarrow> kernel_ok (st x) \<and> advances q k (st x))"

lemma safe_from_retO: "safe_from q k st (retO x) \<longleftrightarrow> kernel_ok (st x) \<and> advances q k (st x)"
  by (auto simp: safe_from_def)

lemma safe_from_failO: "safe_from q k st (failO e) \<longleftrightarrow> e \<noteq> past"
  by (auto simp: safe_from_def)

lemma safe_from_None: "safe_from q k st None"
  by (auto simp: safe_from_def)

lemmas safe_from_simps [simp] = safe_from_retO safe_from_failO safe_from_None

lemma safe_from_bindO:
  assumes "safe_from q k st m"
    and "\<And>x. m = retO x \<Longrightarrow> kernel_ok (st x) \<Longrightarrow> advances q k (st x) \<Longrightarrow> safe_from q k st' (f x)"
  shows "safe_from q k st' (bindO m f)"
  using assms by (cases m rule: run_cases) auto

lemma safe_from_api:
  assumes "uses_api f" "kernel_ok k1" "advances q k k1"
  shows "safe_from q k (\<lambda>k. k) (f k1)"
  using uses_apiD [OF assms(1) _ assms(2)] uses_api_past [OF assms(1,2)]
    advances_trans [OF assms(3) same_frame_advances]
  by (auto simp: safe_from_def)

lemma past_neq [simp]:
  "Null_pointer s \<noteq> past" "Out_of_range \<noteq> past" "Panic s \<noteq> past"
  "Assert_failed ''would be silly'' \<noteq> past" "Assert_failed ''!scheduled()'' \<noteq> past"
  "Assert_failed ''!eventq->empty()'' \<noteq> past"
  by (simp_all add: past_def)

lemma safe_deref: "(\<And>e. h a = Some e \<Longrightarrow> safe_from q k st (f e)) \<Longrightarrow> safe_from q k st (bindO (deref h a) f)"
  by (cases "h a") (simp_all add: deref_def)

lemma safe_guardO: "e \<noteq> past \<Longrightarrow> (b \<Longrightarrow> safe_from q k st m) \<Longrightarrow> safe_from q k st (guardO b e m)"
  by (cases b) simp_all

lemma safe_release:
  assumes "kernel_ok k1" "advances q k k1"
  shows "safe_from q k (\<lambda>k. k) (Event_release a k1)"
proof -
  have "safe_from q k (\<lambda>k. k) (Event_delete a k1)"
  proof -
    have "kernel_ok k2 \<and> advances q k k2" if "Event_delete a k1 = retO k2" for k2
      using api_step_ok [OF assms(1) api_delete [OF that]] assms(2)
      by (auto intro: advances_trans same_frame_advances)
    moreover have "Event_delete a k1 \<noteq> failO past"
      by (auto simp: Event_delete_def deref_def guardO_def split: option.splits)
    ultimately show ?thesis by (simp add: safe_from_def)
  qed
  then show ?thesis using assms unfolding Event_release_def by (intro safe_deref) simp
qed

section \<open>One round\<close>

lemma kernel_ok_async:
  "kernel_ok (k\<lparr>k_async_event := b\<rparr>) = kernel_ok k"
  "kernel_ok (k\<lparr>k_async_statdump := b, k_async_statreset := b'\<rparr>) = kernel_ok k"
  "kernel_ok (k\<lparr>k_async_io := b\<rparr>) = kernel_ok k"
  "kernel_ok (k\<lparr>k_async_exit := b\<rparr>) = kernel_ok k"
  "kernel_ok (k\<lparr>k_async_exception := b\<rparr>) = kernel_ok k"
  by (simp_all add: kernel_ok_def kernel_rep_def)

lemma advances_async:
  "advances q k (k'\<lparr>k_async_event := b\<rparr>) = advances q k k'"
  "advances q k (k'\<lparr>k_async_statdump := b, k_async_statreset := b'\<rparr>) = advances q k k'"
  "advances q k (k'\<lparr>k_async_io := b\<rparr>) = advances q k k'"
  "advances q k (k'\<lparr>k_async_exit := b\<rparr>) = advances q k k'"
  "advances q k (k'\<lparr>k_async_exception := b\<rparr>) = advances q k k'"
  by (simp_all add: advances_def clocks_def)

lemmas async_simps = kernel_ok_async advances_async

lemma safe_async_requests:
  assumes svc: "services_ok svc" and k1: "kernel_ok k1" "advances q k k1"
  shows "safe_from q k snd (async_requests svc k1)"
  unfolding async_requests_def Let_def
proof (rule safe_from_bindO [where st = "\<lambda>k. k"], goal_cases)
  case 1
  have "safe_from q k (\<lambda>k. k) (svc_schedStatEvent svc b b' (k1\<lparr>k_async_event := False\<rparr>))" for b b'
    using svc k1 by (intro safe_from_api) (simp_all add: services_ok_def async_simps)
  then show ?case
    using k1 by (auto simp: async_simps intro!: safe_from_bindO [where st = "\<lambda>k. k"])
next
  case (2 k2)
  show ?case
  proof (rule safe_from_bindO [where st = "\<lambda>k. k"], goal_cases)
    case 1
    show ?case
      using svc 2 by (auto simp: services_ok_def async_simps intro!: safe_from_api)
  next
    case (2 k3)
    show ?case
    proof (rule safe_from_bindO [where st = "\<lambda>k. k"], goal_cases)
      case 1
      show ?case
        using svc 2 by (auto simp: services_ok_def async_simps intro!: safe_from_api)
    next
      case (2 k4)
      then show ?case by (simp add: async_simps)
    qed
  qed
qed

lemma serviceOne_empty:
  "q < length (k_queues k) \<Longrightarrow> eq_head (k_queues k ! q) = None \<Longrightarrow>
    serviceOne process q k = failO (Null_pointer ''head'')"
  by (simp add: serviceOne_def queue_at_def pop_head_def)

lemma head_alive:
  assumes "kernel_rep k B" "q < length (k_queues k)" "eq_head (k_queues k ! q) = Some a"
  obtains e where "k_events k a = Some e" "eq_curTick (k_queues k ! q) \<le> ev_when e"
  using queue_ok_head [OF kernel_rep_queue [OF assms(1,2)] assms(3)] that
  unfolding pending_def by metis

lemma safe_serviceOne:
  assumes api: "\<And>a. uses_api (process a)" and k1: "kernel_ok k1" "advances q k k1"
    and q: "q < length (k_queues k1)"
  shows "safe_from q k snd (serviceOne process q k1)"
proof (cases "eq_head (k_queues k1 ! q)")
  case None
  then show ?thesis using q by (simp add: serviceOne_empty)
next
  case (Some a)
  obtain B where rep: "kernel_rep k1 B" using k1(1) by (auto simp: kernel_ok_def)
  obtain e where e: "k_events k1 a = Some e" by (rule head_alive [OF rep q Some])
  show ?thesis
  proof (cases "ev_squashed e")
    case True
    then obtain k' where "serviceOne process q k1 = retO (None, k')"
      "kernel_rep k' (B(q := bins_pop (B q)))" "same_frame k1 k'"
      by (rule serviceOne_squashed [OF rep q Some e])
    then show ?thesis using k1(2)
      by (auto simp: kernel_ok_def intro: advances_trans same_frame_advances)
  next
    case False
    then obtain Q h where s: "serviceOne process q k1 =
        bindO (process a (set_queue q Q h k1)) (\<lambda>k.
        bindO (deref (k_events k) a) (\<lambda>e.
          if ev_isExitEvent e
          then guardO (\<not> ev_isManaged e \<or> \<not> flags_isSet (ev_flags e) IsMainQueue)
                 (Assert_failed ''would be silly'') (retO (Some a, k))
          else bindO (Event_release a k) (\<lambda>k. retO (None, k))))"
      and rep2: "kernel_rep (set_queue q Q h k1) (B(q := bins_pop (B q)))"
      and t: "eq_curTick Q = ev_when e" "eq_curTick (k_queues k1 ! q) \<le> ev_when e"
      by (rule serviceOne_head [OF rep q Some e])
    have ok2: "kernel_ok (set_queue q Q h k1)" using rep2 by (auto simp: kernel_ok_def)
    have "advances q k1 (set_queue q Q h k1)"
      using t q unfolding advances_def
      by (intro conjI exI [of _ "ev_when e"]) (simp_all add: clocks_def map_update)
    with k1(2) have adv: "advances q k (set_queue q Q h k1)" by (rule advances_trans)
    show ?thesis unfolding s
    proof (rule safe_from_bindO [OF safe_from_api [OF api ok2 adv]])
      fix k2 assume k2: "kernel_ok k2" "advances q k k2"
      show "safe_from q k snd (bindO (deref (k_events k2) a) (\<lambda>e.
          if ev_isExitEvent e
          then guardO (\<not> ev_isManaged e \<or> \<not> flags_isSet (ev_flags e) IsMainQueue)
                 (Assert_failed ''would be silly'') (retO (Some a, k2))
          else bindO (Event_release a k2) (\<lambda>k. retO (None, k))))"
        using k2 by (intro safe_deref) (auto intro!: safe_guardO safe_from_bindO [OF safe_release])
    qed
  qed
qed

lemma loop_asserts_ok:
  assumes "kernel_ok k" "q < length (k_queues k)" "k_curEventQueue k = Some q"
  shows "loop_asserts q k =
    (if eq_head (k_queues k ! q) = None then failO (Assert_failed ''!eventq->empty()'') else retO k)"
proof (cases "eq_head (k_queues k ! q)")
  case None
  then show ?thesis using assms by (simp add: loop_asserts_def eq_empty_def queue_at_def)
next
  case (Some a)
  obtain B where rep: "kernel_rep k B" using assms(1) by (auto simp: kernel_ok_def)
  obtain e where "k_events k a = Some e" "eq_curTick (k_queues k ! q) \<le> ev_when e"
    by (rule head_alive [OF rep assms(2) Some])
  then show ?thesis
    using Some assms(2,3)
    by (simp add: loop_asserts_def eq_empty_def queue_at_def curTick_def eq_nextTick_def)
qed

section \<open>The loop is safe\<close>

lemma safe_sim_loop_round:
  assumes IH: "\<And>k'. kernel_ok k' \<Longrightarrow> q < length (k_queues k') \<Longrightarrow> k_curEventQueue k' = Some q \<Longrightarrow>
      safe_from q k' snd (loop k')"
    and svc: "services_ok svc" and k: "kernel_ok k" "q < length (k_queues k)" "k_curEventQueue k = Some q"
  shows "safe_from q k snd
    (bindO (loop_asserts q k) (\<lambda>k.
     bindO (if mainQueue \<and> k_async_event k then async_requests svc k else retO (False, k)) (\<lambda>r.
       if fst r then retO (None, snd r)
       else bindO (serviceOne (svc_process svc) q (snd r)) (\<lambda>r.
         if fst r \<noteq> None then retO r else loop (snd r)))))"
proof (cases "eq_head (k_queues k ! q) = None")
  case True
  then show ?thesis using loop_asserts_ok [OF k] by simp
next
  case False
  have refl: "advances q k k" by (simp add: same_frame_advances)
  have "safe_from q k snd
     (bindO (if mainQueue \<and> k_async_event k then async_requests svc k else retO (False, k)) (\<lambda>r.
       if fst r then retO (None, snd r)
       else bindO (serviceOne (svc_process svc) q (snd r)) (\<lambda>r.
         if fst r \<noteq> None then retO r else loop (snd r))))"
  proof (rule safe_from_bindO [where st = snd], goal_cases)
    case 1
    show ?case using safe_async_requests [OF svc k(1) refl] k(1) refl by simp
  next
    case (2 r)
    have q: "q < length (k_queues (snd r))" using advances_queues [OF 2(3)] k(2) by simp
    have api: "uses_api (svc_process svc a)" for a using svc by (simp add: services_ok_def)
    have "safe_from q k snd (bindO (serviceOne (svc_process svc) q (snd r)) (\<lambda>r.
         if fst r \<noteq> None then retO r else loop (snd r)))"
    proof (rule safe_from_bindO [OF safe_serviceOne [OF api 2(2,3) q]])
      fix r2 :: "event_ptr \<times> kernel"
      assume r2: "kernel_ok (snd r2)" "advances q k (snd r2)"
      have "safe_from q (snd r2) snd (loop (snd r2))"
        using r2 advances_queues [OF r2(2)] k(2,3) by (intro IH) (auto simp: advances_def)
      then have "safe_from q k snd (loop (snd r2))"
        using advances_trans [OF r2(2)] by (auto simp: safe_from_def)
      then show "safe_from q k snd (if fst r2 \<noteq> None then retO r2 else loop (snd r2))"
        using r2 by simp
    qed
    then show ?case using 2 by simp
  qed
  then show ?thesis using loop_asserts_ok [OF k] False by simp
qed

definition starts_ok :: "services \<Rightarrow> nat \<Rightarrow> kernel \<Rightarrow> bool" where
  "starts_ok svc q k \<longleftrightarrow> services_ok svc \<and> kernel_ok k \<and> q < length (k_queues k) \<and>
    k_curEventQueue k = Some q"

lemma safe_sim_loop:
  assumes "starts_ok svc q k"
  shows "safe_from q k snd (sim_loop svc q mainQueue k)"
proof -
  have "starts_ok svc q k \<longrightarrow> safe_from q k snd (Some r)"
    if "sim_loop svc q mainQueue k = Some r" for r
    using that
  proof (rule sim_loop.raw_induct
      [where P = "\<lambda>svc q m k r. starts_ok svc q k \<longrightarrow> safe_from q k snd (Some r)", rotated])
    fix loop svc q mainQueue k r
    assume hyp: "\<And>svc q m k r. loop svc q m k = Some r \<Longrightarrow>
        starts_ok svc q k \<longrightarrow> safe_from q k snd (Some r)"
      and body: "bindO (loop_asserts q k) (\<lambda>k.
        bindO (if mainQueue \<and> k_async_event k then async_requests svc k else retO (False, k)) (\<lambda>r.
          if fst r then retO (None, snd r)
          else bindO (serviceOne (svc_process svc) q (snd r)) (\<lambda>r.
            if fst r \<noteq> None then retO r else loop svc q mainQueue (snd r)))) = Some r"
    have "safe_from q k' snd (loop svc q mainQueue k')" if "starts_ok svc q k'" for k'
      using hyp [of svc q mainQueue k'] that by (cases "loop svc q mainQueue k'") auto
    then have "safe_from q k snd (Some r)" if "starts_ok svc q k"
      unfolding body [symmetric] using that
      by (intro safe_sim_loop_round) (auto simp: starts_ok_def)
    then show "starts_ok svc q k \<longrightarrow> safe_from q k snd (Some r)" ..
  qed
  then show ?thesis using assms by (cases "sim_loop svc q mainQueue k") auto
qed

text \<open>In serial mode the list of asynchronous insertions is empty.\<close>

lemma handleAsyncInsertions_serial:
  assumes "kernel_rep k B" "q < length (k_queues k)" "k_curEventQueue k = Some q"
  shows "handleAsyncInsertions q k = retO k"
proof -
  have "eq_async_queue (k_queues k ! q) = []"
    using kernel_rep_queue [OF assms(1,2)] by (simp add: queue_ok_def)
  then show ?thesis
    using assms(2,3) by (simp add: handleAsyncInsertions_def on_queue_def queue_at_def)
qed

lemma kernel_rep_grow:
  assumes "kernel_rep k B" "eq_head Q = None" "eq_async_queue Q = []"
  shows "kernel_rep (k\<lparr>k_numMainEventQueues := n, k_mainEventQueue := m,
      k_queues := k_queues k @ [Q]\<rparr>) (B(length (k_queues k) := []))"
proof -
  have "queue_ok (length (k_queues k)) Q (k_events k) []"
    using assms(2,3) by (simp add: queue_ok_def wf_bins_def)
  then show ?thesis
    using assms(1) unfolding kernel_rep_def
    by (auto simp: nth_append less_Suc_eq) (metis less_SucI less_not_refl)
qed

lemma grow_queues_ok:
  "kernel_ok k \<Longrightarrow> kernel_ok (grow_queues i k) \<and>
    (\<exists>Qs. k_queues (grow_queues i k) = k_queues k @ Qs) \<and>
    k_curEventQueue (grow_queues i k) = k_curEventQueue k"
proof (induction i k rule: grow_queues.induct)
  case (1 i k)
  show ?case
  proof (cases "k_numMainEventQueues k \<le> i")
    case True
    obtain B where "kernel_rep k B" using "1.prems" by (auto simp: kernel_ok_def)
    from kernel_rep_grow [OF this, of "EventQueue_new (''MainEventQueue-'' @ decimal i)"]
    have "kernel_ok (k\<lparr>k_numMainEventQueues := k_numMainEventQueues k + 1,
          k_mainEventQueue := k_mainEventQueue k @ [length (k_queues k)],
          k_queues := k_queues k @ [EventQueue_new (''MainEventQueue-'' @ decimal i)]\<rparr>)"
      by (auto simp: kernel_ok_def EventQueue_new_def)
    from "1.IH" [OF True this] show ?thesis using True by (subst (1 2 3) grow_queues.simps) auto
  next
    case False
    then show ?thesis using "1.prems" by (subst (1 2 3) grow_queues.simps) auto
  qed
qed

end
