(* ===== verification/KernelProperties.thy ===== *)
theory KernelProperties
  imports SimLoop
begin

text \<open>
  The properties of the event queue: the order of the events that \<open>schedule\<close> makes, as
  \<open>dump\<close> shows it, the checks of \<open>debugVerify\<close>, the destructor, what a checkpoint keeps of
  an event, and the clock of the main loop.
\<close>

section \<open>The order of the events\<close>

lemma dump_bin_at: "in_bin h k p as \<Longrightarrow> dump_bin h p out = retO (out @ as)"
proof (induction as arbitrary: p out)
  case Nil
  then show ?case by (subst dump_bin.simps) simp
next
  case (Cons a as)
  then show ?case by (subst dump_bin.simps) auto
qed

lemma dump_bins_at: "bins_at h p bs \<Longrightarrow> dump_bins h p out = retO (out @ elems bs)"
proof (induction h p bs arbitrary: out rule: bins_at.induct)
  case (1 h p)
  then show ?case by (subst dump_bins.simps) simp
next
  case (3 h p k a as bs)
  then obtain e where e: "p = Some a" "h a = Some e" "in_bin h k p (a # as)"
    "bins_at h (ev_nextBin e) bs" by auto
  show ?case
    using e(1,2) dump_bin_at [OF e(3)] "3.IH" [OF e(4)] by (subst dump_bins.simps) simp
qed simp

lemma queue_ok_dump: "queue_ok q Q h bs \<Longrightarrow> eq_dump (Q, h) = retO (elems bs)"
  using dump_bins_at [of h "eq_head Q" bs "[]"] by (simp add: eq_dump_def queue_ok_def)

text \<open>A new event goes right behind the earlier ones: before those of its time and priority.\<close>

lemma takeWhile_none: "(\<And>x. x \<in> set l \<Longrightarrow> \<not> P x) \<Longrightarrow> takeWhile P l = [] \<and> dropWhile P l = l"
  by (cases l) auto

lemma elems_insert:
  assumes "sorted_wrt (<) (map fst bs)" "\<And>k b x. (k, b) \<in> set bs \<Longrightarrow> x \<in> set b \<Longrightarrow> f x = k"
  shows "elems (bins_insert k a bs) =
    takeWhile (\<lambda>x. f x < k) (elems bs) @ a # dropWhile (\<lambda>x. f x < k) (elems bs)"
  using assms
proof (induction k a bs rule: bins_insert.induct)
  case (2 k a k' b bs)
  have later: "k' \<le> f x" if "x \<in> set (elems ((k', b) # bs))" for x
  proof (cases "x \<in> set b")
    case True
    then show ?thesis using 2(3) [of k' b x] by simp
  next
    case False
    then have "x \<in> set (elems bs)" using that by simp
    then obtain k2 b2 where kb: "(k2, b2) \<in> set bs" "x \<in> set b2"
      by (auto simp: elems_def)
    have "k' < k2" using 2(2) kb(1) by force
    moreover have "f x = k2" using kb by (intro 2(3)) auto
    ultimately show ?thesis by simp
  qed
  show ?case
  proof (cases "k' < k")
    case True
    have all: "f x < k" if "x \<in> set b" for x using 2(3) [of k' b x] that True by simp
    have IH: "elems (bins_insert k a bs) =
        takeWhile (\<lambda>x. f x < k) (elems bs) @ a # dropWhile (\<lambda>x. f x < k) (elems bs)"
      using True 2(2,3) by (intro 2(1)) auto
    then show ?thesis
      using True less_not_sym [OF True] less_imp_neq [OF True] all by (auto simp: takeWhile_append2 dropWhile_append2)
  next
    case False
    then have "takeWhile (\<lambda>x. f x < k) (elems ((k', b) # bs)) = [] \<and>
        dropWhile (\<lambda>x. f x < k) (elems ((k', b) # bs)) = elems ((k', b) # bs)"
      using later by (intro takeWhile_none) (metis leD less_le_trans not_less)
    then show ?thesis using False by auto
  qed
qed simp

text \<open>The time and the priority an address stands for.\<close>

definition key_at :: "heap \<Rightarrow> nat \<Rightarrow> key" where
  "key_at h x = (case h x of None \<Rightarrow> (0, 0) | Some e \<Rightarrow> ev_key e)"

lemma queue_ok_keys:
  "queue_ok q Q h bs \<Longrightarrow> (k, b) \<in> set bs \<Longrightarrow> x \<in> set b \<Longrightarrow> key_at h x = k"
  using bins_at_key [of h "eq_head Q" bs k b x] by (auto simp: queue_ok_def key_at_def)

lemma schedule_order:
  assumes "kernel_rep k B" "q < length (k_queues k)" "k_events k a = Some e" "\<not> ev_scheduled e"
    "ev_initialized e" "eq_curTick (k_queues k ! q) \<le> t"
    "eq_dump (k_queues k ! q, k_events k) = retO xs"
  shows "\<exists>k'. eq_schedule q a t g k = retO k' \<and> kernel_ok k' \<and> clocks k' = clocks k \<and>
    eq_dump (k_queues k' ! q, k_events k') =
      retO (takeWhile (\<lambda>x. key_at (k_events k) x < (t, ev_priority e)) xs @ a #
            dropWhile (\<lambda>x. key_at (k_events k) x < (t, ev_priority e)) xs)"
proof -
  note ok = kernel_rep_queue [OF assms(1,2)]
  obtain p h where r:
    "eq_schedule q a t g k = retO (set_queue q ((k_queues k ! q)\<lparr>eq_head := p\<rparr>) h k)"
    "kernel_rep (set_queue q ((k_queues k ! q)\<lparr>eq_head := p\<rparr>) h k)
       (B(q := bins_insert (t, ev_priority e) a (B q)))"
    by (rule eq_schedule_rep [OF assms(1-6)])
  let ?k = "set_queue q ((k_queues k ! q)\<lparr>eq_head := p\<rparr>) h k"
  have xs: "xs = elems (B q)" using assms(7) queue_ok_dump [OF ok] by simp
  have "eq_dump (k_queues ?k ! q, k_events ?k) = retO (elems (bins_insert (t, ev_priority e) a (B q)))"
    using kernel_rep_queue [OF r(2), of q] assms(2) by (intro queue_ok_dump) simp
  moreover have "elems (bins_insert (t, ev_priority e) a (B q)) =
      takeWhile (\<lambda>x. key_at (k_events k) x < (t, ev_priority e)) xs @ a #
      dropWhile (\<lambda>x. key_at (k_events k) x < (t, ev_priority e)) xs"
    unfolding xs using ok queue_ok_keys [OF ok] by (intro elems_insert) (auto simp: queue_ok_def wf_bins_def)
  moreover have "clocks ?k = clocks k"
    using same_frame_set_queue [OF assms(2), of "(k_queues k ! q)\<lparr>eq_head := p\<rparr>" h]
    by (simp add: same_frame_def)
  ultimately show ?thesis using r by (auto simp: kernel_ok_def)
qed

section \<open>The checks of debugVerify\<close>

lemma verify_bin_at:
  assumes "in_bin h k p as" "(time, prio) \<le> k" "distinct as" "set as \<inter> set seen = {}"
  shows "verify_bin h p time prio seen =
    retO (True, if as = [] then (time, prio, seen) else (fst k, snd k, rev as @ seen))"
  using assms
proof (induction as arbitrary: p time prio seen)
  case Nil
  then show ?case by (subst verify_bin.simps) simp
next
  case (Cons a as)
  then obtain e where e: "p = Some a" "h a = Some e" "ev_key e = k" "in_bin h k (ev_nextInBin e) as"
    by auto
  have k: "ev_when e = fst k" "ev_priority e = snd k" using e(3) by (auto simp: ev_key_def)
  have "verify_bin h (ev_nextInBin e) (fst k) (snd k) (a # seen) =
      retO (True, if as = [] then (fst k, snd k, a # seen) else (fst k, snd k, rev as @ a # seen))"
    using Cons.prems e by (intro Cons.IH) auto
  then show ?case using e Cons.prems(2,4) k
    by (subst verify_bin.simps) (auto simp: less_eq_prod_def)
qed

lemma verify_bins_at:
  assumes "bins_at h p bs" "wf_bins bs" "\<And>k b. (k, b) \<in> set bs \<Longrightarrow> (time, prio) \<le> k"
    "set (elems bs) \<inter> set seen = {}"
  shows "verify_bins h p time prio seen = retO True"
  using assms
proof (induction h p bs arbitrary: time prio seen rule: bins_at.induct)
  case (1 h p)
  then show ?case by (subst verify_bins.simps) simp
next
  case (3 h p k a as bs)
  then obtain e where e: "p = Some a" "h a = Some e" "in_bin h k p (a # as)"
    "bins_at h (ev_nextBin e) bs" by auto
  have wf: "distinct ((a # as) @ elems bs)" "\<And>k' b. (k', b) \<in> set bs \<Longrightarrow> k < k'"
    using 3(3) by (force simp: wf_bins_def)+
  have "verify_bins h (ev_nextBin e) (fst k) (snd k) (rev (a # as) @ seen) = retO True"
    using "3.prems" wf by (intro "3.IH" [OF e(4) wf_bins_tl [OF 3(3)]]) (auto simp: less_imp_le)
  moreover have "verify_bin h p time prio seen = retO (True, fst k, snd k, rev (a # as) @ seen)"
  proof -
    have "(time, prio) \<le> k" using "3.prems"(3) [of k "a # as"] by simp
    moreover have "set (a # as) \<inter> set seen = {}" using "3.prems"(4) by auto
    ultimately show ?thesis using verify_bin_at [OF e(3)] wf(1) by simp
  qed
  ultimately show ?case using e(1,2) by (subst verify_bins.simps) simp
qed simp

lemma debugVerify_at:
  assumes "queue_ok q Q h bs"
  shows "debugVerify (Q, h) = retO (\<forall>x \<in> set (elems bs). (0, 0) \<le> key_at h x)"
proof -
  have rep: "bins_at h (eq_head Q) bs" and wf: "wf_bins bs" using assms by (auto simp: queue_ok_def)
  show ?thesis
  proof (cases "\<forall>x \<in> set (elems bs). (0, 0) \<le> key_at h x")
    case True
    have "(0, 0) \<le> k" if "(k, b) \<in> set bs" for k b
    proof -
      obtain x where "x \<in> set b" using bins_at_nonempty [OF rep] \<open>(k, b) \<in> set bs\<close>
        by (cases b) force+
      then show ?thesis
        using True that queue_ok_keys [OF assms that] by (force simp: elems_def)
    qed
    then have "verify_bins h (eq_head Q) 0 0 [] = retO True"
      by (intro verify_bins_at [OF rep wf]) auto
    then show ?thesis using True by (simp add: debugVerify_def)
  next
    case False
    then obtain x where x: "x \<in> set (elems bs)" "key_at h x < (0, 0)" by (auto simp: not_le)
    obtain k a as bs' e where bs: "bs = (k, a # as) # bs'" "eq_head Q = Some a" and e: "h a = Some e"
      "ev_key e = k"
      using rep x(1) by (cases "(h, eq_head Q, bs)" rule: bins_at.cases) auto
    obtain k' b where kb: "(k', b) \<in> set bs" "x \<in> set b" using x(1) by (auto simp: elems_def)
    have "k \<le> k'" using kb wf bs by (force simp: wf_bins_def)
    then have "ev_key e < (0, 0)" using queue_ok_keys [OF assms kb] x(2) e by simp
    then have neg: "ev_when e = 0" "ev_priority e < 0" by (auto simp: ev_key_def less_prod_def)
    have "verify_bin h (Some a) 0 0 [] = retO (False, 0, 0, [])"
      using e neg by (subst verify_bin.simps) simp
    then have "verify_bins h (eq_head Q) 0 0 [] = retO False"
      using bs by (subst verify_bins.simps) simp
    then show ?thesis using False by (simp add: debugVerify_def)
  qed
qed

section \<open>The destructor\<close>

lemma delete_queue:
  assumes "kernel_rep k B" "q < length (k_queues k)"
  shows "\<exists>k'. EventQueue_delete q k = retO k' \<and> kernel_rep k' (B(q := [])) \<and> same_frame k k' \<and>
    eq_head (k_queues k' ! q) = None \<and> length (k_queues k') = length (k_queues k)"
  using assms
proof (induction "length (elems (B q))" arbitrary: k B rule: less_induct)
  case less
  let ?Q = "k_queues k ! q"
  note ok = kernel_rep_queue [OF less.prems]
  show ?case
  proof (cases "eq_head ?Q")
    case None
    then have "bins_at (k_events k) None (B q)" using ok by (simp add: queue_ok_def)
    then have "B q = []"
      by (cases "(k_events k, None :: event_ptr, B q)" rule: bins_at.cases) auto
    then have "B(q := []) = B" by auto
    moreover have "EventQueue_delete q k = retO k"
      using None less.prems(2) by (subst EventQueue_delete.simps) (simp add: queue_at_def)
    ultimately show ?thesis using None less.prems by auto
  next
    case (Some a)
    obtain e where e: "k_events k a = Some e" "a \<in> set (elems (B q))"
      using queue_ok_head [OF ok Some] by (metis elems_simps(2) in_set_conv_decomp append_Cons append_Nil list.set_intros(1))
    obtain p h where r: "eq_deschedule q a k = retO (set_queue q (?Q\<lparr>eq_head := p\<rparr>) h k)"
      "kernel_rep (set_queue q (?Q\<lparr>eq_head := p\<rparr>) h k) (B(q := bins_remove (ev_key e) a (B q)))"
      by (rule eq_deschedule_rep [OF less.prems e])
    let ?k = "set_queue q (?Q\<lparr>eq_head := p\<rparr>) h k"
    have "elems (bins_remove (ev_key e) a (B q)) = remove1 a (elems (B q))"
      using ok e by (intro set_elems_remove1(1) [of "k_events k" "eq_head ?Q"]) (auto simp: queue_ok_def)
    then have "length (elems ((B(q := bins_remove (ev_key e) a (B q))) q)) < length (elems (B q))"
      using e(2) length_pos_if_in_set [OF e(2)] by (simp add: length_remove1)
    from less.hyps [OF this r(2)] less.prems(2) obtain k' where k': "EventQueue_delete q ?k = retO k'"
      "kernel_rep k' (B(q := []))" "same_frame ?k k'" "eq_head (k_queues k' ! q) = None"
      "length (k_queues k') = length (k_queues k)"
      by auto
    have "EventQueue_delete q k = retO k'"
      using Some r(1) k'(1) less.prems(2) by (subst EventQueue_delete.simps) (simp add: queue_at_def)
    moreover have "same_frame k ?k" using less.prems(2) by (simp add: same_frame_set_queue)
    ultimately show ?thesis using k' same_frame_trans by blast
  qed
qed

section \<open>Scheduling in full\<close>

lemma schedule_cases:
  assumes "kernel_ok k" "q < length (k_queues k)" "k_events k a = Some e"
  shows "\<exists>k'. eq_schedule q a t g k =
    (if t < eq_curTick (k_queues k ! q) then failO (Assert_failed ''when >= getCurTick()'')
     else if ev_scheduled e then failO (Assert_failed ''!event->scheduled()'')
     else if \<not> ev_initialized e then failO (Assert_failed ''event->initialized()'')
     else retO k')"
proof (cases "t < eq_curTick (k_queues k ! q) \<or> ev_scheduled e \<or> \<not> ev_initialized e")
  case True
  then show ?thesis using assms(2,3) by (auto simp: eq_schedule_def queue_at_def guardO_def)
next
  case False
  obtain B where rep: "kernel_rep k B" using assms(1) by (auto simp: kernel_ok_def)
  obtain p h where "eq_schedule q a t g k = retO (set_queue q ((k_queues k ! q)\<lparr>eq_head := p\<rparr>) h k)"
    by (rule eq_schedule_rep [OF rep assms(2,3), of t g]) (use False in auto)
  then show ?thesis using False by auto
qed

lemma schedule_uses_api: "uses_api (eq_schedule q a t g)"
  unfolding uses_api_def
proof (intro allI impI conjI)
  fix k assume ok: "kernel_ok k"
  show "eq_schedule q a t g k \<noteq> failO past"
  proof (cases "q < length (k_queues k) \<and> k_events k a \<noteq> None")
    case True
    then obtain e where "k_events k a = Some e" by auto
    with True show ?thesis
      using schedule_cases [OF ok, of q a e t g] by (auto simp: past_def split: if_splits)
  next
    case False
    then show ?thesis
      by (auto simp: eq_schedule_def queue_at_def guardO_def deref_def past_def)
  qed
  show "api_steps k k'" if "eq_schedule q a t g k = retO k'" for k'
    using api_schedule [OF that] by (simp add: api_steps_def)
qed

lemma retO_uses_api: "uses_api retO"
  by (simp add: uses_api_def api_steps_def)

section \<open>The names of the queues\<close>

text \<open>
  \<open>getEventQueue\<close> names every queue it allocates after the index that was asked for, and not
  after the index of the queue.
\<close>

lemma grow_queues_names:
  "k_queues (grow_queues i k) = k_queues k @
    replicate (Suc i - k_numMainEventQueues k) (EventQueue_new (''MainEventQueue-'' @ decimal i))"
proof (induction i k rule: grow_queues.induct)
  case (1 i k)
  show ?case
  proof (cases "k_numMainEventQueues k \<le> i")
    case True
    then have "Suc i - k_numMainEventQueues k = Suc (i - k_numMainEventQueues k)" by simp
    then show ?thesis using "1.IH" [OF True] True by (subst grow_queues.simps) simp
  next
    case False
    then show ?thesis by (subst grow_queues.simps) simp
  qed
qed

section \<open>Checkpoints\<close>

lemma initialized_sint: "ev_initialized e \<Longrightarrow> 0 \<le> sint (ev_flags e)"
proof -
  assume "ev_initialized e"
  moreover have "InitMask AND 2 ^ 15 \<noteq> 0" "Initialized AND 2 ^ 15 = 0"
    by (simp_all add: InitMask_def Initialized_def)
  then have "bit InitMask 15" "\<not> bit Initialized 15"
    using and_exp_eq_0_iff_not_bit [of InitMask 15] and_exp_eq_0_iff_not_bit [of Initialized 15]
    by blast+
  ultimately have "\<not> bit (ev_flags e) 15" by (auto simp: ev_initialized_bits)
  then show ?thesis using bit_last_iff [of "ev_flags e"] by simp
qed

lemma flags_roundtrip:
  assumes "ev_initialized e"
  shows "flags_set (ev_flags e) Initialized = ev_flags e"
proof -
  have "bit (ev_flags e OR Initialized) n = bit (ev_flags e) n" for n
  proof -
    have "Initialized AND InitMask = Initialized" by (simp add: Initialized_def InitMask_def)
    then have "bit Initialized n \<Longrightarrow> bit InitMask n" by (metis bit_and_iff)
    then show ?thesis using assms by (auto simp: ev_initialized_bits bit_or_iff)
  qed
  then show ?thesis by (simp add: flags_set_def bit_eq_iff)
qed

lemma unserialize_serialize:
  assumes "ev_initialized e" "\<not> ev_scheduled e0" "ev_initialized e0"
  obtains e1 where "ev_unserialize (ev_serialize e) e0 = Inr e1" "ev_when e1 = ev_when e"
    "ev_priority e1 = ev_priority e" "ev_squashed e1 = ev_squashed e"
    "ev_scheduled e1 \<longleftrightarrow> ev_scheduled e \<and> ev_squashed e" "ev_initialized e1"
proof -
  let ?fl = "ev_flags e"
  define fl where "fl = (if flags_isSet ?fl Scheduled \<and> \<not> flags_isSet ?fl Squashed
    then flags_clear ?fl (Squashed OR Scheduled) else ?fl)"
  let ?e1 = "e0\<lparr>ev_when := ev_when e, ev_priority := ev_priority e, ev_flags := fl\<rparr>"
  have "sint ?fl < 2 ^ 16" using sint_lt [of ?fl] by simp
  then have "ev_unserialize (ev_serialize e) e0 = Inr ?e1"
    using assms initialized_sint [OF assms(1)]
    by (simp add: ev_unserialize_def ev_serialize_def flags_roundtrip Let_def fl_def)
  moreover have "ev_squashed ?e1 = ev_squashed e"
    "ev_scheduled ?e1 \<longleftrightarrow> ev_scheduled e \<and> ev_squashed e"
    by (auto simp: fl_def ev_squashed_def ev_scheduled_def flag_bit bit_flags_clear bit_or_iff
        bit_flag_consts)
  moreover have "ev_initialized ?e1 = ev_initialized e"
    by (rule ev_initialized_cong) (simp add: fl_def bit_flags_clear bit_or_iff bit_flag_consts)
  ultimately show ?thesis using that [of ?e1] assms(1) by simp
qed

lemma restore_event:
  assumes ok: "kernel_ok k" and q: "q < length (k_queues k)"
    and e0: "k_events k a = Some e0" "\<not> ev_scheduled e0" "ev_initialized e0"
    and e: "ev_initialized e"
  shows "\<exists>k' xs. unserialize_event q a (ev_serialize e) k = retO k' \<and>
    eq_dump (k_queues k' ! q, k_events k') = retO xs \<and>
    (a \<in> set xs \<longleftrightarrow> ev_scheduled e \<and> ev_squashed e)"
proof -
  let ?Q = "k_queues k ! q"
  obtain B where rep: "kernel_rep k B" using ok by (auto simp: kernel_ok_def)
  note okq = kernel_rep_queue [OF rep q] and off = not_scheduled_off [OF rep e0(1,2) q]
  obtain e1 where e1: "ev_unserialize (ev_serialize e) e0 = Inr e1"
    "ev_scheduled e1 \<longleftrightarrow> ev_scheduled e \<and> ev_squashed e"
    using unserialize_serialize [OF e e0(2,3)] by metis
  let ?h = "(k_events k)(a \<mapsto> e1)"
  have at: "bins_at ?h (eq_head ?Q) (B q)" "distinct (elems (B q))"
    using okq off by (simp_all add: queue_ok_def wf_bins_def)
  have un: "unserialize_event q a (ev_serialize e) k =
      checkpointReschedule q a (k\<lparr>k_events := ?h\<rparr>)"
    using e0(1) e1(1) by (simp add: unserialize_event_def retO_def [symmetric])
  show ?thesis
  proof (cases "ev_scheduled e1")
    case True
    obtain p h' where r: "eq_insert a (?Q, ?h) = retO (?Q\<lparr>eq_head := p\<rparr>, h')"
      "bins_at h' p (bins_insert (ev_key e1) a (B q))"
      using eq_insert_refines [OF at, of a e1] off by auto
    have "unserialize_event q a (ev_serialize e) k = retO (set_queue q (?Q\<lparr>eq_head := p\<rparr>) h' k)"
      using True r(1) q
      by (simp add: un checkpointReschedule_def ev_scheduled_def on_queue_def queue_at_def set_queue_def)
    moreover have "eq_dump (?Q\<lparr>eq_head := p\<rparr>, h') = retO (elems (bins_insert (ev_key e1) a (B q)))"
      using dump_bins_at [OF r(2), of "[]"] by (simp add: eq_dump_def)
    ultimately show ?thesis using True e1(2) q by auto
  next
    case False
    then have "unserialize_event q a (ev_serialize e) k = retO (k\<lparr>k_events := ?h\<rparr>)"
      by (simp add: un checkpointReschedule_def ev_scheduled_def)
    moreover have "eq_dump (?Q, ?h) = retO (elems (B q))"
      using dump_bins_at [OF at(1), of "[]"] by (simp add: eq_dump_def)
    ultimately show ?thesis using False e1(2) off by auto
  qed
qed

section \<open>The properties\<close>

text \<open>
  A small kernel to evaluate: one queue and three events, the last of which ends the
  simulation and the middle one of which has the priority of a CPU switch.
\<close>

definition fresh_event :: "int \<Rightarrow> flag_bits \<Rightarrow> Event" where
  "fresh_event p f = \<lparr>ev_nextBin = None, ev_nextInBin = None, ev_when = 0, ev_priority = p,
     ev_flags = Initialized OR f, ev_queue = None\<rparr>"

definition small_kernel :: kernel where
  "small_kernel = \<lparr>k_events = [0 \<mapsto> fresh_event 0 0, 1 \<mapsto> fresh_event (- 31) 0,
     2 \<mapsto> fresh_event 0 IsExitEvent], k_queues = [EventQueue_new ''MainEventQueue-0''],
     k_mainEventQueue = [0], k_numMainEventQueues = 1, k_curEventQueue = None,
     k_inParallelMode = False, k_async_event = False, k_async_statdump = False,
     k_async_statreset = False, k_async_io = False, k_async_exit = False,
     k_async_exception = False\<rparr>"

definition after_schedule :: "nat \<Rightarrow> tick \<Rightarrow> kernel \<Rightarrow> kernel" where
  "after_schedule a t k =
    (case eq_schedule 0 a t False k of Some (Inr k') \<Rightarrow> k' | _ \<Rightarrow> k)"

lemma small_kernel_ok: "kernel_ok small_kernel"
proof -
  have idle: "\<not> ev_scheduled (fresh_event p f)" if "f = 0 \<or> f = IsExitEvent" for p f
    using that by (auto simp: fresh_event_def ev_scheduled_def flags_isSet_def Scheduled_def
        Initialized_def IsExitEvent_def)
  have "kernel_rep small_kernel (\<lambda>_. [])"
    unfolding kernel_rep_def
    by (auto simp: small_kernel_def queue_ok_def wf_bins_def EventQueue_new_def scheduled_at_def
        idle split: if_splits)
  then show ?thesis by (auto simp: kernel_ok_def)
qed

lemma after_schedule_ok: "kernel_ok k \<Longrightarrow> kernel_ok (after_schedule a t k)"
proof (cases "eq_schedule 0 a t False k" rule: run_cases)
  case (returns k')
  then show "kernel_ok k \<Longrightarrow> kernel_ok (after_schedule a t k)"
    using api_step_ok [OF _ api_schedule [OF returns]] by (simp add: after_schedule_def retO_def)
qed (simp_all add: after_schedule_def failO_def)

text \<open>
  C4: Let the simulator run in serial mode from a good state, and let the handlers of the events
  change the kernel only by \<open>schedule\<close>, \<open>deschedule\<close> and \<open>reschedule\<close> on any queue, by setting and
  clearing public flags of events, by creating and deleting events, and by the flags of the signal
  handlers (so they call none of \<open>setCurTick\<close>, \<open>serviceOne\<close>, \<open>serviceEvents\<close>, \<open>replaceHead\<close>,
  \<open>handleAsyncInsertions\<close>, \<open>checkpointReschedule\<close>), and not raise the assertion of the loop
  themselves. Then \<open>doSimLoop\<close> never finds an event in the past, and when it returns the time of no queue has gone back and the kernel is in a good state.
\<close>

theorem clock_never_back:
  assumes "services_ok svc" "kernel_ok k" "q < length (k_queues k)"
  shows "doSimLoop svc q k \<noteq> failO past \<and>
    (\<forall>a k'. doSimLoop svc q k = retO (a, k') \<longrightarrow>
       kernel_ok k' \<and> (\<forall>i < length (k_queues k). clocks k ! i \<le> clocks k' ! i))"
proof -
  let ?k = "k\<lparr>k_curEventQueue := Some q\<rparr>" and ?g = "grow_queues 0 (k\<lparr>k_curEventQueue := Some q\<rparr>)"
  obtain B where "kernel_rep k B" using assms(2) by (auto simp: kernel_ok_def)
  then have rep: "kernel_rep ?k B" by (simp add: kernel_rep_def)
  then have "kernel_ok ?k" by (auto simp: kernel_ok_def)
  from grow_queues_ok [OF this, of 0] obtain Qs where g: "kernel_ok ?g"
    "k_queues ?g = k_queues k @ Qs" "k_curEventQueue ?g = Some q" by auto
  have clk: "clocks ?g ! i = clocks k ! i" if "i < length (k_queues k)" for i
    using that by (simp add: clocks_def g nth_append)
  have hand: "handleAsyncInsertions q ?k = retO ?k"
    using rep assms(3) by (intro handleAsyncInsertions_serial) auto
  show ?thesis
  proof (cases "0 < length (k_mainEventQueue ?g)")
    case True
    then have run: "doSimLoop svc q k = sim_loop svc q (q = k_mainEventQueue ?g ! 0) ?g"
      by (simp add: doSimLoop_def hand getEventQueue_def Let_def)
    have safe: "safe_from q ?g snd (doSimLoop svc q k)"
      unfolding run using g assms(1,3) by (intro safe_sim_loop) (simp add: starts_ok_def)
    have "clocks k ! i \<le> clocks k' ! i"
      if "advances q ?g k'" "i < length (k_queues k)" for k' i
      using that clk [OF that(2)] g(2) unfolding advances_def
      by (cases "i = q") (auto simp: clocks_def)
    then show ?thesis using safe by (auto simp: safe_from_def)
  next
    case False
    then have "doSimLoop svc q k = failO Out_of_range"
      by (simp add: doSimLoop_def hand getEventQueue_def Let_def)
    then show ?thesis by simp
  qed
qed

definition exit_at_15 :: services where
  "exit_at_15 = \<lparr>svc_process = (\<lambda>a. if a = 0 then eq_schedule 0 2 15 False else retO),
     svc_schedStatEvent = (\<lambda>_ _. retO), svc_pollQueue_service = retO, svc_exitSimLoop = retO\<rparr>"

lemma exit_at_15_ok: "services_ok exit_at_15"
  by (simp add: services_ok_def exit_at_15_def schedule_uses_api retO_uses_api)

lemma exit_at_15_run:
  "case doSimLoop exit_at_15 0 (after_schedule 0 10 small_kernel) of
     Some (Inr (r, k')) \<Rightarrow> r = Some 2 \<and> clocks k' = [15] | _ \<Rightarrow> False"
  by code_simp

theorem clock_never_back_witness:
  "\<exists>k'. doSimLoop exit_at_15 0 (after_schedule 0 10 small_kernel) = retO (Some 2, k') \<and>
     clocks k' = [15] \<and> kernel_ok k'"
proof -
  have len: "0 < length (k_queues (after_schedule 0 10 small_kernel))" by code_simp
  note always = clock_never_back [OF exit_at_15_ok after_schedule_ok [OF small_kernel_ok] len]
  obtain k' where "doSimLoop exit_at_15 0 (after_schedule 0 10 small_kernel) = retO (Some 2, k')"
    "clocks k' = [15]"
    using exit_at_15_run by (auto simp: retO_def split: option.splits sum.splits)
  then show ?thesis using always by blast
qed

text \<open>
  C5: In serial mode and a good state, \<open>schedule\<close> of an event that is not scheduled, at a time that is not over, returns, and
  puts the event right behind the events of an earlier time or, at the same time, of a lower
  priority value: before all others, also before those of its own time and priority, which
  are served last in, first out. Nothing else changes its place in the dump of the queue.
\<close>

theorem schedule_orders_events:
  assumes "kernel_ok k" "q < length (k_queues k)" "k_events k a = Some e" "\<not> ev_scheduled e"
    "ev_initialized e" "eq_curTick (k_queues k ! q) \<le> t"
  shows "\<exists>xs k'. eq_dump (k_queues k ! q, k_events k) = retO xs \<and>
    eq_schedule q a t g k = retO k' \<and> kernel_ok k' \<and> clocks k' = clocks k \<and>
    eq_dump (k_queues k' ! q, k_events k') =
      retO (takeWhile (\<lambda>x. key_at (k_events k) x < (t, ev_priority e)) xs @ a #
            dropWhile (\<lambda>x. key_at (k_events k) x < (t, ev_priority e)) xs)"
proof -
  obtain B where rep: "kernel_rep k B" using assms(1) by (auto simp: kernel_ok_def)
  have "eq_dump (k_queues k ! q, k_events k) = retO (elems (B q))"
    by (rule queue_ok_dump [OF kernel_rep_queue [OF rep assms(2)]])
  then show ?thesis using schedule_order [OF rep assms(2-6)] by blast
qed

lemma small_kernel_facts:
  "k_queues (after_schedule 0 10 small_kernel) = [EventQueue_new ''MainEventQueue-0''\<lparr>eq_head := Some 0\<rparr>]"
  "k_events (after_schedule 0 10 small_kernel) 2 = Some (fresh_event 0 IsExitEvent)"
  "\<not> ev_scheduled (fresh_event 0 IsExitEvent)" "ev_initialized (fresh_event 0 IsExitEvent)"
  "eq_dump (k_queues (after_schedule 0 10 small_kernel) ! 0, k_events (after_schedule 0 10 small_kernel))
    = retO [0]"
  "key_at (k_events (after_schedule 0 10 small_kernel)) 0 = (10, 0)"
  by code_simp+

theorem schedule_orders_events_witness:
  "\<exists>k'. eq_schedule 0 2 10 False (after_schedule 0 10 small_kernel) = retO k' \<and>
     eq_dump (k_queues k' ! 0, k_events k') = retO [2, 0]"
  using schedule_orders_events [OF after_schedule_ok [OF small_kernel_ok], of 0 0 10 2
      "fresh_event 0 IsExitEvent" 10 False] small_kernel_facts
  by (auto simp: EventQueue_new_def fresh_event_def)

text \<open>
  C27: On a queue in a good state \<open>debugVerify\<close> returns; it reports an error exactly when an
  event with a negative priority is scheduled at tick 0, because its check starts from time 0
  and priority 0 and not from the least priority. In every other good state it accepts.
\<close>

theorem debugVerify_exact:
  assumes "kernel_ok k" "q < length (k_queues k)"
  shows "\<exists>xs. eq_dump (k_queues k ! q, k_events k) = retO xs \<and>
    debugVerify (k_queues k ! q, k_events k) =
      retO (\<not> (\<exists>x \<in> set xs. \<exists>e. k_events k x = Some e \<and> ev_when e = 0 \<and> ev_priority e < 0))"
proof -
  obtain B where rep: "kernel_rep k B" using assms(1) by (auto simp: kernel_ok_def)
  note ok = kernel_rep_queue [OF rep assms(2)]
  have "(0, 0) \<le> key_at (k_events k) x \<longleftrightarrow>
      \<not> (\<exists>e. k_events k x = Some e \<and> ev_when e = 0 \<and> ev_priority e < 0)" for x
    by (auto simp: key_at_def ev_key_def less_eq_prod_def split: option.splits)
  then show ?thesis using debugVerify_at [OF ok] queue_ok_dump [OF ok] by simp
qed

theorem debugVerify_exact_witness:
  "debugVerify (k_queues (after_schedule 1 0 small_kernel) ! 0,
     k_events (after_schedule 1 0 small_kernel)) = retO False"
proof -
  have facts: "0 < length (k_queues (after_schedule 1 0 small_kernel))"
    "eq_dump (k_queues (after_schedule 1 0 small_kernel) ! 0,
       k_events (after_schedule 1 0 small_kernel)) = retO [1]"
    "case k_events (after_schedule 1 0 small_kernel) 1 of
       Some e \<Rightarrow> ev_when e = 0 \<and> ev_priority e < 0 | None \<Rightarrow> False"
    by code_simp+
  show ?thesis
    using debugVerify_exact [OF after_schedule_ok [OF small_kernel_ok] facts(1)] facts(2,3)
    by (auto split: option.splits)
qed

text \<open>
  C25: The destructor of a queue in a good state returns: its loop deschedules every event, none
  stays scheduled on the queue, no event of another queue is touched and the state stays good.
\<close>

theorem queue_destructor_returns:
  assumes "kernel_ok k" "q < length (k_queues k)"
  shows "\<exists>k'. EventQueue_delete q k = retO k' \<and> kernel_ok k' \<and> clocks k' = clocks k \<and>
    eq_head (k_queues k' ! q) = None \<and>
    \<not> (\<exists>a e. k_events k' a = Some e \<and> ev_scheduled e \<and> ev_queue e = Some q) \<and>
    (\<forall>q' xs. q' < length (k_queues k) \<and> q' \<noteq> q \<and>
       eq_dump (k_queues k ! q', k_events k) = retO xs \<longrightarrow>
       eq_dump (k_queues k' ! q', k_events k') = retO xs)"
proof -
  obtain B where rep: "kernel_rep k B" using assms(1) by (auto simp: kernel_ok_def)
  obtain k' where k': "EventQueue_delete q k = retO k'" "kernel_rep k' (B(q := []))"
    "same_frame k k'" "eq_head (k_queues k' ! q) = None" "length (k_queues k') = length (k_queues k)"
    using delete_queue [OF rep assms(2)] by blast
  have "\<not> (ev_scheduled e \<and> ev_queue e = Some q)" if "k_events k' a = Some e" for a e
    using scheduled_on [OF k'(2) that] by (metis elems_simps(1) fun_upd_same list.set(1) empty_iff option.inject)
  moreover have "eq_dump (k_queues k' ! q', k_events k') = retO xs"
    if "q' < length (k_queues k)" "q' \<noteq> q" "eq_dump (k_queues k ! q', k_events k) = retO xs" for q' xs
    using that queue_ok_dump [OF kernel_rep_queue [OF rep that(1)]]
      queue_ok_dump [OF kernel_rep_queue [OF k'(2), of q']] k'(5) by simp
  ultimately show ?thesis using k' by (auto simp: kernel_ok_def same_frame_def)
qed

theorem queue_destructor_returns_witness:
  "\<exists>k'. EventQueue_delete 0 (after_schedule 0 10 small_kernel) = retO k' \<and>
     eq_head (k_queues k' ! 0) = None"
proof -
  have len: "0 < length (k_queues (after_schedule 0 10 small_kernel))" by code_simp
  show ?thesis
    using queue_destructor_returns [OF after_schedule_ok [OF small_kernel_ok] len] by blast
qed

text \<open>
  C26: An event restored from a checkpoint is put back on its queue only when it had been
  squashed as well as scheduled. A pending event, scheduled and not squashed, is not: reading
  it clears its \<open>Scheduled\<close> flag, and \<open>checkpointReschedule\<close> then finds nothing to do.
\<close>

theorem pending_event_not_restored:
  assumes "kernel_ok k" "q < length (k_queues k)" "k_events k a = Some e0" "\<not> ev_scheduled e0"
    "ev_initialized e0" "ev_initialized e"
  shows "\<exists>k' xs. unserialize_event q a (ev_serialize e) k = retO k' \<and>
    eq_dump (k_queues k' ! q, k_events k') = retO xs \<and>
    (a \<in> set xs \<longleftrightarrow> ev_scheduled e \<and> ev_squashed e)"
  by (rule restore_event [OF assms])

theorem pending_event_not_restored_witness:
  "\<exists>k' xs. unserialize_event 0 2 (ev_serialize (ev_set Scheduled (fresh_event 0 IsExitEvent)))
      (after_schedule 0 10 small_kernel) = retO k' \<and>
     eq_dump (k_queues k' ! 0, k_events k') = retO xs \<and> 2 \<notin> set xs"
proof -
  have "\<not> ev_squashed (ev_set Scheduled (fresh_event 0 IsExitEvent))" by code_simp
  then show ?thesis
    using pending_event_not_restored [OF after_schedule_ok [OF small_kernel_ok], of 0 0 10 2
        "fresh_event 0 IsExitEvent" "ev_set Scheduled (fresh_event 0 IsExitEvent)"] small_kernel_facts
    by auto
qed

end
