(* ===== verification/SimpleRouting.thy ===== *)
theory SimpleRouting
  imports MessageBuffer
begin

text \<open>
  \<open>WeightBased\<close> (\<open>simple/routing/WeightBased.hh\<close>, \<open>WeightBased.cc\<close>), the routing unit of a
  switch of the simple network, and the pool of message buffers the simple network is made of.
  The code refers to the buffers by pointer; here a reference is an index into the pool of all
  buffers and the null pointer is \<open>None\<close>. The numbers drawn from \<open>random_mt\<close> are a parameter.
\<close>

section \<open>The pool of buffers\<close>

type_synonym buf_ref = "nat option"
type_synonym pool = "MessageBuffer list"

definition deref_buf :: "buf_ref \<Rightarrow> pool \<Rightarrow> (nat \<times> MessageBuffer) res" where
  "deref_buf b pool =
    (case b of
       None \<Rightarrow> Inl (Null_pointer ''MessageBuffer'')
     | Some i \<Rightarrow> bindR (nthR pool (int i)) (\<lambda>mb. Inr (i, mb)))"

section \<open>The routing unit\<close>

record LinkInfo =
  wl_link_id :: nat
  wl_routing_entry :: net_dest
  wl_out_buffers :: "buf_ref list"
  wl_order :: int
  wl_weight :: int

record SwitchRouteInfo =
  ri_destinations :: net_dest
  ri_link_id :: nat

text \<open>The tuple that \<open>sortLinks\<close> compares; the link numbers are distinct, so \<open>std::sort\<close> has one answer.\<close>

definition link_key :: "LinkInfo \<Rightarrow> int \<times> int \<times> nat" where
  "link_key l = (wl_order l, wl_weight l, wl_link_id l)"

definition sortLinks :: "LinkInfo list \<Rightarrow> LinkInfo list" where
  "sortLinks links = sort_key link_key links"

definition wb_addOutPort ::
    "nat \<Rightarrow> buf_ref list \<Rightarrow> net_dest \<Rightarrow> int \<Rightarrow> LinkInfo list \<Rightarrow> LinkInfo list res" where
  "wb_addOutPort link_id out_buffer routing_table_entry link_weight links =
    guardR (link_id = length links) (Assert_failed ''link_id == m_links.size()'')
    (Inr (sortLinks (links @ [\<lparr>wl_link_id = link_id, wl_routing_entry = routing_table_entry,
       wl_out_buffers = out_buffer, wl_order = 0, wl_weight = link_weight\<rparr>])))"

definition route_step ::
    "machine_info \<Rightarrow> LinkInfo \<Rightarrow> net_dest \<times> SwitchRouteInfo list \<Rightarrow> (net_dest \<times> SwitchRouteInfo list) res" where
  "route_step mt link = (\<lambda>(msg_dsts, out_links).
    bindR (nd_intersectionIsNotEmpty (wl_routing_entry link) msg_dsts) (\<lambda>meets.
    if meets then
      bindR (nd_AND mt (wl_routing_entry link) msg_dsts) (\<lambda>both.
      bindR (nd_removeNetDest (wl_routing_entry link) msg_dsts) (\<lambda>rest.
      Inr (rest, out_links @ [\<lparr>ri_destinations = both, ri_link_id = wl_link_id link\<rparr>])))
    else Inr (msg_dsts, out_links)))"

text \<open>\<open>out_links\<close> is empty when \<open>findRoute\<close> is called: \<open>operateMessageBuffer\<close> clears it.\<close>

definition findRoute :: "machine_info \<Rightarrow> net_dest \<Rightarrow> LinkInfo list \<Rightarrow> SwitchRouteInfo list res" where
  "findRoute mt msg_dsts links =
    bindR (foldR (route_step mt) links (msg_dsts, [])) (\<lambda>(rest, out_links).
    guardR (nd_count rest = 0) (Assert_failed ''msg_dsts.count() == 0'') (Inr out_links))"

text \<open>The queue lengths of a link; \<open>getSize\<close> remembers its answer in the buffer.\<close>

definition queue_length :: "tick \<Rightarrow> buf_ref list \<Rightarrow> pool \<Rightarrow> (nat \<times> pool) res" where
  "queue_length current_time bufs pool =
    foldR (\<lambda>b (len, pool). bindR (deref_buf b pool) (\<lambda>(i, mb).
        case mb_getSize current_time mb of (n, mb') \<Rightarrow> Inr (len + n, pool[i := mb'])))
      bufs (0, pool)"

text \<open>
  The order of a link: the queue length shifted by eight bits, with a random byte in the bits
  that are free. An \<open>int\<close> holds it for queues below \<open>2 ^ 23\<close> messages.
\<close>

definition clog_order :: "nat \<Rightarrow> nat \<Rightarrow> int" where
  "clog_order out_queue_length r = Bit_Operations.or (push_bit 8 (int out_queue_length)) (int r)"

text \<open>\<open>rnd\<close> gives the byte drawn for each position of the list of links.\<close>

fun clog_links ::
    "tick \<Rightarrow> (nat \<Rightarrow> nat) \<Rightarrow> nat \<Rightarrow> LinkInfo list \<Rightarrow> pool \<Rightarrow> (LinkInfo list \<times> pool) res" where
  "clog_links current_time rnd i [] pool = Inr ([], pool)"
| "clog_links current_time rnd i (link # links) pool =
    bindR (queue_length current_time (wl_out_buffers link) pool) (\<lambda>(len, pool1).
    bindR (clog_links current_time rnd (i + 1) links pool1) (\<lambda>(links', pool2).
    Inr (link\<lparr>wl_order := clog_order len (rnd i)\<rparr> # links', pool2)))"

definition order_links ::
    "bool \<Rightarrow> bool \<Rightarrow> tick \<Rightarrow> (nat \<Rightarrow> nat) \<Rightarrow> LinkInfo list \<Rightarrow> pool \<Rightarrow> (LinkInfo list \<times> pool) res" where
  "order_links adaptive_routing deterministic current_time rnd links pool =
    (if \<not> adaptive_routing then Inr (links, pool)
     else if deterministic then Inr (sortLinks (map (\<lambda>l. l\<lparr>wl_order := 0\<rparr>) links), pool)
     else bindR (clog_links current_time rnd 0 links pool) (\<lambda>(links', pool').
       Inr (sortLinks links', pool')))"

definition wb_route ::
    "machine_info \<Rightarrow> bool \<Rightarrow> tick \<Rightarrow> (nat \<Rightarrow> nat) \<Rightarrow> Message \<Rightarrow> bool \<Rightarrow> LinkInfo list \<Rightarrow> pool
     \<Rightarrow> (SwitchRouteInfo list \<times> LinkInfo list \<times> pool) res" where
  "wb_route mt adaptive_routing current_time rnd msg deterministic links pool =
    bindR (order_links adaptive_routing deterministic current_time rnd links pool) (\<lambda>(links', pool').
    bindR (findRoute mt (msg_destination msg) links') (\<lambda>out_links.
    Inr (out_links, links', pool')))"

section \<open>The intersection of destination sets\<close>

lemma foldR_fill:
  assumes "\<And>i. i < n \<Longrightarrow> f i = Inr (g i)" and "n \<le> length r"
  shows "foldR (\<lambda>i r. bindR (f i) (setR r (int i))) [0..<n] r = Inr (map g [0..<n] @ drop n r)"
  using assms
proof (induction n)
  case 0
  then show ?case by simp
next
  case (Suc n)
  then have "(map g [0..<n] @ drop n r)[n := g n] = map g [0..<Suc n] @ drop (Suc n) r"
    by (simp add: list_update_append Cons_nth_drop_Suc [symmetric])
  with Suc show ?case by (simp add: foldR_append)
qed

lemma set_AND_ok:
  assumes "rset_ok nbits k s" and "rset_ok nbits k t"
  shows "\<exists>r. set_AND t s = Inr r \<and> rset_ok nbits k r \<and> rset_abs r = rset_abs s \<inter> rset_abs t"
proof -
  let ?r = "\<lparr>rs_nSize = k, rs_bits = map2 (\<and>) (rs_bits s) (rs_bits t)\<rparr>"
  have "set_AND t s = Inr ?r"
    using assms by (simp add: set_AND_def set_new_def rset_ok_def)
  moreover have "rset_abs ?r = rset_abs s \<inter> rset_abs t"
    using assms by (auto simp: rset_ok_def rset_abs_def)
  ultimately show ?thesis using assms by (auto simp: rset_ok_def)
qed

lemma nd_AND_ok:
  assumes "nd_ok mt d" and "nd_ok mt e"
  shows "\<exists>r. nd_AND mt e d = Inr r \<and> nd_ok mt r \<and> nd_abs r = nd_abs d \<inter> nd_abs e"
proof -
  have mt: "machine_ok mt" and len: "length d = mt_NUM mt" "length e = mt_NUM mt"
    using assms by (auto simp: nd_ok_def)
  obtain z where z: "nd_new mt = Inr z" "nd_ok mt z" using nd_new_ok [OF mt] by blast
  then have lz: "length z = mt_NUM mt" by (simp add: nd_ok_def)
  have "\<forall>i. \<exists>r. i < mt_NUM mt \<longrightarrow> set_AND (e ! i) (d ! i) = Inr r \<and>
      rset_ok (mt_bits_per_set mt) (mt_base_count mt i) r \<and> rset_abs r = rset_abs (d ! i) \<inter> rset_abs (e ! i)"
    using set_AND_ok nd_comp [OF assms(1)] nd_comp [OF assms(2)] by blast
  then obtain g where g: "\<And>i. i < mt_NUM mt \<Longrightarrow> set_AND (e ! i) (d ! i) = Inr (g i) \<and>
      rset_ok (mt_bits_per_set mt) (mt_base_count mt i) (g i) \<and> rset_abs (g i) = rset_abs (d ! i) \<inter> rset_abs (e ! i)"
    by metis
  let ?r = "map g [0..<mt_NUM mt]"
  have "foldR (\<lambda>i r. bindR (set_AND (e ! i) (d ! i)) (setR r (int i))) [0..<mt_NUM mt] z = Inr (?r @ drop (mt_NUM mt) z)"
    using g lz by (intro foldR_fill) auto
  then have "nd_AND mt e d = Inr ?r" using z(1) len lz by (simp add: nd_AND_def)
  moreover have "nd_ok mt ?r" using g mt by (simp add: nd_ok_def)
  moreover have "nd_abs ?r = nd_abs d \<inter> nd_abs e" using g len by (auto simp: nd_abs_def)
  ultimately show ?thesis by blast
qed

lemma nd_count_0: "nd_count d = 0 \<longleftrightarrow> nd_abs d = {}"
proof -
  have fin: "finite (rset_abs s)" for s by (simp add: rset_abs_def)
  have "nd_count d = 0 \<longleftrightarrow> (\<forall>s \<in> set d. rset_abs s = {})"
    using fin by (simp add: nd_count_def set_count_card)
  also have "\<dots> \<longleftrightarrow> nd_abs d = {}" by (force simp: nd_abs_def in_set_conv_nth)
  finally show ?thesis .
qed

section \<open>Which link carries which destination\<close>

definition link_for :: "LinkInfo list \<Rightarrow> machine_id \<Rightarrow> LinkInfo option" where
  "link_for links x = find (\<lambda>l. x \<in> nd_abs (wl_routing_entry l)) links"

definition link_share :: "LinkInfo list \<Rightarrow> net_dest \<Rightarrow> LinkInfo \<Rightarrow> machine_id set" where
  "link_share links d l = {x \<in> nd_abs d. link_for links x = Some l}"

definition routes_match :: "machine_info \<Rightarrow> LinkInfo list \<Rightarrow> net_dest \<Rightarrow> SwitchRouteInfo \<Rightarrow> LinkInfo \<Rightarrow> bool" where
  "routes_match mt links d r l \<longleftrightarrow> ri_link_id r = wl_link_id l \<and> nd_ok mt (ri_destinations r) \<and>
    nd_abs (ri_destinations r) = link_share links d l"

lemma route_step_cases:
  assumes "nd_ok mt d" and "nd_ok mt (wl_routing_entry l)"
  shows "\<exists>d'. nd_ok mt d' \<and> nd_abs d' = nd_abs d - nd_abs (wl_routing_entry l) \<and>
    (if nd_abs d \<inter> nd_abs (wl_routing_entry l) = {} then route_step mt l (d, out) = Inr (d', out)
     else \<exists>r. route_step mt l (d, out) = Inr (d', out @ [r]) \<and> ri_link_id r = wl_link_id l \<and>
       nd_ok mt (ri_destinations r) \<and> nd_abs (ri_destinations r) = nd_abs d \<inter> nd_abs (wl_routing_entry l))"
proof (cases "nd_abs d \<inter> nd_abs (wl_routing_entry l) = {}")
  case True
  then have "nd_abs d = nd_abs d - nd_abs (wl_routing_entry l)" by blast
  with True assms show ?thesis
    by (intro exI [of _ d]) (simp add: route_step_def nd_intersectionIsNotEmpty_abs)
next
  case False
  obtain b where b: "nd_AND mt (wl_routing_entry l) d = Inr b" "nd_ok mt b"
      "nd_abs b = nd_abs d \<inter> nd_abs (wl_routing_entry l)"
    using nd_AND_ok [OF assms] by blast
  obtain d' where d': "nd_removeNetDest (wl_routing_entry l) d = Inr d'" "nd_ok mt d'"
      "nd_abs d' = nd_abs d - nd_abs (wl_routing_entry l)"
    using nd_removeNetDest_ok [OF assms] by blast
  from False b d' assms show ?thesis
    by (intro exI [of _ d']) (simp add: route_step_def nd_intersectionIsNotEmpty_abs)
qed

lemma findRoute_loop:
  assumes "nd_ok mt d" and "\<forall>l \<in> set links. nd_ok mt (wl_routing_entry l)" and "distinct links"
  shows "\<exists>rest routes. foldR (route_step mt) links (d, out) = Inr (rest, out @ routes) \<and> nd_ok mt rest \<and>
    nd_abs rest = {x \<in> nd_abs d. link_for links x = None} \<and>
    list_all2 (routes_match mt links d) routes (filter (\<lambda>l. link_share links d l \<noteq> {}) links)"
  using assms
proof (induction links arbitrary: d out)
  case Nil
  then show ?case by (simp add: link_for_def)
next
  case (Cons l ls)
  let ?E = "nd_abs (wl_routing_entry l)"
  obtain d' where d': "nd_ok mt d'" "nd_abs d' = nd_abs d - ?E"
    and step: "if nd_abs d \<inter> ?E = {} then route_step mt l (d, out) = Inr (d', out)
     else \<exists>r. route_step mt l (d, out) = Inr (d', out @ [r]) \<and> ri_link_id r = wl_link_id l \<and>
       nd_ok mt (ri_destinations r) \<and> nd_abs (ri_destinations r) = nd_abs d \<inter> ?E"
    using route_step_cases [of mt d l out] Cons.prems by auto
  have lf: "link_for (l # ls) x = (if x \<in> ?E then Some l else link_for ls x)" for x
    by (simp add: link_for_def)
  have in_set: "link_for ls x = Some k \<Longrightarrow> k \<in> set ls" for x k
    by (auto simp: link_for_def find_Some_iff)
  have share: "link_share (l # ls) d k = link_share ls d' k" if "k \<in> set ls" for k
    using that Cons.prems(3) d'(2) by (auto simp: link_share_def lf)
  have share_l: "link_share (l # ls) d l = nd_abs d \<inter> ?E"
    using Cons.prems(3) in_set by (auto simp: link_share_def lf)
  have rest: "{x \<in> nd_abs d. link_for (l # ls) x = None} = {x \<in> nd_abs d'. link_for ls x = None}"
    using d'(2) by (auto simp: lf)
  have filt: "filter (\<lambda>k. link_share (l # ls) d k \<noteq> {}) ls = filter (\<lambda>k. link_share ls d' k \<noteq> {}) ls"
    using share by (intro filter_cong) auto
  have match: "list_all2 (routes_match mt (l # ls) d) rs ks"
    if "list_all2 (routes_match mt ls d') rs ks" "set ks \<subseteq> set ls" for rs ks
    using that share by (auto simp: list_all2_conv_all_nth routes_match_def subset_code(1))
  show ?case
  proof (cases "nd_abs d \<inter> ?E = {}")
    case True
    obtain rest' routes where "foldR (route_step mt) ls (d', out) = Inr (rest', out @ routes)" "nd_ok mt rest'"
      "nd_abs rest' = {x \<in> nd_abs d'. link_for ls x = None}"
      "list_all2 (routes_match mt ls d') routes (filter (\<lambda>k. link_share ls d' k \<noteq> {}) ls)"
      using Cons.IH [OF d'(1), of out] Cons.prems by auto
    then show ?thesis using True step rest share_l filt match by simp
  next
    case False
    then obtain r where r: "route_step mt l (d, out) = Inr (d', out @ [r])" "routes_match mt (l # ls) d r l"
      using step share_l by (auto simp: routes_match_def)
    obtain rest' routes where "foldR (route_step mt) ls (d', out @ [r]) = Inr (rest', (out @ [r]) @ routes)"
      "nd_ok mt rest'" "nd_abs rest' = {x \<in> nd_abs d'. link_for ls x = None}"
      "list_all2 (routes_match mt ls d') routes (filter (\<lambda>k. link_share ls d' k \<noteq> {}) ls)"
      using Cons.IH [OF d'(1), of "out @ [r]"] Cons.prems by auto
    then show ?thesis using False r rest share_l filt match
      by (intro exI [of _ rest'] exI [of _ "r # routes"]) simp
  qed
qed

lemma findRoute_correct:
  assumes "nd_ok mt d" and "\<forall>l \<in> set links. nd_ok mt (wl_routing_entry l)" and "distinct links"
  shows "if \<forall>x \<in> nd_abs d. link_for links x \<noteq> None
    then \<exists>routes. findRoute mt d links = Inr routes \<and>
      list_all2 (routes_match mt links d) routes (filter (\<lambda>l. link_share links d l \<noteq> {}) links)
    else findRoute mt d links = Inl (Assert_failed ''msg_dsts.count() == 0'')"
proof -
  obtain rest routes where r: "foldR (route_step mt) links (d, []) = Inr (rest, [] @ routes)"
    "nd_abs rest = {x \<in> nd_abs d. link_for links x = None}"
    "list_all2 (routes_match mt links d) routes (filter (\<lambda>l. link_share links d l \<noteq> {}) links)"
    using findRoute_loop [OF assms, of "[]"] by blast
  have c: "nd_count rest = 0 \<longleftrightarrow> (\<forall>x \<in> nd_abs d. link_for links x \<noteq> None)"
    by (simp add: nd_count_0 r(2) Ball_def)
  have f: "findRoute mt d links = guardR (nd_count rest = 0) (Assert_failed ''msg_dsts.count() == 0'') (Inr routes)"
    by (simp add: findRoute_def r(1))
  show ?thesis
  proof (cases "nd_count rest = 0")
    case True
    then have all: "\<forall>x \<in> nd_abs d. link_for links x \<noteq> None" using c by blast
    have "findRoute mt d links = Inr routes" using True f by simp
    with r(3) show ?thesis unfolding if_P [OF all] by blast
  next
    case False
    then have ex: "\<not> (\<forall>x \<in> nd_abs d. link_for links x \<noteq> None)" by (simp only: c [symmetric]) simp
    show ?thesis unfolding if_not_P [OF ex] using False f by simp
  qed
qed

section \<open>The order of the links\<close>

lemma clog_order_eq:
  assumes "r < 256"
  shows "clog_order n r = 256 * int n + int r"
proof -
  have r: "take_bit 8 (int r) = int r"
    using assms by (simp add: take_bit_eq_mod)
  have "\<not> bit (push_bit 8 (int n)) k \<or> \<not> bit (int r) k" for k
    using bit_take_bit_iff [of 8 "int r" k] r by (auto simp: bit_push_bit_iff)
  then have "Bit_Operations.or (push_bit 8 (int n)) (int r) = push_bit 8 (int n) + int r"
    by (simp add: disjunctive_add)
  then show ?thesis by (simp add: clog_order_def push_bit_eq_mult mult.commute)
qed

text \<open>A shorter queue comes first, whatever the random bytes.\<close>

lemma clog_order_less: "r < 256 \<Longrightarrow> r' < 256 \<Longrightarrow> n < n' \<Longrightarrow> clog_order n r < clog_order n' r'"
  by (simp add: clog_order_eq)

lemma sortLinks_ok [simp]:
  "mset (sortLinks links) = mset links" "set (sortLinks links) = set links"
  "sorted (map link_key (sortLinks links))" "length (sortLinks links) = length links"
  by (simp_all add: sortLinks_def)

lemma link_for_least:
  assumes "sorted (map link_key links)" and "link_for links x = Some l"
    and "l' \<in> set links" and "x \<in> nd_abs (wl_routing_entry l')"
  shows "link_key l \<le> link_key l'"
proof -
  from assms(2) obtain i where i: "i < length links" "l = links ! i" "x \<in> nd_abs (wl_routing_entry l)"
    "\<forall>j < i. x \<notin> nd_abs (wl_routing_entry (links ! j))"
    by (auto simp: link_for_def find_Some_iff)
  obtain k where k: "k < length links" "l' = links ! k" using assms(3) by (auto simp: in_set_conv_nth)
  have "i \<le> k" using i(4) assms(4) k(2) not_le by blast
  then have "map link_key links ! i \<le> map link_key links ! k"
    using sorted_nth_mono [OF assms(1), of i k] k(1) by simp
  then show ?thesis using i k by simp
qed

text \<open>Asking a buffer for its size changes nothing but the remembered answer.\<close>

definition buf_seen :: "tick \<Rightarrow> MessageBuffer \<Rightarrow> MessageBuffer \<Rightarrow> bool" where
  "buf_seen now a b \<longleftrightarrow> b = a \<or> b = snd (mb_getSize now a)"

definition seen_size :: "tick \<Rightarrow> pool \<Rightarrow> buf_ref \<Rightarrow> nat" where
  "seen_size now pool b = (case b of None \<Rightarrow> 0 | Some i \<Rightarrow> fst (mb_getSize now (pool ! i)))"

definition refs_ok :: "nat \<Rightarrow> buf_ref list \<Rightarrow> bool" where
  "refs_ok n bufs \<longleftrightarrow> (\<forall>b \<in> set bufs. \<exists>i < n. b = Some i)"

lemma mb_getSize_again [simp]:
  "mb_getSize now (snd (mb_getSize now mb)) = (fst (mb_getSize now mb), snd (mb_getSize now mb))"
  by (simp add: mb_getSize_def Let_def)

lemma buf_seen_trans: "buf_seen now a b \<Longrightarrow> buf_seen now b c \<Longrightarrow> buf_seen now a c"
  by (auto simp: buf_seen_def)

lemma buf_seen_size: "buf_seen now a b \<Longrightarrow> fst (mb_getSize now b) = fst (mb_getSize now a)"
  by (auto simp: buf_seen_def)

definition pool_seen :: "tick \<Rightarrow> pool \<Rightarrow> pool \<Rightarrow> bool" where
  "pool_seen now = list_all2 (buf_seen now)"

lemma pool_seen_refl [simp]: "pool_seen now pool pool"
  unfolding pool_seen_def by (rule list_all2_refl) (simp add: buf_seen_def)

lemma pool_seen_trans: "pool_seen now p q \<Longrightarrow> pool_seen now q r \<Longrightarrow> pool_seen now p r"
  unfolding pool_seen_def by (rule list_all2_trans [OF buf_seen_trans])

lemma pool_seen_length: "pool_seen now p q \<Longrightarrow> length q = length p"
  by (simp add: pool_seen_def list_all2_lengthD)

lemma pool_seen_sizes:
  assumes "pool_seen now p q" and "refs_ok (length p) bufs" and "b \<in> set bufs"
  shows "seen_size now q b = seen_size now p b"
proof -
  obtain i where "b = Some i" "i < length p" using assms(2,3) by (auto simp: refs_ok_def)
  with assms(1) show ?thesis
    unfolding seen_size_def pool_seen_def by (simp add: buf_seen_size list_all2_nthD)
qed

lemma deref_buf_ok: "i < length pool \<Longrightarrow> deref_buf (Some i) pool = Inr (i, pool ! i)"
  by (simp add: deref_buf_def)

lemma queue_length_ok:
  assumes "refs_ok (length pool) bufs"
  shows "\<exists>pool'. queue_length now bufs pool = Inr (\<Sum>b\<leftarrow>bufs. seen_size now pool b, pool') \<and> pool_seen now pool pool'"
proof -
  have "\<exists>pool'. foldR (\<lambda>b (len, pool). bindR (deref_buf b pool) (\<lambda>(i, mb).
        case mb_getSize now mb of (n, mb') \<Rightarrow> Inr (len + n, pool[i := mb']))) bufs (k, pool)
      = Inr (k + (\<Sum>b\<leftarrow>bufs. seen_size now pool b), pool') \<and> pool_seen now pool pool'" for k
    using assms
  proof (induction bufs arbitrary: k pool)
    case Nil
    then show ?case by simp
  next
    case (Cons b bufs)
    then obtain i where b: "b = Some i" "i < length pool" by (auto simp: refs_ok_def)
    let ?p = "pool[i := snd (mb_getSize now (pool ! i))]"
    have seen: "pool_seen now pool ?p"
      using b(2) unfolding pool_seen_def by (auto simp: list_all2_conv_all_nth nth_list_update buf_seen_def)
    have ok: "refs_ok (length pool) bufs" using Cons.prems by (simp add: refs_ok_def)
    have sizes: "(\<Sum>b\<leftarrow>bufs. seen_size now ?p b) = (\<Sum>b\<leftarrow>bufs. seen_size now pool b)"
      using pool_seen_sizes [OF seen ok] by (simp cong: map_cong)
    obtain pool' where p: "foldR (\<lambda>b (len, pool). bindR (deref_buf b pool) (\<lambda>(i, mb).
        case mb_getSize now mb of (n, mb') \<Rightarrow> Inr (len + n, pool[i := mb'])))
        bufs (k + fst (mb_getSize now (pool ! i)), ?p)
      = Inr (k + fst (mb_getSize now (pool ! i)) + (\<Sum>b\<leftarrow>bufs. seen_size now ?p b), pool')"
      "pool_seen now ?p pool'"
      using Cons.IH [of ?p "k + fst (mb_getSize now (pool ! i))"] ok by auto
    have "pool_seen now pool pool'" by (rule pool_seen_trans [OF seen p(2)])
    moreover have "seen_size now pool b = fst (mb_getSize now (pool ! i))" by (simp add: seen_size_def b(1))
    ultimately show ?case
      using p(1) unfolding foldR.simps b(1) sizes
      by (intro exI [of _ pool'] conjI) (simp_all add: case_prod_beta deref_buf_ok [OF b(2)] add.assoc)
  qed
  from this [of 0] show ?thesis by (simp add: queue_length_def)
qed

lemma clog_links_ok:
  assumes "\<forall>l \<in> set links. refs_ok (length pool) (wl_out_buffers l)"
  shows "\<exists>links' pool'. clog_links now rnd k links pool = Inr (links', pool') \<and> pool_seen now pool pool' \<and>
    links' = map (\<lambda>i. (links ! i)\<lparr>wl_order :=
      clog_order (\<Sum>b\<leftarrow>wl_out_buffers (links ! i). seen_size now pool b) (rnd (k + i))\<rparr>) [0..<length links]"
  using assms
proof (induction links arbitrary: k pool)
  case Nil
  then show ?case by simp
next
  case (Cons l links)
  obtain p where p: "queue_length now (wl_out_buffers l) pool
      = Inr (\<Sum>b\<leftarrow>wl_out_buffers l. seen_size now pool b, p)" "pool_seen now pool p"
    using queue_length_ok [of pool "wl_out_buffers l" now] Cons.prems by auto
  have len: "length p = length pool" using p(2) by (rule pool_seen_length)
  obtain q where q: "clog_links now rnd (k + 1) links p = Inr (map (\<lambda>i. (links ! i)\<lparr>wl_order :=
      clog_order (\<Sum>b\<leftarrow>wl_out_buffers (links ! i). seen_size now p b) (rnd (k + 1 + i))\<rparr>) [0..<length links], q)"
    "pool_seen now p q"
    using Cons.IH [of p "k + 1"] Cons.prems len by auto
  have sizes: "(\<Sum>b\<leftarrow>wl_out_buffers (links ! i). seen_size now p b) =
      (\<Sum>b\<leftarrow>wl_out_buffers (links ! i). seen_size now pool b)" if "i < length links" for i
    using pool_seen_sizes [OF p(2), of "wl_out_buffers (links ! i)"] Cons.prems that by (simp cong: map_cong)
  have "clog_links now rnd (k + 1) links p = Inr (map (\<lambda>i. (links ! i)\<lparr>wl_order :=
      clog_order (\<Sum>b\<leftarrow>wl_out_buffers (links ! i). seen_size now pool b) (rnd (Suc (k + i)))\<rparr>) [0..<length links], q)"
    unfolding q(1) using sizes by simp
  moreover have "[0..<length (l # links)] = 0 # map Suc [0..<length links]"
    by (simp add: map_Suc_upt upt_conv_Cons del: upt_Suc)
  ultimately show ?case
    using p(1) pool_seen_trans [OF p(2) q(2)] by (simp add: o_def del: upt_Suc)
qed

definition links_ok :: "machine_info \<Rightarrow> nat \<Rightarrow> LinkInfo list \<Rightarrow> bool" where
  "links_ok mt n links \<longleftrightarrow> distinct (map wl_link_id links) \<and> sorted (map link_key links) \<and>
    (\<forall>l \<in> set links. nd_ok mt (wl_routing_entry l) \<and> refs_ok n (wl_out_buffers l))"

text \<open>What stays of a link when only its order changes.\<close>

definition link_core :: "LinkInfo \<Rightarrow> nat \<times> net_dest \<times> buf_ref list \<times> int" where
  "link_core l = (wl_link_id l, wl_routing_entry l, wl_out_buffers l, wl_weight l)"

lemma links_ok_core:
  assumes "links_ok mt n links" and "image_mset link_core (mset links') = image_mset link_core (mset links)"
    and "sorted (map link_key links')"
  shows "links_ok mt n links'"
proof -
  have "mset (map fst (map link_core links')) = mset (map fst (map link_core links))"
    using assms(2) by (metis mset_map)
  then have "mset (map wl_link_id links') = mset (map wl_link_id links)"
    by (simp add: link_core_def o_def)
  then have "distinct (map wl_link_id links')"
    using assms(1) mset_eq_imp_distinct_iff unfolding links_ok_def by blast
  moreover have same: "link_core ` set links' = link_core ` set links"
    using arg_cong [OF assms(2), of set_mset] by simp
  have "nd_ok mt (wl_routing_entry l') \<and> refs_ok n (wl_out_buffers l')" if "l' \<in> set links'" for l'
  proof -
    have "link_core l' \<in> link_core ` set links" using that same by blast
    then obtain l where "l \<in> set links" "link_core l' = link_core l" by auto
    with assms(1) show ?thesis by (simp add: links_ok_def link_core_def)
  qed
  ultimately show ?thesis using assms(3) by (simp add: links_ok_def)
qed

lemma order_links_ok:
  assumes "links_ok mt (length pool) links"
  shows "\<exists>links' pool'. order_links adaptive det now rnd links pool = Inr (links', pool') \<and>
    links_ok mt (length pool) links' \<and> image_mset link_core (mset links') = image_mset link_core (mset links) \<and>
    pool_seen now pool pool' \<and>
    (adaptive \<and> \<not> det \<longrightarrow> (\<forall>l \<in> set links'. \<exists>i < length links. wl_order l =
      clog_order (\<Sum>b\<leftarrow>wl_out_buffers l. seen_size now pool b) (rnd i)))"
proof -
  obtain p where c: "clog_links now rnd 0 links pool = Inr (map (\<lambda>i. (links ! i)\<lparr>wl_order :=
      clog_order (\<Sum>b\<leftarrow>wl_out_buffers (links ! i). seen_size now pool b) (rnd i)\<rparr>) [0..<length links], p)"
    "pool_seen now pool p"
    using clog_links_ok [of links pool now rnd 0] assms by (auto simp: links_ok_def)
  let ?L = "map (\<lambda>i. (links ! i)\<lparr>wl_order :=
      clog_order (\<Sum>b\<leftarrow>wl_out_buffers (links ! i). seen_size now pool b) (rnd i)\<rparr>) [0..<length links]"
  have "map link_core ?L = map (\<lambda>i. link_core (links ! i)) [0..<length links]" by (simp add: link_core_def)
  also have "\<dots> = map link_core links" by (rule nth_equalityI) simp_all
  finally have eq: "map link_core ?L = map link_core links" .
  have core: "image_mset link_core (mset ?L) = image_mset link_core (mset links)"
    using arg_cong [OF eq, of mset] by (simp only: mset_map)
  have eq0: "map link_core (map (\<lambda>l. l\<lparr>wl_order := 0\<rparr>) links) = map link_core links" by (simp add: link_core_def)
  have core0: "image_mset link_core (mset (map (\<lambda>l. l\<lparr>wl_order := 0\<rparr>) links)) = image_mset link_core (mset links)"
    using arg_cong [OF eq0, of mset] by (simp only: mset_map)
  consider "\<not> adaptive" | "adaptive" "det" | "adaptive" "\<not> det" by blast
  then show ?thesis
  proof cases
    case 1
    with assms show ?thesis by (simp add: order_links_def)
  next
    case 2
    with links_ok_core [OF assms, of "sortLinks (map (\<lambda>l. l\<lparr>wl_order := 0\<rparr>) links)"] core0
    show ?thesis by (simp add: order_links_def)
  next
    case 3
    have "\<forall>l \<in> set ?L. \<exists>i < length links. wl_order l = clog_order (\<Sum>b\<leftarrow>wl_out_buffers l. seen_size now pool b) (rnd i)"
      by auto
    with 3 links_ok_core [OF assms, of "sortLinks ?L"] core c show ?thesis
      by (simp add: order_links_def del: mset_map set_map)
  qed
qed

section \<open>Routing a message\<close>

definition covered :: "LinkInfo list \<Rightarrow> net_dest \<Rightarrow> bool" where
  "covered links d \<longleftrightarrow> nd_abs d \<subseteq> (\<Union>l \<in> set links. nd_abs (wl_routing_entry l))"

lemma link_for_None: "link_for links x = None \<longleftrightarrow> (\<forall>l \<in> set links. x \<notin> nd_abs (wl_routing_entry l))"
  by (auto simp: link_for_def find_None_iff)

lemma covered_iff: "covered links d \<longleftrightarrow> (\<forall>x \<in> nd_abs d. link_for links x \<noteq> None)"
  unfolding covered_def link_for_None by blast

lemma covered_core:
  assumes "image_mset link_core (mset links') = image_mset link_core (mset links)"
  shows "covered links' d = covered links d"
proof -
  have img: "nd_abs ` wl_routing_entry ` set ls = (\<lambda>c. nd_abs (fst (snd c))) ` link_core ` set ls" for ls
    by (simp add: image_image link_core_def)
  have "link_core ` set links' = link_core ` set links" using arg_cong [OF assms, of set_mset] by simp
  then have "nd_abs ` wl_routing_entry ` set links' = nd_abs ` wl_routing_entry ` set links"
    by (simp only: img)
  then show ?thesis by (simp add: covered_def image_image)
qed

text \<open>
  What \<open>wb_route\<close> returns: the sets of the routes are those of the links that have a share.
\<close>

lemma wb_route_ok:
  assumes "links_ok mt (length pool) links" and "nd_ok mt (msg_destination msg)"
    and "covered links (msg_destination msg)"
  shows "\<exists>routes links' pool'. wb_route mt adaptive now rnd msg det links pool = Inr (routes, links', pool') \<and>
    links_ok mt (length pool) links' \<and> image_mset link_core (mset links') = image_mset link_core (mset links) \<and>
    pool_seen now pool pool' \<and>
    (adaptive \<and> \<not> det \<longrightarrow> (\<forall>l \<in> set links'. \<exists>i < length links. wl_order l =
      clog_order (\<Sum>b\<leftarrow>wl_out_buffers l. seen_size now pool b) (rnd i))) \<and>
    list_all2 (routes_match mt links' (msg_destination msg)) routes
      (filter (\<lambda>l. link_share links' (msg_destination msg) l \<noteq> {}) links')"
proof -
  obtain links' pool' where o: "order_links adaptive det now rnd links pool = Inr (links', pool')"
    "links_ok mt (length pool) links'" "image_mset link_core (mset links') = image_mset link_core (mset links)"
    "pool_seen now pool pool'"
    "adaptive \<and> \<not> det \<longrightarrow> (\<forall>l \<in> set links'. \<exists>i < length links. wl_order l =
      clog_order (\<Sum>b\<leftarrow>wl_out_buffers l. seen_size now pool b) (rnd i))"
    using order_links_ok [OF assms(1)] by blast
  have dist: "distinct links'" using o(2) unfolding links_ok_def by (simp add: distinct_map)
  have all: "\<forall>x \<in> nd_abs (msg_destination msg). link_for links' x \<noteq> None"
    using assms(3) covered_core [OF o(3)] by (simp only: covered_iff)
  obtain routes where r: "findRoute mt (msg_destination msg) links' = Inr routes"
    "list_all2 (routes_match mt links' (msg_destination msg)) routes
      (filter (\<lambda>l. link_share links' (msg_destination msg) l \<noteq> {}) links')"
    using findRoute_correct [OF assms(2) _ dist] o(2) unfolding if_P [OF all] links_ok_def by blast
  have "wb_route mt adaptive now rnd msg det links pool = Inr (routes, links', pool')"
    by (simp add: wb_route_def o(1) r(1))
  with o r(2) show ?thesis by blast
qed

lemma wb_route_uncovered:
  assumes "links_ok mt (length pool) links" and "nd_ok mt (msg_destination msg)"
    and "\<not> covered links (msg_destination msg)"
  shows "wb_route mt adaptive now rnd msg det links pool = Inl (Assert_failed ''msg_dsts.count() == 0'')"
proof -
  obtain links' pool' where o: "order_links adaptive det now rnd links pool = Inr (links', pool')"
    "links_ok mt (length pool) links'" "image_mset link_core (mset links') = image_mset link_core (mset links)"
    using order_links_ok [OF assms(1)] by blast
  have dist: "distinct links'" using o(2) unfolding links_ok_def by (simp add: distinct_map)
  have ex: "\<not> (\<forall>x \<in> nd_abs (msg_destination msg). link_for links' x \<noteq> None)"
    unfolding covered_iff [symmetric] using assms(3) covered_core [OF o(3)] by simp
  have "findRoute mt (msg_destination msg) links' = Inl (Assert_failed ''msg_dsts.count() == 0'')"
    using findRoute_correct [OF assms(2) _ dist] o(2) unfolding if_not_P [OF ex] links_ok_def by blast
  then show ?thesis by (simp add: wb_route_def o(1))
qed

section \<open>The routes share out the destinations\<close>

lemma finite_nd_abs [simp]: "finite (nd_abs d)"
proof -
  have "nd_abs d = (\<Union>m < length d. Pair m ` rset_abs (d ! m))" by (auto simp: nd_abs_def)
  then show ?thesis by (simp add: rset_abs_def)
qed

lemma link_share_disjoint: "k \<noteq> l \<Longrightarrow> link_share links d k \<inter> link_share links d l = {}"
  by (auto simp: link_share_def)

lemma link_share_sum:
  assumes "distinct ls"
  shows "(\<Sum>l\<leftarrow>ls. mset_set (link_share links d l)) = mset_set (\<Union>l \<in> set ls. link_share links d l)"
  using assms
proof (induction ls)
  case Nil
  then show ?case by simp
next
  case (Cons l ls)
  have fin: "finite (link_share links d k)" for k by (simp add: link_share_def)
  have "link_share links d l \<inter> (\<Union>k \<in> set ls. link_share links d k) = {}"
    using Cons.prems link_share_disjoint [of _ l links d] by (auto simp: link_share_def)
  then have "mset_set (link_share links d l \<union> (\<Union>k \<in> set ls. link_share links d k))
      = mset_set (link_share links d l) + mset_set (\<Union>k \<in> set ls. link_share links d k)"
    using fin by (intro mset_set_Union) auto
  with Cons show ?case by simp
qed

lemma link_share_union:
  assumes "covered links d"
  shows "(\<Union>l \<in> set (filter (\<lambda>l. link_share links d l \<noteq> {}) links). link_share links d l) = nd_abs d"
proof -
  have "\<exists>l \<in> set links. x \<in> link_share links d l" if "x \<in> nd_abs d" for x
  proof -
    from that assms obtain l where "link_for links x = Some l" by (auto simp: covered_iff)
    moreover from this have "l \<in> set links" by (auto simp: link_for_def find_Some_iff)
    ultimately show ?thesis using that by (auto simp: link_share_def)
  qed
  moreover have "link_share links d l \<subseteq> nd_abs d" for l by (auto simp: link_share_def)
  ultimately show ?thesis by fastforce
qed

lemma routes_partition:
  assumes "list_all2 (routes_match mt links d) routes (filter (\<lambda>l. link_share links d l \<noteq> {}) links)"
    and "distinct (map wl_link_id links)" and "covered links d"
  shows "distinct (map ri_link_id routes)"
    and "\<forall>r \<in> set routes. nd_ok mt (ri_destinations r) \<and> nd_abs (ri_destinations r) \<noteq> {} \<and>
      (\<exists>l \<in> set links. wl_link_id l = ri_link_id r \<and> nd_abs (ri_destinations r) = link_share links d l)"
    and "(\<Sum>r\<leftarrow>routes. mset_set (nd_abs (ri_destinations r))) = mset_set (nd_abs d)"
proof -
  let ?ls = "filter (\<lambda>l. link_share links d l \<noteq> {}) links"
  have len: "length routes = length ?ls" using assms(1) by (rule list_all2_lengthD)
  have nth: "routes_match mt links d (routes ! i) (?ls ! i)" if "i < length routes" for i
    using list_all2_nthD [OF assms(1) that] .
  have "map ri_link_id routes = map wl_link_id ?ls"
    using len nth by (intro nth_equalityI) (simp_all add: routes_match_def)
  then show "distinct (map ri_link_id routes)" using assms(2) distinct_map_filter by metis
  show "\<forall>r \<in> set routes. nd_ok mt (ri_destinations r) \<and> nd_abs (ri_destinations r) \<noteq> {} \<and>
      (\<exists>l \<in> set links. wl_link_id l = ri_link_id r \<and> nd_abs (ri_destinations r) = link_share links d l)"
  proof
    fix r assume "r \<in> set routes"
    then obtain i where i: "i < length routes" "r = routes ! i" by (auto simp: in_set_conv_nth)
    have "?ls ! i \<in> set ?ls" using i(1) len nth_mem by metis
    then show "nd_ok mt (ri_destinations r) \<and> nd_abs (ri_destinations r) \<noteq> {} \<and>
      (\<exists>l \<in> set links. wl_link_id l = ri_link_id r \<and> nd_abs (ri_destinations r) = link_share links d l)"
      using nth [OF i(1)] unfolding i(2) routes_match_def by auto
  qed
  have "map (\<lambda>r. mset_set (nd_abs (ri_destinations r))) routes = map (\<lambda>l. mset_set (link_share links d l)) ?ls"
    using len nth by (intro nth_equalityI) (simp_all add: routes_match_def)
  moreover have "distinct ?ls" using assms(2) by (simp add: distinct_map)
  ultimately show "(\<Sum>r\<leftarrow>routes. mset_set (nd_abs (ri_destinations r))) = mset_set (nd_abs d)"
    using link_share_sum [of ?ls links d] link_share_union [OF assms(3)] by (simp only:)
qed

text \<open>
  C21: The routing unit of a switch shares out the destinations of a message. When every
  destination is in the entry of some link, routing succeeds: each link is named at most once,
  the sets of the links named are not empty, no two overlap, together they are the destinations
  of the message, and each destination goes to the link whose order, weight and number are
  least among the links whose entry holds it. With adaptive routing the order is by the lengths
  of the queues and then by random bytes. When some destination is in no entry the unit fails.
\<close>

theorem multicast_partition:
  assumes "links_ok mt (length pool) links" and "nd_ok mt (msg_destination msg)"
  shows "if covered links (msg_destination msg)
    then \<exists>routes links' pool'. wb_route mt adaptive now rnd msg det links pool = Inr (routes, links', pool') \<and>
      distinct (map ri_link_id routes) \<and>
      (\<Union>r \<in> set routes. nd_abs (ri_destinations r)) = nd_abs (msg_destination msg) \<and>
      (\<forall>r \<in> set routes. nd_abs (ri_destinations r) \<noteq> {} \<and>
        (\<forall>r' \<in> set routes. r' \<noteq> r \<longrightarrow> nd_abs (ri_destinations r) \<inter> nd_abs (ri_destinations r') = {}) \<and>
        (\<exists>l \<in> set links'. wl_link_id l = ri_link_id r \<and> (\<forall>x \<in> nd_abs (ri_destinations r).
          x \<in> nd_abs (wl_routing_entry l) \<and>
          (\<forall>l' \<in> set links'. x \<in> nd_abs (wl_routing_entry l') \<longrightarrow> link_key l \<le> link_key l')))) \<and>
      image_mset link_core (mset links') = image_mset link_core (mset links) \<and>
      (adaptive \<and> \<not> det \<longrightarrow> (\<forall>l \<in> set links'. \<exists>i < length links. wl_order l =
        clog_order (\<Sum>b\<leftarrow>wl_out_buffers l. seen_size now pool b) (rnd i)))
    else wb_route mt adaptive now rnd msg det links pool = Inl (Assert_failed ''msg_dsts.count() == 0'')"
proof (cases "covered links (msg_destination msg)")
  case False
  then show ?thesis using wb_route_uncovered [OF assms] by simp
next
  case True
  let ?d = "msg_destination msg"
  obtain routes links' pool' where r: "wb_route mt adaptive now rnd msg det links pool = Inr (routes, links', pool')"
    "links_ok mt (length pool) links'" "image_mset link_core (mset links') = image_mset link_core (mset links)"
    "adaptive \<and> \<not> det \<longrightarrow> (\<forall>l \<in> set links'. \<exists>i < length links. wl_order l =
      clog_order (\<Sum>b\<leftarrow>wl_out_buffers l. seen_size now pool b) (rnd i))"
    "list_all2 (routes_match mt links' ?d) routes (filter (\<lambda>l. link_share links' ?d l \<noteq> {}) links')"
    using wb_route_ok [OF assms True, of adaptive now rnd det]
    by (elim exE conjE) (rule that, assumption+)
  have ids: "distinct (map wl_link_id links')" and sorted: "sorted (map link_key links')"
    using r(2) by (auto simp: links_ok_def)
  have cov: "covered links' ?d" using True covered_core [OF r(3)] by simp
  note part = routes_partition [OF r(5) ids cov]
  have "set_mset (\<Sum>r\<leftarrow>routes. mset_set (nd_abs (ri_destinations r))) = (\<Union>r \<in> set routes. nd_abs (ri_destinations r))"
    by (induction routes) auto
  then have union: "(\<Union>r \<in> set routes. nd_abs (ri_destinations r)) = nd_abs ?d" using part(3) by simp
  have each: "nd_abs (ri_destinations r) \<noteq> {} \<and>
        (\<forall>r' \<in> set routes. r' \<noteq> r \<longrightarrow> nd_abs (ri_destinations r) \<inter> nd_abs (ri_destinations r') = {}) \<and>
        (\<exists>l \<in> set links'. wl_link_id l = ri_link_id r \<and> (\<forall>x \<in> nd_abs (ri_destinations r).
          x \<in> nd_abs (wl_routing_entry l) \<and>
          (\<forall>l' \<in> set links'. x \<in> nd_abs (wl_routing_entry l') \<longrightarrow> link_key l \<le> link_key l')))"
    if "r \<in> set routes" for r
  proof (intro conjI ballI impI)
    obtain l where l: "l \<in> set links'" "wl_link_id l = ri_link_id r" "nd_abs (ri_destinations r) = link_share links' ?d l"
      using part(2) \<open>r \<in> set routes\<close> by blast
    show "nd_abs (ri_destinations r) \<noteq> {}" using part(2) that by blast
    show "nd_abs (ri_destinations r) \<inter> nd_abs (ri_destinations r') = {}" if r': "r' \<in> set routes" "r' \<noteq> r" for r'
    proof -
      obtain l' where l': "l' \<in> set links'" "wl_link_id l' = ri_link_id r'" "nd_abs (ri_destinations r') = link_share links' ?d l'"
        using part(2) r'(1) by blast
      have "ri_link_id r' \<noteq> ri_link_id r"
        using part(1) r' \<open>r \<in> set routes\<close> by (auto simp: distinct_map inj_on_def)
      then show ?thesis using l l' link_share_disjoint [of l l'] by force
    qed
    have "x \<in> nd_abs (wl_routing_entry l) \<and>
          (\<forall>l' \<in> set links'. x \<in> nd_abs (wl_routing_entry l') \<longrightarrow> link_key l \<le> link_key l')"
      if "x \<in> nd_abs (ri_destinations r)" for x
    proof -
      have f: "link_for links' x = Some l" using that l(3) by (simp add: link_share_def)
      then have "x \<in> nd_abs (wl_routing_entry l)" by (auto simp: link_for_def find_Some_iff)
      with link_for_least [OF sorted f] show ?thesis by blast
    qed
    with l(1,2) show "\<exists>l \<in> set links'. wl_link_id l = ri_link_id r \<and> (\<forall>x \<in> nd_abs (ri_destinations r).
          x \<in> nd_abs (wl_routing_entry l) \<and>
          (\<forall>l' \<in> set links'. x \<in> nd_abs (wl_routing_entry l') \<longrightarrow> link_key l \<le> link_key l'))" by blast
  qed
  show ?thesis unfolding if_P [OF True]
    by (intro exI [of _ routes] exI [of _ links'] exI [of _ pool'] conjI ballI each r(1,3,4) part(1) union)
qed

text \<open>Two links whose entries overlap; the first in the list is the one of less weight.\<close>

definition example_entry :: "bool list \<Rightarrow> bool list \<Rightarrow> net_dest" where
  "example_entry bs cs = [\<lparr>rs_nSize = 3, rs_bits = bs @ [False]\<rparr>, \<lparr>rs_nSize = 2, rs_bits = cs @ [False, False]\<rparr>]"

lemma example_entry_ok:
  assumes "length bs = 3" and "length cs = 2"
  shows "nd_ok example_machines (example_entry bs cs)"
proof -
  have "rset_abs \<lparr>rs_nSize = 3, rs_bits = bs @ [False]\<rparr> \<subseteq> {..<3}"
    and "rset_abs \<lparr>rs_nSize = 2, rs_bits = cs @ [False, False]\<rparr> \<subseteq> {..<2}"
    using assms by (auto simp: rset_abs_def nth_append nth_Cons' less_Suc_eq split: if_splits)
  with assms example_machines_ok show ?thesis
    by (auto simp: nd_ok_def rset_ok_def example_entry_def example_machines_def nth_Cons' less_Suc_eq)
qed

definition example_links :: "LinkInfo list" where
  "example_links =
    [\<lparr>wl_link_id = 1, wl_routing_entry = example_entry [True, False, False] [False, True],
      wl_out_buffers = [Some 0], wl_order = 0, wl_weight = 1\<rparr>,
     \<lparr>wl_link_id = 0, wl_routing_entry = example_entry [True, False, True] [False, False],
      wl_out_buffers = [Some 1], wl_order = 0, wl_weight = 2\<rparr>]"

lemma example_links_ok: "links_ok example_machines 2 example_links"
  by (auto simp: links_ok_def example_links_def example_entry_ok link_key_def less_eq_prod_def refs_ok_def)

lemma example_links_covered: "covered example_links (example_entry [True, False, True] [False, True])"
proof -
  have "nd_abs (example_entry bs cs) = {(0, i) | i. i < length bs \<and> bs ! i} \<union> {(1, i) | i. i < length cs \<and> cs ! i}"
    for bs cs
    by (auto simp: nd_abs_def example_entry_def rset_abs_def nth_append nth_Cons' less_Suc_eq split: if_splits)
  then show ?thesis by (auto simp: covered_def example_links_def less_Suc_eq nth_Cons')
qed

lemma multicast_partition_witness:
  "\<exists>routes links' pool'. wb_route example_machines True 10 (\<lambda>i. 7 - i)
      ((example_message 1)\<lparr>msg_destination := example_entry [True, False, True] [False, True]\<rparr>)
      False example_links [example_buffer, example_buffer] = Inr (routes, links', pool') \<and>
    map ri_link_id routes = [0, 1] \<and>
    (\<Union>r \<in> set routes. nd_abs (ri_destinations r)) = nd_abs (example_entry [True, False, True] [False, True])"
proof -
  let ?m = "(example_message 1)\<lparr>msg_destination := example_entry [True, False, True] [False, True]\<rparr>"
  let ?pool = "[example_buffer, example_buffer]"
  have "case wb_route example_machines True 10 (\<lambda>i. 7 - i) ?m False example_links ?pool of
      Inl e \<Rightarrow> False | Inr (routes, _) \<Rightarrow> map ri_link_id routes = [0, 1]"
    by code_simp
  then obtain routes links' pool' where r:
    "wb_route example_machines True 10 (\<lambda>i. 7 - i) ?m False example_links ?pool = Inr (routes, links', pool')"
    "map ri_link_id routes = [0, 1]" by (auto split: sum.splits)
  have ok: "links_ok example_machines (length ?pool) example_links" using example_links_ok by (simp add: numeral_2_eq_2)
  have d: "nd_ok example_machines (msg_destination ?m)" by (simp add: example_entry_ok)
  have c: "covered example_links (msg_destination ?m)" using example_links_covered by simp
  from multicast_partition [OF ok d, of True 10 "\<lambda>i. 7 - i" False, unfolded if_P [OF c]] r
  show ?thesis by auto
qed

end
