(* ===== verification/SimpleBuffers.thy ===== *)
theory SimpleBuffers
  imports SimpleRouting
begin

text \<open>
  What the switches and the throttles of the simple network share: the calls of a buffer to its
  consumer, collected as effects, what the operations of a message buffer do to a message, which
  buffers accept a message, and loops over code that may not return.
\<close>

section \<open>Effects\<close>

text \<open>
  \<open>Schedule c t v\<close> is \<open>scheduleEventAbsolute(t)\<close> and \<open>storeEventInfo(v)\<close> on the consumer of a
  buffer, which \<open>enqueue\<close> calls one after the other; \<open>Reschedule c n\<close> is \<open>scheduleEvent(n)\<close>;
  \<open>Dequeued c\<close> is the callback of a dequeue.
\<close>

datatype sn_effect =
    Schedule consumer_ref tick int
  | Reschedule consumer_ref cycles
  | Dequeued consumer_ref

fun effect_of :: "MessageBuffer \<Rightarrow> wake_request \<Rightarrow> sn_effect" where
  "effect_of mb (Wake_at c t) = Schedule c t (mb_vnet_id mb)"
| "effect_of mb (Wake_in c n) = Reschedule c n"

section \<open>Loops over code that may not return\<close>

lemma Some_Inl_Inr [simp]: "bindO (Some (Inr x)) f = f x" "bindO (Some (Inl e)) f = failO e"
  by (simp_all add: bindO_def failO_def)

lemma Some_eq_retO [res_simps]: "Some r = retO x \<longleftrightarrow> r = Inr x"
  by (simp add: retO_def)

fun foldO :: "('x \<Rightarrow> 's \<Rightarrow> 's run) \<Rightarrow> 'x list \<Rightarrow> 's \<Rightarrow> 's run" where
  "foldO f [] s = retO s"
| "foldO f (x # xs) s = bindO (f x s) (foldO f xs)"

lemma foldO_invariant:
  assumes "foldO f xs s = retO t" and "P s"
    and "\<And>x s s'. x \<in> set xs \<Longrightarrow> P s \<Longrightarrow> f x s = retO s' \<Longrightarrow> P s'"
  shows "P t"
  using assms
proof (induction xs arbitrary: s)
  case Nil
  then show ?case by simp
next
  case (Cons x xs)
  then obtain s' where s': "f x s = retO s'" "foldO f xs s' = retO t"
    by (auto simp: res_simps)
  have "P s'" using Cons.prems(2,3) s' by (meson list.set_intros(1))
  with Cons.IH [OF s'(2)] Cons.prems(3) show ?case by (meson list.set_intros(2))
qed

lemma foldO_returns:
  assumes "P s" and "\<And>x s. x \<in> set xs \<Longrightarrow> P s \<Longrightarrow> f x s \<noteq> None"
    and "\<And>x s s'. x \<in> set xs \<Longrightarrow> P s \<Longrightarrow> f x s = retO s' \<Longrightarrow> P s'"
  shows "foldO f xs s \<noteq> None"
  using assms
proof (induction xs arbitrary: s)
  case Nil
  then show ?case by (simp add: retO_def)
next
  case (Cons x xs)
  show ?case
  proof (cases "f x s" rule: run_cases)
    case loops
    with Cons.prems(2) [of x s] Cons.prems(1) show ?thesis by simp
  next
    case (fails e)
    then have "foldO f (x # xs) s = failO e" by simp
    then show ?thesis by (simp add: failO_def)
  next
    case (returns s')
    then have "P s'" using Cons.prems(3) [of x s s'] Cons.prems(1) by simp
    then have "foldO f xs s' \<noteq> None"
      using Cons.IH [of s'] Cons.prems(2,3) by (meson list.set_intros(2))
    with returns show ?thesis by simp
  qed
qed

lemma foldO_establish:
  assumes "foldO f xs s = retO t" and "P s"
    and "\<And>x s s'. x \<in> set xs \<Longrightarrow> P s \<Longrightarrow> f x s = retO s' \<Longrightarrow> P s' \<and> R x s' \<and> (\<forall>y. R y s \<longrightarrow> R y s')"
  shows "P t \<and> (\<forall>x \<in> set xs. R x t) \<and> (\<forall>y. R y s \<longrightarrow> R y t)"
  using assms
proof (induction xs arbitrary: s)
  case Nil
  then show ?case by simp
next
  case (Cons x xs)
  then obtain s' where s': "f x s = retO s'" "foldO f xs s' = retO t" by (auto simp: res_simps)
  have x: "P s' \<and> R x s' \<and> (\<forall>y. R y s \<longrightarrow> R y s')" using Cons.prems(3) [of x s s'] Cons.prems(2) s'(1) by simp
  have "P t \<and> (\<forall>x \<in> set xs. R x t) \<and> (\<forall>y. R y s' \<longrightarrow> R y t)"
    by (rule Cons.IH [OF s'(2)]) (use x Cons.prems(3) in auto)
  with x show ?case by auto
qed

lemma foldO_total:
  assumes "P s" and "\<And>x s. x \<in> set xs \<Longrightarrow> P s \<Longrightarrow> \<exists>s'. f x s = retO s' \<and> P s'"
  shows "\<exists>t. foldO f xs s = retO t \<and> P t"
  using assms
proof (induction xs arbitrary: s)
  case Nil
  then show ?case by simp
next
  case (Cons x xs)
  obtain s' where s': "f x s = retO s'" "P s'" using Cons.prems(2) [of x s] Cons.prems(1) by auto
  obtain t where "foldO f xs s' = retO t" "P t" using Cons.IH [OF s'(2)] Cons.prems(2) by auto
  with s' show ?case by simp
qed

text \<open>A loop whose invariant knows what is left to visit.\<close>

lemma foldO_walk:
  assumes "P xs s" and "\<And>x xs s. P (x # xs) s \<Longrightarrow> \<exists>s'. f x s = retO s' \<and> P xs s'"
  shows "\<exists>t. foldO f xs s = retO t \<and> P [] t"
  using assms(1)
proof (induction xs arbitrary: s)
  case Nil
  then show ?case by simp
next
  case (Cons x xs)
  obtain s' where s': "f x s = retO s'" "P xs s'" using assms(2) [OF Cons.prems] by blast
  from Cons.IH [OF s'(2)] s'(1) show ?case by simp
qed

text \<open>A \<open>while\<close> loop: \<open>step\<close> says whether the loop goes on, and the state.\<close>

partial_function (option) repeatO :: "('s \<Rightarrow> (bool \<times> 's) res) \<Rightarrow> 's \<Rightarrow> 's run" where
  "repeatO step s = bindO (Some (step s)) (\<lambda>(again, s'). if again then repeatO step s' else retO s')"

declare repeatO.simps [code]

text \<open>The last turn of a loop that ends normally, with what every turn keeps.\<close>

lemma repeat_exit:
  assumes "repeatO step s = retO t" and "P s"
    and "\<And>s again s'. P s \<Longrightarrow> step s = Inr (again, s') \<Longrightarrow> P s'"
  shows "\<exists>u. P u \<and> step u = Inr (False, t)"
proof -
  let ?C = "\<lambda>f s (r :: 'a res). (\<forall>s again s'. P s \<longrightarrow> f s = Inr (again, s') \<longrightarrow> P s') \<longrightarrow>
    P s \<longrightarrow> (\<forall>t. r = Inr t \<longrightarrow> (\<exists>u. P u \<and> f u = Inr (False, t)))"
  have "?C step s (Inr t)"
  proof (rule repeatO.raw_induct [where P = ?C, rotated])
    show "repeatO step s = Some (Inr t)" using assms(1) by (simp add: retO_def)
  next
    fix loop f s r
    assume hyp: "\<And>f s r. loop f s = Some r \<Longrightarrow> ?C f s r"
      and body: "bindO (Some (f s)) (\<lambda>(again, s'). if again then loop f s' else retO s') = Some r"
    show "?C f s r"
    proof (intro impI allI)
      fix t assume step: "\<forall>s again s'. P s \<longrightarrow> f s = Inr (again, s') \<longrightarrow> P s'" and "P s" and r: "r = Inr t"
      obtain again s' where o: "f s = Inr (again, s')"
        using body r by (cases "f s") (auto simp: failO_def)
      have s': "P s'" using step \<open>P s\<close> o by blast
      show "\<exists>u. P u \<and> f u = Inr (False, t)"
      proof (cases again)
        case True
        then have "loop f s' = Some (Inr t)" using body o r by simp
        from mp [OF mp [OF hyp [OF this] step] s'] show ?thesis by simp
      next
        case False
        then have "f s = Inr (False, t)" using body o r by (simp add: retO_def)
        with \<open>P s\<close> show ?thesis by blast
      qed
    qed
  qed
  then show ?thesis using assms(2,3) by simp
qed

lemma repeat_invariant:
  assumes "repeatO step s = retO t" and "P s"
    and "\<And>s again s'. P s \<Longrightarrow> step s = Inr (again, s') \<Longrightarrow> P s'"
  shows "P t"
proof -
  have "\<exists>u. P u \<and> step u = Inr (False, t)"
    by (rule repeat_exit [where P = P, OF assms(1,2)]) (rule assms(3))
  then obtain u where u: "P u" "step u = Inr (False, t)" by (elim exE conjE)
  show ?thesis by (rule assms(3) [OF u])
qed

lemma repeat_returns:
  fixes f :: "'s \<Rightarrow> nat"
  assumes "P s" and "\<And>s s'. P s \<Longrightarrow> step s = Inr (True, s') \<Longrightarrow> P s' \<and> f s' < f s"
  shows "repeatO step s \<noteq> None"
  using assms(1)
proof (induction "f s" arbitrary: s rule: less_induct)
  case less
  show ?case
  proof (cases "step s")
    case (Inl e)
    then show ?thesis by (simp add: repeatO.simps failO_def)
  next
    case (Inr p)
    obtain again s' where p: "p = (again, s')" by (cases p)
    show ?thesis
    proof (cases again)
      case True
      then have "P s' \<and> f s' < f s" using assms(2) [OF less.prems] Inr p by simp
      then have "repeatO step s' \<noteq> None" using less.hyps by blast
      then show ?thesis using Inr p True by (simp add: repeatO.simps [of step s])
    next
      case False
      then show ?thesis using Inr p by (simp add: repeatO.simps [of step s] retO_def)
    qed
  qed
qed

lemma repeat_total:
  fixes f :: "'s \<Rightarrow> nat"
  assumes "P s" and "\<And>s. P s \<Longrightarrow> \<exists>again s'. step s = Inr (again, s') \<and> P s' \<and> (again \<longrightarrow> f s' < f s)"
  shows "\<exists>t. repeatO step s = retO t \<and> P t"
proof -
  have "repeatO step s \<noteq> None"
  proof (rule repeat_returns [where P = P and f = f, OF assms(1)])
    fix s s' assume "P s" and o: "step s = Inr (True, s')"
    from assms(2) [OF this(1)] o show "P s' \<and> f s' < f s" by auto
  qed
  moreover have "repeatO step s \<noteq> Some (Inl e)" for e
  proof
    assume "repeatO step s = Some (Inl e)"
    moreover have "P s \<longrightarrow> r \<noteq> Inl e" if "repeatO step s = Some r" for r
    proof -
      let ?C = "\<lambda>g s (r :: 's res). g = step \<longrightarrow> P s \<longrightarrow> r \<noteq> Inl e"
      have "?C step s r"
      proof (rule repeatO.raw_induct [where P = ?C, rotated])
        show "repeatO step s = Some r" by (rule that)
      next
        fix loop g s r
        assume hyp: "\<And>g s r. loop g s = Some r \<Longrightarrow> ?C g s r"
          and body: "bindO (Some (g s)) (\<lambda>(again, s'). if again then loop g s' else retO s') = Some r"
        show "?C g s r"
        proof (intro impI)
          assume g: "g = step" and "P s"
          obtain again s' where o: "step s = Inr (again, s')" "P s'" using assms(2) [OF \<open>P s\<close>] by blast
          show "r \<noteq> Inl e"
          proof (cases again)
            case True
            then have "loop g s' = Some r" using body o(1) g by simp
            with hyp o(2) g show ?thesis by blast
          next
            case False
            then show ?thesis using body o(1) g by (auto simp: retO_def)
          qed
        qed
      qed
      then show ?thesis by simp
    qed
    ultimately show False using assms(1) by blast
  qed
  ultimately obtain t where t: "repeatO step s = retO t" by (cases "repeatO step s" rule: run_cases) (auto simp: failO_def)
  have "P t"
  proof (rule repeat_invariant [where P = P, OF t assms(1)])
    fix s again s' assume "P s" "step s = Inr (again, s')"
    with assms(2) [of s] show "P s'" by auto
  qed
  with t show ?thesis by blast
qed

section \<open>What the buffers do to a message\<close>

lemma mb_dequeue_message:
  assumes "mb_dequeue tk now dec mb = Inr (d, m', mb')"
  shows "\<exists>m. mb_prio_heap mb = m # mb_prio_heap mb' \<and> msg_LastEnqueueTime m \<le> now \<and>
    m' = m\<lparr>msg_DelayedTicks := msg_DelayedTicks m + (now - msg_LastEnqueueTime m)\<rparr> \<and>
    stalled_msgs mb' = stalled_msgs mb \<and> mb_consumer mb' = mb_consumer mb"
proof -
  from assms obtain reqs where r: "mb_isReady now mb = Inr (True, reqs)"
    unfolding mb_dequeue_def by (elim bindR_InrE case_prod_InrE guardR_InrE) auto
  then obtain m ms where m: "mb_prio_heap mb = m # ms" "msg_LastEnqueueTime m \<le> now"
    by (rule mb_isReady_True)
  have u: "updateDelayedTicks now m = Inr (m\<lparr>msg_DelayedTicks := msg_DelayedTicks m + (now - msg_LastEnqueueTime m)\<rparr>)"
    using m(2) by (simp add: updateDelayedTicks_def)
  have p: "heap_pop (mb_prio_heap mb) = Inr (m, ms)" using m(1) by (simp add: heap_pop_def)
  show ?thesis
    using assms r u p m unfolding mb_dequeue_def Let_def
    by (intro exI [of _ m]) (auto simp: stalled_msgs_def split: if_splits)
qed

lemma enqueue_insert_message:
  assumes "enqueue_insert now arrival (Some m) mb = Inr (mb', reqs)"
  shows "\<exists>c. mb_consumer mb = Some c \<and> reqs = [Wake_at c arrival] \<and> msg_LastEnqueueTime m \<le> now \<and>
    mb' = mb\<lparr>mb_prio_heap := heap_push (m\<lparr>msg_DelayedTicks := msg_DelayedTicks m + (now - msg_LastEnqueueTime m),
      msg_LastEnqueueTime := arrival, msg_msg_counter := mb_msg_counter mb\<rparr>) (mb_prio_heap mb),
      mb_buf_msgs := mb_buf_msgs mb + 1\<rparr>"
proof -
  have le: "msg_LastEnqueueTime m \<le> now" using assms unfolding enqueue_insert_def by (auto elim: guardR_InrE)
  then have u: "updateDelayedTicks now m = Inr (m\<lparr>msg_DelayedTicks := msg_DelayedTicks m + (now - msg_LastEnqueueTime m)\<rparr>)"
    by (simp add: updateDelayedTicks_def)
  obtain c where "mb_consumer mb = Some c"
    using assms le u unfolding enqueue_insert_def Let_def by (cases "mb_consumer mb") (auto elim!: guardR_InrE)
  then show ?thesis using assms le u unfolding enqueue_insert_def Let_def by (auto elim!: guardR_InrE)
qed

lemma mb_enqueue_message:
  assumes "mb_enqueue rs now delta rt byp (Some m) mb = Inr (mb', reqs)"
  shows "\<exists>c arrival. mb_consumer mb = Some c \<and> reqs = [Wake_at c arrival] \<and> msg_LastEnqueueTime m \<le> now \<and>
    mb_prio_heap mb' = heap_push (m\<lparr>msg_DelayedTicks := msg_DelayedTicks m + (now - msg_LastEnqueueTime m),
      msg_LastEnqueueTime := arrival, msg_msg_counter := mb_msg_counter mb + 1\<rparr>) (mb_prio_heap mb) \<and>
    stalled_msgs mb' = stalled_msgs mb \<and> mb_consumer mb' = mb_consumer mb \<and> mb_vnet_id mb' = mb_vnet_id mb"
proof -
  obtain arrival mb2 where a: "enqueue_arrival rs now delta rt (enqueue_count now mb) = (arrival, mb2)"
    by (cases "enqueue_arrival rs now delta rt (enqueue_count now mb)")
  obtain l where l: "mb2 = (enqueue_count now mb)\<lparr>mb_last_arrival_time := l\<rparr>"
    using enqueue_arrival_frame [OF a] by blast
  have "\<exists>last. enqueue_insert now arrival (Some m) ((enqueue_count now mb)\<lparr>mb_last_arrival_time := last,
      mb_last_message_strict_fifo_bypassed := byp\<rparr>) = Inr (mb', reqs)"
    using assms unfolding mb_enqueue_def a l by (auto elim!: guardR_InrE)
  then obtain last where "enqueue_insert now arrival (Some m) ((enqueue_count now mb)\<lparr>mb_last_arrival_time := last,
      mb_last_message_strict_fifo_bypassed := byp\<rparr>) = Inr (mb', reqs)" ..
  from enqueue_insert_message [OF this] show ?thesis
    by (auto simp: enqueue_count_eq stalled_msgs_def)
qed

text \<open>The parts of a buffer that questions about its size and its room change.\<close>

definition buf_frame :: "MessageBuffer \<Rightarrow> MessageBuffer \<Rightarrow> bool" where
  "buf_frame a b \<longleftrightarrow> (\<exists>t n k. b = a\<lparr>mb_time_last_time_size_checked := t,
     mb_size_last_time_size_checked := n, mb_not_avail_count := k\<rparr>)"

definition pool_frame :: "pool \<Rightarrow> pool \<Rightarrow> bool" where
  "pool_frame = list_all2 buf_frame"

lemma buf_frame_refl [simp]: "buf_frame a a"
  unfolding buf_frame_def
  by (intro exI [of _ "mb_time_last_time_size_checked a"] exI [of _ "mb_size_last_time_size_checked a"]
    exI [of _ "mb_not_avail_count a"]) simp

lemma buf_frame_intro: "b = a\<lparr>mb_time_last_time_size_checked := t,
     mb_size_last_time_size_checked := n, mb_not_avail_count := k\<rparr> \<Longrightarrow> buf_frame a b"
  unfolding buf_frame_def by (intro exI)

lemma buf_frame_trans: "buf_frame a b \<Longrightarrow> buf_frame b c \<Longrightarrow> buf_frame a c"
  unfolding buf_frame_def by (elim exE) (intro exI, simp)

lemma buf_frame_same:
  assumes "buf_frame a b"
  shows "mb_prio_heap b = mb_prio_heap a" "stalled_msgs b = stalled_msgs a" "mb_consumer b = mb_consumer a"
    "mb_vnet_id b = mb_vnet_id a" "mb_isReady t b = mb_isReady t a" "mb_ok t b = mb_ok t a"
  using assms unfolding buf_frame_def
  by (auto simp: stalled_msgs_def mb_isReady_def mb_ok_def mb_total_def mb_visible_size_def Let_def
      simp del: de_Morgan_conj not_le)

lemma pool_frame_refl [simp]: "pool_frame p p"
  unfolding pool_frame_def by (rule list_all2_refl) simp

lemma pool_frame_trans: "pool_frame p q \<Longrightarrow> pool_frame q r \<Longrightarrow> pool_frame p r"
  unfolding pool_frame_def by (rule list_all2_trans [OF buf_frame_trans])

lemma pool_frame_length: "pool_frame p q \<Longrightarrow> length q = length p"
  by (simp add: pool_frame_def list_all2_lengthD)

lemma pool_frame_nth: "pool_frame p q \<Longrightarrow> i < length p \<Longrightarrow> buf_frame (p ! i) (q ! i)"
  by (simp add: pool_frame_def list_all2_nthD)

lemma pool_frame_update: "i < length p \<Longrightarrow> buf_frame (p ! i) b \<Longrightarrow> pool_frame p (p[i := b])"
  unfolding pool_frame_def by (auto simp: list_all2_conv_all_nth nth_list_update)

lemma pool_seen_frame: "pool_seen now p q \<Longrightarrow> pool_frame p q"
proof -
  have "buf_frame a b" if "buf_seen now a b" for a b
  proof (cases "b = a")
    case False
    with that have "b = snd (mb_getSize now a)" by (simp add: buf_seen_def)
    then show ?thesis using False
      by (intro buf_frame_intro [where t = now and n = "length (mb_prio_heap a)" and k = "mb_not_avail_count a"])
        (auto simp: mb_getSize_def Let_def split: if_splits)
  qed simp
  then show "pool_seen now p q \<Longrightarrow> pool_frame p q"
    unfolding pool_seen_def pool_frame_def by (elim list_all2_mono)
qed

lemma areNSlots_buf_frame: "areNSlotsAvailable n now mb = (free, mb') \<Longrightarrow> buf_frame mb mb'"
proof -
  assume "areNSlotsAvailable n now mb = (free, mb')"
  then obtain k where "mb' = mb\<lparr>mb_not_avail_count := k\<rparr>" using areNSlots_frame by blast
  then show ?thesis unfolding buf_frame_def
    by (intro exI [of _ "mb_time_last_time_size_checked mb"] exI [of _ "mb_size_last_time_size_checked mb"]
      exI [of _ k]) simp
qed

lemma deref_buf_Inr [res_simps]: "deref_buf b pool = Inr (i, mb) \<longleftrightarrow> b = Some i \<and> i < length pool \<and> mb = pool ! i"
  by (auto simp: deref_buf_def nthR_def split: option.splits)

lemma mset_heap_push [simp]: "mset (heap_push m h) = add_mset m (mset h)"
  by (simp add: heap_push_def)

lemma set_heap_push [simp]: "set (heap_push m h) = insert m (set h)"
  by (simp add: heap_push_def set_insort_key)

section \<open>Buffers that accept a message\<close>

definition out_buf_ok :: "tick \<Rightarrow> tick \<Rightarrow> MessageBuffer \<Rightarrow> bool" where
  "out_buf_ok now latency mb \<longleftrightarrow> mb_ok now mb \<and> mb_consumer mb \<noteq> None \<and>
    mb_randomization mb = Rand_disabled \<and> (latency = 0 \<longrightarrow> mb_allow_zero_latency mb) \<and>
    (mb_strict_fifo mb \<longrightarrow> mb_last_arrival_time mb \<le> now + latency)"

definition has_slot :: "tick \<Rightarrow> MessageBuffer \<Rightarrow> bool" where
  "has_slot now mb \<longleftrightarrow> fst (areNSlotsAvailable 1 now mb)"

lemma has_slot_iff: "has_slot now mb \<longleftrightarrow> mb_max_size mb = 0 \<or> mb_visible_size now mb + 1 \<le> int (mb_max_size mb)"
  by (simp add: has_slot_def areNSlotsAvailable_def)

lemma buf_frame_live:
  assumes "buf_frame a b"
  shows "out_buf_ok now latency b = out_buf_ok now latency a" "has_slot now b = has_slot now a"
    "mb_time_last_time_pop b = mb_time_last_time_pop a"
proof -
  have "mb_max_size b = mb_max_size a" "mb_visible_size now b = mb_visible_size now a"
    using assms unfolding buf_frame_def mb_visible_size_def by auto
  then show "has_slot now b = has_slot now a" by (simp add: has_slot_iff)
  have "mb_randomization b = mb_randomization a" "mb_allow_zero_latency b = mb_allow_zero_latency a"
    "mb_strict_fifo b = mb_strict_fifo a" "mb_last_arrival_time b = mb_last_arrival_time a"
    using assms unfolding buf_frame_def by auto
  then show "out_buf_ok now latency b = out_buf_ok now latency a"
    by (simp add: out_buf_ok_def buf_frame_same [OF assms])
  show "mb_time_last_time_pop b = mb_time_last_time_pop a" using assms unfolding buf_frame_def by auto
qed

lemma mb_enqueue_succeeds:
  assumes ok: "out_buf_ok now latency mb" and slot: "has_slot now mb"
    and le: "msg_LastEnqueueTime m \<le> now"
  shows "\<exists>mb' reqs. mb_enqueue rs now latency rt False (Some m) mb = Inr (mb', reqs) \<and> out_buf_ok now latency mb'"
proof -
  let ?c = "enqueue_count now mb"
  obtain c where c: "mb_consumer mb = Some c" using ok by (auto simp: out_buf_ok_def)
  have arr: "enqueue_arrival rs now latency rt ?c = (now + latency, ?c)"
    using ok by (simp add: enqueue_arrival_def out_buf_ok_def enqueue_count_eq)
  have room: "mb_max_size mb = 0 \<or> mb_total mb + 1 \<le> int (mb_max_size mb)"
    using slot mb_ok_visible [of now mb] ok by (auto simp: has_slot_iff out_buf_ok_def)
  let ?last = "if \<not> rs_warmup_enabled rs then now + latency else mb_last_arrival_time ?c"
  let ?mb = "?c\<lparr>mb_last_arrival_time := ?last, mb_last_message_strict_fifo_bypassed := False\<rparr>"
  have u: "updateDelayedTicks now m = Inr (m\<lparr>msg_DelayedTicks := msg_DelayedTicks m + (now - msg_LastEnqueueTime m)\<rparr>)"
    using le by (simp add: updateDelayedTicks_def)
  have "mb_max_size mb = 0 \<or> int (Suc (length (mb_prio_heap mb))) + mb_stall_map_size mb \<le> int (mb_max_size mb)"
    using room by (elim disjE) (simp_all add: mb_total_def)
  then have "\<exists>mb' reqs. enqueue_insert now (now + latency) (Some m) ?mb = Inr (mb', reqs)"
    using le u c by (auto simp: enqueue_insert_def Let_def guardR_def enqueue_count_eq)
  then obtain mb' reqs where ins: "enqueue_insert now (now + latency) (Some m) ?mb = Inr (mb', reqs)" by blast
  have fifo: "mb_strict_fifo mb \<longrightarrow> mb_last_arrival_time ?c \<le> now + latency"
    using ok by (simp add: out_buf_ok_def enqueue_count_eq)
  have enq: "mb_enqueue rs now latency rt False (Some m) mb = Inr (mb', reqs)"
    using ok fifo ins unfolding mb_enqueue_def arr by (auto simp: guardR_def out_buf_ok_def)
  have "mb_ok now mb'" using mb_enqueue_ok [OF _ enq] ok by (simp add: out_buf_ok_def)
  moreover have "mb_consumer mb' = Some c" using mb_enqueue_message [OF enq] c by auto
  moreover have "mb_randomization mb' = Rand_disabled \<and> mb_allow_zero_latency mb' = mb_allow_zero_latency mb \<and>
      (mb_strict_fifo mb' \<longrightarrow> mb_last_arrival_time mb' \<le> now + latency)"
    using enqueue_insert_message [OF ins] ok by (auto simp: out_buf_ok_def enqueue_count_eq)
  ultimately show ?thesis using enq ok by (auto simp: out_buf_ok_def)
qed

lemma mb_isReady_total:
  assumes "mb_time_last_time_pop mb \<le> now" and "mb_consumer mb = Some c"
  shows "\<exists>ready reqs. mb_isReady now mb = Inr (ready, reqs)"
  using assms by (auto simp: mb_isReady_def Let_def guardR_def)

lemma mb_dequeue_succeeds:
  assumes "mb_isReady now mb = Inr (True, reqs)"
  shows "\<exists>d m mb'. mb_dequeue tk now True mb = Inr (d, m, mb') \<and> mb_time_last_time_pop mb' \<le> now"
proof -
  obtain m ms where m: "mb_prio_heap mb = m # ms" "msg_LastEnqueueTime m \<le> now" "mb_time_last_time_pop mb \<le> now"
    using assms by (rule mb_isReady_True)
  then show ?thesis
    using assms by (simp add: mb_dequeue_def heap_pop_def updateDelayedTicks_def Let_def)
qed

end
