(* ===== verification/Throttle.thy ===== *)
theory Throttle
  imports Complex_Main SimpleBuffers Network
begin

text \<open>
  \<open>Throttle\<close> (\<open>simple/Throttle.hh\<close>, \<open>Throttle.cc\<close>): the end of an output port of a switch of the
  simple network. It moves messages from the intermediate buffers to the buffers of the link and
  spends bandwidth on them: a message enters the link at once, and the channel is then busy
  until its size is paid for. The statistics that the code keeps as floating point numbers are
  whole and rational numbers here.
\<close>

section \<open>State\<close>

record Throttle =
  th_in :: "buf_ref list"
  th_out :: "buf_ref list"
  th_vnets :: nat
  th_units_remaining :: "int list list"
  th_switch_id :: nat
  th_node :: nat
  th_physical_vnets :: bool
  th_link_bandwidth_multiplier :: "int list"
  th_vnet_channels :: "int list"
  th_link_latency :: cycles
  th_wakeups_wo_switch :: int
  th_endpoint_bandwidth :: int
  th_acc_link_utilization :: rat
  th_msg_counts :: "MessageSizeType \<Rightarrow> nat \<Rightarrow> nat"
  th_total_msg_count :: nat
  th_total_msg_bytes :: int
  th_total_data_msg_bytes :: int
  th_total_msg_wait_time :: int
  th_total_stall_cy :: nat
  th_total_bw_sat_cy :: nat

definition MESSAGE_SIZE_MULTIPLIER :: int where
  "MESSAGE_SIZE_MULTIPLIER = 1000"

definition BROADCAST_SCALING :: int where
  "BROADCAST_SCALING = 1"

definition THROTTLE_SWITCH_LIMIT :: int where
  "THROTTLE_SWITCH_LIMIT = 128"

definition Throttle_base :: "nat \<Rightarrow> nat \<Rightarrow> cycles \<Rightarrow> int \<Rightarrow> Throttle" where
  "Throttle_base sID node link_latency endpoint_bandwidth =
    \<lparr>th_in = [], th_out = [], th_vnets = 0, th_units_remaining = [], th_switch_id = sID, th_node = node,
     th_physical_vnets = False, th_link_bandwidth_multiplier = [], th_vnet_channels = [],
     th_link_latency = link_latency, th_wakeups_wo_switch = 0, th_endpoint_bandwidth = endpoint_bandwidth,
     th_acc_link_utilization = 0, th_msg_counts = (\<lambda>ty v. 0), th_total_msg_count = 0, th_total_msg_bytes = 0,
     th_total_data_msg_bytes = 0, th_total_msg_wait_time = 0, th_total_stall_cy = 0, th_total_bw_sat_cy = 0\<rparr>"

definition Throttle_new :: "nat \<Rightarrow> nat \<Rightarrow> cycles \<Rightarrow> int \<Rightarrow> int \<Rightarrow> Throttle res" where
  "Throttle_new sID node link_latency link_bandwidth_multiplier endpoint_bandwidth =
    guardR (link_bandwidth_multiplier > 0) (Assert_failed ''link_bandwidth_multiplier > 0'')
    (Inr ((Throttle_base sID node link_latency endpoint_bandwidth)
      \<lparr>th_link_bandwidth_multiplier := [link_bandwidth_multiplier]\<rparr>))"

definition Throttle_new_physical ::
    "nat \<Rightarrow> nat \<Rightarrow> cycles \<Rightarrow> int list \<Rightarrow> int list \<Rightarrow> int \<Rightarrow> Throttle res" where
  "Throttle_new_physical sID node link_latency vnet_channels vnet_bandwidth_multiplier endpoint_bandwidth =
    guardR (\<forall>m \<in> set vnet_bandwidth_multiplier. m > 0) (Assert_failed ''link_bandwidth_multiplier > 0'')
    (guardR (\<forall>c \<in> set vnet_channels. c > 0) (Assert_failed ''channels > 0'')
    (guardR (length vnet_bandwidth_multiplier = length vnet_channels)
      (Assert_failed ''m_link_bandwidth_multiplier.size() == m_vnet_channels.size()'')
    (Inr ((Throttle_base sID node link_latency endpoint_bandwidth)
      \<lparr>th_physical_vnets := True, th_link_bandwidth_multiplier := vnet_bandwidth_multiplier,
       th_vnet_channels := vnet_channels\<rparr>))))"

definition getChannelCnt :: "nat \<Rightarrow> Throttle \<Rightarrow> int res" where
  "getChannelCnt vnet th = (if th_physical_vnets th then nthR (th_vnet_channels th) (int vnet) else Inr 1)"

text \<open>One turn of \<open>addLinks\<close>: the intermediate buffer gets the throttle as its consumer.\<close>

definition connect_link ::
    "nat \<times> buf_ref \<times> buf_ref \<Rightarrow> Throttle \<times> pool \<Rightarrow> (Throttle \<times> pool) res" where
  "connect_link = (\<lambda>(vnet, in_ptr, out_ptr) (th, pool).
    bindR (getChannelCnt vnet th) (\<lambda>channels.
    bindR (deref_buf in_ptr pool) (\<lambda>(i, mb).
    bindR (mb_setConsumer (Throttle_consumer (th_switch_id th) (th_node th)) mb) (\<lambda>mb'.
    Inr (th\<lparr>th_units_remaining := th_units_remaining th @ [replicate (nat channels) 0],
            th_in := th_in th @ [in_ptr], th_out := th_out th @ [out_ptr]\<rparr>, pool[i := mb'])))))"

definition addLinks :: "buf_ref list \<Rightarrow> buf_ref list \<Rightarrow> Throttle \<times> pool \<Rightarrow> (Throttle \<times> pool) res" where
  "addLinks in_vec out_vec s =
    guardR (length in_vec = length out_vec) (Assert_failed ''in_vec.size() == out_vec.size()'')
    (bindR (foldR connect_link (enumerate 0 (zip in_vec out_vec)) s) (\<lambda>(th, pool).
     let th' = th\<lparr>th_vnets := length in_vec\<rparr> in
     guardR (if th_physical_vnets th' then length (th_link_bandwidth_multiplier th') = th_vnets th'
             else length (th_link_bandwidth_multiplier th') = 1)
       (Assert_failed ''m_link_bandwidth_multiplier.size()'') (Inr (th', pool))))"

section \<open>Bandwidth\<close>

definition getLinkBandwidth :: "nat \<Rightarrow> Throttle \<Rightarrow> int res" where
  "getLinkBandwidth vnet th =
    bindR (nthR (th_link_bandwidth_multiplier th) (if th_physical_vnets th then int vnet else 0)) (\<lambda>bw.
    guardR (bw > 0) (Assert_failed ''bw > 0'') (Inr (th_endpoint_bandwidth th * bw)))"

definition vnet_bandwidth :: "nat \<Rightarrow> Throttle \<Rightarrow> int res" where
  "vnet_bandwidth vnet th =
    bindR (getLinkBandwidth vnet th) (\<lambda>bw. bindR (getChannelCnt vnet th) (\<lambda>channels. Inr (bw * channels)))"

definition getTotalLinkBandwidth :: "Throttle \<Rightarrow> int res" where
  "getTotalLinkBandwidth th =
    bindR (vnet_bandwidth 0 th) (\<lambda>sum.
    if th_physical_vnets th
    then foldR (\<lambda>i sum. bindR (vnet_bandwidth i th) (\<lambda>b. Inr (sum + b))) [1..<th_vnets th] sum
    else Inr sum)"

definition network_message_to_size :: "'r Network \<Rightarrow> Message \<Rightarrow> int" where
  "network_message_to_size nw msg =
    (let size = MessageSizeType_to_int (msg_size_type msg) nw * MESSAGE_SIZE_MULTIPLIER
     in if BROADCAST_SCALING > 1 \<and> nd_isBroadcast (msg_destination msg) then size * BROADCAST_SCALING else size)"

section \<open>Moving messages\<close>

text \<open>
  What a throttle reads of its surroundings: the flags of \<open>RubySystem\<close>, \<open>curTick()\<close>,
  \<open>clockEdge()\<close>, the clock period of the switch, the message sizes of the network, and the values
  of \<open>random_time()\<close>.
\<close>

record 'r throttle_env =
  te_flags :: ruby_flags
  te_tick :: tick
  te_now :: tick
  te_period :: tick
  te_network :: "'r Network"
  te_rt :: "nat \<Rightarrow> tick"

record throttle_state =
  ts_th :: Throttle
  ts_pool :: pool
  ts_draws :: nat
  ts_effects :: "sn_effect list"

definition units_at :: "nat \<Rightarrow> nat \<Rightarrow> throttle_state \<Rightarrow> int res" where
  "units_at vnet channel st =
    bindR (nthR (th_units_remaining (ts_th st)) (int vnet)) (\<lambda>us. nthR us (int channel))"

definition set_units :: "nat \<Rightarrow> nat \<Rightarrow> int \<Rightarrow> throttle_state \<Rightarrow> throttle_state" where
  "set_units vnet channel n st =
    st\<lparr>ts_th := (ts_th st)\<lparr>th_units_remaining :=
      (th_units_remaining (ts_th st))[vnet := (th_units_remaining (ts_th st) ! vnet)[channel := n]]\<rparr>\<rparr>"

definition buffer_ready :: "'r throttle_env \<Rightarrow> nat \<Rightarrow> throttle_state \<Rightarrow> (bool \<times> throttle_state) res" where
  "buffer_ready env i st =
    bindR (deref_buf (Some i) (ts_pool st)) (\<lambda>(_, mb).
    bindR (mb_isReady (te_now env) mb) (\<lambda>(ready, reqs).
    Inr (ready, st\<lparr>ts_effects := ts_effects st @ map (effect_of mb) reqs\<rparr>)))"

definition buffer_free :: "'r throttle_env \<Rightarrow> nat \<Rightarrow> throttle_state \<Rightarrow> (bool \<times> throttle_state) res" where
  "buffer_free env i st =
    bindR (deref_buf (Some i) (ts_pool st)) (\<lambda>(_, mb).
    case areNSlotsAvailable 1 (te_now env) mb of (free, mb') \<Rightarrow> Inr (free, st\<lparr>ts_pool := (ts_pool st)[i := mb']\<rparr>))"

definition count_message :: "'r throttle_env \<Rightarrow> nat \<Rightarrow> Message \<Rightarrow> tick \<Rightarrow> Throttle \<Rightarrow> Throttle" where
  "count_message env vnet msg msg_enqueue_time th =
    (let ty = msg_size_type msg;
         total_size = MessageSizeType_to_int ty (te_network env);
         data_size = (total_size - MessageSizeType_to_int MessageSizeType_Control (te_network env)) mod 2 ^ 32
     in th\<lparr>th_msg_counts := (th_msg_counts th)(ty := (th_msg_counts th ty)(vnet := th_msg_counts th ty vnet + 1)),
           th_total_msg_count := th_total_msg_count th + 1,
           th_total_msg_bytes := th_total_msg_bytes th + total_size,
           th_total_data_msg_bytes := th_total_data_msg_bytes th + data_size,
           th_total_msg_wait_time := th_total_msg_wait_time th + int (te_now env) - int msg_enqueue_time\<rparr>)"

text \<open>The body of the loop when the channel is idle and a message is ready.\<close>

definition move_message :: "'r throttle_env \<Rightarrow> nat \<Rightarrow> nat \<Rightarrow> nat \<Rightarrow> nat \<Rightarrow> throttle_state \<Rightarrow> throttle_state res" where
  "move_message env vnet channel i out st =
    bindR (deref_buf (Some i) (ts_pool st)) (\<lambda>(_, in_mb).
    bindR (mb_peek in_mb) (\<lambda>msg.
    let st1 = set_units vnet channel (network_message_to_size (te_network env) msg) st in
    bindR (mb_dequeue (te_tick env) (te_now env) True in_mb) (\<lambda>((delay, callback), msg', in_mb').
    let st2 = st1\<lparr>ts_pool := (ts_pool st1)[i := in_mb'],
                  ts_effects := ts_effects st1 @ (case callback of None \<Rightarrow> [] | Some c \<Rightarrow> [Dequeued c])\<rparr> in
    bindR (deref_buf (Some out) (ts_pool st2)) (\<lambda>(_, out_mb).
    bindR (mb_enqueue (te_flags env) (te_now env) (te_period env * th_link_latency (ts_th st2)) (te_rt env (ts_draws st2))
             False (Some msg') out_mb) (\<lambda>(out_mb', reqs).
    Inr (st2\<lparr>ts_pool := (ts_pool st2)[out := out_mb'], ts_draws := ts_draws st2 + 1,
             ts_effects := ts_effects st2 @ map (effect_of out_mb) reqs,
             ts_th := count_message env vnet msg (msg_LastEnqueueTime msg) (ts_th st2)\<rparr>))))))"

text \<open>\<open>hasPendingWork\<close>.\<close>

definition pending_work ::
    "'r throttle_env \<Rightarrow> nat \<Rightarrow> nat \<Rightarrow> nat \<Rightarrow> throttle_state \<Rightarrow> (bool \<times> throttle_state) res" where
  "pending_work env vnet channel i st =
    bindR (buffer_ready env i st) (\<lambda>(ready, st1).
    bindR (units_at vnet channel st1) (\<lambda>units. Inr (ready \<or> units > 0, st1)))"

text \<open>One turn: whether the loop goes on, \<open>bw_remaining\<close>, \<open>total_bw_remaining\<close> and the state.\<close>

definition throttle_turn ::
    "'r throttle_env \<Rightarrow> nat \<Rightarrow> nat \<Rightarrow> nat \<Rightarrow> nat \<Rightarrow> int \<times> int \<times> throttle_state \<Rightarrow> (bool \<times> int \<times> int \<times> throttle_state) res" where
  "throttle_turn env vnet channel i out = (\<lambda>(bw, total, st).
    if \<not> bw > 0 then Inr (False, bw, total, st)
    else bindR (pending_work env vnet channel i st) (\<lambda>(work, st1).
    if \<not> work then Inr (False, bw, total, st1)
    else bindR (buffer_free env out st1) (\<lambda>(free, st2).
    if \<not> free then Inr (False, bw, total, st2)
    else bindR (units_at vnet channel st2) (\<lambda>units.
      bindR (if units = 0 then buffer_ready env i st2 else Inr (False, st2)) (\<lambda>(ready, st3).
      bindR (if ready then move_message env vnet channel i out st3 else Inr st3) (\<lambda>st4.
      bindR (units_at vnet channel st4) (\<lambda>units'.
      let spent = min units' bw in
      Inr (True, bw - spent, total - spent, set_units vnet channel (units' - spent) st4))))))))"

definition throttle_loop ::
    "'r throttle_env \<Rightarrow> nat \<Rightarrow> nat \<Rightarrow> nat \<Rightarrow> nat \<Rightarrow> int \<times> int \<times> throttle_state \<Rightarrow> (int \<times> int \<times> throttle_state) run" where
  "throttle_loop env vnet channel i out s = repeatO (throttle_turn env vnet channel i out) s"

text \<open>After the loop: the asserts, and what the caller is told.\<close>

definition throttle_report ::
    "'r throttle_env \<Rightarrow> nat \<Rightarrow> nat \<Rightarrow> nat \<Rightarrow> nat \<Rightarrow> int \<times> int \<times> throttle_state \<Rightarrow> bool \<times> bool
     \<Rightarrow> (int \<times> bool \<times> bool \<times> throttle_state) res" where
  "throttle_report env vnet channel i out = (\<lambda>(bw, total, st) (bw_saturated, output_blocked).
    bindR (units_at vnet channel st) (\<lambda>units.
    guardR (units \<ge> 0) (Assert_failed ''units_remaining >= 0'')
    (guardR (bw \<ge> 0) (Assert_failed ''bw_remaining >= 0'')
    (guardR (total \<ge> 0) (Assert_failed ''total_bw_remaining >= 0'')
    (bindR (pending_work env vnet channel i st) (\<lambda>(work, st1).
     if \<not> work then Inr (total, bw_saturated, output_blocked, st1)
     else bindR (if bw = 0 then Inr (False, st1) else buffer_free env out st1) (\<lambda>(free, st2).
       guardR (bw = 0 \<or> \<not> free) (Assert_failed ''bw_remaining == 0 || !out->areNSlotsAvailable'')
       (bindR (if output_blocked then Inr (True, st2) else buffer_free env out st2) (\<lambda>(free', st3).
        Inr (total, bw_saturated \<or> bw = 0, output_blocked \<or> \<not> free', st3))))))))))"

definition th_operateVnet ::
    "'r throttle_env \<Rightarrow> nat \<times> nat \<Rightarrow> int \<times> bool \<times> bool \<times> throttle_state \<Rightarrow> (int \<times> bool \<times> bool \<times> throttle_state) run" where
  "th_operateVnet env = (\<lambda>(vnet, channel) (total, bw_saturated, output_blocked, st).
    bindO (Some (nthR (th_in (ts_th st)) (int vnet))) (\<lambda>in_ptr.
    bindO (Some (nthR (th_out (ts_th st)) (int vnet))) (\<lambda>out_ptr.
    case (in_ptr, out_ptr) of
      (Some i, Some out) \<Rightarrow>
        bindO (Some (units_at vnet channel st)) (\<lambda>units.
        guardO (units \<ge> 0) (Assert_failed ''units_remaining >= 0'')
        (bindO (Some (if th_physical_vnets (ts_th st) then getLinkBandwidth vnet (ts_th st) else Inr total)) (\<lambda>bw.
         bindO (throttle_loop env vnet channel i out (bw, total, st)) (\<lambda>s.
         Some (throttle_report env vnet channel i out s (bw_saturated, output_blocked))))))
    | _ \<Rightarrow> retO (total, bw_saturated, output_blocked, st))))"

text \<open>The channels in the order they are visited; the number of channels may be an error.\<close>

definition th_channels :: "bool \<Rightarrow> Throttle \<Rightarrow> (nat \<times> nat) list res" where
  "th_channels iteration_direction th =
    foldR (\<lambda>vnet cs. bindR (getChannelCnt vnet th) (\<lambda>n. Inr (cs @ map (Pair vnet) [0..<nat n])))
      (if iteration_direction then [0..<th_vnets th] else rev [0..<th_vnets th]) []"

definition th_wakeup :: "'r throttle_env \<Rightarrow> throttle_state \<Rightarrow> throttle_state run" where
  "th_wakeup env st =
    bindO (Some (getTotalLinkBandwidth (ts_th st))) (\<lambda>bw.
    guardO (bw > 0) (Assert_failed ''getTotalLinkBandwidth() > 0'')
    (let n = th_wakeups_wo_switch (ts_th st) + 1; inverted = n > THROTTLE_SWITCH_LIMIT;
         st0 = st\<lparr>ts_th := (ts_th st)\<lparr>th_wakeups_wo_switch := (if inverted then 0 else n)\<rparr>\<rparr> in
     bindO (Some (th_channels inverted (ts_th st0))) (\<lambda>channels.
     bindO (foldO (th_operateVnet env) channels (bw, False, False, st0)) (\<lambda>(bw_remaining, bw_saturated, output_blocked, st1).
     let th = ts_th st1;
         th' = th\<lparr>th_acc_link_utilization := th_acc_link_utilization th + (1 - of_int bw_remaining / of_int bw),
                 th_total_bw_sat_cy := th_total_bw_sat_cy th + (if bw_saturated then 1 else 0),
                 th_total_stall_cy := th_total_stall_cy th + (if output_blocked then 1 else 0)\<rparr>
     in retO (st1\<lparr>ts_th := th', ts_effects := ts_effects st1 @
          (if bw_saturated \<or> output_blocked then [Reschedule (Throttle_consumer (th_switch_id th) (th_node th)) 1] else [])\<rparr>)))))"

end
