(* ===== verification/ThrottleBandwidth.thy ===== *)
theory ThrottleBandwidth
  imports Throttle
begin

text \<open>
  What a throttle does with its bandwidth: every message it moves is paid for, unit by unit, by
  the bandwidth of the wakeups, and the unpaid rest is what \<open>m_units_remaining\<close> holds.
\<close>

section \<open>Units\<close>

definition units_total :: "Throttle \<Rightarrow> int" where
  "units_total th = (\<Sum>us\<leftarrow>th_units_remaining th. sum_list us)"

definition units_nonneg :: "Throttle \<Rightarrow> bool" where
  "units_nonneg th \<longleftrightarrow> (\<forall>us \<in> set (th_units_remaining th). \<forall>n \<in> set us. 0 \<le> n)"

lemma units_at_Inr [res_simps]:
  "units_at vnet channel st = Inr n \<longleftrightarrow> vnet < length (th_units_remaining (ts_th st)) \<and>
    channel < length (th_units_remaining (ts_th st) ! vnet) \<and> n = th_units_remaining (ts_th st) ! vnet ! channel"
  by (auto simp: units_at_def res_simps)

lemma set_units_simps [simp]:
  "ts_pool (set_units v c n st) = ts_pool st" "ts_effects (set_units v c n st) = ts_effects st"
  "ts_draws (set_units v c n st) = ts_draws st"
  by (simp_all add: set_units_def)

lemma set_units_at:
  assumes "units_at v c st = Inr u"
  shows "units_at v c (set_units v c n st) = Inr n"
    and "units_total (ts_th (set_units v c n st)) = units_total (ts_th st) - u + n"
    and "units_nonneg (ts_th st) \<Longrightarrow> 0 \<le> n \<Longrightarrow> units_nonneg (ts_th (set_units v c n st))"
    and "map length (th_units_remaining (ts_th (set_units v c n st))) = map length (th_units_remaining (ts_th st))"
proof -
  let ?u = "th_units_remaining (ts_th st)"
  have v: "v < length ?u" "c < length (?u ! v)" "u = ?u ! v ! c" using assms by (auto simp: units_at_Inr)
  show "units_at v c (set_units v c n st) = Inr n" using v by (simp add: units_at_Inr set_units_def)
  have "sum_list (map sum_list (?u[v := (?u ! v)[c := n]])) + sum_list (?u ! v) = sum_list (map sum_list ?u) + sum_list ((?u ! v)[c := n])"
    using v(1) by (rule sum_list_update_add)
  moreover have "sum_list ((?u ! v)[c := n]) + ?u ! v ! c = sum_list (?u ! v) + n"
    using sum_list_update_add [OF v(2), of id n] by simp
  ultimately show "units_total (ts_th (set_units v c n st)) = units_total (ts_th st) - u + n"
    using v(3) by (simp add: units_total_def set_units_def)
  show "units_nonneg (ts_th (set_units v c n st))" if "units_nonneg (ts_th st)" "0 \<le> n"
    using that v unfolding units_nonneg_def set_units_def
    by (auto dest!: set_update_subset_insert [THEN subsetD])
  show "map length (th_units_remaining (ts_th (set_units v c n st))) = map length (th_units_remaining (ts_th st))"
    using v by (intro nth_equalityI) (auto simp: set_units_def nth_list_update)
qed

lemma count_message_simps [simp]:
  "th_units_remaining (count_message env v m t th) = th_units_remaining th"
  "th_total_msg_bytes (count_message env v m t th) = th_total_msg_bytes th + MessageSizeType_to_int (msg_size_type m) (te_network env)"
  by (simp_all add: count_message_def Let_def)

text \<open>What the loop leaves as it is.\<close>

definition th_same :: "Throttle \<Rightarrow> Throttle \<Rightarrow> bool" where
  "th_same a b \<longleftrightarrow> th_in b = th_in a \<and> th_out b = th_out a \<and> th_vnets b = th_vnets a \<and> th_switch_id b = th_switch_id a \<and>
    th_node b = th_node a \<and> th_physical_vnets b = th_physical_vnets a \<and>
    th_link_bandwidth_multiplier b = th_link_bandwidth_multiplier a \<and> th_vnet_channels b = th_vnet_channels a \<and>
    th_link_latency b = th_link_latency a \<and> th_endpoint_bandwidth b = th_endpoint_bandwidth a \<and>
    map length (th_units_remaining b) = map length (th_units_remaining a)"

lemma th_same_refl [simp]: "th_same a a"
  by (simp add: th_same_def)

lemma th_same_trans: "th_same a b \<Longrightarrow> th_same b c \<Longrightarrow> th_same a c"
  by (simp add: th_same_def)

lemma th_same_set_units: "units_at v c st = Inr u \<Longrightarrow> th_same (ts_th st) (ts_th (set_units v c n st))"
  using set_units_at(4) [of v c st u n] by (simp add: th_same_def) (simp add: set_units_def)

lemma th_same_count [simp]: "th_same th (count_message env v m t th)"
  by (simp add: th_same_def) (simp add: count_message_def Let_def)

lemma th_same_bandwidth:
  assumes "th_same a b"
  shows "getChannelCnt v b = getChannelCnt v a" "getLinkBandwidth v b = getLinkBandwidth v a"
    "vnet_bandwidth v b = vnet_bandwidth v a" "getTotalLinkBandwidth b = getTotalLinkBandwidth a"
proof -
  show c: "getChannelCnt w b = getChannelCnt w a" for w using assms by (simp add: th_same_def getChannelCnt_def)
  show l: "getLinkBandwidth w b = getLinkBandwidth w a" for w using assms by (simp add: th_same_def getLinkBandwidth_def)
  show "vnet_bandwidth w b = vnet_bandwidth w a" for w by (simp add: vnet_bandwidth_def c l)
  then show "getTotalLinkBandwidth b = getTotalLinkBandwidth a"
    using assms by (simp add: getTotalLinkBandwidth_def th_same_def cong: if_cong)
qed

section \<open>Questions change nothing\<close>

definition asks :: "throttle_state \<Rightarrow> throttle_state \<Rightarrow> bool" where
  "asks a b \<longleftrightarrow> ts_th b = ts_th a \<and> pool_frame (ts_pool a) (ts_pool b) \<and> ts_draws b = ts_draws a \<and>
    (\<exists>es. ts_effects b = ts_effects a @ es)"

lemma asks_refl [simp]: "asks a a"
  by (simp add: asks_def)

lemma asks_trans: "asks a b \<Longrightarrow> asks b c \<Longrightarrow> asks a c"
  unfolding asks_def using pool_frame_trans by fastforce

lemma asks_units: "asks a b \<Longrightarrow> units_at v c b = units_at v c a"
  by (simp add: asks_def units_at_def)

lemma buffer_ready_asks: "buffer_ready env i st = Inr (ready, st') \<Longrightarrow> asks st st'"
  by (auto simp: buffer_ready_def asks_def res_simps)

lemma buffer_free_asks:
  assumes "buffer_free env i st = Inr (free, st')"
  shows "asks st st'"
proof -
  have i: "i < length (ts_pool st)" using assms by (auto simp: buffer_free_def res_simps)
  obtain f mb' where a: "areNSlotsAvailable 1 (te_now env) (ts_pool st ! i) = (f, mb')"
    by (cases "areNSlotsAvailable 1 (te_now env) (ts_pool st ! i)")
  then have "st' = st\<lparr>ts_pool := (ts_pool st)[i := mb']\<rparr>" using assms i by (simp add: buffer_free_def deref_buf_ok)
  then show ?thesis using pool_frame_update [OF i areNSlots_buf_frame [OF a]] by (simp add: asks_def)
qed

lemma buffer_ready_same:
  assumes "asks a b" and "buffer_ready env i a = Inr (r, a')" and "buffer_ready env i b = Inr (r', b')"
  shows "r' = r"
proof -
  have i: "i < length (ts_pool a)" using assms(2) by (auto simp: buffer_ready_def res_simps)
  have frame: "pool_frame (ts_pool a) (ts_pool b)" using assms(1) by (simp add: asks_def)
  have "mb_isReady (te_now env) (ts_pool b ! i) = mb_isReady (te_now env) (ts_pool a ! i)"
    by (rule buf_frame_same(5) [OF pool_frame_nth [OF frame i]])
  moreover obtain reqs where "mb_isReady (te_now env) (ts_pool a ! i) = Inr (r, reqs)"
    using assms(2) by (auto simp: buffer_ready_def res_simps)
  moreover obtain reqs' where "mb_isReady (te_now env) (ts_pool b ! i) = Inr (r', reqs')"
    using assms(3) by (auto simp: buffer_ready_def res_simps)
  ultimately show ?thesis by simp
qed

lemma pending_work_asks:
  "pending_work env v c i st = Inr (work, st') \<Longrightarrow> asks st st'"
  by (auto simp: pending_work_def res_simps dest: buffer_ready_asks)

section \<open>One turn\<close>

lemma move_messageE:
  assumes "move_message env v c i out st = Inr st'"
  obtains msg d in_mb' out_mb' msg' reqs es where "i < length (ts_pool st)" "out < length (ts_pool st)"
    "mb_peek (ts_pool st ! i) = Inr msg"
    "mb_dequeue (te_tick env) (te_now env) True (ts_pool st ! i) = Inr (d, msg', in_mb')"
    "mb_enqueue (te_flags env) (te_now env) (te_period env * th_link_latency (ts_th st)) (te_rt env (ts_draws st)) False
      (Some msg') ((ts_pool st)[i := in_mb'] ! out) = Inr (out_mb', reqs)"
    "ts_pool st' = (ts_pool st)[i := in_mb', out := out_mb']"
    "ts_th st' = count_message env v msg (msg_LastEnqueueTime msg)
      (ts_th (set_units v c (network_message_to_size (te_network env) msg) st))"
    "ts_effects st' = ts_effects st @ es"
  using assms unfolding move_message_def Let_def
  by (auto simp: res_simps set_units_def elim!: bindR_InrE case_prod_InrE)

lemma throttle_turnE:
  assumes "throttle_turn env v c i out (bw, tot, st) = Inr (again, bw', tot', st')"
  obtains (stop) "\<not> again" "bw' = bw" "tot' = tot" "asks st st'"
  | (spend) u st1 where "again" "0 < bw" "asks st st1" "units_at v c st1 = Inr u" "u \<noteq> 0"
      "bw' = bw - min u bw" "tot' = tot - min u bw" "st' = set_units v c (u - min u bw) st1"
  | (moved) st1 st4 s where "again" "0 < bw" "asks st st1" "units_at v c st1 = Inr 0"
      "move_message env v c i out st1 = Inr st4" "units_at v c st4 = Inr s"
      "bw' = bw - min s bw" "tot' = tot - min s bw" "st' = set_units v c (s - min s bw) st4"
proof (cases "0 < bw")
  case False
  with assms show thesis by (intro stop) (auto simp: throttle_turn_def)
next
  case bw: True
  then obtain work st1 where w: "pending_work env v c i st = Inr (work, st1)"
    using assms unfolding throttle_turn_def by (auto elim!: bindR_InrE)
  have a1: "asks st st1" by (rule pending_work_asks [OF w])
  show thesis
  proof (cases work)
    case False
    with assms bw w a1 show thesis by (intro stop) (auto simp: throttle_turn_def)
  next
    case work: True
    then obtain free st2 where f: "buffer_free env out st1 = Inr (free, st2)"
      using assms bw w unfolding throttle_turn_def by (auto elim!: bindR_InrE)
    have a2: "asks st st2" using asks_trans [OF a1 buffer_free_asks [OF f]] .
    show thesis
    proof (cases free)
      case False
      with assms bw w work f a2 show thesis by (intro stop) (auto simp: throttle_turn_def)
    next
      case free: True
      obtain u ready st3 st4 s where t: "units_at v c st2 = Inr u"
        "(if u = 0 then buffer_ready env i st2 else Inr (False, st2)) = Inr (ready, st3)"
        "(if ready then move_message env v c i out st3 else Inr st3) = Inr st4" "units_at v c st4 = Inr s"
        "again" "bw' = bw - min s bw" "tot' = tot - min s bw" "st' = set_units v c (s - min s bw) st4"
        using assms bw w work f free unfolding throttle_turn_def Let_def
        by (auto elim!: bindR_InrE case_prod_InrE simp del: if_split)
      show thesis
      proof (cases "u = 0")
        case False
        with t have "st4 = st2" "s = u" by auto
        with t False a2 bw show thesis by (intro spend [of st2 u]) auto
      next
        case True
        have r2: "buffer_ready env i st2 = Inr (ready, st3)" using t(2) True by simp
        have th1: "ts_th st1 = ts_th st" using a1 by (simp add: asks_def)
        obtain r where r1: "buffer_ready env i st = Inr (r, st1)" "r \<or> 0 < th_units_remaining (ts_th st) ! v ! c"
          using w work th1 by (auto simp: pending_work_def res_simps)
        have "ready = r" by (rule buffer_ready_same [OF a2 r1(1) r2])
        moreover have "th_units_remaining (ts_th st) ! v ! c = 0"
          using t(1) True a2 by (simp add: units_at_Inr asks_def)
        ultimately have "ready" using r1(2) by simp
        have a3: "asks st st3" using asks_trans [OF a2 buffer_ready_asks [OF r2]] .
        have "units_at v c st3 = Inr 0" using t(1) True asks_units [OF buffer_ready_asks [OF r2]] by simp
        then show thesis using t \<open>ready\<close> a3 bw by (intro moved [of st3 st4 s]) auto
      qed
    qed
  qed
qed

definition bytes_of :: "throttle_state \<Rightarrow> int" where
  "bytes_of st = th_total_msg_bytes (ts_th st)"

lemma move_units:
  assumes "move_message env v c i out st = Inr st'" and "units_at v c st = Inr 0"
  shows "\<exists>msg. units_at v c st' = Inr (network_message_to_size (te_network env) msg) \<and>
      MESSAGE_SIZE_MULTIPLIER * bytes_of st' - units_total (ts_th st') = MESSAGE_SIZE_MULTIPLIER * bytes_of st - units_total (ts_th st) \<and>
      th_same (ts_th st) (ts_th st') \<and> length (ts_pool st') = length (ts_pool st) \<and>
      (units_nonneg (ts_th st) \<longrightarrow> 0 \<le> network_message_to_size (te_network env) msg \<longrightarrow> units_nonneg (ts_th st'))"
  using assms(1)
proof (cases rule: move_messageE)
  case (1 msg d in_mb' out_mb' msg' reqs es)
  let ?n = "network_message_to_size (te_network env) msg"
  let ?st = "set_units v c ?n st"
  note th' = 1(7)
  have u: "units_at v c st' = units_at v c ?st" unfolding units_at_def th' by simp
  have t: "units_total (ts_th st') = units_total (ts_th ?st)" unfolding units_total_def th' by simp
  have size: "?n = MESSAGE_SIZE_MULTIPLIER * MessageSizeType_to_int (msg_size_type msg) (te_network env)"
    by (simp add: network_message_to_size_def BROADCAST_SCALING_def)
  have b: "bytes_of st' = bytes_of st + MessageSizeType_to_int (msg_size_type msg) (te_network env)"
    unfolding bytes_of_def th' by (simp add: set_units_def)
  have "th_same (ts_th st) (ts_th st')"
    unfolding th' by (rule th_same_trans [OF th_same_set_units [OF assms(2)] th_same_count])
  moreover have "units_nonneg (ts_th st')" if "units_nonneg (ts_th st)" "0 \<le> ?n"
    using set_units_at(3) [OF assms(2) that] unfolding units_nonneg_def th' by simp
  moreover have "length (ts_pool st') = length (ts_pool st)" unfolding 1(6) by simp
  ultimately show ?thesis
    using set_units_at(1,2) [OF assms(2), of ?n] u t b size by (intro exI [of _ msg]) (simp add: algebra_simps)
qed

text \<open>
  The account: what has been moved, less what is not paid yet, plus the bandwidth that is left,
  does not change.
\<close>

definition account :: "int \<times> throttle_state \<Rightarrow> int" where
  "account = (\<lambda>(tot, st). MESSAGE_SIZE_MULTIPLIER * bytes_of st - units_total (ts_th st) + tot)"

definition sizes_ok :: "'r Network \<Rightarrow> bool" where
  "sizes_ok nw \<longleftrightarrow> 0 < nw_control_msg_size nw \<and> 0 < nw_data_msg_size nw"

lemma message_size_pos: "sizes_ok nw \<Longrightarrow> 0 < network_message_to_size nw msg"
  by (cases "msg_size_type msg")
    (simp_all add: sizes_ok_def network_message_to_size_def MessageSizeType_to_int_def MESSAGE_SIZE_MULTIPLIER_def BROADCAST_SCALING_def)

lemma asks_account: "asks a b \<Longrightarrow> account (tot, b) = account (tot, a)"
  by (simp add: asks_def account_def bytes_of_def)

lemma throttle_turn_account:
  assumes "throttle_turn env v c i out (bw, tot, st) = Inr (again, bw', tot', st')"
  shows "account (tot', st') = account (tot, st) \<and> tot - tot' = bw - bw' \<and> th_same (ts_th st) (ts_th st') \<and>
    (0 \<le> bw \<longrightarrow> 0 \<le> bw') \<and>
    (sizes_ok (te_network env) \<longrightarrow> units_nonneg (ts_th st) \<longrightarrow> units_nonneg (ts_th st') \<and> bw' \<le> bw \<and> (again \<longrightarrow> bw' < bw \<and> 0 < bw))"
  using assms
proof (cases rule: throttle_turnE)
  case stop
  then show ?thesis using asks_account [OF stop(4)] by (auto simp: asks_def)
next
  case (spend u st1)
  have "account (tot', st') = account (tot, st1)"
    using set_units_at(2) [OF spend(4), of "u - min u bw"] unfolding spend(7,8)
    by (simp add: account_def bytes_of_def) (simp add: set_units_def)
  moreover have "th_same (ts_th st) (ts_th st')"
    using spend(3) th_same_set_units [OF spend(4)] unfolding spend(8) asks_def by simp
  moreover have "0 < u" if "units_nonneg (ts_th st)"
    using that spend(3-5) unfolding units_at_Inr asks_def units_nonneg_def by (metis nth_mem order_le_less)
  moreover have "units_nonneg (ts_th st')" if "units_nonneg (ts_th st)"
    using set_units_at(3) [OF spend(4)] that spend(3) unfolding spend(8) asks_def by simp
  ultimately show ?thesis using spend(1,2,6,7) asks_account [OF spend(3), of tot] by (auto simp: min_def)
next
  case (moved st1 st4 s)
  obtain msg where m: "units_at v c st4 = Inr (network_message_to_size (te_network env) msg)"
    "MESSAGE_SIZE_MULTIPLIER * bytes_of st4 - units_total (ts_th st4) = MESSAGE_SIZE_MULTIPLIER * bytes_of st1 - units_total (ts_th st1)"
    "th_same (ts_th st1) (ts_th st4)"
    "units_nonneg (ts_th st1) \<longrightarrow> 0 \<le> network_message_to_size (te_network env) msg \<longrightarrow> units_nonneg (ts_th st4)"
    using move_units [OF moved(5,4)] by blast
  have s: "s = network_message_to_size (te_network env) msg" using m(1) moved(6) by simp
  have "account (tot', st') = account (tot, st4)"
    using set_units_at(2) [OF moved(6), of "s - min s bw"] unfolding moved(8,9)
    by (simp add: account_def bytes_of_def) (simp add: set_units_def)
  also have "\<dots> = account (tot, st1)" using m(2) by (simp add: account_def)
  finally have acc: "account (tot', st') = account (tot, st)" using asks_account [OF moved(3)] by simp
  have th1: "ts_th st1 = ts_th st" using moved(3) by (simp add: asks_def)
  have same: "th_same (ts_th st) (ts_th st')"
    using th_same_trans [OF m(3) th_same_set_units [OF moved(6)]] th1 unfolding moved(9) by simp
  have "0 < s" if "sizes_ok (te_network env)" using message_size_pos [OF that] s by simp
  moreover have "units_nonneg (ts_th st')" if "sizes_ok (te_network env)" "units_nonneg (ts_th st)"
    using set_units_at(3) [OF moved(6), of "s - min s bw"] m(4) message_size_pos [OF that(1), of msg] that(2) th1 s
    unfolding moved(9) by simp
  ultimately show ?thesis using moved(1,2,7,8) acc same by (auto simp: min_def)
qed

end
