(* ===== verification/PerfectSwitch.thy ===== *)
theory PerfectSwitch
  imports SimpleBuffers
begin

text \<open>
  \<open>PerfectSwitch\<close> (\<open>simple/PerfectSwitch.hh\<close>, \<open>PerfectSwitch.cc\<close>): the part of a switch of the
  simple network that moves messages from the buffers of the input ports to the intermediate
  buffers of the output ports, a message to several ports when its destinations lie behind
  several links. The switch, the links of its routing unit and the pool of buffers are one
  state; the calls of the buffers to their consumers are collected as effects.
\<close>

section \<open>State\<close>

record SwitchOutPort =
  sop_latency :: tick
  sop_buffers :: "buf_ref list"

record PerfectSwitch =
  ps_switch_id :: nat
  ps_in :: "buf_ref list list"
  ps_out :: "SwitchOutPort list"
  ps_in_prio :: "nat list list"
  ps_in_prio_groups :: "nat list list list"
  ps_virtual_networks :: nat
  ps_wakeups_wo_switch :: int
  ps_pending_message_count :: "int list"

definition PerfectSwitch_new :: "nat \<Rightarrow> nat \<Rightarrow> PerfectSwitch" where
  "PerfectSwitch_new sid virt_nets =
    \<lparr>ps_switch_id = sid, ps_in = [], ps_out = [], ps_in_prio = [], ps_in_prio_groups = [],
     ps_virtual_networks = virt_nets, ps_wakeups_wo_switch = 0, ps_pending_message_count = []\<rparr>"

definition PerfectSwitch_init :: "PerfectSwitch \<Rightarrow> PerfectSwitch" where
  "PerfectSwitch_init ps =
    ps\<lparr>ps_pending_message_count := ps_pending_message_count ps @ replicate (ps_virtual_networks ps) 0\<rparr>"

section \<open>Ports\<close>

definition mb_setIncomingLink :: "int \<Rightarrow> MessageBuffer \<Rightarrow> MessageBuffer" where
  "mb_setIncomingLink link_id mb = mb\<lparr>mb_input_link_id := link_id\<rparr>"

definition mb_setVnet :: "int \<Rightarrow> MessageBuffer \<Rightarrow> MessageBuffer" where
  "mb_setVnet net mb = mb\<lparr>mb_vnet_id := net\<rparr>"

text \<open>
  \<open>prio\<close> is \<open>routingPriority()\<close>, a constant of each buffer. The buffers in the groups are never
  null. \<open>std::sort\<close> may put buffers of equal priority in any order; the model keeps theirs.
\<close>

definition append_last :: "'a \<Rightarrow> 'a list list \<Rightarrow> 'a list list" where
  "append_last x groups = butlast groups @ [last groups @ [x]]"

definition priority_groups :: "(nat \<Rightarrow> int) \<Rightarrow> nat list \<Rightarrow> nat list list" where
  "priority_groups prio bufs =
    (let cur_prio = prio (hd bufs)
     in fold (\<lambda>buf groups. append_last buf (if prio buf \<noteq> cur_prio then groups @ [[]] else groups)) bufs [[]])"

definition grow :: "nat \<Rightarrow> 'a list list \<Rightarrow> 'a list list" where
  "grow vnet xss = xss @ replicate (vnet + 1 - length xss) []"

definition updatePriorityGroups :: "(nat \<Rightarrow> int) \<Rightarrow> nat \<Rightarrow> nat \<Rightarrow> PerfectSwitch \<Rightarrow> PerfectSwitch" where
  "updatePriorityGroups prio vnet in_buf ps =
    (let in_prio = grow vnet (ps_in_prio ps);
         groups = ps_in_prio_groups ps @ replicate (length in_prio - length (ps_in_prio ps)) [];
         sorted = sort_key prio (in_prio ! vnet @ [in_buf])
     in ps\<lparr>ps_in_prio := in_prio[vnet := sorted],
           ps_in_prio_groups := groups[vnet := priority_groups prio sorted]\<rparr>)"

definition connect_in ::
    "(nat \<Rightarrow> int) \<Rightarrow> nat \<Rightarrow> nat \<times> buf_ref \<Rightarrow> PerfectSwitch \<times> pool \<Rightarrow> (PerfectSwitch \<times> pool) res" where
  "connect_in prio port = (\<lambda>(i, b) (ps, pool).
    if b = None then Inr (ps, pool)
    else bindR (deref_buf b pool) (\<lambda>(k, mb).
      bindR (mb_setConsumer (Switch_consumer (ps_switch_id ps)) mb) (\<lambda>mb'.
      Inr (updatePriorityGroups prio i k ps,
        pool[k := mb_setVnet (int i) (mb_setIncomingLink (int port) mb')]))))"

definition ps_addInPort ::
    "(nat \<Rightarrow> int) \<Rightarrow> buf_ref list \<Rightarrow> PerfectSwitch \<times> pool \<Rightarrow> (PerfectSwitch \<times> pool) res" where
  "ps_addInPort prio ins = (\<lambda>(ps, pool).
    foldR (connect_in prio (length (ps_in ps))) (enumerate 0 ins) (ps\<lparr>ps_in := ps_in ps @ [ins]\<rparr>, pool))"

definition ps_addOutPort ::
    "buf_ref list \<Rightarrow> net_dest \<Rightarrow> tick \<Rightarrow> int \<Rightarrow> PerfectSwitch \<times> LinkInfo list
     \<Rightarrow> (PerfectSwitch \<times> LinkInfo list) res" where
  "ps_addOutPort outs routing_table_entry routing_latency link_weight = (\<lambda>(ps, links).
    bindR (wb_addOutPort (length (ps_out ps)) outs routing_table_entry link_weight links) (\<lambda>links'.
    Inr (ps\<lparr>ps_out := ps_out ps @ [\<lparr>sop_latency = routing_latency, sop_buffers = outs\<rparr>]\<rparr>, links')))"

definition inBuffer :: "nat \<Rightarrow> nat \<Rightarrow> PerfectSwitch \<Rightarrow> buf_ref res" where
  "inBuffer in_port vnet ps =
    bindR (nthR (ps_in ps) (int in_port)) (\<lambda>ins.
    if length ins \<le> vnet then Inr None else Inr (ins ! vnet))"

definition storeEventInfo :: "int \<Rightarrow> PerfectSwitch \<Rightarrow> PerfectSwitch res" where
  "storeEventInfo info ps =
    bindR (modR (ps_pending_message_count ps) info (\<lambda>n. Inr (n + 1))) (\<lambda>counts.
    Inr (ps\<lparr>ps_pending_message_count := counts\<rparr>))"

section \<open>Moving messages\<close>

text \<open>
  What the switch reads of its surroundings: the machine types, the flags of \<open>RubySystem\<close>,
  \<open>curTick()\<close> and \<open>clockEdge()\<close>, the parameter \<open>adaptive_routing\<close>, \<open>isVNetOrdered\<close>, and the
  numbers that \<open>random_mt\<close> and \<open>random_time()\<close> give, by position in the run.
\<close>

record switch_env =
  se_mt :: machine_info
  se_flags :: ruby_flags
  se_tick :: tick
  se_now :: tick
  se_adaptive :: bool
  se_ordered :: "nat \<Rightarrow> bool"
  se_byte :: "nat \<Rightarrow> nat"
  se_rt :: "nat \<Rightarrow> tick"

record switch_state =
  ss_ps :: PerfectSwitch
  ss_links :: "LinkInfo list"
  ss_pool :: pool
  ss_draws :: nat
  ss_effects :: "sn_effect list"

definition port_buffer :: "nat \<Rightarrow> nat \<Rightarrow> switch_state \<Rightarrow> (tick \<times> nat \<times> MessageBuffer) res" where
  "port_buffer outgoing vnet st =
    bindR (nthR (ps_out (ss_ps st)) (int outgoing)) (\<lambda>port.
    bindR (nthR (sop_buffers port) (int vnet)) (\<lambda>b.
    bindR (deref_buf b (ss_pool st)) (\<lambda>(i, mb). Inr (sop_latency port, i, mb))))"

definition room_step ::
    "switch_env \<Rightarrow> nat \<Rightarrow> SwitchRouteInfo \<Rightarrow> bool \<times> switch_state \<Rightarrow> (bool \<times> switch_state) res" where
  "room_step env vnet r = (\<lambda>(enough, st).
    bindR (port_buffer (ri_link_id r) vnet st) (\<lambda>(latency, i, mb).
    case areNSlotsAvailable 1 (se_now env) mb of (free, mb') \<Rightarrow>
      Inr (enough \<and> free, st\<lparr>ss_pool := (ss_pool st)[i := mb']\<rparr>)))"

definition send_step ::
    "switch_env \<Rightarrow> nat \<Rightarrow> Message \<times> SwitchRouteInfo \<Rightarrow> switch_state \<Rightarrow> switch_state res" where
  "send_step env vnet = (\<lambda>(msg, r) st.
    bindR (port_buffer (ri_link_id r) vnet st) (\<lambda>(latency, i, mb).
    bindR (mb_enqueue (se_flags env) (se_now env) latency (se_rt env (ss_draws st)) False
             (Some (msg\<lparr>msg_destination := ri_destinations r\<rparr>)) mb) (\<lambda>(mb', reqs).
    Inr (st\<lparr>ss_pool := (ss_pool st)[i := mb'], ss_draws := ss_draws st + 1,
            ss_effects := ss_effects st @ map (effect_of mb) reqs\<rparr>))))"

text \<open>
  The message taken from the buffer goes down the first link; every other link gets a clone of
  the message as it was before the dequeue.
\<close>

definition copies :: "Message \<Rightarrow> Message \<Rightarrow> SwitchRouteInfo list \<Rightarrow> (Message \<times> SwitchRouteInfo) list" where
  "copies msg unmodified routes =
    (case routes of [] \<Rightarrow> [] | r # rs \<Rightarrow> (msg, r) # map (Pair unmodified) rs)"

definition switch_route :: "switch_env \<Rightarrow> nat \<Rightarrow> Message \<Rightarrow> switch_state \<Rightarrow> (SwitchRouteInfo list \<times> switch_state) res" where
  "switch_route env vnet msg st =
    bindR (wb_route (se_mt env) (se_adaptive env) (se_now env) (\<lambda>i. se_byte env (ss_draws st + i))
             msg (se_ordered env vnet) (ss_links st) (ss_pool st)) (\<lambda>(routes, links, pool).
    Inr (routes, st\<lparr>ss_links := links, ss_pool := pool,
      ss_draws := (if se_adaptive env \<and> \<not> se_ordered env vnet then ss_draws st + length links else ss_draws st)\<rparr>))"

definition take_message ::
    "switch_env \<Rightarrow> nat \<Rightarrow> nat \<Rightarrow> switch_state \<Rightarrow> (Message \<times> switch_state) res" where
  "take_message env vnet buffer st =
    bindR (deref_buf (Some buffer) (ss_pool st)) (\<lambda>(i, mb).
    bindR (mb_dequeue (se_tick env) (se_now env) True mb) (\<lambda>((delay, callback), msg, mb').
    bindR (modR (ps_pending_message_count (ss_ps st)) (int vnet) (\<lambda>n. Inr (n - 1))) (\<lambda>counts.
    Inr (msg, st\<lparr>ss_ps := (ss_ps st)\<lparr>ps_pending_message_count := counts\<rparr>,
                 ss_pool := (ss_pool st)[buffer := mb'],
                 ss_effects := ss_effects st @ (case callback of None \<Rightarrow> [] | Some c \<Rightarrow> [Dequeued c])\<rparr>))))"

text \<open>One turn of the loop: whether it goes on, and the state.\<close>

definition operate_step :: "switch_env \<Rightarrow> nat \<Rightarrow> nat \<Rightarrow> switch_state \<Rightarrow> (bool \<times> switch_state) res" where
  "operate_step env vnet buffer st0 =
    bindR (deref_buf (Some buffer) (ss_pool st0)) (\<lambda>(i, mb).
    bindR (mb_isReady (se_now env) mb) (\<lambda>(ready, reqs).
    let st = st0\<lparr>ss_effects := ss_effects st0 @ map (effect_of mb) reqs\<rparr> in
    if \<not> ready then Inr (False, st)
    else bindR (mb_peek mb) (\<lambda>msg.
      bindR (switch_route env vnet msg st) (\<lambda>(routes, st1).
      bindR (foldR (room_step env vnet) routes (True, st1)) (\<lambda>(enough, st2).
      if \<not> enough then
        Inr (False, st2\<lparr>ss_effects := ss_effects st2 @ [Reschedule (Switch_consumer (ps_switch_id (ss_ps st2))) 1]\<rparr>)
      else bindR (take_message env vnet buffer st2) (\<lambda>(msg', st3).
        bindR (foldR (send_step env vnet) (copies msg' msg routes) st3) (\<lambda>st4. Inr (True, st4))))))))"

definition operateMessageBuffer :: "switch_env \<Rightarrow> nat \<Rightarrow> nat \<Rightarrow> switch_state \<Rightarrow> switch_state run" where
  "operateMessageBuffer env vnet buffer st = repeatO (operate_step env vnet buffer) st"

text \<open>The port with the oldest message.\<close>

definition oldest_step :: "nat list \<Rightarrow> pool \<Rightarrow> nat \<Rightarrow> tick \<times> nat \<Rightarrow> (tick \<times> nat) res" where
  "oldest_step ins pool i = (\<lambda>(lowest_tick, start_in_port).
    bindR (deref_buf (Some (ins ! i)) pool) (\<lambda>(k, mb).
    Inr (if mb_readyTime mb < lowest_tick then (mb_readyTime mb, i) else (lowest_tick, start_in_port))))"

definition oldest_port :: "nat list \<Rightarrow> pool \<Rightarrow> nat res" where
  "oldest_port ins pool =
    bindR (foldR (oldest_step ins pool) [0..<length ins] (MaxTick, 0)) (\<lambda>(lowest_tick, start). Inr start)"

definition operate_group :: "switch_env \<Rightarrow> nat \<Rightarrow> nat list \<Rightarrow> switch_state \<Rightarrow> switch_state run" where
  "operate_group env vnet ins st =
    bindO (Some (oldest_port ins (ss_pool st))) (\<lambda>start_in_port.
    foldO (\<lambda>i. operateMessageBuffer env vnet (ins ! ((i + start_in_port) mod length ins))) [0..<length ins] st)"

definition ps_operateVnet :: "switch_env \<Rightarrow> nat \<Rightarrow> switch_state \<Rightarrow> switch_state run" where
  "ps_operateVnet env vnet st =
    bindO (Some (nthR (ps_pending_message_count (ss_ps st)) (int vnet))) (\<lambda>count.
    if count = 0 then retO st
    else bindO (Some (nthR (ps_in_prio_groups (ss_ps st)) (int vnet))) (\<lambda>groups.
      foldO (operate_group env vnet) groups st))"

definition PRIORITY_SWITCH_LIMIT :: int where
  "PRIORITY_SWITCH_LIMIT = 128"

definition ps_wakeup :: "switch_env \<Rightarrow> switch_state \<Rightarrow> switch_state run" where
  "ps_wakeup env st =
    (let ps = ss_ps st; n = ps_wakeups_wo_switch ps + 1; invert = n > PRIORITY_SWITCH_LIMIT;
         vnets = (if invert then [0..<ps_virtual_networks ps] else rev [0..<ps_virtual_networks ps])
     in foldO (ps_operateVnet env) vnets
          (st\<lparr>ss_ps := ps\<lparr>ps_wakeups_wo_switch := (if invert then 0 else n)\<rparr>\<rparr>))"

section \<open>One turn of the loop\<close>

definition reaches_buffer :: "nat \<Rightarrow> nat \<Rightarrow> nat \<Rightarrow> PerfectSwitch \<Rightarrow> bool" where
  "reaches_buffer outgoing vnet i ps \<longleftrightarrow> outgoing < length (ps_out ps) \<and>
    vnet < length (sop_buffers (ps_out ps ! outgoing)) \<and> sop_buffers (ps_out ps ! outgoing) ! vnet = Some i"

lemma port_buffer_Inr [res_simps]:
  "port_buffer outgoing vnet st = Inr (latency, i, mb) \<longleftrightarrow>
    reaches_buffer outgoing vnet i (ss_ps st) \<and> latency = sop_latency (ps_out (ss_ps st) ! outgoing) \<and>
    i < length (ss_pool st) \<and> mb = ss_pool st ! i"
  by (auto simp: port_buffer_def reaches_buffer_def res_simps)

lemma reaches_buffer_counts [simp]:
  "reaches_buffer out v i (ps\<lparr>ps_pending_message_count := c\<rparr>) = reaches_buffer out v i ps"
  by (simp add: reaches_buffer_def)

lemma room_frame:
  assumes "foldR (room_step env vnet) routes (enough0, st) = Inr (enough, st')"
  shows "\<exists>pool. st' = st\<lparr>ss_pool := pool\<rparr> \<and> pool_frame (ss_pool st) pool"
proof -
  define P where "P s \<longleftrightarrow> (\<exists>pool. snd s = st\<lparr>ss_pool := pool\<rparr> \<and> pool_frame (ss_pool st) pool)" for s :: "bool \<times> switch_state"
  have "P (enough, st')"
  proof (rule foldR_invariant [OF assms])
    show "P (enough0, st)" unfolding P_def by (intro exI [of _ "ss_pool st"]) simp
  next
    fix r and s s' :: "bool \<times> switch_state" assume "P s" and step: "room_step env vnet r s = Inr s'"
    then obtain pool where p: "snd s = st\<lparr>ss_pool := pool\<rparr>" "pool_frame (ss_pool st) pool"
      unfolding P_def by blast
    obtain enough s1 where s: "s = (enough, s1)" by (cases s)
    have "\<exists>l i mb free mb'. port_buffer (ri_link_id r) vnet s1 = Inr (l, i, mb) \<and>
      areNSlotsAvailable 1 (se_now env) mb = (free, mb') \<and> s' = (enough \<and> free, s1\<lparr>ss_pool := (ss_pool s1)[i := mb']\<rparr>)"
      using step unfolding room_step_def s prod.case by (elim bindR_InrE case_prod_InrE) force
    then obtain i free mb' where i: "i < length pool" "areNSlotsAvailable 1 (se_now env) (pool ! i) = (free, mb')"
      "snd s' = st\<lparr>ss_pool := pool[i := mb']\<rparr>"
      using p(1) unfolding s port_buffer_Inr by (auto simp del: One_nat_def)
    have "pool_frame pool (pool[i := mb'])"
      by (rule pool_frame_update [OF i(1) areNSlots_buf_frame [OF i(2)]])
    with p(2) i(3) show "P s'" unfolding P_def by (intro exI [of _ "pool[i := mb']"]) (auto intro: pool_frame_trans)
  qed
  then show ?thesis by (simp add: P_def)
qed

lemma take_messageE:
  assumes "take_message env vnet b st = Inr (msg', st')"
  obtains d mb' effs where "b < length (ss_pool st)"
    "mb_dequeue (se_tick env) (se_now env) True (ss_pool st ! b) = Inr (d, msg', mb')"
    "vnet < length (ps_pending_message_count (ss_ps st))"
    "st' = st\<lparr>ss_ps := (ss_ps st)\<lparr>ps_pending_message_count := (ps_pending_message_count (ss_ps st))
        [vnet := ps_pending_message_count (ss_ps st) ! vnet - 1]\<rparr>,
      ss_pool := (ss_pool st)[b := mb'], ss_effects := ss_effects st @ effs\<rparr>"
  using assms unfolding take_message_def by (auto simp: res_simps elim!: bindR_InrE case_prod_InrE)

lemma send_stepE:
  assumes "send_step env vnet (msg, r) st = Inr st'"
  obtains i mb' reqs where "reaches_buffer (ri_link_id r) vnet i (ss_ps st)" "i < length (ss_pool st)"
    "mb_enqueue (se_flags env) (se_now env) (sop_latency (ps_out (ss_ps st) ! ri_link_id r)) (se_rt env (ss_draws st)) False
      (Some (msg\<lparr>msg_destination := ri_destinations r\<rparr>)) (ss_pool st ! i) = Inr (mb', reqs)"
    "st' = st\<lparr>ss_pool := (ss_pool st)[i := mb'], ss_draws := ss_draws st + 1,
       ss_effects := ss_effects st @ map (effect_of (ss_pool st ! i)) reqs\<rparr>"
  using assms unfolding send_step_def by (auto simp: res_simps)

lemma switch_routeE:
  assumes "switch_route env vnet msg st = Inr (routes, st')"
  obtains links pool draws where
    "wb_route (se_mt env) (se_adaptive env) (se_now env) (\<lambda>i. se_byte env (ss_draws st + i))
       msg (se_ordered env vnet) (ss_links st) (ss_pool st) = Inr (routes, links, pool)"
    "st' = st\<lparr>ss_links := links, ss_pool := pool, ss_draws := draws\<rparr>"
  using assms unfolding switch_route_def by (auto simp: res_simps)

text \<open>The three ways a turn that succeeds can end.\<close>

lemma operate_stepE:
  assumes "operate_step env vnet b st = Inr (again, st')"
  obtains (idle) reqs where "\<not> again" "b < length (ss_pool st)"
      "mb_isReady (se_now env) (ss_pool st ! b) = Inr (False, reqs)"
      "st' = st\<lparr>ss_effects := ss_effects st @ map (effect_of (ss_pool st ! b)) reqs\<rparr>"
  | (blocked) reqs msg routes st1 st2 where "\<not> again" "b < length (ss_pool st)"
      "mb_isReady (se_now env) (ss_pool st ! b) = Inr (True, reqs)" "mb_peek (ss_pool st ! b) = Inr msg"
      "switch_route env vnet msg (st\<lparr>ss_effects := ss_effects st @ map (effect_of (ss_pool st ! b)) reqs\<rparr>) = Inr (routes, st1)"
      "foldR (room_step env vnet) routes (True, st1) = Inr (False, st2)"
      "st' = st2\<lparr>ss_effects := ss_effects st2 @ [Reschedule (Switch_consumer (ps_switch_id (ss_ps st2))) 1]\<rparr>"
  | (sent) reqs msg routes st1 st2 msg' st3 where "again" "b < length (ss_pool st)"
      "mb_isReady (se_now env) (ss_pool st ! b) = Inr (True, reqs)" "mb_peek (ss_pool st ! b) = Inr msg"
      "switch_route env vnet msg (st\<lparr>ss_effects := ss_effects st @ map (effect_of (ss_pool st ! b)) reqs\<rparr>) = Inr (routes, st1)"
      "foldR (room_step env vnet) routes (True, st1) = Inr (True, st2)"
      "take_message env vnet b st2 = Inr (msg', st3)"
      "foldR (send_step env vnet) (copies msg' msg routes) st3 = Inr st'"
proof -
  let ?mb = "ss_pool st ! b"
  from assms obtain ready reqs where b: "b < length (ss_pool st)"
    and r: "mb_isReady (se_now env) ?mb = Inr (ready, reqs)"
    unfolding operate_step_def by (auto simp: res_simps)
  let ?st = "st\<lparr>ss_effects := ss_effects st @ map (effect_of ?mb) reqs\<rparr>"
  have rest: "(if \<not> ready then Inr (False, ?st)
    else bindR (mb_peek ?mb) (\<lambda>msg.
      bindR (switch_route env vnet msg ?st) (\<lambda>(routes, st1).
      bindR (foldR (room_step env vnet) routes (True, st1)) (\<lambda>(enough, st2).
      if \<not> enough then
        Inr (False, st2\<lparr>ss_effects := ss_effects st2 @ [Reschedule (Switch_consumer (ps_switch_id (ss_ps st2))) 1]\<rparr>)
      else bindR (take_message env vnet b st2) (\<lambda>(msg', st3).
        bindR (foldR (send_step env vnet) (copies msg' msg routes) st3) (\<lambda>st4. Inr (True, st4))))))) = Inr (again, st')"
    using assms b r unfolding operate_step_def Let_def by (simp add: deref_buf_ok)
  show thesis
  proof (cases ready)
    case False
    with rest b r show thesis by (intro idle) auto
  next
    case True
    with rest obtain msg routes st1 enough st2 where s: "mb_peek ?mb = Inr msg"
      "switch_route env vnet msg ?st = Inr (routes, st1)"
      "foldR (room_step env vnet) routes (True, st1) = Inr (enough, st2)"
      and after: "(if \<not> enough then
        Inr (False, st2\<lparr>ss_effects := ss_effects st2 @ [Reschedule (Switch_consumer (ps_switch_id (ss_ps st2))) 1]\<rparr>)
      else bindR (take_message env vnet b st2) (\<lambda>(msg', st3).
        bindR (foldR (send_step env vnet) (copies msg' msg routes) st3) (\<lambda>st4. Inr (True, st4)))) = Inr (again, st')"
      by (simp only: not_True_eq_False if_False) (elim bindR_InrE case_prod_InrE, blast)
    show thesis
    proof (cases enough)
      case False
      with after s b r True show thesis by (intro blocked) auto
    next
      case True
      with after obtain msg' st3 where "again" "take_message env vnet b st2 = Inr (msg', st3)"
        "foldR (send_step env vnet) (copies msg' msg routes) st3 = Inr st'"
        by (simp only: not_True_eq_False if_False) (elim bindR_InrE case_prod_InrE, simp)
      with s b r True \<open>ready\<close> show thesis by (intro sent) auto
    qed
  qed
qed

section \<open>No delivery is lost\<close>

text \<open>The deliveries a message stands for: one for each of its destinations.\<close>

definition deliveries_of :: "nat \<Rightarrow> machine_id set \<Rightarrow> (nat \<times> machine_id) multiset" where
  "deliveries_of i D = image_mset (Pair i) (mset_set D)"

definition msg_deliveries :: "Message \<Rightarrow> (nat \<times> machine_id) multiset" where
  "msg_deliveries m = deliveries_of (msg_id m) (nd_abs (msg_destination m))"

definition buf_deliveries :: "MessageBuffer \<Rightarrow> (nat \<times> machine_id) multiset" where
  "buf_deliveries mb = (\<Sum>m \<in># mset (mb_prio_heap mb) + mset (stalled_msgs mb). msg_deliveries m)"

definition pool_deliveries :: "pool \<Rightarrow> (nat \<times> machine_id) multiset" where
  "pool_deliveries pool = (\<Sum>mb\<leftarrow>pool. buf_deliveries mb)"

definition dests_ok :: "machine_info \<Rightarrow> pool \<Rightarrow> bool" where
  "dests_ok mt pool \<longleftrightarrow> (\<forall>mb \<in> set pool. \<forall>m \<in> set (mb_prio_heap mb). nd_ok mt (msg_destination m))"

definition routing_ok :: "machine_info \<Rightarrow> switch_state \<Rightarrow> bool" where
  "routing_ok mt st \<longleftrightarrow> links_ok mt (length (ss_pool st)) (ss_links st) \<and> dests_ok mt (ss_pool st)"

lemma pool_frame_deliveries:
  assumes "pool_frame p q"
  shows "pool_deliveries q = pool_deliveries p" and "dests_ok mt q = dests_ok mt p"
proof -
  have len: "length q = length p" using assms by (rule pool_frame_length)
  have same: "mb_prio_heap (q ! i) = mb_prio_heap (p ! i)" "stalled_msgs (q ! i) = stalled_msgs (p ! i)"
    if "i < length p" for i
    using buf_frame_same [OF pool_frame_nth [OF assms that]] by auto
  have "map buf_deliveries q = map buf_deliveries p"
    using len same by (intro nth_equalityI) (simp_all add: buf_deliveries_def)
  then show "pool_deliveries q = pool_deliveries p" by (simp add: pool_deliveries_def)
  have hs: "map mb_prio_heap q = map mb_prio_heap p" using len same by (intro nth_equalityI) simp_all
  have "dests_ok mt ps \<longleftrightarrow> (\<forall>h \<in> set (map mb_prio_heap ps). \<forall>m \<in> set h. nd_ok mt (msg_destination m))" for ps
    by (simp add: dests_ok_def)
  then show "dests_ok mt q = dests_ok mt p" by (simp only: hs)
qed

lemma pool_deliveries_update:
  "i < length pool \<Longrightarrow> pool_deliveries (pool[i := mb]) + buf_deliveries (pool ! i) = pool_deliveries pool + buf_deliveries mb"
  unfolding pool_deliveries_def by (rule sum_list_update_add)

lemma dests_ok_update:
  "dests_ok mt pool \<Longrightarrow> i < length pool \<Longrightarrow> (\<And>m. m \<in> set (mb_prio_heap mb) \<Longrightarrow> nd_ok mt (msg_destination m)) \<Longrightarrow>
    dests_ok mt (pool[i := mb])"
  unfolding dests_ok_def by (auto dest!: set_update_subset_insert [THEN subsetD])

lemma dests_ok_nth: "dests_ok mt pool \<Longrightarrow> i < length pool \<Longrightarrow> m \<in> set (mb_prio_heap (pool ! i)) \<Longrightarrow> nd_ok mt (msg_destination m)"
  unfolding dests_ok_def by (meson nth_mem)

lemma send_all:
  assumes "foldR (send_step env vnet) cs st = Inr st'" and "dests_ok mt (ss_pool st)"
    and "\<forall>(m, r) \<in> set cs. nd_ok mt (ri_destinations r)"
  shows "pool_deliveries (ss_pool st') = pool_deliveries (ss_pool st) +
      (\<Sum>(m, r)\<leftarrow>cs. deliveries_of (msg_id m) (nd_abs (ri_destinations r))) \<and>
    dests_ok mt (ss_pool st') \<and> length (ss_pool st') = length (ss_pool st) \<and>
    ss_links st' = ss_links st \<and> ss_ps st' = ss_ps st"
  using assms
proof (induction cs arbitrary: st)
  case Nil
  then show ?case by simp
next
  case (Cons c cs)
  obtain m r where c: "c = (m, r)" by (cases c)
  obtain st1 where s: "send_step env vnet (m, r) st = Inr st1" "foldR (send_step env vnet) cs st1 = Inr st'"
    using Cons.prems(1) unfolding c foldR.simps by (elim bindR_InrE)
  from s(1) show ?case
  proof (cases rule: send_stepE)
    case (1 i mb' reqs)
    from mb_enqueue_message [OF 1(3)] obtain m' where
      h: "mb_prio_heap mb' = heap_push m' (mb_prio_heap (ss_pool st ! i))" "msg_id m' = msg_id m"
        "msg_destination m' = ri_destinations r" and s': "stalled_msgs mb' = stalled_msgs (ss_pool st ! i)"
      by fastforce
    have "buf_deliveries mb' = buf_deliveries (ss_pool st ! i) + deliveries_of (msg_id m) (nd_abs (ri_destinations r))"
      using h s' by (simp add: buf_deliveries_def msg_deliveries_def)
    then have p: "pool_deliveries (ss_pool st1) = pool_deliveries (ss_pool st) + deliveries_of (msg_id m) (nd_abs (ri_destinations r))"
      using pool_deliveries_update [OF 1(2), of mb'] unfolding 1(4) by simp
    have d: "dests_ok mt (ss_pool st1)"
      unfolding 1(4) using Cons.prems(2,3) c 1(2) h dests_ok_nth [OF Cons.prems(2) 1(2)]
      by (auto intro!: dests_ok_update)
    show ?thesis
      using Cons.IH [OF s(2) d] Cons.prems(3) p unfolding c 1(4) by simp
  qed
qed

lemma copies_deliveries:
  assumes "msg_id msg' = msg_id msg"
  shows "(\<Sum>(m, r)\<leftarrow>copies msg' msg routes. deliveries_of (msg_id m) (nd_abs (ri_destinations r)))
    = image_mset (Pair (msg_id msg)) (\<Sum>r\<leftarrow>routes. mset_set (nd_abs (ri_destinations r)))"
proof -
  have "(\<Sum>(m, r)\<leftarrow>map (Pair msg) rs. deliveries_of (msg_id m) (nd_abs (ri_destinations r)))
    = image_mset (Pair (msg_id msg)) (\<Sum>r\<leftarrow>rs. mset_set (nd_abs (ri_destinations r)))" for rs
    by (induction rs) (simp_all add: deliveries_of_def)
  then show ?thesis using assms by (cases routes) (simp_all add: copies_def deliveries_of_def)
qed

lemma route_turn:
  assumes "routing_ok (se_mt env) st" and "switch_route env vnet msg st = Inr (routes, st')"
    and "nd_ok (se_mt env) (msg_destination msg)"
  shows "routing_ok (se_mt env) st' \<and> pool_frame (ss_pool st) (ss_pool st') \<and> ss_ps st' = ss_ps st \<and>
    ss_effects st' = ss_effects st \<and>
    (\<forall>r \<in> set routes. nd_ok (se_mt env) (ri_destinations r)) \<and>
    (\<Sum>r\<leftarrow>routes. mset_set (nd_abs (ri_destinations r))) = mset_set (nd_abs (msg_destination msg))"
  using assms(2)
proof (cases rule: switch_routeE)
  case (1 links pool draws)
  let ?d = "msg_destination msg"
  have ok: "links_ok (se_mt env) (length (ss_pool st)) (ss_links st)" using assms(1) by (simp add: routing_ok_def)
  have cov: "covered (ss_links st) ?d"
    using wb_route_uncovered [OF ok assms(3)] 1(1) by force
  have r: "links_ok (se_mt env) (length (ss_pool st)) links \<and>
     image_mset link_core (mset links) = image_mset link_core (mset (ss_links st)) \<and> pool_seen (se_now env) (ss_pool st) pool \<and>
     list_all2 (routes_match (se_mt env) links ?d) routes (filter (\<lambda>l. link_share links ?d l \<noteq> {}) links)"
    using wb_route_ok [OF ok assms(3) cov, of "se_adaptive env" "se_now env" "\<lambda>i. se_byte env (ss_draws st + i)"
      "se_ordered env vnet"] 1(1) by auto
  have frame: "pool_frame (ss_pool st) pool" using r pool_seen_frame by blast
  have ids: "distinct (map wl_link_id links)" using r by (simp add: links_ok_def)
  have cov': "covered links ?d" using cov covered_core r by blast
  note part = routes_partition [OF _ ids cov', of "se_mt env" routes]
  have "routing_ok (se_mt env) st'"
    using assms(1) r frame pool_frame_deliveries(2) [OF frame] pool_frame_length [OF frame] unfolding 1(2) routing_ok_def
    by simp
  then show ?thesis using part(2,3) r frame unfolding 1(2) by simp
qed

lemma operate_step_conserves:
  assumes "operate_step env vnet b st = Inr (again, st')" and "routing_ok (se_mt env) st"
  shows "pool_deliveries (ss_pool st') = pool_deliveries (ss_pool st) \<and> routing_ok (se_mt env) st'"
  using assms(1)
proof (cases rule: operate_stepE)
  case (idle reqs)
  then show ?thesis using assms(2) by (simp add: routing_ok_def)
next
  case (blocked reqs msg routes st1 st2)
  let ?st = "st\<lparr>ss_effects := ss_effects st @ map (effect_of (ss_pool st ! b)) reqs\<rparr>"
  have ok: "routing_ok (se_mt env) ?st" using assms(2) by (simp add: routing_ok_def)
  have "msg \<in> set (mb_prio_heap (ss_pool st ! b))" using blocked(4) by (auto simp: mb_peek_def heap_front_def split: list.splits)
  then have d: "nd_ok (se_mt env) (msg_destination msg)"
    using assms(2) dests_ok_nth [OF _ blocked(2)] by (auto simp: routing_ok_def)
  note r = route_turn [OF ok blocked(5) d]
  obtain pool where p: "st2 = st1\<lparr>ss_pool := pool\<rparr>" "pool_frame (ss_pool st1) pool" using room_frame [OF blocked(6)] by blast
  show ?thesis
    using r p pool_frame_deliveries [OF p(2)] pool_frame_length [OF p(2)] pool_frame_deliveries(1) [of "ss_pool st" "ss_pool st1"]
    unfolding blocked(7) by (simp add: routing_ok_def)
next
  case (sent reqs msg routes st1 st2 msg' st3)
  let ?st = "st\<lparr>ss_effects := ss_effects st @ map (effect_of (ss_pool st ! b)) reqs\<rparr>"
  have ok: "routing_ok (se_mt env) ?st" using assms(2) by (simp add: routing_ok_def)
  have hd: "msg = hd (mb_prio_heap (ss_pool st ! b))" and "msg \<in> set (mb_prio_heap (ss_pool st ! b))"
    using sent(4) by (auto simp: mb_peek_def heap_front_def split: list.splits)
  then have d: "nd_ok (se_mt env) (msg_destination msg)"
    using assms(2) dests_ok_nth [OF _ sent(2)] by (auto simp: routing_ok_def)
  note r = route_turn [OF ok sent(5) d]
  obtain pool where p: "st2 = st1\<lparr>ss_pool := pool\<rparr>" "pool_frame (ss_pool st1) pool" using room_frame [OF sent(6)] by blast
  have frame: "pool_frame (ss_pool st) (ss_pool st2)" using r p pool_frame_trans by auto
  have same: "pool_deliveries (ss_pool st2) = pool_deliveries (ss_pool st)" "dests_ok (se_mt env) (ss_pool st2)"
    "links_ok (se_mt env) (length (ss_pool st2)) (ss_links st2)"
    using assms(2) r p frame pool_frame_deliveries [OF frame] pool_frame_length [OF p(2)] by (auto simp: routing_ok_def)
  from sent(7) show ?thesis
  proof (cases rule: take_messageE)
    case (1 dl mb' effs)
    from mb_dequeue_message [OF 1(2)] obtain m where
      m: "mb_prio_heap (ss_pool st2 ! b) = m # mb_prio_heap mb'" "msg_id msg' = msg_id m"
        "stalled_msgs mb' = stalled_msgs (ss_pool st2 ! b)" by fastforce
    have "mb_prio_heap (ss_pool st2 ! b) = mb_prio_heap (ss_pool st ! b)"
      using buf_frame_same(1) [OF pool_frame_nth [OF frame sent(2)]] .
    with hd m(1) have msg: "m = msg" by simp
    have "buf_deliveries (ss_pool st2 ! b) = buf_deliveries mb' + msg_deliveries msg"
      using m msg by (simp add: buf_deliveries_def)
    then have take: "pool_deliveries (ss_pool st2) = pool_deliveries (ss_pool st3) + msg_deliveries msg"
      using pool_deliveries_update [OF 1(1), of mb'] unfolding 1(4) by (simp add: add.commute add.left_commute)
    have d3: "dests_ok (se_mt env) (ss_pool st3)"
      unfolding 1(4) using same(2) 1(1) m(1) dests_ok_nth [OF same(2) 1(1)] by (auto intro!: dests_ok_update)
    have cs: "\<forall>(m, r) \<in> set (copies msg' msg routes). nd_ok (se_mt env) (ri_destinations r)"
      using r by (auto simp: copies_def split: list.splits)
    have id: "msg_id msg' = msg_id msg" using m(2) msg by simp
    have "pool_deliveries (ss_pool st') = pool_deliveries (ss_pool st3) + msg_deliveries msg"
      using send_all [OF sent(8) d3 cs] copies_deliveries [OF id, of routes] r
      by (simp add: msg_deliveries_def deliveries_of_def)
    moreover have "routing_ok (se_mt env) st'"
      using send_all [OF sent(8) d3 cs] same(3) unfolding 1(4) routing_ok_def by simp
    ultimately show ?thesis using same(1) take by simp
  qed
qed

section \<open>Whole wakeups\<close>

lemmas operate_exit = repeat_exit [where step = "operate_step env vnet b" for env vnet b, folded operateMessageBuffer_def]
lemmas operate_invariant = repeat_invariant [where step = "operate_step env vnet b" for env vnet b, folded operateMessageBuffer_def]

text \<open>A turn changes nothing of the ports, and the pool keeps its length.\<close>

lemma send_ports:
  assumes "foldR (send_step env vnet) cs st = Inr st'"
  shows "ss_ps st' = ss_ps st \<and> length (ss_pool st') = length (ss_pool st) \<and>
    (\<exists>es. ss_effects st' = ss_effects st @ es)"
  using assms
proof (induction cs arbitrary: st)
  case Nil
  then show ?case by simp
next
  case (Cons c cs)
  obtain m r where c: "c = (m, r)" by (cases c)
  obtain st1 where s: "send_step env vnet (m, r) st = Inr st1" "foldR (send_step env vnet) cs st1 = Inr st'"
    using Cons.prems(1) unfolding c foldR.simps by (elim bindR_InrE)
  from s(1) show ?case
    using Cons.IH [OF s(2)] by (cases rule: send_stepE) auto
qed

lemma switch_route_ports:
  assumes "switch_route env vnet msg st = Inr (routes, st')" and "length (ss_pool st') = length (ss_pool st)"
  shows "ss_ps st' = ss_ps st \<and> ss_effects st' = ss_effects st"
  using assms(1) by (cases rule: switch_routeE) auto

lemma foldR_queue_frame:
  assumes "foldR (\<lambda>b (len, pool). bindR (deref_buf b pool) (\<lambda>(i, mb).
      case mb_getSize now mb of (n, mb') \<Rightarrow> Inr (len + n, pool[i := mb']))) bufs s = Inr t"
  shows "pool_frame (snd s) (snd t)"
proof (rule foldR_invariant [OF assms, where P = "\<lambda>t. pool_frame (snd s) (snd t)"])
  fix b and u u' :: "nat \<times> pool"
  assume u: "pool_frame (snd s) (snd u)" and step: "(case u of (len, pool) \<Rightarrow> bindR (deref_buf b pool) (\<lambda>(i, mb).
      case mb_getSize now mb of (n, mb') \<Rightarrow> Inr (len + n, pool[i := mb']))) = Inr u'"
  obtain k where k: "k < length (snd u)" "snd u' = (snd u)[k := snd (mb_getSize now (snd u ! k))]"
    using step by (cases u) (auto simp: res_simps case_prod_beta)
  have "pool_seen now (snd u) (snd u')"
    using k by (auto simp: pool_seen_def list_all2_conv_all_nth nth_list_update buf_seen_def)
  with u show "pool_frame (snd s) (snd u')" by (meson pool_frame_trans pool_seen_frame)
qed simp

lemma clog_frame: "clog_links now rnd k links pool = Inr (links', pool') \<Longrightarrow> pool_frame pool pool'"
proof (induction links arbitrary: k pool links')
  case Nil
  then show ?case by simp
next
  case (Cons l links)
  then obtain len p ls where p: "queue_length now (wl_out_buffers l) pool = Inr (len, p)"
    "clog_links now rnd (k + 1) links p = Inr (ls, pool')" by (auto simp: res_simps)
  have "pool_frame pool p" using foldR_queue_frame [OF p(1) [unfolded queue_length_def]] by simp
  with Cons.IH [OF p(2)] show ?case by (blast intro: pool_frame_trans)
qed

lemma switch_route_frame:
  assumes "switch_route env vnet msg st = Inr (routes, st')"
  shows "pool_frame (ss_pool st) (ss_pool st') \<and> ss_ps st' = ss_ps st \<and> ss_effects st' = ss_effects st"
  using assms
proof (cases rule: switch_routeE)
  case (1 links pool draws)
  then have "order_links (se_adaptive env) (se_ordered env vnet) (se_now env) (\<lambda>i. se_byte env (ss_draws st + i))
      (ss_links st) (ss_pool st) = Inr (links, pool)"
    by (auto simp: wb_route_def res_simps)
  then have "pool_frame (ss_pool st) pool"
    by (auto simp: order_links_def res_simps split: if_splits dest: clog_frame)
  then show ?thesis using 1(2) by simp
qed

lemma operate_step_ports:
  assumes "operate_step env vnet b st = Inr (again, st')"
  shows "(\<exists>c. ss_ps st' = (ss_ps st)\<lparr>ps_pending_message_count := c\<rparr>) \<and> length (ss_pool st') = length (ss_pool st) \<and>
    (\<exists>es. ss_effects st' = ss_effects st @ es)"
  using assms
proof (cases rule: operate_stepE)
  case (idle reqs)
  then show ?thesis by (intro conjI exI [of _ "ps_pending_message_count (ss_ps st)"]) simp_all
next
  case (blocked reqs msg routes st1 st2)
  obtain pool where p: "st2 = st1\<lparr>ss_pool := pool\<rparr>" "pool_frame (ss_pool st1) pool" using room_frame [OF blocked(6)] by blast
  with switch_route_frame [OF blocked(5)] pool_frame_length show ?thesis unfolding blocked(7)
    by (intro conjI exI [of _ "ps_pending_message_count (ss_ps st)"]) auto
next
  case (sent reqs msg routes st1 st2 msg' st3)
  obtain pool where p: "st2 = st1\<lparr>ss_pool := pool\<rparr>" "pool_frame (ss_pool st1) pool" using room_frame [OF sent(6)] by blast
  from sent(7) show ?thesis
  proof (cases rule: take_messageE)
    case (1 d mb' effs)
    show ?thesis
      using 1(4) p switch_route_frame [OF sent(5)] pool_frame_length send_ports [OF sent(8)] by auto
  qed
qed

end
