(* ===== verification/ThrottleProgress.thy ===== *)
theory ThrottleProgress
  imports ThrottleBandwidth PerfectSwitch
begin

text \<open>
  A throttle of the simple network that is wired as the network wires it never fails, spends at
  most its bandwidth in a wakeup, leaves every delivery, and does not go to sleep with work left.
\<close>

section \<open>A throttle in working order\<close>

definition channels_at :: "Throttle \<Rightarrow> nat \<Rightarrow> nat" where
  "channels_at th v = (if th_physical_vnets th then nat (th_vnet_channels th ! v) else 1)"

definition throttle_ok :: "Throttle \<Rightarrow> bool" where
  "throttle_ok th \<longleftrightarrow> length (th_in th) = th_vnets th \<and> length (th_out th) = th_vnets th \<and>
    map length (th_units_remaining th) = map (channels_at th) [0..<th_vnets th] \<and>
    0 < th_endpoint_bandwidth th \<and> (\<forall>m \<in> set (th_link_bandwidth_multiplier th). 0 < m) \<and>
    (if th_physical_vnets th
     then 0 < th_vnets th \<and> length (th_link_bandwidth_multiplier th) = th_vnets th \<and>
       length (th_vnet_channels th) = th_vnets th \<and> (\<forall>c \<in> set (th_vnet_channels th). 0 < c)
     else length (th_link_bandwidth_multiplier th) = 1)"

definition th_ins :: "Throttle \<Rightarrow> nat set" where
  "th_ins th = {i. Some i \<in> set (th_in th)}"

definition th_outs :: "Throttle \<Rightarrow> nat set" where
  "th_outs th = {i. Some i \<in> set (th_out th)}"

definition bufs_live :: "'r throttle_env \<Rightarrow> throttle_state \<Rightarrow> bool" where
  "bufs_live env st \<longleftrightarrow> th_ins (ts_th st) \<inter> th_outs (ts_th st) = {} \<and>
    (\<forall>i \<in> th_ins (ts_th st). i < length (ts_pool st) \<and> mb_time_last_time_pop (ts_pool st ! i) \<le> te_now env \<and>
      mb_consumer (ts_pool st ! i) = Some (Throttle_consumer (th_switch_id (ts_th st)) (th_node (ts_th st)))) \<and>
    (\<forall>i \<in> th_outs (ts_th st). i < length (ts_pool st) \<and>
      out_buf_ok (te_now env) (te_period env * th_link_latency (ts_th st)) (ts_pool st ! i))"

definition th_live :: "'r throttle_env \<Rightarrow> throttle_state \<Rightarrow> bool" where
  "th_live env st \<longleftrightarrow> throttle_ok (ts_th st) \<and> units_nonneg (ts_th st) \<and> bufs_live env st"

lemma throttle_ok_same: "th_same a b \<Longrightarrow> throttle_ok b = throttle_ok a"
  unfolding throttle_ok_def th_same_def channels_at_def [abs_def] by (auto simp: cong: if_cong)

lemma th_same_bufs: "th_same a b \<Longrightarrow> th_ins b = th_ins a \<and> th_outs b = th_outs a"
  by (simp add: th_same_def th_ins_def th_outs_def)

lemma th_same_channels: "th_same a b \<Longrightarrow> channels_at b = channels_at a"
  by (simp add: th_same_def channels_at_def fun_eq_iff)

lemma throttle_units:
  assumes "throttle_ok (ts_th st)" and "v < th_vnets (ts_th st)" and "c < channels_at (ts_th st) v"
  shows "units_at v c st = Inr (th_units_remaining (ts_th st) ! v ! c)"
proof -
  have m: "map length (th_units_remaining (ts_th st)) = map (channels_at (ts_th st)) [0..<th_vnets (ts_th st)]"
    using assms(1) by (simp add: throttle_ok_def)
  then have len: "length (th_units_remaining (ts_th st)) = th_vnets (ts_th st)" by (metis length_map length_upt minus_nat.diff_0)
  have "map length (th_units_remaining (ts_th st)) ! v = channels_at (ts_th st) v" unfolding m using assms(2) by simp
  then have "length (th_units_remaining (ts_th st) ! v) = channels_at (ts_th st) v" using assms(2) len by simp
  then show ?thesis using assms(2,3) len by (simp add: units_at_Inr)
qed

lemma bufs_live_asks:
  assumes "bufs_live env st" and "asks st st'"
  shows "bufs_live env st'"
proof -
  have th: "ts_th st' = ts_th st" and frame: "pool_frame (ts_pool st) (ts_pool st')" using assms(2) by (auto simp: asks_def)
  have len: "length (ts_pool st') = length (ts_pool st)" by (rule pool_frame_length [OF frame])
  have "out_buf_ok (te_now env) lat (ts_pool st' ! i) = out_buf_ok (te_now env) lat (ts_pool st ! i)"
    "mb_time_last_time_pop (ts_pool st' ! i) = mb_time_last_time_pop (ts_pool st ! i)"
    "mb_consumer (ts_pool st' ! i) = mb_consumer (ts_pool st ! i)" if "i < length (ts_pool st)" for i lat
    using buf_frame_live(1,3) [OF pool_frame_nth [OF frame that]] buf_frame_same(3) [OF pool_frame_nth [OF frame that]] by simp_all
  then show ?thesis using assms(1) unfolding bufs_live_def th len by metis
qed

lemma bufs_live_units: "units_at v c st = Inr u \<Longrightarrow> bufs_live env (set_units v c n st) = bufs_live env st"
  using th_same_bufs [OF th_same_set_units] th_same_set_units [of v c st u n] by (simp add: bufs_live_def th_same_def)

section \<open>Ready buffers\<close>

definition ready_at :: "'r throttle_env \<Rightarrow> nat \<Rightarrow> throttle_state \<Rightarrow> bool" where
  "ready_at env i st \<longleftrightarrow> (case mb_isReady (te_now env) (ts_pool st ! i) of Inl e \<Rightarrow> False | Inr (ready, reqs) \<Rightarrow> ready)"

text \<open>The first message of a buffer has arrived.\<close>

definition head_due :: "'r throttle_env \<Rightarrow> nat \<Rightarrow> throttle_state \<Rightarrow> bool" where
  "head_due env i st \<longleftrightarrow> (\<exists>m ms. mb_prio_heap (ts_pool st ! i) = m # ms \<and> msg_LastEnqueueTime m \<le> te_now env)"

lemma ready_due: "ready_at env i st \<Longrightarrow> head_due env i st"
  unfolding ready_at_def head_due_def by (cases "mb_isReady (te_now env) (ts_pool st ! i)") (force elim: mb_isReady_True)+

lemma ready_asks:
  assumes "asks st st'" and "i < length (ts_pool st)"
  shows "ready_at env i st' = ready_at env i st"
proof -
  have "pool_frame (ts_pool st) (ts_pool st')" using assms(1) by (simp add: asks_def)
  from buf_frame_same(5) [OF pool_frame_nth [OF this assms(2)]] show ?thesis by (simp add: ready_at_def)
qed

lemma buffer_ready_total:
  assumes "bufs_live env st" and "i \<in> th_ins (ts_th st)"
  shows "\<exists>st'. buffer_ready env i st = Inr (ready_at env i st, st')"
proof -
  have i: "i < length (ts_pool st)" "mb_time_last_time_pop (ts_pool st ! i) \<le> te_now env" "mb_consumer (ts_pool st ! i) = Some (Throttle_consumer (th_switch_id (ts_th st)) (th_node (ts_th st)))"
    using assms unfolding bufs_live_def by blast+
  then obtain ready reqs where r: "mb_isReady (te_now env) (ts_pool st ! i) = Inr (ready, reqs)"
    using mb_isReady_total by blast
  have "ready = ready_at env i st" using r by (simp add: ready_at_def)
  with r i(1) show ?thesis by (simp add: buffer_ready_def deref_buf_ok)
qed

lemma buffer_free_total:
  assumes "i < length (ts_pool st)"
  shows "\<exists>st'. buffer_free env i st = Inr (has_slot (te_now env) (ts_pool st ! i), st')"
  using assms by (simp add: buffer_free_def deref_buf_ok has_slot_def case_prod_unfold)

lemma slot_asks:
  assumes "asks st st'" and "i < length (ts_pool st)"
  shows "has_slot now (ts_pool st' ! i) = has_slot now (ts_pool st ! i)"
proof -
  have "pool_frame (ts_pool st) (ts_pool st')" using assms(1) by (simp add: asks_def)
  from buf_frame_live(2) [OF pool_frame_nth [OF this assms(2)]] show ?thesis .
qed

definition work_at :: "'r throttle_env \<Rightarrow> nat \<Rightarrow> nat \<Rightarrow> nat \<Rightarrow> throttle_state \<Rightarrow> bool" where
  "work_at env v c i st \<longleftrightarrow> ready_at env i st \<or> 0 < th_units_remaining (ts_th st) ! v ! c"

lemma work_asks: "asks st st' \<Longrightarrow> i < length (ts_pool st) \<Longrightarrow> work_at env v c i st' = work_at env v c i st"
  using ready_asks [of st st' i env] by (simp add: work_at_def asks_def)

lemma pending_work_total:
  assumes "bufs_live env st" and "i \<in> th_ins (ts_th st)" and "units_at v c st = Inr u"
  shows "\<exists>st'. pending_work env v c i st = Inr (work_at env v c i st, st')"
proof -
  obtain st' where r: "buffer_ready env i st = Inr (ready_at env i st, st')" using buffer_ready_total [OF assms(1,2)] by blast
  have "units_at v c st' = Inr u" using asks_units [OF buffer_ready_asks [OF r]] assms(3) by simp
  then show ?thesis using r assms(3) unfolding units_at_Inr [of v c st] pending_work_def work_at_def by auto
qed

section \<open>Moving a message\<close>

text \<open>What one message does to the two buffers it passes.\<close>

lemma move_message_bufs:
  assumes "move_message env v c i out st = Inr st'" and "i \<noteq> out"
  shows "\<exists>m d a k. mb_prio_heap (ts_pool st ! i) = m # mb_prio_heap (ts_pool st' ! i) \<and> msg_LastEnqueueTime m \<le> te_now env \<and>
    mb_prio_heap (ts_pool st' ! out) = heap_push (m\<lparr>msg_DelayedTicks := d,
      msg_LastEnqueueTime := a, msg_msg_counter := k\<rparr>) (mb_prio_heap (ts_pool st ! out)) \<and>
    stalled_msgs (ts_pool st' ! i) = stalled_msgs (ts_pool st ! i) \<and>
    stalled_msgs (ts_pool st' ! out) = stalled_msgs (ts_pool st ! out) \<and>
    i < length (ts_pool st) \<and> out < length (ts_pool st) \<and>
    ts_pool st' = (ts_pool st)[i := ts_pool st' ! i, out := ts_pool st' ! out]"
  using assms(1)
proof (cases rule: move_messageE)
  case (1 msg dc in_mb' out_mb' msg' reqs es)
  have at: "ts_pool st' ! i = in_mb'" "ts_pool st' ! out = out_mb'" using 1(1,2,6) assms(2) by simp_all
  have old: "(ts_pool st)[i := in_mb'] ! out = ts_pool st ! out" using assms(2) by simp
  obtain m where m: "mb_prio_heap (ts_pool st ! i) = m # mb_prio_heap in_mb'" "msg_LastEnqueueTime m \<le> te_now env"
    "msg' = m\<lparr>msg_DelayedTicks := msg_DelayedTicks m + (te_now env - msg_LastEnqueueTime m)\<rparr>"
    "stalled_msgs in_mb' = stalled_msgs (ts_pool st ! i)"
    using mb_dequeue_message [OF 1(4)] by blast
  obtain arrival where o': "mb_prio_heap out_mb' = heap_push (msg'\<lparr>msg_DelayedTicks := msg_DelayedTicks msg' + (te_now env - msg_LastEnqueueTime msg'),
      msg_LastEnqueueTime := arrival, msg_msg_counter := mb_msg_counter (ts_pool st ! out) + 1\<rparr>) (mb_prio_heap (ts_pool st ! out))"
    "stalled_msgs out_mb' = stalled_msgs (ts_pool st ! out)"
    using mb_enqueue_message [OF 1(5)] unfolding old by blast
  have "mb_prio_heap out_mb' = heap_push (m\<lparr>msg_DelayedTicks := msg_DelayedTicks msg' + (te_now env - msg_LastEnqueueTime msg'),
      msg_LastEnqueueTime := arrival, msg_msg_counter := mb_msg_counter (ts_pool st ! out) + 1\<rparr>) (mb_prio_heap (ts_pool st ! out))"
    using o'(1) m(3) by simp
  then show ?thesis using m(1,2,4) o'(2) 1(1,2,6) unfolding at by blast
qed

lemma move_deliveries:
  assumes "move_message env v c i out st = Inr st'" and "i \<noteq> out"
  shows "pool_deliveries (ts_pool st') = pool_deliveries (ts_pool st)"
proof -
  obtain m d a k where h: "mb_prio_heap (ts_pool st ! i) = m # mb_prio_heap (ts_pool st' ! i)"
    "mb_prio_heap (ts_pool st' ! out) = heap_push (m\<lparr>msg_DelayedTicks := d,
      msg_LastEnqueueTime := a, msg_msg_counter := k\<rparr>) (mb_prio_heap (ts_pool st ! out))"
    "stalled_msgs (ts_pool st' ! i) = stalled_msgs (ts_pool st ! i)"
    "stalled_msgs (ts_pool st' ! out) = stalled_msgs (ts_pool st ! out)"
    "i < length (ts_pool st)" "out < length (ts_pool st)"
    "ts_pool st' = (ts_pool st)[i := ts_pool st' ! i, out := ts_pool st' ! out]"
    using move_message_bufs [OF assms] by blast
  have i: "buf_deliveries (ts_pool st ! i) = buf_deliveries (ts_pool st' ! i) + msg_deliveries m"
    using h(1,3) by (simp add: buf_deliveries_def)
  have out: "buf_deliveries (ts_pool st' ! out) = buf_deliveries (ts_pool st ! out) + msg_deliveries m"
    using h(2,4) by (simp add: buf_deliveries_def msg_deliveries_def)
  let ?p = "(ts_pool st)[i := ts_pool st' ! i]"
  have "pool_deliveries ?p + msg_deliveries m = pool_deliveries (ts_pool st)"
    using pool_deliveries_update [OF h(5), of "ts_pool st' ! i"] i by (simp add: add.commute add.left_commute)
  moreover have "pool_deliveries (?p[out := ts_pool st' ! out]) = pool_deliveries ?p + msg_deliveries m"
    using pool_deliveries_update [of out ?p "ts_pool st' ! out"] h(6) out assms(2) by (simp add: add.commute add.left_commute)
  ultimately show ?thesis using h(7) by metis
qed

lemma move_total:
  assumes "bufs_live env st" and "i \<in> th_ins (ts_th st)" and "out \<in> th_outs (ts_th st)" and "units_at v c st = Inr u"
    and "ready_at env i st" and "has_slot (te_now env) (ts_pool st ! out)"
  shows "\<exists>st'. move_message env v c i out st = Inr st' \<and> bufs_live env st'"
proof -
  let ?lat = "te_period env * th_link_latency (ts_th st)"
  have io: "i < length (ts_pool st)" "out < length (ts_pool st)" "i \<noteq> out"
    "mb_time_last_time_pop (ts_pool st ! i) \<le> te_now env" "mb_consumer (ts_pool st ! i) = Some (Throttle_consumer (th_switch_id (ts_th st)) (th_node (ts_th st)))"
    "out_buf_ok (te_now env) ?lat (ts_pool st ! out)"
    using assms(1-3) unfolding bufs_live_def by blast+
  obtain reqs where "mb_isReady (te_now env) (ts_pool st ! i) = Inr (True, reqs)"
    using assms(5) unfolding ready_at_def by (auto split: sum.splits)
  then obtain d msg' in_mb' where dq: "mb_dequeue (te_tick env) (te_now env) True (ts_pool st ! i) = Inr (d, msg', in_mb')"
    "mb_time_last_time_pop in_mb' \<le> te_now env"
    using mb_dequeue_succeeds by blast
  obtain m where m: "mb_prio_heap (ts_pool st ! i) = m # mb_prio_heap in_mb'" "msg_LastEnqueueTime m \<le> te_now env"
    "msg' = m\<lparr>msg_DelayedTicks := msg_DelayedTicks m + (te_now env - msg_LastEnqueueTime m)\<rparr>"
    "mb_consumer in_mb' = mb_consumer (ts_pool st ! i)"
    using mb_dequeue_message [OF dq(1)] by blast
  have pk: "mb_peek (ts_pool st ! i) = Inr m" using m(1) by (simp add: mb_peek_def heap_front_def)
  obtain out_mb' reqs' where e: "mb_enqueue (te_flags env) (te_now env) ?lat (te_rt env (ts_draws st)) False
      (Some msg') (ts_pool st ! out) = Inr (out_mb', reqs')" "out_buf_ok (te_now env) ?lat out_mb'"
    using mb_enqueue_succeeds [OF io(6) assms(6), of msg' "te_flags env" "te_rt env (ts_draws st)"] m(2,3) by auto
  let ?n = "network_message_to_size (te_network env) m"
  have lat: "th_link_latency (ts_th (set_units v c ?n st)) = th_link_latency (ts_th st)" by (simp add: set_units_def)
  obtain delay callback where d: "d = (delay, callback)" by (cases d)
  have "\<exists>st'. move_message env v c i out st = Inr st'"
    unfolding move_message_def Let_def using io pk dq e lat d by (simp add: deref_buf_ok)
  then obtain st' where mv: "move_message env v c i out st = Inr st'" ..
  have p: "ts_pool st' = (ts_pool st)[i := in_mb', out := out_mb']"
    using mv io pk dq e lat d unfolding move_message_def Let_def by (auto simp: deref_buf_ok)
  have same: "th_same (ts_th st) (ts_th st')"
    using mv
  proof (cases rule: move_messageE)
    case (1 msg d in_mb' out_mb' msg' reqs es)
    show ?thesis unfolding 1(7) by (rule th_same_trans [OF th_same_set_units [OF assms(4)] th_same_count])
  qed
  have lat': "th_link_latency (ts_th st') = th_link_latency (ts_th st)" "th_switch_id (ts_th st') = th_switch_id (ts_th st)"
    "th_node (ts_th st') = th_node (ts_th st)" using same by (simp_all add: th_same_def)
  have sets: "th_ins (ts_th st') = th_ins (ts_th st)" "th_outs (ts_th st') = th_outs (ts_th st)"
    using th_same_bufs [OF same] by simp_all
  have "bufs_live env st'"
    unfolding bufs_live_def sets lat' p
  proof (intro conjI ballI)
    show "th_ins (ts_th st) \<inter> th_outs (ts_th st) = {}" using assms(1) by (simp add: bufs_live_def)
  next
    fix j assume j: "j \<in> th_ins (ts_th st)"
    then have j': "j < length (ts_pool st)" "j \<noteq> out" "mb_time_last_time_pop (ts_pool st ! j) \<le> te_now env"
      "mb_consumer (ts_pool st ! j) = Some (Throttle_consumer (th_switch_id (ts_th st)) (th_node (ts_th st)))" using assms(1,3) unfolding bufs_live_def by blast+
    then show "j < length ((ts_pool st)[i := in_mb', out := out_mb'])" by simp
    show "mb_time_last_time_pop ((ts_pool st)[i := in_mb', out := out_mb'] ! j) \<le> te_now env"
      using j' dq(2) io(1) by (cases "j = i") simp_all
    show "mb_consumer ((ts_pool st)[i := in_mb', out := out_mb'] ! j) = Some (Throttle_consumer (th_switch_id (ts_th st)) (th_node (ts_th st)))"
      using j' m(4) io(1,5) by (cases "j = i") simp_all
  next
    fix j assume j: "j \<in> th_outs (ts_th st)"
    then have j': "j < length (ts_pool st)" "j \<noteq> i" "out_buf_ok (te_now env) ?lat (ts_pool st ! j)"
      using assms(1,2) unfolding bufs_live_def by blast+
    then show "j < length ((ts_pool st)[i := in_mb', out := out_mb'])" by simp
    show "out_buf_ok (te_now env) ?lat ((ts_pool st)[i := in_mb', out := out_mb'] ! j)"
      using j' e(2) io(2) by (cases "j = out") simp_all
  qed
  with mv show ?thesis by blast
qed

section \<open>A turn\<close>

lemma turn_total:
  assumes "bufs_live env st" and "i \<in> th_ins (ts_th st)" and "out \<in> th_outs (ts_th st)" and "units_at v c st = Inr u"
  shows "\<exists>again bw' tot' st'. throttle_turn env v c i out (bw, tot, st) = Inr (again, bw', tot', st') \<and> bufs_live env st' \<and>
    (again \<or> \<not> 0 < bw \<or> \<not> work_at env v c i st' \<or> \<not> has_slot (te_now env) (ts_pool st' ! out))"
proof (cases "0 < bw")
  case False
  then show ?thesis using assms(1) by (auto simp: throttle_turn_def)
next
  case bw: True
  obtain st1 where w: "pending_work env v c i st = Inr (work_at env v c i st, st1)" using pending_work_total [OF assms(1,2,4)] by blast
  have a1: "asks st st1" by (rule pending_work_asks [OF w])
  have l1: "bufs_live env st1" by (rule bufs_live_asks [OF assms(1) a1])
  have i: "i < length (ts_pool st)" and out: "out < length (ts_pool st)" "out < length (ts_pool st1)"
    using assms(1-3) pool_frame_length [of "ts_pool st" "ts_pool st1"] a1 unfolding bufs_live_def asks_def by auto
  show ?thesis
  proof (cases "work_at env v c i st")
    case False
    then show ?thesis using bw w l1 work_asks [OF a1 i] by (auto simp: throttle_turn_def)
  next
    case work: True
    obtain st2 where f: "buffer_free env out st1 = Inr (has_slot (te_now env) (ts_pool st1 ! out), st2)"
      using buffer_free_total [OF out(2)] by blast
    have a2: "asks st st2" by (rule asks_trans [OF a1 buffer_free_asks [OF f]])
    have l2: "bufs_live env st2" by (rule bufs_live_asks [OF assms(1) a2])
    have slot: "has_slot (te_now env) (ts_pool st2 ! out) = has_slot (te_now env) (ts_pool st1 ! out)"
      by (rule slot_asks [OF buffer_free_asks [OF f] out(2)])
    show ?thesis
    proof (cases "has_slot (te_now env) (ts_pool st1 ! out)")
      case False
      then show ?thesis using bw w work f l2 slot by (auto simp: throttle_turn_def)
    next
      case free: True
      have u2: "units_at v c st2 = Inr u" using asks_units [OF a2] assms(4) by simp
      have sets: "i \<in> th_ins (ts_th st2)" "out \<in> th_outs (ts_th st2)" using a2 assms(2,3) by (simp_all add: asks_def)
      show ?thesis
      proof (cases "u = 0")
        case False
        then show ?thesis using bw w work f free u2 bufs_live_units [OF u2] l2 by (auto simp: throttle_turn_def Let_def)
      next
        case True
        obtain st3 where r: "buffer_ready env i st2 = Inr (ready_at env i st2, st3)" using buffer_ready_total [OF l2 sets(1)] by blast
        have a23: "asks st2 st3" by (rule buffer_ready_asks [OF r])
        have ready: "ready_at env i st2" using work True assms(4) ready_asks [OF a2 i, of env] by (simp add: work_at_def units_at_Inr)
        have i2: "i < length (ts_pool st2)" "out < length (ts_pool st2)"
          using i out pool_frame_length [of "ts_pool st" "ts_pool st2"] a2 unfolding asks_def by auto
        have "\<exists>st4. move_message env v c i out st3 = Inr st4 \<and> bufs_live env st4"
        proof (rule move_total)
          show "bufs_live env st3" by (rule bufs_live_asks [OF l2 a23])
          show "i \<in> th_ins (ts_th st3)" "out \<in> th_outs (ts_th st3)" using sets a23 by (simp_all add: asks_def)
          show "units_at v c st3 = Inr 0" using asks_units [OF a23] u2 True by simp
          show "ready_at env i st3" using ready ready_asks [OF a23 i2(1), of env] by simp
          show "has_slot (te_now env) (ts_pool st3 ! out)" using slot_asks [OF a23 i2(2)] slot free by simp
        qed
        then obtain st4 where mv: "move_message env v c i out st3 = Inr st4" "bufs_live env st4" by blast
        have "units_at v c st3 = Inr 0" using asks_units [OF a23] u2 True by simp
        from move_units [OF mv(1) this] obtain s where u4: "units_at v c st4 = Inr s" by blast
        show ?thesis using bw w work f free u2 True r ready mv bufs_live_units [OF u4] u4 by (auto simp: throttle_turn_def Let_def)
      qed
    qed
  qed
qed


text \<open>What a channel leaves to the others.\<close>

definition leaves :: "'r throttle_env \<Rightarrow> nat \<times> nat \<Rightarrow> throttle_state \<Rightarrow> throttle_state \<Rightarrow> bool" where
  "leaves env x st st' \<longleftrightarrow> th_same (ts_th st) (ts_th st') \<and> pool_deliveries (ts_pool st') = pool_deliveries (ts_pool st) \<and>
    set (ts_effects st) \<subseteq> set (ts_effects st') \<and>
    (\<forall>v c. (v, c) \<noteq> x \<longrightarrow> th_units_remaining (ts_th st') ! v ! c = th_units_remaining (ts_th st) ! v ! c) \<and>
    (\<forall>i \<in> th_ins (ts_th st). head_due env i st' \<longrightarrow> head_due env i st)"

lemma leaves_refl [simp]: "leaves env x st st"
  by (simp add: leaves_def)

lemma leaves_trans: "leaves env x a b \<Longrightarrow> leaves env x b c \<Longrightarrow> leaves env x a c"
  unfolding leaves_def using th_same_trans [of "ts_th a" "ts_th b" "ts_th c"] th_same_bufs [of "ts_th a" "ts_th b"] by auto

lemma leaves_asks:
  assumes "asks st st'" and "\<forall>i \<in> th_ins (ts_th st). i < length (ts_pool st)"
  shows "leaves env x st st'"
proof -
  have frame: "pool_frame (ts_pool st) (ts_pool st')" using assms(1) by (simp add: asks_def)
  have "head_due env i st' = head_due env i st" if "i < length (ts_pool st)" for i
    using buf_frame_same(1) [OF pool_frame_nth [OF frame that]] by (simp add: head_due_def)
  then show ?thesis using assms pool_frame_deliveries(1) [OF frame] by (auto simp: leaves_def asks_def)
qed

lemma leaves_units:
  assumes "units_at v c st = Inr u"
  shows "leaves env (v, c) st (set_units v c n st)"
proof -
  have "th_units_remaining (ts_th (set_units v c n st)) ! v' ! c' = th_units_remaining (ts_th st) ! v' ! c'"
    if "(v', c') \<noteq> (v, c)" for v' c'
    using that assms by (cases "v' = v") (auto simp: set_units_def units_at_Inr nth_list_update)
  then show ?thesis using th_same_set_units [OF assms] by (simp add: leaves_def head_due_def)
qed

lemma leaves_move:
  assumes "move_message env v c i out st = Inr st'" and "units_at v c st = Inr 0" and "i \<noteq> out" and "out \<notin> th_ins (ts_th st)"
  shows "leaves env (v, c) st st'"
proof -
  obtain msg es where th: "ts_th st' = count_message env v msg (msg_LastEnqueueTime msg)
      (ts_th (set_units v c (network_message_to_size (te_network env) msg) st))" "ts_effects st' = ts_effects st @ es"
    using assms(1) by (cases rule: move_messageE) blast
  obtain m where h: "mb_prio_heap (ts_pool st ! i) = m # mb_prio_heap (ts_pool st' ! i)" "msg_LastEnqueueTime m \<le> te_now env"
    "ts_pool st' = (ts_pool st)[i := ts_pool st' ! i, out := ts_pool st' ! out]"
    using move_message_bufs [OF assms(1,3)] by blast
  have other: "ts_pool st' ! j = ts_pool st ! j" if "j \<noteq> i" "j \<noteq> out" for j
    by (subst h(3)) (use that in simp)
  have "head_due env j st" if "j \<in> th_ins (ts_th st)" "head_due env j st'" for j
  proof (cases "j = i")
    case True
    then show ?thesis using h(1,2) by (simp add: head_due_def)
  next
    case False
    have "j \<noteq> out" using that(1) assms(4) by blast
    with other [OF False this] that(2) show ?thesis by (simp add: head_due_def)
  qed
  moreover have "th_units_remaining (ts_th st') ! v' ! c' = th_units_remaining (ts_th st) ! v' ! c'" if "(v', c') \<noteq> (v, c)" for v' c'
    using leaves_units [OF assms(2), of env] that unfolding th(1) leaves_def by simp
  moreover have "th_same (ts_th st) (ts_th st')" using move_units [OF assms(1,2)] by blast
  ultimately show ?thesis using move_deliveries [OF assms(1,3)] th(2) by (simp add: leaves_def)
qed

lemma turn_leaves:
  assumes "throttle_turn env v c i out (bw, tot, st) = Inr (again, bw', tot', st')" and "bufs_live env st"
    and "i \<in> th_ins (ts_th st)" and "out \<in> th_outs (ts_th st)"
  shows "leaves env (v, c) st st'"
proof -
  have io: "\<forall>i \<in> th_ins (ts_th st). i < length (ts_pool st)" "i \<noteq> out" "out \<notin> th_ins (ts_th st)"
    using assms(2-4) unfolding bufs_live_def by blast+
  show ?thesis
    using assms(1)
  proof (cases rule: throttle_turnE)
    case stop
    show ?thesis by (rule leaves_asks [OF stop(4) io(1)])
  next
    case (spend u st1)
    show ?thesis unfolding spend(8) by (rule leaves_trans [OF leaves_asks [OF spend(3) io(1)] leaves_units [OF spend(4)]])
  next
    case (moved st1 st4 s)
    have "out \<notin> th_ins (ts_th st1)" using io(3) moved(3) by (simp add: asks_def)
    from leaves_move [OF moved(5,4) io(2) this] show ?thesis unfolding moved(9)
      by (rule leaves_trans [OF leaves_trans [OF leaves_asks [OF moved(3) io(1)]] leaves_units [OF moved(6)]])
  qed
qed

section \<open>The loop over a channel\<close>

definition loop_inv :: "'r throttle_env \<Rightarrow> nat \<times> nat \<Rightarrow> int \<times> int \<times> throttle_state \<Rightarrow> int \<times> int \<times> throttle_state \<Rightarrow> bool" where
  "loop_inv env x = (\<lambda>(bw, tot, st) (bw', tot', st').
    bufs_live env st' \<and> units_nonneg (ts_th st') \<and> leaves env x st st' \<and> 0 \<le> bw' \<and> bw' \<le> bw \<and> tot - tot' = bw - bw' \<and>
    account (tot', st') = account (tot, st))"

lemma loop_total:
  assumes "bufs_live env st" and "units_nonneg (ts_th st)" and "sizes_ok (te_network env)" and "0 \<le> bw"
    and "i \<in> th_ins (ts_th st)" and "out \<in> th_outs (ts_th st)" and "units_at v c st = Inr u"
  shows "\<exists>bw' tot' st'. throttle_loop env v c i out (bw, tot, st) = retO (bw', tot', st') \<and>
    loop_inv env (v, c) (bw, tot, st) (bw', tot', st') \<and>
    (bw' = 0 \<or> \<not> work_at env v c i st' \<or> \<not> has_slot (te_now env) (ts_pool st' ! out))"
proof -
  let ?I = "loop_inv env (v, c) (bw, tot, st)"
  let ?turn = "throttle_turn env v c i out"
  have turn: "\<exists>again s'. ?turn s = Inr (again, s') \<and> ?I s' \<and> (again \<longrightarrow> nat (fst s') < nat (fst s)) \<and>
      (again \<or> fst s' = 0 \<or> \<not> work_at env v c i (snd (snd s')) \<or> \<not> has_slot (te_now env) (ts_pool (snd (snd s')) ! out))"
    if I: "?I s" for s
  proof -
    obtain b t r where s: "s = (b, t, r)" by (cases s)
    have same: "th_same (ts_th st) (ts_th r)" and live: "bufs_live env r" and nn: "units_nonneg (ts_th r)" "0 \<le> b"
      using I s by (auto simp: loop_inv_def leaves_def)
    have sets: "i \<in> th_ins (ts_th r)" "out \<in> th_outs (ts_th r)" using th_same_bufs [OF same] assms(5,6) by simp_all
    have "map length (th_units_remaining (ts_th r)) = map length (th_units_remaining (ts_th st))" using same by (simp add: th_same_def)
    then have "\<exists>u. units_at v c r = Inr u" using assms(7) unfolding units_at_Inr by (metis length_map nth_map)
    then obtain u' where u': "units_at v c r = Inr u'" ..
    obtain again b' t' r' where tn: "?turn (b, t, r) = Inr (again, b', t', r')" "bufs_live env r'"
      "again \<or> \<not> 0 < b \<or> \<not> work_at env v c i r' \<or> \<not> has_slot (te_now env) (ts_pool r' ! out)"
      using turn_total [OF live sets u', of b t] by blast
    have k: "leaves env (v, c) r r'" by (rule turn_leaves [OF tn(1) live sets])
    have acc: "account (t', r') = account (t, r) \<and> t - t' = b - b' \<and> 0 \<le> b' \<and> units_nonneg (ts_th r') \<and> b' \<le> b \<and>
        (again \<longrightarrow> b' < b \<and> 0 < b)"
      using throttle_turn_account [OF tn(1)] nn assms(3) by simp
    have "?I (b', t', r')" using I s acc tn(2) leaves_trans [OF _ k] by (auto simp: loop_inv_def)
    moreover have "\<not> 0 < b \<longrightarrow> b' = 0" using acc nn(2) by auto
    ultimately show ?thesis using s tn(1,3) acc by fastforce
  qed
  have start: "?I (bw, tot, st)" using assms(1,2,4) by (simp add: loop_inv_def)
  have "\<exists>t. repeatO ?turn (bw, tot, st) = retO t \<and> ?I t"
    by (rule repeat_total [where P = ?I and f = "nat \<circ> fst", OF start]) (use turn in fastforce)
  then obtain t where t: "repeatO ?turn (bw, tot, st) = retO t" "?I t" by blast
  have "\<exists>w. ?I w \<and> ?turn w = Inr (False, t)"
    by (rule repeat_exit [where P = ?I, OF t(1) start]) (use turn in fastforce)
  then obtain w where w: "?I w" "?turn w = Inr (False, t)" by blast
  obtain b' t' r' where tt: "t = (b', t', r')" by (cases t)
  have "b' = 0 \<or> \<not> work_at env v c i r' \<or> \<not> has_slot (te_now env) (ts_pool r' ! out)"
    using turn [OF w(1)] w(2) tt by auto
  with t tt show ?thesis unfolding throttle_loop_def by blast
qed


section \<open>A channel\<close>

definition link_bw :: "Throttle \<Rightarrow> nat \<Rightarrow> int" where
  "link_bw th v = th_endpoint_bandwidth th * th_link_bandwidth_multiplier th ! (if th_physical_vnets th then v else 0)"

lemma link_bw_ok:
  assumes "throttle_ok th" and "v < th_vnets th \<or> \<not> th_physical_vnets th"
  shows "getLinkBandwidth v th = Inr (link_bw th v)" "0 < link_bw th v"
proof -
  have "0 < th_link_bandwidth_multiplier th ! (if th_physical_vnets th then v else 0) \<and>
      (if th_physical_vnets th then v else 0) < length (th_link_bandwidth_multiplier th)"
    using assms by (auto simp: throttle_ok_def split: if_splits)
  with assms show "getLinkBandwidth v th = Inr (link_bw th v)" "0 < link_bw th v"
    by (auto simp: getLinkBandwidth_def link_bw_def nthR_def throttle_ok_def split: if_splits)
qed

lemma channel_count_ok:
  assumes "throttle_ok th" and "v < th_vnets th \<or> \<not> th_physical_vnets th"
  shows "getChannelCnt v th = Inr (int (channels_at th v))" "0 < channels_at th v"
proof -
  have "0 < th_vnet_channels th ! v \<and> v < length (th_vnet_channels th)" if "th_physical_vnets th"
    using assms that by (simp add: throttle_ok_def)
  then show "getChannelCnt v th = Inr (int (channels_at th v))" "0 < channels_at th v"
    by (auto simp: getChannelCnt_def channels_at_def nthR_def)
qed

text \<open>A channel is idle when nothing is due and everything is paid for.\<close>

definition idle_at :: "'r throttle_env \<Rightarrow> nat \<times> nat \<Rightarrow> throttle_state \<Rightarrow> bool" where
  "idle_at env = (\<lambda>(v, c) st. \<forall>i out. th_in (ts_th st) ! v = Some i \<longrightarrow> th_out (ts_th st) ! v = Some out \<longrightarrow>
    \<not> head_due env i st \<and> th_units_remaining (ts_th st) ! v ! c = 0)"

definition asleep_ok :: "'r throttle_env \<Rightarrow> nat \<times> nat \<Rightarrow> int \<times> bool \<times> bool \<times> throttle_state \<Rightarrow> bool" where
  "asleep_ok env x = (\<lambda>(tot, sat, blk, st). idle_at env x st \<or> sat \<or> blk \<or>
    Reschedule (Throttle_consumer (th_switch_id (ts_th st)) (th_node (ts_th st))) 1 \<in> set (ts_effects st))"

lemma isReady_limited:
  assumes "mb_isReady now mb = Inr (False, reqs)" and "mb_prio_heap mb = m # ms" and "msg_LastEnqueueTime m \<le> now"
    and "mb_consumer mb = Some c"
  shows "reqs = [Wake_in c 1]"
  using assms by (auto simp: mb_isReady_def Let_def guardR_def split: if_splits)

lemma pending_work_limited:
  assumes "bufs_live env st" and "i \<in> th_ins (ts_th st)" and "pending_work env v c i st = Inr (False, st')" and "head_due env i st"
  shows "Reschedule (Throttle_consumer (th_switch_id (ts_th st)) (th_node (ts_th st))) 1 \<in> set (ts_effects st')"
proof -
  have b: "buffer_ready env i st = Inr (False, st')" using assms(3) by (auto simp: pending_work_def res_simps)
  then obtain reqs where r: "mb_isReady (te_now env) (ts_pool st ! i) = Inr (False, reqs)"
    "ts_effects st' = ts_effects st @ map (effect_of (ts_pool st ! i)) reqs"
    by (auto simp: buffer_ready_def res_simps)
  have "reqs = [Wake_in (Throttle_consumer (th_switch_id (ts_th st)) (th_node (ts_th st))) 1]"
    using isReady_limited [OF r(1)] assms(1,2,4) unfolding head_due_def bufs_live_def by blast
  with r(2) show ?thesis by simp
qed

lemma leaves_idle:
  assumes "leaves env x st st'" and "y \<noteq> x" and "fst y < length (th_in (ts_th st))" and "idle_at env y st"
  shows "idle_at env y st'"
proof -
  have same: "th_in (ts_th st') = th_in (ts_th st)" "th_out (ts_th st') = th_out (ts_th st)"
    using assms(1) by (auto simp: leaves_def th_same_def)
  obtain v c where y: "y = (v, c)" by (cases y)
  have "i \<in> th_ins (ts_th st)" if "th_in (ts_th st) ! v = Some i" for i
    using assms(3) that y nth_mem [of v "th_in (ts_th st)"] by (simp add: th_ins_def)
  moreover have "\<not> head_due env i st'" if "i \<in> th_ins (ts_th st)" "\<not> head_due env i st" for i
    using assms(1) that unfolding leaves_def by blast
  moreover have "th_units_remaining (ts_th st') ! v ! c = th_units_remaining (ts_th st) ! v ! c"
    using assms(1,2) y unfolding leaves_def by blast
  ultimately show ?thesis using assms(4) same unfolding y idle_at_def by simp
qed

lemma report_total:
  assumes "bufs_live env st" and "i \<in> th_ins (ts_th st)" and "out \<in> th_outs (ts_th st)" and "units_at v c st = Inr u"
    and "0 \<le> u" "0 \<le> bw" "0 \<le> tot" and "bw = 0 \<or> \<not> work_at env v c i st \<or> \<not> has_slot (te_now env) (ts_pool st ! out)"
  shows "\<exists>sat' blk' st'. throttle_report env v c i out (bw, tot, st) (sat, blk) = Inr (tot, sat', blk', st') \<and> asks st st' \<and>
    (sat \<longrightarrow> sat') \<and> (blk \<longrightarrow> blk') \<and>
    (\<not> head_due env i st \<and> u = 0 \<or> sat' \<or> blk' \<or>
      Reschedule (Throttle_consumer (th_switch_id (ts_th st)) (th_node (ts_th st))) 1 \<in> set (ts_effects st'))"
proof -
  obtain st1 where w: "pending_work env v c i st = Inr (work_at env v c i st, st1)" using pending_work_total [OF assms(1,2,4)] by blast
  have a1: "asks st st1" by (rule pending_work_asks [OF w])
  have out: "out < length (ts_pool st)" "out < length (ts_pool st1)"
    using assms(1,3) pool_frame_length [of "ts_pool st" "ts_pool st1"] a1 unfolding bufs_live_def asks_def by auto
  show ?thesis
  proof (cases "work_at env v c i st")
    case False
    then have "u = 0" using assms(4,5) by (auto simp: work_at_def units_at_Inr)
    moreover have "throttle_report env v c i out (bw, tot, st) (sat, blk) = Inr (tot, sat, blk, st1)"
      using w False assms(4-7) by (simp add: throttle_report_def)
    moreover have "head_due env i st \<longrightarrow>
        Reschedule (Throttle_consumer (th_switch_id (ts_th st)) (th_node (ts_th st))) 1 \<in> set (ts_effects st1)"
      using pending_work_limited [OF assms(1,2), of v c st1] w False by auto
    ultimately show ?thesis using a1 by blast
  next
    case work: True
    obtain st2 where f: "buffer_free env out st1 = Inr (has_slot (te_now env) (ts_pool st1 ! out), st2)"
      using buffer_free_total [OF out(2)] by blast
    show ?thesis
    proof (cases "bw = 0")
      case True
      then have "throttle_report env v c i out (bw, tot, st) (sat, blk) =
          (if blk then Inr (tot, True, True, st1) else Inr (tot, True, \<not> has_slot (te_now env) (ts_pool st1 ! out), st2))"
        using w work f assms(4-7) by (simp add: throttle_report_def)
      then show ?thesis using a1 asks_trans [OF a1 buffer_free_asks [OF f]] by (cases blk) auto
    next
      case False
      have a2: "asks st st2" by (rule asks_trans [OF a1 buffer_free_asks [OF f]])
      have no: "\<not> has_slot (te_now env) (ts_pool st1 ! out)" "\<not> has_slot (te_now env) (ts_pool st2 ! out)"
        using assms(8) False work slot_asks [OF a1 out(1)] slot_asks [OF a2 out(1)] by auto
      have "out < length (ts_pool st2)" using out(1) pool_frame_length [of "ts_pool st" "ts_pool st2"] a2 by (simp add: asks_def)
      then obtain st3 where f3: "buffer_free env out st2 = Inr (has_slot (te_now env) (ts_pool st2 ! out), st3)"
        using buffer_free_total by blast
      have "throttle_report env v c i out (bw, tot, st) (sat, blk) =
          Inr (tot, sat, True, if blk then st2 else st3)"
        using w work f f3 no False assms(4-7) by (simp add: throttle_report_def)
      then show ?thesis using a2 asks_trans [OF a2 buffer_free_asks [OF f3]] by (cases blk) auto
    qed
  qed
qed


lemma units_at_nonneg: "units_at v c st = Inr u \<Longrightarrow> units_nonneg (ts_th st) \<Longrightarrow> 0 \<le> u"
  unfolding units_at_Inr units_nonneg_def using nth_mem by metis

lemma channel_total:
  assumes "th_live env st" and "sizes_ok (te_network env)" and v: "v < th_vnets (ts_th st)" "c < channels_at (ts_th st) v"
    and tot: "0 \<le> tot" "th_physical_vnets (ts_th st) \<longrightarrow> link_bw (ts_th st) v \<le> tot"
  shows "\<exists>tot' sat' blk' st'. th_operateVnet env (v, c) (tot, sat, blk, st) = retO (tot', sat', blk', st') \<and>
    th_live env st' \<and> leaves env (v, c) st st' \<and> account (tot', st') = account (tot, st) \<and> 0 \<le> tot' \<and> tot' \<le> tot \<and>
    (th_physical_vnets (ts_th st) \<longrightarrow> tot - link_bw (ts_th st) v \<le> tot') \<and> (sat \<longrightarrow> sat') \<and> (blk \<longrightarrow> blk') \<and>
    asleep_ok env (v, c) (tot', sat', blk', st')"
proof -
  let ?th = "ts_th st"
  have ok: "throttle_ok ?th" "units_nonneg ?th" "bufs_live env st" using assms(1) by (auto simp: th_live_def)
  then have lens: "v < length (th_in ?th)" "v < length (th_out ?th)" using v(1) by (auto simp: throttle_ok_def)
  have ports: "nthR (th_in ?th) (int v) = Inr (th_in ?th ! v)" "nthR (th_out ?th) (int v) = Inr (th_out ?th ! v)"
    using lens by (simp_all add: nthR_def)
  show ?thesis
  proof (cases "\<exists>i out. th_in ?th ! v = Some i \<and> th_out ?th ! v = Some out")
    case False
    then have "th_operateVnet env (v, c) (tot, sat, blk, st) = retO (tot, sat, blk, st)"
      using ports by (auto simp: th_operateVnet_def split: option.splits)
    then show ?thesis using False assms(1) tot link_bw_ok(2) [OF ok(1), of v] v(1)
      by (auto simp: asleep_ok_def idle_at_def)
  next
    case True
    then obtain i out where io: "th_in ?th ! v = Some i" "th_out ?th ! v = Some out" by blast
    have sets: "i \<in> th_ins ?th" "out \<in> th_outs ?th"
      using io lens nth_mem [of v "th_in ?th"] nth_mem [of v "th_out ?th"] by (auto simp: th_ins_def th_outs_def)
    have in_len: "\<forall>i \<in> th_ins ?th. i < length (ts_pool st)" using ok(3) by (simp add: bufs_live_def)
    note un = throttle_units [OF ok(1) v]
    note nn = units_at_nonneg [OF un ok(2)]
    let ?bw = "if th_physical_vnets ?th then link_bw ?th v else tot"
    have bw: "(if th_physical_vnets ?th then getLinkBandwidth v ?th else Inr tot) = Inr ?bw" "0 \<le> ?bw" "?bw \<le> tot"
      using link_bw_ok [OF ok(1), of v] v(1) tot by auto
    obtain bw' tot' st1 where lp: "throttle_loop env v c i out (?bw, tot, st) = retO (bw', tot', st1)"
      "loop_inv env (v, c) (?bw, tot, st) (bw', tot', st1)"
      "bw' = 0 \<or> \<not> work_at env v c i st1 \<or> \<not> has_slot (te_now env) (ts_pool st1 ! out)"
      using loop_total [OF ok(3,2) assms(2) bw(2) sets un] by blast
    have inv: "bufs_live env st1" "units_nonneg (ts_th st1)" "leaves env (v, c) st st1" "0 \<le> bw'" "bw' \<le> ?bw" "tot - tot' = ?bw - bw'"
      "account (tot', st1) = account (tot, st)" using lp(2) by (simp_all add: loop_inv_def)
    have same: "th_same ?th (ts_th st1)" using inv(3) by (simp add: leaves_def)
    have ok1: "throttle_ok (ts_th st1)" "v < th_vnets (ts_th st1)" "c < channels_at (ts_th st1) v"
      using throttle_ok_same [OF same] th_same_channels [OF same] ok(1) v same by (simp_all add: th_same_def)
    note un1 = throttle_units [OF ok1]
    note nn1 = units_at_nonneg [OF un1 inv(2)]
    have sets1: "i \<in> th_ins (ts_th st1)" "out \<in> th_outs (ts_th st1)" using th_same_bufs [OF same] sets by simp_all
    have tot': "0 \<le> tot'" using inv(4,6) bw(3) by simp
    obtain sat' blk' st2 where rp: "throttle_report env v c i out (bw', tot', st1) (sat, blk) = Inr (tot', sat', blk', st2)"
      "asks st1 st2" "sat \<longrightarrow> sat'" "blk \<longrightarrow> blk'"
      "\<not> head_due env i st1 \<and> th_units_remaining (ts_th st1) ! v ! c = 0 \<or> sat' \<or> blk' \<or>
        Reschedule (Throttle_consumer (th_switch_id (ts_th st1)) (th_node (ts_th st1))) 1 \<in> set (ts_effects st2)"
      using report_total [OF inv(1) sets1 un1 nn1 inv(4) tot' lp(3), of sat blk]
      by (elim exE conjE) (rule that, assumption+)
    have th2: "ts_th st2 = ts_th st1" using rp(2) by (simp add: asks_def)
    have op: "th_operateVnet env (v, c) (tot, sat, blk, st) = retO (tot', sat', blk', st2)"
      using ports io un nn bw(1) lp(1) rp(1) by (simp add: th_operateVnet_def retO_def)
    have len1: "\<forall>i \<in> th_ins (ts_th st1). i < length (ts_pool st1)" using inv(1) by (simp add: bufs_live_def)
    have k12: "leaves env (v, c) st1 st2" by (rule leaves_asks [OF rp(2) len1])
    have "leaves env (v, c) st st2" by (rule leaves_trans [OF inv(3) k12])
    moreover have "th_live env st2"
      using ok1(1) inv(2) bufs_live_asks [OF inv(1) rp(2)] by (simp add: th_live_def th2)
    moreover have "account (tot', st2) = account (tot, st)" using asks_account [OF rp(2)] inv(7) by simp
    moreover have "asleep_ok env (v, c) (tot', sat', blk', st2)"
    proof -
      have "th_in (ts_th st1) ! v = Some i" using io same by (simp add: th_same_def)
      moreover have "head_due env i st2 \<longrightarrow> head_due env i st1" using k12 sets1(1) by (simp add: leaves_def)
      ultimately show ?thesis using rp(5) by (auto simp: asleep_ok_def idle_at_def th2)
    qed
    ultimately show ?thesis using op rp(3,4) tot' inv(4,5,6) by (auto split: if_splits)
  qed
qed

section \<open>All channels\<close>

definition channel_list :: "Throttle \<Rightarrow> nat list \<Rightarrow> (nat \<times> nat) list" where
  "channel_list th vs = concat (map (\<lambda>v. map (Pair v) [0..<channels_at th v]) vs)"

definition bw_need :: "Throttle \<Rightarrow> (nat \<times> nat) list \<Rightarrow> int" where
  "bw_need th cs = (\<Sum>(v, c)\<leftarrow>cs. link_bw th v)"

lemma channels_total:
  assumes "throttle_ok th"
  shows "th_channels dir th = Inr (channel_list th (if dir then [0..<th_vnets th] else rev [0..<th_vnets th]))"
proof -
  have "foldR (\<lambda>vnet cs. bindR (getChannelCnt vnet th) (\<lambda>n. Inr (cs @ map (Pair vnet) [0..<nat n]))) vs cs =
      Inr (cs @ channel_list th vs)" if "\<forall>v \<in> set vs. v < th_vnets th" for vs cs
    using that
  proof (induction vs arbitrary: cs)
    case Nil
    then show ?case by (simp add: channel_list_def)
  next
    case (Cons v vs)
    then show ?case using channel_count_ok(1) [OF assms, of v] by (simp add: channel_list_def)
  qed
  from this [of "if dir then [0..<th_vnets th] else rev [0..<th_vnets th]" "[]"] show ?thesis by (simp add: th_channels_def)
qed

lemma bw_need_channels: "bw_need th (channel_list th vs) = (\<Sum>v\<leftarrow>vs. link_bw th v * int (channels_at th v))"
proof (induction vs)
  case Nil
  then show ?case by (simp add: bw_need_def channel_list_def)
next
  case (Cons v vs)
  have "(\<Sum>(v, c)\<leftarrow>map (Pair v) [0..<n]. link_bw th v) = link_bw th v * int n" for n
    by (induction n) (simp_all add: algebra_simps)
  with Cons show ?case by (simp add: bw_need_def channel_list_def)
qed

lemma total_bandwidth:
  assumes "throttle_ok th"
  shows "\<exists>b. getTotalLinkBandwidth th = Inr b \<and> 0 < b \<and>
    (th_physical_vnets th \<longrightarrow> b = bw_need th (channel_list th (if dir then [0..<th_vnets th] else rev [0..<th_vnets th])))"
proof -
  let ?f = "\<lambda>v. link_bw th v * int (channels_at th v)"
  have vb: "vnet_bandwidth v th = Inr (?f v)" "0 < ?f v" if "v < th_vnets th \<or> \<not> th_physical_vnets th" for v
    using link_bw_ok [OF assms that] channel_count_ok [OF assms that] by (simp_all add: vnet_bandwidth_def)
  show ?thesis
  proof (cases "th_physical_vnets th")
    case False
    then show ?thesis using vb [of 0] by (simp add: getTotalLinkBandwidth_def)
  next
    case True
    then have n: "0 < th_vnets th" using assms by (simp add: throttle_ok_def)
    have sum: "foldR (\<lambda>i sum. bindR (vnet_bandwidth i th) (\<lambda>b. Inr (sum + b))) vs s = Inr (s + (\<Sum>v\<leftarrow>vs. ?f v))"
      if "\<forall>v \<in> set vs. v < th_vnets th" for vs s
      using that
    proof (induction vs arbitrary: s)
      case Nil
      then show ?case by simp
    next
      case (Cons v vs)
      then show ?case using vb(1) [of v] by simp
    qed
    let ?vs = "if dir then [0..<th_vnets th] else rev [0..<th_vnets th]"
    have "[0..<th_vnets th] = 0 # [1..<th_vnets th]" using n by (simp add: upt_conv_Cons)
    then have all: "(\<Sum>v\<leftarrow>[0..<th_vnets th]. ?f v) = ?f 0 + (\<Sum>v\<leftarrow>[1..<th_vnets th]. ?f v)" by simp
    have "(\<Sum>v\<leftarrow>?vs. ?f v) = (\<Sum>v\<leftarrow>[0..<th_vnets th]. ?f v)" by (simp add: rev_map [symmetric])
    then have "bw_need th (channel_list th ?vs) = ?f 0 + (\<Sum>v\<leftarrow>[1..<th_vnets th]. ?f v)" using all by (simp add: bw_need_channels)
    moreover have "getTotalLinkBandwidth th = Inr (?f 0 + (\<Sum>v\<leftarrow>[1..<th_vnets th]. ?f v))"
      using True vb(1) [of 0] n sum [of "[1..<th_vnets th]"] by (simp add: getTotalLinkBandwidth_def)
    moreover have "0 \<le> (\<Sum>v\<leftarrow>[1..<th_vnets th]. ?f v)"
      by (rule sum_list_nonneg) (use vb(2) in \<open>auto simp: less_imp_le\<close>)
    ultimately show ?thesis using vb(2) [of 0] n by simp
  qed
qed


section \<open>A wakeup\<close>

definition walk_inv ::
    "'r throttle_env \<Rightarrow> (nat \<times> nat) list \<Rightarrow> int \<Rightarrow> throttle_state \<Rightarrow> (nat \<times> nat) list \<Rightarrow> int \<times> bool \<times> bool \<times> throttle_state \<Rightarrow> bool" where
  "walk_inv env cs bw st rest = (\<lambda>(tot, sat, blk, st').
    th_live env st' \<and> th_same (ts_th st) (ts_th st') \<and> set rest \<subseteq> set cs \<and> 0 \<le> tot \<and> tot \<le> bw \<and>
    (th_physical_vnets (ts_th st) \<longrightarrow> bw_need (ts_th st) rest \<le> tot) \<and>
    pool_deliveries (ts_pool st') = pool_deliveries (ts_pool st) \<and> account (tot, st') = account (bw, st) \<and>
    (\<forall>x \<in> set cs. x \<notin> set rest \<longrightarrow> asleep_ok env x (tot, sat, blk, st')))"

lemma asleep_kept:
  assumes "asleep_ok env y (tot, sat, blk, st)" and "leaves env x st st'" and "y \<noteq> x" and "fst y < length (th_in (ts_th st))"
    and "sat \<longrightarrow> sat'" "blk \<longrightarrow> blk'"
  shows "asleep_ok env y (tot', sat', blk', st')"
proof -
  have "th_switch_id (ts_th st') = th_switch_id (ts_th st)" "th_node (ts_th st') = th_node (ts_th st)"
    "set (ts_effects st) \<subseteq> set (ts_effects st')" using assms(2) by (auto simp: leaves_def th_same_def)
  then show ?thesis using assms(1,5,6) leaves_idle [OF assms(2,3,4)] by (auto simp: asleep_ok_def)
qed

lemma link_bw_same: "th_same a b \<Longrightarrow> link_bw b = link_bw a"
  by (simp add: th_same_def link_bw_def fun_eq_iff)

lemma walk_step:
  assumes "walk_inv env cs bw st (x # rest) s" and "sizes_ok (te_network env)"
    and cs: "\<forall>(v, c) \<in> set cs. v < th_vnets (ts_th st) \<and> c < channels_at (ts_th st) v" and ok: "throttle_ok (ts_th st)"
  shows "\<exists>s'. th_operateVnet env x s = retO s' \<and> walk_inv env cs bw st rest s'"
proof -
  obtain tot sat blk r where s: "s = (tot, sat, blk, r)" by (cases s)
  obtain v c where x: "x = (v, c)" by (cases x)
  have w: "th_live env r" "th_same (ts_th st) (ts_th r)" "set (x # rest) \<subseteq> set cs" "0 \<le> tot" "tot \<le> bw"
    "th_physical_vnets (ts_th st) \<longrightarrow> bw_need (ts_th st) (x # rest) \<le> tot"
    "pool_deliveries (ts_pool r) = pool_deliveries (ts_pool st)" "account (tot, r) = account (bw, st)"
    "\<forall>y \<in> set cs. y \<notin> set (x # rest) \<longrightarrow> asleep_ok env y (tot, sat, blk, r)"
    using assms(1) by (simp_all add: walk_inv_def s)
  have same: "th_vnets (ts_th r) = th_vnets (ts_th st)" "th_physical_vnets (ts_th r) = th_physical_vnets (ts_th st)"
    "th_in (ts_th r) = th_in (ts_th st)" using w(2) by (simp_all add: th_same_def)
  have at: "v < th_vnets (ts_th r)" "c < channels_at (ts_th r) v"
    using cs w(3) x same(1) th_same_channels [OF w(2)] by auto
  have "0 \<le> bw_need (ts_th st) rest" if "th_physical_vnets (ts_th st)"
    unfolding bw_need_def
  proof (rule sum_list_nonneg)
    fix b assume "b \<in> set (map (\<lambda>(v, c). link_bw (ts_th st) v) rest)"
    then obtain v c where "b = link_bw (ts_th st) v" "(v, c) \<in> set cs" using w(3) by auto
    then show "0 \<le> b" using link_bw_ok(2) [OF ok, of v] cs by auto
  qed
  then have need: "th_physical_vnets (ts_th r) \<longrightarrow> link_bw (ts_th r) v \<le> tot"
    using w(6) x unfolding same link_bw_same [OF w(2)] by (auto simp: bw_need_def)
  obtain tot' sat' blk' r' where o': "th_operateVnet env (v, c) (tot, sat, blk, r) = retO (tot', sat', blk', r')"
    "th_live env r'" "leaves env (v, c) r r'" "account (tot', r') = account (tot, r)" "0 \<le> tot'" "tot' \<le> tot"
    "th_physical_vnets (ts_th r) \<longrightarrow> tot - link_bw (ts_th r) v \<le> tot'" "sat \<longrightarrow> sat'" "blk \<longrightarrow> blk'"
    "asleep_ok env (v, c) (tot', sat', blk', r')"
    using channel_total [OF w(1) assms(2) at w(4) need, of sat blk]
    by (elim exE conjE) (rule that, assumption+)
  have "asleep_ok env y (tot', sat', blk', r')" if "y \<in> set cs" "y \<notin> set rest" for y
  proof (cases "y = x")
    case True
    with o'(10) x show ?thesis by simp
  next
    case False
    then have "asleep_ok env y (tot, sat, blk, r)" using w(9) that by simp
    moreover have "fst y < length (th_in (ts_th r))"
      using cs that(1) ok unfolding same(3) by (auto simp: throttle_ok_def)
    ultimately show ?thesis using asleep_kept [OF _ o'(3) _ _ o'(8,9)] False x by blast
  qed
  moreover have "th_same (ts_th st) (ts_th r')" using th_same_trans [OF w(2)] o'(3) by (simp add: leaves_def)
  moreover have "th_physical_vnets (ts_th st) \<longrightarrow> bw_need (ts_th st) rest \<le> tot'"
    using o'(7) w(6) x unfolding same link_bw_same [OF w(2)] by (auto simp: bw_need_def)
  moreover have "pool_deliveries (ts_pool r') = pool_deliveries (ts_pool st)" using o'(3) w(7) by (simp add: leaves_def)
  ultimately have "walk_inv env cs bw st rest (tot', sat', blk', r')"
    using w(3,5,8) o'(2,4,5,6) by (simp add: walk_inv_def)
  with o'(1) s x show ?thesis by blast
qed

lemma channel_list_mem: "(v, c) \<in> set (channel_list th vs) \<longleftrightarrow> v \<in> set vs \<and> c < channels_at th v"
  by (auto simp: channel_list_def image_iff)

definition wakeup_done :: "'r throttle_env \<Rightarrow> int \<Rightarrow> throttle_state \<Rightarrow> throttle_state \<Rightarrow> bool" where
  "wakeup_done env bw st st' \<longleftrightarrow> th_live env st' \<and> th_same (ts_th st) (ts_th st') \<and>
    pool_deliveries (ts_pool st') = pool_deliveries (ts_pool st) \<and>
    (\<exists>spent. 0 \<le> spent \<and> spent \<le> bw \<and>
      MESSAGE_SIZE_MULTIPLIER * (bytes_of st' - bytes_of st) = spent + (units_total (ts_th st') - units_total (ts_th st))) \<and>
    (\<forall>v < th_vnets (ts_th st). \<forall>c < channels_at (ts_th st) v. idle_at env (v, c) st' \<or>
      Reschedule (Throttle_consumer (th_switch_id (ts_th st)) (th_node (ts_th st))) 1 \<in> set (ts_effects st'))"

lemma th_wakeup_total:
  assumes "th_live env st" and "sizes_ok (te_network env)"
  shows "\<exists>bw st'. getTotalLinkBandwidth (ts_th st) = Inr bw \<and> 0 < bw \<and> th_wakeup env st = retO st' \<and> wakeup_done env bw st st'"
proof -
  let ?n = "th_wakeups_wo_switch (ts_th st) + 1"
  let ?dir = "?n > THROTTLE_SWITCH_LIMIT"
  let ?st0 = "st\<lparr>ts_th := (ts_th st)\<lparr>th_wakeups_wo_switch := (if ?dir then 0 else ?n)\<rparr>\<rparr>"
  let ?vs = "if ?dir then [0..<th_vnets (ts_th ?st0)] else rev [0..<th_vnets (ts_th ?st0)]"
  let ?cs = "channel_list (ts_th ?st0) ?vs"
  have ok: "throttle_ok (ts_th st)" using assms(1) by (simp add: th_live_def)
  have same0: "th_same (ts_th st) (ts_th ?st0)" by (simp add: th_same_def)
  have live0: "th_live env ?st0"
    using assms(1) throttle_ok_same [OF same0] th_same_bufs [OF same0] by (simp add: th_live_def bufs_live_def units_nonneg_def)
  then have ok0: "throttle_ok (ts_th ?st0)" by (simp add: th_live_def)
  have acc0: "account (t, ?st0) = account (t, st)" for t by (simp add: account_def bytes_of_def units_total_def)
  obtain bw where bw: "getTotalLinkBandwidth (ts_th ?st0) = Inr bw" "0 < bw"
    "th_physical_vnets (ts_th ?st0) \<longrightarrow> bw = bw_need (ts_th ?st0) ?cs"
    using total_bandwidth [OF ok0, of ?dir] by blast
  have bw': "getTotalLinkBandwidth (ts_th st) = Inr bw" using bw(1) th_same_bandwidth(4) [OF same0] by simp
  have start: "walk_inv env ?cs bw ?st0 ?cs (bw, False, False, ?st0)" using live0 bw(2,3) by (simp add: walk_inv_def)
  have cs: "\<forall>(v, c) \<in> set ?cs. v < th_vnets (ts_th ?st0) \<and> c < channels_at (ts_th ?st0) v" by (auto simp: channel_list_mem)
  have "\<exists>t. foldO (th_operateVnet env) ?cs (bw, False, False, ?st0) = retO t \<and> walk_inv env ?cs bw ?st0 [] t"
    by (rule foldO_walk [where P = "walk_inv env ?cs bw ?st0", OF start]) (rule walk_step [OF _ assms(2) cs ok0])
  then obtain tot sat blk r where t: "foldO (th_operateVnet env) ?cs (bw, False, False, ?st0) = retO (tot, sat, blk, r)"
    "walk_inv env ?cs bw ?st0 [] (tot, sat, blk, r)" by fastforce
  have w: "th_live env r" "th_same (ts_th ?st0) (ts_th r)" "0 \<le> tot" "tot \<le> bw"
    "pool_deliveries (ts_pool r) = pool_deliveries (ts_pool ?st0)" "account (tot, r) = account (bw, ?st0)"
    "\<forall>x \<in> set ?cs. asleep_ok env x (tot, sat, blk, r)" using t(2) by (simp_all add: walk_inv_def)
  let ?sid = "Throttle_consumer (th_switch_id (ts_th r)) (th_node (ts_th r))"
  let ?st' = "r\<lparr>ts_th := (ts_th r)\<lparr>th_acc_link_utilization := th_acc_link_utilization (ts_th r) + (1 - of_int tot / of_int bw),
                 th_total_bw_sat_cy := th_total_bw_sat_cy (ts_th r) + (if sat then 1 else 0),
                 th_total_stall_cy := th_total_stall_cy (ts_th r) + (if blk then 1 else 0)\<rparr>,
      ts_effects := ts_effects r @ (if sat \<or> blk then [Reschedule ?sid 1] else [])\<rparr>"
  have wake: "th_wakeup env st = retO ?st'"
    using bw' bw(2) channels_total [OF ok0, of ?dir] t(1) unfolding th_wakeup_def Let_def by (simp only: Some_Inl_Inr guardO_True bindO_retO prod.case)
  have same': "th_same (ts_th st) (ts_th ?st')" using th_same_trans [OF same0 w(2)] by (simp add: th_same_def)
  have "th_same (ts_th r) (ts_th ?st')" by (simp add: th_same_def)
  then have live': "th_live env ?st'" using w(1) throttle_ok_same [of "ts_th r" "ts_th ?st'"] th_same_bufs [of "ts_th r" "ts_th ?st'"]
    by (simp add: th_live_def bufs_live_def units_nonneg_def)
  have ids: "th_switch_id (ts_th r) = th_switch_id (ts_th st)" "th_node (ts_th r) = th_node (ts_th st)"
    using th_same_trans [OF same0 w(2)] by (simp_all add: th_same_def)
  have "idle_at env (v, c) ?st' \<or> Reschedule (Throttle_consumer (th_switch_id (ts_th st)) (th_node (ts_th st))) 1 \<in> set (ts_effects ?st')"
    if "v < th_vnets (ts_th st)" "c < channels_at (ts_th st) v" for v c
  proof -
    have "(v, c) \<in> set ?cs" using that th_same_channels [OF same0] by (simp add: channel_list_mem)
    then have "asleep_ok env (v, c) (tot, sat, blk, r)" using w(7) by blast
    then show ?thesis using ids by (auto simp: asleep_ok_def idle_at_def head_due_def)
  qed
  moreover have "MESSAGE_SIZE_MULTIPLIER * (bytes_of ?st' - bytes_of st) = (bw - tot) + (units_total (ts_th ?st') - units_total (ts_th st))"
  proof -
    have "account (tot, r) = account (bw, st)" using w(6) acc0 by simp
    moreover have "bytes_of ?st' = bytes_of r" "units_total (ts_th ?st') = units_total (ts_th r)"
      by (simp_all add: bytes_of_def units_total_def)
    ultimately show ?thesis by (simp add: account_def algebra_simps)
  qed
  ultimately have "wakeup_done env bw st ?st'"
    using live' same' w(3,4,5) unfolding wakeup_done_def by (intro conjI exI [of _ "bw - tot"]) auto
  with bw' bw(2) wake show ?thesis by blast
qed

end
