(* ===== verification/SwitchWakeup.thy ===== *)
theory SwitchWakeup
  imports PerfectSwitch
begin

text \<open>
  The wakeup of a switch of the simple network as a whole: its loops end, and a buffer it has
  visited is empty, not ready, or the reason for another wakeup. The lemmas lift what one turn
  of the loop does to the loops over the buffers of a group, the groups of a virtual network
  and the virtual networks.
\<close>

section \<open>From turns to wakeups\<close>

definition same_ports :: "PerfectSwitch \<Rightarrow> PerfectSwitch \<Rightarrow> bool" where
  "same_ports ps ps' \<longleftrightarrow> (\<exists>c n. ps' = ps\<lparr>ps_pending_message_count := c, ps_wakeups_wo_switch := n\<rparr>)"

lemma same_ports_refl [simp]: "same_ports ps ps"
  unfolding same_ports_def
  by (intro exI [of _ "ps_pending_message_count ps"] exI [of _ "ps_wakeups_wo_switch ps"]) simp

lemma same_ports_trans: "same_ports a b \<Longrightarrow> same_ports b c \<Longrightarrow> same_ports a c"
  unfolding same_ports_def by (elim exE) (intro exI, simp)

lemma same_ports_counts [simp]: "same_ports ps (ps\<lparr>ps_pending_message_count := c\<rparr>)"
  "same_ports ps (ps\<lparr>ps_wakeups_wo_switch := n\<rparr>)"
  unfolding same_ports_def
  by (intro exI [of _ c] exI [of _ "ps_wakeups_wo_switch ps"], simp)
    (intro exI [of _ "ps_pending_message_count ps"] exI [of _ n], simp)

lemma same_ports_fields:
  assumes "same_ports ps ps'"
  shows "ps_in_prio_groups ps' = ps_in_prio_groups ps" "ps_out ps' = ps_out ps"
    "ps_switch_id ps' = ps_switch_id ps" "ps_virtual_networks ps' = ps_virtual_networks ps" "ps_in ps' = ps_in ps"
  using assms by (auto simp: same_ports_def)

lemma operate_same_ports:
  assumes "operateMessageBuffer env vnet b st = retO st'"
  shows "same_ports (ss_ps st) (ss_ps st') \<and> length (ss_pool st') = length (ss_pool st) \<and>
    (\<exists>es. ss_effects st' = ss_effects st @ es)"
proof (rule operate_invariant [OF assms])
  fix s again s'
  assume *: "same_ports (ss_ps st) (ss_ps s) \<and> length (ss_pool s) = length (ss_pool st) \<and>
    (\<exists>es. ss_effects s = ss_effects st @ es)" and "operate_step env vnet b s = Inr (again, s')"
  from operate_step_ports [OF this(2)] obtain c es where
    "ss_ps s' = (ss_ps s)\<lparr>ps_pending_message_count := c\<rparr>" "length (ss_pool s') = length (ss_pool s)"
    "ss_effects s' = ss_effects s @ es" by blast
  with * same_ports_trans same_ports_counts(1)
  show "same_ports (ss_ps st) (ss_ps s') \<and> length (ss_pool s') = length (ss_pool st) \<and>
    (\<exists>es. ss_effects s' = ss_effects st @ es)" by auto
qed simp

text \<open>The loop over a group starts anywhere and visits every buffer.\<close>

lemma rotate_visits:
  assumes "b \<in> set ins"
  shows "\<exists>i < length ins. ins ! ((i + start) mod length ins) = b"
proof -
  obtain k where k: "k < length ins" "ins ! k = b" using assms by (auto simp: in_set_conv_nth)
  let ?n = "length ins" and ?i = "(k + (length ins - start mod length ins)) mod length ins"
  have "start mod ?n < ?n" using k(1) by (intro mod_less_divisor) linarith
  then have "start mod ?n \<le> ?n" by simp
  have "(?i + start) mod ?n = (k + (?n - start mod ?n) + start mod ?n) mod ?n"
    by (simp add: mod_simps)
  also have "\<dots> = (k + ?n) mod ?n" using \<open>start mod ?n \<le> ?n\<close> by simp
  finally have eq: "(?i + start) mod ?n = k" using k(1) by simp
  have "?i < ?n" using k(1) by (intro mod_less_divisor) linarith
  then show ?thesis by (intro exI [of _ ?i] conjI) (assumption, simp only: eq k(2))
qed

lemma group_establish:
  assumes "operate_group env vnet ins st = retO st'" and "P st"
    and "\<And>b s s'. b \<in> set ins \<Longrightarrow> P s \<Longrightarrow> operateMessageBuffer env vnet b s = retO s' \<Longrightarrow>
      P s' \<and> R b s' \<and> (\<forall>y. R y s \<longrightarrow> R y s')"
  shows "P st' \<and> (\<forall>b \<in> set ins. R b st') \<and> (\<forall>y. R y st \<longrightarrow> R y st')"
proof -
  obtain start where f: "foldO (\<lambda>i. operateMessageBuffer env vnet (ins ! ((i + start) mod length ins))) [0..<length ins] st = retO st'"
    using assms(1) unfolding operate_group_def by (auto simp: res_simps)
  let ?b = "\<lambda>i. ins ! ((i + start) mod length ins)"
  have "P st' \<and> (\<forall>i \<in> set [0..<length ins]. R (?b i) st') \<and> (\<forall>y. R y st \<longrightarrow> R y st')"
  proof (cases "ins = []")
    case True
    with f assms(2) show ?thesis by simp
  next
    case False
    have each: "P s' \<and> R (?b i) s' \<and> (\<forall>y. R y s \<longrightarrow> R y s')"
      if "P s" "operateMessageBuffer env vnet (?b i) s = retO s'" for i s s'
      using assms(3) [OF _ that] False by simp
    have "P st' \<and> (\<forall>i \<in> set [0..<length ins]. R (?b i) st')"
      using foldO_establish [OF f, of P "\<lambda>i. R (?b i)"] each assms(2) by blast
    moreover have "P st' \<and> (\<forall>y. R y st \<longrightarrow> R y st')"
      by (rule foldO_invariant [OF f, of "\<lambda>s. P s \<and> (\<forall>y. R y st \<longrightarrow> R y s)"]) (use each assms(2) in auto)
    ultimately show ?thesis by blast
  qed
  moreover have "\<exists>i \<in> set [0..<length ins]. ?b i = b" if "b \<in> set ins" for b
    using rotate_visits [OF that, of start] by auto
  ultimately show ?thesis by metis
qed

lemma vnet_establish:
  assumes "ps_operateVnet env vnet st = retO st'" and "P st"
    and "\<And>b s s'. b \<in> set (concat (ps_in_prio_groups (ss_ps st) ! vnet)) \<Longrightarrow> P s \<Longrightarrow>
      operateMessageBuffer env vnet b s = retO s' \<Longrightarrow> P s' \<and> R b s' \<and> (\<forall>y. R y s \<longrightarrow> R y s')"
    and "\<And>b. b \<in> set (concat (ps_in_prio_groups (ss_ps st) ! vnet)) \<Longrightarrow> vnet < length (ps_pending_message_count (ss_ps st)) \<Longrightarrow>
      ps_pending_message_count (ss_ps st) ! vnet = 0 \<Longrightarrow> R b st"
  shows "P st' \<and> (\<forall>b \<in> set (concat (ps_in_prio_groups (ss_ps st) ! vnet)). R b st') \<and> (\<forall>y. R y st \<longrightarrow> R y st')"
proof -
  let ?gs = "ps_in_prio_groups (ss_ps st) ! vnet"
  have v: "vnet < length (ps_pending_message_count (ss_ps st))"
    using assms(1) unfolding ps_operateVnet_def by (auto simp: res_simps)
  show ?thesis
  proof (cases "ps_pending_message_count (ss_ps st) ! vnet = 0")
    case True
    then have "st' = st" using assms(1) v unfolding ps_operateVnet_def by simp
    with assms(2,4) v True show ?thesis by auto
  next
    case False
    then have f: "foldO (operate_group env vnet) ?gs st = retO st'"
      using assms(1) v unfolding ps_operateVnet_def by (auto simp: res_simps)
    have each: "P s' \<and> (\<forall>b \<in> set ins. R b s') \<and> (\<forall>y. R y s \<longrightarrow> R y s')"
      if "ins \<in> set ?gs" "P s" "operate_group env vnet ins s = retO s'" for ins s s'
      by (rule group_establish [where P = P and R = R, OF that(3,2)]) (use assms(3) that(1) in auto)
    have "P st' \<and> (\<forall>ins \<in> set ?gs. \<forall>b \<in> set ins. R b st')"
      using foldO_establish [OF f, of P "\<lambda>ins s. \<forall>b \<in> set ins. R b s"] each assms(2) by blast
    moreover have "P st' \<and> (\<forall>y. R y st \<longrightarrow> R y st')"
      by (rule foldO_invariant [OF f, of "\<lambda>s. P s \<and> (\<forall>y. R y st \<longrightarrow> R y s)"]) (use each assms(2) in auto)
    ultimately show ?thesis by auto
  qed
qed

lemma wakeup_establish:
  assumes "ps_wakeup env st = retO st'" and "P st"
    and "\<And>s n. P s \<Longrightarrow> P (s\<lparr>ss_ps := (ss_ps s)\<lparr>ps_wakeups_wo_switch := n\<rparr>\<rparr>)"
    and "\<And>vnet b s s'. vnet < ps_virtual_networks (ss_ps st) \<Longrightarrow> b \<in> set (concat (ps_in_prio_groups (ss_ps st) ! vnet)) \<Longrightarrow>
      P s \<Longrightarrow> same_ports (ss_ps st) (ss_ps s) \<Longrightarrow> operateMessageBuffer env vnet b s = retO s' \<Longrightarrow>
      P s' \<and> R b s' \<and> (\<forall>y. R y s \<longrightarrow> R y s')"
    and "\<And>vnet b s. vnet < ps_virtual_networks (ss_ps st) \<Longrightarrow> b \<in> set (concat (ps_in_prio_groups (ss_ps st) ! vnet)) \<Longrightarrow>
      P s \<Longrightarrow> same_ports (ss_ps st) (ss_ps s) \<Longrightarrow> vnet < length (ps_pending_message_count (ss_ps s)) \<Longrightarrow>
      ps_pending_message_count (ss_ps s) ! vnet = 0 \<Longrightarrow> R b s"
  shows "P st' \<and> (\<forall>vnet < ps_virtual_networks (ss_ps st). \<forall>b \<in> set (concat (ps_in_prio_groups (ss_ps st) ! vnet)). R b st')"
proof -
  let ?ps = "ss_ps st"
  define Q where "Q s \<longleftrightarrow> P s \<and> same_ports ?ps (ss_ps s)" for s
  obtain n vnets where f: "foldO (ps_operateVnet env) vnets (st\<lparr>ss_ps := ?ps\<lparr>ps_wakeups_wo_switch := n\<rparr>\<rparr>) = retO st'"
    and vs: "set vnets = {..<ps_virtual_networks ?ps}"
  proof -
    let ?n = "ps_wakeups_wo_switch ?ps + 1"
    show thesis
      using assms(1) unfolding ps_wakeup_def Let_def
      by (intro that [of "if ?n > PRIORITY_SWITCH_LIMIT then [0..<ps_virtual_networks ?ps] else rev [0..<ps_virtual_networks ?ps]"
          "if ?n > PRIORITY_SWITCH_LIMIT then 0 else ?n"]) auto
  qed
  have "Q st' \<and> (\<forall>v \<in> set vnets. \<forall>b \<in> set (concat (ps_in_prio_groups ?ps ! v)). R b st')"
  proof (rule foldO_establish [OF f, of Q "\<lambda>v s. \<forall>b \<in> set (concat (ps_in_prio_groups ?ps ! v)). R b s", THEN conj_forward])
    show "Q (st\<lparr>ss_ps := ?ps\<lparr>ps_wakeups_wo_switch := n\<rparr>\<rparr>)" using assms(2,3) by (simp add: Q_def)
  next
    fix v s s' assume v: "v \<in> set vnets" and Q: "Q s" and o: "ps_operateVnet env v s = retO s'"
    have groups: "ps_in_prio_groups (ss_ps s) = ps_in_prio_groups ?ps"
      using Q by (simp add: Q_def same_ports_fields)
    have "Q s' \<and> (\<forall>b \<in> set (concat (ps_in_prio_groups (ss_ps s) ! v)). R b s') \<and> (\<forall>y. R y s \<longrightarrow> R y s')"
    proof (rule vnet_establish [where P = Q and R = R, OF o Q])
      fix b u u' assume "b \<in> set (concat (ps_in_prio_groups (ss_ps s) ! v))" "Q u"
        and op: "operateMessageBuffer env v b u = retO u'"
      then show "Q u' \<and> R b u' \<and> (\<forall>y. R y u \<longrightarrow> R y u')"
        using assms(4) [of v b u u'] v vs groups operate_same_ports [OF op] same_ports_trans
        unfolding Q_def by auto
    next
      fix b assume "b \<in> set (concat (ps_in_prio_groups (ss_ps s) ! v))"
        "v < length (ps_pending_message_count (ss_ps s))" "ps_pending_message_count (ss_ps s) ! v = 0"
      then show "R b s" using assms(5) [of v b s] v vs groups Q unfolding Q_def by auto
    qed
    then show "Q s' \<and> (\<forall>b \<in> set (concat (ps_in_prio_groups ?ps ! v)). R b s') \<and>
      (\<forall>w. (\<forall>b \<in> set (concat (ps_in_prio_groups ?ps ! w)). R b s) \<longrightarrow> (\<forall>b \<in> set (concat (ps_in_prio_groups ?ps ! w)). R b s'))"
      unfolding groups by blast
  qed auto
  then show ?thesis using vs by (auto simp: Q_def)
qed

section \<open>The wakeup returns\<close>

definition no_alias :: "PerfectSwitch \<Rightarrow> nat \<Rightarrow> bool" where
  "no_alias ps b \<longleftrightarrow> (\<forall>port \<in> set (ps_out ps). Some b \<notin> set (sop_buffers port))"

lemma no_alias_reach: "no_alias ps b \<Longrightarrow> reaches_buffer out vnet i ps \<Longrightarrow> i \<noteq> b"
  unfolding no_alias_def reaches_buffer_def by (metis nth_mem)

lemma no_alias_same: "same_ports ps ps' \<Longrightarrow> no_alias ps' b = no_alias ps b"
  by (simp add: no_alias_def same_ports_fields)

lemma send_other:
  assumes "foldR (send_step env vnet) cs st = Inr st'" and "no_alias (ss_ps st) b"
  shows "ss_pool st' ! b = ss_pool st ! b"
  using assms
proof (induction cs arbitrary: st)
  case Nil
  then show ?case by simp
next
  case (Cons c cs)
  obtain m r where c: "c = (m, r)" by (cases c)
  obtain st1 where s: "send_step env vnet (m, r) st = Inr st1" "foldR (send_step env vnet) cs st1 = Inr st'"
    using Cons.prems(1) unfolding c foldR.simps by (elim bindR_InrE)
  from s(1) show ?case
  proof (cases rule: send_stepE)
    case (1 i mb' reqs)
    then show ?thesis using Cons.IH [OF s(2)] Cons.prems(2) no_alias_reach [OF Cons.prems(2) 1(1)] by simp
  qed
qed

text \<open>What a turn does to the heaps of the buffers that no output port has.\<close>

lemma operate_step_heaps:
  assumes "operate_step env vnet b st = Inr (again, st')"
  shows "no_alias (ss_ps st) k \<Longrightarrow> k < length (ss_pool st) \<Longrightarrow>
      mb_consumer (ss_pool st' ! k) = mb_consumer (ss_pool st ! k) \<and>
      (if again \<and> k = b then \<exists>m. mb_prio_heap (ss_pool st ! k) = m # mb_prio_heap (ss_pool st' ! k)
       else mb_prio_heap (ss_pool st' ! k) = mb_prio_heap (ss_pool st ! k))"
    and "ps_pending_message_count (ss_ps st') = (let c = ps_pending_message_count (ss_ps st)
      in if again then c[vnet := c ! vnet - 1] else c)"
    and "b < length (ss_pool st)"
proof -
  have "(no_alias (ss_ps st) k \<longrightarrow> k < length (ss_pool st) \<longrightarrow>
      mb_consumer (ss_pool st' ! k) = mb_consumer (ss_pool st ! k) \<and>
      (if again \<and> k = b then \<exists>m. mb_prio_heap (ss_pool st ! k) = m # mb_prio_heap (ss_pool st' ! k)
       else mb_prio_heap (ss_pool st' ! k) = mb_prio_heap (ss_pool st ! k))) \<and>
    ps_pending_message_count (ss_ps st') = (let c = ps_pending_message_count (ss_ps st)
      in if again then c[vnet := c ! vnet - 1] else c) \<and> b < length (ss_pool st)"
    using assms
  proof (cases rule: operate_stepE)
    case (idle reqs)
    then show ?thesis by simp
  next
    case (blocked reqs msg routes st1 st2)
    obtain pool where p: "st2 = st1\<lparr>ss_pool := pool\<rparr>" "pool_frame (ss_pool st1) pool" using room_frame [OF blocked(6)] by blast
    have "pool_frame (ss_pool st) pool" using switch_route_frame [OF blocked(5)] p(2) pool_frame_trans by auto
    then show ?thesis
      using blocked(1,2) switch_route_frame [OF blocked(5)] buf_frame_same [OF pool_frame_nth] p(1) unfolding blocked(7) by simp
  next
    case (sent reqs msg routes st1 st2 msg' st3)
    obtain pool where p: "st2 = st1\<lparr>ss_pool := pool\<rparr>" "pool_frame (ss_pool st1) pool" using room_frame [OF sent(6)] by blast
    have frame: "pool_frame (ss_pool st) (ss_pool st2)" using switch_route_frame [OF sent(5)] p pool_frame_trans by auto
    have ps2: "ss_ps st2 = ss_ps st" using switch_route_frame [OF sent(5)] p by simp
    from sent(7) show ?thesis
    proof (cases rule: take_messageE)
      case (1 d mb' effs)
      obtain m where m: "mb_prio_heap (ss_pool st2 ! b) = m # mb_prio_heap mb'" "mb_consumer mb' = mb_consumer (ss_pool st2 ! b)"
        using mb_dequeue_message [OF 1(2)] by blast
      have at: "ss_pool st' ! k = (if k = b then mb' else ss_pool st2 ! k)" if "no_alias (ss_ps st) k" "k < length (ss_pool st)"
      proof -
        have "no_alias (ss_ps st3) k" using that(1) ps2 unfolding 1(4) by (simp add: no_alias_def)
        from send_other [OF sent(8) this] show ?thesis using that(2) pool_frame_length [OF frame] unfolding 1(4) by simp
      qed
      have same: "mb_prio_heap (ss_pool st2 ! k) = mb_prio_heap (ss_pool st ! k)" "mb_consumer (ss_pool st2 ! k) = mb_consumer (ss_pool st ! k)"
        if "k < length (ss_pool st)" for k using buf_frame_same [OF pool_frame_nth [OF frame that]] by auto
      have "ps_pending_message_count (ss_ps st') = (let c = ps_pending_message_count (ss_ps st) in c[vnet := c ! vnet - 1])"
        using send_ports [OF sent(8)] ps2 unfolding 1(4) by (simp add: Let_def)
      then show ?thesis using at m same sent(1,2) by auto
    qed
  qed
  then show "no_alias (ss_ps st) k \<Longrightarrow> k < length (ss_pool st) \<Longrightarrow>
      mb_consumer (ss_pool st' ! k) = mb_consumer (ss_pool st ! k) \<and>
      (if again \<and> k = b then \<exists>m. mb_prio_heap (ss_pool st ! k) = m # mb_prio_heap (ss_pool st' ! k)
       else mb_prio_heap (ss_pool st' ! k) = mb_prio_heap (ss_pool st ! k))"
    "ps_pending_message_count (ss_ps st') = (let c = ps_pending_message_count (ss_ps st)
      in if again then c[vnet := c ! vnet - 1] else c)" "b < length (ss_pool st)" by blast+
qed

lemma operate_returns:
  assumes "no_alias (ss_ps st) b"
  shows "operateMessageBuffer env vnet b st \<noteq> None"
  unfolding operateMessageBuffer_def
proof (rule repeat_returns [where P = "\<lambda>s :: switch_state. no_alias (ss_ps s) b"
      and f = "\<lambda>s :: switch_state. length (mb_prio_heap (ss_pool s ! b))", OF assms])
  fix s s' assume s: "no_alias (ss_ps s) b" and p: "operate_step env vnet b s = Inr (True, s')"
  obtain m where "mb_prio_heap (ss_pool s ! b) = m # mb_prio_heap (ss_pool s' ! b)"
    using operate_step_heaps(1) [OF p s operate_step_heaps(3) [OF p]] by auto
  moreover have "no_alias (ss_ps s') b"
    using s operate_step_ports [OF p] no_alias_same same_ports_counts(1) by metis
  ultimately show "no_alias (ss_ps s') b \<and> length (mb_prio_heap (ss_pool s' ! b)) < length (mb_prio_heap (ss_pool s ! b))" by simp
qed

definition ports_apart :: "PerfectSwitch \<Rightarrow> bool" where
  "ports_apart ps \<longleftrightarrow> (\<forall>gs \<in> set (ps_in_prio_groups ps). \<forall>b \<in> set (concat gs). no_alias ps b)"

lemma ports_apart_same: "same_ports ps ps' \<Longrightarrow> ports_apart ps' = ports_apart ps"
  by (simp add: ports_apart_def no_alias_same same_ports_fields)

lemma foldO_same_ports:
  fixes f :: "'x \<Rightarrow> switch_state \<Rightarrow> switch_state run"
  assumes "\<And>x s s'. f x s = retO s' \<Longrightarrow> same_ports (ss_ps s) (ss_ps s')" and "foldO f xs st = retO st'"
  shows "same_ports (ss_ps st) (ss_ps st')"
  by (rule foldO_invariant [OF assms(2), of "\<lambda>s. same_ports (ss_ps st) (ss_ps s)"])
    (simp, use assms(1) same_ports_trans in blast)

lemma operate_group_ports: "operate_group env vnet ins st = retO st' \<Longrightarrow> same_ports (ss_ps st) (ss_ps st')"
  unfolding operate_group_def
  by (elim bindO_retOE foldO_same_ports [rotated]) (use operate_same_ports in blast)

lemma ps_operateVnet_ports: "ps_operateVnet env vnet st = retO st' \<Longrightarrow> same_ports (ss_ps st) (ss_ps st')"
  unfolding ps_operateVnet_def
  by (auto simp: res_simps split: if_splits intro: foldO_same_ports operate_group_ports)

lemma operate_group_returns:
  assumes "\<forall>b \<in> set ins. no_alias (ss_ps st) b"
  shows "operate_group env vnet ins st \<noteq> None"
proof (cases "oldest_port ins (ss_pool st)")
  case (Inl e)
  then show ?thesis by (simp add: operate_group_def failO_def)
next
  case (Inr start)
  have "foldO (\<lambda>i. operateMessageBuffer env vnet (ins ! ((i + start) mod length ins))) [0..<length ins] st \<noteq> None"
  proof (rule foldO_returns [where P = "\<lambda>s :: switch_state. same_ports (ss_ps st) (ss_ps s)"])
    fix i and s :: switch_state assume i: "i \<in> set [0..<length ins]" and s: "same_ports (ss_ps st) (ss_ps s)"
    have "(i + start) mod length ins < length ins" using i by (intro mod_less_divisor) auto
    then have "no_alias (ss_ps s) (ins ! ((i + start) mod length ins))"
      using assms no_alias_same [OF s] nth_mem by blast
    then show "operateMessageBuffer env vnet (ins ! ((i + start) mod length ins)) s \<noteq> None" by (rule operate_returns)
  qed (use operate_same_ports same_ports_trans in \<open>simp, blast\<close>)
  then show ?thesis using Inr by (simp add: operate_group_def)
qed

lemma ps_operateVnet_returns:
  assumes "ports_apart (ss_ps st)"
  shows "ps_operateVnet env vnet st \<noteq> None"
proof -
  have "foldO (operate_group env vnet) gs st \<noteq> None" if gs: "gs \<in> set (ps_in_prio_groups (ss_ps st))" for gs
  proof (rule foldO_returns [where P = "\<lambda>s :: switch_state. same_ports (ss_ps st) (ss_ps s)"])
    fix ins and s :: switch_state assume "ins \<in> set gs" and s: "same_ports (ss_ps st) (ss_ps s)"
    then show "operate_group env vnet ins s \<noteq> None"
      using assms gs no_alias_same [OF s] by (intro operate_group_returns) (auto simp: ports_apart_def)
  qed (use operate_group_ports same_ports_trans in \<open>simp, blast\<close>)
  then show ?thesis
    by (auto simp: ps_operateVnet_def nthR_def failO_def retO_def)
qed

lemma ps_wakeup_returns:
  assumes "ports_apart (ss_ps st)"
  shows "ps_wakeup env st \<noteq> None"
proof -
  have "foldO (ps_operateVnet env) vnets s \<noteq> None" if "ports_apart (ss_ps s)" for vnets s
    by (rule foldO_returns [where P = "\<lambda>s :: switch_state. ports_apart (ss_ps s)"])
      (use that ps_operateVnet_returns ps_operateVnet_ports ports_apart_same in blast)+
  then show ?thesis using assms ports_apart_same [OF same_ports_counts(2)] by (simp add: ps_wakeup_def Let_def)
qed

section \<open>No message is left behind\<close>

text \<open>
  What holds of a switch between its wakeups: each buffer of an input port is in one group, its
  consumer is the switch, no output port has it, and the count of a virtual network is the
  number of messages waiting in its buffers.
\<close>

definition vnet_waiting :: "switch_state \<Rightarrow> nat \<Rightarrow> int" where
  "vnet_waiting st vnet =
    (\<Sum>b\<leftarrow>concat (ps_in_prio_groups (ss_ps st) ! vnet). int (length (mb_prio_heap (ss_pool st ! b))))"

definition switch_inv :: "switch_state \<Rightarrow> bool" where
  "switch_inv st \<longleftrightarrow>
    length (ps_pending_message_count (ss_ps st)) = length (ps_in_prio_groups (ss_ps st)) \<and>
    ps_virtual_networks (ss_ps st) = length (ps_in_prio_groups (ss_ps st)) \<and>
    (\<forall>vnet < length (ps_in_prio_groups (ss_ps st)).
      distinct (concat (ps_in_prio_groups (ss_ps st) ! vnet)) \<and>
      (\<forall>w < length (ps_in_prio_groups (ss_ps st)). w \<noteq> vnet \<longrightarrow>
        set (concat (ps_in_prio_groups (ss_ps st) ! vnet)) \<inter> set (concat (ps_in_prio_groups (ss_ps st) ! w)) = {}) \<and>
      (\<forall>b \<in> set (concat (ps_in_prio_groups (ss_ps st) ! vnet)). b < length (ss_pool st) \<and> no_alias (ss_ps st) b \<and>
        mb_consumer (ss_pool st ! b) = Some (Switch_consumer (ps_switch_id (ss_ps st)))) \<and>
      ps_pending_message_count (ss_ps st) ! vnet = vnet_waiting st vnet)"

text \<open>A buffer is settled when its head is not ready, or the switch will wake up next cycle.\<close>

definition settled :: "tick \<Rightarrow> nat \<Rightarrow> nat \<Rightarrow> switch_state \<Rightarrow> bool" where
  "settled now sid b st \<longleftrightarrow>
    (case mb_prio_heap (ss_pool st ! b) of [] \<Rightarrow> True | m # ms \<Rightarrow> msg_LastEnqueueTime m \<le> now \<longrightarrow>
      Reschedule (Switch_consumer sid) 1 \<in> set (ss_effects st))"

lemma isReady_False:
  assumes "mb_isReady now mb = Inr (False, reqs)" and "mb_prio_heap mb = m # ms" and "msg_LastEnqueueTime m \<le> now"
    and "mb_consumer mb = Some c"
  shows "reqs = [Wake_in c 1]"
  using assms unfolding mb_isReady_def Let_def
  by (auto simp: guardR_def split: if_splits)

lemma switch_inv_nth:
  assumes "switch_inv st" and "vnet < length (ps_in_prio_groups (ss_ps st))"
    and "b \<in> set (concat (ps_in_prio_groups (ss_ps st) ! vnet))"
  shows "b < length (ss_pool st)" "no_alias (ss_ps st) b"
    "mb_consumer (ss_pool st ! b) = Some (Switch_consumer (ps_switch_id (ss_ps st)))"
  using assms unfolding switch_inv_def by blast+

lemma switch_inv_apart: "switch_inv st \<Longrightarrow> ports_apart (ss_ps st)"
  unfolding ports_apart_def by (metis in_set_conv_nth switch_inv_nth(2))

lemma waiting_sum:
  "distinct (concat (ps_in_prio_groups (ss_ps st) ! v)) \<Longrightarrow>
    vnet_waiting st v = (\<Sum>b \<in> set (concat (ps_in_prio_groups (ss_ps st) ! v)). int (length (mb_prio_heap (ss_pool st ! b))))"
  unfolding vnet_waiting_def by (simp add: sum_list_distinct_conv_sum_set)

lemma switch_inv_step:
  assumes inv: "switch_inv st" and v: "vnet < length (ps_in_prio_groups (ss_ps st))"
    and b: "b \<in> set (concat (ps_in_prio_groups (ss_ps st) ! vnet))"
    and step: "operate_step env vnet b st = Inr (again, st')"
  shows "switch_inv st'"
proof -
  let ?gs = "ps_in_prio_groups (ss_ps st)"
  obtain c where ps: "ss_ps st' = (ss_ps st)\<lparr>ps_pending_message_count := c\<rparr>" and len: "length (ss_pool st') = length (ss_pool st)"
    using operate_step_ports [OF step] by blast
  have c: "c = (if again then (ps_pending_message_count (ss_ps st))
      [vnet := ps_pending_message_count (ss_ps st) ! vnet - 1] else ps_pending_message_count (ss_ps st))"
    using operate_step_heaps(2) [OF step] ps by (simp add: Let_def)
  have same: "same_ports (ss_ps st) (ss_ps st')" using ps by simp
  have heaps: "mb_consumer (ss_pool st' ! k) = mb_consumer (ss_pool st ! k) \<and>
      (if again \<and> k = b then \<exists>m. mb_prio_heap (ss_pool st ! k) = m # mb_prio_heap (ss_pool st' ! k)
       else mb_prio_heap (ss_pool st' ! k) = mb_prio_heap (ss_pool st ! k))"
    if "w < length ?gs" "k \<in> set (concat (?gs ! w))" for w k
    by (rule operate_step_heaps(1) [OF step switch_inv_nth(2) [OF inv that] switch_inv_nth(1) [OF inv that]])
  have dist: "distinct (concat (?gs ! w))" if "w < length ?gs" for w using inv that by (simp add: switch_inv_def)
  have other: "b \<notin> set (concat (?gs ! w))" if "w < length ?gs" "w \<noteq> vnet" for w
    using inv that v b unfolding switch_inv_def by blast
  have wait: "vnet_waiting st' w = vnet_waiting st w - (if again \<and> w = vnet then 1 else 0)" if w: "w < length ?gs" for w
  proof (cases "again \<and> w = vnet")
    case True
    let ?S = "set (concat (?gs ! vnet))"
    have "(\<Sum>k \<in> ?S - {b}. int (length (mb_prio_heap (ss_pool st' ! k)))) =
        (\<Sum>k \<in> ?S - {b}. int (length (mb_prio_heap (ss_pool st ! k))))"
      using heaps [OF v] by (intro sum.cong) auto
    moreover obtain m where "mb_prio_heap (ss_pool st ! b) = m # mb_prio_heap (ss_pool st' ! b)"
      using heaps [OF v b] True by auto
    moreover have "sum f ?S = f b + sum f (?S - {b})" for f :: "nat \<Rightarrow> int"
      using b by (intro sum.remove) simp_all
    ultimately have "(\<Sum>k \<in> ?S. int (length (mb_prio_heap (ss_pool st' ! k)))) =
        (\<Sum>k \<in> ?S. int (length (mb_prio_heap (ss_pool st ! k)))) - 1" by simp
    then show ?thesis
      using True waiting_sum [of st w] waiting_sum [of st' w] dist [OF w] ps by simp
  next
    case False
    then have "mb_prio_heap (ss_pool st' ! k) = mb_prio_heap (ss_pool st ! k)" if "k \<in> set (concat (?gs ! w))" for k
    proof -
      have "\<not> (again \<and> k = b)" using False other [OF w] that by blast
      then show ?thesis using heaps [OF w that] by simp
    qed
    then show ?thesis using False ps unfolding vnet_waiting_def by (auto intro!: arg_cong [where f = sum_list])
  qed
  have "c ! w = vnet_waiting st' w" if "w < length ?gs" for w
    using that inv v wait [OF that] unfolding c switch_inv_def by (auto simp: nth_list_update)
  moreover have "length c = length ?gs" using inv c by (auto simp: switch_inv_def)
  moreover have "k < length (ss_pool st') \<and> no_alias (ss_ps st') k \<and>
      mb_consumer (ss_pool st' ! k) = Some (Switch_consumer (ps_switch_id (ss_ps st)))"
    if "w < length ?gs" "k \<in> set (concat (?gs ! w))" for w k
    using switch_inv_nth [OF inv that] heaps [OF that] len no_alias_same [OF same] by simp
  ultimately show ?thesis using inv ps unfolding switch_inv_def by simp
qed

text \<open>A turn that ends the loop settles the buffer, and no turn unsettles another.\<close>

lemma exit_settles:
  assumes "operate_step env vnet b st = Inr (False, st')"
    and "mb_consumer (ss_pool st ! b) = Some (Switch_consumer (ps_switch_id (ss_ps st)))"
  shows "settled (se_now env) (ps_switch_id (ss_ps st)) b st'"
  using assms(1)
proof (cases rule: operate_stepE)
  case (idle reqs)
  show ?thesis
  proof (cases "mb_prio_heap (ss_pool st ! b)")
    case Nil
    then show ?thesis using idle(4) by (simp add: settled_def)
  next
    case (Cons m ms)
    then show ?thesis
      using isReady_False [OF idle(3) Cons _ assms(2)] idle(4) by (auto simp: settled_def)
  qed
next
  case (blocked reqs msg routes st1 st2)
  obtain pool where "st2 = st1\<lparr>ss_pool := pool\<rparr>" using room_frame [OF blocked(6)] by blast
  then have "ps_switch_id (ss_ps st2) = ps_switch_id (ss_ps st)" using switch_route_frame [OF blocked(5)] by simp
  then show ?thesis unfolding blocked(7) settled_def by (simp split: list.splits)
qed simp

lemma step_keeps_settled:
  assumes "operate_step env vnet b st = Inr (again, st')" and "k \<noteq> b"
    and "no_alias (ss_ps st) k" and "k < length (ss_pool st)" and "settled now sid k st"
  shows "settled now sid k st'"
proof -
  have "mb_prio_heap (ss_pool st' ! k) = mb_prio_heap (ss_pool st ! k)"
    using operate_step_heaps(1) [OF assms(1,3,4)] assms(2) by simp
  moreover have "set (ss_effects st) \<subseteq> set (ss_effects st')"
    using operate_step_ports [OF assms(1)] by auto
  ultimately show ?thesis using assms(5) unfolding settled_def by (auto split: list.splits)
qed

lemma operate_settles:
  assumes o: "operateMessageBuffer env vnet b st = retO st'" and inv: "switch_inv st"
    and v: "vnet < length (ps_in_prio_groups (ss_ps st))" and b: "b \<in> set (concat (ps_in_prio_groups (ss_ps st) ! vnet))"
  shows "switch_inv st' \<and> settled (se_now env) (ps_switch_id (ss_ps st)) b st' \<and>
    (\<forall>k. no_alias (ss_ps st) k \<longrightarrow> k < length (ss_pool st) \<longrightarrow> settled (se_now env) (ps_switch_id (ss_ps st)) k st \<longrightarrow>
      settled (se_now env) (ps_switch_id (ss_ps st)) k st')"
proof -
  let ?sid = "ps_switch_id (ss_ps st)"
  define P where "P s \<longleftrightarrow> switch_inv s \<and> same_ports (ss_ps st) (ss_ps s) \<and> length (ss_pool s) = length (ss_pool st) \<and>
    (\<forall>k. k \<noteq> b \<longrightarrow> no_alias (ss_ps st) k \<longrightarrow> k < length (ss_pool st) \<longrightarrow> settled (se_now env) ?sid k st \<longrightarrow>
      settled (se_now env) ?sid k s)" for s
  have P: "P s'" if "P s" "operate_step env vnet b s = Inr (again, s')" for s again s'
  proof -
    note step = that(2)
    have groups: "ps_in_prio_groups (ss_ps s) = ps_in_prio_groups (ss_ps st)"
      using that(1) by (simp add: P_def same_ports_fields)
    have "switch_inv s'" using switch_inv_step [OF _ _ _ step] that(1) v b groups unfolding P_def by simp
    moreover obtain c where "ss_ps s' = (ss_ps s)\<lparr>ps_pending_message_count := c\<rparr>" "length (ss_pool s') = length (ss_pool s)"
      using operate_step_ports [OF step] by blast
    moreover have "settled (se_now env) ?sid k s'"
      if "k \<noteq> b" "no_alias (ss_ps st) k" "k < length (ss_pool st)" "settled (se_now env) ?sid k st" for k
      using step_keeps_settled [OF step] that \<open>P s\<close> no_alias_same unfolding P_def by metis
    ultimately show ?thesis using that(1) same_ports_trans unfolding P_def by fastforce
  qed
  have "P st" using inv by (simp add: P_def)
  then have "\<exists>s. P s \<and> operate_step env vnet b s = Inr (False, st')"
    by (rule operate_exit [where P = P, OF o]) (rule P)
  then obtain s where s: "P s" "operate_step env vnet b s = Inr (False, st')" by (elim exE conjE)
  have P': "P st'" by (rule P [OF s])
  have same: "same_ports (ss_ps st) (ss_ps s)" using s(1) by (simp add: P_def)
  have "mb_consumer (ss_pool s ! b) = Some (Switch_consumer (ps_switch_id (ss_ps s)))"
    using switch_inv_nth(3) [of s vnet b] s(1) v b same_ports_fields [OF same] by (simp add: P_def)
  from exit_settles [OF s(2) this] have "settled (se_now env) ?sid b st'"
    using same_ports_fields [OF same] by simp
  with P' show ?thesis unfolding P_def by metis
qed

end
