(* ===== verification/SwitchProgress.thy ===== *)
theory SwitchProgress
  imports SwitchWakeup
begin

text \<open>
  A switch of the simple network that is wired as the network wires it never fails: the checks
  of a turn, of the room in the buffers above all, are what the asserts and panics of the
  message buffers need.
\<close>

section \<open>A turn does not fail\<close>

definition outs_live :: "switch_env \<Rightarrow> switch_state \<Rightarrow> bool" where
  "outs_live env st \<longleftrightarrow>
    (\<forall>out < length (ps_out (ss_ps st)). \<forall>v < ps_virtual_networks (ss_ps st). \<exists>i < length (ss_pool st).
      reaches_buffer out v i (ss_ps st) \<and> out_buf_ok (se_now env) (sop_latency (ps_out (ss_ps st) ! out)) (ss_pool st ! i)) \<and>
    (\<forall>out v out' v' i. reaches_buffer out v i (ss_ps st) \<longrightarrow> reaches_buffer out' v' i (ss_ps st) \<longrightarrow> out = out' \<and> v = v') \<and>
    (\<forall>l \<in> set (ss_links st). wl_link_id l < length (ps_out (ss_ps st)))"

definition ins_live :: "switch_env \<Rightarrow> switch_state \<Rightarrow> bool" where
  "ins_live env st \<longleftrightarrow> (\<forall>v < length (ps_in_prio_groups (ss_ps st)). \<forall>b \<in> set (concat (ps_in_prio_groups (ss_ps st) ! v)).
    mb_time_last_time_pop (ss_pool st ! b) \<le> se_now env \<and>
    (\<forall>m \<in> set (mb_prio_heap (ss_pool st ! b)). covered (ss_links st) (msg_destination m)))"

definition live :: "switch_env \<Rightarrow> switch_state \<Rightarrow> bool" where
  "live env st \<longleftrightarrow> switch_inv st \<and> routing_ok (se_mt env) st \<and> outs_live env st \<and> ins_live env st"

lemma outs_live_frame:
  assumes "outs_live env st" and "pool_frame (ss_pool st) p" and "image_mset link_core (mset ls) = image_mset link_core (mset (ss_links st))"
    and "ss_ps st' = ss_ps st" "ss_pool st' = p" "ss_links st' = ls"
  shows "outs_live env st'"
proof -
  have "wl_link_id ` set ls = fst ` link_core ` set ls" for ls by (simp add: link_core_def image_image)
  moreover have "link_core ` set ls = link_core ` set (ss_links st)" using arg_cong [OF assms(3), of set_mset] by simp
  ultimately have "wl_link_id ` set ls = wl_link_id ` set (ss_links st)" by simp
  then have ids: "\<forall>l \<in> set ls. wl_link_id l < length (ps_out (ss_ps st))"
    using assms(1) unfolding outs_live_def by (metis imageE imageI)
  have "out_buf_ok (se_now env) lat (p ! i) = out_buf_ok (se_now env) lat (ss_pool st ! i)" if "i < length (ss_pool st)" for lat i
    using buf_frame_live(1) [OF pool_frame_nth [OF assms(2) that]] .
  then have "\<exists>i < length p. reaches_buffer out v i (ss_ps st) \<and> out_buf_ok (se_now env) (sop_latency (ps_out (ss_ps st) ! out)) (p ! i)"
    if "out < length (ps_out (ss_ps st))" "v < ps_virtual_networks (ss_ps st)" for out v
    using assms(1) that pool_frame_length [OF assms(2)] unfolding outs_live_def by metis
  then show ?thesis using assms(1) ids unfolding outs_live_def assms(4-6) by blast
qed

lemma outs_live_buffer:
  assumes "outs_live env st" and "out < length (ps_out (ss_ps st))" and "v < ps_virtual_networks (ss_ps st)"
  obtains i where "i < length (ss_pool st)" "reaches_buffer out v i (ss_ps st)"
    "out_buf_ok (se_now env) (sop_latency (ps_out (ss_ps st) ! out)) (ss_pool st ! i)"
    "port_buffer out v st = Inr (sop_latency (ps_out (ss_ps st) ! out), i, ss_pool st ! i)"
proof -
  obtain i where i: "i < length (ss_pool st)" "reaches_buffer out v i (ss_ps st)"
    "out_buf_ok (se_now env) (sop_latency (ps_out (ss_ps st) ! out)) (ss_pool st ! i)"
    using assms unfolding outs_live_def by blast
  then have "port_buffer out v st = Inr (sop_latency (ps_out (ss_ps st) ! out), i, ss_pool st ! i)"
    by (simp add: port_buffer_Inr)
  with i show thesis by (rule that)
qed

lemma outs_live_unique:
  "outs_live env st \<Longrightarrow> reaches_buffer out v i (ss_ps st) \<Longrightarrow> reaches_buffer out' v' i (ss_ps st) \<Longrightarrow> out = out' \<and> v = v'"
  unfolding outs_live_def by blast

lemma room_total:
  assumes "outs_live env st" and "v < ps_virtual_networks (ss_ps st)"
    and "\<forall>r \<in> set routes. ri_link_id r < length (ps_out (ss_ps st))"
  shows "\<exists>enough' st'. foldR (room_step env v) routes (enough, st) = Inr (enough', st') \<and>
    (enough' \<longrightarrow> enough \<and> (\<forall>r \<in> set routes. \<forall>i. reaches_buffer (ri_link_id r) v i (ss_ps st) \<longrightarrow>
      i < length (ss_pool st) \<longrightarrow> has_slot (se_now env) (ss_pool st ! i)))"
  using assms
proof (induction routes arbitrary: enough st)
  case Nil
  then show ?case by simp
next
  case (Cons r routes)
  let ?ps = "ss_ps st"
  obtain i where i: "i < length (ss_pool st)" "reaches_buffer (ri_link_id r) v i ?ps"
    "port_buffer (ri_link_id r) v st = Inr (sop_latency (ps_out ?ps ! ri_link_id r), i, ss_pool st ! i)"
    using outs_live_buffer [OF Cons.prems(1) _ Cons.prems(2)] Cons.prems(3) by (metis list.set_intros(1))
  obtain free mb' where a: "areNSlotsAvailable 1 (se_now env) (ss_pool st ! i) = (free, mb')"
    by (cases "areNSlotsAvailable 1 (se_now env) (ss_pool st ! i)")
  let ?st = "st\<lparr>ss_pool := (ss_pool st)[i := mb']\<rparr>"
  have frame: "pool_frame (ss_pool st) (ss_pool ?st)"
    using pool_frame_update [OF i(1) areNSlots_buf_frame [OF a]] by simp
  have live: "outs_live env ?st" by (rule outs_live_frame [OF Cons.prems(1) frame]) simp_all
  obtain enough' st' where rec: "foldR (room_step env v) routes (enough \<and> free, ?st) = Inr (enough', st')"
    "enough' \<longrightarrow> (enough \<and> free) \<and> (\<forall>r \<in> set routes. \<forall>k. reaches_buffer (ri_link_id r) v k ?ps \<longrightarrow>
      k < length (ss_pool st) \<longrightarrow> has_slot (se_now env) (ss_pool ?st ! k))"
    using Cons.IH [OF live, of "enough \<and> free"] Cons.prems(2,3) by auto
  have step: "room_step env v r (enough, st) = Inr (enough \<and> free, ?st)"
    using i(3) a by (simp add: room_step_def)
  have slot_i: "free \<longleftrightarrow> has_slot (se_now env) (ss_pool st ! i)" using a by (simp add: has_slot_def)
  have only: "k = i" if "reaches_buffer (ri_link_id r) v k ?ps" for k
    using that i(2) unfolding reaches_buffer_def by simp
  have same: "has_slot (se_now env) (ss_pool ?st ! k) = has_slot (se_now env) (ss_pool st ! k)" if "k < length (ss_pool st)" for k
    by (rule buf_frame_live(2) [OF pool_frame_nth [OF frame that]])
  show ?case
  proof (intro exI conjI impI ballI allI)
    show "foldR (room_step env v) (r # routes) (enough, st) = Inr (enough', st')" using step rec(1) by simp
    show "enough" if "enough'" using rec(2) that by simp
    show "has_slot (se_now env) (ss_pool st ! k)"
      if "enough'" "q \<in> set (r # routes)" "reaches_buffer (ri_link_id q) v k ?ps" "k < length (ss_pool st)" for q k
      using rec(2) that slot_i only same by auto
  qed
qed

lemma send_total:
  assumes "outs_live env st" and "v < ps_virtual_networks (ss_ps st)" and "distinct (map (ri_link_id \<circ> snd) cs)"
    and "\<forall>(m, r) \<in> set cs. ri_link_id r < length (ps_out (ss_ps st)) \<and> msg_LastEnqueueTime m \<le> se_now env \<and>
      (\<forall>i. reaches_buffer (ri_link_id r) v i (ss_ps st) \<longrightarrow> i < length (ss_pool st) \<longrightarrow> has_slot (se_now env) (ss_pool st ! i))"
  shows "\<exists>st'. foldR (send_step env v) cs st = Inr st' \<and> outs_live env st'"
  using assms
proof (induction cs arbitrary: st)
  case Nil
  then show ?case by simp
next
  case (Cons c cs)
  let ?ps = "ss_ps st"
  obtain m r where c: "c = (m, r)" by (cases c)
  let ?lat = "sop_latency (ps_out ?ps ! ri_link_id r)"
  have r: "ri_link_id r < length (ps_out ?ps)" "msg_LastEnqueueTime m \<le> se_now env"
    using Cons.prems(4) c by auto
  obtain i where i: "i < length (ss_pool st)" "reaches_buffer (ri_link_id r) v i ?ps" "out_buf_ok (se_now env) ?lat (ss_pool st ! i)"
    "port_buffer (ri_link_id r) v st = Inr (?lat, i, ss_pool st ! i)"
    using outs_live_buffer [OF Cons.prems(1) r(1) Cons.prems(2)] .
  have slot: "has_slot (se_now env) (ss_pool st ! i)" using Cons.prems(4) c i(1,2) by auto
  obtain mb' reqs where e: "mb_enqueue (se_flags env) (se_now env) ?lat (se_rt env (ss_draws st)) False
      (Some (m\<lparr>msg_destination := ri_destinations r\<rparr>)) (ss_pool st ! i) = Inr (mb', reqs)" "out_buf_ok (se_now env) ?lat mb'"
    using mb_enqueue_succeeds [OF i(3) slot, of "m\<lparr>msg_destination := ri_destinations r\<rparr>" "se_flags env" "se_rt env (ss_draws st)"]
      r(2) by auto
  let ?st = "st\<lparr>ss_pool := (ss_pool st)[i := mb'], ss_draws := ss_draws st + 1,
    ss_effects := ss_effects st @ map (effect_of (ss_pool st ! i)) reqs\<rparr>"
  have step: "send_step env v (m, r) st = Inr ?st" using i(4) e(1) by (simp add: send_step_def)
  have live: "outs_live env ?st"
  proof -
    have "\<exists>k < length (ss_pool st). reaches_buffer out w k ?ps \<and>
        out_buf_ok (se_now env) (sop_latency (ps_out ?ps ! out)) ((ss_pool st)[i := mb'] ! k)"
      if o: "out < length (ps_out ?ps)" "w < ps_virtual_networks ?ps" for out w
    proof -
      obtain k where k: "k < length (ss_pool st)" "reaches_buffer out w k ?ps"
        "out_buf_ok (se_now env) (sop_latency (ps_out ?ps ! out)) (ss_pool st ! k)"
        using outs_live_buffer [OF Cons.prems(1) o] .
      show ?thesis
      proof (cases "k = i")
        case True
        then have "out = ri_link_id r" using outs_live_unique [OF Cons.prems(1) k(2)] i(2) by blast
        with True k e(2) show ?thesis by auto
      next
        case False
        with k show ?thesis by auto
      qed
    qed
    then show ?thesis using Cons.prems(1) unfolding outs_live_def by simp
  qed
  have rest: "\<forall>(m, q) \<in> set cs. ri_link_id q < length (ps_out (ss_ps ?st)) \<and> msg_LastEnqueueTime m \<le> se_now env \<and>
      (\<forall>k. reaches_buffer (ri_link_id q) v k (ss_ps ?st) \<longrightarrow> k < length (ss_pool ?st) \<longrightarrow> has_slot (se_now env) (ss_pool ?st ! k))"
  proof (clarify, intro conjI allI impI)
    fix m' q assume q: "(m', q) \<in> set cs"
    then show "ri_link_id q < length (ps_out (ss_ps ?st))" "msg_LastEnqueueTime m' \<le> se_now env"
      using Cons.prems(4) by auto
    fix k assume k: "reaches_buffer (ri_link_id q) v k (ss_ps ?st)" "k < length (ss_pool ?st)"
    have "ri_link_id q \<noteq> ri_link_id r" using Cons.prems(3) q c by force
    then have "k \<noteq> i" using outs_live_unique [OF Cons.prems(1) _ i(2)] k(1) by fastforce
    then show "has_slot (se_now env) (ss_pool ?st ! k)" using Cons.prems(4) q k by auto
  qed
  obtain st' where "foldR (send_step env v) cs ?st = Inr st'" "outs_live env st'"
    using Cons.IH [OF live _ _ rest] Cons.prems(2,3) by auto
  then show ?case using step unfolding c by auto
qed

lemma take_total:
  assumes "b < length (ss_pool st)" and "mb_isReady (se_now env) (ss_pool st ! b) = Inr (True, reqs)"
    and "v < length (ps_pending_message_count (ss_ps st))"
  shows "\<exists>msg' st'. take_message env v b st = Inr (msg', st')"
proof -
  obtain d m mb' where "mb_dequeue (se_tick env) (se_now env) True (ss_pool st ! b) = Inr (d, m, mb')"
    using mb_dequeue_succeeds [OF assms(2)] by blast
  then show ?thesis using assms(1,3) by (cases d) (auto simp: take_message_def deref_buf_ok)
qed

lemma take_outs_live:
  assumes "take_message env v b st = Inr (msg', st')" and "outs_live env st" and "no_alias (ss_ps st) b"
  shows "outs_live env st'"
    and "reaches_buffer out w i (ss_ps st') = reaches_buffer out w i (ss_ps st)"
    and "reaches_buffer out w i (ss_ps st) \<Longrightarrow> ss_pool st' ! i = ss_pool st ! i"
    and "ps_out (ss_ps st') = ps_out (ss_ps st)" "ps_virtual_networks (ss_ps st') = ps_virtual_networks (ss_ps st)"
    "length (ss_pool st') = length (ss_pool st)"
proof -
  obtain c mb' es where st': "st' = st\<lparr>ss_ps := (ss_ps st)\<lparr>ps_pending_message_count := c\<rparr>,
      ss_pool := (ss_pool st)[b := mb'], ss_effects := es\<rparr>"
    using assms(1) by (cases rule: take_messageE) blast
  have ne: "i \<noteq> b" if "reaches_buffer out w i (ss_ps st)" for out w i
    using no_alias_reach [OF assms(3) that] .
  show "reaches_buffer out w i (ss_ps st') = reaches_buffer out w i (ss_ps st)" by (simp add: st')
  show "ss_pool st' ! i = ss_pool st ! i" if "reaches_buffer out w i (ss_ps st)" using ne [OF that] by (simp add: st')
  show "ps_out (ss_ps st') = ps_out (ss_ps st)" "ps_virtual_networks (ss_ps st') = ps_virtual_networks (ss_ps st)"
    "length (ss_pool st') = length (ss_pool st)" by (simp_all add: st')
  have "\<exists>i < length (ss_pool st). reaches_buffer out v i (ss_ps st) \<and>
      out_buf_ok (se_now env) (sop_latency (ps_out (ss_ps st) ! out)) ((ss_pool st)[b := mb'] ! i)"
    if o: "out < length (ps_out (ss_ps st))" "v < ps_virtual_networks (ss_ps st)" for out v
  proof -
    obtain i where i: "i < length (ss_pool st)" "reaches_buffer out v i (ss_ps st)"
      "out_buf_ok (se_now env) (sop_latency (ps_out (ss_ps st) ! out)) (ss_pool st ! i)"
      using outs_live_buffer [OF assms(2) o] .
    with ne [OF i(2)] show ?thesis by auto
  qed
  then show "outs_live env st'" using assms(2) unfolding outs_live_def by (simp add: st')
qed

text \<open>The heap of a buffer of an input port only loses its head, and its links stay covering.\<close>

lemma ins_live_step:
  assumes step: "operate_step env v b st = Inr (again, st')" and live: "ins_live env st" and inv: "switch_inv st"
    and b: "v < length (ps_in_prio_groups (ss_ps st))" "b \<in> set (concat (ps_in_prio_groups (ss_ps st) ! v))"
    and links: "image_mset link_core (mset (ss_links st')) = image_mset link_core (mset (ss_links st))"
    and pops: "mb_time_last_time_pop (ss_pool st' ! b) \<le> se_now env"
      "\<And>k. k \<noteq> b \<Longrightarrow> k < length (ss_pool st) \<Longrightarrow> no_alias (ss_ps st) k \<Longrightarrow>
        mb_time_last_time_pop (ss_pool st' ! k) = mb_time_last_time_pop (ss_pool st ! k)"
  shows "ins_live env st'"
proof -
  obtain c where ps: "ss_ps st' = (ss_ps st)\<lparr>ps_pending_message_count := c\<rparr>" using operate_step_ports [OF step] by blast
  have "mb_time_last_time_pop (ss_pool st' ! k) \<le> se_now env \<and>
      (\<forall>m \<in> set (mb_prio_heap (ss_pool st' ! k)). covered (ss_links st') (msg_destination m))"
    if k: "w < length (ps_in_prio_groups (ss_ps st))" "k \<in> set (concat (ps_in_prio_groups (ss_ps st) ! w))" for w k
  proof -
    note kk = switch_inv_nth [OF inv k]
    have old: "mb_time_last_time_pop (ss_pool st ! k) \<le> se_now env"
      "\<forall>m \<in> set (mb_prio_heap (ss_pool st ! k)). covered (ss_links st) (msg_destination m)"
      using live k unfolding ins_live_def by blast+
    have "set (mb_prio_heap (ss_pool st' ! k)) \<subseteq> set (mb_prio_heap (ss_pool st ! k))"
      using operate_step_heaps(1) [OF step kk(2,1)] by (cases "again \<and> k = b") auto
    moreover have "mb_time_last_time_pop (ss_pool st' ! k) \<le> se_now env"
      using pops(1) pops(2) [OF _ kk(1,2)] old(1) by (cases "k = b") auto
    ultimately show ?thesis using old(2) covered_core [OF links] by blast
  qed
  then show ?thesis unfolding ins_live_def ps by simp
qed

lemma copies_ids: "map (ri_link_id \<circ> snd) (copies m' m routes) = map ri_link_id routes"
  by (cases routes) (simp_all add: copies_def o_def)

lemma in_copies: "(x, r) \<in> set (copies m' m routes) \<Longrightarrow> r \<in> set routes \<and> (x = m' \<or> x = m)"
  by (cases routes) (auto simp: copies_def)

lemma route_total:
  assumes "routing_ok (se_mt env) st" and "nd_ok (se_mt env) (msg_destination msg)" and "covered (ss_links st) (msg_destination msg)"
  shows "\<exists>routes st'. switch_route env v msg st = Inr (routes, st') \<and>
    image_mset link_core (mset (ss_links st')) = image_mset link_core (mset (ss_links st)) \<and>
    distinct (map ri_link_id routes) \<and> (\<forall>r \<in> set routes. ri_link_id r \<in> wl_link_id ` set (ss_links st'))"
proof -
  let ?d = "msg_destination msg"
  let ?rnd = "\<lambda>i. se_byte env (ss_draws st + i)"
  obtain routes links' pool' where r: "wb_route (se_mt env) (se_adaptive env) (se_now env) ?rnd msg (se_ordered env v)
      (ss_links st) (ss_pool st) = Inr (routes, links', pool')"
    "links_ok (se_mt env) (length (ss_pool st)) links'"
    "image_mset link_core (mset links') = image_mset link_core (mset (ss_links st))"
    "list_all2 (routes_match (se_mt env) links' ?d) routes (filter (\<lambda>l. link_share links' ?d l \<noteq> {}) links')"
    using wb_route_ok [OF _ assms(2,3), where pool = "ss_pool st" and adaptive = "se_adaptive env" and now = "se_now env"
        and rnd = ?rnd and det = "se_ordered env v"] assms(1)
    unfolding routing_ok_def by (elim conjE exE meta_impE) (assumption, rule that, assumption+)
  have ids: "distinct (map wl_link_id links')" using r(2) by (simp add: links_ok_def)
  have cov: "covered links' ?d" using assms(3) covered_core [OF r(3)] by simp
  note part = routes_partition [OF r(4) ids cov]
  have "\<forall>r \<in> set routes. ri_link_id r \<in> wl_link_id ` set links'" using part(2) by (metis imageI)
  then show ?thesis using r(1,3) part(1) unfolding switch_route_def by simp
qed

lemma operate_step_total:
  assumes live: "live env st" and v: "v < length (ps_in_prio_groups (ss_ps st))"
    and b: "b \<in> set (concat (ps_in_prio_groups (ss_ps st) ! v))"
  shows "\<exists>again st'. operate_step env v b st = Inr (again, st') \<and> live env st'"
proof -
  let ?ps = "ss_ps st" and ?mb = "ss_pool st ! b"
  have inv: "switch_inv st" and rok: "routing_ok (se_mt env) st" and outs: "outs_live env st" and ins: "ins_live env st"
    using live by (simp_all add: live_def)
  note at = switch_inv_nth [OF inv v b]
  have nets: "v < ps_virtual_networks ?ps" "v < length (ps_pending_message_count ?ps)"
    using inv v by (simp_all add: switch_inv_def)
  have pop: "mb_time_last_time_pop ?mb \<le> se_now env" and cov: "\<forall>m \<in> set (mb_prio_heap ?mb). covered (ss_links st) (msg_destination m)"
    using ins v b unfolding ins_live_def by blast+
  obtain ready reqs where rdy: "mb_isReady (se_now env) ?mb = Inr (ready, reqs)"
    using mb_isReady_total [OF pop at(3)] by blast
  let ?st = "st\<lparr>ss_effects := ss_effects st @ map (effect_of ?mb) reqs\<rparr>"
  have finish: "operate_step env v b st = Inr (again, st') \<and> live env st'"
    if o: "operate_step env v b st = Inr (again, st')" and "outs_live env st'"
      and "image_mset link_core (mset (ss_links st')) = image_mset link_core (mset (ss_links st))"
      and "mb_time_last_time_pop (ss_pool st' ! b) \<le> se_now env"
      and "\<And>k. k \<noteq> b \<Longrightarrow> k < length (ss_pool st) \<Longrightarrow> no_alias ?ps k \<Longrightarrow>
        mb_time_last_time_pop (ss_pool st' ! k) = mb_time_last_time_pop (ss_pool st ! k)" for again st'
    using o switch_inv_step [OF inv v b o] operate_step_conserves [OF o rok] that(2) ins_live_step [OF o ins inv v b that(3-5)]
    by (simp add: live_def)
  show ?thesis
  proof (cases ready)
    case False
    have "operate_step env v b st = Inr (False, ?st)" using rdy at(1) False by (simp add: operate_step_def deref_buf_ok)
    moreover have "outs_live env ?st" by (rule outs_live_frame [OF outs pool_frame_refl refl]) simp_all
    ultimately show ?thesis using finish [of False ?st] pop by auto
  next
    case True
    obtain m ms where heap: "mb_prio_heap ?mb = m # ms" "msg_LastEnqueueTime m \<le> se_now env"
      using mb_isReady_True rdy True by metis
    have peek: "mb_peek ?mb = Inr m" using heap by (simp add: mb_peek_def heap_front_def)
    have d: "nd_ok (se_mt env) (msg_destination m)" using rok dests_ok_nth [OF _ at(1)] heap(1) by (simp add: routing_ok_def)
    have rok': "routing_ok (se_mt env) ?st" using rok by (simp add: routing_ok_def)
    obtain routes st1 where r: "switch_route env v m ?st = Inr (routes, st1)"
      "image_mset link_core (mset (ss_links st1)) = image_mset link_core (mset (ss_links st))"
      "distinct (map ri_link_id routes)" "\<forall>r \<in> set routes. ri_link_id r \<in> wl_link_id ` set (ss_links st1)"
      using route_total [OF rok' d, of v] cov heap(1) by auto
    note f1 = switch_route_frame [OF r(1)]
    have outs1: "outs_live env st1" by (rule outs_live_frame [OF outs _ r(2)]) (use f1 in simp_all)
    have ids: "\<forall>r \<in> set routes. ri_link_id r < length (ps_out ?ps)"
      using r(4) outs1 f1 unfolding outs_live_def by force
    obtain enough st2 where room: "foldR (room_step env v) routes (True, st1) = Inr (enough, st2)"
      "enough \<longrightarrow> (\<forall>r \<in> set routes. \<forall>i. reaches_buffer (ri_link_id r) v i ?ps \<longrightarrow>
        i < length (ss_pool st1) \<longrightarrow> has_slot (se_now env) (ss_pool st1 ! i))"
      using room_total [OF outs1, of v routes True] f1 nets(1) ids by auto
    obtain p where p: "st2 = st1\<lparr>ss_pool := p\<rparr>" "pool_frame (ss_pool st1) p" using room_frame [OF room(1)] by blast
    have frame: "pool_frame (ss_pool st) p" using f1 p(2) pool_frame_trans by auto
    have outs2: "outs_live env st2" by (rule outs_live_frame [OF outs1 p(2) refl]) (simp_all add: p(1))
    have pops: "mb_time_last_time_pop (p ! k) = mb_time_last_time_pop (ss_pool st ! k)" if "k < length (ss_pool st)" for k
      using buf_frame_live(3) [OF pool_frame_nth [OF frame that]] .
    note shape = operate_step_def deref_buf_ok [OF at(1)] rdy Let_def peek r(1) room(1)
    show ?thesis
    proof (cases enough)
      case False
      let ?st' = "st2\<lparr>ss_effects := ss_effects st2 @ [Reschedule (Switch_consumer (ps_switch_id (ss_ps st2))) 1]\<rparr>"
      have "operate_step env v b st = Inr (False, ?st')" using True False by (simp add: shape)
      moreover have "outs_live env ?st'" by (rule outs_live_frame [OF outs2 pool_frame_refl refl]) simp_all
      ultimately show ?thesis using finish [of False ?st'] pops at(1) pop r(2) p(1) by auto
    next
      case enough: True
      have rdy2: "mb_isReady (se_now env) (ss_pool st2 ! b) = Inr (True, reqs)" and heap2: "mb_prio_heap (ss_pool st2 ! b) = m # ms"
        using buf_frame_same(1,5) [OF pool_frame_nth [OF frame at(1)]] rdy True heap(1) p(1) by simp_all
      have len2: "b < length (ss_pool st2)" using at(1) pool_frame_length [OF frame] p(1) by simp
      have ps2: "ss_ps st2 = ?ps" using f1 p(1) by simp
      obtain m' st3 where t: "take_message env v b st2 = Inr (m', st3)"
        using take_total [OF len2 rdy2, of v] nets(2) ps2 by auto
      have alias2: "no_alias (ss_ps st2) b" using at(2) ps2 by simp
      note t3 = take_outs_live [OF t outs2 alias2]
      have le: "msg_LastEnqueueTime m' \<le> se_now env" and pop3: "mb_time_last_time_pop (ss_pool st3 ! b) \<le> se_now env"
        and pop3': "\<And>k. k \<noteq> b \<Longrightarrow> ss_pool st3 ! k = ss_pool st2 ! k" and links3: "ss_links st3 = ss_links st2"
        and alias3: "\<And>k. no_alias (ss_ps st3) k = no_alias ?ps k"
      proof -
        obtain d mb' c es where q: "mb_dequeue (se_tick env) (se_now env) True (ss_pool st2 ! b) = Inr (d, m', mb')"
          "st3 = st2\<lparr>ss_ps := (ss_ps st2)\<lparr>ps_pending_message_count := c\<rparr>, ss_pool := (ss_pool st2)[b := mb'], ss_effects := es\<rparr>"
          using t by (cases rule: take_messageE) blast
        have "mb_time_last_time_pop mb' \<le> se_now env" using mb_dequeue_succeeds [OF rdy2, of "se_tick env"] q(1) by auto
        moreover have "msg_LastEnqueueTime m' \<le> se_now env" using mb_dequeue_message [OF q(1)] by auto
        ultimately show "msg_LastEnqueueTime m' \<le> se_now env" "mb_time_last_time_pop (ss_pool st3 ! b) \<le> se_now env"
          "\<And>k. k \<noteq> b \<Longrightarrow> ss_pool st3 ! k = ss_pool st2 ! k" "ss_links st3 = ss_links st2"
          "\<And>k. no_alias (ss_ps st3) k = no_alias ?ps k"
          using len2 ps2 by (simp_all add: q(2) no_alias_def)
      qed
      have slots: "\<forall>(x, r) \<in> set (copies m' m routes). ri_link_id r < length (ps_out (ss_ps st3)) \<and> msg_LastEnqueueTime x \<le> se_now env \<and>
        (\<forall>i. reaches_buffer (ri_link_id r) v i (ss_ps st3) \<longrightarrow> i < length (ss_pool st3) \<longrightarrow> has_slot (se_now env) (ss_pool st3 ! i))"
      proof (clarify, intro conjI allI impI)
        fix x r assume "(x, r) \<in> set (copies m' m routes)"
        note xr = in_copies [OF this]
        show "ri_link_id r < length (ps_out (ss_ps st3))" using ids xr t3(4) ps2 by simp
        show "msg_LastEnqueueTime x \<le> se_now env" using xr le heap(2) by auto
        fix i assume i: "reaches_buffer (ri_link_id r) v i (ss_ps st3)" "i < length (ss_pool st3)"
        have i2: "reaches_buffer (ri_link_id r) v i (ss_ps st2)" using i(1) t3(2) by simp
        have len: "i < length (ss_pool st1)" using i(2) t3(6) p(1) pool_frame_length [OF p(2)] by simp
        have "has_slot (se_now env) (ss_pool st1 ! i)" using room(2) enough conjunct1 [OF xr] i2 len unfolding ps2 by blast
        then show "has_slot (se_now env) (ss_pool st3 ! i)"
          using t3(3) [OF i2] buf_frame_live(2) [OF pool_frame_nth [OF p(2) len]] p(1) by simp
      qed
      have v3: "v < ps_virtual_networks (ss_ps st3)" using nets(1) t3(5) ps2 by simp
      have dist: "distinct (map (ri_link_id \<circ> snd) (copies m' m routes))" using r(3) by (simp add: copies_ids)
      obtain st4 where s: "foldR (send_step env v) (copies m' m routes) st3 = Inr st4" "outs_live env st4"
        using send_total [OF t3(1) v3 dist slots] by blast
      have "operate_step env v b st = Inr (True, st4)" using True enough t s(1) by (simp add: shape)
      moreover have "ss_links st4 = ss_links st3"
        using s(1)
      proof (rule foldR_invariant [where P = "\<lambda>s. ss_links s = ss_links st3"])
        fix c and s s' :: switch_state assume "ss_links s = ss_links st3" "send_step env v c s = Inr s'"
        then show "ss_links s' = ss_links st3" by (cases c) (auto elim: send_stepE)
      qed simp
      moreover have "mb_time_last_time_pop (ss_pool st4 ! b) \<le> se_now env"
        using send_other [OF s(1), of b] alias3 at(2) pop3 by simp
      moreover have "mb_time_last_time_pop (ss_pool st4 ! k) = mb_time_last_time_pop (ss_pool st ! k)"
        if "k \<noteq> b" "k < length (ss_pool st)" "no_alias ?ps k" for k
        using send_other [OF s(1), of k] alias3 that pop3' pops p(1) by simp
      ultimately show ?thesis using finish [of True st4] s(2) r(2) links3 p(1) by auto
    qed
  qed
qed

section \<open>A wakeup does not fail\<close>

text \<open>The switch is in order, and its ports are those of \<open>ps\<close>.\<close>

definition live_at :: "switch_env \<Rightarrow> PerfectSwitch \<Rightarrow> switch_state \<Rightarrow> bool" where
  "live_at env ps st \<longleftrightarrow> live env st \<and> same_ports ps (ss_ps st)"

lemma operate_total:
  assumes "live_at env ps st" and "v < length (ps_in_prio_groups ps)" and "b \<in> set (concat (ps_in_prio_groups ps ! v))"
  shows "\<exists>st'. operateMessageBuffer env v b st = retO st' \<and> live_at env ps st'"
  unfolding operateMessageBuffer_def
proof (rule repeat_total [where P = "live_at env ps" and f = "\<lambda>s :: switch_state. length (mb_prio_heap (ss_pool s ! b))", OF assms(1)])
  fix s assume s: "live_at env ps s"
  have groups: "ps_in_prio_groups (ss_ps s) = ps_in_prio_groups ps" using s by (simp add: live_at_def same_ports_fields)
  have vb: "v < length (ps_in_prio_groups (ss_ps s))" "b \<in> set (concat (ps_in_prio_groups (ss_ps s) ! v))"
    using assms(2,3) groups by simp_all
  obtain again s' where o: "operate_step env v b s = Inr (again, s')" "live env s'"
    using operate_step_total [OF _ vb, of env] s by (auto simp: live_at_def)
  obtain c where "ss_ps s' = (ss_ps s)\<lparr>ps_pending_message_count := c\<rparr>" using operate_step_ports [OF o(1)] by blast
  then have live: "live_at env ps s'" using s o(2) same_ports_trans unfolding live_at_def by auto
  have inv: "switch_inv s" using s by (simp add: live_at_def live_def)
  have "again \<longrightarrow> length (mb_prio_heap (ss_pool s' ! b)) < length (mb_prio_heap (ss_pool s ! b))"
    using operate_step_heaps(1) [OF o(1) switch_inv_nth(2,1) [OF inv vb]] by (auto split: if_splits)
  with o(1) live show "\<exists>again s'. operate_step env v b s = Inr (again, s') \<and> live_at env ps s' \<and>
      (again \<longrightarrow> length (mb_prio_heap (ss_pool s' ! b)) < length (mb_prio_heap (ss_pool s ! b)))" by blast
qed

lemma oldest_port_total:
  assumes "\<forall>b \<in> set ins. b < length pool"
  shows "\<exists>start. oldest_port ins pool = Inr start"
proof -
  have "\<exists>t. foldR (oldest_step ins pool) [0..<length ins] (MaxTick, 0) = Inr t \<and> True"
    by (rule foldR_total) (use assms in \<open>auto simp: oldest_step_def deref_buf_ok\<close>)
  then show ?thesis by (auto simp: oldest_port_def)
qed

lemma operate_group_total:
  assumes "live_at env ps st" and "v < length (ps_in_prio_groups ps)" and "ins \<in> set (ps_in_prio_groups ps ! v)"
  shows "\<exists>st'. operate_group env v ins st = retO st' \<and> live_at env ps st'"
proof -
  have groups: "ps_in_prio_groups (ss_ps st) = ps_in_prio_groups ps" using assms(1) by (simp add: live_at_def same_ports_fields)
  have "\<forall>b \<in> set ins. b < length (ss_pool st)"
    using assms switch_inv_nth(1) [of st v] groups by (auto simp: live_at_def live_def)
  then obtain start where s: "oldest_port ins (ss_pool st) = Inr start" using oldest_port_total by blast
  have "\<exists>st'. foldO (\<lambda>i. operateMessageBuffer env v (ins ! ((i + start) mod length ins))) [0..<length ins] st = retO st' \<and>
    live_at env ps st'"
  proof (rule foldO_total [where P = "live_at env ps", OF assms(1)])
    fix i and s :: switch_state assume i: "i \<in> set [0..<length ins]" and s: "live_at env ps s"
    have "(i + start) mod length ins < length ins" using i by (intro mod_less_divisor) auto
    then have "ins ! ((i + start) mod length ins) \<in> set (concat (ps_in_prio_groups ps ! v))" using assms(3) nth_mem by auto
    from operate_total [OF s assms(2) this]
    show "\<exists>s'. operateMessageBuffer env v (ins ! ((i + start) mod length ins)) s = retO s' \<and> live_at env ps s'" .
  qed
  then show ?thesis using s by (simp add: operate_group_def)
qed

lemma ps_operateVnet_total:
  assumes "live_at env ps st" and "v < ps_virtual_networks ps"
  shows "\<exists>st'. ps_operateVnet env v st = retO st' \<and> live_at env ps st'"
proof -
  have inv: "switch_inv st" and same: "same_ports ps (ss_ps st)" using assms(1) by (auto simp: live_at_def live_def)
  note eq = same_ports_fields [OF same]
  have v: "v < length (ps_in_prio_groups ps)" "v < length (ps_pending_message_count (ss_ps st))"
    using inv assms(2) by (simp_all add: switch_inv_def eq)
  have "\<exists>st'. foldO (operate_group env v) (ps_in_prio_groups ps ! v) st = retO st' \<and> live_at env ps st'"
    by (rule foldO_total [where P = "live_at env ps", OF assms(1)]) (rule operate_group_total [OF _ v(1)])
  then show ?thesis using v assms(1) by (simp add: ps_operateVnet_def eq)
qed

lemma ps_wakeup_total:
  assumes "live env st"
  shows "\<exists>st'. ps_wakeup env st = retO st' \<and> live env st' \<and> same_ports (ss_ps st) (ss_ps st')"
proof -
  let ?ps = "ss_ps st"
  have start: "live_at env ?ps (st\<lparr>ss_ps := ?ps\<lparr>ps_wakeups_wo_switch := n\<rparr>\<rparr>)" for n
  proof -
    have "reaches_buffer out v i (?ps\<lparr>ps_wakeups_wo_switch := n\<rparr>) = reaches_buffer out v i ?ps" for out v i
      by (simp add: reaches_buffer_def)
    then show ?thesis using assms unfolding live_at_def live_def
      by (simp add: switch_inv_def vnet_waiting_def no_alias_def routing_ok_def outs_live_def ins_live_def)
  qed
  have run: "\<exists>t. foldO (ps_operateVnet env) vnets (st\<lparr>ss_ps := ?ps\<lparr>ps_wakeups_wo_switch := n\<rparr>\<rparr>) = retO t \<and> live_at env ?ps t"
    if "set vnets = {..<ps_virtual_networks ?ps}" for vnets n
    by (rule foldO_total [where P = "live_at env ?ps", OF start]) (use that ps_operateVnet_total in auto)
  let ?n = "ps_wakeups_wo_switch ?ps + 1"
  let ?vnets = "if ?n > PRIORITY_SWITCH_LIMIT then [0..<ps_virtual_networks ?ps] else rev [0..<ps_virtual_networks ?ps]"
  have "set ?vnets = {..<ps_virtual_networks ?ps}" by auto
  from run [OF this, of "if ?n > PRIORITY_SWITCH_LIMIT then 0 else ?n"]
  show ?thesis unfolding ps_wakeup_def Let_def live_at_def by blast
qed

end
