(* ===== verification/SwitchProperties.thy ===== *)
theory SwitchProperties
  imports SwitchProgress
begin

text \<open>
  The properties of the switches of the simple network: deliveries are conserved, no message is
  left behind, a well-wired switch never fails, the groups that the priorities of the buffers
  really make, and how the delay of a message is counted.
\<close>

section \<open>An example\<close>

text \<open>
  One input buffer with a message for three machines, behind two links: ports \<open>0\<close> and \<open>1\<close> have
  the buffers \<open>1\<close> and \<open>0\<close>, the input port has buffer \<open>2\<close>.
\<close>

definition example_multicast :: Message where
  "example_multicast = (example_message 1)\<lparr>msg_destination := example_entry [True, False, True] [False, True],
     msg_LastEnqueueTime := 5\<rparr>"

definition example_out_buf :: "nat \<Rightarrow> MessageBuffer" where
  "example_out_buf p = (MessageBuffer_new 1 0 True Rand_disabled False)\<lparr>mb_consumer := Some (Throttle_consumer 0 p)\<rparr>"

definition example_in_buf :: MessageBuffer where
  "example_in_buf = (MessageBuffer_new 0 0 True Rand_disabled False)
     \<lparr>mb_consumer := Some (Switch_consumer 0), mb_prio_heap := [example_multicast]\<rparr>"

definition example_switch :: switch_state where
  "example_switch =
    \<lparr>ss_ps = \<lparr>ps_switch_id = 0, ps_in = [[Some 2]],
       ps_out = [\<lparr>sop_latency = 3, sop_buffers = [Some 1]\<rparr>, \<lparr>sop_latency = 3, sop_buffers = [Some 0]\<rparr>],
       ps_in_prio = [[2]], ps_in_prio_groups = [[[2]]], ps_virtual_networks = 1,
       ps_wakeups_wo_switch = 0, ps_pending_message_count = [1]\<rparr>,
     ss_links = example_links, ss_pool = [example_out_buf 1, example_out_buf 0, example_in_buf],
     ss_draws = 0, ss_effects = []\<rparr>"

definition example_switch_env :: switch_env where
  "example_switch_env = \<lparr>se_mt = example_machines, se_flags = no_flags, se_tick = 10, se_now = 10, se_adaptive = True,
     se_ordered = (\<lambda>v. False), se_byte = (\<lambda>i. 7 - i), se_rt = (\<lambda>i. 0)\<rparr>"

text \<open>The ports are what the operations of the code make of an empty switch.\<close>

lemma example_switch_built:
  "case ps_addOutPort [Some 1] (example_entry [True, False, True] [False, False]) 3 2
      (PerfectSwitch_init (PerfectSwitch_new 0 1), []) of
    Inl e \<Rightarrow> False
  | Inr s \<Rightarrow> (case ps_addOutPort [Some 0] (example_entry [True, False, False] [False, True]) 3 1 s of
      Inl e \<Rightarrow> False
    | Inr (ps, links) \<Rightarrow> links = ss_links example_switch \<and>
        (case ps_addInPort (\<lambda>b. 0) [Some 2] (ps, [example_out_buf 1, example_out_buf 0, MessageBuffer_new 0 0 True Rand_disabled False]) of
          Inl e \<Rightarrow> False
        | Inr (ps', pool) \<Rightarrow> ps'\<lparr>ps_pending_message_count := [1]\<rparr> = ss_ps example_switch \<and>
            pool = (ss_pool example_switch)[2 := example_in_buf\<lparr>mb_prio_heap := []\<rparr>]))"
  by code_simp

lemma example_switch_live: "live example_switch_env example_switch"
proof -
  have inv: "switch_inv example_switch"
    by (simp add: switch_inv_def example_switch_def vnet_waiting_def no_alias_def example_in_buf_def)
  have "refs_ok 2 bufs \<Longrightarrow> refs_ok 3 bufs" for bufs unfolding refs_ok_def by fastforce
  then have "links_ok example_machines 3 example_links" using example_links_ok by (simp add: links_ok_def)
  then have rok: "routing_ok (se_mt example_switch_env) example_switch"
    by (simp add: routing_ok_def dests_ok_def example_switch_def example_switch_env_def example_in_buf_def
        example_out_buf_def MessageBuffer_new_def example_multicast_def example_entry_ok numeral_3_eq_3)
  have out: "out_buf_ok (se_now example_switch_env) 3 (example_out_buf p)" for p
  proof -
    have "mb_ok 10 (example_out_buf p)"
      using mb_new_ok [of 10 1 0 True Rand_disabled False] by (simp add: example_out_buf_def)
    then show ?thesis
      by (simp add: out_buf_ok_def example_switch_env_def) (simp add: example_out_buf_def MessageBuffer_new_def)
  qed
  have reach: "reaches_buffer out v i (ss_ps example_switch) \<longleftrightarrow> v = 0 \<and> (out = 0 \<and> i = 1 \<or> out = 1 \<and> i = 0)" for out v i
    by (auto simp: reaches_buffer_def example_switch_def less_Suc_eq nth_Cons')
  have outs: "outs_live example_switch_env example_switch"
  proof -
    have sizes: "length (ps_out (ss_ps example_switch)) = 2" "ps_virtual_networks (ss_ps example_switch) = 1"
      "length (ss_pool example_switch) = 3" by (simp_all add: example_switch_def)
    have "\<exists>i < 3. reaches_buffer o' v i (ss_ps example_switch) \<and>
        out_buf_ok (se_now example_switch_env) (sop_latency (ps_out (ss_ps example_switch) ! o')) (ss_pool example_switch ! i)"
      if "o' < 2" "v < 1" for o' v :: nat
    proof (cases "o' = 0")
      case True
      with that out [of 0] show ?thesis by (intro exI [of _ 1]) (simp add: reach, simp add: example_switch_def)
    next
      case False
      with that have "o' = 1" by simp
      with that out [of 1] show ?thesis by (intro exI [of _ 0]) (simp add: reach, simp add: example_switch_def)
    qed
    moreover have "\<forall>l \<in> set (ss_links example_switch). wl_link_id l < 2"
      by (simp add: example_switch_def example_links_def)
    ultimately show ?thesis unfolding outs_live_def sizes using reach by auto
  qed
  have "ins_live example_switch_env example_switch"
    using example_links_covered
    by (simp add: ins_live_def example_switch_def example_in_buf_def example_multicast_def MessageBuffer_new_def)
  with inv rok outs show ?thesis by (simp add: live_def)
qed

section \<open>No delivery is lost, no message left behind\<close>

text \<open>
  C10: A wakeup of a switch that succeeds neither loses nor duplicates a delivery: counting, over
  all buffers, each message once for each of its destinations, the count is the same before and
  after, although a message for several links leaves as several copies, and whatever the
  priorities, the order of the links and the room in the buffers.
\<close>

theorem switch_conserves_deliveries:
  assumes "routing_ok (se_mt env) st" and "ps_wakeup env st = retO st'"
  shows "pool_deliveries (ss_pool st') = pool_deliveries (ss_pool st) \<and> routing_ok (se_mt env) st'"
proof -
  let ?P = "\<lambda>s. pool_deliveries (ss_pool s) = pool_deliveries (ss_pool st) \<and> routing_ok (se_mt env) s"
  have "?P st' \<and> (\<forall>vnet < ps_virtual_networks (ss_ps st). \<forall>b \<in> set (concat (ps_in_prio_groups (ss_ps st) ! vnet)). True)"
  proof (rule wakeup_establish [OF assms(2), of ?P "\<lambda>_ _. True"])
    fix vnet b s s' assume "?P s" and o: "operateMessageBuffer env vnet b s = retO s'"
    have "?P s'" by (rule operate_invariant [OF o, of ?P]) (use \<open>?P s\<close> operate_step_conserves in auto)
    then show "?P s' \<and> True \<and> (\<forall>y. True \<longrightarrow> True)" by simp
  qed (use assms(1) in \<open>auto simp: routing_ok_def\<close>)
  then show ?thesis by simp
qed

lemma switch_conserves_deliveries_witness:
  "\<exists>st'. ps_wakeup example_switch_env example_switch = retO st' \<and>
    pool_deliveries (ss_pool st') = deliveries_of 1 (nd_abs (example_entry [True, False, True] [False, True]))"
proof -
  obtain st' where w: "ps_wakeup example_switch_env example_switch = retO st'"
    using ps_wakeup_total [OF example_switch_live] by blast
  have "routing_ok (se_mt example_switch_env) example_switch" using example_switch_live by (simp add: live_def)
  from switch_conserves_deliveries [OF this w] w show ?thesis
    by (simp add: pool_deliveries_def buf_deliveries_def example_switch_def example_in_buf_def example_out_buf_def
        MessageBuffer_new_def stalled_msgs_def msg_deliveries_def example_multicast_def example_message_def)
qed

text \<open>
  C19: A wakeup of a switch leaves no message behind. In a switch whose counts of pending
  messages are right and whose input and output ports share no buffer, the loops of a wakeup
  end; and when no assertion fails, the counts are right again, and every buffer of an input
  port is empty, or its first message is not ready, or the switch has asked to be woken in the
  next cycle. So skipping a virtual network whose count is zero never strands a message.
\<close>

theorem no_ready_message_left:
  assumes "switch_inv st" and "ss_effects st = []"
  shows "\<exists>r. ps_wakeup env st = Some r \<and> (\<forall>st'. r = Inr st' \<longrightarrow> switch_inv st' \<and>
    (\<forall>vnet < ps_virtual_networks (ss_ps st). \<forall>b \<in> set (concat (ps_in_prio_groups (ss_ps st) ! vnet)).
      \<forall>m ms. mb_prio_heap (ss_pool st' ! b) = m # ms \<longrightarrow> msg_LastEnqueueTime m \<le> se_now env \<longrightarrow>
        Reschedule (Switch_consumer (ps_switch_id (ss_ps st))) 1 \<in> set (ss_effects st')))"
proof -
  let ?ps = "ss_ps st"
  let ?sid = "ps_switch_id ?ps"
  define in_port where "in_port b \<longleftrightarrow> (\<exists>vnet < length (ps_in_prio_groups ?ps). b \<in> set (concat (ps_in_prio_groups ?ps ! vnet)))" for b
  let ?R = "\<lambda>b s. in_port b \<and> settled (se_now env) ?sid b s"
  obtain r where r: "ps_wakeup env st = Some r" using ps_wakeup_returns [OF switch_inv_apart [OF assms(1)]] by blast
  have nets: "ps_virtual_networks ?ps = length (ps_in_prio_groups ?ps)" using assms(1) by (simp add: switch_inv_def)
  have fin: "switch_inv st' \<and> (\<forall>vnet < ps_virtual_networks ?ps. \<forall>b \<in> set (concat (ps_in_prio_groups ?ps ! vnet)). ?R b st')"
    if "ps_wakeup env st = retO st'" for st'
  proof (rule wakeup_establish [where P = switch_inv and R = ?R, OF that assms(1)])
    fix s n assume "switch_inv s"
    then show "switch_inv (s\<lparr>ss_ps := (ss_ps s)\<lparr>ps_wakeups_wo_switch := n\<rparr>\<rparr>)"
      by (simp add: switch_inv_def vnet_waiting_def no_alias_def)
  next
    fix vnet b s s' assume v: "vnet < ps_virtual_networks ?ps" and b: "b \<in> set (concat (ps_in_prio_groups ?ps ! vnet))"
      and s: "switch_inv s" "same_ports ?ps (ss_ps s)" and o: "operateMessageBuffer env vnet b s = retO s'"
    note eq = same_ports_fields [OF s(2)]
    have "no_alias (ss_ps s) k \<and> k < length (ss_pool s)" if "in_port k" for k
      using that switch_inv_nth(1,2) [OF s(1)] unfolding in_port_def eq by blast
    moreover have "in_port b" using v b nets unfolding in_port_def by auto
    ultimately show "switch_inv s' \<and> ?R b s' \<and> (\<forall>y. ?R y s \<longrightarrow> ?R y s')"
      using operate_settles [OF o s(1)] v b nets unfolding eq by auto
  next
    fix vnet b s assume v: "vnet < ps_virtual_networks ?ps" and b: "b \<in> set (concat (ps_in_prio_groups ?ps ! vnet))"
      and s: "switch_inv s" "same_ports ?ps (ss_ps s)" and zero: "ps_pending_message_count (ss_ps s) ! vnet = 0"
    note eq = same_ports_fields [OF s(2)]
    have "vnet_waiting s vnet = 0" using s(1) v nets zero eq by (simp add: switch_inv_def)
    moreover have "int (length (mb_prio_heap (ss_pool s ! b))) \<le> vnet_waiting s vnet"
      unfolding vnet_waiting_def eq by (rule member_le_sum_list) (use b in auto)
    ultimately have "mb_prio_heap (ss_pool s ! b) = []" by simp
    moreover have "in_port b" using v b nets unfolding in_port_def by auto
    ultimately show "?R b s" by (simp add: settled_def)
  qed
  have "switch_inv st' \<and>
    (\<forall>vnet < ps_virtual_networks ?ps. \<forall>b \<in> set (concat (ps_in_prio_groups ?ps ! vnet)).
      \<forall>m ms. mb_prio_heap (ss_pool st' ! b) = m # ms \<longrightarrow> msg_LastEnqueueTime m \<le> se_now env \<longrightarrow>
        Reschedule (Switch_consumer ?sid) 1 \<in> set (ss_effects st'))" if "r = Inr st'" for st'
  proof -
    have "ps_wakeup env st = retO st'" using r that by (simp add: retO_def)
    from fin [OF this] show ?thesis unfolding settled_def by fastforce
  qed
  with r show ?thesis by blast
qed

lemma no_ready_message_left_witness:
  "\<exists>st'. ps_wakeup example_switch_env example_switch = retO st' \<and> switch_inv st' \<and>
    (\<forall>m ms. mb_prio_heap (ss_pool st' ! 2) = m # ms \<longrightarrow> msg_LastEnqueueTime m \<le> 10 \<longrightarrow>
      Reschedule (Switch_consumer 0) 1 \<in> set (ss_effects st'))"
proof -
  obtain st' where w: "ps_wakeup example_switch_env example_switch = retO st'"
    using ps_wakeup_total [OF example_switch_live] by blast
  have inv: "switch_inv example_switch" using example_switch_live by (simp add: live_def)
  have none: "ss_effects example_switch = []" by (simp add: example_switch_def)
  have "switch_inv st' \<and> (\<forall>vnet < ps_virtual_networks (ss_ps example_switch).
      \<forall>b \<in> set (concat (ps_in_prio_groups (ss_ps example_switch) ! vnet)).
      \<forall>m ms. mb_prio_heap (ss_pool st' ! b) = m # ms \<longrightarrow> msg_LastEnqueueTime m \<le> se_now example_switch_env \<longrightarrow>
        Reschedule (Switch_consumer (ps_switch_id (ss_ps example_switch))) 1 \<in> set (ss_effects st'))"
    using no_ready_message_left [OF inv none, of example_switch_env] w by (auto simp: retO_def)
  with w show ?thesis by (simp add: example_switch_def example_switch_env_def)
qed

text \<open>
  C11: A switch that is wired as the network wires it never fails. Suppose the counts of
  pending messages are right, the input ports share no buffer with the output ports, no buffer
  belongs to two output ports, every link of the routing unit has a buffer for each virtual
  network, the entries of the links cover the destinations of the waiting messages, and the
  buffers are in a good state with a consumer, without randomization, and, when they are
  ordered, have seen no arrival later than the routing latency allows. Then a wakeup returns
  normally: no assertion, panic or null pointer is reached, no buffer overflows although
  several messages and copies may go to it in one cycle, and the switch is in the same good
  condition for its next wakeup.
\<close>

theorem switch_wakeup_succeeds:
  assumes "live env st"
  shows "\<exists>st'. ps_wakeup env st = retO st' \<and> live env st' \<and> same_ports (ss_ps st) (ss_ps st')"
  by (rule ps_wakeup_total [OF assms])

lemma switch_wakeup_succeeds_witness:
  "\<exists>st'. ps_wakeup example_switch_env example_switch = retO st' \<and> live example_switch_env st'"
  using switch_wakeup_succeeds [OF example_switch_live] by blast

section \<open>Priorities\<close>

lemma append_last_Cons: "append_last x (gs @ [g]) = gs @ [g @ [x]]"
  by (simp add: append_last_def)

lemma groups_same:
  assumes "\<forall>b \<in> set bufs. prio b = cur"
  shows "fold (\<lambda>buf groups. append_last buf (if prio buf \<noteq> cur then groups @ [[]] else groups)) bufs (gs @ [g]) = gs @ [g @ bufs]"
  using assms by (induction bufs arbitrary: g) (simp_all add: append_last_Cons)

lemma groups_other:
  assumes "\<forall>b \<in> set bufs. prio b \<noteq> cur"
  shows "fold (\<lambda>buf groups. append_last buf (if prio buf \<noteq> cur then groups @ [[]] else groups)) bufs gs = gs @ map (\<lambda>b. [b]) bufs"
  using assms
proof (induction bufs arbitrary: gs)
  case Nil
  then show ?case by simp
next
  case (Cons b bufs)
  then show ?case using append_last_Cons [of b gs "[]"] by simp
qed

lemma priority_groups_eq:
  fixes prio :: "nat \<Rightarrow> int"
  assumes "sorted (map prio bufs)"
  shows "priority_groups prio bufs =
    filter (\<lambda>b. prio b = prio (hd bufs)) bufs # map (\<lambda>b. [b]) (filter (\<lambda>b. prio b \<noteq> prio (hd bufs)) bufs)"
proof -
  let ?cur = "prio (hd bufs)"
  let ?low = "filter (\<lambda>b. prio b = ?cur) bufs" and ?high = "filter (\<lambda>b. prio b \<noteq> ?cur) bufs"
  have split: "bs = filter (\<lambda>b. prio b = c) bs @ filter (\<lambda>b. prio b \<noteq> c) bs"
    if "sorted (map prio bs)" "\<forall>b \<in> set bs. c \<le> prio b" for bs c
    using that
  proof (induction bs)
    case Nil
    then show ?case by simp
  next
    case (Cons b bs)
    show ?case
    proof (cases "prio b = c")
      case True
      with Cons show ?thesis by simp
    next
      case False
      with Cons.prems have "\<forall>x \<in> set (b # bs). prio x \<noteq> c" by force
      then have "filter (\<lambda>b. prio b = c) (b # bs) = []" "filter (\<lambda>b. prio b \<noteq> c) (b # bs) = b # bs"
        by (auto simp: filter_empty_conv filter_id_conv)
      then show ?thesis by simp
    qed
  qed
  have "\<forall>b \<in> set bufs. ?cur \<le> prio b" using assms by (cases bufs) auto
  then have bufs: "bufs = ?low @ ?high" using split [OF assms] by blast
  let ?step = "\<lambda>buf groups. append_last buf (if prio buf \<noteq> ?cur then groups @ [[]] else groups)"
  have "fold ?step bufs [[]] = fold ?step ?high (fold ?step ?low [[]])"
    by (subst bufs) (simp only: fold_append o_apply)
  also have "fold ?step ?low [[]] = [?low]" using groups_same [of ?low prio ?cur "[]" "[]"] by simp
  also have "fold ?step ?high [?low] = ?low # map (\<lambda>b. [b]) ?high" using groups_other [of ?high prio ?cur "[?low]"] by simp
  finally show ?thesis by (simp add: priority_groups_def Let_def)
qed

text \<open>
  C32: \<open>updatePriorityGroups\<close> does not group by priority. It compares every buffer with the
  priority of the first one and never moves on to the next priority, so the buffers of the least
  priority value form one group, and each other buffer is a group of its own, even where many
  share a priority: between those the order of the ports decides, and not the age of the
  messages.
\<close>

theorem priority_groups_singletons:
  assumes "vnet < length (ps_in_prio ps)" and "length (ps_in_prio_groups ps) = length (ps_in_prio ps)"
  shows "let bufs = sort_key prio (ps_in_prio ps ! vnet @ [buf]); least = prio (hd bufs)
    in ps_in_prio_groups (updatePriorityGroups prio vnet buf ps) ! vnet =
      filter (\<lambda>b. prio b = least) bufs # map (\<lambda>b. [b]) (filter (\<lambda>b. prio b \<noteq> least) bufs)"
proof -
  have "grow vnet (ps_in_prio ps) = ps_in_prio ps" using assms(1) by (simp add: grow_def)
  then show ?thesis
    using assms priority_groups_eq [of prio "sort_key prio (ps_in_prio ps ! vnet @ [buf])"]
    by (simp add: updatePriorityGroups_def Let_def del: sort_key_simps)
qed

lemma priority_groups_singletons_witness:
  "ps_in_prio_groups (updatePriorityGroups (\<lambda>b. if b = 1 then 0 else 5) 0 3
      ((PerfectSwitch_new 0 1)\<lparr>ps_in_prio := [[1, 2]], ps_in_prio_groups := [[[1], [2]]]\<rparr>)) ! 0 = [[1], [2], [3]]"
proof -
  let ?prio = "\<lambda>b :: nat. if b = 1 then 0 else 5 :: int"
  let ?ps = "(PerfectSwitch_new 0 1)\<lparr>ps_in_prio := [[1, 2]], ps_in_prio_groups := [[[1], [2]]]\<rparr>"
  have "sort_key ?prio [1, 2, 3 :: nat] = [1, 2, 3]" by simp
  with priority_groups_singletons [of 0 ?ps ?prio 3] show ?thesis by simp
qed

section \<open>Delays\<close>

text \<open>
  The messages in the heaps of a pool, each with its buffer, its destinations and its delay.
\<close>

definition buffer_delays :: "nat \<Rightarrow> MessageBuffer \<Rightarrow> (nat \<times> nat \<times> net_dest \<times> tick) multiset" where
  "buffer_delays i mb =
    image_mset (\<lambda>m. (i, msg_id m, msg_destination m, msg_DelayedTicks m)) (mset (mb_prio_heap mb))"

definition pool_delays :: "pool \<Rightarrow> (nat \<times> nat \<times> net_dest \<times> tick) multiset" where
  "pool_delays pool = (\<Sum>i < length pool. buffer_delays i (pool ! i))"

lemma pool_delays_update:
  assumes "i < length pool"
  shows "pool_delays (pool[i := mb]) + buffer_delays i (pool ! i) = pool_delays pool + buffer_delays i mb"
proof -
  have split: "pool_delays p = buffer_delays i (p ! i) + (\<Sum>j \<in> {..<length p} - {i}. buffer_delays j (p ! j))"
    if "i < length p" for p
    unfolding pool_delays_def using that by (intro sum.remove) auto
  have "(\<Sum>j \<in> {..<length pool} - {i}. buffer_delays j (pool[i := mb] ! j))
      = (\<Sum>j \<in> {..<length pool} - {i}. buffer_delays j (pool ! j))"
    by (intro sum.cong) auto
  with split [of pool] split [of "pool[i := mb]"] assms show ?thesis by (simp add: ac_simps)
qed

lemma pool_delays_frame:
  assumes "pool_frame p q"
  shows "pool_delays q = pool_delays p"
  unfolding pool_delays_def pool_frame_length [OF assms]
  using buf_frame_same(1) [OF pool_frame_nth [OF assms]]
  by (intro sum.cong) (simp_all add: buffer_delays_def)

text \<open>Where a copy goes and how long it says it has waited.\<close>

definition sent_copy :: "nat \<Rightarrow> PerfectSwitch \<Rightarrow> Message \<Rightarrow> tick \<Rightarrow> SwitchRouteInfo \<Rightarrow> nat \<times> nat \<times> net_dest \<times> tick" where
  "sent_copy vnet ps m waited r =
    (the (sop_buffers (ps_out ps ! ri_link_id r) ! vnet), msg_id m, ri_destinations r, msg_DelayedTicks m + waited)"

lemma send_delays:
  assumes "foldR (send_step env vnet) cs st = Inr st'"
  shows "pool_delays (ss_pool st') = pool_delays (ss_pool st) +
    mset (map (\<lambda>(m, r). sent_copy vnet (ss_ps st) m (se_now env - msg_LastEnqueueTime m) r) cs)"
  using assms
proof (induction cs arbitrary: st)
  case Nil
  then show ?case by simp
next
  case (Cons c cs)
  obtain m r where c: "c = (m, r)" by (cases c)
  obtain st1 where s: "send_step env vnet (m, r) st = Inr st1" "foldR (send_step env vnet) cs st1 = Inr st'"
    using Cons.prems unfolding c foldR.simps by (elim bindR_InrE)
  from s(1) show ?case
  proof (cases rule: send_stepE)
    case (1 i mb' reqs)
    have i: "the (sop_buffers (ps_out (ss_ps st) ! ri_link_id r) ! vnet) = i"
      using 1(1) by (simp add: reaches_buffer_def)
    from mb_enqueue_message [OF 1(3)] have "buffer_delays i mb' = buffer_delays i (ss_pool st ! i) +
        {#sent_copy vnet (ss_ps st) m (se_now env - msg_LastEnqueueTime m) r#}"
      by (auto simp: buffer_delays_def sent_copy_def i heap.push_elems heap_push_def)
    then have p: "pool_delays (ss_pool st1) = pool_delays (ss_pool st) +
        {#sent_copy vnet (ss_ps st) m (se_now env - msg_LastEnqueueTime m) r#}"
      using pool_delays_update [OF 1(2), of mb'] unfolding 1(4) by simp
    have "ss_ps st1 = ss_ps st" unfolding 1(4) by simp
    then show ?thesis using Cons.IH [OF s(2)] p by (simp add: c)
  qed
qed

text \<open>
  C33: The time a message has waited is counted twice when it is forwarded, but only in one of its
  copies. When a turn of \<open>operateMessageBuffer\<close> takes the message at the head of buffer \<open>b\<close> and
  the routing gives it a list of routes, the heaps of all buffers change by exactly this: the
  message leaves buffer \<open>b\<close>, and each route adds one copy to the buffer behind its link, with the
  destinations of the route. The copy of the first route has twice the waiting time added to its
  \<open>DelayedTicks\<close> (once by the dequeue and once more by the enqueue, as the time of the last enqueue
  has not changed in between); the copies of the other routes, cloned before the dequeue, have it
  added once.
\<close>

theorem forwarded_delay_counted_twice:
  assumes "operate_step env vnet b st = Inr (True, st')"
  shows "\<exists>m routes links pool. mb_peek (ss_pool st ! b) = Inr m \<and>
    wb_route (se_mt env) (se_adaptive env) (se_now env) (\<lambda>i. se_byte env (ss_draws st + i)) m
      (se_ordered env vnet) (ss_links st) (ss_pool st) = Inr (routes, links, pool) \<and>
    pool_delays (ss_pool st') + {#(b, msg_id m, msg_destination m, msg_DelayedTicks m)#} =
      pool_delays (ss_pool st) +
      mset (case routes of [] \<Rightarrow> []
        | r # rs \<Rightarrow> sent_copy vnet (ss_ps st) m (2 * (se_now env - msg_LastEnqueueTime m)) r #
            map (sent_copy vnet (ss_ps st) m (se_now env - msg_LastEnqueueTime m)) rs)"
  using assms
proof (cases rule: operate_stepE)
  case (sent reqs msg routes st1 st2 msg' st3)
  let ?st = "st\<lparr>ss_effects := ss_effects st @ map (effect_of (ss_pool st ! b)) reqs\<rparr>"
  let ?w = "se_now env - msg_LastEnqueueTime msg"
  obtain pool2 where p: "st2 = st1\<lparr>ss_pool := pool2\<rparr>" "pool_frame (ss_pool st1) pool2"
    using room_frame [OF sent(6)] by blast
  have r: "pool_frame (ss_pool st) (ss_pool st1)" "ss_ps st1 = ss_ps st"
    using switch_route_frame [OF sent(5)] by auto
  have frame: "pool_frame (ss_pool st) (ss_pool st2)" using r p pool_frame_trans by auto
  from sent(7) show ?thesis
  proof (cases rule: take_messageE)
    case (1 dl mb' effs)
    from mb_dequeue_message [OF 1(2)] obtain m where
      m: "mb_prio_heap (ss_pool st2 ! b) = m # mb_prio_heap mb'"
        "msg' = m\<lparr>msg_DelayedTicks := msg_DelayedTicks m + (se_now env - msg_LastEnqueueTime m)\<rparr>" by blast
    have "mb_prio_heap (ss_pool st2 ! b) = mb_prio_heap (ss_pool st ! b)"
      using buf_frame_same(1) [OF pool_frame_nth [OF frame sent(2)]] .
    with m(1) sent(4) have msg: "m = msg" by (simp add: mb_peek_def heap_front_def)
    have "buffer_delays b (ss_pool st2 ! b) = buffer_delays b mb' + {#(b, msg_id msg, msg_destination msg, msg_DelayedTicks msg)#}"
      using m(1) msg by (simp add: buffer_delays_def)
    then have take: "pool_delays (ss_pool st3) + {#(b, msg_id msg, msg_destination msg, msg_DelayedTicks msg)#}
        = pool_delays (ss_pool st)"
      using pool_delays_update [OF 1(1), of mb'] pool_delays_frame [OF frame] unfolding 1(4) by simp
    have ps: "sent_copy vnet (ss_ps st3) = sent_copy vnet (ss_ps st)"
      unfolding 1(4) by (simp add: fun_eq_iff sent_copy_def p r)
    have cs: "map (\<lambda>(m, r). sent_copy vnet (ss_ps st3) m (se_now env - msg_LastEnqueueTime m) r) (copies msg' msg routes) =
      (case routes of [] \<Rightarrow> [] | r # rs \<Rightarrow> sent_copy vnet (ss_ps st) msg (2 * ?w) r # map (sent_copy vnet (ss_ps st) msg ?w) rs)"
      unfolding ps by (cases routes) (simp_all add: copies_def m(2) msg sent_copy_def mult_2)
    have "pool_delays (ss_pool st') + {#(b, msg_id msg, msg_destination msg, msg_DelayedTicks msg)#} =
        pool_delays (ss_pool st) + mset (case routes of [] \<Rightarrow> []
          | r # rs \<Rightarrow> sent_copy vnet (ss_ps st) msg (2 * ?w) r # map (sent_copy vnet (ss_ps st) msg ?w) rs)"
      unfolding send_delays [OF sent(8)] cs take [symmetric] by simp
    moreover from sent(5) obtain links pool where "wb_route (se_mt env) (se_adaptive env) (se_now env)
        (\<lambda>i. se_byte env (ss_draws st + i)) msg (se_ordered env vnet) (ss_links st) (ss_pool st) = Inr (routes, links, pool)"
      by (cases rule: switch_routeE) auto
    ultimately show ?thesis using sent(4) by blast
  qed
qed auto

lemma forwarded_delay_counted_twice_witness:
  "\<exists>st'. operate_step example_switch_env 0 2 example_switch = Inr (True, st') \<and>
    size (pool_delays (ss_pool st')) = 2"
proof -
  have "case operate_step example_switch_env 0 2 example_switch of Inl e \<Rightarrow> False | Inr (again, st') \<Rightarrow> again"
    by code_simp
  then obtain st' where o: "operate_step example_switch_env 0 2 example_switch = Inr (True, st')"
    by (auto split: sum.splits)
  have r: "case wb_route (se_mt example_switch_env) (se_adaptive example_switch_env) (se_now example_switch_env)
      (\<lambda>i. se_byte example_switch_env (ss_draws example_switch + i)) example_multicast
      (se_ordered example_switch_env 0) (ss_links example_switch) (ss_pool example_switch) of
      Inl e \<Rightarrow> False | Inr (routes, x) \<Rightarrow> length routes = 2" by code_simp
  have "ss_pool example_switch ! 2 = example_in_buf" by (simp add: example_switch_def)
  then have pk: "mb_peek (ss_pool example_switch ! 2) = Inr example_multicast"
    by (simp add: example_in_buf_def mb_peek_def heap_front_def)
  have "size (pool_delays (ss_pool example_switch)) = 1"
    by (simp add: pool_delays_def buffer_delays_def example_switch_def example_in_buf_def example_out_buf_def
        MessageBuffer_new_def numeral_3_eq_3)
  note one = this
  obtain m routes links pool where f: "mb_peek (ss_pool example_switch ! 2) = Inr m"
    "wb_route (se_mt example_switch_env) (se_adaptive example_switch_env) (se_now example_switch_env)
      (\<lambda>i. se_byte example_switch_env (ss_draws example_switch + i)) m
      (se_ordered example_switch_env 0) (ss_links example_switch) (ss_pool example_switch) = Inr (routes, links, pool)"
    and d: "pool_delays (ss_pool st') + {#(2, msg_id m, msg_destination m, msg_DelayedTicks m)#} =
      pool_delays (ss_pool example_switch) +
      mset (case routes of [] \<Rightarrow> []
        | r # rs \<Rightarrow> sent_copy 0 (ss_ps example_switch) m (2 * (se_now example_switch_env - msg_LastEnqueueTime m)) r #
            map (sent_copy 0 (ss_ps example_switch) m (se_now example_switch_env - msg_LastEnqueueTime m)) rs)"
    using forwarded_delay_counted_twice [OF o] by (elim exE conjE) (rule that, assumption+)
  have m: "m = example_multicast" using f(1) pk by simp
  have "length routes = 2" using r f(2) unfolding m by simp
  then obtain r1 r2 where "routes = [r1, r2]" by (auto simp: numeral_2_eq_2 length_Suc_conv)
  with arg_cong [OF d, of size] one have "size (pool_delays (ss_pool st')) = 2" by simp
  with o show ?thesis by blast
qed

end
