(* ===== verification/ThrottleProperties.thy ===== *)
theory ThrottleProperties
  imports ThrottleProgress SwitchProperties
begin

text \<open>
  The properties of the throttles of the simple network: a well-wired throttle never fails, it
  does not sleep with work left, and over any run it moves no more than its bandwidth.
\<close>

section \<open>An example\<close>

text \<open>
  A throttle with two virtual networks of its own widths: the intermediate buffers are \<open>0\<close> and
  \<open>1\<close>, the buffers of the link are \<open>2\<close> and \<open>3\<close>.
\<close>

definition example_nw :: "nat Network" where
  "example_nw = \<lparr>nw_nodes = 0, nw_virtual_networks = 2, nw_vnet_type_names = [], nw_control_msg_size = 8,
     nw_data_msg_size = 72, nw_toNetQueues = [], nw_fromNetQueues = [], nw_ordered = [], nw_addrMap = [],
     nw_globalToLocalMap = [], nw_topology = \<lparr>tp_nodes = 0, tp_number_of_switches = 0, tp_vnets = 2, tp_link_map = []\<rparr>\<rparr>"

definition example_throttle_env :: "nat throttle_env" where
  "example_throttle_env = \<lparr>te_flags = no_flags, te_tick = 10, te_now = 10, te_period = 1, te_network = example_nw, te_rt = (\<lambda>i. 0)\<rparr>"

definition example_link_buf :: MessageBuffer where
  "example_link_buf = (MessageBuffer_new 0 0 True Rand_disabled False)\<lparr>mb_consumer := Some (Switch_consumer 1)\<rparr>"

definition example_port_buf :: "Message list \<Rightarrow> MessageBuffer" where
  "example_port_buf ms = (MessageBuffer_new 0 0 True Rand_disabled False)
     \<lparr>mb_consumer := Some (Throttle_consumer 0 0), mb_prio_heap := ms\<rparr>"

definition example_throttle :: throttle_state where
  "example_throttle =
    \<lparr>ts_th = (Throttle_base 0 0 3 1000)\<lparr>th_physical_vnets := True, th_link_bandwidth_multiplier := [2, 4],
        th_vnet_channels := [1, 2], th_units_remaining := [[0], [0, 0]], th_in := [Some 0, Some 1],
        th_out := [Some 2, Some 3], th_vnets := 2\<rparr>,
     ts_pool = [example_port_buf [example_message 1], example_port_buf [example_message 2, example_message 3],
       example_link_buf, example_link_buf],
     ts_draws = 0, ts_effects = []\<rparr>"

text \<open>It is what the constructor and \<open>addLinks\<close> make.\<close>

lemma example_throttle_built:
  "(case Throttle_new_physical 0 0 3 [1, 2] [2, 4] 1000 of
    Inl e \<Rightarrow> False
  | Inr th \<Rightarrow> (case addLinks [Some 0, Some 1] [Some 2, Some 3]
      (th, replicate 2 (MessageBuffer_new 0 0 True Rand_disabled False) @ [example_link_buf, example_link_buf]) of
      Inl e \<Rightarrow> False
    | Inr (th', pool) \<Rightarrow>
        th_in th' = [Some 0, Some 1] \<and> th_out th' = [Some 2, Some 3] \<and> th_vnets th' = 2 \<and>
        th_units_remaining th' = [[0], [0, 0]] \<and> th_link_bandwidth_multiplier th' = [2, 4] \<and>
        th_vnet_channels th' = [1, 2] \<and> pool = [example_port_buf [], example_port_buf [], example_link_buf, example_link_buf]))"
  by code_simp

lemma example_throttle_live: "th_live example_throttle_env example_throttle"
proof -
  have ok: "throttle_ok (ts_th example_throttle)"
    by (simp add: throttle_ok_def example_throttle_def Throttle_base_def channels_at_def upt_rec)
  have sets: "th_ins (ts_th example_throttle) = {0, 1}" "th_outs (ts_th example_throttle) = {2, 3}"
    by (auto simp: th_ins_def th_outs_def example_throttle_def)
  have "mb_ok 10 example_link_buf"
    using mb_new_ok [of 10 0 0 True Rand_disabled False] by (simp add: example_link_buf_def)
  then have "out_buf_ok 10 3 example_link_buf"
    by (simp add: out_buf_ok_def) (simp add: example_link_buf_def MessageBuffer_new_def)
  then have "bufs_live example_throttle_env example_throttle"
    unfolding bufs_live_def sets
    by (simp add: example_throttle_def example_throttle_env_def example_port_buf_def MessageBuffer_new_def Throttle_base_def)
  with ok show ?thesis by (simp add: th_live_def units_nonneg_def example_throttle_def)
qed

lemma example_nw_sizes: "sizes_ok (te_network example_throttle_env)"
  by (simp add: sizes_ok_def example_throttle_env_def example_nw_def)

section \<open>A wakeup\<close>

text \<open>
  C13: A throttle that is wired as the network wires it never fails. Suppose the sizes of
  messages, the bandwidth of the endpoints and the multipliers of the links are positive, its
  vectors have the sizes that the constructor and \<open>addLinks\<close> give them, the unpaid units are not negative, the
  intermediate buffers are not buffers of the link and have this throttle as their consumer, and
  the buffers of the link are in a good state with a consumer, without randomization, and, when
  ordered, with no arrival later than the latency of the link allows. Then the loops of a wakeup
  end, no assertion fails, in particular the bandwidth that remains never becomes negative
  although every channel of a network with widths of its own spends its own share, no message is
  lost or duplicated, and the throttle is in the same good condition for the next wakeup.
\<close>

theorem throttle_wakeup_succeeds:
  assumes "th_live env st" and "sizes_ok (te_network env)"
  shows "\<exists>st'. th_wakeup env st = retO st' \<and> th_live env st' \<and> th_same (ts_th st) (ts_th st') \<and>
    pool_deliveries (ts_pool st') = pool_deliveries (ts_pool st)"
  using th_wakeup_total [OF assms] unfolding wakeup_done_def by blast

lemma throttle_wakeup_succeeds_witness:
  "\<exists>st'. th_wakeup example_throttle_env example_throttle = retO st' \<and> th_live example_throttle_env st'"
  using throttle_wakeup_succeeds [OF example_throttle_live example_nw_sizes] by blast

text \<open>
  C20: A throttle that is in the good condition just described (\<open>th_live\<close>, positive message
  sizes) does not go to sleep with work left. After a wakeup, for every channel of
  every virtual network, either the first message of its buffer is not due and everything that
  was moved is paid for, or the throttle has asked to be woken in the next cycle: for want of
  bandwidth, of room in the buffer of the link, or because the buffer allows no more dequeues in
  this cycle.
\<close>

theorem throttle_sleeps_only_idle:
  assumes "th_live env st" and "sizes_ok (te_network env)" and "th_wakeup env st = retO st'"
    and "v < th_vnets (ts_th st)" and "c < channels_at (ts_th st) v" and "th_in (ts_th st) ! v = Some i"
    and "th_out (ts_th st) ! v = Some out"
  shows "(\<not> head_due env i st' \<and> th_units_remaining (ts_th st') ! v ! c = 0) \<or>
    Reschedule (Throttle_consumer (th_switch_id (ts_th st)) (th_node (ts_th st))) 1 \<in> set (ts_effects st')"
proof -
  obtain bw where d: "wakeup_done env bw st st'" using th_wakeup_total [OF assms(1,2)] assms(3) by auto
  then have "th_in (ts_th st') = th_in (ts_th st)" "th_out (ts_th st') = th_out (ts_th st)"
    by (simp_all add: wakeup_done_def th_same_def)
  with d assms(4-7) show ?thesis unfolding wakeup_done_def idle_at_def by auto
qed

lemma throttle_sleeps_only_idle_witness:
  "\<exists>st'. th_wakeup example_throttle_env example_throttle = retO st' \<and>
    ((\<not> head_due example_throttle_env 1 st' \<and> th_units_remaining (ts_th st') ! 1 ! 1 = 0) \<or>
     Reschedule (Throttle_consumer 0 0) 1 \<in> set (ts_effects st'))"
proof -
  obtain st' where w: "th_wakeup example_throttle_env example_throttle = retO st'"
    using th_wakeup_total [OF example_throttle_live example_nw_sizes] by blast
  have "1 < th_vnets (ts_th example_throttle)" "1 < channels_at (ts_th example_throttle) 1"
    "th_in (ts_th example_throttle) ! 1 = Some 1" "th_out (ts_th example_throttle) ! 1 = Some 3"
    "th_switch_id (ts_th example_throttle) = 0" "th_node (ts_th example_throttle) = 0"
    by (simp_all add: example_throttle_def channels_at_def Throttle_base_def)
  then show ?thesis using throttle_sleeps_only_idle [OF example_throttle_live example_nw_sizes w, of 1 1 1 3] w by auto
qed

section \<open>Bandwidth over time\<close>

text \<open>The cost of the largest message.\<close>

definition max_cost :: "'r Network \<Rightarrow> int" where
  "max_cost nw = MESSAGE_SIZE_MULTIPLIER * max (nw_control_msg_size nw) (nw_data_msg_size nw)"

definition units_capped :: "'r Network \<Rightarrow> Throttle \<Rightarrow> bool" where
  "units_capped nw th \<longleftrightarrow> (\<forall>us \<in> set (th_units_remaining th). \<forall>n \<in> set us. 0 \<le> n \<and> n \<le> max_cost nw)"

lemma message_cost: "network_message_to_size nw msg \<le> max_cost nw"
  by (cases "msg_size_type msg")
    (simp_all add: max_cost_def network_message_to_size_def MessageSizeType_to_int_def MESSAGE_SIZE_MULTIPLIER_def BROADCAST_SCALING_def)

lemma units_capped_set:
  assumes "units_at v c st = Inr u" and "units_capped nw (ts_th st)" and "0 \<le> n" "n \<le> max_cost nw"
  shows "units_capped nw (ts_th (set_units v c n st))"
proof -
  have v: "v < length (th_units_remaining (ts_th st))" using assms(1) by (simp add: units_at_Inr)
  have row: "\<forall>n \<in> set (th_units_remaining (ts_th st) ! v). 0 \<le> n \<and> n \<le> max_cost nw"
    using assms(2) nth_mem [OF v] unfolding units_capped_def by blast
  have "\<forall>k \<in> set ((th_units_remaining (ts_th st) ! v)[c := n]). 0 \<le> k \<and> k \<le> max_cost nw"
    using row assms(3,4) set_update_subset_insert [of "th_units_remaining (ts_th st) ! v" c n] by blast
  then show ?thesis
    using assms(2) set_update_subset_insert [of "th_units_remaining (ts_th st)" v "(th_units_remaining (ts_th st) ! v)[c := n]"]
    by (auto simp: units_capped_def set_units_def)
qed

lemma units_capped_at: "units_at v c st = Inr u \<Longrightarrow> units_capped nw (ts_th st) \<Longrightarrow> 0 \<le> u \<and> u \<le> max_cost nw"
  unfolding units_at_Inr units_capped_def by (metis nth_mem)

lemma units_capped_nonneg: "units_capped nw th \<Longrightarrow> units_nonneg th"
  by (auto simp: units_capped_def units_nonneg_def)

lemma turn_capped:
  assumes "throttle_turn env v c i out (bw, tot, st) = Inr (again, bw', tot', st')"
    and "units_capped (te_network env) (ts_th st)" and "sizes_ok (te_network env)" and "0 \<le> bw"
  shows "units_capped (te_network env) (ts_th st')"
  using assms(1)
proof (cases rule: throttle_turnE)
  case stop
  then show ?thesis using assms(2) by (simp add: asks_def)
next
  case (spend u st1)
  have c: "units_capped (te_network env) (ts_th st1)" using spend(3) assms(2) by (simp add: asks_def)
  show ?thesis unfolding spend(8)
    by (rule units_capped_set [OF spend(4) c]) (use units_capped_at [OF spend(4) c] spend(2) in auto)
next
  case (moved st1 st4 s)
  have c: "units_capped (te_network env) (ts_th st1)" using moved(3) assms(2) by (simp add: asks_def)
  obtain msg where th: "ts_th st4 = count_message env v msg (msg_LastEnqueueTime msg)
      (ts_th (set_units v c (network_message_to_size (te_network env) msg) st1))"
    using moved(5) by (cases rule: move_messageE) blast
  have "units_capped (te_network env) (ts_th (set_units v c (network_message_to_size (te_network env) msg) st1))"
    by (rule units_capped_set [OF moved(4) c]) (use message_size_pos [OF assms(3), of msg] message_cost in auto)
  then have c4: "units_capped (te_network env) (ts_th st4)" unfolding units_capped_def th by simp
  show ?thesis unfolding moved(9)
    by (rule units_capped_set [OF moved(6) c4]) (use units_capped_at [OF moved(6) c4] moved(2) in auto)
qed

text \<open>What a channel does to the account, whether or not the throttle is well wired.\<close>

definition charged :: "'r Network \<Rightarrow> int \<Rightarrow> throttle_state \<Rightarrow> int \<Rightarrow> throttle_state \<Rightarrow> bool" where
  "charged nw tot st tot' st' \<longleftrightarrow> account (tot', st') = account (tot, st) \<and> th_same (ts_th st) (ts_th st') \<and>
    units_capped nw (ts_th st') \<and> 0 \<le> tot' \<and> tot' \<le> tot"

lemma operate_charged:
  assumes "th_operateVnet env (v, c) (tot, sat, blk, st) = retO (tot', sat', blk', st')"
    and "units_capped (te_network env) (ts_th st)" and "sizes_ok (te_network env)" and "0 \<le> tot"
    and "0 < th_endpoint_bandwidth (ts_th st)"
  shows "charged (te_network env) tot st tot' st'"
proof (cases "tot' = tot \<and> st' = st")
  case True
  then show ?thesis using assms(2,4) by (simp add: charged_def)
next
  case False
  obtain i out bw bw1 tot1 st1 where o': "(if th_physical_vnets (ts_th st) then getLinkBandwidth v (ts_th st) else Inr tot) = Inr bw"
    "throttle_loop env v c i out (bw, tot, st) = retO (bw1, tot1, st1)"
    "throttle_report env v c i out (bw1, tot1, st1) (sat, blk) = Inr (tot', sat', blk', st')"
    using assms(1) False unfolding th_operateVnet_def
    by (auto simp: retO_def bindO_def guardO_def failO_def split: option.splits sum.splits if_splits Option.bind_splits)
  have bw: "0 \<le> bw"
    using o'(1) assms(4,5) by (auto simp: getLinkBandwidth_def res_simps guardR_def split: if_splits)
  let ?P = "\<lambda>(b, t, r). 0 \<le> b \<and> b \<le> bw \<and> account (t, r) = account (tot, st) \<and> tot - t = bw - b \<and>
    th_same (ts_th st) (ts_th r) \<and> units_capped (te_network env) (ts_th r)"
  have "?P (bw1, tot1, st1)"
  proof (rule repeat_invariant [where P = ?P, OF o'(2) [unfolded throttle_loop_def]])
    show "?P (bw, tot, st)" using bw assms(2) by simp
  next
    fix s again s' assume "?P s" "throttle_turn env v c i out s = Inr (again, s')"
    moreover obtain b t r where s: "s = (b, t, r)" by (cases s)
    moreover obtain b' t' r' where s': "s' = (b', t', r')" by (cases s')
    ultimately have tn: "throttle_turn env v c i out (b, t, r) = Inr (again, b', t', r')" and P: "?P (b, t, r)" by auto
    have "units_capped (te_network env) (ts_th r')" using turn_capped [OF tn] P assms(3) by simp
    moreover have "account (t', r') = account (t, r) \<and> t - t' = b - b' \<and> th_same (ts_th r) (ts_th r') \<and> 0 \<le> b' \<and> b' \<le> b"
      using throttle_turn_account [OF tn] P assms(3) units_capped_nonneg by auto
    ultimately show "?P s'" using P s' th_same_trans by auto
  qed
  moreover have "0 \<le> tot1 \<and> tot' = tot1 \<and> asks st1 st'"
  proof -
    have a: "pending_work env v c i st1 = Inr (w, r) \<Longrightarrow> asks st1 r" for w r by (rule pending_work_asks)
    have f: "buffer_free env out r = Inr (w, r') \<Longrightarrow> asks r r'" for w r r' by (rule buffer_free_asks)
    show ?thesis
      using o'(3) unfolding throttle_report_def
      by (auto simp: res_simps split: if_splits elim!: bindR_InrE guardR_InrE case_prod_InrE
          dest!: a f intro: asks_trans)
  qed
  ultimately have P: "account (tot1, st1) = account (tot, st)" "tot1 \<le> tot" "th_same (ts_th st) (ts_th st1)"
    "units_capped (te_network env) (ts_th st1)" and e: "0 \<le> tot1" "tot' = tot1" "asks st1 st'" by auto
  have "ts_th st' = ts_th st1" using e(3) by (simp add: asks_def)
  then show ?thesis using P e asks_account [OF e(3), of tot1] by (simp add: charged_def)
qed


lemma wakeup_charged:
  assumes "th_wakeup env st = retO st'" and "units_capped (te_network env) (ts_th st)" and "sizes_ok (te_network env)"
    and "0 < th_endpoint_bandwidth (ts_th st)"
  shows "\<exists>bw left. getTotalLinkBandwidth (ts_th st) = Inr bw \<and> charged (te_network env) bw st left st'"
proof -
  let ?n = "th_wakeups_wo_switch (ts_th st) + 1"
  let ?st0 = "st\<lparr>ts_th := (ts_th st)\<lparr>th_wakeups_wo_switch := (if ?n > THROTTLE_SWITCH_LIMIT then 0 else ?n)\<rparr>\<rparr>"
  have same0: "th_same (ts_th st) (ts_th ?st0)" by (simp add: th_same_def)
  have acc0: "account (t, ?st0) = account (t, st)" for t by (simp add: account_def bytes_of_def units_total_def)
  obtain bw cs tot sat blk r where w: "getTotalLinkBandwidth (ts_th st) = Inr bw" "0 < bw"
    "foldO (th_operateVnet env) cs (bw, False, False, ?st0) = retO (tot, sat, blk, r)"
    "bytes_of st' = bytes_of r" "units_total (ts_th st') = units_total (ts_th r)" "th_same (ts_th r) (ts_th st')"
    "th_units_remaining (ts_th st') = th_units_remaining (ts_th r)"
    using assms(1) unfolding th_wakeup_def Let_def
    by (auto simp: res_simps bytes_of_def units_total_def th_same_def elim!: bindO_retOE guardO_retOE)
  let ?P = "\<lambda>(t, sat :: bool, blk :: bool, s). charged (te_network env) bw st t s"
  have "?P (tot, sat, blk, r)"
  proof (rule foldO_invariant [OF w(3)])
    show "?P (bw, False, False, ?st0)" using acc0 same0 assms(2) w(2) by (simp add: charged_def units_capped_def)
  next
    fix x s s' assume "?P s" "th_operateVnet env x s = retO s'"
    moreover obtain v c where x: "x = (v, c)" by (cases x)
    moreover obtain t a b q where s: "s = (t, a, b, q)" by (cases s)
    moreover obtain t' a' b' q' where s': "s' = (t', a', b', q')" by (cases s')
    ultimately have P: "charged (te_network env) bw st t q" and o': "th_operateVnet env (v, c) (t, a, b, q) = retO (t', a', b', q')"
      by auto
    have "0 < th_endpoint_bandwidth (ts_th q)" using P assms(4) by (simp add: charged_def th_same_def)
    then have "charged (te_network env) t q t' q'" using operate_charged [OF o' _ assms(3)] P by (simp add: charged_def)
    then show "?P s'" using P th_same_trans s' by (auto simp: charged_def)
  qed
  then have "charged (te_network env) bw st tot st'"
    using w(4,5,7) th_same_trans [OF _ w(6)] by (auto simp: charged_def account_def units_capped_def)
  with w(1) show ?thesis by blast
qed

text \<open>
  A run of a throttle: wakeups, at any time and with any surroundings, between which anything
  may happen to the buffers.
\<close>

inductive th_run :: "'r Network \<Rightarrow> throttle_state \<Rightarrow> nat \<Rightarrow> throttle_state \<Rightarrow> bool" for nw st where
  start: "th_run nw st 0 st"
| wake: "th_run nw st n r \<Longrightarrow> te_network env = nw \<Longrightarrow> th_wakeup env r = retO r' \<Longrightarrow> th_run nw st (Suc n) r'"
| other: "th_run nw st n r \<Longrightarrow> ts_th r' = ts_th r \<Longrightarrow> th_run nw st n r'"

lemma th_run_charged:
  assumes "th_run nw st n st'" and "units_capped nw (ts_th st)" and "sizes_ok nw" and "0 < th_endpoint_bandwidth (ts_th st)"
    and "getTotalLinkBandwidth (ts_th st) = Inr bw"
  shows "th_same (ts_th st) (ts_th st') \<and> units_capped nw (ts_th st') \<and>
    account (0, st') \<le> account (int n * bw, st)"
  using assms(1)
proof (induction rule: th_run.induct)
  case start
  then show ?case using assms(2) by (simp add: account_def)
next
  case (wake n r env r')
  have same: "th_same (ts_th st) (ts_th r)" using wake.IH by simp
  have "0 < th_endpoint_bandwidth (ts_th r)" using same assms(4) by (simp add: th_same_def)
  then obtain b left where b: "getTotalLinkBandwidth (ts_th r) = Inr b" "charged nw b r left r'"
    using wakeup_charged [OF wake.hyps(3)] wake.IH wake.hyps(2) assms(3) by blast
  have "b = bw" using b(1) assms(5) th_same_bandwidth(4) [OF same] by simp
  then have "account (0, r') \<le> account (0, r) + bw" using b(2) by (simp add: charged_def account_def)
  moreover have "account (0, r) \<le> account (int n * bw, st)" using wake.IH by simp
  ultimately have "account (0, r') \<le> account (int (Suc n) * bw, st)" by (simp add: account_def algebra_simps)
  then show ?case using b(2) th_same_trans [OF same] by (simp add: charged_def)
next
  case (other n r r')
  then show ?case by (simp add: account_def bytes_of_def)
qed

lemma units_total_capped:
  assumes "units_capped nw th"
  shows "0 \<le> units_total th" "units_total th \<le> max_cost nw * int (sum_list (map length (th_units_remaining th)))"
proof -
  have row: "0 \<le> sum_list us \<and> sum_list us \<le> max_cost nw * int (length us)" if "\<forall>n \<in> set us. 0 \<le> n \<and> n \<le> max_cost nw" for us
    using that by (induction us) (auto simp: algebra_simps)
  have "0 \<le> (\<Sum>us\<leftarrow>uss. sum_list us) \<and> (\<Sum>us\<leftarrow>uss. sum_list us) \<le> max_cost nw * int (sum_list (map length uss))"
    if "\<forall>us \<in> set uss. \<forall>n \<in> set us. 0 \<le> n \<and> n \<le> max_cost nw" for uss
    using that
  proof (induction uss)
    case Nil
    then show ?case by simp
  next
    case (Cons us uss)
    then show ?case using row [of us] by (simp add: algebra_simps)
  qed
  from this [of "th_units_remaining th"] assms
  show "0 \<le> units_total th" "units_total th \<le> max_cost nw * int (sum_list (map length (th_units_remaining th)))"
    by (simp_all add: units_total_def units_capped_def)
qed

text \<open>
  C12: A throttle moves no more than its bandwidth, up to one message for each channel. In any
  run of \<open>n\<close> wakeups that do not fail, whatever else happens to the buffers in between, the
  bytes that have gone to the link, in the thousandths in which bandwidth is counted, are at
  most \<open>n\<close> times the bandwidth of all channels together plus the cost of one message of the
  largest size for each channel: the last message of a channel enters the link before it is paid
  for. No channel ever owes more than one message.
\<close>

theorem throttle_throughput:
  assumes "th_run nw st n st'" and "units_capped nw (ts_th st)" and "sizes_ok nw" and "0 < th_endpoint_bandwidth (ts_th st)"
    and "getTotalLinkBandwidth (ts_th st) = Inr bw"
  shows "1000 * (th_total_msg_bytes (ts_th st') - th_total_msg_bytes (ts_th st))
      \<le> int n * bw + max_cost nw * int (sum_list (map length (th_units_remaining (ts_th st)))) \<and>
    units_capped nw (ts_th st')"
proof -
  have r: "th_same (ts_th st) (ts_th st')" "units_capped nw (ts_th st')" "account (0, st') \<le> account (int n * bw, st)"
    using th_run_charged [OF assms] by simp_all
  have "map length (th_units_remaining (ts_th st')) = map length (th_units_remaining (ts_th st))" using r(1) by (simp add: th_same_def)
  then show ?thesis
    using r(2,3) units_total_capped(2) [OF r(2)] units_total_capped(1) [OF assms(2)]
    by (simp add: account_def bytes_of_def MESSAGE_SIZE_MULTIPLIER_def)
qed

lemma throttle_throughput_witness:
  "\<exists>st'. th_wakeup example_throttle_env example_throttle = retO st' \<and>
    1000 * th_total_msg_bytes (ts_th st') \<le> 1 * 10000 + 72000 * 3"
proof -
  obtain st' where w: "th_wakeup example_throttle_env example_throttle = retO st'"
    using th_wakeup_total [OF example_throttle_live example_nw_sizes] by blast
  have run: "th_run example_nw example_throttle 1 st'"
    using th_run.wake [OF th_run.start [of example_nw example_throttle] _ w] by (simp add: example_throttle_env_def)
  have "sizes_ok example_nw" by (simp add: sizes_ok_def example_nw_def)
  moreover have "units_capped example_nw (ts_th example_throttle)"
    by (simp add: units_capped_def example_throttle_def max_cost_def MESSAGE_SIZE_MULTIPLIER_def example_nw_def)
  moreover have "0 < th_endpoint_bandwidth (ts_th example_throttle)" by (simp add: example_throttle_def Throttle_base_def)
  moreover have "getTotalLinkBandwidth (ts_th example_throttle) = Inr 10000" by code_simp
  ultimately have "1000 * (th_total_msg_bytes (ts_th st') - th_total_msg_bytes (ts_th example_throttle))
      \<le> int 1 * 10000 + max_cost example_nw * int (sum_list (map length (th_units_remaining (ts_th example_throttle))))"
    using throttle_throughput [OF run] by blast
  moreover have "max_cost example_nw = 72000" by (simp add: max_cost_def MESSAGE_SIZE_MULTIPLIER_def example_nw_def)
  moreover have "sum_list (map length (th_units_remaining (ts_th example_throttle))) = 3"
    "th_total_msg_bytes (ts_th example_throttle) = 0" by (simp_all add: example_throttle_def Throttle_base_def)
  ultimately show ?thesis using w by simp
qed

end
