(* ===== verification/RoutingTables.thy ===== *)
theory RoutingTables
  imports Topology
begin

text \<open>
  What the tables say that \<open>Topology::createLinks\<close> hands to the network: the calls it makes, one
  for each link, with the routing table entries of the link, and that following the entries leads
  every packet to the machine it is for.
\<close>

section \<open>Reading the calls\<close>

text \<open>The switch numbers a call connects, with \<open>N\<close> nodes, and the routing table entries it gives.\<close>

fun call_ends :: "nat \<Rightarrow> net_call \<Rightarrow> nat \<times> nat" where
  "call_ends N (MakeExtInLink src dest l tables) = (src, dest + 2 * N)"
| "call_ends N (MakeExtOutLink src dest l tables) = (src + 2 * N, dest + N)"
| "call_ends N (MakeInternalLink src dest l tables so di) = (src + 2 * N, dest + 2 * N)"

fun call_tables :: "net_call \<Rightarrow> net_dest list" where
  "call_tables (MakeExtInLink src dest l tables) = tables"
| "call_tables (MakeExtOutLink src dest l tables) = tables"
| "call_tables (MakeInternalLink src dest l tables so di) = tables"

text \<open>
  The tables offer \<open>next\<close> at switch \<open>s\<close> for a machine on a virtual network: some link from
  \<open>s\<close> to \<open>next\<close> has the machine in its entry.
\<close>

definition offers :: "nat \<Rightarrow> net_call list \<Rightarrow> nat \<Rightarrow> machine_id \<Rightarrow> nat \<Rightarrow> nat \<Rightarrow> bool" where
  "offers N calls v mach s next \<longleftrightarrow> (\<exists>c \<in> set calls. call_ends N c = (s, next) \<and>
    v < length (call_tables c) \<and> mach \<in> nd_abs (call_tables c ! v))"

text \<open>
  A switch reaches another when links of total weight below \<open>INFINITE_LATENCY\<close>, the mark of a
  missing link, lead there.
\<close>

definition reaches :: "nat \<Rightarrow> (nat \<Rightarrow> nat \<Rightarrow> int) \<Rightarrow> nat \<Rightarrow> nat \<Rightarrow> bool" where
  "reaches n w s final \<longleftrightarrow> (\<exists>p. is_walk n s final p \<and> path_weight w p < INFINITE_LATENCY)"

section \<open>The link map\<close>

text \<open>Where a link may lead with \<open>N\<close> nodes, and that its weight is positive.\<close>

definition entry_fits :: "nat \<Rightarrow> nat \<times> nat \<Rightarrow> LinkEntry \<Rightarrow> bool" where
  "entry_fits N k e \<longleftrightarrow> fst k \<noteq> snd k \<and> 0 < bl_weight (le_link e) \<and>
    (fst k < N \<and> 2 * N \<le> snd k \<or> 2 * N \<le> fst k \<and> N \<le> snd k)"

definition map_fits :: "nat \<Rightarrow> link_map \<Rightarrow> bool" where
  "map_fits N lm \<longleftrightarrow> distinct (map fst lm) \<and>
    sorted_wrt (\<lambda>a b. fst a < fst b \<or> fst a = fst b \<and> snd a < snd b) (map fst lm) \<and>
    (\<forall>(k, es) \<in> set lm. \<forall>e \<in> set es. entry_fits N k e)"

lemma link_map_add_keys: "fst ` set (link_map_add k e lm) = insert k (fst ` set lm)"
proof (induction lm)
  case (Cons x lm)
  then show ?case by (cases x) (auto simp: insert_commute)
qed simp

lemma link_map_add_fits:
  assumes "map_fits N lm" and "entry_fits N k e"
  shows "map_fits N (link_map_add k e lm)"
proof -
  let ?less = "\<lambda>a b :: nat \<times> nat. fst a < fst b \<or> fst a = fst b \<and> snd a < snd b"
  have sorted: "sorted_wrt ?less (map fst (link_map_add k e lm))"
    if "sorted_wrt ?less (map fst lm)" for lm
    using that
  proof (induction lm)
    case (Cons x lm)
    obtain k' es where x: "x = (k', es)" by (cases x)
    have below: "\<forall>y \<in> set (map fst lm). ?less k' y" using Cons.prems x by simp
    consider "k = k'" | "k \<noteq> k'" "?less k k'" | "k \<noteq> k'" "\<not> ?less k k'" by blast
    then show ?case
    proof cases
      case 1
      then show ?thesis using Cons.prems x by simp
    next
      case 2
      then have "\<forall>y \<in> set (map fst lm). ?less k y" using below by fastforce
      with 2 Cons.prems x show ?thesis by simp
    next
      case 3
      then have "?less k' k" by (cases k; cases k') auto
      then have "\<forall>y \<in> fst ` set (link_map_add k e lm). ?less k' y"
        unfolding link_map_add_keys using below by simp
      moreover have "link_map_add k e (x # lm) = x # link_map_add k e lm" using 3 x by auto
      ultimately show ?thesis using Cons x by simp
    qed
  qed simp
  have entries: "\<forall>(k', es) \<in> set (link_map_add k e lm). \<forall>e' \<in> set es. entry_fits N k' e'"
    if "\<forall>(k', es) \<in> set lm. \<forall>e' \<in> set es. entry_fits N k' e'" for lm
  proof -
    have "(k', es) \<in> set (link_map_add k e lm) \<Longrightarrow> e' \<in> set es \<Longrightarrow>
        k' = k \<and> e' = e \<or> (\<exists>es'. (k', es') \<in> set lm \<and> e' \<in> set es')" for k' es e'
      by (induction lm) (force split: if_splits)+
    with that assms(2) show ?thesis by blast
  qed
  have "distinct xs" if "sorted_wrt ?less xs" for xs using that by (induction xs) auto
  note dist = this
  have "sorted_wrt ?less (map fst (link_map_add k e lm))" using assms(1) sorted by (simp add: map_fits_def)
  moreover have "\<forall>(k', es) \<in> set (link_map_add k e lm). \<forall>e' \<in> set es. entry_fits N k' e'"
    using assms(1) by (intro entries) (simp add: map_fits_def)
  ultimately show ?thesis using dist unfolding map_fits_def by blast
qed

lemma addLink_fits:
  assumes "addLink src dest link so di tp = Inr tp'" and "map_fits N (tp_link_map tp)"
    and "src \<noteq> dest" "0 < bl_weight link" "src < N \<and> 2 * N \<le> dest \<or> 2 * N \<le> src \<and> N \<le> dest"
  shows "map_fits N (tp_link_map tp') \<and> tp_nodes tp' = tp_nodes tp \<and> tp_vnets tp' = tp_vnets tp"
  using assms link_map_add_fits [OF assms(2), of "(src, dest)"]
  by (auto simp: addLink_def res_simps entry_fits_def)

text \<open>The constructor.\<close>

lemma Topology_new_fits:
  assumes "machine_ok mt" and "Topology_new mt routers vnets exts ints = Inr tp"
    and "\<forall>el \<in> set exts. el_machine el \<in> nd_legal mt \<and> 0 < bl_weight (el_link el)"
    and "\<forall>il \<in> set ints. il_src il \<noteq> il_dst il \<and> 0 < bl_weight (il_link il)"
  shows "tp_nodes tp = mt_base_number mt (mt_NUM mt) \<and> tp_vnets tp = vnets \<and> map_fits (tp_nodes tp) (tp_link_map tp)"
proof -
  define N where "N = mt_base_number mt (mt_NUM mt)"
  define P where "P t \<longleftrightarrow> tp_nodes t = N \<and> tp_vnets t = vnets \<and> map_fits N (tp_link_map t)" for t :: Topology
  let ?tp0 = "\<lparr>tp_nodes = N, tp_number_of_switches = routers, tp_vnets = vnets, tp_link_map = []\<rparr>"
  let ?ext = "\<lambda>el tp. let ext_idx1 = mt_base_number mt (fst (el_machine el)) + snd (el_machine el);
                 ext_idx2 = ext_idx1 + N;
                 int_idx = el_router el + 2 * N
             in bindR (addLink ext_idx1 int_idx (el_link el) '''' '''' tp)
                  (addLink int_idx ext_idx2 (el_link el) '''' '''')"
  obtain tp1 where tp1: "foldR ?ext exts ?tp0 = Inr tp1"
    and tp: "foldR (\<lambda>il. addLink (il_src il + 2 * N) (il_dst il + 2 * N) (il_link il)
             (il_src_outport il) (il_dst_inport il)) ints tp1 = Inr tp"
    using assms(2) unfolding Topology_new_def Let_def N_def by (elim guardR_InrE bindR_InrE)
  have "P tp1"
  proof (rule foldR_invariant [OF tp1])
    show "P ?tp0" by (simp add: P_def map_fits_def)
  next
    fix el t t' assume el: "el \<in> set exts" and "P t" and step: "?ext el t = Inr t'"
    obtain m i where mi: "el_machine el = (m, i)" "m < mt_NUM mt" "i < mt_base_count mt m"
      using assms(3) el by (cases "el_machine el") (auto simp: nd_legal_def)
    then have lt: "mt_base_number mt m + i < N"
      using base_number_Suc [OF assms(1), of m] base_number_mono [OF assms(1), of "Suc m" "mt_NUM mt"]
      by (simp add: N_def)
    obtain t1 where t1: "addLink (mt_base_number mt m + i) (el_router el + 2 * N) (el_link el) '''' '''' t = Inr t1"
      "addLink (el_router el + 2 * N) (mt_base_number mt m + i + N) (el_link el) '''' '''' t1 = Inr t'"
      using step unfolding Let_def mi(1) by (auto elim!: bindR_InrE)
    have "0 < bl_weight (el_link el)" using assms(3) el by blast
    with \<open>P t\<close> lt addLink_fits [OF t1(1), of N] addLink_fits [OF t1(2), of N] show "P t'"
      by (simp add: P_def)
  qed
  then have "P tp"
  proof (rule foldR_invariant [OF tp])
    fix il t t' assume "il \<in> set ints" "P t"
      "addLink (il_src il + 2 * N) (il_dst il + 2 * N) (il_link il) (il_src_outport il) (il_dst_inport il) t = Inr t'"
    with addLink_fits [OF this(3), of N] assms(4) show "P t'" by (auto simp: P_def)
  qed
  then show ?thesis by (simp add: P_def N_def)
qed

section \<open>The weights\<close>

text \<open>The virtual networks of an entry.\<close>

definition entry_vnets :: "nat \<Rightarrow> LinkEntry \<Rightarrow> int list" where
  "entry_vnets vnets e = (if bl_mVnets (le_link e) = [] then upto_int vnets else bl_mVnets (le_link e))"

lemma foldR_each:
  "foldR f xs s = Inr t \<Longrightarrow> x \<in> set xs \<Longrightarrow> \<exists>s s'. f x s = Inr s'"
  by (induction xs arbitrary: s) (auto elim!: bindR_InrE)

text \<open>A weight that is not the initial one is that of a link that carries the virtual network.\<close>

definition weight_from :: "nat \<Rightarrow> link_map \<Rightarrow> matrix \<Rightarrow> bool" where
  "weight_from vnets lm w \<longleftrightarrow> (\<forall>v i j. w v i j = initial_weights (max_switch_id lm + 1) v i j \<or>
    (\<exists>es e. ((i, j), es) \<in> set lm \<and> e \<in> set es \<and> int v \<in> set (entry_vnets vnets e) \<and>
      w v i j = bl_weight (le_link e)))"

lemma topology_weights_from:
  assumes "topology_weights tp = Inr (weights, lat)"
  shows "weight_from (tp_vnets tp) (tp_link_map tp) weights"
    and "\<forall>(k, es) \<in> set (tp_link_map tp). \<forall>e \<in> set es. \<forall>v \<in> set (entry_vnets (tp_vnets tp) e).
      0 \<le> v \<and> v < int (tp_vnets tp)"
proof -
  let ?V = "tp_vnets tp" let ?lm = "tp_link_map tp"
  let ?set = "\<lambda>src dst e. foldR (set_link_vnet ?V (le_link e) src dst) (entry_vnets ?V e)"
  have group: "fill_group ?V ((src, dst), es) (w, l) = bindR (foldR (?set src dst) es (w, l, replicate ?V False))
      (\<lambda>(w', l', d). Inr (w', l'))" for src dst es w l
    by (simp add: fill_group_def entry_vnets_def)
  have run: "foldR (fill_group ?V) ?lm (initial_weights (max_switch_id ?lm + 1), \<lambda>i j v. -1) = Inr (weights, lat)"
    using assms by (simp add: topology_weights_def)
  have "weight_from ?V ?lm (fst (weights, lat))"
  proof (rule foldR_invariant [OF run, where P = "\<lambda>s. weight_from ?V ?lm (fst s)"])
    show "weight_from ?V ?lm (fst (initial_weights (max_switch_id ?lm + 1), \<lambda>i j v. -1))"
      by (simp add: weight_from_def)
  next
    fix g :: "(nat \<times> nat) \<times> LinkEntry list" and s s' :: "matrix \<times> matrix"
    assume g: "g \<in> set ?lm" and inv: "weight_from ?V ?lm (fst s)" and step: "fill_group ?V g s = Inr s'"
    obtain src dst es w l where gs: "g = ((src, dst), es)" "s = (w, l)" by (metis prod.exhaust)
    obtain d where d: "foldR (?set src dst) es (w, l, replicate ?V False) = Inr (fst s', snd s', d)"
      using step unfolding gs group by (auto elim!: bindR_InrE)
    have "weight_from ?V ?lm (fst (fst s', snd s', d))"
    proof (rule foldR_invariant [OF d, where P = "\<lambda>t. weight_from ?V ?lm (fst t)"])
      fix e t t' assume e: "e \<in> set es" and start: "weight_from ?V ?lm (fst t)" and inner: "?set src dst e t = Inr t'"
      show "weight_from ?V ?lm (fst t')"
      proof (rule foldR_invariant [OF inner, where P = "\<lambda>t. weight_from ?V ?lm (fst t)"], rule start)
        fix v and u u' :: "matrix \<times> matrix \<times> bool list"
        assume v: "v \<in> set (entry_vnets ?V e)" and inv: "weight_from ?V ?lm (fst u)"
          and "set_link_vnet ?V (le_link e) src dst v u = Inr u'"
        then have u': "0 \<le> v" "fst u' = (fst u)(nat v := upd2 (fst u (nat v)) src dst (bl_weight (le_link e)))"
          unfolding set_link_vnet_def by (auto simp: res_simps Let_def split: prod.splits)
        have "fst u' x i j = fst u x i j \<or> x = nat v \<and> i = src \<and> j = dst \<and> fst u' x i j = bl_weight (le_link e)" for x i j
          unfolding u'(2) by (auto simp: upd2_def)
        moreover have "((src, dst), es) \<in> set ?lm" using g gs by simp
        ultimately show "weight_from ?V ?lm (fst u')"
          using inv e v u'(1) unfolding weight_from_def by (metis int_nat_eq)
      qed
    qed (use inv gs in simp)
    then show "weight_from ?V ?lm (fst s')" by simp
  qed
  then show "weight_from ?V ?lm weights" by simp
  show "\<forall>(k, es) \<in> set ?lm. \<forall>e \<in> set es. \<forall>v \<in> set (entry_vnets ?V e). 0 \<le> v \<and> v < int ?V"
  proof (clarify)
    fix src dst es e v assume g: "((src, dst), es) \<in> set ?lm" and e: "e \<in> set es" and v: "v \<in> set (entry_vnets ?V e)"
    obtain w l s' where "fill_group ?V ((src, dst), es) (w, l) = Inr s'" using foldR_each [OF run g] by auto
    then obtain t where "foldR (?set src dst) es (w, l, replicate ?V False) = Inr t" unfolding group by (auto elim!: bindR_InrE)
    from foldR_each [OF this e] obtain u u' where "?set src dst e u = Inr u'" by blast
    from foldR_each [OF this v] obtain x x' where "set_link_vnet ?V (le_link e) src dst v x = Inr x'" by blast
    then show "0 \<le> v \<and> v < int ?V" unfolding set_link_vnet_def by (auto simp: res_simps Let_def split: prod.splits)
  qed
qed

section \<open>The calls\<close>

lemma foldR_collect:
  assumes "\<And>x. x \<in> set xs \<Longrightarrow> g x = Inr (h x)"
  shows "foldR (\<lambda>x acc. bindR (g x) (\<lambda>y. Inr (acc @ [y]))) xs acc = Inr (acc @ map h xs)"
  using assms by (induction xs arbitrary: acc) simp_all

text \<open>The entries of the link \<open>e\<close> from \<open>i\<close> to \<open>j\<close>.\<close>

definition link_tables ::
    "machine_info \<Rightarrow> nat \<Rightarrow> matrix \<Rightarrow> matrix \<Rightarrow> nat \<Rightarrow> nat \<Rightarrow> LinkEntry \<Rightarrow> net_dest list" where
  "link_tables mt vnets weights dist i j e = map (\<lambda>v.
    if int v \<in> set (entry_vnets vnets e) \<and> real_weight (weights v i j)
    then projr (shortest_path_to_node mt i j weights dist v) else projr (nd_new mt)) [0..<vnets]"

text \<open>The map over the virtual networks in \<open>createLinks\<close>.\<close>

lemma routing_map:
  assumes "\<And>v. shortest_path_to_node mt i j weights dist v = Inr (E v)"
  shows "foldR (\<lambda>v route. if real_weight (weights v i j)
             then bindR (shortest_path_to_node mt i j weights dist v) (\<lambda>r. Inr (route[v := r]))
             else Inr route) [0..<V] (replicate V e0)
    = Inr (map (\<lambda>v. if real_weight (weights v i j) then E v else e0) [0..<V])"
proof -
  let ?f = "\<lambda>v route. if real_weight (weights v i j)
             then bindR (shortest_path_to_node mt i j weights dist v) (\<lambda>r. Inr (route[v := r])) else Inr route"
  let ?g = "\<lambda>v. if real_weight (weights v i j) then E v else e0"
  have "foldR ?f [0..<k] (replicate V e0) = Inr (map ?g [0..<k] @ replicate (V - k) e0)" if "k \<le> V" for k
    using that
  proof (induction k)
    case (Suc k)
    have "replicate (V - k) e0 = e0 # replicate (V - Suc k) e0"
      using Suc.prems by (metis Suc_diff_Suc Suc_le_eq replicate_Suc)
    with Suc show ?case using assms by (simp add: foldR_append list_update_append)
  qed simp
  from this [of V] show ?thesis by simp
qed

text \<open>\<open>linkRoute\<close> keeps the entries of the virtual networks of the link.\<close>

lemma link_route_entries:
  assumes "nd_new mt = Inr e0" and "length routing = V"
    and "\<forall>v \<in> set (entry_vnets V e). 0 \<le> v \<and> v < int V"
  shows "link_route mt V (le_link e) routing =
    Inr (map (\<lambda>v. if int v \<in> set (entry_vnets V e) then routing ! v else e0) [0..<V])"
proof (cases "bl_mVnets (le_link e) = []")
  case True
  have "map (\<lambda>v. if int v \<in> set (entry_vnets V e) then routing ! v else e0) [0..<V] = routing"
    using True assms(2) by (intro nth_equalityI) (simp_all add: entry_vnets_def)
  with True show ?thesis by (simp add: link_route_def)
next
  case False
  have "foldR (\<lambda>v route. bindR (nthR routing v) (setR route v)) vs route =
      Inr (map (\<lambda>v. if int v \<in> set vs then routing ! v else route ! v) [0..<V])"
    if "\<forall>v \<in> set vs. 0 \<le> v \<and> v < int V" "length route = V" for vs route
    using that
  proof (induction vs arbitrary: route)
    case Nil
    then show ?case by (auto intro: nth_equalityI)
  next
    case (Cons x vs)
    then have x: "0 \<le> x" "x < int V" by auto
    have "(if int v \<in> set vs then routing ! v else route[nat x := routing ! nat x] ! v) =
        (if int v \<in> set (x # vs) then routing ! v else route ! v)" if "v < V" for v
      using x that Cons.prems(2) by (auto simp: nth_list_update)
    with Cons.IH [of "route[nat x := routing ! nat x]"] Cons.prems x assms(2) show ?case by simp
  qed
  from this [of "bl_mVnets (le_link e)" "replicate V e0"] False assms show ?thesis
    by (simp add: link_route_def entry_vnets_def cong: map_cong)
qed

lemma make_entry_call:
  assumes "entry_fits N (i, j) e" and "tp_nodes tp = N"
    and "link_route mt (tp_vnets tp) (le_link e) routing = Inr route"
  shows "\<exists>c. make_entry mt tp i j routing e = Inr c \<and> call_ends N c = (i, j) \<and> call_tables c = route"
  using assms by (auto simp: make_entry_def entry_fits_def)

text \<open>
  The calls for all pairs of switches: exactly one call for each entry of the link map between
  switches with a real weight, with the tables of the entry.
\<close>

lemma all_calls:
  assumes "machine_ok mt" and "map_fits (tp_nodes tp) (tp_link_map tp)"
    and "\<forall>(k, es) \<in> set (tp_link_map tp). \<forall>e \<in> set es. \<forall>v \<in> set (entry_vnets (tp_vnets tp) e). 0 \<le> v \<and> v < int (tp_vnets tp)"
    and "weight_from (tp_vnets tp) (tp_link_map tp) weights"
  shows "\<exists>calls. foldR (link_step mt tp weights dist) (List.product [0..<n] [0..<n]) [] = Inr calls \<and>
    (\<forall>c \<in> set calls. \<exists>i j e. i < n \<and> j < n \<and> call_ends (tp_nodes tp) c = (i, j) \<and>
      call_tables c = link_tables mt (tp_vnets tp) weights dist i j e) \<and>
    (\<forall>i j es e v. i < n \<and> j < n \<and> ((i, j), es) \<in> set (tp_link_map tp) \<and> e \<in> set es \<and>
        v < tp_vnets tp \<and> real_weight (weights v i j) \<longrightarrow>
      (\<exists>c \<in> set calls. call_ends (tp_nodes tp) c = (i, j) \<and>
        call_tables c = link_tables mt (tp_vnets tp) weights dist i j e))"
proof -
  define V where "V = tp_vnets tp"
  let ?lm = "tp_link_map tp"
  obtain e0 where e0: "nd_new mt = Inr e0" using nd_new_ok [OF assms(1)] by blast
  have sp: "shortest_path_to_node mt i j weights dist v = Inr (projr (shortest_path_to_node mt i j weights dist v))" for i j v
    using shortest_path_to_node_correct [OF assms(1), of i j weights dist v] by auto
  define E where "E i j v = projr (shortest_path_to_node mt i j weights dist v)" for i j v
  define R where "R i j = map (\<lambda>v. if real_weight (weights v i j) then E i j v else e0) [0..<V]" for i j
  have keys: "map_of ?lm k = Some es \<longleftrightarrow> (k, es) \<in> set ?lm" for k es
    using assms(2) by (simp add: map_fits_def map_of_eq_Some_iff)
  define entries where "entries i j = (case map_of ?lm (i, j) of None \<Rightarrow> [] | Some es \<Rightarrow> es)" for i j
  have in_entries: "e \<in> set (entries i j) \<longleftrightarrow> (\<exists>es. ((i, j), es) \<in> set ?lm \<and> e \<in> set es)" for i j e
  proof (cases "map_of ?lm (i, j)")
    case None
    with keys [of "(i, j)"] show ?thesis by (simp add: entries_def)
  next
    case (Some a)
    have one: "((i, j), es) \<in> set ?lm \<longleftrightarrow> a = es" for es
      using keys [of "(i, j)" es] unfolding Some by (simp only: option.inject)
    show ?thesis unfolding one by (simp add: entries_def Some)
  qed
  have call: "\<exists>c. make_entry mt tp i j (R i j) e = Inr c \<and> call_ends (tp_nodes tp) c = (i, j) \<and>
      call_tables c = link_tables mt V weights dist i j e" if "e \<in> set (entries i j)" for i j e
  proof -
    have fits: "entry_fits (tp_nodes tp) (i, j) e" and vn: "\<forall>v \<in> set (entry_vnets V e). 0 \<le> v \<and> v < int V"
      using that assms(2,3) unfolding in_entries map_fits_def V_def by fast+
    have "link_route mt V (le_link e) (R i j) = Inr (map (\<lambda>v. if int v \<in> set (entry_vnets V e) then R i j ! v else e0) [0..<V])"
      by (rule link_route_entries [OF e0 _ vn]) (simp add: R_def)
    also have "map (\<lambda>v. if int v \<in> set (entry_vnets V e) then R i j ! v else e0) [0..<V] = link_tables mt V weights dist i j e"
      by (auto simp: link_tables_def R_def E_def e0 intro!: map_cong)
    finally show ?thesis using make_entry_call [OF fits refl] by (simp add: V_def)
  qed
  define C where "C i j e = projr (make_entry mt tp i j (R i j) e)" for i j e
  have C: "make_entry mt tp i j (R i j) e = Inr (C i j e)" "call_ends (tp_nodes tp) (C i j e) = (i, j)"
      "call_tables (C i j e) = link_tables mt V weights dist i j e" if "e \<in> set (entries i j)" for i j e
    using call [OF that] by (auto simp: C_def)
  define real where "real i j \<longleftrightarrow> list_ex (\<lambda>v. real_weight (weights v i j)) [0..<V]" for i j
  have link: "\<exists>e. e \<in> set (entries i j)" if "real i j" for i j
  proof -
    obtain v where "real_weight (weights v i j)" using \<open>real i j\<close> by (auto simp: real_def list_ex_iff)
    then have "weights v i j \<noteq> initial_weights (max_switch_id ?lm + 1) v i j"
      by (auto simp: real_weight_def initial_weights_def)
    then show ?thesis using assms(4) unfolding weight_from_def in_entries by blast
  qed
  have step: "link_step mt tp weights dist (i, j) acc = Inr (acc @ (if real i j then map (C i j) (entries i j) else []))" for i j acc
  proof -
    have rm: "foldR (\<lambda>v route. if real_weight (weights v i j)
             then bindR (shortest_path_to_node mt i j weights dist v) (\<lambda>r. Inr (route[v := r]))
             else Inr route) [0..<V] (replicate V e0) = Inr (R i j)"
      unfolding R_def by (rule routing_map) (simp add: E_def sp [symmetric])
    have "makeLink mt tp i j (R i j) = Inr (map (C i j) (entries i j))" if "real i j"
    proof -
      obtain e es where "((i, j), es) \<in> set ?lm" "e \<in> set es" using link [OF \<open>real i j\<close>] unfolding in_entries by blast
      then have "entry_fits (tp_nodes tp) (i, j) e" using assms(2) unfolding map_fits_def by fast
      then have "2 * tp_nodes tp \<le> i \<or> 2 * tp_nodes tp \<le> j" by (auto simp: entry_fits_def)
      then show ?thesis
        using foldR_collect [of "entries i j" "make_entry mt tp i j (R i j)" "C i j" "[]"] C(1)
        by (simp add: makeLink_def entries_def)
    qed
    then show ?thesis using e0 rm by (simp add: link_step_def real_def V_def)
  qed
  have run: "foldR (link_step mt tp weights dist) ps acc =
      Inr (acc @ concat (map (\<lambda>(i, j). if real i j then map (C i j) (entries i j) else []) ps))" for ps acc
  proof (induction ps arbitrary: acc)
    case (Cons p ps)
    then show ?case by (cases p) (simp add: step)
  qed simp
  let ?calls = "concat (map (\<lambda>(i, j). if real i j then map (C i j) (entries i j) else []) (List.product [0..<n] [0..<n]))"
  have mem: "c \<in> set ?calls \<longleftrightarrow> (\<exists>i j e. i < n \<and> j < n \<and> real i j \<and> e \<in> set (entries i j) \<and> c = C i j e)" for c
    by (auto split: if_splits) force+
  show ?thesis
  proof (intro exI [of _ ?calls] conjI ballI allI impI)
    show "foldR (link_step mt tp weights dist) (List.product [0..<n] [0..<n]) [] = Inr ?calls" by (simp add: run)
  next
    fix c assume "c \<in> set ?calls"
    then obtain i j e where "i < n" "j < n" "e \<in> set (entries i j)" "c = C i j e" unfolding mem by blast
    then show "\<exists>i j e. i < n \<and> j < n \<and> call_ends (tp_nodes tp) c = (i, j) \<and>
      call_tables c = link_tables mt (tp_vnets tp) weights dist i j e" using C(2,3) unfolding V_def by blast
  next
    fix i j es e v assume a: "i < n \<and> j < n \<and> ((i, j), es) \<in> set ?lm \<and> e \<in> set es \<and> v < tp_vnets tp \<and> real_weight (weights v i j)"
    then have "e \<in> set (entries i j)" "real i j" unfolding in_entries real_def by (auto simp: V_def list_ex_iff)
    with a C(2,3) mem show "\<exists>c \<in> set ?calls. call_ends (tp_nodes tp) c = (i, j) \<and>
        call_tables c = link_tables mt (tp_vnets tp) weights dist i j e" unfolding V_def by blast
  qed
qed

text \<open>What the tables offer is what the shortest paths say.\<close>

lemma offers_table_hop:
  assumes ok: "machine_ok mt" and fits: "map_fits (tp_nodes tp) (tp_link_map tp)"
    and N: "tp_nodes tp = mt_base_number mt (mt_NUM mt)"
    and tw: "topology_weights tp = Inr (weights, lat)" and v: "v < tp_vnets tp" and mi: "(m, i) \<in> nd_legal mt"
    and calls: "foldR (link_step mt tp weights dist) (List.product [0..<n] [0..<n]) [] = Inr calls" and s: "s < n"
  shows "offers (tp_nodes tp) calls v (m, i) s next \<longleftrightarrow>
    table_hop n weights dist v (tp_nodes tp + (mt_base_number mt m + i)) s next"
proof -
  let ?V = "tp_vnets tp"
  note from_links = topology_weights_from [OF tw]
  obtain calls' where c': "foldR (link_step mt tp weights dist) (List.product [0..<n] [0..<n]) [] = Inr calls'" and
    all': "\<forall>c \<in> set calls'. \<exists>i j e. i < n \<and> j < n \<and> call_ends (tp_nodes tp) c = (i, j) \<and>
      call_tables c = link_tables mt ?V weights dist i j e"
    and each': "\<forall>i j es e v. i < n \<and> j < n \<and> ((i, j), es) \<in> set (tp_link_map tp) \<and> e \<in> set es \<and>
        v < ?V \<and> real_weight (weights v i j) \<longrightarrow>
      (\<exists>c \<in> set calls'. call_ends (tp_nodes tp) c = (i, j) \<and> call_tables c = link_tables mt ?V weights dist i j e)"
    using all_calls [OF ok fits from_links(2,1), of dist n] by (elim exE conjE) (rule that)
  have eq: "calls' = calls" using c' calls by simp
  note all = all' [unfolded eq] and each = each' [unfolded eq]
  have entry: "(m, i) \<in> nd_abs (link_tables mt ?V weights dist a b e ! v) \<longleftrightarrow>
      int v \<in> set (entry_vnets ?V e) \<and> real_weight (weights v a b) \<and>
      link_is_shortest_path_to_node a b (tp_nodes tp + (mt_base_number mt m + i)) weights dist v" for a b e
  proof -
    obtain r where r: "shortest_path_to_node mt a b weights dist v = Inr r" and
      mem: "(m, i) \<in> nd_abs r \<longleftrightarrow> link_is_shortest_path_to_node a b (tp_nodes tp + (mt_base_number mt m + i)) weights dist v"
      using shortest_path_to_node_correct [OF ok, of a b weights dist v] mi
      by (auto simp: link_is_shortest_path_to_node_def N nd_legal_def)
    obtain e0 where "nd_new mt = Inr e0" "nd_abs e0 = {}" using nd_new_ok [OF ok] by blast
    moreover have "link_tables mt ?V weights dist a b e ! v =
        (if int v \<in> set (entry_vnets ?V e) \<and> real_weight (weights v a b) then r else projr (nd_new mt))"
      using v r by (simp add: link_tables_def)
    ultimately show ?thesis using mem by auto
  qed
  show ?thesis
  proof
    assume "offers (tp_nodes tp) calls v (m, i) s next"
    then obtain c where c: "c \<in> set calls" "call_ends (tp_nodes tp) c = (s, next)" "(m, i) \<in> nd_abs (call_tables c ! v)"
      by (auto simp: offers_def)
    with all obtain e where "next < n" "call_tables c = link_tables mt ?V weights dist s next e" by fastforce
    with c(3) show "table_hop n weights dist v (tp_nodes tp + (mt_base_number mt m + i)) s next"
      by (simp add: entry table_hop_def)
  next
    assume hop: "table_hop n weights dist v (tp_nodes tp + (mt_base_number mt m + i)) s next"
    then have h: "next < n" "real_weight (weights v s next)"
      "link_is_shortest_path_to_node s next (tp_nodes tp + (mt_base_number mt m + i)) weights dist v"
      by (auto simp: table_hop_def)
    then have "weights v s next \<noteq> initial_weights (max_switch_id (tp_link_map tp) + 1) v s next"
      by (auto simp: real_weight_def initial_weights_def)
    with from_links(1) obtain es e where e: "((s, next), es) \<in> set (tp_link_map tp)" "e \<in> set es"
      "int v \<in> set (entry_vnets ?V e)" unfolding weight_from_def by blast
    with each s h v obtain c where "c \<in> set calls" "call_ends (tp_nodes tp) c = (s, next)"
      "call_tables c = link_tables mt ?V weights dist s next e" by meson
    with e(3) h v show "offers (tp_nodes tp) calls v (m, i) s next"
      unfolding offers_def by (intro bexI [of _ c]) (simp_all add: entry, simp add: link_tables_def)
  qed
qed

text \<open>
  C8: Build a topology with the constructor from external links of legal machines and internal
  links between different routers, all of positive weight, and let \<open>createLinks\<close> read it without
  a \<open>fatal\<close> (no two links between the same switches carry the same virtual network). Then
  \<open>createLinks\<close> returns without failing an assertion, and the routing table entries it hands to
  the network lead every packet to its machine: on each virtual network, from every switch that
  reaches the switch of the machine over links of total weight below \<open>INFINITE_LATENCY\<close> (10000),
  some link has the machine in its entry; and whichever such link each switch on the way takes,
  the packet arrives, after no more hops than the weight of any path. There is no routing loop.
\<close>

theorem routing_tables_deliver:
  assumes "machine_ok mt" and "Topology_new mt routers vnets exts ints = Inr tp"
    and "\<forall>el \<in> set exts. el_machine el \<in> nd_legal mt \<and> 0 < bl_weight (el_link el)"
    and "\<forall>il \<in> set ints. il_src il \<noteq> il_dst il \<and> 0 < bl_weight (il_link il)"
    and "topology_weights tp = Inr (weights, lat)"
    and "n = max_switch_id (tp_link_map tp) + 1"
  shows "\<exists>calls. createLinks mt tp = Some (Inr calls) \<and>
    (\<forall>v m i src. v < vnets \<and> (m, i) \<in> nd_legal mt \<and>
        reaches n (weights v) src (tp_nodes tp + (mt_base_number mt m + i)) \<longrightarrow>
      (src \<noteq> tp_nodes tp + (mt_base_number mt m + i) \<longrightarrow> (\<exists>next. offers (tp_nodes tp) calls v (m, i) src next)) \<and>
      (\<forall>pick. (\<forall>s. s \<noteq> tp_nodes tp + (mt_base_number mt m + i) \<and>
            reaches n (weights v) s (tp_nodes tp + (mt_base_number mt m + i)) \<longrightarrow>
            offers (tp_nodes tp) calls v (m, i) s (pick s)) \<longrightarrow>
        (\<exists>hops. (pick ^^ hops) src = tp_nodes tp + (mt_base_number mt m + i) \<and>
          (\<forall>p. is_walk n src (tp_nodes tp + (mt_base_number mt m + i)) p \<longrightarrow> int hops \<le> path_weight (weights v) p))))"
proof -
  let ?N = "tp_nodes tp" and ?lm = "tp_link_map tp"
  let ?final = "\<lambda>m i. ?N + (mt_base_number mt m + i)"
  from Topology_new_fits [OF assms(1-4)] have N: "?N = mt_base_number mt (mt_NUM mt)" and V: "tp_vnets tp = vnets"
    and fits: "map_fits ?N ?lm" by auto
  note from_links = topology_weights_from [OF assms(5)]
  have lw: "link_weights n (weights v)" for v
  proof -
    have from_v: "weights v i j = initial_weights n v i j \<or> i \<noteq> j \<and> 0 < weights v i j" for i j
    proof -
      consider "weights v i j = initial_weights n v i j"
        | es e where "((i, j), es) \<in> set ?lm" "e \<in> set es" "weights v i j = bl_weight (le_link e)"
        using from_links(1) unfolding weight_from_def assms(6) by blast
      then show ?thesis
      proof cases
        case 2
        then have "entry_fits ?N (i, j) e" using fits unfolding map_fits_def by fast
        with 2(3) show ?thesis by (simp add: entry_fits_def)
      qed simp
    qed
    show ?thesis
      unfolding link_weights_def
    proof (intro allI impI conjI)
      fix i j assume "i < n"
      then show "weights v i i = 0" using from_v [of i i] by (simp add: initial_weights_def)
      assume "i \<noteq> j"
      then show "0 < weights v i j" using from_v [of i j] by (auto simp: initial_weights_def INFINITE_LATENCY_def)
    qed
  qed
  have nonneg: "\<forall>v \<in> set [0..<vnets]. \<forall>i < n. (\<forall>j < n. 0 \<le> weights v i j) \<and> weights v i i = 0"
  proof (intro ballI allI impI conjI)
    fix v i j assume "i < n" "j < n"
    with lw [of v] show "0 \<le> weights v i j" by (cases "i = j") (force simp: link_weights_def)+
  qed (use lw in \<open>simp add: link_weights_def\<close>)
  obtain dist lat' isw where sp: "extend_shortest_path n [0..<vnets] (weights, lat, \<lambda>i j v. 0) = Some (Inr (dist, lat', isw))"
    and dist: "\<forall>v \<in> set [0..<vnets]. is_distance n (weights v) (dist v)"
    using paths_correct [OF nonneg, of lat "\<lambda>i j v. 0"] by auto
  obtain calls where calls: "foldR (link_step mt tp weights dist) (List.product [0..<n] [0..<n]) [] = Inr calls"
    using all_calls [OF assms(1) fits from_links(2,1), of dist n] by blast
  have "createLinks mt tp = Some (Inr calls)"
    using sp calls unfolding assms(6) by (simp add: createLinks_def assms(5) V)
  moreover have "(src \<noteq> ?final m i \<longrightarrow> (\<exists>next. offers ?N calls v (m, i) src next)) \<and>
      (\<forall>pick. (\<forall>s. s \<noteq> ?final m i \<and> reaches n (weights v) s (?final m i) \<longrightarrow> offers ?N calls v (m, i) s (pick s)) \<longrightarrow>
        (\<exists>hops. (pick ^^ hops) src = ?final m i \<and>
          (\<forall>p. is_walk n src (?final m i) p \<longrightarrow> int hops \<le> path_weight (weights v) p)))"
    if v: "v < vnets" and mi: "(m, i) \<in> nd_legal mt" and src: "reaches n (weights v) src (?final m i)" for v m i src
  proof -
    have d: "is_distance n (weights v) (dist v)" using dist v by simp
    have ends: "s < n \<and> ?final m i < n" if "reaches n (weights v) s (?final m i)" for s
      using that unfolding reaches_def is_walk_def by (metis hd_in_set last_in_set lessThan_iff subsetD)
    have near: "reaches n (weights v) s (?final m i) \<longleftrightarrow> dist v s (?final m i) < INFINITE_LATENCY" if "s < n" for s
      using d that ends [OF src] unfolding reaches_def is_distance_def by (metis order.strict_trans1)
    have offer: "offers ?N calls v (m, i) s next \<longleftrightarrow> table_hop n weights dist v (?final m i) s next" if "s < n" for s "next"
      using offers_table_hop [OF assms(1) fits N assms(5) _ mi calls that] v V by simp
    have fin: "?final m i < n" "src < n" using ends [OF src] by auto
    have dsrc: "dist v src (?final m i) < INFINITE_LATENCY" using near [OF fin(2)] src by simp
    note deliver = hops_deliver [where weights = weights and dist = dist and v = v, OF lw d fin dsrc]
    have "\<exists>hops. (pick ^^ hops) src = ?final m i \<and>
        (\<forall>p. is_walk n src (?final m i) p \<longrightarrow> int hops \<le> path_weight (weights v) p)"
      if "\<forall>s. s \<noteq> ?final m i \<and> reaches n (weights v) s (?final m i) \<longrightarrow> offers ?N calls v (m, i) s (pick s)" for pick
    proof -
      have "\<forall>s < n. s \<noteq> ?final m i \<and> dist v s (?final m i) < INFINITE_LATENCY \<longrightarrow>
          table_hop n weights dist v (?final m i) s (pick s)"
        using that near offer by blast
      with deliver [of pick] obtain hops where "int hops \<le> dist v src (?final m i)" "(pick ^^ hops) src = ?final m i" by blast
      moreover have "dist v src (?final m i) \<le> path_weight (weights v) p" if "is_walk n src (?final m i) p" for p
        using d that fin unfolding is_distance_def by blast
      ultimately show ?thesis by force
    qed
    then show ?thesis using deliver offer [OF fin(2)] by blast
  qed
  ultimately show ?thesis by blast
qed

text \<open>Two routers, a link between them and two of the example machines behind them.\<close>

definition example_link :: BasicLink where
  "example_link = \<lparr>bl_id = 0, bl_latency = 1, bl_weight = 1, bl_bandwidth_factor = 1, bl_mVnets = []\<rparr>"

definition example_exts :: "BasicExtLink list" where
  "example_exts = map (\<lambda>(mach, r). \<lparr>el_link = example_link, el_machine = mach, el_router = r\<rparr>)
     [((0, 0), 0), ((1, 1), 1)]"

definition example_ints :: "BasicIntLink list" where
  "example_ints = map (\<lambda>(s, d). \<lparr>il_link = example_link, il_src = s, il_dst = d, il_src_outport = ''East'',
     il_dst_inport = ''West''\<rparr>) [(0, 1)]"

lemma routing_tables_deliver_witness:
  "\<exists>tp calls. Topology_new example_machines 2 1 example_exts example_ints = Inr tp \<and>
    createLinks example_machines tp = Some (Inr calls) \<and> (\<exists>next. offers 5 calls 0 (1, 1) 0 next)"
proof -
  have "case Topology_new example_machines 2 1 example_exts example_ints of Inl e \<Rightarrow> False
    | Inr tp \<Rightarrow> tp_nodes tp = 5 \<and> max_switch_id (tp_link_map tp) = 11 \<and> (case topology_weights tp of Inl e \<Rightarrow> False
      | Inr (weights, lat) \<Rightarrow> weights 0 0 10 = 1 \<and> weights 0 10 11 = 1 \<and> weights 0 11 9 = 1)"
    by code_simp
  then obtain tp weights lat where tp: "Topology_new example_machines 2 1 example_exts example_ints = Inr tp"
    and n: "tp_nodes tp = 5" "max_switch_id (tp_link_map tp) = 11" and w: "topology_weights tp = Inr (weights, lat)"
    "weights 0 0 10 = 1 \<and> weights 0 10 11 = 1 \<and> weights 0 11 9 = 1"
    by (auto split: sum.splits prod.splits)
  have exts: "\<forall>el \<in> set example_exts. el_machine el \<in> nd_legal example_machines \<and> 0 < bl_weight (el_link el)"
    by (simp add: example_exts_def example_link_def nd_legal_def example_machines_def)
  have ints: "\<forall>il \<in> set example_ints. il_src il \<noteq> il_dst il \<and> 0 < bl_weight (il_link il)"
    by (simp add: example_ints_def example_link_def)
  have "is_walk 12 0 9 [0, 10, 11, 9]" "path_weight (weights 0) [0, 10, 11, 9] < INFINITE_LATENCY"
    using w(2) by (simp_all add: is_walk_def INFINITE_LATENCY_def)
  then have r: "reaches 12 (weights 0) 0 9" unfolding reaches_def by blast
  have mach: "(1, 1) \<in> nd_legal example_machines" "mt_base_number example_machines 1 + 1 = 4"
    by (simp_all add: nd_legal_def example_machines_def)
  from routing_tables_deliver [OF example_machines_ok tp exts ints w(1), of 12] n obtain calls where
    "createLinks example_machines tp = Some (Inr calls)"
    "\<forall>v m i src. v < 1 \<and> (m, i) \<in> nd_legal example_machines \<and>
        reaches 12 (weights v) src (5 + (mt_base_number example_machines m + i)) \<longrightarrow>
      (src \<noteq> 5 + (mt_base_number example_machines m + i) \<longrightarrow> (\<exists>next. offers 5 calls v (m, i) src next))"
    by auto
  moreover from this(2) [rule_format, of 0 1 1 0] mach r have "\<exists>next. offers 5 calls 0 (1, 1) 0 next" by simp
  ultimately show ?thesis using tp by blast
qed

end
