(* ===== verification/Spec2Isabelle.thy ===== *)
theory Spec2Isabelle
  imports NetworkFlits TraceDriver KernelProperties ThrottleProperties RoutingTables
begin

text \<open>
  A verification development of the network simulator of CHIPSIM, the modified Garnet of
  \<open>integrations/gem5\<close>, which replays a trace of packets through a model of the on-chip network.
  Paths below are under \<open>src/CHIPSIM/integrations/gem5/src/\<close>.

  \<^bold>\<open>The program.\<close> A \<open>GarnetNetwork\<close> holds routers, network interfaces and links. The trace
  driver (\<open>GarnetNetwork::wakeup\<close>) reads the trace line by line and hands each record, when it
  is due, to the interface of its source. An interface turns records into packets of one flit,
  gives each a virtual channel, and sends it to its router over a link when the channel has a
  credit. A router receives flits into virtual channels, routes them, allocates an output
  virtual channel and the switch, and sends them on. Credits go back on links of their own.
  The interface of the destination counts the flit, returns a credit, and hands the message to
  the protocol. Objects act only when they wake up, and ask for wakeups of themselves or others.

  \<^bold>\<open>Conventions.\<close> Every operation is a function from the state to a result of type \<open>res\<close>: the
  new state, or the error that stopped it. Failed assertions, \<open>panic\<close>, \<open>fatal\<close>, accesses out of
  range and null pointers are errors. Ticks and cycles are natural numbers, differences of ticks
  wrap at 64 bits, \<open>int\<close> is \<open>int\<close>. Objects refer to each other by their index: links are
  entries of one store, queues are named by \<open>queue_ref\<close>, sleepers by \<open>consumer_ref\<close>. The present
  tick and the results of random functions are arguments.

  \<^bold>\<open>The theories\<close>, with the code they model:

  \<^item> \<open>Garnet_Prelude\<close>: results, access to vectors, loops, and the lemmas the proofs share.
  \<^item> \<open>Clocked\<close> (\<open>sim/clocked_object.hh\<close>, \<open>mem/ruby/common/Consumer\<close>): the cached clock refines the
    formula for clock edges; a wakeup that was asked for is never lost.
  \<^item> \<open>EventQueue\<close>, \<open>EventQueueSpec\<close>, \<open>KernelInvariant\<close>, \<open>KernelSteps\<close>, \<open>SimLoop\<close>,
    \<open>KernelProperties\<close> (\<open>sim/eventq\<close>, \<open>base/flags.hh\<close>, \<open>doSimLoop\<close> of \<open>sim/simulate.cc\<close>): the event
    queue under the network, a list of lists of events whose pointers go stale, over an explicit
    store. It refines bins in the order of time and priority (\<open>bins_at\<close>); the operations that a
    handler may use (\<open>api_step\<close>) keep the state of the kernel good (\<open>kernel_ok\<close>); the main loop
    services the events in order and its clock never goes back.
  \<^item> \<open>NetDest\<close> (\<open>mem/ruby/common/Set\<close>, \<open>NetDest\<close>): sets of destinations, against sets of machine
    identities.
  \<^item> \<open>Flit\<close>, \<open>FlitBuffer\<close>, \<open>VirtualChannel\<close>, \<open>OutVcState\<close>: flits, credits, queues, the states of
    channels; credits stay within their bounds.
  \<^item> \<open>RoutingUnit\<close>: table, XY and custom routing; the table lookup picks a candidate of least
    weight, XY routing reaches every router of a mesh.
  \<^item> \<open>NetworkLink\<close>, \<open>LinkData\<close>, \<open>NetworkBridge\<close>, \<open>GarnetLink\<close>: links and what they carry, clock
    crossing and change of width, and the pairing of bridges.
  \<^item> \<open>InputUnit\<close>, \<open>OutputUnit\<close>, \<open>CrossbarSwitch\<close>, \<open>SwitchAllocator\<close>, \<open>Router\<close>: the pipeline of a
    router; allocation gives each port at most one flit, and a wakeup keeps every flit.
  \<^item> \<open>MessageBuffer\<close> (\<open>mem/ruby/network/MessageBuffer\<close>): order, room, conservation of messages.
  \<^item> \<open>Topology\<close>, \<open>RoutingTables\<close>, \<open>Network\<close> (\<open>mem/ruby/network/\<close>): all-pairs shortest paths
    terminate with least weights, the routing table entries that \<open>createLinks\<close> hands to the network
    lead to the destination, node numbers are bijective.
  \<^item> \<open>GarnetStats\<close>, \<open>NetworkInterface\<close>, \<open>InterfaceChannels\<close>, \<open>InterfaceTrace\<close>, \<open>InterfaceReceive\<close>:
    the counters, the interface, and the three parts of its wakeup: choosing channels and sending,
    making packets of the trace, receiving flits and credits. The part after the injection
    (\<open>ni_wakeup_rest\<close>) has an exact account of flits, credits and counters (\<open>exchange\<close>).
  \<^item> \<open>TraceFile\<close>: lines of the trace, as \<open>fgets\<close>, \<open>strtok\<close> and \<open>atoi\<close> read them; printing and
    reading a record are inverse.
  \<^item> \<open>GarnetNetwork\<close>: construction, wiring, delivery of messages, \<open>NetworkInterface::wakeup\<close>, the
    trace driver, statistics and functional access.
  \<^item> \<open>NetworkRun\<close>, \<open>NetworkStart\<close>: runs of the whole network. An event is the wakeup of the driver,
    a router, an output port of a router, an interface or a link, and a run is any sequence of events.
    Flits are accounted for by their packet number and flit number (\<open>net_keys\<close>), component by
    component, so that the account of the network is the sum of the accounts of its parts. \<open>init\<close>
    makes a network with an empty account.
  \<^item> \<open>ChannelCredits\<close>, \<open>InterfaceCredits\<close>, \<open>CreditRun\<close>, \<open>CreditStart\<close>: flow control, end to end.
    The tokens of a credit loop (\<open>net_tokens\<close>) count, for one virtual channel of one hop, the
    credits of the sender, the flits on the way and in the buffer, and the credits on the way
    back. Every event keeps them, so no buffer ever holds more flits than the sender had credits.
  \<^item> \<open>RouterData\<close>, \<open>NetworkFlits\<close>: flits and credits are objects of one class, which only the wiring
    keeps apart; it does so for ever (\<open>apart\<close>). So what interfaces deliver are flits of the trace, and
    the account of a run is exact: made, in the network, or counted as received.
  \<^item> \<open>TraceDriver\<close>: the driver against the list of records: what a wakeup hands over, that a trace
    in the order of time is replayed completely, up to the limit on packets when one is set, and the
    two ways the driver stops early.

  \<^item> \<open>SimpleRouting\<close>, \<open>SimpleBuffers\<close>, \<open>PerfectSwitch\<close>, \<open>Throttle\<close> (\<open>mem/ruby/network/simple/\<close>): the
    simple network, gem5's other network under the same protocols: the routing unit, the
    switch and the throttle of each output port, over a pool of message buffers that they share
    by reference. \<open>SwitchWakeup\<close>, \<open>SwitchProgress\<close>, \<open>SwitchProperties\<close>: the deliveries a message
    stands for are conserved when it is split among the links, a wakeup leaves no ready message
    behind without asking for another, and a switch in good order (\<open>live\<close>) never fails.
    \<open>ThrottleBandwidth\<close>, \<open>ThrottleProgress\<close>, \<open>ThrottleProperties\<close>: the account of a throttle, bytes
    moved against bandwidth spent and units owed; its loops end, it never fails in good order
    (\<open>th_live\<close>), does not sleep with work left, and keeps to its bandwidth over any run.

  \<^bold>\<open>Interfaces.\<close> The locales \<open>fifo_queue\<close> and \<open>timed_queue\<close> state what the code asks of a
  queue of flits, \<open>prio_queue\<close> what a message buffer asks of its heap, \<open>dest_set\<close> what routing
  asks of a set of destinations, and \<open>credit_counter\<close> what flow control asks of a count of
  credits. The locale \<open>wiring\<close> lists what the initialisation of the network is made of: a relation
  that every part keeps holds between a network before and after \<open>init\<close>. Each is interpreted on the model's own definitions in the theory that provides them.

  \<^bold>\<open>Bounds and termination.\<close> The search for shortest paths may run forever in general and is a
  partial function; it is proved total for the weights the code accepts. The loops over the
  pointers of the event queue end on well-formed lists only; they are partial functions with
  values in \<open>run\<close>, where \<open>None\<close> is not returning, and are proved to return in every good state.
  The main loop returns at an exit event, if there is one: what is proved of it holds of every
  run that returns, and the assertions of every round hold whether it does or not. The trace driver calls
  itself while packets are due in the same cycle; it ends because every call consumes a line.
  The loops of a switch and of a throttle of the simple network are partial too (\<open>repeatO\<close>), and are
  proved to return: a turn takes a message out of the buffer, or spends bandwidth.
  No definition uses fuel except where the code has a counter.

  \<^bold>\<open>Not modelled\<close>: printing and debugging output, the formulas that \<open>regStats\<close> registers, the
  optional fault model, the part of \<open>flitisizeMessage\<close> behind \<open>network_trace\<close>, which is the
  constant true, and everything outside the network and the
  event queue: the threads and locks of the simulator (the invariant of the kernel is that of
  the serial mode), global events, clock domains, the coherence protocols, processors, memories.
  Runs of the network take these wakeups in any order and at any time, among others in the order
  the event queue gives them. They cover networks without bridges: a bridge cuts a flit in parts or
  joins them, which the theory \<open>NetworkBridge\<close> treats on its own. A run is not tied to the events
  of the kernel: what a component asks for is the value \<open>reqs\<close> of its wakeup.
  Handlers of events (\<open>api_step\<close>) schedule, deschedule, reschedule and set flags; they
  do not set the clock and do not service the queue themselves.

  \<^bold>\<open>Arithmetic.\<close> The single precision ceilings of \<open>flit::serialize\<close> and \<open>NetworkBridge\<close> are
  exact integer divisions here, which is what they compute for widths and sizes below \<open>2 ^ 24\<close>.
  The \<open>int\<close> product of \<open>Throttle::getLinkBandwidth\<close> and the sums of bandwidths and the shift of
  \<open>WeightBased\<close> do not overflow in the model. \<open>std::sort\<close> is a stable sort here, which it is for
  vectors of at most 16 elements in the common library.
\<close>

end
